(* ===== verification/Prelude.thy ===== *)
theory Prelude
  imports Main "HOL-Library.Word"
begin

text \<open>
  Shared vocabulary of the development: the machine-integer types of the C sources, the
  status codes of the vs_* services (Esm/ib/include/ib_status.h), the conversions C applies
  to unsigned results returned as \<^verbatim>\<open>int\<close>, the GCC bit-counting builtins the sources
  call, and generic facts on words, lists and options.  The \<open>vs_simps\<close> and \<open>vs_defs\<close>
  collections gather rewrite rules that the component theories contribute to.
\<close>

unbundle bit_operations_syntax

named_theorems vs_simps \<open>evaluation rules of the service operations on well-formed states\<close>
named_theorems vs_defs \<open>definitions unfolded together when a concrete state is evaluated\<close>

type_synonym u8 = "8 word"
type_synonym u16 = "16 word"
type_synonym u32 = "32 word"
type_synonym u64 = "64 word"

section \<open>Status codes\<close>

text \<open>The codes the modelled functions return; the source has them as macros
  VSTATUS_* in ib_status.h.\<close>

datatype Status_t =
    VSTATUS_OK
  | VSTATUS_BAD
  | VSTATUS_ILLPARM
  | VSTATUS_NOMEM
  | VSTATUS_TIMEOUT
  | VSTATUS_NXIO

section \<open>Conversions and GCC builtins\<close>

text \<open>An \<^verbatim>\<open>unsigned\<close> 32-bit value converted to the \<^verbatim>\<open>int\<close> a function returns.\<close>

definition c_int :: "nat \<Rightarrow> int" where
  "c_int n = sint (of_nat n :: u32)"

lemma c_int_small [simp]: "n < 2 ^ 31 \<Longrightarrow> c_int n = int n"
  by (simp add: c_int_def signed_of_nat signed_take_bit_int_eq_self)

lemma c_int_nonneg_ne: "n < 2 ^ 31 \<Longrightarrow> c_int n \<noteq> - 1"
  by simp

lemma bit_u32_less: "bit (w :: u32) i \<Longrightarrow> i < 32"
  by (drule bit_imp_le_length) simp

text \<open>\<^verbatim>\<open>__builtin_popcount\<close>, \<^verbatim>\<open>__builtin_ctz\<close> and \<^verbatim>\<open>__builtin_clz\<close> on a
  32-bit word.  GCC leaves the last two undefined at zero; the sources never call them there,
  which the lemmas on the scans show.\<close>

definition popcount :: "u32 \<Rightarrow> nat" where
  "popcount w = length (filter (bit w) [0..<32])"

definition ctz :: "u32 \<Rightarrow> nat" where
  "ctz w = (case find (bit w) [0..<32] of Some i \<Rightarrow> i | None \<Rightarrow> 32)"

definition clz :: "u32 \<Rightarrow> nat" where
  "clz w = (case find (bit w) (rev [0..<32]) of Some i \<Rightarrow> 31 - i | None \<Rightarrow> 32)"

lemma u32_eq_iff: "(v :: u32) = w \<longleftrightarrow> (\<forall>i < 32. bit v i = bit w i)"
  by (auto simp: bit_eq_iff)

lemma u32_nonzero_iff: "(w :: u32) \<noteq> 0 \<longleftrightarrow> (\<exists>i < 32. bit w i)"
  by (auto simp: u32_eq_iff)

lemma find_upt_Some:
  "find P [0..<n] = Some i \<longleftrightarrow> i < n \<and> P i \<and> (\<forall>j < i. \<not> P j)"
  by (auto simp: find_Some_iff intro!: exI [of _ i])

lemma ctz_props:
  assumes "w \<noteq> 0"
  shows "ctz w < 32" "bit w (ctz w)" "\<And>j. j < ctz w \<Longrightarrow> \<not> bit w j"
proof -
  obtain k where k: "find (bit w) [0..<32] = Some k"
    using assms by (cases "find (bit w) [0..<32]") (auto simp: find_None_iff u32_nonzero_iff)
  then have *: "k < 32 \<and> bit w k \<and> (\<forall>j < k. \<not> bit w j)"
    by (simp add: find_upt_Some)
  show "ctz w < 32" "bit w (ctz w)" "\<And>j. j < ctz w \<Longrightarrow> \<not> bit w j"
    using k * by (auto simp: ctz_def)
qed

lemma clz_props:
  assumes "w \<noteq> 0"
  shows "clz w < 32" "bit w (31 - clz w)" "\<And>j. 31 - clz w < j \<Longrightarrow> \<not> bit w j"
proof -
  obtain k where k: "find (bit w) (rev [0..<32]) = Some k"
    using assms
    by (cases "find (bit w) (rev [0..<32])") (auto simp: find_None_iff u32_nonzero_iff)
  then obtain i where i: "i < 32" "bit w (rev [0..<32] ! i)" "k = rev [0..<32] ! i"
    "\<And>j. j < i \<Longrightarrow> \<not> bit w (rev [0..<32] ! j)"
    by (auto simp: find_Some_iff)
  have k': "k = 31 - i" using i(1,3) by (simp add: rev_nth)
  have none: "\<not> bit w j" if "k < j" for j
  proof (cases "j < 32")
    case True
    then have "31 - j < i" using that k' by simp
    from i(4) [OF this] True show ?thesis by (simp add: rev_nth)
  next
    case False
    then show ?thesis by (auto dest: bit_u32_less)
  qed
  have clz: "clz w = i" using k k' i(1) by (simp add: clz_def)
  show "clz w < 32" using clz i(1) by simp
  show "bit w (31 - clz w)" using i(2,3) k' clz by simp
  show "\<And>j. 31 - clz w < j \<Longrightarrow> \<not> bit w j" using none clz k' by simp
qed

lemma popcount_card: "popcount w = card {i. i < 32 \<and> bit w i}"
proof -
  have "popcount w = card (set (filter (bit w) [0..<32]))"
    unfolding popcount_def by (rule distinct_card [symmetric]) simp
  also have "set (filter (bit w) [0..<32]) = {i. i < 32 \<and> bit w i}" by auto
  finally show ?thesis .
qed

section \<open>Bit masks\<close>

lemma bit_mask_u32: "bit (mask n :: u32) i \<longleftrightarrow> i < 32 \<and> i < n"
  by (auto simp: bit_mask_iff)

section \<open>Lists\<close>

lemma nth_list_update_if: "xs[i := v] ! j = (if i = j \<and> i < length xs then v else xs ! j)"
  by (cases "i < length xs") (auto simp: nth_list_update list_update_beyond)

lemma div32_cases:
  fixes n :: nat
  obtains q r where "n = 32 * q + r" "r < 32" "n div 32 = q" "n mod 32 = r"
  using that [of "n div 32" "n mod 32"] by simp

lemma ceil_div_32: "((n :: nat) + 31) div 32 = (if n mod 32 = 0 then n div 32 else Suc (n div 32))"
proof (rule div32_cases [of n])
  fix q r assume n: "n = 32 * q + r" "r < 32" "n div 32 = q" "n mod 32 = r"
  have "(r + 31) div 32 = (if r = 0 then 0 else 1)"
    using n(2) by (cases "r = 0") (simp_all add: div_nat_eqI)
  moreover have "(n + 31) div 32 = q + (r + 31) div 32"
    unfolding n(1) add.assoc by simp
  ultimately show ?thesis using n(3,4) by simp
qed

lemma less_ceil_div_32:
  assumes "(n :: nat) < m"
  shows "n div 32 < (m + 31) div 32"
proof (cases "m mod 32 = 0")
  case True
  then have "n div 32 < m div 32" using assms by (simp add: less_mult_imp_div_less mod_eq_0_iff_dvd)
  with True show ?thesis by (simp add: ceil_div_32)
next
  case False
  have "n div 32 \<le> m div 32" by (rule div_le_mono) (use assms in simp)
  with False show ?thesis by (simp add: ceil_div_32)
qed

lemma ceil_div_32_bound: "(n :: nat) \<le> 32 * ((n + 31) div 32)"
  by (rule div32_cases [of n]) (simp add: ceil_div_32)

section \<open>Sequencing\<close>

text \<open>The second computation runs on the result of the first, unless that is an error.\<close>

definition and_then :: "'e + 'a \<Rightarrow> ('a \<Rightarrow> 'e + 'b) \<Rightarrow> 'e + 'b" where
  "and_then r f = (case r of Inl e \<Rightarrow> Inl e | Inr x \<Rightarrow> f x)"

lemma and_then_simps [simp]: "and_then (Inl e) f = Inl e" "and_then (Inr x) f = f x"
  by (simp_all add: and_then_def)

lemma and_then_Inr_iff: "and_then r f = Inr y \<longleftrightarrow> (\<exists>x. r = Inr x \<and> f x = Inr y)"
  by (cases r) auto

section \<open>Programs of operations\<close>

text \<open>A sequence of operations run on a state, stopping at the first error, and the same
  sequence run on an abstract state; \<open>data_refinement\<close> lifts a step-wise simulation to
  sequences.\<close>

fun run_ops :: "('op \<Rightarrow> 's \<Rightarrow> 'e + 'r \<times> 's) \<Rightarrow> 'op list \<Rightarrow> 's \<Rightarrow> 'e + 'r list \<times> 's" where
  "run_ops f [] s = Inr ([], s)"
| "run_ops f (p # ps) s =
    (case f p s of Inl e \<Rightarrow> Inl e
     | Inr (r, s1) \<Rightarrow>
        (case run_ops f ps s1 of Inl e \<Rightarrow> Inl e | Inr (rs, s2) \<Rightarrow> Inr (r # rs, s2)))"

fun run_abs :: "('op \<Rightarrow> 'a \<Rightarrow> 'r \<times> 'a) \<Rightarrow> 'op list \<Rightarrow> 'a \<Rightarrow> 'r list \<times> 'a" where
  "run_abs g [] a = ([], a)"
| "run_abs g (p # ps) a =
    (let (r, a1) = g p a; (rs, a2) = run_abs g ps a1 in (r # rs, a2))"

locale data_refinement =
  fixes step :: "'op \<Rightarrow> 's \<Rightarrow> 'e + 'r \<times> 's"
    and spec :: "'op \<Rightarrow> 'a \<Rightarrow> 'r \<times> 'a"
    and rel :: "'s \<Rightarrow> 'a \<Rightarrow> bool"
  assumes simulates: "rel s a \<Longrightarrow> \<exists>s'. step p s = Inr (fst (spec p a), s') \<and> rel s' (snd (spec p a))"
begin

lemma run_simulates:
  "rel s a \<Longrightarrow> \<exists>s'. run_ops step ps s = Inr (fst (run_abs spec ps a), s') \<and>
     rel s' (snd (run_abs spec ps a))"
proof (induction ps arbitrary: s a)
  case (Cons p ps)
  obtain s1 where s1: "step p s = Inr (fst (spec p a), s1)" "rel s1 (snd (spec p a))"
    using simulates [OF Cons.prems] by blast
  from Cons.IH [OF this(2)] s1(1) show ?case
    by (auto split: prod.splits)
qed simp

end

end
