(* ===== verification/VsLock.thy ===== *)
theory VsLock
  imports Prelude
begin

text \<open>
  Thread, reader/writer and recursive spin locks: Esm/ib/src/ibaccess/vs_lck.c over the
  declarations of Esm/ib/include/vs_g.h.

  A \<open>Lock_t\<close> has the three public words of the C structure and, for its opaque part, the
  state of the pthread objects the implementation keeps there.  The pthread calls are the
  C library's: a mutex has an owner, a rwlock a writer and a number of readers, and a call
  that cannot proceed blocks.  An operation returns \<open>None\<close> when it blocks and
  \<open>Some (status, handle)\<close> otherwise; a NULL handle is \<open>None\<close>.  The result of
  \<^verbatim>\<open>pthread_*_init\<close> and the name \<^verbatim>\<open>vs_thread_name\<close> reports for the caller are arguments.
  The run-time check that the private structure fits into the opaque words never fires on
  the supported targets and is left out.
\<close>

section \<open>State\<close>

abbreviation (input) VLOCK_LOCKED :: u32 where "VLOCK_LOCKED \<equiv> 0"
abbreviation (input) VLOCK_FREE :: u32 where "VLOCK_FREE \<equiv> 1"
abbreviation (input) VLOCK_SPIN :: u32 where "VLOCK_SPIN \<equiv> 3"
abbreviation (input) VLOCK_THREAD :: u32 where "VLOCK_THREAD \<equiv> 4"
abbreviation (input) VLOCK_RWTHREAD :: u32 where "VLOCK_RWTHREAD \<equiv> 5"
abbreviation (input) VLOCK_THREADLOCK_MAGIC :: u32 where "VLOCK_THREADLOCK_MAGIC \<equiv> 0x283CB160"
abbreviation (input) VLOCK_RWTHREADLOCK_MAGIC :: u32 where "VLOCK_RWTHREADLOCK_MAGIC \<equiv> 0x283CB185"
abbreviation (input) VLOCK_SPINLOCK_MAGIC :: u32 where "VLOCK_SPINLOCK_MAGIC \<equiv> 0xAF22AE30"

type_synonym tid = nat

record Lock_t =
  lk_type :: u32
  lk_status :: u32
  lk_magic :: u32
  mutex_owner :: "tid option"
  rw_writer :: "tid option"
  rw_readers :: nat
  reader_count :: u32
  owner_thread :: u64
  spin_count :: u32

definition zero_lock :: Lock_t where
  "zero_lock = \<lparr>lk_type = 0, lk_status = 0, lk_magic = 0, mutex_owner = None,
     rw_writer = None, rw_readers = 0, reader_count = 0, owner_thread = 0, spin_count = 0\<rparr>"

type_synonym lock_result = "(Status_t \<times> Lock_t option) option"

section \<open>Creation\<close>

definition vs_lock_init ::
  "bool \<Rightarrow> tid \<Rightarrow> u64 option \<Rightarrow> Lock_t option \<Rightarrow> u32 \<Rightarrow> u32 \<Rightarrow> Status_t \<times> Lock_t option" where
  "vs_lock_init init_ok self thread_name handle state type =
    (case handle of None \<Rightarrow> (VSTATUS_ILLPARM, None)
     | Some h \<Rightarrow>
      if state \<noteq> VLOCK_LOCKED \<and> state \<noteq> VLOCK_FREE then (VSTATUS_ILLPARM, Some h)
      else if type \<noteq> VLOCK_SPIN \<and> type \<noteq> VLOCK_THREAD \<and> type \<noteq> VLOCK_RWTHREAD
        then (VSTATUS_ILLPARM, Some h)
      else if type = VLOCK_THREAD then
       (if \<not> init_ok then (VSTATUS_ILLPARM, Some zero_lock)
        else
         let h1 = zero_lock\<lparr>lk_type := VLOCK_THREAD, lk_magic := VLOCK_THREADLOCK_MAGIC\<rparr> in
         if state = VLOCK_LOCKED
         then (VSTATUS_OK, Some (h1\<lparr>mutex_owner := Some self, lk_status := VLOCK_LOCKED\<rparr>))
         else (VSTATUS_OK, Some (h1\<lparr>lk_status := VLOCK_FREE\<rparr>)))
      else if type = VLOCK_RWTHREAD then
       (if \<not> init_ok then (VSTATUS_ILLPARM, Some zero_lock)
        else
         let h1 = zero_lock\<lparr>lk_status := VLOCK_FREE, reader_count := 0\<rparr>;
             h2 = (if state = VLOCK_LOCKED
                   then h1\<lparr>rw_writer := Some self, lk_status := VLOCK_LOCKED\<rparr> else h1)
         in (VSTATUS_OK, Some (h2\<lparr>lk_type := VLOCK_RWTHREAD,
                                   lk_magic := VLOCK_RWTHREADLOCK_MAGIC\<rparr>)))
      else
       (if \<not> init_ok then (VSTATUS_ILLPARM, Some zero_lock)
        else
         let h1 = zero_lock\<lparr>lk_status := VLOCK_FREE, spin_count := 0, owner_thread := 0\<rparr>;
             h2 = (if state = VLOCK_LOCKED
                   then h1\<lparr>spin_count := spin_count h1 + 1, lk_status := VLOCK_LOCKED,
                           owner_thread := (case thread_name of Some n \<Rightarrow> n
                                              | None \<Rightarrow> owner_thread h1)\<rparr>
                   else h1)
         in (VSTATUS_OK, Some (h2\<lparr>lk_type := VLOCK_SPIN, lk_magic := VLOCK_SPINLOCK_MAGIC\<rparr>))))"

section \<open>Thread locks and reader/writer locks\<close>

definition vs_wrlock :: "tid \<Rightarrow> Lock_t option \<Rightarrow> lock_result" where
  "vs_wrlock self handle =
    (case handle of None \<Rightarrow> Some (VSTATUS_ILLPARM, None)
     | Some h \<Rightarrow>
      if lk_type h \<noteq> VLOCK_RWTHREAD then Some (VSTATUS_ILLPARM, Some h)
      else if lk_magic h \<noteq> VLOCK_RWTHREADLOCK_MAGIC then Some (VSTATUS_ILLPARM, Some h)
      else if rw_writer h \<noteq> None \<or> rw_readers h \<noteq> 0 then None
      else Some (VSTATUS_OK, Some (h\<lparr>rw_writer := Some self, lk_status := VLOCK_LOCKED\<rparr>)))"

definition vs_rdlock :: "tid \<Rightarrow> Lock_t option \<Rightarrow> lock_result" where
  "vs_rdlock self handle =
    (case handle of None \<Rightarrow> Some (VSTATUS_ILLPARM, None)
     | Some h \<Rightarrow>
      if lk_type h \<noteq> VLOCK_RWTHREAD then Some (VSTATUS_ILLPARM, Some h)
      else if lk_magic h \<noteq> VLOCK_RWTHREADLOCK_MAGIC then Some (VSTATUS_ILLPARM, Some h)
      else if rw_writer h \<noteq> None then None
      else Some (VSTATUS_OK, Some (h\<lparr>rw_readers := Suc (rw_readers h),
                                      reader_count := reader_count h + 1\<rparr>)))"

text \<open>\<^verbatim>\<open>pthread_rwlock_unlock\<close> releases the write lock if there is a writer and one
  read lock otherwise; \<^verbatim>\<open>vs_rwunlock\<close> decides which counter to touch from
  \<^verbatim>\<open>handle->status\<close>.\<close>

definition rwlock_release :: "Lock_t \<Rightarrow> Lock_t" where
  "rwlock_release h =
    (if rw_writer h \<noteq> None then h\<lparr>rw_writer := None\<rparr> else h\<lparr>rw_readers := rw_readers h - 1\<rparr>)"

definition vs_rwunlock :: "tid \<Rightarrow> Lock_t option \<Rightarrow> lock_result" where
  "vs_rwunlock self handle =
    (case handle of None \<Rightarrow> Some (VSTATUS_ILLPARM, None)
     | Some h \<Rightarrow>
      if lk_type h \<noteq> VLOCK_RWTHREAD then Some (VSTATUS_ILLPARM, Some h)
      else if lk_magic h \<noteq> VLOCK_RWTHREADLOCK_MAGIC then Some (VSTATUS_ILLPARM, Some h)
      else if lk_status h = VLOCK_FREE
        then Some (VSTATUS_OK, Some (rwlock_release (h\<lparr>reader_count := reader_count h - 1\<rparr>)))
      else Some (VSTATUS_OK, Some (rwlock_release (h\<lparr>lk_status := VLOCK_FREE\<rparr>))))"

text \<open>\<^verbatim>\<open>vs_lock\<close> validates the handle, waits for the mutex, and validates the magic again
  because a deletion may have gone through while it waited.  The two halves are separate
  definitions so that the interleavings below can place another thread between them.\<close>

definition vs_lock_validate :: "Lock_t \<Rightarrow> Status_t" where
  "vs_lock_validate h =
    (if lk_type h \<noteq> VLOCK_THREAD then VSTATUS_ILLPARM
     else if lk_magic h \<noteq> VLOCK_THREADLOCK_MAGIC then VSTATUS_ILLPARM
     else VSTATUS_OK)"

definition vs_lock_acquire :: "tid \<Rightarrow> Lock_t \<Rightarrow> (Status_t \<times> Lock_t) option" where
  "vs_lock_acquire self h =
    (if mutex_owner h \<noteq> None then None
     else if lk_magic h \<noteq> VLOCK_THREADLOCK_MAGIC then Some (VSTATUS_ILLPARM, h)
     else Some (VSTATUS_OK, h\<lparr>mutex_owner := Some self, lk_status := VLOCK_LOCKED\<rparr>))"

definition vs_lock :: "tid \<Rightarrow> Lock_t option \<Rightarrow> lock_result" where
  "vs_lock self handle =
    (case handle of None \<Rightarrow> Some (VSTATUS_ILLPARM, None)
     | Some h \<Rightarrow>
      if lk_type h = VLOCK_RWTHREAD then vs_wrlock self handle
      else if vs_lock_validate h \<noteq> VSTATUS_OK then Some (vs_lock_validate h, Some h)
      else map_option (map_prod id Some) (vs_lock_acquire self h))"

definition vs_unlock :: "tid \<Rightarrow> Lock_t option \<Rightarrow> lock_result" where
  "vs_unlock self handle =
    (case handle of None \<Rightarrow> Some (VSTATUS_ILLPARM, None)
     | Some h \<Rightarrow>
      if lk_type h = VLOCK_RWTHREAD then vs_rwunlock self handle
      else if lk_type h \<noteq> VLOCK_THREAD then Some (VSTATUS_ILLPARM, Some h)
      else if lk_magic h \<noteq> VLOCK_THREADLOCK_MAGIC then Some (VSTATUS_ILLPARM, Some h)
      else Some (VSTATUS_OK, Some (h\<lparr>lk_status := VLOCK_FREE, mutex_owner := None\<rparr>)))"

definition vs_lock_delete :: "tid \<Rightarrow> Lock_t option \<Rightarrow> lock_result" where
  "vs_lock_delete self handle =
    (case handle of None \<Rightarrow> Some (VSTATUS_ILLPARM, None)
     | Some h \<Rightarrow>
      if lk_type h \<noteq> VLOCK_THREAD \<and> lk_type h \<noteq> VLOCK_RWTHREAD \<and> lk_type h \<noteq> VLOCK_SPIN
        then Some (VSTATUS_ILLPARM, Some h)
      else if lk_magic h \<noteq> VLOCK_THREADLOCK_MAGIC \<and> lk_magic h \<noteq> VLOCK_RWTHREADLOCK_MAGIC \<and>
              lk_magic h \<noteq> VLOCK_SPINLOCK_MAGIC then Some (VSTATUS_ILLPARM, Some h)
      else if lk_type h = VLOCK_RWTHREAD then
        (case vs_wrlock self handle of
           None \<Rightarrow> None
         | Some (_, h') \<Rightarrow> Some (VSTATUS_OK, map_option (\<lambda>l. l\<lparr>lk_type := 0xFFFFFFFF,
                             lk_status := 0xFFFFFFFF, lk_magic := 0\<rparr>) h'))
      else if mutex_owner h \<noteq> None then None
      else Some (VSTATUS_OK, Some (h\<lparr>lk_type := 0xFFFFFFFF, lk_status := 0xFFFFFFFF,
                                      lk_magic := 0\<rparr>)))"

section \<open>Recursive spin locks\<close>

text \<open>The part of \<^verbatim>\<open>vs_spinlock\<close> that runs with the internal mutex held once the status
  is no longer VLOCK_LOCKED: on the first pass, or after the wait on the condition.\<close>

definition spin_take :: "u64 option \<Rightarrow> Lock_t \<Rightarrow> Status_t \<times> Lock_t option" where
  "spin_take thread_name h =
    (if lk_magic h = VLOCK_SPINLOCK_MAGIC
     then (VSTATUS_OK, Some (h\<lparr>lk_status := VLOCK_LOCKED, spin_count := 1,
             owner_thread := (case thread_name of Some n \<Rightarrow> n | None \<Rightarrow> owner_thread h)\<rparr>))
     else (VSTATUS_NXIO, Some h))"

definition vs_spinlock :: "u64 option \<Rightarrow> Lock_t option \<Rightarrow> lock_result" where
  "vs_spinlock thread_name handle =
    (case handle of None \<Rightarrow> Some (VSTATUS_ILLPARM, None)
     | Some h \<Rightarrow>
      if lk_type h \<noteq> VLOCK_SPIN then Some (VSTATUS_ILLPARM, Some h)
      else if lk_magic h \<noteq> VLOCK_SPINLOCK_MAGIC then Some (VSTATUS_ILLPARM, Some h)
      else if lk_status h = VLOCK_LOCKED then
        (case thread_name of None \<Rightarrow> Some (VSTATUS_NXIO, Some h)
         | Some n \<Rightarrow>
            if owner_thread h = n
            then Some (VSTATUS_OK, Some (h\<lparr>spin_count := spin_count h + 1\<rparr>))
            else None)
      else Some (spin_take thread_name h))"

text \<open>A waiter that is signalled re-tests the status and then continues with \<open>spin_take\<close>.\<close>

definition spin_wakeup :: "u64 option \<Rightarrow> Lock_t \<Rightarrow> lock_result" where
  "spin_wakeup thread_name h =
    (if lk_status h = VLOCK_LOCKED then None else Some (spin_take thread_name h))"

definition vs_spinunlock :: "u64 option \<Rightarrow> Lock_t option \<Rightarrow> lock_result" where
  "vs_spinunlock thread_name handle =
    (case handle of None \<Rightarrow> Some (VSTATUS_ILLPARM, None)
     | Some h \<Rightarrow>
      if lk_type h \<noteq> VLOCK_SPIN then Some (VSTATUS_ILLPARM, Some h)
      else if lk_magic h \<noteq> VLOCK_SPINLOCK_MAGIC then Some (VSTATUS_ILLPARM, Some h)
      else if spin_count h < 1 then Some (VSTATUS_NXIO, Some h)
      else (case thread_name of None \<Rightarrow> Some (VSTATUS_NXIO, Some h)
         | Some n \<Rightarrow>
            if owner_thread h \<noteq> n then Some (VSTATUS_NXIO, Some h)
            else
             let h1 = h\<lparr>spin_count := spin_count h - 1\<rparr> in
             if spin_count h1 = 0
             then Some (VSTATUS_OK, Some (h1\<lparr>lk_status := VLOCK_FREE, owner_thread := 0\<rparr>))
             else Some (VSTATUS_OK, Some h1)))"

section \<open>The bracket lock/unlock on a live thread lock\<close>

definition lock_ready :: "Lock_t \<Rightarrow> bool" where
  "lock_ready h \<longleftrightarrow> lk_type h = VLOCK_THREAD \<and> lk_magic h = VLOCK_THREADLOCK_MAGIC \<and>
     lk_status h = VLOCK_FREE \<and> mutex_owner h = None"

definition lock_taken :: "tid \<Rightarrow> Lock_t \<Rightarrow> Lock_t" where
  "lock_taken self h = h\<lparr>mutex_owner := Some self, lk_status := VLOCK_LOCKED\<rparr>"

lemma vs_lock_ready [vs_simps]:
  "lock_ready h \<Longrightarrow> vs_lock self (Some h) = Some (VSTATUS_OK, Some (lock_taken self h))"
  by (simp add: lock_ready_def vs_lock_def vs_lock_validate_def vs_lock_acquire_def
      lock_taken_def)

lemma vs_unlock_taken [vs_simps]:
  "lock_ready h \<Longrightarrow> vs_unlock self (Some (lock_taken self h)) = Some (VSTATUS_OK, Some h)"
  by (cases h) (simp add: lock_ready_def vs_unlock_def lock_taken_def)

lemma vs_lock_taken_blocks:
  "lock_ready h \<Longrightarrow> vs_lock t (Some (lock_taken self h)) = None"
  by (simp add: lock_ready_def vs_lock_def vs_lock_validate_def vs_lock_acquire_def
      lock_taken_def)

lemma vs_lock_init_thread [vs_simps]:
  "\<exists>h. vs_lock_init True self nm (Some l) VLOCK_LOCKED VLOCK_THREAD =
      (VSTATUS_OK, Some (lock_taken self h)) \<and> lock_ready h"
  by (rule exI [of _ "zero_lock\<lparr>lk_type := VLOCK_THREAD, lk_magic := VLOCK_THREADLOCK_MAGIC,
        lk_status := VLOCK_FREE\<rparr>"])
    (simp add: vs_lock_init_def Let_def lock_taken_def lock_ready_def zero_lock_def)

text \<open>
  What the pool and the queue rely on: a lock that is ready is taken at once, its holder can
  release it, everybody else waits meanwhile, and the release restores the lock.
\<close>

locale mutex_service =
  fixes lock :: "'t \<Rightarrow> 'l \<Rightarrow> (Status_t \<times> 'l) option"
    and unlock :: "'t \<Rightarrow> 'l \<Rightarrow> (Status_t \<times> 'l) option"
    and ready :: "'l \<Rightarrow> bool"
    and taken :: "'t \<Rightarrow> 'l \<Rightarrow> 'l"
  assumes lock_ok: "ready l \<Longrightarrow> lock t l = Some (VSTATUS_OK, taken t l)"
    and unlock_ok: "ready l \<Longrightarrow> unlock t (taken t l) = Some (VSTATUS_OK, l)"
    and taken_blocks: "ready l \<Longrightarrow> lock u (taken t l) = None"
begin

definition bracket :: "'t \<Rightarrow> ('s \<Rightarrow> 's) \<Rightarrow> 'l \<times> 's \<Rightarrow> (Status_t \<times> 'l \<times> 's) option" where
  "bracket t f ls =
    (case lock t (fst ls) of None \<Rightarrow> None
     | Some (rc, l) \<Rightarrow> if rc \<noteq> VSTATUS_OK then Some (rc, l, snd ls)
        else (case unlock t l of None \<Rightarrow> None
              | Some (rc', l') \<Rightarrow> Some (rc', l', f (snd ls))))"

lemma bracket_ready: "ready l \<Longrightarrow> bracket t f (l, s) = Some (VSTATUS_OK, l, f s)"
  by (simp add: bracket_def lock_ok unlock_ok)

lemma bracket_twice:
  "ready l \<Longrightarrow> Option.bind (bracket t f (l, s)) (\<lambda>(_, ls). bracket u g ls) =
     Some (VSTATUS_OK, l, g (f s))"
  by (simp add: bracket_ready)

end

definition handle_ready :: "Lock_t option \<Rightarrow> bool" where
  "handle_ready p = (case p of None \<Rightarrow> False | Some h \<Rightarrow> lock_ready h)"

interpretation vsl: mutex_service vs_lock vs_unlock handle_ready
  "\<lambda>t. map_option (lock_taken t)"
  by unfold_locales
    (auto simp: handle_ready_def vs_simps vs_lock_taken_blocks split: option.splits)

section \<open>Interleavings of one thread lock\<close>

text \<open>
  Any number of threads call \<^verbatim>\<open>vs_lock\<close>, \<^verbatim>\<open>vs_unlock\<close> and \<^verbatim>\<open>vs_lock_delete\<close> on one
  handle.  A thread is outside, waiting at the mutex after a successful validation, or
  inside its critical section after VSTATUS_OK.  \<^verbatim>\<open>vs_unlock\<close> is called from inside only.
\<close>

datatype lock_pc = Outside | AtMutex | Inside

record lock_sys =
  the_lock :: Lock_t
  lpc :: "tid \<Rightarrow> lock_pc"

inductive lock_step :: "lock_sys \<Rightarrow> lock_sys \<Rightarrow> bool" where
  validate_ok: "\<lbrakk>lpc s t = Outside; vs_lock_validate (the_lock s) = VSTATUS_OK\<rbrakk> \<Longrightarrow>
     lock_step s (s\<lparr>lpc := (lpc s)(t := AtMutex)\<rparr>)"
| acquire: "\<lbrakk>lpc s t = AtMutex; vs_lock_acquire t (the_lock s) = Some (rc, h)\<rbrakk> \<Longrightarrow>
     lock_step s (s\<lparr>the_lock := h,
        lpc := (lpc s)(t := (if rc = VSTATUS_OK then Inside else Outside))\<rparr>)"
| unlock: "\<lbrakk>lpc s t = Inside; vs_unlock t (Some (the_lock s)) = Some (VSTATUS_OK, Some h)\<rbrakk> \<Longrightarrow>
     lock_step s (s\<lparr>the_lock := h, lpc := (lpc s)(t := Outside)\<rparr>)"
| delete: "\<lbrakk>lpc s t = Outside; vs_lock_delete t (Some (the_lock s)) = Some (rc, Some h)\<rbrakk> \<Longrightarrow>
     lock_step s (s\<lparr>the_lock := h\<rparr>)"

inductive_cases lock_stepE: "lock_step s s'"

definition lock_sys_init :: "Lock_t \<Rightarrow> lock_sys" where
  "lock_sys_init h = \<lparr>the_lock = h, lpc = (\<lambda>_. Outside)\<rparr>"

inductive lock_reachable :: "Lock_t \<Rightarrow> lock_sys \<Rightarrow> bool" for h0 where
  lr_init: "lock_reachable h0 (lock_sys_init h0)"
| lr_step: "lock_reachable h0 s \<Longrightarrow> lock_step s s' \<Longrightarrow> lock_reachable h0 s'"

definition lock_live :: "Lock_t \<Rightarrow> bool" where
  "lock_live h \<longleftrightarrow> lk_type h = VLOCK_THREAD \<and> lk_magic h = VLOCK_THREADLOCK_MAGIC"

definition lock_dead :: "Lock_t \<Rightarrow> bool" where
  "lock_dead h \<longleftrightarrow> lk_type h = 0xFFFFFFFF \<and> lk_magic h = 0"

definition lock_inv :: "lock_sys \<Rightarrow> bool" where
  "lock_inv s \<longleftrightarrow>
     (lock_live (the_lock s) \<or> lock_dead (the_lock s) \<and> mutex_owner (the_lock s) = None) \<and>
     (\<forall>t. lpc s t = Inside \<longleftrightarrow> mutex_owner (the_lock s) = Some t) \<and>
     (lock_live (the_lock s) \<longrightarrow>
        lk_status (the_lock s) =
          (if mutex_owner (the_lock s) = None then VLOCK_FREE else VLOCK_LOCKED))"

lemma lock_inv_init: "lock_ready h \<Longrightarrow> lock_inv (lock_sys_init h)"
  by (simp add: lock_inv_def lock_sys_init_def lock_ready_def lock_live_def)

lemma vs_lock_delete_live:
  "lock_live h \<Longrightarrow> vs_lock_delete t (Some h) =
     (if mutex_owner h \<noteq> None then None
      else Some (VSTATUS_OK, Some (h\<lparr>lk_type := 0xFFFFFFFF, lk_status := 0xFFFFFFFF,
                                      lk_magic := 0\<rparr>)))"
  by (simp add: vs_lock_delete_def lock_live_def)

lemma vs_lock_delete_dead:
  "lock_dead h \<Longrightarrow> vs_lock_delete t (Some h) = Some (VSTATUS_ILLPARM, Some h)"
  by (simp add: vs_lock_delete_def lock_dead_def)

lemma lock_step_inv: "lock_step s s' \<Longrightarrow> lock_inv s \<Longrightarrow> lock_inv s'"
proof (induction rule: lock_step.induct)
  case (validate_ok s t)
  then show ?case by (simp add: lock_inv_def) (metis lock_pc.distinct)
next
  case (acquire s t rc h)
  then show ?case
    by (auto simp: lock_inv_def lock_live_def lock_dead_def vs_lock_acquire_def split: if_splits)
next
  case (unlock s t h)
  then show ?case
    by (auto simp: lock_inv_def lock_live_def lock_dead_def vs_unlock_def split: if_splits)
next
  case (delete s t rc h)
  show ?case
  proof (cases "lock_live (the_lock s)")
    case True
    with delete show ?thesis
      by (auto simp: lock_inv_def vs_lock_delete_live lock_live_def lock_dead_def
          split: if_splits)
  next
    case False
    with delete show ?thesis
      by (auto simp: lock_inv_def vs_lock_delete_dead)
  qed
qed

lemma lock_reachable_inv: "lock_reachable h0 s \<Longrightarrow> lock_ready h0 \<Longrightarrow> lock_inv s"
  by (induction rule: lock_reachable.induct) (auto intro: lock_inv_init lock_step_inv)

text \<open>C24: In every interleaving of \<^verbatim>\<open>vs_lock\<close>, \<^verbatim>\<open>vs_unlock\<close> and \<^verbatim>\<open>vs_lock_delete\<close> on one
  thread lock, the thread inside its critical section is exactly the owner of the mutex, so at
  most one thread is inside; while the lock lives the status word says whether there is an
  owner; and once the lock has been deleted nobody owns the mutex and no thread is inside.\<close>

theorem vs_lock_mutual_exclusion:
  assumes "lock_reachable h0 s" and "lock_ready h0"
  shows "(lpc s t = Inside \<longleftrightarrow> mutex_owner (the_lock s) = Some t) \<and>
         (lpc s t = Inside \<longrightarrow> lpc s u = Inside \<longrightarrow> t = u) \<and>
         (lk_magic (the_lock s) \<noteq> 0 \<longrightarrow>
            (lk_status (the_lock s) = VLOCK_LOCKED \<longleftrightarrow> mutex_owner (the_lock s) \<noteq> None)) \<and>
         (lk_magic (the_lock s) = 0 \<longrightarrow>
            mutex_owner (the_lock s) = None \<and> lpc s t \<noteq> Inside)"
proof -
  have "lock_inv s" using assms by (rule lock_reachable_inv)
  then show ?thesis by (auto simp: lock_inv_def lock_live_def lock_dead_def split: if_splits)
qed

definition demo_lock :: Lock_t where
  "demo_lock = zero_lock\<lparr>lk_type := VLOCK_THREAD, lk_magic := VLOCK_THREADLOCK_MAGIC,
     lk_status := VLOCK_FREE\<rparr>"

definition demo_inside :: lock_sys where
  "demo_inside = \<lparr>the_lock = lock_taken 7 demo_lock, lpc = (\<lambda>_. Outside)(7 := Inside)\<rparr>"

lemma demo_ready: "lock_ready demo_lock"
  by (simp add: lock_ready_def demo_lock_def zero_lock_def)

lemma demo_inside_reachable: "lock_reachable demo_lock demo_inside"
proof -
  let ?s0 = "lock_sys_init demo_lock"
  let ?s1 = "?s0\<lparr>lpc := (lpc ?s0)(7 := AtMutex)\<rparr>"
  have 1: "lock_step ?s0 ?s1"
    by (rule validate_ok) (simp_all add: lock_sys_init_def vs_lock_validate_def demo_lock_def)
  have "lock_step ?s1 (?s1\<lparr>the_lock := lock_taken 7 demo_lock,
      lpc := (lpc ?s1)(7 := (if VSTATUS_OK = VSTATUS_OK then Inside else Outside))\<rparr>)"
    by (rule acquire) (simp_all add: lock_sys_init_def vs_lock_acquire_def demo_lock_def
        zero_lock_def lock_taken_def)
  moreover have "?s1\<lparr>the_lock := lock_taken 7 demo_lock,
      lpc := (lpc ?s1)(7 := (if VSTATUS_OK = VSTATUS_OK then Inside else Outside))\<rparr>
      = demo_inside"
    by (simp add: demo_inside_def lock_sys_init_def)
  ultimately show ?thesis using 1 by (metis lr_init lr_step)
qed

theorem vs_lock_mutual_exclusion_witness:
  "lock_reachable demo_lock demo_inside \<and> lpc demo_inside 7 = Inside \<and>
   mutex_owner (the_lock demo_inside) = Some 7 \<and> lpc demo_inside 8 \<noteq> Inside"
proof -
  have "lpc demo_inside 7 = Inside" by (simp add: demo_inside_def)
  then show ?thesis
    using vs_lock_mutual_exclusion [OF demo_inside_reachable demo_ready, of 7 8]
      demo_inside_reachable by auto
qed

section \<open>Interleavings of one reader/writer lock\<close>

text \<open>A thread holds nothing, one read lock, or the write lock.  \<^verbatim>\<open>vs_rwunlock\<close> has to find
  out from \<^verbatim>\<open>handle->status\<close> which of the two it releases.\<close>

datatype rw_mode = NoLock | Reading | Writing

record rw_sys =
  rw_lock :: Lock_t
  mode :: "tid \<Rightarrow> rw_mode"

inductive rw_step :: "rw_sys \<Rightarrow> rw_sys \<Rightarrow> bool" where
  rd: "\<lbrakk>mode s t = NoLock; vs_rdlock t (Some (rw_lock s)) = Some (VSTATUS_OK, Some h)\<rbrakk> \<Longrightarrow>
     rw_step s (s\<lparr>rw_lock := h, mode := (mode s)(t := Reading)\<rparr>)"
| wr: "\<lbrakk>mode s t = NoLock; vs_wrlock t (Some (rw_lock s)) = Some (VSTATUS_OK, Some h)\<rbrakk> \<Longrightarrow>
     rw_step s (s\<lparr>rw_lock := h, mode := (mode s)(t := Writing)\<rparr>)"
| rel: "\<lbrakk>mode s t \<noteq> NoLock; vs_rwunlock t (Some (rw_lock s)) = Some (VSTATUS_OK, Some h)\<rbrakk> \<Longrightarrow>
     rw_step s (s\<lparr>rw_lock := h, mode := (mode s)(t := NoLock)\<rparr>)"

definition rw_fresh :: "Lock_t \<Rightarrow> bool" where
  "rw_fresh h \<longleftrightarrow> lk_type h = VLOCK_RWTHREAD \<and> lk_magic h = VLOCK_RWTHREADLOCK_MAGIC \<and>
     lk_status h = VLOCK_FREE \<and> rw_writer h = None \<and> rw_readers h = 0 \<and> reader_count h = 0"

inductive rw_reachable :: "Lock_t \<Rightarrow> rw_sys \<Rightarrow> bool" for h0 where
  rw_init: "rw_reachable h0 \<lparr>rw_lock = h0, mode = (\<lambda>_. NoLock)\<rparr>"
| rw_next: "rw_reachable h0 s \<Longrightarrow> rw_step s s' \<Longrightarrow> rw_reachable h0 s'"

definition rw_inv :: "rw_sys \<Rightarrow> bool" where
  "rw_inv s \<longleftrightarrow>
     lk_type (rw_lock s) = VLOCK_RWTHREAD \<and> lk_magic (rw_lock s) = VLOCK_RWTHREADLOCK_MAGIC \<and>
     finite {t. mode s t = Reading} \<and>
     rw_readers (rw_lock s) = card {t. mode s t = Reading} \<and>
     reader_count (rw_lock s) = of_nat (rw_readers (rw_lock s)) \<and>
     (\<forall>t. mode s t = Writing \<longleftrightarrow> rw_writer (rw_lock s) = Some t) \<and>
     (rw_writer (rw_lock s) \<noteq> None \<longrightarrow> rw_readers (rw_lock s) = 0) \<and>
     lk_status (rw_lock s) =
       (if rw_writer (rw_lock s) = None then VLOCK_FREE else VLOCK_LOCKED)"

lemma holders_add: "{u. u \<noteq> t \<longrightarrow> P u} = insert t {u. P u}"
  and holders_del: "{u. u \<noteq> t \<and> P u} = {u. P u} - {t}"
  by auto

lemma rw_step_inv:
  assumes "rw_step s s'" and "rw_inv s"
  shows "rw_inv s'"
  using assms
proof (induction rule: rw_step.induct)
  case (rd s t h)
  then show ?case
    by (auto simp: rw_inv_def vs_rdlock_def holders_add card_insert_if split: if_splits)
next
  case (wr s t h)
  then show ?case
    by (auto simp: rw_inv_def vs_wrlock_def holders_del split: if_splits)
next
  case (rel s t h)
  show ?case
  proof (cases "mode s t")
    case Writing
    with rel show ?thesis
      by (auto simp: rw_inv_def vs_rwunlock_def rwlock_release_def holders_del split: if_splits)
  next
    case Reading
    have "card {u. mode s u = Reading} \<noteq> 0"
      using rel.prems Reading by (auto simp: rw_inv_def)
    then have "rw_writer (rw_lock s) = None" "rw_readers (rw_lock s) \<noteq> 0"
      using rel.prems by (auto simp: rw_inv_def)
    then show ?thesis
      using rel Reading
      by (auto simp: rw_inv_def vs_rwunlock_def rwlock_release_def holders_del holders_add
          of_nat_diff card_insert_if
          split: if_splits)
  qed (use rel in simp)
qed

lemma rw_reachable_inv: "rw_reachable h0 s \<Longrightarrow> rw_fresh h0 \<Longrightarrow> rw_inv s"
proof (induction rule: rw_reachable.induct)
  case rw_init
  then show ?case by (auto simp: rw_inv_def rw_fresh_def)
next
  case (rw_next s s')
  then show ?case by (blast intro: rw_step_inv)
qed

text \<open>C28: In every interleaving of readers and writers of one RW lock a writer excludes every
  other holder, the status word is VLOCK_LOCKED exactly while there is a writer, which is what
  \<^verbatim>\<open>vs_rwunlock\<close> relies on, and reader_count is the number of readers.\<close>

theorem vs_rwlock_exclusion:
  assumes "rw_reachable h0 s" and "rw_fresh h0"
  shows "(mode s t = Writing \<longrightarrow> (\<forall>u. u \<noteq> t \<longrightarrow> mode s u = NoLock)) \<and>
         (lk_status (rw_lock s) = VLOCK_FREE \<longleftrightarrow> (\<forall>u. mode s u \<noteq> Writing)) \<and>
         reader_count (rw_lock s) = of_nat (card {u. mode s u = Reading})"
proof -
  have inv: "rw_inv s" using assms by (rule rw_reachable_inv)
  then have excl: "mode s u = NoLock" if "mode s t = Writing" "u \<noteq> t" for u
    using that by (cases "mode s u") (auto simp: rw_inv_def)
  from inv show ?thesis using excl by (auto simp: rw_inv_def)
qed

definition demo_rwlock :: Lock_t where
  "demo_rwlock = zero_lock\<lparr>lk_type := VLOCK_RWTHREAD, lk_magic := VLOCK_RWTHREADLOCK_MAGIC,
     lk_status := VLOCK_FREE\<rparr>"

theorem vs_rwlock_exclusion_witness:
  "\<exists>s. rw_reachable demo_rwlock s \<and> mode s 3 = Writing \<and> mode s 4 = NoLock"
proof -
  let ?start = "\<lparr>rw_lock = demo_rwlock, mode = (\<lambda>_. NoLock)\<rparr>"
  let ?h = "demo_rwlock\<lparr>rw_writer := Some 3, lk_status := VLOCK_LOCKED\<rparr>"
  let ?s = "?start\<lparr>rw_lock := ?h, mode := (mode ?start)(3 := Writing)\<rparr>"
  have "rw_step ?start ?s"
    by (rule rw_step.wr) (simp_all add: vs_wrlock_def demo_rwlock_def zero_lock_def)
  then have r: "rw_reachable demo_rwlock ?s" by (rule rw_next [OF rw_init])
  have f: "rw_fresh demo_rwlock" by (simp add: rw_fresh_def demo_rwlock_def zero_lock_def)
  have "mode ?s 4 = NoLock" using vs_rwlock_exclusion [OF r f, of 3] by simp
  with r show ?thesis by (intro exI [of _ ?s]) simp
qed

section \<open>Nesting of the spin lock\<close>

fun spin_repeat :: "nat \<Rightarrow> (Lock_t option \<Rightarrow> lock_result) \<Rightarrow> Lock_t option \<Rightarrow> lock_result" where
  "spin_repeat 0 f h = Some (VSTATUS_OK, h)"
| "spin_repeat (Suc n) f h =
     (case f h of None \<Rightarrow> None
      | Some (rc, h') \<Rightarrow> if rc = VSTATUS_OK then spin_repeat n f h' else Some (rc, h'))"

definition spin_free :: "Lock_t \<Rightarrow> bool" where
  "spin_free h \<longleftrightarrow> lk_type h = VLOCK_SPIN \<and> lk_magic h = VLOCK_SPINLOCK_MAGIC \<and>
     lk_status h = VLOCK_FREE \<and> spin_count h = 0 \<and> owner_thread h = 0"

definition spin_owned :: "u64 \<Rightarrow> nat \<Rightarrow> Lock_t \<Rightarrow> Lock_t" where
  "spin_owned n k h = h\<lparr>lk_status := VLOCK_LOCKED, owner_thread := n, spin_count := of_nat k\<rparr>"

lemma spin_lock_first: "spin_free h \<Longrightarrow>
    vs_spinlock (Some n) (Some h) = Some (VSTATUS_OK, Some (spin_owned n 1 h))"
  by (cases h) (simp add: spin_free_def vs_spinlock_def spin_take_def spin_owned_def)

lemma spin_lock_again: "spin_free h \<Longrightarrow>
    vs_spinlock (Some n) (Some (spin_owned n k h)) =
      Some (VSTATUS_OK, Some (spin_owned n (Suc k) h))"
  by (cases h) (simp add: spin_free_def vs_spinlock_def spin_owned_def add.commute)

lemma spin_lock_other: "spin_free h \<Longrightarrow> m \<noteq> n \<Longrightarrow>
    vs_spinlock (Some m) (Some (spin_owned n k h)) = None"
  by (auto simp add: spin_free_def vs_spinlock_def spin_owned_def)

lemma u32_of_nat_ne:
  assumes "0 < k" and "k < 2 ^ 32"
  shows "(of_nat k :: u32) \<noteq> 0"
proof
  assume "(of_nat k :: u32) = 0"
  then have "unat (of_nat k :: u32) = 0" by simp
  with assms show False by (simp add: unat_of_nat take_bit_nat_eq_self)
qed

lemma spin_unlock_one: "spin_free h \<Longrightarrow> Suc k < 2 ^ 32 \<Longrightarrow>
    vs_spinunlock (Some n) (Some (spin_owned n (Suc k) h)) =
      Some (VSTATUS_OK, Some (if k = 0 then h else spin_owned n k h))"
  using u32_of_nat_ne [of "Suc k"] u32_of_nat_ne [of k]
  by (cases h) (auto simp add: spin_free_def vs_spinunlock_def spin_owned_def Let_def
      unsigned_eq_0_iff word_less_1)

lemma spin_lock_repeat: "spin_free h \<Longrightarrow>
    spin_repeat k (vs_spinlock (Some n)) (Some (spin_owned n j h)) =
      Some (VSTATUS_OK, Some (spin_owned n (j + k) h))"
  by (induction k arbitrary: j) (simp_all add: spin_lock_again)

lemma spin_unlock_repeat: "spin_free h \<Longrightarrow> Suc k < 2 ^ 32 \<Longrightarrow>
    spin_repeat (Suc k) (vs_spinunlock (Some n)) (Some (spin_owned n (Suc k) h)) =
      Some (VSTATUS_OK, Some h)"
  by (induction k) (simp_all add: spin_unlock_one)

text \<open>The spin lock nests: after \<open>k + 1\<close> acquisitions by one thread every other thread
  waits, and exactly \<open>k + 1\<close> releases give back the free lock (while the 32-bit count does
  not wrap).\<close>

theorem vs_spinlock_nesting:
  assumes "spin_free h" and "Suc k < 2 ^ 32" and "m \<noteq> n"
  shows "\<exists>h'. spin_repeat (Suc k) (vs_spinlock (Some n)) (Some h) = Some (VSTATUS_OK, Some h') \<and>
           vs_spinlock (Some m) (Some h') = None \<and>
           vs_spinunlock (Some m) (Some h') = Some (VSTATUS_NXIO, Some h') \<and>
           spin_repeat (Suc k) (vs_spinunlock (Some n)) (Some h') = Some (VSTATUS_OK, Some h)"
proof (intro exI conjI)
  let ?h = "spin_owned n (Suc k) h"
  show "spin_repeat (Suc k) (vs_spinlock (Some n)) (Some h) = Some (VSTATUS_OK, Some ?h)"
    using assms(1) by (simp add: spin_lock_first spin_lock_repeat)
  show "vs_spinlock (Some m) (Some ?h) = None"
    using assms(1,3) by (rule spin_lock_other)
  show "vs_spinunlock (Some m) (Some ?h) = Some (VSTATUS_NXIO, Some ?h)"
    using assms by (auto simp: spin_free_def vs_spinunlock_def spin_owned_def)
  show "spin_repeat (Suc k) (vs_spinunlock (Some n)) (Some ?h) = Some (VSTATUS_OK, Some h)"
    using assms(1,2) by (rule spin_unlock_repeat)
qed
definition demo_spin :: Lock_t where
  "demo_spin = zero_lock\<lparr>lk_type := VLOCK_SPIN, lk_magic := VLOCK_SPINLOCK_MAGIC,
     lk_status := VLOCK_FREE\<rparr>"

theorem vs_spinlock_nesting_witness:
  "\<exists>h'. spin_repeat (Suc 2) (vs_spinlock (Some 11)) (Some demo_spin) =
       Some (VSTATUS_OK, Some h') \<and>
     vs_spinlock (Some 12) (Some h') = None"
proof -
  have "spin_free demo_spin" by (simp add: spin_free_def demo_spin_def zero_lock_def)
  moreover have "Suc 2 < 2 ^ 32" and "(12 :: u64) \<noteq> 11" by simp_all
  ultimately show ?thesis using vs_spinlock_nesting [of demo_spin 2 12 11] by blast
qed

end
