(* ===== verification/VsPool.thy ===== *)
theory VsPool
  imports VsLock
begin

text \<open>
  The memory pool: the checks of Esm/ib/src/cs/vs_pool_common.c around the implementation in
  Esm/ib/src/ibaccess/vs_pool.c, built with the defaults of vs_g.h and vs_pool.c
  (USE_POOL_LOCK 1, USE_PBUFFER_LIST 0, PAD_ALLOCATIONS 1, ABORT_ON_DOUBLE_FREE 1).

  The store maps an address to the \<open>Pool_t\<close> there, the address of a heap block to its
  PBuffer_t header, and the user address of a block to the 32-bit words kept in it.  What
  \<^verbatim>\<open>malloc\<close> returns is an argument of the allocation (\<open>None\<close> for NULL).  A call that would
  wait for the pool's lock, abort the process or read a header that is no longer there is an
  error value.
\<close>

section \<open>State\<close>

type_synonym addr = nat

datatype vs_error = Blocked | FatalAbort | BadAccess

abbreviation (input) VSPOOL_MAGIC :: u32 where "VSPOOL_MAGIC \<equiv> 0xDCADFEED"
abbreviation (input) DELETE_MARKER :: u16 where "DELETE_MARKER \<equiv> 0xCECE"
abbreviation (input) VS_NAME_MAX :: nat where "VS_NAME_MAX \<equiv> 16"

text \<open>\<open>sizeof (PBuffer_t)\<close>: an 8-byte pointer, a 16-bit sentinel, padding and a 32-bit size.\<close>

abbreviation (input) PBUFFER_SIZE :: nat where "PBUFFER_SIZE \<equiv> 16"

record PBuffer_t =
  sentinel :: u16
  buf_size :: u32

record Pool_t =
  pool_name :: "u8 list"
  options :: u32
  magic :: u32
  pool_lock :: Lock_t
  pagesize :: u64
  numBytesAlloc :: u64

record vs_store =
  pool_at :: "addr \<Rightarrow> Pool_t"
  bufs :: "addr \<Rightarrow> PBuffer_t option"
  words :: "addr \<Rightarrow> u32 list"

definition zero_pool :: Pool_t where
  "zero_pool = \<lparr>pool_name = [], options = 0, magic = 0, pool_lock = zero_lock,
     pagesize = 0, numBytesAlloc = 0\<rparr>"

definition set_pool :: "addr \<Rightarrow> Pool_t \<Rightarrow> vs_store \<Rightarrow> vs_store" where
  "set_pool p v s = s\<lparr>pool_at := (pool_at s)(p := v)\<rparr>"

section \<open>The implementation layer: vs_pool.c\<close>

text \<open>The request arrives as a \<^verbatim>\<open>uint32_t\<close>, and so does the sum with the header and the
  eight bytes of padding, which may wrap; when it is too small for the header, the header is
  written past the block.\<close>

definition vs_implpool_alloc ::
  "addr option \<Rightarrow> addr \<Rightarrow> u32 \<Rightarrow> vs_store \<Rightarrow> vs_error + Status_t \<times> addr option \<times> vs_store" where
  "vs_implpool_alloc malloc poolp reqSize s =
    (if poolp = 0 then Inr (VSTATUS_ILLPARM, None, s)
     else
      let bytes = (of_nat PBUFFER_SIZE + reqSize + 8 :: u32) in
      case malloc of None \<Rightarrow> Inr (VSTATUS_NOMEM, None, s)
      | Some bufferp \<Rightarrow>
         let user = bufferp + PBUFFER_SIZE; p = pool_at s poolp in
         if unat bytes < PBUFFER_SIZE then Inl BadAccess
         else
         Inr (VSTATUS_OK, Some user,
          s\<lparr>bufs := (bufs s)(bufferp \<mapsto> \<lparr>sentinel = DELETE_MARKER, buf_size = bytes\<rparr>),
            words := (words s)(user := replicate ((unat bytes - PBUFFER_SIZE) div 4) 0),
            pool_at := (pool_at s)(poolp :=
              p\<lparr>numBytesAlloc := numBytesAlloc p + ucast bytes\<rparr>)\<rparr>))"

definition freeBuffer :: "addr \<Rightarrow> vs_store \<Rightarrow> vs_store" where
  "freeBuffer bufferp s =
     s\<lparr>bufs := (bufs s)(bufferp := None), words := (words s)(bufferp + PBUFFER_SIZE := [])\<rparr>"

definition vs_implpool_free ::
  "addr \<Rightarrow> addr \<Rightarrow> vs_store \<Rightarrow> vs_error + Status_t \<times> vs_store" where
  "vs_implpool_free poolp address s =
    (if poolp = 0 then Inr (VSTATUS_ILLPARM, s)
     else if address = 0 then Inr (VSTATUS_ILLPARM, s)
     else
      let bufferp = address - PBUFFER_SIZE in
      case (if address < PBUFFER_SIZE then None else bufs s bufferp) of
        None \<Rightarrow> Inl BadAccess
      | Some b \<Rightarrow>
         if sentinel b \<noteq> DELETE_MARKER then Inl FatalAbort
         else
          let p = pool_at s poolp;
              s1 = s\<lparr>bufs := (bufs s)(bufferp \<mapsto> b\<lparr>sentinel := 0\<rparr>),
                     pool_at := (pool_at s)(poolp :=
                       p\<lparr>numBytesAlloc := numBytesAlloc p - ucast (buf_size b)\<rparr>)\<rparr>
          in Inr (VSTATUS_OK, freeBuffer bufferp s1))"

definition vs_implpool_create ::
  "u32 \<Rightarrow> (nat \<Rightarrow> u8) \<Rightarrow> Pool_t option \<Rightarrow> Status_t \<times> Pool_t option" where
  "vs_implpool_create opts name poolp =
    (case poolp of None \<Rightarrow> (VSTATUS_ILLPARM, None)
     | Some p \<Rightarrow>
        (VSTATUS_OK, Some (p\<lparr>pool_name := takeWhile (\<lambda>c. c \<noteq> 0) (map name [0..<VS_NAME_MAX]),
                             options := opts\<rparr>)))"

definition vs_implpool_delete :: "Pool_t option \<Rightarrow> Status_t" where
  "vs_implpool_delete poolp = (if poolp = None then VSTATUS_ILLPARM else VSTATUS_OK)"

definition vs_implpool_size :: "Pool_t \<Rightarrow> Status_t \<times> u64" where
  "vs_implpool_size p = (VSTATUS_OK, numBytesAlloc p)"

section \<open>The common layer: vs_pool_common.c\<close>

text \<open>A lock operation applied to the lock inside a pool.\<close>

definition on_pool_lock ::
  "(Lock_t option \<Rightarrow> lock_result) \<Rightarrow> Pool_t \<Rightarrow> vs_error + Status_t \<times> Pool_t" where
  "on_pool_lock f p =
    (case f (Some (pool_lock p)) of None \<Rightarrow> Inl Blocked
     | Some (rc, h) \<Rightarrow> Inr (rc, p\<lparr>pool_lock := the h\<rparr>))"

text \<open>The error exits of \<^verbatim>\<open>vs_pool_create\<close> unlock and delete the lock, ignoring both results.\<close>

definition drop_pool_lock :: "tid \<Rightarrow> Pool_t \<Rightarrow> vs_error + Pool_t" where
  "drop_pool_lock self p =
    (case on_pool_lock (vs_unlock self) p of Inl e \<Rightarrow> Inl e
     | Inr (_, p1) \<Rightarrow>
        (case on_pool_lock (vs_lock_delete self) p1 of Inl e \<Rightarrow> Inl e | Inr (_, p2) \<Rightarrow> Inr p2))"

definition pool_reject :: "tid \<Rightarrow> Status_t \<Rightarrow> Pool_t \<Rightarrow> vs_error + Status_t \<times> Pool_t option" where
  "pool_reject self rc p = map_sum id (\<lambda>p'. (rc, Some p')) (drop_pool_lock self p)"

definition vs_pool_create ::
  "bool \<Rightarrow> tid \<Rightarrow> u64 \<Rightarrow> Pool_t option \<Rightarrow> u32 \<Rightarrow> (nat \<Rightarrow> u8) option \<Rightarrow> u64 \<Rightarrow>
     vs_error + Status_t \<times> Pool_t option" where
  "vs_pool_create init_ok self page_size handle opts name pool_bytes =
    (case handle of None \<Rightarrow> Inr (VSTATUS_ILLPARM, None)
     | Some _ \<Rightarrow>
      let (rc, h) = vs_lock_init init_ok self None (Some zero_lock) VLOCK_LOCKED VLOCK_THREAD;
          p0 = zero_pool\<lparr>pool_lock := the h\<rparr> in
      if rc \<noteq> VSTATUS_OK then Inr (VSTATUS_NOMEM, Some p0)
      else
       (case name of None \<Rightarrow> pool_reject self VSTATUS_ILLPARM p0
        | Some nm \<Rightarrow>
           let p1 = p0\<lparr>pool_name := takeWhile (\<lambda>c. c \<noteq> 0) (map nm [0..<VS_NAME_MAX])\<rparr> in
           if \<not> (\<exists>i < VS_NAME_MAX. nm i = 0) then pool_reject self VSTATUS_ILLPARM p1
           else if opts \<noteq> 0 then pool_reject self VSTATUS_ILLPARM p1
           else
            let p2 = p1\<lparr>options := opts\<rparr> in
            if pool_bytes = 0 then pool_reject self VSTATUS_ILLPARM p2
            else
             (case vs_implpool_create opts nm (Some (p2\<lparr>pagesize := page_size\<rparr>)) of
                (rc, p3) \<Rightarrow>
                  if rc = VSTATUS_OK
                  then map_sum id (\<lambda>(_, p). (rc, Some p))
                         (on_pool_lock (vs_unlock self) ((the p3)\<lparr>magic := VSPOOL_MAGIC\<rparr>))
                  else pool_reject self rc (the p3))))"

definition vs_pool_delete :: "tid \<Rightarrow> Pool_t option \<Rightarrow> vs_error + Status_t \<times> Pool_t option" where
  "vs_pool_delete self handle =
    (case handle of None \<Rightarrow> Inr (VSTATUS_ILLPARM, None)
     | Some p \<Rightarrow>
      if magic p \<noteq> VSPOOL_MAGIC then Inr (VSTATUS_ILLPARM, Some p)
      else
       (case on_pool_lock (vs_lock self) p of Inl e \<Rightarrow> Inl e
        | Inr (rc, p1) \<Rightarrow>
           if rc \<noteq> VSTATUS_OK then Inr (VSTATUS_NXIO, Some p1)
           else
            let rc' = vs_implpool_delete (Some p1) in
            (case (if rc' = VSTATUS_OK then drop_pool_lock self (p1\<lparr>magic := NOT VSPOOL_MAGIC\<rparr>)
                   else map_sum id snd (on_pool_lock (vs_unlock self) p1)) of
               Inl e \<Rightarrow> Inl e
             | Inr _ \<Rightarrow> Inr (rc', Some zero_pool))))"

text \<open>The length is a \<^verbatim>\<open>size_t\<close> here and is narrowed to the \<^verbatim>\<open>uint32_t\<close> parameter of
  \<^verbatim>\<open>vs_implpool_alloc\<close>.\<close>

definition vs_pool_alloc ::
  "tid \<Rightarrow> addr option \<Rightarrow> addr \<Rightarrow> u64 \<Rightarrow> bool \<Rightarrow> vs_store \<Rightarrow>
     vs_error + Status_t \<times> addr option \<times> vs_store" where
  "vs_pool_alloc self malloc handle len loc_is_null s =
    (if handle = 0 then Inr (VSTATUS_ILLPARM, None, s)
     else if magic (pool_at s handle) \<noteq> VSPOOL_MAGIC then Inr (VSTATUS_ILLPARM, None, s)
     else if loc_is_null then Inr (VSTATUS_ILLPARM, None, s)
     else if len = 0 then Inr (VSTATUS_ILLPARM, None, s)
     else
      (case on_pool_lock (vs_lock self) (pool_at s handle) of Inl e \<Rightarrow> Inl e
       | Inr (rc, p1) \<Rightarrow>
          if rc \<noteq> VSTATUS_OK then Inr (VSTATUS_NXIO, None, set_pool handle p1 s)
          else
           (case vs_implpool_alloc malloc handle (ucast len) (set_pool handle p1 s) of
              Inl e \<Rightarrow> Inl e
            | Inr (rc', loc, s2) \<Rightarrow>
                (case on_pool_lock (vs_unlock self) (pool_at s2 handle) of Inl e \<Rightarrow> Inl e
                 | Inr (_, p3) \<Rightarrow> Inr (rc', loc, set_pool handle p3 s2)))))"

definition vs_pool_free ::
  "tid \<Rightarrow> addr \<Rightarrow> addr \<Rightarrow> vs_store \<Rightarrow> vs_error + Status_t \<times> vs_store" where
  "vs_pool_free self handle loc s =
    (if handle = 0 then Inr (VSTATUS_ILLPARM, s)
     else if magic (pool_at s handle) \<noteq> VSPOOL_MAGIC then Inr (VSTATUS_ILLPARM, s)
     else if loc = 0 then Inr (VSTATUS_ILLPARM, s)
     else
      (case on_pool_lock (vs_lock self) (pool_at s handle) of Inl e \<Rightarrow> Inl e
       | Inr (rc, p1) \<Rightarrow>
          if rc \<noteq> VSTATUS_OK then Inr (VSTATUS_NXIO, set_pool handle p1 s)
          else
           (case vs_implpool_free handle loc (set_pool handle p1 s) of
              Inl e \<Rightarrow> Inl e
            | Inr (rc', s2) \<Rightarrow>
                (case on_pool_lock (vs_unlock self) (pool_at s2 handle) of Inl e \<Rightarrow> Inl e
                 | Inr (_, p3) \<Rightarrow> Inr (rc', set_pool handle p3 s2)))))"

definition vs_pool_size ::
  "tid \<Rightarrow> addr \<Rightarrow> bool \<Rightarrow> vs_store \<Rightarrow> vs_error + Status_t \<times> u64 option \<times> vs_store" where
  "vs_pool_size self handle out_is_null s =
    (if handle = 0 then Inr (VSTATUS_ILLPARM, None, s)
     else if magic (pool_at s handle) \<noteq> VSPOOL_MAGIC then Inr (VSTATUS_ILLPARM, None, s)
     else if out_is_null then Inr (VSTATUS_ILLPARM, None, s)
     else
      (case on_pool_lock (vs_lock self) (pool_at s handle) of Inl e \<Rightarrow> Inl e
       | Inr (rc, p1) \<Rightarrow>
          if rc \<noteq> VSTATUS_OK then Inr (VSTATUS_NXIO, Some 0, set_pool handle p1 s)
          else
           (case on_pool_lock (vs_unlock self) p1 of Inl e \<Rightarrow> Inl e
            | Inr (_, p2) \<Rightarrow>
               Inr (fst (vs_implpool_size p1), Some (snd (vs_implpool_size p1)),
                    set_pool handle p2 s))))"

section \<open>A live pool and its ledger\<close>

definition pool_live :: "addr \<Rightarrow> vs_store \<Rightarrow> bool" where
  "pool_live p s \<longleftrightarrow> p \<noteq> 0 \<and> magic (pool_at s p) = VSPOOL_MAGIC \<and> lock_ready (pool_lock (pool_at s p))"

text \<open>User addresses of the blocks that can be freed.\<close>

definition live_blocks :: "vs_store \<Rightarrow> addr set" where
  "live_blocks s = {m + PBUFFER_SIZE | m b. bufs s m = Some b \<and> sentinel b = DELETE_MARKER}"

text \<open>What the C library guarantees of a block it returns: it overlaps no block in use.\<close>

definition malloc_fresh :: "addr option \<Rightarrow> vs_store \<Rightarrow> bool" where
  "malloc_fresh m s \<longleftrightarrow> (\<forall>a. m = Some a \<longrightarrow> a \<noteq> 0 \<and> bufs s a = None)"

definition block_bytes :: "vs_store \<Rightarrow> addr \<Rightarrow> u64" where
  "block_bytes s a = (case bufs s (a - PBUFFER_SIZE) of None \<Rightarrow> 0 | Some b \<Rightarrow> ucast (buf_size b))"

text \<open>The blocks \<open>B\<close> are those allocated from pool \<open>p\<close> and not yet freed; the header does
  not name the pool, so this set is part of the statement.\<close>

definition pool_ledger :: "addr \<Rightarrow> addr set \<Rightarrow> vs_store \<Rightarrow> bool" where
  "pool_ledger p B s \<longleftrightarrow> finite B \<and> B \<subseteq> live_blocks s \<and>
     numBytesAlloc (pool_at s p) = (\<Sum>a\<in>B. block_bytes s a)"

lemma on_pool_lock_ready [vs_simps]:
  "lock_ready (pool_lock p) \<Longrightarrow>
     on_pool_lock (vs_lock self) p = Inr (VSTATUS_OK, p\<lparr>pool_lock := lock_taken self (pool_lock p)\<rparr>)"
  by (simp add: on_pool_lock_def vs_simps)

lemma on_pool_unlock_taken [vs_simps]:
  "lock_ready h \<Longrightarrow>
     on_pool_lock (vs_unlock self) (p\<lparr>pool_lock := lock_taken self h\<rparr>) =
       Inr (VSTATUS_OK, p\<lparr>pool_lock := h\<rparr>)"
  by (simp add: on_pool_lock_def vs_simps)

text \<open>The header fits into the block that is allocated for a request.\<close>

definition header_fits :: "u64 \<Rightarrow> bool" where
  "header_fits n \<longleftrightarrow> PBUFFER_SIZE \<le> unat (ucast n + 24 :: u32)"

lemma vs_pool_alloc_live:
  assumes "pool_live p s" and "n \<noteq> 0"
  shows "vs_pool_alloc self malloc p n False s = vs_implpool_alloc malloc p (ucast n) s"
proof -
  have p: "p \<noteq> 0" "magic (pool_at s p) = VSPOOL_MAGIC" "lock_ready (pool_lock (pool_at s p))"
    using assms(1) by (auto simp: pool_live_def)
  let ?p = "pool_at s p"
  show ?thesis
  proof (cases malloc)
    case None
    then show ?thesis using p assms(2)
      by (simp add: vs_pool_alloc_def vs_simps set_pool_def vs_implpool_alloc_def)
  next
    case (Some m)
    have upd: "?p\<lparr>pool_lock := lock_taken self (pool_lock ?p), numBytesAlloc := k\<rparr> =
       (?p\<lparr>numBytesAlloc := k\<rparr>)\<lparr>pool_lock := lock_taken self (pool_lock ?p)\<rparr>" for k
      by simp
    show ?thesis using p assms(2) Some
      by (simp add: vs_pool_alloc_def vs_simps set_pool_def vs_implpool_alloc_def Let_def upd)
  qed
qed

lemma vs_implpool_free_live:
  assumes "a \<in> live_blocks s" and "p \<noteq> 0"
  obtains b where "bufs s (a - PBUFFER_SIZE) = Some b" and
    "vs_implpool_free p a s = Inr (VSTATUS_OK,
       s\<lparr>bufs := (bufs s)(a - PBUFFER_SIZE := None), words := (words s)(a := []),
         pool_at := (pool_at s)(p := (pool_at s p)
            \<lparr>numBytesAlloc := numBytesAlloc (pool_at s p) - ucast (buf_size b)\<rparr>)\<rparr>)"
proof -
  obtain m b where "a = m + PBUFFER_SIZE" "bufs s m = Some b" "sentinel b = DELETE_MARKER"
    using assms(1) by (auto simp: live_blocks_def)
  with that [of b] assms(2) show thesis
    by (simp add: vs_implpool_free_def Let_def freeBuffer_def)
qed

lemma vs_pool_free_live:
  assumes "pool_live p s" and "a \<in> live_blocks s"
  shows "vs_pool_free self p a s = vs_implpool_free p a s"
proof -
  have p: "p \<noteq> 0" "magic (pool_at s p) = VSPOOL_MAGIC" "lock_ready (pool_lock (pool_at s p))"
    using assms(1) by (auto simp: pool_live_def)
  obtain m b where m: "a = m + PBUFFER_SIZE" "bufs s m = Some b" "sentinel b = DELETE_MARKER"
    using assms(2) by (auto simp: live_blocks_def)
  let ?p = "pool_at s p"
  have upd: "?p\<lparr>pool_lock := lock_taken self (pool_lock ?p), numBytesAlloc := k\<rparr> =
       (?p\<lparr>numBytesAlloc := k\<rparr>)\<lparr>pool_lock := lock_taken self (pool_lock ?p)\<rparr>" for k
    by simp
  show ?thesis using p m
    by (simp add: vs_pool_free_def vs_simps set_pool_def vs_implpool_free_def Let_def upd
        freeBuffer_def)
qed

section \<open>Effect of allocation and release on the live blocks\<close>

lemma vs_implpool_alloc_None:
  "vs_implpool_alloc None p n s =
     Inr ((if p = 0 then VSTATUS_ILLPARM else VSTATUS_NOMEM), None, s)"
  by (simp add: vs_implpool_alloc_def)

lemma live_blocks_insert:
  "bufs s m = None \<Longrightarrow> sentinel b = DELETE_MARKER \<Longrightarrow> bufs s' = (bufs s)(m \<mapsto> b) \<Longrightarrow>
     live_blocks s' = insert (m + PBUFFER_SIZE) (live_blocks s)"
  by (auto simp: live_blocks_def split: if_splits)

lemma live_blocks_remove:
  "bufs s' = (bufs s)(m := None) \<Longrightarrow> live_blocks s' = live_blocks s - {m + PBUFFER_SIZE}"
  by (auto simp: live_blocks_def split: if_splits)

lemma fresh_not_live: "bufs s m = None \<Longrightarrow> m + PBUFFER_SIZE \<notin> live_blocks s"
  by (simp add: live_blocks_def)

lemma live_block_bufs: "a \<in> live_blocks s \<Longrightarrow> \<exists>m b. a = m + PBUFFER_SIZE \<and> bufs s m = Some b"
  by (auto simp: live_blocks_def)

lemma vs_pool_alloc_short:
  "pool_live p s \<Longrightarrow> n \<noteq> 0 \<Longrightarrow> \<not> header_fits n \<Longrightarrow>
     vs_pool_alloc self (Some m) p n False s = Inl BadAccess"
  by (simp add: vs_pool_alloc_live vs_implpool_alloc_def header_fits_def pool_live_def Let_def
      add.commute)

lemma vs_pool_alloc_effect:
  assumes "pool_live p s" and "n \<noteq> 0" and "malloc_fresh (Some m) s" and "header_fits n"
  obtains s' where "vs_pool_alloc self (Some m) p n False s =
      Inr (VSTATUS_OK, Some (m + PBUFFER_SIZE), s')"
    and "pool_live p s'" and "m + PBUFFER_SIZE \<notin> live_blocks s"
    and "live_blocks s' = insert (m + PBUFFER_SIZE) (live_blocks s)"
    and "bufs s' = (bufs s)(m \<mapsto> \<lparr>sentinel = DELETE_MARKER, buf_size = ucast n + 24\<rparr>)"
    and "words s' = (words s)(m + PBUFFER_SIZE :=
           replicate ((unat (ucast n + 24 :: u32) - PBUFFER_SIZE) div 4) 0)"
    and "numBytesAlloc (pool_at s' p) =
           numBytesAlloc (pool_at s p) + ucast (ucast n + 24 :: u32)"
    and "\<And>q. q \<noteq> p \<Longrightarrow> pool_at s' q = pool_at s q"
proof -
  have p: "p \<noteq> 0" using assms(1) by (simp add: pool_live_def)
  have m: "bufs s m = None" using assms(3) by (simp add: malloc_fresh_def)
  let ?bytes = "ucast n + 24 :: u32"
  let ?s = "s\<lparr>bufs := (bufs s)(m \<mapsto> \<lparr>sentinel = DELETE_MARKER, buf_size = ?bytes\<rparr>),
     words := (words s)(m + PBUFFER_SIZE := replicate ((unat ?bytes - PBUFFER_SIZE) div 4) 0),
     pool_at := (pool_at s)(p := (pool_at s p)
        \<lparr>numBytesAlloc := numBytesAlloc (pool_at s p) + ucast ?bytes\<rparr>)\<rparr>"
  have eq: "vs_pool_alloc self (Some m) p n False s =
      Inr (VSTATUS_OK, Some (m + PBUFFER_SIZE), ?s)"
    using vs_pool_alloc_live [OF assms(1,2), of self "Some m"] p assms(4)
    by (simp add: vs_implpool_alloc_def Let_def add.commute header_fits_def)
  have live: "live_blocks ?s = insert (m + PBUFFER_SIZE) (live_blocks s)"
    by (rule live_blocks_insert [OF m]) simp_all
  show thesis
    by (rule that [OF eq _ fresh_not_live [OF m] live])
      (use assms(1) in \<open>simp_all add: pool_live_def\<close>)
qed

lemma vs_pool_alloc_fails:
  "pool_live p s \<Longrightarrow> n \<noteq> 0 \<Longrightarrow> vs_pool_alloc self None p n False s =
     Inr (VSTATUS_NOMEM, None, s)"
  by (simp add: vs_pool_alloc_live vs_implpool_alloc_None pool_live_def)

lemma vs_pool_alloc_zero:
  "vs_pool_alloc self malloc p 0 l s = Inr (VSTATUS_ILLPARM, None, s)"
  by (simp add: vs_pool_alloc_def)

lemma vs_pool_alloc_null: "vs_pool_alloc self malloc 0 n l s = Inr (VSTATUS_ILLPARM, None, s)"
  and vs_pool_free_null: "vs_pool_free self 0 a s = Inr (VSTATUS_ILLPARM, s)"
  by (simp_all add: vs_pool_alloc_def vs_pool_free_def)

lemma vs_pool_free_effect:
  assumes "pool_live p s" and "a \<in> live_blocks s"
  obtains s' where "vs_pool_free self p a s = Inr (VSTATUS_OK, s')"
    and "pool_live p s'"
    and "live_blocks s' = live_blocks s - {a}"
    and "bufs s' = (bufs s)(a - PBUFFER_SIZE := None)"
    and "words s' = (words s)(a := [])"
    and "numBytesAlloc (pool_at s' p) = numBytesAlloc (pool_at s p) - block_bytes s a"
    and "\<And>q. q \<noteq> p \<Longrightarrow> pool_at s' q = pool_at s q"
proof -
  have p: "p \<noteq> 0" using assms(1) by (simp add: pool_live_def)
  obtain b where b: "bufs s (a - PBUFFER_SIZE) = Some b" and
    eq: "vs_implpool_free p a s = Inr (VSTATUS_OK,
       s\<lparr>bufs := (bufs s)(a - PBUFFER_SIZE := None), words := (words s)(a := []),
         pool_at := (pool_at s)(p := (pool_at s p)
            \<lparr>numBytesAlloc := numBytesAlloc (pool_at s p) - ucast (buf_size b)\<rparr>)\<rparr>)"
    (is "_ = Inr (_, ?s)")
    using vs_implpool_free_live [OF assms(2) p] by blast
  have a: "a - PBUFFER_SIZE + PBUFFER_SIZE = a"
    using assms(2) by (auto simp: live_blocks_def)
  have "live_blocks ?s = live_blocks s - {a - PBUFFER_SIZE + PBUFFER_SIZE}"
    by (rule live_blocks_remove) simp
  then have live: "live_blocks ?s = live_blocks s - {a}" by (simp only: a)
  show thesis
    by (rule that [of ?s])
      (use assms(1) b eq live in
        \<open>simp_all add: vs_pool_free_live [OF assms] pool_live_def block_bytes_def\<close>)
qed

text \<open>
  The service the clients of the pool rely on: an allocation of an acceptable length either
  yields a block that was not live, or reports why not and changes no block; a live block can
  be released.
\<close>

locale block_allocator =
  fixes alloc :: "'c \<Rightarrow> u64 \<Rightarrow> 's \<Rightarrow> vs_error + Status_t \<times> addr option \<times> 's"
    and release :: "addr \<Rightarrow> 's \<Rightarrow> vs_error + Status_t \<times> 's"
    and usable :: "'s \<Rightarrow> bool"
    and live :: "'s \<Rightarrow> addr set"
    and acceptable :: "u64 \<Rightarrow> bool"
    and offered :: "'c \<Rightarrow> 's \<Rightarrow> bool"
  assumes alloc_law: "usable s \<Longrightarrow> acceptable n \<Longrightarrow> offered c s \<Longrightarrow>
      (\<exists>a s'. alloc c n s = Inr (VSTATUS_OK, Some a, s') \<and> usable s' \<and> a \<noteq> 0 \<and> a \<notin> live s \<and>
         live s' = insert a (live s)) \<or>
      (\<exists>rc. rc \<noteq> VSTATUS_OK \<and> alloc c n s = Inr (rc, None, s))"
    and release_law: "usable s \<Longrightarrow> a \<in> live s \<Longrightarrow>
      \<exists>s'. release a s = Inr (VSTATUS_OK, s') \<and> usable s' \<and> live s' = live s - {a}"
begin

lemma alloc_release_cycle:
  assumes "usable s" "acceptable n" "offered c s" "alloc c n s = Inr (VSTATUS_OK, loc, s')"
  shows "\<exists>a s''. loc = Some a \<and> release a s' = Inr (VSTATUS_OK, s'') \<and> usable s'' \<and>
           live s'' = live s"
  using alloc_law [OF assms(1-3)] assms(4) release_law [of s'] by fastforce

lemma alloc_keeps_others:
  assumes "usable s" "acceptable n" "offered c s" "alloc c n s = Inr (rc, loc, s')"
  shows "live s \<subseteq> live s'"
  using alloc_law [OF assms(1-3)] assms(4) by auto

lemma release_all:
  "usable s \<Longrightarrow> distinct xs \<Longrightarrow> set xs \<subseteq> live s \<Longrightarrow>
    \<exists>s'. fold (\<lambda>a r. case r of Inl e \<Rightarrow> Inl e | Inr (rc, t) \<Rightarrow> release a t) xs
           (Inr (VSTATUS_OK, s)) = Inr (VSTATUS_OK, s') \<and> usable s' \<and> live s' = live s - set xs"
proof (induction xs arbitrary: s)
  case Nil
  then show ?case by simp
next
  case (Cons a xs)
  then obtain t where t: "release a s = Inr (VSTATUS_OK, t)" "usable t" "live t = live s - {a}"
    using release_law [of s a] by auto
  then have "set xs \<subseteq> live t" using Cons.prems by auto
  with Cons.IH [OF t(2)] Cons.prems obtain s' where
    "fold (\<lambda>a r. case r of Inl e \<Rightarrow> Inl e | Inr (rc, t) \<Rightarrow> release a t) xs
       (Inr (VSTATUS_OK, t)) = Inr (VSTATUS_OK, s')" "usable s'" "live s' = live t - set xs"
    by auto
  with t show ?case by auto
qed

end

interpretation vsp: block_allocator
  "\<lambda>m n. vs_pool_alloc self m p n False" "vs_pool_free self p" "pool_live p" live_blocks
  "\<lambda>n. n \<noteq> 0 \<and> header_fits n" malloc_fresh
  for self p
proof (unfold_locales, goal_cases)
  case (1 s n c)
  show ?case
  proof (cases c)
    case None
    with 1 show ?thesis by (simp add: vs_pool_alloc_fails)
  next
    case (Some m)
    with 1 show ?thesis by (metis vs_pool_alloc_effect add_is_0 zero_neq_numeral)
  qed
next
  case (2 s a)
  then show ?case by (metis vs_pool_free_effect)
qed

section \<open>Properties\<close>

text \<open>Histories of one pool: allocations whose \<^verbatim>\<open>malloc\<close> result is fresh or NULL, and releases
  of blocks the pool handed out, in any order.\<close>

inductive pool_history :: "addr \<Rightarrow> vs_store \<Rightarrow> vs_store \<Rightarrow> addr set \<Rightarrow> bool" for p s0 where
  ph_start: "pool_history p s0 s0 {}"
| ph_alloc: "\<lbrakk>pool_history p s0 s B; n \<noteq> 0; malloc_fresh m s;
     vs_pool_alloc self m p n False s = Inr (rc, loc, s')\<rbrakk> \<Longrightarrow>
     pool_history p s0 s' (case loc of None \<Rightarrow> B | Some a \<Rightarrow> insert a B)"
| ph_free: "\<lbrakk>pool_history p s0 s B; a \<in> B; vs_pool_free self p a s = Inr (rc, s')\<rbrakk> \<Longrightarrow>
     pool_history p s0 s' (B - {a})"

lemma block_bytes_other:
  "a \<in> live_blocks s \<Longrightarrow> b \<noteq> a \<Longrightarrow> a \<ge> PBUFFER_SIZE \<Longrightarrow> b \<ge> PBUFFER_SIZE \<Longrightarrow>
    bufs s' = (bufs s)(b - PBUFFER_SIZE := v) \<Longrightarrow> block_bytes s' a = block_bytes s a"
  by (auto simp: block_bytes_def)

lemma live_ge: "a \<in> live_blocks s \<Longrightarrow> PBUFFER_SIZE \<le> a"
  by (auto simp: live_blocks_def)

lemma ledger_alloc:
  assumes "pool_live p s" "pool_ledger p B s" "n \<noteq> 0" "malloc_fresh m s"
    and "vs_pool_alloc self m p n False s = Inr (rc, loc, s')"
  shows "pool_live p s' \<and> pool_ledger p (case loc of None \<Rightarrow> B | Some a \<Rightarrow> insert a B) s'"
proof (cases m)
  case None
  with assms show ?thesis by (simp add: vs_pool_alloc_fails)
next
  case (Some k)
  let ?a = "k + PBUFFER_SIZE"
  have fresh: "malloc_fresh (Some k) s" using assms(4) Some by simp
  have fits: "header_fits n"
    using vs_pool_alloc_short [OF assms(1,3), of self k] assms(5) Some by auto
  obtain t where t:
    "vs_pool_alloc self (Some k) p n False s = Inr (VSTATUS_OK, Some ?a, t)"
    "pool_live p t" "?a \<notin> live_blocks s" "live_blocks t = insert ?a (live_blocks s)"
    "bufs t = (bufs s)(k \<mapsto> \<lparr>sentinel = DELETE_MARKER, buf_size = ucast n + 24\<rparr>)"
    "numBytesAlloc (pool_at t p) =
       numBytesAlloc (pool_at s p) + ucast (ucast n + 24 :: u32)"
    by (rule vs_pool_alloc_effect [OF assms(1,3) fresh fits]) blast
  have B: "finite B" "B \<subseteq> live_blocks s" "?a \<notin> B"
    using assms(2) t(3) by (auto simp: pool_ledger_def)
  have "(\<Sum>b\<in>B. block_bytes t b) = (\<Sum>b\<in>B. block_bytes s b)"
  proof (rule sum.cong [OF refl])
    fix b assume "b \<in> B"
    then have "b \<in> live_blocks s" "?a \<noteq> b" using B by auto
    then show "block_bytes t b = block_bytes s b"
      by (rule block_bytes_other) (use \<open>b \<in> live_blocks s\<close> t(5) live_ge in auto)
  qed
  moreover have "block_bytes t ?a = ucast (ucast n + 24 :: u32)"
    using t(5) by (simp add: block_bytes_def)
  ultimately have "pool_ledger p (insert ?a B) t"
    using B t(4,6) assms(2) by (auto simp: pool_ledger_def)
  with t(1,2) Some assms(5) show ?thesis by auto
qed

lemma ledger_free:
  assumes "pool_live p s" "pool_ledger p B s" "a \<in> B"
    and "vs_pool_free self p a s = Inr (rc, s')"
  shows "pool_live p s' \<and> pool_ledger p (B - {a}) s'"
proof -
  have a: "a \<in> live_blocks s" using assms(2,3) by (auto simp: pool_ledger_def)
  obtain t where t: "vs_pool_free self p a s = Inr (VSTATUS_OK, t)" "pool_live p t"
    "live_blocks t = live_blocks s - {a}" "bufs t = (bufs s)(a - PBUFFER_SIZE := None)"
    "numBytesAlloc (pool_at t p) = numBytesAlloc (pool_at s p) - block_bytes s a"
    by (rule vs_pool_free_effect [OF assms(1) a]) blast
  have B: "finite B" "B \<subseteq> live_blocks s"
    using assms(2) by (auto simp: pool_ledger_def)
  have "(\<Sum>b\<in>B - {a}. block_bytes t b) = (\<Sum>b\<in>B - {a}. block_bytes s b)"
  proof (rule sum.cong [OF refl])
    fix b assume "b \<in> B - {a}"
    then have "b \<in> live_blocks s" "a \<noteq> b" using B by auto
    then show "block_bytes t b = block_bytes s b"
      by (rule block_bytes_other) (use \<open>b \<in> live_blocks s\<close> a t(4) live_ge in auto)
  qed
  moreover have "(\<Sum>b\<in>B - {a}. block_bytes s b) = (\<Sum>b\<in>B. block_bytes s b) - block_bytes s a"
    using B(1) assms(3) by (simp add: sum_diff1)
  ultimately have "pool_ledger p (B - {a}) t"
    using B t(3,5) assms(2) by (auto simp: pool_ledger_def)
  with t(1,2) assms(4) show ?thesis by simp
qed

lemma pool_history_ledger:
  "pool_history p s0 s B \<Longrightarrow> pool_live p s0 \<Longrightarrow> numBytesAlloc (pool_at s0 p) = 0 \<Longrightarrow>
    pool_live p s \<and> pool_ledger p B s"
proof (induction rule: pool_history.induct)
  case ph_start
  then show ?case by (simp add: pool_ledger_def)
next
  case (ph_alloc s B n m self rc loc s')
  then show ?case using ledger_alloc [of p s B n m self rc loc s'] by simp
next
  case (ph_free s B a self rc s')
  then show ?case using ledger_free [of p s B a self rc s'] by simp
qed

lemma vs_pool_size_live:
  "pool_live p s \<Longrightarrow> vs_pool_size self p False s =
     Inr (VSTATUS_OK, Some (numBytesAlloc (pool_at s p)), s)"
  by (simp add: vs_pool_size_def pool_live_def vs_simps vs_implpool_size_def set_pool_def)

text \<open>C25: After any history of allocations and releases on a pool, \<^verbatim>\<open>vs_pool_size\<close> returns the sum
  (modulo 2 to the 64) of the sizes of the blocks that were allocated and not freed, each of
  which is still live; with none left it returns 0.\<close>

theorem vs_pool_size_is_ledger:
  assumes "pool_history p s0 s B" and "pool_live p s0" and "numBytesAlloc (pool_at s0 p) = 0"
  shows "vs_pool_size self p False s =
           Inr (VSTATUS_OK, Some (\<Sum>a\<in>B. block_bytes s a), s) \<and> B \<subseteq> live_blocks s"
  using pool_history_ledger [OF assms] by (auto simp: vs_pool_size_live pool_ledger_def)

definition demo_pool :: Pool_t where
  "demo_pool = zero_pool\<lparr>magic := VSPOOL_MAGIC, pool_lock := demo_lock\<rparr>"

definition demo_store :: vs_store where
  "demo_store = \<lparr>pool_at = (\<lambda>_. demo_pool), bufs = (\<lambda>_. None), words = (\<lambda>_. [])\<rparr>"

lemma demo_store_live: "p \<noteq> 0 \<Longrightarrow> pool_live p demo_store"
  by (simp add: pool_live_def demo_store_def demo_pool_def demo_ready)

lemma demo_store_empty: "bufs demo_store a = None" "numBytesAlloc (pool_at demo_store p) = 0"
  by (simp_all add: demo_store_def demo_pool_def zero_pool_def)

theorem vs_pool_size_is_ledger_witness:
  "\<exists>s. pool_history 1 demo_store s {1016} \<and>
     vs_pool_size 5 1 False s = Inr (VSTATUS_OK, Some 34, s)"
proof -
  have live: "pool_live 1 demo_store" by (rule demo_store_live) simp
  have fresh: "malloc_fresh (Some 1000) demo_store"
    by (simp add: malloc_fresh_def demo_store_empty)
  obtain s where s: "vs_pool_alloc 5 (Some 1000) 1 10 False demo_store =
      Inr (VSTATUS_OK, Some (1000 + 16), s)"
    "bufs s = (bufs demo_store)(1000 \<mapsto> \<lparr>sentinel = DELETE_MARKER, buf_size = ucast (10 :: u64) + 24\<rparr>)"
    by (rule vs_pool_alloc_effect [OF live _ fresh, of 10 5]) (simp_all add: header_fits_def)
  have h: "pool_history 1 demo_store s {1016}"
    using ph_alloc [OF ph_start _ fresh s(1)] by simp
  have "block_bytes s 1016 = 34" using s(2) by (simp add: block_bytes_def)
  then have "vs_pool_size 5 1 False s = Inr (VSTATUS_OK, Some 34, s)"
    using vs_pool_size_is_ledger [OF h live, of 5] by (simp add: demo_store_empty)
  with h show ?thesis by blast
qed

text \<open>C26: On a live pool with memory available, an allocation of a non-zero length succeeds and
  hands out a block that was not live, and freeing it restores exactly the set of live blocks;
  freeing it a second time never succeeds.  The exception are the lengths whose padded 32-bit
  sum wraps below the size of the header, which is then written past the block.\<close>

theorem vs_pool_alloc_free_roundtrip:
  assumes "pool_live p s" and "n \<noteq> 0" and "malloc_fresh (Some m) s"
  shows "if unat (ucast n + 24 :: u32) < PBUFFER_SIZE
         then vs_pool_alloc self (Some m) p n False s = Inl BadAccess
         else \<exists>a s1 s2. vs_pool_alloc self (Some m) p n False s = Inr (VSTATUS_OK, Some a, s1) \<and>
           a \<notin> live_blocks s \<and> a \<in> live_blocks s1 \<and>
           vs_pool_free self p a s1 = Inr (VSTATUS_OK, s2) \<and>
           live_blocks s2 = live_blocks s \<and>
           numBytesAlloc (pool_at s2 p) = numBytesAlloc (pool_at s p) \<and>
           vs_pool_free self p a s2 = Inl BadAccess"
proof (cases "header_fits n")
  case False
  then show ?thesis using vs_pool_alloc_short [OF assms(1,2), of self m] by (simp add: header_fits_def)
next
  case fits: True
  let ?a = "m + PBUFFER_SIZE"
  obtain s1 where s1: "vs_pool_alloc self (Some m) p n False s = Inr (VSTATUS_OK, Some ?a, s1)"
    "pool_live p s1" "?a \<notin> live_blocks s" "live_blocks s1 = insert ?a (live_blocks s)"
    "bufs s1 = (bufs s)(m \<mapsto> \<lparr>sentinel = DELETE_MARKER, buf_size = ucast n + 24\<rparr>)"
    "numBytesAlloc (pool_at s1 p) = numBytesAlloc (pool_at s p) + ucast (ucast n + 24 :: u32)"
    by (rule vs_pool_alloc_effect [OF assms fits]) blast
  have a1: "?a \<in> live_blocks s1" using s1(4) by simp
  obtain s2 where s2: "vs_pool_free self p ?a s1 = Inr (VSTATUS_OK, s2)" "pool_live p s2"
    "live_blocks s2 = live_blocks s1 - {?a}" "bufs s2 = (bufs s1)(?a - PBUFFER_SIZE := None)"
    "numBytesAlloc (pool_at s2 p) = numBytesAlloc (pool_at s1 p) - block_bytes s1 ?a"
    by (rule vs_pool_free_effect [OF s1(2) a1]) blast
  have "block_bytes s1 ?a = ucast (ucast n + 24 :: u32)"
    using s1(5) by (simp add: block_bytes_def)
  then have bytes: "numBytesAlloc (pool_at s2 p) = numBytesAlloc (pool_at s p)"
    using s2(5) s1(6) by simp
  have "vs_pool_free self p ?a s2 = Inl BadAccess"
    using s2(2,4) by (simp add: vs_pool_free_def vs_implpool_free_def pool_live_def vs_simps
        set_pool_def)
  then have "\<exists>a s1 s2. vs_pool_alloc self (Some m) p n False s = Inr (VSTATUS_OK, Some a, s1) \<and>
      a \<notin> live_blocks s \<and> a \<in> live_blocks s1 \<and> vs_pool_free self p a s1 = Inr (VSTATUS_OK, s2) \<and>
      live_blocks s2 = live_blocks s \<and> numBytesAlloc (pool_at s2 p) = numBytesAlloc (pool_at s p) \<and>
      vs_pool_free self p a s2 = Inl BadAccess"
    using s1(1,3) a1 s2(1,3) s1(4) bytes by blast
  then show ?thesis using fits by (simp add: header_fits_def)
qed

theorem vs_pool_alloc_free_roundtrip_witness:
  "\<exists>a s1. vs_pool_alloc 5 (Some 4096) 1 64 False demo_store = Inr (VSTATUS_OK, Some a, s1) \<and>
     a \<in> live_blocks s1"
  using vs_pool_alloc_free_roundtrip [OF demo_store_live, of 1 64 4096 5]
  by (auto simp: malloc_fresh_def demo_store_empty)

lemma padded_size_iff:
  "16 + k \<le> (k mod 2 ^ 32 + 24) mod 2 ^ 32 \<longleftrightarrow> k < 2 ^ 32 - (24 :: nat)"
proof (cases "k < 2 ^ 32")
  case True
  then have "(k mod 2 ^ 32 + 24) mod 2 ^ 32 =
      (if k + 24 < 2 ^ 32 then k + 24 else k + 24 - 2 ^ 32)"
    by (simp add: mod_if)
  moreover have "k + 24 - 2 ^ 32 < 16 + k" if "\<not> k + 24 < 2 ^ 32"
  proof -
    have "(24 :: nat) < 2 ^ 32" by simp
    with that show ?thesis by linarith
  qed
  ultimately show ?thesis by (auto simp: not_le)
next
  case False
  have "(k mod 2 ^ 32 + 24) mod 2 ^ 32 < 2 ^ 32" by simp
  with False show ?thesis by linarith
qed

text \<open>C27: The block is large enough for its header and the \<open>n\<close> requested bytes exactly when \<open>n\<close> is
  below 2 to the 32 minus 24: the length is narrowed to 32 bits and the padded sum may wrap, so a
  larger request gets VSTATUS_OK and a block that is too small, or one that is even too small for
  the header, which is then written past it.\<close>

theorem vs_pool_alloc_block_size:
  assumes "pool_live p s" and "n \<noteq> 0" and "malloc_fresh (Some m) s"
  shows "if unat (ucast n + 24 :: u32) < PBUFFER_SIZE
         then vs_pool_alloc self (Some m) p n False s = Inl BadAccess \<and> 2 ^ 32 - 24 \<le> unat n
         else \<exists>a s1 b. vs_pool_alloc self (Some m) p n False s = Inr (VSTATUS_OK, Some a, s1) \<and>
           bufs s1 (a - PBUFFER_SIZE) = Some b \<and>
           (PBUFFER_SIZE + unat n \<le> unat (buf_size b) \<longleftrightarrow> unat n < 2 ^ 32 - 24)"
proof -
  have u: "unat (ucast n + 24 :: u32) = (unat n mod 2 ^ 32 + 24) mod 2 ^ 32"
    by (simp add: unat_word_ariths unsigned_ucast_eq take_bit_eq_mod)
  show ?thesis
  proof (cases "header_fits n")
    case False
    then have "\<not> PBUFFER_SIZE + unat n \<le> (unat n mod 2 ^ 32 + 24) mod 2 ^ 32"
      unfolding header_fits_def u by linarith
    then have "2 ^ 32 - 24 \<le> unat n" unfolding padded_size_iff by simp
    then show ?thesis using False vs_pool_alloc_short [OF assms(1,2), of self m]
      by (simp add: header_fits_def)
  next
    case fits: True
  obtain s1 where s1: "vs_pool_alloc self (Some m) p n False s =
      Inr (VSTATUS_OK, Some (m + PBUFFER_SIZE), s1)"
    "bufs s1 = (bufs s)(m \<mapsto> \<lparr>sentinel = DELETE_MARKER, buf_size = ucast n + 24\<rparr>)"
      by (rule vs_pool_alloc_effect [OF assms fits]) blast
    have "PBUFFER_SIZE + unat n \<le> unat (ucast n + 24 :: u32) \<longleftrightarrow> unat n < 2 ^ 32 - 24"
      unfolding u by (rule padded_size_iff)
    then have "\<exists>a s1 b. vs_pool_alloc self (Some m) p n False s = Inr (VSTATUS_OK, Some a, s1) \<and>
        bufs s1 (a - PBUFFER_SIZE) = Some b \<and>
        (PBUFFER_SIZE + unat n \<le> unat (buf_size b) \<longleftrightarrow> unat n < 2 ^ 32 - 24)" using s1 by simp
    then show ?thesis using fits by (simp add: header_fits_def)
  qed
qed

theorem vs_pool_alloc_block_size_witness:
  "\<exists>a s1 b. vs_pool_alloc 5 (Some 4096) 1 0x100000000 False demo_store =
       Inr (VSTATUS_OK, Some a, s1) \<and> bufs s1 (a - 16) = Some b \<and> unat (buf_size b) < 0x100000010"
  using vs_pool_alloc_block_size [OF demo_store_live, of 1 "0x100000000" 4096 5]
  by (auto simp: malloc_fresh_def demo_store_empty)

definition pool_args_valid :: "u32 \<Rightarrow> (nat \<Rightarrow> u8) option \<Rightarrow> u64 \<Rightarrow> bool" where
  "pool_args_valid opts name sz \<longleftrightarrow> opts = 0 \<and> sz \<noteq> 0 \<and>
     (case name of None \<Rightarrow> False | Some nm \<Rightarrow> \<exists>i < VS_NAME_MAX. nm i = 0)"

lemma lock_init_locked:
  obtains h where "vs_lock_init True self None (Some zero_lock) VLOCK_LOCKED VLOCK_THREAD =
      (VSTATUS_OK, Some (lock_taken self h))" and "lock_ready h"
  using vs_lock_init_thread by blast

lemma drop_pool_lock_taken:
  assumes "lock_ready h" and "pool_lock p = lock_taken self h"
  shows "drop_pool_lock self p = Inr (p\<lparr>pool_lock := h\<lparr>lk_type := 0xFFFFFFFF,
           lk_status := 0xFFFFFFFF, lk_magic := 0\<rparr>\<rparr>)"
proof -
  have "lock_live h" "mutex_owner h = None"
    using assms(1) by (simp_all add: lock_ready_def lock_live_def)
  then show ?thesis
    using assms by (simp add: drop_pool_lock_def on_pool_lock_def vs_simps vs_lock_delete_live)
qed

lemma pool_reject_taken:
  "lock_ready h \<Longrightarrow> pool_lock p = lock_taken self h \<Longrightarrow>
     \<exists>p'. pool_reject self rc p = Inr (rc, Some p') \<and> magic p' = magic p"
  by (simp add: pool_reject_def drop_pool_lock_taken)

text \<open>\<^verbatim>\<open>vs_pool_create\<close> on a non-NULL handle succeeds exactly for a terminated name, no options and
  a non-zero size, and then the pool is ready and owns no bytes; otherwise it returns
  VSTATUS_ILLPARM and leaves a handle whose magic makes every later call refuse it.\<close>

theorem vs_pool_create_outcome:
  "\<exists>p. vs_pool_create True self ps (Some h0) opts name sz =
        Inr (if pool_args_valid opts name sz then VSTATUS_OK else VSTATUS_ILLPARM, Some p) \<and>
      (if pool_args_valid opts name sz
       then magic p = VSPOOL_MAGIC \<and> lock_ready (pool_lock p) \<and> numBytesAlloc p = 0
       else magic p = 0)"
proof -
  obtain h where h: "vs_lock_init True self None (Some zero_lock) VLOCK_LOCKED VLOCK_THREAD =
      (VSTATUS_OK, Some (lock_taken self h))" "lock_ready h"
    by (rule lock_init_locked)
  let ?base = "zero_pool\<lparr>pool_lock := lock_taken self h\<rparr>"
  have rej: "\<exists>p'. pool_reject self VSTATUS_ILLPARM p = Inr (VSTATUS_ILLPARM, Some p') \<and> magic p' = 0"
    if "pool_lock p = lock_taken self h" "magic p = 0" for p
    using pool_reject_taken [OF h(2) that(1)] that(2) by simp
  show ?thesis
  proof (cases name)
    case None
    then show ?thesis using h(1) rej [of ?base]
      by (simp add: vs_pool_create_def pool_args_valid_def zero_pool_def)
  next
    case (Some nm)
    let ?p1 = "?base\<lparr>pool_name := takeWhile (\<lambda>c. c \<noteq> 0) (map nm [0..<VS_NAME_MAX])\<rparr>"
    show ?thesis
    proof (cases "pool_args_valid opts name sz")
      case True
      with Some h show ?thesis
        by (simp add: vs_pool_create_def pool_args_valid_def Let_def vs_implpool_create_def
            on_pool_lock_def vs_simps zero_pool_def)
    next
      case False
      have z: "pool_lock ?p1 = lock_taken self h" "magic ?p1 = 0"
        "pool_lock (?p1\<lparr>options := opts\<rparr>) = lock_taken self h" "magic (?p1\<lparr>options := opts\<rparr>) = 0"
        by (simp_all add: zero_pool_def)
      from False Some show ?thesis using h(1) rej [OF z(1,2)] rej [OF z(3,4)]
        by (auto simp: vs_pool_create_def pool_args_valid_def Let_def)
    qed
  qed
qed

end
