(* ===== verification/CsBitset.thy ===== *)
theory CsBitset
  imports VsPool
begin

text \<open>
  Bit sets on pool memory: Esm/ib/src/cs/cs_bitset.c over Esm/ib/include/cs_bitset.h.

  A \<open>bitset_t\<close> is the C structure; \<open>bits_m\<close> is the user address of a pool block whose 32-bit
  words the store holds.  Word and bit counts are \<^verbatim>\<open>size_t\<close>s that stay below 2 to the 31 and
  are natural numbers here; \<open>nset_m\<close>, which is decremented, is a 64-bit word.  Positions come
  back as C \<^verbatim>\<open>int\<close>s.  The bitset pointer itself is not NULL.  The logging function
  \<^verbatim>\<open>bitset_info_log\<close> is not modelled.
\<close>

section \<open>State and words\<close>

record bitset_t =
  nwords_m :: nat
  nbits_m :: nat
  bits_m :: addr
  nset_m :: u64
  pool_m :: addr

definition zero_bitset :: bitset_t where
  "zero_bitset = \<lparr>nwords_m = 0, nbits_m = 0, bits_m = 0, nset_m = 0, pool_m = 0\<rparr>"

text \<open>\<^verbatim>\<open>1 << n\<close> and \<^verbatim>\<open>(1 << n) - 1\<close> for \<open>n\<close> below 32\<close>

definition one_bit :: "nat \<Rightarrow> u32" where
  "one_bit n = push_bit n 1"

definition low_mask :: "nat \<Rightarrow> u32" where
  "low_mask n = one_bit n - 1"

lemma bit_one_bit: "n < 32 \<Longrightarrow> bit (one_bit n) i \<longleftrightarrow> i = n"
  by (auto simp: one_bit_def bit_simps bit_1_iff)

lemma bit_low_mask: "n < 32 \<Longrightarrow> bit (low_mask n) i \<longleftrightarrow> i < n"
proof -
  have "low_mask n = mask n"
    by (simp add: low_mask_def one_bit_def mask_eq_exp_minus_1)
  then show "n < 32 \<Longrightarrow> bit (low_mask n) i \<longleftrightarrow> i < n"
    by (auto simp: bit_mask_iff)
qed

lemma low_mask_0 [simp]: "low_mask 0 = 0"
  by (simp add: low_mask_def one_bit_def)

text \<open>The words of a bit set, and writing \<open>xs\<close> over the first words of a block.\<close>

definition bwords :: "vs_store \<Rightarrow> bitset_t \<Rightarrow> u32 list" where
  "bwords s b = words s (bits_m b)"

definition put_words :: "addr \<Rightarrow> u32 list \<Rightarrow> vs_store \<Rightarrow> vs_store" where
  "put_words a xs s = s\<lparr>words := (words s)(a := xs @ drop (length xs) (words s a))\<rparr>"

definition put_word :: "addr \<Rightarrow> nat \<Rightarrow> u32 \<Rightarrow> vs_store \<Rightarrow> vs_store" where
  "put_word a i w s = s\<lparr>words := (words s)(a := (words s a)[i := w])\<rparr>"

section \<open>Operations\<close>

definition bitset_nset :: "bitset_t \<Rightarrow> u64" where
  "bitset_nset b = nset_m b"

definition bitset_nbits :: "bitset_t \<Rightarrow> nat" where
  "bitset_nbits b = nbits_m b"

definition bitset_mask_off_unused_bits :: "bitset_t \<Rightarrow> vs_store \<Rightarrow> vs_store" where
  "bitset_mask_off_unused_bits b s =
    (let bits_left = nbits_m b mod 32 in
     if bits_left \<noteq> 0
     then put_word (bits_m b) (nwords_m b - 1)
            (bwords s b ! (nwords_m b - 1) AND low_mask bits_left) s
     else s)"

definition bitset_init ::
  "tid \<Rightarrow> addr option \<Rightarrow> addr \<Rightarrow> nat \<Rightarrow> vs_store \<Rightarrow> vs_error + int \<times> bitset_t \<times> vs_store" where
  "bitset_init self malloc pool nbits s =
    (let nw = (if nbits mod 32 \<noteq> 0 then nbits div 32 + 1 else nbits div 32);
         b = \<lparr>nwords_m = nw, nbits_m = nbits, bits_m = 0, nset_m = 0, pool_m = pool\<rparr> in
     case vs_pool_alloc self malloc pool (of_nat (4 * nw)) False s of
       Inl e \<Rightarrow> Inl e
     | Inr (status, loc, s1) \<Rightarrow>
        if status \<noteq> VSTATUS_OK then Inr (0, zero_bitset, s1)
        else
         (case loc of None \<Rightarrow> Inl BadAccess
          | Some a \<Rightarrow> Inr (1, b\<lparr>bits_m := a\<rparr>, put_words a (replicate nw 0) s1)))"

text \<open>The loop over whole words, then the masked remainder.\<close>

fun count_words :: "u32 list \<Rightarrow> nat \<Rightarrow> nat \<Rightarrow> nat \<Rightarrow> nat" where
  "count_words ws i bits_left nset =
    (if bits_left \<ge> 32 then count_words ws (Suc i) (bits_left - 32) (nset + popcount (ws ! i))
     else if bits_left > 0 then nset + popcount (ws ! i AND low_mask bits_left)
     else nset)"

declare count_words.simps [simp del]

definition count_nset :: "bitset_t \<Rightarrow> vs_store \<Rightarrow> nat" where
  "count_nset b s = (if bits_m b = 0 then 0 else count_words (bwords s b) 0 (nbits_m b) 0)"

text \<open>On failure the four saved fields are put back, but \<open>pool_m\<close>, which the failed
  \<^verbatim>\<open>bitset_init\<close> zeroed, is not.\<close>

definition bitset_resize ::
  "tid \<Rightarrow> addr option \<Rightarrow> bitset_t \<Rightarrow> nat \<Rightarrow> vs_store \<Rightarrow> vs_error + int \<times> bitset_t \<times> vs_store" where
  "bitset_resize self malloc b n s =
    (if n = nbits_m b then Inr (1, b, s)
     else
      (case bitset_init self malloc (pool_m b) n s of
         Inl e \<Rightarrow> Inl e
       | Inr (ok, b1, s1) \<Rightarrow>
          if ok = 0
          then Inr (0, b1\<lparr>nbits_m := nbits_m b, nset_m := nset_m b, nwords_m := nwords_m b,
                          bits_m := bits_m b\<rparr>, s1)
          else if bits_m b = 0 then Inr (1, b1, s1)
          else
           (let (b2, s2) =
              (if n > nbits_m b
               then (b1\<lparr>nset_m := nset_m b\<rparr>,
                     put_words (bits_m b1) (take (nwords_m b) (words s1 (bits_m b))) s1)
               else
                let s' = put_words (bits_m b1) (take (nwords_m b1) (words s1 (bits_m b))) s1;
                    s'' = bitset_mask_off_unused_bits b1 s'
                in (b1\<lparr>nset_m := of_nat (count_nset b1 s'')\<rparr>, s''))
            in case vs_pool_free self (pool_m b2) (bits_m b) s2 of
                 Inl e \<Rightarrow> Inl e
               | Inr (_, s3) \<Rightarrow> Inr (1, b2, s3))))"

definition bitset_free :: "tid \<Rightarrow> bitset_t \<Rightarrow> vs_store \<Rightarrow> vs_error + bitset_t \<times> vs_store" where
  "bitset_free self b s =
    (if bits_m b \<noteq> 0
     then (case vs_pool_free self (pool_m b) (bits_m b) s of
             Inl e \<Rightarrow> Inl e | Inr (_, s1) \<Rightarrow> Inr (zero_bitset, s1))
     else Inr (zero_bitset, s))"

definition bitset_clear_all :: "bitset_t \<Rightarrow> vs_store \<Rightarrow> bitset_t \<times> vs_store" where
  "bitset_clear_all b s =
    (b\<lparr>nset_m := 0\<rparr>,
     if bits_m b \<noteq> 0 then put_words (bits_m b) (replicate (nwords_m b) 0) s else s)"

definition bitset_set_all :: "bitset_t \<Rightarrow> vs_store \<Rightarrow> bitset_t \<times> vs_store" where
  "bitset_set_all b s =
    (if bits_m b \<noteq> 0
     then (b\<lparr>nset_m := of_nat (nbits_m b)\<rparr>,
           bitset_mask_off_unused_bits b
             (put_words (bits_m b) (replicate (nwords_m b) 0xFFFFFFFF) s))
     else (b, s))"

definition bitset_copy ::
  "tid \<Rightarrow> addr option \<Rightarrow> bitset_t \<Rightarrow> bitset_t \<Rightarrow> vs_store \<Rightarrow> vs_error + bitset_t \<times> vs_store" where
  "bitset_copy self malloc b1 b2 s =
    (if bits_m b1 = 0 then Inr (b1, s)
     else if bits_m b2 = 0 then Inr (b1, s)
     else
      (case (if nbits_m b1 \<noteq> nbits_m b2 then bitset_resize self malloc b1 (nbits_m b2) s
             else Inr (1, b1, s)) of
         Inl e \<Rightarrow> Inl e
       | Inr (_, b, s1) \<Rightarrow>
          if nbits_m b \<noteq> nbits_m b2 then Inr (b, s1)
          else Inr (b\<lparr>nset_m := nset_m b2\<rparr>,
                    put_words (bits_m b) (take (nwords_m b) (words s1 (bits_m b2))) s1)))"

definition bitset_clear :: "bitset_t \<Rightarrow> nat \<Rightarrow> vs_store \<Rightarrow> int \<times> bitset_t \<times> vs_store" where
  "bitset_clear b n s =
    (if bits_m b \<noteq> 0 \<and> n < nbits_m b
     then
      (if bwords s b ! (n div 32) AND one_bit (n mod 32) \<noteq> 0
       then (1, b\<lparr>nset_m := nset_m b - 1\<rparr>,
             put_word (bits_m b) (n div 32)
               (bwords s b ! (n div 32) XOR one_bit (n mod 32)) s)
       else (1, b, s))
     else (0, b, s))"

definition bitset_set :: "bitset_t \<Rightarrow> nat \<Rightarrow> vs_store \<Rightarrow> int \<times> bitset_t \<times> vs_store" where
  "bitset_set b n s =
    (if bits_m b \<noteq> 0 \<and> n < nbits_m b
     then
      (if bwords s b ! (n div 32) AND one_bit (n mod 32) = 0
       then (1, b\<lparr>nset_m := nset_m b + 1\<rparr>,
             put_word (bits_m b) (n div 32)
               (bwords s b ! (n div 32) OR one_bit (n mod 32)) s)
       else (1, b, s))
     else (0, b, s))"

definition bitset_test :: "bitset_t \<Rightarrow> nat \<Rightarrow> vs_store \<Rightarrow> int" where
  "bitset_test b n s =
    (if bits_m b \<noteq> 0 \<and> n < nbits_m b
     then (if bwords s b ! (n div 32) AND one_bit (n mod 32) \<noteq> 0 then 1 else 0)
     else 0)"

fun words_equal :: "u32 list \<Rightarrow> u32 list \<Rightarrow> nat \<Rightarrow> nat \<Rightarrow> int" where
  "words_equal xs ys i 0 = 1"
| "words_equal xs ys i (Suc n) =
    (if xs ! i \<noteq> ys ! i then 0 else words_equal xs ys (Suc i) n)"

definition bitset_equal :: "bitset_t \<Rightarrow> bitset_t \<Rightarrow> vs_store \<Rightarrow> int" where
  "bitset_equal a b s =
    (if nbits_m a \<noteq> nbits_m b \<or> nset_m a \<noteq> nset_m b \<or> nwords_m a \<noteq> nwords_m b \<or>
        bits_m a = 0 \<or> bits_m b = 0 then 0
     else words_equal (bwords s a) (bwords s b) 0 (nwords_m a))"

text \<open>The scans take the mask of the bits still to be ignored in the current word.\<close>

function next_one_loop :: "u32 list \<Rightarrow> nat \<Rightarrow> nat \<Rightarrow> nat \<Rightarrow> u32 \<Rightarrow> int" where
  "next_one_loop ws nwords bits i msk =
    (if i < nwords then
       let m = (if i = nwords - 1 \<and> bits \<noteq> 0 then msk OR NOT (low_mask bits) else msk);
           word = ws ! i AND NOT m in
       if word \<noteq> 0 then c_int (i * 32 + ctz word) else next_one_loop ws nwords bits (Suc i) 0
     else - 1)"
  by pat_completeness auto
termination
  by (relation "measure (\<lambda>(ws, nwords, bits, i, msk). nwords - i)") auto

declare next_one_loop.simps [simp del]

definition bitset_find_next_one :: "bitset_t \<Rightarrow> nat \<Rightarrow> vs_store \<Rightarrow> int" where
  "bitset_find_next_one b n s =
    (if bits_m b \<noteq> 0 \<and> n < nbits_m b
     then next_one_loop (bwords s b) (nwords_m b) (nbits_m b mod 32) (n div 32)
            (low_mask (n mod 32))
     else - 1)"

definition bitset_find_first_one :: "bitset_t \<Rightarrow> vs_store \<Rightarrow> int" where
  "bitset_find_first_one b s = bitset_find_next_one b 0 s"

fun last_one_loop :: "u32 list \<Rightarrow> nat \<Rightarrow> u32 \<Rightarrow> int" where
  "last_one_loop ws 0 msk = - 1"
| "last_one_loop ws (Suc i) msk =
    (let word = ws ! i AND msk in
     if word \<noteq> 0 then c_int (i * 32 + (32 - 1 - clz word)) else last_one_loop ws i 0xFFFFFFFF)"

definition bitset_find_last_one :: "bitset_t \<Rightarrow> vs_store \<Rightarrow> int" where
  "bitset_find_last_one b s =
    (if bits_m b \<noteq> 0 \<and> nset_m b \<noteq> 0
     then last_one_loop (bwords s b) (nwords_m b)
            (if nbits_m b mod 32 \<noteq> 0 then low_mask (nbits_m b mod 32) else 0xFFFFFFFF)
     else - 1)"

function next_zero_loop :: "u32 list \<Rightarrow> nat \<Rightarrow> nat \<Rightarrow> nat \<Rightarrow> u32 \<Rightarrow> int" where
  "next_zero_loop ws nwords bits i msk =
    (if i < nwords then
       let m = (if i = nwords - 1 \<and> bits \<noteq> 0 then msk OR NOT (low_mask bits) else msk);
           word = ws ! i OR m in
       if word \<noteq> 0xFFFFFFFF then c_int (i * 32 + ctz (NOT word))
       else next_zero_loop ws nwords bits (Suc i) 0
     else - 1)"
  by pat_completeness auto
termination
  by (relation "measure (\<lambda>(ws, nwords, bits, i, msk). nwords - i)") auto

declare next_zero_loop.simps [simp del]

definition bitset_find_next_zero :: "bitset_t \<Rightarrow> nat \<Rightarrow> vs_store \<Rightarrow> int" where
  "bitset_find_next_zero b n s =
    (if bits_m b \<noteq> 0 \<and> n < nbits_m b
     then next_zero_loop (bwords s b) (nwords_m b) (nbits_m b mod 32) (n div 32)
            (low_mask (n mod 32))
     else - 1)"

definition bitset_find_first_zero :: "bitset_t \<Rightarrow> vs_store \<Rightarrow> int" where
  "bitset_find_first_zero b s = bitset_find_next_zero b 0 s"

text \<open>Here the mask is the one of \<^verbatim>\<open>bitset_find_last_one\<close>, or-ed into the word.\<close>

fun last_zero_loop :: "u32 list \<Rightarrow> nat \<Rightarrow> nat \<Rightarrow> u32 \<Rightarrow> int" where
  "last_zero_loop ws 0 bits msk = - 1"
| "last_zero_loop ws (Suc i) bits msk =
    (let word = ws ! i OR msk in
     if word \<noteq> 0xFFFFFFFF then sint (of_nat (i * 32) + (of_nat bits - 1 - of_nat (clz (NOT word))) :: u32)
     else last_zero_loop ws i 32 0)"

definition bitset_find_last_zero :: "bitset_t \<Rightarrow> vs_store \<Rightarrow> int" where
  "bitset_find_last_zero b s =
    (if bits_m b \<noteq> 0 \<and> nset_m b \<noteq> of_nat (nbits_m b)
     then
      let bits = nbits_m b mod 32 in
      if bits \<noteq> 0 then last_zero_loop (bwords s b) (nwords_m b) bits (low_mask bits)
      else last_zero_loop (bwords s b) (nwords_m b) 32 0
     else - 1)"

fun words_meet :: "u32 list \<Rightarrow> u32 list \<Rightarrow> nat \<Rightarrow> nat \<Rightarrow> int" where
  "words_meet xs ys i 0 = 0"
| "words_meet xs ys i (Suc n) =
    (if xs ! i AND ys ! i \<noteq> 0 then 1 else words_meet xs ys (Suc i) n)"

definition bitset_test_intersection :: "bitset_t \<Rightarrow> bitset_t \<Rightarrow> vs_store \<Rightarrow> int" where
  "bitset_test_intersection a b s =
    (if nwords_m a \<noteq> nwords_m b then 0
     else words_meet (bwords s a) (bwords s b) 0 (nwords_m a))"

text \<open>The three arrays may be the same block: each word is read before it is written.\<close>

fun intersect_loop :: "addr \<Rightarrow> addr \<Rightarrow> addr \<Rightarrow> nat \<Rightarrow> nat \<Rightarrow> vs_store \<Rightarrow> vs_store" where
  "intersect_loop a b r i 0 s = s"
| "intersect_loop a b r i (Suc n) s =
    intersect_loop a b r (Suc i) n (put_word r i (words s a ! i AND words s b ! i) s)"

definition bitset_set_intersection ::
  "bitset_t \<Rightarrow> bitset_t \<Rightarrow> bitset_t \<Rightarrow> vs_store \<Rightarrow> int \<times> bitset_t \<times> vs_store" where
  "bitset_set_intersection a b result s =
    (if bits_m a = 0 \<or> bits_m b = 0 \<or> bits_m result = 0 then (- 1, result, s)
     else if nwords_m a \<noteq> nwords_m b \<or> nwords_m a \<noteq> nwords_m result then (- 1, result, s)
     else
      let s1 = intersect_loop (bits_m a) (bits_m b) (bits_m result) 0 (nwords_m a) s;
          n = of_nat (count_nset result s1)
      in (c_int (unat n), result\<lparr>nset_m := n\<rparr>, s1))"

section \<open>The set a bit set stands for\<close>

definition getbit :: "u32 list \<Rightarrow> nat \<Rightarrow> bool" where
  "getbit ws i = bit (ws ! (i div 32)) (i mod 32)"

definition bset :: "vs_store \<Rightarrow> bitset_t \<Rightarrow> nat set" where
  "bset s b = {i. i < nbits_m b \<and> getbit (bwords s b) i}"

definition wf_bitset :: "vs_store \<Rightarrow> bitset_t \<Rightarrow> bool" where
  "wf_bitset s b \<longleftrightarrow> bits_m b \<noteq> 0 \<and> nbits_m b < 2 ^ 31 \<and>
     nwords_m b = (nbits_m b + 31) div 32 \<and> nwords_m b \<le> length (bwords s b) \<and>
     (\<forall>i. nbits_m b \<le> i \<longrightarrow> i < 32 * nwords_m b \<longrightarrow> \<not> getbit (bwords s b) i) \<and>
     nset_m b = of_nat (card (bset s b))"

lemma finite_bset [simp]: "finite (bset s b)"
  by (simp add: bset_def)

lemma card_bset: "card (bset s b) \<le> nbits_m b"
proof -
  have "card (bset s b) \<le> card {..<nbits_m b}"
    by (rule card_mono) (auto simp: bset_def)
  then show ?thesis by simp
qed

lemma word_index_less: "wf_bitset s b \<Longrightarrow> n < nbits_m b \<Longrightarrow> n div 32 < nwords_m b"
  by (simp add: wf_bitset_def less_ceil_div_32)

lemma getbit_update:
  "k < length ws \<Longrightarrow>
     getbit (ws[k := w]) i = (if i div 32 = k then bit w (i mod 32) else getbit ws i)"
  by (simp add: getbit_def)

lemma getbit_split: "k < 32 \<Longrightarrow> getbit ws (32 * i + k) = bit (ws ! i) k"
  by (simp add: getbit_def)

lemma and_one_bit_iff: "k < 32 \<Longrightarrow> (w :: u32) AND one_bit k \<noteq> 0 \<longleftrightarrow> bit w k"
  by (auto simp: u32_nonzero_iff bit_and_iff bit_one_bit)

lemma and_one_bit_zero: "k < 32 \<Longrightarrow> (w :: u32) AND one_bit k = 0 \<longleftrightarrow> \<not> bit w k"
  using and_one_bit_iff [of k w] by blast

lemma bit_or_one: "k < 32 \<Longrightarrow> bit ((w :: u32) OR one_bit k) i \<longleftrightarrow> bit w i \<or> i = k"
  by (auto simp: bit_or_iff bit_one_bit)

lemma bit_xor_one: "k < 32 \<Longrightarrow> bit ((w :: u32) XOR one_bit k) i \<longleftrightarrow> bit w i \<noteq> (i = k)"
  by (auto simp: bit_xor_iff bit_one_bit)

lemma div_mod_32_eq: "i div 32 = n div 32 \<Longrightarrow> i mod 32 = n mod (32 :: nat) \<longleftrightarrow> i = n"
  by (metis div_mult_mod_eq)

lemma getbit_or: "n div 32 < length ws \<Longrightarrow>
    getbit (ws[n div 32 := ws ! (n div 32) OR one_bit (n mod 32)]) i \<longleftrightarrow> getbit ws i \<or> i = n"
  using div_mod_32_eq [of i n]
  by (simp add: getbit_update bit_or_one) (auto simp: getbit_def)

lemma getbit_xor: "n div 32 < length ws \<Longrightarrow>
    getbit (ws[n div 32 := ws ! (n div 32) XOR one_bit (n mod 32)]) i \<longleftrightarrow>
      getbit ws i \<noteq> (i = n)"
  using div_mod_32_eq [of i n]
  by (simp add: getbit_update bit_xor_one) (auto simp: getbit_def)

lemma bwords_put_word [simp]:
  "bits_m b = a \<Longrightarrow> bwords (put_word a i w s) b = (bwords s b)[i := w]"
  by (simp add: bwords_def put_word_def)

lemma bwords_field_upd [simp]:
  "bwords s (b\<lparr>nset_m := x\<rparr>) = bwords s b"
  by (simp add: bwords_def)

section \<open>Single bits\<close>

lemma bitset_test_iff:
  "bits_m b \<noteq> 0 \<Longrightarrow> bitset_test b n s = (if n \<in> bset s b then 1 else 0)"
  by (simp add: bitset_test_def bset_def and_one_bit_iff getbit_def)

lemma bitset_set_spec:
  assumes "wf_bitset s b" "n < nbits_m b"
  obtains b' s' where "bitset_set b n s = (1, b', s')" "wf_bitset s' b'"
    "bset s' b' = insert n (bset s b)" "nbits_m b' = nbits_m b" "bits_m b' = bits_m b"
    "pool_m b' = pool_m b" "\<And>a. a \<noteq> bits_m b \<Longrightarrow> words s' a = words s a"
proof (cases "n \<in> bset s b")
  case True
  then have "bitset_set b n s = (1, b, s)"
    using assms by (auto simp: bitset_set_def bset_def getbit_def wf_bitset_def
        and_one_bit_iff and_one_bit_zero)
  with True assms(1) that [of b s] show thesis by auto
next
  case False
  let ?w = "bwords s b ! (n div 32) OR one_bit (n mod 32)"
  let ?b = "b\<lparr>nset_m := nset_m b + 1\<rparr>" and ?s = "put_word (bits_m b) (n div 32) ?w s"
  have len: "n div 32 < length (bwords s b)"
    using word_index_less [OF assms] assms(1) by (simp add: wf_bitset_def)
  have eq: "bitset_set b n s = (1, ?b, ?s)"
    using assms False
    by (auto simp: bitset_set_def bset_def getbit_def wf_bitset_def and_one_bit_iff
        and_one_bit_zero)
  have gb: "getbit (bwords ?s ?b) i \<longleftrightarrow> getbit (bwords s b) i \<or> i = n" for i
    using getbit_or [OF len] by simp
  have set: "bset ?s ?b = insert n (bset s b)"
    using gb assms(2) by (auto simp: bset_def)
  moreover have "card (bset ?s ?b) = Suc (card (bset s b))"
    using False set by simp
  ultimately have "wf_bitset ?s ?b"
    using assms gb by (auto simp: wf_bitset_def)
  then show thesis by (rule that [OF eq _ set]) (simp_all add: put_word_def)
qed

lemma bitset_clear_spec:
  assumes "wf_bitset s b" "n < nbits_m b"
  obtains b' s' where "bitset_clear b n s = (1, b', s')" "wf_bitset s' b'"
    "bset s' b' = bset s b - {n}" "nbits_m b' = nbits_m b" "bits_m b' = bits_m b"
    "pool_m b' = pool_m b" "\<And>a. a \<noteq> bits_m b \<Longrightarrow> words s' a = words s a"
proof (cases "n \<in> bset s b")
  case False
  then have "bitset_clear b n s = (1, b, s)"
    using assms by (auto simp: bitset_clear_def bset_def getbit_def wf_bitset_def
        and_one_bit_iff and_one_bit_zero)
  with False assms(1) that [of b s] show thesis by auto
next
  case True
  let ?w = "bwords s b ! (n div 32) XOR one_bit (n mod 32)"
  let ?b = "b\<lparr>nset_m := nset_m b - 1\<rparr>" and ?s = "put_word (bits_m b) (n div 32) ?w s"
  have len: "n div 32 < length (bwords s b)"
    using word_index_less [OF assms] assms(1) by (simp add: wf_bitset_def)
  have eq: "bitset_clear b n s = (1, ?b, ?s)"
    using assms True
    by (auto simp: bitset_clear_def bset_def getbit_def wf_bitset_def and_one_bit_iff
        and_one_bit_zero)
  have gb: "getbit (bwords ?s ?b) i \<longleftrightarrow> getbit (bwords s b) i \<noteq> (i = n)" for i
    using getbit_xor [OF len] by simp
  have gn: "getbit (bwords s b) n" using True by (simp add: bset_def)
  have set: "bset ?s ?b = bset s b - {n}"
    using gb gn by (auto simp: bset_def)
  moreover have "card (bset s b) = Suc (card (bset ?s ?b))"
    using card.remove [OF finite_bset True] set by simp
  ultimately have "wf_bitset ?s ?b"
    using assms gb by (auto simp: wf_bitset_def)
  then show thesis by (rule that [OF eq _ set]) (simp_all add: put_word_def)
qed

section \<open>Scans\<close>

definition first_from :: "(nat \<Rightarrow> bool) \<Rightarrow> nat \<Rightarrow> nat \<Rightarrow> int" where
  "first_from P lo hi =
     (if {k. lo \<le> k \<and> k < hi \<and> P k} = {} then - 1 else int (Min {k. lo \<le> k \<and> k < hi \<and> P k}))"

definition last_below :: "(nat \<Rightarrow> bool) \<Rightarrow> nat \<Rightarrow> int" where
  "last_below P hi = (if {k. k < hi \<and> P k} = {} then - 1 else int (Max {k. k < hi \<and> P k}))"

lemma first_from_found:
  assumes "lo \<le> k" "k < hi" "P k" "\<And>j. lo \<le> j \<Longrightarrow> j < k \<Longrightarrow> \<not> P j"
  shows "first_from P lo hi = int k"
proof -
  have "Min {k. lo \<le> k \<and> k < hi \<and> P k} = k"
    by (rule Min_eqI) (use assms in \<open>auto simp: not_less [symmetric]\<close>)
  then show ?thesis using assms(1-3) by (auto simp: first_from_def)
qed

lemma first_from_skip:
  assumes "\<And>k. lo \<le> k \<Longrightarrow> k < mid \<Longrightarrow> k < hi \<Longrightarrow> \<not> P k" "lo \<le> mid"
  shows "first_from P lo hi = first_from P mid hi"
proof -
  have "{k. lo \<le> k \<and> k < hi \<and> P k} = {k. mid \<le> k \<and> k < hi \<and> P k}"
    using assms by (auto simp: not_less [symmetric])
  then show ?thesis by (simp add: first_from_def)
qed

lemma first_from_empty: "hi \<le> lo \<Longrightarrow> first_from P lo hi = - 1"
  by (auto simp: first_from_def)

lemma first_from_cong:
  assumes "\<And>k. k < hi \<Longrightarrow> P k = Q k"
  shows "first_from P lo hi = first_from Q lo hi"
proof -
  have "{k. lo \<le> k \<and> k < hi \<and> P k} = {k. lo \<le> k \<and> k < hi \<and> Q k}"
    using assms by auto
  then show ?thesis by (simp add: first_from_def)
qed

lemma last_below_cong:
  assumes "\<And>k. k < hi \<Longrightarrow> P k = Q k"
  shows "last_below P hi = last_below Q hi"
proof -
  have "{k. k < hi \<and> P k} = {k. k < hi \<and> Q k}" using assms by auto
  then show ?thesis by (simp add: last_below_def)
qed

lemma last_below_found:
  assumes "k < hi" "P k" "\<And>j. k < j \<Longrightarrow> j < hi \<Longrightarrow> \<not> P j"
  shows "last_below P hi = int k"
proof -
  have "Max {k. k < hi \<and> P k} = k"
    by (rule Max_eqI) (use assms in \<open>auto simp: not_less [symmetric]\<close>)
  then show ?thesis using assms(1,2) by (auto simp: last_below_def)
qed

lemma last_below_skip:
  assumes "\<And>k. mid \<le> k \<Longrightarrow> k < hi \<Longrightarrow> \<not> P k" "mid \<le> hi"
  shows "last_below P hi = last_below P mid"
proof -
  have "{k. k < hi \<and> P k} = {k. k < mid \<and> P k}"
    using assms by (auto simp: not_le [symmetric])
  then show ?thesis by (simp add: last_below_def)
qed

text \<open>The mask of word \<open>i\<close> hides the bits below the start and those past the end.\<close>

lemma tail_bits_iff:
  assumes "i < (n + 31) div 32" "k < 32"
  shows "(i = (n + 31) div 32 - 1 \<and> n mod 32 \<noteq> 0 \<and> n mod 32 \<le> k) \<longleftrightarrow> n \<le> 32 * i + (k :: nat)"
proof (cases "i = n div 32")
  case True
  have "n mod 32 \<le> k \<longleftrightarrow> n \<le> 32 * (n div 32) + k"
    by (rule div32_cases [of n]) simp
  moreover have "n mod 32 = 0 \<Longrightarrow> \<not> i < (n + 31) div 32"
    using True by (simp add: ceil_div_32)
  ultimately show ?thesis
    using assms True by (auto simp: ceil_div_32)
next
  case False
  then have "i < n div 32" using assms(1) by (auto simp: ceil_div_32 split: if_splits)
  then have "32 * Suc i \<le> 32 * (n div 32)" by (intro mult_le_mono2) simp
  from le_trans [OF this times_div_less_eq_dividend] have "32 * Suc i \<le> n" .
  then have "\<not> n \<le> 32 * i + k"
    using assms(2) by simp
  moreover have "\<not> (i = (n + 31) div 32 - 1 \<and> n mod 32 \<noteq> 0)"
    using False by (auto simp: ceil_div_32)
  ultimately show ?thesis by blast
qed

definition scan_mask :: "nat \<Rightarrow> nat \<Rightarrow> nat \<Rightarrow> nat \<Rightarrow> u32" where
  "scan_mask nwords bits i j =
     (if i = nwords - 1 \<and> bits \<noteq> 0 then low_mask j OR NOT (low_mask bits) else low_mask j)"

lemma bit_scan_mask:
  assumes "i < (n + 31) div 32" "k < 32" "j < 32"
  shows "bit (scan_mask ((n + 31) div 32) (n mod 32) i j) k \<longleftrightarrow> k < j \<or> n \<le> 32 * i + k"
proof -
  have "bit (scan_mask ((n + 31) div 32) (n mod 32) i j) k \<longleftrightarrow>
      k < j \<or> (i = (n + 31) div 32 - 1 \<and> n mod 32 \<noteq> 0 \<and> n mod 32 \<le> k)"
    using assms(2,3) by (auto simp: scan_mask_def bit_or_iff bit_not_iff bit_low_mask)
  then show ?thesis using tail_bits_iff [OF assms(1,2)] by simp
qed

lemma next_one_loop_spec:
  assumes "nw = (n + 31) div 32" "n < 2 ^ 31" "j < 32"
  shows "next_one_loop ws nw (n mod 32) i (low_mask j) = first_from (getbit ws) (32 * i + j) n"
  using assms(3)
proof (induction "nw - i" arbitrary: i j)
  case 0
  then have "n \<le> 32 * i + j"
    using ceil_div_32_bound [of n] assms(1) mult_le_mono2 [of nw i 32] by simp
  with 0 show ?case by (simp add: next_one_loop.simps first_from_empty)
next
  case (Suc d)
  then have i: "i < nw" by simp
  let ?word = "ws ! i AND NOT (scan_mask nw (n mod 32) i j)"
  have bw: "bit ?word k \<longleftrightarrow> getbit ws (32 * i + k) \<and> j \<le> k \<and> 32 * i + k < n" if "k < 32" for k
    using that Suc.prems bit_scan_mask [of i n k j] i assms(1)
    by (auto simp: bit_and_iff bit_not_iff getbit_split)
  have unfold: "next_one_loop ws nw (n mod 32) i (low_mask j) =
      (if ?word \<noteq> 0 then c_int (i * 32 + ctz ?word)
       else next_one_loop ws nw (n mod 32) (Suc i) (low_mask 0))"
    using i by (simp add: next_one_loop.simps [of ws nw "n mod 32" i] scan_mask_def)
  show ?case
  proof (cases "?word = 0")
    case False
    let ?k = "ctz ?word"
    note c = ctz_props [OF False]
    have k: "getbit ws (32 * i + ?k)" "j \<le> ?k" "32 * i + ?k < n"
      using bw [OF c(1)] c(2) by auto
    have "first_from (getbit ws) (32 * i + j) n = int (32 * i + ?k)"
    proof (rule first_from_found)
      fix l assume l: "32 * i + j \<le> l" "l < 32 * i + ?k"
      then obtain k' where k': "l = 32 * i + k'" "k' < ?k" "j \<le> k'"
        using that [of "l - 32 * i"] by simp
      then show "\<not> getbit ws l"
        using bw [of k'] c(1) c(3) [OF k'(2)] k(3) by auto
    qed (use k in auto)
    moreover have "c_int (i * 32 + ?k) = int (32 * i + ?k)"
      using k(3) assms(2) by (subst c_int_small) (simp_all add: mult.commute)
    ultimately show ?thesis using unfold False by simp
  next
    case True
    have "first_from (getbit ws) (32 * i + j) n = first_from (getbit ws) (32 * Suc i + 0) n"
    proof (rule first_from_skip)
      fix l assume l: "32 * i + j \<le> l" "l < 32 * Suc i + 0" "l < n"
      then obtain k' where k': "l = 32 * i + k'" "k' < 32" "j \<le> k'"
        using that [of "l - 32 * i"] by simp
      then show "\<not> getbit ws l" using bw [of k'] True l(3) by auto
    qed (use Suc.prems in simp)
    then show ?thesis using unfold True Suc.hyps(1) [of "Suc i" 0] Suc.hyps(2) by simp
  qed
qed

lemma bitset_find_next_one_spec:
  assumes "wf_bitset s b"
  shows "bitset_find_next_one b n s = first_from (\<lambda>i. i \<in> bset s b) n (nbits_m b)"
proof (cases "n < nbits_m b")
  case True
  have "bitset_find_next_one b n s = first_from (getbit (bwords s b)) n (nbits_m b)"
    using assms True next_one_loop_spec [of "nwords_m b" "nbits_m b" "n mod 32" "bwords s b" "n div 32"]
    by (simp add: bitset_find_next_one_def wf_bitset_def)
  also have "\<dots> = first_from (\<lambda>i. i \<in> bset s b) n (nbits_m b)"
    by (rule first_from_cong) (simp add: bset_def)
  finally show ?thesis .
next
  case False
  then show ?thesis by (simp add: bitset_find_next_one_def first_from_empty)
qed

text \<open>The zero scans see the complemented words.\<close>

lemma u32_ones: "(0xFFFFFFFF :: u32) = - 1"
  by (simp add: word_uint_eq_iff unsigned_minus_1_eq_mask mask_eq_exp_minus_1)

lemma u32_ones_iff: "w = 0xFFFFFFFF \<longleftrightarrow> NOT (w :: u32) = 0"
proof -
  have "NOT w = 0 \<longleftrightarrow> NOT w = NOT (- 1 :: u32)" by simp
  also have "\<dots> \<longleftrightarrow> w = - 1" by (simp only: bit.compl_eq_compl_iff)
  finally show ?thesis by (simp only: u32_ones)
qed

lemma ones_bit: "k < 32 \<Longrightarrow> bit (0xFFFFFFFF :: u32) k"
  by (simp only: u32_ones) simp

lemma next_zero_loop_complement:
  "nw \<le> length ws \<Longrightarrow>
     next_zero_loop ws nw bits i msk = next_one_loop (map (\<lambda>w. NOT w) ws) nw bits i msk"
proof (induction ws nw bits i msk rule: next_zero_loop.induct)
  case (1 ws nw bits i msk)
  define m where "m = (if i = nw - 1 \<and> bits \<noteq> 0 then msk OR NOT (low_mask bits) else msk)"
  show ?case
  proof (cases "i < nw")
    case True
    then have not: "map (\<lambda>w. NOT w) ws ! i AND NOT m = NOT (ws ! i OR m)"
      using 1(2) by simp
    have zero: "next_zero_loop ws nw bits i msk =
        (if ws ! i OR m \<noteq> 0xFFFFFFFF then c_int (i * 32 + ctz (NOT (ws ! i OR m)))
         else next_zero_loop ws nw bits (Suc i) 0)"
      using True by (subst next_zero_loop.simps) (simp only: Let_def m_def if_True)
    have one: "next_one_loop (map (\<lambda>w. NOT w) ws) nw bits i msk =
        (if NOT (ws ! i OR m) \<noteq> 0 then c_int (i * 32 + ctz (NOT (ws ! i OR m)))
         else next_one_loop (map (\<lambda>w. NOT w) ws) nw bits (Suc i) 0)"
      unfolding not [symmetric]
      using True by (subst next_one_loop.simps) (simp only: Let_def m_def if_True)
    have "ws ! i OR m = 0xFFFFFFFF \<Longrightarrow>
        next_zero_loop ws nw bits (Suc i) 0 = next_one_loop (map (\<lambda>w. NOT w) ws) nw bits (Suc i) 0"
      using 1(1) [OF True refl refl] 1(2) by (simp add: m_def)
    then show ?thesis
      unfolding zero one u32_ones_iff [of "ws ! i OR m"] by metis
  next
    case False
    then show ?thesis by (simp add: next_zero_loop.simps next_one_loop.simps)
  qed
qed

lemma getbit_complement:
  "k < 32 * nw \<Longrightarrow> nw \<le> length ws \<Longrightarrow> getbit (map (\<lambda>w. NOT w) ws) k \<longleftrightarrow> \<not> getbit ws k"
  by (simp add: getbit_def bit_not_iff less_mult_imp_div_less mult.commute)

lemma bitset_find_next_zero_spec:
  assumes "wf_bitset s b"
  shows "bitset_find_next_zero b n s = first_from (\<lambda>i. i \<notin> bset s b) n (nbits_m b)"
proof (cases "n < nbits_m b")
  case True
  let ?ws = "map (\<lambda>w. NOT w) (bwords s b)"
  have nw: "nwords_m b \<le> length (bwords s b)" "nwords_m b = (nbits_m b + 31) div 32"
    using assms by (simp_all add: wf_bitset_def)
  have "bitset_find_next_zero b n s = first_from (getbit ?ws) n (nbits_m b)"
    using assms True next_one_loop_spec [of "nwords_m b" "nbits_m b" "n mod 32" ?ws "n div 32"]
    by (simp add: bitset_find_next_zero_def wf_bitset_def next_zero_loop_complement)
  also have "\<dots> = first_from (\<lambda>i. i \<notin> bset s b) n (nbits_m b)"
  proof (rule first_from_cong)
    fix k assume "k < nbits_m b"
    moreover from this have "k < 32 * nwords_m b"
      using ceil_div_32_bound [of "nbits_m b"] nw(2) by simp
    ultimately show "getbit ?ws k = (k \<notin> bset s b)"
      using nw(1) by (simp add: getbit_complement bset_def)
  qed
  finally show ?thesis .
next
  case False
  then show ?thesis by (simp add: bitset_find_next_zero_def first_from_empty)
qed

lemma last_one_step:
  assumes "\<And>k. k < 32 \<Longrightarrow> bit msk k \<longleftrightarrow> k < j" "32 * i + j < 2 ^ 31" "j \<le> 32"
    "last_one_loop ws i 0xFFFFFFFF = last_below (getbit ws) (32 * i)"
  shows "last_one_loop ws (Suc i) msk = last_below (getbit ws) (32 * i + j)"
proof (cases "ws ! i AND msk = 0")
  case True
  have "last_below (getbit ws) (32 * i + j) = last_below (getbit ws) (32 * i)"
  proof (rule last_below_skip)
    fix l assume l: "32 * i \<le> l" "l < 32 * i + j"
    then obtain k where k: "l = 32 * i + k" "k < j"
      using that [of "l - 32 * i"] by simp
    with assms(3) have "k < 32" by simp
    moreover have "\<not> bit (ws ! i AND msk) k" using True by simp
    ultimately show "\<not> getbit ws l"
      using k assms(1) by (simp add: getbit_split bit_and_iff)
  qed simp
  with True assms(4) show ?thesis by simp
next
  case False
  let ?word = "ws ! i AND msk"
  let ?k = "31 - clz ?word"
  note c = clz_props [OF False]
  have k: "?k < 32" "?k < j" "bit (ws ! i) ?k"
    using c(2) assms(1) [of ?k] by (auto simp: bit_and_iff)
  have "last_below (getbit ws) (32 * i + j) = int (32 * i + ?k)"
  proof (rule last_below_found)
    fix l assume l: "32 * i + ?k < l" "l < 32 * i + j"
    then obtain k' where k': "l = 32 * i + k'" "?k < k'" "k' < j"
      using that [of "l - 32 * i"] by simp
    with assms(3) have "k' < 32" by simp
    then show "\<not> getbit ws l"
      using c(3) [OF k'(2)] k' assms(1) [of k'] by (simp add: getbit_split bit_and_iff)
  qed (use k in \<open>simp_all add: getbit_split\<close>)
  moreover have "c_int (i * 32 + (32 - 1 - clz ?word)) = int (32 * i + ?k)"
    using k(2) assms(2) by (subst c_int_small) (simp_all add: mult.commute)
  ultimately show ?thesis using False by (simp add: Let_def)
qed

lemma last_one_loop_full:
  "32 * i < 2 ^ 31 \<Longrightarrow> last_one_loop ws i 0xFFFFFFFF = last_below (getbit ws) (32 * i)"
proof (induction i)
  case 0
  then show ?case by (simp add: last_below_def)
next
  case (Suc i)
  then show ?case
    using last_one_step [of "0xFFFFFFFF" 32 i ws] ones_bit by (simp add: add.commute)
qed

lemma bitset_find_last_one_spec:
  assumes "wf_bitset s b"
  shows "bitset_find_last_one b s = last_below (\<lambda>i. i \<in> bset s b) (nbits_m b)"
proof (cases "bset s b = {}")
  case True
  then show ?thesis
    using assms by (simp add: bitset_find_last_one_def wf_bitset_def last_below_def)
next
  case False
  let ?n = "nbits_m b" and ?ws = "bwords s b"
  from assms have nw: "nwords_m b = (?n + 31) div 32" and lim: "?n < 2 ^ 31"
    and b0: "bits_m b \<noteq> 0" and nset: "nset_m b = of_nat (card (bset s b))"
    by (simp_all add: wf_bitset_def)
  have "0 < card (bset s b)" using False by (simp add: card_gt_0_iff)
  moreover have "card (bset s b) < 2 ^ 64" using card_bset [of s b] lim by simp
  ultimately have "nset_m b \<noteq> 0" by (simp add: nset word_of_nat_eq_0_iff nat_dvd_not_less)
  moreover have "last_one_loop ?ws (nwords_m b)
      (if ?n mod 32 \<noteq> 0 then low_mask (?n mod 32) else 0xFFFFFFFF) = last_below (getbit ?ws) ?n"
  proof (rule div32_cases [of ?n])
    fix q r assume n: "?n = 32 * q + r" "r < 32" "?n div 32 = q" "?n mod 32 = r"
    show ?thesis
    proof (cases "r = 0")
      case True
      then show ?thesis
        using last_one_loop_full [of q ?ws] n lim nw by (simp add: ceil_div_32)
    next
      case False
      have "last_one_loop ?ws (Suc q) (low_mask r) = last_below (getbit ?ws) (32 * q + r)"
        by (rule last_one_step)
          (use n lim last_one_loop_full [of q ?ws] in \<open>simp_all add: bit_low_mask\<close>)
      then show ?thesis using False n nw by (simp add: ceil_div_32)
    qed
  qed
  moreover have "last_below (getbit ?ws) ?n = last_below (\<lambda>i. i \<in> bset s b) ?n"
    by (rule last_below_cong) (simp add: bset_def)
  ultimately show ?thesis using b0 by (simp add: bitset_find_last_one_def)
qed

section \<open>Counting and masking\<close>

definition shape_ok :: "vs_store \<Rightarrow> bitset_t \<Rightarrow> bool" where
  "shape_ok s b \<longleftrightarrow> bits_m b \<noteq> 0 \<and> nbits_m b < 2 ^ 31 \<and>
     nwords_m b = (nbits_m b + 31) div 32 \<and> nwords_m b \<le> length (bwords s b)"

lemma wf_bitset_iff:
  "wf_bitset s b \<longleftrightarrow> shape_ok s b \<and>
     (\<forall>i. i < 32 * nwords_m b \<longrightarrow> getbit (bwords s b) i \<longrightarrow> i < nbits_m b) \<and>
     nset_m b = of_nat (card (bset s b))"
proof -
  have "(\<forall>i. nbits_m b \<le> i \<longrightarrow> i < 32 * nwords_m b \<longrightarrow> \<not> getbit (bwords s b) i) \<longleftrightarrow>
      (\<forall>i. i < 32 * nwords_m b \<longrightarrow> getbit (bwords s b) i \<longrightarrow> i < nbits_m b)"
    using not_le by blast
  then show ?thesis unfolding wf_bitset_def shape_ok_def by blast
qed

lemma shape_ok_index: "shape_ok s b \<Longrightarrow> i < nbits_m b \<Longrightarrow> i < 32 * nwords_m b"
  using ceil_div_32_bound [of "nbits_m b"] by (simp add: shape_ok_def)

lemma card_shift:
  "card {k. 32 * i \<le> k \<and> k < 32 * i + j \<and> P k} = card {k. k < j \<and> P (32 * i + k :: nat)}"
proof (rule sym, rule bij_betw_same_card [of "\<lambda>k. 32 * i + k"], rule bij_betwI')
  fix y assume "y \<in> {k. 32 * i \<le> k \<and> k < 32 * i + j \<and> P k}"
  then show "\<exists>x \<in> {k. k < j \<and> P (32 * i + k)}. y = 32 * i + x"
    by (intro bexI [of _ "y - 32 * i"]) auto
qed auto

lemma count_words_spec:
  "count_words ws i left acc =
     acc + card {k. 32 * i \<le> k \<and> k < 32 * i + left \<and> getbit ws k}"
proof (induction ws i left acc rule: count_words.induct)
  case (1 ws i left acc)
  let ?S = "\<lambda>lo hi. {k. lo \<le> k \<and> k < hi \<and> getbit ws k}"
  have word: "popcount (ws ! i AND w) = card (?S (32 * i) (32 * i + j))"
    if "j \<le> 32" "\<And>k. k < 32 \<Longrightarrow> bit w k \<longleftrightarrow> k < j" for w j
  proof -
    have "{k. k < 32 \<and> bit (ws ! i AND w) k} = {k. k < j \<and> getbit ws (32 * i + k)}"
      using that by (auto simp: bit_and_iff getbit_split)
    then show ?thesis by (simp add: popcount_card card_shift)
  qed
  show ?case
  proof (cases "left \<ge> 32")
    case True
    have split: "?S (32 * i) (32 * i + left) =
        ?S (32 * i) (32 * i + 32) \<union> ?S (32 * Suc i) (32 * Suc i + (left - 32))"
      using True by auto
    have "card (?S (32 * i) (32 * i + left)) =
        card (?S (32 * i) (32 * i + 32)) + card (?S (32 * Suc i) (32 * Suc i + (left - 32)))"
      unfolding split by (rule card_Un_disjoint) auto
    moreover have "popcount (ws ! i) = card (?S (32 * i) (32 * i + 32))"
      using word [of 32 "- 1"] by simp
    ultimately show ?thesis
      using 1(1) [OF True] True by (simp add: count_words.simps [of ws i left])
  next
    case False
    show ?thesis
    proof (cases "left = 0")
      case True
      then have none: "?S (32 * i) (32 * i + left) = {}" by auto
      show ?thesis unfolding none by (simp add: count_words.simps True)
    next
      case pos: False
      with False show ?thesis
        using word [of left "low_mask left"] bit_low_mask [of left]
        by (simp add: count_words.simps [of ws i left])
    qed
  qed
qed

lemma count_nset_card: "bits_m b \<noteq> 0 \<Longrightarrow> count_nset b s = card (bset s b)"
  by (simp add: count_nset_def count_words_spec bset_def)

lemma mask_off_spec:
  assumes "shape_ok s b" "i < 32 * nwords_m b"
  shows "getbit (bwords (bitset_mask_off_unused_bits b s) b) i \<longleftrightarrow>
    getbit (bwords s b) i \<and> i < nbits_m b"
proof (rule div32_cases [of "nbits_m b"])
  fix q r assume n: "nbits_m b = 32 * q + r" "r < 32" "nbits_m b div 32 = q" "nbits_m b mod 32 = r"
  show ?thesis
  proof (rule div32_cases [of i])
    fix u v assume i: "i = 32 * u + v" "v < 32" "i div 32 = u" "i mod 32 = v"
    have nw: "nwords_m b = (if r = 0 then q else Suc q)" "nwords_m b \<le> length (bwords s b)"
      using assms(1) n by (simp_all add: shape_ok_def ceil_div_32)
    show ?thesis
    proof (cases "r = 0")
      case True
      with assms(2) n nw show ?thesis by (simp add: bitset_mask_off_unused_bits_def)
    next
      case False
      with nw have w: "nwords_m b - 1 = q" "q < length (bwords s b)" by simp_all
      have "u < Suc q" using assms(2) nw(1) False i(1) by simp
      then have "u < q \<or> u = q" by auto
      moreover have "u < q \<Longrightarrow> i < nbits_m b"
        using i(1,2) n(1) mult_le_mono2 [of "Suc u" q 32] by simp
      ultimately show ?thesis
        using False w n i bit_low_mask [OF n(2), of v]
        by (auto simp: bitset_mask_off_unused_bits_def Let_def getbit_def nth_list_update_if
            bit_and_iff)
    qed
  qed
qed

lemma mask_off_other:
  "a \<noteq> bits_m b \<Longrightarrow> words (bitset_mask_off_unused_bits b s) a = words s a"
  "bufs (bitset_mask_off_unused_bits b s) = bufs s"
  "pool_at (bitset_mask_off_unused_bits b s) = pool_at s"
  "length (words (bitset_mask_off_unused_bits b s) c) = length (words s c)"
  by (auto simp: bitset_mask_off_unused_bits_def put_word_def Let_def)

lemma put_words_other [simp]:
  "a \<noteq> c \<Longrightarrow> words (put_words a xs s) c = words s c"
  "bufs (put_words a xs s) = bufs s"
  "pool_at (put_words a xs s) = pool_at s"
  by (auto simp: put_words_def)

lemma put_words_length [simp]:
  "length xs \<le> length (words s a) \<Longrightarrow> length (words (put_words a xs s) c) = length (words s c)"
  by (auto simp: put_words_def)

lemma put_words_getbit:
  "length xs \<le> length (words s a) \<Longrightarrow> getbit (words (put_words a xs s) a) i =
     (if i div 32 < length xs then getbit xs i else getbit (words s a) i)"
  by (auto simp: put_words_def getbit_def nth_append)

lemma same_pools:
  "bufs s' = bufs s \<Longrightarrow> live_blocks s' = live_blocks s"
  "pool_at s' = pool_at s \<Longrightarrow> pool_live p s' = pool_live p s"
  by (simp_all add: live_blocks_def pool_live_def)

section \<open>The last-zero scan\<close>

lemma last_zero_loop_full:
  "i \<le> length ws \<Longrightarrow>
     last_zero_loop ws i 32 0 = last_one_loop (map (\<lambda>w. NOT w) ws) i 0xFFFFFFFF"
proof (induction i)
  case (Suc i)
  have andff: "w AND 0xFFFFFFFF = w" for w :: u32 by (simp only: u32_ones) simp
  have "sint (of_nat (i * 32) + (of_nat 32 - 1 - of_nat (clz w)) :: u32) =
      c_int (i * 32 + (32 - 1 - clz w))" if "w \<noteq> 0" for w :: u32
  proof -
    have "(of_nat 32 - 1 - of_nat (clz w) :: u32) = of_nat (31 - clz w)"
      using clz_props(1) [OF that] by (simp add: of_nat_diff)
    then show ?thesis by (simp add: c_int_def)
  qed
  with Suc show ?case
    by (simp add: Let_def andff u32_ones_iff [of "ws ! i"] del: of_nat_mult)
qed simp

lemma set_word_low:
  assumes "wf_bitset s b" "nbits_m b mod 32 \<noteq> 0"
  shows "bwords s b ! (nwords_m b - 1) OR low_mask (nbits_m b mod 32) = low_mask (nbits_m b mod 32)"
proof (rule div32_cases [of "nbits_m b"])
  fix q r assume n: "nbits_m b = 32 * q + r" "r < 32" "nbits_m b div 32 = q" "nbits_m b mod 32 = r"
  have nw: "nwords_m b = Suc q" using assms n by (simp add: wf_bitset_def ceil_div_32)
  have "\<not> bit (bwords s b ! q) k" if "k < 32" "r \<le> k" for k
  proof -
    have "nbits_m b \<le> 32 * q + k" "32 * q + k < 32 * nwords_m b" using that n(1) nw by simp_all
    then have "\<not> getbit (bwords s b) (32 * q + k)" using assms(1) unfolding wf_bitset_def by blast
    then show ?thesis using that(1) by (simp add: getbit_split)
  qed
  then show ?thesis
    using n(2,4) nw by (auto simp: u32_eq_iff bit_or_iff bit_low_mask not_less [symmetric])
qed

lemma nset_full_iff:
  assumes "wf_bitset s b"
  shows "nset_m b = of_nat (nbits_m b) \<longleftrightarrow> bset s b = {..<nbits_m b}"
proof -
  have sub: "bset s b \<subseteq> {..<nbits_m b}" by (auto simp: bset_def)
  have "card (bset s b) \<le> nbits_m b" "nbits_m b < 2 ^ 31"
    using card_bset assms by (simp_all add: wf_bitset_def)
  then have "nset_m b = of_nat (nbits_m b) \<longleftrightarrow> card (bset s b) = nbits_m b"
    using assms
    by (simp add: wf_bitset_def word_unat_eq_iff unsigned_of_nat take_bit_nat_eq_self)
  also have "\<dots> \<longleftrightarrow> bset s b = {..<nbits_m b}"
    using card_subset_eq [OF finite_lessThan sub] by (metis card_lessThan)
  finally show ?thesis .
qed

text \<open>C32: The scan for the highest clear bit.  When the size is a multiple of 32 it finds the
  highest clear bit; otherwise its mask covers the used bits of the last word instead of the
  unused ones, and it returns the last index whether or not that bit is clear.\<close>

theorem bitset_find_last_zero_result:
  assumes "wf_bitset s b"
  shows "bitset_find_last_zero b s =
    (if bset s b = {..<nbits_m b} then - 1
     else if nbits_m b mod 32 = 0 then last_below (\<lambda>i. i \<notin> bset s b) (nbits_m b)
     else int (nbits_m b) - 1)"
proof -
  let ?n = "nbits_m b" and ?ws = "bwords s b"
  from assms have wf: "nwords_m b = (?n + 31) div 32" "?n < 2 ^ 31" "bits_m b \<noteq> 0"
    "nwords_m b \<le> length ?ws" by (simp_all add: wf_bitset_def)
  have aligned: "bitset_find_last_zero b s = last_below (\<lambda>i. i \<notin> bset s b) ?n"
    if "?n mod 32 = 0" "bset s b \<noteq> {..<?n}"
  proof -
    have "bitset_find_last_zero b s = last_below (getbit (map (\<lambda>w. NOT w) ?ws)) (32 * nwords_m b)"
      using that wf nset_full_iff [OF assms] last_one_loop_full [of "nwords_m b"]
        last_zero_loop_full [OF wf(4)]
      by (simp add: bitset_find_last_zero_def ceil_div_32 mod_0_imp_dvd)
    also have "32 * nwords_m b = ?n" using that(1) wf(1) by (simp add: ceil_div_32 mod_0_imp_dvd)
    also have "last_below (getbit (map (\<lambda>w. NOT w) ?ws)) ?n = last_below (\<lambda>i. i \<notin> bset s b) ?n"
      by (rule last_below_cong)
        (use getbit_complement [OF _ wf(4)] \<open>32 * nwords_m b = ?n\<close> in \<open>simp add: bset_def\<close>)
    finally show ?thesis .
  qed
  have partial: "bitset_find_last_zero b s = int ?n - 1"
    if "?n mod 32 \<noteq> 0" "bset s b \<noteq> {..<?n}"
  proof (rule div32_cases [of ?n])
    fix q r assume n: "?n = 32 * q + r" "r < 32" "?n div 32 = q" "?n mod 32 = r"
    have nw: "nwords_m b = Suc q" using that wf n by (simp add: ceil_div_32)
    have r: "bit (NOT (low_mask r)) 31" "NOT (low_mask r) \<noteq> 0"
      using n(2) by (auto simp: bit_not_iff bit_low_mask u32_nonzero_iff intro!: exI [of _ 31])
    then have clz: "clz (NOT (low_mask r)) = 0"
      using clz_props(3) [OF r(2), of 31] clz_props(1) [OF r(2)] by (cases "clz (NOT (low_mask r))") auto
    have "sint (of_nat (q * 32) + (of_nat r - 1 - of_nat 0) :: u32) = c_int (q * 32 + (r - 1))"
      using that n by (simp add: c_int_def of_nat_diff add_diff_eq)
    also have "\<dots> = int ?n - 1"
      using that n wf(2) by (subst c_int_small) (simp_all add: of_nat_diff)
    finally show ?thesis
      using that n(4) nw wf(3) nset_full_iff [OF assms] set_word_low [OF assms that(1)] r(2) clz
        u32_ones_iff [of "low_mask r"]
      by (simp add: bitset_find_last_zero_def Let_def)
  qed
  show ?thesis
    using aligned partial nset_full_iff [OF assms] by (simp add: bitset_find_last_zero_def)
qed

section \<open>Allocation, growth and copies\<close>

lemma block_words:
  "nw \<le> 2 ^ 26 \<Longrightarrow>
     nw \<le> (unat (ucast (of_nat (4 * nw) :: u64) + 24 :: u32) - PBUFFER_SIZE) div 4"
proof -
  assume nw: "nw \<le> 2 ^ 26"
  have "(ucast (of_nat (4 * nw) :: u64) + 24 :: u32) = of_nat (4 * nw + 24)"
    unfolding of_nat_add
    using nw by (subst of_nat_unat [symmetric])
      (simp add: unsigned_of_nat take_bit_nat_eq_self del: of_nat_mult)
  then have "unat (ucast (of_nat (4 * nw) :: u64) + 24 :: u32) = 4 * nw + 24"
    using nw by (simp add: unsigned_of_nat take_bit_nat_eq_self del: of_nat_add)
  then show ?thesis by simp
qed

lemma nwords_bound: "n < 2 ^ 31 \<Longrightarrow> ((n :: nat) + 31) div 32 \<le> 2 ^ 26"
  using div_le_mono [of "n + 31" "2 ^ 31 + 31" 32] by simp

lemma init_nwords:
  "(if n mod 32 \<noteq> 0 then n div 32 + 1 else n div 32) = ((n :: nat) + 31) div 32"
  by (simp add: ceil_div_32)

lemma getbit_zeros: "i < 32 * n \<Longrightarrow> n \<le> L \<Longrightarrow> \<not> getbit (replicate L 0) i"
  by (simp add: getbit_def less_mult_imp_div_less mult.commute)

lemma bitset_init_effect:
  assumes "pool_live p s" "malloc_fresh (Some m) s" "0 < n" "n < 2 ^ 31"
  obtains b s' where "bitset_init self (Some m) p n s = Inr (1, b, s')"
    "b = \<lparr>nwords_m = (n + 31) div 32, nbits_m = n, bits_m = m + PBUFFER_SIZE, nset_m = 0, pool_m = p\<rparr>"
    "shape_ok s' b" "\<And>i. i < 32 * nwords_m b \<Longrightarrow> \<not> getbit (bwords s' b) i"
    "pool_live p s'" "bits_m b \<notin> live_blocks s" "live_blocks s' = insert (bits_m b) (live_blocks s)"
    "\<And>a. a \<noteq> bits_m b \<Longrightarrow> words s' a = words s a"
proof -
  let ?nw = "(n + 31) div 32" and ?a = "m + PBUFFER_SIZE"
  have nw: "?nw \<noteq> 0" "?nw \<le> 2 ^ 26" using assms(3,4) nwords_bound by (auto simp: ceil_div_32)
  have "unat (of_nat (4 * ?nw) :: u64) = 4 * ?nw"
    using nw(2) by (simp add: unsigned_of_nat take_bit_nat_eq_self del: of_nat_mult)
  then have req: "(of_nat (4 * ?nw) :: u64) \<noteq> 0"
    using nw(1) by (metis mult_is_0 unsigned_0 zero_neq_numeral)
  have fits: "header_fits (of_nat (4 * ?nw))"
    using block_words [OF nw(2)] nw(1) unfolding header_fits_def by linarith
  obtain s1 where eq: "vs_pool_alloc self (Some m) p (of_nat (4 * ?nw)) False s =
      Inr (VSTATUS_OK, Some ?a, s1)"
    and s1: "pool_live p s1" "?a \<notin> live_blocks s" "live_blocks s1 = insert ?a (live_blocks s)"
      "words s1 = (words s)(?a := replicate
         ((unat (ucast (of_nat (4 * ?nw) :: u64) + 24 :: u32) - PBUFFER_SIZE) div 4) 0)"
    by (rule vs_pool_alloc_effect [OF assms(1) req assms(2) fits]) blast
  let ?s = "put_words ?a (replicate ?nw 0) s1"
  let ?b = "\<lparr>nwords_m = ?nw, nbits_m = n, bits_m = ?a, nset_m = 0, pool_m = p\<rparr>"
  have L: "?nw \<le> length (words s1 ?a)"
    using block_words [OF nw(2)] by (simp add: s1(4))
  have "bitset_init self (Some m) p n s = Inr (1, ?b, ?s)"
    unfolding bitset_init_def init_nwords Let_def eq by simp
  moreover have "shape_ok ?s ?b"
    using L assms(4) by (simp add: shape_ok_def bwords_def)
  moreover have "\<not> getbit (bwords ?s ?b) i" if "i < 32 * ?nw" for i
    using that L getbit_zeros [OF that le_refl]
    by (simp add: bwords_def put_words_getbit less_mult_imp_div_less mult.commute)
  moreover have "live_blocks ?s = insert ?a (live_blocks s)" "pool_live p ?s"
    using s1 by (simp_all add: live_blocks_def pool_live_def)
  moreover have "words ?s a = words s a" if "a \<noteq> ?a" for a using that s1(4) by simp
  ultimately show thesis using s1(2) that [of ?b ?s] by simp
qed

lemma bitset_init_fails:
  "pool_live p s \<Longrightarrow> 0 < n \<Longrightarrow> n < 2 ^ 31 \<Longrightarrow>
     bitset_init self None p n s = Inr (0, zero_bitset, s)"
  and bitset_init_zero: "bitset_init self malloc p 0 s = Inr (0, zero_bitset, s)"
proof -
  show "bitset_init self malloc p 0 s = Inr (0, zero_bitset, s)"
    by (simp add: bitset_init_def vs_pool_alloc_zero)
  assume p: "pool_live p s" and n: "0 < n" "n < 2 ^ 31"
  let ?nw = "(n + 31) div 32"
  have nw: "?nw \<noteq> 0" "?nw \<le> 2 ^ 26" using n nwords_bound by (auto simp: ceil_div_32)
  have "unat (of_nat (4 * ?nw) :: u64) = 4 * ?nw"
    using nw(2) by (simp add: unsigned_of_nat take_bit_nat_eq_self del: of_nat_mult)
  then have "(of_nat (4 * ?nw) :: u64) \<noteq> 0"
    using nw(1) by (metis mult_is_0 unsigned_0 zero_neq_numeral)
  from vs_pool_alloc_fails [OF p this]
  show "bitset_init self None p n s = Inr (0, zero_bitset, s)"
    unfolding bitset_init_def init_nwords Let_def by simp
qed

lemma shape_ok_upd [simp]:
  "shape_ok s (b\<lparr>nset_m := x\<rparr>) = shape_ok s b"
  by (simp add: shape_ok_def)

lemma copied_words:
  assumes "shape_ok s b" "k \<le> nwords_m b" "k \<le> length ws"
  shows "shape_ok (put_words (bits_m b) (take k ws) s) b"
    and "getbit (bwords (put_words (bits_m b) (take k ws) s) b) i \<longleftrightarrow>
      (if i < 32 * k then getbit ws i else getbit (bwords s b) i)"
proof -
  have k: "i div 32 < k \<longleftrightarrow> i < 32 * k" for i
    by (rule div32_cases [of i]) auto
  have "length (take k ws) \<le> length (words s (bits_m b))"
    using assms by (simp add: shape_ok_def bwords_def)
  then show "shape_ok (put_words (bits_m b) (take k ws) s) b"
    "getbit (bwords (put_words (bits_m b) (take k ws) s) b) i \<longleftrightarrow>
      (if i < 32 * k then getbit ws i else getbit (bwords s b) i)"
    using assms put_words_getbit [of "take k ws" s "bits_m b" i] k
    by (auto simp: shape_ok_def bwords_def getbit_def)
qed

lemma mask_off_shape: "shape_ok s b \<Longrightarrow> shape_ok (bitset_mask_off_unused_bits b s) b"
  by (simp add: shape_ok_def bwords_def mask_off_other)

text \<open>Storing the count makes a masked array a well-formed set.\<close>

lemma counted_wf:
  assumes "shape_ok s b" "\<And>i. i < 32 * nwords_m b \<Longrightarrow> getbit (bwords s b) i \<Longrightarrow> i < nbits_m b"
    "N = card (bset s b)"
  shows "wf_bitset s (b\<lparr>nset_m := of_nat N\<rparr>)" "bset s (b\<lparr>nset_m := x\<rparr>) = bset s b"
  using assms by (auto simp: wf_bitset_iff bset_def)

text \<open>What \<^verbatim>\<open>bitset_resize\<close> does to the new block before the old one is freed.\<close>

lemma resize_contents:
  assumes wf: "wf_bitset s b" and b1: "shape_ok s1 b1" "nbits_m b1 = n"
    and zero: "\<And>i. i < 32 * nwords_m b1 \<Longrightarrow> \<not> getbit (bwords s1 b1) i"
    and old: "words s1 (bits_m b) = words s (bits_m b)" "bits_m b \<noteq> bits_m b1"
    and step: "(b2, s2) =
       (if n > nbits_m b
        then (b1\<lparr>nset_m := nset_m b\<rparr>,
              put_words (bits_m b1) (take (nwords_m b) (words s1 (bits_m b))) s1)
        else
         let s' = put_words (bits_m b1) (take (nwords_m b1) (words s1 (bits_m b))) s1;
             s'' = bitset_mask_off_unused_bits b1 s'
         in (b1\<lparr>nset_m := of_nat (count_nset b1 s'')\<rparr>, s''))"
  shows "wf_bitset s2 b2 \<and> bset s2 b2 = bset s b \<inter> {..<n} \<and>
    (\<exists>x. b2 = b1\<lparr>nset_m := x\<rparr>) \<and> bufs s2 = bufs s1 \<and> pool_at s2 = pool_at s1 \<and>
    (\<forall>a. a \<noteq> bits_m b1 \<longrightarrow> words s2 a = words s1 a)"
proof -
  let ?old = "words s1 (bits_m b)"
  have ws: "?old = bwords s b" "bits_m b1 \<noteq> 0"
    using old b1 by (simp_all add: bwords_def shape_ok_def)
  have nw: "nwords_m b = (nbits_m b + 31) div 32" "nwords_m b \<le> length ?old"
    "nwords_m b1 = (n + 31) div 32"
    using wf b1 ws by (simp_all add: wf_bitset_def shape_ok_def)
  have shp: "shape_ok s b" using wf by (simp add: wf_bitset_iff)
  have high: "i < nbits_m b" if "i < 32 * nwords_m b" "getbit ?old i" for i
    using wf that ws by (auto simp: wf_bitset_iff)
  show ?thesis
  proof (cases "n > nbits_m b")
    case True
    let ?s = "put_words (bits_m b1) (take (nwords_m b) ?old) s1"
    have k: "nwords_m b \<le> nwords_m b1" unfolding nw(1,3) by (rule div_le_mono) (use True in simp)
    note c = copied_words [OF b1(1) k nw(2)]
    have gb: "getbit (bwords ?s b1) i \<longleftrightarrow> i < nbits_m b \<and> getbit ?old i"
      if "i < 32 * nwords_m b1" for i
      using c(2) [of i] zero [OF that] high [of i] shape_ok_index [OF shp, of i] by metis
    have set: "bset ?s b1 = bset s b"
      using gb shape_ok_index [OF b1(1)] b1(2) True ws by (auto simp: bset_def)
    have "nset_m b = of_nat (card (bset ?s b1))" using set wf by (simp add: wf_bitset_def)
    with counted_wf [OF c(1) _ refl] gb True b1(2) have "wf_bitset ?s (b1\<lparr>nset_m := nset_m b\<rparr>)"
      by simp
    moreover have "bset s b \<inter> {..<n} = bset s b" using True by (auto simp: bset_def)
    ultimately show ?thesis using step True set counted_wf(2) [OF c(1) _ refl] gb b1(2)
      by (auto simp: bset_def)
  next
    case False
    let ?s' = "put_words (bits_m b1) (take (nwords_m b1) ?old) s1"
    let ?s = "bitset_mask_off_unused_bits b1 ?s'"
    have k: "nwords_m b1 \<le> nwords_m b" unfolding nw(1,3) by (rule div_le_mono) (use False in simp)
    note c = copied_words [OF b1(1) le_refl order_trans [OF k nw(2)]]
    have gb: "getbit (bwords ?s b1) i \<longleftrightarrow> getbit ?old i \<and> i < n" if "i < 32 * nwords_m b1" for i
      using mask_off_spec [OF c(1) that] c(2) [of i] that b1(2) by simp
    have set: "bset ?s b1 = bset s b \<inter> {..<n}"
      using gb shape_ok_index [OF b1(1)] b1(2) False ws by (auto simp: bset_def)
    have "wf_bitset ?s (b1\<lparr>nset_m := of_nat (count_nset b1 ?s)\<rparr>)"
      by (rule counted_wf [OF mask_off_shape [OF c(1)]])
        (use gb b1(2) ws(2) in \<open>auto simp: count_nset_card\<close>)
    then show ?thesis using step False set
      by (auto simp: Let_def mask_off_other bset_def)
  qed
qed

section \<open>The contract of an index set\<close>

text \<open>The loop of the callers: start at a position, ask for the next member, continue behind
  it; \<open>fuel\<close> bounds the number of rounds.\<close>

fun scan_from :: "(nat \<Rightarrow> int) \<Rightarrow> nat \<Rightarrow> nat \<Rightarrow> nat list" where
  "scan_from nxt 0 n = []"
| "scan_from nxt (Suc fuel) n =
    (let k = nxt n in if k = - 1 then [] else nat k # scan_from nxt fuel (Suc (nat k)))"

locale index_set =
  fixes members :: "'s \<Rightarrow> nat set" and bound :: "'s \<Rightarrow> nat" and ok :: "'s \<Rightarrow> bool"
    and add :: "nat \<Rightarrow> 's \<Rightarrow> 's" and remove :: "nat \<Rightarrow> 's \<Rightarrow> 's"
    and next_member :: "nat \<Rightarrow> 's \<Rightarrow> int"
  assumes members_bound: "ok s \<Longrightarrow> members s \<subseteq> {..<bound s}"
    and add_law: "ok s \<Longrightarrow> n < bound s \<Longrightarrow>
      ok (add n s) \<and> bound (add n s) = bound s \<and> members (add n s) = insert n (members s)"
    and remove_law: "ok s \<Longrightarrow> n < bound s \<Longrightarrow>
      ok (remove n s) \<and> bound (remove n s) = bound s \<and> members (remove n s) = members s - {n}"
    and next_law: "ok s \<Longrightarrow> next_member n s = first_from (\<lambda>i. i \<in> members s) n (bound s)"
begin

lemma add_all:
  "ok s \<Longrightarrow> set ns \<subseteq> {..<bound s} \<Longrightarrow>
     ok (fold add ns s) \<and> bound (fold add ns s) = bound s \<and>
     members (fold add ns s) = set ns \<union> members s"
proof (induction ns arbitrary: s)
  case (Cons n ns)
  then have "ok (add n s)" "bound (add n s) = bound s" "members (add n s) = insert n (members s)"
    using add_law by simp_all
  with Cons.IH [of "add n s"] Cons.prems show ?case by auto
qed simp

lemma add_remove: "ok s \<Longrightarrow> n < bound s \<Longrightarrow> n \<notin> members s \<Longrightarrow> members (remove n (add n s)) = members s"
  using add_law remove_law by simp

lemma next_cases:
  assumes "ok s"
  obtains "next_member n s = - 1" "{i \<in> members s. n \<le> i} = {}"
  | k where "next_member n s = int k" "k < bound s" "n \<le> k"
      "{i \<in> members s. n \<le> i} = insert k {i \<in> members s. Suc k \<le> i}"
proof -
  let ?S = "{k. n \<le> k \<and> k < bound s \<and> k \<in> members s}"
  have S: "?S = {i \<in> members s. n \<le> i}" using members_bound [OF assms] by auto
  show thesis
  proof (cases "?S = {}")
    case True
    with S show thesis using that(1) next_law [OF assms] by (simp add: first_from_def)
  next
    case False
    have fin: "finite ?S" by simp
    obtain k where kd: "k = Min ?S" by blast
    have k: "k \<in> ?S" unfolding kd by (rule Min_in [OF fin False])
    have least: "k \<le> i" if "i \<in> ?S" for i
      unfolding kd by (rule Min_le [OF fin that])
    have "?S = insert k {i \<in> members s. Suc k \<le> i}"
    proof
      show "?S \<subseteq> insert k {i \<in> members s. Suc k \<le> i}"
        using least by (force simp: Suc_le_eq order_le_less)
      show "insert k {i \<in> members s. Suc k \<le> i} \<subseteq> ?S"
        unfolding S using k by auto
    qed
    then have "{i \<in> members s. n \<le> i} = insert k {i \<in> members s. Suc k \<le> i}"
      unfolding S .
    moreover have "next_member n s = int k"
      using next_law [OF assms] False by (simp add: first_from_def kd)
    ultimately show thesis using that(2) k S by auto
  qed
qed

lemma scan_enumerates:
  assumes "ok s" "bound s < n + fuel"
  shows "scan_from (\<lambda>n. next_member n s) fuel n = sorted_list_of_set {i \<in> members s. n \<le> i}"
  using assms(2)
proof (induction fuel arbitrary: n)
  case 0
  then have none: "{i \<in> members s. n \<le> i} = {}" using members_bound [OF assms(1)] by auto
  show ?case unfolding none by simp
next
  case (Suc fuel)
  show ?case
  proof (cases rule: next_cases [OF assms(1), of n])
    case 1
    show ?thesis unfolding 1(2) using 1(1) by simp
  next
    case (2 k)
    have fin: "finite {i \<in> members s. Suc k \<le> i}"
      using members_bound [OF assms(1)] by (auto intro: finite_subset)
    have "sorted_list_of_set (insert k {i \<in> members s. Suc k \<le> i}) =
        k # sorted_list_of_set {i \<in> members s. Suc k \<le> i}"
      by (subst sorted_list_of_set_insert [OF fin])
        (auto simp: insort_is_Cons fin)
    with 2 Suc show ?thesis by simp
  qed
qed

end

interpretation cbs: index_set
  "\<lambda>(b, s). bset s b" "\<lambda>(b, s). nbits_m b" "\<lambda>(b, s). wf_bitset s b"
  "\<lambda>n (b, s). snd (bitset_set b n s)" "\<lambda>n (b, s). snd (bitset_clear b n s)"
  "\<lambda>n (b, s). bitset_find_next_one b n s"
proof (unfold_locales, goal_cases)
  case (1 x)
  then show ?case by (auto simp: bset_def)
next
  case (2 x n)
  obtain b s where x: "x = (b, s)" by (cases x)
  with 2 have "wf_bitset s b" "n < nbits_m b" by simp_all
  then show ?case by (rule bitset_set_spec) (simp add: x)
next
  case (3 x n)
  obtain b s where x: "x = (b, s)" by (cases x)
  with 3 have "wf_bitset s b" "n < nbits_m b" by simp_all
  then show ?case by (rule bitset_clear_spec) (simp add: x)
next
  case (4 x n)
  then show ?case by (cases x) (simp add: bitset_find_next_one_spec)
qed

lemma bitset_resize_effect:
  assumes "wf_bitset s b" "pool_live (pool_m b) s" "bits_m b \<in> live_blocks s"
    "malloc_fresh (Some m) s" "0 < n" "n < 2 ^ 31" "n \<noteq> nbits_m b"
  obtains b' s' where "bitset_resize self (Some m) b n s = Inr (1, b', s')" "wf_bitset s' b'"
    "nbits_m b' = n" "bset s' b' = bset s b \<inter> {..<n}"
    "live_blocks s' = insert (bits_m b') (live_blocks s) - {bits_m b}"
    "\<And>a. a \<in> live_blocks s \<Longrightarrow> a \<noteq> bits_m b \<Longrightarrow> words s' a = words s a"
    "bits_m b' \<notin> live_blocks s"
proof -
  obtain b1 s1 where init: "bitset_init self (Some m) (pool_m b) n s = Inr (1, b1, s1)"
    and b1: "b1 = \<lparr>nwords_m = (n + 31) div 32, nbits_m = n, bits_m = m + PBUFFER_SIZE, nset_m = 0, pool_m = pool_m b\<rparr>"
    and sh: "shape_ok s1 b1" "\<And>i. i < 32 * nwords_m b1 \<Longrightarrow> \<not> getbit (bwords s1 b1) i"
    and p1: "pool_live (pool_m b) s1" "bits_m b1 \<notin> live_blocks s"
    and l1: "live_blocks s1 = insert (bits_m b1) (live_blocks s)"
    and w1: "\<And>a. a \<noteq> bits_m b1 \<Longrightarrow> words s1 a = words s a"
    by (rule bitset_init_effect [OF assms(2,4,5,6)]) blast
  have b1n: "nbits_m b1 = n" by (simp add: b1)
  have ne: "bits_m b \<noteq> bits_m b1" using p1(2) assms(3) by metis
  have b0: "bits_m b \<noteq> 0" using assms(1) by (simp add: wf_bitset_def)
  let ?new = "if n > nbits_m b
        then (b1\<lparr>nset_m := nset_m b\<rparr>,
              put_words (bits_m b1) (take (nwords_m b) (words s1 (bits_m b))) s1)
        else
         let s' = put_words (bits_m b1) (take (nwords_m b1) (words s1 (bits_m b))) s1;
             s'' = bitset_mask_off_unused_bits b1 s'
         in (b1\<lparr>nset_m := of_nat (count_nset b1 s'')\<rparr>, s'')"
  obtain b2 s2 where new: "(b2, s2) = ?new" by (cases ?new) metis
  from resize_contents [OF assms(1) sh(1) b1n sh(2) w1 [OF ne] ne new]
  obtain x where c: "wf_bitset s2 b2" "bset s2 b2 = bset s b \<inter> {..<n}"
    and x: "b2 = b1\<lparr>nset_m := x\<rparr>" and keep: "bufs s2 = bufs s1" "pool_at s2 = pool_at s1"
    and w2: "\<And>a. a \<noteq> bits_m b1 \<Longrightarrow> words s2 a = words s1 a"
    by blast
  have l2: "live_blocks s2 = live_blocks s1" by (rule same_pools(1) [OF keep(1)])
  have p2: "pool_live (pool_m b) s2" "bits_m b \<in> live_blocks s2"
    using p1(1) same_pools(2) [OF keep(2)] l1 l2 assms(3) by simp_all
  obtain s3 where free: "vs_pool_free self (pool_m b) (bits_m b) s2 = Inr (VSTATUS_OK, s3)"
    and l3: "live_blocks s3 = live_blocks s2 - {bits_m b}"
    and w3: "words s3 = (words s2)(bits_m b := [])"
    by (rule vs_pool_free_effect [OF p2, of self]) blast
  have same: "bwords s3 b2 = bwords s2 b2" using w3 x ne by (simp add: bwords_def)
  have "pool_m b2 = pool_m b" using x b1 by simp
  then have "bitset_resize self (Some m) b n s = Inr (1, b2, s3)"
    unfolding bitset_resize_def init
    using assms(7) b0 free
    by (simp only: if_False sum.case prod.case Let_def one_neq_zero new [unfolded Let_def, symmetric])
  moreover have "wf_bitset s3 b2" "bset s3 b2 = bset s b \<inter> {..<n}"
    using c same by (simp_all add: wf_bitset_def bset_def)
  moreover have "live_blocks s3 = insert (bits_m b2) (live_blocks s) - {bits_m b}"
    using l3 l1 l2 x by simp
  moreover have "words s3 a = words s a" if "a \<in> live_blocks s" "a \<noteq> bits_m b" for a
  proof -
    have "a \<noteq> bits_m b1" using that(1) p1(2) by metis
    then show ?thesis using that(2) w1 w2 w3 by simp
  qed
  ultimately show thesis using x b1n p1(2) that [of b2 s3] by simp
qed


lemma bitset_resize_failure_effect:
  assumes "pool_live (pool_m b) s" "n \<noteq> nbits_m b" "n = 0 \<or> malloc = None \<and> n < 2 ^ 31"
  shows "bitset_resize self malloc b n s = Inr (0, b\<lparr>pool_m := 0\<rparr>, s)"
proof -
  have "bitset_init self malloc (pool_m b) n s = Inr (0, zero_bitset, s)"
    using assms bitset_init_zero bitset_init_fails by (cases "n = 0") auto
  then show ?thesis using assms(2) by (simp add: bitset_resize_def zero_bitset_def)
qed

lemma intersect_loop_spec:
  "i + n \<le> length (words s r) \<Longrightarrow>
     words (intersect_loop a b r i n s) c ! k =
       (if c = r \<and> i \<le> k \<and> k < i + n then words s a ! k AND words s b ! k else words s c ! k) \<and>
     length (words (intersect_loop a b r i n s) c) = length (words s c)"
proof (induction n arbitrary: i s)
  case (Suc n)
  let ?s = "put_word r i (words s a ! i AND words s b ! i) s"
  have "Suc i + n \<le> length (words ?s r)" using Suc.prems by (simp add: put_word_def)
  from Suc.IH [OF this] show ?case
    using Suc.prems by (cases "k = i") (auto simp: put_word_def nth_list_update_if)
qed auto

lemma copy_contents:
  assumes "shape_ok s a" "wf_bitset s b" "nbits_m a = nbits_m b" "bits_m a \<noteq> bits_m b"
  shows "wf_bitset (put_words (bits_m a) (take (nwords_m a) (words s (bits_m b))) s)
           (a\<lparr>nset_m := nset_m b\<rparr>)"
    and "bset (put_words (bits_m a) (take (nwords_m a) (words s (bits_m b))) s)
           (a\<lparr>nset_m := nset_m b\<rparr>) = bset s b"
proof -
  let ?s = "put_words (bits_m a) (take (nwords_m a) (words s (bits_m b))) s"
  have nw: "nwords_m a = nwords_m b" "nwords_m a \<le> length (words s (bits_m b))"
    using assms by (simp_all add: wf_bitset_iff shape_ok_def bwords_def)
  note c = copied_words [OF assms(1) le_refl nw(2)]
  have gb: "getbit (bwords ?s a) i \<longleftrightarrow> getbit (bwords s b) i" if "i < 32 * nwords_m a" for i
    using c(2) that by (simp add: bwords_def)
  have low: "getbit (bwords ?s a) i \<Longrightarrow> i < nbits_m a" if "i < 32 * nwords_m a" for i
    using gb [OF that] that nw(1) assms(2,3) by (simp add: wf_bitset_iff)
  have set: "bset ?s a = bset s b"
    using gb shape_ok_index [OF assms(1)] assms(3) by (auto simp: bset_def)
  have "nset_m b = of_nat (card (bset ?s a))" using set assms(2) by (simp add: wf_bitset_def)
  then show "wf_bitset ?s (a\<lparr>nset_m := nset_m b\<rparr>)"
    using counted_wf(1) [OF c(1) low refl] by simp
  show "bset ?s (a\<lparr>nset_m := nset_m b\<rparr>) = bset s b"
    using set by (simp add: bset_def)
qed

section \<open>Properties\<close>

text \<open>On a well-formed bit set and an index in range, \<^verbatim>\<open>bitset_set\<close> adds exactly that
  index and \<^verbatim>\<open>bitset_clear\<close> removes exactly that index; both return 1, keep the count and the
  zero padding, and \<^verbatim>\<open>bitset_test\<close> sees the change.\<close>

theorem bitset_update:
  assumes "wf_bitset s b" and "n < nbits_m b"
  shows "(\<exists>b' s'. bitset_set b n s = (1, b', s') \<and> wf_bitset s' b' \<and>
      bset s' b' = insert n (bset s b) \<and>
      bitset_test b' i s' = (if i = n \<or> i \<in> bset s b then 1 else 0)) \<and>
    (\<exists>b' s'. bitset_clear b n s = (1, b', s') \<and> wf_bitset s' b' \<and>
      bset s' b' = bset s b - {n} \<and>
      bitset_test b' i s' = (if i \<noteq> n \<and> i \<in> bset s b then 1 else 0))"
proof
  show "\<exists>b' s'. bitset_set b n s = (1, b', s') \<and> wf_bitset s' b' \<and>
      bset s' b' = insert n (bset s b) \<and>
      bitset_test b' i s' = (if i = n \<or> i \<in> bset s b then 1 else 0)"
    by (rule bitset_set_spec [OF assms]) (simp add: bitset_test_iff wf_bitset_def)
  show "\<exists>b' s'. bitset_clear b n s = (1, b', s') \<and> wf_bitset s' b' \<and>
      bset s' b' = bset s b - {n} \<and>
      bitset_test b' i s' = (if i \<noteq> n \<and> i \<in> bset s b then 1 else 0)"
    by (rule bitset_clear_spec [OF assms]) (simp add: bitset_test_iff wf_bitset_def)
qed

text \<open>C31: The three correct scans return the nearest index of the kind asked for, or -1 when
  there is none, and the usual loop over \<^verbatim>\<open>bitset_find_next_one\<close> lists the members in
  increasing order and stops.  The two next-scans take the given index into account: the code
  returns it when it is of the kind asked for, where cs_bitset.h describes the next zero bit past
  the given bit.\<close>

theorem bitset_scans:
  assumes "wf_bitset s b"
  shows "bitset_find_next_one b n s = first_from (\<lambda>i. i \<in> bset s b) n (nbits_m b) \<and>
    bitset_find_next_zero b n s = first_from (\<lambda>i. i \<notin> bset s b) n (nbits_m b) \<and>
    bitset_find_last_one b s = last_below (\<lambda>i. i \<in> bset s b) (nbits_m b) \<and>
    scan_from (\<lambda>n. bitset_find_next_one b n s) (Suc (nbits_m b)) 0 = sorted_list_of_set (bset s b)"
proof -
  have "scan_from (\<lambda>n. bitset_find_next_one b n s) (Suc (nbits_m b)) 0 =
      sorted_list_of_set {i \<in> bset s b. 0 \<le> i}"
    using cbs.scan_enumerates [of "(b, s)" 0 "Suc (nbits_m b)"] assms by simp
  then show ?thesis
    using assms by (simp add: bitset_find_next_one_spec bitset_find_next_zero_spec
        bitset_find_last_one_spec)
qed

text \<open>Resizing to a new non-zero size with memory available keeps exactly the members below
  the new size, leaves a well-formed set on a new block, and frees the old block.\<close>

theorem bitset_resize_success:
  assumes "wf_bitset s b" "pool_live (pool_m b) s" "bits_m b \<in> live_blocks s"
    "malloc_fresh (Some m) s" "0 < n" "n < 2 ^ 31" "n \<noteq> nbits_m b"
  shows "\<exists>b' s'. bitset_resize self (Some m) b n s = Inr (1, b', s') \<and> wf_bitset s' b' \<and>
    nbits_m b' = n \<and> bset s' b' = bset s b \<inter> {..<n} \<and>
    live_blocks s' = insert (bits_m b') (live_blocks s) - {bits_m b}"
  by (rule bitset_resize_effect [OF assms, of self]) simp

text \<open>A resize that fails, for want of memory or because the new size is 0, returns 0 and
  leaves the members alone but the pool field NULL, so that a later \<^verbatim>\<open>bitset_free\<close> clears the
  structure without freeing the block: it stays live for good.\<close>

theorem bitset_resize_failure:
  assumes "wf_bitset s b" "pool_live (pool_m b) s" "bits_m b \<in> live_blocks s"
    "n \<noteq> nbits_m b" "n = 0 \<or> malloc = None \<and> n < 2 ^ 31"
  shows "\<exists>b' s'. bitset_resize self malloc b n s = Inr (0, b', s') \<and> bset s' b' = bset s b \<and>
    bits_m b' = bits_m b \<and>
    (\<exists>s''. bitset_free self b' s' = Inr (zero_bitset, s'') \<and> bits_m b \<in> live_blocks s'')"
proof -
  have "bits_m b \<noteq> 0" using assms(1) by (simp add: wf_bitset_def)
  then show ?thesis
    using assms(3) bitset_resize_failure_effect [OF assms(2,4,5), of self]
    by (simp add: bitset_free_def vs_pool_free_null bset_def bwords_def)
qed

text \<open>Copying a set over another one, of the same or of another size, makes the target equal
  to the source and leaves the source alone.\<close>

theorem bitset_copy_equal:
  assumes "wf_bitset s a" "wf_bitset s b" "pool_live (pool_m a) s" "bits_m a \<in> live_blocks s"
    "bits_m b \<in> live_blocks s" "bits_m a \<noteq> bits_m b" "malloc_fresh (Some m) s" "0 < nbits_m b"
  shows "\<exists>a' s'. bitset_copy self (Some m) a b s = Inr (a', s') \<and> wf_bitset s' a' \<and>
    nbits_m a' = nbits_m b \<and> bset s' a' = bset s b \<and> bwords s' b = bwords s b"
proof (cases "nbits_m a = nbits_m b")
  case True
  have "shape_ok s a" using assms(1) by (simp add: wf_bitset_iff)
  from copy_contents [OF this assms(2) True assms(6)] show ?thesis
    using assms(1,2,6) True
    by (simp add: bitset_copy_def wf_bitset_def [of s] bwords_def)
next
  case False
  have n: "nbits_m b < 2 ^ 31" "nbits_m b \<noteq> nbits_m a"
    using assms(2) False by (simp_all add: wf_bitset_def)
  obtain a' s1 where r: "bitset_resize self (Some m) a (nbits_m b) s = Inr (1, a', s1)"
    and wf: "wf_bitset s1 a'" and nb: "nbits_m a' = nbits_m b"
    and w: "\<And>c. c \<in> live_blocks s \<Longrightarrow> c \<noteq> bits_m a \<Longrightarrow> words s1 c = words s c"
    and new: "bits_m a' \<notin> live_blocks s"
    by (rule bitset_resize_effect [OF assms(1,3,4,7,8) n, of self]) blast
  have same: "words s1 (bits_m b) = words s (bits_m b)" using w [OF assms(5)] assms(6) by simp
  have wfb: "wf_bitset s1 b" and set: "bset s1 b = bset s b"
    using assms(2) same by (simp_all add: wf_bitset_def bset_def bwords_def)
  have ne: "bits_m a' \<noteq> bits_m b" using new assms(5) by metis
  have sh: "shape_ok s1 a'" using wf by (simp add: wf_bitset_iff)
  have b0: "bits_m a \<noteq> 0" "bits_m b \<noteq> 0" using assms(1,2) by (simp_all add: wf_bitset_def)
  let ?s = "put_words (bits_m a') (take (nwords_m a') (words s1 (bits_m b))) s1"
  have "bitset_copy self (Some m) a b s = Inr (a'\<lparr>nset_m := nset_m b\<rparr>, ?s)"
    using b0 False r nb by (simp add: bitset_copy_def)
  moreover have "bwords ?s b = bwords s b" using same ne by (simp add: bwords_def)
  ultimately show ?thesis
    using copy_contents [OF sh wfb nb ne] nb set by simp
qed

text \<open>The intersection of two sets over arrays of equal length is stored in the result array,
  which may be one of the operands, and its size is returned; the result is well formed when
  one operand is no larger than it.\<close>

theorem bitset_set_intersection_spec:
  assumes "wf_bitset s a" "wf_bitset s b" "shape_ok s r"
    "nwords_m a = nwords_m b" "nwords_m a = nwords_m r" "nbits_m a \<le> nbits_m r"
  shows "\<exists>r' s'. bitset_set_intersection a b r s = (int (card (bset s a \<inter> bset s b)), r', s') \<and>
    wf_bitset s' r' \<and> bset s' r' = bset s a \<inter> bset s b"
proof -
  let ?s = "intersect_loop (bits_m a) (bits_m b) (bits_m r) 0 (nwords_m a) s"
  have len: "0 + nwords_m a \<le> length (words s (bits_m r))"
    using assms(3,5) by (simp add: shape_ok_def bwords_def)
  have sh: "shape_ok ?s r"
    using assms(3) intersect_loop_spec [OF len] by (simp add: shape_ok_def bwords_def)
  have gb: "getbit (bwords ?s r) i \<longleftrightarrow> getbit (bwords s a) i \<and> getbit (bwords s b) i"
    if "i < 32 * nwords_m r" for i
    using that intersect_loop_spec [OF len] assms(5)
    by (simp add: getbit_def bwords_def bit_and_iff less_mult_imp_div_less mult.commute)
  have low: "i < nbits_m a" if "i < 32 * nwords_m r" "getbit (bwords ?s r) i" for i
    using assms(1,5) gb [OF that(1)] that by (simp add: wf_bitset_iff)
  have inb: "i < nbits_m b" if "i < 32 * nwords_m r" "getbit (bwords ?s r) i" for i
    using assms(2,4,5) gb [OF that(1)] that by (simp add: wf_bitset_iff)
  have sha: "shape_ok s a" using assms(1) by (simp add: wf_bitset_iff)
  have set: "bset ?s r = bset s a \<inter> bset s b"
  proof (intro set_eqI iffI)
    fix i assume i: "i \<in> bset ?s r"
    then have "i < 32 * nwords_m r" "getbit (bwords ?s r) i"
      using shape_ok_index [OF sh] by (simp_all add: bset_def)
    then show "i \<in> bset s a \<inter> bset s b" using gb low inb by (simp add: bset_def)
  next
    fix i assume i: "i \<in> bset s a \<inter> bset s b"
    then have "i < 32 * nwords_m r" using shape_ok_index [OF sha] assms(5) by (simp add: bset_def)
    then show "i \<in> bset ?s r" using gb i assms(6) by (simp add: bset_def)
  qed
  have b0: "bits_m a \<noteq> 0" "bits_m b \<noteq> 0" "bits_m r \<noteq> 0" and lim: "nbits_m a < 2 ^ 31"
    using assms(1-3) by (simp_all add: wf_bitset_def shape_ok_def)
  let ?N = "card (bset s a \<inter> bset s b)"
  have cnt: "count_nset r ?s = ?N" using b0 set by (simp add: count_nset_card)
  have "?N \<le> card (bset s a)" by (rule card_mono) simp_all
  with card_bset [of s a] lim have N: "?N < 2 ^ 31" by simp
  then have "c_int (unat (of_nat ?N :: u64)) = int ?N"
    by (simp add: unsigned_of_nat take_bit_nat_eq_self)
  then have "bitset_set_intersection a b r s = (int ?N, r\<lparr>nset_m := of_nat ?N\<rparr>, ?s)"
    using b0 assms(4,5) cnt by (simp add: bitset_set_intersection_def Let_def)
  moreover have "wf_bitset ?s (r\<lparr>nset_m := of_nat ?N\<rparr>)"
    by (rule counted_wf(1) [OF sh]) (use low assms(6) set in \<open>auto intro: order_less_le_trans\<close>)
  moreover have "bset ?s (r\<lparr>nset_m := of_nat ?N\<rparr>) = bset s a \<inter> bset s b"
    using set by (simp add: bset_def)
  ultimately show ?thesis by blast
qed

section \<open>Witnesses\<close>

text \<open>Sets of 40 bits, \<open>{0, 39}\<close> and \<open>{1, 39}\<close>, in two blocks of pool 1.\<close>

definition demo_words :: "addr \<Rightarrow> u32 list" where
  "demo_words a = [one_bit (if a = 116 then 0 else 1), one_bit 7, 0, 0]"

definition demo_bstore :: vs_store where
  "demo_bstore = demo_store\<lparr>words := demo_words,
     bufs := [100 \<mapsto> \<lparr>sentinel = DELETE_MARKER, buf_size = 32\<rparr>,
              200 \<mapsto> \<lparr>sentinel = DELETE_MARKER, buf_size = 32\<rparr>]\<rparr>"

definition demo_bits :: "addr \<Rightarrow> bitset_t" where
  "demo_bits a = \<lparr>nwords_m = 2, nbits_m = 40, bits_m = a, nset_m = 2, pool_m = 1\<rparr>"

lemma demo_bits_fields:
  "nwords_m (demo_bits a) = 2" "nbits_m (demo_bits a) = 40" "bits_m (demo_bits a) = a"
  "nset_m (demo_bits a) = 2" "pool_m (demo_bits a) = 1"
  "bwords demo_bstore (demo_bits a) = demo_words a"
  by (simp_all add: demo_bits_def bwords_def demo_bstore_def)

lemma demo_getbit:
  "i < 64 \<Longrightarrow> getbit (demo_words a) i \<longleftrightarrow> i = (if a = 116 then 0 else 1) \<or> i = 39"
proof (rule div32_cases [of i])
  fix q r assume i: "i = 32 * q + r" "r < 32" "i div 32 = q" "i mod 32 = r" and "i < 64"
  then have "q = 0 \<or> q = 1" by auto
  then show ?thesis
    using i by (auto simp: getbit_def demo_words_def bit_one_bit)
qed

lemma demo_bset:
  "bset demo_bstore (demo_bits a) = {if a = 116 then 0 else 1, 39}"
  by (auto simp: bset_def demo_bits_fields demo_getbit)

lemma demo_wf: "a \<noteq> 0 \<Longrightarrow> wf_bitset demo_bstore (demo_bits a)"
  by (simp add: wf_bitset_def demo_bset demo_bits_fields demo_getbit)
    (simp add: demo_words_def)

lemma demo_blocks:
  "pool_live 1 demo_bstore" "116 \<in> live_blocks demo_bstore" "216 \<in> live_blocks demo_bstore"
  "malloc_fresh (Some 300) demo_bstore"
  using demo_store_live [of 1]
  by (auto simp: demo_bstore_def pool_live_def live_blocks_def malloc_fresh_def)

theorem bitset_find_last_zero_result_witness:
  "bitset_find_last_zero (demo_bits 116) demo_bstore = 39 \<and> 39 \<in> bset demo_bstore (demo_bits 116)"
proof -
  have "5 \<in> {..<40 :: nat}" "5 \<notin> {0, 39 :: nat}" by simp_all
  then have "{0, 39} \<noteq> {..<40 :: nat}" by metis
  then show ?thesis
    using bitset_find_last_zero_result [OF demo_wf, of 116] by (simp add: demo_bset demo_bits_fields)
qed

theorem bitset_update_witness:
  "\<exists>b' s'. bitset_set (demo_bits 116) 5 demo_bstore = (1, b', s') \<and> bset s' b' = {5, 0, 39}"
proof -
  have "5 < nbits_m (demo_bits 116)" by (simp add: demo_bits_fields)
  from bitset_update [OF demo_wf this, of 5] show ?thesis by (auto simp: demo_bset)
qed

theorem bitset_scans_witness:
  "scan_from (\<lambda>n. bitset_find_next_one (demo_bits 116) n demo_bstore) 41 0 = [0, 39]"
  using bitset_scans [OF demo_wf, of 116 0, THEN conjunct2, THEN conjunct2, THEN conjunct2]
  by (simp add: demo_bset demo_bits_fields)

theorem bitset_resize_success_witness:
  "\<exists>b' s'. bitset_resize 7 (Some 300) (demo_bits 116) 20 demo_bstore = Inr (1, b', s') \<and>
     bset s' b' = {0}"
proof -
  have "{0, 39} \<inter> {..<20} = {0 :: nat}" by auto
  then show ?thesis
    using bitset_resize_success [OF demo_wf, of 116 300 20 7] demo_blocks
    by (auto simp: demo_bset demo_bits_fields)
qed

theorem bitset_resize_failure_witness:
  "\<exists>b' s' s''. bitset_resize 7 None (demo_bits 116) 0 demo_bstore = Inr (0, b', s') \<and>
     bitset_free 7 b' s' = Inr (zero_bitset, s'') \<and> 116 \<in> live_blocks s''"
  using bitset_resize_failure [OF demo_wf, of 116 0 None 7] demo_blocks
  by (auto simp: demo_bits_fields)

theorem bitset_copy_equal_witness:
  "\<exists>a' s'. bitset_copy 7 (Some 300) (demo_bits 216) (demo_bits 116) demo_bstore = Inr (a', s') \<and>
     bset s' a' = {0, 39}"
  using bitset_copy_equal [OF demo_wf demo_wf, of 216 116 300 7] demo_blocks
  by (auto simp: demo_bset demo_bits_fields)

theorem bitset_set_intersection_spec_witness:
  "\<exists>r' s'. bitset_set_intersection (demo_bits 116) (demo_bits 216) (demo_bits 116) demo_bstore =
     (1, r', s') \<and> bset s' r' = {39}"
proof -
  have "wf_bitset demo_bstore (demo_bits 116)" by (rule demo_wf) simp
  then have "shape_ok demo_bstore (demo_bits 116)" by (simp add: wf_bitset_iff)
  from bitset_set_intersection_spec [OF demo_wf [of 116] demo_wf [of 216] this] show ?thesis
    by (auto simp: demo_bset demo_bits_fields)
qed

end
