(* ===== verification/CsQueue.thy ===== *)
theory CsQueue
  imports VsPool
begin

text \<open>
  The bounded queue of pointers: Esm/ib/src/cs/cs_queue.c over Esm/ib/include/cs_queue.h.

  A \<open>cs_QueueRecord_t\<close> and its array of element pointers are two blocks of a pool; both are
  looked up by address, and an access to a block that is not allocated, or past the end of the
  array, is \<open>BadAccess\<close>.  The operations bracket their work with the queue's own lock.  The
  \<^verbatim>\<open>int\<close> fields are integers: the invariant keeps them between 0 and 2 to the 31.
  Log messages are not modelled.
\<close>

section \<open>State\<close>

record cs_QueueRecord_t =
  Capacity :: int
  Size :: int
  Front :: int
  Rear :: int
  q_lock :: Lock_t
  qData :: addr

record q_store =
  q_mem :: vs_store
  q_rec :: "addr \<Rightarrow> cs_QueueRecord_t option"
  q_data :: "addr \<Rightarrow> addr list"

abbreviation (input) MinQueueSize :: u32 where "MinQueueSize \<equiv> 5"

text \<open>\<open>sizeof (cs_QueueRecord_t)\<close>: four ints, the 160 bytes of a \<^verbatim>\<open>Lock_t\<close> and a pointer.\<close>

abbreviation (input) QUEUE_RECORD_SIZE :: u64 where "QUEUE_RECORD_SIZE \<equiv> 184"

definition zero_queue :: cs_QueueRecord_t where
  "zero_queue = \<lparr>Capacity = 0, Size = 0, Front = 0, Rear = 0, q_lock = zero_lock, qData = 0\<rparr>"

text \<open>Freeing a block takes the record and the array that lived there away.\<close>

definition queue_free :: "tid \<Rightarrow> addr \<Rightarrow> addr \<Rightarrow> q_store \<Rightarrow> vs_error + q_store" where
  "queue_free self pool a s =
    (case vs_pool_free self pool a (q_mem s) of Inl e \<Rightarrow> Inl e
     | Inr (rc, m) \<Rightarrow>
        Inr (if rc = VSTATUS_OK
             then s\<lparr>q_mem := m, q_rec := (q_rec s)(a := None), q_data := (q_data s)(a := [])\<rparr>
             else s\<lparr>q_mem := m\<rparr>))"

definition on_queue_lock ::
  "(Lock_t option \<Rightarrow> lock_result) \<Rightarrow> addr \<Rightarrow> q_store \<Rightarrow> vs_error + Status_t \<times> q_store" where
  "on_queue_lock f Q s =
    (case q_rec s Q of None \<Rightarrow> Inl BadAccess
     | Some q \<Rightarrow>
        (case f (Some (q_lock q)) of None \<Rightarrow> Inl Blocked
         | Some (rc, h) \<Rightarrow> Inr (rc, s\<lparr>q_rec := (q_rec s)(Q \<mapsto> q\<lparr>q_lock := the h\<rparr>)\<rparr>)))"

section \<open>Operations\<close>

definition cs_queue_IsEmpty :: "cs_QueueRecord_t \<Rightarrow> bool" where
  "cs_queue_IsEmpty q \<longleftrightarrow> Size q = 0"

definition cs_queue_IsFull :: "cs_QueueRecord_t \<Rightarrow> bool" where
  "cs_queue_IsFull q \<longleftrightarrow> Size q = Capacity q"

definition cs_queue_MakeEmpty :: "cs_QueueRecord_t \<Rightarrow> cs_QueueRecord_t" where
  "cs_queue_MakeEmpty q = q\<lparr>Size := 0, Front := 1, Rear := 0\<rparr>"

definition Succ :: "int \<Rightarrow> int \<Rightarrow> int" where
  "Succ Value Cap = (let v = Value + 1 in if v = Cap then 0 else v)"

text \<open>\<open>init_ok\<close> is the outcome of the pthread initialisations in \<^verbatim>\<open>vs_lock_init\<close>, whose failure
  ends the process (\<^verbatim>\<open>IB_FATAL_ERROR_NODUMP\<close> is \<^verbatim>\<open>exit (2)\<close>), \<open>malloc1\<close> and \<open>malloc2\<close> the
  results of the two allocations.  The array size is computed as a 64-bit value,
  stored in an \<^verbatim>\<open>int\<close> and widened again; the array itself holds as many pointers as the block
  has room for.\<close>

definition cs_queue_CreateQueue ::
  "bool \<Rightarrow> tid \<Rightarrow> addr option \<Rightarrow> addr option \<Rightarrow> addr \<Rightarrow> u32 \<Rightarrow> q_store \<Rightarrow>
     vs_error + addr \<times> q_store" where
  "cs_queue_CreateQueue init_ok self malloc1 malloc2 pool MaxElements s =
    (if MaxElements < MinQueueSize then Inr (0, s)
     else
      (case vs_pool_alloc self malloc1 pool QUEUE_RECORD_SIZE False (q_mem s) of
         Inl e \<Rightarrow> Inl e
       | Inr (status, loc, m1) \<Rightarrow>
          if status \<noteq> VSTATUS_OK then Inr (0, s\<lparr>q_mem := m1\<rparr>)
          else
           let que = the loc;
               s1 = s\<lparr>q_mem := m1, q_rec := (q_rec s)(que \<mapsto> zero_queue)\<rparr>;
               qsize = ucast (8 * ucast MaxElements :: u64) :: u32
           in
           (case vs_pool_alloc self malloc2 pool (scast qsize) False m1 of
              Inl e \<Rightarrow> Inl e
            | Inr (status, loc, m2) \<Rightarrow>
               let s2 = s1\<lparr>q_mem := m2\<rparr> in
               if status \<noteq> VSTATUS_OK
               then map_sum id (\<lambda>s3. (0, s3)) (queue_free self pool que s2)
               else
                let dat = the loc;
                    q = zero_queue\<lparr>qData := dat\<rparr>;
                    s3 = s2\<lparr>q_data := (q_data s)(dat := replicate (length (words m2 dat) div 2) 0)\<rparr>
                in
                (case vs_lock_init init_ok self None (Some (q_lock q)) VLOCK_FREE VLOCK_THREAD of
                   (status, h) \<Rightarrow>
                   let q1 = q\<lparr>q_lock := the h\<rparr>;
                       s4 = s3\<lparr>q_rec := (q_rec s3)(que \<mapsto> q1)\<rparr> in
                   if status \<noteq> VSTATUS_OK then Inl FatalAbort
                   else
                    Inr (que, s4\<lparr>q_rec := (q_rec s4)
                           (que \<mapsto> cs_queue_MakeEmpty (q1\<lparr>Capacity := sint MaxElements\<rparr>))\<rparr>)))))"

definition cs_queue_DisposeQueue :: "tid \<Rightarrow> addr \<Rightarrow> addr \<Rightarrow> q_store \<Rightarrow> vs_error + q_store" where
  "cs_queue_DisposeQueue self pool Q s =
    (if Q = 0 then Inr s
     else
      (case on_queue_lock (vs_lock_delete self) Q s of Inl e \<Rightarrow> Inl e
       | Inr (_, s1) \<Rightarrow>
          (case queue_free self pool (qData (the (q_rec s1 Q))) s1 of Inl e \<Rightarrow> Inl e
           | Inr s2 \<Rightarrow> queue_free self pool Q s2)))"

definition cs_queue_Enqueue :: "tid \<Rightarrow> addr \<Rightarrow> addr \<Rightarrow> q_store \<Rightarrow> vs_error + Status_t \<times> q_store" where
  "cs_queue_Enqueue self X Q s =
    (case on_queue_lock (vs_lock self) Q s of Inl e \<Rightarrow> Inl e
     | Inr (status, s1) \<Rightarrow>
        if status \<noteq> VSTATUS_OK then Inr (status, s1)
        else
         let q = the (q_rec s1 Q); ptr = qData q in
         if cs_queue_IsFull q
         then map_sum id (\<lambda>(_, s2). (VSTATUS_BAD, s2)) (on_queue_lock (vs_unlock self) Q s1)
         else
          let q' = q\<lparr>Size := Size q + 1, Rear := Succ (Rear q) (Capacity q)\<rparr> in
          if Rear q' < 0 \<or> int (length (q_data s1 ptr)) \<le> Rear q' then Inl BadAccess
          else
           on_queue_lock (vs_unlock self) Q
             (s1\<lparr>q_rec := (q_rec s1)(Q \<mapsto> q'),
                 q_data := (q_data s1)(ptr := (q_data s1 ptr)[nat (Rear q') := X])\<rparr>))"

text \<open>The element at the front, NULL when the queue is empty.\<close>

definition front_elem :: "cs_QueueRecord_t \<Rightarrow> q_store \<Rightarrow> vs_error + addr" where
  "front_elem q s =
    (if cs_queue_IsEmpty q then Inr 0
     else if Front q < 0 \<or> int (length (q_data s (qData q))) \<le> Front q then Inl BadAccess
     else Inr (q_data s (qData q) ! nat (Front q)))"

definition cs_queue_Front :: "tid \<Rightarrow> addr \<Rightarrow> q_store \<Rightarrow> vs_error + addr \<times> q_store" where
  "cs_queue_Front self Q s =
    (case on_queue_lock (vs_lock self) Q s of Inl e \<Rightarrow> Inl e
     | Inr (status, s1) \<Rightarrow>
        if status \<noteq> VSTATUS_OK then Inr (0, s1)
        else
         (case front_elem (the (q_rec s1 Q)) s1 of Inl e \<Rightarrow> Inl e
          | Inr X \<Rightarrow> map_sum id (\<lambda>(_, s2). (X, s2)) (on_queue_lock (vs_unlock self) Q s1)))"

definition cs_queue_Dequeue :: "tid \<Rightarrow> addr \<Rightarrow> q_store \<Rightarrow> vs_error + q_store" where
  "cs_queue_Dequeue self Q s =
    (case on_queue_lock (vs_lock self) Q s of Inl e \<Rightarrow> Inl e
     | Inr (status, s1) \<Rightarrow>
        if status \<noteq> VSTATUS_OK then Inr s1
        else
         let q = the (q_rec s1 Q);
             q' = (if cs_queue_IsEmpty q then q
                   else q\<lparr>Size := Size q - 1, Front := Succ (Front q) (Capacity q)\<rparr>)
         in map_sum id snd
              (on_queue_lock (vs_unlock self) Q (s1\<lparr>q_rec := (q_rec s1)(Q \<mapsto> q')\<rparr>)))"

definition cs_queue_FrontAndDequeue :: "tid \<Rightarrow> addr \<Rightarrow> q_store \<Rightarrow> vs_error + addr \<times> q_store" where
  "cs_queue_FrontAndDequeue self Q s =
    (case on_queue_lock (vs_lock self) Q s of Inl e \<Rightarrow> Inl e
     | Inr (status, s1) \<Rightarrow>
        if status \<noteq> VSTATUS_OK then Inr (0, s1)
        else
         let q = the (q_rec s1 Q);
             q' = (if cs_queue_IsEmpty q then q
                   else q\<lparr>Size := Size q - 1, Front := Succ (Front q) (Capacity q)\<rparr>)
         in (case front_elem q s1 of Inl e \<Rightarrow> Inl e
             | Inr X \<Rightarrow> map_sum id (\<lambda>(_, s2). (X, s2))
                 (on_queue_lock (vs_unlock self) Q (s1\<lparr>q_rec := (q_rec s1)(Q \<mapsto> q')\<rparr>))))"

section \<open>Contents and invariant\<close>

definition ring_ok :: "cs_QueueRecord_t \<Rightarrow> addr list \<Rightarrow> bool" where
  "ring_ok q d \<longleftrightarrow> lock_ready (q_lock q) \<and> 0 < Capacity q \<and> Capacity q \<le> int (length d) \<and>
     0 \<le> Size q \<and> Size q \<le> Capacity q \<and> 0 \<le> Front q \<and> Front q < Capacity q \<and>
     0 \<le> Rear q \<and> Rear q < Capacity q \<and>
     (Rear q + 1) mod Capacity q = (Front q + Size q) mod Capacity q"

definition ring_contents :: "cs_QueueRecord_t \<Rightarrow> addr list \<Rightarrow> addr list" where
  "ring_contents q d = map (\<lambda>i. d ! nat ((Front q + int i) mod Capacity q)) [0..<nat (Size q)]"

definition queue_is :: "addr \<Rightarrow> q_store \<Rightarrow> nat \<times> addr list \<Rightarrow> bool" where
  "queue_is Q s a \<longleftrightarrow>
     (\<exists>q. q_rec s Q = Some q \<and> ring_ok q (q_data s (qData q)) \<and> Capacity q = int (fst a) \<and>
        snd a = ring_contents q (q_data s (qData q)))"

lemma Succ_mod: "0 \<le> v \<Longrightarrow> v < c \<Longrightarrow> Succ v c = (v + 1) mod c"
  by (auto simp: Succ_def Let_def)

lemma mod_slot_inj:
  assumes "0 \<le> i" "i < n" "n < (c :: int)"
  shows "(f + i) mod c \<noteq> (f + n) mod c"
proof
  assume "(f + i) mod c = (f + n) mod c"
  then have "c dvd (f + n) - (f + i)" by (metis mod_eq_dvd_iff)
  then have "c dvd n - i" by simp
  with assms show False using zdvd_not_zless [of "n - i" c] by simp
qed

lemma ring_add:
  assumes "ring_ok q d" "Size q \<noteq> Capacity q"
  defines "q' \<equiv> q\<lparr>Size := Size q + 1, Rear := Succ (Rear q) (Capacity q)\<rparr>"
  shows "0 \<le> Rear q'" "Rear q' < int (length d)" "ring_ok q' (d[nat (Rear q') := X])"
    "ring_contents q' (d[nat (Rear q') := X]) = ring_contents q d @ [X]"
proof -
  note r = assms(1) [unfolded ring_ok_def]
  have rear: "Rear q' = (Front q + Size q) mod Capacity q"
    using r by (simp add: q'_def Succ_mod)
  then have rb: "0 \<le> Rear q'" "Rear q' < Capacity q" using r by simp_all
  then show lt: "0 \<le> Rear q'" "Rear q' < int (length d)" using r by simp_all
  have "(Rear q' + 1) mod Capacity q = (Front q + (Size q + 1)) mod Capacity q"
    unfolding rear by (simp add: mod_add_left_eq add.assoc)
  then show "ring_ok q' (d[nat (Rear q') := X])"
    using r rb assms(2) by (simp add: ring_ok_def q'_def)
  have old: "d[nat (Rear q') := X] ! nat ((Front q + int i) mod Capacity q) =
      d ! nat ((Front q + int i) mod Capacity q)" if "i < nat (Size q)" for i
  proof -
    have "(Front q + int i) mod Capacity q \<noteq> Rear q'"
      unfolding rear by (rule mod_slot_inj) (use that r assms(2) in auto)
    moreover have "0 \<le> (Front q + int i) mod Capacity q" using r by simp
    ultimately have "nat (Rear q') \<noteq> nat ((Front q + int i) mod Capacity q)"
      using rb(1) by (metis eq_nat_nat_iff)
    then show ?thesis by simp
  qed
  have new: "d[nat (Rear q') := X] ! nat (Rear q') = X"
    using lt by (simp add: nat_less_iff)
  have "0 \<le> Size q" using r by blast
  then have "nat (Size q + 1) = Suc (nat (Size q))" by simp
  then show "ring_contents q' (d[nat (Rear q') := X]) = ring_contents q d @ [X]"
    using old new r rear by (simp add: ring_contents_def q'_def)
qed

lemma ring_size: "ring_ok q d \<Longrightarrow> Size q \<noteq> 0 \<Longrightarrow> nat (Size q) = Suc (nat (Size q - 1))"
proof -
  assume "ring_ok q d" "Size q \<noteq> 0"
  then have "0 \<le> Size q" "Size q \<noteq> 0" unfolding ring_ok_def by blast+
  then show ?thesis by simp
qed

lemma ring_empty: "ring_ok q d \<Longrightarrow> ring_contents q d = [] \<longleftrightarrow> Size q = 0"
  using ring_size [of q d] by (cases "Size q = 0") (simp_all add: ring_contents_def)

lemma ring_length: "ring_ok q d \<Longrightarrow> int (length (ring_contents q d)) = Size q"
  by (simp add: ring_contents_def ring_ok_def)

lemma ring_front:
  assumes "ring_ok q d" "Size q \<noteq> 0"
  shows "hd (ring_contents q d) = d ! nat (Front q)" "0 \<le> Front q" "Front q < int (length d)"
proof -
  have "Front q mod Capacity q = Front q"
    using assms by (simp_all add: ring_ok_def)
  with ring_size [OF assms] show "hd (ring_contents q d) = d ! nat (Front q)"
    by (simp add: ring_contents_def upt_conv_Cons del: upt_Suc)
  show "0 \<le> Front q" "Front q < int (length d)" using assms by (simp_all add: ring_ok_def)
qed

lemma ring_remove:
  assumes "ring_ok q d" "Size q \<noteq> 0"
  defines "q' \<equiv> q\<lparr>Size := Size q - 1, Front := Succ (Front q) (Capacity q)\<rparr>"
  shows "ring_ok q' d" "ring_contents q' d = tl (ring_contents q d)"
proof -
  note r = assms(1) [unfolded ring_ok_def]
  have front: "Front q' = (Front q + 1) mod Capacity q" using r by (simp add: q'_def Succ_mod)
  have "(Front q' + (Size q - 1)) mod Capacity q = (Front q + Size q) mod Capacity q"
    unfolding front by (simp add: mod_add_left_eq)
  then show "ring_ok q' d" using r assms(2) front by (simp add: ring_ok_def q'_def)
  note n = ring_size [OF assms(1,2)]
  have shift: "(Front q' + int i) mod Capacity q = (Front q + int (Suc i)) mod Capacity q" for i
    unfolding front by (simp add: mod_add_left_eq add.assoc)
  have "tl (ring_contents q d) =
      map (\<lambda>i. d ! nat ((Front q + int (Suc i)) mod Capacity q)) [0..<nat (Size q - 1)]"
    unfolding ring_contents_def n
    by (simp add: upt_conv_Cons map_Suc_upt [symmetric] del: upt_Suc)
  then show "ring_contents q' d = tl (ring_contents q d)"
    unfolding ring_contents_def shift [symmetric] by (simp add: q'_def)
qed

section \<open>Effects of the operations\<close>

lemma on_queue_lock_ready [vs_simps]:
  "q_rec s Q = Some q \<Longrightarrow> lock_ready (q_lock q) \<Longrightarrow>
     on_queue_lock (vs_lock self) Q s =
       Inr (VSTATUS_OK, s\<lparr>q_rec := (q_rec s)(Q \<mapsto> q\<lparr>q_lock := lock_taken self (q_lock q)\<rparr>)\<rparr>)"
  by (simp add: on_queue_lock_def vs_simps)

lemma on_queue_unlock_taken [vs_simps]:
  "q_rec s Q = Some q \<Longrightarrow> q_lock q = lock_taken self h \<Longrightarrow> lock_ready h \<Longrightarrow>
     on_queue_lock (vs_unlock self) Q s =
       Inr (VSTATUS_OK, s\<lparr>q_rec := (q_rec s)(Q \<mapsto> q\<lparr>q_lock := h\<rparr>)\<rparr>)"
  by (simp add: on_queue_lock_def vs_simps)

lemma queue_isE:
  assumes "queue_is Q s a"
  obtains q where "q_rec s Q = Some q" "ring_ok q (q_data s (qData q))" "Capacity q = int (fst a)"
    "snd a = ring_contents q (q_data s (qData q))" "lock_ready (q_lock q)"
  using assms by (auto simp: queue_is_def ring_ok_def)

lemma ring_relock [simp]:
  "q\<lparr>q_lock := l, q_lock := l'\<rparr> = q\<lparr>q_lock := l'\<rparr>" "q\<lparr>q_lock := q_lock q\<rparr> = q"
  by simp_all

lemma Enqueue_effect:
  assumes "queue_is Q s a"
  obtains s' where
    "cs_queue_Enqueue self X Q s =
       Inr (if length (snd a) = fst a then VSTATUS_BAD else VSTATUS_OK, s')"
    "queue_is Q s' (fst a, if length (snd a) = fst a then snd a else snd a @ [X])"
proof (rule queue_isE [OF assms])
  fix q assume q: "q_rec s Q = Some q" "ring_ok q (q_data s (qData q))" "Capacity q = int (fst a)"
    "snd a = ring_contents q (q_data s (qData q))" "lock_ready (q_lock q)"
  let ?d = "q_data s (qData q)"
  have full: "Size q = Capacity q \<longleftrightarrow> length (snd a) = fst a"
    using ring_length [OF q(2)] q(3,4) by auto
  show thesis
  proof (cases "Size q = Capacity q")
    case True
    have "cs_queue_Enqueue self X Q s = Inr (VSTATUS_BAD, s\<lparr>q_rec := (q_rec s)(Q \<mapsto> q)\<rparr>)"
      using q True by (simp add: cs_queue_Enqueue_def vs_simps cs_queue_IsFull_def)
    then show thesis
      using that [of "s\<lparr>q_rec := (q_rec s)(Q \<mapsto> q)\<rparr>"] q full True by (auto simp: queue_is_def)
  next
    case False
    let ?q = "q\<lparr>Size := Size q + 1, Rear := Succ (Rear q) (Capacity q)\<rparr>"
    let ?d' = "?d[nat (Rear ?q) := X]"
    let ?s = "s\<lparr>q_rec := (q_rec s)(Q \<mapsto> ?q), q_data := (q_data s)(qData q := ?d')\<rparr>"
    note r = ring_add [OF q(2) False]
    have "cs_queue_Enqueue self X Q s = Inr (VSTATUS_OK, ?s)"
      using q False r(1,2) by (simp add: cs_queue_Enqueue_def vs_simps cs_queue_IsFull_def Let_def)
    moreover have "queue_is Q ?s (fst a, snd a @ [X])"
      using r(3,4) [of X] q(3,4) by (simp add: queue_is_def)
    ultimately show thesis using that [of ?s] full False by simp
  qed
qed

lemma front_elem_spec:
  "ring_ok q (q_data s (qData q)) \<Longrightarrow>
     front_elem q s = Inr (case ring_contents q (q_data s (qData q)) of [] \<Rightarrow> 0 | x # _ \<Rightarrow> x)"
  using ring_front [of q "q_data s (qData q)"] ring_empty [of q "q_data s (qData q)"]
  by (cases "Size q = 0"; cases "ring_contents q (q_data s (qData q))")
    (simp_all add: front_elem_def cs_queue_IsEmpty_def)

lemma front_elem_relock: "front_elem (q\<lparr>q_lock := l\<rparr>) s = front_elem q s"
  and front_elem_rec: "front_elem q (s\<lparr>q_rec := m\<rparr>) = front_elem q s"
  by (simp_all add: front_elem_def cs_queue_IsEmpty_def)

lemma Front_effect:
  assumes "queue_is Q s a"
  obtains s' where
    "cs_queue_Front self Q s = Inr (case snd a of [] \<Rightarrow> 0 | x # _ \<Rightarrow> x, s')" "queue_is Q s' a"
proof (rule queue_isE [OF assms])
  fix q assume q: "q_rec s Q = Some q" "ring_ok q (q_data s (qData q))" "Capacity q = int (fst a)"
    "snd a = ring_contents q (q_data s (qData q))" "lock_ready (q_lock q)"
  have "cs_queue_Front self Q s =
      Inr (case snd a of [] \<Rightarrow> 0 | x # _ \<Rightarrow> x, s\<lparr>q_rec := (q_rec s)(Q \<mapsto> q)\<rparr>)"
    using q front_elem_spec [OF q(2)]
    by (simp add: cs_queue_Front_def vs_simps front_elem_relock front_elem_rec)
  then show thesis
    using that [of "s\<lparr>q_rec := (q_rec s)(Q \<mapsto> q)\<rparr>"] q by (simp add: queue_is_def)
qed

lemma FrontAndDequeue_effect:
  assumes "queue_is Q s a"
  obtains s' where
    "cs_queue_FrontAndDequeue self Q s = Inr (case snd a of [] \<Rightarrow> 0 | x # _ \<Rightarrow> x, s')"
    "cs_queue_Dequeue self Q s = Inr s'" "queue_is Q s' (fst a, tl (snd a))"
proof (rule queue_isE [OF assms])
  fix q assume q: "q_rec s Q = Some q" "ring_ok q (q_data s (qData q))" "Capacity q = int (fst a)"
    "snd a = ring_contents q (q_data s (qData q))" "lock_ready (q_lock q)"
  let ?q = "if Size q = 0 then q
    else q\<lparr>Size := Size q - 1, Front := Succ (Front q) (Capacity q)\<rparr>"
  let ?s = "s\<lparr>q_rec := (q_rec s)(Q \<mapsto> ?q)\<rparr>"
  have "cs_queue_FrontAndDequeue self Q s = Inr (case snd a of [] \<Rightarrow> 0 | x # _ \<Rightarrow> x, ?s)"
    using q front_elem_spec [OF q(2)]
    by (simp add: cs_queue_FrontAndDequeue_def vs_simps front_elem_relock front_elem_rec
        cs_queue_IsEmpty_def Let_def)
  moreover have "cs_queue_Dequeue self Q s = Inr ?s"
    using q by (simp add: cs_queue_Dequeue_def vs_simps cs_queue_IsEmpty_def Let_def)
  moreover have "queue_is Q ?s (fst a, tl (snd a))"
    using q ring_remove [OF q(2)] ring_empty [OF q(2)]
    by (cases "Size q = 0") (simp_all add: queue_is_def)
  ultimately show thesis by (rule that)
qed

section \<open>The contract: a bounded FIFO\<close>

datatype q_op = Enqueue_op addr | Front_op | Dequeue_op | FrontAndDequeue_op
datatype q_res = Status_res Status_t | Elem_res addr | No_res

fun queue_step :: "tid \<Rightarrow> addr \<Rightarrow> q_op \<Rightarrow> q_store \<Rightarrow> vs_error + q_res \<times> q_store" where
  "queue_step self Q (Enqueue_op X) s =
     map_sum id (\<lambda>(r, s'). (Status_res r, s')) (cs_queue_Enqueue self X Q s)"
| "queue_step self Q Front_op s =
     map_sum id (\<lambda>(r, s'). (Elem_res r, s')) (cs_queue_Front self Q s)"
| "queue_step self Q Dequeue_op s = map_sum id (\<lambda>s'. (No_res, s')) (cs_queue_Dequeue self Q s)"
| "queue_step self Q FrontAndDequeue_op s =
     map_sum id (\<lambda>(r, s'). (Elem_res r, s')) (cs_queue_FrontAndDequeue self Q s)"

text \<open>The bounded list: its capacity and its elements, oldest first.\<close>

fun fifo_spec :: "q_op \<Rightarrow> nat \<times> addr list \<Rightarrow> q_res \<times> nat \<times> addr list" where
  "fifo_spec (Enqueue_op X) (c, xs) =
     (if length xs = c then (Status_res VSTATUS_BAD, c, xs)
      else (Status_res VSTATUS_OK, c, xs @ [X]))"
| "fifo_spec Front_op (c, xs) = (Elem_res (case xs of [] \<Rightarrow> 0 | x # _ \<Rightarrow> x), c, xs)"
| "fifo_spec Dequeue_op (c, xs) = (No_res, c, tl xs)"
| "fifo_spec FrontAndDequeue_op (c, xs) =
     (Elem_res (case xs of [] \<Rightarrow> 0 | x # _ \<Rightarrow> x), c, tl xs)"

interpretation csq: data_refinement "queue_step self Q" fifo_spec "queue_is Q" for self Q
proof
  fix s a p assume q: "queue_is Q s a"
  obtain c xs where a: "a = (c, xs)" by (cases a)
  show "\<exists>s'. queue_step self Q p s = Inr (fst (fifo_spec p a), s') \<and>
      queue_is Q s' (snd (fifo_spec p a))"
  proof (cases p)
    case (Enqueue_op X)
    show ?thesis by (rule Enqueue_effect [OF q, of self X]) (auto simp: Enqueue_op a)
  next
    case Front_op
    show ?thesis by (rule Front_effect [OF q, of self]) (auto simp: Front_op a)
  next
    case Dequeue_op
    show ?thesis by (rule FrontAndDequeue_effect [OF q, of self]) (auto simp: Dequeue_op a)
  next
    case FrontAndDequeue_op
    show ?thesis
      by (rule FrontAndDequeue_effect [OF q, of self]) (auto simp: FrontAndDequeue_op a)
  qed
qed

section \<open>Creation and disposal\<close>

lemma queue_bytes:
  assumes "MaxElements < (2 ^ 28 :: u32)"
  shows "scast (ucast (8 * ucast MaxElements :: u64) :: u32) = (of_nat (8 * unat MaxElements) :: u64)"
    and "unat (ucast (of_nat (8 * unat MaxElements) :: u64) + 24 :: u32) = 8 * unat MaxElements + 24"
proof -
  let ?M = "unat MaxElements"
  have M: "?M < 2 ^ 28" using assms by (simp add: word_less_nat_alt)
  have "(ucast MaxElements :: u64) = of_nat ?M" by simp
  then have "(8 * ucast MaxElements :: u64) = of_nat (8 * ?M)" by simp
  moreover have "(ucast (of_nat (8 * ?M) :: u64) :: u32) = of_nat (8 * ?M)"
    using M by (subst of_nat_unat [symmetric])
      (simp add: unsigned_of_nat take_bit_nat_eq_self del: of_nat_mult)
  moreover have "sint (of_nat (8 * ?M) :: u32) = int (8 * ?M)"
    using M by (simp add: signed_of_nat signed_take_bit_int_eq_self del: of_nat_mult)
  then have "(scast (of_nat (8 * ?M) :: u32) :: u64) = of_nat (8 * ?M)"
    by (metis of_int_of_nat_eq of_int_sint)
  ultimately show "scast (ucast (8 * ucast MaxElements :: u64) :: u32) =
      (of_nat (8 * ?M) :: u64)"
    by simp
  have "(ucast (of_nat (8 * ?M) :: u64) + 24 :: u32) = of_nat (8 * ?M + 24)"
    using \<open>(ucast (of_nat (8 * ?M) :: u64) :: u32) = of_nat (8 * ?M)\<close> by simp
  then show "unat (ucast (of_nat (8 * ?M) :: u64) + 24 :: u32) = 8 * ?M + 24"
    using M by (simp add: unsigned_of_nat take_bit_nat_eq_self del: of_nat_add of_nat_mult)
qed

lemma queue_free_effect:
  assumes "pool_live pool (q_mem s)" "a \<in> live_blocks (q_mem s)"
  obtains s' where "queue_free self pool a s = Inr s'" "pool_live pool (q_mem s')"
    "live_blocks (q_mem s') = live_blocks (q_mem s) - {a}"
    "q_rec s' = (q_rec s)(a := None)" "q_data s' = (q_data s)(a := [])"
proof -
  obtain m where "vs_pool_free self pool a (q_mem s) = Inr (VSTATUS_OK, m)" "pool_live pool m"
    "live_blocks m = live_blocks (q_mem s) - {a}"
    by (rule vs_pool_free_effect [OF assms]) blast
  then show thesis
    using that [of "s\<lparr>q_mem := m, q_rec := (q_rec s)(a := None), q_data := (q_data s)(a := [])\<rparr>"]
    by (simp add: queue_free_def)
qed

text \<open>The state in which \<^verbatim>\<open>cs_queue_CreateQueue\<close> calls \<^verbatim>\<open>vs_lock_init\<close>.\<close>

lemma create_allocates:
  assumes "pool_live pool (q_mem s)" "5 \<le> MaxElements" "MaxElements < (2 ^ 28 :: u32)"
    "malloc_fresh (Some m1) (q_mem s)" "malloc_fresh (Some m2) (q_mem s)" "m1 \<noteq> m2"
  obtains mem1 mem2 where
    "vs_pool_alloc self (Some m1) pool QUEUE_RECORD_SIZE False (q_mem s) =
       Inr (VSTATUS_OK, Some (m1 + 16), mem1)"
    "vs_pool_alloc self (Some m2) pool
       (scast (ucast (8 * ucast MaxElements :: u64) :: u32)) False mem1 =
       Inr (VSTATUS_OK, Some (m2 + 16), mem2)"
    "pool_live pool mem2" "m1 + 16 \<notin> live_blocks (q_mem s)" "m2 + 16 \<notin> live_blocks (q_mem s)"
    "live_blocks mem2 = insert (m2 + 16) (insert (m1 + 16) (live_blocks (q_mem s)))"
    "unat MaxElements \<le> length (words mem2 (m2 + 16)) div 2"
proof -
  let ?n = "scast (ucast (8 * ucast MaxElements :: u64) :: u32) :: u64"
  let ?M = "unat MaxElements"
  have M: "5 \<le> ?M" "?M < 2 ^ 28" using assms(2,3) by (simp_all add: word_le_nat_alt word_less_nat_alt)
  note n = queue_bytes [OF assms(3)]
  have "unat ?n = 8 * ?M"
    unfolding n(1) using M by (simp add: unsigned_of_nat take_bit_nat_eq_self del: of_nat_mult)
  then have n0: "?n \<noteq> 0" using M by auto
  have fits: "header_fits ?n" unfolding header_fits_def n by simp
  obtain mem1 where a1: "vs_pool_alloc self (Some m1) pool QUEUE_RECORD_SIZE False (q_mem s) =
      Inr (VSTATUS_OK, Some (m1 + 16), mem1)"
    and p1: "pool_live pool mem1" "m1 + 16 \<notin> live_blocks (q_mem s)"
      "live_blocks mem1 = insert (m1 + 16) (live_blocks (q_mem s))"
    and b1: "bufs mem1 = (bufs (q_mem s))(m1 \<mapsto>
      \<lparr>sentinel = DELETE_MARKER, buf_size = ucast QUEUE_RECORD_SIZE + 24\<rparr>)"
    by (rule vs_pool_alloc_effect [OF assms(1) _ assms(4), of QUEUE_RECORD_SIZE self])
      (simp_all add: header_fits_def)
  have fresh: "malloc_fresh (Some m2) mem1"
    using assms(5,6) b1 by (simp add: malloc_fresh_def)
  obtain mem2 where a2: "vs_pool_alloc self (Some m2) pool ?n False mem1 =
      Inr (VSTATUS_OK, Some (m2 + 16), mem2)"
    and p2: "pool_live pool mem2" "m2 + 16 \<notin> live_blocks mem1"
      "live_blocks mem2 = insert (m2 + 16) (live_blocks mem1)"
      "words mem2 = (words mem1)(m2 + 16 :=
        replicate ((unat (ucast ?n + 24 :: u32) - PBUFFER_SIZE) div 4) 0)"
    by (rule vs_pool_alloc_effect [OF p1(1) n0 fresh fits, of self]) blast
  have "?M \<le> length (words mem2 (m2 + 16)) div 2"
    using n by (simp add: p2(4))
  then show thesis
    by (intro that [OF a1 a2 p2(1) p1(2)]) (use p1 p2 in auto)
qed

lemma lock_init_free:
  "\<exists>h. vs_lock_init True self nm (Some l) VLOCK_FREE VLOCK_THREAD = (VSTATUS_OK, Some h) \<and>
     lock_ready h"
  "vs_lock_init False self nm (Some l) VLOCK_FREE VLOCK_THREAD = (VSTATUS_ILLPARM, Some zero_lock)"
  by (simp_all add: vs_lock_init_def Let_def lock_ready_def zero_lock_def)

lemma sint_u32_small: "(w :: u32) < 2 ^ 28 \<Longrightarrow> sint w = int (unat w)"
proof -
  assume "w < 2 ^ 28"
  then have "unat w < 2 ^ 28" by (simp add: word_less_nat_alt)
  then have "sint (of_nat (unat w) :: u32) = int (unat w)"
    by (simp add: signed_of_nat signed_take_bit_int_eq_self del: of_nat_unat)
  then show ?thesis by simp
qed

lemma lock_delete_ready:
  "lock_ready h \<Longrightarrow> \<exists>h'. vs_lock_delete self (Some h) = Some (VSTATUS_OK, Some h')"
  by (simp add: vs_lock_delete_def lock_ready_def)

section \<open>Properties\<close>

text \<open>C30: The queue is a bounded FIFO: for every script of \<^verbatim>\<open>Enqueue\<close>, \<^verbatim>\<open>Front\<close>, \<^verbatim>\<open>Dequeue\<close>
  and \<^verbatim>\<open>FrontAndDequeue\<close> calls the circular buffer returns what a list of the queue's capacity
  returns, VSTATUS_BAD on overflow and NULL on underflow included, never accesses a slot outside
  its array and leaves the lock free.\<close>

theorem cs_queue_fifo:
  assumes "queue_is Q s (cap, xs)"
  shows "\<exists>s'. run_ops (queue_step self Q) ps s = Inr (fst (run_abs fifo_spec ps (cap, xs)), s') \<and>
    queue_is Q s' (snd (run_abs fifo_spec ps (cap, xs)))"
  by (rule csq.run_simulates [OF assms])

text \<open>Creating a queue of at least five and fewer than 2 to the 28 entries with memory
  available gives an empty queue of exactly that capacity, and disposing of it returns both
  blocks to the pool.\<close>

theorem cs_queue_create_dispose:
  assumes "pool_live pool (q_mem s)" "5 \<le> MaxElements" "MaxElements < (2 ^ 28 :: u32)"
    "malloc_fresh (Some m1) (q_mem s)" "malloc_fresh (Some m2) (q_mem s)" "m1 \<noteq> m2"
  shows "\<exists>Q s' s''.
    cs_queue_CreateQueue True self (Some m1) (Some m2) pool MaxElements s = Inr (Q, s') \<and>
    queue_is Q s' (unat MaxElements, []) \<and>
    cs_queue_DisposeQueue self pool Q s' = Inr s'' \<and>
    live_blocks (q_mem s'') = live_blocks (q_mem s)"
proof -
  obtain mem1 mem2 where
    a: "vs_pool_alloc self (Some m1) pool QUEUE_RECORD_SIZE False (q_mem s) =
        Inr (VSTATUS_OK, Some (m1 + 16), mem1)"
      "vs_pool_alloc self (Some m2) pool
        (scast (ucast (8 * ucast MaxElements :: u64) :: u32)) False mem1 =
        Inr (VSTATUS_OK, Some (m2 + 16), mem2)"
    and p: "pool_live pool mem2" "m1 + 16 \<notin> live_blocks (q_mem s)"
      "m2 + 16 \<notin> live_blocks (q_mem s)"
      "live_blocks mem2 = insert (m2 + 16) (insert (m1 + 16) (live_blocks (q_mem s)))"
    and L: "unat MaxElements \<le> length (words mem2 (m2 + 16)) div 2"
    by (rule create_allocates [OF assms, of self]) blast
  obtain h where h: "vs_lock_init True self None (Some zero_lock) VLOCK_FREE VLOCK_THREAD =
      (VSTATUS_OK, Some h)" "lock_ready h"
    using lock_init_free(1) by blast
  let ?d = "replicate (length (words mem2 (m2 + 16)) div 2) 0"
  let ?q = "\<lparr>Capacity = sint MaxElements, Size = 0, Front = 1, Rear = 0, q_lock = h, qData = m2 + 16\<rparr>"
  let ?s = "s\<lparr>q_mem := mem2, q_data := (q_data s)(m2 + 16 := ?d),
              q_rec := (q_rec s)(m1 + 16 \<mapsto> ?q)\<rparr>"
  have big: "\<not> MaxElements < MinQueueSize" using assms(2) by simp
  have create: "cs_queue_CreateQueue True self (Some m1) (Some m2) pool MaxElements s =
      Inr (m1 + 16, ?s)"
    using a h big
    by (simp add: cs_queue_CreateQueue_def zero_queue_def cs_queue_MakeEmpty_def Let_def)
  obtain M where M: "unat MaxElements = M" by blast
  then have M5: "5 \<le> M" using assms(2) by (simp add: word_le_nat_alt)
  note cap = sint_u32_small [OF assms(3), unfolded M]
  have "ring_ok ?q ?d"
    using h(2) M5 L [unfolded M] by (simp add: ring_ok_def cap)
  then have qis: "queue_is (m1 + 16) ?s (unat MaxElements, [])"
    by (simp add: queue_is_def ring_contents_def cap M)
  obtain h' where h': "vs_lock_delete self (Some h) = Some (VSTATUS_OK, Some h')"
    using lock_delete_ready [OF h(2)] by blast
  let ?s1 = "?s\<lparr>q_rec := (q_rec ?s)(m1 + 16 \<mapsto> ?q\<lparr>q_lock := h'\<rparr>)\<rparr>"
  have mem: "q_mem ?s1 = mem2" by simp
  have del: "on_queue_lock (vs_lock_delete self) (m1 + 16) ?s = Inr (VSTATUS_OK, ?s1)"
    by (simp add: on_queue_lock_def h')
  have pl: "pool_live pool (q_mem ?s1)" "m2 + 16 \<in> live_blocks (q_mem ?s1)"
    using p by simp_all
  obtain s2 where f1: "queue_free self pool (m2 + 16) ?s1 = Inr s2" "pool_live pool (q_mem s2)"
      "live_blocks (q_mem s2) = live_blocks mem2 - {m2 + 16}"
    by (rule queue_free_effect [OF pl, of self]) (simp only: mem)
  have in2: "m1 + 16 \<in> live_blocks (q_mem s2)" using f1(3) p(4) assms(6) by simp
  obtain s3 where f2: "queue_free self pool (m1 + 16) s2 = Inr s3"
      "live_blocks (q_mem s3) = live_blocks (q_mem s2) - {m1 + 16}"
    by (rule queue_free_effect [OF f1(2) in2, of self]) blast
  have "qData (the (q_rec ?s1 (m1 + 16))) = m2 + 16" by simp
  then have "cs_queue_DisposeQueue self pool (m1 + 16) ?s = Inr s3"
    unfolding cs_queue_DisposeQueue_def del using f1(1) f2(1)
    by (simp del: fun_upd_apply)
  moreover have "live_blocks (q_mem s3) = live_blocks (q_mem s)"
    using f1(3) f2(2) p(2,3,4) by auto
  ultimately show ?thesis using create qis by blast
qed

text \<open>When the lock of a new queue cannot be initialised, \<^verbatim>\<open>cs_queue_CreateQueue\<close> ends the
  process; what follows in the code, which frees the queue record before it reads the array
  pointer out of it, is not reached.\<close>

theorem cs_queue_create_lock_failure:
  assumes "pool_live pool (q_mem s)" "5 \<le> MaxElements" "MaxElements < (2 ^ 28 :: u32)"
    "malloc_fresh (Some m1) (q_mem s)" "malloc_fresh (Some m2) (q_mem s)" "m1 \<noteq> m2"
  shows "cs_queue_CreateQueue False self (Some m1) (Some m2) pool MaxElements s = Inl FatalAbort"
proof -
  obtain mem1 mem2 where
    a: "vs_pool_alloc self (Some m1) pool QUEUE_RECORD_SIZE False (q_mem s) =
        Inr (VSTATUS_OK, Some (m1 + 16), mem1)"
      "vs_pool_alloc self (Some m2) pool
        (scast (ucast (8 * ucast MaxElements :: u64) :: u32)) False mem1 =
        Inr (VSTATUS_OK, Some (m2 + 16), mem2)"
    by (rule create_allocates [OF assms, of self]) blast
  have big: "\<not> MaxElements < MinQueueSize" using assms(2) by simp
  show ?thesis
    using a big by (simp add: cs_queue_CreateQueue_def lock_init_free(2) Let_def)
qed

section \<open>Witnesses\<close>

text \<open>A queue of five entries holding 7 and 8 across the end of its array.\<close>

definition demo_queue :: q_store where
  "demo_queue = \<lparr>q_mem = demo_store,
     q_rec = [1 \<mapsto> \<lparr>Capacity = 5, Size = 2, Front = 4, Rear = 0,
       q_lock = zero_lock\<lparr>lk_type := VLOCK_THREAD, lk_magic := VLOCK_THREADLOCK_MAGIC,
         lk_status := VLOCK_FREE\<rparr>, qData = 2\<rparr>],
     q_data = (\<lambda>_. [8, 0, 0, 0, 7])\<rparr>"

lemma demo_queue_is: "queue_is 1 demo_queue (5, [7, 8])"
  by (simp add: queue_is_def demo_queue_def ring_ok_def ring_contents_def lock_ready_def
      zero_lock_def eval_nat_numeral)

theorem cs_queue_fifo_witness:
  "\<exists>s'. run_ops (queue_step 3 1) [Enqueue_op 9, FrontAndDequeue_op, Front_op] demo_queue =
     Inr ([Status_res VSTATUS_OK, Elem_res 7, Elem_res 8], s') \<and> queue_is 1 s' (5, [8, 9])"
  using cs_queue_fifo [OF demo_queue_is, of 3 "[Enqueue_op 9, FrontAndDequeue_op, Front_op]"]
  by simp

lemma demo_queue_mem:
  "pool_live 1 (q_mem demo_queue)" "malloc_fresh (Some 100) (q_mem demo_queue)"
  "malloc_fresh (Some 500) (q_mem demo_queue)"
  using demo_store_live [of 1] demo_store_empty
  by (simp_all add: demo_queue_def malloc_fresh_def)

theorem cs_queue_create_dispose_witness:
  "\<exists>Q s'. cs_queue_CreateQueue True 3 (Some 100) (Some 500) 1 8 demo_queue = Inr (Q, s') \<and>
     queue_is Q s' (8, [])"
proof -
  have "5 \<le> (8 :: u32)" "(8 :: u32) < 2 ^ 28" "(100 :: nat) \<noteq> 500" by simp_all
  from cs_queue_create_dispose [OF demo_queue_mem(1) this(1,2) demo_queue_mem(2,3) this(3), of 3]
  show ?thesis by auto
qed

theorem cs_queue_create_lock_failure_witness:
  "cs_queue_CreateQueue False 3 (Some 100) (Some 500) 1 8 demo_queue = Inl FatalAbort"
  by (rule cs_queue_create_lock_failure [OF demo_queue_mem(1) _ _ demo_queue_mem(2,3)]) simp_all

end
