(* ===== verification/Chains.thy ===== *)
theory Chains
  imports Prelude
begin

text \<open>
  Linked lists in a heap: \<open>path f m p xs q\<close> says that following the link \<open>f\<close> from \<open>p\<close> through
  the heap \<open>m\<close> visits exactly the cells \<open>xs\<close> and arrives at \<open>q\<close>; a path to 0 is a NULL-terminated
  list.  The lemmas cover reading a list, writes that do not concern it, and the three writes the
  programs perform: unlinking a cell, appending a cell, and pushing one in front.
\<close>

fun path :: "('e \<Rightarrow> nat) \<Rightarrow> (nat \<Rightarrow> 'e option) \<Rightarrow> nat \<Rightarrow> nat list \<Rightarrow> nat \<Rightarrow> bool" where
  "path f m p [] q \<longleftrightarrow> p = q"
| "path f m p (x # xs) q \<longleftrightarrow> p = x \<and> x \<noteq> 0 \<and> (\<exists>v. m x = Some v \<and> path f m (f v) xs q)"

text \<open>A write through a pointer to an existing cell.\<close>

definition upd :: "nat \<Rightarrow> ('e \<Rightarrow> 'e) \<Rightarrow> (nat \<Rightarrow> 'e option) \<Rightarrow> nat \<Rightarrow> 'e option" where
  "upd e g m = m(e := map_option g (m e))"

lemma upd_same [simp]: "upd e g m e = map_option g (m e)"
  and upd_other [simp]: "x \<noteq> e \<Longrightarrow> upd e g m x = m x"
  by (simp_all add: upd_def)

lemma upd_upd [simp]: "upd e g (upd e f m) = upd e (g \<circ> f) m"
  by (auto simp: upd_def option.map_comp)

lemma upd_Some: "m e = Some x \<Longrightarrow> upd e g m = m(e \<mapsto> g x)"
  by (simp add: upd_def)

lemma path_append: "path f m p (xs @ ys) q \<longleftrightarrow> (\<exists>r. path f m p xs r \<and> path f m r ys q)"
  by (induction xs arbitrary: p) auto

lemma path_append_mid:
  "path f m p (xs @ x # ys) q \<longleftrightarrow>
     path f m p xs x \<and> x \<noteq> 0 \<and> (\<exists>v. m x = Some v \<and> path f m (f v) ys q)"
  by (auto simp: path_append)

lemma path_cong:
  "(\<And>x. x \<in> set xs \<Longrightarrow> map_option f (m x) = map_option g (m' x)) \<Longrightarrow>
     path f m p xs q \<longleftrightarrow> path g m' p xs q"
proof (induction xs arbitrary: p)
  case (Cons x xs)
  then have "map_option f (m x) = map_option g (m' x)" by simp
  then show ?case
    using Cons by (cases "m x"; cases "m' x") auto
qed simp

lemma path_zero: "path f m 0 xs q \<longleftrightarrow> xs = [] \<and> q = 0"
  by (cases xs) auto

lemma path_start: "path f m p xs 0 \<Longrightarrow> p = (case xs of [] \<Rightarrow> 0 | x # _ \<Rightarrow> x)"
  by (cases xs) auto

lemma path_empty_iff: "path f m p xs 0 \<Longrightarrow> xs = [] \<longleftrightarrow> p = 0"
  by (cases xs) auto

lemma path_in: "path f m p xs q \<Longrightarrow> x \<in> set xs \<Longrightarrow> x \<noteq> 0 \<and> (\<exists>v. m x = Some v)"
  by (induction xs arbitrary: p) auto

lemma path_unique: "path f m p xs 0 \<Longrightarrow> path f m p ys 0 \<Longrightarrow> xs = ys"
proof (induction xs arbitrary: p ys)
  case Nil
  then show ?case by (cases ys) auto
next
  case (Cons x xs)
  then show ?case by (cases ys) auto
qed

lemma path_distinct: "path f m p xs 0 \<Longrightarrow> distinct xs"
proof (induction xs arbitrary: p)
  case (Cons x xs)
  then obtain v where v: "p = x" "m x = Some v" "path f m (f v) xs 0" by auto
  have "x \<notin> set xs"
  proof
    assume "x \<in> set xs"
    then obtain A B where s: "xs = A @ x # B" by (meson split_list)
    with v have "path f m (f v) (A @ x # B) 0" by simp
    with v(2) have "path f m (f v) B 0" by (auto simp: path_append_mid)
    from path_unique [OF this v(3)] s show False by simp
  qed
  with Cons v show ?case by auto
qed simp

lemma path_upd_link [simp]: "(\<And>y. f (g y) = f y) \<Longrightarrow> path f (upd e g m) p xs q = path f m p xs q"
  by (rule path_cong) (simp add: upd_def option.map_comp comp_def)

lemma path_upd_notin [simp]: "e \<notin> set xs \<Longrightarrow> path f (upd e g m) p xs q = path f m p xs q"
  by (rule path_cong) (auto simp: upd_def)

lemma path_new [simp]: "e \<notin> set xs \<Longrightarrow> path f (m(e := v)) p xs q = path f m p xs q"
  by (rule path_cong) auto

lemma path_push:
  "path f m p xs q \<Longrightarrow> e \<noteq> 0 \<Longrightarrow> e \<notin> set xs \<Longrightarrow> m' e = Some v \<Longrightarrow> f v = p \<Longrightarrow>
     (\<And>x. x \<in> set xs \<Longrightarrow> m' x = m x) \<Longrightarrow> path f m' e (e # xs) q"
  using path_cong [of xs f m f m' p q] by simp

lemma path_redirect:
  "path f m p (xs @ [z]) q \<Longrightarrow> z \<notin> set xs \<Longrightarrow> (\<And>y. f (g y) = r) \<Longrightarrow>
     path f (upd z g m) p (xs @ [z]) r"
  by (auto simp: path_append)

text \<open>Unlinking \<open>e\<close>: its predecessor, or the head pointer, gets \<open>e\<close>'s link.\<close>

lemma path_unlink:
  assumes "path f m p (A @ e # B) 0" "m e = Some x" "\<And>y. f (g y) = f x"
  shows "if A = [] then p = e \<and> path f m (f x) B 0
         else path f (upd (last A) g m) p (A @ B) 0"
proof (cases A rule: rev_cases)
  case Nil
  with assms show ?thesis by auto
next
  case (snoc A' z)
  have d: "z \<notin> set A'" "z \<noteq> e" "z \<notin> set B"
    using path_distinct [OF assms(1)] snoc by auto
  have "path f m p (A' @ [z]) e" "path f m (f x) B 0"
    using assms(1,2) snoc by (auto simp: path_append_mid)
  from path_redirect [OF this(1) d(1) assms(3)] this(2) snoc d(3)
  have "path f (upd z g m) p (A' @ [z]) (f x)" "path f (upd z g m) (f x) B 0"
    by simp_all
  then have "path f (upd z g m) p ((A' @ [z]) @ B) 0" unfolding path_append by blast
  with snoc show ?thesis by simp
qed

text \<open>Appending \<open>e\<close>: the last cell gets a link to it.\<close>

lemma path_snoc:
  assumes "path f m p A 0" "A \<noteq> []" "m e = Some x" "f x = 0" "e \<noteq> 0" "e \<notin> set A"
    "\<And>y. f (g y) = e"
  shows "path f (upd (last A) g m) p (A @ [e]) 0"
proof -
  obtain A' z where A: "A = A' @ [z]" using assms(2) by (cases A rule: rev_cases) auto
  have "z \<notin> set A'" using path_distinct [OF assms(1)] A by auto
  with assms A have "path f (upd z g m) p A e"
    using path_redirect by metis
  then show ?thesis using A assms(3-6) by (auto simp: path_append)
qed

end
