(* ===== verification/CsHashtable.thy ===== *)
theory CsHashtable
  imports Chains
begin

text \<open>
  The chained hash table of the fabric manager: Esm/ib/src/cs/cs_hashtable.c over
  Esm/ib/include/cs_hashtable.h.

  Entries live in a heap, a partial map from addresses to \<open>hash_entry\<close> records; address 0 is
  NULL.  Each entry is on one bucket chain (\<open>hashNext\<close>) and on the insertion-order list
  (\<open>listNext\<close>, \<open>listPrev\<close>), or on the free list.  Keys and values are addresses; the two
  callbacks are parameters that depend on the key address only.  \<open>freed\<close> records the calls of
  \<^verbatim>\<open>free\<close> on keys and values.  An operation returns None when it follows a pointer that is
  not to an allocated entry, indexes outside a table, or does not come back.
\<close>

section \<open>State\<close>

type_synonym haddr = nat

record hash_entry =
  he_k :: haddr
  he_v :: haddr
  he_h :: u64
  hashNext :: haddr
  listNext :: haddr
  listPrev :: haddr

datatype CS_Hash_KeyType_t = CS_HASH_KEY_NOT_ALLOCATED | CS_HASH_KEY_ALLOCATED

record cs_hashtable =
  listHead :: haddr
  listTail :: haddr
  freeHead :: haddr
  tablelength :: u32
  buckets :: "haddr list"
  entrycount :: u32
  loadlimit :: u32
  primeindex :: u32
  keyType :: CS_Hash_KeyType_t
  ents :: "haddr \<Rightarrow> hash_entry option"
  freed :: "haddr list"

definition primes :: "u32 list" where
  "primes = [53, 97, 193, 389, 769, 1543, 3079, 6151, 12289, 24593, 49157, 98317,
     196613, 393241, 786433, 1572869, 3145739, 6291469, 12582917, 25165843,
     50331653, 100663319, 201326611, 402653189, 805306457, 1610612741]"

definition prime_table_length :: u32 where
  "prime_table_length = of_nat (length primes)"

text \<open>A write to one field of the entry a pointer points to.\<close>

definition set_entry ::
  "haddr \<Rightarrow> (hash_entry \<Rightarrow> hash_entry) \<Rightarrow> cs_hashtable \<Rightarrow> cs_hashtable option" where
  "set_entry e f h =
    (case ents h e of None \<Rightarrow> None | Some x \<Rightarrow> Some (h\<lparr>ents := (ents h)(e \<mapsto> f x)\<rparr>))"

section \<open>Hashing\<close>

text \<open>The 64-bit hash is narrowed to the \<^verbatim>\<open>uint32_t\<close> parameter before the modulus.\<close>

definition indexFor :: "u32 \<Rightarrow> u64 \<Rightarrow> nat" where
  "indexFor len hashvalue = unat ((ucast hashvalue :: u32) mod len)"

definition hash_mix :: "(haddr \<Rightarrow> u64) \<Rightarrow> haddr \<Rightarrow> u64" where
  "hash_mix hashfn k =
    (let i0 = hashfn k;
         i1 = i0 + NOT (push_bit 9 i0);
         i2 = i1 XOR (drop_bit 14 i1 OR push_bit 18 i1);
         i3 = i2 + push_bit 4 i2
     in i3 XOR (drop_bit 10 i3 OR push_bit 22 i3))"

section \<open>Growth and creation\<close>

partial_function (option) rehash_loop ::
  "u32 \<Rightarrow> haddr \<Rightarrow> haddr list \<Rightarrow> (haddr \<Rightarrow> hash_entry option) \<Rightarrow>
     (haddr list \<times> (haddr \<Rightarrow> hash_entry option)) option" where
  "rehash_loop newsize e newtable en =
    (if e = 0 then Some (newtable, en)
     else
      (case en e of None \<Rightarrow> None
       | Some x \<Rightarrow>
          (let index = indexFor newsize (he_h x) in
           if index < length newtable
           then rehash_loop newsize (listNext x) (newtable[index := e])
                  (en(e \<mapsto> x\<lparr>hashNext := newtable ! index\<rparr>))
           else None)))"

definition cs_hashtable_expand :: "bool \<Rightarrow> cs_hashtable \<Rightarrow> (int \<times> cs_hashtable) option" where
  "cs_hashtable_expand alloc_ok h =
    (if primeindex h = prime_table_length - 1 then Some (0, h)
     else
      let pidx = primeindex h + 1 in
      if length primes \<le> unat pidx then None
      else
       let newsize = primes ! unat pidx in
       if \<not> alloc_ok then Some (0, h\<lparr>primeindex := pidx - 1\<rparr>)
       else
        (case rehash_loop newsize (listHead h) (replicate (unat newsize) 0) (ents h) of
           None \<Rightarrow> None
         | Some (newtable, en) \<Rightarrow>
            Some (- 1, h\<lparr>primeindex := pidx, ents := en, buckets := newtable,
                         tablelength := newsize,
                         loadlimit := ucast (ucast newsize * 8 div 10 :: u64)\<rparr>)))"

fun first_prime_above :: "u32 list \<Rightarrow> u32 \<Rightarrow> nat" where
  "first_prime_above [] minsize = 0"
| "first_prime_above (p # ps) minsize =
    (if p > minsize then 0 else Suc (first_prime_above ps minsize))"

definition zero_table :: cs_hashtable where
  "zero_table = \<lparr>listHead = 0, listTail = 0, freeHead = 0, tablelength = 0, buckets = [],
     entrycount = 0, loadlimit = 0, primeindex = 0, keyType = CS_HASH_KEY_NOT_ALLOCATED,
     ents = Map.empty, freed = []\<rparr>"

text \<open>The outer None is undefined behaviour, the inner one a NULL result.\<close>

definition cs_create_hashtable ::
  "bool \<Rightarrow> bool \<Rightarrow> u32 \<Rightarrow> CS_Hash_KeyType_t \<Rightarrow> cs_hashtable option option" where
  "cs_create_hashtable alloc_h alloc_table minsize keytype =
    (if minsize > push_bit 30 1 then Some None
     else
      let pindex = of_nat (first_prime_above primes minsize) :: u32 in
      if \<not> alloc_h then Some None
      else
       (case cs_hashtable_expand alloc_table
               (zero_table\<lparr>primeindex := pindex - 1, keyType := keytype\<rparr>) of
          None \<Rightarrow> None
        | Some (r, h) \<Rightarrow> Some (if r = 0 then None else Some h)))"

section \<open>Insertion\<close>

text \<open>\<open>alloc_table\<close> is the outcome of the allocation in the expansion, \<open>malloc\<close> the result of
  the allocation of the entry.\<close>

definition cs_hashtable_insert ::
  "(haddr \<Rightarrow> u64) \<Rightarrow> bool \<Rightarrow> haddr option \<Rightarrow> haddr \<Rightarrow> haddr \<Rightarrow> cs_hashtable \<Rightarrow>
     (int \<times> cs_hashtable) option" where
  "cs_hashtable_insert hashfn alloc_table malloc k v h0 =
    (let h1 = h0\<lparr>entrycount := entrycount h0 + 1\<rparr> in
     case (if entrycount h1 > loadlimit h1 then map_option snd (cs_hashtable_expand alloc_table h1)
           else Some h1) of
       None \<Rightarrow> None
     | Some h2 \<Rightarrow>
        if freeHead h2 = 0 \<and> malloc = None
        then Some (0, h2\<lparr>entrycount := entrycount h2 - 1\<rparr>)
        else
         let e = (if freeHead h2 = 0 then the malloc else freeHead h2);
             zero_entry = \<lparr>he_k = 0, he_v = 0, he_h = 0, hashNext = 0, listNext = 0, listPrev = 0\<rparr>
         in
         (case (if freeHead h2 = 0 then Some (h2\<lparr>ents := (ents h2)(e \<mapsto> zero_entry)\<rparr>)
                else map_option (\<lambda>x. h2\<lparr>freeHead := listNext x\<rparr>) (ents h2 e)) of
            None \<Rightarrow> None
          | Some h3 \<Rightarrow>
             let hv = hash_mix hashfn k; index = indexFor (tablelength h3) hv in
             if length (buckets h3) \<le> index then None
             else
              (case set_entry e (\<lambda>x. x\<lparr>he_k := k, he_v := v, he_h := hv,
                                        hashNext := buckets h3 ! index, listNext := 0\<rparr>) h3 of
                 None \<Rightarrow> None
               | Some h4 \<Rightarrow>
                  let h5 = h4\<lparr>buckets := (buckets h4)[index := e]\<rparr> in
                  if listHead h5 = 0
                  then map_option (\<lambda>h. (- 1, h))
                         (set_entry e (\<lambda>x. x\<lparr>listPrev := 0\<rparr>) (h5\<lparr>listHead := e, listTail := e\<rparr>))
                  else
                   (case set_entry e (\<lambda>x. x\<lparr>listPrev := listTail h5\<rparr>) h5 of
                      None \<Rightarrow> None
                    | Some h6 \<Rightarrow>
                       map_option (\<lambda>h. (- 1, h\<lparr>listTail := e\<rparr>))
                         (set_entry (listTail h6) (\<lambda>x. x\<lparr>listNext := e\<rparr>) h6)))))"

section \<open>Lookup and removal\<close>

text \<open>The loop over a bucket chain: the entry that passes the test, or NULL, and the entry
  before it, or NULL when the bucket itself points to it.\<close>

partial_function (option) scan_chain ::
  "(haddr \<Rightarrow> hash_entry \<Rightarrow> bool) \<Rightarrow> haddr \<Rightarrow> haddr \<Rightarrow> (haddr \<Rightarrow> hash_entry option) \<Rightarrow>
     (haddr \<times> haddr) option" where
  "scan_chain test prev e en =
    (if e = 0 then Some (prev, 0)
     else
      (case en e of None \<Rightarrow> None
       | Some x \<Rightarrow>
          if test e x then Some (prev, e) else scan_chain test e (hashNext x) en))"

definition key_test ::
  "(haddr \<Rightarrow> haddr \<Rightarrow> bool) \<Rightarrow> haddr \<Rightarrow> u64 \<Rightarrow> haddr \<Rightarrow> hash_entry \<Rightarrow> bool" where
  "key_test eqfn k hv e x \<longleftrightarrow> hv = he_h x \<and> eqfn k (he_k x)"

definition scan_bucket ::
  "(haddr \<Rightarrow> hash_entry \<Rightarrow> bool) \<Rightarrow> u64 \<Rightarrow> cs_hashtable \<Rightarrow> (haddr \<times> haddr) option" where
  "scan_bucket test hv h =
    (let index = indexFor (tablelength h) hv in
     if index < length (buckets h) then scan_chain test 0 (buckets h ! index) (ents h) else None)"

definition cs_hashtable_search ::
  "(haddr \<Rightarrow> u64) \<Rightarrow> (haddr \<Rightarrow> haddr \<Rightarrow> bool) \<Rightarrow> cs_hashtable \<Rightarrow> haddr \<Rightarrow> haddr option" where
  "cs_hashtable_search hashfn eqfn h k =
    (let hv = hash_mix hashfn k in
     case scan_bucket (key_test eqfn k hv) hv h of None \<Rightarrow> None
     | Some (_, e) \<Rightarrow> if e = 0 then Some 0 else map_option he_v (ents h e))"

definition cs_hashentry_delete :: "haddr \<Rightarrow> cs_hashtable \<Rightarrow> cs_hashtable option" where
  "cs_hashentry_delete e h0 =
    (case ents h0 e of None \<Rightarrow> None
     | Some x \<Rightarrow>
        let h1 = h0\<lparr>entrycount := entrycount h0 - 1\<rparr>;
            h2 = (if e = listHead h1 then h1\<lparr>listHead := listNext x\<rparr> else h1);
            h3 = (if e = listTail h2 then h2\<lparr>listTail := listPrev x\<rparr> else h2)
        in
        (case (if listPrev x \<noteq> 0 then set_entry (listPrev x) (\<lambda>y. y\<lparr>listNext := listNext x\<rparr>) h3
               else Some h3) of
           None \<Rightarrow> None
         | Some h4 \<Rightarrow>
            (case (if listNext x \<noteq> 0
                   then set_entry (listNext x) (\<lambda>y. y\<lparr>listPrev := listPrev x\<rparr>) h4 else Some h4) of
               None \<Rightarrow> None
             | Some h5 \<Rightarrow>
                let h6 = (if keyType h5 = CS_HASH_KEY_ALLOCATED then h5\<lparr>freed := he_k x # freed h5\<rparr>
                          else h5)
                in map_option (\<lambda>h. h\<lparr>freeHead := e\<rparr>)
                     (set_entry e (\<lambda>y. y\<lparr>listNext := freeHead h6\<rparr>) h6))))"

text \<open>\<^verbatim>\<open>*pE = e->hashNext\<close>\<close>

definition bypass :: "haddr \<Rightarrow> nat \<Rightarrow> haddr \<Rightarrow> cs_hashtable \<Rightarrow> cs_hashtable option" where
  "bypass prev index nxt h =
    (if prev = 0 then Some (h\<lparr>buckets := (buckets h)[index := nxt]\<rparr>)
     else set_entry prev (\<lambda>y. y\<lparr>hashNext := nxt\<rparr>) h)"

definition cs_hashtable_remove ::
  "(haddr \<Rightarrow> u64) \<Rightarrow> (haddr \<Rightarrow> haddr \<Rightarrow> bool) \<Rightarrow> haddr \<Rightarrow> cs_hashtable \<Rightarrow>
     (haddr \<times> cs_hashtable) option" where
  "cs_hashtable_remove hashfn eqfn k h =
    (let hv = hash_mix hashfn k in
     case scan_bucket (key_test eqfn k hv) hv h of None \<Rightarrow> None
     | Some (prev, e) \<Rightarrow>
        if e = 0 then Some (0, h)
        else
         (case ents h e of None \<Rightarrow> None
          | Some x \<Rightarrow>
             (case bypass prev (indexFor (tablelength h) hv) (hashNext x) h of None \<Rightarrow> None
              | Some h1 \<Rightarrow> map_option (\<lambda>h2. (he_v x, h2)) (cs_hashentry_delete e h1))))"

definition cs_hashtable_change ::
  "(haddr \<Rightarrow> u64) \<Rightarrow> (haddr \<Rightarrow> haddr \<Rightarrow> bool) \<Rightarrow> haddr \<Rightarrow> haddr \<Rightarrow> cs_hashtable \<Rightarrow>
     (int \<times> cs_hashtable) option" where
  "cs_hashtable_change hashfn eqfn k v h =
    (let hv = hash_mix hashfn k in
     case scan_bucket (key_test eqfn k hv) hv h of None \<Rightarrow> None
     | Some (_, e) \<Rightarrow>
        if e = 0 then Some (0, h)
        else
         (case ents h e of None \<Rightarrow> None
          | Some x \<Rightarrow>
             map_option (\<lambda>h1. (- 1, h1))
               (set_entry e (\<lambda>y. y\<lparr>he_v := v\<rparr>) (h\<lparr>freed := he_v x # freed h\<rparr>))))"

definition cs_hashtable_count :: "cs_hashtable \<Rightarrow> u32" where
  "cs_hashtable_count h = entrycount h"

section \<open>Destruction and iteration\<close>

text \<open>A loop that frees every entry of a list and, for the live list, its key and value.\<close>

partial_function (option) free_entries ::
  "(hash_entry \<Rightarrow> haddr list) \<Rightarrow> haddr \<Rightarrow> cs_hashtable \<Rightarrow> cs_hashtable option" where
  "free_entries owned e h =
    (if e = 0 then Some h
     else
      (case ents h e of None \<Rightarrow> None
       | Some x \<Rightarrow>
          free_entries owned (listNext x)
            (h\<lparr>ents := (ents h)(e := None), freed := owned x @ freed h\<rparr>)))"

text \<open>The result is the heap the table leaves behind and the record of freed keys and values.\<close>

definition cs_hashtable_destroy ::
  "bool \<Rightarrow> cs_hashtable \<Rightarrow> ((haddr \<Rightarrow> hash_entry option) \<times> haddr list) option" where
  "cs_hashtable_destroy free_values h =
    (case free_entries (\<lambda>_. []) (freeHead h) h of None \<Rightarrow> None
     | Some h1 \<Rightarrow>
        map_option (\<lambda>h2. (ents h2, freed h2))
          (free_entries
             (\<lambda>x. (if free_values then [he_v x] else []) @
                  (if keyType h1 = CS_HASH_KEY_ALLOCATED then [he_k x] else []))
             (listHead h1) h1))"

text \<open>An iterator is the address of the current entry.\<close>

definition cs_hashtable_iterator :: "cs_hashtable \<Rightarrow> haddr" where
  "cs_hashtable_iterator h = listHead h"

definition cs_hashtable_iterator_key :: "cs_hashtable \<Rightarrow> haddr \<Rightarrow> haddr option" where
  "cs_hashtable_iterator_key h e = map_option he_k (ents h e)"

definition cs_hashtable_iterator_value :: "cs_hashtable \<Rightarrow> haddr \<Rightarrow> haddr option" where
  "cs_hashtable_iterator_value h e = map_option he_v (ents h e)"

definition cs_hashtable_iterator_advance :: "cs_hashtable \<Rightarrow> haddr \<Rightarrow> (int \<times> haddr) option" where
  "cs_hashtable_iterator_advance h e =
    (if e \<noteq> 0
     then map_option (\<lambda>x. (if listNext x = 0 then 0 else - 1, listNext x)) (ents h e)
     else Some (0, e))"

definition cs_hashtable_iterator_remove ::
  "(haddr \<Rightarrow> u64) \<Rightarrow> haddr \<Rightarrow> cs_hashtable \<Rightarrow> (int \<times> haddr \<times> cs_hashtable) option" where
  "cs_hashtable_iterator_remove hashfn removeEntry h =
    (case cs_hashtable_iterator_advance h removeEntry of None \<Rightarrow> None
     | Some (ret, itr) \<Rightarrow>
        (case ents h removeEntry of None \<Rightarrow> None
         | Some r \<Rightarrow>
            let hv = hash_mix hashfn (he_k r) in
            (case scan_bucket (\<lambda>e _. e = removeEntry) hv h of None \<Rightarrow> None
             | Some (prev, e) \<Rightarrow>
                if e = 0 then Some (ret, itr, h)
                else
                 (case ents h e of None \<Rightarrow> None
                  | Some x \<Rightarrow>
                     (case bypass prev (indexFor (tablelength h) hv) (hashNext x) h of None \<Rightarrow> None
                      | Some h1 \<Rightarrow> map_option (\<lambda>h2. (ret, itr, h2)) (cs_hashentry_delete e h1))))))"

definition cs_hashtable_iterator_search ::
  "(haddr \<Rightarrow> u64) \<Rightarrow> (haddr \<Rightarrow> haddr \<Rightarrow> bool) \<Rightarrow> cs_hashtable \<Rightarrow> haddr \<Rightarrow> haddr \<Rightarrow>
     (int \<times> haddr) option" where
  "cs_hashtable_iterator_search hashfn eqfn h k itr =
    (let hv = hash_mix hashfn k in
     case scan_bucket (key_test eqfn k hv) hv h of None \<Rightarrow> None
     | Some (_, e) \<Rightarrow> Some (if e = 0 then (0, itr) else (- 1, e)))"

section \<open>Invariant\<close>

lemma set_entry_Some: "ents h e = Some x \<Longrightarrow> set_entry e f h = Some (h\<lparr>ents := upd e f (ents h)\<rparr>)"
  by (simp add: set_entry_def upd_def)

definition ent :: "cs_hashtable \<Rightarrow> haddr \<Rightarrow> hash_entry" where
  "ent h e = the (ents h e)"

definition slot :: "cs_hashtable \<Rightarrow> haddr \<Rightarrow> nat" where
  "slot h e = indexFor (tablelength h) (he_h (ent h e))"

definition bucket_lists :: "cs_hashtable \<Rightarrow> haddr set \<Rightarrow> bool" where
  "bucket_lists h D \<longleftrightarrow> (\<forall>i < length (buckets h). \<exists>xs.
     path hashNext (ents h) (buckets h ! i) xs 0 \<and> set xs = {e \<in> D. slot h e = i})"

definition order_list :: "cs_hashtable \<Rightarrow> haddr list \<Rightarrow> bool" where
  "order_list h L \<longleftrightarrow> path listNext (ents h) (listHead h) L 0 \<and>
     path listPrev (ents h) (listTail h) (rev L) 0"

text \<open>\<open>L\<close> are the entries in insertion order, \<open>F\<close> the free list.\<close>

definition table_core ::
  "(haddr \<Rightarrow> u64) \<Rightarrow> cs_hashtable \<Rightarrow> haddr list \<Rightarrow> haddr list \<Rightarrow> bool" where
  "table_core hashfn h L F \<longleftrightarrow>
     order_list h L \<and> path listNext (ents h) (freeHead h) F 0 \<and> set L \<inter> set F = {} \<and>
     (\<forall>e \<in> set L. he_h (ent h e) = hash_mix hashfn (he_k (ent h e))) \<and>
     bucket_lists h (set L) \<and> length (buckets h) = unat (tablelength h) \<and>
     unat (primeindex h) < length primes \<and> tablelength h = primes ! unat (primeindex h) \<and>
     loadlimit h = ucast (ucast (tablelength h) * 8 div 10 :: u64)"

definition table_inv ::
  "(haddr \<Rightarrow> u64) \<Rightarrow> cs_hashtable \<Rightarrow> haddr list \<Rightarrow> haddr list \<Rightarrow> bool" where
  "table_inv hashfn h L F \<longleftrightarrow> table_core hashfn h L F \<and> entrycount h = of_nat (length L) \<and>
     finite (dom (ents h))"

lemma dom_upd [simp]: "dom (upd e g m) = dom m"
  by (auto simp: upd_def dom_def)

lemma prime_pos: "i < length primes \<Longrightarrow> primes ! i \<noteq> 0"
proof -
  have "list_all (\<lambda>p. p \<noteq> 0) primes" by (simp add: primes_def)
  then show "i < length primes \<Longrightarrow> primes ! i \<noteq> 0" by (auto simp: list_all_length)
qed

lemma indexFor_less: "len \<noteq> 0 \<Longrightarrow> indexFor len hv < unat len"
  by (simp add: indexFor_def unat_mod_distrib word_neq_0_conv unat_gt_0 flip: word_less_nat_alt)

lemma inv_length:
  assumes "table_core hashfn h L F"
  shows "tablelength h \<noteq> 0" "indexFor (tablelength h) hv < length (buckets h)"
proof -
  show "tablelength h \<noteq> 0" using assms prime_pos by (simp add: table_core_def)
  from indexFor_less [OF this] show "indexFor (tablelength h) hv < length (buckets h)"
    using assms by (simp add: table_core_def)
qed

lemma inv_entry:
  assumes "table_core hashfn h L F" "e \<in> set L"
  shows "e \<noteq> 0" "ents h e = Some (ent h e)" "distinct L"
  using assms path_in path_distinct by (fastforce simp: table_core_def order_list_def ent_def)+

section \<open>Growth\<close>

text \<open>Two heaps that agree on everything but \<open>hashNext\<close>.\<close>

definition same_but_next ::
  "(haddr \<Rightarrow> hash_entry option) \<Rightarrow> (haddr \<Rightarrow> hash_entry option) \<Rightarrow> bool" where
  "same_but_next m m' \<longleftrightarrow> (\<forall>e. \<exists>z. m' e = map_option (\<lambda>x. x\<lparr>hashNext := z\<rparr>) (m e))"

lemma same_but_next_field:
  assumes "same_but_next m m'" "\<And>x z. f (x\<lparr>hashNext := z\<rparr>) = f x"
  shows "map_option f (m' e) = map_option f (m e)"
proof -
  obtain z where "m' e = map_option (\<lambda>x. x\<lparr>hashNext := z\<rparr>) (m e)"
    using assms(1) by (auto simp: same_but_next_def)
  then show ?thesis using assms(2) by (cases "m e") auto
qed

lemma same_but_next_the:
  assumes "same_but_next m m'" "m e = Some x" "\<And>x z. f (x\<lparr>hashNext := z\<rparr>) = f x"
  shows "f (the (m' e)) = f x"
  using same_but_next_field [OF assms(1,3), of e] assms(2) by auto

lemma same_but_next_path:
  assumes "same_but_next m m'" "\<And>x z. f (x\<lparr>hashNext := z\<rparr>) = f x"
  shows "path f m' p xs q = path f m p xs q"
  by (rule path_cong) (rule same_but_next_field [OF assms])

lemma same_but_next_step:
  "same_but_next (upd e (\<lambda>x. x\<lparr>hashNext := z\<rparr>) m) m' \<Longrightarrow> same_but_next m m'"
  unfolding same_but_next_def
proof (intro allI)
  fix a assume *: "\<forall>a. \<exists>z'. m' a = map_option (\<lambda>x. x\<lparr>hashNext := z'\<rparr>) (upd e (\<lambda>x. x\<lparr>hashNext := z\<rparr>) m a)"
  then obtain z' where "m' a = map_option (\<lambda>x. x\<lparr>hashNext := z'\<rparr>) (upd e (\<lambda>x. x\<lparr>hashNext := z\<rparr>) m a)"
    by blast
  then show "\<exists>z. m' a = map_option (\<lambda>x. x\<lparr>hashNext := z\<rparr>) (m a)"
    by (cases "a = e") (auto simp: option.map_comp comp_def)
qed

lemma same_but_next_refl: "same_but_next m m"
  unfolding same_but_next_def
proof
  fix e show "\<exists>z. m e = map_option (\<lambda>x. x\<lparr>hashNext := z\<rparr>) (m e)"
    by (cases "m e") (auto intro: exI [of _ "hashNext (the (m e))"])
qed

lemma rehash_loop_spec:
  assumes "path listNext en p xs 0" "set xs \<inter> D = {}" "length nt = unat n" "n \<noteq> 0"
    "\<forall>i < length nt. \<exists>ys. path hashNext en (nt ! i) ys 0 \<and>
       set ys = {e \<in> D. indexFor n (he_h (the (en e))) = i}"
  shows "\<exists>nt' en'. rehash_loop n p nt en = Some (nt', en') \<and> length nt' = unat n \<and>
    same_but_next en en' \<and>
    (\<forall>i < length nt'. \<exists>ys. path hashNext en' (nt' ! i) ys 0 \<and>
       set ys = {e \<in> set xs \<union> D. indexFor n (he_h (the (en' e))) = i})"
  using assms
proof (induction xs arbitrary: p nt en D)
  case Nil
  then have "rehash_loop n p nt en = Some (nt, en)" by (simp add: rehash_loop.simps)
  with Nil show ?case using same_but_next_refl by auto
next
  case (Cons e xs)
  then obtain x where x: "p = e" "e \<noteq> 0" "en e = Some x" "path listNext en (listNext x) xs 0"
    by auto
  have nin: "e \<notin> set xs" "e \<notin> D" using path_distinct [OF Cons.prems(1)] Cons.prems(2) by auto
  let ?i = "indexFor n (he_h x)"
  let ?nt = "nt[?i := e]" and ?en = "upd e (\<lambda>x. x\<lparr>hashNext := nt ! ?i\<rparr>) en"
  have i: "?i < length nt" using indexFor_less [OF Cons.prems(4)] Cons.prems(3) by simp
  have step: "rehash_loop n p nt en = rehash_loop n (listNext x) ?nt ?en"
    using x i by (simp add: rehash_loop.simps [of n e] upd_def Let_def)
  have idxD: "he_h (the (?en a)) = he_h (the (en a))" if "a \<in> D" for a
    using that nin(2) by (cases "a = e") auto
  have idxe: "he_h (the (?en e)) = he_h x" using x(3) by simp
  have idx: "{a \<in> insert e D. indexFor n (he_h (the (?en a))) = j} =
      (if j = ?i then insert e {a \<in> D. indexFor n (he_h (the (en a))) = j}
       else {a \<in> D. indexFor n (he_h (the (en a))) = j})" for j
    using idxD idxe by (cases "j = ?i") (auto simp del: upd_def)
  have "\<exists>ys. path hashNext ?en (?nt ! j) ys 0 \<and>
      set ys = {a \<in> insert e D. indexFor n (he_h (the (?en a))) = j}" if j: "j < length ?nt" for j
  proof -
    obtain ys where ys: "path hashNext en (nt ! j) ys 0"
      "set ys = {a \<in> D. indexFor n (he_h (the (en a))) = j}"
      using Cons.prems(5) j by auto
    have enys: "e \<notin> set ys" using ys(2) nin by auto
    show ?thesis
    proof (cases "j = ?i")
      case True
      have "path hashNext ?en e (e # ys) 0"
        by (rule path_push [OF ys(1) x(2) enys, of _ "x\<lparr>hashNext := nt ! ?i\<rparr>"])
          (use x(3) True enys in \<open>auto simp: upd_def\<close>)
      moreover have "set (e # ys) = {a \<in> insert e D. indexFor n (he_h (the (?en a))) = j}"
        unfolding idx using ys(2) True by simp
      moreover have "?nt ! j = e" using True i by simp
      ultimately show ?thesis by (intro exI [of _ "e # ys"]) simp
    next
      case False
      then show ?thesis
        unfolding idx using ys enys by (intro exI [of _ ys]) simp
    qed
  qed
  then have "\<exists>nt' en'. rehash_loop n (listNext x) ?nt ?en = Some (nt', en') \<and> length nt' = unat n \<and>
      same_but_next ?en en' \<and>
      (\<forall>i < length nt'. \<exists>ys. path hashNext en' (nt' ! i) ys 0 \<and>
         set ys = {a \<in> set xs \<union> insert e D. indexFor n (he_h (the (en' a))) = i})"
    using Cons.IH [of ?en "listNext x" "insert e D" ?nt] x(4) nin Cons.prems(2,3,4) by auto
  then show ?case using step same_but_next_step by fastforce
qed

lemma ent_field:
  "same_but_next (ents h) (ents h') \<Longrightarrow> ents h e = Some x \<Longrightarrow>
     he_k (ent h' e) = he_k (ent h e) \<and> he_v (ent h' e) = he_v (ent h e) \<and>
     he_h (ent h' e) = he_h (ent h e)"
  unfolding ent_def by (simp add: same_but_next_the)

lemma next_prime:
  "i \<noteq> prime_table_length - 1 \<Longrightarrow> unat i < length primes \<Longrightarrow> unat (i + 1) < length primes"
proof -
  have len: "length primes = 26" by (simp add: primes_def)
  assume "i \<noteq> prime_table_length - 1" "unat i < length primes"
  then have "unat i \<noteq> 25" "unat i < 26"
    by (auto simp: prime_table_length_def len word_unat_eq_iff)
  then have "unat i + unat (1 :: u32) < 26" by simp
  then have "unat (i + 1) < 26" using unat_add_lem [of i 1] by simp
  then show ?thesis by (simp add: len)
qed

lemma expand_effect:
  assumes "table_core hashfn h L F"
  obtains r h' where "cs_hashtable_expand ok h = Some (r, h')" "table_core hashfn h' L F"
    "same_but_next (ents h) (ents h')" "freeHead h' = freeHead h" "entrycount h' = entrycount h"
    "keyType h' = keyType h" "freed h' = freed h"
    "r = 0 \<longrightarrow> h' = h" "r \<noteq> 0 \<longrightarrow> ok \<and> primeindex h' = primeindex h + 1"
proof -
  note c = assms [unfolded table_core_def order_list_def]
  show thesis
  proof (cases "primeindex h = prime_table_length - 1 \<or> \<not> ok")
    case True
    have "unat (primeindex h + 1) < length primes" if "primeindex h \<noteq> prime_table_length - 1"
      using next_prime [OF that] c by blast
    then have "cs_hashtable_expand ok h = Some (0, h)"
      using True by (cases "primeindex h = prime_table_length - 1")
        (simp_all add: cs_hashtable_expand_def Let_def not_le)
    then show thesis by (rule that [OF _ assms same_but_next_refl]) simp_all
  next
    case False
    let ?p = "primeindex h + 1"
    let ?n = "primes ! unat ?p"
    have p: "unat ?p < length primes" using next_prime [of "primeindex h"] False c by blast
    have pL: "path listNext (ents h) (listHead h) L 0" using c by blast
    have zeros: "\<forall>i < length (replicate (unat ?n) 0). \<exists>ys.
        path hashNext (ents h) (replicate (unat ?n) 0 ! i) ys 0 \<and>
        set ys = {e \<in> {}. indexFor ?n (he_h (the (ents h e))) = i}"
      by simp
    obtain nt en where loop: "rehash_loop ?n (listHead h) (replicate (unat ?n) 0) (ents h) = Some (nt, en)"
      and nt: "length nt = unat ?n" "same_but_next (ents h) en"
        "\<forall>i < length nt. \<exists>ys. path hashNext en (nt ! i) ys 0 \<and>
           set ys = {e \<in> set L \<union> {}. indexFor ?n (he_h (the (en e))) = i}"
      using rehash_loop_spec [OF pL _ _ prime_pos [OF p] zeros] by (auto simp del: nth_replicate)
    let ?h = "h\<lparr>primeindex := ?p, ents := en, buckets := nt, tablelength := ?n,
      loadlimit := ucast (ucast ?n * 8 div 10 :: u64)\<rparr>"
    have eq: "cs_hashtable_expand ok h = Some (- 1, ?h)"
      using False p loop by (simp add: cs_hashtable_expand_def Let_def)
    have same: "same_but_next (ents h) (ents ?h)" using nt(2) by simp
    have "order_list ?h L" "path listNext (ents ?h) (freeHead ?h) F 0"
      using c same_but_next_path [OF same] by (simp_all add: order_list_def)
    moreover have "he_h (ent ?h e) = hash_mix hashfn (he_k (ent ?h e))" if "e \<in> set L" for e
      using ent_field [OF same inv_entry(2) [OF assms that]] c that by simp
    moreover have "bucket_lists ?h (set L)"
      using nt(3) by (simp add: bucket_lists_def slot_def ent_def)
    ultimately have "table_core hashfn ?h L F"
      using c nt(1) p by (simp add: table_core_def)
    then show thesis by (rule that [OF eq _ same]) (use False in simp_all)
  qed
qed

section \<open>Insertion\<close>

definition entry_for :: "(haddr \<Rightarrow> u64) \<Rightarrow> cs_hashtable \<Rightarrow> haddr \<Rightarrow> haddr \<Rightarrow> hash_entry" where
  "entry_for hashfn h k v =
    \<lparr>he_k = k, he_v = v, he_h = hash_mix hashfn k,
     hashNext = buckets h ! indexFor (tablelength h) (hash_mix hashfn k),
     listNext = 0, listPrev = listTail h\<rparr>"

text \<open>The table after \<open>e\<close> has been linked in.\<close>

definition linked :: "(haddr \<Rightarrow> u64) \<Rightarrow> cs_hashtable \<Rightarrow> haddr list \<Rightarrow> haddr \<Rightarrow> haddr \<Rightarrow> haddr \<Rightarrow> cs_hashtable" where
  "linked hashfn h L e k v =
    (let m = (ents h)(e \<mapsto> entry_for hashfn h k v) in
     h\<lparr>buckets := (buckets h)[indexFor (tablelength h) (hash_mix hashfn k) := e],
       listHead := (if L = [] then e else listHead h), listTail := e,
       ents := (if L = [] then m else upd (last L) (\<lambda>x. x\<lparr>listNext := e\<rparr>) m)\<rparr>)"

lemma linked_ent:
  assumes "e \<notin> set L" "\<And>x y. f (x\<lparr>listNext := y\<rparr>) = f x"
  shows "ents h a \<noteq> None \<Longrightarrow> a \<noteq> e \<Longrightarrow> f (ent (linked hashfn h L e k v) a) = f (ent h a)"
    and "f (ent (linked hashfn h L e k v) e) = f (entry_for hashfn h k v)"
proof -
  show "f (ent (linked hashfn h L e k v) a) = f (ent h a)" if a: "ents h a \<noteq> None" "a \<noteq> e"
  proof (cases "L \<noteq> [] \<and> a = last L")
    case True
    with a assms show ?thesis by (auto simp: linked_def ent_def Let_def)
  next
    case False
    with a show ?thesis by (auto simp: linked_def ent_def Let_def)
  qed
  show "f (ent (linked hashfn h L e k v) e) = f (entry_for hashfn h k v)"
  proof (cases "L = []")
    case False
    then have "last L \<noteq> e" using assms(1) last_in_set by metis
    with False show ?thesis by (simp add: linked_def ent_def Let_def)
  qed (simp add: linked_def ent_def Let_def)
qed

lemma linked_core:
  assumes "table_core hashfn h L F" "e \<notin> set L" "e \<notin> set F" "e \<noteq> 0"
  shows "table_core hashfn (linked hashfn h L e k v) (L @ [e]) F"
proof -
  let ?h = "linked hashfn h L e k v"
  let ?x = "entry_for hashfn h k v"
  let ?i = "indexFor (tablelength h) (hash_mix hashfn k)"
  note c = assms(1) [unfolded table_core_def order_list_def]
  let ?m = "(ents h)(e \<mapsto> ?x)"
  have nx: "path listNext ?m (listHead h) L 0" "path listNext ?m (freeHead h) F 0"
    using c assms(2,3) by simp_all
  have prev: "path listPrev ?m (listTail h) (rev L) 0" using c assms(2) by simp
  have lastF: "L \<noteq> [] \<Longrightarrow> last L \<notin> set F" using c last_in_set by fastforce
  have fields: "listHead ?h = (if L = [] then e else listHead h)" "listTail ?h = e"
    "freeHead ?h = freeHead h" "buckets ?h = (buckets h)[?i := e]"
    "ents ?h = (if L = [] then ?m else upd (last L) (\<lambda>x. x\<lparr>listNext := e\<rparr>) ?m)"
    "tablelength ?h = tablelength h" "primeindex ?h = primeindex h" "loadlimit ?h = loadlimit h"
    by (simp_all add: linked_def Let_def)
  have x: "listNext ?x = 0" "listPrev ?x = listTail h" "he_h ?x = hash_mix hashfn k" "he_k ?x = k"
    "hashNext ?x = buckets h ! ?i"
    by (simp_all add: entry_for_def)
  have ne: "\<exists>v. ents ?h e = Some v \<and> listPrev v = listTail h \<and> hashNext v = buckets h ! ?i"
    unfolding fields(5) using x assms(2) by (auto simp: upd_def)
  have "path listNext (ents ?h) (listHead ?h) (L @ [e]) 0"
  proof (cases "L = []")
    case True
    then show ?thesis unfolding fields using x assms(4) by simp
  next
    case False
    have "path listNext (upd (last L) (\<lambda>x. x\<lparr>listNext := e\<rparr>) ?m) (listHead h) (L @ [e]) 0"
      by (rule path_snoc [OF nx(1) False _ x(1) assms(4,2)]) simp_all
    with False show ?thesis by (simp add: fields)
  qed
  moreover have "path listPrev (ents ?h) (listTail ?h) (rev (L @ [e])) 0"
    using ne prev assms(4) by (auto simp: fields)
  moreover have "path listNext (ents ?h) (freeHead ?h) F 0"
    using nx(2) lastF by (simp add: fields)
  moreover have "he_h (ent ?h a) = hash_mix hashfn (he_k (ent ?h a))" if "a \<in> set (L @ [e])" for a
  proof (cases "a = e")
    case True
    then show ?thesis
      using linked_ent(2) [OF assms(2), of he_h] linked_ent(2) [OF assms(2), of he_k] x by simp
  next
    case False
    then have "a \<in> set L" using that by simp
    then show ?thesis
      using linked_ent(1) [OF assms(2), of he_h h a] linked_ent(1) [OF assms(2), of he_k h a]
        inv_entry(2) [OF assms(1)] False c by simp
  qed
  moreover have "bucket_lists ?h (set (L @ [e]))"
    unfolding bucket_lists_def
  proof (intro allI impI)
    fix i assume "i < length (buckets ?h)"
    then have i: "i < length (buckets h)" by (simp add: fields)
    then obtain xs where xs: "path hashNext (ents h) (buckets h ! i) xs 0"
      "set xs = {a \<in> set L. slot h a = i}"
      using c unfolding bucket_lists_def by blast
    have exs: "e \<notin> set xs" using xs(2) assms(2) by auto
    have old: "slot ?h a = slot h a" if "a \<in> set L" for a
    proof -
      have "a \<noteq> e" using that assms(2) by metis
      then have "he_h (ent ?h a) = he_h (ent h a)"
        using linked_ent(1) [OF assms(2), of he_h h a] inv_entry(2) [OF assms(1) that] by simp
      then show ?thesis by (simp add: slot_def fields)
    qed
    have new: "slot ?h e = ?i"
      using linked_ent(2) [OF assms(2), of he_h] x by (simp add: slot_def fields)
    have split: "{a \<in> set (L @ [e]). slot ?h a = i} =
        (if i = ?i then insert e {a \<in> set L. slot h a = i} else {a \<in> set L. slot h a = i})"
      using old new by auto
    have p: "path hashNext (ents ?h) (buckets h ! i) xs 0"
      using xs(1) exs by (simp add: fields)
    show "\<exists>xs. path hashNext (ents ?h) (buckets ?h ! i) xs 0 \<and>
        set xs = {a \<in> set (L @ [e]). slot ?h a = i}"
    proof (cases "i = ?i")
      case True
      then have "path hashNext (ents ?h) (buckets ?h ! i) (e # xs) 0"
        using p ne assms(4) i by (auto simp: fields)
      then show ?thesis unfolding split using True xs(2) by (intro exI [of _ "e # xs"]) simp
    next
      case False
      then show ?thesis unfolding split using p xs(2) by (intro exI [of _ xs]) (simp add: fields)
    qed
  qed
  ultimately show ?thesis
    using c assms(2,3) unfolding table_core_def order_list_def by (simp add: fields)
qed

text \<open>The entry an insertion will use, and the table once that entry has been taken.\<close>

definition can_alloc :: "haddr option \<Rightarrow> cs_hashtable \<Rightarrow> haddr list \<Rightarrow> bool" where
  "can_alloc malloc h F \<longleftrightarrow> F \<noteq> [] \<or> (\<exists>m. malloc = Some m \<and> m \<noteq> 0 \<and> ents h m = None)"

definition taken_entry :: "haddr option \<Rightarrow> haddr list \<Rightarrow> haddr" where
  "taken_entry malloc F = (case F of [] \<Rightarrow> the malloc | e # _ \<Rightarrow> e)"

definition take_entry :: "haddr option \<Rightarrow> haddr list \<Rightarrow> cs_hashtable \<Rightarrow> cs_hashtable" where
  "take_entry malloc F h =
    (case F of
       [] \<Rightarrow> h\<lparr>ents := (ents h)(the malloc \<mapsto> \<lparr>he_k = 0, he_v = 0, he_h = 0, hashNext = 0,
                 listNext = 0, listPrev = 0\<rparr>)\<rparr>
     | e # _ \<Rightarrow> h\<lparr>freeHead := listNext (ent h e)\<rparr>)"

lemma core_cong:
  assumes "table_core hashfn h L F" "path listNext (ents h') (freeHead h') F' 0" "set L \<inter> set F' = {}"
    "\<And>a. a \<in> set L \<Longrightarrow> ents h' a = ents h a" "listHead h' = listHead h" "listTail h' = listTail h"
    "buckets h' = buckets h" "tablelength h' = tablelength h" "primeindex h' = primeindex h"
    "loadlimit h' = loadlimit h"
  shows "table_core hashfn h' L F'"
proof -
  have p: "path f (ents h') p xs q = path f (ents h) p xs q" if "set xs \<subseteq> set L" for f p xs q
    by (rule path_cong) (use assms(4) that in auto)
  have e: "ent h' a = ent h a" if "a \<in> set L" for a using assms(4) [OF that] by (simp add: ent_def)
  have s: "slot h' a = slot h a" if "a \<in> set L" for a using e [OF that] assms(8) by (simp add: slot_def)
  have "{a \<in> set L. slot h' a = i} = {a \<in> set L. slot h a = i}" for i using s by auto
  moreover have "path hashNext (ents h') p xs 0 = path hashNext (ents h) p xs 0"
    if "set xs = {a \<in> set L. slot h a = i}" for p xs i
    by (rule p) (use that in auto)
  ultimately have "bucket_lists h' (set L) = bucket_lists h (set L)"
    unfolding bucket_lists_def assms(7) by metis
  then show ?thesis
    using assms(1-3,5-10) p [of L] p [of "rev L"] e by (simp add: table_core_def order_list_def)
qed

lemma take_entry_core:
  assumes "table_core hashfn h L F" "can_alloc malloc h F"
  defines "e \<equiv> taken_entry malloc F" and "h3 \<equiv> take_entry malloc F h"
  shows "table_core hashfn h3 L (tl F)" "e \<noteq> 0" "e \<notin> set L" "e \<notin> set (tl F)"
    "\<exists>x. ents h3 e = Some x" "\<And>a. a \<in> set L \<Longrightarrow> ents h3 a = ents h a"
    "buckets h3 = buckets h" "tablelength h3 = tablelength h"
    "listHead h3 = listHead h" "listTail h3 = listTail h"
proof -
  note c = assms(1) [unfolded table_core_def order_list_def]
  have free: "path listNext (ents h) (freeHead h) F 0" "set L \<inter> set F = {}" using c by auto
  have dF: "distinct F" using path_distinct [OF free(1)] .
  have e: "e \<noteq> 0 \<and> e \<notin> set L \<and> e \<notin> set (tl F) \<and> (\<exists>x. ents h3 e = Some x)"
  proof (cases F)
    case Nil
    with assms(2) have m: "malloc = Some e" "e \<noteq> 0" "ents h e = None"
      by (auto simp: can_alloc_def e_def taken_entry_def)
    then have "e \<notin> set L" using inv_entry(2) [OF assms(1), of e] by auto
    with m Nil show ?thesis by (simp add: h3_def take_entry_def)
  next
    case (Cons a F')
    with free dF path_in [OF free(1), of a] show ?thesis
      by (auto simp: e_def h3_def taken_entry_def take_entry_def)
  qed
  then show "e \<noteq> 0" "e \<notin> set L" "e \<notin> set (tl F)" "\<exists>x. ents h3 e = Some x" by auto
  show same: "\<And>a. a \<in> set L \<Longrightarrow> ents h3 a = ents h a"
    using e by (cases F) (auto simp: e_def h3_def taken_entry_def take_entry_def)
  show fields: "buckets h3 = buckets h" "tablelength h3 = tablelength h"
    "listHead h3 = listHead h" "listTail h3 = listTail h"
    by (cases F; simp add: h3_def take_entry_def)+
  have "path listNext (ents h3) (freeHead h3) (tl F) 0"
    using free(1) by (cases F) (auto simp: h3_def take_entry_def ent_def)
  moreover have "set L \<inter> set (tl F) = {}" using free(2) by (cases F) auto
  moreover have "primeindex h3 = primeindex h" "loadlimit h3 = loadlimit h"
    by (cases F; simp add: h3_def take_entry_def)+
  ultimately show "table_core hashfn h3 L (tl F)"
    using core_cong [OF assms(1) _ _ same] fields by blast
qed

text \<open>The straight-line end of \<^verbatim>\<open>cs_hashtable_insert\<close> computes \<open>linked\<close>.\<close>

lemma link_code:
  fixes k v :: haddr
  assumes "table_core hashfn h L F" "e \<notin> set L" "e \<noteq> 0" "ents h e = Some x"
  defines "hv \<equiv> hash_mix hashfn k" and "i \<equiv> indexFor (tablelength h) (hash_mix hashfn k)"
  shows "(case set_entry e (\<lambda>x. x\<lparr>he_k := k, he_v := v, he_h := hv,
                                 hashNext := buckets h ! i, listNext := 0\<rparr>) h of
            None \<Rightarrow> None
          | Some h4 \<Rightarrow>
             let h5 = h4\<lparr>buckets := (buckets h4)[i := e]\<rparr> in
             if listHead h5 = 0
             then map_option (\<lambda>h. (- 1, h))
                    (set_entry e (\<lambda>x. x\<lparr>listPrev := 0\<rparr>) (h5\<lparr>listHead := e, listTail := e\<rparr>))
             else
              (case set_entry e (\<lambda>x. x\<lparr>listPrev := listTail h5\<rparr>) h5 of
                 None \<Rightarrow> None
               | Some h6 \<Rightarrow>
                  map_option (\<lambda>h. (- 1, h\<lparr>listTail := e\<rparr>))
                    (set_entry (listTail h6) (\<lambda>x. x\<lparr>listNext := e\<rparr>) h6)))
        = Some (- 1 :: int, linked hashfn h L e k v)"
proof -
  note c = assms(1) [unfolded table_core_def order_list_def]
  have L: "path listNext (ents h) (listHead h) L 0" "path listPrev (ents h) (listTail h) (rev L) 0"
    using c by auto
  show ?thesis
  proof (cases "L = []")
    case True
    with L have "listHead h = 0" "listTail h = 0" by auto
    with True assms(4) show ?thesis
      by (cases x) (simp add: set_entry_def linked_def entry_for_def Let_def hv_def i_def)
  next
    case False
    have hd0: "listHead h \<noteq> 0" using L(1) False path_empty_iff by metis
    obtain L' z where Lz: "L = L' @ [z]" using False by (cases L rule: rev_cases) auto
    have tail: "listTail h = z" "z \<noteq> e" using L(2) Lz assms(2) by auto
    obtain y where y: "ents h z = Some y" using inv_entry(2) [OF assms(1)] Lz by auto
    show ?thesis
      using assms(4) hd0 tail y Lz
      by (cases x; cases h) (simp add: set_entry_def linked_def entry_for_def Let_def hv_def i_def upd_def)
  qed
qed

lemma expand_step:
  assumes "table_core hashfn h L F"
  obtains h2 where
    "(if entrycount h > loadlimit h then map_option snd (cs_hashtable_expand ok h) else Some h) = Some h2"
    "table_core hashfn h2 L F" "same_but_next (ents h) (ents h2)" "freeHead h2 = freeHead h"
    "entrycount h2 = entrycount h" "keyType h2 = keyType h" "freed h2 = freed h"
proof (cases "entrycount h > loadlimit h")
  case True
  obtain r h' where e: "cs_hashtable_expand ok h = Some (r, h')" "table_core hashfn h' L F"
    "same_but_next (ents h) (ents h')" "freeHead h' = freeHead h" "entrycount h' = entrycount h"
    "keyType h' = keyType h" "freed h' = freed h"
    by (rule expand_effect [OF assms]) blast
  show thesis by (rule that [of h']) (use e True in simp_all)
next
  case False
  show thesis by (rule that [of h]) (use assms False same_but_next_refl in simp_all)
qed

lemma same_but_next_dom: "same_but_next m m' \<Longrightarrow> m e = None \<longleftrightarrow> m' e = None"
  using same_but_next_field [of m m' "\<lambda>_. ()" e] by (cases "m e"; cases "m' e") auto

lemma count_wrap: "entrycount h = of_nat n \<Longrightarrow> entrycount h + 1 = of_nat (Suc n)"
  by simp

definition kv :: "cs_hashtable \<Rightarrow> haddr \<Rightarrow> haddr \<times> haddr" where
  "kv h e = (he_k (ent h e), he_v (ent h e))"

lemma insert_effect:
  assumes "table_inv hashfn h L F" "can_alloc malloc h F"
  obtains h' e where "cs_hashtable_insert hashfn ok malloc k v h = Some (- 1, h')"
    "table_inv hashfn h' (L @ [e]) (tl F)" "map (kv h') (L @ [e]) = map (kv h) L @ [(k, v)]"
proof -
  let ?h1 = "h\<lparr>entrycount := entrycount h + 1\<rparr>"
  have core: "table_core hashfn h L F" and cnt: "entrycount h = of_nat (length L)"
    using assms(1) by (simp_all add: table_inv_def)
  have core1: "table_core hashfn ?h1 L F"
    by (rule core_cong [OF core]) (use core in \<open>auto simp: table_core_def\<close>)
  obtain h2 where h2: "(if entrycount ?h1 > loadlimit ?h1
        then map_option snd (cs_hashtable_expand ok ?h1) else Some ?h1) = Some h2"
    and core2: "table_core hashfn h2 L F" and same: "same_but_next (ents ?h1) (ents h2)"
    and fh: "freeHead h2 = freeHead h" and cnt2: "entrycount h2 = entrycount h + 1"
    using expand_step [OF core1, of ok] by auto
  let ?e = "taken_entry malloc F" and ?h3 = "take_entry malloc F h2"
  have alloc2: "can_alloc malloc h2 F"
    using assms(2) same_but_next_dom [OF same] by (auto simp: can_alloc_def)
  note t = take_entry_core [OF core2 alloc2]
  obtain x where x: "ents ?h3 ?e = Some x" using t(5) by blast
  let ?h' = "linked hashfn ?h3 L ?e k v"
  have empty: "F = [] \<longleftrightarrow> freeHead h2 = 0"
    using core2 path_empty_iff by (auto simp: table_core_def)
  have take: "(if freeHead h2 = 0
        then Some (h2\<lparr>ents := (ents h2)(?e \<mapsto> \<lparr>he_k = 0, he_v = 0, he_h = 0, hashNext = 0,
               listNext = 0, listPrev = 0\<rparr>)\<rparr>)
        else map_option (\<lambda>x. h2\<lparr>freeHead := listNext x\<rparr>) (ents h2 ?e)) = Some ?h3"
  proof (cases F)
    case Nil
    with empty show ?thesis by (simp add: take_entry_def taken_entry_def)
  next
    case (Cons a F')
    with core2 have "ents h2 a = Some (ent h2 a)"
      using path_in [of listNext "ents h2" "freeHead h2" F 0 a] by (auto simp: table_core_def ent_def)
    with Cons empty show ?thesis by (simp add: take_entry_def taken_entry_def)
  qed
  have e: "(if freeHead h2 = 0 then the malloc else freeHead h2) = ?e"
    using core2 empty by (cases F) (auto simp: taken_entry_def table_core_def)
  have some: "\<not> (freeHead h2 = 0 \<and> malloc = None)"
    using empty alloc2 by (auto simp: can_alloc_def)
  have idx: "indexFor (tablelength ?h3) (hash_mix hashfn k) < length (buckets ?h3)"
    by (rule inv_length(2) [OF t(1)])
  have eq: "cs_hashtable_insert hashfn ok malloc k v h = Some (- 1, ?h')"
    by (simp only: cs_hashtable_insert_def Let_def h2 option.case e take if_not_P [OF some]
        if_not_P [OF idx [unfolded not_le [symmetric]]]
        link_code [OF t(1,3,2) x, of k v, unfolded Let_def])
  have "entrycount ?h' = of_nat (length (L @ [?e]))"
    using cnt cnt2 by (cases F) (simp_all add: linked_def Let_def take_entry_def)
  moreover have "dom (ents ?h') = insert ?e (dom (ents ?h3))"
    by (simp add: linked_def Let_def)
  moreover have "dom (ents ?h3) \<subseteq> insert (the malloc) (dom (ents h2))"
    by (cases F) (auto simp: take_entry_def)
  moreover have "dom (ents h2) = dom (ents h)"
    using same_but_next_dom [OF same] by (auto simp: dom_def)
  ultimately have inv: "table_inv hashfn ?h' (L @ [?e]) (tl F)"
    using linked_core [OF t(1,3,4,2)] assms(1) by (auto simp: table_inv_def intro: finite_subset)
  have old: "kv ?h' a = kv h a" if a: "a \<in> set L" for a
  proof -
    have ae: "a \<noteq> ?e" using t(3) a by metis
    have some: "ents ?h3 a \<noteq> None" using inv_entry(2) [OF t(1) a] by simp
    have 1: "he_k (ent ?h' a) = he_k (ent ?h3 a)" "he_v (ent ?h' a) = he_v (ent ?h3 a)"
      by (rule linked_ent(1) [OF t(3) _ some ae]; simp)+
    have 2: "ent ?h3 a = ent h2 a" using t(6) [OF a] by (simp add: ent_def)
    have "ents ?h1 a = Some (ent h a)" using inv_entry(2) [OF core a] by simp
    from ent_field [OF same this]
    have 3: "he_k (ent h2 a) = he_k (ent h a)" "he_v (ent h2 a) = he_v (ent h a)"
      by (simp_all add: ent_def)
    show ?thesis unfolding kv_def 1 2 3 ..
  qed
  have new: "kv ?h' ?e = (k, v)"
    using linked_ent(2) [OF t(3), of he_k] linked_ent(2) [OF t(3), of he_v]
    by (simp add: kv_def entry_for_def)
  show thesis by (rule that [OF eq inv]) (simp add: old new)
qed

section \<open>Chain scans\<close>

lemma scan_chain_found:
  "path hashNext en p (A @ e # B) 0 \<Longrightarrow> (\<And>a. a \<in> set A \<Longrightarrow> \<not> test a (the (en a))) \<Longrightarrow>
     test e (the (en e)) \<Longrightarrow> scan_chain test prev p en = Some (last (prev # A), e)"
proof (induction A arbitrary: p prev)
  case Nil
  then show ?case by (auto simp: scan_chain.simps)
next
  case (Cons a A)
  then obtain v where v: "p = a" "a \<noteq> 0" "en a = Some v" "path hashNext en (hashNext v) (A @ e # B) 0"
    by auto
  moreover have "\<not> test a v" using Cons.prems(2) [of a] v(3) by simp
  ultimately show ?case
    using Cons.IH [of "hashNext v" a] Cons.prems by (simp add: scan_chain.simps [of test prev])
qed

lemma scan_chain_none:
  "path hashNext en p xs 0 \<Longrightarrow> (\<And>a. a \<in> set xs \<Longrightarrow> \<not> test a (the (en a))) \<Longrightarrow>
     scan_chain test prev p en = Some (last (prev # xs), 0)"
proof (induction xs arbitrary: p prev)
  case Nil
  then show ?case by (simp add: scan_chain.simps)
next
  case (Cons a xs)
  then obtain v where v: "p = a" "a \<noteq> 0" "en a = Some v" "path hashNext en (hashNext v) xs 0"
    by auto
  moreover have "\<not> test a v" using Cons.prems(2) [of a] v(3) by simp
  ultimately show ?case
    using Cons.IH [of "hashNext v" a] Cons.prems by (simp add: scan_chain.simps [of test prev])
qed

text \<open>The outcome of a scan of the bucket for hash \<open>hv\<close>: nothing there passes the test, or the
  entry \<open>e\<close> does and \<open>A\<close> are the entries before it.\<close>

lemma scan_bucket_cases:
  assumes "table_core hashfn h L F"
  obtains prev where "scan_bucket test hv h = Some (prev, 0)"
      "\<And>e. e \<in> set L \<Longrightarrow> slot h e = indexFor (tablelength h) hv \<Longrightarrow> \<not> test e (ent h e)"
  | A e B where "scan_bucket test hv h = Some (last (0 # A), e)"
      "path hashNext (ents h) (buckets h ! indexFor (tablelength h) hv) (A @ e # B) 0"
      "set (A @ e # B) = {a \<in> set L. slot h a = indexFor (tablelength h) hv}"
      "test e (ent h e)"
proof -
  let ?i = "indexFor (tablelength h) hv"
  have i: "?i < length (buckets h)" by (rule inv_length(2) [OF assms])
  obtain xs where xs: "path hashNext (ents h) (buckets h ! ?i) xs 0"
    "set xs = {a \<in> set L. slot h a = ?i}"
    using assms i unfolding table_core_def bucket_lists_def by blast
  have scan: "scan_bucket test hv h = scan_chain test 0 (buckets h ! ?i) (ents h)"
    using i by (simp add: scan_bucket_def)
  show thesis
  proof (cases "\<exists>e \<in> set xs. test e (ent h e)")
    case True
    then obtain A e B where s: "xs = A @ e # B" "test e (ent h e)" "\<forall>a \<in> set A. \<not> test a (ent h a)"
      using split_list_first_prop [OF True] by blast
    have "scan_chain test 0 (buckets h ! ?i) (ents h) = Some (last (0 # A), e)"
      by (rule scan_chain_found) (use xs s in \<open>auto simp: ent_def\<close>)
    then show thesis using that(2) [of A e B] scan xs s by simp
  next
    case False
    have "scan_chain test 0 (buckets h ! ?i) (ents h) = Some (last (0 # xs), 0)"
      by (rule scan_chain_none [OF xs(1)]) (use False in \<open>auto simp: ent_def\<close>)
    then show thesis using that(1) [of "last (0 # xs)"] scan xs(2) False by auto
  qed
qed

text \<open>What the callers promise of the callbacks: equality is an equivalence that the hash
  respects.\<close>

definition key_ok :: "(haddr \<Rightarrow> u64) \<Rightarrow> (haddr \<Rightarrow> haddr \<Rightarrow> bool) \<Rightarrow> bool" where
  "key_ok hashfn eqfn \<longleftrightarrow> (\<forall>a. eqfn a a) \<and> (\<forall>a b. eqfn a b \<longrightarrow> eqfn b a) \<and>
     (\<forall>a b c. eqfn a b \<longrightarrow> eqfn b c \<longrightarrow> eqfn a c) \<and> (\<forall>a b. eqfn a b \<longrightarrow> hashfn a = hashfn b)"

lemma scan_key_cases:
  fixes k :: haddr
  assumes "table_core hashfn h L F" "key_ok hashfn eqfn"
  defines "hv \<equiv> hash_mix hashfn k"
  obtains prev where "scan_bucket (key_test eqfn k hv) hv h = Some (prev, 0)"
      "\<And>e. e \<in> set L \<Longrightarrow> \<not> eqfn k (he_k (ent h e))"
  | A e B where "scan_bucket (key_test eqfn k hv) hv h = Some (last (0 # A), e)"
      "path hashNext (ents h) (buckets h ! indexFor (tablelength h) hv) (A @ e # B) 0"
      "set (A @ e # B) = {a \<in> set L. slot h a = indexFor (tablelength h) hv}"
      "e \<in> set L" "eqfn k (he_k (ent h e))"
proof (rule scan_bucket_cases [OF assms(1), of "key_test eqfn k hv" hv])
  fix prev
  assume s: "scan_bucket (key_test eqfn k hv) hv h = Some (prev, 0)"
    and none: "\<And>e. e \<in> set L \<Longrightarrow> slot h e = indexFor (tablelength h) hv \<Longrightarrow>
      \<not> key_test eqfn k hv e (ent h e)"
  have "\<not> eqfn k (he_k (ent h e))" if e: "e \<in> set L" for e
  proof
    assume eq: "eqfn k (he_k (ent h e))"
    then have "hashfn k = hashfn (he_k (ent h e))" using assms(2) unfolding key_ok_def by blast
    moreover have "he_h (ent h e) = hash_mix hashfn (he_k (ent h e))"
      using assms(1) e by (simp add: table_core_def)
    ultimately have "he_h (ent h e) = hv" by (simp add: hv_def hash_mix_def)
    with none [OF e] eq show False by (simp add: slot_def key_test_def)
  qed
  with s show thesis by (rule that(1))
next
  fix A e B
  assume s: "scan_bucket (key_test eqfn k hv) hv h = Some (last (0 # A), e)"
    "path hashNext (ents h) (buckets h ! indexFor (tablelength h) hv) (A @ e # B) 0"
    "set (A @ e # B) = {a \<in> set L. slot h a = indexFor (tablelength h) hv}"
    "key_test eqfn k hv e (ent h e)"
  then have "e \<in> set L" "eqfn k (he_k (ent h e))" by (auto simp: key_test_def)
  with s show thesis by (intro that(2))
qed

section \<open>Removal\<close>

lemma ent_upd_field: "(\<And>y. f (g y) = f y) \<Longrightarrow> map_option f (upd e g m a) = map_option f (m a)"
  by (cases "a = e") (auto simp: option.map_comp comp_def)

text \<open>The write \<^verbatim>\<open>*pE = e->hashNext\<close> takes \<open>e\<close> off its bucket and nothing else.\<close>

lemma bypass_effect:
  assumes "table_core hashfn h L F" "e \<in> set L" "i < length (buckets h)" "slot h e = i"
    "path hashNext (ents h) (buckets h ! i) (A @ e # B) 0"
    "set (A @ e # B) = {a \<in> set L. slot h a = i}"
  obtains h1 where "bypass (last (0 # A)) i (hashNext (ent h e)) h = Some h1"
    "same_but_next (ents h) (ents h1)" "bucket_lists h1 (set L - {e})"
    "h1 = h\<lparr>buckets := buckets h1, ents := ents h1\<rparr>" "length (buckets h1) = length (buckets h)"
proof -
  let ?z = "hashNext (ent h e)"
  obtain h1 where h1: "h1 = (if A = [] then h\<lparr>buckets := (buckets h)[i := ?z]\<rparr>
    else h\<lparr>ents := upd (last A) (\<lambda>y. y\<lparr>hashNext := ?z\<rparr>) (ents h)\<rparr>)" by blast
  note e = inv_entry [OF assms(1,2)]
  have dist: "distinct (A @ e # B)" by (rule path_distinct [OF assms(5)])
  have last: "A \<noteq> [] \<Longrightarrow> last A \<in> set L" using assms(6) last_in_set by fastforce
  have eq: "bypass (last (0 # A)) i ?z h = Some h1"
  proof (cases "A = []")
    case False
    note lA = inv_entry [OF assms(1) last [OF False]]
    then show ?thesis using False by (simp add: bypass_def set_entry_Some [OF lA(2)] h1)
  qed (simp add: bypass_def h1)
  have same: "same_but_next (ents h) (ents h1)"
    using same_but_next_refl by (auto simp: h1 intro: same_but_next_step)
  have slots: "slot h1 a = slot h a" if "a \<in> set L" for a
    using ent_field [OF same inv_entry(2) [OF assms(1) that]] by (simp add: slot_def h1)
  have members: "{a \<in> set L - {e}. slot h1 a = j} = {a \<in> set L. slot h a = j} - {e}" for j
    using slots by auto
  have un: "if A = [] then buckets h ! i = e \<and> path hashNext (ents h) ?z B 0
      else path hashNext (upd (last A) (\<lambda>y. y\<lparr>hashNext := ?z\<rparr>) (ents h)) (buckets h ! i) (A @ B) 0"
    by (rule path_unlink [OF assms(5) e(2)]) simp
  have "bucket_lists h1 (set L - {e})"
    unfolding bucket_lists_def
  proof (intro allI impI)
    fix j assume "j < length (buckets h1)"
    then have j: "j < length (buckets h)" by (simp add: h1 split: if_splits)
    show "\<exists>xs. path hashNext (ents h1) (buckets h1 ! j) xs 0 \<and>
        set xs = {a \<in> set L - {e}. slot h1 a = j}"
    proof (cases "j = i")
      case True
      have "path hashNext (ents h1) (buckets h1 ! j) (A @ B) 0"
        using un assms(3) True by (auto simp: h1 split: if_splits)
      moreover have "set (A @ B) = {a \<in> set L - {e}. slot h1 a = j}"
        unfolding members using assms(6) dist True by auto
      ultimately show ?thesis by blast
    next
      case False
      obtain xs where xs: "path hashNext (ents h) (buckets h ! j) xs 0"
        "set xs = {a \<in> set L. slot h a = j}"
        using assms(1) j unfolding table_core_def bucket_lists_def by blast
      have "A \<noteq> [] \<Longrightarrow> last A \<notin> set xs"
        using assms(6) xs(2) False last_in_set by fastforce
      then have "path hashNext (ents h1) (buckets h1 ! j) xs 0"
        using xs(1) False by (simp add: h1)
      moreover have "set xs = {a \<in> set L - {e}. slot h1 a = j}"
        unfolding members using xs(2) False assms(4) by auto
      ultimately show ?thesis by blast
    qed
  qed
  then show thesis by (intro that [OF eq same]) (simp_all add: h1)
qed

definition payload :: "hash_entry \<Rightarrow> haddr \<times> haddr \<times> u64 \<times> haddr" where
  "payload x = (he_k x, he_v x, he_h x, hashNext x)"

lemma payload_links [simp]:
  "payload (x\<lparr>listNext := y\<rparr>) = payload x" "payload (x\<lparr>listPrev := y\<rparr>) = payload x"
  by (simp_all add: payload_def)

lemma order_neighbours:
  assumes "order_list h (L1 @ e # L2)"
  shows "ents h e = Some (ent h e)" "e \<noteq> 0"
    "listPrev (ent h e) = (if L1 = [] then 0 else last L1)"
    "listNext (ent h e) = (if L2 = [] then 0 else hd L2)"
    "listHead h = (if L1 = [] then e else hd L1)" "listTail h = (if L2 = [] then e else last L2)"
    "0 \<notin> set L1" "0 \<notin> set L2"
proof -
  have n: "path listNext (ents h) (listHead h) (L1 @ e # L2) 0"
    and p: "path listPrev (ents h) (listTail h) (rev L2 @ e # rev L1) 0"
    using assms by (simp_all add: order_list_def)
  show e: "ents h e = Some (ent h e)" "e \<noteq> 0" using n by (auto simp: path_append_mid ent_def)
  have nx: "path listNext (ents h) (listNext (ent h e)) L2 0"
    and pv: "path listPrev (ents h) (listPrev (ent h e)) (rev L1) 0"
    using n p e by (auto simp: path_append_mid)
  show "listNext (ent h e) = (if L2 = [] then 0 else hd L2)" using nx by (cases L2) auto
  show "listPrev (ent h e) = (if L1 = [] then 0 else last L1)"
    using pv by (cases L1 rule: rev_cases) auto
  show "listHead h = (if L1 = [] then e else hd L1)" using n by (cases L1) auto
  show "listTail h = (if L2 = [] then e else last L2)" using p by (cases L2 rule: rev_cases) auto
  show "0 \<notin> set L1" "0 \<notin> set L2" using path_in [OF n] by auto
qed

lemma entry_delete_effect:
  assumes "order_list h (L1 @ e # L2)" "path listNext (ents h) (freeHead h) F 0"
    "set (L1 @ e # L2) \<inter> set F = {}"
  obtains h' where "cs_hashentry_delete e h = Some h'" "order_list h' (L1 @ L2)"
    "path listNext (ents h') (freeHead h') (e # F) 0"
    "\<And>a. map_option payload (ents h' a) = map_option payload (ents h a)"
    "entrycount h' = entrycount h - 1"
    "buckets h' = buckets h" "tablelength h' = tablelength h" "primeindex h' = primeindex h"
    "loadlimit h' = loadlimit h" "keyType h' = keyType h"
    "freed h' = (if keyType h = CS_HASH_KEY_ALLOCATED then he_k (ent h e) # freed h else freed h)"
proof -
  note n = order_neighbours [OF assms(1)]
  let ?x = "ent h e"
  have path1: "path listNext (ents h) (listHead h) (L1 @ e # L2) 0"
    "path listPrev (ents h) (listTail h) (rev L2 @ e # rev L1) 0"
    using assms(1) by (simp_all add: order_list_def)
  have dist: "distinct (L1 @ e # L2)" by (rule path_distinct [OF path1(1)])
  obtain m2 where m2: "m2 = (if L1 = [] then ents h
      else upd (last L1) (\<lambda>y. y\<lparr>listNext := listNext ?x\<rparr>) (ents h))" by blast
  obtain m3 where m3: "m3 = (if L2 = [] then m2
      else upd (hd L2) (\<lambda>y. y\<lparr>listPrev := listPrev ?x\<rparr>) m2)" by blast
  let ?m4 = "upd e (\<lambda>y. y\<lparr>listNext := freeHead h\<rparr>) m3"
  let ?h' = "h\<lparr>entrycount := entrycount h - 1,
      listHead := (if L1 = [] then listNext ?x else listHead h),
      listTail := (if L2 = [] then listPrev ?x else listTail h),
      freed := (if keyType h = CS_HASH_KEY_ALLOCATED then he_k ?x # freed h else freed h),
      ents := ?m4, freeHead := e\<rparr>"
  have nL: "L1 \<noteq> [] \<Longrightarrow> last L1 \<noteq> e" "L1 \<noteq> [] \<Longrightarrow> last L1 \<noteq> 0" "L1 \<noteq> [] \<Longrightarrow> last L1 \<in> set L1"
    "L2 \<noteq> [] \<Longrightarrow> hd L2 \<noteq> e" "L2 \<noteq> [] \<Longrightarrow> hd L2 \<noteq> 0" "L2 \<noteq> [] \<Longrightarrow> hd L2 \<in> set L2"
    using dist n(7,8) last_in_set [of L1] hd_in_set [of L2] by (auto simp del: last_in_set hd_in_set)
  have head: "e = listHead h \<longleftrightarrow> L1 = []" using n(5) dist by (cases L1) auto
  have tail: "e = listTail h \<longleftrightarrow> L2 = []" using n(6) dist nL by (cases L2 rule: rev_cases) auto
  have some: "\<exists>v. ents h a = Some v" if "a \<in> set (L1 @ e # L2)" for a
    using path_in [OF path1(1) that] by blast
  have some2: "\<exists>v. m2 a = Some v" if "a \<in> set (L1 @ e # L2)" for a
    using some [OF that] by (cases "a = last L1") (auto simp: m2)
  have some3: "\<exists>v. m3 e = Some v"
    using some2 [of e] nL by (auto simp: m3)
  have s1: "(if listPrev ?x \<noteq> 0 then set_entry (listPrev ?x) (\<lambda>y. y\<lparr>listNext := listNext ?x\<rparr>) k
      else Some k) = Some (k\<lparr>ents := m2\<rparr>)" if "ents k = ents h" for k
  proof (cases "L1 = []")
    case False
    then obtain v where "ents h (last L1) = Some v" using some [of "last L1"] by auto
    with False show ?thesis using that n(3) nL by (simp add: set_entry_Some m2)
  qed (use that n(3) in \<open>simp add: m2\<close>)
  have s2: "(if listNext ?x \<noteq> 0 then set_entry (listNext ?x) (\<lambda>y. y\<lparr>listPrev := listPrev ?x\<rparr>) k
      else Some k) = Some (k\<lparr>ents := m3\<rparr>)" if "ents k = m2" for k
  proof (cases "L2 = []")
    case False
    then obtain v where "m2 (hd L2) = Some v" using some2 [of "hd L2"] by auto
    with False show ?thesis using that n(4) nL by (simp add: set_entry_Some m3)
  qed (use that n(4) in \<open>simp add: m3\<close>)
  obtain v3 where v3: "m3 e = Some v3" using some3 by blast
  let ?k1 = "h\<lparr>entrycount := entrycount h - 1\<rparr>"
  let ?k2 = "?k1\<lparr>listHead := (if L1 = [] then listNext ?x else listHead h)\<rparr>"
  let ?k3 = "?k2\<lparr>listTail := (if L2 = [] then listPrev ?x else listTail h)\<rparr>"
  have k2: "(if e = listHead ?k1 then ?k1\<lparr>listHead := listNext ?x\<rparr> else ?k1) = ?k2"
    using head by simp
  have k3: "(if e = listTail ?k2 then ?k2\<lparr>listTail := listPrev ?x\<rparr> else ?k2) = ?k3"
    using tail by simp
  have k4: "(if listPrev ?x \<noteq> 0 then set_entry (listPrev ?x) (\<lambda>y. y\<lparr>listNext := listNext ?x\<rparr>) ?k3
      else Some ?k3) = Some (?k3\<lparr>ents := m2\<rparr>)"
    by (rule s1) simp
  have k5: "(if listNext ?x \<noteq> 0 then set_entry (listNext ?x) (\<lambda>y. y\<lparr>listPrev := listPrev ?x\<rparr>)
      (?k3\<lparr>ents := m2\<rparr>) else Some (?k3\<lparr>ents := m2\<rparr>)) = Some (?k3\<lparr>ents := m2, ents := m3\<rparr>)"
    by (rule s2) simp
  have eq: "cs_hashentry_delete e h = Some ?h'"
    unfolding cs_hashentry_delete_def n(1) option.case Let_def k2 k3 k4 k5
    by (simp add: set_entry_Some [of _ e v3] v3)
  have payload: "map_option payload (?m4 a) = map_option payload (ents h a)" for a
    by (simp add: m2 m3 ent_upd_field)
  have "path listNext m2 (listHead ?h') (L1 @ L2) 0"
    using path_unlink [OF path1(1) n(1), of "\<lambda>y. y\<lparr>listNext := listNext ?x\<rparr>"]
    by (cases "L1 = []") (simp_all add: m2)
  moreover have "path listNext m3 p xs 0 = path listNext m2 p xs 0" for p xs
    by (simp add: m3)
  ultimately have "path listNext m3 (listHead ?h') (L1 @ L2) 0" by blast
  then have next': "path listNext ?m4 (listHead ?h') (L1 @ L2) 0"
    using dist by simp
  have "map_option listPrev (m2 e) = map_option listPrev (ents h e)"
    by (simp add: m2 ent_upd_field)
  then obtain x2 where x2: "m2 e = Some x2" "listPrev x2 = listPrev ?x" using n(1) by auto
  have "path listPrev m2 p xs q = path listPrev (ents h) p xs q" for p xs q
    by (simp add: m2)
  with path1(2) have "path listPrev m2 (listTail h) (rev L2 @ e # rev L1) 0" by blast
  from path_unlink [OF this x2(1), of "\<lambda>y. y\<lparr>listPrev := listPrev ?x\<rparr>"]
  have "path listPrev m3 (listTail ?h') (rev L2 @ rev L1) 0"
    using x2(2) by (cases "L2 = []") (simp_all add: m3 last_rev)
  then have prev': "path listPrev ?m4 (listTail ?h') (rev (L1 @ L2)) 0"
    by simp
  have F: "e \<notin> set F" "L1 \<noteq> [] \<Longrightarrow> last L1 \<notin> set F"
    using assms(3) nL(3) by (auto simp del: last_in_set)
  have "path listNext m2 (freeHead h) F 0" using assms(2) F(2) by (simp add: m2)
  then have "path listNext m3 (freeHead h) F 0" by (simp add: m3)
  then have free': "path listNext ?m4 e (e # F) 0"
    using F(1) n(2) v3 by simp
  show thesis
    by (rule that [OF eq]) (use next' prev' free' payload in \<open>simp_all add: order_list_def\<close>)
qed

lemma payload_fields:
  assumes "map_option payload (m' a) = map_option payload (m a)"
  shows "map_option hashNext (m' a) = map_option hashNext (m a)"
    "m a = Some x \<Longrightarrow> he_k (the (m' a)) = he_k x \<and> he_v (the (m' a)) = he_v x \<and> he_h (the (m' a)) = he_h x"
  using assms by (cases "m a"; cases "m' a"; auto simp: payload_def)+

lemma unlink_effect:
  assumes "table_inv hashfn h (L1 @ e # L2) F" "slot h e = i"
    "path hashNext (ents h) (buckets h ! i) (A @ e # B) 0"
    "set (A @ e # B) = {a \<in> set (L1 @ e # L2). slot h a = i}"
  obtains h1 h2 where "bypass (last (0 # A)) i (hashNext (ent h e)) h = Some h1"
    "cs_hashentry_delete e h1 = Some h2" "table_inv hashfn h2 (L1 @ L2) (e # F)"
    "map (kv h2) (L1 @ L2) = map (kv h) (L1 @ L2)"
    "freed h2 = (if keyType h = CS_HASH_KEY_ALLOCATED then he_k (ent h e) # freed h else freed h)"
    "keyType h2 = keyType h"
proof -
  let ?L = "L1 @ e # L2"
  have core: "table_core hashfn h ?L F" and cnt: "entrycount h = of_nat (length ?L)"
    using assms(1) by (simp_all add: table_inv_def)
  note c = core [unfolded table_core_def]
  have eL: "e \<in> set ?L" by simp
  have i: "i < length (buckets h)"
    using inv_length(2) [OF core] assms(2) by (auto simp: slot_def)
  obtain h1 where b: "bypass (last (0 # A)) i (hashNext (ent h e)) h = Some h1"
    and same: "same_but_next (ents h) (ents h1)" and buck: "bucket_lists h1 (set ?L - {e})"
    and h1: "h1 = h\<lparr>buckets := buckets h1, ents := ents h1\<rparr>"
    and len: "length (buckets h1) = length (buckets h)"
    by (rule bypass_effect [OF core eL i assms(2-4)]) blast
  have f1: "listHead h1 = listHead h" "listTail h1 = listTail h" "freeHead h1 = freeHead h"
    "tablelength h1 = tablelength h" "primeindex h1 = primeindex h" "loadlimit h1 = loadlimit h"
    "entrycount h1 = entrycount h" "keyType h1 = keyType h" "freed h1 = freed h"
    by (subst h1; simp)+
  have ord1: "order_list h1 ?L" "path listNext (ents h1) (freeHead h1) F 0"
    using c same_but_next_path [OF same] by (simp_all add: order_list_def f1)
  have disj: "set ?L \<inter> set F = {}" using c by blast
  obtain h2 where d: "cs_hashentry_delete e h1 = Some h2" "order_list h2 (L1 @ L2)"
    "path listNext (ents h2) (freeHead h2) (e # F) 0"
    and pay: "\<And>a. map_option payload (ents h2 a) = map_option payload (ents h1 a)"
    and f2: "entrycount h2 = entrycount h1 - 1"
      "buckets h2 = buckets h1" "tablelength h2 = tablelength h1" "primeindex h2 = primeindex h1"
      "loadlimit h2 = loadlimit h1" "keyType h2 = keyType h1"
      "freed h2 = (if keyType h1 = CS_HASH_KEY_ALLOCATED then he_k (ent h1 e) # freed h1 else freed h1)"
    by (rule entry_delete_effect [OF ord1 disj]) blast
  have fld: "he_k (ent h2 a) = he_k (ent h a) \<and> he_v (ent h2 a) = he_v (ent h a) \<and>
      he_h (ent h2 a) = he_h (ent h a) \<and> he_h (ent h2 a) = he_h (ent h1 a)" if a: "a \<in> set ?L" for a
  proof -
    note ea = inv_entry(2) [OF core a]
    then have "ents h1 a \<noteq> None" using same_but_next_dom [OF same, of a] by simp
    then obtain y where y: "ents h1 a = Some y" by blast
    with payload_fields(2) [of "ents h2" a "ents h1" y] pay ent_field [OF same ea]
    show ?thesis by (simp add: ent_def)
  qed
  have hash2: "path hashNext (ents h2) p xs q = path hashNext (ents h1) p xs q" for p xs q
    by (rule path_cong) (rule payload_fields(1), rule pay)
  have dist: "distinct ?L" using inv_entry(3) [OF core eL] .
  have setL: "set (L1 @ L2) = set ?L - {e}" using dist by auto
  have "he_h (ent h2 a) = he_h (ent h1 a)" if "a \<in> set ?L" for a using fld [OF that] by blast
  then have slots: "slot h2 a = slot h1 a" if "a \<in> set ?L - {e}" for a
    using that by (simp add: slot_def f2(3))
  have members: "{a \<in> set (L1 @ L2). slot h2 a = j} = {a \<in> set ?L - {e}. slot h1 a = j}" for j
    unfolding setL by (rule Collect_cong) (use slots in metis)
  have "bucket_lists h2 (set (L1 @ L2))"
    using buck unfolding bucket_lists_def members hash2 f2(2) .
  moreover have "he_h (ent h2 a) = hash_mix hashfn (he_k (ent h2 a))" if "a \<in> set (L1 @ L2)" for a
    using fld [of a] that c by auto
  moreover have "set (L1 @ L2) \<inter> set (e # F) = {}" using disj dist by auto
  ultimately have "table_core hashfn h2 (L1 @ L2) (e # F)"
    using d(2,3) c len by (simp add: table_core_def f1 f2)
  moreover have "entrycount h2 = of_nat (length (L1 @ L2))"
    using cnt by (simp add: f1 f2)
  moreover have "dom (ents h2) = dom (ents h)"
  proof -
    have "(ents h2 a = None) = (ents h a = None)" for a
      using pay [of a] same_but_next_dom [OF same, of a] by (cases "ents h2 a"; cases "ents h1 a") auto
    then show ?thesis by (auto simp: dom_def)
  qed
  ultimately have inv: "table_inv hashfn h2 (L1 @ L2) (e # F)"
    using assms(1) by (simp add: table_inv_def)
  have kv: "map (kv h2) (L1 @ L2) = map (kv h) (L1 @ L2)"
    using fld by (simp add: kv_def)
  have "he_k (ent h1 e) = he_k (ent h e)"
    using ent_field [OF same inv_entry(2) [OF core eL]] by simp
  then show thesis by (intro that [OF b d(1) inv kv]) (simp_all add: f1 f2)
qed

lemma remove_effect:
  assumes "table_inv hashfn h L F" "key_ok hashfn eqfn"
    "\<And>a b. a \<in> set L \<Longrightarrow> b \<in> set L \<Longrightarrow> eqfn (he_k (ent h a)) (he_k (ent h b)) \<Longrightarrow> a = b"
  shows "(\<forall>e \<in> set L. \<not> eqfn k (he_k (ent h e))) \<and> cs_hashtable_remove hashfn eqfn k h = Some (0, h) \<or>
    (\<exists>L1 e L2 h2. L = L1 @ e # L2 \<and> eqfn k (he_k (ent h e)) \<and>
       cs_hashtable_remove hashfn eqfn k h = Some (he_v (ent h e), h2) \<and>
       table_inv hashfn h2 (L1 @ L2) (e # F) \<and> map (kv h2) (L1 @ L2) = map (kv h) (L1 @ L2) \<and>
       keyType h2 = keyType h)"
proof -
  let ?hv = "hash_mix hashfn k"
  let ?i = "indexFor (tablelength h) ?hv"
  have core: "table_core hashfn h L F" using assms(1) by (simp add: table_inv_def)
  show ?thesis
  proof (rule scan_key_cases [OF core assms(2), of k])
    fix prev
    assume "scan_bucket (key_test eqfn k ?hv) ?hv h = Some (prev, 0)"
      "\<And>e. e \<in> set L \<Longrightarrow> \<not> eqfn k (he_k (ent h e))"
    then show ?thesis by (auto simp: cs_hashtable_remove_def Let_def)
  next
    fix A e B
    assume s: "scan_bucket (key_test eqfn k ?hv) ?hv h = Some (last (0 # A), e)"
      "path hashNext (ents h) (buckets h ! ?i) (A @ e # B) 0"
      "set (A @ e # B) = {a \<in> set L. slot h a = ?i}"
      "e \<in> set L" "eqfn k (he_k (ent h e))"
    obtain L1 L2 where L: "L = L1 @ e # L2" using s(4) by (meson split_list)
    have slot: "slot h e = ?i" using s(3) by auto
    note e = inv_entry [OF core s(4)]
    obtain h1 h2 where u: "bypass (last (0 # A)) ?i (hashNext (ent h e)) h = Some h1"
      "cs_hashentry_delete e h1 = Some h2" "table_inv hashfn h2 (L1 @ L2) (e # F)"
      "map (kv h2) (L1 @ L2) = map (kv h) (L1 @ L2)" "keyType h2 = keyType h"
      by (rule unlink_effect [OF assms(1) [unfolded L] slot s(2) s(3) [unfolded L]]) blast
    have "cs_hashtable_remove hashfn eqfn k h = Some (he_v (ent h e), h2)"
      using e(1) by (simp only: cs_hashtable_remove_def Let_def s(1) option.case prod.case e(2) u(1,2)
          if_False option.map)
    then show ?thesis using L s(5) u(3-5) by blast
  qed
qed

section \<open>The table as an association list\<close>

definition kv_lookup :: "(haddr \<Rightarrow> haddr \<Rightarrow> bool) \<Rightarrow> haddr \<Rightarrow> (haddr \<times> haddr) list \<Rightarrow> haddr" where
  "kv_lookup eqfn k kvs = (case find (\<lambda>(k', _). eqfn k k') kvs of None \<Rightarrow> 0 | Some (_, v) \<Rightarrow> v)"

definition kv_delete ::
  "(haddr \<Rightarrow> haddr \<Rightarrow> bool) \<Rightarrow> haddr \<Rightarrow> (haddr \<times> haddr) list \<Rightarrow> (haddr \<times> haddr) list" where
  "kv_delete eqfn k kvs = filter (\<lambda>(k', _). \<not> eqfn k k') kvs"

definition kv_change ::
  "(haddr \<Rightarrow> haddr \<Rightarrow> bool) \<Rightarrow> haddr \<Rightarrow> haddr \<Rightarrow> (haddr \<times> haddr) list \<Rightarrow> (haddr \<times> haddr) list" where
  "kv_change eqfn k v kvs = map (\<lambda>(k', v'). (k', if eqfn k k' then v else v')) kvs"

definition kv_unique :: "(haddr \<Rightarrow> haddr \<Rightarrow> bool) \<Rightarrow> (haddr \<times> haddr) list \<Rightarrow> bool" where
  "kv_unique eqfn kvs \<longleftrightarrow> sorted_wrt (\<lambda>a b. \<not> eqfn (fst a) (fst b)) kvs"

definition hash_is ::
  "(haddr \<Rightarrow> u64) \<Rightarrow> (haddr \<Rightarrow> haddr \<Rightarrow> bool) \<Rightarrow> cs_hashtable \<Rightarrow> (haddr \<times> haddr) list \<Rightarrow> bool" where
  "hash_is hashfn eqfn h kvs \<longleftrightarrow> key_ok hashfn eqfn \<and> kv_unique eqfn kvs \<and>
     (\<exists>L F. table_inv hashfn h L F \<and> map (kv h) L = kvs)"

lemma unique_entries:
  assumes "kv_unique eqfn (map (kv h) L)" "\<forall>a b. eqfn a b \<longrightarrow> eqfn b a"
    "a \<in> set L" "b \<in> set L" "eqfn (he_k (ent h a)) (he_k (ent h b))"
  shows "a = b"
proof (rule ccontr)
  assume ne: "a \<noteq> b"
  obtain i j where ij: "i < length L" "L ! i = a" "j < length L" "L ! j = b"
    using assms(3,4) by (metis in_set_conv_nth)
  have u: "i < j \<Longrightarrow> j < length L \<Longrightarrow> \<not> eqfn (he_k (ent h (L ! i))) (he_k (ent h (L ! j)))" for i j
    using assms(1) by (simp add: kv_unique_def sorted_wrt_iff_nth_less kv_def)
  have "i < j \<or> j < i" using ne ij by (metis linorder_neqE_nat)
  then show False
    using u [of i j] u [of j i] ij assms(2,5) by auto
qed

lemma kv_split:
  assumes "kv_unique eqfn (map (kv h) (L1 @ e # L2))" "key_ok hashfn eqfn" "eqfn k (he_k (ent h e))"
  shows "kv_lookup eqfn k (map (kv h) (L1 @ e # L2)) = he_v (ent h e)"
    "kv_delete eqfn k (map (kv h) (L1 @ e # L2)) = map (kv h) (L1 @ L2)"
    "kv_change eqfn k v (map (kv h) (L1 @ e # L2)) =
       map (kv h) L1 @ (he_k (ent h e), v) # map (kv h) L2"
proof -
  have sym: "\<And>a b. eqfn a b \<Longrightarrow> eqfn b a" and trans: "\<And>a b c. eqfn a b \<Longrightarrow> eqfn b c \<Longrightarrow> eqfn a c"
    using assms(2) unfolding key_ok_def by blast+
  have L1: "\<not> eqfn k (he_k (ent h a))" if "a \<in> set L1" for a
  proof
    assume "eqfn k (he_k (ent h a))"
    then have "eqfn (he_k (ent h a)) (he_k (ent h e))" using assms(3) sym trans by metis
    then show False using assms(1) that by (auto simp: kv_unique_def sorted_wrt_append kv_def)
  qed
  have L2: "\<not> eqfn k (he_k (ent h a))" if "a \<in> set L2" for a
  proof
    assume "eqfn k (he_k (ent h a))"
    then have "eqfn (he_k (ent h e)) (he_k (ent h a))" using assms(3) sym trans by metis
    then show False using assms(1) that by (auto simp: kv_unique_def sorted_wrt_append kv_def)
  qed
  have "find (\<lambda>(k', _). eqfn k k') (map (kv h) (L1 @ e # L2)) = Some (kv h e)"
    using L1 assms(3) by (induction L1) (auto simp: kv_def)
  then show "kv_lookup eqfn k (map (kv h) (L1 @ e # L2)) = he_v (ent h e)"
    by (simp add: kv_lookup_def kv_def)
  have f: "filter (\<lambda>(k', _). \<not> eqfn k k') (map (kv h) M) = map (kv h) M"
    "map (\<lambda>(k', v'). (k', if eqfn k k' then v else v')) (map (kv h) M) = map (kv h) M"
    if "\<And>a. a \<in> set M \<Longrightarrow> \<not> eqfn k (he_k (ent h a))" for M
    using that by (induction M) (auto simp: kv_def)
  show "kv_delete eqfn k (map (kv h) (L1 @ e # L2)) = map (kv h) (L1 @ L2)"
    using f(1) [OF L1] f(1) [OF L2] assms(3) by (simp add: kv_delete_def kv_def)
  show "kv_change eqfn k v (map (kv h) (L1 @ e # L2)) =
      map (kv h) L1 @ (he_k (ent h e), v) # map (kv h) L2"
    using f(2) [OF L1] f(2) [OF L2] assms(3) by (simp add: kv_change_def kv_def)
qed

lemma kv_none:
  assumes "\<And>e. e \<in> set L \<Longrightarrow> \<not> eqfn k (he_k (ent h e))"
  shows "kv_lookup eqfn k (map (kv h) L) = 0" "kv_delete eqfn k (map (kv h) L) = map (kv h) L"
    "kv_change eqfn k v (map (kv h) L) = map (kv h) L"
  using assms by (induction L) (auto simp: kv_lookup_def kv_delete_def kv_change_def kv_def)

lemma change_core:
  fixes v :: haddr
  assumes "table_inv hashfn h L F" "e \<in> set L"
  defines "h1 \<equiv> h\<lparr>freed := he_v (ent h e) # freed h, ents := upd e (\<lambda>y. y\<lparr>he_v := v\<rparr>) (ents h)\<rparr>"
  shows "table_inv hashfn h1 L F" "kv h1 e = (he_k (ent h e), v)"
    "\<And>a. a \<noteq> e \<Longrightarrow> kv h1 a = kv h a"
proof -
  have core: "table_core hashfn h L F" using assms(1) by (simp add: table_inv_def)
  obtain x where e: "ents h e = Some x" using inv_entry(2) [OF core assms(2)] by blast
  have f: "he_h (ent h1 a) = he_h (ent h a)" "he_k (ent h1 a) = he_k (ent h a)" for a
    using e by (cases "a = e"; simp add: h1_def ent_def)+
  have "tablelength h1 = tablelength h" by (simp add: h1_def)
  then have s: "slot h1 a = slot h a" for a by (simp add: slot_def f)
  have p: "path hashNext (ents h1) p xs q = path hashNext (ents h) p xs q"
    "path listNext (ents h1) p xs q = path listNext (ents h) p xs q"
    "path listPrev (ents h1) p xs q = path listPrev (ents h) p xs q" for p xs q
    by (simp_all add: h1_def)
  have b: "bucket_lists h1 D = bucket_lists h D" for D
    unfolding bucket_lists_def s p by (simp add: h1_def)
  have o: "order_list h1 L = order_list h L"
    unfolding order_list_def p by (simp add: h1_def)
  show "table_inv hashfn h1 L F"
    using assms(1) unfolding table_inv_def table_core_def b o f p by (simp add: h1_def)
  show "kv h1 e = (he_k (ent h e), v)" using e by (simp add: kv_def h1_def ent_def)
  show "\<And>a. a \<noteq> e \<Longrightarrow> kv h1 a = kv h a" by (simp add: kv_def h1_def ent_def)
qed

lemma hash_isE:
  assumes "hash_is hashfn eqfn h kvs"
  obtains L F where "table_inv hashfn h L F" "table_core hashfn h L F" "key_ok hashfn eqfn"
    "kvs = map (kv h) L" "kv_unique eqfn (map (kv h) L)"
    "\<And>a b. a \<in> set L \<Longrightarrow> b \<in> set L \<Longrightarrow> eqfn (he_k (ent h a)) (he_k (ent h b)) \<Longrightarrow> a = b"
proof -
  from assms obtain L F where i: "table_inv hashfn h L F" "key_ok hashfn eqfn"
    "kvs = map (kv h) L" "kv_unique eqfn (map (kv h) L)"
    by (auto simp: hash_is_def)
  have "\<forall>a b. eqfn a b \<longrightarrow> eqfn b a" using i(2) unfolding key_ok_def by blast
  from unique_entries [OF i(4) this] i show thesis
    by (intro that) (auto simp: table_inv_def)
qed

lemma search_is:
  assumes "hash_is hashfn eqfn h kvs"
  shows "cs_hashtable_search hashfn eqfn h k = Some (kv_lookup eqfn k kvs)"
proof (rule hash_isE [OF assms])
  fix L F assume i: "table_inv hashfn h L F" "table_core hashfn h L F" "key_ok hashfn eqfn"
    "kvs = map (kv h) L" "kv_unique eqfn (map (kv h) L)"
  let ?hv = "hash_mix hashfn k"
  show ?thesis
  proof (rule scan_key_cases [OF i(2,3), of k])
    fix prev
    assume "scan_bucket (key_test eqfn k ?hv) ?hv h = Some (prev, 0)"
      and "\<And>e. e \<in> set L \<Longrightarrow> \<not> eqfn k (he_k (ent h e))"
    then show ?thesis using kv_none(1) [of L eqfn k h] i(4) by (simp add: cs_hashtable_search_def Let_def)
  next
    fix A e B
    assume s: "scan_bucket (key_test eqfn k ?hv) ?hv h = Some (last (0 # A), e)"
      and e: "e \<in> set L" "eqfn k (he_k (ent h e))"
    obtain L1 L2 where L: "L = L1 @ e # L2" using e(1) by (meson split_list)
    show ?thesis
      using s inv_entry [OF i(2) e(1)] kv_split(1) [OF i(5) [unfolded L] i(3) e(2)] i(4) L
      by (simp add: cs_hashtable_search_def Let_def)
  qed
qed

lemma insert_is:
  assumes "hash_is hashfn eqfn h kvs" "\<forall>(k', _) \<in> set kvs. \<not> eqfn k k'"
    "malloc = Some m" "m \<noteq> 0" "ents h m = None"
  obtains h' where "cs_hashtable_insert hashfn ok malloc k v h = Some (- 1, h')"
    "hash_is hashfn eqfn h' (kvs @ [(k, v)])"
proof (rule hash_isE [OF assms(1)])
  fix L F assume i: "table_inv hashfn h L F" "table_core hashfn h L F" "key_ok hashfn eqfn"
    "kvs = map (kv h) L" "kv_unique eqfn (map (kv h) L)"
  have "can_alloc malloc h F" using assms(3-5) by (simp add: can_alloc_def)
  then obtain h' e where h': "cs_hashtable_insert hashfn ok malloc k v h = Some (- 1, h')"
    "table_inv hashfn h' (L @ [e]) (tl F)" "map (kv h') (L @ [e]) = kvs @ [(k, v)]"
    by (rule insert_effect [OF i(1), of malloc ok k v]) (auto simp: i(4))
  have sym: "\<And>a b. eqfn a b \<Longrightarrow> eqfn b a" using i(3) unfolding key_ok_def by blast
  have "kv_unique eqfn (kvs @ [(k, v)])"
    using i(4,5) assms(2) sym by (fastforce simp: kv_unique_def sorted_wrt_append)
  with h' i(3) show thesis by (intro that [of h']) (auto simp: hash_is_def)
qed

lemma remove_is:
  assumes "hash_is hashfn eqfn h kvs"
  obtains h' where "cs_hashtable_remove hashfn eqfn k h = Some (kv_lookup eqfn k kvs, h')"
    "hash_is hashfn eqfn h' (kv_delete eqfn k kvs)"
proof (rule hash_isE [OF assms(1)])
  fix L F assume i: "table_inv hashfn h L F" "table_core hashfn h L F" "key_ok hashfn eqfn"
    "kvs = map (kv h) L" "kv_unique eqfn (map (kv h) L)"
    and u: "\<And>a b. a \<in> set L \<Longrightarrow> b \<in> set L \<Longrightarrow> eqfn (he_k (ent h a)) (he_k (ent h b)) \<Longrightarrow> a = b"
  from remove_effect [OF i(1,3) u, of k]
  consider (none) "\<forall>e \<in> set L. \<not> eqfn k (he_k (ent h e))" "cs_hashtable_remove hashfn eqfn k h = Some (0, h)"
    | (found) L1 e L2 h2 where "L = L1 @ e # L2" "eqfn k (he_k (ent h e))"
       "cs_hashtable_remove hashfn eqfn k h = Some (he_v (ent h e), h2)"
       "table_inv hashfn h2 (L1 @ L2) (e # F)" "map (kv h2) (L1 @ L2) = map (kv h) (L1 @ L2)"
    by blast
  then show thesis
  proof cases
    case none
    then show thesis using that [of h] assms kv_none [of L eqfn k h] i(4) by simp
  next
    case found
    note s = kv_split [OF i(5) [unfolded found(1)] i(3) found(2)]
    have "kv_unique eqfn (map (kv h) (L1 @ L2))"
      using i(5) found(1) by (simp add: kv_unique_def sorted_wrt_append)
    then have "hash_is hashfn eqfn h2 (map (kv h) (L1 @ L2))"
      unfolding hash_is_def using i(3) found(4,5) by blast
    then show thesis using that [of h2] found(3) s i(4) found(1) by simp
  qed
qed

lemma change_is:
  assumes "hash_is hashfn eqfn h kvs"
  obtains h' where "cs_hashtable_change hashfn eqfn k v h =
      Some (if \<exists>(k', _) \<in> set kvs. eqfn k k' then - 1 else 0, h')"
    "hash_is hashfn eqfn h' (kv_change eqfn k v kvs)"
proof (rule hash_isE [OF assms(1)])
  fix L F assume i: "table_inv hashfn h L F" "table_core hashfn h L F" "key_ok hashfn eqfn"
    "kvs = map (kv h) L" "kv_unique eqfn (map (kv h) L)"
  let ?hv = "hash_mix hashfn k"
  show thesis
  proof (rule scan_key_cases [OF i(2,3), of k])
    fix prev
    assume s: "scan_bucket (key_test eqfn k ?hv) ?hv h = Some (prev, 0)"
      and none: "\<And>e. e \<in> set L \<Longrightarrow> \<not> eqfn k (he_k (ent h e))"
    then have "\<not> (\<exists>(k', _) \<in> set kvs. eqfn k k')" using i(4) by (auto simp: kv_def)
    moreover have "cs_hashtable_change hashfn eqfn k v h = Some (0, h)"
      using s by (simp add: cs_hashtable_change_def Let_def)
    ultimately show thesis using that [of h] assms kv_none(3) [of L eqfn k h v] none i(4) by simp
  next
    fix A e B
    assume s: "scan_bucket (key_test eqfn k ?hv) ?hv h = Some (last (0 # A), e)"
      and e: "e \<in> set L" "eqfn k (he_k (ent h e))"
    obtain L1 L2 where L: "L = L1 @ e # L2" using e(1) by (meson split_list)
    note en = inv_entry [OF i(2) e(1)]
    let ?h = "h\<lparr>freed := he_v (ent h e) # freed h, ents := upd e (\<lambda>y. y\<lparr>he_v := v\<rparr>) (ents h)\<rparr>"
    note c = change_core [OF i(1) e(1), where v = v]
    have keep: "map (kv ?h) M = map (kv h) M" if "e \<notin> set M" for M
      by (intro map_cong refl c(3)) (use that in auto)
    have "e \<notin> set L1" "e \<notin> set L2" using en(3) L by auto
    then have split: "map (kv ?h) L = map (kv h) L1 @ (he_k (ent h e), v) # map (kv h) L2"
      using keep c(2) by (simp add: L)
    then have new: "map (kv ?h) L = kv_change eqfn k v kvs"
      using kv_split(3) [OF i(5) [unfolded L] i(3) e(2), of v] i(4) L by simp
    have "map fst (map (kv ?h) L) = map fst (map (kv h) L)"
      unfolding split by (simp add: L kv_def)
    then have "kv_unique eqfn (map (kv ?h) L)"
      using i(5) by (simp only: kv_unique_def sorted_wrt_map [of "\<lambda>a b. \<not> eqfn a b" fst, symmetric])
    then have "hash_is hashfn eqfn ?h (kv_change eqfn k v kvs)"
      using c(1) i(3) new unfolding hash_is_def by metis
    moreover have "cs_hashtable_change hashfn eqfn k v h = Some (- 1, ?h)"
      using s en by (simp add: cs_hashtable_change_def Let_def set_entry_Some)
    moreover have "\<exists>(k', _) \<in> set kvs. eqfn k k'" using e i(4) by (force simp: kv_def)
    ultimately show thesis using that [of ?h] by simp
  qed
qed

section \<open>Properties\<close>

text \<open>Client operations: \<open>Put\<close> is the removal followed by an insertion that the header asks
  for when the key may be present.  \<open>alloc\<close> stands for \<^verbatim>\<open>malloc\<close>.\<close>

datatype ht_op = Get haddr | Put bool haddr haddr | Del haddr | Change haddr haddr

type_synonym allocator = "(haddr \<Rightarrow> hash_entry option) \<Rightarrow> haddr"

definition alloc_ok :: "allocator \<Rightarrow> bool" where
  "alloc_ok alloc \<longleftrightarrow> (\<forall>m. finite (dom m) \<longrightarrow> alloc m \<noteq> 0 \<and> m (alloc m) = None)"

fun ht_step ::
  "(haddr \<Rightarrow> u64) \<Rightarrow> (haddr \<Rightarrow> haddr \<Rightarrow> bool) \<Rightarrow> allocator \<Rightarrow> ht_op \<Rightarrow> cs_hashtable \<Rightarrow>
     unit + (haddr \<times> int) \<times> cs_hashtable" where
  "ht_step hashfn eqfn alloc (Get k) h =
     (case cs_hashtable_search hashfn eqfn h k of None \<Rightarrow> Inl () | Some v \<Rightarrow> Inr ((v, 0), h))"
| "ht_step hashfn eqfn alloc (Put ok k v) h =
     (case cs_hashtable_remove hashfn eqfn k h of None \<Rightarrow> Inl ()
      | Some (old, h1) \<Rightarrow>
         (case cs_hashtable_insert hashfn ok (Some (alloc (ents h1))) k v h1 of None \<Rightarrow> Inl ()
          | Some (r, h2) \<Rightarrow> Inr ((old, r), h2)))"
| "ht_step hashfn eqfn alloc (Del k) h =
     (case cs_hashtable_remove hashfn eqfn k h of None \<Rightarrow> Inl () | Some (v, h1) \<Rightarrow> Inr ((v, 0), h1))"
| "ht_step hashfn eqfn alloc (Change k v) h =
     (case cs_hashtable_change hashfn eqfn k v h of None \<Rightarrow> Inl () | Some (r, h1) \<Rightarrow> Inr ((0, r), h1))"

fun kv_spec ::
  "(haddr \<Rightarrow> haddr \<Rightarrow> bool) \<Rightarrow> ht_op \<Rightarrow> (haddr \<times> haddr) list \<Rightarrow>
     (haddr \<times> int) \<times> (haddr \<times> haddr) list" where
  "kv_spec eqfn (Get k) kvs = ((kv_lookup eqfn k kvs, 0), kvs)"
| "kv_spec eqfn (Put ok k v) kvs = ((kv_lookup eqfn k kvs, - 1), kv_delete eqfn k kvs @ [(k, v)])"
| "kv_spec eqfn (Del k) kvs = ((kv_lookup eqfn k kvs, 0), kv_delete eqfn k kvs)"
| "kv_spec eqfn (Change k v) kvs =
     ((0, if \<exists>(k', _) \<in> set kvs. eqfn k k' then - 1 else 0), kv_change eqfn k v kvs)"

lemma hash_is_finite: "hash_is hashfn eqfn h kvs \<Longrightarrow> finite (dom (ents h))"
  by (auto simp: hash_is_def table_inv_def)

interpretation cht: data_refinement "ht_step hashfn eqfn alloc" "kv_spec eqfn"
  "\<lambda>h kvs. alloc_ok alloc \<and> hash_is hashfn eqfn h kvs" for hashfn eqfn alloc
proof (unfold_locales, elim conjE)
  fix h kvs p assume al: "alloc_ok alloc" and h: "hash_is hashfn eqfn h kvs"
  show "\<exists>h'. ht_step hashfn eqfn alloc p h = Inr (fst (kv_spec eqfn p kvs), h') \<and>
      alloc_ok alloc \<and> hash_is hashfn eqfn h' (snd (kv_spec eqfn p kvs))"
  proof (cases p)
    case (Get k)
    then show ?thesis using h al search_is [OF h] by simp
  next
    case (Put ok k v)
    obtain h1 where r: "cs_hashtable_remove hashfn eqfn k h = Some (kv_lookup eqfn k kvs, h1)"
      "hash_is hashfn eqfn h1 (kv_delete eqfn k kvs)"
      by (rule remove_is [OF h])
    have a: "alloc (ents h1) \<noteq> 0" "ents h1 (alloc (ents h1)) = None"
      using al hash_is_finite [OF r(2)] by (simp_all add: alloc_ok_def)
    have none: "\<forall>(k', _) \<in> set (kv_delete eqfn k kvs). \<not> eqfn k k'"
      by (auto simp: kv_delete_def)
    obtain h2 where "cs_hashtable_insert hashfn ok (Some (alloc (ents h1))) k v h1 = Some (- 1, h2)"
      "hash_is hashfn eqfn h2 (kv_delete eqfn k kvs @ [(k, v)])"
      by (rule insert_is [OF r(2) none refl a])
    with r al Put show ?thesis by simp
  next
    case (Del k)
    show ?thesis by (rule remove_is [OF h, of k]) (use Del al in simp)
  next
    case (Change k v)
    show ?thesis by (rule change_is [OF h, of k v]) (use Change al in simp)
  qed
qed

text \<open>C29: The hash table is a map: for every script of lookups, insertions, removals and value
  changes the chained table, through any number of growths and whether or not their
  allocations succeed, returns what an association list in insertion order returns and keeps
  its invariant (bucket chains, order list, free list, count).\<close>

theorem hashtable_refines_map:
  assumes "alloc_ok alloc" "hash_is hashfn eqfn h kvs"
  shows "\<exists>h'. run_ops (ht_step hashfn eqfn alloc) ps h =
      Inr (fst (run_abs (kv_spec eqfn) ps kvs), h') \<and>
    hash_is hashfn eqfn h' (snd (run_abs (kv_spec eqfn) ps kvs))"
  using cht.run_simulates [of alloc hashfn eqfn h kvs ps] assms by blast

lemma first_prime_spec:
  assumes "m \<le> 0x40000000"
  shows "first_prime_above primes m < length primes" "primes ! first_prime_above primes m > m"
    "\<forall>i < first_prime_above primes m. primes ! i \<le> m"
proof -
  have gen: "(\<exists>p \<in> set ps. p > m) \<Longrightarrow> first_prime_above ps m < length ps \<and>
      ps ! first_prime_above ps m > m \<and> (\<forall>i < first_prime_above ps m. ps ! i \<le> m)" for ps
  proof (induction ps)
    case (Cons p ps)
    show ?case
    proof (cases "p > m")
      case False
      then have "\<exists>p \<in> set ps. p > m" using Cons.prems by auto
      with Cons.IH have *: "first_prime_above ps m < length ps" "ps ! first_prime_above ps m > m"
        "\<forall>i < first_prime_above ps m. ps ! i \<le> m" by auto
      then show ?thesis using False by (auto simp: less_Suc_eq_0_disj not_less)
    qed simp
  qed simp
  have "(1610612741 :: u32) \<in> set primes" by (simp add: primes_def)
  moreover have "m < 1610612741" using assms by (rule le_less_trans) simp
  ultimately have "\<exists>p \<in> set primes. p > m" by blast
  from gen [OF this] show "first_prime_above primes m < length primes"
    "primes ! first_prime_above primes m > m" "\<forall>i < first_prime_above primes m. primes ! i \<le> m"
    by auto
qed

lemma create_effect:
  assumes "key_ok hashfn eqfn"
  shows "if minsize > 0x40000000 then cs_create_hashtable ah at minsize kt = Some None
    else \<exists>h. cs_create_hashtable True True minsize kt = Some (Some h) \<and> table_inv hashfn h [] [] \<and> hash_is hashfn eqfn h [] \<and>
      minsize < tablelength h \<and> (\<forall>i < unat (primeindex h). primes ! i \<le> minsize)"
proof (cases "minsize > 0x40000000")
  case True
  then show ?thesis by (simp add: cs_create_hashtable_def)
next
  case False
  let ?p = "first_prime_above primes minsize"
  have fp: "?p < length primes" "primes ! ?p > minsize" "\<forall>i < ?p. primes ! i \<le> minsize"
    using first_prime_spec [of minsize] False by simp_all
  have len: "length primes = 26" by (simp add: primes_def)
  have up: "unat (of_nat ?p :: u32) = ?p"
    using fp(1) by (simp add: len unsigned_of_nat take_bit_nat_eq_self)
  have "(of_nat ?p :: u32) - 1 \<noteq> 25"
  proof
    assume "(of_nat ?p :: u32) - 1 = 25"
    then have "(of_nat ?p :: u32) = 26" by (simp add: diff_eq_eq)
    then have "?p = 26" using up by simp
    then show False using fp(1) by (simp add: len)
  qed
  then have ne: "(of_nat ?p :: u32) - 1 \<noteq> prime_table_length - 1"
    by (simp add: prime_table_length_def len)
  let ?n = "primes ! ?p"
  let ?h = "zero_table\<lparr>primeindex := of_nat ?p, keyType := kt, ents := Map.empty,
    buckets := replicate (unat ?n) 0, tablelength := ?n,
    loadlimit := ucast (ucast ?n * 8 div 10 :: u64)\<rparr>"
  have "cs_create_hashtable True True minsize kt = Some (Some ?h)"
    using False ne up fp(1)
    by (simp add: cs_create_hashtable_def cs_hashtable_expand_def zero_table_def Let_def
        rehash_loop.simps)
  moreover have inv: "table_inv hashfn ?h [] []"
    using up fp(1)
    by (simp add: table_inv_def table_core_def order_list_def bucket_lists_def zero_table_def)
  moreover have "hash_is hashfn eqfn ?h []"
    using assms inv by (auto simp: hash_is_def kv_unique_def)
  moreover have "minsize < tablelength ?h" "\<forall>i < unat (primeindex ?h). primes ! i \<le> minsize"
    using fp up by (simp_all add: zero_table_def)
  ultimately show ?thesis using False by auto
qed

text \<open>Creation: a request for more than 2 to the 30 slots gives NULL; otherwise, with memory
  available, the table is empty and well formed and its length is the first prime of the table
  that exceeds the request.\<close>

theorem hashtable_create:
  assumes "key_ok hashfn eqfn"
  shows "if minsize > 0x40000000 then cs_create_hashtable ah at minsize kt = Some None
    else \<exists>h. cs_create_hashtable True True minsize kt = Some (Some h) \<and> hash_is hashfn eqfn h [] \<and>
      minsize < tablelength h \<and> (\<forall>i < unat (primeindex h). primes ! i \<le> minsize)"
  using create_effect [OF assms, of minsize ah at kt] by auto

lemma free_entries_spec:
  "path listNext (ents h) p xs 0 \<Longrightarrow>
     free_entries owned p h = Some (h\<lparr>ents := (\<lambda>a. if a \<in> set xs then None else ents h a),
       freed := concat (rev (map (\<lambda>e. owned (ent h e)) xs)) @ freed h\<rparr>)"
proof (induction xs arbitrary: p h)
  case Nil
  then show ?case by (simp add: free_entries.simps)
next
  case (Cons e xs)
  then obtain x where x: "p = e" "e \<noteq> 0" "ents h e = Some x" "path listNext (ents h) (listNext x) xs 0"
    by auto
  have e: "e \<notin> set xs" using path_distinct [OF Cons.prems] by simp
  let ?h = "h\<lparr>ents := (ents h)(e := None), freed := owned x @ freed h\<rparr>"
  have "path listNext (ents ?h) (listNext x) xs 0" using x(4) e by simp
  from Cons.IH [OF this]
  have "free_entries owned (listNext x) ?h =
      Some (?h\<lparr>ents := (\<lambda>a. if a \<in> set xs then None else ents ?h a),
        freed := concat (rev (map (\<lambda>e. owned (ent ?h e)) xs)) @ freed ?h\<rparr>)" .
  moreover have "map (\<lambda>e. owned (ent ?h e)) xs = map (\<lambda>e. owned (ent h e)) xs"
    using e by (auto simp: ent_def)
  moreover have "(\<lambda>a. if a \<in> set xs then None else ents ?h a) =
      (\<lambda>a. if a \<in> set (e # xs) then None else ents h a)"
    by auto
  moreover have "free_entries owned p h = free_entries owned (listNext x) ?h"
    using x by (subst free_entries.simps) simp
  moreover have "ent h e = x" using x(3) by (simp add: ent_def)
  ultimately show ?case by simp
qed

text \<open>C33: Destruction frees every live and every free-listed entry exactly once, frees exactly the
  keys the table owns and, when asked to, the values, and touches nothing else.\<close>

theorem hashtable_destroy_frees:
  assumes "table_inv hashfn h L F"
  shows "cs_hashtable_destroy fv h = Some
    (\<lambda>a. if a \<in> set L \<union> set F then None else ents h a,
     concat (rev (map (\<lambda>(k, v). (if fv then [v] else []) @
       (if keyType h = CS_HASH_KEY_ALLOCATED then [k] else [])) (map (kv h) L))) @ freed h)"
proof -
  have core: "table_core hashfn h L F" using assms by (simp add: table_inv_def)
  note c = core [unfolded table_core_def order_list_def]
  let ?h1 = "h\<lparr>ents := (\<lambda>a. if a \<in> set F then None else ents h a),
    freed := concat (rev (map (\<lambda>e. []) F)) @ freed h\<rparr>"
  have f1: "free_entries (\<lambda>_. []) (freeHead h) h = Some ?h1"
    by (rule free_entries_spec) (use c in blast)
  have nil: "concat (rev (map (\<lambda>e. []) F)) = []" by simp
  have keep: "ents ?h1 a = ents h a" if "a \<in> set L" for a using c that by auto
  have "path listNext (ents ?h1) (listHead h) L 0 = path listNext (ents h) (listHead h) L 0"
    by (rule path_cong) (simp only: keep)
  then have "path listNext (ents ?h1) (listHead h) L 0" using c by blast
  note f2 = free_entries_spec [OF this, of "\<lambda>x. (if fv then [he_v x] else []) @
      (if keyType h = CS_HASH_KEY_ALLOCATED then [he_k x] else [])"]
  have ent1: "ent ?h1 a = ent h a" if "a \<in> set L" for a using keep [OF that] by (simp add: ent_def)
  have owned: "map (\<lambda>e. (if fv then [he_v (ent ?h1 e)] else []) @
        (if keyType h = CS_HASH_KEY_ALLOCATED then [he_k (ent ?h1 e)] else [])) L =
      map (\<lambda>(k, v). (if fv then [v] else []) @
        (if keyType h = CS_HASH_KEY_ALLOCATED then [k] else [])) (map (kv h) L)"
    unfolding map_map
    by (rule map_cong [OF refl]) (simp only: ent1 kv_def comp_def prod.case)
  have heap: "(\<lambda>a. if a \<in> set L then None else ents ?h1 a) =
      (\<lambda>a. if a \<in> set L \<union> set F then None else ents h a)"
    by auto
  show ?thesis
    unfolding cs_hashtable_destroy_def f1
    using f2 owned heap nil by simp
qed

text \<open>The client's loop over an iterator.\<close>

fun iterate_from :: "nat \<Rightarrow> cs_hashtable \<Rightarrow> haddr \<Rightarrow> (haddr \<times> haddr) list option" where
  "iterate_from 0 h e = None"
| "iterate_from (Suc fuel) h e =
    (if e = 0 then Some []
     else
      (case (cs_hashtable_iterator_key h e, cs_hashtable_iterator_value h e,
             cs_hashtable_iterator_advance h e) of
         (Some k, Some v, Some (_, e')) \<Rightarrow> map_option (\<lambda>r. (k, v) # r) (iterate_from fuel h e')
       | _ \<Rightarrow> None))"

lemma iterate_path:
  "path listNext (ents h) e L 0 \<Longrightarrow> length L < fuel \<Longrightarrow> iterate_from fuel h e = Some (map (kv h) L)"
proof (induction L arbitrary: e fuel)
  case Nil
  then show ?case by (cases fuel) auto
next
  case (Cons a L)
  then obtain f x where f: "fuel = Suc f" "ents h a = Some x" "path listNext (ents h) (listNext x) L 0"
    "e = a" "a \<noteq> 0" by (cases fuel) auto
  with Cons show ?case
    by (simp add: cs_hashtable_iterator_key_def cs_hashtable_iterator_value_def
        cs_hashtable_iterator_advance_def kv_def ent_def)
qed

text \<open>C34: Iteration visits every pair once, in insertion order, and terminates; removing the
  entry an iterator stands on unlinks exactly that entry and moves the iterator to the
  following one.\<close>

theorem hashtable_iteration:
  assumes "table_inv hashfn h (L1 @ e # L2) F"
  shows "iterate_from (length (L1 @ e # L2) + 1) h (cs_hashtable_iterator h) =
      Some (map (kv h) (L1 @ e # L2)) \<and>
    (\<exists>h2. cs_hashtable_iterator_remove hashfn e h =
        Some (if L2 = [] then 0 else - 1, if L2 = [] then 0 else hd L2, h2) \<and>
      table_inv hashfn h2 (L1 @ L2) (e # F) \<and> map (kv h2) (L1 @ L2) = map (kv h) (L1 @ L2))"
proof
  have core: "table_core hashfn h (L1 @ e # L2) F" using assms by (simp add: table_inv_def)
  have ord: "order_list h (L1 @ e # L2)" using core by (simp add: table_core_def)
  then show "iterate_from (length (L1 @ e # L2) + 1) h (cs_hashtable_iterator h) =
      Some (map (kv h) (L1 @ e # L2))"
    by (intro iterate_path) (simp_all add: order_list_def cs_hashtable_iterator_def)
  note n = order_neighbours [OF ord]
  have adv: "cs_hashtable_iterator_advance h e =
      Some (if L2 = [] then 0 else - 1, if L2 = [] then 0 else hd L2)"
    using n(1,2,4,8) by (cases L2) (auto simp: cs_hashtable_iterator_advance_def)
  let ?hv = "hash_mix hashfn (he_k (ent h e))"
  have hv: "he_h (ent h e) = ?hv" using core by (simp add: table_core_def)
  show "\<exists>h2. cs_hashtable_iterator_remove hashfn e h =
        Some (if L2 = [] then 0 else - 1, if L2 = [] then 0 else hd L2, h2) \<and>
      table_inv hashfn h2 (L1 @ L2) (e # F) \<and> map (kv h2) (L1 @ L2) = map (kv h) (L1 @ L2)"
  proof (rule scan_bucket_cases [OF core, of "\<lambda>a _. a = e" ?hv])
    fix prev
    assume "\<And>a. a \<in> set (L1 @ e # L2) \<Longrightarrow> slot h a = indexFor (tablelength h) ?hv \<Longrightarrow> \<not> a = e"
    from this [of e] hv show ?thesis by (simp add: slot_def)
  next
    fix A a B
    assume s: "scan_bucket (\<lambda>a _. a = e) ?hv h = Some (last (0 # A), a)"
      "path hashNext (ents h) (buckets h ! indexFor (tablelength h) ?hv) (A @ a # B) 0"
      "set (A @ a # B) = {a \<in> set (L1 @ e # L2). slot h a = indexFor (tablelength h) ?hv}"
      and a: "a = e"
    have sl: "slot h e = indexFor (tablelength h) ?hv" using hv by (simp add: slot_def)
    obtain h1 h2 where u: "bypass (last (0 # A)) (indexFor (tablelength h) ?hv) (hashNext (ent h e)) h = Some h1"
      "cs_hashentry_delete e h1 = Some h2" "table_inv hashfn h2 (L1 @ L2) (e # F)"
      "map (kv h2) (L1 @ L2) = map (kv h) (L1 @ L2)"
      by (rule unlink_effect [OF assms sl s(2,3) [unfolded a]]) blast
    have "cs_hashtable_iterator_remove hashfn e h =
        Some (if L2 = [] then 0 else - 1, if L2 = [] then 0 else hd L2, h2)"
      using n(2) by (simp only: cs_hashtable_iterator_remove_def adv option.case prod.case n(1) Let_def
          s(1) a u(1,2) if_False option.map)
    with u(3,4) show ?thesis by blast
  qed
qed

section \<open>Witnesses\<close>

definition demo_hash :: "haddr \<Rightarrow> u64" where
  "demo_hash k = of_nat k"

definition demo_alloc :: allocator where
  "demo_alloc m = Suc (Max (insert 0 (dom m)))"

lemma demo_key_ok: "key_ok demo_hash (=)"
  by (auto simp: key_ok_def demo_hash_def)

lemma demo_alloc_ok: "alloc_ok demo_alloc"
  unfolding alloc_ok_def demo_alloc_def
proof (intro allI impI conjI)
  fix m :: "haddr \<Rightarrow> hash_entry option" assume fin: "finite (dom m)"
  show "m (Suc (Max (insert 0 (dom m)))) = None"
  proof (rule ccontr)
    assume "m (Suc (Max (insert 0 (dom m)))) \<noteq> None"
    then have "Suc (Max (insert 0 (dom m))) \<in> insert 0 (dom m)" by auto
    then have "Suc (Max (insert 0 (dom m))) \<le> Max (insert 0 (dom m))"
      using fin by (intro Max_ge) auto
    then show False by simp
  qed
qed simp

lemma demo_table: "\<exists>h. table_inv demo_hash h [] [] \<and> hash_is demo_hash (=) h [] \<and> 100 < tablelength h"
proof -
  have "\<not> (100 :: u32) > 0x40000000" by simp
  then show ?thesis
    using create_effect [OF demo_key_ok, of 100 True True CS_HASH_KEY_ALLOCATED] by auto
qed

lemma demo_one_entry: "\<exists>h e. table_inv demo_hash h ([] @ e # []) [] \<and> map (kv h) [e] = [(5, 50)]"
proof -
  obtain h where h: "table_inv demo_hash h [] []" using demo_table by blast
  have "can_alloc (Some (demo_alloc (ents h))) h []"
    using demo_alloc_ok h by (simp add: can_alloc_def alloc_ok_def table_inv_def)
  then show ?thesis by (rule insert_effect [OF h, of _ True 5 50]) auto
qed

theorem hashtable_refines_map_witness:
  "\<exists>h h'. hash_is demo_hash (=) h [] \<and>
     run_ops (ht_step demo_hash (=) demo_alloc) [Put True 5 50, Put False 6 60, Get 5, Del 6, Get 6] h =
       Inr ([(0, - 1), (0, - 1), (50, 0), (60, 0), (0, 0)], h')"
proof -
  obtain h where h: "hash_is demo_hash (=) h []" using demo_table by blast
  then show ?thesis
    using hashtable_refines_map [OF demo_alloc_ok h,
        of "[Put True 5 50, Put False 6 60, Get 5, Del 6, Get 6]"]
    by (auto simp: kv_lookup_def kv_delete_def)
qed

theorem hashtable_create_witness:
  "\<exists>h. cs_create_hashtable True True 100 CS_HASH_KEY_ALLOCATED = Some (Some h) \<and>
     hash_is demo_hash (=) h []"
  using hashtable_create [OF demo_key_ok, of 100 True True CS_HASH_KEY_ALLOCATED] by auto

theorem hashtable_destroy_frees_witness:
  "\<exists>h e m. table_inv demo_hash h ([] @ [e]) [] \<and>
     cs_hashtable_destroy True h = Some (m, (if keyType h = CS_HASH_KEY_ALLOCATED then [50, 5] else [50]) @ freed h)"
proof -
  obtain h e where h: "table_inv demo_hash h ([] @ e # []) []" "map (kv h) [e] = [(5, 50)]"
    using demo_one_entry by (elim exE conjE)
  then have "kv h e = (5, 50)" by simp
  then have "\<exists>m. cs_hashtable_destroy True h =
      Some (m, (if keyType h = CS_HASH_KEY_ALLOCATED then [50, 5] else [50]) @ freed h)"
    using hashtable_destroy_frees [OF h(1), of True] by auto
  with h(1) show ?thesis by auto
qed

theorem hashtable_iteration_witness:
  "\<exists>h e h2. table_inv demo_hash h ([] @ [e]) [] \<and>
     iterate_from 2 h (cs_hashtable_iterator h) = Some [(5, 50)] \<and>
     cs_hashtable_iterator_remove demo_hash e h = Some (0, 0, h2)"
proof -
  obtain h e where h: "table_inv demo_hash h ([] @ e # []) []" "map (kv h) [e] = [(5, 50)]"
    using demo_one_entry by (elim exE conjE)
  then have "kv h e = (5, 50)" by simp
  then have "iterate_from 2 h (cs_hashtable_iterator h) = Some [(5, 50)]"
    "\<exists>h2. cs_hashtable_iterator_remove demo_hash e h = Some (0, 0, h2)"
    using hashtable_iteration [OF h(1)] by (auto simp: numeral_2_eq_2)
  with h(1) show ?thesis by auto
qed

end
