(* ===== verification/CsSema.thy ===== *)
theory CsSema
  imports VsPool
begin

text \<open>
  Counting semaphores: Esm/ib/src/cs/cs_sema.c over Esm/ib/include/vs_g.h, the branches the
  Linux build compiles.

  A \<open>Sema_t\<close> holds its magic number and the POSIX semaphore; \<open>None\<close> stands for a semaphore
  that is not initialised, on which the C library's calls are undefined (\<open>BadAccess\<close>).  The
  results of the library calls follow their documentation: \<^verbatim>\<open>sem_post\<close> fails at the largest
  value, \<^verbatim>\<open>sem_wait\<close> waits for a positive value (\<open>Blocked\<close>) and fails when a signal interrupts
  it, \<^verbatim>\<open>sem_trywait\<close> fails at zero.  Whether the creation, the destruction or the reading of a
  value succeeds, whether a signal arrives, and what the other threads do to the value while a
  waiter sleeps are arguments.
\<close>

section \<open>State\<close>

record Sema_t =
  sem_magic :: u32
  osdSema :: "nat option"

text \<open>The magic is defined in vs_g.h; the largest value is the C library's.\<close>

abbreviation (input) SEMAPHORE_MAGIC :: u32 where "SEMAPHORE_MAGIC \<equiv> 0xCB283037"
abbreviation (input) SEM_VALUE_MAX :: nat where "SEM_VALUE_MAX \<equiv> 2147483647"
abbreviation (input) CS_SEMA_WAIT_FOREVER :: int where "CS_SEMA_WAIT_FOREVER \<equiv> - 1"

type_synonym sema_result = "vs_error + Status_t \<times> Sema_t option"

text \<open>The check every operation but the creation starts with.\<close>

definition sema_checked :: "(Sema_t \<Rightarrow> sema_result) \<Rightarrow> Sema_t option \<Rightarrow> sema_result" where
  "sema_checked f handle =
    (case handle of None \<Rightarrow> Inr (VSTATUS_ILLPARM, None)
     | Some h \<Rightarrow>
        if sem_magic h \<noteq> SEMAPHORE_MAGIC then Inr (VSTATUS_NXIO, Some h) else f h)"

section \<open>Operations\<close>

text \<open>\<^verbatim>\<open>sem_init\<close> is called with the value 0, whatever \<open>count\<close> is.\<close>

definition cs_sema_create :: "bool \<Rightarrow> Sema_t option \<Rightarrow> u32 \<Rightarrow> Status_t \<times> Sema_t option" where
  "cs_sema_create init_ok handle count =
    (case handle of None \<Rightarrow> (VSTATUS_ILLPARM, None)
     | Some h \<Rightarrow>
        let h1 = h\<lparr>sem_magic := SEMAPHORE_MAGIC\<rparr> in
        if \<not> init_ok then (VSTATUS_ILLPARM, Some h1)
        else (VSTATUS_OK, Some (h1\<lparr>osdSema := Some 0\<rparr>)))"

definition cs_sema_delete :: "bool \<Rightarrow> Sema_t option \<Rightarrow> sema_result" where
  "cs_sema_delete destroy_ok = sema_checked (\<lambda>h.
     case osdSema h of None \<Rightarrow> Inl BadAccess
     | Some v \<Rightarrow>
        if \<not> destroy_ok then Inr (VSTATUS_ILLPARM, Some h)
        else Inr (VSTATUS_OK, Some (h\<lparr>osdSema := None\<rparr>)))"

definition cs_vsema :: "Sema_t option \<Rightarrow> sema_result" where
  "cs_vsema = sema_checked (\<lambda>h.
     case osdSema h of None \<Rightarrow> Inl BadAccess
     | Some v \<Rightarrow>
        if v = SEM_VALUE_MAX then Inr (VSTATUS_NXIO, Some h)
        else Inr (VSTATUS_OK, Some (h\<lparr>osdSema := Some (v + 1)\<rparr>)))"

definition cs_psema :: "bool \<Rightarrow> Sema_t option \<Rightarrow> sema_result" where
  "cs_psema interrupted = sema_checked (\<lambda>h.
     case osdSema h of None \<Rightarrow> Inl BadAccess
     | Some v \<Rightarrow>
        if interrupted then Inr (VSTATUS_NXIO, Some h)
        else if v = 0 then Inl Blocked
        else Inr (VSTATUS_OK, Some (h\<lparr>osdSema := Some (v - 1)\<rparr>)))"

text \<open>The loop of \<^verbatim>\<open>cs_psema_wait\<close>: one try, then a second of sleep during which the others may
  change the value (\<open>others i\<close>), until a try succeeds or \<open>timeout\<close> tries are made.  The result
  is that of the last try and the value left.\<close>

function sema_try_loop :: "(nat \<Rightarrow> nat \<Rightarrow> nat) \<Rightarrow> int \<Rightarrow> nat \<Rightarrow> nat \<Rightarrow> bool \<times> nat" where
  "sema_try_loop others timeout i v =
    (let got = (v \<noteq> 0); v1 = (if got then v - 1 else v); v2 = others i v1 in
     if int i + 1 < timeout \<and> \<not> got then sema_try_loop others timeout (i + 1) v2 else (got, v2))"
  by pat_completeness auto
termination
  by (relation "measure (\<lambda>(_, timeout, i, _). nat (timeout - int i))") auto

declare sema_try_loop.simps [simp del]

text \<open>The \<^verbatim>\<open>rc\<close> that the loop and the report of the timeout assign is declared inside the
  \<^verbatim>\<open>else\<close> block; the function returns the outer one, which still is \<open>VSTATUS_OK\<close>.\<close>

definition cs_psema_wait ::
  "bool \<Rightarrow> (nat \<Rightarrow> nat \<Rightarrow> nat) \<Rightarrow> Sema_t option \<Rightarrow> int \<Rightarrow> sema_result" where
  "cs_psema_wait interrupted others handle timeout = sema_checked (\<lambda>h.
     if timeout = CS_SEMA_WAIT_FOREVER then cs_psema interrupted (Some h)
     else
      (case osdSema h of None \<Rightarrow> Inl BadAccess
       | Some v \<Rightarrow>
          let rc = VSTATUS_OK;
              (got, v') = sema_try_loop others timeout 0 v;
              inner_rc = (if got then VSTATUS_OK else VSTATUS_NXIO)
          in Inr (rc, Some (h\<lparr>osdSema := Some v'\<rparr>)))) handle"

definition cs_sema_getcount :: "bool \<Rightarrow> Sema_t option \<Rightarrow> vs_error + Status_t \<times> nat option" where
  "cs_sema_getcount read_ok handle =
    (case handle of None \<Rightarrow> Inr (VSTATUS_ILLPARM, None)
     | Some h \<Rightarrow>
        if sem_magic h \<noteq> SEMAPHORE_MAGIC then Inr (VSTATUS_NXIO, None)
        else
         (case osdSema h of None \<Rightarrow> Inl BadAccess
          | Some v \<Rightarrow> if read_ok then Inr (VSTATUS_OK, Some v) else Inr (VSTATUS_NXIO, None)))"

section \<open>Effects\<close>

definition sema_live :: "nat \<Rightarrow> Sema_t \<Rightarrow> bool" where
  "sema_live v h \<longleftrightarrow> sem_magic h = SEMAPHORE_MAGIC \<and> osdSema h = Some v"

lemma sema_checked_live [simp]: "sema_live v h \<Longrightarrow> sema_checked f (Some h) = f h"
  by (simp add: sema_checked_def sema_live_def)

lemma sema_created: "\<exists>h'. cs_sema_create True (Some h) count = (VSTATUS_OK, Some h') \<and> sema_live 0 h'"
  by (simp add: cs_sema_create_def sema_live_def)

lemma vsema_live:
  "sema_live v h \<Longrightarrow> v < SEM_VALUE_MAX \<Longrightarrow>
     \<exists>h'. cs_vsema (Some h) = Inr (VSTATUS_OK, Some h') \<and> sema_live (Suc v) h'"
  by (auto simp: cs_vsema_def sema_checked_def sema_live_def)

lemma psema_live:
  "sema_live (Suc v) h \<Longrightarrow>
     \<exists>h'. cs_psema False (Some h) = Inr (VSTATUS_OK, Some h') \<and> sema_live v h'"
  by (auto simp: cs_psema_def sema_checked_def sema_live_def)

lemma psema_empty: "sema_live 0 h \<Longrightarrow> cs_psema False (Some h) = Inl Blocked"
  by (auto simp: cs_psema_def sema_checked_def sema_live_def)

text \<open>A destroyed semaphore keeps its magic, so the later calls do not notice.\<close>

lemma sema_deleted_unnoticed:
  assumes "sema_live v h" "cs_sema_delete True (Some h) = Inr (rc, Some h')"
  shows "cs_vsema (Some h') = Inl BadAccess"
  using assms by (auto simp: cs_sema_delete_def cs_vsema_def sema_checked_def sema_live_def)

lemma try_loop_starved: "sema_try_loop (\<lambda>_ v. v) timeout i 0 = (False, 0)"
proof (induction "nat (timeout - int i)" arbitrary: i rule: less_induct)
  case less
  then show ?case by (subst sema_try_loop.simps) simp
qed

text \<open>Waiting in vain is reported as success.\<close>

lemma psema_wait_hides_timeout:
  assumes "sema_live 0 h" "timeout \<noteq> CS_SEMA_WAIT_FOREVER"
  shows "\<exists>h'. cs_psema_wait intr (\<lambda>_ v. v) (Some h) timeout = Inr (VSTATUS_OK, Some h') \<and>
     sema_live 0 h'"
  using assms
  by (auto simp: cs_psema_wait_def sema_checked_def sema_live_def try_loop_starved)

end
