(* ===== verification/CsContext.thy ===== *)
theory CsContext
  imports CsSema CsQueue Chains
begin

text \<open>
  The pool of request contexts: Esm/ib/src/cs/cs_context.c over Esm/ib/include/cs_context.h.

  A context entry holds a request packet that was sent and waits for its response.  The entries
  live in one block of memory; each is on the free list, on the hash list its destination
  selects, or in the hands of a caller.  The lists are doubly linked through the entries, and an
  access through a pointer to something else is \<open>BadAccess\<close>.  A loop over a list that does not
  end is \<open>Blocked\<close>, a division by zero, a failed assertion and a
  fatal error that exits are \<open>FatalAbort\<close>.

  What the file calls outside the modelled code comes as an environment \<open>cntxt_env\<close>: the clock
  and the random numbers, one reading per call; the outcome of sending a packet, which may depend
  on how many were sent before; and the callers' callbacks, functions on the whole state, by
  function pointer.  Sending only reads the packet.  Log messages and the debug-only assertions
  are not modelled.
\<close>

section \<open>State\<close>

text \<open>A packet: the fields the file looks at; the others, all copied along, are \<open>mai_rest\<close>.\<close>

record Mai_t =
  mai_type :: u16
  datasize :: u16
  slid :: u32
  dlid :: u32
  mclass :: u8
  mad_tid :: u64
  mai_rest :: "u8 list"

abbreviation (input) MAI_TYPE_ERROR :: u16 where "MAI_TYPE_ERROR \<equiv> 8"
abbreviation (input) MAD_CV_SUBN_LR :: u8 where "MAD_CV_SUBN_LR \<equiv> 0x01"
abbreviation (input) MAD_CV_SUBN_DR :: u8 where "MAD_CV_SUBN_DR \<equiv> 0x81"
abbreviation (input) MAD_CV_SUBN_ADM :: u8 where "MAD_CV_SUBN_ADM \<equiv> 0x03"
abbreviation (input) MAD_CV_PERF :: u8 where "MAD_CV_PERF \<equiv> 0x04"
abbreviation (input) STL_GS_DATASIZE :: u32 where "STL_GS_DATASIZE \<equiv> 2024"
abbreviation (input) CNTXT_HASH_TABLE_DEPTH :: nat where "CNTXT_HASH_TABLE_DEPTH \<equiv> 79"

text \<open>The OpenIB stack, for which the product is built, keeps the lower half of the
  transaction id only.\<close>

definition MAI_MASK_TID :: "u64 \<Rightarrow> u64" where
  "MAI_MASK_TID t = t AND 0xFFFFFFFF"

record cntxt_entry_t =
  tstamp :: u64
  e_tid :: u64
  lid :: u32
  index :: u16
  hashed :: u8
  alloced :: u8
  retries :: u16
  RespTimeout :: u64
  cumulative_timeout :: u64
  e_totalTimeout :: u64
  senderWantsResponse :: u8
  sendFailed :: u8
  releasing :: u16
  e_mad :: Mai_t
  e_callback :: addr
  callback_data :: addr
  next_e :: addr
  prev_e :: addr

text \<open>\<open>sizeof (cntxt_entry_t)\<close> on the 64-bit targets.\<close>

abbreviation (input) ENTRY_SIZE :: nat where "ENTRY_SIZE \<equiv> 2216"

definition zero_mai :: Mai_t where
  "zero_mai = \<lparr>mai_type = 0, datasize = 0, slid = 0, dlid = 0, mclass = 0, mad_tid = 0,
     mai_rest = []\<rparr>"

definition zero_entry :: cntxt_entry_t where
  "zero_entry = \<lparr>tstamp = 0, e_tid = 0, lid = 0, index = 0, hashed = 0, alloced = 0, retries = 0,
     RespTimeout = 0, cumulative_timeout = 0, e_totalTimeout = 0, senderWantsResponse = 0,
     sendFailed = 0, releasing = 0, e_mad = zero_mai, e_callback = 0, callback_data = 0,
     next_e = 0, prev_e = 0\<rparr>"

lemma zero_entry_fields [simp]:
  "tstamp zero_entry = 0" "e_tid zero_entry = 0" "lid zero_entry = 0"
  "index zero_entry = 0" "hashed zero_entry = 0" "alloced zero_entry = 0"
  "retries zero_entry = 0" "RespTimeout zero_entry = 0" "cumulative_timeout zero_entry = 0"
  "e_totalTimeout zero_entry = 0" "senderWantsResponse zero_entry = 0" "sendFailed zero_entry = 0"
  "releasing zero_entry = 0" "e_callback zero_entry = 0" "callback_data zero_entry = 0"
  "next_e zero_entry = 0" "prev_e zero_entry = 0" "e_mad zero_entry = zero_mai"
  by (simp_all add: zero_entry_def)

record generic_cntxt_t =
  hashTableDepth :: int
  poolSize :: int
  maxRetries :: int
  defaultTimeout :: u64
  totalTimeout :: u64
  MinRespTimeout :: u64
  errorOnSendFail :: int
  timeoutAdder :: u64
  numAlloc :: int
  numFree :: int
  cx_lock :: Lock_t
  resp_queue :: addr
  numWaiters :: int
  freeContextWaitSema :: Sema_t
  free_list :: addr
  hash_lists :: "addr list"
  cx_pool :: addr
  globalPool :: addr

definition zero_cntxt :: generic_cntxt_t where
  "zero_cntxt = \<lparr>hashTableDepth = 0, poolSize = 0, maxRetries = 0, defaultTimeout = 0,
     totalTimeout = 0, MinRespTimeout = 0, errorOnSendFail = 0, timeoutAdder = 0, numAlloc = 0,
     numFree = 0, cx_lock = zero_lock, resp_queue = 0, numWaiters = 0,
     freeContextWaitSema = \<lparr>sem_magic = 0, osdSema = None\<rparr>, free_list = 0,
     hash_lists = replicate CNTXT_HASH_TABLE_DEPTH 0, cx_pool = 0, globalPool = 0\<rparr>"

text \<open>The counters of the subnet and the performance manager the file increments; each has a
  value since the last sweep and a total.\<close>

datatype counter =
    smCounterPacketRetransmits
  | smCounterSmPacketTransmits
  | smCounterSmTxRetriesExhausted
  | pmCounterPacketRetransmits
  | pmCounterPmPacketTransmits
  | pmCounterPmTxRetriesExhausted

type_synonym entry_heap = "addr \<Rightarrow> cntxt_entry_t option"

text \<open>\<open>sent\<close> records the packets handed to the lower layer, newest first, with the data length
  of the calls that pass one and the response timeout; \<open>ticks\<close> and \<open>draws\<close> count the readings
  of the clock and the random numbers used.\<close>

record cntxt_sys =
  cntx :: generic_cntxt_t
  entries :: entry_heap
  queues :: q_store
  sent :: "(Mai_t \<times> u32 option \<times> u64) list"
  ticks :: nat
  draws :: nat
  counters :: "counter \<Rightarrow> u32 \<times> u32"

record cntxt_env =
  clock_gettime :: "nat \<Rightarrow> u64 \<times> u64"
  rand_at :: "nat \<Rightarrow> 31 word"
  send_result :: "nat \<Rightarrow> Mai_t \<Rightarrow> u32 option \<Rightarrow> u64 \<Rightarrow> Status_t"
  run_callback :: "addr \<Rightarrow> addr \<Rightarrow> Status_t \<Rightarrow> addr \<Rightarrow> Mai_t option \<Rightarrow> cntxt_sys \<Rightarrow>
     vs_error + cntxt_sys"

section \<open>Memory accesses\<close>

definition load :: "addr \<Rightarrow> (addr \<Rightarrow> 'v option) \<Rightarrow> vs_error + 'v" where
  "load p m = (case m p of None \<Rightarrow> Inl BadAccess | Some x \<Rightarrow> Inr x)"

definition store :: "addr \<Rightarrow> ('v \<Rightarrow> 'v) \<Rightarrow> (addr \<Rightarrow> 'v option) \<Rightarrow>
    vs_error + (addr \<Rightarrow> 'v option)" where
  "store p f m = (case m p of None \<Rightarrow> Inl BadAccess | Some x \<Rightarrow> Inr (m(p \<mapsto> f x)))"

lemma load_at_Some [vs_simps]: "m p = Some x \<Longrightarrow> load p m = Inr x"
  by (simp add: load_def)

lemma store_at_Some [vs_simps]: "m p = Some x \<Longrightarrow> store p f m = Inr (m(p \<mapsto> f x))"
  by (simp add: store_def)

definition load_entry :: "addr \<Rightarrow> cntxt_sys \<Rightarrow> vs_error + cntxt_entry_t" where
  "load_entry e w = load e (entries w)"

definition store_entry ::
  "addr \<Rightarrow> (cntxt_entry_t \<Rightarrow> cntxt_entry_t) \<Rightarrow> cntxt_sys \<Rightarrow> vs_error + cntxt_sys" where
  "store_entry e f w = and_then (store e f (entries w)) (\<lambda>m. Inr (w\<lparr>entries := m\<rparr>))"

definition set_cntx :: "(generic_cntxt_t \<Rightarrow> generic_cntxt_t) \<Rightarrow> cntxt_sys \<Rightarrow> cntxt_sys" where
  "set_cntx f w = w\<lparr>cntx := f (cntx w)\<rparr>"

definition increment :: "counter \<Rightarrow> cntxt_sys \<Rightarrow> cntxt_sys" where
  "increment c w = w\<lparr>counters := (counters w)(c := (fst (counters w c) + 1, snd (counters w c) + 1))\<rparr>"

text \<open>The monotonic clock gives seconds and nanoseconds; \<^verbatim>\<open>vs_time_get\<close> rounds to microseconds.\<close>

definition time_at :: "cntxt_env \<Rightarrow> nat \<Rightarrow> u64" where
  "time_at E k =
    (case clock_gettime E k of (tv_sec, tv_nsec) \<Rightarrow>
       let usecs = tv_sec * 1000000 + tv_nsec div 1000 in
       if tv_nsec mod 1000 > 500 then usecs + 1 else usecs)"

definition vs_time_get :: "cntxt_env \<Rightarrow> cntxt_sys \<Rightarrow> u64 \<times> cntxt_sys" where
  "vs_time_get E w = (time_at E (ticks w), w\<lparr>ticks := ticks w + 1\<rparr>)"

section \<open>Lists\<close>

text \<open>The head pointer \<open>lst\<close> is passed by reference: the operations return its new value.\<close>

definition cntxt_delete_entry ::
  "addr \<Rightarrow> addr \<Rightarrow> entry_heap \<Rightarrow> vs_error + addr \<times> entry_heap" where
  "cntxt_delete_entry lst e m =
    and_then
     (if lst = e then and_then (load e m) (\<lambda>x. Inr (next_e x, m))
      else
       and_then (load e m) (\<lambda>x.
       and_then (if prev_e x \<noteq> 0 then store (prev_e x) (\<lambda>p. p\<lparr>next_e := next_e x\<rparr>) m
                 else Inr m) (\<lambda>m1.
       and_then (load e m1) (\<lambda>x1.
       and_then (if next_e x1 \<noteq> 0 then store (next_e x1) (\<lambda>n. n\<lparr>prev_e := prev_e x1\<rparr>) m1
                 else Inr m1) (\<lambda>m2. Inr (lst, m2))))))
     (\<lambda>(lst', m3). and_then (store e (\<lambda>x. x\<lparr>next_e := 0, prev_e := 0\<rparr>) m3) (\<lambda>m4. Inr (lst', m4)))"

definition cntxt_insert_head ::
  "addr \<Rightarrow> addr \<Rightarrow> entry_heap \<Rightarrow> vs_error + addr \<times> entry_heap" where
  "cntxt_insert_head lst e m =
    and_then (if lst \<noteq> 0 then store lst (\<lambda>h. h\<lparr>prev_e := e\<rparr>) m else Inr m) (\<lambda>m1.
    and_then (store e (\<lambda>x. x\<lparr>next_e := lst, prev_e := 0\<rparr>) m1) (\<lambda>m2. Inr (e, m2)))"

text \<open>The two kinds of head pointers: the free list and an element of the hash array.\<close>

definition on_free_list ::
  "(addr \<Rightarrow> entry_heap \<Rightarrow> vs_error + addr \<times> entry_heap) \<Rightarrow> cntxt_sys \<Rightarrow> vs_error + cntxt_sys" where
  "on_free_list f w =
    and_then (f (free_list (cntx w)) (entries w)) (\<lambda>(l, m).
      Inr (w\<lparr>entries := m, cntx := (cntx w)\<lparr>free_list := l\<rparr>\<rparr>))"

definition on_hash_list ::
  "nat \<Rightarrow> (addr \<Rightarrow> entry_heap \<Rightarrow> vs_error + addr \<times> entry_heap) \<Rightarrow> cntxt_sys \<Rightarrow>
     vs_error + cntxt_sys" where
  "on_hash_list i f w =
    (if i < length (hash_lists (cntx w))
     then and_then (f (hash_lists (cntx w) ! i) (entries w)) (\<lambda>(l, m).
        Inr (w\<lparr>entries := m, cntx := (cntx w)\<lparr>hash_lists := (hash_lists (cntx w))[i := l]\<rparr>\<rparr>))
     else Inl BadAccess)"

definition bucket_of :: "int \<Rightarrow> u32 \<Rightarrow> nat" where
  "bucket_of depth l = (if 1 < depth then unat (l mod word_of_int depth) else 0)"

end
