(* ===== verification/CsContextOps.thy ===== *)
theory CsContextOps
  imports CsContext
begin

text \<open>
  The operations of cs_context.c, in the order of the file.  Each returns the state it leaves
  behind, together with its result where it has one.  The operations whose names end in
  \<open>_nolock\<close> run with the table's lock held; the others take it, and \<open>self\<close> is the calling
  thread.
\<close>

definition on_cntxt_lock ::
  "(Lock_t option \<Rightarrow> lock_result) \<Rightarrow> cntxt_sys \<Rightarrow> vs_error + Status_t \<times> cntxt_sys" where
  "on_cntxt_lock f w =
    (case f (Some (cx_lock (cntx w))) of None \<Rightarrow> Inl Blocked
     | Some (rc, h) \<Rightarrow> Inr (rc, set_cntx (\<lambda>c. c\<lparr>cx_lock := the h\<rparr>) w))"

definition cs_cntxt_lock :: "tid \<Rightarrow> cntxt_sys \<Rightarrow> vs_error + cntxt_sys" where
  "cs_cntxt_lock self w = map_sum id snd (on_cntxt_lock (vs_lock self) w)"

definition cs_cntxt_unlock :: "tid \<Rightarrow> cntxt_sys \<Rightarrow> vs_error + cntxt_sys" where
  "cs_cntxt_unlock self w = map_sum id snd (on_cntxt_lock (vs_unlock self) w)"

text \<open>The bracket of the locking operations: a body that runs between lock and unlock, and what
  the operation returns when the lock cannot be taken.\<close>

definition with_lock ::
  "tid \<Rightarrow> (Status_t \<Rightarrow> 'r) \<Rightarrow> (cntxt_sys \<Rightarrow> vs_error + 'r \<times> cntxt_sys) \<Rightarrow> cntxt_sys \<Rightarrow>
     vs_error + 'r \<times> cntxt_sys" where
  "with_lock self failed body w =
    and_then (on_cntxt_lock (vs_lock self) w) (\<lambda>(status, w1).
      if status \<noteq> VSTATUS_OK then Inr (failed status, w1)
      else
       and_then (body w1) (\<lambda>(r, w2).
       and_then (on_cntxt_lock (vs_unlock self) w2) (\<lambda>(_, w3). Inr (r, w3))))"

section \<open>Reserving and retiring entries\<close>

definition cntxt_reserve :: "cntxt_env \<Rightarrow> addr \<Rightarrow> cntxt_sys \<Rightarrow> vs_error + cntxt_sys" where
  "cntxt_reserve E e w =
    and_then (store_entry e (\<lambda>x. x\<lparr>lid := dlid (e_mad x), e_tid := mad_tid (e_mad x),
                RespTimeout := defaultTimeout (cntx w)\<rparr>) w) (\<lambda>w1.
    and_then (load_entry e w1) (\<lambda>x.
     let bucket = bucket_of (hashTableDepth (cntx w1)) (lid x);
         (now, w2) = vs_time_get E w1 in
     and_then (store_entry e (\<lambda>x. x\<lparr>hashed := 1, tstamp := now\<rparr>) w2) (\<lambda>w3.
     on_hash_list bucket (\<lambda>l. cntxt_insert_head l e) w3)))"

definition cntxt_unhash :: "addr \<Rightarrow> cntxt_sys \<Rightarrow> vs_error + cntxt_sys" where
  "cntxt_unhash e w =
    and_then (load_entry e w) (\<lambda>x.
    and_then
     (if hashed x \<noteq> 0
      then
       let bucket = bucket_of (hashTableDepth (cntx w)) (lid x) in
       and_then (store_entry e (\<lambda>x. x\<lparr>hashed := 0\<rparr>) w) (\<lambda>w1.
       on_hash_list bucket (\<lambda>l. cntxt_delete_entry l e) w1)
      else Inr w)
     (store_entry e (\<lambda>x. x\<lparr>prev_e := 0, next_e := 0\<rparr>)))"

definition cs_cntxt_retire_nolock :: "addr \<Rightarrow> cntxt_sys \<Rightarrow> vs_error + cntxt_sys" where
  "cs_cntxt_retire_nolock e w =
    and_then (cntxt_unhash e w) (\<lambda>w1.
    and_then (load_entry e w1) (\<lambda>x.
    and_then (store_entry e (\<lambda>_. zero_entry\<lparr>index := index x\<rparr>) w1) (\<lambda>w2.
    and_then (on_free_list (\<lambda>l. cntxt_insert_head l e) w2) (\<lambda>w3.
     let w4 = set_cntx (\<lambda>c. c\<lparr>numFree := numFree c + 1, numAlloc := numAlloc c - 1\<rparr>) w3 in
     if numWaiters (cntx w4) \<noteq> 0
     then
      let w5 = set_cntx (\<lambda>c. c\<lparr>numWaiters := numWaiters c - 1\<rparr>) w4 in
      and_then (cs_vsema (Some (freeContextWaitSema (cntx w5)))) (\<lambda>(_, h).
        Inr (set_cntx (\<lambda>c. c\<lparr>freeContextWaitSema := the h\<rparr>) w5))
     else Inr w4))))"

definition cs_cntxt_retire :: "tid \<Rightarrow> addr \<Rightarrow> cntxt_sys \<Rightarrow> vs_error + unit \<times> cntxt_sys" where
  "cs_cntxt_retire self e =
    with_lock self (\<lambda>_. ()) (\<lambda>w. map_sum id (Pair ()) (cs_cntxt_retire_nolock e w))"

text \<open>The name is that of the definition; the header declares \<^verbatim>\<open>cs_cntxt_reuse_nolock\<close>.\<close>

definition cs_entxt_reuse_nolock ::
  "cntxt_env \<Rightarrow> addr \<Rightarrow> Mai_t option \<Rightarrow> cntxt_sys \<Rightarrow> vs_error + cntxt_sys" where
  "cs_entxt_reuse_nolock E e mad w =
    and_then (load_entry e w) (\<lambda>x.
    and_then (store_entry e (\<lambda>_. zero_entry\<lparr>index := index x, alloced := 1\<rparr>) w) (\<lambda>w1.
     (case mad of None \<Rightarrow> Inr w1
      | Some m \<Rightarrow> and_then (store_entry e (\<lambda>x. x\<lparr>e_mad := m\<rparr>) w1) (cntxt_reserve E e))))"

section \<open>Finding and releasing an entry\<close>

definition matches :: "Mai_t \<Rightarrow> cntxt_entry_t \<Rightarrow> bool" where
  "matches mad x \<longleftrightarrow> lid x = slid mad \<and> MAI_MASK_TID (e_tid x) = MAI_MASK_TID (mad_tid mad)"

partial_function (option) find_chain ::
  "Mai_t \<Rightarrow> addr \<Rightarrow> entry_heap \<Rightarrow> (vs_error + addr) option" where
  "find_chain mad p m =
    (if p = 0 then Some (Inr 0)
     else case m p of None \<Rightarrow> Some (Inl BadAccess)
      | Some x \<Rightarrow> if matches mad x then Some (Inr p) else find_chain mad (next_e x) m)"

definition cntxt_find :: "Mai_t \<Rightarrow> cntxt_sys \<Rightarrow> vs_error + addr" where
  "cntxt_find mad w =
    (let bucket = bucket_of (hashTableDepth (cntx w)) (slid mad) in
     if bucket < length (hash_lists (cntx w))
     then (case find_chain mad (hash_lists (cntx w) ! bucket) (entries w) of
             None \<Rightarrow> Inl Blocked | Some r \<Rightarrow> r)
     else Inl BadAccess)"

definition cntxt_release ::
  "cntxt_env \<Rightarrow> tid \<Rightarrow> addr \<Rightarrow> Status_t \<Rightarrow> Mai_t option \<Rightarrow> cntxt_sys \<Rightarrow> vs_error + cntxt_sys" where
  "cntxt_release E self e s mad w =
    and_then (cntxt_unhash e w) (\<lambda>w1.
    and_then (store_entry e (\<lambda>x. x\<lparr>releasing := 1\<rparr>) w1) (\<lambda>w2.
    and_then (load_entry e w2) (\<lambda>x.
     if senderWantsResponse x \<noteq> 0 \<and> resp_queue (cntx w2) \<noteq> 0
     then
      if e_callback x \<noteq> 0 then Inl FatalAbort
      else
       and_then (store_entry e (\<lambda>x. x\<lparr>e_mad := (case mad of Some m \<Rightarrow> m
                   | None \<Rightarrow> (e_mad x)\<lparr>mai_type := MAI_TYPE_ERROR\<rparr>)\<rparr>) w2) (\<lambda>w3.
       and_then (cs_queue_Enqueue self e (resp_queue (cntx w3)) (queues w3)) (\<lambda>(status, qs).
        let w4 = w3\<lparr>queues := qs\<rparr> in
        if status \<noteq> VSTATUS_OK then cs_cntxt_retire_nolock e w4 else Inr w4))
     else
      and_then (if e_callback x \<noteq> 0
                then run_callback E (e_callback x) e s (callback_data x) mad w2
                else Inr w2) (\<lambda>w3.
      and_then (load_entry e w3) (\<lambda>y.
        if releasing y \<noteq> 0 then cs_cntxt_retire_nolock e w3 else Inr w3)))))"

section \<open>Sending\<close>

definition count_send :: "cntxt_entry_t \<Rightarrow> cntxt_sys \<Rightarrow> cntxt_sys" where
  "count_send x w =
    (if mclass (e_mad x) = MAD_CV_SUBN_LR \<or> mclass (e_mad x) = MAD_CV_SUBN_DR
     then increment smCounterSmPacketTransmits
           (if retries x \<noteq> 0 then increment smCounterPacketRetransmits w else w)
     else if mclass (e_mad x) = MAD_CV_PERF
     then increment pmCounterPmPacketTransmits
           (if retries x \<noteq> 0 then increment pmCounterPacketRetransmits w else w)
     else w)"

text \<open>\<^verbatim>\<open>mai_send_timeout\<close> and \<^verbatim>\<open>mai_send_stl_timeout\<close>: the packet leaves, the lower layer says
  how it went.\<close>

definition mai_send ::
  "cntxt_env \<Rightarrow> Mai_t \<Rightarrow> u32 option \<Rightarrow> u64 \<Rightarrow> cntxt_sys \<Rightarrow> Status_t \<times> cntxt_sys" where
  "mai_send E mad datalen timeout w =
    (send_result E (length (sent w)) mad datalen timeout, w\<lparr>sent := (mad, datalen, timeout) # sent w\<rparr>)"

text \<open>The data length that is passed for the classes with variable packets.\<close>

definition datalen :: "Mai_t \<Rightarrow> u32 option" where
  "datalen mad =
    (if mclass mad = MAD_CV_PERF \<or> mclass mad = MAD_CV_SUBN_ADM
     then Some (min (scast (datasize mad)) STL_GS_DATASIZE) else None)"

text \<open>The part of \<^verbatim>\<open>cs_cntxt_send_mad_nolock\<close> that follows once the entry is hashed.\<close>

definition transmit :: "cntxt_env \<Rightarrow> addr \<Rightarrow> cntxt_sys \<Rightarrow> vs_error + Status_t \<times> cntxt_sys" where
  "transmit E e w1 =
    and_then (load_entry e w1) (\<lambda>x1.
    and_then (store_entry e (\<lambda>x. x\<lparr>retries := retries x + 1\<rparr>) (count_send x1 w1)) (\<lambda>w2.
    and_then (load_entry e w2) (\<lambda>x.
     let (status, w3) = mai_send E (e_mad x) (datalen (e_mad x)) (RespTimeout x) w2 in
     if status \<noteq> VSTATUS_OK
     then and_then (store_entry e (\<lambda>x. x\<lparr>sendFailed := 1\<rparr>) w3) (\<lambda>w4. Inr (status, w4))
     else Inr (status, w3))))"

definition cs_cntxt_send_mad_nolock ::
  "cntxt_env \<Rightarrow> addr \<Rightarrow> cntxt_sys \<Rightarrow> vs_error + Status_t \<times> cntxt_sys" where
  "cs_cntxt_send_mad_nolock E e w =
    and_then (load_entry e w) (\<lambda>x.
    and_then (if hashed x = 0 then cntxt_reserve E e w
              else store_entry e (\<lambda>x. x\<lparr>sendFailed := 0\<rparr>) w)
     (transmit E e))"

definition cs_cntxt_get_global_pool :: "cntxt_sys \<Rightarrow> addr" where
  "cs_cntxt_get_global_pool w = globalPool (cntx w)"

section \<open>Creation\<close>

definition entry_ptr :: "addr \<Rightarrow> nat \<Rightarrow> addr" where
  "entry_ptr p i = p + i * ENTRY_SIZE"

text \<open>The cleared block seen as an array: as many entries as fit into the allocated bytes.\<close>

definition entry_array :: "addr \<Rightarrow> nat \<Rightarrow> entry_heap" where
  "entry_array p bytes a =
    (if p \<le> a \<and> (a - p) mod ENTRY_SIZE = 0 \<and> a - p + ENTRY_SIZE \<le> bytes then Some zero_entry
     else None)"

fun init_free_list ::
  "addr \<Rightarrow> nat \<Rightarrow> nat \<Rightarrow> addr \<times> entry_heap \<Rightarrow> vs_error + addr \<times> entry_heap" where
  "init_free_list p i 0 lm = Inr lm"
| "init_free_list p i (Suc n) (l, m) =
    and_then (store (entry_ptr p i) (\<lambda>x. x\<lparr>index := of_nat (i + 1)\<rparr>) m) (\<lambda>m1.
    and_then (cntxt_insert_head l (entry_ptr p i) m1) (init_free_list p (i + 1) n))"

text \<open>\<open>malloc\<close> is the result of the allocation, \<open>lock_ok\<close> and \<open>sema_ok\<close> those of the library's
  initialisations; a semaphore that cannot be created ends the process.  Clearing more bytes than
  the block has is \<open>BadAccess\<close>.  Giving the block back takes the entries away.\<close>

definition free_entry_block ::
  "tid \<Rightarrow> addr \<Rightarrow> addr \<Rightarrow> cntxt_sys \<Rightarrow> vs_error + Status_t \<times> cntxt_sys" where
  "free_entry_block self pool p w =
    and_then (vs_pool_free self pool p (q_mem (queues w))) (\<lambda>(rc, s).
      Inr (rc, w\<lparr>queues := (queues w)\<lparr>q_mem := s\<rparr>,
                 entries := (if rc = VSTATUS_OK then (\<lambda>_. None) else entries w)\<rparr>))"

definition cs_cntxt_instance_init ::
  "tid \<Rightarrow> addr option \<Rightarrow> bool \<Rightarrow> bool \<Rightarrow> addr \<Rightarrow> u64 \<Rightarrow> cntxt_sys \<Rightarrow>
     vs_error + Status_t \<times> cntxt_sys" where
  "cs_cntxt_instance_init self malloc lock_ok sema_ok pool timeout w =
    and_then
     (if resp_queue (cntx w) \<noteq> 0
      then and_then (load (resp_queue (cntx w)) (q_rec (queues w)))
             (\<lambda>q. Inr (Capacity q < poolSize (cntx w)))
      else Inr False)
     (\<lambda>too_small.
      if too_small then Inr (VSTATUS_ILLPARM, w)
      else
       let poollen = ucast (of_nat ENTRY_SIZE * word_of_int (poolSize (cntx w)) :: u64) :: u32 in
       and_then (vs_pool_alloc self malloc pool (ucast poollen) False (q_mem (queues w)))
        (\<lambda>(status, loc, s).
         let w1 = w\<lparr>queues := (queues w)\<lparr>q_mem := s\<rparr>\<rparr> in
         if status \<noteq> VSTATUS_OK then Inr (status, w1)
         else
          let p = the loc;
              c = (cntx w1)\<lparr>cx_pool := p, globalPool := pool, defaultTimeout := timeout,
                    numAlloc := 0, numFree := poolSize (cntx w1), free_list := 0\<rparr> in
          if 4 * length (words s p) < unat poollen then Inl BadAccess
          else
          and_then (init_free_list p 0 (nat (poolSize c)) (0, entry_array p (unat poollen)))
           (\<lambda>(l, m).
            (case vs_lock_init lock_ok self None (Some (cx_lock c)) VLOCK_FREE VLOCK_THREAD of
               (status, h) \<Rightarrow>
               let w2 = w1\<lparr>entries := m, cntx := c\<lparr>free_list := l, cx_lock := the h\<rparr>\<rparr> in
               and_then (if status \<noteq> VSTATUS_OK then map_sum id snd (free_entry_block self pool p w2)
                         else Inr w2)
                (\<lambda>w3.
                 (case cs_sema_create sema_ok (Some (freeContextWaitSema (cntx w3))) 0 of
                    (status, h) \<Rightarrow>
                    if status \<noteq> VSTATUS_OK then Inl FatalAbort
                    else
                    Inr (status, set_cntx (\<lambda>c. c\<lparr>freeContextWaitSema := the h\<rparr>) w3)))))))"

definition cs_cntxt_send_mad ::
  "cntxt_env \<Rightarrow> tid \<Rightarrow> addr \<Rightarrow> cntxt_sys \<Rightarrow> vs_error + Status_t \<times> cntxt_sys" where
  "cs_cntxt_send_mad E self e = with_lock self id (cs_cntxt_send_mad_nolock E e)"

section \<open>Timeouts\<close>

text \<open>\<^verbatim>\<open>GET_RANDOM (HIGH, LOW)\<close> takes the remainder modulo \<open>HIGH - LOW\<close>, which may be zero.\<close>

definition GET_RANDOM :: "cntxt_env \<Rightarrow> u64 \<Rightarrow> u64 \<Rightarrow> cntxt_sys \<Rightarrow> vs_error + u64 \<times> cntxt_sys" where
  "GET_RANDOM E high low w =
    (if high - low = 0 then Inl FatalAbort
     else Inr (ucast (rand_at E (draws w)) mod (high - low) + low, w\<lparr>draws := draws w + 1\<rparr>))"

text \<open>The timeout of the next attempt when the retries are stepped.\<close>

definition stepped_timeout ::
  "cntxt_env \<Rightarrow> cntxt_entry_t \<Rightarrow> cntxt_sys \<Rightarrow> vs_error + u64 \<times> cntxt_sys" where
  "stepped_timeout E x w =
    (let mrt = MinRespTimeout (cntx w);
         t = (ucast (retries x) + 1) * mrt in
     and_then (GET_RANDOM E (t + t div 5) (t - t div 5) w) (\<lambda>(timeout, w1).
      Inr (if cumulative_timeout x < e_totalTimeout x \<and>
              cumulative_timeout x + timeout > e_totalTimeout x
           then
            let left = e_totalTimeout x - cumulative_timeout x in
            if left < mrt then mrt else left
           else timeout, w1)))"

definition count_exhausted :: "cntxt_entry_t \<Rightarrow> cntxt_sys \<Rightarrow> cntxt_sys" where
  "count_exhausted x w =
    (if mclass (e_mad x) = MAD_CV_SUBN_LR \<or> mclass (e_mad x) = MAD_CV_SUBN_DR
     then increment smCounterSmTxRetriesExhausted w
     else if mclass (e_mad x) = MAD_CV_PERF then increment pmCounterPmTxRetriesExhausted w
     else w)"

definition cs_cntxt_timeout_entry ::
  "cntxt_env \<Rightarrow> addr \<Rightarrow> u64 \<Rightarrow> cntxt_sys \<Rightarrow> vs_error + Status_t \<times> cntxt_sys" where
  "cs_cntxt_timeout_entry E e timenow w =
    and_then (store_entry e (\<lambda>x. x\<lparr>tstamp := timenow\<rparr>) w) (\<lambda>w1.
    and_then
     (if MinRespTimeout (cntx w1) \<noteq> 0
      then
       and_then (store_entry e
          (\<lambda>x. x\<lparr>cumulative_timeout := cumulative_timeout x + RespTimeout x\<rparr>) w1) (\<lambda>w2.
       and_then (load_entry e w2) (\<lambda>x.
       and_then (stepped_timeout E x w2) (\<lambda>(timeout, w3).
        store_entry e (\<lambda>x. x\<lparr>RespTimeout := timeout\<rparr>) w3)))
      else Inr w1) (\<lambda>w4.
    and_then (load_entry e w4) (\<lambda>x.
     if MinRespTimeout (cntx w4) = 0 \<and> int (unat (retries x)) < maxRetries (cntx w4) \<or>
        MinRespTimeout (cntx w4) \<noteq> 0 \<and> cumulative_timeout x < e_totalTimeout x
     then
      and_then (cs_cntxt_send_mad_nolock E e w4) (\<lambda>(status, w5).
        Inr (if status \<noteq> VSTATUS_OK then VSTATUS_BAD else VSTATUS_OK, w5))
     else Inr (VSTATUS_TIMEOUT, count_exhausted x w4))))"

text \<open>When a timed out entry is given up.\<close>

definition gives_up :: "Status_t \<Rightarrow> cntxt_sys \<Rightarrow> bool" where
  "gives_up status w \<longleftrightarrow>
     status = VSTATUS_TIMEOUT \<or> errorOnSendFail (cntx w) \<noteq> 0 \<and> status \<noteq> VSTATUS_OK"

definition adder_of :: "cntxt_entry_t \<Rightarrow> cntxt_sys \<Rightarrow> u64" where
  "adder_of x w = (if sendFailed x \<noteq> 0 then 0 else timeoutAdder (cntx w))"

text \<open>One pass of the inner loop of \<^verbatim>\<open>cs_cntxt_age\<close>, for the entry \<open>e\<close>: \<open>smallest\<close> is the smallest
  time left so far, 0 when there is none.\<close>

definition age_entry ::
  "cntxt_env \<Rightarrow> tid \<Rightarrow> u64 \<Rightarrow> addr \<Rightarrow> u64 \<Rightarrow> cntxt_sys \<Rightarrow> vs_error + u64 \<times> cntxt_sys" where
  "age_entry E self timenow e smallest w =
    and_then (load_entry e w) (\<lambda>x.
    and_then
     (if timenow - tstamp x \<ge> RespTimeout x + adder_of x w
      then
       and_then (cs_cntxt_timeout_entry E e timenow w) (\<lambda>(status, w1).
        if gives_up status w1
        then and_then (cntxt_release E self e status None w1) (\<lambda>w2. Inr (True, w2))
        else Inr (False, w1))
      else Inr (False, w))
     (\<lambda>(released, w3).
      if released then Inr (smallest, w3)
      else
       and_then (load_entry e w3) (\<lambda>y.
        let time_left = RespTimeout y - (timenow - tstamp y) + adder_of y w3 in
        Inr (if smallest \<noteq> 0 then (if time_left < smallest then time_left else smallest)
             else time_left, w3))))"

text \<open>The inner loop: the link is read before the entry is processed.\<close>

partial_function (option) age_chain ::
  "cntxt_env \<Rightarrow> tid \<Rightarrow> u64 \<Rightarrow> addr \<Rightarrow> u64 \<Rightarrow> cntxt_sys \<Rightarrow> (vs_error + u64 \<times> cntxt_sys) option" where
  "age_chain E self timenow p smallest w =
    (if p = 0 then Some (Inr (smallest, w))
     else case entries w p of None \<Rightarrow> Some (Inl BadAccess)
      | Some x \<Rightarrow>
         (case age_entry E self timenow p smallest w of Inl err \<Rightarrow> Some (Inl err)
          | Inr (smallest', w') \<Rightarrow> age_chain E self timenow (next_e x) smallest' w'))"

text \<open>The outer loop, over the hash lists \<open>i\<close>, \<open>i + 1\<close>, and so on, \<open>n\<close> of them.\<close>

fun age_buckets ::
  "cntxt_env \<Rightarrow> tid \<Rightarrow> u64 \<Rightarrow> nat \<Rightarrow> nat \<Rightarrow> u64 \<Rightarrow> cntxt_sys \<Rightarrow> vs_error + u64 \<times> cntxt_sys" where
  "age_buckets E self timenow i 0 smallest w = Inr (smallest, w)"
| "age_buckets E self timenow i (Suc n) smallest w =
    (if i < length (hash_lists (cntx w))
     then
      (case age_chain E self timenow (hash_lists (cntx w) ! i) smallest w of
         None \<Rightarrow> Inl Blocked
       | Some r \<Rightarrow> and_then r (\<lambda>(smallest', w'). age_buckets E self timenow (i + 1) n smallest' w'))
     else Inl BadAccess)"

definition cs_cntxt_age :: "cntxt_env \<Rightarrow> tid \<Rightarrow> cntxt_sys \<Rightarrow> vs_error + u64 \<times> cntxt_sys" where
  "cs_cntxt_age E self = with_lock self (\<lambda>_. 0) (\<lambda>w.
     let (timenow, w1) = vs_time_get E w in
     age_buckets E self timenow 0 (nat (hashTableDepth (cntx w1))) 0 w1)"

section \<open>Getting an entry\<close>

definition cs_cntxt_get_nolock ::
  "cntxt_env \<Rightarrow> Mai_t option \<Rightarrow> bool \<Rightarrow> cntxt_sys \<Rightarrow> vs_error + addr \<times> cntxt_sys" where
  "cs_cntxt_get_nolock E mad wait w =
    (let (now, w1) = vs_time_get E w; e = free_list (cntx w1) in
     if e \<noteq> 0
     then
      and_then (on_free_list (\<lambda>l. cntxt_delete_entry l e) w1) (\<lambda>w2.
       let w3 = set_cntx (\<lambda>c. c\<lparr>numAlloc := numAlloc c + 1, numFree := numFree c - 1\<rparr>) w2 in
       and_then (store_entry e
          (\<lambda>x. x\<lparr>alloced := 1, e_totalTimeout := totalTimeout (cntx w3)\<rparr>) w3) (\<lambda>w4.
       (case mad of None \<Rightarrow> Inr (e, w4)
        | Some m \<Rightarrow>
           and_then (store_entry e (\<lambda>x. x\<lparr>e_mad := m\<rparr>) w4) (\<lambda>w5.
           and_then (cntxt_reserve E e w5) (\<lambda>w6. Inr (e, w6))))))
     else if wait
     then Inr (0, set_cntx (\<lambda>c. c\<lparr>numWaiters := numWaiters c + 1\<rparr>) w1)
     else Inr (0, w1))"

definition cs_cntxt_get ::
  "cntxt_env \<Rightarrow> tid \<Rightarrow> Mai_t option \<Rightarrow> bool \<Rightarrow> cntxt_sys \<Rightarrow> vs_error + addr \<times> cntxt_sys" where
  "cs_cntxt_get E self mad wait = with_lock self (\<lambda>_. 0) (cs_cntxt_get_nolock E mad wait)"

text \<open>\<open>others k\<close> is what the other threads do to the table between the \<open>k\<close>th failing attempt and
  the wait on the semaphore that follows it.\<close>

partial_function (option) cs_cntxt_get_wait ::
  "cntxt_env \<Rightarrow> tid \<Rightarrow> (nat \<Rightarrow> cntxt_sys \<Rightarrow> cntxt_sys) \<Rightarrow> nat \<Rightarrow> Mai_t option \<Rightarrow> cntxt_sys \<Rightarrow>
     (vs_error + addr \<times> cntxt_sys) option" where
  "cs_cntxt_get_wait E self others k mad w =
    (case cs_cntxt_get E self mad True w of Inl err \<Rightarrow> Some (Inl err)
     | Inr (e, w1) \<Rightarrow>
        if e \<noteq> 0 then Some (Inr (e, w1))
        else
         let w2 = others k w1 in
         (case cs_psema False (Some (freeContextWaitSema (cntx w2))) of Inl err \<Rightarrow> Some (Inl err)
          | Inr (_, h) \<Rightarrow>
             cs_cntxt_get_wait E self others (k + 1) mad
               (set_cntx (\<lambda>c. c\<lparr>freeContextWaitSema := the h\<rparr>) w2)))"

section \<open>Responses and failures\<close>

definition cs_cntxt_find_release ::
  "cntxt_env \<Rightarrow> tid \<Rightarrow> Mai_t \<Rightarrow> cntxt_sys \<Rightarrow> vs_error + unit \<times> cntxt_sys" where
  "cs_cntxt_find_release E self mad = with_lock self (\<lambda>_. ()) (\<lambda>w.
     and_then (cntxt_find mad w) (\<lambda>e.
      if e \<noteq> 0
      then map_sum id (Pair ()) (cntxt_release E self e VSTATUS_OK (Some mad) w)
      else Inr ((), w)))"

definition cs_cntxt_find_release_error ::
  "cntxt_env \<Rightarrow> tid \<Rightarrow> Mai_t \<Rightarrow> cntxt_sys \<Rightarrow> vs_error + unit \<times> cntxt_sys" where
  "cs_cntxt_find_release_error E self mad = with_lock self (\<lambda>_. ()) (\<lambda>w.
     and_then (cntxt_find mad w) (\<lambda>e.
      if e \<noteq> 0
      then
       let (timenow, w1) = vs_time_get E w in
       and_then (cs_cntxt_timeout_entry E e timenow w1) (\<lambda>(status, w2).
        if gives_up status w2
        then map_sum id (Pair ()) (cntxt_release E self e status None w2)
        else Inr ((), w2))
      else Inr ((), w)))"

section \<open>Disposal and the callback\<close>

definition cs_cntxt_instance_free ::
  "tid \<Rightarrow> bool \<Rightarrow> addr \<Rightarrow> cntxt_sys \<Rightarrow> vs_error + Status_t \<times> cntxt_sys" where
  "cs_cntxt_instance_free self destroy_ok pool w =
    and_then (on_cntxt_lock (vs_lock_delete self) w) (\<lambda>(_, w1).
    and_then (free_entry_block self pool (cx_pool (cntx w1)) w1) (\<lambda>(status, w2).
    and_then (cs_sema_delete destroy_ok (Some (freeContextWaitSema (cntx w2)))) (\<lambda>_.
     Inr (status, w2\<lparr>cntx := zero_cntxt\<rparr>))))"

definition cs_cntxt_set_callback ::
  "addr \<Rightarrow> addr \<Rightarrow> addr \<Rightarrow> cntxt_sys \<Rightarrow> vs_error + cntxt_sys" where
  "cs_cntxt_set_callback e cb data =
    (if cb = 0 then store_entry e (\<lambda>x. x\<lparr>e_callback := 0, callback_data := 0\<rparr>)
     else store_entry e (\<lambda>x. x\<lparr>e_callback := cb, callback_data := data\<rparr>))"

end
