(* ===== verification/CsContextInv.thy ===== *)
theory CsContextInv
  imports CsContextOps
begin

text \<open>
  The invariant of the context pool and what each list operation does to it.  A doubly linked
  list is \<open>dlist m p xs\<close>: following \<open>next\<close> from \<open>p\<close> visits exactly \<open>xs\<close>, and every cell but the
  first points back to its predecessor.  The first cell's \<open>prev\<close> is arbitrary: unlinking the head
  leaves it pointing to the old head, and nothing reads it.
\<close>

section \<open>Doubly linked lists\<close>

fun backs :: "entry_heap \<Rightarrow> addr list \<Rightarrow> bool" where
  "backs m (x # y # ys) \<longleftrightarrow> map_option prev_e (m y) = Some x \<and> backs m (y # ys)"
| "backs m _ \<longleftrightarrow> True"

definition dlist :: "entry_heap \<Rightarrow> addr \<Rightarrow> addr list \<Rightarrow> bool" where
  "dlist m p xs \<longleftrightarrow> path next_e m p xs 0 \<and> backs m xs"

text \<open>What the list operations leave alone: everything but the links.\<close>

definition strip :: "cntxt_entry_t \<Rightarrow> cntxt_entry_t" where
  "strip x = x\<lparr>next_e := 0, prev_e := 0\<rparr>"

definition same_contents :: "entry_heap \<Rightarrow> entry_heap \<Rightarrow> bool" where
  "same_contents m m' \<longleftrightarrow> (\<forall>a. map_option strip (m a) = map_option strip (m' a))"

lemma backs_append: "backs m (xs @ y # ys) \<longleftrightarrow> backs m (xs @ [y]) \<and> backs m (y # ys)"
proof (induction xs)
  case (Cons x xs)
  then show ?case by (cases xs) auto
qed simp

lemma backs_cong:
  "(\<And>x. x \<in> set (tl xs) \<Longrightarrow> map_option prev_e (m x) = map_option prev_e (m' x)) \<Longrightarrow>
     backs m xs = backs m' xs"
proof (induction m xs rule: backs.induct)
  case (1 m x y ys)
  have "backs m (y # ys) = backs m' (y # ys)"
  proof (rule "1.IH")
    fix z assume "z \<in> set (tl (y # ys))"
    then show "map_option prev_e (m z) = map_option prev_e (m' z)" by (intro "1.prems") auto
  qed
  then show ?case using "1.prems" [of y] by simp
qed auto

lemma dlist_cong:
  assumes "\<And>x. x \<in> set xs \<Longrightarrow> m' x = m x"
  shows "dlist m' p xs \<longleftrightarrow> dlist m p xs"
proof -
  have "path next_e m' p xs 0 \<longleftrightarrow> path next_e m p xs 0"
    by (rule path_cong) (simp add: assms)
  moreover have "backs m' xs \<longleftrightarrow> backs m xs"
    by (rule backs_cong) (metis assms list.set_sel(2) empty_iff list.sel(2) list.set(1))
  ultimately show ?thesis by (simp add: dlist_def)
qed

lemma dlist_elsewhere:
  assumes "dlist m p xs" "\<And>a. a \<in> set xs \<Longrightarrow> a \<notin> S" "\<And>a. a \<notin> S \<Longrightarrow> m' a = m a"
  shows "dlist m' p xs"
  using assms dlist_cong [of xs m' m p] by blast

lemma dlist_upd_fields:
  assumes "m e = Some x" "next_e y = next_e x" "prev_e y = prev_e x"
  shows "dlist (m(e \<mapsto> y)) p xs \<longleftrightarrow> dlist m p xs"
proof -
  have "path next_e (m(e \<mapsto> y)) p xs 0 \<longleftrightarrow> path next_e m p xs 0"
    by (rule path_cong) (use assms in auto)
  moreover have "backs (m(e \<mapsto> y)) xs \<longleftrightarrow> backs m xs"
    by (rule backs_cong) (use assms in auto)
  ultimately show ?thesis by (simp add: dlist_def)
qed

lemma dlist_Nil [simp]: "dlist m p [] \<longleftrightarrow> p = 0"
  by (auto simp: dlist_def)

lemma dlist_distinct: "dlist m p xs \<Longrightarrow> distinct xs"
  by (auto simp: dlist_def dest: path_distinct)

lemma dlist_in: "dlist m p xs \<Longrightarrow> x \<in> set xs \<Longrightarrow> x \<noteq> 0 \<and> (\<exists>v. m x = Some v)"
  unfolding dlist_def by (metis path_in)

lemma dlist_zero: "dlist m 0 xs \<longleftrightarrow> xs = []"
  by (auto simp: dlist_def path_zero)

lemma dlist_head: "dlist m p xs \<Longrightarrow> p \<noteq> 0 \<Longrightarrow> \<exists>ys. xs = p # ys"
  by (cases xs) (auto simp: dlist_def)

lemma same_contents_refl [simp]: "same_contents m m"
  by (simp add: same_contents_def)

lemma same_contents_trans: "same_contents m m' \<Longrightarrow> same_contents m' m'' \<Longrightarrow> same_contents m m''"
  by (simp add: same_contents_def)

lemma same_contents_upd:
  "m e = Some x \<Longrightarrow> strip y = strip x \<Longrightarrow> same_contents m (m(e \<mapsto> y))"
  by (simp add: same_contents_def)

lemma same_contentsD:
  assumes "same_contents m m'" "m' a = Some y"
  shows "\<exists>x. m a = Some x \<and> strip y = strip x"
  using assms by (metis same_contents_def map_option_eq_Some)

text \<open>Inserting a cell in front.\<close>

lemma insert_head_dlist:
  assumes "dlist m l xs" "m e = Some x" "e \<notin> set xs" "e \<noteq> 0"
  obtains m' where "cntxt_insert_head l e m = Inr (e, m')" "dlist m' e (e # xs)"
    "same_contents m m'" "\<And>a. a \<notin> set (e # xs) \<Longrightarrow> m' a = m a"
proof (cases "l = 0")
  case True
  with assms(1) have "xs = []" by (simp add: dlist_zero)
  show thesis
    by (rule that [of "m(e \<mapsto> x\<lparr>next_e := 0, prev_e := 0\<rparr>)"])
      (use assms True \<open>xs = []\<close> in
        \<open>simp_all add: cntxt_insert_head_def store_def dlist_def same_contents_upd strip_def\<close>)
next
  case False
  obtain ys where xs: "xs = l # ys" using dlist_head [OF assms(1) False] by auto
  obtain h where h: "m l = Some h" using dlist_in [OF assms(1), of l] xs by auto
  have ne: "l \<noteq> e" using assms(3) xs by auto
  define m1 where "m1 = m(l \<mapsto> h\<lparr>prev_e := e\<rparr>)"
  define m' where "m' = m1(e \<mapsto> x\<lparr>next_e := l, prev_e := 0\<rparr>)"
  have op: "cntxt_insert_head l e m = Inr (e, m')"
    using False h assms(2) ne by (simp add: cntxt_insert_head_def store_def m1_def m'_def)
  have p: "path next_e m' l xs 0"
  proof -
    have "path next_e m1 l xs 0 \<longleftrightarrow> path next_e m l xs 0"
      by (rule path_cong) (use h in \<open>auto simp: m1_def\<close>)
    with assms(1,3) show ?thesis by (simp add: m'_def dlist_def)
  qed
  have d: "distinct xs" using assms(1) by (rule dlist_distinct)
  have b: "backs m' xs \<longleftrightarrow> backs m xs"
    by (rule backs_cong) (use d assms(3) xs in \<open>auto simp: m'_def m1_def\<close>)
  have "dlist m' e (e # xs)"
    using p b assms(1,4) xs ne by (auto simp: dlist_def m'_def m1_def)
  moreover have "same_contents m m'"
    unfolding m'_def m1_def
    by (rule same_contents_trans [of m "m(l \<mapsto> h\<lparr>prev_e := e\<rparr>)"]; rule same_contents_upd)
      (use h assms(2) ne in \<open>simp_all add: strip_def\<close>)
  moreover have "m' a = m a" if "a \<notin> set (e # xs)" for a
    using that xs by (auto simp: m'_def m1_def)
  ultimately show thesis using that op by blast
qed

text \<open>Unlinking a cell.\<close>

lemma delete_head_dlist:
  assumes "dlist m e (e # B)"
  obtains m' p where "cntxt_delete_entry e e m = Inr (p, m')" "dlist m' p B"
    "same_contents m m'" "\<And>a. a \<notin> set (e # B) \<Longrightarrow> m' a = m a"
proof -
  obtain x where x: "m e = Some x" "path next_e m (next_e x) B 0" "backs m B"
    using assms by (cases B) (auto simp: dlist_def)
  have d: "e \<notin> set B" using dlist_distinct [OF assms] by simp
  define m' where "m' = m(e \<mapsto> x\<lparr>next_e := 0, prev_e := 0\<rparr>)"
  show thesis
  proof (rule that [of "next_e x" m'])
    show "cntxt_delete_entry e e m = Inr (next_e x, m')"
      using x(1) by (simp add: cntxt_delete_entry_def load_def store_def m'_def)
    have "dlist m' (next_e x) B \<longleftrightarrow> dlist m (next_e x) B"
      by (rule dlist_cong) (use d in \<open>auto simp: m'_def\<close>)
    with x show "dlist m' (next_e x) B" by (simp add: dlist_def)
    show "same_contents m m'" unfolding m'_def
      by (rule same_contents_upd [where x = x]) (simp_all add: x(1) strip_def)
  qed (auto simp: m'_def)
qed

lemma delete_inner_dlist:
  assumes "dlist m l (A @ z # e # B)"
  obtains m' where "cntxt_delete_entry l e m = Inr (l, m')" "dlist m' l (A @ z # B)"
    "same_contents m m'" "\<And>a. a \<notin> set (A @ z # e # B) \<Longrightarrow> m' a = m a"
proof -
  have d: "distinct (A @ z # e # B)" by (rule dlist_distinct [OF assms])
  have pth: "path next_e m l (A @ z # e # B) 0" and bk: "backs m (A @ z # e # B)"
    using assms by (simp_all add: dlist_def)
  obtain vz x where z: "m z = Some vz" "z \<noteq> 0" "path next_e m l A z" "next_e vz = e"
    and x: "m e = Some x" "e \<noteq> 0" "path next_e m (next_e x) B 0"
    using pth by (auto simp: path_append_mid path_append)
  have bks: "backs m (A @ [z])" "prev_e x = z" "backs m (e # B)"
    using bk x(1) by (auto simp: backs_append [of m A z "e # B"])
  have le: "l \<noteq> e" using z(3) d by (cases A) auto
  define m1 where "m1 = m(z \<mapsto> vz\<lparr>next_e := next_e x\<rparr>)"
  define m2 where "m2 = (case B of [] \<Rightarrow> m1 | n # _ \<Rightarrow> upd n (\<lambda>y. y\<lparr>prev_e := z\<rparr>) m1)"
  define m' where "m' = m2(e \<mapsto> x\<lparr>next_e := 0, prev_e := 0\<rparr>)"
  have nx: "next_e x = (case B of [] \<Rightarrow> 0 | n # _ \<Rightarrow> n)" by (rule path_start [OF x(3)])
  have m1e: "m1 e = Some x" using x(1) d by (auto simp: m1_def)
  have m2e: "m2 e = Some x" using m1e d by (auto simp: m2_def split: list.splits)
  have step2: "(if next_e x \<noteq> 0 then store (next_e x) (\<lambda>n. n\<lparr>prev_e := z\<rparr>) m1 else Inr m1) = Inr m2"
  proof (cases B)
    case (Cons n B')
    then obtain vn where "m n = Some vn" "n \<noteq> 0" using x(3) by auto
    with Cons nx d show ?thesis by (simp add: store_def m2_def m1_def upd_def)
  qed (simp add: nx m2_def)
  have op: "cntxt_delete_entry l e m = Inr (l, m')"
    using le x(1) bks(2) z(1,2) m1e m2e step2
    by (simp add: cntxt_delete_entry_def vs_simps m1_def [symmetric] m'_def cong: if_cong)
  have p1: "path next_e m1 l (A @ [z]) (next_e x)"
    using path_redirect [of next_e m l A z e "\<lambda>y. y\<lparr>next_e := next_e x\<rparr>" "next_e x"] z x(2) d
    by (simp add: path_append m1_def upd_Some)
  have p2: "path next_e m1 (next_e x) B 0"
    using x(3) d by (simp add: m1_def)
  have "path next_e m1 l ((A @ [z]) @ B) 0"
    unfolding path_append [of next_e m1 l "A @ [z]"] using p1 p2 by blast
  then have p: "path next_e m1 l (A @ z # B) 0" by simp
  have "path next_e m' l (A @ z # B) 0 \<longleftrightarrow> path next_e m1 l (A @ z # B) 0"
    by (rule path_cong)
      (use d in \<open>auto simp: m'_def m2_def upd_def option.map_comp comp_def split: list.splits\<close>)
  with p have p': "path next_e m' l (A @ z # B) 0" by blast
  have "backs m' (A @ [z]) \<longleftrightarrow> backs m (A @ [z])"
    by (rule backs_cong, cases A)
      (use d z(1) in \<open>auto simp: m'_def m2_def m1_def upd_def split: list.splits\<close>)
  moreover have "backs m' (z # B)"
  proof (cases B)
    case (Cons n B')
    then obtain vn where vn: "m n = Some vn" using x(3) by auto
    have "backs m' (n # B') \<longleftrightarrow> backs m (n # B')"
      by (rule backs_cong) (use d Cons in \<open>auto simp: m'_def m2_def m1_def upd_def\<close>)
    moreover have "backs m (n # B')" using bks(3) Cons by simp
    moreover have "map_option prev_e (m' n) = Some z"
      using d Cons vn by (auto simp: m'_def m2_def m1_def upd_def)
    ultimately show ?thesis using Cons by simp
  qed simp
  ultimately have b': "backs m' (A @ z # B)" using bks(1) by (simp add: backs_append [of m' A z B])
  have sc: "same_contents m m'"
    using z(1) x(1) d
    by (auto simp: same_contents_def m'_def m2_def m1_def upd_def strip_def [abs_def] option.map_comp comp_def
        split: list.splits)
  have out: "m' a = m a" if "a \<notin> set (A @ z # e # B)" for a
    using that by (auto simp: m'_def m2_def m1_def split: list.splits)
  show thesis using that op p' b' sc out by (auto simp: dlist_def)
qed

lemma delete_dlist:
  assumes "dlist m l (A @ e # B)"
  obtains m' p where "cntxt_delete_entry l e m = Inr (p, m')" "dlist m' p (A @ B)"
    "same_contents m m'" "\<And>a. a \<notin> set (A @ e # B) \<Longrightarrow> m' a = m a"
proof (cases A rule: rev_cases)
  case Nil
  with assms have "l = e" by (simp add: dlist_def)
  with Nil assms that show ?thesis by (auto intro: delete_head_dlist [of m e B])
next
  case (snoc A' z)
  show thesis
    by (rule delete_inner_dlist [of m l A' z e B]) (use assms snoc that in auto)
qed

section \<open>The invariant\<close>

text \<open>\<open>F\<close> is the free list, \<open>bk i\<close> the \<open>i\<close>th hash list.  An entry is on the free list exactly when
  it is not allocated, and on the hash list its LID selects exactly when it is hashed; an
  allocated entry that is not hashed is in the hands of a caller.\<close>

definition entry_ok :: "int \<Rightarrow> addr list \<Rightarrow> (nat \<Rightarrow> addr list) \<Rightarrow> addr \<Rightarrow> cntxt_entry_t \<Rightarrow> bool" where
  "entry_ok depth F bk e x \<longleftrightarrow>
     (e \<in> set F \<longleftrightarrow> alloced x = 0) \<and>
     (\<forall>i < CNTXT_HASH_TABLE_DEPTH. e \<in> set (bk i) \<longleftrightarrow> hashed x \<noteq> 0 \<and> bucket_of depth (lid x) = i) \<and>
     (alloced x = 0 \<longrightarrow> hashed x = 0 \<and> releasing x = 0)"

definition lists_ok :: "generic_cntxt_t \<Rightarrow> entry_heap \<Rightarrow> addr list \<Rightarrow> (nat \<Rightarrow> addr list) \<Rightarrow> bool" where
  "lists_ok c m F bk \<longleftrightarrow>
     0 \<le> hashTableDepth c \<and> hashTableDepth c \<le> int CNTXT_HASH_TABLE_DEPTH \<and>
     length (hash_lists c) = CNTXT_HASH_TABLE_DEPTH \<and>
     dlist m (free_list c) F \<and>
     (\<forall>i < CNTXT_HASH_TABLE_DEPTH. dlist m (hash_lists c ! i) (bk i)) \<and>
     m 0 = None \<and> (\<forall>e x. m e = Some x \<longrightarrow> entry_ok (hashTableDepth c) F bk e x)"

definition counts_ok :: "generic_cntxt_t \<Rightarrow> entry_heap \<Rightarrow> addr list \<Rightarrow> bool" where
  "counts_ok c m F \<longleftrightarrow>
     finite (dom m) \<and> int (card (dom m)) = poolSize c \<and> numFree c = int (length F) \<and>
     numAlloc c + numFree c = poolSize c \<and> (\<exists>v. sema_live v (freeContextWaitSema c))"

definition pool_is :: "cntxt_sys \<Rightarrow> addr list \<Rightarrow> (nat \<Rightarrow> addr list) \<Rightarrow> bool" where
  "pool_is w F bk \<longleftrightarrow> lists_ok (cntx w) (entries w) F bk \<and> counts_ok (cntx w) (entries w) F"

text \<open>The part of the table no operation but creation and disposal changes.\<close>

definition config_of :: "generic_cntxt_t \<Rightarrow> generic_cntxt_t" where
  "config_of c = c\<lparr>numAlloc := 0, numFree := 0, numWaiters := 0,
     freeContextWaitSema := \<lparr>sem_magic = 0, osdSema = None\<rparr>, free_list := 0, hash_lists := []\<rparr>"

lemma config_fields:
  assumes "config_of c' = config_of c"
  shows "hashTableDepth c' = hashTableDepth c" "poolSize c' = poolSize c"
    "maxRetries c' = maxRetries c" "defaultTimeout c' = defaultTimeout c"
    "totalTimeout c' = totalTimeout c" "MinRespTimeout c' = MinRespTimeout c"
    "errorOnSendFail c' = errorOnSendFail c" "timeoutAdder c' = timeoutAdder c"
    "cx_lock c' = cx_lock c" "resp_queue c' = resp_queue c"
  using assms by (cases c; cases c'; simp add: config_of_def)+

lemma strip_fields [simp]:
  "tstamp (strip x) = tstamp x" "e_tid (strip x) = e_tid x" "lid (strip x) = lid x"
  "index (strip x) = index x" "hashed (strip x) = hashed x" "alloced (strip x) = alloced x"
  "retries (strip x) = retries x" "RespTimeout (strip x) = RespTimeout x"
  "cumulative_timeout (strip x) = cumulative_timeout x"
  "e_totalTimeout (strip x) = e_totalTimeout x"
  "senderWantsResponse (strip x) = senderWantsResponse x" "sendFailed (strip x) = sendFailed x"
  "releasing (strip x) = releasing x" "e_mad (strip x) = e_mad x"
  "e_callback (strip x) = e_callback x" "callback_data (strip x) = callback_data x"
  "next_e (strip x) = 0" "prev_e (strip x) = 0"
  by (simp_all add: strip_def)

lemma strip_fieldsD:
  assumes "strip y = strip x"
  shows "tstamp y = tstamp x" "e_tid y = e_tid x" "lid y = lid x" "index y = index x"
    "hashed y = hashed x" "alloced y = alloced x" "retries y = retries x"
    "RespTimeout y = RespTimeout x" "cumulative_timeout y = cumulative_timeout x"
    "e_totalTimeout y = e_totalTimeout x" "senderWantsResponse y = senderWantsResponse x"
    "sendFailed y = sendFailed x" "releasing y = releasing x" "e_mad y = e_mad x"
    "e_callback y = e_callback x" "callback_data y = callback_data x"
  using arg_cong [OF assms, of tstamp]
    arg_cong [OF assms, of e_tid]
    arg_cong [OF assms, of lid]
    arg_cong [OF assms, of index]
    arg_cong [OF assms, of hashed]
    arg_cong [OF assms, of alloced]
    arg_cong [OF assms, of retries]
    arg_cong [OF assms, of RespTimeout]
    arg_cong [OF assms, of cumulative_timeout]
    arg_cong [OF assms, of e_totalTimeout]
    arg_cong [OF assms, of senderWantsResponse]
    arg_cong [OF assms, of sendFailed]
    arg_cong [OF assms, of releasing]
    arg_cong [OF assms, of e_mad]
    arg_cong [OF assms, of e_callback]
    arg_cong [OF assms, of callback_data]
  by simp_all

lemma entry_ok_strip:
  assumes "strip y = strip x"
  shows "entry_ok d F bk e y = entry_ok d F bk e x"
  by (simp add: entry_ok_def strip_fieldsD [OF assms])

lemma bucket_of_less:
  assumes "d \<le> int n" "0 < n" "n < 2 ^ 31"
  shows "bucket_of d l < n"
proof (cases "1 < d")
  case True
  have "unat (word_of_int d :: u32) = nat d"
    using True assms by (simp add: unat_eq_nat_uint uint_word_of_int_eq take_bit_int_eq_self)
  then have "unat (l mod word_of_int d) < nat d"
    using True by (simp add: unat_mod)
  with True assms show ?thesis by (simp add: bucket_of_def)
qed (use assms in \<open>simp add: bucket_of_def\<close>)

lemma lists_bucket: "lists_ok c m F bk \<Longrightarrow> bucket_of (hashTableDepth c) l < CNTXT_HASH_TABLE_DEPTH"
  by (rule bucket_of_less) (auto simp: lists_ok_def)

lemma lists_disjoint:
  assumes "lists_ok c m F bk" "i < CNTXT_HASH_TABLE_DEPTH"
  shows "set F \<inter> set (bk i) = {}"
    and "j < CNTXT_HASH_TABLE_DEPTH \<Longrightarrow> i \<noteq> j \<Longrightarrow> set (bk i) \<inter> set (bk j) = {}"
proof -
  have ok: "entry_ok (hashTableDepth c) F bk e x" if "m e = Some x" for e x
    using assms(1) that by (auto simp: lists_ok_def)
  have dom: "\<exists>x. m e = Some x" if "k < CNTXT_HASH_TABLE_DEPTH" "e \<in> set (bk k)" for e k
    using assms(1) that dlist_in unfolding lists_ok_def by blast
  show "set F \<inter> set (bk i) = {}"
    using ok dom [OF assms(2)] assms(2) by (auto simp: entry_ok_def) metis
  show "set (bk i) \<inter> set (bk j) = {}" if "j < CNTXT_HASH_TABLE_DEPTH" "i \<noteq> j"
    using ok dom [OF assms(2)] assms(2) that by (auto simp: entry_ok_def) metis
qed

section \<open>Effects on the lists of the pool\<close>

text \<open>Everything but the entry \<open>e\<close> keeps its contents.\<close>

definition rest_same :: "addr \<Rightarrow> entry_heap \<Rightarrow> entry_heap \<Rightarrow> bool" where
  "rest_same e m m' \<longleftrightarrow> (\<forall>a. a \<noteq> e \<longrightarrow> map_option strip (m' a) = map_option strip (m a))"

lemma rest_same_refl [simp]: "rest_same e m m"
  by (simp add: rest_same_def)

lemma rest_same_trans: "rest_same e m m' \<Longrightarrow> rest_same e m' m'' \<Longrightarrow> rest_same e m m''"
  by (simp add: rest_same_def)

lemma rest_same_contents: "same_contents m m' \<Longrightarrow> rest_same e m m'"
  by (simp add: rest_same_def same_contents_def)

lemma rest_same_upd [simp]: "rest_same e m (m(e := v))"
  by (simp add: rest_same_def)

lemma rest_sameD:
  assumes "rest_same e m m'" "m a = Some x" "a \<noteq> e"
  shows "\<exists>y. m' a = Some y \<and> strip y = strip x"
  using assms unfolding rest_same_def by (metis map_option_eq_Some)

lemma same_contentsD2:
  assumes "same_contents m m'" "m a = Some x"
  shows "\<exists>y. m' a = Some y \<and> strip y = strip x"
  using assms unfolding same_contents_def by (metis map_option_eq_Some)

lemma same_contents_dom: "same_contents m m' \<Longrightarrow> dom m' = dom m"
  unfolding same_contents_def dom_def by (metis (mono_tags) option.map_disc_iff)

lemma lists_okD:
  assumes "lists_ok c m F bk"
  shows "dlist m (free_list c) F"
    "\<And>i. i < CNTXT_HASH_TABLE_DEPTH \<Longrightarrow> dlist m (hash_lists c ! i) (bk i)"
    "\<And>e x. m e = Some x \<Longrightarrow> entry_ok (hashTableDepth c) F bk e x"
    "m 0 = None" "length (hash_lists c) = CNTXT_HASH_TABLE_DEPTH"
  using assms by (simp_all add: lists_ok_def)

lemma lists_nonnull: "lists_ok c m F bk \<Longrightarrow> m e = Some x \<Longrightarrow> e \<noteq> 0"
  by (metis lists_okD(4) option.distinct(1))

text \<open>A write that changes neither links nor status.\<close>

lemma lists_ok_update:
  assumes "lists_ok c m F bk" "m e = Some x" "next_e y = next_e x" "prev_e y = prev_e x"
    "entry_ok (hashTableDepth c) F bk e x \<Longrightarrow> entry_ok (hashTableDepth c) F bk e y"
  shows "lists_ok c (m(e \<mapsto> y)) F bk"
  using assms dlist_upd_fields [of m e x y, OF assms(2-4)] lists_nonnull [OF assms(1,2)]
  by (simp add: lists_ok_def)

text \<open>An entry outside all lists gets new contents and is put in front of a hash list.\<close>

lemma hash_insert_lists:
  assumes ok: "lists_ok c m F bk" and e: "m e = Some x" "alloced x \<noteq> 0" "hashed x = 0"
    and y: "hashed y \<noteq> 0" "alloced y \<noteq> 0"
    and b: "b = bucket_of (hashTableDepth c) (lid y)"
  obtains m' where
    "cntxt_insert_head (hash_lists c ! b) e (m(e \<mapsto> y)) = Inr (e, m')"
    "lists_ok (c\<lparr>hash_lists := (hash_lists c)[b := e]\<rparr>) m' F (bk(b := e # bk b))"
    "same_contents (m(e \<mapsto> y)) m'"
proof -
  note L = lists_okD [OF ok]
  have bl: "b < CNTXT_HASH_TABLE_DEPTH" unfolding b by (rule lists_bucket [OF ok])
  have eo: "entry_ok (hashTableDepth c) F bk e x" by (rule L(3) [OF e(1)])
  have nF: "e \<notin> set F" and nb: "\<And>i. i < CNTXT_HASH_TABLE_DEPTH \<Longrightarrow> e \<notin> set (bk i)"
    using eo e(2,3) by (auto simp: entry_ok_def)
  have dl: "dlist (m(e \<mapsto> y)) (hash_lists c ! i) (bk i)" if "i < CNTXT_HASH_TABLE_DEPTH" for i
    by (rule dlist_elsewhere [OF L(2) [OF that], of "{e}"]) (use nb [OF that] in auto)
  have e0: "e \<noteq> 0" by (rule lists_nonnull [OF ok e(1)])
  obtain m' where m': "cntxt_insert_head (hash_lists c ! b) e (m(e \<mapsto> y)) = Inr (e, m')"
    "dlist m' e (e # bk b)" "same_contents (m(e \<mapsto> y)) m'"
    "\<And>a. a \<notin> set (e # bk b) \<Longrightarrow> m' a = (m(e \<mapsto> y)) a"
    by (rule insert_head_dlist [OF dl [OF bl], of e y]) (use nb bl e0 in auto)
  have F: "a \<notin> set (e # bk b)" if "a \<in> set F" for a
    using that nF lists_disjoint(1) [OF ok bl] by auto
  have B: "a \<notin> set (e # bk b)" if "i < CNTXT_HASH_TABLE_DEPTH" "i \<noteq> b" "a \<in> set (bk i)" for a i
    using that nb [of i] lists_disjoint(2) [OF ok bl, of i] by auto
  have "dlist m' (free_list c) F"
    by (rule dlist_elsewhere [OF L(1), of "set (e # bk b)"]) (use m'(4) F in auto)
  moreover have "dlist m' ((hash_lists c)[b := e] ! i) ((bk(b := e # bk b)) i)"
    if i: "i < CNTXT_HASH_TABLE_DEPTH" for i
  proof (cases "i = b")
    case True
    then show ?thesis using m'(2) L(5) bl by simp
  next
    case False
    have "dlist m' (hash_lists c ! i) (bk i)"
      by (rule dlist_elsewhere [OF L(2) [OF i], of "set (e # bk b)"])
        (use m'(4) B [OF i False] in auto)
    with False show ?thesis by simp
  qed
  moreover have "entry_ok (hashTableDepth c) F (bk(b := e # bk b)) a v" if v: "m' a = Some v" for a v
  proof -
    obtain u where u: "(m(e \<mapsto> y)) a = Some u" "strip v = strip u"
      using same_contentsD [OF m'(3) v] by blast
    have "entry_ok (hashTableDepth c) F (bk(b := e # bk b)) a u"
    proof (cases "a = e")
      case True
      with u(1) have "u = y" by simp
      with True nF nb y(1,2) b show ?thesis by (simp add: entry_ok_def)
    next
      case False
      with u(1) have "entry_ok (hashTableDepth c) F bk a u" by (intro L(3)) simp
      with False show ?thesis by (simp add: entry_ok_def)
    qed
    then show ?thesis by (simp only: entry_ok_strip [OF u(2)])
  qed
  moreover have "m' 0 = None"
    using m'(3) L(4) e0 by (auto simp: same_contents_def dest: spec [of _ 0])
  ultimately have "lists_ok (c\<lparr>hash_lists := (hash_lists c)[b := e]\<rparr>) m' F (bk(b := e # bk b))"
    using ok by (simp add: lists_ok_def)
  from that [OF m'(1) this m'(3)] show thesis .
qed


text \<open>A write to an entry outside all lists.\<close>

lemma lists_ok_outside:
  assumes ok: "lists_ok c m F bk" and e: "m e = Some x" "alloced x \<noteq> 0" "hashed x = 0"
    and y: "hashed y = 0" "alloced y \<noteq> 0"
  shows "lists_ok c (m(e \<mapsto> y)) F bk"
proof -
  note L = lists_okD [OF ok]
  have eo: "entry_ok (hashTableDepth c) F bk e x" by (rule L(3) [OF e(1)])
  have "dlist (m(e \<mapsto> y)) (free_list c) F"
    by (rule dlist_elsewhere [OF L(1), of "{e}"]) (use eo e in \<open>auto simp: entry_ok_def\<close>)
  moreover have "dlist (m(e \<mapsto> y)) (hash_lists c ! i) (bk i)" if "i < CNTXT_HASH_TABLE_DEPTH" for i
    by (rule dlist_elsewhere [OF L(2) [OF that], of "{e}"])
      (use eo e that in \<open>auto simp: entry_ok_def\<close>)
  moreover have "entry_ok (hashTableDepth c) F bk e y"
    using eo e y by (simp add: entry_ok_def)
  ultimately show ?thesis
    using ok lists_nonnull [OF ok e(1)] by (simp add: lists_ok_def)
qed

text \<open>A hashed entry gets new contents and leaves its list.\<close>

lemma hash_remove_lists:
  assumes ok: "lists_ok c m F bk" and e: "m e = Some x" "hashed x \<noteq> 0"
    and b: "b = bucket_of (hashTableDepth c) (lid x)"
    and y: "hashed y = 0" "alloced y \<noteq> 0" "next_e y = next_e x" "prev_e y = prev_e x"
  obtains p m' where
    "cntxt_delete_entry (hash_lists c ! b) e (m(e \<mapsto> y)) = Inr (p, m')"
    "lists_ok (c\<lparr>hash_lists := (hash_lists c)[b := p]\<rparr>) m' F (bk(b := remove1 e (bk b)))"
    "same_contents (m(e \<mapsto> y)) m'"
proof -
  note L = lists_okD [OF ok]
  have bl: "b < CNTXT_HASH_TABLE_DEPTH" unfolding b by (rule lists_bucket [OF ok])
  have eo: "entry_ok (hashTableDepth c) F bk e x" by (rule L(3) [OF e(1)])
  then have eb: "e \<in> set (bk b)" using bl e(2) b by (simp add: entry_ok_def)
  obtain A B where AB: "bk b = A @ e # B" "e \<notin> set A" using split_list_first [OF eb] by blast
  have d: "distinct (bk b)" by (rule dlist_distinct [OF L(2) [OF bl]])
  have rm: "remove1 e (bk b) = A @ B" using AB by (simp add: remove1_append)
  have ab: "a \<in> set (A @ B) \<longleftrightarrow> a \<noteq> e \<and> a \<in> set (bk b)" for a using d AB(1) by auto
  have "dlist (m(e \<mapsto> y)) (hash_lists c ! b) (A @ e # B)"
    using L(2) [OF bl] dlist_upd_fields [of m e x y, OF e(1) y(3,4)] AB(1) by simp
  then obtain p m' where m': "cntxt_delete_entry (hash_lists c ! b) e (m(e \<mapsto> y)) = Inr (p, m')"
    "dlist m' p (A @ B)" "same_contents (m(e \<mapsto> y)) m'"
    "\<And>a. a \<notin> set (A @ e # B) \<Longrightarrow> m' a = (m(e \<mapsto> y)) a"
    using delete_dlist by metis
  have out: "m' a = m a" if "a \<notin> set (bk b)" for a
    using m'(4) [of a] that AB(1) by auto
  have "dlist m' (free_list c) F"
    by (rule dlist_elsewhere [OF L(1) _ out]) (use lists_disjoint(1) [OF ok bl] in auto)
  moreover have "dlist m' ((hash_lists c)[b := p] ! i) ((bk(b := A @ B)) i)"
    if i: "i < CNTXT_HASH_TABLE_DEPTH" for i
  proof (cases "i = b")
    case True
    then show ?thesis using m'(2) L(5) bl by simp
  next
    case False
    have "dlist m' (hash_lists c ! i) (bk i)"
      by (rule dlist_elsewhere [OF L(2) [OF i] _ out])
        (use lists_disjoint(2) [OF ok bl i] False in auto)
    with False show ?thesis by simp
  qed
  moreover have "entry_ok (hashTableDepth c) F (bk(b := A @ B)) a v" if v: "m' a = Some v" for a v
  proof -
    obtain u where u: "(m(e \<mapsto> y)) a = Some u" "strip v = strip u"
      using same_contentsD [OF m'(3) v] by blast
    have "entry_ok (hashTableDepth c) F (bk(b := A @ B)) a u"
    proof (cases "a = e")
      case True
      with u(1) have "u = y" by simp
      with True eo e y(1,2) b ab show ?thesis by (auto simp: entry_ok_def)
    next
      case False
      with u(1) have "entry_ok (hashTableDepth c) F bk a u" by (intro L(3)) simp
      with False ab show ?thesis by (simp add: entry_ok_def)
    qed
    then show ?thesis by (simp only: entry_ok_strip [OF u(2)])
  qed
  moreover have "m' 0 = None"
    using m'(3) L(4) lists_nonnull [OF ok e(1)]
    by (auto simp: same_contents_def dest: spec [of _ 0])
  ultimately have "lists_ok (c\<lparr>hash_lists := (hash_lists c)[b := p]\<rparr>) m' F (bk(b := A @ B))"
    using ok by (simp add: lists_ok_def)
  from that [OF m'(1) _ m'(3)] this rm show thesis by simp
qed

text \<open>An entry outside all lists is cleared and put in front of the free list.\<close>

lemma free_insert_lists:
  assumes ok: "lists_ok c m F bk" and e: "m e = Some x" "alloced x \<noteq> 0" "hashed x = 0"
    and y: "hashed y = 0" "alloced y = 0" "releasing y = 0"
  obtains m' where
    "cntxt_insert_head (free_list c) e (m(e \<mapsto> y)) = Inr (e, m')"
    "lists_ok (c\<lparr>free_list := e\<rparr>) m' (e # F) bk"
    "same_contents (m(e \<mapsto> y)) m'"
proof -
  note L = lists_okD [OF ok]
  have eo: "entry_ok (hashTableDepth c) F bk e x" by (rule L(3) [OF e(1)])
  have nF: "e \<notin> set F" and nb: "\<And>i. i < CNTXT_HASH_TABLE_DEPTH \<Longrightarrow> e \<notin> set (bk i)"
    using eo e(2,3) by (auto simp: entry_ok_def)
  have "dlist (m(e \<mapsto> y)) (free_list c) F"
    by (rule dlist_elsewhere [OF L(1), of "{e}"]) (use nF in auto)
  then obtain m' where m': "cntxt_insert_head (free_list c) e (m(e \<mapsto> y)) = Inr (e, m')"
    "dlist m' e (e # F)" "same_contents (m(e \<mapsto> y)) m'"
    "\<And>a. a \<notin> set (e # F) \<Longrightarrow> m' a = (m(e \<mapsto> y)) a"
    by (rule insert_head_dlist [of _ _ _ e y]) (use nF lists_nonnull [OF ok e(1)] in auto)
  have "dlist m' (hash_lists c ! i) (bk i)" if i: "i < CNTXT_HASH_TABLE_DEPTH" for i
    by (rule dlist_elsewhere [OF L(2) [OF i], of "set (e # F)"])
      (use m'(4) nb [OF i] lists_disjoint(1) [OF ok i] in auto)
  moreover have "entry_ok (hashTableDepth c) (e # F) bk a v" if v: "m' a = Some v" for a v
  proof -
    obtain u where u: "(m(e \<mapsto> y)) a = Some u" "strip v = strip u"
      using same_contentsD [OF m'(3) v] by blast
    have "entry_ok (hashTableDepth c) (e # F) bk a u"
    proof (cases "a = e")
      case True
      with u(1) have "u = y" by simp
      with True nb y show ?thesis by (simp add: entry_ok_def)
    next
      case False
      with u(1) have "entry_ok (hashTableDepth c) F bk a u" by (intro L(3)) simp
      with False show ?thesis by (simp add: entry_ok_def)
    qed
    then show ?thesis by (simp only: entry_ok_strip [OF u(2)])
  qed
  moreover have "m' 0 = None"
    using m'(3) L(4) lists_nonnull [OF ok e(1)]
    by (auto simp: same_contents_def dest: spec [of _ 0])
  ultimately have "lists_ok (c\<lparr>free_list := e\<rparr>) m' (e # F) bk"
    using ok m'(2) by (simp add: lists_ok_def)
  from that [OF m'(1) this m'(3)] show thesis .
qed

text \<open>The head of the free list is unlinked and marked as allocated; in between it is on no list
  although it is still marked free, so the two steps are one lemma.\<close>

lemma free_remove_lists:
  assumes ok: "lists_ok c m (e # F) bk" and e: "m e = Some x"
    and y: "\<And>x'. strip x' = strip x \<Longrightarrow> hashed (f x') = 0 \<and> alloced (f x') \<noteq> 0"
  obtains p m' x' where
    "cntxt_delete_entry (free_list c) e m = Inr (p, m')" "free_list c = e"
    "m' e = Some x'" "strip x' = strip x"
    "lists_ok (c\<lparr>free_list := p\<rparr>) (m'(e \<mapsto> f x')) F bk" "same_contents m m'"
proof -
  note L = lists_okD [OF ok]
  have fe: "free_list c = e" using L(1) by (simp add: dlist_def)
  have eo: "entry_ok (hashTableDepth c) (e # F) bk e x" by (rule L(3) [OF e])
  then have ax: "alloced x = 0" "hashed x = 0" by (auto simp: entry_ok_def)
  have nF: "e \<notin> set F" using dlist_distinct [OF L(1)] by simp
  have nb: "e \<notin> set (bk i)" if "i < CNTXT_HASH_TABLE_DEPTH" for i
    using lists_disjoint(1) [OF ok that] by auto
  obtain m' p where m': "cntxt_delete_entry e e m = Inr (p, m')" "dlist m' p F"
    "same_contents m m'" "\<And>a. a \<notin> set (e # F) \<Longrightarrow> m' a = m a"
    using delete_head_dlist L(1) fe by metis
  obtain x' where x': "m' e = Some x'" "strip x' = strip x"
    using same_contentsD2 [OF m'(3) e] by blast
  have "dlist (m'(e \<mapsto> f x')) p F"
    by (rule dlist_elsewhere [OF m'(2), of "{e}"]) (use nF in auto)
  moreover have "dlist (m'(e \<mapsto> f x')) (hash_lists c ! i) (bk i)"
    if i: "i < CNTXT_HASH_TABLE_DEPTH" for i
    by (rule dlist_elsewhere [OF L(2) [OF i], of "set (e # F)"])
      (use m'(4) nb [OF i] lists_disjoint(1) [OF ok i] in auto)
  moreover have "entry_ok (hashTableDepth c) F bk a v" if v: "(m'(e \<mapsto> f x')) a = Some v" for a v
  proof (cases "a = e")
    case True
    with v have "v = f x'" by simp
    with y [OF x'(2)] True nF nb show ?thesis by (simp add: entry_ok_def)
  next
    case False
    with v have "m' a = Some v" by simp
    then obtain u where u: "m a = Some u" "strip v = strip u"
      using same_contentsD [OF m'(3)] by blast
    have "entry_ok (hashTableDepth c) F bk a u"
      using L(3) [OF u(1)] False by (simp add: entry_ok_def)
    then show ?thesis by (simp only: entry_ok_strip [OF u(2)])
  qed
  moreover have "(m'(e \<mapsto> f x')) 0 = None"
    using m'(3) L(4) lists_nonnull [OF ok e]
    by (auto simp: same_contents_def dest: spec [of _ 0])
  ultimately have "lists_ok (c\<lparr>free_list := p\<rparr>) (m'(e \<mapsto> f x')) F bk"
    using ok by (simp add: lists_ok_def)
  with that fe m'(1,3) x' show thesis by blast
qed

end
