(* ===== verification/CsContextStep.thy ===== *)
theory CsContextStep
  imports CsContextInv
begin

text \<open>
  What the operations of the context pool do to a well-formed pool: each keeps \<open>pool_is\<close>, names
  the lists it leaves behind, changes the contents of its own entry only, and always returns.
\<close>

section \<open>Frames\<close>

text \<open>\<open>touches e w w'\<close>: nothing changed but the entry \<open>e\<close>, list links, counts, counters, the record
  of sent packets, and clock and random readings.\<close>

definition touches :: "addr \<Rightarrow> cntxt_sys \<Rightarrow> cntxt_sys \<Rightarrow> bool" where
  "touches e w w' \<longleftrightarrow> rest_same e (entries w) (entries w') \<and> dom (entries w') = dom (entries w) \<and>
     config_of (cntx w') = config_of (cntx w) \<and> queues w' = queues w \<and> ticks w \<le> ticks w'"

lemma touches_refl [simp]: "touches e w w"
  by (simp add: touches_def)

lemma touches_trans: "touches e w w' \<Longrightarrow> touches e w' w'' \<Longrightarrow> touches e w w''"
  by (auto simp: touches_def intro: rest_same_trans)

lemma touchesD:
  assumes "touches e w w'"
  shows "rest_same e (entries w) (entries w')" "dom (entries w') = dom (entries w)"
    "config_of (cntx w') = config_of (cntx w)" "queues w' = queues w" "ticks w \<le> ticks w'"
  using assms by (simp_all add: touches_def)

lemma touches_config:
  assumes "touches e w w'"
  shows "hashTableDepth (cntx w') = hashTableDepth (cntx w)"
    "poolSize (cntx w') = poolSize (cntx w)" "maxRetries (cntx w') = maxRetries (cntx w)"
    "defaultTimeout (cntx w') = defaultTimeout (cntx w)"
    "totalTimeout (cntx w') = totalTimeout (cntx w)"
    "MinRespTimeout (cntx w') = MinRespTimeout (cntx w)"
    "errorOnSendFail (cntx w') = errorOnSendFail (cntx w)"
    "timeoutAdder (cntx w') = timeoutAdder (cntx w)"
    "cx_lock (cntx w') = cx_lock (cntx w)" "resp_queue (cntx w') = resp_queue (cntx w)"
  by (rule config_fields [OF touchesD(3) [OF assms]])+

lemma touches_other:
  "touches e w w' \<Longrightarrow> entries w a = Some x \<Longrightarrow> a \<noteq> e \<Longrightarrow> \<exists>y. entries w' a = Some y \<and> strip y = strip x"
  by (auto simp: touches_def intro: rest_sameD)

lemma counts_ok_cong:
  "counts_ok c m F \<Longrightarrow> dom m' = dom m \<Longrightarrow> poolSize c' = poolSize c \<Longrightarrow> numFree c' = numFree c \<Longrightarrow>
    numAlloc c' = numAlloc c \<Longrightarrow> freeContextWaitSema c' = freeContextWaitSema c \<Longrightarrow> counts_ok c' m' F"
  by (simp add: counts_ok_def)

lemma dom_upd_Some: "m e = Some x \<Longrightarrow> dom (m(e \<mapsto> y)) = dom m"
  by auto

lemma store_entry_Some [vs_simps]:
  "entries w e = Some x \<Longrightarrow> store_entry e f w = Inr (w\<lparr>entries := (entries w)(e \<mapsto> f x)\<rparr>)"
  by (simp add: store_entry_def vs_simps)

lemma load_entry_Some [vs_simps]: "entries w e = Some x \<Longrightarrow> load_entry e w = Inr x"
  by (simp add: load_entry_def vs_simps)

text \<open>Writes to one entry that keep its status.\<close>

lemma pool_update:
  assumes "pool_is w F bk" "entries w e = Some x" "next_e y = next_e x" "prev_e y = prev_e x"
    "alloced y = alloced x" "hashed y = hashed x"
    "hashed x \<noteq> 0 \<Longrightarrow> lid y = lid x" "alloced x = 0 \<Longrightarrow> releasing y = 0"
  shows "pool_is (w\<lparr>entries := (entries w)(e \<mapsto> y)\<rparr>) F bk"
proof -
  have "lists_ok (cntx w) ((entries w)(e \<mapsto> y)) F bk"
    by (rule lists_ok_update [where x = x])
      (use assms in \<open>auto simp: pool_is_def entry_ok_def\<close>)
  moreover have "counts_ok (cntx w) ((entries w)(e \<mapsto> y)) F"
    by (rule counts_ok_cong [of _ "entries w"]) (use assms in \<open>auto simp: pool_is_def\<close>)
  ultimately show ?thesis by (simp add: pool_is_def)
qed

lemma pool_outside:
  assumes "pool_is w F bk" "entries w e = Some x" "alloced x \<noteq> 0" "hashed x = 0"
    "hashed y = 0" "alloced y \<noteq> 0"
  shows "pool_is (w\<lparr>entries := (entries w)(e \<mapsto> y)\<rparr>) F bk"
proof -
  have "lists_ok (cntx w) ((entries w)(e \<mapsto> y)) F bk"
    by (rule lists_ok_outside [where x = x]) (use assms in \<open>auto simp: pool_is_def\<close>)
  moreover have "counts_ok (cntx w) ((entries w)(e \<mapsto> y)) F"
    by (rule counts_ok_cong [of _ "entries w"]) (use assms in \<open>auto simp: pool_is_def\<close>)
  ultimately show ?thesis by (simp add: pool_is_def)
qed

lemma touches_update [simp]:
  "entries w e = Some x \<Longrightarrow> touches e w (w\<lparr>entries := (entries w)(e \<mapsto> y)\<rparr>)"
  by (auto simp: touches_def)

text \<open>Fields the invariant does not mention.\<close>

lemma pool_is_neutral [simp]:
  "pool_is (w\<lparr>sent := a\<rparr>) F bk = pool_is w F bk" "pool_is (w\<lparr>ticks := t\<rparr>) F bk = pool_is w F bk"
  "pool_is (w\<lparr>draws := d\<rparr>) F bk = pool_is w F bk"
  "pool_is (w\<lparr>counters := k\<rparr>) F bk = pool_is w F bk"
  "pool_is (w\<lparr>queues := q\<rparr>) F bk = pool_is w F bk"
  by (simp_all add: pool_is_def)

lemma pool_entry:
  assumes "pool_is w F bk" "entries w e = Some x"
  shows "alloced x = 0 \<longleftrightarrow> e \<in> set F" "alloced x = 0 \<Longrightarrow> hashed x = 0 \<and> releasing x = 0"
    "i < CNTXT_HASH_TABLE_DEPTH \<Longrightarrow>
       e \<in> set (bk i) \<longleftrightarrow> hashed x \<noteq> 0 \<and> bucket_of (hashTableDepth (cntx w)) (lid x) = i"
  using assms by (auto simp: pool_is_def lists_ok_def entry_ok_def)

lemma pool_member:
  assumes "pool_is w F bk"
  shows "e \<in> set F \<Longrightarrow> \<exists>x. entries w e = Some x"
    "i < CNTXT_HASH_TABLE_DEPTH \<Longrightarrow> e \<in> set (bk i) \<Longrightarrow> \<exists>x. entries w e = Some x"
  using assms dlist_in unfolding pool_is_def lists_ok_def by blast+

section \<open>Reserving and unhashing\<close>

lemma reserve_effect:
  assumes ok: "pool_is w F bk" and e: "entries w e = Some x" "alloced x \<noteq> 0" "hashed x = 0"
  defines "b \<equiv> bucket_of (hashTableDepth (cntx w)) (dlid (e_mad x))"
  obtains w' y where "cntxt_reserve E e w = Inr w'" "pool_is w' F (bk(b := e # bk b))"
    "touches e w w'" "entries w' e = Some y"
    "strip y = strip (x\<lparr>lid := dlid (e_mad x), e_tid := mad_tid (e_mad x),
       RespTimeout := defaultTimeout (cntx w), hashed := 1, tstamp := time_at E (ticks w)\<rparr>)"
    "sent w' = sent w" "counters w' = counters w" "draws w' = draws w" "ticks w' = ticks w + 1"
proof -
  let ?y = "x\<lparr>lid := dlid (e_mad x), e_tid := mad_tid (e_mad x),
       RespTimeout := defaultTimeout (cntx w), hashed := 1, tstamp := time_at E (ticks w)\<rparr>"
  have lo: "lists_ok (cntx w) (entries w) F bk" and co: "counts_ok (cntx w) (entries w) F"
    using ok by (simp_all add: pool_is_def)
  have bl: "b < length (hash_lists (cntx w))"
    using lists_bucket [OF lo] lists_okD(5) [OF lo] by (simp add: b_def)
  obtain m' where m': "cntxt_insert_head (hash_lists (cntx w) ! b) e ((entries w)(e \<mapsto> ?y)) = Inr (e, m')"
    "lists_ok ((cntx w)\<lparr>hash_lists := (hash_lists (cntx w))[b := e]\<rparr>) m' F (bk(b := e # bk b))"
    "same_contents ((entries w)(e \<mapsto> ?y)) m'"
    by (rule hash_insert_lists [OF lo e, of ?y b]) (use e in \<open>simp_all add: b_def\<close>)
  obtain y where y: "m' e = Some y" "strip y = strip ?y"
    using same_contentsD2 [OF m'(3), of e ?y] by auto
  have dm: "dom m' = dom (entries w)"
    using same_contents_dom [OF m'(3)] dom_upd_Some [of "entries w", OF e(1)] by simp
  let ?w = "w\<lparr>ticks := ticks w + 1, entries := m',
     cntx := (cntx w)\<lparr>hash_lists := (hash_lists (cntx w))[b := e]\<rparr>\<rparr>"
  have op: "cntxt_reserve E e w = Inr ?w"
    using e(1) bl m'(1)
    by (simp add: cntxt_reserve_def vs_simps vs_time_get_def Let_def on_hash_list_def
        b_def [symmetric])
  have "rest_same e (entries w) m'"
    using rest_same_contents [OF m'(3)] rest_same_upd by (rule rest_same_trans [rotated])
  then have t: "touches e w ?w" using dm by (simp add: touches_def config_of_def)
  have "counts_ok ((cntx w)\<lparr>hash_lists := (hash_lists (cntx w))[b := e]\<rparr>) m' F"
    by (rule counts_ok_cong [OF co dm]) simp_all
  with m'(2) have "pool_is ?w F (bk(b := e # bk b))" by (simp add: pool_is_def)
  from that [OF op this t] y show thesis by simp
qed

lemma unlink_strip: "x\<lparr>prev_e := 0, next_e := 0\<rparr> = strip x"
  by (cases x) (simp add: strip_def)

lemma unhash_effect:
  assumes ok: "pool_is w F bk" and e: "entries w e = Some x" "alloced x \<noteq> 0"
  defines "b \<equiv> bucket_of (hashTableDepth (cntx w)) (lid x)"
  obtains w' y where "cntxt_unhash e w = Inr w'" "pool_is w' F (bk(b := remove1 e (bk b)))"
    "touches e w w'" "entries w' e = Some y" "y = x\<lparr>hashed := 0, next_e := 0, prev_e := 0\<rparr>"
    "sent w' = sent w" "counters w' = counters w" "draws w' = draws w" "ticks w' = ticks w"
    "numWaiters (cntx w') = numWaiters (cntx w)"
proof (cases "hashed x = 0")
  case True
  have lo: "lists_ok (cntx w) (entries w) F bk" using ok by (simp add: pool_is_def)
  have "e \<notin> set (bk b)"
    using pool_entry(3) [OF ok e(1) lists_bucket [OF lo]] True by (simp add: b_def)
  then have bk: "bk(b := remove1 e (bk b)) = bk" by (simp add: remove1_idem)
  let ?y = "x\<lparr>hashed := 0, next_e := 0, prev_e := 0\<rparr>"
  let ?w = "w\<lparr>entries := (entries w)(e \<mapsto> ?y)\<rparr>"
  have ye: "?y = x\<lparr>prev_e := 0, next_e := 0\<rparr>" using True by (cases x) simp
  have "cntxt_unhash e w = Inr (w\<lparr>entries := (entries w)(e \<mapsto> x\<lparr>prev_e := 0, next_e := 0\<rparr>)\<rparr>)"
    using e(1) True by (simp add: cntxt_unhash_def vs_simps)
  then have op: "cntxt_unhash e w = Inr ?w" by (simp only: ye)
  have "pool_is ?w F bk" by (rule pool_outside [OF ok e True]) (use e in simp_all)
  then show thesis using that [OF op] bk e(1) by simp
next
  case False
  let ?y = "x\<lparr>hashed := 0\<rparr>"
  have lo: "lists_ok (cntx w) (entries w) F bk" and co: "counts_ok (cntx w) (entries w) F"
    using ok by (simp_all add: pool_is_def)
  have bl: "b < length (hash_lists (cntx w))"
    using lists_bucket [OF lo] lists_okD(5) [OF lo] by (simp add: b_def)
  obtain p m' where m': "cntxt_delete_entry (hash_lists (cntx w) ! b) e ((entries w)(e \<mapsto> ?y)) = Inr (p, m')"
    "lists_ok ((cntx w)\<lparr>hash_lists := (hash_lists (cntx w))[b := p]\<rparr>) m' F
       (bk(b := remove1 e (bk b)))"
    "same_contents ((entries w)(e \<mapsto> ?y)) m'"
    by (rule hash_remove_lists [OF lo e(1) False, of b ?y]) (use e in \<open>simp_all add: b_def\<close>)
  obtain y where y: "m' e = Some y" "strip y = strip ?y"
    using same_contentsD2 [OF m'(3), of e ?y] by auto
  have dm: "dom m' = dom (entries w)"
    using same_contents_dom [OF m'(3)] dom_upd_Some [of "entries w", OF e(1)] by simp
  let ?w1 = "w\<lparr>entries := m', cntx := (cntx w)\<lparr>hash_lists := (hash_lists (cntx w))[b := p]\<rparr>\<rparr>"
  let ?w = "?w1\<lparr>entries := m'(e \<mapsto> y\<lparr>prev_e := 0, next_e := 0\<rparr>)\<rparr>"
  have op: "cntxt_unhash e w = Inr ?w"
    using e(1) False bl m'(1) y(1)
    by (simp add: cntxt_unhash_def vs_simps Let_def on_hash_list_def b_def [symmetric])
  have ys: "y\<lparr>prev_e := 0, next_e := 0\<rparr> = x\<lparr>hashed := 0, next_e := 0, prev_e := 0\<rparr>"
    using y(2) by (simp only: unlink_strip) (simp add: strip_def)
  have "rest_same e (entries w) m'"
    using rest_same_contents [OF m'(3)] rest_same_upd by (rule rest_same_trans [rotated])
  then have "touches e w ?w1" using dm by (simp add: touches_def config_of_def)
  moreover have "touches e ?w1 ?w" using touches_update [of ?w1 e y] y(1) by simp
  ultimately have t: "touches e w ?w" by (rule touches_trans)
  have "counts_ok ((cntx w)\<lparr>hash_lists := (hash_lists (cntx w))[b := p]\<rparr>) m' F"
    by (rule counts_ok_cong [OF co dm]) simp_all
  with m'(2) have p1: "pool_is ?w1 F (bk(b := remove1 e (bk b)))" by (simp add: pool_is_def)
  have "pool_is ?w F (bk(b := remove1 e (bk b)))"
    using pool_outside [OF p1, of e y "y\<lparr>prev_e := 0, next_e := 0\<rparr>"] y e(2)
      strip_fieldsD [OF y(2)] by simp
  then show thesis using that [OF op _ t] ys by simp
qed

section \<open>Retiring and reusing\<close>

lemma vsema_any_live:
  assumes "sema_live v h"
  shows "\<exists>rc h' v'. cs_vsema (Some h) = Inr (rc, Some h') \<and> sema_live v' h'"
  using assms by (auto simp: cs_vsema_def sema_checked_def sema_live_def)

lemma retire_effect:
  assumes ok: "pool_is w F bk" and e: "entries w e = Some x" "alloced x \<noteq> 0"
  defines "b \<equiv> bucket_of (hashTableDepth (cntx w)) (lid x)"
  obtains w' y where "cs_cntxt_retire_nolock e w = Inr w'"
    "pool_is w' (e # F) (bk(b := remove1 e (bk b)))" "touches e w w'" "entries w' e = Some y"
    "strip y = zero_entry\<lparr>index := index x\<rparr>"
    "sent w' = sent w" "counters w' = counters w" "draws w' = draws w" "ticks w' = ticks w"
proof -
  let ?bk = "bk(b := remove1 e (bk b))"
  obtain w1 x1 where w1: "cntxt_unhash e w = Inr w1" "pool_is w1 F ?bk" "touches e w w1"
    "entries w1 e = Some x1" "x1 = x\<lparr>hashed := 0, next_e := 0, prev_e := 0\<rparr>" "sent w1 = sent w"
    "counters w1 = counters w" "draws w1 = draws w" "ticks w1 = ticks w"
    using unhash_effect [OF ok e] unfolding b_def by metis
  let ?z = "zero_entry\<lparr>index := index x\<rparr>"
  have lo: "lists_ok (cntx w1) (entries w1) F ?bk" and co: "counts_ok (cntx w1) (entries w1) F"
    using w1(2) by (simp_all add: pool_is_def)
  obtain m' where m': "cntxt_insert_head (free_list (cntx w1)) e ((entries w1)(e \<mapsto> ?z)) = Inr (e, m')"
    "lists_ok ((cntx w1)\<lparr>free_list := e\<rparr>) m' (e # F) ?bk"
    "same_contents ((entries w1)(e \<mapsto> ?z)) m'"
    by (rule free_insert_lists [OF lo w1(4), of ?z]) (use w1(5) e in simp_all)
  obtain y where y: "m' e = Some y" "strip y = strip ?z"
    using same_contentsD2 [OF m'(3), of e ?z] by auto
  have dm: "dom m' = dom (entries w1)"
    using same_contents_dom [OF m'(3)] dom_upd_Some [of "entries w1", OF w1(4)] by simp
  define c4 where "c4 = (cntx w1)\<lparr>free_list := e, numFree := numFree (cntx w1) + 1,
     numAlloc := numAlloc (cntx w1) - 1\<rparr>"
  obtain v where v: "sema_live v (freeContextWaitSema (cntx w1))" using co by (auto simp: counts_ok_def)
  obtain rc h v' where h: "cs_vsema (Some (freeContextWaitSema (cntx w1))) = Inr (rc, Some h)"
    "sema_live v' h" using vsema_any_live [OF v] by blast
  define c5 where "c5 = (if numWaiters c4 \<noteq> 0
     then c4\<lparr>numWaiters := numWaiters c4 - 1, freeContextWaitSema := h\<rparr> else c4)"
  let ?w = "w1\<lparr>entries := m', cntx := c5\<rparr>"
  have op: "cs_cntxt_retire_nolock e w = Inr ?w"
    using w1(1,4,5) m'(1) h(1)
    by (simp add: cs_cntxt_retire_nolock_def vs_simps on_free_list_def Let_def set_cntx_def c5_def c4_def)
  have "rest_same e (entries w1) m'"
    using rest_same_contents [OF m'(3)] rest_same_upd by (rule rest_same_trans [rotated])
  moreover have "config_of c5 = config_of (cntx w1)" by (simp add: c5_def c4_def config_of_def)
  ultimately have "touches e w1 ?w" using dm by (simp add: touches_def)
  with w1(3) have t: "touches e w ?w" by (rule touches_trans)
  have "lists_ok c5 m' (e # F) ?bk"
    using m'(2) by (auto simp: lists_ok_def c5_def c4_def)
  moreover have "counts_ok c5 m' (e # F)"
    using co v h(2) dm by (auto simp: counts_ok_def c5_def c4_def)
  ultimately have "pool_is ?w (e # F) ?bk" by (simp add: pool_is_def)
  from that [OF op this t] y w1(6-9) show thesis by (simp add: strip_def)
qed

text \<open>A caller's entry is cleared and, given a packet, hashed again; its total timeout is lost.\<close>

lemma reuse_effect:
  assumes ok: "pool_is w F bk" and e: "entries w e = Some x" "alloced x \<noteq> 0" "hashed x = 0"
  defines "b m \<equiv> bucket_of (hashTableDepth (cntx w)) (dlid m)"
  obtains w' y where "cs_entxt_reuse_nolock E e mad w = Inr w'"
    "pool_is w' F (case mad of None \<Rightarrow> bk | Some m \<Rightarrow> bk(b m := e # bk (b m)))"
    "touches e w w'" "entries w' e = Some y" "alloced y \<noteq> 0" "e_totalTimeout y = 0"
    "cumulative_timeout y = 0" "retries y = 0" "e_callback y = 0" "releasing y = 0"
    "hashed y = (if mad = None then 0 else 1)" "sent w' = sent w"
proof -
  let ?z = "zero_entry\<lparr>index := index x, alloced := 1\<rparr>"
  let ?w1 = "w\<lparr>entries := (entries w)(e \<mapsto> ?z)\<rparr>"
  have p1: "pool_is ?w1 F bk" by (rule pool_outside [OF ok e]) simp_all
  show thesis
  proof (cases mad)
    case None
    have "cs_entxt_reuse_nolock E e mad w = Inr ?w1"
      using e(1) None by (simp add: cs_entxt_reuse_nolock_def vs_simps)
    then show thesis
      by (rule that [where y = ?z]) (use p1 e(1) None in simp_all)
  next
    case (Some m)
    let ?z2 = "?z\<lparr>e_mad := m\<rparr>"
    let ?w2 = "?w1\<lparr>entries := (entries ?w1)(e \<mapsto> ?z2)\<rparr>"
    have p2: "pool_is ?w2 F bk"
      by (rule pool_update [OF p1, of e ?z]) simp_all
    obtain w' y where w': "cntxt_reserve E e ?w2 = Inr w'" "touches e ?w2 w'"
      "pool_is w' F (bk(b m := e # bk (b m)))" "entries w' e = Some y"
      "strip y = strip (?z2\<lparr>lid := dlid (e_mad ?z2), e_tid := mad_tid (e_mad ?z2),
         RespTimeout := defaultTimeout (cntx ?w2), hashed := 1, tstamp := time_at E (ticks ?w2)\<rparr>)"
      "sent w' = sent ?w2"
      by (rule reserve_effect [OF p2, of e ?z2 E]) (simp_all add: b_def)
    have op: "cs_entxt_reuse_nolock E e mad w = Inr w'"
      using e(1) Some w'(1) by (simp add: cs_entxt_reuse_nolock_def vs_simps)
    have "touches e w ?w2" using e(1) by (intro touches_trans [OF touches_update touches_update]) auto
    from touches_trans [OF this w'(2)] have t: "touches e w w'" .
    show thesis
      by (rule that [OF op, where y = y]) (use t w' Some strip_fieldsD [OF w'(5)] in simp_all)
  qed
qed

section \<open>Getting an entry\<close>

lemma get_empty:
  assumes "pool_is w [] bk"
  obtains w' where "cs_cntxt_get_nolock E mad wait w = Inr (0, w')" "pool_is w' [] bk"
    "entries w' = entries w" "touches e w w'"
    "numWaiters (cntx w') = numWaiters (cntx w) + (if wait then 1 else 0)"
proof -
  have "free_list (cntx w) = 0" using assms by (simp add: pool_is_def lists_ok_def)
  then have "cs_cntxt_get_nolock E mad wait w =
      Inr (0, set_cntx (\<lambda>c. c\<lparr>numWaiters := numWaiters c + (if wait then 1 else 0)\<rparr>)
        (w\<lparr>ticks := ticks w + 1\<rparr>))" (is "_ = Inr (0, ?w)")
    by (simp add: cs_cntxt_get_nolock_def vs_time_get_def Let_def set_cntx_def)
  moreover have "pool_is ?w [] bk"
    using assms by (simp add: pool_is_def lists_ok_def counts_ok_def set_cntx_def)
  moreover have "touches e w ?w" by (simp add: touches_def set_cntx_def config_of_def)
  ultimately show thesis using that by (simp add: set_cntx_def)
qed

lemma get_effect:
  assumes ok: "pool_is w (e # F) bk"
  defines "b m \<equiv> bucket_of (hashTableDepth (cntx w)) (dlid m)"
  obtains w' y where "cs_cntxt_get_nolock E mad wait w = Inr (e, w')" "e \<noteq> 0"
    "pool_is w' F (case mad of None \<Rightarrow> bk | Some m \<Rightarrow> bk(b m := e # bk (b m)))"
    "touches e w w'" "entries w' e = Some y" "alloced y \<noteq> 0"
    "e_callback y = e_callback (the (entries w e))"
    "hashed y = (if mad = None then 0 else 1)" "e_totalTimeout y = totalTimeout (cntx w)"
    "\<And>m. mad = Some m \<Longrightarrow> e_mad y = m \<and> lid y = dlid m \<and> e_tid y = mad_tid m"
    "sent w' = sent w"
proof -
  obtain x where x: "entries w e = Some x" using pool_member(1) [OF ok] by auto
  have st: "alloced x = 0" "hashed x = 0" "releasing x = 0"
    using pool_entry(1,2) [OF ok x] by auto
  have lo: "lists_ok (cntx w) (entries w) (e # F) bk" and co: "counts_ok (cntx w) (entries w) (e # F)"
    using ok by (simp_all add: pool_is_def)
  let ?f = "\<lambda>x. x\<lparr>alloced := 1, e_totalTimeout := totalTimeout (cntx w)\<rparr>"
  obtain p m' x' where m': "cntxt_delete_entry (free_list (cntx w)) e (entries w) = Inr (p, m')"
    "free_list (cntx w) = e" "m' e = Some x'" "strip x' = strip x"
    "lists_ok ((cntx w)\<lparr>free_list := p\<rparr>) (m'(e \<mapsto> ?f x')) F bk" "same_contents (entries w) m'"
  proof (rule free_remove_lists [OF lo x, of ?f])
    fix x' assume "strip x' = strip x"
    from strip_fieldsD [OF this] st show "hashed (?f x') = 0 \<and> alloced (?f x') \<noteq> 0" by simp
  qed
  define c where "c = (cntx w)\<lparr>free_list := p, numAlloc := numAlloc (cntx w) + 1,
     numFree := numFree (cntx w) - 1\<rparr>"
  let ?w4 = "w\<lparr>ticks := ticks w + 1, entries := m'(e \<mapsto> ?f x'), cntx := c\<rparr>"
  have e0: "e \<noteq> 0" by (rule lists_nonnull [OF lo x])
  have dm: "dom (m'(e \<mapsto> ?f x')) = dom (entries w)"
    using same_contents_dom [OF m'(6)] dom_upd_Some [of m', OF m'(3)] by simp
  have "counts_ok c (m'(e \<mapsto> ?f x')) F"
    using co dm by (auto simp: counts_ok_def c_def)
  moreover have "lists_ok c (m'(e \<mapsto> ?f x')) F bk"
    using m'(5) by (simp add: lists_ok_def c_def)
  ultimately have p4: "pool_is ?w4 F bk" by (simp add: pool_is_def)
  have "rest_same e (entries w) m'" by (rule rest_same_contents [OF m'(6)])
  then have t4: "touches e w ?w4"
    using dm rest_same_trans [OF _ rest_same_upd] by (simp add: touches_def c_def config_of_def)
  show thesis
  proof (cases mad)
    case None
    have "cs_cntxt_get_nolock E mad wait w = Inr (e, ?w4)"
      using m'(1-3) e0 None
      by (simp add: cs_cntxt_get_nolock_def vs_time_get_def Let_def set_cntx_def vs_simps
          on_free_list_def c_def)
    then show thesis
      by (rule that [where y = "?f x'"])
        (use e0 p4 t4 None strip_fieldsD [OF m'(4)] st x in simp_all)
  next
    case (Some m)
    let ?x5 = "(?f x')\<lparr>e_mad := m\<rparr>"
    let ?w5 = "?w4\<lparr>entries := (entries ?w4)(e \<mapsto> ?x5)\<rparr>"
    have p5: "pool_is ?w5 F bk"
      by (rule pool_update [OF p4, of e "?f x'"])
        (use strip_fieldsD [OF m'(4)] st in simp_all)
    obtain w' y where w': "cntxt_reserve E e ?w5 = Inr w'" "touches e ?w5 w'"
      "pool_is w' F (bk(b m := e # bk (b m)))" "entries w' e = Some y"
      "strip y = strip (?x5\<lparr>lid := dlid (e_mad ?x5), e_tid := mad_tid (e_mad ?x5),
         RespTimeout := defaultTimeout (cntx ?w5), hashed := 1, tstamp := time_at E (ticks ?w5)\<rparr>)"
      "sent w' = sent ?w5"
      by (rule reserve_effect [OF p5, of e ?x5 E])
        (use strip_fieldsD [OF m'(4)] st in \<open>simp_all add: b_def c_def\<close>)
    have op: "cs_cntxt_get_nolock E mad wait w = Inr (e, w')"
      using m'(1-3) e0 Some w'(1)
      by (simp add: cs_cntxt_get_nolock_def vs_time_get_def Let_def set_cntx_def vs_simps
          on_free_list_def c_def)
    have "touches e ?w4 ?w5" by (rule touches_update) simp
    from touches_trans [OF touches_trans [OF t4 this] w'(2)] have t: "touches e w w'" .
    show thesis
      by (rule that [OF op e0, where y = y])
        (use t w' Some strip_fieldsD [OF w'(5)] strip_fieldsD [OF m'(4)] x in simp_all)
  qed
qed

section \<open>Sending and timing out\<close>

lemma increment_fields [simp]:
  "entries (increment c w) = entries w" "cntx (increment c w) = cntx w"
  "queues (increment c w) = queues w" "sent (increment c w) = sent w"
  "ticks (increment c w) = ticks w" "draws (increment c w) = draws w"
  by (simp_all add: increment_def)

lemma count_send_fields [simp]:
  "entries (count_send x w) = entries w" "cntx (count_send x w) = cntx w"
  "queues (count_send x w) = queues w" "sent (count_send x w) = sent w"
  "ticks (count_send x w) = ticks w" "draws (count_send x w) = draws w"
  by (simp_all add: count_send_def)

lemma count_exhausted_fields [simp]:
  "entries (count_exhausted x w) = entries w" "cntx (count_exhausted x w) = cntx w"
  "queues (count_exhausted x w) = queues w" "sent (count_exhausted x w) = sent w"
  "ticks (count_exhausted x w) = ticks w" "draws (count_exhausted x w) = draws w"
  by (simp_all add: count_exhausted_def)

lemma pool_is_same:
  "entries w' = entries w \<Longrightarrow> cntx w' = cntx w \<Longrightarrow> pool_is w' F bk = pool_is w F bk"
  by (simp add: pool_is_def)

lemma transmit_effect:
  assumes ok: "pool_is w F bk" and e: "entries w e = Some x"
  obtains st w' where "transmit E e w = Inr (st, w')" "pool_is w' F bk" "touches e w w'"
    "entries w' e = Some (x\<lparr>retries := retries x + 1,
       sendFailed := (if st = VSTATUS_OK then sendFailed x else 1)\<rparr>)"
    "sent w' = (e_mad x, datalen (e_mad x), RespTimeout x) # sent w" "ticks w' = ticks w"
    "st = send_result E (length (sent w)) (e_mad x) (datalen (e_mad x)) (RespTimeout x)"
proof -
  define st where "st = send_result E (length (sent w)) (e_mad x) (datalen (e_mad x)) (RespTimeout x)"
  define y where "y = x\<lparr>retries := retries x + 1,
       sendFailed := (if st = VSTATUS_OK then sendFailed x else 1)\<rparr>"
  define w' where "w' = (count_send x w)\<lparr>entries := (entries w)(e \<mapsto> y),
     sent := (e_mad x, datalen (e_mad x), RespTimeout x) # sent w\<rparr>"
  have op: "transmit E e w = Inr (st, w')"
    using e by (simp add: transmit_def vs_simps Let_def mai_send_def w'_def y_def st_def)
  have "pool_is (w\<lparr>entries := (entries w)(e \<mapsto> y)\<rparr>) F bk"
    by (rule pool_update [OF ok e]) (use pool_entry(2) [OF ok e] in \<open>simp_all add: y_def\<close>)
  then have p: "pool_is w' F bk"
    by (subst pool_is_same [of _ "w\<lparr>entries := (entries w)(e \<mapsto> y)\<rparr>"]) (simp_all add: w'_def)
  have t: "touches e w w'"
    using dom_upd_Some [of "entries w", OF e] by (simp add: touches_def w'_def)
  show thesis by (rule that [OF op p t]) (simp_all add: w'_def y_def st_def)
qed

text \<open>A retry of a request that is still hashed.\<close>

lemma resend_effect:
  assumes ok: "pool_is w F bk" and e: "entries w e = Some x" "hashed x \<noteq> 0"
  obtains st w' where "cs_cntxt_send_mad_nolock E e w = Inr (st, w')" "pool_is w' F bk"
    "touches e w w'" "entries w' e = Some (x\<lparr>retries := retries x + 1,
       sendFailed := (if st = VSTATUS_OK then 0 else 1)\<rparr>)"
    "sent w' = (e_mad x, datalen (e_mad x), RespTimeout x) # sent w" "ticks w' = ticks w"
    "st = send_result E (length (sent w)) (e_mad x) (datalen (e_mad x)) (RespTimeout x)"
proof -
  let ?x = "x\<lparr>sendFailed := 0\<rparr>"
  let ?w = "w\<lparr>entries := (entries w)(e \<mapsto> ?x)\<rparr>"
  have p: "pool_is ?w F bk"
    by (rule pool_update [OF ok e(1)]) (use pool_entry(2) [OF ok e(1)] in simp_all)
  obtain st w' where w': "transmit E e ?w = Inr (st, w')" "pool_is w' F bk" "touches e ?w w'"
    "entries w' e = Some (?x\<lparr>retries := retries ?x + 1,
       sendFailed := (if st = VSTATUS_OK then sendFailed ?x else 1)\<rparr>)"
    "sent w' = (e_mad ?x, datalen (e_mad ?x), RespTimeout ?x) # sent ?w" "ticks w' = ticks ?w"
    "st = send_result E (length (sent ?w)) (e_mad ?x) (datalen (e_mad ?x)) (RespTimeout ?x)"
    by (rule transmit_effect [OF p, of e ?x E]) simp_all
  have op: "cs_cntxt_send_mad_nolock E e w = Inr (st, w')"
    using e w'(1) by (simp add: cs_cntxt_send_mad_nolock_def vs_simps)
  have t: "touches e w w'" by (rule touches_trans [OF touches_update [OF e(1)] w'(3)])
  show thesis by (rule that [OF op w'(2) t]) (use w' in simp_all)
qed

text \<open>The first transmission of a request: it is hashed under its destination.\<close>

lemma first_send_effect:
  assumes ok: "pool_is w F bk" and e: "entries w e = Some x" "alloced x \<noteq> 0" "hashed x = 0"
  defines "b \<equiv> bucket_of (hashTableDepth (cntx w)) (dlid (e_mad x))"
  obtains st w' y where "cs_cntxt_send_mad_nolock E e w = Inr (st, w')"
    "pool_is w' F (bk(b := e # bk b))" "touches e w w'" "entries w' e = Some y"
    "alloced y \<noteq> 0" "e_callback y = e_callback x" "hashed y \<noteq> 0"
    "sent w' = (e_mad x, datalen (e_mad x), defaultTimeout (cntx w)) # sent w"
proof -
  obtain w1 y1 where w1: "cntxt_reserve E e w = Inr w1" "pool_is w1 F (bk(b := e # bk b))"
    "touches e w w1" "entries w1 e = Some y1"
    "strip y1 = strip (x\<lparr>lid := dlid (e_mad x), e_tid := mad_tid (e_mad x),
       RespTimeout := defaultTimeout (cntx w), hashed := 1, tstamp := time_at E (ticks w)\<rparr>)"
    "sent w1 = sent w"
    by (rule reserve_effect [OF ok e, of E]) (simp_all add: b_def)
  note y1 = strip_fieldsD [OF w1(5)]
  obtain st w' where w': "transmit E e w1 = Inr (st, w')" "pool_is w' F (bk(b := e # bk b))"
    "touches e w1 w'" "entries w' e = Some (y1\<lparr>retries := retries y1 + 1,
       sendFailed := (if st = VSTATUS_OK then sendFailed y1 else 1)\<rparr>)"
    "sent w' = (e_mad y1, datalen (e_mad y1), RespTimeout y1) # sent w1"
    by (rule transmit_effect [OF w1(2,4)])
  have op: "cs_cntxt_send_mad_nolock E e w = Inr (st, w')"
    using e w1(1) w'(1) by (simp add: cs_cntxt_send_mad_nolock_def vs_simps)
  show thesis
    by (rule that [OF op w'(2) touches_trans [OF w1(3) w'(3)] w'(4)])
      (use e(2) y1 w'(5) w1(6) in simp_all)
qed

text \<open>With stepped retries the random spread of a timeout must not be empty: the smallest timeout
  has at least five microseconds, and its multiples fit into 64 bits.\<close>

definition timeouts_ok :: "generic_cntxt_t \<Rightarrow> bool" where
  "timeouts_ok c \<longleftrightarrow> MinRespTimeout c = 0 \<or> 5 \<le> MinRespTimeout c \<and> MinRespTimeout c < 2 ^ 40"

lemma spread_nonzero:
  fixes m :: u64 and r :: u16
  assumes "5 \<le> m" "m < 2 ^ 40"
  defines "t \<equiv> (ucast r + 1) * m"
  shows "(t + t div 5) - (t - t div 5) \<noteq> 0"
proof -
  have r: "unat (ucast r + 1 :: u64) = unat r + 1"
    using unsigned_less [of r, where 'a = nat]
    by (subst unat_add_lem [THEN iffD1]) (simp_all add: unsigned_ucast_eq take_bit_nat_eq_self)
  have m: "unat m < 2 ^ 40" "5 \<le> unat m"
    using assms(1,2) by (simp_all add: word_less_nat_alt word_le_nat_alt)
  have "(unat r + 1) * unat m \<le> 2 ^ 16 * unat m"
    using unsigned_less [of r, where 'a = nat] by (intro mult_le_mono1) simp
  also have "\<dots> < 2 ^ 16 * 2 ^ 40" using m(1) by simp
  finally have b: "(unat r + 1) * unat m < 2 ^ 16 * 2 ^ 40" .
  have ut: "unat t = (unat r + 1) * unat m"
    unfolding t_def by (subst unat_mult_lem [THEN iffD1]) (use r b in simp_all)
  then have t: "5 \<le> unat t" "unat t < 2 ^ 56" using b m(2) by (auto intro: le_trans)
  have "(t + t div 5) - (t - t div 5) = 2 * (t div 5)" by simp
  moreover have "unat (2 * (t div 5)) = 2 * (unat t div 5)"
    by (subst unat_mult_lem [THEN iffD1]) (use t in \<open>simp_all add: unat_div\<close>)
  moreover have "unat t div 5 \<noteq> 0" using t(1) by simp
  ultimately show ?thesis by (metis mult_eq_0_iff unat_0 zero_neq_numeral)
qed

lemma stepped_timeout_total:
  assumes "timeouts_ok (cntx w)" "MinRespTimeout (cntx w) \<noteq> 0"
  obtains t where "stepped_timeout E x w = Inr (t, w\<lparr>draws := draws w + 1\<rparr>)"
proof -
  have "5 \<le> MinRespTimeout (cntx w)" "MinRespTimeout (cntx w) < 2 ^ 40"
    using assms by (auto simp: timeouts_ok_def)
  from spread_nonzero [OF this, of "retries x"] show thesis
    using that by (auto simp: stepped_timeout_def GET_RANDOM_def Let_def)
qed

end
