(* ===== verification/CsContextRun.thy ===== *)
theory CsContextRun
  imports CsContextStep
begin

text \<open>
  Timeouts, responses and ageing of the context pool: every operation returns and keeps the
  invariant, whatever the callbacks decide within their contract.
\<close>

section \<open>A timed out entry\<close>

text \<open>What identifies a request and who waits for it.\<close>

definition same_request :: "cntxt_entry_t \<Rightarrow> cntxt_entry_t \<Rightarrow> bool" where
  "same_request x y \<longleftrightarrow> alloced y = alloced x \<and> hashed y = hashed x \<and> lid y = lid x \<and>
     e_tid y = e_tid x \<and> e_mad y = e_mad x \<and> e_callback y = e_callback x \<and>
     callback_data y = callback_data x \<and> senderWantsResponse y = senderWantsResponse x \<and>
     releasing y = releasing x \<and> e_totalTimeout y = e_totalTimeout x"

lemma pool_same_request:
  assumes "pool_is w F bk" "entries w e = Some x" "same_request x y" "next_e y = next_e x"
    "prev_e y = prev_e x"
  shows "pool_is (w\<lparr>entries := (entries w)(e \<mapsto> y)\<rparr>) F bk"
  by (rule pool_update [OF assms(1,2)])
    (use assms(3-5) pool_entry(2) [OF assms(1,2)] in \<open>auto simp: same_request_def\<close>)

lemma timeout_effect:
  assumes ok: "pool_is w F bk" and e: "entries w e = Some x" "hashed x \<noteq> 0"
    and t: "timeouts_ok (cntx w)"
  obtains st w' y where "cs_cntxt_timeout_entry E e now w = Inr (st, w')" "pool_is w' F bk"
    "touches e w w'" "entries w' e = Some y" "same_request x y" "tstamp y = now"
    "ticks w' = ticks w"
    "MinRespTimeout (cntx w) = 0 \<Longrightarrow> RespTimeout y = RespTimeout x"
    "MinRespTimeout (cntx w) = 0 \<Longrightarrow> int (unat (retries x)) < maxRetries (cntx w) \<Longrightarrow>
       st \<noteq> VSTATUS_TIMEOUT \<and> retries y = retries x + 1"
    "MinRespTimeout (cntx w) = 0 \<Longrightarrow> \<not> int (unat (retries x)) < maxRetries (cntx w) \<Longrightarrow>
       st = VSTATUS_TIMEOUT"
    "MinRespTimeout (cntx w) \<noteq> 0 \<Longrightarrow> cumulative_timeout x + RespTimeout x \<ge> e_totalTimeout x \<Longrightarrow>
       st = VSTATUS_TIMEOUT \<and> sent w' = sent w"
    "MinRespTimeout (cntx w) = 0 \<Longrightarrow>
       sent w' = (if int (unat (retries x)) < maxRetries (cntx w)
                  then (e_mad x, datalen (e_mad x), RespTimeout x) # sent w else sent w) \<and>
       (\<not> int (unat (retries x)) < maxRetries (cntx w) \<longrightarrow> retries y = retries x)"
proof -
  let ?x1 = "x\<lparr>tstamp := now\<rparr>"
  let ?w1 = "w\<lparr>entries := (entries w)(e \<mapsto> ?x1)\<rparr>"
  have p1: "pool_is ?w1 F bk"
    by (rule pool_same_request [OF ok e(1)]) (simp_all add: same_request_def)
  have t1: "touches e w ?w1" by (rule touches_update [OF e(1)])
  let ?mid = "if MinRespTimeout (cntx ?w1) \<noteq> 0
      then and_then (store_entry e
             (\<lambda>x. x\<lparr>cumulative_timeout := cumulative_timeout x + RespTimeout x\<rparr>) ?w1) (\<lambda>w2.
           and_then (load_entry e w2) (\<lambda>x.
           and_then (stepped_timeout E x w2) (\<lambda>(timeout, w3).
             store_entry e (\<lambda>x. x\<lparr>RespTimeout := timeout\<rparr>) w3)))
      else Inr ?w1"
  obtain w4 x4 where w4: "?mid = Inr w4" "pool_is w4 F bk" "touches e w w4"
    "entries w4 e = Some x4" "same_request x x4" "tstamp x4 = now" "retries x4 = retries x"
    "ticks w4 = ticks w"
    "MinRespTimeout (cntx w) = 0 \<Longrightarrow> RespTimeout x4 = RespTimeout x" "sent w4 = sent w"
    "MinRespTimeout (cntx w) \<noteq> 0 \<Longrightarrow> cumulative_timeout x4 = cumulative_timeout x + RespTimeout x"
  proof (cases "MinRespTimeout (cntx w) = 0")
    case True
    show ?thesis
      by (rule that [of ?w1 ?x1]) (use True p1 t1 in \<open>simp_all add: same_request_def\<close>)
  next
    case False
    let ?x2 = "?x1\<lparr>cumulative_timeout := cumulative_timeout x + RespTimeout x\<rparr>"
    let ?w2 = "?w1\<lparr>entries := (entries ?w1)(e \<mapsto> ?x2)\<rparr>"
    obtain tmo where tmo: "stepped_timeout E ?x2 ?w2 = Inr (tmo, ?w2\<lparr>draws := draws ?w2 + 1\<rparr>)"
      by (rule stepped_timeout_total [of ?w2 E ?x2]) (use t False in simp_all)
    let ?x3 = "?x2\<lparr>RespTimeout := tmo\<rparr>"
    let ?w3 = "?w2\<lparr>draws := draws ?w2 + 1, entries := (entries ?w2)(e \<mapsto> ?x3)\<rparr>"
    have "pool_is ?w2 F bk"
      by (rule pool_same_request [OF p1, of e ?x1]) (simp_all add: same_request_def)
    then have "pool_is (?w2\<lparr>draws := draws ?w2 + 1\<rparr>) F bk" by simp
    from pool_same_request [OF this, of e ?x2 ?x3] have p3: "pool_is ?w3 F bk"
      by (simp add: same_request_def)
    have t3: "touches e w ?w3"
      using e(1) by (auto simp: touches_def rest_same_def)
    show ?thesis
      by (rule that [of ?w3 ?x3]) (use False tmo p3 t3 in \<open>simp_all add: vs_simps same_request_def\<close>)
  qed
  have mrt: "MinRespTimeout (cntx w4) = MinRespTimeout (cntx w)"
    "maxRetries (cntx w4) = maxRetries (cntx w)"
    using touches_config [OF w4(3)] by simp_all
  let ?retry = "MinRespTimeout (cntx w4) = 0 \<and> int (unat (retries x4)) < maxRetries (cntx w4) \<or>
      MinRespTimeout (cntx w4) \<noteq> 0 \<and> cumulative_timeout x4 < e_totalTimeout x4"
  have unfold: "cs_cntxt_timeout_entry E e now w =
      (if ?retry
       then and_then (cs_cntxt_send_mad_nolock E e w4) (\<lambda>(status, w5).
              Inr (if status \<noteq> VSTATUS_OK then VSTATUS_BAD else VSTATUS_OK, w5))
       else Inr (VSTATUS_TIMEOUT, count_exhausted x4 w4))"
    unfolding cs_cntxt_timeout_entry_def store_entry_Some [OF e(1)] and_then_simps w4(1)
      load_entry_Some [OF w4(4)] by (rule refl)
  show thesis
  proof (cases ?retry)
    case True
    have "hashed x4 \<noteq> 0" using w4(5) e(2) by (simp add: same_request_def)
    then obtain st w5 where w5: "cs_cntxt_send_mad_nolock E e w4 = Inr (st, w5)" "pool_is w5 F bk"
      "touches e w4 w5" "entries w5 e = Some (x4\<lparr>retries := retries x4 + 1,
         sendFailed := (if st = VSTATUS_OK then 0 else 1)\<rparr>)" "ticks w5 = ticks w4"
      "sent w5 = (e_mad x4, datalen (e_mad x4), RespTimeout x4) # sent w4"
      by (rule resend_effect [OF w4(2,4)])
    have op: "cs_cntxt_timeout_entry E e now w =
        Inr (if st \<noteq> VSTATUS_OK then VSTATUS_BAD else VSTATUS_OK, w5)"
      unfolding unfold if_P [OF True] using w5(1) by simp
    show thesis
      by (rule that [OF op w5(2) touches_trans [OF w4(3) w5(3)] w5(4)])
        (use w4 w5(5,6) True mrt in \<open>auto simp: same_request_def\<close>)
  next
    case False
    have op: "cs_cntxt_timeout_entry E e now w = Inr (VSTATUS_TIMEOUT, count_exhausted x4 w4)"
      unfolding unfold by (rule if_not_P [OF False])
    have p: "pool_is (count_exhausted x4 w4) F bk"
      using w4(2) by (subst pool_is_same [of _ w4]) simp_all
    have tt: "touches e w (count_exhausted x4 w4)" using w4(3) by (simp add: touches_def)
    show thesis
      by (rule that [OF op p tt, where y = x4]) (use w4 False mrt in auto)
  qed
qed

section \<open>Releasing an entry\<close>

text \<open>The response queue, when there is one: it holds entries that are in nobody else's hands, it
  has room for all entries, and no entry has a callback.\<close>

definition resp_ok :: "cntxt_sys \<Rightarrow> nat \<Rightarrow> addr list \<Rightarrow> bool" where
  "resp_ok w cap xs \<longleftrightarrow>
     (if resp_queue (cntx w) = 0 then xs = []
      else queue_is (resp_queue (cntx w)) (queues w) (cap, xs) \<and> poolSize (cntx w) \<le> int cap \<and>
        distinct xs \<and>
        (\<forall>e \<in> set xs. \<exists>x. entries w e = Some x \<and> alloced x \<noteq> 0 \<and> hashed x = 0) \<and>
        (\<forall>e x. entries w e = Some x \<longrightarrow> e_callback x = 0))"

text \<open>How the pool may change while \<open>e\<close> is processed: \<open>e\<close> may leave its hash list, requests may be
  put in front of any list, and the other allocated entries keep their contents.\<close>

definition evolves ::
  "addr \<Rightarrow> cntxt_sys \<Rightarrow> (nat \<Rightarrow> addr list) \<Rightarrow> cntxt_sys \<Rightarrow> (nat \<Rightarrow> addr list) \<Rightarrow> bool" where
  "evolves e w bk w' bk' \<longleftrightarrow> config_of (cntx w') = config_of (cntx w) \<and>
     dom (entries w') = dom (entries w) \<and> ticks w \<le> ticks w' \<and>
     (\<forall>i < CNTXT_HASH_TABLE_DEPTH. \<exists>new. bk' i = new @ bk i \<or> bk' i = new @ removeAll e (bk i)) \<and>
     (\<forall>a x. a \<noteq> e \<longrightarrow> entries w a = Some x \<longrightarrow> alloced x \<noteq> 0 \<longrightarrow>
        (\<exists>y. entries w' a = Some y \<and> strip y = strip x))"

text \<open>What the table asks of a callback.  It is called with an entry that is off every list and
  marked as being released; it returns, keeps the pool well-formed, leaves the other requests and
  the response queue alone, and may retire, reuse or resend its entry and get others.\<close>

definition callback_ok :: "cntxt_env \<Rightarrow> bool" where
  "callback_ok E \<longleftrightarrow>
     (\<forall>f e st d mad w F bk x. pool_is w F bk \<longrightarrow> entries w e = Some x \<longrightarrow> alloced x \<noteq> 0 \<longrightarrow>
        hashed x = 0 \<longrightarrow> releasing x = 1 \<longrightarrow>
        (\<exists>w' F' bk'. run_callback E f e st d mad w = Inr w' \<and> pool_is w' F' bk' \<and>
           evolves e w bk w' bk' \<and> queues w' = queues w))"

lemma evolves_config:
  assumes "evolves e w bk w' bk'"
  shows "hashTableDepth (cntx w') = hashTableDepth (cntx w)"
    "poolSize (cntx w') = poolSize (cntx w)" "maxRetries (cntx w') = maxRetries (cntx w)"
    "defaultTimeout (cntx w') = defaultTimeout (cntx w)"
    "MinRespTimeout (cntx w') = MinRespTimeout (cntx w)"
    "errorOnSendFail (cntx w') = errorOnSendFail (cntx w)"
    "timeoutAdder (cntx w') = timeoutAdder (cntx w)"
    "cx_lock (cntx w') = cx_lock (cntx w)" "resp_queue (cntx w') = resp_queue (cntx w)"
  using assms by (auto simp: evolves_def dest: config_fields)

lemma evolves_refl [simp]: "evolves e w bk w bk"
  by (auto simp: evolves_def)

lemma touches_evolves:
  assumes "touches e w w'"
    "\<And>i. i < CNTXT_HASH_TABLE_DEPTH \<Longrightarrow>
       \<exists>new. bk' i = new @ bk i \<or> bk' i = new @ removeAll e (bk i)"
  shows "evolves e w bk w' bk'"
  using assms(2) touchesD [OF assms(1)] touches_other [OF assms(1)] by (simp add: evolves_def)

lemma evolvesD:
  assumes "evolves e w bk w' bk'"
  shows "config_of (cntx w') = config_of (cntx w)" "dom (entries w') = dom (entries w)"
    "ticks w \<le> ticks w'"
    "i < CNTXT_HASH_TABLE_DEPTH \<Longrightarrow> \<exists>new. bk' i = new @ bk i \<or> bk' i = new @ removeAll e (bk i)"
    "a \<noteq> e \<Longrightarrow> entries w a = Some x \<Longrightarrow> alloced x \<noteq> 0 \<Longrightarrow>
       \<exists>y. entries w' a = Some y \<and> strip y = strip x"
  using assms by (auto simp: evolves_def)

lemma evolves_trans:
  assumes "evolves e w bk w1 bk1" "evolves e w1 bk1 w2 bk2"
  shows "evolves e w bk w2 bk2"
proof -
  have "\<exists>new. bk2 i = new @ bk i \<or> bk2 i = new @ removeAll e (bk i)"
    if i: "i < CNTXT_HASH_TABLE_DEPTH" for i
  proof -
    obtain n1 n2 where n: "bk1 i = n1 @ bk i \<or> bk1 i = n1 @ removeAll e (bk i)"
      "bk2 i = n2 @ bk1 i \<or> bk2 i = n2 @ removeAll e (bk1 i)"
      using evolvesD(4) [OF assms(1) i] evolvesD(4) [OF assms(2) i] by blast
    then have "bk2 i = (n2 @ n1) @ bk i \<or> bk2 i = (n2 @ n1) @ removeAll e (bk i) \<or>
        bk2 i = (n2 @ removeAll e n1) @ removeAll e (bk i)" by auto
    then show ?thesis by blast
  qed
  moreover have "\<exists>z. entries w2 a = Some z \<and> strip z = strip x"
    if a: "a \<noteq> e" "entries w a = Some x" "alloced x \<noteq> 0" for a x
  proof -
    obtain y where y: "entries w1 a = Some y" "strip y = strip x"
      using evolvesD(5) [OF assms(1) a] by blast
    then have "alloced y \<noteq> 0" using a(3) strip_fieldsD [OF y(2)] by simp
    from evolvesD(5) [OF assms(2) a(1) y(1) this] y(2) show ?thesis by auto
  qed
  ultimately show ?thesis
    using evolvesD(1-3) [OF assms(1)] evolvesD(1-3) [OF assms(2)] by (simp add: evolves_def)
qed

lemma remove1_evolves:
  assumes "pool_is w F bk" "i < CNTXT_HASH_TABLE_DEPTH"
  shows "\<exists>new. (bk(b := remove1 e (bk b))) i = new @ bk i \<or>
     (bk(b := remove1 e (bk b))) i = new @ removeAll e (bk i)"
proof -
  have "distinct (bk i)" using assms dlist_distinct by (auto simp: pool_is_def lists_ok_def)
  then have "remove1 e (bk i) = removeAll e (bk i)" by (rule distinct_remove1_removeAll)
  then show ?thesis by (cases "i = b") (auto intro: exI [of _ "[]"])
qed

lemma removal_evolves:
  "pool_is w F bk \<Longrightarrow> touches e w w' \<Longrightarrow> evolves e w bk w' (bk(b := remove1 e (bk b)))"
  by (rule touches_evolves) (auto simp del: fun_upd_apply intro: remove1_evolves)

lemma evolves_queues [simp]: "evolves e w bk (w'\<lparr>queues := q\<rparr>) bk' = evolves e w bk w' bk'"
  by (simp add: evolves_def)

lemma retire_evolves:
  assumes "pool_is w F bk" "entries w e = Some x" "alloced x \<noteq> 0"
  obtains w' bk' y where "cs_cntxt_retire_nolock e w = Inr w'" "pool_is w' (e # F) bk'"
    "evolves e w bk w' bk'" "touches e w w'" "entries w' e = Some y" "e_callback y = 0"
proof (rule retire_effect [OF assms])
  fix w' y assume r: "cs_cntxt_retire_nolock e w = Inr w'" "touches e w w'" "entries w' e = Some y"
    "pool_is w' (e # F) (bk(bucket_of (hashTableDepth (cntx w)) (lid x) :=
       remove1 e (bk (bucket_of (hashTableDepth (cntx w)) (lid x)))))"
    "strip y = zero_entry\<lparr>index := index x\<rparr>"
  have "e_callback y = 0" using arg_cong [OF r(5), of e_callback] by simp
  with that [OF r(1,4) removal_evolves [OF assms(1) r(2)] r(2,3)] show thesis by blast
qed

text \<open>Entering the release: the entry is off its list and marked.\<close>

lemma release_start:
  assumes ok: "pool_is w F bk" and e: "entries w e = Some x" "alloced x \<noteq> 0"
  defines "b \<equiv> bucket_of (hashTableDepth (cntx w)) (lid x)"
  obtains w2 z where "and_then (cntxt_unhash e w) (store_entry e (\<lambda>x. x\<lparr>releasing := 1\<rparr>)) = Inr w2"
    "pool_is w2 F (bk(b := remove1 e (bk b)))" "touches e w w2" "entries w2 e = Some z"
    "z = x\<lparr>hashed := 0, next_e := 0, prev_e := 0, releasing := 1\<rparr>" "ticks w2 = ticks w"
    "sent w2 = sent w"
proof -
  obtain w1 x1 where w1: "cntxt_unhash e w = Inr w1" "pool_is w1 F (bk(b := remove1 e (bk b)))"
    "touches e w w1" "entries w1 e = Some x1" "x1 = x\<lparr>hashed := 0, next_e := 0, prev_e := 0\<rparr>"
    "sent w1 = sent w" "ticks w1 = ticks w"
    using unhash_effect [OF ok e] unfolding b_def by metis
  let ?w2 = "w1\<lparr>entries := (entries w1)(e \<mapsto> x1\<lparr>releasing := 1\<rparr>)\<rparr>"
  have p2: "pool_is ?w2 F (bk(b := remove1 e (bk b)))"
    by (rule pool_update [OF w1(2,4)]) (use w1(5) e(2) in simp_all)
  have t2: "touches e w ?w2" by (rule touches_trans [OF w1(3) touches_update [OF w1(4)]])
  show thesis
    by (rule that [OF _ p2 t2, where z = "x1\<lparr>releasing := 1\<rparr>"])
      (use w1 in \<open>simp_all add: store_entry_Some\<close>)
qed

lemma resp_touches:
  assumes "resp_ok w cap xs" "touches e w w'" "e \<notin> set xs" "entries w' e = Some y"
    "resp_queue (cntx w) \<noteq> 0 \<Longrightarrow> e_callback y = 0"
  shows "resp_ok w' cap xs"
proof (cases "resp_queue (cntx w) = 0")
  case True
  then show ?thesis using assms(1) touches_config [OF assms(2)] by (simp add: resp_ok_def)
next
  case False
  have old: "\<exists>x. entries w a = Some x \<and> strip x = strip v" if "entries w' a = Some v" "a \<noteq> e" for a v
  proof -
    from that(1) have "a \<in> dom (entries w)" using touchesD(2) [OF assms(2)] by auto
    then obtain x where x: "entries w a = Some x" by auto
    from touches_other [OF assms(2) x that(2)] that(1) x show ?thesis by auto
  qed
  have cb: "e_callback v = 0" if v: "entries w' a = Some v" for a v
  proof (cases "a = e")
    case True
    with v assms(4,5) False show ?thesis by simp
  next
    case ne: False
    obtain x where x: "entries w a = Some x" "strip x = strip v" using old [OF v ne] by blast
    then have "e_callback x = 0" using assms(1) False by (simp add: resp_ok_def)
    with strip_fieldsD [OF x(2)] show ?thesis by simp
  qed
  have held: "\<exists>v. entries w' a = Some v \<and> alloced v \<noteq> 0 \<and> hashed v = 0" if a: "a \<in> set xs" for a
  proof -
    obtain x where x: "entries w a = Some x" "alloced x \<noteq> 0" "hashed x = 0"
      using assms(1) False a by (auto simp: resp_ok_def)
    obtain v where v: "entries w' a = Some v" "strip v = strip x"
      using touches_other [OF assms(2) x(1)] a assms(3) by metis
    with x(2,3) strip_fieldsD [OF v(2)] show ?thesis by auto
  qed
  from assms(1) False cb held show ?thesis
    using touches_config [OF assms(2)] touchesD(4) [OF assms(2)] by (simp add: resp_ok_def)
qed

text \<open>There is always room: the queued entries and the one being released are distinct entries.\<close>

lemma resp_room:
  assumes "pool_is w F bk" "entries w e = Some x" "resp_ok w cap xs" "e \<notin> set xs"
    "resp_queue (cntx w) \<noteq> 0"
  shows "length xs < cap"
proof -
  have fin: "finite (dom (entries w))" and card: "int (card (dom (entries w))) = poolSize (cntx w)"
    using assms(1) by (simp_all add: pool_is_def counts_ok_def)
  have "insert e (set xs) \<subseteq> dom (entries w)"
    using assms(2,3,5) by (auto simp: resp_ok_def)
  then have "card (insert e (set xs)) \<le> card (dom (entries w))" by (rule card_mono [OF fin])
  then have "length xs + 1 \<le> card (dom (entries w))"
    using assms(3-5) by (simp add: resp_ok_def distinct_card)
  with card assms(3,5) show ?thesis by (simp add: resp_ok_def)
qed

text \<open>The release through the response queue.\<close>

lemma release_to_queue:
  assumes ok: "pool_is w F bk" and e: "entries w e = Some x" "alloced x \<noteq> 0"
    and r: "resp_ok w cap xs" "e \<notin> set xs" "resp_queue (cntx w) \<noteq> 0" "senderWantsResponse x \<noteq> 0"
  obtains w' bk' z where "cntxt_release E self e st mad w = Inr w'" "pool_is w' F bk'"
    "evolves e w bk w' bk'" "resp_ok w' cap (xs @ [e])" "entries w' e = Some z"
    "e_mad z = (case mad of Some m \<Rightarrow> m | None \<Rightarrow> (e_mad x)\<lparr>mai_type := MAI_TYPE_ERROR\<rparr>)"
    "hashed z = 0"
proof -
  obtain w2 z where w2: "and_then (cntxt_unhash e w) (store_entry e (\<lambda>x. x\<lparr>releasing := 1\<rparr>)) = Inr w2"
    "pool_is w2 F (bk(bucket_of (hashTableDepth (cntx w)) (lid x) :=
       remove1 e (bk (bucket_of (hashTableDepth (cntx w)) (lid x)))))" (is "pool_is _ _ ?bk")
    "touches e w w2" "entries w2 e = Some z"
    "z = x\<lparr>hashed := 0, next_e := 0, prev_e := 0, releasing := 1\<rparr>"
    by (rule release_start [OF ok e])
  let ?q = "resp_queue (cntx w)"
  have q2: "resp_queue (cntx w2) = ?q" using touches_config [OF w2(3)] by simp
  have cb: "e_callback x = 0" using r e(1) by (simp add: resp_ok_def)
  let ?z3 = "z\<lparr>e_mad := (case mad of Some m \<Rightarrow> m | None \<Rightarrow> (e_mad z)\<lparr>mai_type := MAI_TYPE_ERROR\<rparr>)\<rparr>"
  let ?w3 = "w2\<lparr>entries := (entries w2)(e \<mapsto> ?z3)\<rparr>"
  have p3: "pool_is ?w3 F ?bk"
    by (rule pool_update [OF w2(2,4)]) (use w2(5) e(2) in simp_all)
  have t3: "touches e w ?w3" by (rule touches_trans [OF w2(3) touches_update [OF w2(4)]])
  have r3: "resp_ok ?w3 cap xs"
    by (rule resp_touches [OF r(1) t3 r(2), of ?z3]) (use cb w2(5) in simp_all)
  have room: "length xs \<noteq> cap" using resp_room [OF ok e(1) r(1-3)] by simp
  have q3: "resp_queue (cntx ?w3) = ?q" using q2 by simp
  have "queue_is ?q (queues ?w3) (cap, xs)" using r3 r(3) q3 by (simp add: resp_ok_def)
  then obtain qs where qs: "cs_queue_Enqueue self e ?q (queues ?w3) = Inr (VSTATUS_OK, qs)"
    "queue_is ?q qs (cap, xs @ [e])"
    by (rule Enqueue_effect [of ?q "queues ?w3" "(cap, xs)" self e]) (use room in auto)
  let ?w4 = "?w3\<lparr>queues := qs\<rparr>"
  obtain w1 where w1: "cntxt_unhash e w = Inr w1" "store_entry e (\<lambda>x. x\<lparr>releasing := 1\<rparr>) w1 = Inr w2"
    using w2(1) by (cases "cntxt_unhash e w") auto
  have zf: "senderWantsResponse z \<noteq> 0" "e_callback z = 0" using w2(5) r(4) cb by simp_all
  have op: "cntxt_release E self e st mad w = Inr ?w4"
    using w1 w2(4) zf r(3) q2 qs(1) by (simp add: cntxt_release_def vs_simps)
  have "resp_ok ?w4 cap (xs @ [e])"
    using r3 qs(2) q3 r(2,3) w2(5) e(2) by (auto simp: resp_ok_def)
  moreover have "evolves e w bk ?w4 ?bk"
    using removal_evolves [OF ok t3] by simp
  moreover have "pool_is ?w4 F ?bk" using p3 by simp
  ultimately show thesis
    using that [OF op, of ?bk ?z3] w2(5) by (simp split: option.splits)
qed

text \<open>The release through a callback, or with nobody waiting.\<close>

lemma release_to_caller:
  assumes ok: "pool_is w F bk" and e: "entries w e = Some x" "alloced x \<noteq> 0"
    and m: "senderWantsResponse x = 0 \<or> resp_queue (cntx w) = 0"
    and cb: "e_callback x \<noteq> 0 \<Longrightarrow> callback_ok E \<and> resp_queue (cntx w) = 0"
    and r: "resp_ok w cap xs" "e \<notin> set xs"
  obtains w' F' bk' where "cntxt_release E self e st mad w = Inr w'" "pool_is w' F' bk'"
    "evolves e w bk w' bk'" "resp_ok w' cap xs"
    "e_callback x = 0 \<Longrightarrow> touches e w w' \<and> ticks w' = ticks w \<and> sent w' = sent w \<and> F' = e # F \<and>
       bk' = bk(bucket_of (hashTableDepth (cntx w)) (lid x) :=
         remove1 e (bk (bucket_of (hashTableDepth (cntx w)) (lid x))))"
    "e_callback x \<noteq> 0 \<Longrightarrow> \<exists>w2 w3 y. touches e w w2 \<and>
       run_callback E (e_callback x) e st (callback_data x) mad w2 = Inr w3 \<and>
       entries w3 e = Some y \<and>
       (if releasing y \<noteq> 0 then cs_cntxt_retire_nolock e w3 = Inr w' else w' = w3)"
proof -
  let ?b = "bucket_of (hashTableDepth (cntx w)) (lid x)"
  let ?bk = "bk(?b := remove1 e (bk ?b))"
  obtain w2 z where w2: "and_then (cntxt_unhash e w) (store_entry e (\<lambda>x. x\<lparr>releasing := 1\<rparr>)) = Inr w2"
    "pool_is w2 F ?bk" "touches e w w2" "entries w2 e = Some z"
    "z = x\<lparr>hashed := 0, next_e := 0, prev_e := 0, releasing := 1\<rparr>" "ticks w2 = ticks w" "sent w2 = sent w"
    by (rule release_start [OF ok e])
  obtain w1 where w1: "cntxt_unhash e w = Inr w1" "store_entry e (\<lambda>x. x\<lparr>releasing := 1\<rparr>) w1 = Inr w2"
    using w2(1) by (cases "cntxt_unhash e w") auto
  have q2: "resp_queue (cntx w2) = resp_queue (cntx w)" using touches_config [OF w2(3)] by simp
  have zf: "senderWantsResponse z = senderWantsResponse x" "e_callback z = e_callback x"
    "releasing z = 1" "hashed z = 0" "alloced z \<noteq> 0" "lid z = lid x"
    "callback_data z = callback_data x"
    using w2(5) e(2) by simp_all
  have ev2: "evolves e w bk w2 ?bk" by (rule removal_evolves [OF ok w2(3)])
  have op: "cntxt_release E self e st mad w =
      and_then (if e_callback x \<noteq> 0
                then run_callback E (e_callback x) e st (callback_data x) mad w2 else Inr w2) (\<lambda>w3.
      and_then (load_entry e w3) (\<lambda>y.
        if releasing y \<noteq> 0 then cs_cntxt_retire_nolock e w3 else Inr w3))"
    using w1 w2(4) zf m q2 by (auto simp: cntxt_release_def vs_simps)
  show thesis
  proof (cases "e_callback x = 0")
    case True
    obtain w' y where w': "cs_cntxt_retire_nolock e w2 = Inr w'"
      "pool_is w' (e # F) (?bk(?b := remove1 e (?bk ?b)))" "touches e w2 w'" "entries w' e = Some y"
      "strip y = zero_entry\<lparr>index := index z\<rparr>" "ticks w' = ticks w2" "sent w' = sent w2"
      using retire_effect [OF w2(2,4) zf(5)] touches_config(1) [OF w2(3)] zf(6) by metis
    have d: "distinct (bk ?b)"
      using ok lists_bucket dlist_distinct unfolding pool_is_def lists_ok_def by metis
    then have "e \<notin> set (remove1 e (bk ?b))" by simp
    then have "?bk(?b := remove1 e (?bk ?b)) = ?bk" by (simp add: remove1_idem)
    with w'(2) have p': "pool_is w' (e # F) ?bk" by simp
    have t: "touches e w w'" by (rule touches_trans [OF w2(3) w'(3)])
    have y: "e_callback y = 0" using arg_cong [OF w'(5), of e_callback] by simp
    have "cntxt_release E self e st mad w = Inr w'"
      using op True w2(4) zf(3) w'(1) by (simp add: vs_simps)
    from that [OF this p' removal_evolves [OF ok t] resp_touches [OF r(1) t r(2) w'(4)]] y t w'(6,7) w2(6,7) True
    show thesis by simp
  next
    case False
    with cb have c: "callback_ok E" and q0: "resp_queue (cntx w) = 0" by simp_all
    obtain w3 F3 bk3 where w3: "run_callback E (e_callback x) e st (callback_data x) mad w2 = Inr w3"
      "pool_is w3 F3 bk3" "evolves e w2 ?bk w3 bk3"
      using c w2(2,4) zf(3-5) unfolding callback_ok_def by blast
    have ev3: "evolves e w bk w3 bk3" by (rule evolves_trans [OF ev2 w3(3)])
    have "e \<in> dom (entries w3)" using evolvesD(2) [OF w3(3)] w2(4) by auto
    then obtain y where y: "entries w3 e = Some y" by auto
    have resp: "resp_ok v cap xs" if "resp_queue (cntx v) = 0" for v
      using r(1) q0 that by (simp add: resp_ok_def)
    show thesis
    proof (cases "releasing y = 0")
      case True
      have "cntxt_release E self e st mad w = Inr w3"
        using op False w3(1) y True by (simp add: vs_simps)
      moreover have "\<exists>v2 v3 z. touches e w v2 \<and>
          run_callback E (e_callback x) e st (callback_data x) mad v2 = Inr v3 \<and>
          entries v3 e = Some z \<and>
          (if releasing z \<noteq> 0 then cs_cntxt_retire_nolock e v3 = Inr w3 else w3 = v3)"
        using True y w3(1) w2(3) by metis
      ultimately show thesis
        using that [OF _ w3(2) ev3 resp] False q0 evolves_config [OF ev3] by simp
    next
      case rel: False
      then have ay: "alloced y \<noteq> 0" using pool_entry(2) [OF w3(2) y] by auto
      obtain w' bk' where w': "cs_cntxt_retire_nolock e w3 = Inr w'" "pool_is w' (e # F3) bk'"
        "evolves e w3 bk3 w' bk'"
        by (rule retire_evolves [OF w3(2) y ay])
      have ev: "evolves e w bk w' bk'" by (rule evolves_trans [OF ev3 w'(3)])
      have "cntxt_release E self e st mad w = Inr w'"
        using op False w3(1) y rel w'(1) by (simp add: vs_simps)
      moreover have "\<exists>v2 v3 z. touches e w v2 \<and>
          run_callback E (e_callback x) e st (callback_data x) mad v2 = Inr v3 \<and>
          entries v3 e = Some z \<and>
          (if releasing z \<noteq> 0 then cs_cntxt_retire_nolock e v3 = Inr w' else w' = v3)"
        using rel y w3(1) w2(3) w'(1) by metis
      ultimately show thesis
        using that [OF _ w'(2) ev resp] False q0 evolves_config [OF ev] by simp
    qed
  qed
qed

text \<open>The invariant of a table in use, lock apart.\<close>

definition cntxt_ok ::
  "cntxt_env \<Rightarrow> nat \<Rightarrow> cntxt_sys \<Rightarrow> addr list \<Rightarrow> (nat \<Rightarrow> addr list) \<Rightarrow> addr list \<Rightarrow> bool" where
  "cntxt_ok E cap w F bk xs \<longleftrightarrow> pool_is w F bk \<and> resp_ok w cap xs \<and> timeouts_ok (cntx w) \<and>
     callback_ok E"

lemma timeouts_config:
  assumes "config_of c' = config_of c"
  shows "timeouts_ok c' = timeouts_ok c"
  by (simp add: timeouts_ok_def config_fields [OF assms])

lemma release_effect:
  assumes ok: "cntxt_ok E cap w F bk xs" and e: "entries w e = Some x" "alloced x \<noteq> 0" "e \<notin> set xs"
  obtains w' F' bk' xs' where "cntxt_release E self e st mad w = Inr w'"
    "cntxt_ok E cap w' F' bk' xs'" "evolves e w bk w' bk'"
proof -
  have p: "pool_is w F bk" and r: "resp_ok w cap xs" and t: "timeouts_ok (cntx w)"
    and c: "callback_ok E" using ok by (simp_all add: cntxt_ok_def)
  have keep: "cntxt_ok E cap w' F' bk' xs'"
    if "pool_is w' F' bk'" "evolves e w bk w' bk'" "resp_ok w' cap xs'" for w' F' bk' xs'
    using that t c timeouts_config [OF evolvesD(1) [OF that(2)]] by (simp add: cntxt_ok_def)
  show thesis
  proof (cases "senderWantsResponse x \<noteq> 0 \<and> resp_queue (cntx w) \<noteq> 0")
    case True
    then obtain w' bk' where w': "cntxt_release E self e st mad w = Inr w'" "pool_is w' F bk'"
      "evolves e w bk w' bk'" "resp_ok w' cap (xs @ [e])"
      using release_to_queue [OF p e(1,2) r e(3)] by metis
    from that [OF w'(1) keep [OF w'(2-4)] w'(3)] show thesis .
  next
    case False
    have cb: "callback_ok E \<and> resp_queue (cntx w) = 0" if "e_callback x \<noteq> 0"
      using that r e(1) c by (auto simp: resp_ok_def split: if_splits)
    obtain w' F' bk' where w': "cntxt_release E self e st mad w = Inr w'" "pool_is w' F' bk'"
      "evolves e w bk w' bk'" "resp_ok w' cap xs"
      using release_to_caller [OF p e(1,2) _ cb r e(3)] False by metis
    from that [OF w'(1) keep [OF w'(2-4)] w'(3)] show thesis .
  qed
qed

end
