(* ===== verification/CsContextAge.thy ===== *)
theory CsContextAge
  imports CsContextRun
begin

text \<open>
  The traversal of \<^verbatim>\<open>cs_cntxt_age\<close>.  The loop saves the link before an entry is processed, and
  processing may release the entry, run a callback, and put new requests in front of any list.
  The locale \<open>ageing\<close> states what one pass must do for the traversal to end and to treat every
  request once; it is interpreted for tables with arbitrary callbacks and for tables without.
\<close>

section \<open>The loops, from a contract for one entry\<close>

locale ageing =
  fixes E :: cntxt_env and self :: tid and timenow :: u64
    and inv :: "cntxt_sys \<Rightarrow> addr list \<Rightarrow> (nat \<Rightarrow> addr list) \<Rightarrow> bool"
    and todo finished :: "cntxt_entry_t \<Rightarrow> bool"
  assumes inv_pool: "inv w F bk \<Longrightarrow> pool_is w F bk"
    and todo_strip: "strip y = strip x \<Longrightarrow> todo x \<Longrightarrow> todo y"
    and finished_strip: "strip y = strip x \<Longrightarrow> finished x \<Longrightarrow> finished y"
    and step: "inv w F bk \<Longrightarrow> entries w e = Some x \<Longrightarrow> hashed x \<noteq> 0 \<Longrightarrow> todo x \<Longrightarrow>
      \<exists>small' w' F' bk'. age_entry E self timenow e small w = Inr (small', w') \<and>
        inv w' F' bk' \<and> evolves e w bk w' bk' \<and>
        (\<forall>j < CNTXT_HASH_TABLE_DEPTH. \<forall>a \<in> set (bk' j). \<forall>y. entries w' a = Some y \<longrightarrow>
           (a \<notin> set (bk j) \<longrightarrow> todo y \<and> finished y) \<and> (a = e \<longrightarrow> finished y))"
begin

text \<open>The lists before \<open>k\<close> are finished, those behind it and the part \<open>ys\<close> of the \<open>k\<close>th are not.\<close>

definition staged :: "nat \<Rightarrow> addr list \<Rightarrow> cntxt_sys \<Rightarrow> (nat \<Rightarrow> addr list) \<Rightarrow> bool" where
  "staged k ys w bk \<longleftrightarrow>
     (\<forall>j < CNTXT_HASH_TABLE_DEPTH. \<forall>a \<in> set (bk j). \<forall>y. entries w a = Some y \<longrightarrow>
        (j < k \<or> j = k \<and> a \<notin> set ys \<longrightarrow> finished y) \<and> (k < j \<or> j = k \<and> a \<in> set ys \<longrightarrow> todo y))"

lemma chain_step:
  assumes i: "inv w F bk" and k: "k < CNTXT_HASH_TABLE_DEPTH" and bk: "bk k = pre @ e # ys"
    and st: "staged k (e # ys) w bk" and e: "entries w e = Some x"
  obtains small' w' F' bk' pre' where "age_entry E self timenow e small w = Inr (small', w')"
    "inv w' F' bk'" "config_of (cntx w') = config_of (cntx w)" "ticks w \<le> ticks w'"
    "bk' k = pre' @ ys" "staged k ys w' bk'"
proof -
  note p = inv_pool [OF i]
  have d: "distinct (pre @ e # ys)"
    using p k bk dlist_distinct unfolding pool_is_def lists_ok_def by metis
  have ek: "e \<in> set (bk k)" using bk by simp
  have h: "hashed x \<noteq> 0" using pool_entry(3) [OF p e k] ek by simp
  have td: "todo x" using st k ek e unfolding staged_def by auto
  obtain small' w' F' bk' where s: "age_entry E self timenow e small w = Inr (small', w')"
    "inv w' F' bk'" "evolves e w bk w' bk'"
    and new: "\<And>j a y. j < CNTXT_HASH_TABLE_DEPTH \<Longrightarrow> a \<in> set (bk' j) \<Longrightarrow> entries w' a = Some y \<Longrightarrow>
        (a \<notin> set (bk j) \<longrightarrow> todo y \<and> finished y) \<and> (a = e \<longrightarrow> finished y)"
    using step [OF i e h td] by blast
  obtain n where "bk' k = n @ bk k \<or> bk' k = n @ removeAll e (bk k)"
    using evolvesD(4) [OF s(3) k] by blast
  moreover have "removeAll e (bk k) = pre @ ys" using d bk by (simp add: removeAll_id)
  ultimately have "bk' k = (n @ pre @ [e]) @ ys \<or> bk' k = (n @ pre) @ ys" using bk by auto
  then obtain pre' where pre': "bk' k = pre' @ ys" by blast
  have "staged k ys w' bk'"
    unfolding staged_def
  proof (intro allI impI ballI)
    fix j a y assume j: "j < CNTXT_HASH_TABLE_DEPTH" and a: "a \<in> set (bk' j)"
      and y: "entries w' a = Some y"
    show "(j < k \<or> j = k \<and> a \<notin> set ys \<longrightarrow> finished y) \<and> (k < j \<or> j = k \<and> a \<in> set ys \<longrightarrow> todo y)"
    proof (cases "a \<in> set (bk j)")
      case False
      with new [OF j a y] show ?thesis by blast
    next
      case True
      show ?thesis
      proof (cases "a = e")
        case ae: True
        have "j = k"
          using pool_entry(3) [OF p e j] pool_entry(3) [OF p e k] True ek ae by simp
        with ae new [OF j a y] d show ?thesis by auto
      next
        case ne: False
        obtain u where u: "entries w a = Some u" using pool_member(2) [OF p j True] by blast
        then have "alloced u \<noteq> 0"
          using pool_entry(2) [OF p u] pool_entry(3) [OF p u j] True by auto
        from evolvesD(5) [OF s(3) ne u this] y have us: "strip y = strip u" by auto
        have "(j < k \<or> j = k \<and> a \<notin> set (e # ys) \<longrightarrow> finished u) \<and>
            (k < j \<or> j = k \<and> a \<in> set (e # ys) \<longrightarrow> todo u)"
          using st j True u unfolding staged_def by blast
        with us ne show ?thesis using todo_strip finished_strip by auto
      qed
    qed
  qed
  with that [OF s(1,2) evolvesD(1) [OF s(3)] evolvesD(3) [OF s(3)] pre'] show thesis by blast
qed

lemma suffix_path:
  assumes "pool_is w F bk" "k < CNTXT_HASH_TABLE_DEPTH" "bk k = pre @ ys"
  shows "path next_e (entries w) (case ys of [] \<Rightarrow> 0 | y # _ \<Rightarrow> y) ys 0"
proof -
  have "path next_e (entries w) (hash_lists (cntx w) ! k) (pre @ ys) 0"
    using assms unfolding pool_is_def lists_ok_def dlist_def by metis
  then obtain r where "path next_e (entries w) r ys 0" by (auto simp: path_append)
  with path_start [OF this] show ?thesis by simp
qed

lemma chain_total:
  assumes "inv w F bk" "k < CNTXT_HASH_TABLE_DEPTH" "bk k = pre @ ys" "staged k ys w bk"
    "p = (case ys of [] \<Rightarrow> 0 | y # _ \<Rightarrow> y)"
  shows "\<exists>small' w' F' bk'. age_chain E self timenow p small w = Some (Inr (small', w')) \<and>
    inv w' F' bk' \<and> config_of (cntx w') = config_of (cntx w) \<and> ticks w \<le> ticks w' \<and>
    staged k [] w' bk'"
  using assms
proof (induction ys arbitrary: w F bk pre p small)
  case Nil
  have "age_chain E self timenow p small w = Some (Inr (small, w))"
    using Nil.prems(5) by (subst age_chain.simps) simp
  with Nil.prems show ?case by auto
next
  case (Cons e ys)
  have pth: "path next_e (entries w) e (e # ys) 0"
    using suffix_path [OF inv_pool [OF Cons.prems(1)] Cons.prems(2,3)] by simp
  then obtain x where x: "e \<noteq> 0" "entries w e = Some x" "path next_e (entries w) (next_e x) ys 0"
    by auto
  obtain small1 w1 F1 bk1 pre1 where s: "age_entry E self timenow e small w = Inr (small1, w1)"
    "inv w1 F1 bk1" "config_of (cntx w1) = config_of (cntx w)" "ticks w \<le> ticks w1"
    "bk1 k = pre1 @ ys" "staged k ys w1 bk1"
    by (rule chain_step [OF Cons.prems(1-4) x(2)])
  have "age_chain E self timenow p small w = age_chain E self timenow (next_e x) small1 w1"
    using Cons.prems(5) x(1,2) s(1) by (subst age_chain.simps) simp
  with Cons.IH [OF s(2) Cons.prems(2) s(5,6) path_start [OF x(3)], of small1] s(3,4)
  show ?case by fastforce
qed

lemma staged_next: "staged k [] w bk \<Longrightarrow> k + 1 < CNTXT_HASH_TABLE_DEPTH \<Longrightarrow> staged (k + 1) (bk (k + 1)) w bk"
  unfolding staged_def by (auto simp: less_Suc_eq)

lemma buckets_total:
  assumes "inv w F bk" "i + n \<le> CNTXT_HASH_TABLE_DEPTH"
    "0 < n \<Longrightarrow> staged i (bk i) w bk"
  shows "\<exists>small' w' F' bk'. age_buckets E self timenow i n small w = Inr (small', w') \<and>
    inv w' F' bk' \<and> config_of (cntx w') = config_of (cntx w) \<and> ticks w \<le> ticks w' \<and>
    (0 < n \<longrightarrow> staged (i + n - 1) [] w' bk')"
  using assms
proof (induction n arbitrary: i w F bk small)
  case 0
  then show ?case by auto
next
  case (Suc n)
  note p = inv_pool [OF Suc.prems(1)]
  have i: "i < CNTXT_HASH_TABLE_DEPTH" using Suc.prems(2) by simp
  have "hash_lists (cntx w) ! i = (case bk i of [] \<Rightarrow> 0 | y # _ \<Rightarrow> y)"
    using p i path_start unfolding pool_is_def lists_ok_def dlist_def by metis
  from chain_total [OF Suc.prems(1) i _ Suc.prems(3) this, of "[]" small]
  obtain small1 w1 F1 bk1 where
    c: "age_chain E self timenow (hash_lists (cntx w) ! i) small w = Some (Inr (small1, w1))"
    "inv w1 F1 bk1" "config_of (cntx w1) = config_of (cntx w)" "ticks w \<le> ticks w1" "staged i [] w1 bk1"
    by auto
  have "length (hash_lists (cntx w)) = CNTXT_HASH_TABLE_DEPTH"
    using p by (simp add: pool_is_def lists_ok_def)
  with c(1) i have op: "age_buckets E self timenow i (Suc n) small w =
      age_buckets E self timenow (i + 1) n small1 w1" by simp
  show ?case
  proof (cases n)
    case 0
    with op c(2-5) show ?thesis by auto
  next
    case (Suc m)
    have "staged (i + 1) (bk1 (i + 1)) w1 bk1"
      by (rule staged_next [OF c(5)]) (use Suc.prems(2) Suc in simp)
    with Suc.IH [OF c(2), of "i + 1" small1] Suc.prems(2) obtain small2 w2 F2 bk2 where
      "age_buckets E self timenow (i + 1) n small1 w1 = Inr (small2, w2)" "inv w2 F2 bk2"
      "config_of (cntx w2) = config_of (cntx w1)" "ticks w1 \<le> ticks w2"
      "0 < n \<longrightarrow> staged (i + 1 + n - 1) [] w2 bk2" by auto
    with op c(3,4) Suc show ?thesis by auto
  qed
qed

end

section \<open>With arbitrary callbacks\<close>

lemma ok_touches:
  assumes "cntxt_ok E cap w F bk xs" "touches e w w'" "pool_is w' F' bk'" "e \<notin> set xs"
    "entries w' e = Some y" "resp_queue (cntx w) \<noteq> 0 \<Longrightarrow> e_callback y = 0"
  shows "cntxt_ok E cap w' F' bk' xs"
  using assms resp_touches [OF _ assms(2,4,5,6)] timeouts_config [OF touchesD(3) [OF assms(2)]]
  by (simp add: cntxt_ok_def)

lemma hashed_not_queued:
  assumes "resp_ok w cap xs" "entries w e = Some x" "hashed x \<noteq> 0"
  shows "e \<notin> set xs"
  using assms by (auto simp: resp_ok_def split: if_splits)

lemma touches_evolves_same: "touches e w w' \<Longrightarrow> evolves e w bk w' bk"
  by (rule touches_evolves) auto

lemma age_entry_total:
  assumes ok: "cntxt_ok E cap w F bk xs" and e: "entries w e = Some x" "hashed x \<noteq> 0"
  shows "\<exists>small' w' F' bk' xs'. age_entry E self timenow e small w = Inr (small', w') \<and>
    cntxt_ok E cap w' F' bk' xs' \<and> evolves e w bk w' bk'"
proof (cases "timenow - tstamp x \<ge> RespTimeout x + adder_of x w")
  case False
  have "\<exists>s. age_entry E self timenow e small w = Inr (s, w)"
    using False e by (simp add: age_entry_def vs_simps Let_def)
  then show ?thesis using ok evolves_refl by blast
next
  case True
  have p: "pool_is w F bk" and t: "timeouts_ok (cntx w)" and r: "resp_ok w cap xs"
    using ok by (simp_all add: cntxt_ok_def)
  have q: "e \<notin> set xs" by (rule hashed_not_queued [OF r e])
  obtain st w1 y where w1: "cs_cntxt_timeout_entry E e timenow w = Inr (st, w1)" "pool_is w1 F bk"
    "touches e w w1" "entries w1 e = Some y" "same_request x y"
    by (rule timeout_effect [OF p e t])
  have cb: "resp_queue (cntx w) \<noteq> 0 \<Longrightarrow> e_callback y = 0"
    using r e(1) w1(5) by (simp add: resp_ok_def same_request_def)
  have ok1: "cntxt_ok E cap w1 F bk xs" by (rule ok_touches [OF ok w1(3,2) q w1(4) cb])
  have ay: "alloced y \<noteq> 0"
    using w1(5) e(2) pool_entry(2) [OF p e(1)] by (auto simp: same_request_def)
  show ?thesis
  proof (cases "gives_up st w1")
    case g: True
    obtain w2 F2 bk2 xs2 where w2: "cntxt_release E self e st None w1 = Inr w2"
      "cntxt_ok E cap w2 F2 bk2 xs2" "evolves e w1 bk w2 bk2"
      by (rule release_effect [OF ok1 w1(4) ay q])
    have "age_entry E self timenow e small w = Inr (small, w2)"
      using True e w1(1) g w2(1) by (simp add: age_entry_def vs_simps)
    with w2(2) evolves_trans [OF touches_evolves_same [OF w1(3)] w2(3)] show ?thesis by blast
  next
    case g: False
    have "\<exists>s. age_entry E self timenow e small w = Inr (s, w1)"
      using True e w1(1,4) g by (simp add: age_entry_def vs_simps Let_def)
    with ok1 touches_evolves_same [OF w1(3)] show ?thesis by blast
  qed
qed

interpretation age_any: ageing E self timenow
  "\<lambda>w F bk. \<exists>xs. cntxt_ok E cap w F bk xs" "\<lambda>_. True" "\<lambda>_. True"
  for E self timenow cap
proof (unfold_locales, goal_cases)
  case (3 w F bk e x small)
  then obtain xs where ok: "cntxt_ok E cap w F bk xs" by blast
  from age_entry_total [OF ok 3(2,3), of self timenow small] show ?case by blast
qed (auto simp: cntxt_ok_def)

section \<open>Without callbacks\<close>

text \<open>A request that is due at the time of the traversal and was sent at least \<open>k\<close> times, and the
  same request once it was sent again.\<close>

definition due_request :: "u64 \<Rightarrow> u64 \<Rightarrow> u64 \<Rightarrow> nat \<Rightarrow> cntxt_entry_t \<Rightarrow> bool" where
  "due_request timenow D A k x \<longleftrightarrow> e_callback x = 0 \<and> RespTimeout x = D \<and>
     D \<le> timenow - tstamp x \<and> D + A \<le> timenow - tstamp x \<and> k \<le> unat (retries x)"

definition resent_request :: "u64 \<Rightarrow> u64 \<Rightarrow> int \<Rightarrow> nat \<Rightarrow> cntxt_entry_t \<Rightarrow> bool" where
  "resent_request timenow D M k x \<longleftrightarrow> e_callback x = 0 \<and> RespTimeout x = D \<and> tstamp x = timenow \<and>
     k < unat (retries x) \<and> int (unat (retries x)) \<le> M"

definition silent_table :: "u64 \<Rightarrow> u64 \<Rightarrow> int \<Rightarrow> nat \<Rightarrow> cntxt_sys \<Rightarrow> bool" where
  "silent_table D A M T w \<longleftrightarrow> MinRespTimeout (cntx w) = 0 \<and> resp_queue (cntx w) = 0 \<and>
     defaultTimeout (cntx w) = D \<and> timeoutAdder (cntx w) = A \<and> maxRetries (cntx w) = M \<and>
     M < 2 ^ 16 \<and> ticks w = T"

text \<open>The entries in the hands of callers: allocated, but not waiting for a response.\<close>

definition held :: "cntxt_sys \<Rightarrow> addr set" where
  "held w = {e. \<exists>x. entries w e = Some x \<and> alloced x \<noteq> 0 \<and> hashed x = 0}"

lemma held_touches:
  assumes "touches e w w'" "e \<notin> held w" "e \<notin> held w'"
  shows "held w' = held w"
proof -
  have "a \<in> held w' \<longleftrightarrow> a \<in> held w" if "a \<noteq> e" for a
  proof (cases "entries w a")
    case None
    with touchesD(2) [OF assms(1)] have "entries w' a = None" by blast
    with None show ?thesis by (simp add: held_def)
  next
    case (Some x)
    from touches_other [OF assms(1) Some that] obtain y where
      "entries w' a = Some y" "strip y = strip x" by blast
    with Some strip_fieldsD [OF this(2)] show ?thesis by (simp add: held_def)
  qed
  with assms(2,3) show ?thesis by (intro set_eqI) metis
qed

lemma unat_incr_u16:
  assumes "int (unat (r :: u16)) < M" "M < 2 ^ 16"
  shows "unat (r + 1) = unat r + 1"
proof -
  have "int (unat r) + 1 < 65536" using assms by auto
  then have "unat r + 1 < 65536" by linarith
  then show ?thesis by (simp add: unat_word_ariths)
qed

lemma silent_touches: "touches e w w' \<Longrightarrow> ticks w' = ticks w \<Longrightarrow> silent_table D A M T w' = silent_table D A M T w"
  using touches_config [of e w w'] by (simp add: silent_table_def)

text \<open>The packets with the MAD \<open>m\<close> that were sent, and the retries that are left to the waiting
  requests with that MAD.\<close>

definition packets_of :: "Mai_t \<Rightarrow> cntxt_sys \<Rightarrow> nat" where
  "packets_of m w = length (filter (\<lambda>p. fst p = m) (sent w))"

definition retries_left :: "int \<Rightarrow> Mai_t \<Rightarrow> cntxt_sys \<Rightarrow> addr \<Rightarrow> nat" where
  "retries_left M m w e = (case entries w e of None \<Rightarrow> 0
     | Some x \<Rightarrow> if hashed x \<noteq> 0 \<and> e_mad x = m then nat M - unat (retries x) else 0)"

definition budget :: "int \<Rightarrow> cntxt_sys \<Rightarrow> Mai_t \<Rightarrow> nat" where
  "budget M w m = packets_of m w + (\<Sum>e\<in>dom (entries w). retries_left M m w e)"

lemma left_touches: "touches e w w' \<Longrightarrow> a \<noteq> e \<Longrightarrow> retries_left M m w' a = retries_left M m w a"
proof (cases "entries w a")
  case None
  moreover assume "touches e w w'"
  ultimately have "entries w' a = None" using touchesD(2) by blast
  with None show ?thesis by (simp add: retries_left_def)
next
  case (Some x)
  moreover assume "touches e w w'" "a \<noteq> e"
  ultimately obtain y where "entries w' a = Some y" "strip y = strip x"
    using touches_other by blast
  with Some strip_fieldsD [OF this(2)] show ?thesis by (simp add: retries_left_def)
qed

lemma budget_step:
  assumes "touches e w w'" "finite (dom (entries w))" "e \<in> dom (entries w)"
    "packets_of m w' + retries_left M m w' e \<le> packets_of m w + retries_left M m w e"
  shows "budget M w' m \<le> budget M w m"
proof -
  have d: "dom (entries w') = dom (entries w)" using touchesD(2) [OF assms(1)] .
  have "(\<Sum>a\<in>dom (entries w) - {e}. retries_left M m w' a) =
      (\<Sum>a\<in>dom (entries w) - {e}. retries_left M m w a)"
    by (rule sum.cong [OF refl]) (use left_touches [OF assms(1)] in blast)
  then show ?thesis
    using assms(4) sum.remove [OF assms(2,3), of "retries_left M m w"]
      sum.remove [OF assms(2,3), of "retries_left M m w'"]
    by (simp add: budget_def d)
qed

lemma silent_step:
  assumes s: "pool_is w F bk" "silent_table D A M T w"
    and e: "entries w e = Some x" "hashed x \<noteq> 0" "due_request timenow D A k x"
  shows "\<exists>small' w' F' bk'. age_entry E self timenow e small w = Inr (small', w') \<and>
    (pool_is w' F' bk' \<and> silent_table D A M T w' \<and> held w' = held w \<and> (\<forall>m. budget M w' m \<le> budget M w m)) \<and>
    evolves e w bk w' bk' \<and>
    (\<forall>j < CNTXT_HASH_TABLE_DEPTH. \<forall>a \<in> set (bk' j). \<forall>y. entries w' a = Some y \<longrightarrow>
       a \<in> set (bk j) \<and> (a = e \<longrightarrow> resent_request timenow D M k y))"
proof -
  note c = s(2) [unfolded silent_table_def]
  have due: "RespTimeout x + adder_of x w \<le> timenow - tstamp x"
    using e(3) c by (auto simp: due_request_def adder_of_def)
  obtain st w1 y where w1: "cs_cntxt_timeout_entry E e timenow w = Inr (st, w1)" "pool_is w1 F bk"
    "touches e w w1" "entries w1 e = Some y" "same_request x y" "tstamp y = timenow"
    "ticks w1 = ticks w" "RespTimeout y = RespTimeout x"
    "int (unat (retries x)) < M \<Longrightarrow> st \<noteq> VSTATUS_TIMEOUT \<and> retries y = retries x + 1"
    "\<not> int (unat (retries x)) < M \<Longrightarrow> st = VSTATUS_TIMEOUT"
    "sent w1 = (if int (unat (retries x)) < M
                then (e_mad x, datalen (e_mad x), RespTimeout x) # sent w else sent w) \<and>
      (\<not> int (unat (retries x)) < M \<longrightarrow> retries y = retries x)"
    by (rule timeout_effect [OF s(1) e(1,2), of E timenow]) (use c in \<open>auto simp: timeouts_ok_def\<close>)
  have y: "e_callback y = 0" "alloced y \<noteq> 0" "lid y = lid x"
    using w1(5) e pool_entry(2) [OF s(1) e(1)] by (auto simp: same_request_def due_request_def)
  have nh: "e \<notin> held w" "e \<notin> held w1"
    using e w1(4,5) by (auto simp: held_def same_request_def)
  have h1: "held w1 = held w" by (rule held_touches [OF w1(3) nh])
  have c1: "silent_table D A M T w1" using s(2) silent_touches [OF w1(3,7)] by simp
  have fin: "finite (dom (entries w))" and ed: "e \<in> dom (entries w)"
    using s(1) e(1) by (auto simp: pool_is_def counts_ok_def)
  have paid: "packets_of m w1 + retries_left M m w1 e \<le> packets_of m w + retries_left M m w e" for m
  proof (cases "int (unat (retries x)) < M")
    case True
    then have "unat (retries y) = unat (retries x) + 1"
      using w1(9) unat_incr_u16 [OF True] c by simp
    moreover have "unat (retries x) < nat M" using True by linarith
    ultimately
    show ?thesis using True e(1,2) w1(4,5,11)
      by (auto simp: retries_left_def packets_of_def same_request_def)
  next
    case False
    have "retries_left M m w1 e \<le> retries_left M m w e"
      using False e(1,2) w1(4,5,11) by (simp add: retries_left_def same_request_def)
    with False show ?thesis using w1(11) by (simp add: packets_of_def)
  qed
  show ?thesis
  proof (cases "gives_up st w1")
    case g: True
    let ?b = "bucket_of (hashTableDepth (cntx w1)) (lid y)"
    obtain w2 where w2: "cntxt_release E self e st None w1 = Inr w2"
      "pool_is w2 (e # F) (bk(?b := remove1 e (bk ?b)))" "touches e w1 w2" "ticks w2 = ticks w1"
      "sent w2 = sent w1"
      using release_to_caller [OF w1(2,4) y(2), of E 0 "[]" self st None] c1 y(1)
      by (auto simp: resp_ok_def silent_table_def)
    have op: "age_entry E self timenow e small w = Inr (small, w2)"
      using due e w1(1) g w2(1) by (simp add: age_entry_def vs_simps)
    have nh2: "retries_left M m w2 e = 0" for m
      using pool_entry(1,2) [OF w2(2)] by (fastforce simp: retries_left_def split: option.split)
    have "budget M w2 m \<le> budget M w m" for m
      by (rule budget_step [OF touches_trans [OF w1(3) w2(3)] fin ed])
        (use paid [of m] w2(5) nh2 in \<open>simp add: packets_of_def\<close>)
    moreover
    have "e \<notin> held w2"
      using pool_entry(1) [OF w2(2)] by (fastforce simp: held_def)
    from held_touches [OF w2(3) nh(2) this] h1 have "held w2 = held w" by simp
    moreover have "silent_table D A M T w2" using c1 silent_touches [OF w2(3,4)] by simp
    moreover have "evolves e w bk w2 (bk(?b := remove1 e (bk ?b)))"
      using evolves_trans [OF touches_evolves_same [OF w1(3)] removal_evolves [OF w1(2) w2(3)]] .
    moreover have "a \<in> set (bk j) \<and> a \<noteq> e"
      if j: "j < CNTXT_HASH_TABLE_DEPTH" "a \<in> set ((bk(?b := remove1 e (bk ?b))) j)" for j a
    proof (cases "j = ?b")
      case True
      have "distinct (bk j)" using w1(2) j(1) dlist_distinct by (auto simp: pool_is_def lists_ok_def)
      with j(2) True show ?thesis by simp
    next
      case False
      with j(2) have "a \<in> set (bk j)" by simp
      with pool_entry(3) [OF w1(2,4) j(1)] False show ?thesis by auto
    qed
    ultimately show ?thesis using op w2(2) by blast
  next
    case g: False
    then have r: "int (unat (retries x)) < M" using w1(10) by (auto simp: gives_up_def)
    have "resent_request timenow D M k y"
      using y(1) w1(6,8) w1(9) [OF r] e(3) unat_incr_u16 [OF r] r c
      by (auto simp: resent_request_def due_request_def)
    moreover have "\<exists>s. age_entry E self timenow e small w = Inr (s, w1)"
      using due e w1(1,4) g by (simp add: age_entry_def vs_simps Let_def)
    moreover have "\<forall>m. budget M w1 m \<le> budget M w m"
      using budget_step [OF w1(3) fin ed paid] by blast
    ultimately show ?thesis
      using w1(2,4) c1 h1 touches_evolves_same [OF w1(3)] by (metis option.inject)
  qed
qed

interpretation age_silent: ageing E self timenow
  "\<lambda>w F bk. pool_is w F bk \<and> silent_table D A M T w \<and> held w = H \<and> (\<forall>m. budget M w m \<le> B m)" "due_request timenow D A k"
  "resent_request timenow D M k"
  for E self timenow D A M T H B k
proof (unfold_locales, goal_cases)
  case (2 y x)
  then show ?case using strip_fieldsD [OF 2(1)] by (simp add: due_request_def)
next
  case (3 y x)
  then show ?case using strip_fieldsD [OF 3(1)] by (simp add: resent_request_def)
next
  case (4 w F bk e x small)
  then have i: "pool_is w F bk" "silent_table D A M T w" "held w = H" "\<And>m. budget M w m \<le> B m" by simp_all
  obtain small' w' F' bk' where s: "age_entry E self timenow e small w = Inr (small', w')"
    "pool_is w' F' bk' \<and> silent_table D A M T w' \<and> held w' = held w \<and> (\<forall>m. budget M w' m \<le> budget M w m)"
    "evolves e w bk w' bk'"
    "\<forall>j < CNTXT_HASH_TABLE_DEPTH. \<forall>a \<in> set (bk' j). \<forall>y. entries w' a = Some y \<longrightarrow>
       a \<in> set (bk j) \<and> (a = e \<longrightarrow> resent_request timenow D M k y)"
    using silent_step [OF i(1,2) 4(2-4), of E self small] by blast
  have "budget M w' m \<le> B m" for m using s(2) i(4) [of m] order_trans by blast
  with s(2) i(3) have "pool_is w' F' bk' \<and> silent_table D A M T w' \<and> held w' = H \<and> (\<forall>m. budget M w' m \<le> B m)"
    by simp
  with s(1,3,4) show ?case by blast
qed auto

section \<open>The whole traversal\<close>

lemma bracket_effect:
  assumes "lock_ready (cx_lock (cntx w))"
    "body (set_cntx (\<lambda>c. c\<lparr>cx_lock := lock_taken self (cx_lock c)\<rparr>) w) = Inr (r, w2)"
    "cx_lock (cntx w2) = lock_taken self (cx_lock (cntx w))"
  shows "with_lock self failed body w =
    Inr (r, set_cntx (\<lambda>c. c\<lparr>cx_lock := cx_lock (cntx w)\<rparr>) w2)"
  using assms by (simp add: with_lock_def on_cntxt_lock_def vs_simps set_cntx_def)

text \<open>Locking changes nothing the invariants mention.\<close>

lemma relock_fields [simp]:
  "entries (set_cntx f w) = entries w" "ticks (set_cntx f w) = ticks w"
  "queues (set_cntx f w) = queues w" "cntx (set_cntx f w) = f (cntx w)"
  "sent (set_cntx f w) = sent w" "draws (set_cntx f w) = draws w"
  by (simp_all add: set_cntx_def)

lemma relock_pool [simp]:
  "pool_is (set_cntx (\<lambda>c. c\<lparr>cx_lock := l c\<rparr>) w) F bk = pool_is w F bk"
  "resp_ok (set_cntx (\<lambda>c. c\<lparr>cx_lock := l c\<rparr>) w) cap xs = resp_ok w cap xs"
  "timeouts_ok (c\<lparr>cx_lock := lk\<rparr>) = timeouts_ok c"
  "silent_table D A M T (set_cntx (\<lambda>c. c\<lparr>cx_lock := l c\<rparr>) w) = silent_table D A M T w"
  "held (set_cntx f w) = held w" "held (w\<lparr>ticks := t\<rparr>) = held w"
  "budget M (set_cntx f w) m = budget M w m" "budget M (w\<lparr>ticks := t\<rparr>) m = budget M w m"
  by (simp_all add: held_def budget_def packets_of_def retries_left_def pool_is_def lists_ok_def counts_ok_def resp_ok_def timeouts_ok_def silent_table_def)

lemma relock_ok [simp]:
  "cntxt_ok E cap (set_cntx (\<lambda>c. c\<lparr>cx_lock := l c\<rparr>) w) F bk xs = cntxt_ok E cap w F bk xs"
  "cntxt_ok E cap (w\<lparr>ticks := t\<rparr>) F bk xs = cntxt_ok E cap w F bk xs"
  by (simp_all add: cntxt_ok_def resp_ok_def)

lemma config_relock:
  "config_of c' = config_of (c\<lparr>cx_lock := l\<rparr>) \<Longrightarrow> config_of (c'\<lparr>cx_lock := cx_lock c\<rparr>) = config_of c"
  by (cases c; cases c') (simp add: config_of_def)

lemma nat_depth: "pool_is w F bk \<Longrightarrow> nat (hashTableDepth (cntx w)) \<le> CNTXT_HASH_TABLE_DEPTH"
  by (auto simp: pool_is_def lists_ok_def)

lemma age_total:
  assumes ok: "cntxt_ok E cap w F bk xs" and l: "lock_ready (cx_lock (cntx w))"
  shows "\<exists>left w' F' bk' xs'. cs_cntxt_age E self w = Inr (left, w') \<and>
    cntxt_ok E cap w' F' bk' xs' \<and> config_of (cntx w') = config_of (cntx w)"
proof -
  let ?w1 = "(set_cntx (\<lambda>c. c\<lparr>cx_lock := lock_taken self (cx_lock c)\<rparr>) w)\<lparr>ticks := ticks w + 1\<rparr>"
  let ?n = "nat (hashTableDepth (cntx w))"
  have "\<exists>xs. cntxt_ok E cap ?w1 F bk xs" using ok by auto
  moreover have "0 + ?n \<le> CNTXT_HASH_TABLE_DEPTH" using ok nat_depth [of w F bk] by (simp add: cntxt_ok_def)
  moreover have "age_any.staged 0 (bk 0) ?w1 bk" by (simp add: age_any.staged_def)
  ultimately obtain left w2 F2 bk2 xs2 where
    b: "age_buckets E self (time_at E (ticks w)) 0 ?n 0 ?w1 = Inr (left, w2)"
    "cntxt_ok E cap w2 F2 bk2 xs2" "config_of (cntx w2) = config_of (cntx ?w1)"
    using age_any.buckets_total [of E cap ?w1 F bk 0 ?n self "time_at E (ticks w)" 0] by auto
  have lk: "cx_lock (cntx w2) = lock_taken self (cx_lock (cntx w))"
    using config_fields(9) [OF b(3)] by simp
  have "cs_cntxt_age E self w = Inr (left, set_cntx (\<lambda>c. c\<lparr>cx_lock := cx_lock (cntx w)\<rparr>) w2)"
    unfolding cs_cntxt_age_def
    by (rule bracket_effect [OF l _ lk]) (use b(1) in \<open>simp add: vs_time_get_def\<close>)
  moreover have "config_of ((cntx w2)\<lparr>cx_lock := cx_lock (cntx w)\<rparr>) = config_of (cntx w)"
    by (rule config_relock) (use b(3) in simp)
  ultimately show ?thesis using b(2) by fastforce
qed

end
