(* ===== verification/CsContextProps.thy ===== *)
theory CsContextProps
  imports CsContextAge
begin

text \<open>
  Properties of the context pool: histories of calls by lawful clients, the matching of responses,
  the completion of requests nobody answers, and two defects.
\<close>

section \<open>Operations under the lock\<close>

abbreviation locked :: "tid \<Rightarrow> cntxt_sys \<Rightarrow> cntxt_sys" where
  "locked self w \<equiv> set_cntx (\<lambda>c. c\<lparr>cx_lock := lock_taken self (cx_lock c)\<rparr>) w"

abbreviation unlocked :: "cntxt_sys \<Rightarrow> cntxt_sys \<Rightarrow> cntxt_sys" where
  "unlocked w w' \<equiv> set_cntx (\<lambda>c. c\<lparr>cx_lock := cx_lock (cntx w)\<rparr>) w'"

text \<open>What an operation guarantees to the callers of the others.\<close>

definition keeps :: "cntxt_env \<Rightarrow> nat \<Rightarrow> cntxt_sys \<Rightarrow> cntxt_sys \<Rightarrow> bool" where
  "keeps E cap w w' \<longleftrightarrow> (\<exists>F bk xs. cntxt_ok E cap w' F bk xs) \<and>
     config_of (cntx w') = config_of (cntx w)"

lemma keepsI:
  "cntxt_ok E cap w' F bk xs \<Longrightarrow> config_of (cntx w') = config_of (cntx w) \<Longrightarrow> keeps E cap w w'"
  by (auto simp: keeps_def)

lemma under_lock:
  assumes l: "lock_ready (cx_lock (cntx w))"
    and b: "body (locked self w) = Inr (r, w2)" "cntxt_ok E cap w2 F bk xs"
      "config_of (cntx w2) = config_of (cntx (locked self w))"
  shows "with_lock self failed body w = Inr (r, unlocked w w2)" "keeps E cap w (unlocked w w2)"
proof -
  have "cx_lock (cntx w2) = lock_taken self (cx_lock (cntx w))"
    using config_fields(9) [OF b(3)] by simp
  from bracket_effect [where body = body, OF l b(1) this] show "with_lock self failed body w = Inr (r, unlocked w w2)" .
  have "config_of ((cntx w2)\<lparr>cx_lock := cx_lock (cntx w)\<rparr>) = config_of (cntx w)"
    by (rule config_relock) (use b(3) in simp)
  moreover have "cntxt_ok E cap (unlocked w w2) F bk xs" using b(2) by simp
  ultimately show "keeps E cap w (unlocked w w2)" unfolding keeps_def relock_fields by blast
qed

lemma ok_parts:
  assumes "cntxt_ok E cap w F bk xs"
  shows "pool_is w F bk" "resp_ok w cap xs" "timeouts_ok (cntx w)" "callback_ok E"
  using assms by (simp_all add: cntxt_ok_def)

lemma callback_cleared:
  assumes "resp_ok w cap xs" "entries w e = Some x" "resp_queue (cntx w) \<noteq> 0"
  shows "e_callback x = 0"
  using assms by (simp add: resp_ok_def)

text \<open>Operations on one entry that is not in the response queue.\<close>

lemma entry_op:
  assumes ok: "cntxt_ok E cap w F bk xs" and l: "lock_ready (cx_lock (cntx w))"
    and b: "body (locked self w) = Inr (r, w2)" "pool_is w2 F' bk'" "touches e (locked self w) w2"
      "entries w2 e = Some y"
    and q: "e \<notin> set xs" "resp_queue (cntx w) \<noteq> 0 \<Longrightarrow> e_callback y = 0"
  shows "with_lock self failed body w = Inr (r, unlocked w w2) \<and> keeps E cap w (unlocked w w2)"
proof -
  have "cntxt_ok E cap (locked self w) F bk xs" using ok by simp
  from ok_touches [OF this b(3,2) q(1) b(4)] q(2) have "cntxt_ok E cap w2 F' bk' xs" by simp
  from under_lock [where body = body, OF l b(1) this touchesD(3) [OF b(3)]] show ?thesis by blast
qed

lemma get_total:
  assumes ok: "cntxt_ok E cap w F bk xs" and l: "lock_ready (cx_lock (cntx w))"
  shows "\<exists>e w'. cs_cntxt_get E self mad wait w = Inr (e, w') \<and> keeps E cap w w' \<and>
    (if F = [] then e = 0
     else e = hd F \<and> (\<exists>y. entries w' e = Some y \<and> alloced y \<noteq> 0 \<and> (hashed y \<noteq> 0 \<longleftrightarrow> mad \<noteq> None)))"
proof (cases F)
  case Nil
  have okl: "cntxt_ok E cap (locked self w) [] bk xs" using ok Nil by simp
  obtain w2 where w2: "cs_cntxt_get_nolock E mad wait (locked self w) = Inr (0, w2)"
    "pool_is w2 [] bk" "entries w2 = entries (locked self w)" "touches 0 (locked self w) w2"
    by (rule get_empty [OF ok_parts(1) [OF okl]])
  have "resp_ok w2 cap xs"
    using ok_parts(2) [OF okl] w2(3) touches_config [OF w2(4)] touchesD(4) [OF w2(4)]
    by (simp add: resp_ok_def split: if_splits)
  then have "cntxt_ok E cap w2 [] bk xs"
    using w2(2) ok_parts(3,4) [OF okl] timeouts_config [OF touchesD(3) [OF w2(4)]]
    by (simp add: cntxt_ok_def)
  from under_lock [where body = "cs_cntxt_get_nolock E mad wait", OF l w2(1) this
      touchesD(3) [OF w2(4)]] Nil show ?thesis
    unfolding cs_cntxt_get_def by simp
next
  case (Cons e F')
  have okl: "cntxt_ok E cap (locked self w) (e # F') bk xs" using ok Cons by simp
  note p = ok_parts(1) [OF okl]
  obtain x where x: "entries (locked self w) e = Some x" using pool_member(1) [OF p] by auto
  have "alloced x = 0" using pool_entry(1) [OF p x] by simp
  then have q: "e \<notin> set xs"
    using ok_parts(2) [OF okl] x by (auto simp: resp_ok_def split: if_splits)
  have cb: "resp_queue (cntx w) \<noteq> 0 \<Longrightarrow> e_callback x = 0"
    using callback_cleared [OF ok_parts(2) [OF ok]] x by simp
  obtain w2 bk' y where w2: "cs_cntxt_get_nolock E mad wait (locked self w) = Inr (e, w2)"
    "pool_is w2 F' bk'" "touches e (locked self w) w2" "entries w2 e = Some y" "alloced y \<noteq> 0"
    "e_callback y = e_callback x" "hashed y = (if mad = None then 0 else 1)"
    by (rule get_effect [OF p, of E mad wait]) (use x in auto)
  from entry_op [where body = "cs_cntxt_get_nolock E mad wait", OF ok l w2(1-4) q] cb w2(4-7) Cons show ?thesis
    unfolding cs_cntxt_get_def by auto
qed

lemma retire_total:
  assumes ok: "cntxt_ok E cap w F bk xs" and l: "lock_ready (cx_lock (cntx w))"
    and e: "entries w e = Some x" "alloced x \<noteq> 0" "e \<notin> set xs"
  shows "\<exists>w'. cs_cntxt_retire self e w = Inr ((), w') \<and> keeps E cap w w'"
proof -
  have okl: "cntxt_ok E cap (locked self w) F bk xs" using ok by simp
  obtain w2 bk' y where w2: "cs_cntxt_retire_nolock e (locked self w) = Inr w2"
    "pool_is w2 (e # F) bk'" "touches e (locked self w) w2" "entries w2 e = Some y" "e_callback y = 0"
    by (rule retire_evolves [OF ok_parts(1) [OF okl], of e x]) (use e in auto)
  have "map_sum id (Pair ()) (cs_cntxt_retire_nolock e (locked self w)) = Inr ((), w2)"
    using w2(1) by simp
  from entry_op [where body = "\<lambda>w. map_sum id (Pair ()) (cs_cntxt_retire_nolock e w)",
      OF ok l this w2(2-4) e(3)] w2(5)
  show ?thesis unfolding cs_cntxt_retire_def by blast
qed

lemma send_total:
  assumes ok: "cntxt_ok E cap w F bk xs" and l: "lock_ready (cx_lock (cntx w))"
    and e: "entries w e = Some x" "alloced x \<noteq> 0" "e \<notin> set xs"
  shows "\<exists>st w' y. cs_cntxt_send_mad E self e w = Inr (st, w') \<and> keeps E cap w w' \<and>
    entries w' e = Some y \<and> hashed y \<noteq> 0"
proof -
  have okl: "cntxt_ok E cap (locked self w) F bk xs" using ok by simp
  have el: "entries (locked self w) e = Some x" using e(1) by simp
  obtain st w2 bk' y where w2: "cs_cntxt_send_mad_nolock E e (locked self w) = Inr (st, w2)"
    "pool_is w2 F bk'" "touches e (locked self w) w2" "entries w2 e = Some y"
    "e_callback y = e_callback x" "hashed y \<noteq> 0"
  proof (cases "hashed x = 0")
    case True
    obtain st w2 bk' y where "cs_cntxt_send_mad_nolock E e (locked self w) = Inr (st, w2)"
      "pool_is w2 F bk'" "touches e (locked self w) w2" "entries w2 e = Some y"
      "e_callback y = e_callback x" "hashed y \<noteq> 0"
      by (rule first_send_effect [OF ok_parts(1) [OF okl] el e(2) True, of E])
    then show ?thesis by (rule that)
  next
    case False
    obtain st w2 where r: "cs_cntxt_send_mad_nolock E e (locked self w) = Inr (st, w2)"
      "pool_is w2 F bk" "touches e (locked self w) w2"
      "entries w2 e = Some (x\<lparr>retries := retries x + 1,
         sendFailed := (if st = VSTATUS_OK then 0 else 1)\<rparr>)"
      by (rule resend_effect [OF ok_parts(1) [OF okl] el False, of E])
    show ?thesis by (rule that [OF r]) (use False in simp_all)
  qed
  have cb: "resp_queue (cntx w) \<noteq> 0 \<Longrightarrow> e_callback y = 0"
    using callback_cleared [OF ok_parts(2) [OF ok] e(1)] w2(5) by simp
  from entry_op [where body = "cs_cntxt_send_mad_nolock E e", OF ok l w2(1-4) e(3) cb] w2(4,6) show ?thesis
    unfolding cs_cntxt_send_mad_def by (metis id_apply relock_fields(1))
qed

section \<open>Matching of responses\<close>

definition first_match :: "Mai_t \<Rightarrow> cntxt_sys \<Rightarrow> addr list \<Rightarrow> addr" where
  "first_match mad w es =
    (case find (\<lambda>e. case entries w e of None \<Rightarrow> False | Some x \<Rightarrow> matches mad x) es of
       None \<Rightarrow> 0 | Some e \<Rightarrow> e)"

lemma find_chain_first:
  "path next_e (entries w) p es 0 \<Longrightarrow>
     find_chain mad p (entries w) = Some (Inr (first_match mad w es))"
proof (induction es arbitrary: p)
  case Nil
  then show ?case by (subst find_chain.simps) (simp add: first_match_def)
next
  case (Cons e es)
  then obtain x where x: "p = e" "e \<noteq> 0" "entries w e = Some x"
    "path next_e (entries w) (next_e x) es 0" by auto
  with Cons.IH [OF x(4)] show ?case
    by (subst find_chain.simps) (simp add: first_match_def)
qed

lemma find_effect:
  assumes "pool_is w F bk"
  shows "cntxt_find mad w =
    Inr (first_match mad w (bk (bucket_of (hashTableDepth (cntx w)) (slid mad))))"
proof -
  let ?b = "bucket_of (hashTableDepth (cntx w)) (slid mad)"
  have b: "?b < CNTXT_HASH_TABLE_DEPTH" "length (hash_lists (cntx w)) = CNTXT_HASH_TABLE_DEPTH"
    using assms lists_bucket by (auto simp: pool_is_def lists_ok_def)
  then have "path next_e (entries w) (hash_lists (cntx w) ! ?b) (bk ?b) 0"
    using assms by (auto simp: pool_is_def lists_ok_def dlist_def)
  from find_chain_first [OF this] b show ?thesis by (simp add: cntxt_find_def Let_def)
qed

lemma first_match_props:
  fixes mad :: Mai_t
  assumes p: "pool_is w F bk"
  defines "b \<equiv> bucket_of (hashTableDepth (cntx w)) (slid mad)"
  shows "first_match mad w (bk b) = 0 \<longleftrightarrow>
      \<not> (\<exists>e x. entries w e = Some x \<and> hashed x \<noteq> 0 \<and> matches mad x)"
    and "first_match mad w (bk b) \<noteq> 0 \<Longrightarrow>
      \<exists>x. entries w (first_match mad w (bk b)) = Some x \<and> hashed x \<noteq> 0 \<and> matches mad x"
proof -
  have bl: "b < CNTXT_HASH_TABLE_DEPTH" using p lists_bucket by (auto simp: pool_is_def b_def)
  have in_b: "e \<in> set (bk b) \<longleftrightarrow> hashed x \<noteq> 0" if "entries w e = Some x" "matches mad x" for e x
    using pool_entry(3) [OF p that(1) bl] that(2) by (simp add: matches_def b_def)
  have nz: "e \<noteq> 0" if "entries w e = Some x" for e x
    using lists_nonnull that p by (auto simp: pool_is_def)
  let ?P = "\<lambda>e. case entries w e of None \<Rightarrow> False | Some x \<Rightarrow> matches mad x"
  show two: "\<exists>x. entries w (first_match mad w (bk b)) = Some x \<and> hashed x \<noteq> 0 \<and> matches mad x"
    if n: "first_match mad w (bk b) \<noteq> 0"
  proof -
    obtain e where e: "find ?P (bk b) = Some e" using n by (auto simp: first_match_def split: option.splits)
    then have "?P e" "e \<in> set (bk b)" by (auto simp: find_Some_iff)
    with e in_b show ?thesis by (auto simp: first_match_def split: option.splits)
  qed
  show "first_match mad w (bk b) = 0 \<longleftrightarrow>
      \<not> (\<exists>e x. entries w e = Some x \<and> hashed x \<noteq> 0 \<and> matches mad x)"
  proof
    assume z: "first_match mad w (bk b) = 0"
    have "find ?P (bk b) = None"
    proof (rule ccontr)
      assume "find ?P (bk b) \<noteq> None"
      then obtain e where e: "find ?P (bk b) = Some e" by auto
      then have "?P e" by (auto simp: find_Some_iff)
      with nz have "e \<noteq> 0" by (auto split: option.splits)
      with z e show False by (simp add: first_match_def)
    qed
    then have "\<not> ?P e" if "e \<in> set (bk b)" for e using that by (auto simp: find_None_iff)
    with in_b show "\<not> (\<exists>e x. entries w e = Some x \<and> hashed x \<noteq> 0 \<and> matches mad x)"
      by fastforce
  next
    assume "\<not> (\<exists>e x. entries w e = Some x \<and> hashed x \<noteq> 0 \<and> matches mad x)"
    with two show "first_match mad w (bk b) = 0" by blast
  qed
qed

text \<open>A response that matches nothing changes nothing.\<close>

lemma relock_same:
  "lock_ready (cx_lock (cntx w)) \<Longrightarrow> unlocked w (locked self w) = w"
  by (cases w) (simp add: set_cntx_def)

lemma bracket_idle:
  assumes "lock_ready (cx_lock (cntx w))" "body (locked self w) = Inr (r, locked self w)"
  shows "with_lock self failed body w = Inr (r, w)"
  using bracket_effect [where body = body, OF assms] relock_same [OF assms(1)] by simp

lemma response_ignored:
  assumes ok: "cntxt_ok E cap w F bk xs" and l: "lock_ready (cx_lock (cntx w))"
    and n: "\<not> (\<exists>e x. entries w e = Some x \<and> hashed x \<noteq> 0 \<and> matches mad x)"
  shows "cs_cntxt_find_release E self mad w = Inr ((), w)"
    "cs_cntxt_find_release_error E self mad w = Inr ((), w)"
proof -
  have okl: "cntxt_ok E cap (locked self w) F bk xs" using ok by simp
  have f: "cntxt_find mad (locked self w) = Inr 0"
    using find_effect [OF ok_parts(1) [OF okl], of mad]
      first_match_props(1) [OF ok_parts(1) [OF okl], of mad] n by simp
  show "cs_cntxt_find_release E self mad w = Inr ((), w)"
    unfolding cs_cntxt_find_release_def by (rule bracket_idle [OF l]) (simp add: f)
  show "cs_cntxt_find_release_error E self mad w = Inr ((), w)"
    unfolding cs_cntxt_find_release_error_def by (rule bracket_idle [OF l]) (simp add: f)
qed

text \<open>A response that matches: what happens to the request it answers, by the way its sender waits.\<close>

lemma response_accepted:
  assumes ok: "cntxt_ok E cap w F bk xs" and l: "lock_ready (cx_lock (cntx w))"
    and e: "e = first_match mad w (bk (bucket_of (hashTableDepth (cntx w)) (slid mad)))" "e \<noteq> 0"
      "entries w e = Some x"
  obtains w' F' bk' xs' where "cs_cntxt_find_release E self mad w = Inr ((), unlocked w w')"
    "cntxt_ok E cap w' F' bk' xs'" "evolves e (locked self w) bk w' bk'"
    "senderWantsResponse x \<noteq> 0 \<Longrightarrow> resp_queue (cntx w) \<noteq> 0 \<Longrightarrow>
       F' = F \<and> xs' = xs @ [e] \<and> (\<exists>z. entries w' e = Some z \<and> hashed z = 0 \<and> e_mad z = mad)"
    "senderWantsResponse x = 0 \<or> resp_queue (cntx w) = 0 \<Longrightarrow> e_callback x = 0 \<Longrightarrow>
       F' = e # F \<and> xs' = xs"
    "e_callback x \<noteq> 0 \<Longrightarrow> \<exists>w2 w3 y. touches e (locked self w) w2 \<and>
       run_callback E (e_callback x) e VSTATUS_OK (callback_data x) (Some mad) w2 = Inr w3 \<and>
       entries w3 e = Some y \<and>
       (if releasing y \<noteq> 0 then cs_cntxt_retire_nolock e w3 = Inr w' else w' = w3)"
proof -
  note accepted = that
  let ?l = "locked self w"
  have okl: "cntxt_ok E cap ?l F bk xs" using ok by simp
  note p = ok_parts(1) [OF okl]
  have el: "entries ?l e = Some x" using e(3) by simp
  have f: "cntxt_find mad ?l = Inr e"
    using find_effect [OF p, of mad] e(1) by (simp add: first_match_def)
  have h: "hashed x \<noteq> 0"
    using first_match_props(2) [OF ok_parts(1) [OF ok], of mad] e by auto
  then have al: "alloced x \<noteq> 0" using pool_entry(2) [OF p el] by auto
  have q: "e \<notin> set xs" by (rule hashed_not_queued [OF ok_parts(2) [OF okl] el h])
  have fin: thesis
    if r: "cntxt_release E self e VSTATUS_OK (Some mad) ?l = Inr w'" "pool_is w' F' bk'"
      "evolves e ?l bk w' bk'" "resp_ok w' cap xs'"
      and k: "senderWantsResponse x \<noteq> 0 \<Longrightarrow> resp_queue (cntx w) \<noteq> 0 \<Longrightarrow>
       F' = F \<and> xs' = xs @ [e] \<and> (\<exists>z. entries w' e = Some z \<and> hashed z = 0 \<and> e_mad z = mad)"
    "senderWantsResponse x = 0 \<or> resp_queue (cntx w) = 0 \<Longrightarrow> e_callback x = 0 \<Longrightarrow>
       F' = e # F \<and> xs' = xs"
    "e_callback x \<noteq> 0 \<Longrightarrow> \<exists>w2 w3 y. touches e ?l w2 \<and>
       run_callback E (e_callback x) e VSTATUS_OK (callback_data x) (Some mad) w2 = Inr w3 \<and>
       entries w3 e = Some y \<and>
       (if releasing y \<noteq> 0 then cs_cntxt_retire_nolock e w3 = Inr w' else w' = w3)"
    for w' F' bk' xs'
  proof -
    have "cx_lock (cntx w') = lock_taken self (cx_lock (cntx w))"
      using evolves_config(8) [OF r(3)] by simp
    then have op: "cs_cntxt_find_release E self mad w = Inr ((), unlocked w w')"
      unfolding cs_cntxt_find_release_def
      by (intro bracket_effect [OF l]) (use f e(2) r(1) in simp_all)
    have "cntxt_ok E cap w' F' bk' xs'"
      using r(2,4) ok_parts(3,4) [OF okl] timeouts_config [OF evolvesD(1) [OF r(3)]]
      by (simp add: cntxt_ok_def)
    from accepted [OF op this r(3) k] show thesis by blast
  qed
  show thesis
  proof (cases "senderWantsResponse x \<noteq> 0 \<and> resp_queue (cntx ?l) \<noteq> 0")
    case True
    obtain w' bk' z where r: "cntxt_release E self e VSTATUS_OK (Some mad) ?l = Inr w'"
      "pool_is w' F bk'" "evolves e ?l bk w' bk'" "resp_ok w' cap (xs @ [e])" "entries w' e = Some z"
      "e_mad z = mad" "hashed z = 0"
      by (rule release_to_queue [OF p el al ok_parts(2) [OF okl] q,
            where E = E and self = self and st = VSTATUS_OK and mad = "Some mad"])
        (use True in auto)
    have "e_callback x = 0" using callback_cleared [OF ok_parts(2) [OF okl] el] True by simp
    with True r(5-7) show thesis by (intro fin [OF r(1-4)]) auto
  next
    case False
    have cb: "callback_ok E \<and> resp_queue (cntx ?l) = 0" if "e_callback x \<noteq> 0"
      using that callback_cleared [OF ok_parts(2) [OF okl] el] ok_parts(4) [OF okl] by auto
    obtain w' F' bk' where r: "cntxt_release E self e VSTATUS_OK (Some mad) ?l = Inr w'"
      "pool_is w' F' bk'" "evolves e ?l bk w' bk'" "resp_ok w' cap xs"
      "e_callback x = 0 \<Longrightarrow> F' = e # F"
      "e_callback x \<noteq> 0 \<Longrightarrow> \<exists>w2 w3 y. touches e ?l w2 \<and>
       run_callback E (e_callback x) e VSTATUS_OK (callback_data x) (Some mad) w2 = Inr w3 \<and>
       entries w3 e = Some y \<and>
       (if releasing y \<noteq> 0 then cs_cntxt_retire_nolock e w3 = Inr w' else w' = w3)"
      by (rule release_to_caller [OF p el al _ cb ok_parts(2) [OF okl] q,
            where self = self and st = VSTATUS_OK and mad = "Some mad"]) (use False in auto)
    show thesis by (rule fin [OF r(1-4) _ _ r(6)]) (use False r(5) in auto)
  qed
qed

lemma response_total:
  assumes ok: "cntxt_ok E cap w F bk xs" and l: "lock_ready (cx_lock (cntx w))"
  shows "\<exists>w'. cs_cntxt_find_release E self mad w = Inr ((), w') \<and> keeps E cap w w'"
proof (cases "first_match mad w (bk (bucket_of (hashTableDepth (cntx w)) (slid mad))) = 0")
  case True
  then have "\<not> (\<exists>e x. entries w e = Some x \<and> hashed x \<noteq> 0 \<and> matches mad x)"
    using first_match_props(1) [OF ok_parts(1) [OF ok]] by blast
  from response_ignored(1) [OF ok l this] ok show ?thesis unfolding keeps_def by blast
next
  case False
  then obtain x where x: "entries w (first_match mad w (bk (bucket_of (hashTableDepth (cntx w)) (slid mad)))) = Some x"
    using first_match_props(2) [OF ok_parts(1) [OF ok]] by blast
  obtain w' F' bk' xs' where w': "cs_cntxt_find_release E self mad w = Inr ((), unlocked w w')"
    "cntxt_ok E cap w' F' bk' xs'"
    "evolves (first_match mad w (bk (bucket_of (hashTableDepth (cntx w)) (slid mad)))) (locked self w) bk w' bk'"
    by (rule response_accepted [OF ok l refl False x, where self = self])
  have "config_of ((cntx w')\<lparr>cx_lock := cx_lock (cntx w)\<rparr>) = config_of (cntx w)"
    by (rule config_relock) (use evolvesD(1) [OF w'(3)] in simp)
  then have c: "config_of (cntx (unlocked w w')) = config_of (cntx w)" by simp
  have "cntxt_ok E cap (unlocked w w') F' bk' xs'" using w'(2) by simp
  from keepsI [OF this c] w'(1) show ?thesis by blast
qed

lemma failure_total:
  assumes ok: "cntxt_ok E cap w F bk xs" and l: "lock_ready (cx_lock (cntx w))"
  shows "\<exists>w'. cs_cntxt_find_release_error E self mad w = Inr ((), w') \<and> keeps E cap w w'"
proof (cases "\<exists>e x. entries w e = Some x \<and> hashed x \<noteq> 0 \<and> matches mad x")
  case False
  from response_ignored(2) [OF ok l False] ok show ?thesis unfolding keeps_def by blast
next
  case True
  let ?l = "locked self w"
  let ?body = "\<lambda>w. and_then (cntxt_find mad w) (\<lambda>e. if e \<noteq> 0
      then let (timenow, w1) = vs_time_get E w in
           and_then (cs_cntxt_timeout_entry E e timenow w1) (\<lambda>(status, w2).
             if gives_up status w2 then map_sum id (Pair ()) (cntxt_release E self e status None w2)
             else Inr ((), w2))
      else Inr ((), w))"
  have okl: "cntxt_ok E cap ?l F bk xs" using ok by simp
  define e where "e = first_match mad ?l (bk (bucket_of (hashTableDepth (cntx ?l)) (slid mad)))"
  have "e \<noteq> 0" using True first_match_props(1) [OF ok_parts(1) [OF okl], of mad] by (simp add: e_def)
  moreover from this obtain x where x: "entries ?l e = Some x" "hashed x \<noteq> 0"
    using first_match_props(2) [OF ok_parts(1) [OF okl], of mad] by (auto simp: e_def)
  moreover have "cntxt_find mad ?l = Inr e"
    using find_effect [OF ok_parts(1) [OF okl]] by (simp add: e_def)
  ultimately have find: "e \<noteq> 0" "cntxt_find mad ?l = Inr e" by simp_all
  let ?t = "?l\<lparr>ticks := ticks ?l + 1\<rparr>"
  have okt: "cntxt_ok E cap ?t F bk xs" using okl by simp
  have xt: "entries ?t e = Some x" using x(1) by simp
  have q: "e \<notin> set xs" by (rule hashed_not_queued [OF ok_parts(2) [OF okl] x])
  obtain st w1 y where w1: "cs_cntxt_timeout_entry E e (time_at E (ticks ?l)) ?t = Inr (st, w1)"
    "pool_is w1 F bk" "touches e ?t w1" "entries w1 e = Some y" "same_request x y"
    by (rule timeout_effect [OF ok_parts(1) [OF okt] xt x(2) ok_parts(3) [OF okt]])
  have cb: "resp_queue (cntx ?t) \<noteq> 0 \<Longrightarrow> e_callback y = 0"
    using callback_cleared [OF ok_parts(2) [OF okt] xt] w1(5) by (simp add: same_request_def)
  have ok1: "cntxt_ok E cap w1 F bk xs" by (rule ok_touches [OF okt w1(3,2) q w1(4) cb])
  have ay: "alloced y \<noteq> 0"
    using w1(5) x(2) pool_entry(2) [OF ok_parts(1) [OF okl] x(1)] by (auto simp: same_request_def)
  have c1: "config_of (cntx w1) = config_of (cntx ?l)" using touchesD(3) [OF w1(3)] by simp
  obtain w2 F2 bk2 xs2 where w2: "(if gives_up st w1
       then map_sum id (Pair ()) (cntxt_release E self e st None w1) else Inr ((), w1)) = Inr ((), w2)"
    "cntxt_ok E cap w2 F2 bk2 xs2" "config_of (cntx w2) = config_of (cntx ?l)"
  proof (cases "gives_up st w1")
    case True
    obtain w2 F2 bk2 xs2 where "cntxt_release E self e st None w1 = Inr w2"
      "cntxt_ok E cap w2 F2 bk2 xs2" "evolves e w1 bk w2 bk2"
      by (rule release_effect [OF ok1 w1(4) ay q])
    with True c1 evolvesD(1) show ?thesis by (intro that [of w2 F2 bk2 xs2]) auto
  next
    case False
    with ok1 c1 show ?thesis by (intro that [of w1 F bk xs]) auto
  qed
  have "(let (timenow, w1) = vs_time_get E ?l in
      and_then (cs_cntxt_timeout_entry E e timenow w1) (\<lambda>(status, w2).
        if gives_up status w2 then map_sum id (Pair ()) (cntxt_release E self e status None w2)
        else Inr ((), w2))) = Inr ((), w2)"
    using w1(1) w2(1) by (simp add: vs_time_get_def)
  then have "?body ?l = Inr ((), w2)"
    using find by simp
  from under_lock [where body = ?body, OF l this w2(2,3)] show ?thesis
    unfolding cs_cntxt_find_release_error_def by blast
qed

lemma age_keeps:
  assumes ok: "cntxt_ok E cap w F bk xs" and l: "lock_ready (cx_lock (cntx w))"
  shows "\<exists>left w'. cs_cntxt_age E self w = Inr (left, w') \<and> keeps E cap w w'"
  using age_total [OF ok l] unfolding keeps_def by blast

lemma set_callback_total:
  assumes ok: "cntxt_ok E cap w F bk xs" and e: "entries w e = Some x" "alloced x \<noteq> 0" "e \<notin> set xs"
    and c: "resp_queue (cntx w) \<noteq> 0 \<Longrightarrow> cb = 0"
  shows "\<exists>w'. cs_cntxt_set_callback e cb d w = Inr w' \<and> keeps E cap w w'"
proof -
  let ?y = "if cb = 0 then x\<lparr>e_callback := 0, callback_data := 0\<rparr>
      else x\<lparr>e_callback := cb, callback_data := d\<rparr>"
  let ?w = "w\<lparr>entries := (entries w)(e \<mapsto> ?y)\<rparr>"
  have op: "cs_cntxt_set_callback e cb d w = Inr ?w"
    using e(1) by (simp add: cs_cntxt_set_callback_def vs_simps)
  have p: "pool_is ?w F bk"
    by (rule pool_update [OF ok_parts(1) [OF ok] e(1)]) (use e(2) in simp_all)
  have t: "touches e w ?w" by (rule touches_update [OF e(1)])
  have "cntxt_ok E cap ?w F bk xs"
    by (rule ok_touches [OF ok t p e(3), of ?y]) (use c in simp_all)
  from keepsI [OF this touchesD(3) [OF t]] op show ?thesis by blast
qed

lemma poll_total:
  assumes ok: "cntxt_ok E cap w F bk xs" and q: "resp_queue (cntx w) \<noteq> 0"
  shows "\<exists>qs. cs_queue_FrontAndDequeue self (resp_queue (cntx w)) (queues w) =
      Inr (case xs of [] \<Rightarrow> 0 | e # _ \<Rightarrow> e, qs) \<and> cntxt_ok E cap (w\<lparr>queues := qs\<rparr>) F bk (tl xs)"
proof -
  note r = ok_parts(2) [OF ok]
  have "queue_is (resp_queue (cntx w)) (queues w) (cap, xs)" using r q by (simp add: resp_ok_def)
  then obtain qs where qs: "cs_queue_FrontAndDequeue self (resp_queue (cntx w)) (queues w) =
      Inr (case xs of [] \<Rightarrow> 0 | e # _ \<Rightarrow> e, qs)" "queue_is (resp_queue (cntx w)) qs (cap, tl xs)"
    by (rule FrontAndDequeue_effect [of _ _ "(cap, xs)" self]) (auto split: list.splits)
  have "resp_ok (w\<lparr>queues := qs\<rparr>) cap (tl xs)"
    using r q qs(2) by (cases xs) (auto simp: resp_ok_def)
  then have "cntxt_ok E cap (w\<lparr>queues := qs\<rparr>) F bk (tl xs)"
    using ok by (simp add: cntxt_ok_def)
  with qs(1) show ?thesis by blast
qed

section \<open>Histories of lawful clients\<close>

text \<open>A client may retire, send or give a callback to an entry that is allocated and not waiting in
  the response queue, and it uses callbacks or the response queue but not both.\<close>

datatype cntxt_op =
    Get_op "Mai_t option" bool
  | Retire_op addr
  | Send_op addr
  | Callback_op addr addr addr
  | Response_op Mai_t
  | Failure_op Mai_t
  | Age_op
  | Poll_op

definition waiting_responses :: "cntxt_sys \<Rightarrow> addr list" where
  "waiting_responses w =
    (if resp_queue (cntx w) = 0 then []
     else case q_rec (queues w) (resp_queue (cntx w)) of None \<Rightarrow> []
      | Some q \<Rightarrow> ring_contents q (q_data (queues w) (qData q)))"

definition owned :: "cntxt_sys \<Rightarrow> addr \<Rightarrow> bool" where
  "owned w e \<longleftrightarrow> (case entries w e of None \<Rightarrow> False | Some x \<Rightarrow> alloced x \<noteq> 0) \<and>
     e \<notin> set (waiting_responses w)"

fun cntxt_allowed :: "cntxt_op \<Rightarrow> cntxt_sys \<Rightarrow> bool" where
  "cntxt_allowed (Retire_op e) w \<longleftrightarrow> owned w e"
| "cntxt_allowed (Send_op e) w \<longleftrightarrow> owned w e"
| "cntxt_allowed (Callback_op e cb d) w \<longleftrightarrow> owned w e \<and> (resp_queue (cntx w) = 0 \<or> cb = 0)"
| "cntxt_allowed Poll_op w \<longleftrightarrow> resp_queue (cntx w) \<noteq> 0"
| "cntxt_allowed _ w \<longleftrightarrow> True"

fun cntxt_step :: "cntxt_env \<Rightarrow> tid \<Rightarrow> cntxt_op \<Rightarrow> cntxt_sys \<Rightarrow> vs_error + cntxt_sys" where
  "cntxt_step E self (Get_op mad wait) w = map_sum id snd (cs_cntxt_get E self mad wait w)"
| "cntxt_step E self (Retire_op e) w = map_sum id snd (cs_cntxt_retire self e w)"
| "cntxt_step E self (Send_op e) w = map_sum id snd (cs_cntxt_send_mad E self e w)"
| "cntxt_step E self (Callback_op e cb d) w = cs_cntxt_set_callback e cb d w"
| "cntxt_step E self (Response_op mad) w = map_sum id snd (cs_cntxt_find_release E self mad w)"
| "cntxt_step E self (Failure_op mad) w = map_sum id snd (cs_cntxt_find_release_error E self mad w)"
| "cntxt_step E self Age_op w = map_sum id snd (cs_cntxt_age E self w)"
| "cntxt_step E self Poll_op w =
    map_sum id (\<lambda>(_, qs). w\<lparr>queues := qs\<rparr>)
      (cs_queue_FrontAndDequeue self (resp_queue (cntx w)) (queues w))"

fun cntxt_run :: "cntxt_env \<Rightarrow> tid \<Rightarrow> cntxt_op list \<Rightarrow> cntxt_sys \<Rightarrow> vs_error + cntxt_sys" where
  "cntxt_run E self [] w = Inr w"
| "cntxt_run E self (p # ps) w = and_then (cntxt_step E self p w) (cntxt_run E self ps)"

fun cntxt_lawful :: "cntxt_env \<Rightarrow> tid \<Rightarrow> cntxt_op list \<Rightarrow> cntxt_sys \<Rightarrow> bool" where
  "cntxt_lawful E self [] w \<longleftrightarrow> True"
| "cntxt_lawful E self (p # ps) w \<longleftrightarrow> cntxt_allowed p w \<and>
     (case cntxt_step E self p w of Inl _ \<Rightarrow> True | Inr w' \<Rightarrow> cntxt_lawful E self ps w')"

lemma waiting_is:
  assumes "resp_ok w cap xs"
  shows "waiting_responses w = xs"
  using assms by (auto simp: resp_ok_def waiting_responses_def queue_is_def split: if_splits option.splits)

lemma owned_iff:
  assumes "cntxt_ok E cap w F bk xs"
  shows "owned w e \<longleftrightarrow> (\<exists>x. entries w e = Some x \<and> alloced x \<noteq> 0) \<and> e \<notin> set xs"
  using waiting_is [OF ok_parts(2) [OF assms]] by (auto simp: owned_def split: option.splits)

lemma step_keeps:
  assumes ok: "cntxt_ok E cap w F bk xs" and l: "lock_ready (cx_lock (cntx w))"
    and a: "cntxt_allowed p w"
  shows "\<exists>w'. cntxt_step E self p w = Inr w' \<and> keeps E cap w w'"
proof (cases p)
  case (Get_op mad wait)
  with get_total [OF ok l, of self mad wait] show ?thesis by auto
next
  case (Retire_op e)
  with a owned_iff [OF ok] obtain x where "entries w e = Some x" "alloced x \<noteq> 0" "e \<notin> set xs" by auto
  from retire_total [OF ok l this, of self] Retire_op show ?thesis by auto
next
  case (Send_op e)
  with a owned_iff [OF ok] obtain x where "entries w e = Some x" "alloced x \<noteq> 0" "e \<notin> set xs" by auto
  from send_total [OF ok l this, of self] Send_op show ?thesis by auto
next
  case (Callback_op e cb d)
  with a owned_iff [OF ok] obtain x where "entries w e = Some x" "alloced x \<noteq> 0" "e \<notin> set xs" by auto
  from set_callback_total [OF ok this, of cb d] Callback_op a show ?thesis by auto
next
  case (Response_op mad)
  with response_total [OF ok l, of self mad] show ?thesis by auto
next
  case (Failure_op mad)
  with failure_total [OF ok l, of self mad] show ?thesis by auto
next
  case Age_op
  with age_keeps [OF ok l, of self] show ?thesis by auto
next
  case Poll_op
  with a have q: "resp_queue (cntx w) \<noteq> 0" by simp
  obtain qs where qs: "cs_queue_FrontAndDequeue self (resp_queue (cntx w)) (queues w) =
      Inr (case xs of [] \<Rightarrow> 0 | e # _ \<Rightarrow> e, qs)" "cntxt_ok E cap (w\<lparr>queues := qs\<rparr>) F bk (tl xs)"
    using poll_total [OF ok q] by blast
  have "keeps E cap w (w\<lparr>queues := qs\<rparr>)" by (rule keepsI [OF qs(2)]) simp
  with qs(1) Poll_op show ?thesis by simp
qed

end
