(* ===== verification/CsContextInit.thy ===== *)
theory CsContextInit
  imports CsContextRun
begin

text \<open>
  Creation and disposal of a context pool.  A caller sets the sizes and timeouts of a cleared
  table and calls \<^verbatim>\<open>cs_cntxt_instance_init\<close>; the result is a pool with every entry on the free
  list, last entry first.
\<close>

section \<open>The entry array\<close>

lemma entry_ptr_inj: "entry_ptr p i = entry_ptr p j \<longleftrightarrow> i = j"
  by (simp add: entry_ptr_def)

lemma entry_array_ptr:
  "entry_array p (n * ENTRY_SIZE) (entry_ptr p i) = (if i < n then Some zero_entry else None)"
proof -
  have "p + i * ENTRY_SIZE - p = i * ENTRY_SIZE" by (rule diff_add_inverse)
  moreover have "i * ENTRY_SIZE + ENTRY_SIZE \<le> n * ENTRY_SIZE \<longleftrightarrow> i < n" by linarith
  moreover have "i * ENTRY_SIZE mod ENTRY_SIZE = 0" by (rule mod_mult_self2_is_0)
  ultimately show ?thesis
    unfolding entry_array_def entry_ptr_def by (simp only: le_add1 simp_thms)
qed

lemma entry_array_dom: "dom (entry_array p (n * ENTRY_SIZE)) = entry_ptr p ` {0..<n}"
proof (intro equalityI subsetI)
  fix a assume "a \<in> dom (entry_array p (n * ENTRY_SIZE))"
  then have a: "p \<le> a" "(a - p) mod ENTRY_SIZE = 0" "a - p + ENTRY_SIZE \<le> n * ENTRY_SIZE"
    by (auto simp: entry_array_def split: if_splits)
  then obtain i where i: "a - p = i * ENTRY_SIZE" by (metis mod_0_imp_dvd dvd_def mult.commute)
  with a have "i < n" "a = entry_ptr p i" by (auto simp: entry_ptr_def)
  then show "a \<in> entry_ptr p ` {0..<n}" by auto
qed (auto simp: entry_array_ptr)

lemma entry_array_card: "card (dom (entry_array p (n * ENTRY_SIZE))) = n"
  unfolding entry_array_dom by (subst card_image) (auto simp: inj_on_def entry_ptr_inj)

section \<open>The free list\<close>

definition clean_entry :: "cntxt_entry_t \<Rightarrow> bool" where
  "clean_entry x \<longleftrightarrow> alloced x = 0 \<and> hashed x = 0 \<and> releasing x = 0 \<and> e_callback x = 0"

lemma clean_strip: "strip y = strip x \<Longrightarrow> clean_entry x \<Longrightarrow> clean_entry y"
  using strip_fieldsD [of y x] by (simp add: clean_entry_def)

lemma init_free_list_effect:
  assumes "p \<noteq> 0" "dlist m l xs" "\<And>j. i \<le> j \<Longrightarrow> j < i + n \<Longrightarrow> entry_ptr p j \<in> dom m"
    "\<And>j. i \<le> j \<Longrightarrow> entry_ptr p j \<notin> set xs" "\<And>a x. m a = Some x \<Longrightarrow> clean_entry x"
  shows "\<exists>l' m'. init_free_list p i n (l, m) = Inr (l', m') \<and>
    dlist m' l' (rev (map (entry_ptr p) [i..<i + n]) @ xs) \<and> dom m' = dom m \<and>
    (\<forall>a x. m' a = Some x \<longrightarrow> clean_entry x)"
  using assms(2-)
proof (induction n arbitrary: i l m xs)
  case 0
  then show ?case by auto
next
  case (Suc n)
  let ?e = "entry_ptr p i"
  obtain x where x: "m ?e = Some x" using Suc.prems(2) [of i] by auto
  let ?x = "x\<lparr>index := of_nat (i + 1)\<rparr>"
  let ?m = "m(?e \<mapsto> ?x)"
  have nx: "?e \<notin> set xs" using Suc.prems(3) by simp
  have "dlist ?m l xs" by (rule dlist_elsewhere [OF Suc.prems(1), of "{?e}"]) (use nx in auto)
  then obtain m1 where m1: "cntxt_insert_head l ?e ?m = Inr (?e, m1)" "dlist m1 ?e (?e # xs)"
    "same_contents ?m m1"
    by (rule insert_head_dlist [of _ _ _ ?e ?x]) (use nx assms(1) in \<open>auto simp: entry_ptr_def\<close>)
  have dm: "dom m1 = dom m"
    using same_contents_dom [OF m1(3)] dom_upd_Some [of m, OF x] by simp
  have cl: "clean_entry y" if y: "m1 a = Some y" for a y
  proof -
    obtain u where u: "?m a = Some u" "strip y = strip u" using same_contentsD [OF m1(3) y] by blast
    have "clean_entry u"
      using u(1) Suc.prems(4) [of a u] Suc.prems(4) [OF x]
      by (auto simp: clean_entry_def split: if_splits)
    with u(2) show ?thesis by (rule clean_strip)
  qed
  have nx': "entry_ptr p j \<notin> set (?e # xs)" if "i + 1 \<le> j" for j
    using that Suc.prems(3) [of j] by (auto simp: entry_ptr_inj)
  from Suc.IH [OF m1(2), of "i + 1"] Suc.prems(2) dm nx' cl obtain l' m' where
    "init_free_list p (i + 1) n (?e, m1) = Inr (l', m')"
    "dlist m' l' (rev (map (entry_ptr p) [i + 1..<i + 1 + n]) @ ?e # xs)" "dom m' = dom m1"
    "\<forall>a x. m' a = Some x \<longrightarrow> clean_entry x" by auto
  moreover have "[i..<i + Suc n] = i # [i + 1..<i + 1 + n]" by (simp add: upt_conv_Cons del: upt_Suc)
  moreover have "init_free_list p i (Suc n) (l, m) = init_free_list p (i + 1) n (?e, m1)"
    using x m1(1) by (simp add: store_at_Some)
  ultimately show ?case using dm by auto
qed

section \<open>Creation\<close>

text \<open>The table its user prepares: sizes in range, hash lists empty, and a response queue, if it has
  one, that is empty and large enough.\<close>

definition prepared :: "nat \<Rightarrow> nat \<Rightarrow> cntxt_sys \<Rightarrow> bool" where
  "prepared n cap w \<longleftrightarrow> poolSize (cntx w) = int n \<and> 0 < n \<and> n * ENTRY_SIZE + 24 < 2 ^ 32 \<and>
     0 \<le> hashTableDepth (cntx w) \<and> hashTableDepth (cntx w) \<le> int CNTXT_HASH_TABLE_DEPTH \<and>
     hash_lists (cntx w) = replicate CNTXT_HASH_TABLE_DEPTH 0 \<and> timeouts_ok (cntx w) \<and>
     (resp_queue (cntx w) \<noteq> 0 \<longrightarrow> queue_is (resp_queue (cntx w)) (queues w) (cap, []) \<and> n \<le> cap)"

lemma unat_narrow: "unat w < 2 ^ 32 \<Longrightarrow> unat (ucast (w :: u64) :: u32) = unat w"
  by (simp add: unsigned_ucast_eq take_bit_nat_eq_self)

lemma unat_widen: "unat (ucast (w :: u32) :: u64) = unat w"
proof -
  have "unat w < 2 ^ 64" using unsigned_less [of w, where 'a = nat] by simp
  then show ?thesis by (simp add: unsigned_ucast_eq take_bit_nat_eq_self)
qed

lemma poollen_value:
  assumes "n * ENTRY_SIZE + 24 < 2 ^ 32"
  defines "len \<equiv> ucast (of_nat ENTRY_SIZE * word_of_int (int n) :: u64) :: u32"
  shows "unat len = n * ENTRY_SIZE" "unat (ucast len :: u64) = n * ENTRY_SIZE"
    "unat (ucast (ucast len :: u64) + 24 :: u32) = n * ENTRY_SIZE + 24"
proof -
  have len: "len = ucast (of_nat (n * ENTRY_SIZE) :: u64)" by (simp add: len_def mult.commute)
  have k: "n * ENTRY_SIZE < 2 ^ 32" using assms(1) by simp
  have "unat (of_nat k :: u64) = k" if "k < 2 ^ 32" for k using that by (simp add: unat_of_nat)
  from this [OF k] show l: "unat len = n * ENTRY_SIZE"
    unfolding len using k by (simp only: unat_narrow)
  then show "unat (ucast len :: u64) = n * ENTRY_SIZE" by (simp only: unat_widen)
  have "unat (ucast (ucast len :: u64) :: u32) = n * ENTRY_SIZE"
    using l k by (simp only: unat_narrow unat_widen)
  moreover have "unat (v + 24) = unat v + 24" if "unat v + 24 < 2 ^ 32" for v :: u32
    using that by (subst unat_add_lem [THEN iffD1]) simp_all
  ultimately show "unat (ucast (ucast len :: u64) + 24 :: u32) = n * ENTRY_SIZE + 24"
    using assms(1) by metis
qed

lemma init_effect:
  assumes w: "prepared n cap w" "callback_ok E"
    and pl: "pool_live pool (q_mem (queues w))" "malloc_fresh (Some a) (q_mem (queues w))"
  obtains w' F where "cs_cntxt_instance_init self (Some a) True True pool timeout w = Inr (VSTATUS_OK, w')"
    "cntxt_ok E cap w' F (\<lambda>_. []) []" "lock_ready (cx_lock (cntx w'))" "length F = n"
    "poolSize (cntx w') = int n" "defaultTimeout (cntx w') = timeout" "globalPool (cntx w') = pool"
    "\<And>e x. entries w' e = Some x \<Longrightarrow> clean_entry x"
    "F = rev (map (entry_ptr (a + PBUFFER_SIZE)) [0..<n])"
proof -
  note pr = w(1) [unfolded prepared_def]
  let ?len = "ucast (of_nat ENTRY_SIZE * word_of_int (poolSize (cntx w)) :: u64) :: u32"
  have nb: "n * ENTRY_SIZE + 24 < 2 ^ 32" using pr by blast
  have len: "unat ?len = n * ENTRY_SIZE" "unat (ucast ?len :: u64) = n * ENTRY_SIZE"
    "unat (ucast (ucast ?len :: u64) + 24 :: u32) = n * ENTRY_SIZE + 24"
    using poollen_value [OF nb] pr by simp_all
  have len0: "(ucast ?len :: u64) \<noteq> 0"
    using len(2) pr by (metis mult_is_0 unat_0 zero_neq_numeral less_numeral_extra(3))
  have fits: "header_fits (ucast ?len)" unfolding header_fits_def len by simp
  let ?p = "a + PBUFFER_SIZE"
  obtain s where s: "vs_pool_alloc self (Some a) pool (ucast ?len) False (q_mem (queues w)) =
      Inr (VSTATUS_OK, Some ?p, s)"
    "words s = (words (q_mem (queues w)))(?p :=
       replicate ((unat (ucast (ucast ?len :: u64) + 24 :: u32) - PBUFFER_SIZE) div 4) 0)"
    using vs_pool_alloc_effect [OF pl(1) len0 pl(2) fits] by metis
  have room: "\<not> 4 * length (words s ?p) < unat ?len" using s(2) len by simp
  let ?w1 = "w\<lparr>queues := (queues w)\<lparr>q_mem := s\<rparr>\<rparr>"
  let ?c = "(cntx w)\<lparr>cx_pool := ?p, globalPool := pool, defaultTimeout := timeout,
     numAlloc := 0, numFree := poolSize (cntx w), free_list := 0\<rparr>"
  let ?m = "entry_array ?p (n * ENTRY_SIZE)"
  have clean: "clean_entry x" if "?m b = Some x" for b x
    using that by (auto simp: entry_array_def clean_entry_def split: if_splits)
  have dom_m: "entry_ptr ?p j \<in> dom ?m" if "j < n" for j
    unfolding entry_array_dom using that by simp
  obtain l' m' where i: "init_free_list ?p 0 n (0, ?m) = Inr (l', m')"
    "dlist m' l' (rev (map (entry_ptr ?p) [0..<n]))" "dom m' = dom ?m"
    "\<And>b x. m' b = Some x \<Longrightarrow> clean_entry x"
    using init_free_list_effect [of ?p ?m 0 "[]" 0 n] dom_m clean by (metis (no_types, lifting)
        add_0 add_gr_0 append_Nil2 dlist_Nil empty_iff list.set(1) less_numeral_extra(3) zero_less_numeral)
  obtain h where h: "vs_lock_init True self None (Some (cx_lock ?c)) VLOCK_FREE VLOCK_THREAD =
      (VSTATUS_OK, Some h)" "lock_ready h" using lock_init_free(1) by blast
  obtain sm where sm: "cs_sema_create True (Some (freeContextWaitSema ?c)) 0 = (VSTATUS_OK, Some sm)"
    "sema_live 0 sm" using sema_created by blast
  let ?c' = "?c\<lparr>free_list := l', cx_lock := h, freeContextWaitSema := sm\<rparr>"
  let ?w' = "?w1\<lparr>entries := m', cntx := ?c'\<rparr>"
  let ?F = "rev (map (entry_ptr ?p) [0..<n])"
  have big: "\<not> (resp_queue (cntx w) \<noteq> 0 \<and> Capacity q < poolSize (cntx w))"
    if "q_rec (queues w) (resp_queue (cntx w)) = Some q" for q
    using that pr by (auto simp: queue_is_def)
  have q: "\<exists>q. q_rec (queues w) (resp_queue (cntx w)) = Some q" if "resp_queue (cntx w) \<noteq> 0"
    using that pr by (auto simp: queue_is_def)
  have chk: "(if resp_queue (cntx w) \<noteq> 0
      then and_then (load (resp_queue (cntx w)) (q_rec (queues w)))
             (\<lambda>q. Inr (Capacity q < poolSize (cntx w))) else Inr False) = Inr False"
    using big q by (auto simp: load_at_Some)
  have op: "cs_cntxt_instance_init self (Some a) True True pool timeout w = Inr (VSTATUS_OK, ?w')"
    unfolding cs_cntxt_instance_init_def chk and_then_simps
    using s(1) room i(1) h(1) sm(1) len(1) pr by (simp add: Let_def set_cntx_def)
  have dm: "dom m' = set ?F" using i(3) by (simp add: entry_array_dom)
  have "lists_ok ?c' m' ?F (\<lambda>_. [])"
    unfolding lists_ok_def
  proof (intro conjI allI impI)
    fix e x assume x: "m' e = Some x"
    then have "e \<in> set ?F" using dm by auto
    with i(4) [OF x] show "entry_ok (hashTableDepth ?c') ?F (\<lambda>_. []) e x"
      by (simp add: entry_ok_def clean_entry_def)
  next
    have "0 \<notin> dom m'" unfolding dm by (auto simp: entry_ptr_def)
    then show "m' 0 = None" by blast
  qed (use pr i(2) in simp_all)
  moreover have "finite (dom m')" unfolding dm by simp
  then have "counts_ok ?c' m' ?F"
    using pr sm(2) i(3) entry_array_card [of ?p n] by (auto simp: counts_ok_def)
  ultimately have "pool_is ?w' ?F (\<lambda>_. [])" by (simp add: pool_is_def)
  moreover have "resp_ok ?w' cap []"
    using pr i(4) by (auto simp: resp_ok_def clean_entry_def queue_is_def)
  ultimately have ok: "cntxt_ok E cap ?w' ?F (\<lambda>_. []) []"
    using pr w(2) by (simp add: cntxt_ok_def timeouts_ok_def)
  show thesis
    by (rule that [OF op ok]) (use h(2) i(4) pr in simp_all)
qed

end
