(* ===== verification/CsContextHistory.thy ===== *)
theory CsContextHistory
  imports CsContextProps CsContextInit
begin

text \<open>
  Whole runs of a context table: histories of lawful clients from its creation on, the answers to
  responses, the end of requests nobody answers, and what two defects of the file lead to.
\<close>

section \<open>Histories from the creation on\<close>

lemma run_keeps:
  assumes "cntxt_ok E cap w F bk xs" "lock_ready (cx_lock (cntx w))" "cntxt_lawful E self ps w"
  shows "\<exists>w' F' bk' xs'. cntxt_run E self ps w = Inr w' \<and> cntxt_ok E cap w' F' bk' xs' \<and>
    config_of (cntx w') = config_of (cntx w)"
  using assms
proof (induction ps arbitrary: w F bk xs)
  case Nil
  then show ?case by auto
next
  case (Cons p ps)
  have "cntxt_allowed p w" using Cons.prems(3) by simp
  from step_keeps [OF Cons.prems(1,2) this] obtain w1 F1 bk1 xs1 where w1:
    "cntxt_step E self p w = Inr w1" "cntxt_ok E cap w1 F1 bk1 xs1"
    "config_of (cntx w1) = config_of (cntx w)" unfolding keeps_def by blast
  have "lock_ready (cx_lock (cntx w1))" using Cons.prems(2) config_fields(9) [OF w1(3)] by simp
  moreover have "cntxt_lawful E self ps w1" using Cons.prems(3) w1(1) by simp
  ultimately obtain w' F' bk' xs' where "cntxt_run E self ps w1 = Inr w'"
    "cntxt_ok E cap w' F' bk' xs'" "config_of (cntx w') = config_of (cntx w1)"
    using Cons.IH [OF w1(2)] by blast
  with w1(1,3) show ?case by auto
qed

lemma free_count:
  assumes "pool_is w F bk"
  shows "numFree (cntx w) = int (card {e. \<exists>x. entries w e = Some x \<and> alloced x = 0})"
    "numAlloc (cntx w) + numFree (cntx w) = poolSize (cntx w)"
proof -
  have "{e. \<exists>x. entries w e = Some x \<and> alloced x = 0} = set F"
    using pool_entry(1) [OF assms] pool_member(1) [OF assms] by fastforce
  moreover have "distinct F"
    using assms dlist_distinct by (auto simp: pool_is_def lists_ok_def)
  ultimately show "numFree (cntx w) = int (card {e. \<exists>x. entries w e = Some x \<and> alloced x = 0})"
    using assms by (simp add: pool_is_def counts_ok_def distinct_card)
  show "numAlloc (cntx w) + numFree (cntx w) = poolSize (cntx w)"
    using assms by (simp add: pool_is_def counts_ok_def)
qed

text \<open>C17: A prepared table is created with all its entries free, and any history of calls by lawful
  clients, in any order and with any callbacks that respect their contract, returns and keeps the
  table well-formed: free list and hash lists doubly linked and exclusive, the counts right, the
  response queue holding distinct entries nobody else has.\<close>

theorem cntxt_histories_keep_table:
  assumes "prepared n cap w" and "callback_ok E" and "pool_live pool (q_mem (queues w))"
    and "malloc_fresh (Some a) (q_mem (queues w))"
  shows "\<exists>w0 F0. cs_cntxt_instance_init self (Some a) True True pool timeout w =
      Inr (VSTATUS_OK, w0) \<and> length F0 = n \<and> cntxt_ok E cap w0 F0 (\<lambda>_. []) [] \<and>
    (\<forall>ps. cntxt_lawful E self ps w0 \<longrightarrow>
      (\<exists>w' F bk xs. cntxt_run E self ps w0 = Inr w' \<and> cntxt_ok E cap w' F bk xs \<and>
        numFree (cntx w') = int (card {e. \<exists>x. entries w' e = Some x \<and> alloced x = 0}) \<and>
        numAlloc (cntx w') = int n - numFree (cntx w')))"
proof -
  obtain w0 F where w0: "cs_cntxt_instance_init self (Some a) True True pool timeout w = Inr (VSTATUS_OK, w0)"
    "cntxt_ok E cap w0 F (\<lambda>_. []) []" "lock_ready (cx_lock (cntx w0))" "length F = n" "poolSize (cntx w0) = int n"
    by (rule init_effect [OF assms])
  have "\<exists>w' F bk xs. cntxt_run E self ps w0 = Inr w' \<and> cntxt_ok E cap w' F bk xs \<and>
        numFree (cntx w') = int (card {e. \<exists>x. entries w' e = Some x \<and> alloced x = 0}) \<and>
        numAlloc (cntx w') = int n - numFree (cntx w')"
    if lawful: "cntxt_lawful E self ps w0" for ps
  proof -
    obtain w' F' bk' xs' where r: "cntxt_run E self ps w0 = Inr w'" "cntxt_ok E cap w' F' bk' xs'"
      "config_of (cntx w') = config_of (cntx w0)"
      using run_keeps [OF w0(2,3) lawful] by blast
    note c = free_count [OF ok_parts(1) [OF r(2)]]
    have "numAlloc (cntx w') = int n - numFree (cntx w')"
      using c(2) config_fields(2) [OF r(3)] w0(5) by linarith
    with r(1,2) c(1) show ?thesis by blast
  qed
  with w0 show ?thesis by blast
qed

lemma lawful_free:
  "(\<And>p w. p \<in> set ps \<Longrightarrow> cntxt_allowed p w) \<Longrightarrow> cntxt_lawful E self ps w"
  by (induction ps arbitrary: w) (auto split: sum.split)

definition quiet_env :: cntxt_env where
  "quiet_env = \<lparr>clock_gettime = (\<lambda>k. (of_nat k, 0)), rand_at = (\<lambda>_. 0),
     send_result = (\<lambda>_ _ _ _. VSTATUS_OK), run_callback = (\<lambda>_ _ _ _ _ w. Inr w)\<rparr>"

lemma quiet_env_ok: "callback_ok quiet_env"
  unfolding callback_ok_def quiet_env_def by (auto intro!: exI evolves_refl)

definition sample_mad :: Mai_t where
  "sample_mad = zero_mai\<lparr>slid := 7, dlid := 7, mclass := MAD_CV_PERF, mad_tid := 5\<rparr>"

definition fresh_cntxt :: cntxt_sys where
  "fresh_cntxt = \<lparr>cntx = zero_cntxt\<lparr>hashTableDepth := 4, poolSize := 3, maxRetries := 2\<rparr>,
     entries = (\<lambda>_. None), queues = demo_queue, sent = [], ticks = 0, draws = 0,
     counters = (\<lambda>_. (0, 0))\<rparr>"

lemma fresh_prepared: "prepared 3 0 fresh_cntxt"
  by (simp add: prepared_def fresh_cntxt_def zero_cntxt_def timeouts_ok_def)

theorem cntxt_histories_keep_table_witness:
  "\<exists>w0 w' F bk xs. cs_cntxt_instance_init 3 (Some 100) True True 1 10 fresh_cntxt =
       Inr (VSTATUS_OK, w0) \<and>
     cntxt_run quiet_env 3 [Get_op (Some sample_mad) True, Age_op, Get_op None False,
       Response_op sample_mad, Failure_op sample_mad, Age_op] w0 = Inr w' \<and>
     cntxt_ok quiet_env 0 w' F bk xs \<and> numAlloc (cntx w') + numFree (cntx w') = 3"
proof -
  let ?ps = "[Get_op (Some sample_mad) True, Age_op, Get_op None False,
       Response_op sample_mad, Failure_op sample_mad, Age_op]"
  have q: "queues fresh_cntxt = demo_queue" by (simp add: fresh_cntxt_def)
  obtain w0 F0 where w0: "cs_cntxt_instance_init 3 (Some 100) True True 1 10 fresh_cntxt =
      Inr (VSTATUS_OK, w0)"
    "\<And>ps. cntxt_lawful quiet_env 3 ps w0 \<Longrightarrow>
      (\<exists>w' F bk xs. cntxt_run quiet_env 3 ps w0 = Inr w' \<and> cntxt_ok quiet_env 0 w' F bk xs \<and>
        numFree (cntx w') = int (card {e. \<exists>x. entries w' e = Some x \<and> alloced x = 0}) \<and>
        numAlloc (cntx w') = int 3 - numFree (cntx w'))"
    using cntxt_histories_keep_table [OF fresh_prepared quiet_env_ok demo_queue_mem(1,2) [folded q], of 3 10]
    by blast
  have "cntxt_lawful quiet_env 3 ?ps w0" by (rule lawful_free) auto
  from w0(2) [OF this] obtain w' F bk xs where
    "cntxt_run quiet_env 3 ?ps w0 = Inr w'" "cntxt_ok quiet_env 0 w' F bk xs"
    "numAlloc (cntx w') = int 3 - numFree (cntx w')" by blast
  with w0(1) show ?thesis by (metis diff_add_cancel of_nat_numeral)
qed

section \<open>Answers to responses\<close>

text \<open>What becomes of the request \<open>x\<close> at \<open>e\<close>, once its response \<open>mad\<close> is there: \<open>F\<close> and \<open>xs\<close> are the
  free list and the response queue before, \<open>F'\<close> and \<open>xs'\<close> after.\<close>

definition answered ::
  "cntxt_env \<Rightarrow> tid \<Rightarrow> Mai_t \<Rightarrow> addr \<Rightarrow> cntxt_entry_t \<Rightarrow> cntxt_sys \<Rightarrow> addr list \<Rightarrow> addr list \<Rightarrow>
     cntxt_sys \<Rightarrow> addr list \<Rightarrow> addr list \<Rightarrow> bool" where
  "answered E self mad e x w F xs w' F' xs' \<longleftrightarrow>
    (if senderWantsResponse x \<noteq> 0 \<and> resp_queue (cntx w) \<noteq> 0
     then F' = F \<and> xs' = xs @ [e] \<and> (\<exists>z. entries w' e = Some z \<and> hashed z = 0 \<and> e_mad z = mad)
     else if e_callback x = 0 then F' = e # F \<and> xs' = xs
     else \<exists>w2 w3 y. touches e (locked self w) w2 \<and>
       run_callback E (e_callback x) e VSTATUS_OK (callback_data x) (Some mad) w2 = Inr w3 \<and>
       entries w3 e = Some y \<and>
       (if releasing y \<noteq> 0 then cs_cntxt_retire_nolock e w3 = Inr w' else w' = w3))"

definition others_kept :: "addr \<Rightarrow> cntxt_sys \<Rightarrow> cntxt_sys \<Rightarrow> bool" where
  "others_kept e w w' \<longleftrightarrow>
    (\<forall>a u. a \<noteq> e \<and> entries w a = Some u \<and> alloced u \<noteq> 0 \<longrightarrow>
       (\<exists>v. entries w' a = Some v \<and> strip v = strip u))"

definition awaited :: "Mai_t \<Rightarrow> cntxt_sys \<Rightarrow> addr \<Rightarrow> cntxt_entry_t \<Rightarrow> bool" where
  "awaited mad w e x \<longleftrightarrow> entries w e = Some x \<and> hashed x \<noteq> 0 \<and> lid x = slid mad \<and>
     MAI_MASK_TID (e_tid x) = MAI_MASK_TID (mad_tid mad)"

lemma awaited_matches:
  "awaited mad w e x \<longleftrightarrow> entries w e = Some x \<and> hashed x \<noteq> 0 \<and> matches mad x"
  by (simp add: awaited_def matches_def)

text \<open>C19: A response releases exactly one hashed entry whose LID and transaction id it matches and
  leaves every other request alone; the entry goes to the response queue with the response in it
  when its sender asked for that, back to the free list when nobody is to be called, and otherwise
  its callback gets the response, once.  A response that matches no request changes nothing.\<close>

theorem cntxt_response_matching:
  assumes "cntxt_ok E cap w F bk xs" and "lock_ready (cx_lock (cntx w))"
  shows "if \<exists>e x. awaited mad w e x
    then \<exists>e x w' F' bk' xs'. awaited mad w e x \<and>
      cs_cntxt_find_release E self mad w = Inr ((), unlocked w w') \<and>
      cntxt_ok E cap w' F' bk' xs' \<and> others_kept e w w' \<and>
      answered E self mad e x w F xs w' F' xs'
    else cs_cntxt_find_release E self mad w = Inr ((), w)"
proof (cases "\<exists>e x. awaited mad w e x")
  case False
  then have "\<not> (\<exists>e x. entries w e = Some x \<and> hashed x \<noteq> 0 \<and> matches mad x)"
    by (simp add: awaited_matches)
  from response_ignored(1) [OF assms this] show ?thesis unfolding if_not_P [OF False] .
next
  case True
  let ?e = "first_match mad w (bk (bucket_of (hashTableDepth (cntx w)) (slid mad)))"
  note p = ok_parts(1) [OF assms(1)]
  have e: "?e \<noteq> 0" using True first_match_props(1) [OF p, of mad] by (auto simp: awaited_matches)
  obtain x where x: "entries w ?e = Some x" "hashed x \<noteq> 0" "matches mad x"
    using first_match_props(2) [OF p e] by blast
  show ?thesis
  proof (rule response_accepted [OF assms refl e x(1), where self = self], goal_cases)
    case r: (1 w' F' bk' xs')
    have "others_kept ?e w w'"
      using evolvesD(5) [OF r(3)] by (simp add: others_kept_def)
    moreover have "answered E self mad ?e x w F xs w' F' xs'"
      unfolding answered_def using r(4-6) by simp
    moreover have "awaited mad w ?e x" using x by (simp add: awaited_matches)
    ultimately show ?thesis unfolding if_P [OF True] using r(1,2) by blast
  qed
qed

text \<open>A table of one entry, which waits for its response.\<close>

definition busy_entry :: cntxt_entry_t where
  "busy_entry = zero_entry\<lparr>alloced := 1, hashed := 1, lid := 7, e_tid := 5, RespTimeout := 10,
     e_mad := sample_mad\<rparr>"

definition busy_cntxt :: cntxt_sys where
  "busy_cntxt = fresh_cntxt\<lparr>entries := [100 \<mapsto> busy_entry], ticks := 1,
     cntx := zero_cntxt\<lparr>hashTableDepth := 1, poolSize := 1, numAlloc := 1, maxRetries := 2,
       defaultTimeout := 10, cx_lock := demo_lock, hash_lists := (replicate CNTXT_HASH_TABLE_DEPTH 0)[0 := 100],
       freeContextWaitSema := \<lparr>sem_magic = SEMAPHORE_MAGIC, osdSema = Some 0\<rparr>\<rparr>\<rparr>"

lemma busy_fields [simp]:
  "entries busy_cntxt = [100 \<mapsto> busy_entry]" "ticks busy_cntxt = 1"
  "hashTableDepth (cntx busy_cntxt) = 1" "poolSize (cntx busy_cntxt) = 1"
  "numAlloc (cntx busy_cntxt) = 1" "numFree (cntx busy_cntxt) = 0" "maxRetries (cntx busy_cntxt) = 2"
  "defaultTimeout (cntx busy_cntxt) = 10" "MinRespTimeout (cntx busy_cntxt) = 0"
  "timeoutAdder (cntx busy_cntxt) = 0" "resp_queue (cntx busy_cntxt) = 0"
  "free_list (cntx busy_cntxt) = 0" "cx_lock (cntx busy_cntxt) = demo_lock"
  "hash_lists (cntx busy_cntxt) = (replicate CNTXT_HASH_TABLE_DEPTH 0)[0 := 100]"
  "freeContextWaitSema (cntx busy_cntxt) = \<lparr>sem_magic = SEMAPHORE_MAGIC, osdSema = Some 0\<rparr>"
  by (simp_all add: busy_cntxt_def zero_cntxt_def)

lemma busy_entry_fields [simp]:
  "alloced busy_entry = 1" "hashed busy_entry = 1" "lid busy_entry = 7" "e_tid busy_entry = 5"
  "RespTimeout busy_entry = 10" "next_e busy_entry = 0" "prev_e busy_entry = 0" "tstamp busy_entry = 0"
  "retries busy_entry = 0" "e_callback busy_entry = 0" "senderWantsResponse busy_entry = 0"
  by (simp_all add: busy_entry_def)

lemma busy_pool: "pool_is busy_cntxt [] ((\<lambda>_. [])(0 := [100]))"
proof -
  have "dlist [100 \<mapsto> busy_entry] ((replicate CNTXT_HASH_TABLE_DEPTH 0)[0 := 100] ! i) (((\<lambda>_. [])(0 := [100])) i)"
    if "i < CNTXT_HASH_TABLE_DEPTH" for i
    using that by (cases "i = 0") (simp_all add: dlist_def)
  then show ?thesis
    by (auto simp: pool_is_def lists_ok_def counts_ok_def entry_ok_def bucket_of_def sema_live_def)
qed

lemma busy_ok: "cntxt_ok quiet_env 0 busy_cntxt [] ((\<lambda>_. [])(0 := [100])) []"
  using busy_pool quiet_env_ok by (simp add: cntxt_ok_def resp_ok_def timeouts_ok_def)

theorem cntxt_response_matching_witness:
  "\<exists>w' bk. cs_cntxt_find_release quiet_env 3 sample_mad busy_cntxt = Inr ((), unlocked busy_cntxt w') \<and>
     cntxt_ok quiet_env 0 w' [100] bk []"
proof -
  have a: "awaited sample_mad busy_cntxt e x \<longleftrightarrow> e = 100 \<and> x = busy_entry" for e x
    by (auto simp: awaited_def matches_def sample_mad_def zero_mai_def)
  have "lock_ready (cx_lock (cntx busy_cntxt))" by (simp add: demo_ready)
  from cntxt_response_matching [OF busy_ok this, of sample_mad 3] show ?thesis
    by (auto simp: a answered_def)
qed

section \<open>Requests nobody answers\<close>

lemma silent_age:
  assumes p: "pool_is w F bk" and s: "silent_table D A M T w" and l: "lock_ready (cx_lock (cntx w))"
    and d: "0 < hashTableDepth (cntx w)"
    and due: "\<forall>e x. entries w e = Some x \<and> hashed x \<noteq> 0 \<longrightarrow> due_request (time_at E T) D A k x"
  obtains left w' F' bk' where "cs_cntxt_age E self w = Inr (left, w')" "pool_is w' F' bk'"
    "silent_table D A M (T + 1) w'" "config_of (cntx w') = config_of (cntx w)" "held w' = held w"
    "\<forall>e x. entries w' e = Some x \<and> hashed x \<noteq> 0 \<longrightarrow> resent_request (time_at E T) D M k x"
    "\<forall>m. budget M w' m \<le> budget M w m"
proof -
  let ?w1 = "(locked self w)\<lparr>ticks := ticks w + 1\<rparr>"
  let ?n = "nat (hashTableDepth (cntx w))"
  have T: "ticks w = T" using s by (simp add: silent_table_def)
  have inv: "pool_is ?w1 F bk \<and> silent_table D A M (T + 1) ?w1 \<and> held ?w1 = held w \<and>
      (\<forall>m. budget M ?w1 m \<le> budget M w m)"
    using p s by (simp add: silent_table_def)
  have n: "0 + ?n \<le> CNTXT_HASH_TABLE_DEPTH" "0 < ?n" using nat_depth [OF p] d by simp_all
  have st: "age_silent.staged (time_at E T) D A k M 0 (bk 0) ?w1 bk"
    unfolding age_silent.staged_def
    using due pool_entry(3) [OF p] by fastforce
  obtain left w2 F2 bk2 where
    b: "age_buckets E self (time_at E T) 0 ?n 0 ?w1 = Inr (left, w2)"
    "pool_is w2 F2 bk2" "silent_table D A M (T + 1) w2" "held w2 = held w"
    "\<forall>m. budget M w2 m \<le> budget M w m" "config_of (cntx w2) = config_of (cntx ?w1)"
    "age_silent.staged (time_at E T) D A k M (?n - 1) [] w2 bk2"
    using age_silent.buckets_total [OF inv n(1) st, of E self 0] n(2) by auto
  have lk: "cx_lock (cntx w2) = lock_taken self (cx_lock (cntx w))"
    using config_fields(9) [OF b(6)] by simp
  have "cs_cntxt_age E self w = Inr (left, unlocked w w2)"
    unfolding cs_cntxt_age_def
    by (rule bracket_effect [OF l _ lk]) (use b(1) T in \<open>simp add: vs_time_get_def\<close>)
  moreover have "config_of (cntx (unlocked w w2)) = config_of (cntx w)"
    using config_relock [where c' = "cntx w2" and c = "cntx w"] b(6) by simp
  moreover have "resent_request (time_at E T) D M k x"
    if x: "entries w2 e = Some x" "hashed x \<noteq> 0" for e x
  proof -
    let ?b = "bucket_of (hashTableDepth (cntx w2)) (lid x)"
    have dep: "hashTableDepth (cntx w2) = hashTableDepth (cntx w)"
      using config_fields(1) [OF b(6)] by simp
    have lt: "?b < ?n" by (rule bucket_of_less) (use n dep in simp_all)
    moreover have "e \<in> set (bk2 ?b)" using pool_entry(3) [OF b(2) x(1)] x(2) lt n(1) by simp
    moreover have "?b < CNTXT_HASH_TABLE_DEPTH" "?b < ?n - 1 \<or> ?b = ?n - 1" using lt n(1) by linarith+
    ultimately show ?thesis
      using b(7) x(1) unfolding age_silent.staged_def by (metis empty_iff list.set(1))
  qed
  then have "\<forall>e x. entries w2 e = Some x \<and> hashed x \<noteq> 0 \<longrightarrow> resent_request (time_at E T) D M k x"
    by blast
  ultimately show thesis using that [of left "unlocked w w2" F2 bk2] b(2-5) by simp
qed

text \<open>The clock readings of \<open>n + 1\<close> successive calls, starting with the \<open>T\<close>th, are at least a timeout
  apart.\<close>

definition spaced :: "cntxt_env \<Rightarrow> u64 \<Rightarrow> u64 \<Rightarrow> nat \<Rightarrow> nat \<Rightarrow> bool" where
  "spaced E D A T n \<longleftrightarrow>
    (\<forall>j < n. D \<le> time_at E (T + j + 1) - time_at E (T + j) \<and>
       D + A \<le> time_at E (T + j + 1) - time_at E (T + j))"

lemma silent_runs:
  assumes "pool_is w F bk" "silent_table D A M T w" "lock_ready (cx_lock (cntx w))"
    "0 < hashTableDepth (cntx w)" "spaced E D A T n"
    "\<forall>e x. entries w e = Some x \<and> hashed x \<noteq> 0 \<longrightarrow> due_request (time_at E T) D A k x"
  shows "\<exists>w' F' bk'. cntxt_run E self (replicate (Suc n) Age_op) w = Inr w' \<and> pool_is w' F' bk' \<and>
    held w' = held w \<and> poolSize (cntx w') = poolSize (cntx w) \<and>
    (\<forall>m. budget M w' m \<le> budget M w m) \<and>
    (\<forall>e x. entries w' e = Some x \<and> hashed x \<noteq> 0 \<longrightarrow> resent_request (time_at E (T + n)) D M (k + n) x)"
  using assms
proof (induction n arbitrary: w F bk T k)
  case 0
  obtain left w' F' bk' where "cs_cntxt_age E self w = Inr (left, w')" "pool_is w' F' bk'"
    "config_of (cntx w') = config_of (cntx w)" "held w' = held w"
    "\<forall>e x. entries w' e = Some x \<and> hashed x \<noteq> 0 \<longrightarrow> resent_request (time_at E T) D M k x"
    "\<forall>m. budget M w' m \<le> budget M w m"
    by (rule silent_age [OF "0.prems"(1-4,6), where self = self])
  moreover from this(3) have "poolSize (cntx w') = poolSize (cntx w)" by (rule config_fields(2))
  ultimately show ?case by (intro exI [of _ w'] exI [of _ F'] exI [of _ bk']) simp
next
  case (Suc n)
  obtain left w1 F1 bk1 where w1: "cs_cntxt_age E self w = Inr (left, w1)" "pool_is w1 F1 bk1"
    "silent_table D A M (T + 1) w1" "config_of (cntx w1) = config_of (cntx w)" "held w1 = held w"
    "\<forall>e x. entries w1 e = Some x \<and> hashed x \<noteq> 0 \<longrightarrow> resent_request (time_at E T) D M k x"
    "\<forall>m. budget M w1 m \<le> budget M w m"
    by (rule silent_age [OF Suc.prems(1-4,6), where self = self])
  have l1: "lock_ready (cx_lock (cntx w1))" "0 < hashTableDepth (cntx w1)"
    using Suc.prems(3,4) config_fields(1,9) [OF w1(4)] by simp_all
  have gap: "D \<le> time_at E (T + 1) - time_at E T" "D + A \<le> time_at E (T + 1) - time_at E T"
    using Suc.prems(5) by (auto simp: spaced_def dest: spec [of _ 0])
  have sp: "spaced E D A (T + 1) n"
    using Suc.prems(5) by (fastforce simp: spaced_def dest: spec [of _ "Suc _"])
  have due: "\<forall>e x. entries w1 e = Some x \<and> hashed x \<noteq> 0 \<longrightarrow> due_request (time_at E (T + 1)) D A (k + 1) x"
    using w1(6) gap by (auto simp: due_request_def resent_request_def Suc_le_eq)
  obtain w' F' bk' where "cntxt_run E self (replicate (Suc n) Age_op) w1 = Inr w'"
    "pool_is w' F' bk'" "held w' = held w1" "poolSize (cntx w') = poolSize (cntx w1)"
    "\<forall>m. budget M w' m \<le> budget M w1 m"
    "\<forall>e x. entries w' e = Some x \<and> hashed x \<noteq> 0 \<longrightarrow>
       resent_request (time_at E (T + 1 + n)) D M (k + 1 + n) x"
    using Suc.IH [OF w1(2,3) l1 sp due] by blast
  moreover have "cntxt_run E self (replicate (Suc (Suc n)) Age_op) w =
      cntxt_run E self (replicate (Suc n) Age_op) w1" using w1(1) by simp
  moreover have "budget M w' m \<le> budget M w m" for m
    using calculation(5) w1(7) order_trans by blast
  ultimately show ?case
    using w1(5) config_fields(2) [OF w1(4)]
    by (intro exI [of _ w'] exI [of _ F'] exI [of _ bk']) simp
qed

text \<open>C18: Requests that nobody answers end, for a table without response queue whose retries are not
  stepped (\<open>MinRespTimeout\<close> is 0), when no waiting request has a callback and each has been waiting
  for a timeout: after \<open>maxRetries + 1\<close> passes of the timeout scan that are a timeout apart all
  waiting entries are back on the free list, exactly the entries in the hands of callers stay
  allocated, and of any packet no more copies have been sent than the requests with that packet
  had retries left.\<close>

theorem cntxt_unanswered_requests_end:
  assumes "pool_is w F bk" and "lock_ready (cx_lock (cntx w))" and "0 < hashTableDepth (cntx w)"
    and "silent_table D A M T w" and "spaced E D A T (nat M)"
    and "\<forall>e x. entries w e = Some x \<and> hashed x \<noteq> 0 \<longrightarrow> due_request (time_at E T) D A 0 x"
  shows "\<exists>w' F' bk'. cntxt_run E self (replicate (nat M + 1) Age_op) w = Inr w' \<and>
    pool_is w' F' bk' \<and> (\<forall>e x. entries w' e = Some x \<longrightarrow> hashed x = 0) \<and> held w' = held w \<and>
    numAlloc (cntx w') = int (card (held w)) \<and>
    (\<forall>m. packets_of m w' \<le> packets_of m w + (\<Sum>e\<in>dom (entries w). retries_left M m w e))"
proof -
  obtain w' F' bk' where w': "cntxt_run E self (replicate (nat M + 1) Age_op) w = Inr w'"
    "pool_is w' F' bk'" "held w' = held w" "\<forall>m. budget M w' m \<le> budget M w m"
    and r: "\<forall>e x. entries w' e = Some x \<and> hashed x \<noteq> 0 \<longrightarrow>
      resent_request (time_at E (T + nat M)) D M (0 + nat M) x"
    using silent_runs [OF assms(1,4,2,3,5,6), of self] unfolding Suc_eq_plus1 by blast
  have none: "hashed x = 0" if "entries w' e = Some x" for e x
  proof (rule ccontr)
    assume "hashed x \<noteq> 0"
    with r that have "nat M < unat (retries x)" "int (unat (retries x)) \<le> M"
      unfolding resent_request_def by auto
    then show False by linarith
  qed
  let ?free = "{e. \<exists>x. entries w' e = Some x \<and> alloced x = 0}"
  have u: "dom (entries w') = held w' \<union> ?free" and i: "held w' \<inter> ?free = {}"
    using none by (auto simp: held_def)
  have d: "finite (dom (entries w'))" "int (card (dom (entries w'))) = poolSize (cntx w')"
    using w'(2) by (simp_all add: pool_is_def counts_ok_def)
  have "card (held w' \<union> ?free) = card (held w') + card ?free"
    using d(1) unfolding u by (intro card_Un_disjoint [OF _ _ i]) simp_all
  then have "int (card (held w')) + int (card ?free) = poolSize (cntx w')"
    using d(2) unfolding u by linarith
  with free_count [OF w'(2)] have "numAlloc (cntx w') = int (card (held w'))" by linarith
  moreover have "packets_of m w' \<le> packets_of m w + (\<Sum>e\<in>dom (entries w). retries_left M m w e)" for m
  proof -
    have "packets_of m w' \<le> budget M w' m" by (simp add: budget_def)
    also have "\<dots> \<le> budget M w m" using w'(4) by blast
    finally show ?thesis by (simp add: budget_def)
  qed
  ultimately show ?thesis using w'(1-3) none
    by (intro exI [of _ w'] exI [of _ F'] exI [of _ bk']) auto
qed

theorem cntxt_unanswered_requests_end_witness:
  "\<exists>w'. cntxt_run quiet_env 3 (replicate 3 Age_op) busy_cntxt = Inr w' \<and> numAlloc (cntx w') = 0 \<and>
     packets_of (e_mad busy_entry) w' \<le> packets_of (e_mad busy_entry) busy_cntxt + 2"
proof -
  have t: "time_at quiet_env k = of_nat k * 1000000" for k by (simp add: time_at_def quiet_env_def)
  have l: "lock_ready (cx_lock (cntx busy_cntxt))" "0 < hashTableDepth (cntx busy_cntxt)"
    by (simp_all add: demo_ready)
  have s: "silent_table 10 0 2 1 busy_cntxt" by (simp add: silent_table_def)
  have gap: "time_at quiet_env (k + 1) - time_at quiet_env k = 1000000" for k
    by (simp add: t algebra_simps)
  have le: "10 \<le> (1000000 :: u64)" by simp
  have sp: "spaced quiet_env 10 0 1 (nat 2)" unfolding spaced_def gap using le by simp
  have due: "\<forall>e x. entries busy_cntxt e = Some x \<and> hashed x \<noteq> 0 \<longrightarrow>
      due_request (time_at quiet_env 1) 10 0 0 x"
    using le by (simp add: due_request_def t)
  have "held busy_cntxt = {}" by (auto simp: held_def)
  from cntxt_unanswered_requests_end [OF busy_pool l s sp due, of 3] obtain w' where
    w': "cntxt_run quiet_env 3 (replicate (nat 2 + 1) Age_op) busy_cntxt = Inr w'"
      "numAlloc (cntx w') = int (card (held busy_cntxt))"
      "packets_of (e_mad busy_entry) w' \<le> packets_of (e_mad busy_entry) busy_cntxt +
         (\<Sum>e\<in>dom (entries busy_cntxt). retries_left 2 (e_mad busy_entry) busy_cntxt e)"
    by blast
  moreover have "int (card (held busy_cntxt)) = 0" using \<open>held busy_cntxt = {}\<close> by simp
  moreover have "(\<Sum>e\<in>dom (entries busy_cntxt). retries_left 2 (e_mad busy_entry) busy_cntxt e) = 2"
    by (simp add: retries_left_def busy_entry_def)
  moreover have "nat 2 + 1 = (3 :: nat)" by simp
  ultimately show ?thesis by (intro exI [of _ w'] conjI) (simp_all only:)
qed

section \<open>Defects\<close>

text \<open>C39: With a \<open>hashTableDepth\<close> of 0, which the header allows, a request is accepted and hashed, but
  no number of passes of the timeout scan sends it again or ends it: the table stays as it is.\<close>

theorem cntxt_depth_zero_never_ages:
  assumes "cntxt_ok E cap w (e # F) bk xs" and "lock_ready (cx_lock (cntx w))"
    and "hashTableDepth (cntx w) = 0"
  shows "\<exists>w1 x. cs_cntxt_get E self (Some mad) wait w = Inr (e, w1) \<and> entries w1 e = Some x \<and>
    hashed x \<noteq> 0 \<and>
    (\<forall>n. cntxt_run E self (replicate n Age_op) w1 = Inr (w1\<lparr>ticks := ticks w1 + n\<rparr>))"
proof -
  obtain w1 x where w1: "cs_cntxt_get E self (Some mad) wait w = Inr (e, w1)" "keeps E cap w w1"
    "entries w1 e = Some x" "hashed x \<noteq> 0"
    using get_total [OF assms(1,2), of self "Some mad" wait] by auto
  have c: "config_of (cntx w1) = config_of (cntx w)" using w1(2) by (simp add: keeps_def)
  have l: "lock_ready (cx_lock (cntx w1))" and d: "hashTableDepth (cntx w1) = 0"
    using assms(2,3) config_fields(1,9) [OF c] by simp_all
  have age: "cs_cntxt_age E self (w1\<lparr>ticks := t\<rparr>) = Inr (0, w1\<lparr>ticks := t + 1\<rparr>)" for t
  proof -
    let ?w = "w1\<lparr>ticks := t\<rparr>"
    have "cs_cntxt_age E self ?w = Inr (0, unlocked ?w ((locked self ?w)\<lparr>ticks := t + 1\<rparr>))"
      unfolding cs_cntxt_age_def
      by (rule bracket_effect) (use l d in \<open>simp_all add: vs_time_get_def\<close>)
    then show ?thesis by (cases w1) (simp add: set_cntx_def)
  qed
  have "cntxt_run E self (replicate n Age_op) (w1\<lparr>ticks := t\<rparr>) = Inr (w1\<lparr>ticks := t + n\<rparr>)" for n t
    by (induction n arbitrary: t) (simp_all add: age)
  from this [of _ "ticks w1"] w1 show ?thesis by auto
qed

theorem cntxt_depth_zero_never_ages_witness:
  "\<exists>w1 x. entries w1 100 = Some x \<and> hashed x \<noteq> 0 \<and>
     cntxt_run quiet_env 3 (replicate 1000 Age_op) w1 = Inr (w1\<lparr>ticks := ticks w1 + 1000\<rparr>)"
proof -
  let ?x = "busy_entry\<lparr>alloced := 0, hashed := 0\<rparr>"
  let ?c = "(cntx busy_cntxt)\<lparr>hashTableDepth := 0, numAlloc := 0, numFree := 1, free_list := 100,
      hash_lists := replicate CNTXT_HASH_TABLE_DEPTH 0\<rparr>"
  let ?w = "busy_cntxt\<lparr>cntx := ?c, entries := [100 \<mapsto> ?x]\<rparr>"
  have "pool_is ?w [100] (\<lambda>_. [])"
    by (auto simp: pool_is_def lists_ok_def counts_ok_def entry_ok_def dlist_def sema_live_def
        busy_entry_def)
  then have "cntxt_ok quiet_env 0 ?w [100] (\<lambda>_. []) []"
    using quiet_env_ok by (simp add: cntxt_ok_def resp_ok_def timeouts_ok_def)
  moreover have "lock_ready (cx_lock (cntx ?w))" by (simp add: demo_ready)
  ultimately obtain w1 x where "entries w1 100 = Some x" "hashed x \<noteq> 0"
    "\<forall>n. cntxt_run quiet_env 3 (replicate n Age_op) w1 = Inr (w1\<lparr>ticks := ticks w1 + n\<rparr>)"
    using cntxt_depth_zero_never_ages [of quiet_env 0 ?w 100 "[]" "\<lambda>_. []" "[]" 3 sample_mad False]
    by auto
  then show ?thesis by blast
qed

text \<open>With stepped retries a reused entry is given up at its first timeout: its total timeout was
  cleared with the rest, so no packet is sent again.\<close>

lemma reused_entry_not_retried:
  assumes ok: "pool_is w F bk" and e: "entries w e = Some x" "alloced x \<noteq> 0" "hashed x = 0"
    and t: "timeouts_ok (cntx w)" "MinRespTimeout (cntx w) \<noteq> 0"
  obtains w1 st w2 w3 where "cs_entxt_reuse_nolock E e (Some m) w = Inr w1"
    "cs_cntxt_send_mad_nolock E e w1 = Inr (st, w2)"
    "cs_cntxt_timeout_entry E e now w2 = Inr (VSTATUS_TIMEOUT, w3)" "sent w3 = sent w2"
    "length (sent w2) = length (sent w) + 1"
proof -
  let ?b = "bucket_of (hashTableDepth (cntx w)) (dlid m)"
  obtain w1 y where w1: "cs_entxt_reuse_nolock E e (Some m) w = Inr w1"
    "pool_is w1 F (bk(?b := e # bk ?b))" "touches e w w1" "entries w1 e = Some y"
    "e_totalTimeout y = 0" "hashed y \<noteq> 0" "sent w1 = sent w"
    by (rule reuse_effect [OF ok e, of E "Some m"]) simp
  obtain st w2 where w2: "cs_cntxt_send_mad_nolock E e w1 = Inr (st, w2)"
    "pool_is w2 F (bk(?b := e # bk ?b))" "touches e w1 w2"
    "entries w2 e = Some (y\<lparr>retries := retries y + 1, sendFailed := (if st = VSTATUS_OK then 0 else 1)\<rparr>)"
    "sent w2 = (e_mad y, datalen (e_mad y), RespTimeout y) # sent w1"
    by (rule resend_effect [OF w1(2,4,6), of E])
  have t2: "timeouts_ok (cntx w2)" "MinRespTimeout (cntx w2) \<noteq> 0"
    using t touches_config(6) [OF touches_trans [OF w1(3) w2(3)]]
      timeouts_config [OF touchesD(3) [OF touches_trans [OF w1(3) w2(3)]]] by simp_all
  have h2: "hashed (y\<lparr>retries := retries y + 1, sendFailed := (if st = VSTATUS_OK then 0 else 1)\<rparr>) \<noteq> 0"
    using w1(6) by simp
  obtain st3 w3 where "cs_cntxt_timeout_entry E e now w2 = Inr (st3, w3)"
    "st3 = VSTATUS_TIMEOUT \<and> sent w3 = sent w2"
    by (rule timeout_effect [OF w2(2,4) h2 t2(1), of E now]) (use t2(2) w1(5) in auto)
  with w1(1,7) w2(1,5) that show thesis by simp
qed


end
