(* ===== verification/QuickMap.thy ===== *)
theory QuickMap
  imports Chains
begin

text \<open>
  The quick map of the IbAccess public library, a red-black tree threaded by a doubly linked
  list: IbAccess/Common/Public/iquickmap.c over iquickmap.h.  This theory is the translation of
  the code; \<open>QuickMapTree\<close> holds the functional red-black trees it is compared with and
  \<open>QuickMapCorrect\<close> the proofs.

  Memory is a store with one function per field of \<^verbatim>\<open>cl_map_item_t\<close>.  A pointer is the root
  sentinel or the nil sentinel embedded in a map, or an item supplied by a client; maps and
  items are numbered.  The loops are partial functions: None means that the loop does not end.
  Assertions and the QMAP_DEBUG fields are left out.
\<close>

section \<open>State\<close>

datatype qptr = QRoot nat | QNil nat | QItem nat

datatype cl_map_color_t = CL_MAP_RED | CL_MAP_BLACK

type_synonym compare_key = "u64 \<Rightarrow> u64 \<Rightarrow> int"

record qstore =
  p_left :: "qptr \<Rightarrow> qptr"
  p_right :: "qptr \<Rightarrow> qptr"
  p_up :: "qptr \<Rightarrow> qptr"
  color :: "qptr \<Rightarrow> cl_map_color_t"
  key :: "qptr \<Rightarrow> u64"
  p_next :: "qptr \<Rightarrow> qptr"
  p_prev :: "qptr \<Rightarrow> qptr"
  qcount :: "nat \<Rightarrow> u64"
  key_compare :: "nat \<Rightarrow> compare_key option"

definition set_left :: "qptr \<Rightarrow> qptr \<Rightarrow> qstore \<Rightarrow> qstore" where
  "set_left p q s = s\<lparr>p_left := (p_left s)(p := q)\<rparr>"

definition set_right :: "qptr \<Rightarrow> qptr \<Rightarrow> qstore \<Rightarrow> qstore" where
  "set_right p q s = s\<lparr>p_right := (p_right s)(p := q)\<rparr>"

definition set_up :: "qptr \<Rightarrow> qptr \<Rightarrow> qstore \<Rightarrow> qstore" where
  "set_up p q s = s\<lparr>p_up := (p_up s)(p := q)\<rparr>"

definition set_color :: "qptr \<Rightarrow> cl_map_color_t \<Rightarrow> qstore \<Rightarrow> qstore" where
  "set_color p c s = s\<lparr>color := (color s)(p := c)\<rparr>"

definition set_next :: "qptr \<Rightarrow> qptr \<Rightarrow> qstore \<Rightarrow> qstore" where
  "set_next p q s = s\<lparr>p_next := (p_next s)(p := q)\<rparr>"

definition set_prev :: "qptr \<Rightarrow> qptr \<Rightarrow> qstore \<Rightarrow> qstore" where
  "set_prev p q s = s\<lparr>p_prev := (p_prev s)(p := q)\<rparr>"

section \<open>The header's inline functions\<close>

definition cl_qmap_count :: "nat \<Rightarrow> qstore \<Rightarrow> u64" where
  "cl_qmap_count m s = qcount s m"

definition cl_is_qmap_empty :: "nat \<Rightarrow> qstore \<Rightarrow> bool" where
  "cl_is_qmap_empty m s \<longleftrightarrow> qcount s m = 0"

definition cl_qmap_key :: "qptr \<Rightarrow> qstore \<Rightarrow> u64" where
  "cl_qmap_key p s = key s p"

definition cl_qmap_end :: "nat \<Rightarrow> qptr" where
  "cl_qmap_end m = QNil m"

definition cl_qmap_head :: "nat \<Rightarrow> qstore \<Rightarrow> qptr" where
  "cl_qmap_head m s = p_next s (QNil m)"

definition cl_qmap_tail :: "nat \<Rightarrow> qstore \<Rightarrow> qptr" where
  "cl_qmap_tail m s = p_prev s (QNil m)"

definition cl_qmap_next :: "qptr \<Rightarrow> qstore \<Rightarrow> qptr" where
  "cl_qmap_next p s = p_next s p"

definition cl_qmap_prev :: "qptr \<Rightarrow> qstore \<Rightarrow> qptr" where
  "cl_qmap_prev p s = p_prev s p"

definition cl_primitive_insert :: "qptr \<Rightarrow> qptr \<Rightarrow> qstore \<Rightarrow> qstore" where
  "cl_primitive_insert p_list_item p_new_item s =
    (let s1 = set_next p_new_item p_list_item s;
         s2 = set_prev p_new_item (p_prev s1 p_list_item) s1;
         s3 = set_prev p_list_item p_new_item s2
     in set_next (p_prev s3 p_new_item) p_new_item s3)"

definition cl_primitive_remove :: "qptr \<Rightarrow> qstore \<Rightarrow> qstore" where
  "cl_primitive_remove p s =
    (let s1 = set_prev (p_next s p) (p_prev s p) s
     in set_next (p_prev s1 p) (p_next s1 p) s1)"

definition cl_qmap_remove_all :: "nat \<Rightarrow> qstore \<Rightarrow> qstore" where
  "cl_qmap_remove_all m s =
    (let s1 = set_left (QRoot m) (QNil m) s;
         s2 = set_next (QNil m) (QNil m) s1;
         s3 = set_prev (QNil m) (QNil m) s2
     in s3\<lparr>qcount := (qcount s3)(m := 0)\<rparr>)"

section \<open>Rotations\<close>

definition cl_map_root :: "nat \<Rightarrow> qstore \<Rightarrow> qptr" where
  "cl_map_root m s = p_left s (QRoot m)"

definition cl_map_is_left_child :: "qptr \<Rightarrow> qstore \<Rightarrow> bool" where
  "cl_map_is_left_child p s \<longleftrightarrow> p_left s (p_up s p) = p"

text \<open>A write through the pointer \<^verbatim>\<open>__cl_map_get_parent_ptr_to_item\<close> returns.\<close>

definition set_parent_ptr :: "qptr \<Rightarrow> qptr \<Rightarrow> qstore \<Rightarrow> qstore" where
  "set_parent_ptr p q s =
    (if cl_map_is_left_child p s then set_left (p_up s p) q s else set_right (p_up s p) q s)"

text \<open>\<open>c\<close> is \<^verbatim>\<open>*pp_root\<close>.\<close>

definition cl_map_rot_left :: "nat \<Rightarrow> qptr \<Rightarrow> qstore \<Rightarrow> qstore" where
  "cl_map_rot_left m p s =
    (let c = p_right s p;
         s1 = set_parent_ptr p c s;
         s2 = set_up c (p_up s1 p) s1;
         s3 = set_right p (p_left s2 c) s2;
         s4 = (if p_left s3 c \<noteq> QNil m then set_up (p_left s3 c) p s3 else s3);
         s5 = set_left c p s4
     in set_up p c s5)"

definition cl_map_rot_right :: "nat \<Rightarrow> qptr \<Rightarrow> qstore \<Rightarrow> qstore" where
  "cl_map_rot_right m p s =
    (let a = p_left s p;
         s1 = set_parent_ptr p a s;
         s2 = set_up a (p_up s1 p) s1;
         s3 = set_left p (p_right s2 a) s2;
         s4 = (if p_right s3 a \<noteq> QNil m then set_up (p_right s3 a) p s3 else s3);
         s5 = set_right a p s4
     in set_up p a s5)"

section \<open>Creation and lookup\<close>

definition cl_qmap_init :: "nat \<Rightarrow> compare_key option \<Rightarrow> qstore \<Rightarrow> qstore" where
  "cl_qmap_init m cmp s =
    (let s1 = set_color (QRoot m) CL_MAP_BLACK
                (set_right (QRoot m) (QNil m) (set_left (QRoot m) (QNil m)
                  (set_up (QRoot m) (QRoot m) (s\<lparr>key := (key s)(QRoot m := 0, QNil m := 0)\<rparr>))));
         s2 = set_color (QNil m) CL_MAP_BLACK
                (set_right (QNil m) (QNil m) (set_left (QNil m) (QNil m)
                  (set_up (QNil m) (QNil m) s1)))
     in cl_qmap_remove_all m (s2\<lparr>key_compare := (key_compare s2)(m := cmp)\<rparr>))"

text \<open>The walk down the tree that the lookups share; \<open>cmp\<close> compares an item with the key sought.\<close>

partial_function (option) get_loop ::
  "nat \<Rightarrow> (qptr \<Rightarrow> int) \<Rightarrow> qptr \<Rightarrow> qstore \<Rightarrow> qptr option" where
  "get_loop m cmp p s =
    (if p = QNil m then Some p
     else if cmp p = 0 then Some p
     else if cmp p > 0 then get_loop m cmp (p_left s p) s
     else get_loop m cmp (p_right s p) s)"

partial_function (option) get_plain_loop :: "nat \<Rightarrow> u64 \<Rightarrow> qptr \<Rightarrow> qstore \<Rightarrow> qptr option" where
  "get_plain_loop m k p s =
    (if p = QNil m then Some p
     else if k = key s p then Some p
     else if k < key s p then get_plain_loop m k (p_left s p) s
     else get_plain_loop m k (p_right s p) s)"

definition cl_qmap_get :: "nat \<Rightarrow> u64 \<Rightarrow> qstore \<Rightarrow> qptr option" where
  "cl_qmap_get m k s =
    (case key_compare s m of
       None \<Rightarrow> get_plain_loop m k (cl_map_root m s) s
     | Some cmp \<Rightarrow> get_loop m (\<lambda>p. cmp (key s p) k) (cl_map_root m s) s)"

text \<open>\<open>below\<close> is the test that makes the walk note the item and go left.\<close>

partial_function (option) get_next_loop ::
  "nat \<Rightarrow> (qptr \<Rightarrow> bool) \<Rightarrow> qptr \<Rightarrow> qptr \<Rightarrow> qstore \<Rightarrow> qptr option" where
  "get_next_loop m below p found s =
    (if p = QNil m then Some found
     else if below p then get_next_loop m below (p_left s p) p s
     else get_next_loop m below (p_right s p) found s)"

definition cl_qmap_get_next :: "nat \<Rightarrow> u64 \<Rightarrow> qstore \<Rightarrow> qptr option" where
  "cl_qmap_get_next m k s =
    (case key_compare s m of
       None \<Rightarrow> get_next_loop m (\<lambda>p. k < key s p) (cl_map_root m s) (QNil m) s
     | Some cmp \<Rightarrow> get_next_loop m (\<lambda>p. cmp (key s p) k < 0) (cl_map_root m s) (QNil m) s)"

definition cl_qmap_get_compare :: "nat \<Rightarrow> u64 \<Rightarrow> compare_key \<Rightarrow> qstore \<Rightarrow> qptr option" where
  "cl_qmap_get_compare m k cmp s = get_loop m (\<lambda>p. cmp (key s p) k) (cl_map_root m s) s"

text \<open>The client's comparison sees the item, hence the store.\<close>

definition cl_qmap_get_item_compare ::
  "nat \<Rightarrow> u64 \<Rightarrow> (qstore \<Rightarrow> qptr \<Rightarrow> u64 \<Rightarrow> int) \<Rightarrow> qstore \<Rightarrow> qptr option" where
  "cl_qmap_get_item_compare m k cmp s = get_loop m (\<lambda>p. cmp s p k) (cl_map_root m s) s"

text \<open>The items \<^verbatim>\<open>cl_qmap_apply_func\<close> passes to its callback, which leaves the map alone.\<close>

partial_function (option) apply_loop :: "nat \<Rightarrow> qptr \<Rightarrow> qstore \<Rightarrow> qptr list option" where
  "apply_loop m p s =
    (if p = QNil m then Some []
     else Option.bind (apply_loop m (cl_qmap_next p s) s) (\<lambda>ps. Some (p # ps)))"

definition cl_qmap_apply_func :: "nat \<Rightarrow> qstore \<Rightarrow> qptr list option" where
  "cl_qmap_apply_func m s = apply_loop m (cl_qmap_head m s) s"

section \<open>Insertion\<close>

partial_function (option) cl_map_ins_bal :: "nat \<Rightarrow> qptr \<Rightarrow> qstore \<Rightarrow> qstore option" where
  "cl_map_ins_bal m p s =
    (if color s (p_up s p) = CL_MAP_RED then
       if cl_map_is_left_child (p_up s p) s then
         (let gu = p_right s (p_up s (p_up s p)) in
          if color s gu = CL_MAP_RED
          then
           (let s1 = set_color gu CL_MAP_BLACK s;
                s2 = set_color (p_up s1 p) CL_MAP_BLACK s1;
                s3 = set_color (p_up s2 (p_up s2 p)) CL_MAP_RED s2
            in cl_map_ins_bal m (p_up s3 (p_up s3 p)) s3)
          else
           (let p1 = (if \<not> cl_map_is_left_child p s then p_up s p else p);
                s1 = (if \<not> cl_map_is_left_child p s then cl_map_rot_left m (p_up s p) s else s);
                s2 = set_color (p_up s1 p1) CL_MAP_BLACK s1;
                s3 = set_color (p_up s2 (p_up s2 p1)) CL_MAP_RED s2
            in cl_map_ins_bal m p1 (cl_map_rot_right m (p_up s3 (p_up s3 p1)) s3)))
       else
         (let gu = p_left s (p_up s (p_up s p)) in
          if color s gu = CL_MAP_RED
          then
           (let s1 = set_color gu CL_MAP_BLACK s;
                s2 = set_color (p_up s1 p) CL_MAP_BLACK s1;
                s3 = set_color (p_up s2 (p_up s2 p)) CL_MAP_RED s2
            in cl_map_ins_bal m (p_up s3 (p_up s3 p)) s3)
          else
           (let p1 = (if cl_map_is_left_child p s then p_up s p else p);
                s1 = (if cl_map_is_left_child p s then cl_map_rot_right m (p_up s p) s else s);
                s2 = set_color (p_up s1 p1) CL_MAP_BLACK s1;
                s3 = set_color (p_up s2 (p_up s2 p1)) CL_MAP_RED s2
            in cl_map_ins_bal m p1 (cl_map_rot_left m (p_up s3 (p_up s3 p1)) s3)))
     else Some s)"

text \<open>The search for the insertion point ends at an item with the key, or at the future parent
  with the result of the last comparison.\<close>

partial_function (option) ins_find_loop ::
  "nat \<Rightarrow> (qptr \<Rightarrow> int) \<Rightarrow> qptr \<Rightarrow> qptr \<Rightarrow> int \<Rightarrow> qstore \<Rightarrow> (qptr + qptr \<times> int) option" where
  "ins_find_loop m cmp at_p p res s =
    (if p = QNil m then Some (Inr (at_p, res))
     else if cmp p = 0 then Some (Inl p)
     else if cmp p > 0 then ins_find_loop m cmp p (p_left s p) (cmp p) s
     else ins_find_loop m cmp p (p_right s p) (cmp p) s)"

definition plain_compare :: "u64 \<Rightarrow> u64 \<Rightarrow> int" where
  "plain_compare item_key k = (if k = item_key then 0 else if k < item_key then 1 else - 1)"

definition cl_qmap_insert :: "nat \<Rightarrow> u64 \<Rightarrow> qptr \<Rightarrow> qstore \<Rightarrow> (qptr \<times> qstore) option" where
  "cl_qmap_insert m k p s =
    (let cmp = (case key_compare s m of None \<Rightarrow> plain_compare | Some c \<Rightarrow> c) in
     case ins_find_loop m (\<lambda>q. cmp (key s q) k) (QRoot m) (cl_map_root m s) 0 s of
       None \<Rightarrow> None
     | Some (Inl q) \<Rightarrow> Some (q, s)
     | Some (Inr (at_p, res)) \<Rightarrow>
        let s1 = set_right p (QNil m) (set_left p (QNil m) s);
            s2 = set_color p CL_MAP_RED (s1\<lparr>key := (key s1)(p := k)\<rparr>);
            s3 = (if at_p = QRoot m
                  then cl_primitive_insert (QNil m) p (set_left at_p p s2)
                  else if res > 0
                  then cl_primitive_insert at_p p (set_left at_p p s2)
                  else cl_primitive_insert (p_next (set_right at_p p s2) at_p) p
                         (set_right at_p p s2));
            s4 = s3\<lparr>qcount := (qcount s3)(m := qcount s3 m + 1)\<rparr>;
            s5 = set_up p at_p s4
        in (case cl_map_ins_bal m p s5 of None \<Rightarrow> None
            | Some s6 \<Rightarrow> Some (p, set_color (cl_map_root m s6) CL_MAP_BLACK s6)))"

section \<open>Removal\<close>

text \<open>The two arms of the loop body that end it, for a left and for a right child; \<open>u\<close> is the
  uncle, already black, and has a red child.\<close>

definition del_bal_left_end :: "nat \<Rightarrow> qptr \<Rightarrow> qptr \<Rightarrow> qstore \<Rightarrow> qstore" where
  "del_bal_left_end m p u0 s0 =
    (let far_red = color s0 (p_right s0 u0) = CL_MAP_RED;
         s1 = (if far_red then s0 else set_color (p_left s0 u0) CL_MAP_BLACK s0);
         s2 = (if far_red then s1 else cl_map_rot_right m u0 (set_color u0 CL_MAP_RED s1));
         u = (if far_red then u0 else p_right s2 (p_up s2 p));
         s3 = set_color u (color s2 (p_up s2 p)) s2;
         s4 = set_color (p_up s3 p) CL_MAP_BLACK s3;
         s5 = set_color (p_right s4 u) CL_MAP_BLACK s4
     in cl_map_rot_left m (p_up s5 p) s5)"

definition del_bal_right_end :: "nat \<Rightarrow> qptr \<Rightarrow> qptr \<Rightarrow> qstore \<Rightarrow> qstore" where
  "del_bal_right_end m p u0 s0 =
    (let far_red = color s0 (p_left s0 u0) = CL_MAP_RED;
         s1 = (if far_red then s0 else set_color (p_right s0 u0) CL_MAP_BLACK s0);
         s2 = (if far_red then s1 else cl_map_rot_left m u0 (set_color u0 CL_MAP_RED s1));
         u = (if far_red then u0 else p_left s2 (p_up s2 p));
         s3 = set_color u (color s2 (p_up s2 p)) s2;
         s4 = set_color (p_up s3 p) CL_MAP_BLACK s3;
         s5 = set_color (p_left s4 u) CL_MAP_BLACK s4
     in cl_map_rot_right m (p_up s5 p) s5)"

partial_function (option) cl_map_del_bal :: "nat \<Rightarrow> qptr \<Rightarrow> qstore \<Rightarrow> qstore option" where
  "cl_map_del_bal m p s =
    (if color s p \<noteq> CL_MAP_RED \<and> p_up s p \<noteq> QRoot m then
       if cl_map_is_left_child p s then
         (let u0 = p_right s (p_up s p);
              red = color s u0 = CL_MAP_RED;
              s1 = (if red then cl_map_rot_left m (p_up s p)
                                  (set_color (p_up s p) CL_MAP_RED (set_color u0 CL_MAP_BLACK s))
                    else s);
              u = (if red then p_right s1 (p_up s1 p) else u0)
          in if color s1 (p_right s1 u) \<noteq> CL_MAP_RED \<and> color s1 (p_left s1 u) \<noteq> CL_MAP_RED
             then cl_map_del_bal m (p_up s1 p) (set_color u CL_MAP_RED s1)
             else (let s2 = del_bal_left_end m p u s1 in Some (set_color p CL_MAP_BLACK s2)))
       else
         (let u0 = p_left s (p_up s p);
              red = color s u0 = CL_MAP_RED;
              s1 = (if red then cl_map_rot_right m (p_up s p)
                                  (set_color (p_up s p) CL_MAP_RED (set_color u0 CL_MAP_BLACK s))
                    else s);
              u = (if red then p_left s1 (p_up s1 p) else u0)
          in if color s1 (p_left s1 u) \<noteq> CL_MAP_RED \<and> color s1 (p_right s1 u) \<noteq> CL_MAP_RED
             then cl_map_del_bal m (p_up s1 p) (set_color u CL_MAP_RED s1)
             else (let s2 = del_bal_right_end m p u s1 in Some (set_color p CL_MAP_BLACK s2)))
     else Some (set_color p CL_MAP_BLACK s))"

text \<open>\<open>d\<close> takes the place of \<open>p\<close> in the tree.\<close>

definition exchange_item :: "qptr \<Rightarrow> qptr \<Rightarrow> qstore \<Rightarrow> qstore" where
  "exchange_item p d s =
    (let s1 = set_up d (p_up s p) s;
         s2 = set_left d (p_left s1 p) s1;
         s3 = set_right d (p_right s2 p) s2;
         s4 = set_parent_ptr p d s3;
         s5 = set_up (p_right s4 p) d s4;
         s6 = set_up (p_left s5 p) d s5
     in set_color d (color s6 p) s6)"

definition cl_qmap_remove_item :: "nat \<Rightarrow> qptr \<Rightarrow> qstore \<Rightarrow> qstore option" where
  "cl_qmap_remove_item m p s =
    (if p = cl_qmap_end m then Some s
     else
      let d = (if p_right s p = QNil m \<or> p_left s p = QNil m then p else cl_qmap_next p s);
          s1 = cl_primitive_remove p s;
          s2 = s1\<lparr>qcount := (qcount s1)(m := qcount s1 m - 1)\<rparr>;
          child = (if p_left s2 d \<noteq> QNil m then p_left s2 d else p_right s2 d);
          s3 = set_up child (p_up s2 d) s2;
          s4 = set_parent_ptr d child s3
      in (case (if color s4 d \<noteq> CL_MAP_RED then cl_map_del_bal m child s4 else Some s4) of
            None \<Rightarrow> None
          | Some s5 \<Rightarrow> Some (if d \<noteq> p then exchange_item p d s5 else s5)))"

definition cl_qmap_remove :: "nat \<Rightarrow> u64 \<Rightarrow> qstore \<Rightarrow> (qptr \<times> qstore) option" where
  "cl_qmap_remove m k s =
    (case cl_qmap_get m k s of None \<Rightarrow> None
     | Some p \<Rightarrow> map_option (\<lambda>s1. (p, s1)) (cl_qmap_remove_item m p s))"

definition cl_qmap_remove_compare ::
  "nat \<Rightarrow> u64 \<Rightarrow> compare_key \<Rightarrow> qstore \<Rightarrow> (qptr \<times> qstore) option" where
  "cl_qmap_remove_compare m k cmp s =
    (case cl_qmap_get_compare m k cmp s of None \<Rightarrow> None
     | Some p \<Rightarrow> map_option (\<lambda>s1. (p, s1)) (cl_qmap_remove_item m p s))"

section \<open>Merge and difference\<close>

partial_function (option) merge_loop :: "nat \<Rightarrow> nat \<Rightarrow> qptr \<Rightarrow> qstore \<Rightarrow> qstore option" where
  "merge_loop dest src p s =
    (if p = QNil src then Some s
     else
      (let nxt = cl_qmap_next p s in
       case cl_qmap_remove_item src p s of None \<Rightarrow> None
       | Some s1 \<Rightarrow>
          (case cl_qmap_insert dest (cl_qmap_key p s1) p s1 of None \<Rightarrow> None
           | Some (q, s2) \<Rightarrow>
              (case (if q \<noteq> p then map_option snd (cl_qmap_insert src (cl_qmap_key p s2) p s2)
                     else Some s2) of
                 None \<Rightarrow> None
               | Some s3 \<Rightarrow> merge_loop dest src nxt s3))))"

definition cl_qmap_merge :: "nat \<Rightarrow> nat \<Rightarrow> qstore \<Rightarrow> qstore option" where
  "cl_qmap_merge dest src s = merge_loop dest src (cl_qmap_head src s) s"

definition cl_qmap_delta_move :: "nat \<Rightarrow> nat \<Rightarrow> qptr \<Rightarrow> qstore \<Rightarrow> (qptr \<times> qstore) option" where
  "cl_qmap_delta_move dest src p s =
    (let nxt = cl_qmap_next p s in
     case cl_qmap_remove_item src p s of None \<Rightarrow> None
     | Some s1 \<Rightarrow>
        (case cl_qmap_insert dest (cl_qmap_key p s1) p s1 of None \<Rightarrow> None
         | Some (_, s2) \<Rightarrow> Some (nxt, s2)))"

partial_function (option) delta_drain :: "nat \<Rightarrow> nat \<Rightarrow> qptr \<Rightarrow> qstore \<Rightarrow> qstore option" where
  "delta_drain dest src p s =
    (if p = QNil src then Some s
     else
      (case cl_qmap_delta_move dest src p s of None \<Rightarrow> None
       | Some (p1, s1) \<Rightarrow> delta_drain dest src p1 s1))"

partial_function (option) delta_loop ::
  "nat \<Rightarrow> nat \<Rightarrow> nat \<Rightarrow> nat \<Rightarrow> qptr \<Rightarrow> qptr \<Rightarrow> qstore \<Rightarrow> (qptr \<times> qptr \<times> qstore) option" where
  "delta_loop m1 m2 m_new m_old p1 p2 s =
    (if p1 \<noteq> QNil m1 \<and> p2 \<noteq> QNil m2 then
       let key1 = cl_qmap_key p1 s; key2 = cl_qmap_key p2 s in
       if key1 < key2
       then (case cl_qmap_delta_move m_old m1 p1 s of None \<Rightarrow> None
             | Some (p1', s1) \<Rightarrow> delta_loop m1 m2 m_new m_old p1' p2 s1)
       else if key1 > key2
       then (case cl_qmap_delta_move m_new m2 p2 s of None \<Rightarrow> None
             | Some (p2', s1) \<Rightarrow> delta_loop m1 m2 m_new m_old p1 p2' s1)
       else delta_loop m1 m2 m_new m_old (cl_qmap_next p1 s) (cl_qmap_next p2 s) s
     else Some (p1, p2, s))"

definition cl_qmap_delta :: "nat \<Rightarrow> nat \<Rightarrow> nat \<Rightarrow> nat \<Rightarrow> qstore \<Rightarrow> qstore option" where
  "cl_qmap_delta m1 m2 m_new m_old s =
    (case delta_loop m1 m2 m_new m_old (cl_qmap_head m1 s) (cl_qmap_head m2 s) s of None \<Rightarrow> None
     | Some (p1, p2, s1) \<Rightarrow>
        (case delta_drain m_new m2 p2 s1 of None \<Rightarrow> None
         | Some s2 \<Rightarrow> delta_drain m_old m1 p1 s2))"

end
