(* ===== verification/QuickMapTree.thy ===== *)
theory QuickMapTree
  imports QuickMap
begin

text \<open>
  Functional red-black trees with a zipper: a tree of item numbers, the frames on the way from a
  node to the root, and the two rebalancing walks of the quick map as functions on a context and
  a tree.  The lemmas show that the walks keep the inorder sequence and restore the red-black
  invariant, and bound the depth of a tree by its number of nodes.
\<close>

section \<open>Trees and contexts\<close>

datatype rb = Lf | Nd rb nat cl_map_color_t rb

datatype rb_frame = FL nat cl_map_color_t rb | FR rb nat cl_map_color_t

fun plug :: "rb_frame list \<Rightarrow> rb \<Rightarrow> rb" where
  "plug [] t = t"
| "plug (FL x c r # k) t = plug k (Nd t x c r)"
| "plug (FR l x c # k) t = plug k (Nd l x c t)"

fun inorder :: "rb \<Rightarrow> nat list" where
  "inorder Lf = []"
| "inorder (Nd l x c r) = inorder l @ x # inorder r"

fun before :: "rb_frame list \<Rightarrow> nat list" where
  "before [] = []"
| "before (FL x c r # k) = before k"
| "before (FR l x c # k) = before k @ inorder l @ [x]"

fun after :: "rb_frame list \<Rightarrow> nat list" where
  "after [] = []"
| "after (FL x c r # k) = x # inorder r @ after k"
| "after (FR l x c # k) = after k"

fun col :: "rb \<Rightarrow> cl_map_color_t" where
  "col Lf = CL_MAP_BLACK"
| "col (Nd l x c r) = c"

fun blacken :: "rb \<Rightarrow> rb" where
  "blacken Lf = Lf"
| "blacken (Nd l x c r) = Nd l x CL_MAP_BLACK r"

lemma inorder_plug: "inorder (plug k t) = before k @ inorder t @ after k"
  by (induction k t rule: plug.induct) auto

lemma inorder_blacken [simp]: "inorder (blacken t) = inorder t"
  by (cases t) auto

lemma col_blacken [simp]: "col (blacken t) = CL_MAP_BLACK"
  by (cases t) auto

lemma blacken_black: "col t = CL_MAP_BLACK \<Longrightarrow> blacken t = t"
  by (cases t) auto

lemma color_red_iff [simp]: "c \<noteq> CL_MAP_RED \<longleftrightarrow> c = CL_MAP_BLACK"
  by (cases c) auto

lemma color_black_iff [simp]: "c \<noteq> CL_MAP_BLACK \<longleftrightarrow> c = CL_MAP_RED"
  by (cases c) auto

section \<open>The red-black invariant\<close>

fun rbt :: "rb \<Rightarrow> nat \<Rightarrow> bool" where
  "rbt Lf n \<longleftrightarrow> n = 0"
| "rbt (Nd l x CL_MAP_RED r) n \<longleftrightarrow>
     rbt l n \<and> rbt r n \<and> col l = CL_MAP_BLACK \<and> col r = CL_MAP_BLACK"
| "rbt (Nd l x CL_MAP_BLACK r) n \<longleftrightarrow> (\<exists>m. n = Suc m \<and> rbt l m \<and> rbt r m)"

fun top_black :: "rb_frame list \<Rightarrow> bool" where
  "top_black [] \<longleftrightarrow> False"
| "top_black (FL x c r # k) \<longleftrightarrow> c = CL_MAP_BLACK"
| "top_black (FR l x c # k) \<longleftrightarrow> c = CL_MAP_BLACK"

text \<open>A context that makes a valid tree with a black root out of a black-rooted tree of black
  height \<open>n\<close>.\<close>

fun crb :: "rb_frame list \<Rightarrow> nat \<Rightarrow> bool" where
  "crb [] n \<longleftrightarrow> True"
| "crb (FL x CL_MAP_RED r # k) n \<longleftrightarrow>
     rbt r n \<and> col r = CL_MAP_BLACK \<and> top_black k \<and> crb k n"
| "crb (FL x CL_MAP_BLACK r # k) n \<longleftrightarrow> rbt r n \<and> crb k (Suc n)"
| "crb (FR l x CL_MAP_RED # k) n \<longleftrightarrow>
     rbt l n \<and> col l = CL_MAP_BLACK \<and> top_black k \<and> crb k n"
| "crb (FR l x CL_MAP_BLACK # k) n \<longleftrightarrow> rbt l n \<and> crb k (Suc n)"

definition rb_tree :: "rb \<Rightarrow> bool" where
  "rb_tree t \<longleftrightarrow> (\<exists>n. rbt t n) \<and> col t = CL_MAP_BLACK"

lemma rb_tree_plug:
  "crb k n \<Longrightarrow> rbt t n \<Longrightarrow> col t = CL_MAP_BLACK \<or> top_black k \<Longrightarrow> rb_tree (plug k t)"
  by (induction k n arbitrary: t rule: crb.induct) (auto simp: rb_tree_def)

lemma rb_tree_plugD:
  "rb_tree (plug k t) \<Longrightarrow> \<exists>n. crb k n \<and> rbt t n \<and> (col t = CL_MAP_BLACK \<or> top_black k)"
proof (induction k t rule: plug.induct)
  case (1 t)
  then show ?case by (auto simp: rb_tree_def)
next
  case (2 x c r k t)
  from 2(2) have "rb_tree (plug k (Nd t x c r))" by simp
  from 2(1) [OF this] show ?case by (cases c) auto
next
  case (3 l x c k t)
  from 3(2) have "rb_tree (plug k (Nd l x c t))" by simp
  from 3(1) [OF this] show ?case by (cases c) auto
qed

lemma rbt_blacken: "rbt t n \<Longrightarrow> col t = CL_MAP_RED \<Longrightarrow> rbt (blacken t) (Suc n)"
  by (cases t) auto

section \<open>Rebalancing after an insertion\<close>

text \<open>The tree in focus has a red root; its parent may be red too.\<close>

fun ins_fix :: "rb_frame list \<Rightarrow> rb \<Rightarrow> rb" where
  "ins_fix (FL x CL_MAP_RED b # FL g c u # k) t =
    (if col u = CL_MAP_RED
     then ins_fix k (Nd (Nd t x CL_MAP_BLACK b) g CL_MAP_RED (blacken u))
     else plug k (Nd t x CL_MAP_BLACK (Nd b g CL_MAP_RED u)))"
| "ins_fix (FR a x CL_MAP_RED # FL g c u # k) (Nd b y d e) =
    (if col u = CL_MAP_RED
     then ins_fix k (Nd (Nd a x CL_MAP_BLACK (Nd b y d e)) g CL_MAP_RED (blacken u))
     else plug k (Nd (Nd a x CL_MAP_RED b) y CL_MAP_BLACK (Nd e g CL_MAP_RED u)))"
| "ins_fix (FR a x CL_MAP_RED # FR u g c # k) t =
    (if col u = CL_MAP_RED
     then ins_fix k (Nd (blacken u) g CL_MAP_RED (Nd a x CL_MAP_BLACK t))
     else plug k (Nd (Nd u g CL_MAP_RED a) x CL_MAP_BLACK t))"
| "ins_fix (FL x CL_MAP_RED b # FR u g c # k) (Nd a y d e) =
    (if col u = CL_MAP_RED
     then ins_fix k (Nd (blacken u) g CL_MAP_RED (Nd (Nd a y d e) x CL_MAP_BLACK b))
     else plug k (Nd (Nd u g CL_MAP_RED a) y CL_MAP_BLACK (Nd e x CL_MAP_RED b)))"
| "ins_fix k t = plug k t"

lemma inorder_ins_fix: "inorder (ins_fix k t) = before k @ inorder t @ after k"
  by (induction k t rule: ins_fix.induct) (auto simp: inorder_plug)

lemma rb_tree_blacken: "rb_tree t \<Longrightarrow> rb_tree (blacken t)"
  by (simp add: rb_tree_def blacken_black)

lemma rb_tree_blacken_plug:
  "crb k n \<Longrightarrow> rbt t n \<Longrightarrow> col t = CL_MAP_BLACK \<or> top_black k \<Longrightarrow> rb_tree (blacken (plug k t))"
  by (intro rb_tree_blacken rb_tree_plug)

lemma rb_ins_end:
  assumes "crb k n" "rbt t n" "col t = CL_MAP_RED" "k = [] \<or> top_black k"
  shows "rb_tree (blacken (plug k t))"
proof (cases "k = []")
  case True
  with assms show ?thesis by (auto simp: rb_tree_def dest: rbt_blacken)
qed (use assms in \<open>auto intro: rb_tree_blacken_plug\<close>)

lemma rb_ins_fix:
  "crb k n \<Longrightarrow> rbt t n \<Longrightarrow> col t = CL_MAP_RED \<Longrightarrow> rb_tree (blacken (ins_fix k t))"
proof (induction k t arbitrary: n rule: ins_fix.induct)
  case (1 x b g c u k t)
  then have c: "c = CL_MAP_BLACK" by simp
  with 1 show ?case
    by (cases "col u") (auto intro!: 1(1) rb_tree_blacken_plug simp: rbt_blacken)
next
  case (2 a x g c u k b y d e)
  then have c: "c = CL_MAP_BLACK" by simp
  with 2 show ?case
    by (cases "col u") (auto intro!: 2(1) rb_tree_blacken_plug simp: rbt_blacken)
next
  case (3 a x u g c k t)
  then have c: "c = CL_MAP_BLACK" by simp
  with 3 show ?case
    by (cases "col u") (auto intro!: 3(1) rb_tree_blacken_plug simp: rbt_blacken)
next
  case (4 x b u g c k a y d e)
  then have c: "c = CL_MAP_BLACK" by simp
  with 4 show ?case
    by (cases "col u") (auto intro!: 4(1) rb_tree_blacken_plug simp: rbt_blacken)
qed (simp only: ins_fix.simps, rule rb_ins_end, assumption, assumption, assumption, force elim: crb.elims)+

section \<open>Rebalancing after a removal\<close>

text \<open>The tree in focus is one black node short.  The first two functions are the arms that end
  the walk, \<open>v\<close> being the black sibling with a red child.\<close>

fun del_end_l :: "rb_frame list \<Rightarrow> rb \<Rightarrow> nat \<Rightarrow> cl_map_color_t \<Rightarrow> rb \<Rightarrow> nat \<Rightarrow> rb \<Rightarrow> rb" where
  "del_end_l k t x c a v b =
    (if col b = CL_MAP_RED then plug k (Nd (Nd t x CL_MAP_BLACK a) v c (blacken b))
     else (case a of
             Nd a1 w _ a2 \<Rightarrow> plug k (Nd (Nd t x CL_MAP_BLACK a1) w c (Nd a2 v CL_MAP_BLACK b))
           | Lf \<Rightarrow> Lf))"

fun del_end_r :: "rb_frame list \<Rightarrow> rb \<Rightarrow> nat \<Rightarrow> cl_map_color_t \<Rightarrow> rb \<Rightarrow> nat \<Rightarrow> rb \<Rightarrow> rb" where
  "del_end_r k t x c a v b =
    (if col a = CL_MAP_RED then plug k (Nd (blacken a) v c (Nd b x CL_MAP_BLACK t))
     else (case b of
             Nd b1 w _ b2 \<Rightarrow> plug k (Nd (Nd a v CL_MAP_BLACK b1) w c (Nd b2 x CL_MAP_BLACK t))
           | Lf \<Rightarrow> Lf))"

fun del_fix :: "rb_frame list \<Rightarrow> rb \<Rightarrow> rb" where
  "del_fix [] t = blacken t"
| "del_fix (FL x c r # k) t =
    (if col t = CL_MAP_RED then plug (FL x c r # k) (blacken t)
     else (case r of Lf \<Rightarrow> Lf
       | Nd ul u cu ur \<Rightarrow>
         if cu = CL_MAP_RED
         then (case ul of Lf \<Rightarrow> Lf
           | Nd a v _ b \<Rightarrow>
             if col a = CL_MAP_BLACK \<and> col b = CL_MAP_BLACK
             then plug (FL u CL_MAP_BLACK ur # k) (Nd t x CL_MAP_BLACK (Nd a v CL_MAP_RED b))
             else del_end_l (FL u CL_MAP_BLACK ur # k) t x CL_MAP_RED a v b)
         else if col ul = CL_MAP_BLACK \<and> col ur = CL_MAP_BLACK
         then del_fix k (Nd t x c (Nd ul u CL_MAP_RED ur))
         else del_end_l k t x c ul u ur))"
| "del_fix (FR l x c # k) t =
    (if col t = CL_MAP_RED then plug (FR l x c # k) (blacken t)
     else (case l of Lf \<Rightarrow> Lf
       | Nd ul u cu ur \<Rightarrow>
         if cu = CL_MAP_RED
         then (case ur of Lf \<Rightarrow> Lf
           | Nd a v _ b \<Rightarrow>
             if col a = CL_MAP_BLACK \<and> col b = CL_MAP_BLACK
             then plug (FR ul u CL_MAP_BLACK # k) (Nd (Nd a v CL_MAP_RED b) x CL_MAP_BLACK t)
             else del_end_r (FR ul u CL_MAP_BLACK # k) t x CL_MAP_RED a v b)
         else if col ul = CL_MAP_BLACK \<and> col ur = CL_MAP_BLACK
         then del_fix k (Nd (Nd ul u CL_MAP_RED ur) x c t)
         else del_end_r k t x c ul u ur))"

declare del_end_l.simps [simp del] del_end_r.simps [simp del]

lemma inorder_del_end:
  "col b = CL_MAP_RED \<or> col a = CL_MAP_RED \<Longrightarrow>
     inorder (del_end_l k t x c a v b) = before k @ inorder t @ x # inorder a @ v # inorder b @ after k"
  "col a = CL_MAP_RED \<or> col b = CL_MAP_RED \<Longrightarrow>
     inorder (del_end_r k t x c a v b) = before k @ inorder a @ v # inorder b @ x # inorder t @ after k"
  by (auto simp: inorder_plug del_end_l.simps del_end_r.simps split: rb.split)

lemma rb_del_end:
  assumes "rbt t n" "rbt a n" "rbt b n" "c = CL_MAP_RED \<longrightarrow> top_black k"
  shows "crb k (if c = CL_MAP_BLACK then Suc (Suc n) else Suc n) \<Longrightarrow> col t = CL_MAP_BLACK \<Longrightarrow>
           col b = CL_MAP_RED \<or> col a = CL_MAP_RED \<Longrightarrow> rb_tree (del_end_l k t x c a v b)"
    and "crb k (if c = CL_MAP_BLACK then Suc (Suc n) else Suc n) \<Longrightarrow> col t = CL_MAP_BLACK \<Longrightarrow>
           col b = CL_MAP_RED \<or> col a = CL_MAP_RED \<Longrightarrow> rb_tree (del_end_r k t x c a v b)"
  using assms
  by (cases a; cases b; cases c;
      auto intro!: rb_tree_plug simp: rbt_blacken del_end_l.simps del_end_r.simps split: if_splits; fail)+

text \<open>The focus was spliced out of a tree in which it had one more black node; the walk ends in a
  valid tree when the focus is black-rooted or the context is not red there.\<close>

lemma crb_frame:
  "crb (FL x c r # k) n \<Longrightarrow> rbt r n \<and> crb k (if c = CL_MAP_RED then n else Suc n) \<and>
     (c = CL_MAP_RED \<longrightarrow> col r = CL_MAP_BLACK \<and> top_black k)"
  "crb (FR r x c # k) n \<Longrightarrow> rbt r n \<and> crb k (if c = CL_MAP_RED then n else Suc n) \<and>
     (c = CL_MAP_RED \<longrightarrow> col r = CL_MAP_BLACK \<and> top_black k)"
  by (cases c; simp)+

lemma rbt_red_sibling:
  "rbt (Nd l x CL_MAP_RED r) (Suc n) \<Longrightarrow>
     \<exists>a v b a' v' b'. l = Nd a v CL_MAP_BLACK b \<and> r = Nd a' v' CL_MAP_BLACK b' \<and>
       rbt a n \<and> rbt b n \<and> rbt a' n \<and> rbt b' n"
  by (cases l; cases r) auto

lemma rbt_sibling:
  assumes "rbt r (Suc n)"
  obtains a u b where "r = Nd a u CL_MAP_BLACK b" "rbt a n" "rbt b n"
  | a v b u a' v' b' where
    "r = Nd (Nd a v CL_MAP_BLACK b) u CL_MAP_RED (Nd a' v' CL_MAP_BLACK b')"
    "rbt a n" "rbt b n" "rbt a' n" "rbt b' n"
proof (cases r)
  case (Nd l x c r')
  show ?thesis
  proof (cases c)
    case CL_MAP_RED
    with Nd assms rbt_red_sibling [of l x r' n] show ?thesis by (auto intro: that(2))
  next
    case CL_MAP_BLACK
    with Nd assms show ?thesis by (auto intro: that(1))
  qed
qed (use assms in simp)

definition short :: "rb \<Rightarrow> nat \<Rightarrow> bool" where
  "short t n \<longleftrightarrow> (if col t = CL_MAP_RED then rbt (blacken t) (Suc n) else rbt t n)"

lemma shortI: "rbt t n \<Longrightarrow> short t n"
  by (simp add: short_def rbt_blacken)

lemma del_fix_red:
  "crb k (Suc n) \<Longrightarrow> short t n \<Longrightarrow> col t = CL_MAP_RED \<Longrightarrow> rb_tree (plug k (blacken t))"
  using rb_tree_plug [of k "Suc n" "blacken t"] by (simp add: short_def)

lemma rb_del_fix: "crb k (Suc n) \<Longrightarrow> short t n \<Longrightarrow> rb_tree (del_fix k t)"
proof (induction k arbitrary: t n)
  case Nil
  then show ?case by (cases t; cases "col t") (auto simp: rb_tree_def short_def)
next
  case (Cons f k)
  show ?case
  proof (cases "col t")
    case CL_MAP_RED
    with del_fix_red [OF Cons.prems] show ?thesis by (cases f) auto
  next
    case t: CL_MAP_BLACK
    with Cons.prems have rt: "rbt t n" by (simp add: short_def)
    show ?thesis
    proof (cases f)
      case (FL x c r)
      note f = crb_frame(1) [OF Cons.prems(1) [unfolded FL]]
      from f have "rbt r (Suc n)" by simp
      then show ?thesis
      proof (cases rule: rbt_sibling)
        case (1 a u b)
        with FL f t rt Cons.prems show ?thesis by (cases c) (auto intro!: rb_del_end Cons.IH simp: short_def)
      next
        case (2 a v b u a' v' b')
        with FL f t rt Cons.prems show ?thesis
          by (cases c) (auto intro!: rb_del_end rb_tree_plug)
      qed
    next
      case (FR r x c)
      note f = crb_frame(2) [OF Cons.prems(1) [unfolded FR]]
      from f have "rbt r (Suc n)" by simp
      then show ?thesis
      proof (cases rule: rbt_sibling)
        case (1 a u b)
        with FR f t rt Cons.prems show ?thesis by (cases c) (auto intro!: rb_del_end Cons.IH simp: short_def)
      next
        case (2 a v b u a' v' b')
        with FR f t rt Cons.prems show ?thesis
          by (cases c) (auto intro!: rb_del_end rb_tree_plug)
      qed
    qed
  qed
qed

lemma inorder_del_fix:
  "crb k (Suc n) \<Longrightarrow> short t n \<Longrightarrow> inorder (del_fix k t) = before k @ inorder t @ after k"
proof (induction k arbitrary: t n)
  case Nil
  then show ?case by simp
next
  case (Cons f k)
  show ?case
  proof (cases "col t")
    case CL_MAP_RED
    then show ?thesis by (cases f) (auto simp: inorder_plug)
  next
    case t: CL_MAP_BLACK
    with Cons.prems have rt: "rbt t n" by (simp add: short_def)
    show ?thesis
    proof (cases f)
      case (FL x c r)
      note f = crb_frame(1) [OF Cons.prems(1) [unfolded FL]]
      from f have "rbt r (Suc n)" by simp
      then show ?thesis
      proof (cases rule: rbt_sibling)
        case (1 a u b)
        with FL f t rt show ?thesis
          by (cases c) (auto simp: Cons.IH [where n = n] Cons.IH [where n = "Suc n"] short_def
              inorder_del_end)
      next
        case (2 a v b u a' v' b')
        with FL t show ?thesis
          by (auto simp: inorder_plug inorder_del_end)
      qed
    next
      case (FR r x c)
      note f = crb_frame(2) [OF Cons.prems(1) [unfolded FR]]
      from f have "rbt r (Suc n)" by simp
      then show ?thesis
      proof (cases rule: rbt_sibling)
        case (1 a u b)
        with FR f t rt show ?thesis
          by (cases c) (auto simp: Cons.IH [where n = n] Cons.IH [where n = "Suc n"] short_def
              inorder_del_end)
      next
        case (2 a v b u a' v' b')
        with FR t show ?thesis
          by (auto simp: inorder_plug inorder_del_end)
      qed
    qed
  qed
qed

section \<open>Depth\<close>

lemma rbt_size: "rbt t n \<Longrightarrow> 2 ^ n \<le> length (inorder t) + 1"
proof (induction t n rule: rbt.induct)
  case (2 l x r n)
  then show ?case by fastforce
next
  case (3 l x r n)
  then obtain m where m: "n = Suc m" "rbt l m" "rbt r m" by auto
  from 3(1) [of m] 3(2) [of m] m have "2 ^ m \<le> length (inorder l) + 1"
    "2 ^ m \<le> length (inorder r) + 1" by auto
  with m show ?case by simp
qed simp

lemma crb_depth:
  "crb k n \<Longrightarrow> rbt t n \<Longrightarrow> col t = CL_MAP_BLACK \<or> top_black k \<Longrightarrow>
     \<exists>N. rbt (plug k t) N \<and> length k + 2 * n + (if top_black k then 1 else 0) \<le> 2 * N"
proof (induction k n arbitrary: t rule: crb.induct)
  case (2 x r k n)
  from 2(1) [of "Nd t x CL_MAP_RED r"] 2(2-) show ?case by fastforce
next
  case (3 x r k n)
  from 3(1) [of "Nd t x CL_MAP_BLACK r"] 3(2-) show ?case by (auto split: if_splits)
next
  case (4 l x k n)
  from 4(1) [of "Nd l x CL_MAP_RED t"] 4(2-) show ?case by fastforce
next
  case (5 l x k n)
  from 5(1) [of "Nd l x CL_MAP_BLACK t"] 5(2-) show ?case by (auto split: if_splits)
qed auto

lemma rb_tree_depth:
  assumes "rb_tree (plug k (Nd l x c r))"
  shows "2 ^ (length k + 1) \<le> (length (inorder (plug k (Nd l x c r))) + 1)\<^sup>2"
proof -
  obtain n where n: "crb k n" "rbt (Nd l x c r) n" "c = CL_MAP_BLACK \<or> top_black k"
    using rb_tree_plugD [OF assms] by auto
  then obtain N where N: "rbt (plug k (Nd l x c r)) N"
    "length k + 2 * n + (if top_black k then 1 else 0) \<le> 2 * N"
    using crb_depth [of k n "Nd l x c r"] by auto
  from n have "c = CL_MAP_BLACK \<Longrightarrow> n > 0" by auto
  with N(2) n(3) have "length k + 1 \<le> 2 * N" by (cases "top_black k") auto
  then have "(2::nat) ^ (length k + 1) \<le> 2 ^ (2 * N)" by (rule power_increasing) simp
  also have "\<dots> = (2 ^ N)\<^sup>2" by (metis power_mult mult.commute)
  also have "\<dots> \<le> (length (inorder (plug k (Nd l x c r))) + 1)\<^sup>2"
    by (rule power_mono [OF rbt_size [OF N(1)]]) simp
  finally show ?thesis .
qed

text \<open>Every node of a tree can be focused.\<close>

lemma focus_exists: "x \<in> set (inorder (plug k0 t)) \<Longrightarrow> x \<in> set (inorder t) \<Longrightarrow>
    \<exists>k l c r. plug k0 t = plug k (Nd l x c r)"
proof (induction t arbitrary: k0)
  case (Nd l y c r)
  consider "x = y" | "x \<in> set (inorder l)" | "x \<in> set (inorder r)" using Nd(4) by auto
  then show ?case
  proof cases
    case 2
    then show ?thesis using Nd(1) [of "FL y c r # k0"] Nd(3) by simp
  next
    case 3
    then show ?thesis using Nd(2) [of "FR l y c # k0"] Nd(3) by simp
  qed blast
qed simp

lemma focus:
  assumes "x \<in> set (inorder T)"
  obtains k l c r where "T = plug k (Nd l x c r)"
  using focus_exists [of x "[]" T] assms by auto


end
