(* ===== verification/QuickMapHeap.thy ===== *)
theory QuickMapHeap
  imports QuickMapTree
begin

text \<open>
  How a red-black tree of the functional side lies in the store: \<open>tree\<close> for a subtree, \<open>ctx\<close> for
  the context of a focus, \<open>heap\<close> for the whole tree below a map's root sentinel.  The lemmas read
  the fields of a focused node and show what each primitive step of the code, a recolouring, a
  rotation, a write through the parent's link, does to the tree; \<open>owned\<close> says what it leaves alone.
\<close>

section \<open>Trees in the store\<close>

fun rp :: "nat \<Rightarrow> rb \<Rightarrow> qptr" where
  "rp m Lf = QNil m"
| "rp m (Nd l x c r) = QItem x"

fun par :: "nat \<Rightarrow> rb_frame list \<Rightarrow> qptr" where
  "par m [] = QRoot m"
| "par m (FL x c r # k) = QItem x"
| "par m (FR l x c # k) = QItem x"

fun tree :: "qstore \<Rightarrow> nat \<Rightarrow> qptr \<Rightarrow> rb \<Rightarrow> bool" where
  "tree s m u Lf \<longleftrightarrow> True"
| "tree s m u (Nd l x c r) \<longleftrightarrow>
     p_up s (QItem x) = u \<and> p_left s (QItem x) = rp m l \<and> p_right s (QItem x) = rp m r \<and>
     color s (QItem x) = c \<and> tree s m (QItem x) l \<and> tree s m (QItem x) r"

fun ctx :: "qstore \<Rightarrow> nat \<Rightarrow> rb_frame list \<Rightarrow> qptr \<Rightarrow> bool" where
  "ctx s m [] p \<longleftrightarrow> p_left s (QRoot m) = p"
| "ctx s m (FL x c r # k) p \<longleftrightarrow>
     p_up s (QItem x) = par m k \<and> p_left s (QItem x) = p \<and> p_right s (QItem x) = rp m r \<and>
     color s (QItem x) = c \<and> tree s m (QItem x) r \<and> ctx s m k (QItem x)"
| "ctx s m (FR l x c # k) p \<longleftrightarrow>
     p_up s (QItem x) = par m k \<and> p_left s (QItem x) = rp m l \<and> p_right s (QItem x) = p \<and>
     color s (QItem x) = c \<and> tree s m (QItem x) l \<and> ctx s m k (QItem x)"

definition heap :: "qstore \<Rightarrow> nat \<Rightarrow> rb \<Rightarrow> bool" where
  "heap s m T \<longleftrightarrow>
     p_left s (QRoot m) = rp m T \<and> tree s m (QRoot m) T \<and> distinct (inorder T) \<and>
     color s (QNil m) = CL_MAP_BLACK \<and> color s (QRoot m) = CL_MAP_BLACK"

lemma ctx_plug: "p_left s (QRoot m) = rp m (plug k t) \<and> tree s m (QRoot m) (plug k t) \<longleftrightarrow>
    ctx s m k (rp m t) \<and> tree s m (par m k) t"
  by (induction k t rule: plug.induct) auto

lemma heap_plug:
  "heap s m (plug k t) \<longleftrightarrow>
     ctx s m k (rp m t) \<and> tree s m (par m k) t \<and> distinct (before k @ inorder t @ after k) \<and>
     color s (QNil m) = CL_MAP_BLACK \<and> color s (QRoot m) = CL_MAP_BLACK"
  using ctx_plug [of s m k t] by (auto simp: heap_def inorder_plug)

lemma rp_simps [simp]:
  "rp m t = QNil m \<longleftrightarrow> t = Lf" "QNil m = rp m t \<longleftrightarrow> t = Lf"
  "rp m t \<noteq> QRoot m'" "QRoot m' \<noteq> rp m t" "m \<noteq> m' \<Longrightarrow> rp m t \<noteq> QNil m'"
  by (cases t; simp)+

lemma rp_item: "t \<noteq> Lf \<Longrightarrow> \<exists>x \<in> set (inorder t). rp m t = QItem x"
  by (cases t) auto

lemma par_nil [simp]: "par m k \<noteq> QNil m'"
  by (cases "(m, k)" rule: par.cases) auto

section \<open>Writes that leave a tree alone\<close>

fun pin :: "qptr \<Rightarrow> nat set \<Rightarrow> bool" where
  "pin (QItem x) X \<longleftrightarrow> x \<in> X"
| "pin (QRoot m) X \<longleftrightarrow> False"
| "pin (QNil m) X \<longleftrightarrow> False"

lemma pin_D: "\<not> pin p X \<Longrightarrow> x \<in> X \<Longrightarrow> p \<noteq> QItem x"
  by auto

definition same_node :: "qstore \<Rightarrow> qstore \<Rightarrow> qptr \<Rightarrow> bool" where
  "same_node s s' p \<longleftrightarrow> p_left s' p = p_left s p \<and> p_right s' p = p_right s p \<and>
     p_up s' p = p_up s p \<and> color s' p = color s p"

lemma tree_same:
  "(\<And>x. x \<in> set (inorder t) \<Longrightarrow> same_node s s' (QItem x)) \<Longrightarrow> tree s' m u t = tree s m u t"
  by (induction t arbitrary: u) (auto simp: same_node_def)

lemma ctx_same:
  "(\<And>x. x \<in> set (before k) \<union> set (after k) \<Longrightarrow> same_node s s' (QItem x)) \<Longrightarrow>
     p_left s' (QRoot m) = p_left s (QRoot m) \<Longrightarrow> ctx s' m k p = ctx s m k p"
proof (induction k arbitrary: p)
  case (Cons f k)
  show ?case
  proof (cases f)
    case (FL x c r)
    then have "tree s' m (QItem x) r = tree s m (QItem x) r" using Cons.prems by (intro tree_same) auto
    with FL Cons show ?thesis by (auto simp: same_node_def)
  next
    case (FR l x c)
    then have "tree s' m (QItem x) l = tree s m (QItem x) l" using Cons.prems by (intro tree_same) auto
    with FR Cons show ?thesis by (auto simp: same_node_def)
  qed
qed simp

text \<open>The topmost frame's link is redirected to \<open>q\<close>.\<close>

fun set_at :: "nat \<Rightarrow> rb_frame list \<Rightarrow> qptr \<Rightarrow> qstore \<Rightarrow> qstore" where
  "set_at m [] q s = set_left (QRoot m) q s"
| "set_at m (FL x c r # k) q s = set_left (QItem x) q s"
| "set_at m (FR l x c # k) q s = set_right (QItem x) q s"

lemma set_fields [simp]:
  "p_left (set_left p q s) = (p_left s)(p := q)" "p_right (set_left p q s) = p_right s"
  "p_up (set_left p q s) = p_up s" "color (set_left p q s) = color s"
  "p_left (set_right p q s) = p_left s" "p_right (set_right p q s) = (p_right s)(p := q)"
  "p_up (set_right p q s) = p_up s" "color (set_right p q s) = color s"
  "p_left (set_up p q s) = p_left s" "p_right (set_up p q s) = p_right s"
  "p_up (set_up p q s) = (p_up s)(p := q)" "color (set_up p q s) = color s"
  "p_left (set_color p c s) = p_left s" "p_right (set_color p c s) = p_right s"
  "p_up (set_color p c s) = p_up s" "color (set_color p c s) = (color s)(p := c)"
  by (simp_all add: set_left_def set_right_def set_up_def set_color_def)

lemma set_at_fields [simp]:
  "p_up (set_at m k q s) = p_up s" "color (set_at m k q s) = color s"
  by (cases "(m, k, q, s)" rule: set_at.cases; simp)+

lemma set_at_links [simp]:
  "p \<noteq> par m k \<Longrightarrow> p_left (set_at m k q s) p = p_left s p"
  "p \<noteq> par m k \<Longrightarrow> p_right (set_at m k q s) p = p_right s p"
  by (cases "(m, k, q, s)" rule: set_at.cases; simp)+

lemma par_in: "par m k = QItem x \<Longrightarrow> x \<in> set (before k) \<union> set (after k)"
  by (cases "(m, k)" rule: par.cases) auto

lemma tree_writes [simp]:
  assumes "\<not> pin p (set (inorder t))"
  shows "tree (set_left p q s) m u t = tree s m u t"
    and "tree (set_right p q s) m u t = tree s m u t"
    and "tree (set_up p q s) m u t = tree s m u t"
    and "tree (set_color p c s) m u t = tree s m u t"
  using assms by (auto intro!: tree_same simp: same_node_def)

lemma ctx_writes [simp]:
  assumes "\<not> pin p (set (before k) \<union> set (after k))"
  shows "p \<noteq> QRoot m \<Longrightarrow> ctx (set_left p q s) m k v = ctx s m k v"
    and "ctx (set_right p q s) m k v = ctx s m k v"
    and "ctx (set_up p q s) m k v = ctx s m k v"
    and "ctx (set_color p c s) m k v = ctx s m k v"
  using pin_D [OF assms] by (intro ctx_same; auto simp: same_node_def)+

lemma tree_set_at [simp]:
  "set (inorder t) \<inter> (set (before k) \<union> set (after k)) = {} \<Longrightarrow>
     tree (set_at m k q s) m u t = tree s m u t"
proof (rule tree_same)
  fix x assume "set (inorder t) \<inter> (set (before k) \<union> set (after k)) = {}" "x \<in> set (inorder t)"
  then have "QItem x \<noteq> par m k" using par_in [of m k x] by auto
  then show "same_node s (set_at m k q s) (QItem x)" by (simp add: same_node_def)
qed

lemma ctx_set_at:
  assumes "ctx s m k p" "distinct (before k @ after k)"
  shows "ctx (set_at m k q s) m k q"
proof (cases k)
  case (Cons f k')
  show ?thesis
  proof (cases f)
    case (FL x c r)
    with Cons assms show ?thesis by auto
  next
    case (FR l x c)
    with Cons assms show ?thesis by auto
  qed
qed simp

text \<open>A subtree whose root gets another parent or another colour.\<close>

lemma tree_set_up:
  assumes "tree s m u t" "distinct (inorder t)" "t \<noteq> Lf"
  shows "tree (set_up (rp m t) v s) m v t"
  using assms by (cases t) auto


section \<open>Reading the parent's link\<close>

fun is_fr :: "rb_frame list \<Rightarrow> bool" where
  "is_fr (FR l x c # k) \<longleftrightarrow> True"
| "is_fr _ \<longleftrightarrow> False"

definition sib_differs :: "nat \<Rightarrow> rb_frame list \<Rightarrow> qptr \<Rightarrow> bool" where
  "sib_differs m k p \<longleftrightarrow> (case k of FR l x c # _ \<Rightarrow> rp m l \<noteq> p | _ \<Rightarrow> True)"

lemma is_left_child_ctx:
  "ctx s m k p \<Longrightarrow> p_up s p = par m k \<Longrightarrow> sib_differs m k p \<Longrightarrow>
     cl_map_is_left_child p s \<longleftrightarrow> \<not> is_fr k"
  by (cases k rule: is_fr.cases) (auto simp: cl_map_is_left_child_def sib_differs_def)

lemma set_parent_ptr_ctx:
  "ctx s m k p \<Longrightarrow> p_up s p = par m k \<Longrightarrow> sib_differs m k p \<Longrightarrow>
     set_parent_ptr p q s = set_at m k q s"
  by (cases k rule: is_fr.cases)
    (auto simp: set_parent_ptr_def cl_map_is_left_child_def sib_differs_def)

lemma sib_differs_item:
  "x \<notin> set (before k) \<Longrightarrow> sib_differs m k (QItem x)"
proof (cases k rule: is_fr.cases)
  case (1 l y c k')
  moreover assume "x \<notin> set (before k)"
  ultimately have "x \<notin> set (inorder l)" by auto
  with 1 show ?thesis using rp_item [of l m] by (cases l) (auto simp: sib_differs_def)
qed (auto simp: sib_differs_def)

text \<open>What the code reads around a focused node.\<close>

lemma heap_node:
  assumes "heap s m (plug k (Nd l x c r))"
  shows "p_up s (QItem x) = par m k" "p_left s (QItem x) = rp m l" "p_right s (QItem x) = rp m r"
    "color s (QItem x) = c"
  using assms by (simp_all add: heap_plug)

lemma heap_left_child:
  assumes "heap s m (plug k (Nd l x c r))"
  shows "cl_map_is_left_child (QItem x) s \<longleftrightarrow> \<not> is_fr k"
    and "set_parent_ptr (QItem x) q s = set_at m k q s"
  using assms is_left_child_ctx [of s m k "QItem x"] set_parent_ptr_ctx [of s m k "QItem x"]
  by (simp_all add: heap_plug sib_differs_item)

lemma color_rp: "color s (QNil m) = CL_MAP_BLACK \<Longrightarrow> tree s m u t \<Longrightarrow> color s (rp m t) = col t"
  by (cases t) auto

lemma heap_colors:
  assumes "heap s m (plug k t)"
  shows "color s (rp m t) = col t"
    and "color s (par m k) = (if k = [] \<or> top_black k then CL_MAP_BLACK else CL_MAP_RED)"
proof -
  show "color s (rp m t) = col t" using assms by (auto simp: heap_plug intro: color_rp)
  show "color s (par m k) = (if k = [] \<or> top_black k then CL_MAP_BLACK else CL_MAP_RED)"
    using assms [unfolded heap_plug] by (cases k rule: top_black.cases) auto
qed

section \<open>Recolouring and rotation\<close>

lemma heap_color:
  assumes "heap s m (plug k (Nd l x c r))"
  shows "heap (set_color (QItem x) c' s) m (plug k (Nd l x c' r))"
  using assms by (auto simp: heap_plug)

lemma heap_set_at:
  assumes "heap s m (plug k t)"
  shows "ctx (set_at m k q s) m k q"
    and "set (inorder t') \<subseteq> set (inorder t) \<Longrightarrow> tree (set_at m k q s) m u t' = tree s m u t'"
    and "x \<in> set (inorder t) \<Longrightarrow> p_left (set_at m k q s) (QItem x) = p_left s (QItem x)"
    and "x \<in> set (inorder t) \<Longrightarrow> p_right (set_at m k q s) (QItem x) = p_right s (QItem x)"
proof -
  have p: "x \<in> set (inorder t) \<Longrightarrow> QItem x \<noteq> par m k" for x
    using assms par_in [of m k x] by (auto simp: heap_plug)
  show "ctx (set_at m k q s) m k q"
    using assms by (intro ctx_set_at [of s m k "rp m t"]) (auto simp: heap_plug)
  show "set (inorder t') \<subseteq> set (inorder t) \<Longrightarrow> tree (set_at m k q s) m u t' = tree s m u t'"
    using assms by (intro tree_set_at) (auto simp: heap_plug)
  show "x \<in> set (inorder t) \<Longrightarrow> p_left (set_at m k q s) (QItem x) = p_left s (QItem x)"
    "x \<in> set (inorder t) \<Longrightarrow> p_right (set_at m k q s) (QItem x) = p_right s (QItem x)"
    using p by simp_all
qed

lemma heap_rot_left:
  assumes "heap s m (plug k (Nd a x c (Nd b y d e)))"
  shows "heap (cl_map_rot_left m (QItem x) s) m (plug k (Nd (Nd a x c b) y d e))"
proof -
  note simps = cl_map_rot_left_def Let_def heap_node(3) [OF assms, unfolded rp.simps]
    heap_left_child(2) [OF assms]
  show ?thesis
    using assms heap_set_at [OF assms] unfolding simps by (cases b) (auto simp: heap_plug)
qed

lemma heap_rot_right:
  assumes "heap s m (plug k (Nd (Nd b y d e) x c a))"
  shows "heap (cl_map_rot_right m (QItem x) s) m (plug k (Nd b y d (Nd e x c a)))"
proof -
  note simps = cl_map_rot_right_def Let_def heap_node(2) [OF assms, unfolded rp.simps]
    heap_left_child(2) [OF assms]
  show ?thesis
    using assms heap_set_at [OF assms] unfolding simps by (cases e) (auto simp: heap_plug)
qed


section \<open>What the tree steps leave alone\<close>

text \<open>Only the links and colours of the pointers in \<open>P\<close> change.\<close>

definition keep :: "qptr set \<Rightarrow> qstore \<Rightarrow> qstore \<Rightarrow> bool" where
  "keep P s s' \<longleftrightarrow> (\<forall>p. p \<notin> P \<longrightarrow> same_node s s' p) \<and> key s' = key s \<and> p_next s' = p_next s \<and>
     p_prev s' = p_prev s \<and> qcount s' = qcount s \<and> key_compare s' = key_compare s"

definition own :: "nat \<Rightarrow> rb \<Rightarrow> qptr set" where
  "own m T = insert (QRoot m) (QItem ` set (inorder T))"

lemma keep_refl [simp]: "keep P s s"
  by (simp add: keep_def same_node_def)

lemma keep_trans: "keep P s s1 \<Longrightarrow> keep P s1 s2 \<Longrightarrow> keep P s s2"
  by (simp add: keep_def same_node_def)

lemma keep_mono: "keep P s s1 \<Longrightarrow> P \<subseteq> Q \<Longrightarrow> keep Q s s1"
  by (auto simp: keep_def)

lemma keep_set [simp]:
  "p \<in> P \<Longrightarrow> keep P s (set_left p q s)" "p \<in> P \<Longrightarrow> keep P s (set_right p q s)"
  "p \<in> P \<Longrightarrow> keep P s (set_up p q s)" "p \<in> P \<Longrightarrow> keep P s (set_color p c s)"
  by (auto simp: keep_def same_node_def set_left_def set_right_def set_up_def set_color_def)

lemma keep_set_step:
  "keep P s s1 \<Longrightarrow> p \<in> P \<Longrightarrow> keep P s (set_left p q s1)"
  "keep P s s1 \<Longrightarrow> p \<in> P \<Longrightarrow> keep P s (set_right p q s1)"
  "keep P s s1 \<Longrightarrow> p \<in> P \<Longrightarrow> keep P s (set_up p q s1)"
  "keep P s s1 \<Longrightarrow> p \<in> P \<Longrightarrow> keep P s (set_color p c s1)"
  by (auto intro: keep_trans)

lemma par_own: "par m k \<in> own m (plug k t)"
  using par_in [of m k] by (cases "par m k")
    (auto simp: own_def inorder_plug par_nil elim: par.elims)

lemma keep_set_at: "keep (own m (plug k t)) s (set_at m k q s)"
  using par_own [of m k t] by (cases "(m, k, q, s)" rule: set_at.cases) (auto simp: own_def)

lemma own_cong: "inorder T = inorder T' \<Longrightarrow> own m T = own m T'"
  by (simp add: own_def)

lemma own_item: "x \<in> set (inorder T) \<Longrightarrow> QItem x \<in> own m T"
  by (simp add: own_def)

lemma keep_rot_left:
  assumes "heap s m (plug k (Nd a x c (Nd b y d e)))"
  shows "keep (own m (plug k (Nd a x c (Nd b y d e)))) s (cl_map_rot_left m (QItem x) s)"
proof -
  note simps = cl_map_rot_left_def Let_def heap_node(3) [OF assms, unfolded rp.simps]
    heap_left_child(2) [OF assms]
  have "p_left (set_at m k (QItem y) s) (QItem y) = rp m b"
    using heap_set_at(3) [OF assms, of y] assms by (auto simp: heap_plug)
  then show ?thesis
    unfolding simps using rp_item [of b m] heap_set_at(3) [OF assms, of y]
    by (auto intro!: keep_set_step keep_set_at own_item simp: inorder_plug)
qed

lemma keep_rot_right:
  assumes "heap s m (plug k (Nd (Nd b y d e) x c a))"
  shows "keep (own m (plug k (Nd (Nd b y d e) x c a))) s (cl_map_rot_right m (QItem x) s)"
proof -
  note simps = cl_map_rot_right_def Let_def heap_node(2) [OF assms, unfolded rp.simps]
    heap_left_child(2) [OF assms]
  have "p_right (set_at m k (QItem y) s) (QItem y) = rp m e"
    using heap_set_at(4) [OF assms, of y] assms by (auto simp: heap_plug)
  then show ?thesis
    unfolding simps using rp_item [of e m] heap_set_at(4) [OF assms, of y]
    by (auto intro!: keep_set_step keep_set_at own_item simp: inorder_plug)
qed

end
