(* ===== verification/QuickMapBalance.thy ===== *)
theory QuickMapBalance
  imports QuickMapHeap
begin

text \<open>
  The two rebalancing loops of the quick map compute the functional walks \<open>ins_fix\<close> and \<open>del_fix\<close>
  on the tree in the store, and end.
\<close>

section \<open>After an insertion\<close>

lemma heap_recolor3:
  "heap s m (plug k (Nd (Nd a x cx b) g cg (Nd ul w cw ur))) \<Longrightarrow>
     heap (set_color (QItem g) dg (set_color (QItem x) dx (set_color (QItem w) dw s))) m
       (plug k (Nd (Nd a x dx b) g dg (Nd ul w dw ur)))"
  "heap s m (plug k (Nd (Nd ul w cw ur) g cg (Nd a x cx b))) \<Longrightarrow>
     heap (set_color (QItem g) dg (set_color (QItem x) dx (set_color (QItem w) dw s))) m
       (plug k (Nd (Nd ul w dw ur) g dg (Nd a x dx b)))"
  by (auto simp: heap_plug)

lemma heap_recolor2:
  "heap s m (plug k (Nd (Nd a x cx b) g cg u)) \<Longrightarrow>
     heap (set_color (QItem g) dg (set_color (QItem x) dx s)) m
       (plug k (Nd (Nd a x dx b) g dg u))"
  "heap s m (plug k (Nd u g cg (Nd a x cx b))) \<Longrightarrow>
     heap (set_color (QItem g) dg (set_color (QItem x) dx s)) m
       (plug k (Nd u g dg (Nd a x dx b)))"
  by (auto simp: heap_plug)

lemma heap_child:
  "heap s m (plug k (Nd l x c r)) \<Longrightarrow> color s (rp m l) = col l"
  "heap s m (plug k (Nd l x c r)) \<Longrightarrow> color s (rp m r) = col r"
  by (auto simp: heap_plug intro: color_rp)

lemma col_redE: "col u = CL_MAP_RED \<Longrightarrow> \<exists>l w r. u = Nd l w CL_MAP_RED r"
  by (cases u) auto

lemma ins_bal_stop:
  assumes "heap s m (plug k (Nd l y d r))" "k = [] \<or> top_black k"
  shows "cl_map_ins_bal m (QItem y) s = Some s"
  using heap_node(1) [OF assms(1)] heap_colors(2) [OF assms(1)] assms(2)
  by (subst cl_map_ins_bal.simps) auto

lemma ins_bal_recolor_l:
  assumes "heap s m (plug k (Nd T g c (Nd ul w CL_MAP_RED ur)))"
    and "T = Nd (Nd l y d r) x CL_MAP_RED b \<or> T = Nd b x CL_MAP_RED (Nd l y d r)"
  shows "cl_map_ins_bal m (QItem y) s = cl_map_ins_bal m (QItem g)
    (set_color (QItem g) CL_MAP_RED (set_color (QItem x) CL_MAP_BLACK
      (set_color (QItem w) CL_MAP_BLACK s)))"
proof -
  have x: "p_up s (QItem x) = QItem g" "color s (QItem x) = CL_MAP_RED"
    "cl_map_is_left_child (QItem x) s"
    using assms heap_node [of s m "FL g c (Nd ul w CL_MAP_RED ur) # k"]
      heap_left_child [of s m "FL g c (Nd ul w CL_MAP_RED ur) # k"] by fastforce+
  have y: "p_up s (QItem y) = QItem x" using assms by (auto simp: heap_plug)
  have w: "p_right s (QItem g) = QItem w" "color s (QItem w) = CL_MAP_RED"
    using assms(1) by (auto simp: heap_plug)
  show ?thesis by (subst cl_map_ins_bal.simps) (simp add: x y w)
qed

lemma ins_bal_recolor_r:
  assumes "heap s m (plug k (Nd (Nd ul w CL_MAP_RED ur) g c T))"
    and "T = Nd (Nd l y d r) x CL_MAP_RED b \<or> T = Nd b x CL_MAP_RED (Nd l y d r)"
  shows "cl_map_ins_bal m (QItem y) s = cl_map_ins_bal m (QItem g)
    (set_color (QItem g) CL_MAP_RED (set_color (QItem x) CL_MAP_BLACK
      (set_color (QItem w) CL_MAP_BLACK s)))"
proof -
  have x: "p_up s (QItem x) = QItem g" "color s (QItem x) = CL_MAP_RED"
    "\<not> cl_map_is_left_child (QItem x) s"
    using assms heap_node [of s m "FR (Nd ul w CL_MAP_RED ur) g c # k"]
      heap_left_child [of s m "FR (Nd ul w CL_MAP_RED ur) g c # k"] by fastforce+
  have y: "p_up s (QItem y) = QItem x" using assms by (auto simp: heap_plug)
  have w: "p_left s (QItem g) = QItem w" "color s (QItem w) = CL_MAP_RED"
    using assms(1) by (auto simp: heap_plug)
  show ?thesis by (subst cl_map_ins_bal.simps) (simp add: x y w)
qed

lemma ins_bal_rotate_l:
  assumes h: "heap s m (plug k (Nd (Nd (Nd l y d r) x CL_MAP_RED b) g c u))"
    and u: "col u = CL_MAP_BLACK"
  shows "cl_map_ins_bal m (QItem y) s = cl_map_ins_bal m (QItem y)
    (cl_map_rot_right m (QItem g) (set_color (QItem g) CL_MAP_RED (set_color (QItem x) CL_MAP_BLACK s)))"
proof -
  have x: "p_up s (QItem x) = QItem g" "color s (QItem x) = CL_MAP_RED"
    "cl_map_is_left_child (QItem x) s"
    using h heap_node [of s m "FL g c u # k"] heap_left_child [of s m "FL g c u # k"]
    by fastforce+
  have y: "p_up s (QItem y) = QItem x" "cl_map_is_left_child (QItem y) s"
    using h heap_node [of s m "FL x CL_MAP_RED b # FL g c u # k"]
      heap_left_child [of s m "FL x CL_MAP_RED b # FL g c u # k"] by fastforce+
  have w: "color s (p_right s (QItem g)) = CL_MAP_BLACK"
    using heap_child(2) [OF h] heap_node(3) [OF h] u by simp
  show ?thesis by (subst cl_map_ins_bal.simps) (simp add: x y w)
qed

lemma ins_bal_rotate_r:
  assumes h: "heap s m (plug k (Nd u g c (Nd b x CL_MAP_RED (Nd l y d r))))"
    and u: "col u = CL_MAP_BLACK"
  shows "cl_map_ins_bal m (QItem y) s = cl_map_ins_bal m (QItem y)
    (cl_map_rot_left m (QItem g) (set_color (QItem g) CL_MAP_RED (set_color (QItem x) CL_MAP_BLACK s)))"
proof -
  have x: "p_up s (QItem x) = QItem g" "color s (QItem x) = CL_MAP_RED"
    "\<not> cl_map_is_left_child (QItem x) s"
    using h heap_node [of s m "FR u g c # k"] heap_left_child [of s m "FR u g c # k"]
    by fastforce+
  have y: "p_up s (QItem y) = QItem x" "\<not> cl_map_is_left_child (QItem y) s"
    using h heap_node [of s m "FR b x CL_MAP_RED # FR u g c # k"]
      heap_left_child [of s m "FR b x CL_MAP_RED # FR u g c # k"] by fastforce+
  have w: "color s (p_left s (QItem g)) = CL_MAP_BLACK"
    using heap_child(1) [OF h] heap_node(2) [OF h] u by simp
  show ?thesis by (subst cl_map_ins_bal.simps) (simp add: x y w)
qed

text \<open>An inner grandchild is first rotated outwards; the loop then goes on with the old parent.\<close>

lemma ins_bal_inner_l:
  assumes h: "heap s m (plug k (Nd (Nd a x CL_MAP_RED (Nd b y d e)) g c u))"
    and u: "col u = CL_MAP_BLACK"
  defines "s1 \<equiv> cl_map_rot_left m (QItem x) s"
  shows "cl_map_ins_bal m (QItem y) s = cl_map_ins_bal m (QItem x)
    (cl_map_rot_right m (QItem g) (set_color (QItem g) CL_MAP_RED (set_color (QItem y) CL_MAP_BLACK s1)))"
proof -
  have h1: "heap s1 m (plug k (Nd (Nd (Nd a x CL_MAP_RED b) y d e) g c u))"
    using h heap_rot_left [of s m "FL g c u # k"] unfolding s1_def by simp
  have x: "p_up s (QItem x) = QItem g" "color s (QItem x) = CL_MAP_RED"
    "cl_map_is_left_child (QItem x) s"
    using h heap_node [of s m "FL g c u # k"] heap_left_child [of s m "FL g c u # k"]
    by fastforce+
  have y: "p_up s (QItem y) = QItem x" "\<not> cl_map_is_left_child (QItem y) s"
    using h heap_node [of s m "FR a x CL_MAP_RED # FL g c u # k"]
      heap_left_child [of s m "FR a x CL_MAP_RED # FL g c u # k"] by fastforce+
  have w: "color s (p_right s (QItem g)) = CL_MAP_BLACK"
    using heap_child(2) [OF h] heap_node(3) [OF h] u by simp
  have z: "p_up s1 (QItem x) = QItem y" "p_up s1 (QItem y) = QItem g"
    using h1 by (auto simp: heap_plug)
  show ?thesis by (subst cl_map_ins_bal.simps) (simp add: x y w z flip: s1_def)
qed

lemma ins_bal_inner_r:
  assumes h: "heap s m (plug k (Nd u g c (Nd (Nd e y d b) x CL_MAP_RED a)))"
    and u: "col u = CL_MAP_BLACK"
  defines "s1 \<equiv> cl_map_rot_right m (QItem x) s"
  shows "cl_map_ins_bal m (QItem y) s = cl_map_ins_bal m (QItem x)
    (cl_map_rot_left m (QItem g) (set_color (QItem g) CL_MAP_RED (set_color (QItem y) CL_MAP_BLACK s1)))"
proof -
  have h1: "heap s1 m (plug k (Nd u g c (Nd e y d (Nd b x CL_MAP_RED a))))"
    using h heap_rot_right [of s m "FR u g c # k"] unfolding s1_def by simp
  have x: "p_up s (QItem x) = QItem g" "color s (QItem x) = CL_MAP_RED"
    "\<not> cl_map_is_left_child (QItem x) s"
    using h heap_node [of s m "FR u g c # k"] heap_left_child [of s m "FR u g c # k"]
    by fastforce+
  have y: "p_up s (QItem y) = QItem x" "cl_map_is_left_child (QItem y) s"
    using h heap_node [of s m "FL x CL_MAP_RED a # FR u g c # k"]
      heap_left_child [of s m "FL x CL_MAP_RED a # FR u g c # k"] by fastforce+
  have w: "color s (p_left s (QItem g)) = CL_MAP_BLACK"
    using heap_child(1) [OF h] heap_node(2) [OF h] u by simp
  have z: "p_up s1 (QItem x) = QItem y" "p_up s1 (QItem y) = QItem g"
    using h1 by (auto simp: heap_plug)
  show ?thesis by (subst cl_map_ins_bal.simps) (simp add: x y w z flip: s1_def)
qed


definition balances :: "nat \<Rightarrow> qstore option \<Rightarrow> qstore \<Rightarrow> rb \<Rightarrow> rb \<Rightarrow> bool" where
  "balances m res s T T' \<longleftrightarrow> (\<exists>s'. res = Some s' \<and> heap s' m T' \<and> keep (own m T) s s')"

lemma balancesI: "heap s' m T' \<Longrightarrow> keep (own m T) s s' \<Longrightarrow> balances m (Some s') s T T'"
  by (simp add: balances_def)

lemma balances_step:
  "balances m res s1 T1 T' \<Longrightarrow> keep (own m T) s s1 \<Longrightarrow> inorder T1 = inorder T \<Longrightarrow>
     balances m res s T T'"
  using own_cong [of T1 T m] by (auto simp: balances_def intro: keep_trans)

lemma keep_colors:
  "x \<in> set (inorder T) \<Longrightarrow> y \<in> set (inorder T) \<Longrightarrow>
     keep (own m T) s (set_color (QItem x) c (set_color (QItem y) d s))"
  "x \<in> set (inorder T) \<Longrightarrow> y \<in> set (inorder T) \<Longrightarrow> z \<in> set (inorder T) \<Longrightarrow>
     keep (own m T) s (set_color (QItem x) c (set_color (QItem y) d (set_color (QItem z) e s)))"
  by (auto intro!: keep_set_step own_item)

text \<open>One recolouring and one rotation at the grandparent.\<close>

lemma ins_rotate_right:
  assumes "heap s m (plug k (Nd (Nd t x CL_MAP_RED b) g c u))"
  defines "s' \<equiv> cl_map_rot_right m (QItem g)
    (set_color (QItem g) CL_MAP_RED (set_color (QItem x) CL_MAP_BLACK s))"
  shows "heap s' m (plug k (Nd t x CL_MAP_BLACK (Nd b g CL_MAP_RED u)))"
    and "keep (own m (plug k (Nd (Nd t x CL_MAP_RED b) g c u))) s s'"
proof -
  note h = heap_recolor2(1) [OF assms(1), of CL_MAP_RED CL_MAP_BLACK]
  show "heap s' m (plug k (Nd t x CL_MAP_BLACK (Nd b g CL_MAP_RED u)))"
    unfolding s'_def by (rule heap_rot_right [OF h])
  have o: "own m (plug k (Nd (Nd t x CL_MAP_BLACK b) g CL_MAP_RED u)) = own m (plug k (Nd (Nd t x CL_MAP_RED b) g c u))"
    by (rule own_cong) (simp add: inorder_plug)
  show "keep (own m (plug k (Nd (Nd t x CL_MAP_RED b) g c u))) s s'"
    unfolding s'_def
    by (rule keep_trans [OF keep_colors(1) keep_rot_right [OF h, unfolded o]])
      (simp_all add: inorder_plug)
qed

lemma ins_rotate_left:
  assumes "heap s m (plug k (Nd u g c (Nd b x CL_MAP_RED t)))"
  defines "s' \<equiv> cl_map_rot_left m (QItem g)
    (set_color (QItem g) CL_MAP_RED (set_color (QItem x) CL_MAP_BLACK s))"
  shows "heap s' m (plug k (Nd (Nd u g CL_MAP_RED b) x CL_MAP_BLACK t))"
    and "keep (own m (plug k (Nd u g c (Nd b x CL_MAP_RED t)))) s s'"
proof -
  note h = heap_recolor2(2) [OF assms(1), of CL_MAP_RED CL_MAP_BLACK]
  show "heap s' m (plug k (Nd (Nd u g CL_MAP_RED b) x CL_MAP_BLACK t))"
    unfolding s'_def by (rule heap_rot_left [OF h])
  have o: "own m (plug k (Nd u g CL_MAP_RED (Nd b x CL_MAP_BLACK t))) = own m (plug k (Nd u g c (Nd b x CL_MAP_RED t)))"
    by (rule own_cong) (simp add: inorder_plug)
  show "keep (own m (plug k (Nd u g c (Nd b x CL_MAP_RED t)))) s s'"
    unfolding s'_def
    by (rule keep_trans [OF keep_colors(1) keep_rot_left [OF h, unfolded o]])
      (simp_all add: inorder_plug)
qed

lemma ins_end_l:
  assumes h: "heap s m (plug k (Nd (Nd (Nd l y d r) x CL_MAP_RED b) g c u))"
    and u: "col u = CL_MAP_BLACK"
  shows "balances m (cl_map_ins_bal m (QItem y) s) s (plug k (Nd (Nd (Nd l y d r) x CL_MAP_RED b) g c u))
    (plug k (Nd (Nd l y d r) x CL_MAP_BLACK (Nd b g CL_MAP_RED u)))"
  using ins_bal_rotate_l [OF h u] ins_rotate_right [OF h]
    ins_bal_stop [of _ m "FL x CL_MAP_BLACK (Nd b g CL_MAP_RED u) # k"]
  by (auto intro: balancesI)

lemma ins_end_r:
  assumes h: "heap s m (plug k (Nd u g c (Nd b x CL_MAP_RED (Nd l y d r))))"
    and u: "col u = CL_MAP_BLACK"
  shows "balances m (cl_map_ins_bal m (QItem y) s) s (plug k (Nd u g c (Nd b x CL_MAP_RED (Nd l y d r))))
    (plug k (Nd (Nd u g CL_MAP_RED b) x CL_MAP_BLACK (Nd l y d r)))"
  using ins_bal_rotate_r [OF h u] ins_rotate_left [OF h]
    ins_bal_stop [of _ m "FR (Nd u g CL_MAP_RED b) x CL_MAP_BLACK # k"]
  by (auto intro: balancesI)

lemma ins_end_inner_l:
  assumes h: "heap s m (plug k (Nd (Nd a x CL_MAP_RED (Nd b y CL_MAP_RED e)) g c u))"
    and u: "col u = CL_MAP_BLACK"
  shows "balances m (cl_map_ins_bal m (QItem y) s) s
    (plug k (Nd (Nd a x CL_MAP_RED (Nd b y CL_MAP_RED e)) g c u))
    (plug k (Nd (Nd a x CL_MAP_RED b) y CL_MAP_BLACK (Nd e g CL_MAP_RED u)))"
proof -
  let ?s1 = "cl_map_rot_left m (QItem x) s"
  have h1: "heap ?s1 m (plug k (Nd (Nd (Nd a x CL_MAP_RED b) y CL_MAP_RED e) g c u))"
    using h heap_rot_left [of s m "FL g c u # k"] by simp
  have k1: "keep (own m (plug k (Nd (Nd a x CL_MAP_RED (Nd b y CL_MAP_RED e)) g c u))) s ?s1"
    using h keep_rot_left [of s m "FL g c u # k"] by simp
  note r = ins_rotate_right [OF h1]
  have "balances m (cl_map_ins_bal m (QItem y) s) ?s1
    (plug k (Nd (Nd (Nd a x CL_MAP_RED b) y CL_MAP_RED e) g c u))
    (plug k (Nd (Nd a x CL_MAP_RED b) y CL_MAP_BLACK (Nd e g CL_MAP_RED u)))"
    using ins_bal_inner_l [OF h u] r
      ins_bal_stop [of _ m "FL y CL_MAP_BLACK (Nd e g CL_MAP_RED u) # k"]
    by (auto intro: balancesI)
  from balances_step [OF this k1] show ?thesis by (simp add: inorder_plug)
qed

lemma ins_end_inner_r:
  assumes h: "heap s m (plug k (Nd u g c (Nd (Nd e y CL_MAP_RED b) x CL_MAP_RED a)))"
    and u: "col u = CL_MAP_BLACK"
  shows "balances m (cl_map_ins_bal m (QItem y) s) s
    (plug k (Nd u g c (Nd (Nd e y CL_MAP_RED b) x CL_MAP_RED a)))
    (plug k (Nd (Nd u g CL_MAP_RED e) y CL_MAP_BLACK (Nd b x CL_MAP_RED a)))"
proof -
  let ?s1 = "cl_map_rot_right m (QItem x) s"
  have h1: "heap ?s1 m (plug k (Nd u g c (Nd e y CL_MAP_RED (Nd b x CL_MAP_RED a))))"
    using h heap_rot_right [of s m "FR u g c # k"] by simp
  have k1: "keep (own m (plug k (Nd u g c (Nd (Nd e y CL_MAP_RED b) x CL_MAP_RED a)))) s ?s1"
    using h keep_rot_right [of s m "FR u g c # k"] by simp
  note r = ins_rotate_left [OF h1]
  have "balances m (cl_map_ins_bal m (QItem y) s) ?s1
    (plug k (Nd u g c (Nd e y CL_MAP_RED (Nd b x CL_MAP_RED a))))
    (plug k (Nd (Nd u g CL_MAP_RED e) y CL_MAP_BLACK (Nd b x CL_MAP_RED a)))"
    using ins_bal_inner_r [OF h u] r
      ins_bal_stop [of _ m "FR (Nd u g CL_MAP_RED e) y CL_MAP_BLACK # k"]
    by (auto intro: balancesI)
  from balances_step [OF this k1] show ?thesis by (simp add: inorder_plug)
qed


lemma ins_recolor_l:
  assumes h: "heap s m (plug k (Nd T g c (Nd ul w CL_MAP_RED ur)))"
    and T: "T = Nd (Nd l y d r) x CL_MAP_RED b \<and> T' = Nd (Nd l y d r) x CL_MAP_BLACK b \<or>
      T = Nd b x CL_MAP_RED (Nd l y d r) \<and> T' = Nd b x CL_MAP_BLACK (Nd l y d r)"
    and IH: "\<And>s'. heap s' m (plug k (Nd T' g CL_MAP_RED (Nd ul w CL_MAP_BLACK ur))) \<Longrightarrow>
      balances m (cl_map_ins_bal m (QItem g) s') s'
        (plug k (Nd T' g CL_MAP_RED (Nd ul w CL_MAP_BLACK ur))) R"
  shows "balances m (cl_map_ins_bal m (QItem y) s) s (plug k (Nd T g c (Nd ul w CL_MAP_RED ur))) R"
proof -
  let ?s = "set_color (QItem g) CL_MAP_RED (set_color (QItem x) CL_MAP_BLACK
      (set_color (QItem w) CL_MAP_BLACK s))"
  have h': "heap ?s m (plug k (Nd T' g CL_MAP_RED (Nd ul w CL_MAP_BLACK ur)))"
    using T h by (auto intro: heap_recolor3(1))
  have "keep (own m (plug k (Nd T g c (Nd ul w CL_MAP_RED ur)))) s ?s"
    using T by (intro keep_colors(2)) (auto simp: inorder_plug)
  from balances_step [OF IH [OF h'] this] T show ?thesis
    using ins_bal_recolor_l [OF h, of l y d r x b] by (auto simp: inorder_plug)
qed


lemma ins_recolor_r:
  assumes h: "heap s m (plug k (Nd (Nd ul w CL_MAP_RED ur) g c T))"
    and T: "T = Nd (Nd l y d r) x CL_MAP_RED b \<and> T' = Nd (Nd l y d r) x CL_MAP_BLACK b \<or>
      T = Nd b x CL_MAP_RED (Nd l y d r) \<and> T' = Nd b x CL_MAP_BLACK (Nd l y d r)"
    and IH: "\<And>s'. heap s' m (plug k (Nd (Nd ul w CL_MAP_BLACK ur) g CL_MAP_RED T')) \<Longrightarrow>
      balances m (cl_map_ins_bal m (QItem g) s') s'
        (plug k (Nd (Nd ul w CL_MAP_BLACK ur) g CL_MAP_RED T')) R"
  shows "balances m (cl_map_ins_bal m (QItem y) s) s (plug k (Nd (Nd ul w CL_MAP_RED ur) g c T)) R"
proof -
  let ?s = "set_color (QItem g) CL_MAP_RED (set_color (QItem x) CL_MAP_BLACK
      (set_color (QItem w) CL_MAP_BLACK s))"
  have h': "heap ?s m (plug k (Nd (Nd ul w CL_MAP_BLACK ur) g CL_MAP_RED T'))"
    using T h by (auto intro: heap_recolor3(2))
  have "keep (own m (plug k (Nd (Nd ul w CL_MAP_RED ur) g c T))) s ?s"
    using T by (intro keep_colors(2)) (auto simp: inorder_plug)
  from balances_step [OF IH [OF h'] this] T show ?thesis
    using ins_bal_recolor_r [OF h, of l y d r x b] by (auto simp: inorder_plug)
qed

lemma ins_bal_end:
  "heap s m (plug k (Nd l y d r)) \<Longrightarrow> k = [] \<or> top_black k \<Longrightarrow>
     balances m (cl_map_ins_bal m (QItem y) s) s (plug k (Nd l y d r)) (plug k (Nd l y d r))"
  by (simp add: ins_bal_stop balances_def)

lemma ins_bal_end':
  "heap s m (plug k t) \<Longrightarrow> col t = CL_MAP_RED \<Longrightarrow> k = [] \<or> top_black k \<Longrightarrow>
     balances m (cl_map_ins_bal m (rp m t) s) s (plug k t) (plug k t)"
  by (cases t) (auto intro: ins_bal_end)

lemma ins_bal_correct:
  "heap s m (plug k t) \<Longrightarrow> crb k n \<Longrightarrow> col t = CL_MAP_RED \<Longrightarrow>
     balances m (cl_map_ins_bal m (rp m t) s) s (plug k t) (ins_fix k t)"
proof (induction k t arbitrary: n s rule: ins_fix.induct)
  case (1 x b g c u k t)
  then obtain l y r where t: "t = Nd l y CL_MAP_RED r" using col_redE by blast
  show ?case
  proof (cases "col u")
    case CL_MAP_RED
    then obtain ul w ur where u: "u = Nd ul w CL_MAP_RED ur" using col_redE by blast
    show ?thesis
      using 1 t u by (auto intro!: ins_recolor_l)
  next
    case CL_MAP_BLACK
    with 1 t show ?thesis by (auto intro: ins_end_l)
  qed
next
  case (2 a x g c u k b y d e)
  show ?case
  proof (cases "col u")
    case CL_MAP_RED
    then obtain ul w ur where u: "u = Nd ul w CL_MAP_RED ur" using col_redE by blast
    show ?thesis
      using 2 u by (auto intro!: ins_recolor_l)
  next
    case CL_MAP_BLACK
    with 2 show ?thesis by (auto intro: ins_end_inner_l)
  qed
next
  case (3 a x u g c k t)
  then obtain l y r where t: "t = Nd l y CL_MAP_RED r" using col_redE by blast
  show ?case
  proof (cases "col u")
    case CL_MAP_RED
    then obtain ul w ur where u: "u = Nd ul w CL_MAP_RED ur" using col_redE by blast
    show ?thesis
      using 3 t u by (auto intro!: ins_recolor_r)
  next
    case CL_MAP_BLACK
    with 3 t show ?thesis by (auto intro: ins_end_r)
  qed
next
  case (4 x b u g c k a y d e)
  show ?case
  proof (cases "col u")
    case CL_MAP_RED
    then obtain ul w ur where u: "u = Nd ul w CL_MAP_RED ur" using col_redE by blast
    show ?thesis
      using 4 u by (auto intro!: ins_recolor_r)
  next
    case CL_MAP_BLACK
    with 4 show ?thesis by (auto intro: ins_end_inner_r)
  qed
qed (simp; fail | simp only: ins_fix.simps, rule ins_bal_end', assumption, assumption,
     force elim: crb.elims)+


section \<open>After a removal\<close>

text \<open>The focus may be the nil sentinel, whose parent link the caller has set.\<close>

definition foc :: "qstore \<Rightarrow> nat \<Rightarrow> rb_frame list \<Rightarrow> rb \<Rightarrow> bool" where
  "foc s m k t \<longleftrightarrow> heap s m (plug k t) \<and> p_up s (rp m t) = par m k"

lemma foc_item [simp]: "foc s m k (Nd l x c r) \<longleftrightarrow> heap s m (plug k (Nd l x c r))"
  by (auto simp: foc_def dest: heap_node)

lemma keep_nil: "keep (own m T) s s' \<Longrightarrow> p_up s' (QNil m') = p_up s (QNil m')"
proof -
  have "QNil m' \<notin> own m T" by (auto simp: own_def)
  then show "keep (own m T) s s' \<Longrightarrow> ?thesis" by (simp add: keep_def same_node_def)
qed

lemma foc_keep:
  assumes "foc s m k t" "heap s' m (plug k' t)" "keep (own m T) s s'" "par m k' = par m k"
  shows "foc s' m k' t"
proof (cases t)
  case Lf
  with assms keep_nil [OF assms(3), of m] show ?thesis by (simp add: foc_def)
next
  case (Nd l x c r)
  with assms show ?thesis by simp
qed

lemma foc_read_l:
  assumes "foc s m (FL x c r # k) t"
  shows "p_up s (rp m t) = QItem x" "cl_map_is_left_child (rp m t) s" "p_right s (QItem x) = rp m r"
    "color s (QItem x) = c"
  using assms heap_node [of s m k t x c r] by (auto simp: foc_def cl_map_is_left_child_def)

lemma foc_read_r:
  assumes "foc s m (FR r x c # k) t" "r \<noteq> Lf"
  shows "p_up s (rp m t) = QItem x" "\<not> cl_map_is_left_child (rp m t) s"
    "p_left s (QItem x) = rp m r" "color s (QItem x) = c"
proof -
  from assms have h: "heap s m (plug k (Nd r x c t))" by (simp add: foc_def)
  have "rp m r \<noteq> rp m t"
    using h assms(2) by (cases r; cases t) (auto simp: heap_plug)
  with assms heap_node [OF h] show "p_up s (rp m t) = QItem x" "\<not> cl_map_is_left_child (rp m t) s"
    "p_left s (QItem x) = rp m r" "color s (QItem x) = c"
    by (auto simp: foc_def cl_map_is_left_child_def)
qed

lemma foc_color: "foc s m k t \<Longrightarrow> color s (rp m t) = col t"
  using heap_colors(1) [of s m k t] by (simp add: foc_def)

lemma set_color_same: "color s p = c \<Longrightarrow> set_color p c s = s"
  by (simp add: set_color_def fun_upd_idem)

lemma heap_color_child:
  "heap s m (plug k (Nd t x c (Nd a u d b))) \<Longrightarrow>
     heap (set_color (rp m b) CL_MAP_BLACK s) m (plug k (Nd t x c (Nd a u d (blacken b))))"
  "heap s m (plug k (Nd (Nd b u d a) x c t)) \<Longrightarrow>
     heap (set_color (rp m b) CL_MAP_BLACK s) m (plug k (Nd (Nd (blacken b) u d a) x c t))"
  by (cases b; auto simp: heap_plug)+

text \<open>The far nephew is red: recolour and rotate once.\<close>

lemma del_far_l:
  assumes h: "heap s m (plug k (Nd t x c (Nd a u d b)))"
  defines "s' \<equiv> cl_map_rot_left m (QItem x) (set_color (rp m b) CL_MAP_BLACK
    (set_color (QItem x) CL_MAP_BLACK (set_color (QItem u) c s)))"
  assumes b: "b \<noteq> Lf"
  shows "heap s' m (plug k (Nd (Nd t x CL_MAP_BLACK a) u c (blacken b)))"
    and "keep (own m (plug k (Nd t x c (Nd a u d b)))) s s'"
proof -
  have h1: "heap (set_color (QItem x) CL_MAP_BLACK (set_color (QItem u) c s)) m
      (plug k (Nd t x CL_MAP_BLACK (Nd a u c b)))"
    using h by (auto simp: heap_plug)
  note h2 = heap_color_child(1) [OF h1]
  show "heap s' m (plug k (Nd (Nd t x CL_MAP_BLACK a) u c (blacken b)))"
    unfolding s'_def by (rule heap_rot_left [OF h2])
  obtain bl z bc br where bn: "b = Nd bl z bc br" using b by (cases b) auto
  have o: "own m (plug k (Nd t x CL_MAP_BLACK (Nd a u c (blacken b)))) =
      own m (plug k (Nd t x c (Nd a u d b)))"
    by (rule own_cong) (simp add: inorder_plug)
  show "keep (own m (plug k (Nd t x c (Nd a u d b)))) s s'"
    unfolding s'_def bn rp.simps
    by (rule keep_trans [OF keep_colors(2) keep_rot_left [OF h2, unfolded o, unfolded bn rp.simps]])
      (simp_all add: inorder_plug)
qed

lemma del_far_r:
  assumes h: "heap s m (plug k (Nd (Nd b u d a) x c t))"
  defines "s' \<equiv> cl_map_rot_right m (QItem x) (set_color (rp m b) CL_MAP_BLACK
    (set_color (QItem x) CL_MAP_BLACK (set_color (QItem u) c s)))"
  assumes b: "b \<noteq> Lf"
  shows "heap s' m (plug k (Nd (blacken b) u c (Nd a x CL_MAP_BLACK t)))"
    and "keep (own m (plug k (Nd (Nd b u d a) x c t))) s s'"
proof -
  have h1: "heap (set_color (QItem x) CL_MAP_BLACK (set_color (QItem u) c s)) m
      (plug k (Nd (Nd b u c a) x CL_MAP_BLACK t))"
    using h by (auto simp: heap_plug)
  note h2 = heap_color_child(2) [OF h1]
  show "heap s' m (plug k (Nd (blacken b) u c (Nd a x CL_MAP_BLACK t)))"
    unfolding s'_def by (rule heap_rot_right [OF h2])
  obtain bl z bc br where bn: "b = Nd bl z bc br" using b by (cases b) auto
  have o: "own m (plug k (Nd (Nd (blacken b) u c a) x CL_MAP_BLACK t)) =
      own m (plug k (Nd (Nd b u d a) x c t))"
    by (rule own_cong) (simp add: inorder_plug)
  show "keep (own m (plug k (Nd (Nd b u d a) x c t))) s s'"
    unfolding s'_def bn rp.simps
    by (rule keep_trans [OF keep_colors(2) keep_rot_right [OF h2, unfolded o, unfolded bn rp.simps]])
      (simp_all add: inorder_plug)
qed


text \<open>The near nephew is red and the far one black: rotate the sibling first.\<close>

lemma del_near_l:
  assumes "heap s m (plug k (Nd t x c (Nd (Nd a1 w d a2) u e b)))"
  defines "s' \<equiv> cl_map_rot_right m (QItem u)
    (set_color (QItem u) CL_MAP_RED (set_color (QItem w) CL_MAP_BLACK s))"
  shows "heap s' m (plug k (Nd t x c (Nd a1 w CL_MAP_BLACK (Nd a2 u CL_MAP_RED b))))"
    and "keep (own m (plug k (Nd t x c (Nd (Nd a1 w d a2) u e b)))) s s'"
proof -
  have h: "heap (set_color (QItem u) CL_MAP_RED (set_color (QItem w) CL_MAP_BLACK s)) m
      (plug (FR t x c # k) (Nd (Nd a1 w CL_MAP_BLACK a2) u CL_MAP_RED b))"
    using assms(1) by (auto simp: heap_plug)
  show "heap s' m (plug k (Nd t x c (Nd a1 w CL_MAP_BLACK (Nd a2 u CL_MAP_RED b))))"
    using heap_rot_right [OF h] unfolding s'_def by simp
  have o: "own m (plug (FR t x c # k) (Nd (Nd a1 w CL_MAP_BLACK a2) u CL_MAP_RED b)) =
      own m (plug k (Nd t x c (Nd (Nd a1 w d a2) u e b)))"
    by (rule own_cong) (simp add: inorder_plug)
  show "keep (own m (plug k (Nd t x c (Nd (Nd a1 w d a2) u e b)))) s s'"
    unfolding s'_def
    by (rule keep_trans [OF keep_colors(1) keep_rot_right [OF h, unfolded o]])
      (simp_all add: inorder_plug)
qed

lemma del_near_r:
  assumes "heap s m (plug k (Nd (Nd b u e (Nd a2 w d a1)) x c t))"
  defines "s' \<equiv> cl_map_rot_left m (QItem u)
    (set_color (QItem u) CL_MAP_RED (set_color (QItem w) CL_MAP_BLACK s))"
  shows "heap s' m (plug k (Nd (Nd (Nd b u CL_MAP_RED a2) w CL_MAP_BLACK a1) x c t))"
    and "keep (own m (plug k (Nd (Nd b u e (Nd a2 w d a1)) x c t))) s s'"
proof -
  have h: "heap (set_color (QItem u) CL_MAP_RED (set_color (QItem w) CL_MAP_BLACK s)) m
      (plug (FL x c t # k) (Nd b u CL_MAP_RED (Nd a2 w CL_MAP_BLACK a1)))"
    using assms(1) by (auto simp: heap_plug)
  show "heap s' m (plug k (Nd (Nd (Nd b u CL_MAP_RED a2) w CL_MAP_BLACK a1) x c t))"
    using heap_rot_left [OF h] unfolding s'_def by simp
  have o: "own m (plug (FL x c t # k) (Nd b u CL_MAP_RED (Nd a2 w CL_MAP_BLACK a1))) =
      own m (plug k (Nd (Nd b u e (Nd a2 w d a1)) x c t))"
    by (rule own_cong) (simp add: inorder_plug)
  show "keep (own m (plug k (Nd (Nd b u e (Nd a2 w d a1)) x c t))) s s'"
    unfolding s'_def
    by (rule keep_trans [OF keep_colors(1) keep_rot_left [OF h, unfolded o]])
      (simp_all add: inorder_plug)
qed

lemma del_end_l_correct:
  assumes f: "foc s m (FL x c (Nd a u CL_MAP_BLACK b) # k) t"
    and red: "col b = CL_MAP_RED \<or> col a = CL_MAP_RED"
  shows "balances m (Some (del_bal_left_end m (rp m t) (QItem u) s)) s
    (plug k (Nd t x c (Nd a u CL_MAP_BLACK b))) (del_end_l k t x c a u b)"
proof (cases "col b")
  case CL_MAP_RED
  have h: "heap s m (plug k (Nd t x c (Nd a u CL_MAP_BLACK b)))" using f by (simp add: foc_def)
  have u: "p_right s (QItem u) = rp m b" "color s (rp m b) = CL_MAP_RED" "b \<noteq> Lf"
    using heap_node(3) [of s m "FR t x c # k" a u _ b] heap_child(2) [of s m "FR t x c # k" a u _ b]
      h CL_MAP_RED by auto
  have "del_bal_left_end m (rp m t) (QItem u) s =
      cl_map_rot_left m (QItem x) (set_color (rp m b) CL_MAP_BLACK
        (set_color (QItem x) CL_MAP_BLACK (set_color (QItem u) c s)))"
    using foc_read_l [OF f] u by (simp add: del_bal_left_end_def)
  with del_far_l [OF h u(3)] CL_MAP_RED show ?thesis
    by (simp add: balances_def del_end_l.simps)
next
  case CL_MAP_BLACK
  then obtain a1 w a2 where a: "a = Nd a1 w CL_MAP_RED a2" using red col_redE by fastforce
  have h: "heap s m (plug k (Nd t x c (Nd (Nd a1 w CL_MAP_RED a2) u CL_MAP_BLACK b)))"
    using f a by (simp add: foc_def)
  let ?s2 = "cl_map_rot_right m (QItem u)
    (set_color (QItem u) CL_MAP_RED (set_color (QItem w) CL_MAP_BLACK s))"
  note h2 = del_near_l [OF h]
  have u: "p_right s (QItem u) = rp m b" "color s (rp m b) = CL_MAP_BLACK"
    "p_left s (QItem u) = QItem w"
    using heap_node(2,3) [of s m "FR t x c # k" a u _ b]
      heap_child(2) [of s m "FR t x c # k" a u _ b] h a CL_MAP_BLACK by auto
  have f2: "foc ?s2 m (FL x c (Nd a1 w CL_MAP_BLACK (Nd a2 u CL_MAP_RED b)) # k) t"
    by (rule foc_keep [OF f _ h2(2)]) (use h2(1) in simp_all)
  have w: "p_right ?s2 (QItem w) = QItem u"
    using heap_node(3) [of ?s2 m "FR t x c # k" a1 w] h2(1) by simp
  have "del_bal_left_end m (rp m t) (QItem u) s =
      cl_map_rot_left m (QItem x) (set_color (rp m (Nd a2 u CL_MAP_RED b)) CL_MAP_BLACK
        (set_color (QItem x) CL_MAP_BLACK (set_color (QItem w) c ?s2)))"
    using foc_read_l [OF f2] u w by (simp add: del_bal_left_end_def Let_def)
  with del_far_l [OF h2(1)] h2(2) a CL_MAP_BLACK
    balances_step [OF balancesI [OF del_far_l [OF h2(1)]] h2(2)]
  show ?thesis by (simp add: del_end_l.simps inorder_plug)
qed


lemma del_end_r_correct:
  assumes f: "foc s m (FR (Nd a u CL_MAP_BLACK b) x c # k) t"
    and red: "col a = CL_MAP_RED \<or> col b = CL_MAP_RED"
  shows "balances m (Some (del_bal_right_end m (rp m t) (QItem u) s)) s
    (plug k (Nd (Nd a u CL_MAP_BLACK b) x c t)) (del_end_r k t x c a u b)"
proof (cases "col a")
  case CL_MAP_RED
  have h: "heap s m (plug k (Nd (Nd a u CL_MAP_BLACK b) x c t))" using f by (simp add: foc_def)
  have u: "p_left s (QItem u) = rp m a" "color s (rp m a) = CL_MAP_RED" "a \<noteq> Lf"
    using heap_node(2) [of s m "FL x c t # k" a u _ b] heap_child(1) [of s m "FL x c t # k" a u _ b]
      h CL_MAP_RED by auto
  have "del_bal_right_end m (rp m t) (QItem u) s =
      cl_map_rot_right m (QItem x) (set_color (rp m a) CL_MAP_BLACK
        (set_color (QItem x) CL_MAP_BLACK (set_color (QItem u) c s)))"
    using foc_read_r [OF f] u by (simp add: del_bal_right_end_def)
  with del_far_r [OF h u(3)] CL_MAP_RED show ?thesis
    by (simp add: balances_def del_end_r.simps)
next
  case CL_MAP_BLACK
  then obtain b1 w b2 where b: "b = Nd b1 w CL_MAP_RED b2" using red col_redE by fastforce
  have h: "heap s m (plug k (Nd (Nd a u CL_MAP_BLACK (Nd b1 w CL_MAP_RED b2)) x c t))"
    using f b by (simp add: foc_def)
  let ?s2 = "cl_map_rot_left m (QItem u)
    (set_color (QItem u) CL_MAP_RED (set_color (QItem w) CL_MAP_BLACK s))"
  note h2 = del_near_r [OF h]
  have u: "p_left s (QItem u) = rp m a" "color s (rp m a) = CL_MAP_BLACK"
    "p_right s (QItem u) = QItem w"
    using heap_node(2,3) [of s m "FL x c t # k" a u _ b]
      heap_child(1) [of s m "FL x c t # k" a u _ b] h b CL_MAP_BLACK by auto
  have f2: "foc ?s2 m (FR (Nd (Nd a u CL_MAP_RED b1) w CL_MAP_BLACK b2) x c # k) t"
    by (rule foc_keep [OF f _ h2(2)]) (use h2(1) in simp_all)
  have w: "p_left ?s2 (QItem w) = QItem u"
    using heap_node(2) [of ?s2 m "FL x c t # k" _ w] h2(1) by simp
  have "del_bal_right_end m (rp m t) (QItem u) s =
      cl_map_rot_right m (QItem x) (set_color (rp m (Nd a u CL_MAP_RED b1)) CL_MAP_BLACK
        (set_color (QItem x) CL_MAP_BLACK (set_color (QItem w) c ?s2)))"
    using foc_read_r [OF f2] u w by (simp add: del_bal_right_end_def Let_def)
  with del_far_r [OF h2(1)] h2(2) b CL_MAP_BLACK
    balances_step [OF balancesI [OF del_far_r [OF h2(1)]] h2(2)]
  show ?thesis by (simp add: del_end_r.simps inorder_plug)
qed

text \<open>A red sibling is rotated above the parent, which becomes red.\<close>

lemma del_red_l:
  assumes f: "foc s m (FL x c (Nd ul u CL_MAP_RED ur) # k) t"
  defines "s' \<equiv> cl_map_rot_left m (QItem x)
    (set_color (QItem x) CL_MAP_RED (set_color (QItem u) CL_MAP_BLACK s))"
  shows "foc s' m (FL x CL_MAP_RED ul # FL u CL_MAP_BLACK ur # k) t"
    and "keep (own m (plug k (Nd t x c (Nd ul u CL_MAP_RED ur)))) s s'"
proof -
  have h: "heap (set_color (QItem x) CL_MAP_RED (set_color (QItem u) CL_MAP_BLACK s)) m
      (plug k (Nd t x CL_MAP_RED (Nd ul u CL_MAP_BLACK ur)))"
    using f by (auto simp: foc_def heap_plug)
  have o: "own m (plug k (Nd t x CL_MAP_RED (Nd ul u CL_MAP_BLACK ur))) =
      own m (plug k (Nd t x c (Nd ul u CL_MAP_RED ur)))"
    by (rule own_cong) (simp add: inorder_plug)
  show k: "keep (own m (plug k (Nd t x c (Nd ul u CL_MAP_RED ur)))) s s'"
    unfolding s'_def
    by (rule keep_trans [OF keep_colors(1) keep_rot_left [OF h, unfolded o]])
      (simp_all add: inorder_plug)
  show "foc s' m (FL x CL_MAP_RED ul # FL u CL_MAP_BLACK ur # k) t"
    by (rule foc_keep [OF f _ k]) (use heap_rot_left [OF h] in \<open>simp_all add: s'_def\<close>)
qed

lemma del_red_r:
  assumes f: "foc s m (FR (Nd ul u CL_MAP_RED ur) x c # k) t"
  defines "s' \<equiv> cl_map_rot_right m (QItem x)
    (set_color (QItem x) CL_MAP_RED (set_color (QItem u) CL_MAP_BLACK s))"
  shows "foc s' m (FR ur x CL_MAP_RED # FR ul u CL_MAP_BLACK # k) t"
    and "keep (own m (plug k (Nd (Nd ul u CL_MAP_RED ur) x c t))) s s'"
proof -
  have h: "heap (set_color (QItem x) CL_MAP_RED (set_color (QItem u) CL_MAP_BLACK s)) m
      (plug k (Nd (Nd ul u CL_MAP_BLACK ur) x CL_MAP_RED t))"
    using f by (auto simp: foc_def heap_plug)
  have o: "own m (plug k (Nd (Nd ul u CL_MAP_BLACK ur) x CL_MAP_RED t)) =
      own m (plug k (Nd (Nd ul u CL_MAP_RED ur) x c t))"
    by (rule own_cong) (simp add: inorder_plug)
  show k: "keep (own m (plug k (Nd (Nd ul u CL_MAP_RED ur) x c t))) s s'"
    unfolding s'_def
    by (rule keep_trans [OF keep_colors(1) keep_rot_right [OF h, unfolded o]])
      (simp_all add: inorder_plug)
  show "foc s' m (FR ur x CL_MAP_RED # FR ul u CL_MAP_BLACK # k) t"
    by (rule foc_keep [OF f _ k]) (use heap_rot_right [OF h] in \<open>simp_all add: s'_def\<close>)
qed

text \<open>The loop stops at a red node and at the root.\<close>

lemma del_bal_stop:
  assumes f: "foc s m k t" and stop: "k = [] \<or> col t = CL_MAP_RED"
  shows "balances m (cl_map_del_bal m (rp m t) s) s (plug k t) (plug k (blacken t))"
proof -
  have "cl_map_del_bal m (rp m t) s = Some (set_color (rp m t) CL_MAP_BLACK s)"
    using f foc_color [OF f] stop by (subst cl_map_del_bal.simps) (auto simp: foc_def)
  moreover have "heap (set_color (rp m t) CL_MAP_BLACK s) m (plug k (blacken t)) \<and>
      keep (own m (plug k t)) s (set_color (rp m t) CL_MAP_BLACK s)"
  proof (cases t)
    case Lf
    then have "set_color (rp m t) CL_MAP_BLACK s = s"
      using foc_color [OF f] by (intro set_color_same) simp
    with f Lf show ?thesis by (simp add: foc_def)
  next
    case (Nd l x c r)
    with f show ?thesis
      using heap_color [of s m k l x c r CL_MAP_BLACK] by (simp add: own_def inorder_plug)
  qed
  ultimately show ?thesis by (simp add: balancesI)
qed


lemma del_end_plug:
  assumes "col b = CL_MAP_RED \<or> col a = CL_MAP_RED"
  shows "\<exists>k'. del_end_l k t x c a u b = plug k' t" "\<exists>k'. del_end_r k t x c a u b = plug k' t"
proof -
  show "\<exists>k'. del_end_l k t x c a u b = plug k' t"
  proof (cases "col b")
    case CL_MAP_RED
    then show ?thesis
      by (intro exI [of _ "FL x CL_MAP_BLACK a # FL u c (blacken b) # k"]) (simp add: del_end_l.simps)
  next
    case CL_MAP_BLACK
    with assms obtain a1 w a2 where "a = Nd a1 w CL_MAP_RED a2" using col_redE by fastforce
    with CL_MAP_BLACK show ?thesis
      by (intro exI [of _ "FL x CL_MAP_BLACK a1 # FL w c (Nd a2 u CL_MAP_BLACK b) # k"])
        (simp add: del_end_l.simps)
  qed
  show "\<exists>k'. del_end_r k t x c a u b = plug k' t"
  proof (cases "col a")
    case CL_MAP_RED
    then show ?thesis
      by (intro exI [of _ "FR b x CL_MAP_BLACK # FR (blacken a) u c # k"]) (simp add: del_end_r.simps)
  next
    case CL_MAP_BLACK
    with assms obtain b1 w b2 where "b = Nd b1 w CL_MAP_RED b2" using col_redE by fastforce
    with CL_MAP_BLACK show ?thesis
      by (intro exI [of _ "FR b2 x CL_MAP_BLACK # FR (Nd a u CL_MAP_BLACK b1) w c # k"])
        (simp add: del_end_r.simps)
  qed
qed

lemma del_end_color:
  assumes "col b = CL_MAP_RED \<or> col a = CL_MAP_RED" "col t = CL_MAP_BLACK"
  shows "balances m (Some s') s T (del_end_l k t x c a u b) \<Longrightarrow>
      balances m (Some (set_color (rp m t) CL_MAP_BLACK s')) s T (del_end_l k t x c a u b)"
    and "balances m (Some s') s T (del_end_r k t x c a u b) \<Longrightarrow>
      balances m (Some (set_color (rp m t) CL_MAP_BLACK s')) s T (del_end_r k t x c a u b)"
  using del_end_plug [OF assms(1), of k t x c u] heap_colors(1) [of s' m _ t] assms(2)
  by (auto simp: balances_def set_color_same)

lemma foc_nephews_l:
  assumes "foc s m (FL x c (Nd a u d b) # k) t"
  shows "color s (QItem u) = d" "color s (p_left s (QItem u)) = col a"
    "color s (p_right s (QItem u)) = col b"
  using assms heap_node [of s m "FR t x c # k" a u d b] heap_child [of s m "FR t x c # k" a u d b]
  by (auto simp: foc_def)

lemma foc_nephews_r:
  assumes "foc s m (FR (Nd a u d b) x c # k) t"
  shows "color s (QItem u) = d" "color s (p_left s (QItem u)) = col a"
    "color s (p_right s (QItem u)) = col b"
  using assms heap_node [of s m "FL x c t # k" a u d b] heap_child [of s m "FL x c t # k" a u d b]
  by (auto simp: foc_def)

lemma del_bal_black_l:
  assumes f: "foc s m (FL x c (Nd a u CL_MAP_BLACK b) # k) t" and t: "col t = CL_MAP_BLACK"
  shows "cl_map_del_bal m (rp m t) s =
    (if col a = CL_MAP_BLACK \<and> col b = CL_MAP_BLACK
     then cl_map_del_bal m (QItem x) (set_color (QItem u) CL_MAP_RED s)
     else Some (set_color (rp m t) CL_MAP_BLACK (del_bal_left_end m (rp m t) (QItem u) s)))"
  using foc_read_l [OF f] foc_nephews_l [OF f] foc_color [OF f] t
  by (subst cl_map_del_bal.simps) (simp add: Let_def)

lemma del_bal_black_r:
  assumes f: "foc s m (FR (Nd a u CL_MAP_BLACK b) x c # k) t" and t: "col t = CL_MAP_BLACK"
  shows "cl_map_del_bal m (rp m t) s =
    (if col a = CL_MAP_BLACK \<and> col b = CL_MAP_BLACK
     then cl_map_del_bal m (QItem x) (set_color (QItem u) CL_MAP_RED s)
     else Some (set_color (rp m t) CL_MAP_BLACK (del_bal_right_end m (rp m t) (QItem u) s)))"
  using foc_read_r [OF f] foc_nephews_r [OF f] foc_color [OF f] t
  by (subst cl_map_del_bal.simps) (auto simp: Let_def)

lemma del_bal_red_l:
  assumes f: "foc s m (FL x c (Nd (Nd a v e b) u CL_MAP_RED ur) # k) t" and t: "col t = CL_MAP_BLACK"
  defines "s1 \<equiv> cl_map_rot_left m (QItem x)
    (set_color (QItem x) CL_MAP_RED (set_color (QItem u) CL_MAP_BLACK s))"
  shows "cl_map_del_bal m (rp m t) s =
    (if col a = CL_MAP_BLACK \<and> col b = CL_MAP_BLACK
     then cl_map_del_bal m (QItem x) (set_color (QItem v) CL_MAP_RED s1)
     else Some (set_color (rp m t) CL_MAP_BLACK (del_bal_left_end m (rp m t) (QItem v) s1)))"
proof -
  note f1 = del_red_l(1) [OF f, folded s1_def]
  show ?thesis
    using foc_read_l [OF f] foc_read_l [OF f1] foc_nephews_l [OF f] foc_nephews_l [OF f1]
      foc_color [OF f] t
    by (subst cl_map_del_bal.simps) (simp add: Let_def flip: s1_def)
qed

lemma del_bal_red_r:
  assumes f: "foc s m (FR (Nd ul u CL_MAP_RED (Nd a v e b)) x c # k) t" and t: "col t = CL_MAP_BLACK"
  defines "s1 \<equiv> cl_map_rot_right m (QItem x)
    (set_color (QItem x) CL_MAP_RED (set_color (QItem u) CL_MAP_BLACK s))"
  shows "cl_map_del_bal m (rp m t) s =
    (if col a = CL_MAP_BLACK \<and> col b = CL_MAP_BLACK
     then cl_map_del_bal m (QItem x) (set_color (QItem v) CL_MAP_RED s1)
     else Some (set_color (rp m t) CL_MAP_BLACK (del_bal_right_end m (rp m t) (QItem v) s1)))"
proof -
  note f1 = del_red_r(1) [OF f, folded s1_def]
  show ?thesis
    using foc_read_r [OF f] foc_read_r [OF f1] foc_nephews_r [OF f] foc_nephews_r [OF f1]
      foc_color [OF f] t
    by (subst cl_map_del_bal.simps) (auto simp: Let_def simp flip: s1_def)
qed


lemma heap_sibling_red:
  "heap s m (plug k (Nd t x c (Nd a u d b))) \<Longrightarrow>
     heap (set_color (QItem u) CL_MAP_RED s) m (plug k (Nd t x c (Nd a u CL_MAP_RED b)))"
  "heap s m (plug k (Nd (Nd a u d b) x c t)) \<Longrightarrow>
     heap (set_color (QItem u) CL_MAP_RED s) m (plug k (Nd (Nd a u CL_MAP_RED b) x c t))"
  by (auto simp: heap_plug)

lemma del_case_black_l:
  assumes f: "foc s m (FL x c (Nd a u CL_MAP_BLACK b) # k) t" and t: "col t = CL_MAP_BLACK"
    and IH: "\<And>s'. col a = CL_MAP_BLACK \<Longrightarrow> col b = CL_MAP_BLACK \<Longrightarrow>
      heap s' m (plug k (Nd t x c (Nd a u CL_MAP_RED b))) \<Longrightarrow>
      balances m (cl_map_del_bal m (QItem x) s') s' (plug k (Nd t x c (Nd a u CL_MAP_RED b)))
        (del_fix k (Nd t x c (Nd a u CL_MAP_RED b)))"
  shows "balances m (cl_map_del_bal m (rp m t) s) s (plug (FL x c (Nd a u CL_MAP_BLACK b) # k) t)
    (del_fix (FL x c (Nd a u CL_MAP_BLACK b) # k) t)"
proof (cases "col a = CL_MAP_BLACK \<and> col b = CL_MAP_BLACK")
  case True
  have h: "heap s m (plug k (Nd t x c (Nd a u CL_MAP_BLACK b)))" using f by (simp add: foc_def)
  have "keep (own m (plug k (Nd t x c (Nd a u CL_MAP_BLACK b)))) s (set_color (QItem u) CL_MAP_RED s)"
    by (simp add: own_def inorder_plug)
  from balances_step [OF IH [OF _ _ heap_sibling_red(1) [OF h]] this] True t
  show ?thesis by (simp add: del_bal_black_l [OF f t] inorder_plug)
next
  case False
  then have "col b = CL_MAP_RED \<or> col a = CL_MAP_RED" by auto
  from del_end_color(1) [OF this t del_end_l_correct [OF f this]] t
  show ?thesis by (simp add: del_bal_black_l [OF f t] if_not_P [OF False])
qed

lemma del_case_black_r:
  assumes f: "foc s m (FR (Nd a u CL_MAP_BLACK b) x c # k) t" and t: "col t = CL_MAP_BLACK"
    and IH: "\<And>s'. col a = CL_MAP_BLACK \<Longrightarrow> col b = CL_MAP_BLACK \<Longrightarrow>
      heap s' m (plug k (Nd (Nd a u CL_MAP_RED b) x c t)) \<Longrightarrow>
      balances m (cl_map_del_bal m (QItem x) s') s' (plug k (Nd (Nd a u CL_MAP_RED b) x c t))
        (del_fix k (Nd (Nd a u CL_MAP_RED b) x c t))"
  shows "balances m (cl_map_del_bal m (rp m t) s) s (plug (FR (Nd a u CL_MAP_BLACK b) x c # k) t)
    (del_fix (FR (Nd a u CL_MAP_BLACK b) x c # k) t)"
proof (cases "col a = CL_MAP_BLACK \<and> col b = CL_MAP_BLACK")
  case True
  have h: "heap s m (plug k (Nd (Nd a u CL_MAP_BLACK b) x c t))" using f by (simp add: foc_def)
  have "keep (own m (plug k (Nd (Nd a u CL_MAP_BLACK b) x c t))) s (set_color (QItem u) CL_MAP_RED s)"
    by (simp add: own_def inorder_plug)
  from balances_step [OF IH [OF _ _ heap_sibling_red(2) [OF h]] this] True t
  show ?thesis by (simp add: del_bal_black_r [OF f t] inorder_plug)
next
  case False
  then have r: "col a = CL_MAP_RED \<or> col b = CL_MAP_RED" "col b = CL_MAP_RED \<or> col a = CL_MAP_RED"
    by auto
  from del_end_color(2) [OF r(2) t del_end_r_correct [OF f r(1)]] t
  show ?thesis by (simp add: del_bal_black_r [OF f t] if_not_P [OF False])
qed

text \<open>After a red sibling was rotated away the walk ends at the parent, which is red.\<close>

lemma del_case_red_l:
  assumes f: "foc s m (FL x c (Nd (Nd a v CL_MAP_BLACK b) u CL_MAP_RED ur) # k) t"
    and t: "col t = CL_MAP_BLACK"
  shows "balances m (cl_map_del_bal m (rp m t) s) s
    (plug (FL x c (Nd (Nd a v CL_MAP_BLACK b) u CL_MAP_RED ur) # k) t)
    (del_fix (FL x c (Nd (Nd a v CL_MAP_BLACK b) u CL_MAP_RED ur) # k) t)"
proof -
  let ?s1 = "cl_map_rot_left m (QItem x)
    (set_color (QItem x) CL_MAP_RED (set_color (QItem u) CL_MAP_BLACK s))"
  let ?k = "FL u CL_MAP_BLACK ur # k"
  note f1 = del_red_l(1) [OF f] and k1 = del_red_l(2) [OF f]
  note eq = del_bal_red_l [OF f t]
  show ?thesis
  proof (cases "col a = CL_MAP_BLACK \<and> col b = CL_MAP_BLACK")
    case True
    from f1 have "heap ?s1 m (plug ?k (Nd t x CL_MAP_RED (Nd a v CL_MAP_BLACK b)))"
      by (simp add: foc_def)
    note h2 = heap_sibling_red(1) [OF this]
    have "balances m (cl_map_del_bal m (rp m t) s) (set_color (QItem v) CL_MAP_RED ?s1)
      (plug ?k (Nd t x CL_MAP_RED (Nd a v CL_MAP_RED b)))
      (plug ?k (Nd t x CL_MAP_BLACK (Nd a v CL_MAP_RED b)))"
      using del_bal_stop [of _ m ?k "Nd t x CL_MAP_RED (Nd a v CL_MAP_RED b)"] h2 True eq by simp
    from balances_step [OF this keep_set_step(4) [OF k1, of "QItem v"]] True t show ?thesis
      by (simp add: inorder_plug own_def)
  next
    case False
    then have r: "col b = CL_MAP_RED \<or> col a = CL_MAP_RED" by auto
    from balances_step [OF del_end_color(1) [OF r t del_end_l_correct [OF f1 r]] k1] t eq
    show ?thesis by (simp add: inorder_plug if_not_P [OF False])
  qed
qed

lemma del_case_red_r:
  assumes f: "foc s m (FR (Nd ul u CL_MAP_RED (Nd a v CL_MAP_BLACK b)) x c # k) t"
    and t: "col t = CL_MAP_BLACK"
  shows "balances m (cl_map_del_bal m (rp m t) s) s
    (plug (FR (Nd ul u CL_MAP_RED (Nd a v CL_MAP_BLACK b)) x c # k) t)
    (del_fix (FR (Nd ul u CL_MAP_RED (Nd a v CL_MAP_BLACK b)) x c # k) t)"
proof -
  let ?s1 = "cl_map_rot_right m (QItem x)
    (set_color (QItem x) CL_MAP_RED (set_color (QItem u) CL_MAP_BLACK s))"
  let ?k = "FR ul u CL_MAP_BLACK # k"
  note f1 = del_red_r(1) [OF f] and k1 = del_red_r(2) [OF f]
  note eq = del_bal_red_r [OF f t]
  show ?thesis
  proof (cases "col a = CL_MAP_BLACK \<and> col b = CL_MAP_BLACK")
    case True
    from f1 have "heap ?s1 m (plug ?k (Nd (Nd a v CL_MAP_BLACK b) x CL_MAP_RED t))"
      by (simp add: foc_def)
    note h2 = heap_sibling_red(2) [OF this]
    have "balances m (cl_map_del_bal m (rp m t) s) (set_color (QItem v) CL_MAP_RED ?s1)
      (plug ?k (Nd (Nd a v CL_MAP_RED b) x CL_MAP_RED t))
      (plug ?k (Nd (Nd a v CL_MAP_RED b) x CL_MAP_BLACK t))"
      using del_bal_stop [of _ m ?k "Nd (Nd a v CL_MAP_RED b) x CL_MAP_RED t"] h2 True eq by simp
    from balances_step [OF this keep_set_step(4) [OF k1, of "QItem v"]] True t show ?thesis
      by (simp add: inorder_plug own_def)
  next
    case False
    then have r: "col a = CL_MAP_RED \<or> col b = CL_MAP_RED" "col b = CL_MAP_RED \<or> col a = CL_MAP_RED"
      by auto
    from balances_step [OF del_end_color(2) [OF r(2) t del_end_r_correct [OF f1 r(1)]] k1] t eq
    show ?thesis by (simp add: inorder_plug if_not_P [OF False])
  qed
qed

lemma del_bal_correct:
  "foc s m k t \<Longrightarrow> crb k (Suc n) \<Longrightarrow> short t n \<Longrightarrow>
     balances m (cl_map_del_bal m (rp m t) s) s (plug k t) (del_fix k t)"
proof (induction k arbitrary: t n s)
  case Nil
  with del_bal_stop [OF Nil(1)] show ?case by simp
next
  case (Cons f k)
  show ?case
  proof (cases "col t")
    case CL_MAP_RED
    with del_bal_stop [OF Cons(2)] show ?thesis by (cases f) simp_all
  next
    case t: CL_MAP_BLACK
    with Cons.prems have rt: "rbt t n" by (simp add: short_def)
    note IH = Cons.IH [where t = "Nd _ _ _ _", unfolded rp.simps foc_item]
    show ?thesis
    proof (cases f)
      case (FL x c r)
      note fr = crb_frame(1) [OF Cons(3) [unfolded FL]]
      from fr have "rbt r (Suc n)" by simp
      then show ?thesis
      proof (cases rule: rbt_sibling)
        case (1 a u b)
        have "balances m (cl_map_del_bal m (QItem x) s') s' (plug k (Nd t x c (Nd a u CL_MAP_RED b)))
            (del_fix k (Nd t x c (Nd a u CL_MAP_RED b)))"
          if "col a = CL_MAP_BLACK" "col b = CL_MAP_BLACK"
            "heap s' m (plug k (Nd t x c (Nd a u CL_MAP_RED b)))" for s'
          using that 1 fr rt t by (intro IH [where n = "if c = CL_MAP_RED then n else Suc n"])
            (auto simp: short_def)
        from del_case_black_l [OF Cons(2) [unfolded FL 1(1)] t this] show ?thesis
          unfolding FL 1(1) .
      next
        case (2 a v b u a' v' b')
        from del_case_red_l [OF Cons(2) [unfolded FL 2(1)] t] show ?thesis unfolding FL 2(1) .
      qed
    next
      case (FR r x c)
      note fr = crb_frame(2) [OF Cons(3) [unfolded FR]]
      from fr have "rbt r (Suc n)" by simp
      then show ?thesis
      proof (cases rule: rbt_sibling)
        case (1 a u b)
        have "balances m (cl_map_del_bal m (QItem x) s') s' (plug k (Nd (Nd a u CL_MAP_RED b) x c t))
            (del_fix k (Nd (Nd a u CL_MAP_RED b) x c t))"
          if "col a = CL_MAP_BLACK" "col b = CL_MAP_BLACK"
            "heap s' m (plug k (Nd (Nd a u CL_MAP_RED b) x c t))" for s'
          using that 1 fr rt t by (intro IH [where n = "if c = CL_MAP_RED then n else Suc n"])
            (auto simp: short_def)
        from del_case_black_r [OF Cons(2) [unfolded FR 1(1)] t this] show ?thesis
          unfolding FR 1(1) .
      next
        case (2 a v b u a' v' b')
        from del_case_red_r [OF Cons(2) [unfolded FR 2(1)] t] show ?thesis unfolding FR 2(1) .
      qed
    qed
  qed
qed

end
