(* ===== verification/QuickMapCorrect.thy ===== *)
theory QuickMapCorrect
  imports QuickMapBalance
begin

text \<open>
  The quick map operations on a well-formed map: \<open>qmap s m xs\<close> says that the items \<open>xs\<close> form, in
  this order, both the red-black tree and the circular list of map \<open>m\<close>, that the count is right
  and the keys ascend.  The locale \<open>key_order\<close> is the contract of a comparison callback.
\<close>

section \<open>The comparison contract\<close>

locale key_order =
  fixes cmp :: compare_key
  assumes flip: "0 < cmp a b \<longleftrightarrow> cmp b a < 0"
    and trans: "cmp a b < 0 \<Longrightarrow> cmp b c < 0 \<Longrightarrow> cmp a c < 0"
    and zero: "cmp a b = 0 \<Longrightarrow> sgn (cmp a c) = sgn (cmp b c)"
begin

lemma refl: "cmp a a = 0"
  using flip [of a a] by linarith

lemma above: "cmp a b < 0 \<Longrightarrow> 0 \<le> cmp a k \<Longrightarrow> 0 < cmp b k"
proof -
  assume ab: "cmp a b < 0" and ak: "0 \<le> cmp a k"
  consider "cmp k a < 0" | "cmp a k = 0" using ak flip [of a k] by linarith
  then show "0 < cmp b k"
  proof cases
    case 1
    from trans [OF this ab] show ?thesis using flip [of b k] by simp
  next
    case 2
    from zero [OF this, of b] ab have "sgn (cmp k b) = - 1" by simp
    then show ?thesis using flip [of b k] by (simp add: sgn_1_neg)
  qed
qed

end

interpretation plain: key_order plain_compare
  by unfold_locales (auto simp: plain_compare_def split: if_splits)

definition cmp_of :: "qstore \<Rightarrow> nat \<Rightarrow> compare_key" where
  "cmp_of s m = (case key_compare s m of None \<Rightarrow> plain_compare | Some c \<Rightarrow> c)"

section \<open>The circular list\<close>

fun seg :: "qstore \<Rightarrow> qptr \<Rightarrow> qptr list \<Rightarrow> qptr \<Rightarrow> bool" where
  "seg s p [] q \<longleftrightarrow> p_next s p = q \<and> p_prev s q = p"
| "seg s p (x # xs) q \<longleftrightarrow> p_next s p = x \<and> p_prev s x = p \<and> seg s x xs q"

definition thread :: "qstore \<Rightarrow> nat \<Rightarrow> nat list \<Rightarrow> bool" where
  "thread s m xs \<longleftrightarrow> seg s (QNil m) (map QItem xs) (QNil m)"

lemma seg_append: "seg s p (A @ x # B) q \<longleftrightarrow> seg s p A x \<and> seg s x B q"
  by (induction A arbitrary: p) auto

lemma seg_cong:
  "(\<And>v. v \<in> insert p (set A) \<Longrightarrow> p_next s' v = p_next s v) \<Longrightarrow>
   (\<And>v. v \<in> insert q (set A) \<Longrightarrow> p_prev s' v = p_prev s v) \<Longrightarrow> seg s' p A q = seg s p A q"
  by (induction A arbitrary: p) auto

lemma seg_last: "seg s p A q \<Longrightarrow> p_prev s q = last (p # A)"
  by (induction A arbitrary: p) auto

lemma seg_first: "seg s p A q \<Longrightarrow> p_next s p = hd (A @ [q])"
  by (cases A) auto

lemma prim_fields [simp]:
  "p_left (cl_primitive_insert q x s) = p_left s" "p_right (cl_primitive_insert q x s) = p_right s"
  "p_up (cl_primitive_insert q x s) = p_up s" "color (cl_primitive_insert q x s) = color s"
  "key (cl_primitive_insert q x s) = key s" "qcount (cl_primitive_insert q x s) = qcount s"
  "key_compare (cl_primitive_insert q x s) = key_compare s"
  "p_left (cl_primitive_remove x s) = p_left s" "p_right (cl_primitive_remove x s) = p_right s"
  "p_up (cl_primitive_remove x s) = p_up s" "color (cl_primitive_remove x s) = color s"
  "key (cl_primitive_remove x s) = key s" "qcount (cl_primitive_remove x s) = qcount s"
  "key_compare (cl_primitive_remove x s) = key_compare s"
  by (simp_all add: cl_primitive_insert_def cl_primitive_remove_def set_next_def set_prev_def Let_def)

lemma prim_links:
  "x \<noteq> q \<Longrightarrow> p_next (cl_primitive_insert q x s) = (p_next s)(x := q, p_prev s q := x)"
  "x \<noteq> q \<Longrightarrow> p_prev (cl_primitive_insert q x s) = (p_prev s)(x := p_prev s q, q := x)"
  "p_next s x \<noteq> x \<Longrightarrow> p_prev s x \<noteq> x \<Longrightarrow>
     p_next (cl_primitive_remove x s) = (p_next s)(p_prev s x := p_next s x)"
  "p_next s x \<noteq> x \<Longrightarrow> p_prev (cl_primitive_remove x s) = (p_prev s)(p_next s x := p_prev s x)"
  by (simp_all add: cl_primitive_insert_def cl_primitive_remove_def set_next_def set_prev_def Let_def)

text \<open>The list node at the head of a rest of the list.\<close>

definition first_of :: "nat \<Rightarrow> nat list \<Rightarrow> qptr" where
  "first_of m B = hd (map QItem B @ [QNil m])"

lemma first_of_simps [simp]: "first_of m [] = QNil m" "first_of m (y # B) = QItem y"
  by (simp_all add: first_of_def)

lemma thread_split:
  "thread s m (A @ x # B) \<longleftrightarrow>
     seg s (QNil m) (map QItem A) (QItem x) \<and> seg s (QItem x) (map QItem B) (QNil m)"
  by (simp add: thread_def seg_append)

lemma thread_next: "thread s m (A @ x # B) \<Longrightarrow> p_next s (QItem x) = first_of m B"
  by (auto simp: thread_split first_of_def dest: seg_first)

lemma thread_prev: "thread s m (A @ x # B) \<Longrightarrow> p_prev s (QItem x) = last (QNil m # map QItem A)"
  by (auto simp: thread_split dest: seg_last)

lemma thread_head: "thread s m xs \<Longrightarrow> p_next s (QNil m) = first_of m xs"
  by (auto simp: thread_def first_of_def dest: seg_first)

lemma thread_insert:
  assumes "thread s m (A @ B)" "distinct (A @ B)" "x \<notin> set A \<union> set B"
  shows "thread (cl_primitive_insert (first_of m B) (QItem x) s) m (A @ x # B)"
proof -
  let ?q = "first_of m B" let ?s = "cl_primitive_insert ?q (QItem x) s"
  have xq: "QItem x \<noteq> ?q" using assms(3) by (cases B) auto
  have A: "seg s (QNil m) (map QItem A) ?q"
    using assms(1) by (cases B) (auto simp: thread_def seg_append)
  have xl: "QItem x \<noteq> last (QNil m # map QItem A)"
    using assms(3) by (cases A rule: rev_cases) auto
  note links = prim_links(1,2) [OF xq] seg_last [OF A]
  have "seg ?s (QNil m) (map QItem A) (QItem x)"
  proof (cases A rule: rev_cases)
    case Nil
    then show ?thesis using links xq by auto
  next
    case (snoc A' z)
    have "seg ?s (QNil m) (map QItem A') (QItem z) = seg s (QNil m) (map QItem A') (QItem z)"
      using assms(2,3) snoc links by (intro seg_cong) (cases B; auto)+
    with A snoc links xq show ?thesis by (auto simp: seg_append)
  qed
  moreover have "seg ?s (QItem x) (map QItem B) (QNil m)"
  proof (cases B)
    case Nil
    then show ?thesis using links xq xl by simp
  next
    case (Cons y B')
    have "seg s (QItem y) (map QItem B') (QNil m)" using assms(1) Cons by (simp add: thread_split)
    moreover have "seg ?s (QItem y) (map QItem B') (QNil m) = seg s (QItem y) (map QItem B') (QNil m)"
      using assms(2,3) Cons links by (intro seg_cong) (cases A rule: rev_cases; auto)+
    ultimately have "seg ?s (QItem y) (map QItem B') (QNil m)" by simp
    then show ?thesis using links Cons xq xl by simp
  qed
  ultimately show ?thesis by (simp add: thread_split)
qed

lemma thread_remove:
  assumes "thread s m (A @ x # B)" "distinct (A @ x # B)"
  shows "thread (cl_primitive_remove (QItem x) s) m (A @ B)"
proof -
  let ?s = "cl_primitive_remove (QItem x) s"
  note n = thread_next [OF assms(1)] and p = thread_prev [OF assms(1)]
  have ne: "p_next s (QItem x) \<noteq> QItem x" "p_prev s (QItem x) \<noteq> QItem x"
    using n p assms(2) by (cases B; cases A rule: rev_cases; auto)+
  note links = prim_links(3) [OF ne] prim_links(4) [OF ne(1)]
  have A: "seg ?s (QNil m) (map QItem A) (first_of m B)"
  proof (cases A rule: rev_cases)
    case Nil
    then show ?thesis using links n p by simp
  next
    case (snoc A' z)
    have "seg ?s (QNil m) (map QItem A') (QItem z) = seg s (QNil m) (map QItem A') (QItem z)"
      using assms(2) snoc links n p by (intro seg_cong) (cases B; auto)+
    with assms(1) snoc links n p show ?thesis by (simp add: thread_split seg_append)
  qed
  show ?thesis
  proof (cases B)
    case Nil
    with A show ?thesis by (simp add: thread_def)
  next
    case (Cons y B')
    have "seg s (QItem y) (map QItem B') (QNil m)" using assms(1) Cons by (simp add: thread_split)
    moreover have "seg ?s (QItem y) (map QItem B') (QNil m) = seg s (QItem y) (map QItem B') (QNil m)"
      using assms(2) Cons links n p by (intro seg_cong) (cases A rule: rev_cases; auto)+
    ultimately have "seg ?s (QItem y) (map QItem B') (QNil m)" by simp
    with A Cons show ?thesis by (simp add: thread_split)
  qed
qed

section \<open>Well-formed maps\<close>

definition ascending :: "qstore \<Rightarrow> nat \<Rightarrow> nat list \<Rightarrow> bool" where
  "ascending s m xs \<longleftrightarrow>
     sorted_wrt (\<lambda>x y. cmp_of s m (key s (QItem x)) (key s (QItem y)) < 0) xs"

definition qmap_tree :: "qstore \<Rightarrow> nat \<Rightarrow> rb \<Rightarrow> bool" where
  "qmap_tree s m T \<longleftrightarrow> heap s m T \<and> rb_tree T \<and> thread s m (inorder T) \<and>
     qcount s m = of_nat (length (inorder T)) \<and> ascending s m (inorder T)"

definition qmap :: "qstore \<Rightarrow> nat \<Rightarrow> nat list \<Rightarrow> bool" where
  "qmap s m xs \<longleftrightarrow> (\<exists>T. inorder T = xs \<and> qmap_tree s m T)"

lemma qmapI: "qmap_tree s m T \<Longrightarrow> inorder T = xs \<Longrightarrow> qmap s m xs"
  by (auto simp: qmap_def)

lemma qmapE:
  assumes "qmap s m xs"
  obtains T where "inorder T = xs" "heap s m T" "rb_tree T" "thread s m xs"
    "qcount s m = of_nat (length xs)" "ascending s m xs" "distinct xs"
  using assms by (auto simp: qmap_def qmap_tree_def heap_def)

lemma qmapD:
  assumes "qmap s m xs"
  shows "thread s m xs" "ascending s m xs" "distinct xs" "qcount s m = of_nat (length xs)"
  using assms by (simp_all add: qmap_def qmap_tree_def heap_def, blast+)

section \<open>Walking down\<close>

text \<open>A comparison \<open>f\<close> of the items with a key cuts the list: first the smaller items, then at
  most one equal item, then the greater ones.\<close>

definition cuts :: "(qptr \<Rightarrow> int) \<Rightarrow> nat list \<Rightarrow> bool" where
  "cuts f xs \<longleftrightarrow> sorted_wrt (\<lambda>x y. 0 \<le> f (QItem x) \<longrightarrow> 0 < f (QItem y)) xs"

lemma cuts_ascending:
  assumes "key_order (cmp_of s m)" "ascending s m xs"
  shows "cuts (\<lambda>p. cmp_of s m (key s p) k) xs"
  using assms(2) key_order.above [OF assms(1)]
  by (auto simp: cuts_def ascending_def elim!: sorted_wrt_mono_rel [rotated])

definition found :: "nat \<Rightarrow> (qptr \<Rightarrow> int) \<Rightarrow> nat list \<Rightarrow> qptr" where
  "found m f xs = (case find (\<lambda>x. f (QItem x) = 0) xs of None \<Rightarrow> QNil m | Some x \<Rightarrow> QItem x)"

lemma find_append: "find P (xs @ ys) = (case find P xs of None \<Rightarrow> find P ys | Some x \<Rightarrow> Some x)"
  by (induction xs) auto

lemma find_none: "(\<And>x. x \<in> set xs \<Longrightarrow> \<not> P x) \<Longrightarrow> find P xs = None"
  by (simp add: find_None_iff)

lemma found_mid:
  assumes "cuts f (A @ x # B)"
  shows "f (QItem x) = 0 \<Longrightarrow> found m f (A @ x # B) = QItem x"
    and "0 < f (QItem x) \<Longrightarrow> found m f (A @ x # B) = found m f A"
    and "f (QItem x) < 0 \<Longrightarrow> found m f (A @ x # B) = found m f B"
proof -
  have A: "find (\<lambda>y. f (QItem y) = 0) A = None" if "f (QItem x) \<le> 0"
    using assms that by (intro find_none) (auto simp: cuts_def sorted_wrt_append)
  have B: "find (\<lambda>y. f (QItem y) = 0) B = None" if "0 < f (QItem x)"
    using assms that by (intro find_none) (auto simp: cuts_def sorted_wrt_append)
  show "f (QItem x) = 0 \<Longrightarrow> found m f (A @ x # B) = QItem x"
    "0 < f (QItem x) \<Longrightarrow> found m f (A @ x # B) = found m f A"
    "f (QItem x) < 0 \<Longrightarrow> found m f (A @ x # B) = found m f B"
    using A B by (auto simp: found_def find_append split: option.splits)
qed

lemma cuts_sub: "cuts f (A @ B) \<Longrightarrow> cuts f A" "cuts f (A @ B) \<Longrightarrow> cuts f B"
  "cuts f (x # B) \<Longrightarrow> cuts f B"
  by (auto simp: cuts_def sorted_wrt_append)

lemma get_loop_tree:
  "tree s m u t \<Longrightarrow> cuts f (inorder t) \<Longrightarrow> get_loop m f (rp m t) s = Some (found m f (inorder t))"
proof (induction t arbitrary: u)
  case Lf
  then show ?case by (simp add: get_loop.simps found_def)
next
  case (Nd l x c r)
  note c = Nd.prems(2) [unfolded inorder.simps]
  have l: "get_loop m f (rp m l) s = Some (found m f (inorder l))"
    using Nd.IH(1) Nd.prems(1) cuts_sub(1) [OF c] by auto
  have r: "get_loop m f (rp m r) s = Some (found m f (inorder r))"
    using Nd.IH(2) Nd.prems(1) cuts_sub(3) [OF cuts_sub(2) [OF c]] by auto
  consider "f (QItem x) = 0" | "0 < f (QItem x)" | "f (QItem x) < 0" by linarith
  then show ?case
    using Nd.prems(1) l r found_mid [OF c, of m] by cases (simp_all add: get_loop.simps [of m f "QItem x"])
qed

lemma heap_root: "heap s m T \<Longrightarrow> cl_map_root m s = rp m T \<and> tree s m (QRoot m) T"
  by (simp add: heap_def cl_map_root_def)

lemma get_loop_qmap:
  "qmap s m xs \<Longrightarrow> cuts f xs \<Longrightarrow> get_loop m f (cl_map_root m s) s = Some (found m f xs)"
  by (auto elim!: qmapE dest!: heap_root intro: get_loop_tree)

lemma get_plain_loop_tree:
  "tree s m u t \<Longrightarrow> get_plain_loop m k (rp m t) s = get_loop m (\<lambda>p. plain_compare (key s p) k) (rp m t) s"
proof (induction t arbitrary: u)
  case Lf
  then show ?case by (simp add: get_loop.simps get_plain_loop.simps)
next
  case (Nd l x c r)
  have "get_plain_loop m k (rp m l) s = get_loop m (\<lambda>p. plain_compare (key s p) k) (rp m l) s"
    "get_plain_loop m k (rp m r) s = get_loop m (\<lambda>p. plain_compare (key s p) k) (rp m r) s"
    using Nd by auto
  with Nd.prems show ?case
    by (auto simp: get_loop.simps [of m _ "QItem x"] get_plain_loop.simps [of m k "QItem x"]
        plain_compare_def)
qed

lemma get_qmap:
  assumes q: "qmap s m xs" and c: "key_order (cmp_of s m)"
  shows "cl_qmap_get m k s = Some (found m (\<lambda>p. cmp_of s m (key s p) k) xs)"
proof -
  from q obtain T where T: "inorder T = xs" "heap s m T" "ascending s m xs"
    by (auto elim: qmapE)
  note r = heap_root [OF T(2)] and l = get_loop_qmap [OF q cuts_ascending [OF c T(3)], of k]
  have t: "tree s m (QRoot m) T" and p: "cl_map_root m s = rp m T" using r by auto
  show ?thesis
    using l get_plain_loop_tree [OF t, of k]
    by (cases "key_compare s m") (simp_all add: cl_qmap_get_def cmp_of_def p)
qed

text \<open>\<^verbatim>\<open>cl_qmap_get_next\<close>: the walk returns the first item that passes the test, when the
  items that pass are the last ones.\<close>

lemma get_next_loop_tree:
  "tree s m u t \<Longrightarrow> sorted_wrt (\<lambda>x y. b (QItem x) \<longrightarrow> b (QItem y)) (inorder t) \<Longrightarrow>
     get_next_loop m b (rp m t) q s =
       Some (case find (\<lambda>x. b (QItem x)) (inorder t) of None \<Rightarrow> q | Some x \<Rightarrow> QItem x)"
proof (induction t arbitrary: u q)
  case Lf
  then show ?case by (simp add: get_next_loop.simps)
next
  case (Nd l x c r)
  let ?f = "\<lambda>q xs. case find (\<lambda>x. b (QItem x)) xs of None \<Rightarrow> q | Some x \<Rightarrow> QItem x"
  have w: "sorted_wrt (\<lambda>x y. b (QItem x) \<longrightarrow> b (QItem y)) (inorder l)"
    "sorted_wrt (\<lambda>x y. b (QItem x) \<longrightarrow> b (QItem y)) (inorder r)"
    "\<And>y. y \<in> set (inorder l) \<Longrightarrow> b (QItem y) \<Longrightarrow> b (QItem x)"
    using Nd.prems(2) unfolding inorder.simps sorted_wrt_append sorted_wrt.simps list.set by blast+
  have l: "get_next_loop m b (rp m l) q s = Some (?f q (inorder l))" for q
    by (rule Nd.IH(1) [of "QItem x"]) (use Nd.prems(1) w(1) in \<open>simp_all only: tree.simps\<close>)
  have r: "get_next_loop m b (rp m r) q s = Some (?f q (inorder r))" for q
    by (rule Nd.IH(2) [of "QItem x"]) (use Nd.prems(1) w(2) in \<open>simp_all only: tree.simps\<close>)
  show ?case
  proof (cases "b (QItem x)")
    case True
    with Nd.prems(1) show ?thesis
      by (simp add: get_next_loop.simps [of m b "QItem x"] l find_append split: option.split)
  next
    case False
    then have "find (\<lambda>x. b (QItem x)) (inorder l) = None"
      using w(3) by (intro find_none) blast
    with False Nd.prems(1) show ?thesis
      by (simp add: get_next_loop.simps [of m b "QItem x"] r find_append)
  qed
qed

text \<open>When the items that pass come first, the walk returns the leftmost item or nothing,
  depending on the root alone.\<close>

lemma get_next_loop_all:
  "tree s m u t \<Longrightarrow> (\<And>x. x \<in> set (inorder t) \<Longrightarrow> b (QItem x)) \<Longrightarrow>
     get_next_loop m b (rp m t) q s = Some (hd (map QItem (inorder t) @ [q]))"
proof (induction t arbitrary: u q)
  case Lf
  then show ?case by (simp add: get_next_loop.simps)
next
  case (Nd l x c r)
  have l: "get_next_loop m b (rp m l) (QItem x) s = Some (hd (map QItem (inorder l) @ [QItem x]))"
    using Nd.prems by (intro Nd.IH(1)) auto
  show ?case
    using Nd.prems l by (cases "inorder l") (simp_all add: get_next_loop.simps [of m b "QItem x"])
qed

lemma get_next_loop_none:
  "tree s m u t \<Longrightarrow> (\<And>x. x \<in> set (inorder t) \<Longrightarrow> \<not> b (QItem x)) \<Longrightarrow>
     get_next_loop m b (rp m t) q s = Some q"
proof (induction t arbitrary: u q)
  case Lf
  then show ?case by (simp add: get_next_loop.simps)
next
  case (Nd l x c r)
  have "get_next_loop m b (rp m r) q s = Some q"
    using Nd.prems by (intro Nd.IH(2)) auto
  then show ?case
    using Nd.prems by (simp add: get_next_loop.simps [of m b "QItem x"])
qed

lemma get_next_loop_wrong_way:
  assumes "tree s m u t" "sorted_wrt (\<lambda>x y. b (QItem y) \<longrightarrow> b (QItem x)) (inorder t)"
  shows "get_next_loop m b (rp m t) q s =
    Some (if t \<noteq> Lf \<and> b (rp m t) then hd (map QItem (inorder t)) else q)"
proof (cases t)
  case Lf
  then show ?thesis by (simp add: get_next_loop.simps)
next
  case (Nd l x c r)
  have w: "y \<in> set (inorder l) \<Longrightarrow> b (QItem x) \<Longrightarrow> b (QItem y)"
    "y \<in> set (inorder r) \<Longrightarrow> b (QItem y) \<Longrightarrow> b (QItem x)" for y
    using assms(2) unfolding Nd inorder.simps sorted_wrt_append sorted_wrt.simps list.set by blast+
  have t: "tree s m (QItem x) l" "tree s m (QItem x) r" using assms(1) Nd by simp_all
  show ?thesis
  proof (cases "b (QItem x)")
    case True
    have "get_next_loop m b (rp m l) (QItem x) s = Some (hd (map QItem (inorder l) @ [QItem x]))"
      by (rule get_next_loop_all) (use t w True in blast)+
    then show ?thesis
      using assms(1) Nd True
      by (cases "inorder l") (simp_all add: get_next_loop.simps [of m b "QItem x"])
  next
    case False
    have "get_next_loop m b (rp m r) q s = Some q"
      by (rule get_next_loop_none) (use t w False in blast)+
    then show ?thesis
      using assms(1) Nd False by (simp add: get_next_loop.simps [of m b "QItem x"])
  qed
qed

end
