(* ===== verification/QuickMapInsert.thy ===== *)
theory QuickMapInsert
  imports QuickMapCorrect
begin

text \<open>
  Insertion into the quick map: the search for the place, the new node, the place in the circular
  list, the rebalancing; and what an operation on one map leaves alone (\<open>others\<close>).
\<close>

section \<open>The place of a new item\<close>

definition splits :: "(qptr \<Rightarrow> int) \<Rightarrow> nat list \<Rightarrow> nat list \<Rightarrow> bool" where
  "splits f A B \<longleftrightarrow> (\<forall>x \<in> set A. f (QItem x) < 0) \<and> (\<forall>x \<in> set B. 0 < f (QItem x))"

definition at_place :: "rb_frame list \<Rightarrow> int \<Rightarrow> bool" where
  "at_place k res \<longleftrightarrow> k \<noteq> [] \<longrightarrow> (0 < res \<longleftrightarrow> \<not> is_fr k)"

lemma ins_find_tree:
  "tree s m (par m k) t \<Longrightarrow> cuts f (inorder t) \<Longrightarrow> at_place k res \<Longrightarrow>
     splits f (before k) (after k) \<Longrightarrow>
     (\<exists>x \<in> set (inorder t). f (QItem x) = 0 \<and>
        ins_find_loop m f (par m k) (rp m t) res s = Some (Inl (QItem x))) \<or>
     (\<exists>k' res'. plug k' Lf = plug k t \<and> at_place k' res' \<and> splits f (before k') (after k') \<and>
        ins_find_loop m f (par m k) (rp m t) res s = Some (Inr (par m k', res')))"
proof (induction t arbitrary: k res)
  case Lf
  then show ?case by (auto simp: ins_find_loop.simps [of _ _ _ "QNil m"] intro!: exI [of _ k])
next
  case (Nd l x c r)
  note cs = Nd.prems(2) [unfolded inorder.simps]
  have lr: "\<forall>y \<in> set (inorder r). 0 \<le> f (QItem x) \<longrightarrow> 0 < f (QItem y)"
    "\<forall>y \<in> set (inorder l). f (QItem x) \<le> 0 \<longrightarrow> f (QItem y) < 0"
    using cs unfolding cuts_def sorted_wrt_append sorted_wrt.simps list.set by fastforce+
  have t: "p_left s (QItem x) = rp m l" "p_right s (QItem x) = rp m r"
    "tree s m (QItem x) l" "tree s m (QItem x) r" using Nd.prems(1) by simp_all
  note loop = ins_find_loop.simps [of m f "par m k" "QItem x" res s]
  consider "f (QItem x) = 0" | "0 < f (QItem x)" | "f (QItem x) < 0" by linarith
  then show ?case
  proof cases
    case 1
    then show ?thesis by (simp add: loop)
  next
    case 2
    have "splits f (before (FL x c r # k)) (after (FL x c r # k))"
      using Nd.prems(4) lr(1) 2 by (auto simp: splits_def)
    from Nd.IH(1) [OF _ cuts_sub(1) [OF cs] _ this, of "f (QItem x)"] t 2
    show ?thesis by (simp add: loop at_place_def) blast
  next
    case 3
    have "splits f (before (FR l x c # k)) (after (FR l x c # k))"
      using Nd.prems(4) lr(2) 3 by (auto simp: splits_def)
    from Nd.IH(2) [OF _ cuts_sub(3) [OF cuts_sub(2) [OF cs]] _ this, of "f (QItem x)"] t 3
    show ?thesis by (simp add: loop at_place_def) blast
  qed
qed

section \<open>What an operation on a map leaves alone\<close>

definition same_item :: "qstore \<Rightarrow> qstore \<Rightarrow> qptr \<Rightarrow> bool" where
  "same_item s s' p \<longleftrightarrow> same_node s s' p \<and> key s' p = key s p \<and> p_next s' p = p_next s p \<and>
     p_prev s' p = p_prev s p"

definition others :: "nat \<Rightarrow> nat set \<Rightarrow> qstore \<Rightarrow> qstore \<Rightarrow> bool" where
  "others m X s s' \<longleftrightarrow>
     (\<forall>p. p \<noteq> QRoot m \<longrightarrow> p \<noteq> QNil m \<longrightarrow> \<not> pin p X \<longrightarrow> same_item s s' p) \<and>
     (\<forall>m'. m' \<noteq> m \<longrightarrow> qcount s' m' = qcount s m') \<and> key_compare s' = key_compare s"

lemma others_refl [simp]: "others m X s s"
  by (simp add: others_def same_item_def same_node_def)

lemma others_trans: "others m X s s1 \<Longrightarrow> others m X s1 s2 \<Longrightarrow> others m X s s2"
  by (simp add: others_def same_item_def same_node_def)

lemma pin_mono: "pin p X \<Longrightarrow> X \<subseteq> Y \<Longrightarrow> pin p Y"
  by (cases p) auto

lemma others_mono: "others m X s s1 \<Longrightarrow> X \<subseteq> Y \<Longrightarrow> others m Y s s1"
  unfolding others_def using pin_mono by blast

lemma keep_others: "keep (own m T) s s' \<Longrightarrow> set (inorder T) \<subseteq> X \<Longrightarrow> others m X s s'"
proof -
  assume k: "keep (own m T) s s'" and X: "set (inorder T) \<subseteq> X"
  have "p \<notin> own m T" if "p \<noteq> QRoot m" "\<not> pin p X" for p
    using that X by (auto simp: own_def)
  with k show ?thesis by (simp add: keep_def others_def same_item_def)
qed

lemma cmp_of_others: "others m X s s' \<Longrightarrow> cmp_of s' m' = cmp_of s m'"
  by (simp add: others_def cmp_of_def)

lemma first_of_cases: "first_of m B = QNil m \<or> (\<exists>y \<in> set B. first_of m B = QItem y)"
  by (cases B) auto

lemma same_heap:
  assumes "\<And>x. x \<in> set (inorder T) \<Longrightarrow> same_item s s' (QItem x)"
    and "same_item s s' (QRoot m)" "same_item s s' (QNil m)"
  shows "heap s' m T = heap s m T"
proof -
  have "tree s' m (QRoot m) T = tree s m (QRoot m) T"
    using assms(1) by (intro tree_same) (simp add: same_item_def)
  with assms(2,3) show ?thesis by (simp add: heap_def same_item_def same_node_def)
qed

lemma same_thread:
  assumes "\<And>x. x \<in> set xs \<Longrightarrow> same_item s s' (QItem x)" "same_item s s' (QNil m)"
  shows "thread s' m xs = thread s m xs"
  unfolding thread_def using assms by (intro seg_cong) (auto simp: same_item_def)

lemma ascending_cong:
  assumes "\<And>x. x \<in> set xs \<Longrightarrow> key s' (QItem x) = key s (QItem x)" "cmp_of s' m = cmp_of s m"
  shows "ascending s' m xs = ascending s m xs"
  using assms unfolding ascending_def by (induction xs) auto

text \<open>A map that does not share items with the one operated on stays as it is.\<close>

lemma qmap_others:
  assumes "qmap s m' ys" "others m X s s'" "m' \<noteq> m" "set ys \<inter> X = {}"
  shows "qmap s' m' ys"
proof -
  obtain T where T: "inorder T = ys" "qmap_tree s m' T" using assms(1) by (auto simp: qmap_def)
  have i: "same_item s s' (QItem x)" if "x \<in> set ys" for x
  proof -
    have "\<not> pin (QItem x) X" using assms(4) that by auto
    with assms(2) show ?thesis unfolding others_def by blast
  qed
  have n: "same_item s s' (QRoot m')" "same_item s s' (QNil m')"
    using assms(2,3) by (auto simp: others_def)
  have "heap s' m' T = heap s m' T" using i n T(1) by (intro same_heap) auto
  moreover have "thread s' m' ys = thread s m' ys" using i n by (intro same_thread) auto
  moreover have "ascending s' m' ys = ascending s m' ys"
    using i cmp_of_others [OF assms(2)] by (intro ascending_cong) (auto simp: same_item_def)
  ultimately show ?thesis
    using T assms(2,3) by (auto simp: qmap_def qmap_tree_def others_def)
qed

section \<open>Linking in a new node\<close>

text \<open>The straight-line part of \<^verbatim>\<open>cl_qmap_insert\<close>, after the search.\<close>

definition link_node :: "nat \<Rightarrow> u64 \<Rightarrow> qptr \<Rightarrow> qptr \<Rightarrow> int \<Rightarrow> qstore \<Rightarrow> qstore" where
  "link_node m k p at_p res s =
    (let s1 = set_right p (QNil m) (set_left p (QNil m) s);
         s2 = set_color p CL_MAP_RED (s1\<lparr>key := (key s1)(p := k)\<rparr>);
         s3 = (if at_p = QRoot m
               then cl_primitive_insert (QNil m) p (set_left at_p p s2)
               else if res > 0
               then cl_primitive_insert at_p p (set_left at_p p s2)
               else cl_primitive_insert (p_next (set_right at_p p s2) at_p) p
                      (set_right at_p p s2));
         s4 = s3\<lparr>qcount := (qcount s3)(m := qcount s3 m + 1)\<rparr>
     in set_up p at_p s4)"

lemma cl_qmap_insert_eq:
  "cl_qmap_insert m k p s =
    (case ins_find_loop m (\<lambda>q. cmp_of s m (key s q) k) (QRoot m) (cl_map_root m s) 0 s of
       None \<Rightarrow> None
     | Some (Inl q) \<Rightarrow> Some (q, s)
     | Some (Inr (at_p, res)) \<Rightarrow>
        (case cl_map_ins_bal m p (link_node m k p at_p res s) of None \<Rightarrow> None
         | Some s6 \<Rightarrow> Some (p, set_color (cl_map_root m s6) CL_MAP_BLACK s6)))"
  unfolding cl_qmap_insert_def link_node_def cmp_of_def Let_def by (rule refl)

lemma set_more_fields [simp]:
  "key (set_left p q s) = key s" "p_next (set_left p q s) = p_next s"
  "p_prev (set_left p q s) = p_prev s" "qcount (set_left p q s) = qcount s"
  "key_compare (set_left p q s) = key_compare s"
  "key (set_right p q s) = key s" "p_next (set_right p q s) = p_next s"
  "p_prev (set_right p q s) = p_prev s" "qcount (set_right p q s) = qcount s"
  "key_compare (set_right p q s) = key_compare s"
  "key (set_up p q s) = key s" "p_next (set_up p q s) = p_next s"
  "p_prev (set_up p q s) = p_prev s" "qcount (set_up p q s) = qcount s"
  "key_compare (set_up p q s) = key_compare s"
  "key (set_color p c s) = key s" "p_next (set_color p c s) = p_next s"
  "p_prev (set_color p c s) = p_prev s" "qcount (set_color p c s) = qcount s"
  "key_compare (set_color p c s) = key_compare s"
  by (simp_all add: set_left_def set_right_def set_up_def set_color_def)

lemma set_at_more [simp]:
  "key (set_at m k q s) = key s" "p_next (set_at m k q s) = p_next s"
  "p_prev (set_at m k q s) = p_prev s" "qcount (set_at m k q s) = qcount s"
  "key_compare (set_at m k q s) = key_compare s"
  by (cases "(m, k, q, s)" rule: set_at.cases; simp)+

text \<open>The node goes into the list in front of the item that follows the focus.\<close>

lemma link_place:
  assumes "thread s m (before k @ after k)" "at_place k res"
  shows "(if par m k = QRoot m then QNil m else if res > 0 then par m k else p_next s (par m k)) =
    first_of m (after k)"
proof (cases "is_fr k")
  case True
  then obtain l x c k' where k: "k = FR l x c # k'" by (cases k rule: is_fr.cases) auto
  with assms(1) have "p_next s (QItem x) = first_of m (after k')"
    using thread_next [of s m "before k' @ inorder l" x "after k'"] by simp
  with k assms(2) show ?thesis by (simp add: at_place_def)
next
  case False
  then show ?thesis using assms(2) by (cases k rule: is_fr.cases) (auto simp: at_place_def)
qed

definition fresh_node :: "nat \<Rightarrow> u64 \<Rightarrow> qptr \<Rightarrow> qstore \<Rightarrow> qstore" where
  "fresh_node m k p s = set_color p CL_MAP_RED
     ((set_right p (QNil m) (set_left p (QNil m) s))\<lparr>key := (key s)(p := k)\<rparr>)"

lemma link_node_eq:
  assumes "thread s m (before c @ after c)" "at_place c res"
  shows "link_node m k p (par m c) res s =
    (let s3 = cl_primitive_insert (first_of m (after c)) p (set_at m c p (fresh_node m k p s))
     in set_up p (par m c) (s3\<lparr>qcount := (qcount s3)(m := qcount s3 m + 1)\<rparr>))"
  using link_place [OF assms] assms(2)
  by (cases c rule: is_fr.cases)
    (auto simp: link_node_def fresh_node_def Let_def at_place_def split: if_splits)

lemma fresh_fields [simp]:
  "p_left (fresh_node m k p s) = (p_left s)(p := QNil m)"
  "p_right (fresh_node m k p s) = (p_right s)(p := QNil m)"
  "p_up (fresh_node m k p s) = p_up s" "color (fresh_node m k p s) = (color s)(p := CL_MAP_RED)"
  "key (fresh_node m k p s) = (key s)(p := k)" "p_next (fresh_node m k p s) = p_next s"
  "p_prev (fresh_node m k p s) = p_prev s" "qcount (fresh_node m k p s) = qcount s"
  "key_compare (fresh_node m k p s) = key_compare s"
  by (simp_all add: fresh_node_def)

lemma heap_congr:
  assumes "p_left s' = p_left s" "p_right s' = p_right s" "p_up s' = p_up s" "color s' = color s"
  shows "heap s' m T = heap s m T"
proof -
  have "tree s' m u T = tree s m u T" for u
    using assms by (intro tree_same) (simp add: same_node_def)
  with assms show ?thesis by (simp add: heap_def)
qed

lemma link_heap:
  fixes k :: u64
  assumes h: "heap s m (plug c Lf)" and x: "x \<notin> set (before c @ after c)"
  defines "s' \<equiv> set_up (QItem x) (par m c) (set_at m c (QItem x) (fresh_node m k (QItem x) s))"
  shows "heap s' m (plug c (Nd Lf x CL_MAP_RED Lf))"
proof -
  let ?f = "fresh_node m k (QItem x) s"
  have px: "par m c \<noteq> QItem x" using x par_in [of m c x] by auto
  have c: "ctx ?f m c (QNil m) = ctx s m c (QNil m)"
    using x by (intro ctx_same) (auto simp: same_node_def)
  have "ctx (set_at m c (QItem x) ?f) m c (QItem x)"
    using h c by (intro ctx_set_at [of _ _ _ "QNil m"]) (simp_all add: heap_plug)
  then show ?thesis
    using h x px by (simp add: heap_plug s'_def)
qed

lemma ins_splits_eq:
  "before k @ after k = inorder (plug k Lf)"
  by (simp add: inorder_plug)

lemma par_not: "p \<noteq> QRoot m \<Longrightarrow> \<not> pin p (insert x (set (before c @ after c))) \<Longrightarrow> p \<noteq> par m c"
  by (cases "(m, c)" rule: par.cases) auto

lemma link_node_correct:
  fixes k :: u64
  assumes h: "heap s m (plug c Lf)" and t: "thread s m (before c @ after c)"
    and a: "at_place c res" and x: "x \<notin> set (before c @ after c)"
  defines "s' \<equiv> link_node m k (QItem x) (par m c) res s"
  shows "heap s' m (plug c (Nd Lf x CL_MAP_RED Lf))"
    and "thread s' m (before c @ x # after c)"
    and "key s' = (key s)(QItem x := k)"
    and "qcount s' = (qcount s)(m := qcount s m + 1)"
    and "others m (insert x (set (before c @ after c))) s s'"
proof -
  let ?f = "fresh_node m k (QItem x) s"
  let ?a = "set_at m c (QItem x) ?f"
  let ?q = "first_of m (after c)"
  let ?i = "cl_primitive_insert ?q (QItem x) ?a"
  have eq: "s' = set_up (QItem x) (par m c) (?i\<lparr>qcount := (qcount ?i)(m := qcount ?i m + 1)\<rparr>)"
    unfolding s'_def link_node_eq [OF t a] Let_def by (rule refl)
  have d: "distinct (before c @ after c)" using h by (simp add: heap_plug)
  have "heap s' m (plug c (Nd Lf x CL_MAP_RED Lf)) =
      heap (set_up (QItem x) (par m c) ?a) m (plug c (Nd Lf x CL_MAP_RED Lf))"
    unfolding eq by (rule heap_congr) simp_all
  with link_heap [OF h x] show "heap s' m (plug c (Nd Lf x CL_MAP_RED Lf))" by simp
  have "thread ?a m (before c @ after c)"
    using t unfolding thread_def by (subst seg_cong [of _ _ _ s]) simp_all
  then have "thread ?i m (before c @ x # after c)"
    using d x by (intro thread_insert) auto
  then show "thread s' m (before c @ x # after c)"
    unfolding eq thread_def by (subst seg_cong [of _ _ _ ?i]) simp_all
  show "key s' = (key s)(QItem x := k)" "qcount s' = (qcount s)(m := qcount s m + 1)"
    unfolding eq by simp_all
  have xq: "QItem x \<noteq> ?q" using x first_of_cases [of m "after c"] by auto
  have last: "p_prev s ?q = last (QNil m # map QItem (before c))"
  proof -
    have "seg s (QNil m) (map QItem (before c)) ?q"
      using t by (cases "after c") (auto simp: thread_def seg_append)
    then show ?thesis by (rule seg_last)
  qed
  show "others m (insert x (set (before c @ after c))) s s'"
    unfolding others_def
  proof (intro conjI allI impI)
    fix p assume p: "p \<noteq> QRoot m" "p \<noteq> QNil m" "\<not> pin p (insert x (set (before c @ after c)))"
    have "p \<noteq> par m c" using p(1,3) by (rule par_not)
    moreover have "p \<noteq> ?q" using p first_of_cases [of m "after c"] by auto
    moreover have "p \<noteq> last (QNil m # map QItem (before c))"
      using p by (cases "before c" rule: rev_cases) auto
    moreover have "p \<noteq> QItem x" using p by auto
    ultimately show "same_item s s' p"
      unfolding eq by (simp add: same_item_def same_node_def prim_links(1,2) [OF xq] last)
  qed (simp_all add: eq)
qed


section \<open>Correctness of the insertion\<close>

lemma ascending_insert:
  assumes c: "key_order (cmp_of s m)" and asc: "ascending s m (A @ B)"
    and sp: "splits (\<lambda>p. cmp_of s m (key s p) k) A B" and x: "x \<notin> set (A @ B)"
    and s': "key s' = (key s)(QItem x := k)" "cmp_of s' m = cmp_of s m"
  shows "ascending s' m (A @ x # B)"
proof -
  have "ascending s' m (A @ B)"
    using asc x s' by (subst ascending_cong [of _ _ s]) auto
  moreover have "cmp_of s m (key s (QItem y)) k < 0" if "y \<in> set A" for y
    using sp that by (simp add: splits_def)
  moreover have "cmp_of s m k (key s (QItem y)) < 0" if "y \<in> set B" for y
    using sp that key_order.flip [OF c] by (simp add: splits_def)
  ultimately show ?thesis
    using x s' by (auto simp: ascending_def sorted_wrt_append)
qed

text \<open>An item with an equal key is returned and nothing changes; otherwise the new item takes its
  place in the order.\<close>

lemma insert_qmap_present:
  assumes q: "qmap s m xs" and c: "key_order (cmp_of s m)"
    and y: "y \<in> set xs" "cmp_of s m (key s (QItem y)) k = 0"
  shows "cl_qmap_insert m k p s = Some (QItem y, s)"
proof -
  obtain T where T: "inorder T = xs" "heap s m T" "ascending s m xs" using q by (auto elim: qmapE)
  let ?f = "\<lambda>q. cmp_of s m (key s q) k"
  note cut = cuts_ascending [OF c T(3), of k]
  have r: "cl_map_root m s = rp m T" "tree s m (par m []) T" using heap_root [OF T(2)] by auto
  have "\<not> splits ?f (before k') (after k')" if "plug k' Lf = plug [] T" for k'
  proof
    assume "splits ?f (before k') (after k')"
    moreover have "set xs = set (before k') \<union> set (after k')"
      using that T(1) inorder_plug [of k' Lf] by simp
    ultimately show False using y by (auto simp: splits_def)
  qed
  with ins_find_tree [OF r(2), of ?f 0] cut T(1)
  obtain x where x: "x \<in> set xs" "?f (QItem x) = 0"
    "ins_find_loop m ?f (QRoot m) (rp m T) 0 s = Some (Inl (QItem x))"
    by (auto simp: at_place_def splits_def)
  have "x = y"
  proof -
    from x(1) obtain A B where s: "xs = A @ x # B" by (meson split_list)
    have "found m ?f xs = QItem x" using found_mid(1) [of ?f A x B] cut x(2) s by simp
    moreover from y(1) obtain A B where s: "xs = A @ y # B" by (meson split_list)
    have "found m ?f xs = QItem y" using found_mid(1) [of ?f A y B] cut y(2) s by simp
    ultimately show ?thesis by simp
  qed
  with x(3) r(1) show ?thesis by (simp add: cl_qmap_insert_eq)
qed

lemma insert_qmap_absent:
  assumes q: "qmap s m xs" and c: "key_order (cmp_of s m)" and x: "x \<notin> set xs"
    and absent: "\<And>y. y \<in> set xs \<Longrightarrow> cmp_of s m (key s (QItem y)) k \<noteq> 0"
  shows "\<exists>s' A B. cl_qmap_insert m k (QItem x) s = Some (QItem x, s') \<and> xs = A @ B \<and>
    splits (\<lambda>p. cmp_of s m (key s p) k) A B \<and> qmap s' m (A @ x # B) \<and>
    key s' = (key s)(QItem x := k) \<and> others m (insert x (set xs)) s s'"
proof -
  obtain T where T: "inorder T = xs" "heap s m T" "ascending s m xs" "rb_tree T" "thread s m xs"
    "qcount s m = of_nat (length xs)"
    using q by (auto elim: qmapE)
  let ?f = "\<lambda>q. cmp_of s m (key s q) k"
  have r: "cl_map_root m s = rp m T" "tree s m (par m []) T" using heap_root [OF T(2)] by auto
  obtain k' res' where k': "plug k' Lf = T" "at_place k' res'" "splits ?f (before k') (after k')"
    "ins_find_loop m ?f (QRoot m) (rp m T) 0 s = Some (Inr (par m k', res'))"
    using ins_find_tree [OF r(2), of ?f 0] cuts_ascending [OF c T(3), of k] T(1) absent
    by (auto simp: at_place_def splits_def)
  let ?s = "link_node m k (QItem x) (par m k') res' s"
  have ab: "before k' @ after k' = xs" using k'(1) T(1) inorder_plug [of k' Lf] by simp
  note l = link_node_correct [of s m k' res' x k, unfolded ab, OF T(2) [folded k'(1)] T(5) k'(2) x]
  obtain n where n: "crb k' n" "n = 0" using rb_tree_plugD [of k' Lf] T(4) k'(1) by auto
  obtain s6 where s6: "cl_map_ins_bal m (QItem x) ?s = Some s6"
    "heap s6 m (ins_fix k' (Nd Lf x CL_MAP_RED Lf))"
    "keep (own m (plug k' (Nd Lf x CL_MAP_RED Lf))) ?s s6"
    using ins_bal_correct [OF l(1) n(1)] by (auto simp: balances_def)
  define T' where "T' = ins_fix k' (Nd Lf x CL_MAP_RED Lf)"
  have io: "inorder T' = before k' @ x # after k'" by (simp add: T'_def inorder_ins_fix)
  then obtain tl y tc tr where T': "T' = Nd tl y tc tr" by (cases T') auto
  let ?s' = "set_color (QItem y) CL_MAP_BLACK s6"
  have root: "cl_map_root m s6 = QItem y" using heap_root [OF s6(2)] T' by (simp flip: T'_def)
  have h: "heap ?s' m (blacken T')"
    using heap_color [of s6 m "[]" tl y tc tr] s6(2) T' by (simp flip: T'_def)
  have rb: "rb_tree (blacken T')"
    using rb_ins_fix [OF n(1), of "Nd Lf x CL_MAP_RED Lf"] n(2) by (simp add: T'_def)
  have k: "keep (own m T') ?s ?s'"
  proof (rule keep_set_step)
    show "keep (own m T') ?s s6"
      using s6(3) io own_cong [of T' "plug k' (Nd Lf x CL_MAP_RED Lf)" m] by (simp add: inorder_plug)
    show "QItem y \<in> own m T'" using T' by (simp add: own_def)
  qed
  have kf: "key ?s' = key ?s" "p_next ?s' = p_next ?s" "p_prev ?s' = p_prev ?s"
    "qcount ?s' = qcount ?s" "key_compare ?s' = key_compare ?s"
    using k unfolding keep_def by blast+
  have o: "others m (insert x (set xs)) s ?s'"
    by (rule others_trans [OF l(5) keep_others [OF k]]) (use io ab in auto)
  have "ascending ?s' m (before k' @ x # after k')"
    using ascending_insert [OF c _ k'(3), of x ?s'] T(3) x l(3) kf cmp_of_others [OF o] ab by simp
  moreover have "thread ?s' m (before k' @ x # after k')"
    using l(2) kf unfolding thread_def by (subst seg_cong [of _ _ _ ?s]) simp_all
  moreover have "qcount ?s' m = of_nat (length (before k' @ x # after k'))"
    using l(4) kf(4) T(6) ab by auto
  ultimately have "qmap ?s' m (before k' @ x # after k')"
    using h rb io by (intro qmapI [of _ _ "blacken T'"]) (simp_all add: qmap_tree_def)
  then show ?thesis
    using ab k' s6(1) root r(1) l(3) kf(1) o by (auto simp: cl_qmap_insert_eq)
qed


end
