(* ===== verification/QuickMapRemove.thy ===== *)
theory QuickMapRemove
  imports QuickMapInsert
begin

text \<open>
  Removal from the quick map: splicing out a node with at most one child, rebalancing, and
  putting the spliced-out successor into the place of an item with two children.
\<close>

section \<open>Splicing out a node\<close>

definition only_child :: "rb \<Rightarrow> rb \<Rightarrow> rb" where
  "only_child l r = (if l \<noteq> Lf then l else r)"

definition splice :: "nat \<Rightarrow> qptr \<Rightarrow> qptr \<Rightarrow> qstore \<Rightarrow> qstore" where
  "splice m d child s = set_parent_ptr d child (set_up child (p_up s d) s)"

definition unlink :: "nat \<Rightarrow> qptr \<Rightarrow> qstore \<Rightarrow> qstore option" where
  "unlink m d s =
    (let child = (if p_left s d \<noteq> QNil m then p_left s d else p_right s d);
         s4 = splice m d child s
     in if color s4 d \<noteq> CL_MAP_RED then cl_map_del_bal m child s4 else Some s4)"

lemma cl_qmap_remove_item_eq:
  "cl_qmap_remove_item m (QItem x) s =
    (let d = (if p_right s (QItem x) = QNil m \<or> p_left s (QItem x) = QNil m then QItem x
              else p_next s (QItem x));
         s1 = cl_primitive_remove (QItem x) s;
         s2 = s1\<lparr>qcount := (qcount s1)(m := qcount s1 m - 1)\<rparr>
     in (case unlink m d s2 of None \<Rightarrow> None
         | Some s5 \<Rightarrow> Some (if d \<noteq> QItem x then exchange_item (QItem x) d s5 else s5)))"
  unfolding cl_qmap_remove_item_def unlink_def splice_def Let_def cl_qmap_end_def cl_qmap_next_def
  by simp

lemma splice_eq:
  assumes h: "heap s m (plug k (Nd l d c r))" and lf: "l = Lf \<or> r = Lf"
  defines "ch \<equiv> only_child l r"
  shows "splice m (QItem d) (rp m ch) s = set_at m k (rp m ch) (set_up (rp m ch) (par m k) s)"
proof -
  have ch: "rp m ch \<noteq> QItem d" "\<not> pin (rp m ch) (set (before k) \<union> set (after k))"
    using h lf by (cases ch; auto simp: heap_plug ch_def only_child_def split: if_splits)+
  show ?thesis
    unfolding splice_def using h ch
    by (auto simp: heap_plug set_parent_ptr_ctx sib_differs_item)
qed

lemma splice_heap:
  assumes h: "heap s m (plug k (Nd l d c r))" and lf: "l = Lf \<or> r = Lf"
  defines "ch \<equiv> only_child l r"
  defines "s' \<equiv> splice m (QItem d) (rp m ch) s"
  shows "foc s' m k ch" "color s' (QItem d) = c"
    "keep (insert (QNil m) (own m (plug k (Nd l d c r)))) s s'"
proof -
  note eq = splice_eq [OF h lf, folded ch_def, folded s'_def]
  have ch: "rp m ch \<noteq> QItem d" "\<not> pin (rp m ch) (set (before k) \<union> set (after k))"
    using h lf by (cases ch; auto simp: heap_plug ch_def only_child_def split: if_splits)+
  let ?s = "set_up (rp m ch) (par m k) s"
  have c: "ctx ?s m k (QItem d)" using h ch(2) by (simp add: heap_plug)
  have cd: "ctx s' m k (rp m ch)"
    unfolding eq using h by (intro ctx_set_at [OF c]) (auto simp: heap_plug)
  have t: "tree ?s m (par m k) ch"
    using h lf by (cases ch) (auto simp: heap_plug ch_def only_child_def split: if_splits)
  have "set (inorder ch) \<inter> (set (before k) \<union> set (after k)) = {}"
    using h by (auto simp: heap_plug ch_def only_child_def)
  with t have "tree s' m (par m k) ch" unfolding eq by simp
  with cd h show "foc s' m k ch"
    by (auto simp: foc_def heap_plug eq ch_def only_child_def)
  show "color s' (QItem d) = c" using h by (simp add: eq heap_plug)
  have "rp m ch \<in> insert (QNil m) (own m (plug k (Nd l d c r)))"
    by (cases ch) (auto simp: own_def inorder_plug ch_def only_child_def split: if_splits)
  then have "keep (insert (QNil m) (own m (plug k (Nd l d c r)))) s ?s" by simp
  with keep_mono [OF keep_set_at] show "keep (insert (QNil m) (own m (plug k (Nd l d c r)))) s s'"
    unfolding eq by (blast intro: keep_trans)
qed

lemma inorder_only_child: "l = Lf \<or> r = Lf \<Longrightarrow> inorder (only_child l r) = inorder l @ inorder r"
  by (auto simp: only_child_def)

lemma unlink_correct:
  assumes h: "heap s m (plug k (Nd l d c r))" and lf: "l = Lf \<or> r = Lf"
    and rb: "rb_tree (plug k (Nd l d c r))"
  shows "\<exists>s' T'. unlink m (QItem d) s = Some s' \<and> heap s' m T' \<and> rb_tree T' \<and>
    inorder T' = before k @ inorder l @ inorder r @ after k \<and>
    keep (insert (QNil m) (own m (plug k (Nd l d c r)))) s s'"
proof -
  let ?ch = "only_child l r"
  let ?s = "splice m (QItem d) (rp m ?ch) s"
  note sp = splice_heap [OF h lf]
  have child: "(if p_left s (QItem d) \<noteq> QNil m then p_left s (QItem d) else p_right s (QItem d)) =
      rp m ?ch"
    using heap_node(2,3) [OF h] by (simp add: only_child_def)
  obtain n where n: "crb k n" "rbt (Nd l d c r) n" "c = CL_MAP_BLACK \<or> top_black k"
    using rb_tree_plugD [OF rb] by auto
  show ?thesis
  proof (cases c)
    case CL_MAP_RED
    with n lf have "l = Lf" "r = Lf" "n = 0" by (cases l; cases r; auto)+
    then have "rb_tree (plug k ?ch)" using n by (intro rb_tree_plug) (auto simp: only_child_def)
    with sp CL_MAP_RED show ?thesis
      unfolding unlink_def Let_def child
      by (intro exI [of _ ?s] exI [of _ "plug k ?ch"])
        (simp add: foc_def inorder_plug inorder_only_child [OF lf])
  next
    case CL_MAP_BLACK
    with n obtain n' where n': "n = Suc n'" "rbt ?ch n'" by (auto simp: only_child_def)
    from n(1) n' have *: "crb k (Suc n')" "short ?ch n'" by (simp_all add: shortI)
    obtain s' where s': "cl_map_del_bal m (rp m ?ch) ?s = Some s'" "heap s' m (del_fix k ?ch)"
      "keep (own m (plug k ?ch)) ?s s'"
      using del_bal_correct [OF sp(1) *] by (auto simp: balances_def)
    have "own m (plug k ?ch) \<subseteq> insert (QNil m) (own m (plug k (Nd l d c r)))"
      using inorder_only_child [OF lf] by (auto simp: own_def inorder_plug)
    from keep_trans [OF sp(3) keep_mono [OF s'(3) this]]
    show ?thesis
      using s' sp(2) rb_del_fix [OF *] inorder_del_fix [OF *] CL_MAP_BLACK
      unfolding unlink_def Let_def child
      by (intro exI [of _ s'] exI [of _ "del_fix k ?ch"]) (simp add: inorder_only_child [OF lf])
  qed
qed

section \<open>Putting the successor into the place of the item\<close>

lemma exchange_eq:
  assumes h: "heap s m (plug k (Nd l x c r))" and d: "d \<notin> set (inorder (plug k (Nd l x c r)))"
  shows "exchange_item (QItem x) (QItem d) s =
    set_color (QItem d) c (set_up (rp m l) (QItem d) (set_up (rp m r) (QItem d)
      (set_at m k (QItem d)
        (set_right (QItem d) (rp m r) (set_left (QItem d) (rp m l) (set_up (QItem d) (par m k) s))))))"
proof -
  let ?s3 = "set_right (QItem d) (rp m r) (set_left (QItem d) (rp m l) (set_up (QItem d) (par m k) s))"
  have dx: "QItem d \<noteq> QItem x" using d by (simp add: inorder_plug)
  have "ctx ?s3 m k (QItem x)" using h d by (simp add: heap_plug inorder_plug)
  then have p: "set_parent_ptr (QItem x) (QItem d) ?s3 = set_at m k (QItem d) ?s3"
    using h dx by (intro set_parent_ptr_ctx sib_differs_item) (auto simp: heap_plug)
  have px: "QItem x \<noteq> par m k" using h par_in [of m k x] by (auto simp: heap_plug)
  show ?thesis
    using heap_node [OF h] dx px p by (simp add: exchange_item_def Let_def)
qed

lemma exchange_heap:
  assumes h: "heap s m (plug k (Nd l x c r))" and d: "d \<notin> set (inorder (plug k (Nd l x c r)))"
  shows "heap (exchange_item (QItem x) (QItem d) s) m (plug k (Nd l d c r))"
    and "keep (insert (QItem d) (insert (QNil m) (own m (plug k (Nd l x c r))))) s
      (exchange_item (QItem x) (QItem d) s)"
proof -
  let ?s3 = "set_right (QItem d) (rp m r) (set_left (QItem d) (rp m l) (set_up (QItem d) (par m k) s))"
  let ?s4 = "set_at m k (QItem d) ?s3"
  have c3: "ctx ?s3 m k (QItem x)" using h d by (simp add: heap_plug inorder_plug)
  have c4: "ctx ?s4 m k (QItem d)" using h by (intro ctx_set_at [OF c3]) (auto simp: heap_plug)
  have pd: "QItem d \<noteq> par m k" using d par_in [of m k d] by (auto simp: inorder_plug)
  have t4: "tree ?s4 m u t = tree s m u t" if "set (inorder t) \<subseteq> set (inorder l) \<union> set (inorder r)" for u t
  proof -
    have "d \<notin> set (inorder t)" "set (inorder t) \<inter> (set (before k) \<union> set (after k)) = {}"
      using that h d by (auto simp: heap_plug inorder_plug)
    then show ?thesis by simp
  qed
  have f4: "p_left ?s4 (QItem y) = p_left s (QItem y)" "p_right ?s4 (QItem y) = p_right s (QItem y)"
    if "y \<in> set (inorder l) \<union> set (inorder r)" for y
  proof -
    have "QItem y \<noteq> par m k" "y \<noteq> d"
      using that h d par_in [of m k y] by (auto simp: heap_plug inorder_plug)
    then show "p_left ?s4 (QItem y) = p_left s (QItem y)" "p_right ?s4 (QItem y) = p_right s (QItem y)"
      by simp_all
  qed
  show "heap (exchange_item (QItem x) (QItem d) s) m (plug k (Nd l d c r))"
    unfolding exchange_eq [OF assms] using h d c4 pd t4 f4
    by (cases l; cases r) (auto simp: heap_plug inorder_plug)
  let ?P = "insert (QItem d) (insert (QNil m) (own m (plug k (Nd l x c r))))"
  have "rp m l \<in> ?P" "rp m r \<in> ?P"
    by (cases l; cases r; simp add: own_def inorder_plug)+
  moreover have "keep ?P ?s3 ?s4"
    by (rule keep_mono [OF keep_set_at [of m k "Nd l x c r"]]) auto
  moreover have "keep ?P s ?s3" by (intro keep_set_step) simp_all
  ultimately show "keep ?P s (exchange_item (QItem x) (QItem d) s)"
    unfolding exchange_eq [OF assms]
    by (intro keep_set_step) (simp_all add: keep_trans [of ?P s ?s3 ?s4])
qed

lemma rb_tree_rename: "rb_tree (plug k (Nd l x c r)) \<Longrightarrow> rb_tree (plug k (Nd l d c r))"
proof -
  assume "rb_tree (plug k (Nd l x c r))"
  then obtain n where n: "crb k n" "rbt (Nd l x c r) n" "c = CL_MAP_BLACK \<or> top_black k"
    using rb_tree_plugD by fastforce
  from n(2) have "rbt (Nd l d c r) n" by (cases c) simp_all
  with n show ?thesis by (intro rb_tree_plug) auto
qed

section \<open>Correctness of the removal\<close>

text \<open>The leftmost node of a right subtree.\<close>

lemma leftmost:
  "t \<noteq> Lf \<Longrightarrow> \<exists>k' d c r. plug k t = plug k' (Nd Lf d c r) \<and> before k' = before k \<and>
     inorder r @ after k' = tl (inorder t @ after k) \<and> d = hd (inorder t)"
proof (induction t arbitrary: k)
  case (Nd l x c r)
  show ?case
  proof (cases "l = Lf")
    case True
    then show ?thesis by (intro exI [of _ k]) auto
  next
    case False
    from Nd.IH(1) [OF this, of "FL x c r # k"] obtain k' d c' r' where
      "plug (FL x c r # k) l = plug k' (Nd Lf d c' r')" "before k' = before (FL x c r # k)"
      "inorder r' @ after k' = tl (inorder l @ after (FL x c r # k))" "d = hd (inorder l)" by blast
    moreover have "inorder l \<noteq> []" using False by (cases l) auto
    ultimately show ?thesis by (intro exI [of _ k'] exI [of _ d] exI [of _ c'] exI [of _ r']) auto
  qed
qed simp

text \<open>The tree after a removal, for both kinds of item; \<open>s\<close> is the store after the item left the
  list, \<open>s0\<close> the one before.\<close>

lemma remove_tree:
  assumes h: "heap s m T" and rb: "rb_tree T" and T: "inorder T = A @ x # B"
    and d: "d = (if p_right s (QItem x) = QNil m \<or> p_left s (QItem x) = QNil m then QItem x
              else first_of m B)"
  shows "\<exists>s5 T'. unlink m d s = Some s5 \<and>
    heap (if d \<noteq> QItem x then exchange_item (QItem x) d s5 else s5) m T' \<and> rb_tree T' \<and>
    inorder T' = A @ B \<and>
    keep (insert (QNil m) (own m T)) s (if d \<noteq> QItem x then exchange_item (QItem x) d s5 else s5)"
proof -
  have dist: "distinct (A @ x # B)" using h T by (simp add: heap_def)
  obtain k l c r where F: "T = plug k (Nd l x c r)" using T by (auto intro: focus [of x T])
  have AB: "A = before k @ inorder l" "B = inorder r @ after k"
  proof -
    have eq: "A @ x # B = (before k @ inorder l) @ x # inorder r @ after k"
      using T F by (simp add: inorder_plug)
    have "x \<notin> set A" "x \<notin> set B" using dist by auto
    from eq [unfolded append_Cons_eq_iff [OF this]]
    show "A = before k @ inorder l" "B = inorder r @ after k" by blast+
  qed
  note n = heap_node [OF h [unfolded F]]
  show ?thesis
  proof (cases "l = Lf \<or> r = Lf")
    case True
    then have "d = QItem x" using d n by auto
    with unlink_correct [OF h [unfolded F] True rb [unfolded F]] AB F show ?thesis by auto
  next
    case False
    then have ne: "l \<noteq> Lf" "r \<noteq> Lf" by auto
    obtain k' y c' r' where L: "plug (FR l x c # k) r = plug k' (Nd Lf y c' r')"
      "before k' = before (FR l x c # k)" "inorder r' @ after k' = tl (inorder r @ after (FR l x c # k))"
      "y = hd (inorder r)" using leftmost [OF ne(2)] by blast
    have FT: "T = plug k' (Nd Lf y c' r')" using F L(1) by simp
    obtain B' where B: "B = y # B'" "inorder r' @ after k' = B'"
      using AB(2) L(3,4) ne(2) by (cases "inorder r") (auto, cases r, auto)
    have dy: "d = QItem y" using d n ne B by simp
    have yx: "y \<noteq> x" using dist B by auto
    obtain s5 T5 where s5: "unlink m (QItem y) s = Some s5" "heap s5 m T5" "rb_tree T5"
      "inorder T5 = A @ x # B'" "keep (insert (QNil m) (own m T)) s s5"
      using unlink_correct [OF h [unfolded FT] _ rb [unfolded FT]] L(2) B(2) AB FT by auto
    obtain k5 l5 c5 r5 where F5: "T5 = plug k5 (Nd l5 x c5 r5)"
      using s5(4) by (auto intro: focus [of x T5])
    have y5: "y \<notin> set (inorder (plug k5 (Nd l5 x c5 r5)))" using s5(4) F5 dist B by auto
    note e = exchange_heap [OF s5(2) [unfolded F5] y5]
    have "inorder (plug k5 (Nd l5 y c5 r5)) = A @ B"
    proof -
      have eq: "A @ x # B' = (before k5 @ inorder l5) @ x # inorder r5 @ after k5"
        using s5(4) F5 by (simp add: inorder_plug)
      have "x \<notin> set A" "x \<notin> set B'" using dist B by auto
      from eq [unfolded append_Cons_eq_iff [OF this]]
      have "before k5 @ inorder l5 = A" "inorder r5 @ after k5 = B'" by simp_all
      then show ?thesis using B by (simp add: inorder_plug)
    qed
    moreover have "keep (insert (QNil m) (own m T)) s5 (exchange_item (QItem x) (QItem y) s5)"
      by (rule keep_mono [OF e(2)]) (use s5(4) F5 T B in \<open>auto simp: own_def\<close>)
    ultimately show ?thesis
      using s5(1,5) e(1) rb_tree_rename [OF s5(3) [unfolded F5]] dy yx
      by (intro exI [of _ s5] exI [of _ "plug k5 (Nd l5 y c5 r5)"]) (auto intro: keep_trans)
  qed
qed

lemma remove_qmap:
  assumes q: "qmap s m (A @ x # B)"
  shows "\<exists>s'. cl_qmap_remove_item m (QItem x) s = Some s' \<and> qmap s' m (A @ B) \<and>
    key s' = key s \<and> others m (set (A @ x # B)) s s'"
proof -
  obtain T where T: "inorder T = A @ x # B" "heap s m T" "ascending s m (A @ x # B)" "rb_tree T"
    "thread s m (A @ x # B)" "qcount s m = of_nat (length (A @ x # B))" "distinct (A @ x # B)"
    using q by (auto elim: qmapE)
  let ?s1 = "cl_primitive_remove (QItem x) s"
  let ?s2 = "?s1\<lparr>qcount := (qcount ?s1)(m := qcount ?s1 m - 1)\<rparr>"
  let ?d = "if p_right s (QItem x) = QNil m \<or> p_left s (QItem x) = QNil m then QItem x
    else p_next s (QItem x)"
  have h2: "heap ?s2 m T" using T(2) by (subst heap_congr) simp_all
  note nx = thread_next [OF T(5)] and pv = thread_prev [OF T(5)]
  obtain s5 T' where s5: "unlink m ?d ?s2 = Some s5"
    "heap (if ?d \<noteq> QItem x then exchange_item (QItem x) ?d s5 else s5) m T'" "rb_tree T'"
    "inorder T' = A @ B"
    "keep (insert (QNil m) (own m T)) ?s2 (if ?d \<noteq> QItem x then exchange_item (QItem x) ?d s5 else s5)"
  proof -
    have "?d = (if p_right ?s2 (QItem x) = QNil m \<or> p_left ?s2 (QItem x) = QNil m then QItem x
        else first_of m B)" by (simp add: nx)
    from remove_tree [OF h2 T(4,1) this] that show ?thesis by blast
  qed
  define s' where "s' = (if ?d \<noteq> QItem x then exchange_item (QItem x) ?d s5 else s5)"
  have res: "cl_qmap_remove_item m (QItem x) s = Some s'"
    unfolding cl_qmap_remove_item_eq Let_def s5(1) s'_def by simp
  have kf: "key s' = key ?s2" "p_next s' = p_next ?s2" "p_prev s' = p_prev ?s2"
    "qcount s' = qcount ?s2" "key_compare s' = key_compare ?s2"
    using s5(5) unfolding keep_def s'_def by blast+
  have ne: "p_next s (QItem x) \<noteq> QItem x" "p_prev s (QItem x) \<noteq> QItem x"
    using nx pv T(7) by (cases B; cases A rule: rev_cases; auto)+
  have o: "others m (set (A @ x # B)) s s'"
    unfolding others_def
  proof (intro conjI allI impI)
    fix p assume p: "p \<noteq> QRoot m" "p \<noteq> QNil m" "\<not> pin p (set (A @ x # B))"
    then have "p \<notin> insert (QNil m) (own m T)" using T(1) by (auto simp: own_def)
    then have "same_node ?s2 s' p" using s5(5) unfolding keep_def s'_def by blast
    moreover have "p \<noteq> p_next s (QItem x)" using p first_of_cases [of m B] nx by auto
    moreover have "p \<noteq> p_prev s (QItem x)" using p pv by (cases A rule: rev_cases) auto
    ultimately show "same_item s s' p"
      by (simp add: same_item_def same_node_def kf prim_links(3) [OF ne] prim_links(4) [OF ne(1)])
  qed (simp_all add: kf)
  have "thread s' m (A @ B)"
    using thread_remove [OF T(5,7)] kf unfolding thread_def
    by (subst seg_cong [of _ _ _ ?s1]) simp_all
  moreover have "ascending s' m (A @ B)"
    using T(3) kf cmp_of_others [OF o, of m]
    by (subst ascending_cong [of _ _ s]) (auto simp: ascending_def sorted_wrt_append)
  moreover have "qcount s' m = of_nat (length (A @ B))" using kf T(6) by simp
  ultimately have "qmap s' m (A @ B)"
    using s5 by (intro qmapI [of _ _ T']) (simp_all add: qmap_tree_def s'_def)
  with res kf o show ?thesis by auto
qed


end
