(* ===== verification/QuickMapSpec.thy ===== *)
theory QuickMapSpec
  imports QuickMapRemove
begin

text \<open>
  What the quick map promises: lookups, insertion and removal as a finite map, iteration in key
  order, logarithmic depth, merging and differencing of maps.
\<close>

section \<open>Creation and iteration\<close>

lemma init_qmap: "qmap (cl_qmap_init m cmp s) m []"
  by (intro qmapI [of _ _ Lf])
    (simp_all add: qmap_tree_def heap_def cl_qmap_init_def cl_qmap_remove_all_def rb_tree_def
      thread_def ascending_def Let_def set_left_def set_right_def set_up_def set_color_def
      set_next_def set_prev_def)

lemma remove_all_qmap:
  assumes "color s (QNil m) = CL_MAP_BLACK" "color s (QRoot m) = CL_MAP_BLACK"
  shows "qmap (cl_qmap_remove_all m s) m []"
  using assms
  by (intro qmapI [of _ _ Lf])
    (simp_all add: qmap_tree_def heap_def cl_qmap_remove_all_def rb_tree_def
      thread_def ascending_def Let_def set_left_def set_next_def set_prev_def)

lemma apply_loop_thread:
  "thread s m (A @ B) \<Longrightarrow> apply_loop m (first_of m B) s = Some (map QItem B)"
proof (induction B arbitrary: A)
  case Nil
  then show ?case by (simp add: apply_loop.simps)
next
  case (Cons x B)
  have "p_next s (QItem x) = first_of m B" using thread_next [of s m A x B] Cons.prems by simp
  moreover have "apply_loop m (first_of m B) s = Some (map QItem B)"
    using Cons.IH [of "A @ [x]"] Cons.prems by simp
  ultimately show ?case by (simp add: apply_loop.simps [of m "QItem x"] cl_qmap_next_def)
qed

lemma apply_func_qmap: "qmap s m xs \<Longrightarrow> cl_qmap_apply_func m s = Some (map QItem xs)"
proof -
  assume "qmap s m xs"
  then have "thread s m xs" by (auto elim: qmapE)
  with apply_loop_thread [of s m "[]" xs] thread_head [of s m xs] show ?thesis
    by (simp add: cl_qmap_apply_func_def cl_qmap_head_def)
qed

section \<open>Depth\<close>

lemma par_chain:
  "ctx s m k p \<Longrightarrow> p_up s q = par m k \<Longrightarrow> (p_up s ^^ (length k + 1)) q = QRoot m"
proof (induction k arbitrary: p q)
  case (Cons f k)
  then obtain x where x: "par m (f # k) = QItem x" "ctx s m k (QItem x)" "p_up s (QItem x) = par m k"
    by (cases f) auto
  from Cons.IH [OF x(2,3)] have "(p_up s ^^ (length k + 1)) (QItem x) = QRoot m" .
  then have "(p_up s ^^ (length k + 1)) (p_up s q) = QRoot m" using Cons.prems(2) x(1) by simp
  then show ?case by (simp add: funpow_swap1)
qed simp

lemma qmap_depth:
  assumes q: "qmap s m xs" and x: "x \<in> set xs"
  shows "\<exists>h. (p_up s ^^ h) (QItem x) = QRoot m \<and> 2 ^ h \<le> (length xs + 1)\<^sup>2"
proof -
  obtain T where T: "inorder T = xs" "heap s m T" "rb_tree T" using q by (auto elim: qmapE)
  obtain k l c r where F: "T = plug k (Nd l x c r)" using x T(1) by (auto intro: focus [of x T])
  have "(p_up s ^^ (length k + 1)) (QItem x) = QRoot m"
    using T(2) F by (intro par_chain [of _ _ _ "QItem x"]) (simp_all add: heap_plug)
  with rb_tree_depth [of k l x c r] T F show ?thesis by blast
qed

section \<open>The map as a finite function\<close>

text \<open>With the default comparison the keys are distinct, and the map is a function from keys to
  items.\<close>

definition entries :: "qstore \<Rightarrow> nat list \<Rightarrow> (u64 \<times> nat) list" where
  "entries s xs = map (\<lambda>x. (key s (QItem x), x)) xs"

lemma entries_append [simp]:
  "entries s (A @ B) = entries s A @ entries s B" "entries s (x # B) = (key s (QItem x), x) # entries s B"
  "entries s [] = []"
  by (simp_all add: entries_def)

lemma plain_zero: "plain_compare a b = 0 \<longleftrightarrow> a = b"
  by (simp add: plain_compare_def)

lemma plain_less: "plain_compare a b < 0 \<longleftrightarrow> a < b" "0 < plain_compare a b \<longleftrightarrow> b < a"
  by (auto simp: plain_compare_def)

lemma ascending_plain:
  "key_compare s m = None \<Longrightarrow> ascending s m xs \<longleftrightarrow> sorted_wrt (\<lambda>x y. key s (QItem x) < key s (QItem y)) xs"
  by (simp add: ascending_def cmp_of_def plain_less)

lemma distinct_keys:
  "key_compare s m = None \<Longrightarrow> ascending s m xs \<Longrightarrow> distinct (map fst (entries s xs))"
  unfolding ascending_plain entries_def
  by (induction xs) (auto simp: less_le)

lemma find_entries:
  "found m (\<lambda>p. plain_compare (key s p) k) xs =
     (case map_of (entries s xs) k of None \<Rightarrow> QNil m | Some x \<Rightarrow> QItem x)"
  by (induction xs) (auto simp: found_def entries_def plain_zero split: option.splits)

lemma map_of_entries_insert:
  assumes "distinct (map fst (entries s (A @ B)))" "x \<notin> set (A @ B)"
    "k \<notin> fst ` set (entries s (A @ B))" "key s' = (key s)(QItem x := k)"
  shows "map_of (entries s' (A @ x # B)) = (map_of (entries s (A @ B)))(k \<mapsto> x)"
proof -
  have e: "entries s' A = entries s A" "entries s' B = entries s B" "key s' (QItem x) = k"
    using assms(2,4) by (auto simp: entries_def)
  have "map_of (entries s A) k = None"
    using assms(3) by (auto simp: entries_append map_of_eq_None_iff)
  then show ?thesis
    by (auto simp: entries_append e map_add_def fun_eq_iff split: option.splits)
qed

lemma map_of_entries_remove:
  assumes "distinct (map fst (entries s (A @ x # B)))"
  shows "map_of (entries s (A @ B)) = (map_of (entries s (A @ x # B)))(key s (QItem x) := None)"
proof -
  have "map_of (entries s A) (key s (QItem x)) = None" "map_of (entries s B) (key s (QItem x)) = None"
    using assms by (auto simp: entries_append map_of_eq_None_iff image_iff)
  then show ?thesis
    by (auto simp: entries_append map_add_def fun_eq_iff split: option.splits)
qed

section \<open>Scripts of operations\<close>

text \<open>A client that inserts only items that are not in the map.\<close>

datatype qmap_op = QInsert u64 nat | QRemove u64 | QGet u64 | QCount | QList

datatype qmap_ret = RItem "nat option" | RCount u64 | RList "nat list" | RInUse

fun item_of :: "qptr \<Rightarrow> nat option" where
  "item_of (QItem x) = Some x"
| "item_of _ = None"

fun qmap_step :: "nat \<Rightarrow> qmap_op \<Rightarrow> qstore \<Rightarrow> unit + qmap_ret \<times> qstore" where
  "qmap_step m (QInsert k x) s =
    (case cl_qmap_apply_func m s of None \<Rightarrow> Inl ()
     | Some ps \<Rightarrow>
        if QItem x \<in> set ps then Inr (RInUse, s)
        else (case cl_qmap_insert m k (QItem x) s of None \<Rightarrow> Inl ()
              | Some (p, s1) \<Rightarrow> Inr (RItem (item_of p), s1)))"
| "qmap_step m (QRemove k) s =
    (case cl_qmap_remove m k s of None \<Rightarrow> Inl () | Some (p, s1) \<Rightarrow> Inr (RItem (item_of p), s1))"
| "qmap_step m (QGet k) s =
    (case cl_qmap_get m k s of None \<Rightarrow> Inl () | Some p \<Rightarrow> Inr (RItem (item_of p), s))"
| "qmap_step m QCount s = Inr (RCount (cl_qmap_count m s), s)"
| "qmap_step m QList s =
    (case cl_qmap_apply_func m s of None \<Rightarrow> Inl ()
     | Some ps \<Rightarrow> Inr (RList (List.map_filter item_of ps), s))"

fun qmap_spec :: "qmap_op \<Rightarrow> (u64 \<rightharpoonup> nat) \<Rightarrow> qmap_ret \<times> (u64 \<rightharpoonup> nat)" where
  "qmap_spec (QInsert k x) a =
    (if x \<in> ran a then (RInUse, a)
     else case a k of Some y \<Rightarrow> (RItem (Some y), a) | None \<Rightarrow> (RItem (Some x), a(k \<mapsto> x)))"
| "qmap_spec (QRemove k) a = (RItem (a k), a(k := None))"
| "qmap_spec (QGet k) a = (RItem (a k), a)"
| "qmap_spec QCount a = (RCount (of_nat (card (dom a))), a)"
| "qmap_spec QList a = (RList (map (the \<circ> a) (sorted_list_of_set (dom a))), a)"

definition qmap_rel :: "nat \<Rightarrow> qstore \<Rightarrow> (u64 \<rightharpoonup> nat) \<Rightarrow> bool" where
  "qmap_rel m s a \<longleftrightarrow> (\<exists>xs. qmap s m xs \<and> key_compare s m = None \<and> a = map_of (entries s xs))"

lemma plain_cmp_of: "key_compare s m = None \<Longrightarrow> cmp_of s m = plain_compare"
  by (simp add: cmp_of_def)

lemma plain_key_order: "key_compare s m = None \<Longrightarrow> key_order (cmp_of s m)"
  by (simp add: plain_cmp_of plain.key_order_axioms)

lemma qmap_distinct_keys:
  "qmap s m xs \<Longrightarrow> key_compare s m = None \<Longrightarrow> distinct (map fst (entries s xs))"
  by (auto elim!: qmapE intro: distinct_keys)

lemma fst_entries: "fst ` set (entries s xs) = (\<lambda>x. key s (QItem x)) ` set xs"
  by (force simp: entries_def)

lemma ran_entries: "distinct (map fst (entries s xs)) \<Longrightarrow> ran (map_of (entries s xs)) = set xs"
  by (simp add: ran_distinct) (force simp: entries_def)

lemma get_plain:
  assumes "qmap s m xs" "key_compare s m = None"
  shows "cl_qmap_get m k s = Some (case map_of (entries s xs) k of None \<Rightarrow> QNil m | Some x \<Rightarrow> QItem x)"
  using get_qmap [OF assms(1) plain_key_order [OF assms(2)], of k] assms(2)
  by (simp add: plain_cmp_of find_entries)

lemma insert_plain:
  assumes q: "qmap s m xs" and c: "key_compare s m = None" and x: "x \<notin> set xs"
  shows "map_of (entries s xs) k = Some y \<Longrightarrow> cl_qmap_insert m k (QItem x) s = Some (QItem y, s)"
    and "map_of (entries s xs) k = None \<Longrightarrow>
      \<exists>s' A B. cl_qmap_insert m k (QItem x) s = Some (QItem x, s') \<and> xs = A @ B \<and>
        splits (\<lambda>p. plain_compare (key s p) k) A B \<and> qmap s' m (A @ x # B) \<and>
        key s' = (key s)(QItem x := k) \<and> others m (insert x (set xs)) s s'"
proof -
  assume "map_of (entries s xs) k = Some y"
  then have "y \<in> set xs" "key s (QItem y) = k" by (auto simp: entries_def dest!: map_of_SomeD)
  then show "cl_qmap_insert m k (QItem x) s = Some (QItem y, s)"
    using insert_qmap_present [OF q plain_key_order [OF c]] c by (simp add: plain_cmp_of plain_zero)
next
  assume "map_of (entries s xs) k = None"
  then have "key s (QItem y) \<noteq> k" if "y \<in> set xs" for y
    using that by (auto simp: map_of_eq_None_iff fst_entries)
  then show "\<exists>s' A B. cl_qmap_insert m k (QItem x) s = Some (QItem x, s') \<and> xs = A @ B \<and>
      splits (\<lambda>p. plain_compare (key s p) k) A B \<and> qmap s' m (A @ x # B) \<and>
      key s' = (key s)(QItem x := k) \<and> others m (insert x (set xs)) s s'"
    using insert_qmap_absent [OF q plain_key_order [OF c] x, of k] c
    by (simp add: plain_cmp_of plain_zero)
qed

lemma others_compare: "others m X s s' \<Longrightarrow> key_compare s' = key_compare s"
  by (simp add: others_def)

lemma step_insert:
  assumes "qmap s m xs" "key_compare s m = None"
  shows "\<exists>s'. qmap_step m (QInsert k x) s = Inr (fst (qmap_spec (QInsert k x) (map_of (entries s xs))), s')
    \<and> qmap_rel m s' (snd (qmap_spec (QInsert k x) (map_of (entries s xs))))"
proof -
  note d = qmap_distinct_keys [OF assms] and a = apply_func_qmap [OF assms(1)]
  show ?thesis
  proof (cases "x \<in> set xs")
    case True
    with assms d a show ?thesis by (auto simp: ran_entries qmap_rel_def)
  next
    case False
    show ?thesis
    proof (cases "map_of (entries s xs) k")
      case None
      obtain s' A B where i: "cl_qmap_insert m k (QItem x) s = Some (QItem x, s')" "xs = A @ B"
        "qmap s' m (A @ x # B)" "key s' = (key s)(QItem x := k)" "others m (insert x (set xs)) s s'"
        using insert_plain(2) [OF assms False None] by blast
      have "map_of (entries s' (A @ x # B)) = (map_of (entries s xs))(k \<mapsto> x)"
        unfolding i(2) using d False None i(4) unfolding i(2)
        by (intro map_of_entries_insert) (auto simp: map_of_eq_None_iff image_Un)
      with i(3) others_compare [OF i(5)] assms(2)
      have "qmap_rel m s' ((map_of (entries s xs))(k \<mapsto> x))" unfolding qmap_rel_def by metis
      then show ?thesis using a d False None i(1) by (auto simp: ran_entries)
    next
      case (Some y)
      with insert_plain(1) [OF assms False this] a d False assms show ?thesis
        by (auto simp: ran_entries qmap_rel_def)
    qed
  qed
qed


lemma step_remove:
  assumes "qmap s m xs" "key_compare s m = None"
  shows "\<exists>s'. qmap_step m (QRemove k) s = Inr (RItem (map_of (entries s xs) k), s') \<and>
    qmap_rel m s' ((map_of (entries s xs))(k := None))"
proof (cases "map_of (entries s xs) k")
  case None
  then have "cl_qmap_remove m k s = Some (QNil m, s)"
    by (simp add: cl_qmap_remove_def get_plain [OF assms] cl_qmap_remove_item_def cl_qmap_end_def)
  moreover have "qmap_rel m s ((map_of (entries s xs))(k := None))"
    using None assms unfolding qmap_rel_def by (metis fun_upd_triv)
  ultimately show ?thesis using None by simp
next
  case (Some x)
  then have x: "x \<in> set xs" "key s (QItem x) = k" by (auto simp: entries_def dest!: map_of_SomeD)
  then obtain A B where AB: "xs = A @ x # B" by (meson split_list)
  obtain s' where s': "cl_qmap_remove_item m (QItem x) s = Some s'" "qmap s' m (A @ B)"
    "key s' = key s" "others m (set (A @ x # B)) s s'"
    using remove_qmap assms(1) AB by blast
  have "map_of (entries s' (A @ B)) = (map_of (entries s xs))(k := None)"
    using map_of_entries_remove [of s A x B] qmap_distinct_keys [OF assms] AB x(2) s'(3)
    by (simp add: entries_def)
  then have "qmap_rel m s' ((map_of (entries s xs))(k := None))"
    using s'(2) others_compare [OF s'(4)] assms(2) unfolding qmap_rel_def by metis
  with Some s'(1) show ?thesis by (simp add: cl_qmap_remove_def get_plain [OF assms])
qed

lemma sorted_keys:
  "key_compare s m = None \<Longrightarrow> ascending s m xs \<Longrightarrow>
     sorted_list_of_set (fst ` set (entries s xs)) = map fst (entries s xs)"
proof -
  assume "key_compare s m = None" "ascending s m xs"
  then have "sorted_wrt (<) (map fst (entries s xs))"
    using ascending_plain [of s m xs] by (simp add: entries_def sorted_wrt_map)
  then show ?thesis
    using sorted_list_of_set.idem_if_sorted_distinct [of "map fst (entries s xs)"]
    by (simp add: strict_sorted_iff)
qed

lemma list_spec:
  assumes "distinct (map fst es)"
  shows "map (the \<circ> map_of es) (map fst es) = map snd es"
  using assms by (auto simp: map_of_is_SomeI)

lemma map_filter_items: "List.map_filter item_of (map QItem xs) = xs"
  by (induction xs) (simp_all add: map_filter_simps)

lemma qmap_simulates:
  assumes "qmap_rel m s a"
  shows "\<exists>s'. qmap_step m p s = Inr (fst (qmap_spec p a), s') \<and> qmap_rel m s' (snd (qmap_spec p a))"
proof -
  obtain xs where q: "qmap s m xs" "key_compare s m = None" "a = map_of (entries s xs)"
    using assms by (auto simp: qmap_rel_def)
  note d = qmap_distinct_keys [OF q(1,2)]
  show ?thesis
  proof (cases p)
    case (QInsert k x)
    with step_insert [OF q(1,2)] q(3) show ?thesis by simp
  next
    case (QRemove k)
    with step_remove [OF q(1,2)] q(3) show ?thesis by simp
  next
    case (QGet k)
    with get_plain [OF q(1,2), of k] q assms show ?thesis by (auto split: option.split)
  next
    case QCount
    have "card (dom a) = length xs"
      using distinct_card [OF d] by (simp add: q(3) dom_map_of_conv_image_fst) (simp add: entries_def)
    moreover have "qcount s m = of_nat (length xs)" using q(1) by (auto elim: qmapE)
    ultimately show ?thesis using QCount assms by (simp add: cl_qmap_count_def)
  next
    case QList
    have "ascending s m xs" using q(1) by (auto elim: qmapE)
    then have "map (the \<circ> a) (sorted_list_of_set (dom a)) = map snd (entries s xs)"
      using list_spec [OF d] sorted_keys [OF q(2)] by (simp add: q(3) dom_map_of_conv_image_fst)
    moreover have "map snd (entries s xs) = xs" by (simp add: entries_def comp_def)
    ultimately show ?thesis
      using QList assms apply_func_qmap [OF q(1)] by (simp add: map_filter_items)
  qed
qed

interpretation qm: data_refinement "qmap_step m" qmap_spec "qmap_rel m"
  by unfold_locales (rule qmap_simulates)


end
