(* ===== verification/QuickMapMerge.thy ===== *)
theory QuickMapMerge
  imports QuickMapSpec
begin

text \<open>
  Operations on several quick maps in one store: merging a map into another and computing the
  difference of two maps.  Both walk the circular list of a map while moving items out of it.
\<close>

section \<open>Moving an item\<close>

definition same_key :: "qstore \<Rightarrow> nat \<Rightarrow> nat \<Rightarrow> nat \<Rightarrow> bool" where
  "same_key s m x y \<longleftrightarrow> cmp_of s m (key s (QItem y)) (key s (QItem x)) = 0"

lemma splits_unique:
  assumes "splits f A B" "splits f A' B'" "A @ B = A' @ B'"
  shows "A = A' \<and> B = B'"
proof -
  have "filter (\<lambda>x. f (QItem x) < 0) (A @ B) = A" "filter (\<lambda>x. f (QItem x) < 0) (A' @ B') = A'"
    using assms(1,2) by (auto simp: splits_def filter_id_conv filter_empty_conv)
  with assms(3) show ?thesis by simp
qed

lemma key_upd_same: "key s (QItem x) = k \<Longrightarrow> (key s)(QItem x := k) = key s"
  by auto

text \<open>Taking an item out of a map and putting it back.\<close>

lemma ascending_mid:
  assumes "key_order (cmp_of s m)" "ascending s m (A @ x # B)"
  shows "splits (\<lambda>p. cmp_of s m (key s p) (key s (QItem x))) A B"
proof -
  have "\<forall>y \<in> set A. cmp_of s m (key s (QItem y)) (key s (QItem x)) < 0"
    "\<forall>y \<in> set B. cmp_of s m (key s (QItem x)) (key s (QItem y)) < 0"
    using assms(2) by (auto simp: ascending_def sorted_wrt_append)
  then show ?thesis using key_order.flip [OF assms(1)] by (simp add: splits_def)
qed

lemma splits_nonzero: "splits f A B \<Longrightarrow> y \<in> set (A @ B) \<Longrightarrow> f (QItem y) \<noteq> 0"
  by (auto simp: splits_def)

lemma put_back:
  assumes q: "qmap s m (A @ B)" and c: "key_order (cmp_of s m)" and x: "x \<notin> set (A @ B)"
    and sp: "splits (\<lambda>p. cmp_of s m (key s p) (key s (QItem x))) A B"
  shows "\<exists>s'. cl_qmap_insert m (key s (QItem x)) (QItem x) s = Some (QItem x, s') \<and>
    qmap s' m (A @ x # B) \<and> key s' = key s \<and> others m (insert x (set (A @ B))) s s'"
proof -
  obtain s' A' B' where s': "cl_qmap_insert m (key s (QItem x)) (QItem x) s = Some (QItem x, s')"
    "A @ B = A' @ B'" "splits (\<lambda>p. cmp_of s m (key s p) (key s (QItem x))) A' B'"
    "qmap s' m (A' @ x # B')" "key s' = (key s)(QItem x := key s (QItem x))"
    "others m (insert x (set (A @ B))) s s'"
    using insert_qmap_absent [OF q c x splits_nonzero [OF sp]] by blast
  with splits_unique [OF sp s'(3,2)] show ?thesis by auto
qed

section \<open>Merging\<close>

definition taken :: "qstore \<Rightarrow> nat \<Rightarrow> nat list \<Rightarrow> nat \<Rightarrow> bool" where
  "taken s m ds x \<longleftrightarrow> (\<exists>y \<in> set ds. same_key s m x y)"

lemma merge_loop_correct:
  "qmap s src (D @ R) \<Longrightarrow> qmap s dest ds \<Longrightarrow> src \<noteq> dest \<Longrightarrow> set (D @ R) \<inter> set ds = {} \<Longrightarrow>
   cmp_of s src = cmp_of s dest \<Longrightarrow> key_order (cmp_of s dest) \<Longrightarrow>
   \<exists>s' ds'. merge_loop dest src (first_of src R) s = Some s' \<and>
     qmap s' src (D @ filter (taken s dest ds) R) \<and> qmap s' dest ds' \<and>
     set ds' = set ds \<union> set (filter (\<lambda>x. \<not> taken s dest ds x) R) \<and> key s' = key s \<and>
     key_compare s' = key_compare s"
proof (induction R arbitrary: s D ds)
  case Nil
  then show ?case by (auto simp: merge_loop.simps)
next
  case (Cons x R)
  note c = Cons.prems(6) and cs = Cons.prems(5)
  obtain s1 where s1: "cl_qmap_remove_item src (QItem x) s = Some s1" "qmap s1 src (D @ R)"
    "key s1 = key s" "others src (set (D @ x # R)) s s1"
    using remove_qmap [OF Cons.prems(1)] by blast
  have asc: "ascending s src (D @ x # R)" "distinct (D @ x # R)"
    by (rule qmapD [OF Cons.prems(1)])+
  have nx: "cl_qmap_next (QItem x) s = first_of src R"
    using thread_next [OF qmapD(1) [OF Cons.prems(1)]] by (simp add: cl_qmap_next_def)
  have d1: "qmap s1 dest ds"
    using qmap_others [OF Cons.prems(2) s1(4)] Cons.prems(3,4) by auto
  have cm: "cmp_of s1 = cmp_of s" using cmp_of_others [OF s1(4)] by auto
  have xd: "x \<notin> set ds" using Cons.prems(4) by auto
  note loop = merge_loop.simps [of dest src "QItem x" s, unfolded nx Let_def]
  show ?case
  proof (cases "taken s dest ds x")
    case True
    then obtain y where y: "y \<in> set ds" "cmp_of s1 dest (key s1 (QItem y)) (key s1 (QItem x)) = 0"
      by (auto simp: taken_def same_key_def cm s1(3))
    have i: "cl_qmap_insert dest (key s1 (QItem x)) (QItem x) s1 = Some (QItem y, s1)"
      using insert_qmap_present [OF d1 _ y] c cm by simp
    have "splits (\<lambda>p. cmp_of s1 src (key s1 p) (key s1 (QItem x))) D R"
      using ascending_mid [OF _ asc(1)] c cs cm s1(3) by simp
    then obtain s2 where s2: "cl_qmap_insert src (key s1 (QItem x)) (QItem x) s1 = Some (QItem x, s2)"
      "qmap s2 src (D @ x # R)" "key s2 = key s1" "others src (insert x (set (D @ R))) s1 s2"
      using put_back [OF s1(2)] asc(2) c cs cm by auto
    have d2: "qmap s2 dest ds"
      using qmap_others [OF d1 s2(4)] Cons.prems(3,4) by auto
    have cm2: "cmp_of s2 = cmp_of s" using cmp_of_others [OF s2(4)] cm by auto
    have tk: "taken s2 = taken s" using cm2 s1(3) s2(3) by (simp add: taken_def same_key_def fun_eq_iff)
    have yx: "y \<noteq> x" using y xd by auto
    have q2: "qmap s2 src ((D @ [x]) @ R)" using s2(2) by simp
    have "merge_loop dest src (first_of src (x # R)) s = merge_loop dest src (first_of src R) s2"
      using s1(1) i s2(1) yx by (simp add: loop cl_qmap_key_def)
    with Cons.IH [OF q2 d2 Cons.prems(3)] Cons.prems(4) c cs cm2 tk True s1(3) s2(3)
      others_compare [OF s1(4)] others_compare [OF s2(4)]
    show ?thesis by auto
  next
    case False
    then have ab: "cmp_of s1 dest (key s1 (QItem y)) (key s1 (QItem x)) \<noteq> 0" if "y \<in> set ds" for y
      using that by (auto simp: taken_def same_key_def cm s1(3))
    obtain s2 A B where s2: "cl_qmap_insert dest (key s1 (QItem x)) (QItem x) s1 = Some (QItem x, s2)"
      "ds = A @ B" "qmap s2 dest (A @ x # B)" "key s2 = (key s1)(QItem x := key s1 (QItem x))"
      "others dest (insert x (set ds)) s1 s2"
      using insert_qmap_absent [OF d1 _ xd ab] c cm by auto
    have q2: "qmap s2 src (D @ R)"
      using qmap_others [OF s1(2) s2(5)] Cons.prems(3,4) asc(2) by auto
    have cm2: "cmp_of s2 = cmp_of s" using cmp_of_others [OF s2(5)] cm by auto
    have ks: "key s2 = key s" using s2(4) s1(3) by auto
    have same: "taken s2 dest (A @ x # B) z = taken s dest ds z" if "z \<in> set R" for z
    proof -
      have "cmp_of s src (key s (QItem x)) (key s (QItem z)) \<noteq> 0"
        using asc(1) that by (auto simp: ascending_def sorted_wrt_append)
      then show ?thesis by (auto simp: taken_def same_key_def cm2 ks s2(2) cs)
    qed
    have "merge_loop dest src (first_of src (x # R)) s = merge_loop dest src (first_of src R) s2"
      using s1(1) s2(1) by (simp add: loop cl_qmap_key_def)
    moreover have "set (D @ R) \<inter> set (A @ x # B) = {}"
      using Cons.prems(4) asc(2) s2(2) by auto
    moreover have f: "filter (taken s2 dest (A @ x # B)) R = filter (taken s dest ds) R"
      by (rule filter_cong) (simp_all add: same)
    moreover have g: "set (filter (\<lambda>z. \<not> taken s2 dest (A @ x # B) z) R) =
        set (filter (\<lambda>z. \<not> taken s dest ds z) R)"
      using same by auto
    ultimately show ?thesis
      using Cons.IH [OF q2 s2(3) Cons.prems(3), unfolded f g] c cs cm2 ks False s2(2)
        others_compare [OF s1(4)] others_compare [OF s2(5)]
      by auto
  qed
qed

section \<open>Difference\<close>

text \<open>Moving an item into a map that has no item with its key.\<close>

lemma move_plain:
  assumes q: "qmap s src (D @ x # R)" "qmap s dest E" and ne: "src \<noteq> dest"
    and dj: "set (D @ x # R) \<inter> set E = {}" and c: "key_compare s src = None" "key_compare s dest = None"
    and new: "\<And>y. y \<in> set E \<Longrightarrow> key s (QItem y) \<noteq> key s (QItem x)"
  shows "\<exists>s' E'. cl_qmap_delta_move dest src (QItem x) s = Some (first_of src R, s') \<and>
    qmap s' src (D @ R) \<and> qmap s' dest E' \<and> set E' = insert x (set E) \<and> key s' = key s \<and>
    key_compare s' = key_compare s \<and>
    (\<forall>m ys. m \<noteq> src \<longrightarrow> m \<noteq> dest \<longrightarrow> set ys \<inter> (set (D @ x # R) \<union> set E) = {} \<longrightarrow>
       qmap s m ys \<longrightarrow> qmap s' m ys)"
proof -
  obtain s1 where s1: "cl_qmap_remove_item src (QItem x) s = Some s1" "qmap s1 src (D @ R)"
    "key s1 = key s" "others src (set (D @ x # R)) s s1"
    using remove_qmap [OF q(1)] by blast
  have d1: "qmap s1 dest E" using qmap_others [OF q(2) s1(4)] ne dj by auto
  have kc: "key_compare s1 = key_compare s" by (rule others_compare [OF s1(4)])
  have x: "x \<notin> set E" using dj by auto
  have ab: "cmp_of s1 dest (key s1 (QItem y)) (key s1 (QItem x)) \<noteq> 0" if "y \<in> set E" for y
    using new [OF that] c(2) by (simp add: plain_cmp_of kc plain_zero s1(3))
  obtain s2 A B where s2: "cl_qmap_insert dest (key s1 (QItem x)) (QItem x) s1 = Some (QItem x, s2)"
    "E = A @ B" "qmap s2 dest (A @ x # B)" "key s2 = (key s1)(QItem x := key s1 (QItem x))"
    "others dest (insert x (set E)) s1 s2"
    using insert_qmap_absent [OF d1 _ x ab] plain_key_order c(2) kc by metis
  have "x \<notin> set (D @ R)" using qmapD(3) [OF q(1)] by auto
  then have q2: "qmap s2 src (D @ R)"
    using qmap_others [OF s1(2) s2(5)] ne dj by auto
  have fr: "qmap s2 m ys" if "m \<noteq> src" "m \<noteq> dest" "set ys \<inter> (set (D @ x # R) \<union> set E) = {}"
    "qmap s m ys" for m ys
    using qmap_others [OF qmap_others [OF that(4) s1(4) that(1)] s2(5) that(2)] that(3) by auto
  have nx: "cl_qmap_next (QItem x) s = first_of src R"
    using thread_next [OF qmapD(1) [OF q(1)]] by (simp add: cl_qmap_next_def)
  show ?thesis
    using s1(1,3) s2 q2 fr kc others_compare [OF s2(5)] nx
    by (intro exI [of _ s2] exI [of _ "A @ x # B"])
      (auto simp: cl_qmap_delta_move_def cl_qmap_key_def)
qed

definition has_key :: "qstore \<Rightarrow> nat list \<Rightarrow> nat \<Rightarrow> bool" where
  "has_key s ys x \<longleftrightarrow> (\<exists>y \<in> set ys. key s (QItem y) = key s (QItem x))"

lemma drain_correct:
  "qmap s src (D @ R) \<Longrightarrow> qmap s dest E \<Longrightarrow> src \<noteq> dest \<Longrightarrow> set (D @ R) \<inter> set E = {} \<Longrightarrow>
   key_compare s src = None \<Longrightarrow> key_compare s dest = None \<Longrightarrow>
   (\<And>x. x \<in> set R \<Longrightarrow> \<not> has_key s E x) \<Longrightarrow>
   \<exists>s' E'. delta_drain dest src (first_of src R) s = Some s' \<and> qmap s' src D \<and> qmap s' dest E' \<and>
     set E' = set E \<union> set R \<and> key s' = key s \<and> key_compare s' = key_compare s \<and>
     (\<forall>m ys. m \<noteq> src \<longrightarrow> m \<noteq> dest \<longrightarrow> set ys \<inter> (set (D @ R) \<union> set E) = {} \<longrightarrow>
        qmap s m ys \<longrightarrow> qmap s' m ys)"
proof (induction R arbitrary: s E)
  case Nil
  then show ?case by (auto simp: delta_drain.simps)
next
  case (Cons x R)
  have "\<And>y. y \<in> set E \<Longrightarrow> key s (QItem y) \<noteq> key s (QItem x)"
    using Cons.prems(7) [of x] by (auto simp: has_key_def)
  from move_plain [OF Cons.prems(1-6) this] obtain s1 E1 where s1:
    "cl_qmap_delta_move dest src (QItem x) s = Some (first_of src R, s1)"
    "qmap s1 src (D @ R)" "qmap s1 dest E1" "set E1 = insert x (set E)" "key s1 = key s"
    "key_compare s1 = key_compare s"
    "\<And>m ys. m \<noteq> src \<Longrightarrow> m \<noteq> dest \<Longrightarrow> set ys \<inter> (set (D @ x # R) \<union> set E) = {} \<Longrightarrow>
       qmap s m ys \<Longrightarrow> qmap s1 m ys" by blast
  have dist: "distinct (D @ x # R)" "distinct (map fst (entries s (D @ x # R)))"
    using qmapD(3) [OF Cons.prems(1)] qmap_distinct_keys [OF Cons.prems(1,5)] by auto
  have nk: "\<not> has_key s1 E1 z" if "z \<in> set R" for z
    using Cons.prems(7) [of z] that dist(2) s1(4,5) by (auto simp: has_key_def entries_def image_iff)
  have dj: "set (D @ R) \<inter> set E1 = {}" using Cons.prems(4) dist(1) s1(4) by auto
  obtain s' E' where s': "delta_drain dest src (first_of src R) s1 = Some s'" "qmap s' src D"
    "qmap s' dest E'" "set E' = set E1 \<union> set R" "key s' = key s1" "key_compare s' = key_compare s1"
    "\<And>m ys. m \<noteq> src \<Longrightarrow> m \<noteq> dest \<Longrightarrow> set ys \<inter> (set (D @ R) \<union> set E1) = {} \<Longrightarrow>
       qmap s1 m ys \<Longrightarrow> qmap s' m ys"
    using Cons.IH [OF s1(2,3) Cons.prems(3) dj] nk Cons.prems(5,6) s1(6) by auto
  have "qmap s' m ys" if "m \<noteq> src" "m \<noteq> dest" "set ys \<inter> (set (D @ x # R) \<union> set E) = {}"
    "qmap s m ys" for m ys
    using s'(7) [OF that(1,2) _ s1(7) [OF that]] that(3) s1(4) by auto
  moreover have "delta_drain dest src (first_of src (x # R)) s = Some s'"
    using s1(1) s'(1) by (simp add: delta_drain.simps [of dest src "QItem x"])
  ultimately show ?case using s' s1(4,5,6) by auto
qed

text \<open>The four maps of \<^verbatim>\<open>cl_qmap_delta\<close> with their items.\<close>

definition delta_state ::
  "nat \<Rightarrow> nat \<Rightarrow> nat \<Rightarrow> nat \<Rightarrow> qstore \<Rightarrow> nat list \<Rightarrow> nat list \<Rightarrow> nat list \<Rightarrow> nat list \<Rightarrow> bool" where
  "delta_state m1 m2 mn mo s A1 A2 N E \<longleftrightarrow>
     distinct [m1, m2, mn, mo] \<and> (\<forall>m \<in> {m1, m2, mn, mo}. key_compare s m = None) \<and>
     qmap s m1 A1 \<and> qmap s m2 A2 \<and> qmap s mn N \<and> qmap s mo E \<and>
     set A1 \<inter> set A2 = {} \<and> set A1 \<inter> set N = {} \<and> set A1 \<inter> set E = {} \<and>
     set A2 \<inter> set N = {} \<and> set A2 \<inter> set E = {} \<and> set N \<inter> set E = {}"

lemma delta_move1:
  assumes "delta_state m1 m2 mn mo s (D @ x # R) A2 N E" "\<not> has_key s E x"
  shows "\<exists>s' E'. cl_qmap_delta_move mo m1 (QItem x) s = Some (first_of m1 R, s') \<and>
    delta_state m1 m2 mn mo s' (D @ R) A2 N E' \<and> set E' = insert x (set E) \<and> key s' = key s"
proof -
  have new: "key s (QItem y) \<noteq> key s (QItem x)" if "y \<in> set E" for y
    using assms(2) that by (auto simp: has_key_def)
  have a: "qmap s m1 (D @ x # R)" "qmap s mo E" "m1 \<noteq> mo" "set (D @ x # R) \<inter> set E = {}"
    "key_compare s m1 = None" "key_compare s mo = None"
    using assms(1) by (auto simp: delta_state_def)
  obtain s' E' where s': "cl_qmap_delta_move mo m1 (QItem x) s = Some (first_of m1 R, s')"
    "qmap s' m1 (D @ R)" "qmap s' mo E'" "set E' = insert x (set E)" "key s' = key s"
    "key_compare s' = key_compare s"
    "\<forall>m ys. m \<noteq> m1 \<longrightarrow> m \<noteq> mo \<longrightarrow> set ys \<inter> (set (D @ x # R) \<union> set E) = {} \<longrightarrow>
       qmap s m ys \<longrightarrow> qmap s' m ys"
    using move_plain [OF a new] by blast
  have "qmap s' m2 A2" "qmap s' mn N"
    by (rule s'(7) [rule_format]; use assms(1) in \<open>simp add: delta_state_def; blast\<close>)+
  with s' assms(1) qmapD(3) [OF a(1)] have "delta_state m1 m2 mn mo s' (D @ R) A2 N E'"
    by (auto simp: delta_state_def)
  with s' show ?thesis by blast
qed

lemma delta_state_swap:
  "delta_state m1 m2 mn mo s A1 A2 N E \<Longrightarrow> delta_state m2 m1 mo mn s A2 A1 E N"
  by (auto simp: delta_state_def)

lemma delta_drain1:
  assumes "delta_state m1 m2 mn mo s (D @ R) A2 N E" "\<And>x. x \<in> set R \<Longrightarrow> \<not> has_key s E x"
  shows "\<exists>s' E'. delta_drain mo m1 (first_of m1 R) s = Some s' \<and>
    delta_state m1 m2 mn mo s' D A2 N E' \<and> set E' = set E \<union> set R \<and> key s' = key s"
proof -
  have a: "qmap s m1 (D @ R)" "qmap s mo E" "m1 \<noteq> mo" "set (D @ R) \<inter> set E = {}"
    "key_compare s m1 = None" "key_compare s mo = None"
    using assms(1) by (auto simp: delta_state_def)
  obtain s' E' where s': "delta_drain mo m1 (first_of m1 R) s = Some s'"
    "qmap s' m1 D" "qmap s' mo E'" "set E' = set E \<union> set R" "key s' = key s"
    "key_compare s' = key_compare s"
    "\<forall>m ys. m \<noteq> m1 \<longrightarrow> m \<noteq> mo \<longrightarrow> set ys \<inter> (set (D @ R) \<union> set E) = {} \<longrightarrow>
       qmap s m ys \<longrightarrow> qmap s' m ys"
    using drain_correct [OF a assms(2)] by blast
  have "qmap s' m2 A2" "qmap s' mn N"
    by (rule s'(7) [rule_format]; use assms(1) in \<open>simp add: delta_state_def; blast\<close>)+
  with s' assms(1) qmapD(3) [OF a(1)] have "delta_state m1 m2 mn mo s' D A2 N E'"
    by (auto simp: delta_state_def)
  with s' show ?thesis by blast
qed

definition delta_rest :: "nat \<Rightarrow> nat \<Rightarrow> nat \<Rightarrow> nat \<Rightarrow> (qptr \<times> qptr \<times> qstore) option \<Rightarrow> qstore option" where
  "delta_rest m1 m2 mn mo r =
    (case r of None \<Rightarrow> None
     | Some (p1, p2, s1) \<Rightarrow>
        (case delta_drain mn m2 p2 s1 of None \<Rightarrow> None
         | Some s2 \<Rightarrow> delta_drain mo m1 p1 s2))"

lemma cl_qmap_delta_rest:
  "cl_qmap_delta m1 m2 mn mo s =
    delta_rest m1 m2 mn mo (delta_loop m1 m2 mn mo (cl_qmap_head m1 s) (cl_qmap_head m2 s) s)"
  by (simp add: cl_qmap_delta_def delta_rest_def)

text \<open>The outcome from any point of the walk, in terms of what is left of the two lists.\<close>

definition delta_done ::
  "nat \<Rightarrow> nat \<Rightarrow> nat \<Rightarrow> nat \<Rightarrow> qstore \<Rightarrow> nat list \<Rightarrow> nat list \<Rightarrow> nat list \<Rightarrow> nat list \<Rightarrow> nat list \<Rightarrow>
     nat list \<Rightarrow> qstore option \<Rightarrow> bool" where
  "delta_done m1 m2 mn mo s D1 R1 D2 R2 N E res \<longleftrightarrow>
     (\<exists>s' N' E'. res = Some s' \<and>
        delta_state m1 m2 mn mo s' (D1 @ filter (has_key s R2) R1) (D2 @ filter (has_key s R1) R2) N' E' \<and>
        set N' = set N \<union> {y \<in> set R2. \<not> has_key s R1 y} \<and>
        set E' = set E \<union> {x \<in> set R1. \<not> has_key s R2 x} \<and> key s' = key s)"

lemma delta_end:
  assumes st: "delta_state m1 m2 mn mo s (D1 @ R1) (D2 @ R2) N E" and e: "R1 = [] \<or> R2 = []"
    and k1: "\<And>x. x \<in> set R1 \<Longrightarrow> \<not> has_key s E x" and k2: "\<And>x. x \<in> set R2 \<Longrightarrow> \<not> has_key s N x"
  shows "delta_done m1 m2 mn mo s D1 R1 D2 R2 N E
    (delta_rest m1 m2 mn mo (Some (first_of m1 R1, first_of m2 R2, s)))"
proof -
  obtain s1 N' where s1: "delta_drain mn m2 (first_of m2 R2) s = Some s1"
    "delta_state m2 m1 mo mn s1 D2 (D1 @ R1) E N'" "set N' = set N \<union> set R2" "key s1 = key s"
    using delta_drain1 [OF delta_state_swap [OF st] k2] by blast
  have "\<not> has_key s1 E x" if "x \<in> set R1" for x using k1 [OF that] s1(4) by (simp add: has_key_def)
  then obtain s2 E' where s2: "delta_drain mo m1 (first_of m1 R1) s1 = Some s2"
    "delta_state m1 m2 mn mo s2 D1 D2 N' E'" "set E' = set E \<union> set R1" "key s2 = key s1"
    using delta_drain1 [OF delta_state_swap [OF s1(2)]] by blast
  have "filter (has_key s R2) R1 = []" "filter (has_key s R1) R2 = []"
    using e by (auto simp: has_key_def)
  then show ?thesis
    using s1 s2 e unfolding delta_done_def delta_rest_def
    by (intro exI [of _ s2] exI [of _ N'] exI [of _ E']) (auto simp: has_key_def)
qed


lemma ascending_keys:
  assumes "qmap s m (D @ x # R)" "key_compare s m = None" "z \<in> set R"
  shows "key s (QItem x) < key s (QItem z)"
  using qmapD(2) [OF assms(1)] assms(2,3) ascending_plain [of s m "D @ x # R"]
  by (auto simp: sorted_wrt_append)

lemma delta_loop_correct:
  "delta_state m1 m2 mn mo s (D1 @ R1) (D2 @ R2) N E \<Longrightarrow>
   (\<And>x. x \<in> set R1 \<Longrightarrow> \<not> has_key s E x) \<Longrightarrow> (\<And>x. x \<in> set R2 \<Longrightarrow> \<not> has_key s N x) \<Longrightarrow>
   delta_done m1 m2 mn mo s D1 R1 D2 R2 N E
     (delta_rest m1 m2 mn mo (delta_loop m1 m2 mn mo (first_of m1 R1) (first_of m2 R2) s))"
proof (induction "length R1 + length R2" arbitrary: s D1 R1 D2 R2 N E rule: less_induct)
  case less
  note st = less.prems(1)
  show ?case
  proof (cases "R1 = [] \<or> R2 = []")
    case True
    then have "delta_loop m1 m2 mn mo (first_of m1 R1) (first_of m2 R2) s =
        Some (first_of m1 R1, first_of m2 R2, s)"
      by (auto simp: delta_loop.simps)
    with delta_end [OF st True less.prems(2,3)] show ?thesis by simp
  next
    case False
    then obtain x R1' y R2' where R: "R1 = x # R1'" "R2 = y # R2'" by (meson neq_Nil_conv)
    have q: "qmap s m1 (D1 @ x # R1')" "qmap s m2 (D2 @ y # R2')" "key_compare s m1 = None"
      "key_compare s m2 = None"
      using st R by (auto simp: delta_state_def)
    have lt1: "z \<in> set R1' \<Longrightarrow> key s (QItem x) < key s (QItem z)" for z
      by (rule ascending_keys [OF q(1,3)])
    have lt2: "z \<in> set R2' \<Longrightarrow> key s (QItem y) < key s (QItem z)" for z
      by (rule ascending_keys [OF q(2,4)])
    note loop = delta_loop.simps [of m1 m2 mn mo "QItem x" "QItem y" s, unfolded Let_def]
    consider "key s (QItem x) < key s (QItem y)" | "key s (QItem y) < key s (QItem x)"
      | "key s (QItem x) = key s (QItem y)" by (meson linorder_less_linear)
    then show ?thesis
    proof cases
      case 1
      have "\<not> has_key s E x" using less.prems(2) R by simp
      from delta_move1 [OF st [unfolded R(1)] this] obtain s' E' where s':
        "cl_qmap_delta_move mo m1 (QItem x) s = Some (first_of m1 R1', s')"
        "delta_state m1 m2 mn mo s' (D1 @ R1') (D2 @ R2) N E'" "set E' = insert x (set E)"
        "key s' = key s" by blast
      have hk: "has_key s' = has_key s" using s'(4) by (simp add: has_key_def fun_eq_iff)
      have a: "\<not> has_key s' E' z" if "z \<in> set R1'" for z
        using less.prems(2) [of z] lt1 [OF that] that R s'(3) by (auto simp: hk has_key_def)
      have IH: "delta_done m1 m2 mn mo s' D1 R1' D2 R2 N E'
          (delta_rest m1 m2 mn mo (delta_loop m1 m2 mn mo (first_of m1 R1') (first_of m2 R2) s'))"
        using less.prems(3) R by (intro less.hyps [OF _ s'(2) a]) (auto simp: hk)
      have nx: "\<not> has_key s R2 x" using 1 lt2 R by (force simp: has_key_def)
      have same: "has_key s R1 z = has_key s R1' z" if "z \<in> set R2" for z
        using 1 lt2 [of z] that R by (auto simp: has_key_def)
      then have f2: "filter (has_key s R1) R2 = filter (has_key s R1') R2" by (intro filter_cong) auto
      have sN: "{z \<in> set R2. \<not> has_key s R1 z} = {z \<in> set R2. \<not> has_key s R1' z}"
        using same by auto
      have f1: "filter (has_key s R2) R1 = filter (has_key s R2) R1'" using nx R by simp
      have sE: "set E \<union> {z \<in> set R1. \<not> has_key s R2 z} = set E' \<union> {z \<in> set R1'. \<not> has_key s R2 z}"
        using nx R s'(3) by auto
      have "delta_loop m1 m2 mn mo (first_of m1 R1) (first_of m2 R2) s =
          delta_loop m1 m2 mn mo (first_of m1 R1') (first_of m2 R2) s'"
        using 1 s'(1) R by (simp add: loop cl_qmap_key_def)
      then show ?thesis
        using IH unfolding delta_done_def hk f1 f2 sN sE s'(4) by simp
    next
      case 2
      have "\<not> has_key s N y" using less.prems(3) R by simp
      from delta_move1 [OF delta_state_swap [OF st, unfolded R(2)] this] obtain s' N' where s':
        "cl_qmap_delta_move mn m2 (QItem y) s = Some (first_of m2 R2', s')"
        "delta_state m2 m1 mo mn s' (D2 @ R2') (D1 @ R1) E N'" "set N' = insert y (set N)"
        "key s' = key s" by blast
      have hk: "has_key s' = has_key s" using s'(4) by (simp add: has_key_def fun_eq_iff)
      have a: "\<not> has_key s' N' z" if "z \<in> set R2'" for z
        using less.prems(3) [of z] lt2 [OF that] that R s'(3) by (auto simp: hk has_key_def)
      have IH: "delta_done m1 m2 mn mo s' D1 R1 D2 R2' N' E
          (delta_rest m1 m2 mn mo (delta_loop m1 m2 mn mo (first_of m1 R1) (first_of m2 R2') s'))"
        using less.prems(2) R a by (intro less.hyps [OF _ delta_state_swap [OF s'(2)]]) (auto simp: hk)
      have nx: "\<not> has_key s R1 y" using 2 lt1 R by (force simp: has_key_def)
      have same: "has_key s R2 z = has_key s R2' z" if "z \<in> set R1" for z
        using 2 lt1 [of z] that R by (auto simp: has_key_def)
      then have f1: "filter (has_key s R2) R1 = filter (has_key s R2') R1" by (intro filter_cong) auto
      have sE: "{z \<in> set R1. \<not> has_key s R2 z} = {z \<in> set R1. \<not> has_key s R2' z}"
        using same by auto
      have f2: "filter (has_key s R1) R2 = filter (has_key s R1) R2'" using nx R by simp
      have sN: "set N \<union> {z \<in> set R2. \<not> has_key s R1 z} = set N' \<union> {z \<in> set R2'. \<not> has_key s R1 z}"
        using nx R s'(3) by auto
      have "delta_loop m1 m2 mn mo (first_of m1 R1) (first_of m2 R2) s =
          delta_loop m1 m2 mn mo (first_of m1 R1) (first_of m2 R2') s'"
        using 2 s'(1) R order_less_not_sym [OF 2] by (simp add: loop cl_qmap_key_def)
      then show ?thesis
        using IH unfolding delta_done_def hk f1 f2 sN sE s'(4) by simp
    next
      case 3
      have st': "delta_state m1 m2 mn mo s ((D1 @ [x]) @ R1') ((D2 @ [y]) @ R2') N E"
        using st R by simp
      have IH: "delta_done m1 m2 mn mo s (D1 @ [x]) R1' (D2 @ [y]) R2' N E
          (delta_rest m1 m2 mn mo (delta_loop m1 m2 mn mo (first_of m1 R1') (first_of m2 R2') s))"
        using less.prems(2,3) R by (intro less.hyps [OF _ st']) auto
      have same1: "has_key s R2 z = has_key s R2' z" if "z \<in> set R1'" for z
        using 3 lt1 [OF that] R by (auto simp: has_key_def)
      have same2: "has_key s R1 z = has_key s R1' z" if "z \<in> set R2'" for z
        using 3 lt2 [OF that] R by (auto simp: has_key_def)
      have hx: "has_key s R2 x" "has_key s R1 y" using 3 R by (auto simp: has_key_def)
      have "filter (has_key s R2) R1' = filter (has_key s R2') R1'"
        "filter (has_key s R1) R2' = filter (has_key s R1') R2'"
        using same1 same2 by (intro filter_cong; auto)+
      then have f: "D1 @ filter (has_key s R2) R1 = (D1 @ [x]) @ filter (has_key s R2') R1'"
        "D2 @ filter (has_key s R1) R2 = (D2 @ [y]) @ filter (has_key s R1') R2'"
        using hx R by simp_all
      have g: "{z \<in> set R2. \<not> has_key s R1 z} = {z \<in> set R2'. \<not> has_key s R1' z}"
        "{z \<in> set R1. \<not> has_key s R2 z} = {z \<in> set R1'. \<not> has_key s R2' z}"
        using same1 same2 hx R by auto
      have "cl_qmap_next (QItem x) s = first_of m1 R1'" "cl_qmap_next (QItem y) s = first_of m2 R2'"
        using thread_next [OF qmapD(1) [OF q(1)]] thread_next [OF qmapD(1) [OF q(2)]]
        by (simp_all add: cl_qmap_next_def)
      then have "delta_loop m1 m2 mn mo (first_of m1 R1) (first_of m2 R2) s =
          delta_loop m1 m2 mn mo (first_of m1 R1') (first_of m2 R2') s"
        using 3 R by (simp add: loop cl_qmap_key_def)
      then show ?thesis using IH unfolding delta_done_def f g by simp
    qed
  qed
qed


end
