(* ===== verification/QuickMapProps.thy ===== *)
theory QuickMapProps
  imports QuickMapMerge
begin

text \<open>
  The properties of the quick map, each applied to a small concrete store.
\<close>

section \<open>A concrete store\<close>

text \<open>Map 0 holds items 1 and 2 with keys 10 and 20, map 1 holds item 3 with key 20, maps 2 and 3
  are empty.\<close>

definition demo_store :: qstore where
  "demo_store = \<lparr>
     p_left = (\<lambda>_. QNil 0)(QRoot 0 := QItem 1, QRoot 1 := QItem 3, QItem 3 := QNil 1,
                QRoot 2 := QNil 2, QRoot 3 := QNil 3),
     p_right = (\<lambda>_. QNil 0)(QItem 1 := QItem 2, QItem 3 := QNil 1),
     p_up = (\<lambda>_. QNil 0)(QItem 1 := QRoot 0, QItem 2 := QItem 1, QItem 3 := QRoot 1),
     color = (\<lambda>_. CL_MAP_BLACK)(QItem 2 := CL_MAP_RED),
     key = (\<lambda>_. 0)(QItem 1 := 10, QItem 2 := 20, QItem 3 := 20),
     p_next = (\<lambda>_. QNil 0)(QNil 0 := QItem 1, QItem 1 := QItem 2, QNil 1 := QItem 3, QItem 3 := QNil 1,
                QNil 2 := QNil 2, QNil 3 := QNil 3),
     p_prev = (\<lambda>_. QNil 0)(QNil 0 := QItem 2, QItem 2 := QItem 1, QNil 1 := QItem 3, QItem 3 := QNil 1,
                QNil 2 := QNil 2, QNil 3 := QNil 3),
     qcount = (\<lambda>_. 0)(0 := 2, 1 := 1),
     key_compare = (\<lambda>_. None) \<rparr>"

lemma demo_maps:
  "qmap demo_store 0 [1, 2]" "qmap demo_store 1 [3]" "qmap demo_store 2 []" "qmap demo_store 3 []"
proof -
  show "qmap demo_store 0 [1, 2]"
    by (rule qmapI [of _ _ "Nd Lf 1 CL_MAP_BLACK (Nd Lf 2 CL_MAP_RED Lf)"])
      (simp_all add: qmap_tree_def heap_def rb_tree_def thread_def ascending_def demo_store_def
        cmp_of_def plain_compare_def)
  show "qmap demo_store 1 [3]"
    by (rule qmapI [of _ _ "Nd Lf 3 CL_MAP_BLACK Lf"])
      (simp_all add: qmap_tree_def heap_def rb_tree_def thread_def ascending_def demo_store_def)
  show "qmap demo_store 2 []" "qmap demo_store 3 []"
    by (rule qmapI [of _ _ Lf];
        simp add: qmap_tree_def heap_def rb_tree_def thread_def ascending_def demo_store_def)+
qed

lemma demo_compare [simp]: "key_compare demo_store m = None"
  by (simp add: demo_store_def)

lemma demo_cmp [simp]: "cmp_of demo_store m = plain_compare"
  by (simp add: plain_cmp_of)

lemma demo_keys [simp]:
  "key demo_store (QItem 1) = 10" "key demo_store (QItem (Suc 0)) = 10"
  "key demo_store (QItem 2) = 20" "key demo_store (QItem 3) = 20"
  by (simp_all add: demo_store_def)

lemma init_compare: "key_compare (cl_qmap_init m cmp s) m = cmp"
  by (simp add: cl_qmap_init_def cl_qmap_remove_all_def Let_def set_left_def set_right_def set_up_def
      set_color_def set_next_def set_prev_def)

section \<open>Lookups\<close>

text \<open>On a well-formed quick map, whatever consistent comparison it uses, the lookups end and
  return the item whose key compares equal to the key sought, or the end of the map when no item
  does; the variant with an explicit comparison does the same when the map is ordered by it.\<close>

theorem qmap_get_correct:
  assumes "qmap s m xs" "key_order (cmp_of s m)"
  shows "\<exists>p. cl_qmap_get m k s = Some p \<and> cl_qmap_get_compare m k (cmp_of s m) s = Some p \<and>
    (if \<exists>x \<in> set xs. cmp_of s m (key s (QItem x)) k = 0
     then \<exists>x \<in> set xs. p = QItem x \<and> cmp_of s m (key s (QItem x)) k = 0
     else p = cl_qmap_end m)"
proof -
  let ?f = "\<lambda>p. cmp_of s m (key s p) k"
  have "cl_qmap_get m k s = Some (found m ?f xs)" by (rule get_qmap [OF assms])
  moreover have "cl_qmap_get_compare m k (cmp_of s m) s = Some (found m ?f xs)"
    unfolding cl_qmap_get_compare_def
    by (rule get_loop_qmap [OF assms(1) cuts_ascending [OF assms(2) qmapD(2) [OF assms(1)]]])
  moreover have "if \<exists>x \<in> set xs. ?f (QItem x) = 0
     then \<exists>x \<in> set xs. found m ?f xs = QItem x \<and> ?f (QItem x) = 0 else found m ?f xs = cl_qmap_end m"
    by (auto simp: found_def cl_qmap_end_def find_Some_iff find_None_iff split: option.splits)
  ultimately show ?thesis by blast
qed

theorem qmap_get_correct_witness:
  "(\<exists>p. cl_qmap_get 0 20 demo_store = Some p \<and> (\<exists>x \<in> {1, 2}. p = QItem x \<and> plain_compare (key demo_store (QItem x)) 20 = 0))
   \<and> cl_qmap_get 0 15 demo_store = Some (cl_qmap_end 0)"
  using qmap_get_correct [OF demo_maps(1), of 20] qmap_get_correct [OF demo_maps(1), of 15]
    plain.key_order_axioms
  by (simp add: plain_zero)

text \<open>C38: With the default comparison \<^verbatim>\<open>cl_qmap_get_next\<close> returns the item with the smallest
  key above the key given, or the end of the map; with a comparison callback it tests the wrong
  sign: the result is the first item of the map when the root's key is below the key given, and
  the end of the map otherwise, whatever the map holds above the key.\<close>

theorem qmap_get_next_outcome:
  assumes "qmap s m xs" "key_order (cmp_of s m)"
  shows "cl_qmap_get_next m k s = Some
    (case key_compare s m of
       None \<Rightarrow> (case filter (\<lambda>x. k < key s (QItem x)) xs of [] \<Rightarrow> cl_qmap_end m | x # _ \<Rightarrow> QItem x)
     | Some cmp \<Rightarrow> (if xs \<noteq> [] \<and> cmp (key s (cl_map_root m s)) k < 0 then cl_qmap_head m s
                    else cl_qmap_end m))"
proof -
  obtain T where T: "inorder T = xs" "heap s m T" using assms(1) by (auto elim: qmapE)
  have t: "tree s m (QRoot m) T" and r: "cl_map_root m s = rp m T" using heap_root [OF T(2)] by auto
  note asc = qmapD(2) [OF assms(1)]
  show ?thesis
  proof (cases "key_compare s m")
    case None
    have "sorted_wrt (\<lambda>x y. k < key s (QItem x) \<longrightarrow> k < key s (QItem y)) xs"
      using asc unfolding ascending_plain [OF None] by (rule sorted_wrt_mono_rel [rotated]) auto
    moreover have "find P xs = (case filter P xs of [] \<Rightarrow> None | x # _ \<Rightarrow> Some x)" for P
      by (induction xs) auto
    ultimately show ?thesis
      using get_next_loop_tree [OF t, of "\<lambda>p. k < key s p" "QNil m"] T(1) None
      by (simp add: cl_qmap_get_next_def r cl_qmap_end_def split: list.split)
  next
    case (Some cmp)
    then have c: "cmp_of s m = cmp" by (simp add: cmp_of_def)
    have "sorted_wrt (\<lambda>x y. cmp (key s (QItem y)) k < 0 \<longrightarrow> cmp (key s (QItem x)) k < 0) (inorder T)"
      unfolding T(1) using asc [unfolded ascending_def c] key_order.trans [OF assms(2), unfolded c]
      by (blast intro: sorted_wrt_mono_rel [rotated])
    from get_next_loop_wrong_way [OF t this, of "QNil m"] T(1) Some
      thread_head [OF qmapD(1) [OF assms(1)]]
    show ?thesis
      by (cases T; cases xs) (auto simp: cl_qmap_get_next_def r cl_qmap_end_def cl_qmap_head_def)
  qed
qed

text \<open>A map of one item with key 20 under a comparison callback: asking for the item after key 10
  finds nothing.\<close>

definition demo_callback :: qstore where
  "demo_callback = demo_store\<lparr>key_compare := (\<lambda>_. Some plain_compare)\<rparr>"

lemma demo_callback_map: "qmap demo_callback 1 [3]"
  by (rule qmapI [of _ _ "Nd Lf 3 CL_MAP_BLACK Lf"])
    (simp_all add: qmap_tree_def heap_def rb_tree_def thread_def ascending_def demo_store_def
      demo_callback_def)

theorem qmap_get_next_outcome_witness:
  "cl_qmap_get_next 0 10 demo_store = Some (QItem 2) \<and>
   cl_qmap_get_next 1 10 demo_callback = Some (cl_qmap_end 1)"
  using qmap_get_next_outcome [OF demo_maps(1), of 10] qmap_get_next_outcome [OF demo_callback_map, of 10]
    plain.key_order_axioms
  by (simp add: cmp_of_def demo_callback_def cl_map_root_def plain_compare_def demo_store_def)

section \<open>Insertion and removal\<close>

text \<open>C1: \<^verbatim>\<open>cl_qmap_insert\<close> of a fresh item always ends.  If an item with an equal key is in the
  map it returns that item and changes nothing; otherwise it returns the new item, which takes its
  place in the key order: the result is again a red-black tree with the same items plus the new
  one in the tree and in the list, the count is one higher, no other key changes, and neither
  another map nor an item outside this map is touched.\<close>

theorem qmap_insert_correct:
  assumes "qmap s m xs" "key_order (cmp_of s m)" "x \<notin> set xs"
  shows "if \<exists>y \<in> set xs. cmp_of s m (key s (QItem y)) k = 0
    then \<exists>y \<in> set xs. cmp_of s m (key s (QItem y)) k = 0 \<and>
      cl_qmap_insert m k (QItem x) s = Some (QItem y, s)
    else \<exists>s' A B. cl_qmap_insert m k (QItem x) s = Some (QItem x, s') \<and> xs = A @ B \<and>
      qmap s' m (A @ x # B) \<and> key s' = (key s)(QItem x := k) \<and> others m (insert x (set xs)) s s'"
proof (cases "\<exists>y \<in> set xs. cmp_of s m (key s (QItem y)) k = 0")
  case True
  with insert_qmap_present [OF assms(1,2)] show ?thesis by auto
next
  case False
  with insert_qmap_absent [OF assms, of k] show ?thesis by auto
qed

theorem qmap_insert_correct_witness:
  "cl_qmap_insert 0 20 (QItem 3) demo_store = Some (QItem 2, demo_store) \<and>
   (\<exists>s' A B. cl_qmap_insert 0 15 (QItem 4) demo_store = Some (QItem 4, s') \<and> [1, 2] = A @ B \<and>
      qmap s' 0 (A @ 4 # B) \<and> key s' = (key demo_store)(QItem 4 := 15))"
  using qmap_insert_correct [OF demo_maps(1) plain_key_order [OF demo_compare], of 3 20]
    qmap_insert_correct [OF demo_maps(1) plain_key_order [OF demo_compare], of 4 15]
  by (auto simp: plain_zero)

text \<open>C2: \<^verbatim>\<open>cl_qmap_remove_item\<close> of an item of the map always ends and takes exactly that item
  out of the tree and the list, leaving a red-black tree with the other items in order, the count
  one lower, all keys as they were, and every other map and item untouched; on the end of the map
  it does nothing.\<close>

theorem qmap_remove_correct:
  assumes "qmap s m (A @ x # B)"
  shows "(\<exists>s'. cl_qmap_remove_item m (QItem x) s = Some s' \<and> qmap s' m (A @ B) \<and>
      key s' = key s \<and> cl_qmap_count m s' = cl_qmap_count m s - 1 \<and>
      others m (set (A @ x # B)) s s') \<and>
    cl_qmap_remove_item m (cl_qmap_end m) s = Some s"
proof -
  obtain s' where s': "cl_qmap_remove_item m (QItem x) s = Some s'" "qmap s' m (A @ B)"
    "key s' = key s" "others m (set (A @ x # B)) s s'"
    using remove_qmap [OF assms] by blast
  moreover have "cl_qmap_count m s' = cl_qmap_count m s - 1"
    using qmapD(4) [OF assms] qmapD(4) [OF s'(2)] by (simp add: cl_qmap_count_def)
  ultimately show ?thesis by (auto simp: cl_qmap_remove_item_def cl_qmap_end_def)
qed

theorem qmap_remove_correct_witness:
  "\<exists>s'. cl_qmap_remove_item 0 (QItem 1) demo_store = Some s' \<and> qmap s' 0 [2] \<and>
     key s' = key demo_store \<and> cl_qmap_count 0 s' = 1 \<and> qmap s' 1 [3]"
proof -
  obtain s' where s': "cl_qmap_remove_item 0 (QItem 1) demo_store = Some s'" "qmap s' 0 [2]"
    "key s' = key demo_store" "cl_qmap_count 0 s' = cl_qmap_count 0 demo_store - 1"
    "others 0 {1, 2} demo_store s'"
    using qmap_remove_correct [of demo_store 0 "[]" 1 "[2]"] demo_maps(1) by auto
  moreover have "qmap s' 1 [3]" using qmap_others [OF demo_maps(2) s'(5)] by simp
  moreover have "cl_qmap_count 0 demo_store = 2" by (simp add: cl_qmap_count_def demo_store_def)
  ultimately show ?thesis by auto
qed

text \<open>C3: Any script of insertions, removals, lookups, counts and traversals on a quick map
  with the default comparison returns what the same script returns on a finite map from keys to
  items; a traversal lists the items by ascending key.\<close>

theorem qmap_refines_map:
  assumes "qmap_rel m s a"
  shows "\<exists>s'. run_ops (qmap_step m) ps s = Inr (fst (run_abs qmap_spec ps a), s') \<and>
    qmap_rel m s' (snd (run_abs qmap_spec ps a))"
  by (rule qm.run_simulates [OF assms])

lemma demo_rel: "qmap_rel 0 demo_store [10 \<mapsto> 1, 20 \<mapsto> 2]"
  unfolding qmap_rel_def
  by (intro exI [of _ "[1, 2]"] conjI demo_maps(1) demo_compare) (auto simp: fun_upd_twist)

lemma demo_run:
  "run_abs qmap_spec [QInsert 15 7, QInsert 15 8, QRemove 10, QGet 20, QGet 10] [10 \<mapsto> 1, 20 \<mapsto> 2] =
    ([RItem (Some 7), RItem (Some 7), RItem (Some 1), RItem (Some 2), RItem None], [15 \<mapsto> 7, 20 \<mapsto> 2])"
  by (simp add: ran_map_upd) (auto simp: fun_eq_iff)

theorem qmap_refines_map_witness:
  "\<exists>s'. run_ops (qmap_step 0) [QInsert 15 7, QInsert 15 8, QRemove 10, QGet 20, QGet 10] demo_store =
      Inr ([RItem (Some 7), RItem (Some 7), RItem (Some 1), RItem (Some 2), RItem None], s') \<and>
    qmap_rel 0 s' [15 \<mapsto> 7, 20 \<mapsto> 2]"
  using qmap_refines_map [OF demo_rel, of "[QInsert 15 7, QInsert 15 8, QRemove 10, QGet 20, QGet 10]"]
  unfolding demo_run by simp

text \<open>The map is balanced: from every item of a map of n items the root sentinel is reached in
  h steps along the parent links, with 2 to the h at most (n + 1) squared, so that h is at most
  twice the binary logarithm of n + 1.\<close>

theorem qmap_depth_bound:
  assumes "qmap s m xs" "x \<in> set xs"
  shows "\<exists>h. (p_up s ^^ h) (QItem x) = QRoot m \<and> 2 ^ h \<le> (length xs + 1)\<^sup>2"
  by (rule qmap_depth [OF assms])

theorem qmap_depth_bound_witness:
  "\<exists>h. (p_up demo_store ^^ h) (QItem 2) = QRoot 0 \<and> 2 ^ h \<le> (length [1, 2 :: nat] + 1)\<^sup>2"
  by (rule qmap_depth_bound [OF demo_maps(1)]) simp

section \<open>The cost of a lookup\<close>

text \<open>The walk of \<^verbatim>\<open>cl_qmap_get\<close> over at most \<open>n\<close> items: no result when it would visit one more.\<close>

fun get_plain_within :: "nat \<Rightarrow> u64 \<Rightarrow> nat \<Rightarrow> qptr \<Rightarrow> qstore \<Rightarrow> qptr option" where
  "get_plain_within m k n p s =
    (if p = QNil m then Some p
     else (case n of 0 \<Rightarrow> None
       | Suc n' \<Rightarrow>
           if k = key s p then Some p
           else if k < key s p then get_plain_within m k n' (p_left s p) s
           else get_plain_within m k n' (p_right s p) s))"

declare get_plain_within.simps [simp del]

fun hgt :: "rb \<Rightarrow> nat" where
  "hgt Lf = 0"
| "hgt (Nd l x c r) = Suc (max (hgt l) (hgt r))"

lemma get_plain_within_tree:
  "tree s m u t \<Longrightarrow> hgt t \<le> n \<Longrightarrow> get_plain_within m k n (rp m t) s = get_plain_loop m k (rp m t) s"
proof (induction t arbitrary: u n)
  case Lf
  then show ?case by (simp add: get_plain_within.simps get_plain_loop.simps)
next
  case (Nd l x c r)
  then obtain n' where n: "n = Suc n'" "hgt l \<le> n'" "hgt r \<le> n'" by (cases n) auto
  with Nd.IH [of "QItem x" n'] Nd.prems(1) show ?case
    by (simp add: get_plain_within.simps [of m k "Suc n'" "QItem x"] get_plain_loop.simps [of m k "QItem x"])
qed

lemma hgt_focus:
  "t \<noteq> Lf \<Longrightarrow> \<exists>k l x c r. plug k0 t = plug k (Nd l x c r) \<and> length k + 1 = length k0 + hgt t"
proof (induction t arbitrary: k0)
  case (Nd l y c r)
  consider "hgt (Nd l y c r) = 1" | "l \<noteq> Lf" "hgt (Nd l y c r) = Suc (hgt l)"
    | "r \<noteq> Lf" "hgt (Nd l y c r) = Suc (hgt r)"
    by (cases "hgt l \<le> hgt r"; cases l; cases r; simp add: max_def split: if_splits)
  then show ?case
  proof cases
    case 1
    then show ?thesis by (intro exI [of _ k0] exI) auto
  next
    case 2
    from Nd.IH(1) [OF 2(1), of "FL y c r # k0"] 2(2) show ?thesis by simp
  next
    case 3
    from Nd.IH(2) [OF 3(1), of "FR l y c # k0"] 3(2) show ?thesis by simp
  qed
qed simp

lemma rb_tree_hgt: "rb_tree T \<Longrightarrow> 2 ^ hgt T \<le> (length (inorder T) + 1)\<^sup>2"
proof (cases "T = Lf")
  case False
  then obtain k l x c r where "T = plug k (Nd l x c r)" "length k + 1 = hgt T"
    using hgt_focus [of T "[]"] by auto
  moreover assume "rb_tree T"
  ultimately show ?thesis using rb_tree_depth [of k l x c r] by simp
qed simp

lemma get_within_qmap:
  assumes "qmap s m xs" "key_compare s m = None"
  shows "\<exists>h. 2 ^ h \<le> (length xs + 1)\<^sup>2 \<and>
    (\<forall>k. get_plain_within m k h (cl_map_root m s) s = cl_qmap_get m k s)"
proof -
  obtain T where T: "inorder T = xs" "heap s m T" "rb_tree T" using assms(1) by (auto elim: qmapE)
  then have r: "cl_map_root m s = rp m T" "tree s m (QRoot m) T" using heap_root by blast+
  have "get_plain_within m k (hgt T) (cl_map_root m s) s = cl_qmap_get m k s" for k
    using get_plain_within_tree [OF r(2) order.refl] assms(2) by (simp add: cl_qmap_get_def r(1))
  with rb_tree_hgt [OF T(3)] T(1) show ?thesis by blast
qed

text \<open>C37: Whatever script of insertions and removals filled a map, a lookup is logarithmic: there
  is a number h with 2 to the h at most (n + 1) squared, n the number of items, so h is at most twice
  the binary logarithm of n + 1, such that \<^verbatim>\<open>cl_qmap_get\<close> finds the item of any key, or that there is
  none, on a walk over at most h items.\<close>

theorem qmap_lookup_cost:
  "\<exists>rs s a h. run_ops (qmap_step m) ps (cl_qmap_init m None s0) = Inr (rs, s) \<and>
    run_abs qmap_spec ps Map.empty = (rs, a) \<and> 2 ^ h \<le> (card (dom a) + 1)\<^sup>2 \<and>
    (\<forall>k. cl_qmap_get m k s = Some (case a k of None \<Rightarrow> QNil m | Some x \<Rightarrow> QItem x) \<and>
      get_plain_within m k h (cl_map_root m s) s = cl_qmap_get m k s)"
proof -
  obtain rs a where a: "run_abs qmap_spec ps Map.empty = (rs, a)" by fastforce
  have "qmap_rel m (cl_qmap_init m None s0) Map.empty"
    unfolding qmap_rel_def
    by (rule exI [of _ "[]"]) (simp add: init_qmap init_compare)
  from qm.run_simulates [OF this, of ps] a obtain s where
    s: "run_ops (qmap_step m) ps (cl_qmap_init m None s0) = Inr (rs, s)" "qmap_rel m s a" by auto
  then obtain xs where xs: "qmap s m xs" "key_compare s m = None" "a = map_of (entries s xs)"
    by (auto simp: qmap_rel_def)
  have "card (dom a) = length xs"
    using distinct_card [OF qmap_distinct_keys [OF xs(1,2)]]
    by (simp add: xs(3) dom_map_of_conv_image_fst) (simp add: entries_def)
  with get_within_qmap [OF xs(1,2)] obtain h where "2 ^ h \<le> (card (dom a) + 1)\<^sup>2"
    "\<forall>k. get_plain_within m k h (cl_map_root m s) s = cl_qmap_get m k s" by auto
  with s(1) a get_plain [OF xs(1,2)] xs(3) show ?thesis by blast
qed

section \<open>Several maps\<close>

text \<open>C36: \<^verbatim>\<open>cl_qmap_merge\<close> ends and moves every item of the source map whose key is not in the
  destination; the items with a key that the destination has stay in the source, in order.\<close>

theorem qmap_merge_correct:
  assumes "qmap s src ss" "qmap s dest ds" "src \<noteq> dest" "set ss \<inter> set ds = {}"
    "cmp_of s src = cmp_of s dest" "key_order (cmp_of s dest)"
  shows "\<exists>s' ds'. cl_qmap_merge dest src s = Some s' \<and>
    qmap s' src (filter (taken s dest ds) ss) \<and> qmap s' dest ds' \<and>
    set ds' = set ds \<union> {x \<in> set ss. \<not> taken s dest ds x} \<and> key s' = key s"
proof -
  have "cl_qmap_head src s = first_of src ss"
    using thread_head [OF qmapD(1) [OF assms(1)]] by (simp add: cl_qmap_head_def)
  with merge_loop_correct [of s src "[]" ss dest ds] assms show ?thesis
    by (auto simp: cl_qmap_merge_def)
qed

theorem qmap_merge_correct_witness:
  "\<exists>s' ds'. cl_qmap_merge 1 0 demo_store = Some s' \<and> qmap s' 0 [2] \<and> qmap s' 1 ds' \<and>
     set ds' = {1, 3}"
proof -
  have "filter (taken demo_store 1 [3]) [1, 2] = [2]"
    "{x \<in> set [1, 2]. \<not> taken demo_store 1 [3] x} = {1}"
    by (auto simp: taken_def same_key_def plain_zero)
  moreover have "set [3] \<union> {1} = {1, 3 :: nat}" by auto
  moreover have "0 \<noteq> (1 :: nat)" "set [1, 2] \<inter> set [3] = ({} :: nat set)"
    "cmp_of demo_store 0 = cmp_of demo_store 1" "key_order (cmp_of demo_store 1)"
    using plain.key_order_axioms by simp_all
  ultimately show ?thesis using qmap_merge_correct [OF demo_maps(1,2)] by metis
qed

text \<open>C35: \<^verbatim>\<open>cl_qmap_delta\<close> on two maps with the default comparison ends and splits them: the
  items whose key is in both maps stay where they are, the items of the first map whose key is not
  in the second end up in the map of old items, those of the second whose key is not in the first
  in the map of new items.\<close>

theorem qmap_delta_correct:
  assumes "delta_state m1 m2 m_new m_old s xs ys [] []"
  shows "\<exists>s' N E. cl_qmap_delta m1 m2 m_new m_old s = Some s' \<and>
    qmap s' m1 (filter (has_key s ys) xs) \<and> qmap s' m2 (filter (has_key s xs) ys) \<and>
    qmap s' m_new N \<and> set N = {y \<in> set ys. \<not> has_key s xs y} \<and>
    qmap s' m_old E \<and> set E = {x \<in> set xs. \<not> has_key s ys x} \<and> key s' = key s"
proof -
  have q: "qmap s m1 xs" "qmap s m2 ys" using assms by (auto simp: delta_state_def)
  have "cl_qmap_head m1 s = first_of m1 xs" "cl_qmap_head m2 s = first_of m2 ys"
    using thread_head [OF qmapD(1) [OF q(1)]] thread_head [OF qmapD(1) [OF q(2)]]
    by (simp_all add: cl_qmap_head_def)
  with delta_loop_correct [of m1 m2 m_new m_old s "[]" xs "[]" ys "[]" "[]"] assms
  have "delta_done m1 m2 m_new m_old s [] xs [] ys [] [] (cl_qmap_delta m1 m2 m_new m_old s)"
    by (simp add: cl_qmap_delta_rest has_key_def)
  then show ?thesis unfolding delta_done_def delta_state_def by auto
qed

theorem qmap_delta_correct_witness:
  "\<exists>s' N E. cl_qmap_delta 0 1 2 3 demo_store = Some s' \<and> qmap s' 0 [2] \<and> qmap s' 1 [3] \<and>
     qmap s' 2 N \<and> set N = {} \<and> qmap s' 3 E \<and> set E = {1}"
proof -
  have st: "delta_state 0 1 2 3 demo_store [1, 2] [3] [] []"
    using demo_maps by (simp add: delta_state_def)
  have "filter (has_key demo_store [3]) [1, 2] = [2]" "filter (has_key demo_store [1, 2]) [3] = [3]"
    "{y \<in> set [3]. \<not> has_key demo_store [1, 2] y} = {}"
    "{x \<in> set [1, 2]. \<not> has_key demo_store [3] x} = {1}"
    by (auto simp: has_key_def)
  with qmap_delta_correct [OF st] show ?thesis by metis
qed


end
