(* ===== verification/PathDb.thy ===== *)
theory PathDb
  imports Prelude "HOL-Library.Monad_Syntax"
begin

text \<open>
  The shared-memory path database of opasadb (opasadb/lib/path/opasadb_path_private.c): a writer
  fills four unpublished tables (ports, subnets with their service ids, virtual fabrics, paths),
  publishes them by name and version through one shared table, and readers map them and look
  paths up through two hash indexes, reloading a table whose version has changed.

  Shared memory is a store of objects with names, as shm_open and mmap give it: an address is the
  number of an object, 0 is NULL, a mapping stays valid after shm_unlink.  A step whose result is
  \<^verbatim>\<open>None\<close> reads outside an array or through a bad pointer, or never returns.  Every system call
  that may fail takes its outcome from the state.  Arrays are lists, index 0 of each table being
  reserved as in the code.  A writer maps the whole of a table it creates; the byte sizes are
  computed in 64 bits but stored in 32-bit fields of the table's header, and a reader maps the
  number of bytes it finds there, so it sees the records that lie within them (the rest of the
  last page is left out of account).  Structures have
  the sizes of an LP64 target, and the host is little-endian.
\<close>

section \<open>Records\<close>

type_synonym errno = int

abbreviation ENOENT :: errno where "ENOENT \<equiv> 2"
abbreviation ENOMEM :: errno where "ENOMEM \<equiv> 12"
abbreviation EINVAL :: errno where "EINVAL \<equiv> 22"

record IB_GID_NO =
  SubnetPrefix :: u64
  InterfaceID :: u64

text \<open>Bit fields that share a byte or a word are kept as that byte or word; the reserved bytes
  are left out.\<close>

record IB_PATH_RECORD_NO =
  ServiceID :: u64
  DGID :: IB_GID_NO
  SGID :: IB_GID_NO
  DLID :: u16
  SLID :: u16
  hop_flow_raw :: u32
  TClass :: u8
  num_path :: u8
  P_Key :: u16
  qos_class_sl :: u16
  Mtu :: u8
  Rate :: u8
  PktLifeTime :: u8
  Preference :: u8

record op_ppath_shared_table_t =
  abi_version :: u32
  port_update_count :: u32
  subnet_update_count :: u32
  vfab_update_count :: u32
  path_update_count :: u32
  port_table_name :: string
  subnet_table_name :: string
  vfab_table_name :: string
  path_table_name :: string

record op_ppath_port_record_t =
  hfi_name :: string
  port :: u16
  subnet_id :: u16
  base_lid :: u16
  lmc :: u16
  port_prefix :: u64
  source_guid :: u64
  pkeys :: "u16 list"

record op_ppath_subnet_record_t =
  subnet_prefix :: u64
  first_sid :: u32

record op_ppath_sid_record_t =
  lower_sid :: u64
  upper_sid :: u64
  vfab_id :: u32
  next_sid :: u32

record op_ppath_vfab_record_t =
  vfab_name :: string
  vfab_prefix :: u64
  vfab_pkey :: u16
  vfab_sl :: u16
  first_dlid :: "nat \<Rightarrow> u32"
  first_dguid :: "nat \<Rightarrow> u32"

record op_ppath_record_t =
  path_rec :: IB_PATH_RECORD_NO
  flags :: u32
  next_guid :: u32
  next_lid :: u32

text \<open>The tables.  The service ids follow the subnets in the same object.\<close>

record op_ppath_port_table_t =
  port_size :: u32
  port_count :: u32
  port_recs :: "op_ppath_port_record_t list"

record op_ppath_subnet_table_t =
  subnet_size :: u32
  sid_size :: u32
  subnet_count :: u32
  sid_count :: u32
  subnet_recs :: "op_ppath_subnet_record_t list"
  sid_recs :: "op_ppath_sid_record_t list"

record op_ppath_vfab_table_t =
  vfab_size :: u32
  vfab_count :: u32
  vfab_recs :: "op_ppath_vfab_record_t list"

record op_ppath_table_t =
  path_size :: u32
  path_count :: u32
  path_recs :: "op_ppath_record_t list"

datatype table_kind = PORT_TABLE | PATH_TABLE | SUBNET_TABLE | VFAB_TABLE

record op_ppath_reader_t =
  shared_table :: nat
  port_table :: nat
  subnet_table :: nat
  vfab_table :: nat
  sid_table :: nat
  path_table :: nat
  shared_fd :: nat
  port_fd :: nat
  subnet_fd :: nat
  vfab_fd :: nat
  path_fd :: nat
  old_port_update_count :: u32
  old_subnet_update_count :: u32
  old_vfab_update_count :: u32
  old_path_update_count :: u32

record op_ppath_writer_t =
  published :: op_ppath_reader_t
  unpublished :: op_ppath_reader_t
  max_ports :: u32
  max_sids :: u32
  max_subnets :: u32
  max_vfabs :: u32
  max_paths :: u32

text \<open>What \<^verbatim>\<open>memset\<close> with zero makes of each.\<close>

definition zero_gid :: IB_GID_NO where
  "zero_gid = \<lparr>SubnetPrefix = 0, InterfaceID = 0\<rparr>"

definition zero_path :: IB_PATH_RECORD_NO where
  "zero_path = \<lparr>ServiceID = 0, DGID = zero_gid, SGID = zero_gid, DLID = 0, SLID = 0,
     hop_flow_raw = 0, TClass = 0, num_path = 0, P_Key = 0, qos_class_sl = 0, Mtu = 0, Rate = 0,
     PktLifeTime = 0, Preference = 0\<rparr>"

definition zero_shared :: op_ppath_shared_table_t where
  "zero_shared = \<lparr>abi_version = 0, port_update_count = 0, subnet_update_count = 0,
     vfab_update_count = 0, path_update_count = 0, port_table_name = [], subnet_table_name = [],
     vfab_table_name = [], path_table_name = []\<rparr>"

definition zero_port :: op_ppath_port_record_t where
  "zero_port = \<lparr>hfi_name = [], port = 0, subnet_id = 0, base_lid = 0, lmc = 0, port_prefix = 0,
     source_guid = 0, pkeys = replicate 32 0\<rparr>"

definition zero_subnet :: op_ppath_subnet_record_t where
  "zero_subnet = \<lparr>subnet_prefix = 0, first_sid = 0\<rparr>"

definition zero_sid :: op_ppath_sid_record_t where
  "zero_sid = \<lparr>lower_sid = 0, upper_sid = 0, vfab_id = 0, next_sid = 0\<rparr>"

definition zero_vfab :: op_ppath_vfab_record_t where
  "zero_vfab = \<lparr>vfab_name = [], vfab_prefix = 0, vfab_pkey = 0, vfab_sl = 0,
     first_dlid = (\<lambda>_. 0), first_dguid = (\<lambda>_. 0)\<rparr>"

definition zero_record :: op_ppath_record_t where
  "zero_record = \<lparr>path_rec = zero_path, flags = 0, next_guid = 0, next_lid = 0\<rparr>"

definition zero_reader :: op_ppath_reader_t where
  "zero_reader = \<lparr>shared_table = 0, port_table = 0, subnet_table = 0, vfab_table = 0,
     sid_table = 0, path_table = 0, shared_fd = 0, port_fd = 0, subnet_fd = 0, vfab_fd = 0,
     path_fd = 0, old_port_update_count = 0, old_subnet_update_count = 0,
     old_vfab_update_count = 0, old_path_update_count = 0\<rparr>"

definition zero_writer :: op_ppath_writer_t where
  "zero_writer = \<lparr>published = zero_reader, unpublished = zero_reader, max_ports = 0,
     max_sids = 0, max_subnets = 0, max_vfabs = 0, max_paths = 0\<rparr>"

section \<open>Byte order and hashing\<close>

definition ntohs :: "u16 \<Rightarrow> u16" where
  "ntohs x = push_bit 8 x OR drop_bit 8 x"

definition ntoh64 :: "u64 \<Rightarrow> u64" where
  "ntoh64 x = push_bit 56 (x AND 0x00000000000000FF) OR
     push_bit 40 (x AND 0x000000000000FF00) OR
     push_bit 24 (x AND 0x0000000000FF0000) OR
     push_bit 8 (x AND 0x00000000FF000000) OR
     drop_bit 8 (x AND 0x000000FF00000000) OR
     drop_bit 24 (x AND 0x0000FF0000000000) OR
     drop_bit 40 (x AND 0x00FF000000000000) OR
     drop_bit 56 (x AND 0xFF00000000000000)"

definition raw_bytes :: "IB_GID_NO \<Rightarrow> u8 list" where
  "raw_bytes g = map (\<lambda>i. ucast (drop_bit (8 * i) (SubnetPrefix g))) [0..<8] @
     map (\<lambda>i. ucast (drop_bit (8 * i) (InterfaceID g))) [0..<8]"

definition gid_hash :: "IB_GID_NO \<Rightarrow> nat" where
  "gid_hash g = unat (foldl (\<lambda>h b. h + ucast b) (0 :: u32) (raw_bytes g) AND 4095)"

definition lid_hash :: "u16 \<Rightarrow> nat" where
  "lid_hash i = unat ((ucast (ntohs i) :: u32) AND 4095)"

definition lmc_mask :: "u16 list" where
  "lmc_mask = [0xffff, 0xfffe, 0xfffc, 0xfff8, 0xfff0, 0xffe0, 0xffc0, 0xff80]"

text \<open>0 is a reserved value for the update counters.\<close>

definition bump_count :: "u32 \<Rightarrow> u32" where
  "bump_count x = (let y = x + 1 in if y = 0 then 1 else y)"

section \<open>Shared memory\<close>

text \<open>\<open>Raw\<close> is an object that has been created but not written.\<close>

datatype object =
    Raw
  | Shared op_ppath_shared_table_t
  | Ports op_ppath_port_table_t
  | Subnets op_ppath_subnet_table_t
  | Vfabs op_ppath_vfab_table_t
  | Paths op_ppath_table_t

text \<open>\<open>outcome\<close> gives the error of the n-th system call, 0 when it succeeds.\<close>

record shm =
  objects :: "nat \<Rightarrow> object option"
  names :: "string \<Rightarrow> nat option"
  fds :: "(nat \<times> nat) list"
  next_addr :: nat
  calls :: nat
  outcome :: "nat \<Rightarrow> errno"

definition syscall :: "shm \<Rightarrow> errno \<times> shm" where
  "syscall s = (outcome s (calls s), s\<lparr>calls := Suc (calls s)\<rparr>)"

definition put :: "nat \<Rightarrow> object \<Rightarrow> shm \<Rightarrow> shm" where
  "put a x s = s\<lparr>objects := (objects s)(a := Some x)\<rparr>"

definition get_shared :: "shm \<Rightarrow> nat \<Rightarrow> op_ppath_shared_table_t option" where
  "get_shared s a = (case objects s a of Some (Shared t) \<Rightarrow> if a = 0 then None else Some t | _ \<Rightarrow> None)"

definition get_ports :: "shm \<Rightarrow> nat \<Rightarrow> op_ppath_port_table_t option" where
  "get_ports s a = (case objects s a of Some (Ports t) \<Rightarrow> if a = 0 then None else Some t | _ \<Rightarrow> None)"

definition get_subnets :: "shm \<Rightarrow> nat \<Rightarrow> op_ppath_subnet_table_t option" where
  "get_subnets s a = (case objects s a of Some (Subnets t) \<Rightarrow> if a = 0 then None else Some t | _ \<Rightarrow> None)"

definition get_vfabs :: "shm \<Rightarrow> nat \<Rightarrow> op_ppath_vfab_table_t option" where
  "get_vfabs s a = (case objects s a of Some (Vfabs t) \<Rightarrow> if a = 0 then None else Some t | _ \<Rightarrow> None)"

definition get_paths :: "shm \<Rightarrow> nat \<Rightarrow> op_ppath_table_t option" where
  "get_paths s a = (case objects s a of Some (Paths t) \<Rightarrow> if a = 0 then None else Some t | _ \<Rightarrow> None)"

text \<open>An array read, which has no result outside the array.\<close>

definition fetch :: "'a list \<Rightarrow> nat \<Rightarrow> 'a option" where
  "fetch xs i = (if i < length xs then Some (xs ! i) else None)"

text \<open>The lowest descriptor that is not in use, as POSIX has it: 0 when standard input is closed.\<close>

definition new_fd :: "(nat \<times> nat) list \<Rightarrow> nat" where
  "new_fd fs = hd (filter (\<lambda>n. n \<notin> fst ` set fs) [0..<Suc (length fs)])"

definition open_fd :: "nat \<Rightarrow> shm \<Rightarrow> nat \<times> shm" where
  "open_fd a s = (new_fd (fds s), s\<lparr>fds := (new_fd (fds s), a) # fds s\<rparr>)"

definition close :: "nat \<Rightarrow> shm \<Rightarrow> shm" where
  "close fd s = s\<lparr>fds := filter (\<lambda>p. fst p \<noteq> fd) (fds s)\<rparr>"

definition shm_open :: "string \<Rightarrow> bool \<Rightarrow> shm \<Rightarrow> (errno + nat) \<times> shm" where
  "shm_open name creat s =
    (let (e, s1) = syscall s in
     if e \<noteq> 0 then (Inl e, s1)
     else (case names s1 name of
         Some a \<Rightarrow> (let (fd, s2) = open_fd a s1 in (Inr fd, s2))
       | None \<Rightarrow>
           if \<not> creat then (Inl ENOENT, s1)
           else (let a = next_addr s1;
                     s2 = put a Raw (s1\<lparr>names := (names s1)(name \<mapsto> a), next_addr := Suc a\<rparr>);
                     (fd, s3) = open_fd a s2
                 in (Inr fd, s3))))"

definition shm_unlink :: "string \<Rightarrow> shm \<Rightarrow> shm" where
  "shm_unlink name s = s\<lparr>names := (names s)(name := None)\<rparr>"

definition ftruncate :: "nat \<Rightarrow> shm \<Rightarrow> errno \<times> shm" where
  "ftruncate fd s = syscall s"

definition mmap :: "nat \<Rightarrow> nat \<Rightarrow> shm \<Rightarrow> (errno + nat) \<times> shm" where
  "mmap len fd s =
    (let (e, s1) = syscall s in
     if e \<noteq> 0 then (Inl e, s1)
     else if len = 0 then (Inl EINVAL, s1)
     else (case map_of (fds s1) fd of None \<Rightarrow> (Inl 9, s1) | Some a \<Rightarrow> (Inr a, s1)))"

definition malloc_shared :: "shm \<Rightarrow> nat \<times> shm" where
  "malloc_shared s =
    (let (e, s1) = syscall s in
     if e \<noteq> 0 then (0, s1)
     else (let a = next_addr s1 in (a, put a (Shared zero_shared) (s1\<lparr>next_addr := Suc a\<rparr>))))"

definition free :: "nat \<Rightarrow> shm \<Rightarrow> shm" where
  "free a s = s\<lparr>objects := (objects s)(a := None)\<rparr>"

section \<open>Opening and closing\<close>

text \<open>The decimal digits of \<^verbatim>\<open>sprintf\<close>'s \<^verbatim>\<open>%06u\<close>.\<close>

definition digit_char :: "nat \<Rightarrow> char" where
  "digit_char d = ''0123456789'' ! d"

fun digits :: "nat \<Rightarrow> string" where
  "digits n = (if n < 10 then [digit_char n] else digits (n div 10) @ [digit_char (n mod 10)])"

declare digits.simps [simp del]

definition format_06u :: "u32 \<Rightarrow> string" where
  "format_06u x = (let d = digits (unat x) in replicate (6 - length d) (CHR ''0'') @ d)"

definition SHM_TABLE_NAME :: string where "SHM_TABLE_NAME = ''INTEL_SA_DSC''"

definition table_name :: "table_kind \<Rightarrow> op_ppath_shared_table_t \<Rightarrow> string" where
  "table_name k t = (case k of PORT_TABLE \<Rightarrow> port_table_name t | PATH_TABLE \<Rightarrow> path_table_name t
     | SUBNET_TABLE \<Rightarrow> subnet_table_name t | VFAB_TABLE \<Rightarrow> vfab_table_name t)"

text \<open>Creating a table first gives it the next version and the name of that version.\<close>

definition name_table :: "table_kind \<Rightarrow> op_ppath_shared_table_t \<Rightarrow> op_ppath_shared_table_t" where
  "name_table k t = (case k of
     PORT_TABLE \<Rightarrow> (let n = bump_count (port_update_count t) in
       t\<lparr>port_update_count := n, port_table_name := SHM_TABLE_NAME @ ''_PORT_'' @ format_06u n\<rparr>)
   | PATH_TABLE \<Rightarrow> (let n = bump_count (path_update_count t) in
       t\<lparr>path_update_count := n, path_table_name := SHM_TABLE_NAME @ ''_PATH_'' @ format_06u n\<rparr>)
   | VFAB_TABLE \<Rightarrow> (let n = bump_count (vfab_update_count t) in
       t\<lparr>vfab_update_count := n, vfab_table_name := SHM_TABLE_NAME @ ''_VFAB_'' @ format_06u n\<rparr>)
   | SUBNET_TABLE \<Rightarrow> (let n = bump_count (subnet_update_count t) in
       t\<lparr>subnet_update_count := n, subnet_table_name := SHM_TABLE_NAME @ ''_SUB_'' @ format_06u n\<rparr>))"

text \<open>The bytes of the tables, \<^verbatim>\<open>PORT_TABLE_SIZE\<close> and its like; the number of records, \<^verbatim>\<open>c + 1\<close>,
  is computed in \<^verbatim>\<open>unsigned\<close>.\<close>

definition table_bytes :: "table_kind \<Rightarrow> u32 \<Rightarrow> nat" where
  "table_bytes k c = 16 + (case k of PORT_TABLE \<Rightarrow> 152 | PATH_TABLE \<Rightarrow> 80 | VFAB_TABLE \<Rightarrow> 32816
     | SUBNET_TABLE \<Rightarrow> 16) * unat (c + 1)"

definition sid_bytes :: "table_kind \<Rightarrow> u32 \<Rightarrow> nat" where
  "sid_bytes k c2 = (case k of SUBNET_TABLE \<Rightarrow> 24 * unat (c2 + 1) | _ \<Rightarrow> 0)"

text \<open>The cleared table; the sizes are narrowed to the 32 bits of the header's fields.\<close>

definition clear_table :: "table_kind \<Rightarrow> u32 \<Rightarrow> u32 \<Rightarrow> object" where
  "clear_table k c c2 = (case k of
     PORT_TABLE \<Rightarrow> Ports \<lparr>port_size = of_nat (table_bytes k c), port_count = 0,
       port_recs = replicate (unat (c + 1)) zero_port\<rparr>
   | PATH_TABLE \<Rightarrow> Paths \<lparr>path_size = of_nat (table_bytes k c), path_count = 0,
       path_recs = replicate (unat (c + 1)) zero_record\<rparr>
   | VFAB_TABLE \<Rightarrow> Vfabs \<lparr>vfab_size = of_nat (table_bytes k c), vfab_count = 0,
       vfab_recs = replicate (unat (c + 1)) zero_vfab\<rparr>
   | SUBNET_TABLE \<Rightarrow> Subnets \<lparr>subnet_size = of_nat (table_bytes k c),
       sid_size = of_nat (sid_bytes k c2), subnet_count = 0, sid_count = 0,
       subnet_recs = replicate (unat (c + 1)) zero_subnet,
       sid_recs = replicate (unat (c2 + 1)) zero_sid\<rparr>)"

text \<open>The fields s1 and s2 of any object read as a table header; a new object has none yet.\<close>

definition header_sizes :: "object \<Rightarrow> (u32 \<times> u32) option" where
  "header_sizes x = (case x of
     Raw \<Rightarrow> None
   | Shared t \<Rightarrow> Some (abi_version t, port_update_count t)
   | Ports t \<Rightarrow> Some (port_size t, 0)
   | Subnets t \<Rightarrow> Some (subnet_size t, sid_size t)
   | Vfabs t \<Rightarrow> Some (vfab_size t, 0)
   | Paths t \<Rightarrow> Some (path_size t, 0))"

text \<open>What a reader sees of a table: the records within the bytes it has mapped.  The service ids
  start at s1.\<close>

definition see_ports :: "shm \<Rightarrow> nat \<Rightarrow> op_ppath_port_table_t option" where
  "see_ports s a = map_option (\<lambda>t. t\<lparr>port_recs := take ((unat (port_size t) - 16) div 152) (port_recs t)\<rparr>)
     (get_ports s a)"

definition see_subnets :: "shm \<Rightarrow> nat \<Rightarrow> op_ppath_subnet_table_t option" where
  "see_subnets s a = map_option (\<lambda>t. let m = unat (subnet_size t + sid_size t) in
     t\<lparr>subnet_recs := take ((m - 16) div 16) (subnet_recs t),
       sid_recs := take ((m - unat (subnet_size t)) div 24) (sid_recs t)\<rparr>) (get_subnets s a)"

definition see_vfabs :: "shm \<Rightarrow> nat \<Rightarrow> op_ppath_vfab_table_t option" where
  "see_vfabs s a = map_option (\<lambda>t. t\<lparr>vfab_recs := take ((unat (vfab_size t) - 16) div 32816) (vfab_recs t)\<rparr>)
     (get_vfabs s a)"

definition see_paths :: "shm \<Rightarrow> nat \<Rightarrow> op_ppath_table_t option" where
  "see_paths s a = map_option (\<lambda>t. t\<lparr>path_recs := take ((unat (path_size t) - 16) div 80) (path_recs t)\<rparr>)
     (get_paths s a)"

definition attach_table ::
  "table_kind \<Rightarrow> nat \<Rightarrow> nat \<Rightarrow> op_ppath_shared_table_t \<Rightarrow> op_ppath_reader_t \<Rightarrow> op_ppath_reader_t" where
  "attach_table k h fd t r = (case k of
     PORT_TABLE \<Rightarrow> r\<lparr>old_port_update_count := port_update_count t, port_table := h, port_fd := fd\<rparr>
   | PATH_TABLE \<Rightarrow> r\<lparr>old_path_update_count := path_update_count t, path_table := h, path_fd := fd\<rparr>
   | VFAB_TABLE \<Rightarrow> r\<lparr>old_vfab_update_count := vfab_update_count t, vfab_table := h, vfab_fd := fd\<rparr>
   | SUBNET_TABLE \<Rightarrow> r\<lparr>subnet_table := h, sid_table := h, subnet_fd := fd,
       old_subnet_update_count := subnet_update_count t\<rparr>)"


text \<open>The two ways of mapping the table of an open descriptor: a new table is sized, mapped and
  cleared; an existing one is mapped for its header, and again at the size found there, the sum
  of two \<^verbatim>\<open>uint32\<close>.  A subnet table of 4 GB or more, whose narrowed s1 would put the service ids in
  the midst of the subnets, has no result.\<close>

definition map_new_table ::
  "table_kind \<Rightarrow> u32 \<Rightarrow> u32 \<Rightarrow> nat \<Rightarrow> shm \<Rightarrow> ((errno + nat) \<times> shm) option" where
  "map_new_table k c c2 fd s =
    (let (e, s1) = ftruncate fd s in
     if e \<noteq> 0 then Some (Inl e, s1)
     else (case mmap (table_bytes k c + sid_bytes k c2) fd s1 of
         (Inl e2, s2) \<Rightarrow> Some (Inl e2, s2)
       | (Inr h, s2) \<Rightarrow>
           if k = SUBNET_TABLE \<and> 2 ^ 32 \<le> table_bytes k c then None
           else Some (Inr h, put h (clear_table k c c2) s2)))"

definition map_old_table :: "nat \<Rightarrow> shm \<Rightarrow> ((errno + nat) \<times> shm) option" where
  "map_old_table fd s =
    (case mmap 16 fd s of
       (Inl e, s1) \<Rightarrow> Some (Inl e, s1)
     | (Inr h, s1) \<Rightarrow> do {
         x \<leftarrow> objects s1 h;
         (z1, z2) \<leftarrow> header_sizes x;
         Some (mmap (unat (z1 + z2)) fd s1)
       })"

definition open_ppath_table ::
  "op_ppath_reader_t \<Rightarrow> table_kind \<Rightarrow> bool \<Rightarrow> u32 \<Rightarrow> u32 \<Rightarrow> shm \<Rightarrow>
     (errno \<times> op_ppath_reader_t \<times> shm) option" where
  "open_ppath_table r k creat c c2 s = do {
     t0 \<leftarrow> get_shared s (shared_table r);
     let t = (if creat then name_table k t0 else t0);
     let s1 = (if creat then put (shared_table r) (Shared t) s else s);
     case shm_open (table_name k t) creat s1 of
       (Inl e, s2) \<Rightarrow> Some (e, r, s2)
     | (Inr fd, s2) \<Rightarrow> do {
         (res, s3) \<leftarrow> (if creat then map_new_table k c c2 fd s2 else map_old_table fd s2);
         case res of
           Inl e \<Rightarrow>
             (let s4 = close fd s3 in
              Some (e, r, if creat then shm_unlink (table_name k t) s4 else s4))
         | Inr h \<Rightarrow> Some (0, attach_table k h fd t r, s3)
       }
   }"

definition close_if_open :: "nat \<Rightarrow> shm \<Rightarrow> shm" where
  "close_if_open fd s = (if fd > 0 then close fd s else s)"

definition close_ppath_table :: "op_ppath_reader_t \<Rightarrow> table_kind \<Rightarrow> shm \<Rightarrow> op_ppath_reader_t \<times> shm" where
  "close_ppath_table r k s = (case k of
     PATH_TABLE \<Rightarrow> (r\<lparr>path_table := 0, path_fd := 0\<rparr>, close_if_open (path_fd r) s)
   | PORT_TABLE \<Rightarrow> (r\<lparr>port_table := 0, port_fd := 0\<rparr>, close_if_open (port_fd r) s)
   | VFAB_TABLE \<Rightarrow> (r\<lparr>vfab_table := 0, vfab_fd := 0\<rparr>, close_if_open (vfab_fd r) s)
   | SUBNET_TABLE \<Rightarrow> (r\<lparr>subnet_table := 0, subnet_fd := 0\<rparr>, close_if_open (subnet_fd r) s))"

definition reopen_ppath_table ::
  "op_ppath_reader_t \<Rightarrow> table_kind \<Rightarrow> bool \<Rightarrow> u32 \<Rightarrow> u32 \<Rightarrow> shm \<Rightarrow>
     (errno \<times> op_ppath_reader_t \<times> shm) option" where
  "reopen_ppath_table r k creat c c2 s =
    (let (r1, s1) = close_ppath_table r k s in open_ppath_table r1 k creat c c2 s1)"

text \<open>\<open>op_ppath_close_reader\<close> unmaps all tables, closes the descriptors, and unmaps the shared
  table only when it has a descriptor: the writer's unpublished one has none.\<close>

definition op_ppath_close_reader :: "op_ppath_reader_t \<Rightarrow> shm \<Rightarrow> op_ppath_reader_t \<times> shm" where
  "op_ppath_close_reader r s =
    (let r1 = r\<lparr>path_table := 0, port_table := 0, vfab_table := 0, subnet_table := 0\<rparr>;
         s1 = close_if_open (path_fd r) s;
         s2 = close_if_open (port_fd r) s1;
         s3 = close_if_open (subnet_fd r) s2;
         s4 = close_if_open (vfab_fd r) s3;
         r2 = r1\<lparr>path_fd := 0, port_fd := 0, subnet_fd := 0, vfab_fd := 0\<rparr>;
         r3 = (if shared_fd r2 > 0 then r2\<lparr>shared_table := 0\<rparr> else r2);
         s5 = close_if_open (shared_fd r3) s4
     in (r3\<lparr>shared_fd := 0\<rparr>, s5))"

definition unlink_if_named :: "string \<Rightarrow> shm \<Rightarrow> shm" where
  "unlink_if_named n s = (if n \<noteq> [] then shm_unlink n s else s)"

text \<open>The names are copied into buffers of 32 bytes first.\<close>

definition close_and_unlink_tables ::
  "op_ppath_reader_t \<Rightarrow> shm \<Rightarrow> (op_ppath_reader_t \<times> shm) option" where
  "close_and_unlink_tables r s = do {
     t \<leftarrow> get_shared s (shared_table r);
     let n1 = take 31 (port_table_name t);
     let n2 = take 31 (subnet_table_name t);
     let n3 = take 31 (vfab_table_name t);
     let n4 = take 31 (path_table_name t);
     let (r1, s1) = op_ppath_close_reader r s;
     Some (r1, unlink_if_named n4 (unlink_if_named n3 (unlink_if_named n2 (unlink_if_named n1 s1))))
   }"

definition op_ppath_close_writer :: "op_ppath_writer_t \<Rightarrow> shm \<Rightarrow> (op_ppath_writer_t \<times> shm) option" where
  "op_ppath_close_writer w s = do {
     (p, s1) \<leftarrow> close_and_unlink_tables (published w) s;
     (u, s2) \<leftarrow> close_and_unlink_tables (unpublished w) s1;
     Some (w\<lparr>published := p, unpublished := u\<rparr>,
       if shared_table u \<noteq> 0 then free (shared_table u) s2 else s2)
   }"

text \<open>Descriptor 0 counts as none: on an error it is neither closed nor is the name unlinked.\<close>

definition open_shared_table ::
  "op_ppath_reader_t \<Rightarrow> string \<Rightarrow> bool \<Rightarrow> shm \<Rightarrow> errno \<times> op_ppath_reader_t \<times> shm" where
  "open_shared_table r name creat s =
    (case shm_open name creat s of
       (Inl e, s1) \<Rightarrow> (e, r\<lparr>shared_fd := 0, shared_table := 0\<rparr>, s1)
     | (Inr fd, s1) \<Rightarrow>
         (let (e, s2) = (if creat then ftruncate fd s1 else (0, s1));
              (res, s3) = (if e \<noteq> 0 then (Inl e, s2) else mmap 160 fd s2)
          in case res of
               Inl e2 \<Rightarrow>
                 (e2, r\<lparr>shared_fd := 0, shared_table := 0\<rparr>,
                  if fd > 0 then (let s4 = close fd s3 in if creat then shm_unlink name s4 else s4)
                  else s3)
             | Inr h \<Rightarrow> (0, r\<lparr>shared_fd := fd, shared_table := h\<rparr>, s3)))"

definition connect_shared_table_rw ::
  "op_ppath_reader_t \<Rightarrow> shm \<Rightarrow> errno \<times> op_ppath_reader_t \<times> shm" where
  "connect_shared_table_rw r s =
    (let (e, r1, s1) = open_shared_table r SHM_TABLE_NAME True s in
     if e \<noteq> 0 then (e, r1, s1)
     else (e, r1, put (shared_table r1) (Shared (zero_shared\<lparr>abi_version := 3\<rparr>)) s1))"

text \<open>Another ABI version is only logged.\<close>

definition connect_shared_table ::
  "op_ppath_reader_t \<Rightarrow> shm \<Rightarrow> (errno \<times> op_ppath_reader_t \<times> shm) option" where
  "connect_shared_table r s =
    (let (e, r1, s1) = open_shared_table r SHM_TABLE_NAME False s in
     if e \<noteq> 0 then Some (e, r1, s1)
     else do { _ \<leftarrow> get_shared s1 (shared_table r1); Some (e, r1, s1) })"

definition disconnect_shared_table :: "op_ppath_reader_t \<Rightarrow> shm \<Rightarrow> op_ppath_reader_t \<times> shm" where
  "disconnect_shared_table r s =
    (r\<lparr>shared_table := 0\<rparr>,
     if shared_fd r > 0 then shm_unlink SHM_TABLE_NAME (close (shared_fd r) s) else s)"

definition op_ppath_create_writer :: "shm \<Rightarrow> (errno \<times> op_ppath_writer_t \<times> shm) option" where
  "op_ppath_create_writer s =
    (let w = zero_writer; (e, p, s1) = connect_shared_table_rw (published w) s in
     if e \<noteq> 0 then Some (e, w\<lparr>published := p\<rparr>, s1)
     else (let (a, s2) = malloc_shared s1 in
       if a = 0 then (let (p1, s3) = disconnect_shared_table p s2 in
         Some (ENOMEM, w\<lparr>published := p1\<rparr>, s3))
       else do {
         t \<leftarrow> get_shared s2 (shared_table p);
         let u = zero_shared\<lparr>port_update_count := port_update_count t,
           subnet_update_count := subnet_update_count t,
           vfab_update_count := vfab_update_count t,
           path_update_count := path_update_count t\<rparr>;
         Some (0, w\<lparr>published := p, unpublished := (unpublished w)\<lparr>shared_table := a\<rparr>\<rparr>,
           put a (Shared u) s2)
       }))"

text \<open>\<open>op_ppath_create_reader\<close>: the \<^verbatim>\<open>continue\<close> of a \<^verbatim>\<open>do ... while (0)\<close> leaves the loop.\<close>

fun open_tables ::
  "table_kind list \<Rightarrow> op_ppath_reader_t \<Rightarrow> shm \<Rightarrow> (errno \<times> op_ppath_reader_t \<times> shm) option" where
  "open_tables [] r s = Some (0, r, s)"
| "open_tables (k # ks) r s = do {
     (e, r1, s1) \<leftarrow> open_ppath_table r k False 0 0 s;
     if e \<noteq> 0 then (let (r2, s2) = op_ppath_close_reader r1 s1 in Some (e, r2, s2))
     else open_tables ks r1 s1
   }"

definition op_ppath_create_reader :: "shm \<Rightarrow> (errno \<times> op_ppath_reader_t \<times> shm) option" where
  "op_ppath_create_reader s = do {
     (e, r, s1) \<leftarrow> connect_shared_table zero_reader s;
     if e \<noteq> 0 then Some (e, r, s1)
     else open_tables [PORT_TABLE, PATH_TABLE, SUBNET_TABLE, VFAB_TABLE] r s1
   }"


section \<open>Filling the unpublished tables\<close>

definition op_ppath_initialize_ports ::
  "op_ppath_writer_t \<Rightarrow> u32 \<Rightarrow> shm \<Rightarrow> (errno \<times> op_ppath_writer_t \<times> shm) option" where
  "op_ppath_initialize_ports w n s =
    (let (r, s1) = close_ppath_table (unpublished w) PORT_TABLE s in do {
       (e, r1, s2) \<leftarrow> open_ppath_table r PORT_TABLE True n 0 s1;
       Some (e, w\<lparr>unpublished := r1, max_ports := n\<rparr>, s2) })"

definition op_ppath_initialize_vfabrics ::
  "op_ppath_writer_t \<Rightarrow> u32 \<Rightarrow> shm \<Rightarrow> (errno \<times> op_ppath_writer_t \<times> shm) option" where
  "op_ppath_initialize_vfabrics w n s =
    (let (r, s1) = close_ppath_table (unpublished w) VFAB_TABLE s in do {
       (e, r1, s2) \<leftarrow> open_ppath_table r VFAB_TABLE True n 0 s1;
       Some (e, w\<lparr>unpublished := r1, max_vfabs := n\<rparr>, s2) })"

definition op_ppath_initialize_paths ::
  "op_ppath_writer_t \<Rightarrow> u32 \<Rightarrow> shm \<Rightarrow> (errno \<times> op_ppath_writer_t \<times> shm) option" where
  "op_ppath_initialize_paths w n s =
    (let (r, s1) = close_ppath_table (unpublished w) PATH_TABLE s in do {
       (e, r1, s2) \<leftarrow> open_ppath_table r PATH_TABLE True n 0 s1;
       Some (e, w\<lparr>unpublished := r1, max_paths := n\<rparr>, s2) })"

definition op_ppath_initialize_subnets ::
  "op_ppath_writer_t \<Rightarrow> u32 \<Rightarrow> u32 \<Rightarrow> shm \<Rightarrow> (errno \<times> op_ppath_writer_t \<times> shm) option" where
  "op_ppath_initialize_subnets w n n2 s =
    (let (r, s1) = close_ppath_table (unpublished w) SUBNET_TABLE s in do {
       (e, r1, s2) \<leftarrow> open_ppath_table r SUBNET_TABLE True n n2 s1;
       Some (e, w\<lparr>unpublished := r1, max_subnets := n, max_sids := n2\<rparr>, s2) })"

text \<open>The search loops over a table, \<^verbatim>\<open>for (i = 1; i <= count; i++)\<close>: the first index whose
  record passes the test, or \<^verbatim>\<open>count + 1\<close>.\<close>

function scan :: "('a \<Rightarrow> bool option) \<Rightarrow> 'a list \<Rightarrow> nat \<Rightarrow> nat \<Rightarrow> nat option" where
  "scan P xs n i =
    (if n < i then Some i
     else do { x \<leftarrow> fetch xs i; b \<leftarrow> P x; if b then Some i else scan P xs n (Suc i) })"
  by pat_completeness auto
termination by (relation "measure (\<lambda>(P, xs, n, i). Suc n - i)") auto

declare scan.simps [simp del]

text \<open>An array write, which has no result outside the array.\<close>

definition store :: "'a list \<Rightarrow> nat \<Rightarrow> 'a \<Rightarrow> 'a list option" where
  "store xs i x = (if i < length xs then Some (xs[i := x]) else None)"

definition op_ppath_add_subnet :: "op_ppath_writer_t \<Rightarrow> u64 \<Rightarrow> shm \<Rightarrow> (errno \<times> shm) option" where
  "op_ppath_add_subnet w prefix s = do {
     let a = subnet_table (unpublished w);
     t \<leftarrow> get_subnets s a;
     if subnet_count t \<ge> max_subnets w then Some (ENOMEM, s)
     else do {
       let n = subnet_count t + 1;
       recs \<leftarrow> store (subnet_recs t) (unat n) \<lparr>subnet_prefix = prefix, first_sid = 0\<rparr>;
       Some (0, put a (Subnets (t\<lparr>subnet_count := n, subnet_recs := recs\<rparr>)) s)
     }
   }"

definition op_ppath_add_port ::
  "op_ppath_writer_t \<Rightarrow> op_ppath_port_record_t \<Rightarrow> shm \<Rightarrow> (errno \<times> shm) option" where
  "op_ppath_add_port w p s = do {
     let r = unpublished w;
     t \<leftarrow> get_ports s (port_table r);
     if port_count t \<ge> max_ports w then Some (ENOMEM, s)
     else do {
       let t1 = t\<lparr>port_count := port_count t + 1\<rparr>;
       let s1 = put (port_table r) (Ports t1) s;
       st \<leftarrow> get_subnets s1 (subnet_table r);
       i \<leftarrow> scan (\<lambda>x. Some (subnet_prefix x = port_prefix p)) (subnet_recs st) (unat (subnet_count st)) 1;
       if i > unat (subnet_count st) then Some (EINVAL, s1)
       else do {
         recs \<leftarrow> store (port_recs t1) (unat (port_count t1)) (p\<lparr>subnet_id := of_nat i\<rparr>);
         Some (0, put (port_table r) (Ports (t1\<lparr>port_recs := recs\<rparr>)) s1)
       }
     }
   }"

definition op_ppath_add_sid ::
  "op_ppath_writer_t \<Rightarrow> u64 \<Rightarrow> u64 \<Rightarrow> u64 \<Rightarrow> string \<Rightarrow> shm \<Rightarrow> (errno \<times> shm) option" where
  "op_ppath_add_sid w prefix lower upper name s = do {
     let r = unpublished w;
     let a = subnet_table r;
     t \<leftarrow> get_subnets s a;
     if sid_count t \<ge> max_sids w then Some (ENOMEM, s)
     else do {
       let n = sid_count t + 1;
       old \<leftarrow> fetch (sid_recs t) (unat n);
       sids1 \<leftarrow> store (sid_recs t) (unat n) (old\<lparr>lower_sid := lower, upper_sid := upper\<rparr>);
       let t1 = t\<lparr>sid_count := n, sid_recs := sids1\<rparr>;
       let s1 = put a (Subnets t1) s;
       i \<leftarrow> scan (\<lambda>x. Some (subnet_prefix x = prefix)) (subnet_recs t1) (unat (subnet_count t1)) 1;
       if i > unat (subnet_count t1) then Some (EINVAL, s1)
       else do {
         let id = unat (of_nat i :: u16);
         vt \<leftarrow> get_vfabs s1 (vfab_table r);
         v \<leftarrow> scan (\<lambda>x. Some (vfab_name x = name)) (vfab_recs vt) (unat (vfab_count vt)) 1;
         if v > unat (vfab_count vt) then Some (EINVAL, s1)
         else do {
           sub \<leftarrow> fetch (subnet_recs t1) id;
           rec \<leftarrow> fetch sids1 (unat n);
           sids2 \<leftarrow> store sids1 (unat n) (rec\<lparr>vfab_id := of_nat v, next_sid := first_sid sub\<rparr>);
           subs \<leftarrow> store (subnet_recs t1) id (sub\<lparr>first_sid := n\<rparr>);
           Some (0, put a (Subnets (t1\<lparr>sid_recs := sids2, subnet_recs := subs\<rparr>)) s1)
         }
       }
     }
   }"

text \<open>The name is cut to the 31 characters that fit the record.\<close>

definition op_ppath_add_vfab ::
  "op_ppath_writer_t \<Rightarrow> string \<Rightarrow> u64 \<Rightarrow> u16 \<Rightarrow> u16 \<Rightarrow> shm \<Rightarrow> (errno \<times> shm) option" where
  "op_ppath_add_vfab w name prefix pkey sl s = do {
     let a = vfab_table (unpublished w);
     t \<leftarrow> get_vfabs s a;
     if vfab_count t \<ge> max_vfabs w then Some (ENOMEM, s)
     else do {
       let n = vfab_count t + 1;
       v \<leftarrow> fetch (vfab_recs t) (unat n);
       recs \<leftarrow> store (vfab_recs t) (unat n)
         (v\<lparr>vfab_name := take 31 name, vfab_prefix := prefix, vfab_pkey := pkey, vfab_sl := sl\<rparr>);
       Some (0, put a (Vfabs (t\<lparr>vfab_count := n, vfab_recs := recs\<rparr>)) s)
     }
   }"

text \<open>Whether a service id falls to a record: blank to blank, a single id exactly, or a range.\<close>

definition sid_matches :: "u64 \<Rightarrow> op_ppath_sid_record_t \<Rightarrow> bool" where
  "sid_matches ho_sid r =
    (let lo = ntoh64 (lower_sid r); up = ntoh64 (upper_sid r) in
     lo = 0 \<and> ho_sid = 0 \<or> up = 0 \<and> ho_sid = lo \<or> lo \<noteq> 0 \<and> ho_sid \<ge> lo \<and> ho_sid \<le> up)"

partial_function (option) add_sid_walk ::
  "u64 \<Rightarrow> op_ppath_sid_record_t list \<Rightarrow> u32 \<Rightarrow> u32 option" where
  "add_sid_walk ho_sid sids i =
    (if i = 0 then Some 0
     else do {
       r \<leftarrow> fetch sids (unat i);
       if sid_matches ho_sid r then Some i else add_sid_walk ho_sid sids (next_sid r)
     })"

definition op_ppath_add_path ::
  "op_ppath_writer_t \<Rightarrow> IB_PATH_RECORD_NO \<Rightarrow> shm \<Rightarrow> (errno \<times> shm) option" where
  "op_ppath_add_path w record s = do {
     let r = unpublished w;
     st \<leftarrow> get_subnets s (subnet_table r);
     i \<leftarrow> scan (\<lambda>x. Some (subnet_prefix x = SubnetPrefix (SGID record))) (subnet_recs st)
       (unat (subnet_count st)) 1;
     if i > unat (subnet_count st) then Some (EINVAL, s)
     else do {
       subnet \<leftarrow> fetch (subnet_recs st) i;
       stp \<leftarrow> get_subnets s (sid_table r);
       si \<leftarrow> add_sid_walk (ntoh64 (ServiceID record)) (sid_recs stp) (first_sid subnet);
       if si = 0 then Some (EINVAL, s)
       else do {
         sid \<leftarrow> fetch (sid_recs stp) (unat si);
         let v = unat (vfab_id sid);
         pt \<leftarrow> get_paths s (path_table r);
         if path_count pt \<ge> max_paths w then Some (ENOMEM, s)
         else do {
           let n = path_count pt + 1;
           old \<leftarrow> fetch (path_recs pt) (unat n);
           vt \<leftarrow> get_vfabs s (vfab_table r);
           vfab \<leftarrow> fetch (vfab_recs vt) v;
           let gh = gid_hash (DGID record);
           let lh = lid_hash (DLID record);
           recs \<leftarrow> store (path_recs pt) (unat n)
             (old\<lparr>path_rec := record, flags := 1, next_lid := first_dlid vfab lh,
               next_guid := first_dguid vfab gh\<rparr>);
           vfabs \<leftarrow> store (vfab_recs vt) v
             (vfab\<lparr>first_dlid := (first_dlid vfab)(lh := n),
               first_dguid := (first_dguid vfab)(gh := n)\<rparr>);
           Some (0, put (vfab_table r) (Vfabs (vt\<lparr>vfab_recs := vfabs\<rparr>))
             (put (path_table r) (Paths (pt\<lparr>path_count := n, path_recs := recs\<rparr>)) s))
         }
       }
     }
   }"

section \<open>Publishing\<close>

definition update_count :: "table_kind \<Rightarrow> op_ppath_shared_table_t \<Rightarrow> u32" where
  "update_count k t = (case k of PORT_TABLE \<Rightarrow> port_update_count t | PATH_TABLE \<Rightarrow> path_update_count t
     | SUBNET_TABLE \<Rightarrow> subnet_update_count t | VFAB_TABLE \<Rightarrow> vfab_update_count t)"

definition set_name :: "table_kind \<Rightarrow> string \<Rightarrow> op_ppath_shared_table_t \<Rightarrow> op_ppath_shared_table_t" where
  "set_name k n t = (case k of PORT_TABLE \<Rightarrow> t\<lparr>port_table_name := n\<rparr> | PATH_TABLE \<Rightarrow> t\<lparr>path_table_name := n\<rparr>
     | SUBNET_TABLE \<Rightarrow> t\<lparr>subnet_table_name := n\<rparr> | VFAB_TABLE \<Rightarrow> t\<lparr>vfab_table_name := n\<rparr>)"

text \<open>One table: when its version differs, the old object loses its name and the new name is
  copied to the shared table.\<close>

definition publish_table ::
  "table_kind \<Rightarrow> op_ppath_reader_t \<Rightarrow> op_ppath_shared_table_t \<Rightarrow> shm \<Rightarrow>
     (op_ppath_reader_t \<times> shm) option" where
  "publish_table k p u s = do {
     t \<leftarrow> get_shared s (shared_table p);
     if update_count k t = update_count k u then Some (p, s)
     else (let (p1, s1) = close_ppath_table p k s;
               s2 = shm_unlink (table_name k t) s1
           in Some (p1, put (shared_table p) (Shared (set_name k (table_name k u) t)) s2))
   }"

definition op_ppath_publish :: "op_ppath_writer_t \<Rightarrow> shm \<Rightarrow> (op_ppath_writer_t \<times> shm) option" where
  "op_ppath_publish w s = do {
     u \<leftarrow> get_shared s (shared_table (unpublished w));
     (p1, s1) \<leftarrow> publish_table PORT_TABLE (published w) u s;
     (p2, s2) \<leftarrow> publish_table SUBNET_TABLE p1 u s1;
     (p3, s3) \<leftarrow> publish_table VFAB_TABLE p2 u s2;
     (p4, s4) \<leftarrow> publish_table PATH_TABLE p3 u s3;
     t \<leftarrow> get_shared s4 (shared_table p4);
     let t1 = t\<lparr>port_update_count := port_update_count u,
       subnet_update_count := subnet_update_count u,
       vfab_update_count := vfab_update_count u,
       path_update_count := path_update_count u\<rparr>;
     Some (w\<lparr>published := p4\<rparr>, put (shared_table p4) (Shared t1) s4)
   }"


section \<open>Looking a path up\<close>

abbreviation COMP_SERVICEID :: u64 where "COMP_SERVICEID \<equiv> 0x3"
abbreviation COMP_DGID :: u64 where "COMP_DGID \<equiv> 0x4"
abbreviation COMP_SGID :: u64 where "COMP_SGID \<equiv> 0x8"
abbreviation COMP_DLID :: u64 where "COMP_DLID \<equiv> 0x10"
abbreviation COMP_SLID :: u64 where "COMP_SLID \<equiv> 0x20"
abbreviation COMP_PKEY :: u64 where "COMP_PKEY \<equiv> 0x2000"

text \<open>A reader's table is stale when its version is not the published one.\<close>

definition stale :: "table_kind \<Rightarrow> op_ppath_reader_t \<Rightarrow> op_ppath_shared_table_t \<Rightarrow> bool" where
  "stale k r t = (case k of
     PORT_TABLE \<Rightarrow> old_port_update_count r \<noteq> port_update_count t
   | PATH_TABLE \<Rightarrow> old_path_update_count r \<noteq> path_update_count t
   | VFAB_TABLE \<Rightarrow> old_vfab_update_count r \<noteq> vfab_update_count t
   | SUBNET_TABLE \<Rightarrow> old_subnet_update_count r \<noteq> subnet_update_count t)"

text \<open>The source port of the query: by GUID, or by device name and LID below the port's mask.
  A NULL device name is the empty one.\<close>

definition port_matches ::
  "u64 \<Rightarrow> string \<Rightarrow> IB_PATH_RECORD_NO \<Rightarrow> op_ppath_port_record_t \<Rightarrow> bool option" where
  "port_matches cmask hfi q p =
    (if cmask AND COMP_SGID \<noteq> 0 then Some (source_guid p = InterfaceID (SGID q))
     else do {
       m \<leftarrow> fetch lmc_mask (unat (lmc p));
       Some (base_lid p = ntohs (SLID q) AND m \<and> hfi_name p = hfi)
     })"

text \<open>Whether the key is in the port's key table, which ends with a zero: a full member key must
  be there itself, or the key is there without its membership bit.\<close>

fun pkey_member :: "u16 \<Rightarrow> u16 list \<Rightarrow> bool" where
  "pkey_member q [] \<longleftrightarrow> False"
| "pkey_member q (k # ks) \<longleftrightarrow>
     k \<noteq> 0 \<and> (q AND 0x0080 \<noteq> 0 \<and> k = q \<or> k AND 0xff7f = q \<or> pkey_member q ks)"

text \<open>The service id walk of a query also remembers the last record with a blank id, and takes it
  when no record matches.\<close>

partial_function (option) find_sid_walk ::
  "u64 \<Rightarrow> op_ppath_sid_record_t list \<Rightarrow> u32 \<Rightarrow> u32 \<Rightarrow> u32 option" where
  "find_sid_walk ho_sid sids def_sid p =
    (if p = 0 then Some def_sid
     else do {
       r \<leftarrow> fetch sids (unat p);
       if sid_matches ho_sid r then Some p
       else find_sid_walk ho_sid sids (if ntoh64 (lower_sid r) = 0 then p else def_sid) (next_sid r)
     })"

definition find_vfab ::
  "u64 \<Rightarrow> IB_PATH_RECORD_NO \<Rightarrow> op_ppath_port_record_t \<Rightarrow> op_ppath_reader_t \<Rightarrow> shm \<Rightarrow> nat option option" where
  "find_vfab cmask q p r s =
    (if cmask AND COMP_PKEY \<noteq> 0 then do {
       vt \<leftarrow> see_vfabs s (vfab_table r);
       v \<leftarrow> scan (\<lambda>x. Some (vfab_prefix x = port_prefix p \<and>
             vfab_pkey x AND 0xff7f = P_Key q AND 0xff7f)) (vfab_recs vt) (unat (vfab_count vt)) 1;
       Some (if v > unat (vfab_count vt) then None else Some v)
     }
     else do {
       st \<leftarrow> see_subnets s (subnet_table r);
       sub \<leftarrow> fetch (subnet_recs st) (unat (subnet_id p));
       stp \<leftarrow> see_subnets s (sid_table r);
       si \<leftarrow> find_sid_walk (if cmask AND COMP_SERVICEID \<noteq> 0 then ntoh64 (ServiceID q) else 0)
         (sid_recs stp) 0 (first_sid sub);
       if si = 0 then Some None
       else do { sid \<leftarrow> fetch (sid_recs stp) (unat si); Some (Some (unat (vfab_id sid))) }
     })"

definition gid_query :: "u64 \<Rightarrow> bool" where
  "gid_query cmask \<longleftrightarrow> cmask AND (COMP_SGID OR COMP_DGID) \<noteq> 0"

definition path_matches :: "u64 \<Rightarrow> IB_PATH_RECORD_NO \<Rightarrow> IB_PATH_RECORD_NO \<Rightarrow> bool" where
  "path_matches cmask q p \<longleftrightarrow>
    (if gid_query cmask then SGID q = SGID p \<and> DGID q = DGID p
     else SLID q = SLID p \<and> DLID q = DLID p) \<and>
    (cmask AND COMP_PKEY = 0 \<or> P_Key p AND 0xff7f = P_Key q AND 0xff7f)"

text \<open>The walk along a chain ends outside the table, with no match, or at a record; a walk that
  does not end is the value \<^verbatim>\<open>None\<close>.\<close>

datatype 'a walk = Outside | NotFound | Hit 'a

partial_function (option) path_walk ::
  "(op_ppath_record_t \<Rightarrow> bool) \<Rightarrow> (op_ppath_record_t \<Rightarrow> u32) \<Rightarrow> op_ppath_record_t list \<Rightarrow> u32 \<Rightarrow>
     op_ppath_record_t walk option" where
  "path_walk match next recs p =
    (if p = 0 then Some NotFound
     else (case fetch recs (unat p) of
         None \<Rightarrow> Some Outside
       | Some r \<Rightarrow> if match r then Some (Hit r) else path_walk match next recs (next r)))"

text \<open>The walk along the chain of the query's hash value, and the check that the record is in use.\<close>

definition find_on_chain ::
  "u64 \<Rightarrow> IB_PATH_RECORD_NO \<Rightarrow> op_ppath_vfab_record_t \<Rightarrow> op_ppath_record_t list \<Rightarrow>
     IB_PATH_RECORD_NO walk option" where
  "find_on_chain cmask q v recs = do {
     res \<leftarrow> path_walk (\<lambda>r. path_matches cmask q (path_rec r))
       (if gid_query cmask then next_guid else next_lid) recs
       (if gid_query cmask then first_dguid v (gid_hash (DGID q)) else first_dlid v (lid_hash (DLID q)));
     Some (case res of
         Outside \<Rightarrow> Outside
       | NotFound \<Rightarrow> NotFound
       | Hit r \<Rightarrow> if flags r = 0 then NotFound else Hit (path_rec r))
   }"

text \<open>How a pass of the retry loop ends: on to the next pass by \<^verbatim>\<open>continue\<close> or with no path
  found, out of the function by \<^verbatim>\<open>goto error\<close>, or with a path.\<close>

datatype pass = Again errno | Stop errno | Found IB_PATH_RECORD_NO

definition reload ::
  "bool \<Rightarrow> table_kind \<Rightarrow> op_ppath_reader_t \<Rightarrow> shm \<Rightarrow> (pass \<times> op_ppath_reader_t \<times> shm) option" where
  "reload giveup k r s = do {
     (e, r1, s1) \<leftarrow> reopen_ppath_table r k False 0 0 s;
     Some (if giveup \<and> e \<noteq> 0 then Stop e else Again e, r1, s1)
   }"

text \<open>The second half of a pass, from the choice of the virtual fabric.\<close>

definition find_in_vfab ::
  "u64 \<Rightarrow> IB_PATH_RECORD_NO \<Rightarrow> op_ppath_port_record_t \<Rightarrow> op_ppath_reader_t \<Rightarrow> shm \<Rightarrow>
     (pass \<times> op_ppath_reader_t \<times> shm) option" where
  "find_in_vfab cmask q p r s = do {
     v \<leftarrow> find_vfab cmask q p r s;
     case v of
       None \<Rightarrow> Some (Stop EINVAL, r, s)
     | Some i \<Rightarrow> do {
         t \<leftarrow> get_shared s (shared_table r);
         if stale PATH_TABLE r t then reload False PATH_TABLE r s
         else do {
           vt \<leftarrow> see_vfabs s (vfab_table r);
           vfab \<leftarrow> fetch (vfab_recs vt) i;
           pt \<leftarrow> see_paths s (path_table r);
           res \<leftarrow> find_on_chain cmask q vfab (path_recs pt);
           case res of
             Outside \<Rightarrow> None
           | NotFound \<Rightarrow> Some (Again 0, r, s)
           | Hit x \<Rightarrow> Some (Found x, r, s)
         }
       }
   }"

definition find_pass ::
  "u64 \<Rightarrow> string \<Rightarrow> IB_PATH_RECORD_NO \<Rightarrow> op_ppath_reader_t \<Rightarrow> shm \<Rightarrow>
     (pass \<times> op_ppath_reader_t \<times> shm) option" where
  "find_pass cmask hfi q r s = do {
     t \<leftarrow> get_shared s (shared_table r);
     if stale PORT_TABLE r t then reload True PORT_TABLE r s
     else if cmask AND COMP_SGID = 0 \<and> hfi = [] then Some (Stop EINVAL, r, s)
     else do {
       pt \<leftarrow> see_ports s (port_table r);
       i \<leftarrow> scan (port_matches cmask hfi q) (port_recs pt) (unat (port_count pt)) 1;
       if i > unat (port_count pt) then Some (Stop EINVAL, r, s)
       else do {
         p \<leftarrow> fetch (port_recs pt) i;
         if cmask AND COMP_PKEY \<noteq> 0 \<and> \<not> pkey_member (P_Key q) (pkeys p)
         then Some (Stop EINVAL, r, s)
         else if stale SUBNET_TABLE r t then reload True SUBNET_TABLE r s
         else if stale VFAB_TABLE r t then reload True VFAB_TABLE r s
         else find_in_vfab cmask q p r s
       }
     }
   }"

text \<open>The loop \<^verbatim>\<open>do ... while (!valid && retries <= MAX_RETRIES)\<close>.  \<open>yield n\<close> is what other
  processes do to the shared memory while the n-th pass yields the processor.\<close>

function find_loop ::
  "(nat \<Rightarrow> shm \<Rightarrow> shm) \<Rightarrow> u64 \<Rightarrow> string \<Rightarrow> IB_PATH_RECORD_NO \<Rightarrow> nat \<Rightarrow> op_ppath_reader_t \<Rightarrow> shm \<Rightarrow>
     (pass \<times> op_ppath_reader_t \<times> shm) option" where
  "find_loop yield cmask hfi q retries r s = do {
     (res, r1, s1) \<leftarrow> find_pass cmask hfi q r (yield retries s);
     case res of
       Again e \<Rightarrow> if Suc retries \<le> 5 then find_loop yield cmask hfi q (Suc retries) r1 s1
                  else Some (Again e, r1, s1)
     | Stop e \<Rightarrow> Some (Stop e, r1, s1)
     | Found x \<Rightarrow> Some (Found x, r1, s1)
   }"
  by pat_completeness auto
termination by (relation "measure (\<lambda>(_, _, _, _, n, _, _). 6 - n)") auto

declare find_loop.simps [simp del]

text \<open>The pointers to the query and to the result may be NULL; the device port number is not used
  by the code.\<close>

definition op_ppath_find_path ::
  "(nat \<Rightarrow> shm \<Rightarrow> shm) \<Rightarrow> op_ppath_reader_t \<Rightarrow> string \<Rightarrow> u64 \<Rightarrow> IB_PATH_RECORD_NO option \<Rightarrow>
     IB_PATH_RECORD_NO option \<Rightarrow> shm \<Rightarrow>
     (errno \<times> IB_PATH_RECORD_NO option \<times> op_ppath_reader_t \<times> shm) option" where
  "op_ppath_find_path yield r hfi cmask query result s =
    (case query of
       None \<Rightarrow> Some (EINVAL, result, r, s)
     | Some q \<Rightarrow>
         if result = None then Some (EINVAL, result, r, s)
         else if \<not> gid_query cmask \<and> cmask AND (COMP_SLID OR COMP_DLID) = 0
         then Some (EINVAL, result, r, s)
         else do {
           (res, r1, s1) \<leftarrow> find_loop yield cmask hfi q 0 r s;
           Some (case res of
               Found x \<Rightarrow> (0, Some (x\<lparr>ServiceID := ServiceID q\<rparr>), r1, s1)
             | Stop e \<Rightarrow> (e, Some zero_path, r1, s1)
             | Again e \<Rightarrow> (if e = 0 then ENOENT else e, Some zero_path, r1, s1))
         })"

section \<open>The library calls on top\<close>

text \<open>opasadb_path.c: the component mask of a query is the set of its non-zero fields.\<close>

definition ntohl :: "u32 \<Rightarrow> u32" where
  "ntohl x = push_bit 24 x OR push_bit 8 (x AND 0xFF00) OR drop_bit 8 (x AND 0xFF0000) OR drop_bit 24 x"

definition build_comp_mask :: "IB_PATH_RECORD_NO \<Rightarrow> u64" where
  "build_comp_mask p = foldl (\<lambda>m (c, b). if c then m OR b else m) 0
    [(ServiceID p \<noteq> 0, COMP_SERVICEID),
     (InterfaceID (DGID p) OR SubnetPrefix (DGID p) \<noteq> 0, COMP_DGID),
     (InterfaceID (SGID p) OR SubnetPrefix (SGID p) \<noteq> 0, COMP_SGID),
     (DLID p \<noteq> 0, COMP_DLID),
     (SLID p \<noteq> 0, COMP_SLID),
     (ntohl (hop_flow_raw p) AND 0x80000000 \<noteq> 0, 0x40),
     (ntohl (hop_flow_raw p) AND 0x0FFFFF00 \<noteq> 0, 0x100),
     (ntohl (hop_flow_raw p) AND 0x000000FF \<noteq> 0, 0x200),
     (TClass p \<noteq> 0, 0x400),
     (num_path p AND 0xFF \<noteq> 0, 0x800),
     (num_path p AND 0x7F \<noteq> 0, 0x1000),
     (P_Key p \<noteq> 0, COMP_PKEY),
     (ntohs (qos_class_sl p) AND 0x0FFF \<noteq> 0, 0x4000),
     (ntohs (qos_class_sl p) AND 0xF000 \<noteq> 0, 0x8000),
     (Mtu p AND 0xC0 \<noteq> 0, 0x10000),
     (Mtu p AND 0x3F \<noteq> 0, 0x20000),
     (Rate p AND 0xC0 \<noteq> 0, 0x40000),
     (Rate p AND 0x3F \<noteq> 0, 0x80000),
     (PktLifeTime p AND 0xC0 \<noteq> 0, 0x100000),
     (PktLifeTime p AND 0x3F \<noteq> 0, 0x200000),
     (Preference p \<noteq> 0, 0x400000)]"

text \<open>The reader, the device name and the port's LID and key table of an open context; the verbs
  library that fills them in is outside.\<close>

record op_path_context =
  reader :: op_ppath_reader_t
  device_name :: string
  port_lid :: u16
  pkey_table :: "u16 list"

definition op_path_get_path_by_rec ::
  "(nat \<Rightarrow> shm \<Rightarrow> shm) \<Rightarrow> op_path_context \<Rightarrow> IB_PATH_RECORD_NO \<Rightarrow> IB_PATH_RECORD_NO option \<Rightarrow> shm \<Rightarrow>
     (errno \<times> IB_PATH_RECORD_NO option \<times> op_path_context \<times> shm) option" where
  "op_path_get_path_by_rec yield c query response s = do {
     (e, res, r, s1) \<leftarrow> op_ppath_find_path yield (reader c) (device_name c) (build_comp_mask query)
       (Some query) response s;
     Some (e, res, c\<lparr>reader := r\<rparr>, s1)
   }"

definition op_path_get_path_to_dgid ::
  "(nat \<Rightarrow> shm \<Rightarrow> shm) \<Rightarrow> op_path_context \<Rightarrow> u16 \<Rightarrow> IB_GID_NO \<Rightarrow> IB_PATH_RECORD_NO option \<Rightarrow> shm \<Rightarrow>
     (errno \<times> IB_PATH_RECORD_NO option \<times> op_path_context \<times> shm) option" where
  "op_path_get_path_to_dgid yield c pkey dgid response s =
    op_path_get_path_by_rec yield c
      (zero_path\<lparr>DGID := dgid, P_Key := pkey, SLID := ntohs (port_lid c)\<rparr>) response s"

text \<open>The loop runs over the whole key table; the index is narrowed to 16 bits.\<close>

fun pkey_index :: "u16 \<Rightarrow> u16 list \<Rightarrow> nat \<Rightarrow> nat option" where
  "pkey_index k [] i = None"
| "pkey_index k (x # xs) i = (if k = x then Some i else pkey_index k xs (Suc i))"

definition op_path_find_pkey :: "op_path_context \<Rightarrow> u16 \<Rightarrow> errno + u16" where
  "op_path_find_pkey c k = (case pkey_index k (pkey_table c) 0 of
     None \<Rightarrow> Inl EINVAL | Some i \<Rightarrow> Inr (of_nat i))"

text \<open>\<open>query\<close> is the local acknowledge delay the verbs library reports, if it does.\<close>

definition op_path_compute_timeout :: "u8 option \<Rightarrow> u8 \<Rightarrow> u8" where
  "op_path_compute_timeout query life0 =
    (let life = life0 AND 0x1f in
     case query of
       None \<Rightarrow> 0
     | Some delay \<Rightarrow>
         (let result = (if life < delay then delay + 1 else (life + 1) + 1)
          in if result > 0x1f then 0x1f else result))"


end
