(* ===== verification/PathDbIndex.thy ===== *)
theory PathDbIndex
  imports PathDb
begin

text \<open>
  The chains of the path database.  A table's records fill slots 1, 2, ...; a chain starts at a
  head stored in an owner record and follows a link field of the slots.  New slots are pushed in
  front, so a chain runs through its slots from the newest to the oldest: that is what makes every
  walk end.  The locale \<open>slot_index\<close> states what one kind of link has to provide; the service ids
  of a subnet and the two hash indexes of a virtual fabric are instances.
\<close>

section \<open>Arrays and search loops\<close>

lemma fetch_Some: "fetch xs i = Some x \<longleftrightarrow> i < length xs \<and> xs ! i = x"
  by (auto simp: fetch_def)

lemma store_Some: "store xs i x = Some ys \<longleftrightarrow> i < length xs \<and> ys = xs[i := x]"
  by (auto simp: store_def)

lemma fetch_in [simp]: "i < length xs \<Longrightarrow> fetch xs i = Some (xs ! i)"
  by (simp add: fetch_def)

lemma store_in [simp]: "i < length xs \<Longrightarrow> store xs i x = Some (xs[i := x])"
  by (simp add: store_def)

text \<open>The first position of a list, counted from 1, that passes a test.\<close>

fun position :: "('a \<Rightarrow> bool) \<Rightarrow> 'a list \<Rightarrow> nat option" where
  "position P [] = None"
| "position P (x # xs) = (if P x then Some 1 else map_option Suc (position P xs))"

lemma position_Some:
  "position P xs = Some i \<Longrightarrow> 0 < i \<and> i \<le> length xs \<and> P (xs ! (i - 1)) \<and>
     find P xs = Some (xs ! (i - 1))"
  by (induction xs arbitrary: i) (auto split: if_splits simp: nth_Cons')

lemma position_None: "position P xs = None \<longleftrightarrow> find P xs = None"
  by (induction xs) auto

lemma position_cong [fundef_cong]:
  "xs = ys \<Longrightarrow> (\<And>x. x \<in> set ys \<Longrightarrow> P x = Q x) \<Longrightarrow> position P xs = position Q ys"
  by (induction xs arbitrary: ys) auto

lemma scan_position:
  assumes "length xs < length recs"
    and "\<And>j. j < length xs \<Longrightarrow> P (recs ! Suc j) = Some (Q (xs ! j))"
  shows "scan P recs (length xs) 1 =
    Some (case position Q xs of Some i \<Rightarrow> i | None \<Rightarrow> Suc (length xs))"
proof -
  have "scan P recs (length xs) (Suc k) =
      Some (case position Q (drop k xs) of Some i \<Rightarrow> k + i | None \<Rightarrow> Suc (length xs))"
    if "k \<le> length xs" for k
    using that
  proof (induction "length xs - k" arbitrary: k)
    case 0
    then show ?case by (subst scan.simps) simp
  next
    case (Suc d)
    then have k: "k < length xs" by simp
    then have d: "drop k xs = xs ! k # drop (Suc k) xs" by (simp add: Cons_nth_drop_Suc)
    have f: "fetch recs (Suc k) = Some (recs ! Suc k)" using k assms(1) by (simp add: fetch_in)
    have ih: "scan P recs (length xs) (Suc (Suc k)) =
        Some (case position Q (drop (Suc k) xs) of Some i \<Rightarrow> Suc k + i | None \<Rightarrow> Suc (length xs))"
      by (rule Suc.hyps(1)) (use Suc.hyps(2) k in auto)
    show ?case
      by (subst scan.simps) (use k f ih assms(2) [OF k] d in \<open>simp split: option.splits\<close>)
  qed
  from this [of 0] show ?thesis by (simp split: option.splits)
qed

section \<open>Slots and chains\<close>

text \<open>The slots up to \<open>n\<close> that satisfy \<open>P\<close>, newest first.\<close>

definition slots :: "(nat \<Rightarrow> bool) \<Rightarrow> nat \<Rightarrow> nat list" where
  "slots P n = rev (filter P [1..<Suc n])"

lemma slots_0 [simp]: "slots P 0 = []"
  by (simp add: slots_def)

lemma slots_Suc: "slots P (Suc n) = (if P (Suc n) then [Suc n] else []) @ slots P n"
  by (simp add: slots_def)

lemma set_slots: "set (slots P n) = {i. 1 \<le> i \<and> i \<le> n \<and> P i}"
  by (auto simp: slots_def)

lemma slots_cong: "(\<And>i. 1 \<le> i \<Longrightarrow> i \<le> n \<Longrightarrow> P i = Q i) \<Longrightarrow> slots P n = slots Q n"
  unfolding slots_def by (rule arg_cong [where f = rev]) (rule filter_cong, auto)

lemma slots_entries:
  assumes "\<And>j. j < length xs \<Longrightarrow> P (Suc j) = p (xs ! j) \<and> f (Suc j) = g (xs ! j)"
  shows "map f (slots P (length xs)) = rev (map g (filter p xs))"
  using assms
proof (induction xs rule: rev_induct)
  case (snoc x xs)
  have "map f (slots P (length xs)) = rev (map g (filter p xs))"
  proof (rule snoc.IH)
    fix j assume "j < length xs"
    with snoc.prems [of j] show "P (Suc j) = p (xs ! j) \<and> f (Suc j) = g (xs ! j)"
      by (simp add: nth_append)
  qed
  with snoc.prems [of "length xs"] show ?case by (simp add: slots_Suc)
qed simp

text \<open>Following the link \<open>nxt\<close> from \<open>p\<close> runs through exactly the slots \<open>xs\<close>.\<close>

fun linked :: "('r \<Rightarrow> u32) \<Rightarrow> 'r list \<Rightarrow> u32 \<Rightarrow> nat list \<Rightarrow> bool" where
  "linked nxt recs p [] \<longleftrightarrow> p = 0"
| "linked nxt recs p (i # is) \<longleftrightarrow>
     p \<noteq> 0 \<and> unat p = i \<and> i < length recs \<and> linked nxt recs (nxt (recs ! i)) is"

lemma linked_update:
  "(i \<in> set xs \<Longrightarrow> i < length recs \<Longrightarrow> nxt x = nxt (recs ! i)) \<Longrightarrow>
     linked nxt (recs[i := x]) p xs = linked nxt recs p xs"
  by (induction xs arbitrary: p) (auto simp: nth_list_update_if)

lemma linked_push:
  assumes "linked nxt recs p xs" "n \<notin> set xs" "n < length recs" "0 < n" "n < 2 ^ 32" "nxt x = p"
  shows "linked nxt (recs[n := x]) (of_nat n) (n # xs)"
proof -
  have "unat (of_nat n :: u32) = n" using assms(5) by (simp add: unat_of_nat take_bit_nat_eq_self)
  moreover have "linked nxt (recs[n := x]) p xs" using assms(1,2) by (subst linked_update) auto
  ultimately show ?thesis using assms(3,4,6) by auto
qed

lemma path_walk_linked:
  "linked nxt recs p xs \<Longrightarrow>
     path_walk m nxt recs p = Some (case find m (map ((!) recs) xs) of None \<Rightarrow> NotFound | Some r \<Rightarrow> Hit r)"
proof (induction xs arbitrary: p)
  case Nil
  then show ?case by (subst path_walk.simps) simp
next
  case (Cons i xs)
  then have "path_walk m nxt recs (nxt (recs ! i)) =
      Some (case find m (map ((!) recs) xs) of None \<Rightarrow> NotFound | Some r \<Rightarrow> Hit r)" by simp
  with Cons.prems show ?case
    by (subst path_walk.simps) (simp add: fetch_in)
qed

lemma add_sid_walk_linked:
  "linked next_sid recs p xs \<Longrightarrow>
     add_sid_walk h recs p =
       Some (case find (\<lambda>i. sid_matches h (recs ! i)) xs of None \<Rightarrow> 0 | Some i \<Rightarrow> of_nat i)"
proof (induction xs arbitrary: p)
  case Nil
  then show ?case by (subst add_sid_walk.simps) simp
next
  case (Cons i xs)
  then have "add_sid_walk h recs (next_sid (recs ! i)) =
      Some (case find (\<lambda>i. sid_matches h (recs ! i)) xs of None \<Rightarrow> 0 | Some i \<Rightarrow> of_nat i)" by simp
  moreover have "p = of_nat i" using Cons.prems by auto
  ultimately show ?case using Cons.prems
    by (subst add_sid_walk.simps) (simp add: fetch_in)
qed

text \<open>The slot a query takes: the first match, or else the last slot with a blank id.\<close>

definition choose_sid :: "u64 \<Rightarrow> op_ppath_sid_record_t list \<Rightarrow> nat list \<Rightarrow> u32 \<Rightarrow> u32" where
  "choose_sid h recs xs def_sid = (case find (\<lambda>i. sid_matches h (recs ! i)) xs of
     Some i \<Rightarrow> of_nat i
   | None \<Rightarrow> (case find (\<lambda>i. ntoh64 (lower_sid (recs ! i)) = 0) (rev xs) of
       Some i \<Rightarrow> of_nat i | None \<Rightarrow> def_sid))"

lemma find_append_simp:
  "find P (xs @ ys) = (case find P xs of Some x \<Rightarrow> Some x | None \<Rightarrow> find P ys)"
  by (induction xs) auto

lemma find_sid_walk_linked:
  "linked next_sid recs p xs \<Longrightarrow> find_sid_walk h recs def_sid p = Some (choose_sid h recs xs def_sid)"
proof (induction xs arbitrary: p def_sid)
  case Nil
  then show ?case by (subst find_sid_walk.simps) (simp add: choose_sid_def)
next
  case (Cons i xs)
  have p: "p = of_nat i" "p \<noteq> 0" "unat p = i" "i < length recs"
    and l: "linked next_sid recs (next_sid (recs ! i)) xs"
    using Cons.prems by auto
  show ?case
    by (subst find_sid_walk.simps)
      (use p Cons.IH [OF l] in \<open>auto simp: fetch_in choose_sid_def find_append_simp split: option.splits\<close>)
qed

section \<open>An index of slots\<close>

text \<open>\<open>first w k\<close> is the head an owner record stores for the key \<open>k\<close>; \<open>enter k p w\<close> is the owner
  after a new slot \<open>p\<close> has been put in front of that chain.\<close>

locale slot_index =
  fixes nxt :: "'r \<Rightarrow> u32"
    and first :: "'o \<Rightarrow> 'k \<Rightarrow> u32"
    and enter :: "'k \<Rightarrow> u32 \<Rightarrow> 'o \<Rightarrow> 'o"
  assumes first_enter: "first (enter k p w) = (first w)(k := p)"
begin

definition indexed :: "'r list \<Rightarrow> 'o list \<Rightarrow> (nat \<Rightarrow> nat) \<Rightarrow> (nat \<Rightarrow> 'k) \<Rightarrow> nat \<Rightarrow> bool" where
  "indexed recs owners own key n \<longleftrightarrow>
    (\<forall>o' < length owners. \<forall>k. linked nxt recs (first (owners ! o') k)
       (slots (\<lambda>i. own i = o' \<and> key i = k) n))"

lemma indexed_chain:
  "indexed recs owners own key n \<Longrightarrow> o' < length owners \<Longrightarrow>
     linked nxt recs (first (owners ! o') k) (slots (\<lambda>i. own i = o' \<and> key i = k) n)"
  by (simp add: indexed_def)

lemma indexed_cong:
  assumes "indexed recs owners own key n" "length owners' = length owners"
    "\<And>o'. o' < length owners \<Longrightarrow> first (owners' ! o') = first (owners ! o')"
    "\<And>i. 1 \<le> i \<Longrightarrow> i \<le> n \<Longrightarrow> own' i = own i \<and> key' i = key i"
  shows "indexed recs owners' own' key' n"
  unfolding indexed_def
proof (intro allI impI)
  fix o' k assume o': "o' < length owners'"
  have "slots (\<lambda>i. own' i = o' \<and> key' i = k) n = slots (\<lambda>i. own i = o' \<and> key i = k) n"
    by (rule slots_cong) (use assms(4) in simp)
  with indexed_chain [OF assms(1), of o' k] o' assms(2,3)
  show "linked nxt recs (first (owners' ! o') k) (slots (\<lambda>i. own' i = o' \<and> key' i = k) n)" by simp
qed

text \<open>A slot beyond the table's count may be written freely.\<close>

lemma indexed_unused:
  assumes "indexed recs owners own key n" "n < i"
  shows "indexed (recs[i := x]) owners own key n"
  unfolding indexed_def
proof (intro allI impI)
  fix o' k assume "o' < length owners"
  from indexed_chain [OF assms(1) this, of k] assms(2)
  show "linked nxt (recs[i := x]) (first (owners ! o') k) (slots (\<lambda>i. own i = o' \<and> key i = k) n)"
    by (subst linked_update) (auto simp: set_slots)
qed

text \<open>Pushing the next slot: its link is the old head, and the owner gets the new head.\<close>

lemma indexed_push:
  assumes "indexed recs owners own key n" "Suc n < length recs" "Suc n < 2 ^ 32"
    "own (Suc n) = w" "key (Suc n) = k" "w < length owners"
    "nxt x = first (owners ! w) k" "first w' = first (enter k (of_nat (Suc n)) (owners ! w))"
  shows "indexed (recs[Suc n := x]) (owners[w := w']) own key (Suc n)"
  unfolding indexed_def
proof (intro allI impI)
  fix o' j assume o': "o' < length (owners[w := w'])"
  let ?S = "slots (\<lambda>i. own i = o' \<and> key i = j) n"
  have old: "linked nxt recs (first (owners ! o') j) ?S"
    using indexed_chain [OF assms(1), of o' j] o' by simp
  have notin: "Suc n \<notin> set ?S" by (simp add: set_slots)
  show "linked nxt (recs[Suc n := x]) (first (owners[w := w'] ! o') j)
      (slots (\<lambda>i. own i = o' \<and> key i = j) (Suc n))"
  proof (cases "o' = w \<and> j = k")
    case True
    have "linked nxt (recs[Suc n := x]) (of_nat (Suc n)) (Suc n # ?S)"
      by (rule linked_push [OF old notin]) (use assms True in auto)
    moreover have "first (owners[w := w'] ! o') j = of_nat (Suc n)"
      using True assms(6,8) by (simp add: first_enter)
    moreover have "slots (\<lambda>i. own i = o' \<and> key i = j) (Suc n) = Suc n # ?S"
      using True assms(4,5) by (simp add: slots_Suc)
    ultimately show ?thesis by (simp only:)
  next
    case False
    have head: "first (owners[w := w'] ! o') j = first (owners ! o') j"
      using False assms(6,8) by (cases "o' = w") (auto simp: first_enter)
    have "linked nxt (recs[Suc n := x]) (first (owners ! o') j) ?S"
      using old notin by (subst linked_update) auto
    with False head assms(4,5) show ?thesis by (auto simp: slots_Suc)
  qed
qed

text \<open>A record that owns no slot may be replaced by one without chains, or with the same heads.\<close>

lemma indexed_owner:
  assumes "indexed recs owners own key n"
    "first x = first (owners ! w) \<or> first x = (\<lambda>_. 0) \<and> (\<forall>i. 1 \<le> i \<and> i \<le> n \<longrightarrow> own i \<noteq> w)"
  shows "indexed recs (owners[w := x]) own key n"
  unfolding indexed_def
proof (intro allI impI)
  fix o' k assume o': "o' < length (owners[w := x])"
  let ?S = "slots (\<lambda>i. own i = o' \<and> key i = k) n"
  have old: "linked nxt recs (first (owners ! o') k) ?S"
    using indexed_chain [OF assms(1), of o' k] o' by simp
  show "linked nxt recs (first (owners[w := x] ! o') k) ?S"
  proof (cases "o' = w \<and> first x \<noteq> first (owners ! w)")
    case True
    with assms(2) have "set ?S = {}" by (auto simp: set_slots)
    with True assms(2) o' show ?thesis by auto
  next
    case False
    with old o' show ?thesis by (cases "o' = w") auto
  qed
qed

end

text \<open>The three indexes of the database.\<close>

abbreviation enter_sid :: "unit \<Rightarrow> u32 \<Rightarrow> op_ppath_subnet_record_t \<Rightarrow> op_ppath_subnet_record_t" where
  "enter_sid k n x \<equiv> x\<lparr>first_sid := n\<rparr>"

abbreviation enter_lid :: "nat \<Rightarrow> u32 \<Rightarrow> op_ppath_vfab_record_t \<Rightarrow> op_ppath_vfab_record_t" where
  "enter_lid h n v \<equiv> v\<lparr>first_dlid := (first_dlid v)(h := n)\<rparr>"

abbreviation enter_guid :: "nat \<Rightarrow> u32 \<Rightarrow> op_ppath_vfab_record_t \<Rightarrow> op_ppath_vfab_record_t" where
  "enter_guid h n v \<equiv> v\<lparr>first_dguid := (first_dguid v)(h := n)\<rparr>"

interpretation sids: slot_index next_sid "\<lambda>x _. first_sid x" enter_sid
  by unfold_locales auto

interpretation lids: slot_index next_lid first_dlid enter_lid
  by unfold_locales auto

interpretation guids: slot_index next_guid first_dguid enter_guid
  by unfold_locales auto

end
