(* ===== verification/PathDbWriter.thy ===== *)
theory PathDbWriter
  imports PathDbIndex
begin

text \<open>
  What the writer's tables stand for: lists of subnets, service ids, virtual fabrics, ports and
  paths in the order they were added.  \<open>holds\<close> relates the tables in shared memory to these lists,
  chains and hash indexes included, and every operation that adds a record is shown to do to the
  lists what \<open>ppath_spec\<close> says, with the same status.
\<close>

section \<open>The abstract database\<close>

text \<open>Subnets and virtual fabrics are numbered from 1.  A service id belongs to a subnet and names
  a virtual fabric; number 0 is a service id that was counted but not linked.  A path is stored
  with the number of its virtual fabric.\<close>

record pdb =
  db_subnets :: "u64 list"
  db_sids :: "(nat \<times> u64 \<times> u64 \<times> nat) list"
  db_vfabs :: "(string \<times> u64 \<times> u16 \<times> u16) list"
  db_ports :: "op_ppath_port_record_t list"
  db_paths :: "(nat \<times> IB_PATH_RECORD_NO) list"

definition empty_pdb :: pdb where
  "empty_pdb = \<lparr>db_subnets = [], db_sids = [], db_vfabs = [], db_ports = [], db_paths = []\<rparr>"

definition sid_hit :: "u64 \<Rightarrow> u64 \<Rightarrow> u64 \<Rightarrow> bool" where
  "sid_hit h lower upper =
    (let lo = ntoh64 lower; up = ntoh64 upper in
     if lo = 0 then h = 0 else h = lo \<and> up = 0 \<or> lo \<le> h \<and> h \<le> up)"

text \<open>The service ids of a subnet, newest first.\<close>

definition sid_chain :: "pdb \<Rightarrow> nat \<Rightarrow> (nat \<times> u64 \<times> u64 \<times> nat) list" where
  "sid_chain d i = rev (filter (\<lambda>(j, _). j = i \<and> j \<noteq> 0) (db_sids d))"

definition sid_pick :: "u64 \<Rightarrow> (nat \<times> u64 \<times> u64 \<times> nat) list \<Rightarrow> nat option" where
  "sid_pick h xs = map_option (\<lambda>(_, _, _, v). v) (find (\<lambda>(_, lo, up, _). sid_hit h lo up) xs)"

datatype ppath_op =
    AddSubnet u64
  | AddVfab string u64 u16 u16
  | AddSid u64 u64 u64 string
  | AddPort op_ppath_port_record_t
  | AddPath IB_PATH_RECORD_NO

fun ppath_step :: "op_ppath_writer_t \<Rightarrow> ppath_op \<Rightarrow> shm \<Rightarrow> unit + errno \<times> shm" where
  "ppath_step w (AddSubnet p) s = (case op_ppath_add_subnet w p s of None \<Rightarrow> Inl () | Some x \<Rightarrow> Inr x)"
| "ppath_step w (AddVfab n p k l) s =
     (case op_ppath_add_vfab w n p k l s of None \<Rightarrow> Inl () | Some x \<Rightarrow> Inr x)"
| "ppath_step w (AddSid p lo up n) s =
     (case op_ppath_add_sid w p lo up n s of None \<Rightarrow> Inl () | Some x \<Rightarrow> Inr x)"
| "ppath_step w (AddPort x) s = (case op_ppath_add_port w x s of None \<Rightarrow> Inl () | Some y \<Rightarrow> Inr y)"
| "ppath_step w (AddPath x) s = (case op_ppath_add_path w x s of None \<Rightarrow> Inl () | Some y \<Rightarrow> Inr y)"

text \<open>A record that finds the table full is refused.  A port or service id without a subnet, and a
  service id without a virtual fabric, uses up its record all the same.\<close>

fun ppath_spec :: "op_ppath_writer_t \<Rightarrow> ppath_op \<Rightarrow> pdb \<Rightarrow> errno \<times> pdb" where
  "ppath_spec w (AddSubnet p) d =
    (if length (db_subnets d) = unat (max_subnets w) then (ENOMEM, d)
     else (0, d\<lparr>db_subnets := db_subnets d @ [p]\<rparr>))"
| "ppath_spec w (AddVfab n p k l) d =
    (if length (db_vfabs d) = unat (max_vfabs w) then (ENOMEM, d)
     else (0, d\<lparr>db_vfabs := db_vfabs d @ [(take 31 n, p, k, l)]\<rparr>))"
| "ppath_spec w (AddSid p lo up n) d =
    (if length (db_sids d) = unat (max_sids w) then (ENOMEM, d)
     else (case (position (\<lambda>x. x = p) (db_subnets d), position (\<lambda>(x, _). x = n) (db_vfabs d)) of
         (Some i, Some v) \<Rightarrow> (0, d\<lparr>db_sids := db_sids d @ [(i, lo, up, v)]\<rparr>)
       | _ \<Rightarrow> (EINVAL, d\<lparr>db_sids := db_sids d @ [(0, lo, up, 0)]\<rparr>)))"
| "ppath_spec w (AddPort x) d =
    (if length (db_ports d) = unat (max_ports w) then (ENOMEM, d)
     else (case position (\<lambda>y. y = port_prefix x) (db_subnets d) of
         Some i \<Rightarrow> (0, d\<lparr>db_ports := db_ports d @ [x\<lparr>subnet_id := of_nat i\<rparr>]\<rparr>)
       | None \<Rightarrow> (EINVAL, d\<lparr>db_ports := db_ports d @ [zero_port]\<rparr>)))"
| "ppath_spec w (AddPath x) d =
    (case position (\<lambda>y. y = SubnetPrefix (SGID x)) (db_subnets d) of
       None \<Rightarrow> (EINVAL, d)
     | Some i \<Rightarrow>
         (case sid_pick (ntoh64 (ServiceID x)) (sid_chain d i) of
            None \<Rightarrow> (EINVAL, d)
          | Some v \<Rightarrow>
              if length (db_paths d) = unat (max_paths w) then (ENOMEM, d)
              else (0, d\<lparr>db_paths := db_paths d @ [(v, x)]\<rparr>)))"

section \<open>Tables in shared memory\<close>

definition tabs ::
  "op_ppath_reader_t \<Rightarrow> shm \<Rightarrow> op_ppath_subnet_table_t \<Rightarrow> op_ppath_vfab_table_t \<Rightarrow>
     op_ppath_port_table_t \<Rightarrow> op_ppath_table_t \<Rightarrow> bool" where
  "tabs r s st vt pt qt \<longleftrightarrow>
    get_subnets s (subnet_table r) = Some st \<and> sid_table r = subnet_table r \<and>
    get_vfabs s (vfab_table r) = Some vt \<and> get_ports s (port_table r) = Some pt \<and>
    get_paths s (path_table r) = Some qt"

lemma get_Some:
  "get_shared s a = Some t \<longleftrightarrow> a \<noteq> 0 \<and> objects s a = Some (Shared t)"
  "get_subnets s a = Some st \<longleftrightarrow> a \<noteq> 0 \<and> objects s a = Some (Subnets st)"
  "get_vfabs s a = Some vt \<longleftrightarrow> a \<noteq> 0 \<and> objects s a = Some (Vfabs vt)"
  "get_ports s a = Some pt \<longleftrightarrow> a \<noteq> 0 \<and> objects s a = Some (Ports pt)"
  "get_paths s a = Some qt \<longleftrightarrow> a \<noteq> 0 \<and> objects s a = Some (Paths qt)"
  by (auto simp: get_shared_def get_subnets_def get_vfabs_def get_ports_def get_paths_def
      split: option.splits object.splits if_splits)

lemma objects_put [simp]: "objects (put a x s) b = (if b = a then Some x else objects s b)"
  by (simp add: put_def)

lemma put_fields [simp]:
  "names (put a x s) = names s" "fds (put a x s) = fds s" "next_addr (put a x s) = next_addr s"
  "calls (put a x s) = calls s" "outcome (put a x s) = outcome s"
  by (simp_all add: put_def)

lemma tabs_get:
  assumes "tabs r s st vt pt qt"
  shows "get_subnets s (subnet_table r) = Some st" "sid_table r = subnet_table r"
    "get_vfabs s (vfab_table r) = Some vt" "get_ports s (port_table r) = Some pt"
    "get_paths s (path_table r) = Some qt"
  using assms by (simp_all add: tabs_def)

lemma tabs_put:
  assumes "tabs r s st vt pt qt"
  shows "tabs r (put (subnet_table r) (Subnets st') s) st' vt pt qt"
    "tabs r (put (vfab_table r) (Vfabs vt') s) st vt' pt qt"
    "tabs r (put (port_table r) (Ports pt') s) st vt pt' qt"
    "tabs r (put (path_table r) (Paths qt') s) st vt pt qt'"
  using assms by (auto simp: tabs_def get_Some)

section \<open>Representation\<close>

definition sid_own :: "pdb \<Rightarrow> nat \<Rightarrow> nat" where
  "sid_own d i = (let j = fst (db_sids d ! (i - 1)) in if j = 0 then 2 ^ 16 else j)"

definition rep_subnets :: "pdb \<Rightarrow> op_ppath_subnet_table_t \<Rightarrow> bool" where
  "rep_subnets d st \<longleftrightarrow>
    unat (subnet_count st) = length (db_subnets d) \<and> length (db_subnets d) < length (subnet_recs st) \<and>
    length (subnet_recs st) \<le> 2 ^ 16 \<and>
    (\<forall>j < length (db_subnets d). subnet_prefix (subnet_recs st ! Suc j) = db_subnets d ! j)"

definition rep_sids :: "pdb \<Rightarrow> op_ppath_subnet_table_t \<Rightarrow> bool" where
  "rep_sids d st \<longleftrightarrow>
    unat (sid_count st) = length (db_sids d) \<and> length (db_sids d) < length (sid_recs st) \<and>
    (\<forall>j < length (db_sids d). case db_sids d ! j of (i, lo, up, v) \<Rightarrow>
       i \<noteq> 0 \<longrightarrow> lower_sid (sid_recs st ! Suc j) = lo \<and> upper_sid (sid_recs st ! Suc j) = up \<and>
         unat (vfab_id (sid_recs st ! Suc j)) = v \<and> v \<noteq> 0 \<and> v \<le> length (db_vfabs d) \<and>
         i \<le> length (db_subnets d)) \<and>
    sids.indexed (sid_recs st) (subnet_recs st) (sid_own d) (\<lambda>_. ()) (length (db_sids d))"

definition rep_vfabs :: "pdb \<Rightarrow> op_ppath_vfab_table_t \<Rightarrow> bool" where
  "rep_vfabs d vt \<longleftrightarrow>
    unat (vfab_count vt) = length (db_vfabs d) \<and> length (db_vfabs d) < length (vfab_recs vt) \<and>
    (\<forall>j < length (db_vfabs d). (vfab_name (vfab_recs vt ! Suc j), vfab_prefix (vfab_recs vt ! Suc j),
       vfab_pkey (vfab_recs vt ! Suc j), vfab_sl (vfab_recs vt ! Suc j)) = db_vfabs d ! j)"

definition rep_ports :: "pdb \<Rightarrow> op_ppath_port_table_t \<Rightarrow> bool" where
  "rep_ports d pt \<longleftrightarrow>
    unat (port_count pt) = length (db_ports d) \<and> length (db_ports d) < length (port_recs pt) \<and>
    (\<forall>j < length (db_ports d). port_recs pt ! Suc j = db_ports d ! j \<and>
       unat (subnet_id (db_ports d ! j)) \<le> length (db_subnets d)) \<and>
    (\<forall>j. length (db_ports d) \<le> j \<and> Suc j < length (port_recs pt) \<longrightarrow> port_recs pt ! Suc j = zero_port)"

definition path_own :: "pdb \<Rightarrow> nat \<Rightarrow> nat" where
  "path_own d i = fst (db_paths d ! (i - 1))"

definition rep_paths :: "pdb \<Rightarrow> op_ppath_vfab_table_t \<Rightarrow> op_ppath_table_t \<Rightarrow> bool" where
  "rep_paths d vt qt \<longleftrightarrow>
    unat (path_count qt) = length (db_paths d) \<and> length (db_paths d) < length (path_recs qt) \<and>
    (\<forall>j < length (db_paths d). path_rec (path_recs qt ! Suc j) = snd (db_paths d ! j) \<and>
       flags (path_recs qt ! Suc j) \<noteq> 0 \<and> fst (db_paths d ! j) \<noteq> 0 \<and>
       fst (db_paths d ! j) \<le> length (db_vfabs d)) \<and>
    lids.indexed (path_recs qt) (vfab_recs vt) (path_own d)
      (\<lambda>i. lid_hash (DLID (snd (db_paths d ! (i - 1))))) (length (db_paths d)) \<and>
    guids.indexed (path_recs qt) (vfab_recs vt) (path_own d)
      (\<lambda>i. gid_hash (DGID (snd (db_paths d ! (i - 1))))) (length (db_paths d))"

definition rep ::
  "pdb \<Rightarrow> op_ppath_subnet_table_t \<Rightarrow> op_ppath_vfab_table_t \<Rightarrow> op_ppath_port_table_t \<Rightarrow>
     op_ppath_table_t \<Rightarrow> bool" where
  "rep d st vt pt qt \<longleftrightarrow>
    rep_subnets d st \<and> rep_sids d st \<and> rep_vfabs d vt \<and> rep_ports d pt \<and> rep_paths d vt qt"

text \<open>The tables have the sizes the writer asked for.\<close>

definition sized ::
  "op_ppath_writer_t \<Rightarrow> op_ppath_subnet_table_t \<Rightarrow> op_ppath_vfab_table_t \<Rightarrow>
     op_ppath_port_table_t \<Rightarrow> op_ppath_table_t \<Rightarrow> bool" where
  "sized w st vt pt qt \<longleftrightarrow>
     length (subnet_recs st) = Suc (unat (max_subnets w)) \<and>
     length (sid_recs st) = Suc (unat (max_sids w)) \<and>
     length (vfab_recs vt) = Suc (unat (max_vfabs w)) \<and>
     length (port_recs pt) = Suc (unat (max_ports w)) \<and>
     length (path_recs qt) = Suc (unat (max_paths w))"

definition holds :: "op_ppath_writer_t \<Rightarrow> shm \<Rightarrow> pdb \<Rightarrow> bool" where
  "holds w s d \<longleftrightarrow> (\<exists>st vt pt qt. tabs (unpublished w) s st vt pt qt \<and> rep d st vt pt qt \<and>
     sized w st vt pt qt)"

section \<open>Counters\<close>

lemma unat_succ: "(c :: u32) < m \<Longrightarrow> unat (c + 1) = Suc (unat c)"
proof -
  assume "c < m"
  moreover have "unat m < 2 ^ LENGTH(32)" by (rule unsigned_less)
  ultimately show ?thesis by (simp add: word_less_nat_alt unat_word_ariths)
qed

lemma u32_of_unat: "unat (x :: u32) = n \<Longrightarrow> x = of_nat n"
  by auto

lemma full_iff: "unat (c :: u32) = n \<Longrightarrow> n \<le> unat m \<Longrightarrow> m \<le> c \<longleftrightarrow> n = unat m"
  by (auto simp: word_le_nat_alt)

lemma room: "unat (c :: u32) = n \<Longrightarrow> n < unat m \<Longrightarrow> c < m"
  by (simp add: word_less_nat_alt)

lemma nth_snoc: "j < Suc (length xs) \<Longrightarrow> (xs @ [x]) ! j = (if j < length xs then xs ! j else x)"
  by (auto simp: nth_append less_Suc_eq)

lemma sid_matches_hit: "sid_matches h r = sid_hit h (lower_sid r) (upper_sid r)"
  by (auto simp: sid_matches_def sid_hit_def Let_def)

lemma own_upd [simp]:
  "path_own (d\<lparr>db_subnets := a\<rparr>) = path_own d" "path_own (d\<lparr>db_sids := b\<rparr>) = path_own d"
  "path_own (d\<lparr>db_vfabs := c\<rparr>) = path_own d" "path_own (d\<lparr>db_ports := e\<rparr>) = path_own d"
  "sid_own (d\<lparr>db_subnets := a\<rparr>) = sid_own d" "sid_own (d\<lparr>db_vfabs := c\<rparr>) = sid_own d"
  "sid_own (d\<lparr>db_ports := e\<rparr>) = sid_own d" "sid_own (d\<lparr>db_paths := f\<rparr>) = sid_own d"
  by (simp_all add: path_own_def sid_own_def fun_eq_iff)

lemma repD:
  assumes "rep d st vt pt qt"
  shows "rep_subnets d st" "rep_sids d st" "rep_vfabs d vt" "rep_ports d pt" "rep_paths d vt qt"
  using assms by (simp_all add: rep_def)

section \<open>Adding a subnet and a virtual fabric\<close>

lemma sid_own_bound: "rep_sids d st \<Longrightarrow> 1 \<le> i \<Longrightarrow> i \<le> length (db_sids d) \<Longrightarrow>
    sid_own d i \<le> length (db_subnets d) \<or> sid_own d i = 2 ^ 16"
  unfolding rep_sids_def sid_own_def Let_def
  by (elim conjE allE [of _ "i - 1"]) (auto split: prod.splits)

lemma add_subnet_rep:
  assumes "rep d st vt pt qt" "length (db_subnets d) < unat (max_subnets w)"
    "length (subnet_recs st) = Suc (unat (max_subnets w))"
  shows "rep (d\<lparr>db_subnets := db_subnets d @ [p]\<rparr>)
    (st\<lparr>subnet_count := subnet_count st + 1, subnet_recs :=
      (subnet_recs st)[Suc (length (db_subnets d)) := \<lparr>subnet_prefix = p, first_sid = 0\<rparr>]\<rparr>) vt pt qt"
    (is "rep ?d ?st vt pt qt")
proof -
  note r = repD [OF assms(1)]
  have c: "unat (subnet_count st + 1) = Suc (length (db_subnets d))"
    using r(1) assms(2) by (simp add: rep_subnets_def unat_succ [OF room])
  have s: "rep_subnets ?d ?st"
    using r(1) assms(2,3) c unfolding rep_subnets_def
    by (auto simp: nth_snoc nth_list_update_if)
  have "rep_sids ?d ?st"
  proof -
    have "sids.indexed (sid_recs st) ((subnet_recs st)[Suc (length (db_subnets d)) :=
        \<lparr>subnet_prefix = p, first_sid = 0\<rparr>]) (sid_own d) (\<lambda>_. ()) (length (db_sids d))"
    proof (rule sids.indexed_owner)
      show "sids.indexed (sid_recs st) (subnet_recs st) (sid_own d) (\<lambda>_. ()) (length (db_sids d))"
        using r(2) by (simp add: rep_sids_def)
      have "length (db_subnets d) < 2 ^ 16" using r(1) by (simp add: rep_subnets_def)
      with assms(2,3) sid_own_bound [OF r(2)] r(1)
      have "\<forall>i. 1 \<le> i \<and> i \<le> length (db_sids d) \<longrightarrow> sid_own d i \<noteq> Suc (length (db_subnets d))"
        by (fastforce simp: rep_subnets_def)
      then show "(\<lambda>_::unit. first_sid \<lparr>subnet_prefix = p, first_sid = 0\<rparr>) =
          (\<lambda>_. first_sid (subnet_recs st ! Suc (length (db_subnets d)))) \<or>
        (\<lambda>_::unit. first_sid \<lparr>subnet_prefix = p, first_sid = 0\<rparr>) = (\<lambda>_. 0) \<and>
        (\<forall>i. 1 \<le> i \<and> i \<le> length (db_sids d) \<longrightarrow> sid_own d i \<noteq> Suc (length (db_subnets d)))"
        by simp
    qed
    then show ?thesis using r(2) unfolding rep_sids_def
      by (auto split: prod.splits simp: le_SucI)
  qed
  moreover have "rep_vfabs ?d vt" using r(3) by (simp add: rep_vfabs_def)
  moreover have "rep_ports ?d pt" using r(4) by (auto simp: rep_ports_def le_SucI)
  moreover have "rep_paths ?d vt qt" using r(5) by (simp add: rep_paths_def)
  ultimately show ?thesis using s by (simp add: rep_def)
qed


lemma path_own_range:
  "rep_paths d vt qt \<Longrightarrow> 1 \<le> i \<Longrightarrow> i \<le> length (db_paths d) \<Longrightarrow>
     path_own d i \<noteq> 0 \<and> path_own d i \<le> length (db_vfabs d)"
  unfolding rep_paths_def path_own_def
  by (elim conjE allE [of _ "i - 1"]) auto

lemma add_vfab_rep:
  assumes "rep d st vt pt qt" "length (db_vfabs d) < unat (max_vfabs w)"
    "length (vfab_recs vt) = Suc (unat (max_vfabs w))"
  shows "rep (d\<lparr>db_vfabs := db_vfabs d @ [(n, p, k, l)]\<rparr>) st
    (vt\<lparr>vfab_count := vfab_count vt + 1, vfab_recs :=
      (vfab_recs vt)[Suc (length (db_vfabs d)) := (vfab_recs vt ! Suc (length (db_vfabs d)))
        \<lparr>vfab_name := n, vfab_prefix := p, vfab_pkey := k, vfab_sl := l\<rparr>]\<rparr>) pt qt"
    (is "rep ?d st ?vt pt qt")
proof -
  note r = repD [OF assms(1)]
  have c: "unat (vfab_count vt + 1) = Suc (length (db_vfabs d))"
    using r(3) assms(2) by (simp add: rep_vfabs_def unat_succ [OF room])
  have "rep_vfabs ?d ?vt"
    using r(3) assms(2,3) c unfolding rep_vfabs_def
    by (auto simp: nth_snoc nth_list_update_if)
  moreover have "rep_sids ?d st" using r(2) unfolding rep_sids_def
    by (auto split: prod.splits simp: le_SucI)
  moreover have "rep_paths ?d ?vt qt"
    using r(5) unfolding rep_paths_def
    by (auto simp: le_SucI intro!: lids.indexed_owner guids.indexed_owner)
  ultimately show ?thesis using r(1,4) by (simp add: rep_def rep_subnets_def rep_ports_def)
qed

section \<open>Adding a port\<close>

lemma add_port_rep:
  assumes "rep d st vt pt qt" "length (db_ports d) < unat (max_ports w)"
    "length (port_recs pt) = Suc (unat (max_ports w))" "unat (subnet_id x) \<le> length (db_subnets d)"
  shows "rep (d\<lparr>db_ports := db_ports d @ [x]\<rparr>) st vt
    (pt\<lparr>port_count := port_count pt + 1,
      port_recs := (port_recs pt)[Suc (length (db_ports d)) := x]\<rparr>) qt"
    (is "rep ?d st vt ?pt qt")
proof -
  note r = repD [OF assms(1)]
  have c: "unat (port_count pt + 1) = Suc (length (db_ports d))"
    using r(4) assms(2) by (simp add: rep_ports_def unat_succ [OF room])
  have "rep_ports ?d ?pt"
    using r(4) assms(2-4) c unfolding rep_ports_def
    by (auto simp: nth_snoc nth_list_update_if)
  moreover have "rep_sids ?d st" using r(2) by (simp add: rep_sids_def)
  ultimately show ?thesis using r(1,3,5) by (simp add: rep_def rep_subnets_def rep_vfabs_def rep_paths_def)
qed

lemma add_lost_port_rep:
  assumes "rep d st vt pt qt" "length (db_ports d) < unat (max_ports w)"
    "length (port_recs pt) = Suc (unat (max_ports w))"
  shows "rep (d\<lparr>db_ports := db_ports d @ [zero_port]\<rparr>) st vt (pt\<lparr>port_count := port_count pt + 1\<rparr>) qt"
proof -
  have "port_recs pt ! Suc (length (db_ports d)) = zero_port"
    using repD(4) [OF assms(1)] assms(2,3) by (simp add: rep_ports_def)
  then have "(port_recs pt)[Suc (length (db_ports d)) := zero_port] = port_recs pt"
    by (metis list_update_id)
  with add_port_rep [OF assms, of zero_port] show ?thesis by (simp add: zero_port_def)
qed

section \<open>Adding a service id\<close>

lemma sid_own_snoc:
  "1 \<le> i \<Longrightarrow> i \<le> length (db_sids d) \<Longrightarrow> sid_own (d\<lparr>db_sids := db_sids d @ [x]\<rparr>) i = sid_own d i"
  "sid_own (d\<lparr>db_sids := db_sids d @ [x]\<rparr>) (Suc (length (db_sids d))) =
     (if fst x = 0 then 2 ^ 16 else fst x)"
  by (auto simp: sid_own_def nth_append)

lemma sids_push_lost:
  assumes "sids.indexed recs owners own (\<lambda>_. ()) n" "length owners \<le> own (Suc n)"
  shows "sids.indexed recs owners own (\<lambda>_. ()) (Suc n)"
  using assms by (auto simp: sids.indexed_def slots_Suc)

lemma add_lost_sid_rep:
  assumes "rep d st vt pt qt" "length (db_sids d) < unat (max_sids w)"
    "length (sid_recs st) = Suc (unat (max_sids w))"
  shows "rep (d\<lparr>db_sids := db_sids d @ [(0, lo, up, 0)]\<rparr>)
    (st\<lparr>sid_count := sid_count st + 1,
      sid_recs := (sid_recs st)[Suc (length (db_sids d)) := x]\<rparr>) vt pt qt"
    (is "rep ?d ?st vt pt qt")
proof -
  note r = repD [OF assms(1)]
  let ?n = "length (db_sids d)" and ?recs = "(sid_recs st)[Suc (length (db_sids d)) := x]"
  have c: "unat (sid_count st + 1) = Suc ?n"
    using r(2) assms(2) by (simp add: rep_sids_def unat_succ [OF room])
  have "sids.indexed ?recs (subnet_recs st) (sid_own d) (\<lambda>_. ()) ?n"
    using r(2) by (auto simp: rep_sids_def intro: sids.indexed_unused)
  then have "sids.indexed ?recs (subnet_recs st) (sid_own ?d) (\<lambda>_. ()) ?n"
    by (rule sids.indexed_cong) (simp_all add: sid_own_snoc)
  then have "sids.indexed ?recs (subnet_recs st) (sid_own ?d) (\<lambda>_. ()) (Suc ?n)"
    by (rule sids_push_lost) (use r(1) in \<open>simp add: sid_own_snoc rep_subnets_def\<close>)
  then have "rep_sids ?d ?st"
    using r(2) c assms(2,3) unfolding rep_sids_def
    by (auto simp: nth_snoc nth_list_update_if less_Suc_eq split: prod.splits)
  then show ?thesis using r(1,3-5) by (simp add: rep_def rep_subnets_def rep_vfabs_def rep_ports_def rep_paths_def path_own_def)
qed

lemma add_sid_rep:
  assumes "rep d st vt pt qt" "length (db_sids d) < unat (max_sids w)"
    "length (sid_recs st) = Suc (unat (max_sids w))"
    "0 < i" "i \<le> length (db_subnets d)" "v \<noteq> 0" "v \<le> length (db_vfabs d)"
  shows "rep (d\<lparr>db_sids := db_sids d @ [(i, lo, up, v)]\<rparr>)
    (st\<lparr>sid_count := sid_count st + 1,
      sid_recs := (sid_recs st)[Suc (length (db_sids d)) := \<lparr>lower_sid = lo, upper_sid = up,
        vfab_id = of_nat v, next_sid = first_sid (subnet_recs st ! i)\<rparr>],
      subnet_recs := (subnet_recs st)[i := (subnet_recs st ! i)\<lparr>first_sid := sid_count st + 1\<rparr>]\<rparr>) vt pt qt"
    (is "rep ?d ?st vt pt qt")
proof -
  note r = repD [OF assms(1)]
  let ?n = "length (db_sids d)" and ?x = "\<lparr>lower_sid = lo, upper_sid = up,
        vfab_id = of_nat v :: u32, next_sid = first_sid (subnet_recs st ! i)\<rparr>"
  have c: "unat (sid_count st + 1) = Suc ?n"
    using r(2) assms(2) by (simp add: rep_sids_def unat_succ [OF room])
  then have n: "sid_count st + 1 = of_nat (Suc ?n)" by (rule u32_of_unat)
  have nlt: "Suc ?n < 2 ^ 32" using c unsigned_less [of "sid_count st + 1", where 'a = nat] by simp
  have "unat (vfab_count vt) = length (db_vfabs d)" using r(3) by (simp add: rep_vfabs_def)
  then have v: "unat (of_nat v :: u32) = v"
    using assms(7) unsigned_less [of "vfab_count vt", where 'a = nat]
    by (simp add: unat_of_nat take_bit_nat_eq_self)
  have i: "i < length (subnet_recs st)" using r(1) assms(5) by (simp add: rep_subnets_def)
  have "sids.indexed (sid_recs st) (subnet_recs st) (sid_own ?d) (\<lambda>_. ()) ?n"
    by (rule sids.indexed_cong [where key = "\<lambda>_. ()"]) (use r(2) in \<open>simp_all add: sid_own_snoc rep_sids_def\<close>)
  then have "sids.indexed ((sid_recs st)[Suc ?n := ?x])
      ((subnet_recs st)[i := (subnet_recs st ! i)\<lparr>first_sid := sid_count st + 1\<rparr>])
      (sid_own ?d) (\<lambda>_. ()) (Suc ?n)"
    by (rule sids.indexed_push [where w = i])
      (use assms nlt i n in \<open>auto simp: sid_own_snoc fun_eq_iff\<close>)
  then have "rep_sids ?d ?st"
    using r(2) c v assms(2-) unfolding rep_sids_def
    by (auto simp: nth_snoc nth_list_update_if less_Suc_eq split: prod.splits)
  moreover have "rep_subnets ?d ?st" using r(1) unfolding rep_subnets_def
    by (auto simp: nth_list_update_if)
  ultimately show ?thesis using r(3-5)
    by (simp add: rep_def rep_vfabs_def rep_ports_def rep_paths_def path_own_def)
qed


section \<open>Adding a path\<close>

lemma path_own_snoc:
  "1 \<le> i \<Longrightarrow> i \<le> length (db_paths d) \<Longrightarrow> path_own (d\<lparr>db_paths := db_paths d @ [x]\<rparr>) i = path_own d i"
  "path_own (d\<lparr>db_paths := db_paths d @ [x]\<rparr>) (Suc (length (db_paths d))) = fst x"
  by (auto simp: path_own_def nth_append)

definition path_key :: "(IB_PATH_RECORD_NO \<Rightarrow> nat) \<Rightarrow> pdb \<Rightarrow> nat \<Rightarrow> nat" where
  "path_key h d i = h (snd (db_paths d ! (i - 1)))"

lemma path_key_snoc:
  "1 \<le> i \<Longrightarrow> i \<le> length (db_paths d) \<Longrightarrow> path_key h (d\<lparr>db_paths := db_paths d @ [x]\<rparr>) i = path_key h d i"
  "path_key h (d\<lparr>db_paths := db_paths d @ [x]\<rparr>) (Suc (length (db_paths d))) = h (snd x)"
  by (auto simp: path_key_def nth_append)

lemma rep_paths_key:
  "rep_paths d vt qt \<longleftrightarrow>
    unat (path_count qt) = length (db_paths d) \<and> length (db_paths d) < length (path_recs qt) \<and>
    (\<forall>j < length (db_paths d). path_rec (path_recs qt ! Suc j) = snd (db_paths d ! j) \<and>
       flags (path_recs qt ! Suc j) \<noteq> 0 \<and> fst (db_paths d ! j) \<noteq> 0 \<and>
       fst (db_paths d ! j) \<le> length (db_vfabs d)) \<and>
    lids.indexed (path_recs qt) (vfab_recs vt) (path_own d) (path_key (\<lambda>p. lid_hash (DLID p)) d)
      (length (db_paths d)) \<and>
    guids.indexed (path_recs qt) (vfab_recs vt) (path_own d) (path_key (\<lambda>p. gid_hash (DGID p)) d)
      (length (db_paths d))"
  by (simp add: rep_paths_def path_key_def [abs_def])

lemma add_path_rep:
  fixes x :: IB_PATH_RECORD_NO and v :: nat
  defines "lh \<equiv> lid_hash (DLID x)" and "gh \<equiv> gid_hash (DGID x)"
  assumes "rep d st vt pt qt" "length (db_paths d) < unat (max_paths w)"
    "length (path_recs qt) = Suc (unat (max_paths w))" "v \<noteq> 0" "v \<le> length (db_vfabs d)"
  shows "rep (d\<lparr>db_paths := db_paths d @ [(v, x)]\<rparr>) st
    (vt\<lparr>vfab_recs := (vfab_recs vt)[v := (vfab_recs vt ! v)
      \<lparr>first_dlid := (first_dlid (vfab_recs vt ! v))(lh := path_count qt + 1),
       first_dguid := (first_dguid (vfab_recs vt ! v))(gh := path_count qt + 1)\<rparr>]\<rparr>) pt
    (qt\<lparr>path_count := path_count qt + 1,
      path_recs := (path_recs qt)[Suc (length (db_paths d)) := (path_recs qt ! Suc (length (db_paths d)))
        \<lparr>path_rec := x, flags := 1, next_lid := first_dlid (vfab_recs vt ! v) lh,
         next_guid := first_dguid (vfab_recs vt ! v) gh\<rparr>]\<rparr>)"
    (is "rep ?d st ?vt pt ?qt")
proof -
  note r = repD [OF assms(3)]
  note k = r(5) [unfolded rep_paths_key]
  let ?n = "length (db_paths d)"
  let ?x = "(path_recs qt ! Suc ?n)\<lparr>path_rec := x, flags := 1,
      next_lid := first_dlid (vfab_recs vt ! v) lh, next_guid := first_dguid (vfab_recs vt ! v) gh\<rparr>"
  let ?v = "(vfab_recs vt ! v)\<lparr>first_dlid := (first_dlid (vfab_recs vt ! v))(lh := path_count qt + 1),
       first_dguid := (first_dguid (vfab_recs vt ! v))(gh := path_count qt + 1)\<rparr>"
  have c: "unat (path_count qt + 1) = Suc ?n"
    using k assms(4) by (simp add: unat_succ [OF room])
  then have n: "path_count qt + 1 = of_nat (Suc ?n)" by (rule u32_of_unat)
  have nlt: "Suc ?n < 2 ^ 32" using c unsigned_less [of "path_count qt + 1", where 'a = nat] by simp
  have v: "v < length (vfab_recs vt)" using r(3) assms(7) by (simp add: rep_vfabs_def)
  have "lids.indexed (path_recs qt) (vfab_recs vt) (path_own ?d) (path_key (\<lambda>p. lid_hash (DLID p)) ?d) ?n"
    by (rule lids.indexed_cong) (use k in \<open>simp_all add: path_own_snoc path_key_snoc\<close>)
  then have l: "lids.indexed ((path_recs qt)[Suc ?n := ?x]) ((vfab_recs vt)[v := ?v]) (path_own ?d)
      (path_key (\<lambda>p. lid_hash (DLID p)) ?d) (Suc ?n)"
    by (rule lids.indexed_push [where w = v])
      (use assms nlt v n in \<open>auto simp: path_own_snoc path_key_snoc\<close>)
  have "guids.indexed (path_recs qt) (vfab_recs vt) (path_own ?d) (path_key (\<lambda>p. gid_hash (DGID p)) ?d) ?n"
    by (rule guids.indexed_cong) (use k in \<open>simp_all add: path_own_snoc path_key_snoc\<close>)
  then have g: "guids.indexed ((path_recs qt)[Suc ?n := ?x]) ((vfab_recs vt)[v := ?v]) (path_own ?d)
      (path_key (\<lambda>p. gid_hash (DGID p)) ?d) (Suc ?n)"
    by (rule guids.indexed_push [where w = v])
      (use assms nlt v n in \<open>auto simp: path_own_snoc path_key_snoc\<close>)
  have "rep_paths ?d ?vt ?qt"
    using k c l g assms(4-7) unfolding rep_paths_key
    by (auto simp: nth_snoc nth_list_update_if less_Suc_eq)
  moreover have "rep_vfabs ?d ?vt" using r(3) unfolding rep_vfabs_def
    by (auto simp: nth_list_update_if)
  moreover have "rep_sids ?d st" using r(2) by (simp add: rep_sids_def)
  ultimately show ?thesis using r(1,4) by (simp add: rep_def rep_subnets_def rep_ports_def)
qed


section \<open>The operations refine the specification\<close>

lemma holdsE:
  assumes "holds w s d"
  obtains st vt pt qt where "tabs (unpublished w) s st vt pt qt" "rep d st vt pt qt"
    "sized w st vt pt qt"
  using assms unfolding holds_def by blast

lemma holdsI: "tabs (unpublished w) s st vt pt qt \<Longrightarrow> rep d st vt pt qt \<Longrightarrow> sized w st vt pt qt \<Longrightarrow> holds w s d"
  unfolding holds_def by blast

lemma sizedD:
  assumes "sized w st vt pt qt"
  shows "length (subnet_recs st) = Suc (unat (max_subnets w))" "length (sid_recs st) = Suc (unat (max_sids w))"
    "length (vfab_recs vt) = Suc (unat (max_vfabs w))" "length (port_recs pt) = Suc (unat (max_ports w))"
    "length (path_recs qt) = Suc (unat (max_paths w))"
  using assms by (simp_all add: sized_def)

lemma scan_subnet:
  assumes "rep_subnets d st"
  shows "scan (\<lambda>x. Some (subnet_prefix x = p)) (subnet_recs st) (unat (subnet_count st)) 1 =
    Some (case position (\<lambda>x. x = p) (db_subnets d) of Some i \<Rightarrow> i | None \<Rightarrow> Suc (length (db_subnets d)))"
proof -
  have "unat (subnet_count st) = length (db_subnets d)" using assms by (simp add: rep_subnets_def)
  then show ?thesis
    using scan_position [of "db_subnets d" "subnet_recs st" "\<lambda>x. Some (subnet_prefix x = p)" "\<lambda>x. x = p"]
      assms by (simp add: rep_subnets_def)
qed

lemma scan_vfab:
  assumes "rep_vfabs d vt"
    and "\<And>x. P x = Some (Q (vfab_name x, vfab_prefix x, vfab_pkey x, vfab_sl x))"
  shows "scan P (vfab_recs vt) (unat (vfab_count vt)) 1 =
    Some (case position Q (db_vfabs d) of Some i \<Rightarrow> i | None \<Rightarrow> Suc (length (db_vfabs d)))"
proof -
  have n: "unat (vfab_count vt) = length (db_vfabs d)" using assms(1) by (simp add: rep_vfabs_def)
  show ?thesis unfolding n
  proof (rule scan_position)
    show "length (db_vfabs d) < length (vfab_recs vt)" using assms(1) by (simp add: rep_vfabs_def)
    fix j assume "j < length (db_vfabs d)"
    with assms(1) have "(vfab_name (vfab_recs vt ! Suc j), vfab_prefix (vfab_recs vt ! Suc j),
       vfab_pkey (vfab_recs vt ! Suc j), vfab_sl (vfab_recs vt ! Suc j)) = db_vfabs d ! j"
      by (simp add: rep_vfabs_def)
    with assms(2) show "P (vfab_recs vt ! Suc j) = Some (Q (db_vfabs d ! j))" by simp
  qed
qed

lemma position_bounds: "position P xs = Some i \<Longrightarrow> 0 < i \<and> i \<le> length xs"
  using position_Some by blast

lemma add_subnet_correct:
  assumes "holds w s d"
  shows "\<exists>s'. op_ppath_add_subnet w p s = Some (fst (ppath_spec w (AddSubnet p) d), s') \<and>
    holds w s' (snd (ppath_spec w (AddSubnet p) d))"
proof (rule holdsE [OF assms])
  fix st vt pt qt assume t: "tabs (unpublished w) s st vt pt qt" and r: "rep d st vt pt qt"
    and z: "sized w st vt pt qt"
  note l = sizedD [OF z]
  have n: "unat (subnet_count st) = length (db_subnets d)" "length (db_subnets d) \<le> unat (max_subnets w)"
    using repD(1) [OF r] l(1) by (auto simp: rep_subnets_def)
  note full = full_iff [OF n]
  show ?thesis
  proof (cases "length (db_subnets d) = unat (max_subnets w)")
    case True
    then show ?thesis using assms tabs_get [OF t] full by (simp add: op_ppath_add_subnet_def)
  next
    case False
    with n(2) have lt: "length (db_subnets d) < unat (max_subnets w)" by simp
    have c: "unat (subnet_count st + 1) = Suc (length (db_subnets d))"
      using unat_succ [OF room [OF n(1) lt]] n(1) by simp
    let ?st = "st\<lparr>subnet_count := subnet_count st + 1, subnet_recs :=
      (subnet_recs st)[Suc (length (db_subnets d)) := \<lparr>subnet_prefix = p, first_sid = 0\<rparr>]\<rparr>"
    have "holds w (put (subnet_table (unpublished w)) (Subnets ?st) s) (d\<lparr>db_subnets := db_subnets d @ [p]\<rparr>)"
      by (rule holdsI [OF tabs_put(1) [OF t] add_subnet_rep [OF r lt l(1)]]) (use z in \<open>simp add: sized_def\<close>)
    then show ?thesis using False lt l(1) tabs_get [OF t] full c
      by (simp add: op_ppath_add_subnet_def)
  qed
qed

lemma add_vfab_correct:
  assumes "holds w s d"
  shows "\<exists>s'. op_ppath_add_vfab w nm p k sl s = Some (fst (ppath_spec w (AddVfab nm p k sl) d), s') \<and>
    holds w s' (snd (ppath_spec w (AddVfab nm p k sl) d))"
proof (rule holdsE [OF assms])
  fix st vt pt qt assume t: "tabs (unpublished w) s st vt pt qt" and r: "rep d st vt pt qt"
    and z: "sized w st vt pt qt"
  note l = sizedD [OF z]
  have n: "unat (vfab_count vt) = length (db_vfabs d)" "length (db_vfabs d) \<le> unat (max_vfabs w)"
    using repD(3) [OF r] l(3) by (auto simp: rep_vfabs_def)
  note full = full_iff [OF n]
  show ?thesis
  proof (cases "length (db_vfabs d) = unat (max_vfabs w)")
    case True
    then show ?thesis using assms tabs_get [OF t] full by (simp add: op_ppath_add_vfab_def)
  next
    case False
    with n(2) have lt: "length (db_vfabs d) < unat (max_vfabs w)" by simp
    have c: "unat (vfab_count vt + 1) = Suc (length (db_vfabs d))"
      using unat_succ [OF room [OF n(1) lt]] n(1) by simp
    let ?vt = "vt\<lparr>vfab_count := vfab_count vt + 1, vfab_recs :=
      (vfab_recs vt)[Suc (length (db_vfabs d)) := (vfab_recs vt ! Suc (length (db_vfabs d)))
        \<lparr>vfab_name := take 31 nm, vfab_prefix := p, vfab_pkey := k, vfab_sl := sl\<rparr>]\<rparr>"
    have "holds w (put (vfab_table (unpublished w)) (Vfabs ?vt) s)
        (d\<lparr>db_vfabs := db_vfabs d @ [(take 31 nm, p, k, sl)]\<rparr>)"
      by (rule holdsI [OF tabs_put(2) [OF t] add_vfab_rep [OF r lt l(3)]]) (use z in \<open>simp add: sized_def\<close>)
    then show ?thesis using False lt l(3) tabs_get [OF t] full c
      by (simp add: op_ppath_add_vfab_def)
  qed
qed


lemma put_put [simp]: "put a x (put a y s) = put a x s"
  by (simp add: put_def)

lemma u16_index: "i < 2 ^ 16 \<Longrightarrow> unat (of_nat i :: u16) = i"
  by (simp add: unat_of_nat take_bit_nat_eq_self)

lemma rep_subnets_few: "rep_subnets d st \<Longrightarrow> length (db_subnets d) < 2 ^ 16"
  by (simp add: rep_subnets_def)

lemma add_port_correct:
  assumes "holds w s d"
  shows "\<exists>s'. op_ppath_add_port w x s = Some (fst (ppath_spec w (AddPort x) d), s') \<and>
    holds w s' (snd (ppath_spec w (AddPort x) d))"
proof (rule holdsE [OF assms])
  fix st vt pt qt assume t: "tabs (unpublished w) s st vt pt qt" and r: "rep d st vt pt qt"
    and z: "sized w st vt pt qt"
  note l = sizedD [OF z]
  have n: "unat (port_count pt) = length (db_ports d)" "length (db_ports d) \<le> unat (max_ports w)"
    using repD(4) [OF r] l(4) by (auto simp: rep_ports_def)
  note full = full_iff [OF n] and sc = scan_subnet [OF repD(1) [OF r], of "port_prefix x"]
  have sn: "unat (subnet_count st) = length (db_subnets d)"
    using repD(1) [OF r] by (simp add: rep_subnets_def)
  show ?thesis
  proof (cases "length (db_ports d) = unat (max_ports w)")
    case True
    then show ?thesis using assms tabs_get [OF t] full by (simp add: op_ppath_add_port_def)
  next
    case False
    with n(2) have lt: "length (db_ports d) < unat (max_ports w)" by simp
    have c: "unat (port_count pt + 1) = Suc (length (db_ports d))"
      using unat_succ [OF room [OF n(1) lt]] n(1) by simp
    let ?pt = "pt\<lparr>port_count := port_count pt + 1\<rparr>" and ?a = "port_table (unpublished w)"
    have g: "get_subnets (put ?a (Ports ?pt) s) (subnet_table (unpublished w)) = Some st"
      using tabs_get(1) [OF tabs_put(3) [OF t]] .
    show ?thesis
    proof (cases "position (\<lambda>y. y = port_prefix x) (db_subnets d)")
      case None
      have "holds w (put ?a (Ports ?pt) s) (d\<lparr>db_ports := db_ports d @ [zero_port]\<rparr>)"
        by (rule holdsI [OF tabs_put(3) [OF t] add_lost_port_rep [OF r lt l(4)]])
          (use z in \<open>simp add: sized_def\<close>)
      then show ?thesis using None False lt tabs_get [OF t] full c g sc sn
        by (simp add: op_ppath_add_port_def)
    next
      case (Some i)
      then have i: "0 < i" "i \<le> length (db_subnets d)" using position_bounds by blast+
      then have id: "unat (subnet_id (x\<lparr>subnet_id := of_nat i\<rparr>)) \<le> length (db_subnets d)"
        using rep_subnets_few [OF repD(1) [OF r]] by (simp add: u16_index)
      let ?pt2 = "pt\<lparr>port_count := port_count pt + 1,
        port_recs := (port_recs pt)[Suc (length (db_ports d)) := x\<lparr>subnet_id := of_nat i\<rparr>]\<rparr>"
      have "holds w (put ?a (Ports ?pt2) s) (d\<lparr>db_ports := db_ports d @ [x\<lparr>subnet_id := of_nat i\<rparr>]\<rparr>)"
        by (rule holdsI [OF tabs_put(3) [OF t] add_port_rep [OF r lt l(4) id]])
          (use z in \<open>simp add: sized_def\<close>)
      then show ?thesis using Some i False lt l(4) tabs_get [OF t] full c g sc sn
        by (simp add: op_ppath_add_port_def)
    qed
  qed
qed

lemma sid_literal:
  "(x :: op_ppath_sid_record_t)\<lparr>lower_sid := a, upper_sid := b, vfab_id := c, next_sid := e\<rparr> =
     \<lparr>lower_sid = a, upper_sid = b, vfab_id = c, next_sid = e\<rparr>"
  by (cases x) simp

lemma add_sid_correct:
  assumes "holds w s d"
  shows "\<exists>s'. op_ppath_add_sid w p lo up nm s = Some (fst (ppath_spec w (AddSid p lo up nm) d), s') \<and>
    holds w s' (snd (ppath_spec w (AddSid p lo up nm) d))"
proof (rule holdsE [OF assms])
  fix st vt pt qt assume t: "tabs (unpublished w) s st vt pt qt" and r: "rep d st vt pt qt"
    and z: "sized w st vt pt qt"
  note l = sizedD [OF z]
  have n: "unat (sid_count st) = length (db_sids d)" "length (db_sids d) \<le> unat (max_sids w)"
    using repD(2) [OF r] l(2) by (auto simp: rep_sids_def)
  have sn: "unat (subnet_count st) = length (db_subnets d)"
    using repD(1) [OF r] by (simp add: rep_subnets_def)
  have vn: "unat (vfab_count vt) = length (db_vfabs d)"
    using repD(3) [OF r] by (simp add: rep_vfabs_def)
  note full = full_iff [OF n] and sc = scan_subnet [OF repD(1) [OF r], of p]
  have sv: "scan (\<lambda>x. Some (vfab_name x = nm)) (vfab_recs vt) (unat (vfab_count vt)) 1 =
    Some (case position (\<lambda>(x, _). x = nm) (db_vfabs d) of Some i \<Rightarrow> i | None \<Rightarrow> Suc (length (db_vfabs d)))"
    by (rule scan_vfab [OF repD(3) [OF r]]) simp
  show ?thesis
  proof (cases "length (db_sids d) = unat (max_sids w)")
    case True
    then show ?thesis using assms tabs_get [OF t] full by (simp add: op_ppath_add_sid_def)
  next
    case False
    with n(2) have lt: "length (db_sids d) < unat (max_sids w)" by simp
    let ?n = "Suc (length (db_sids d))" and ?a = "subnet_table (unpublished w)"
    have c: "unat (sid_count st + 1) = ?n"
      using unat_succ [OF room [OF n(1) lt]] n(1) by simp
    have nl: "?n < length (sid_recs st)" using l(2) lt by simp
    let ?x = "(sid_recs st ! ?n)\<lparr>lower_sid := lo, upper_sid := up\<rparr>"
    let ?st = "st\<lparr>sid_count := sid_count st + 1, sid_recs := (sid_recs st)[?n := ?x]\<rparr>"
    have lost: "holds w (put ?a (Subnets ?st) s) (d\<lparr>db_sids := db_sids d @ [(0, lo, up, 0)]\<rparr>)"
      by (rule holdsI [OF tabs_put(1) [OF t] add_lost_sid_rep [OF r lt l(2)]])
        (use z in \<open>simp add: sized_def\<close>)
    have g: "get_vfabs (put ?a (Subnets ?st) s) (vfab_table (unpublished w)) = Some vt"
      using tabs_get(3) [OF tabs_put(1) [OF t]] .
    show ?thesis
    proof (cases "position (\<lambda>x. x = p) (db_subnets d)")
      case None
      then show ?thesis using lost False lt nl tabs_get [OF t] full c sc sn
        by (simp add: op_ppath_add_sid_def)
    next
      case (Some i)
      then have i: "0 < i" "i \<le> length (db_subnets d)" using position_bounds by blast+
      then have id: "unat (of_nat i :: u16) = i" and il: "i < length (subnet_recs st)"
        using rep_subnets_few [OF repD(1) [OF r]] repD(1) [OF r]
        by (simp_all add: u16_index rep_subnets_def)
      show ?thesis
      proof (cases "position (\<lambda>(x, _). x = nm) (db_vfabs d)")
        case None
        then show ?thesis using Some i id lost False lt nl tabs_get [OF t] full c sc sn g sv vn
          by (simp add: op_ppath_add_sid_def)
      next
        fix v assume v: "position (\<lambda>(x, _). x = nm) (db_vfabs d) = Some v"
        then have vb: "v \<noteq> 0" "v \<le> length (db_vfabs d)" using position_bounds by blast+
        let ?y = "\<lparr>lower_sid = lo, upper_sid = up, vfab_id = of_nat v,
          next_sid = first_sid (subnet_recs st ! i)\<rparr>"
        let ?st2 = "st\<lparr>sid_count := sid_count st + 1, sid_recs := (sid_recs st)[?n := ?y],
          subnet_recs := (subnet_recs st)[i := (subnet_recs st ! i)\<lparr>first_sid := sid_count st + 1\<rparr>]\<rparr>"
        have "holds w (put ?a (Subnets ?st2) s) (d\<lparr>db_sids := db_sids d @ [(i, lo, up, v)]\<rparr>)"
          by (rule holdsI [OF tabs_put(1) [OF t] add_sid_rep [OF r lt l(2) i vb]])
            (use z in \<open>simp add: sized_def\<close>)
        then show ?thesis using Some v vb i id il False lt nl tabs_get [OF t] full c sc sn g sv vn
          by (simp add: op_ppath_add_sid_def sid_literal Let_def)
      qed
    qed
  qed
qed


lemma sid_chain_slots:
  "map (\<lambda>i. db_sids d ! (i - 1)) (slots (\<lambda>i. sid_own d i = j) (length (db_sids d))) = sid_chain d j"
  if "j < 2 ^ 16"
proof -
  have "map (\<lambda>i. db_sids d ! (i - 1)) (slots (\<lambda>i. sid_own d i = j) (length (db_sids d))) =
      rev (map (\<lambda>x. x) (filter (\<lambda>(i, _). i = j \<and> i \<noteq> 0) (db_sids d)))"
    by (rule slots_entries) (use that in \<open>auto simp: sid_own_def split: prod.splits\<close>)
  then show ?thesis by (simp add: sid_chain_def)
qed

lemma find_map: "find P (map f xs) = map_option f (find (P \<circ> f) xs)"
  by (induction xs) auto

lemma find_cong_set: "(\<And>x. x \<in> set xs \<Longrightarrow> P x = Q x) \<Longrightarrow> find P xs = find Q xs"
  by (induction xs) auto

lemma find_in: "find P xs = Some x \<Longrightarrow> x \<in> set xs \<and> P x"
  by (auto simp: find_Some_iff)

text \<open>What a slot of the service id table says about the abstract list.\<close>

lemma sid_slot:
  assumes "rep_sids d st" "rep_subnets d st" "i \<in> set (slots (\<lambda>i. sid_own d i = j) (length (db_sids d)))"
    "j < length (subnet_recs st)"
  shows "sid_matches h (sid_recs st ! i) =
      (case db_sids d ! (i - 1) of (_, lo, up, _) \<Rightarrow> sid_hit h lo up)"
    "unat (vfab_id (sid_recs st ! i)) = (case db_sids d ! (i - 1) of (_, _, _, v) \<Rightarrow> v)"
    "lower_sid (sid_recs st ! i) = (case db_sids d ! (i - 1) of (_, lo, _, _) \<Rightarrow> lo)"
    "unat (vfab_id (sid_recs st ! i)) \<noteq> 0" "unat (vfab_id (sid_recs st ! i)) \<le> length (db_vfabs d)"
    "0 < i" "i < length (sid_recs st)" "unat (of_nat i :: u32) = i"
proof -
  have i: "1 \<le> i" "i \<le> length (db_sids d)" "sid_own d i = j" using assms(3) by (auto simp: set_slots)
  obtain a lo up v where x: "db_sids d ! (i - 1) = (a, lo, up, v)" by (cases "db_sids d ! (i - 1)") auto
  have "a \<noteq> 0" using i(3) assms(2,4) x by (auto simp: sid_own_def Let_def rep_subnets_def split: if_splits)
  moreover have "\<forall>j < length (db_sids d). case db_sids d ! j of (i, lo, up, v) \<Rightarrow>
       i \<noteq> 0 \<longrightarrow> lower_sid (sid_recs st ! Suc j) = lo \<and> upper_sid (sid_recs st ! Suc j) = up \<and>
         unat (vfab_id (sid_recs st ! Suc j)) = v \<and> v \<noteq> 0 \<and> v \<le> length (db_vfabs d) \<and>
         i \<le> length (db_subnets d)"
    using assms(1) by (simp add: rep_sids_def)
  then have "case db_sids d ! (i - 1) of (a, lo, up, v) \<Rightarrow>
       a \<noteq> 0 \<longrightarrow> lower_sid (sid_recs st ! i) = lo \<and> upper_sid (sid_recs st ! i) = up \<and>
         unat (vfab_id (sid_recs st ! i)) = v \<and> v \<noteq> 0 \<and> v \<le> length (db_vfabs d) \<and>
         a \<le> length (db_subnets d)"
    using i by (elim allE [of _ "i - 1"]) simp
  ultimately show "sid_matches h (sid_recs st ! i) =
      (case db_sids d ! (i - 1) of (_, lo, up, _) \<Rightarrow> sid_hit h lo up)"
    "unat (vfab_id (sid_recs st ! i)) = (case db_sids d ! (i - 1) of (_, _, _, v) \<Rightarrow> v)"
    "lower_sid (sid_recs st ! i) = (case db_sids d ! (i - 1) of (_, lo, _, _) \<Rightarrow> lo)"
    "unat (vfab_id (sid_recs st ! i)) \<noteq> 0" "unat (vfab_id (sid_recs st ! i)) \<le> length (db_vfabs d)"
    using x by (simp_all add: sid_matches_hit)
  have "length (db_sids d) = unat (sid_count st)" "length (db_sids d) < length (sid_recs st)"
    using assms(1) by (simp_all add: rep_sids_def)
  with i show "0 < i" "i < length (sid_recs st)" "unat (of_nat i :: u32) = i"
    using unsigned_less [of "sid_count st", where 'a = nat]
    by (simp_all add: unat_of_nat take_bit_nat_eq_self)
qed

text \<open>The service id walk of \<open>op_ppath_add_path\<close> finds what \<open>sid_pick\<close> finds in the list.\<close>

lemma add_sid_walk_pick:
  assumes "rep_subnets d st" "rep_sids d st" "i \<le> length (db_subnets d)"
  shows "case sid_pick h (sid_chain d i) of
      None \<Rightarrow> add_sid_walk h (sid_recs st) (first_sid (subnet_recs st ! i)) = Some 0
    | Some v \<Rightarrow> \<exists>n. n \<noteq> 0 \<and> add_sid_walk h (sid_recs st) (first_sid (subnet_recs st ! i)) = Some n \<and>
        unat n < length (sid_recs st) \<and> unat (vfab_id (sid_recs st ! unat n)) = v \<and>
        v \<noteq> 0 \<and> v \<le> length (db_vfabs d)"
proof -
  let ?S = "slots (\<lambda>j. sid_own d j = i) (length (db_sids d))"
  have il: "i < length (subnet_recs st)" and i16: "i < 2 ^ 16"
    using assms(1,3) by (auto simp: rep_subnets_def)
  have "sids.indexed (sid_recs st) (subnet_recs st) (sid_own d) (\<lambda>_. ()) (length (db_sids d))"
    using assms(2) by (simp add: rep_sids_def)
  from sids.indexed_chain [OF this il, of "()"]
  have "linked next_sid (sid_recs st) (first_sid (subnet_recs st ! i)) ?S" by simp
  note walk = add_sid_walk_linked [OF this, of h]
  have f: "find (\<lambda>(_, lo, up, _). sid_hit h lo up) (sid_chain d i) =
      map_option (\<lambda>i. db_sids d ! (i - 1)) (find (\<lambda>i. sid_matches h (sid_recs st ! i)) ?S)"
    unfolding sid_chain_slots [OF i16, symmetric] find_map
    by (rule arg_cong [where f = "map_option _"], rule find_cong_set)
      (simp add: sid_slot(1) [OF assms(2,1) _ il] split: prod.splits)
  show ?thesis
  proof (cases "find (\<lambda>i. sid_matches h (sid_recs st ! i)) ?S")
    case None
    then show ?thesis using walk f by (simp add: sid_pick_def)
  next
    case (Some k)
    then have k: "k \<in> set ?S" using find_in by fastforce
    note slot = sid_slot [OF assms(2,1) k il]
    have "of_nat k \<noteq> (0 :: u32)" using slot(6,8) by auto
    then show ?thesis using Some walk f slot(2,4,5,7,8)
      by (auto simp: sid_pick_def split: prod.splits)
  qed
qed

lemma add_path_correct:
  assumes "holds w s d"
  shows "\<exists>s'. op_ppath_add_path w x s = Some (fst (ppath_spec w (AddPath x) d), s') \<and>
    holds w s' (snd (ppath_spec w (AddPath x) d))"
proof (rule holdsE [OF assms])
  fix st vt pt qt assume t: "tabs (unpublished w) s st vt pt qt" and r: "rep d st vt pt qt"
    and z: "sized w st vt pt qt"
  note l = sizedD [OF z]
  have n: "unat (path_count qt) = length (db_paths d)" "length (db_paths d) \<le> unat (max_paths w)"
    using repD(5) [OF r] l(5) by (auto simp: rep_paths_def)
  have sn: "unat (subnet_count st) = length (db_subnets d)"
    using repD(1) [OF r] by (simp add: rep_subnets_def)
  note full = full_iff [OF n] and sc = scan_subnet [OF repD(1) [OF r], of "SubnetPrefix (SGID x)"]
  show ?thesis
  proof (cases "position (\<lambda>y. y = SubnetPrefix (SGID x)) (db_subnets d)")
    case None
    then show ?thesis using assms tabs_get [OF t] sc sn by (simp add: op_ppath_add_path_def)
  next
    case (Some i)
    then have i: "0 < i" "i \<le> length (db_subnets d)" using position_bounds by blast+
    then have il: "i < length (subnet_recs st)" using repD(1) [OF r] by (simp add: rep_subnets_def)
    note pick = add_sid_walk_pick [OF repD(1,2) [OF r] i(2), of "ntoh64 (ServiceID x)"]
    show ?thesis
    proof (cases "sid_pick (ntoh64 (ServiceID x)) (sid_chain d i)")
      case None
      then show ?thesis using assms Some i il pick tabs_get [OF t] sc sn
        by (simp add: op_ppath_add_path_def)
    next
      fix v assume v: "sid_pick (ntoh64 (ServiceID x)) (sid_chain d i) = Some v"
      then obtain m where m: "m \<noteq> 0"
        "add_sid_walk (ntoh64 (ServiceID x)) (sid_recs st) (first_sid (subnet_recs st ! i)) = Some m"
        "unat m < length (sid_recs st)" "unat (vfab_id (sid_recs st ! unat m)) = v"
        and vb: "v \<noteq> 0" "v \<le> length (db_vfabs d)"
        using pick by auto
      have vl: "v < length (vfab_recs vt)" using vb repD(3) [OF r] by (simp add: rep_vfabs_def)
      show ?thesis
      proof (cases "length (db_paths d) = unat (max_paths w)")
        case True
        then show ?thesis using assms Some i il v m full tabs_get [OF t] sc sn
          by (simp add: op_ppath_add_path_def)
      next
        case False
        with n(2) have lt: "length (db_paths d) < unat (max_paths w)" by simp
        have c: "unat (path_count qt + 1) = Suc (length (db_paths d))"
          using unat_succ [OF room [OF n(1) lt]] n(1) by simp
        note rep' = add_path_rep [OF r lt l(5) vb, of x]
        have "holds w (put (vfab_table (unpublished w)) (Vfabs (vt\<lparr>vfab_recs :=
            (vfab_recs vt)[v := (vfab_recs vt ! v)
              \<lparr>first_dlid := (first_dlid (vfab_recs vt ! v))(lid_hash (DLID x) := path_count qt + 1),
               first_dguid := (first_dguid (vfab_recs vt ! v))(gid_hash (DGID x) := path_count qt + 1)\<rparr>]\<rparr>))
          (put (path_table (unpublished w)) (Paths (qt\<lparr>path_count := path_count qt + 1,
            path_recs := (path_recs qt)[Suc (length (db_paths d)) :=
              (path_recs qt ! Suc (length (db_paths d)))
              \<lparr>path_rec := x, flags := 1, next_lid := first_dlid (vfab_recs vt ! v) (lid_hash (DLID x)),
               next_guid := first_dguid (vfab_recs vt ! v) (gid_hash (DGID x))\<rparr>]\<rparr>)) s))
          (d\<lparr>db_paths := db_paths d @ [(v, x)]\<rparr>)"
          by (rule holdsI [OF tabs_put(2) [OF tabs_put(4) [OF t]] rep'])
            (use z in \<open>simp add: sized_def\<close>)
        then show ?thesis using Some i il v vl m full False lt l(5) tabs_get [OF t] sc sn c
          by (simp add: op_ppath_add_path_def Let_def)
      qed
    qed
  qed
qed

theorem ppath_step_refines:
  assumes "holds w s d"
  shows "\<exists>s'. ppath_step w p s = Inr (fst (ppath_spec w p d), s') \<and> holds w s' (snd (ppath_spec w p d))"
proof (cases p)
  case (AddSubnet x) then show ?thesis using add_subnet_correct [OF assms, of x] by force
next
  case (AddVfab nm k sl x) then show ?thesis using add_vfab_correct [OF assms, of nm k sl x] by force
next
  case (AddSid a b c nm) then show ?thesis using add_sid_correct [OF assms, of a b c nm] by force
next
  case (AddPort x) then show ?thesis using add_port_correct [OF assms, of x] by force
next
  case (AddPath x) then show ?thesis using add_path_correct [OF assms, of x] by force
qed

interpretation ppath: data_refinement "ppath_step w" "ppath_spec w" "holds w" for w
  by unfold_locales (rule ppath_step_refines)


end
