(* ===== verification/PathDbQuery.thy ===== *)
theory PathDbQuery
  imports PathDbWriter
begin

text \<open>
  Queries.  \<open>query_db\<close> answers a query from the lists of the abstract database, by a linear search
  without hashing; the chains through the tables give the same answer.  A reader some of whose
  tables are out of date reloads them one per pass of the retry loop; with four tables and six
  passes the loop always gets to the answer.
\<close>

section \<open>The reference answer\<close>

definition port_hit :: "u64 \<Rightarrow> string \<Rightarrow> IB_PATH_RECORD_NO \<Rightarrow> op_ppath_port_record_t \<Rightarrow> bool" where
  "port_hit cm hfi q p =
    (if cm AND COMP_SGID \<noteq> 0 then source_guid p = InterfaceID (SGID q)
     else base_lid p = ntohs (SLID q) AND push_bit (unat (lmc p)) 0xffff \<and> hfi_name p = hfi)"

definition sid_choice :: "u64 \<Rightarrow> (nat \<times> u64 \<times> u64 \<times> nat) list \<Rightarrow> nat option" where
  "sid_choice h xs = (case sid_pick h xs of Some v \<Rightarrow> Some v
     | None \<Rightarrow> map_option (\<lambda>(_, _, _, v). v) (find (\<lambda>(_, lo, _, _). ntoh64 lo = 0) (rev xs)))"

definition query_vfab :: "u64 \<Rightarrow> IB_PATH_RECORD_NO \<Rightarrow> op_ppath_port_record_t \<Rightarrow> pdb \<Rightarrow> nat option" where
  "query_vfab cm q p d =
    (if cm AND COMP_PKEY \<noteq> 0
     then position (\<lambda>(_, pre, key, _). pre = port_prefix p \<and> key AND 0xff7f = P_Key q AND 0xff7f) (db_vfabs d)
     else sid_choice (if cm AND COMP_SERVICEID \<noteq> 0 then ntoh64 (ServiceID q) else 0)
       (sid_chain d (unat (subnet_id p))))"

text \<open>The paths of a virtual fabric, newest first.\<close>

definition vfab_paths :: "pdb \<Rightarrow> nat \<Rightarrow> IB_PATH_RECORD_NO list" where
  "vfab_paths d v = map snd (rev (filter (\<lambda>(w, _). w = v) (db_paths d)))"

definition query_db ::
  "u64 \<Rightarrow> string \<Rightarrow> IB_PATH_RECORD_NO \<Rightarrow> pdb \<Rightarrow> errno + IB_PATH_RECORD_NO" where
  "query_db cm hfi q d =
    (if cm AND COMP_SGID = 0 \<and> hfi = [] then Inl EINVAL
     else (case find (port_hit cm hfi q) (db_ports d) of
         None \<Rightarrow> Inl EINVAL
       | Some p \<Rightarrow>
           if cm AND COMP_PKEY \<noteq> 0 \<and> \<not> pkey_member (P_Key q) (pkeys p) then Inl EINVAL
           else (case query_vfab cm q p d of
               None \<Rightarrow> Inl EINVAL
             | Some v \<Rightarrow>
                 (case find (path_matches cm q) (vfab_paths d v) of
                    None \<Rightarrow> Inl ENOENT
                  | Some x \<Rightarrow> Inr x))))"

section \<open>The steps of a pass\<close>

lemma lmc_mask_nth: "i < 8 \<Longrightarrow> fetch lmc_mask i = Some (push_bit i 0xffff)"
proof -
  assume "i < 8"
  then consider "i = 0" | "i = 1" | "i = 2" | "i = 3" | "i = 4" | "i = 5" | "i = 6" | "i = 7" by linarith
  then show ?thesis by cases (simp_all add: lmc_mask_def fetch_def)
qed

lemma port_matches_hit: "unat (lmc p) < 8 \<Longrightarrow> port_matches cm hfi q p = Some (port_hit cm hfi q p)"
  by (simp add: port_matches_def port_hit_def lmc_mask_nth)

lemma scan_port:
  assumes "rep_ports d pt" "\<forall>p \<in> set (db_ports d). unat (lmc p) < 8"
  shows "scan (port_matches cm hfi q) (port_recs pt) (unat (port_count pt)) 1 =
    Some (case position (port_hit cm hfi q) (db_ports d) of
      Some i \<Rightarrow> i | None \<Rightarrow> Suc (length (db_ports d)))"
proof -
  have n: "unat (port_count pt) = length (db_ports d)" using assms(1) by (simp add: rep_ports_def)
  show ?thesis unfolding n
  proof (rule scan_position)
    show "length (db_ports d) < length (port_recs pt)" using assms(1) by (simp add: rep_ports_def)
    fix j assume "j < length (db_ports d)"
    with assms show "port_matches cm hfi q (port_recs pt ! Suc j) = Some (port_hit cm hfi q (db_ports d ! j))"
      by (simp add: rep_ports_def port_matches_hit)
  qed
qed

text \<open>The sizes in a header are the table's own: nothing was lost when they were narrowed to 32 bits,
  and a reader sees the whole table.\<close>

definition sound_size :: "object \<Rightarrow> bool" where
  "sound_size x = (case x of
     Ports t \<Rightarrow> unat (port_size t) = 16 + 152 * length (port_recs t)
   | Paths t \<Rightarrow> unat (path_size t) = 16 + 80 * length (path_recs t)
   | Vfabs t \<Rightarrow> unat (vfab_size t) = 16 + 32816 * length (vfab_recs t)
   | Subnets t \<Rightarrow> unat (subnet_size t) = 16 + 16 * length (subnet_recs t) \<and>
       unat (sid_size t) = 24 * length (sid_recs t) \<and>
       unat (subnet_size t) + unat (sid_size t) < 2 ^ 32
   | _ \<Rightarrow> True)"

lemma header_sound:
  "sound_size x \<Longrightarrow> header_sizes x = Some (z1, z2) \<Longrightarrow>
     (\<forall>t. x \<noteq> Shared t) \<Longrightarrow> unat (z1 + z2) = unat z1 + unat z2 \<and> 16 \<le> unat z1"
proof -
  assume x: "sound_size x" "header_sizes x = Some (z1, z2)" "\<forall>t. x \<noteq> Shared t"
  then have "16 \<le> unat z1" "z2 = 0 \<or> unat z1 + unat z2 < 2 ^ 32"
    by (auto simp: sound_size_def header_sizes_def split: object.splits)
  then show ?thesis
  proof (elim disjE)
    assume "16 \<le> unat z1" "z2 = 0"
    then show ?thesis by simp
  next
    assume "16 \<le> unat z1" "unat z1 + unat z2 < 2 ^ 32"
    then show ?thesis by (simp add: unat_word_ariths)
  qed
qed

lemma see_sound:
  "get_ports s a = Some pt \<Longrightarrow> sound_size (Ports pt) \<Longrightarrow> see_ports s a = Some pt"
  "get_subnets s a = Some st \<Longrightarrow> sound_size (Subnets st) \<Longrightarrow> see_subnets s a = Some st"
  "get_vfabs s a = Some vt \<Longrightarrow> sound_size (Vfabs vt) \<Longrightarrow> see_vfabs s a = Some vt"
  "get_paths s a = Some qt \<Longrightarrow> sound_size (Paths qt) \<Longrightarrow> see_paths s a = Some qt"
  by (simp_all add: see_ports_def see_subnets_def see_vfabs_def see_paths_def sound_size_def Let_def
      unat_word_ariths)

text \<open>The service id walk of a query.\<close>

lemma find_sid_walk_choice:
  assumes "rep_subnets d st" "rep_sids d st" "i \<le> length (db_subnets d)"
  shows "case sid_choice h (sid_chain d i) of
      None \<Rightarrow> find_sid_walk h (sid_recs st) 0 (first_sid (subnet_recs st ! i)) = Some 0
    | Some v \<Rightarrow> \<exists>n. n \<noteq> 0 \<and> find_sid_walk h (sid_recs st) 0 (first_sid (subnet_recs st ! i)) = Some n \<and>
        unat n < length (sid_recs st) \<and> unat (vfab_id (sid_recs st ! unat n)) = v \<and>
        v \<noteq> 0 \<and> v \<le> length (db_vfabs d)"
proof -
  let ?S = "slots (\<lambda>j. sid_own d j = i) (length (db_sids d))"
  have il: "i < length (subnet_recs st)" and i16: "i < 2 ^ 16"
    using assms(1,3) by (auto simp: rep_subnets_def)
  have "sids.indexed (sid_recs st) (subnet_recs st) (sid_own d) (\<lambda>_. ()) (length (db_sids d))"
    using assms(2) by (simp add: rep_sids_def)
  from sids.indexed_chain [OF this il, of "()"]
  have "linked next_sid (sid_recs st) (first_sid (subnet_recs st ! i)) ?S" by simp
  note walk = find_sid_walk_linked [OF this, of h 0]
  note slot = sid_slot [OF assms(2,1) _ il]
  have f: "find (\<lambda>(_, lo, up, _). sid_hit h lo up) (sid_chain d i) =
      map_option (\<lambda>i. db_sids d ! (i - 1)) (find (\<lambda>i. sid_matches h (sid_recs st ! i)) ?S)"
    unfolding sid_chain_slots [OF i16, symmetric] find_map
    by (rule arg_cong [where f = "map_option _"], rule find_cong_set)
      (simp add: slot(1) split: prod.splits)
  have g: "find (\<lambda>(_, lo, _, _). ntoh64 lo = 0) (rev (sid_chain d i)) =
      map_option (\<lambda>i. db_sids d ! (i - 1)) (find (\<lambda>i. ntoh64 (lower_sid (sid_recs st ! i)) = 0) (rev ?S))"
    unfolding sid_chain_slots [OF i16, symmetric] rev_map find_map
    by (rule arg_cong [where f = "map_option _"], rule find_cong_set)
      (simp add: slot(3) split: prod.splits)
  have pick: "of_nat k \<noteq> (0 :: u32) \<and> unat (of_nat k :: u32) < length (sid_recs st) \<and>
      unat (vfab_id (sid_recs st ! unat (of_nat k :: u32))) = (case db_sids d ! (k - 1) of (_, _, _, v) \<Rightarrow> v) \<and>
      (case db_sids d ! (k - 1) of (_, _, _, v) \<Rightarrow> v \<noteq> 0 \<and> v \<le> length (db_vfabs d))"
    if k: "k \<in> set ?S" for k
    using slot(2,4-8) [OF k] by (auto split: prod.splits)
  show ?thesis
  proof (cases "find (\<lambda>i. sid_matches h (sid_recs st ! i)) ?S")
    case (Some k)
    then have k: "k \<in> set ?S" using find_in by fastforce
    show ?thesis using Some walk f pick [OF k]
      by (auto simp: sid_choice_def sid_pick_def choose_sid_def split: prod.splits)
  next
    case None
    show ?thesis
    proof (cases "find (\<lambda>i. ntoh64 (lower_sid (sid_recs st ! i)) = 0) (rev ?S)")
      case None
      then show ?thesis using \<open>find _ ?S = None\<close> walk f g
        by (simp add: sid_choice_def sid_pick_def choose_sid_def)
    next
      case (Some k)
      then have k: "k \<in> set ?S" using find_in by fastforce
      show ?thesis using Some \<open>find _ ?S = None\<close> walk f g pick [OF k]
        by (auto simp: sid_choice_def sid_pick_def choose_sid_def split: prod.splits)
    qed
  qed
qed

lemma find_vfab_query:
  assumes "rep d st vt pt qt" "p \<in> set (db_ports d)"
    "see_subnets s (subnet_table r) = Some st" "sid_table r = subnet_table r"
    "see_vfabs s (vfab_table r) = Some vt"
  shows "find_vfab cm q p r s = Some (query_vfab cm q p d)"
    "query_vfab cm q p d = Some v \<Longrightarrow> v < length (vfab_recs vt)"
proof -
  note r = repD [OF assms(1)]
  have vn: "unat (vfab_count vt) = length (db_vfabs d)" "length (db_vfabs d) < length (vfab_recs vt)"
    using r(3) by (simp_all add: rep_vfabs_def)
  obtain j where "j < length (db_ports d)" "p = db_ports d ! j" using assms(2) by (metis in_set_conv_nth)
  then have i: "unat (subnet_id p) \<le> length (db_subnets d)" using r(4) by (simp add: rep_ports_def)
  then have il: "unat (subnet_id p) < length (subnet_recs st)" using r(1) by (simp add: rep_subnets_def)
  have sv: "scan (\<lambda>x. Some (vfab_prefix x = port_prefix p \<and>
        vfab_pkey x AND 0xff7f = P_Key q AND 0xff7f)) (vfab_recs vt) (unat (vfab_count vt)) 1 =
      Some (case position (\<lambda>(_, pre, key, _). pre = port_prefix p \<and>
        key AND 0xff7f = P_Key q AND 0xff7f) (db_vfabs d) of Some i \<Rightarrow> i | None \<Rightarrow> Suc (length (db_vfabs d)))"
    by (rule scan_vfab [OF r(3)]) simp
  note walk = find_sid_walk_choice [OF r(1,2) i]
  show "find_vfab cm q p r s = Some (query_vfab cm q p d)"
  proof (cases "cm AND COMP_PKEY = 0")
    case False
    then show ?thesis using sv vn assms(5) position_bounds
      by (fastforce simp: find_vfab_def query_vfab_def split: option.splits)
  next
    case True
    let ?h = "if cm AND COMP_SERVICEID \<noteq> 0 then ntoh64 (ServiceID q) else 0"
    show ?thesis using True walk [of ?h] il assms(3,4)
      by (cases "sid_choice ?h (sid_chain d (unat (subnet_id p)))")
        (auto simp: find_vfab_def query_vfab_def)
  qed
  show "v < length (vfab_recs vt)" if v: "query_vfab cm q p d = Some v"
  proof (cases "cm AND COMP_PKEY = 0")
    case False
    with v position_bounds show ?thesis using vn(2) by (fastforce simp: query_vfab_def)
  next
    case True
    let ?h = "if cm AND COMP_SERVICEID \<noteq> 0 then ntoh64 (ServiceID q) else 0"
    from True v have "sid_choice ?h (sid_chain d (unat (subnet_id p))) = Some v"
      by (simp add: query_vfab_def)
    with walk [of ?h] vn(2) show ?thesis by auto
  qed
qed

text \<open>The walk along one hash chain finds what a search through all paths of the fabric finds.\<close>

lemma vfab_paths_slots:
  assumes "rep_paths d vt qt"
  shows "map (\<lambda>i. path_rec (path_recs qt ! i)) (slots (\<lambda>i. path_own d i = v \<and> path_key h d i = k) (length (db_paths d))) =
    filter (\<lambda>p. h p = k) (vfab_paths d v)"
proof -
  have "map (\<lambda>i. path_rec (path_recs qt ! i)) (slots (\<lambda>i. path_own d i = v \<and> path_key h d i = k) (length (db_paths d))) =
      rev (map snd (filter (\<lambda>(w, p). w = v \<and> h p = k) (db_paths d)))"
    by (rule slots_entries)
      (use assms in \<open>auto simp: rep_paths_def path_own_def path_key_def split: prod.splits\<close>)
  also have "\<dots> = filter (\<lambda>p. h p = k) (vfab_paths d v)"
    by (simp add: vfab_paths_def rev_map [symmetric] rev_filter [symmetric] filter_map o_def split_def conj_commute)
  finally show ?thesis .
qed

lemma find_filter: "(\<And>x. P x \<Longrightarrow> Q x) \<Longrightarrow> find P (filter Q xs) = find P xs"
  by (induction xs) auto

lemma chain_walk:
  assumes "rep_paths d vt qt" "\<And>x. P x \<Longrightarrow> h x = k"
    "linked nxt (path_recs qt) p (slots (\<lambda>i. path_own d i = v \<and> path_key h d i = k) (length (db_paths d)))"
  shows "\<exists>res. path_walk (\<lambda>r. P (path_rec r)) nxt (path_recs qt) p =
      Some (case res of None \<Rightarrow> NotFound | Some r \<Rightarrow> Hit r) \<and>
    map_option path_rec res = find P (vfab_paths d v) \<and> (\<forall>r. res = Some r \<longrightarrow> flags r \<noteq> 0)"
proof (intro exI conjI allI impI)
  let ?S = "slots (\<lambda>i. path_own d i = v \<and> path_key h d i = k) (length (db_paths d))"
  show "path_walk (\<lambda>r. P (path_rec r)) nxt (path_recs qt) p =
      Some (case find (\<lambda>r. P (path_rec r)) (map ((!) (path_recs qt)) ?S) of
        None \<Rightarrow> NotFound | Some r \<Rightarrow> Hit r)"
    by (rule path_walk_linked [OF assms(3)])
  have "map_option path_rec (find (\<lambda>r. P (path_rec r)) (map ((!) (path_recs qt)) ?S)) =
      find P (map (\<lambda>i. path_rec (path_recs qt ! i)) ?S)"
    by (simp add: find_map o_def option.map_comp)
  also have "\<dots> = find P (vfab_paths d v)"
    unfolding vfab_paths_slots [OF assms(1)] by (rule find_filter) (rule assms(2))
  finally show "map_option path_rec (find (\<lambda>r. P (path_rec r)) (map ((!) (path_recs qt)) ?S)) =
      find P (vfab_paths d v)" .
  fix r assume "find (\<lambda>r. P (path_rec r)) (map ((!) (path_recs qt)) ?S) = Some r"
  then have "r \<in> set (map ((!) (path_recs qt)) ?S)" using find_in by fast
  then obtain i where "1 \<le> i" "i \<le> length (db_paths d)" "r = path_recs qt ! i" by (auto simp: set_slots)
  with assms(1) show "flags r \<noteq> 0"
    unfolding rep_paths_def by (elim conjE allE [of _ "i - 1"]) auto
qed

lemma find_on_chain_query:
  assumes "rep_paths d vt qt" "v < length (vfab_recs vt)"
  shows "find_on_chain cm q (vfab_recs vt ! v) (path_recs qt) =
    Some (case find (path_matches cm q) (vfab_paths d v) of None \<Rightarrow> NotFound | Some x \<Rightarrow> Hit x)"
proof -
  note k = assms(1) [unfolded rep_paths_key]
  have "\<exists>res. path_walk (\<lambda>r. path_matches cm q (path_rec r))
       (if gid_query cm then next_guid else next_lid) (path_recs qt)
       (if gid_query cm then first_dguid (vfab_recs vt ! v) (gid_hash (DGID q))
        else first_dlid (vfab_recs vt ! v) (lid_hash (DLID q))) =
       Some (case res of None \<Rightarrow> NotFound | Some r \<Rightarrow> Hit r) \<and>
     map_option path_rec res = find (path_matches cm q) (vfab_paths d v) \<and> (\<forall>r. res = Some r \<longrightarrow> flags r \<noteq> 0)"
  proof (cases "gid_query cm")
    case True
    have "linked next_guid (path_recs qt) (first_dguid (vfab_recs vt ! v) (gid_hash (DGID q)))
        (slots (\<lambda>i. path_own d i = v \<and> path_key (\<lambda>p. gid_hash (DGID p)) d i = gid_hash (DGID q))
          (length (db_paths d)))"
      by (rule guids.indexed_chain [OF _ assms(2)]) (use k in blast)
    from chain_walk [OF assms(1) _ this, of "path_matches cm q"] True show ?thesis
      by (simp add: path_matches_def)
  next
    case False
    have "linked next_lid (path_recs qt) (first_dlid (vfab_recs vt ! v) (lid_hash (DLID q)))
        (slots (\<lambda>i. path_own d i = v \<and> path_key (\<lambda>p. lid_hash (DLID p)) d i = lid_hash (DLID q))
          (length (db_paths d)))"
      by (rule lids.indexed_chain [OF _ assms(2)]) (use k in blast)
    from chain_walk [OF assms(1) _ this, of "path_matches cm q"] False show ?thesis
      by (simp add: path_matches_def)
  qed
  then obtain res where "path_walk (\<lambda>r. path_matches cm q (path_rec r))
       (if gid_query cm then next_guid else next_lid) (path_recs qt)
       (if gid_query cm then first_dguid (vfab_recs vt ! v) (gid_hash (DGID q))
        else first_dlid (vfab_recs vt ! v) (lid_hash (DLID q))) =
       Some (case res of None \<Rightarrow> NotFound | Some r \<Rightarrow> Hit r)"
    "map_option path_rec res = find (path_matches cm q) (vfab_paths d v)" "\<forall>r. res = Some r \<longrightarrow> flags r \<noteq> 0"
    by blast
  then show ?thesis by (cases res) (simp_all add: find_on_chain_def eq_commute [of _ "find _ _"])
qed

section \<open>Reloading stale tables\<close>

definition table_of :: "table_kind \<Rightarrow> op_ppath_reader_t \<Rightarrow> nat" where
  "table_of k r = (case k of PORT_TABLE \<Rightarrow> port_table r | PATH_TABLE \<Rightarrow> path_table r
     | SUBNET_TABLE \<Rightarrow> subnet_table r | VFAB_TABLE \<Rightarrow> vfab_table r)"

text \<open>Nothing the readers depend on has changed: only descriptors come and go.\<close>

definition same_db :: "shm \<Rightarrow> shm \<Rightarrow> bool" where
  "same_db s s' \<longleftrightarrow> objects s' = objects s \<and> names s' = names s \<and> outcome s' = outcome s"

lemma same_db_refl [simp]: "same_db s s"
  by (simp add: same_db_def)

lemma same_db_trans: "same_db s s1 \<Longrightarrow> same_db s1 s2 \<Longrightarrow> same_db s s2"
  by (simp add: same_db_def)

text \<open>The shared table at \<open>a\<close> names four tables that together represent the database \<open>d\<close> and are
  small enough for the 32-bit sizes in their headers, and system calls succeed.\<close>

definition serving ::
  "shm \<Rightarrow> nat \<Rightarrow> op_ppath_shared_table_t \<Rightarrow> (table_kind \<Rightarrow> nat) \<Rightarrow> pdb \<Rightarrow> bool" where
  "serving s a t A d \<longleftrightarrow> get_shared s a = Some t \<and> (\<forall>k. names s (table_name k t) = Some (A k)) \<and>
     (\<forall>n. outcome s n = 0) \<and> (\<forall>k x. objects s (A k) = Some x \<longrightarrow> sound_size x) \<and>
     (\<exists>st vt pt qt. get_subnets s (A SUBNET_TABLE) = Some st \<and> get_vfabs s (A VFAB_TABLE) = Some vt \<and>
        get_ports s (A PORT_TABLE) = Some pt \<and> get_paths s (A PATH_TABLE) = Some qt \<and> rep d st vt pt qt)"

text \<open>The reader's tables that are not stale are the named ones.\<close>

definition synced ::
  "op_ppath_reader_t \<Rightarrow> nat \<Rightarrow> op_ppath_shared_table_t \<Rightarrow> (table_kind \<Rightarrow> nat) \<Rightarrow> bool" where
  "synced r a t A \<longleftrightarrow> shared_table r = a \<and> (\<forall>k. \<not> stale k r t \<longrightarrow> table_of k r = A k) \<and>
     (\<not> stale SUBNET_TABLE r t \<longrightarrow> sid_table r = A SUBNET_TABLE)"

definition stale_count :: "op_ppath_reader_t \<Rightarrow> op_ppath_shared_table_t \<Rightarrow> nat" where
  "stale_count r t = length (filter (\<lambda>k. stale k r t) [PORT_TABLE, SUBNET_TABLE, VFAB_TABLE, PATH_TABLE])"

lemma stale_count_le: "stale_count r t \<le> 4"
  unfolding stale_count_def by (rule order_trans [OF length_filter_le]) simp

lemma get_cong:
  assumes "objects s' = objects s"
  shows "get_shared s' a = get_shared s a" "get_subnets s' a = get_subnets s a"
    "get_vfabs s' a = get_vfabs s a" "get_ports s' a = get_ports s a" "get_paths s' a = get_paths s a"
  using assms by (simp_all add: get_shared_def get_subnets_def get_vfabs_def get_ports_def get_paths_def)

lemma serving_same:
  assumes "serving s a t A d" "same_db s s'"
  shows "serving s' a t A d"
proof -
  have "objects s' = objects s" "names s' = names s" "outcome s' = outcome s"
    using assms(2) by (simp_all add: same_db_def)
  with assms(1) show ?thesis unfolding serving_def get_cong [OF \<open>objects s' = objects s\<close>] by simp
qed

lemma serving_object:
  "serving s a t A d \<Longrightarrow>
     \<exists>x z1 z2. objects s (A k) = Some x \<and> header_sizes x = Some (z1, z2) \<and> z1 + z2 \<noteq> 0"
proof -
  assume s: "serving s a t A d"
  then obtain x where x: "objects s (A k) = Some x" "\<forall>t. x \<noteq> Shared t" "x \<noteq> Raw"
    by (cases k) (auto simp: serving_def get_Some)
  then obtain z1 z2 where z: "header_sizes x = Some (z1, z2)"
    by (cases x) (auto simp: header_sizes_def)
  moreover have "sound_size x" using s x(1) by (auto simp: serving_def)
  ultimately have "unat (z1 + z2) \<noteq> 0" using header_sound [of x z1 z2] x(2) by simp
  then show ?thesis using x(1) z by auto
qed

lemma close_if_open_fields [simp]:
  "objects (close_if_open fd s) = objects s" "names (close_if_open fd s) = names s"
  "outcome (close_if_open fd s) = outcome s" "calls (close_if_open fd s) = calls s"
  by (simp_all add: close_if_open_def close_def)

lemma closed_reader:
  assumes "close_ppath_table r k s = (r1, s1)"
  shows "same_db s s1" "shared_table r1 = shared_table r" "stale j r1 t = stale j r t"
    "j \<noteq> k \<Longrightarrow> table_of j r1 = table_of j r" "sid_table r1 = sid_table r"
proof -
  show "same_db s s1" using assms by (cases k) (auto simp: close_ppath_table_def same_db_def)
  show "shared_table r1 = shared_table r" "sid_table r1 = sid_table r"
    using assms by (cases k; auto simp: close_ppath_table_def)+
  show "stale j r1 t = stale j r t"
    using assms by (cases k) (cases j; auto simp: close_ppath_table_def stale_def)+
  show "j \<noteq> k \<Longrightarrow> table_of j r1 = table_of j r"
    using assms by (cases k) (cases j; auto simp: close_ppath_table_def table_of_def)+
qed

lemma attached_reader:
  "shared_table (attach_table k h fd t r) = shared_table r"
  "stale j (attach_table k h fd t r) t \<longleftrightarrow> j \<noteq> k \<and> stale j r t"
  "table_of j (attach_table k h fd t r) = (if j = k then h else table_of j r)"
  "sid_table (attach_table k h fd t r) = (if k = SUBNET_TABLE then h else sid_table r)"
     apply (cases k; simp add: attach_table_def)
    apply (cases k; cases j; simp add: attach_table_def stale_def)
   apply (cases k; cases j; simp add: attach_table_def table_of_def)
  apply (cases k; simp add: attach_table_def)
  done

text \<open>Opening an existing table when system calls succeed.\<close>

lemma open_old_table:
  assumes "get_shared s (shared_table r) = Some t" "names s (table_name k t) = Some h"
    "\<And>n. outcome s n = 0" "objects s h = Some x" "header_sizes x = Some (z1, z2)" "z1 + z2 \<noteq> 0"
  shows "\<exists>fd s'. open_ppath_table r k False c c2 s = Some (0, attach_table k h fd t r, s') \<and>
    same_db s s' \<and> fds s' = (fd, h) # fds s \<and> fd = new_fd (fds s)"
proof -
  let ?fd = "new_fd (fds s)"
  let ?s1 = "s\<lparr>calls := Suc (calls s), fds := (?fd, h) # fds s\<rparr>"
  have o: "shm_open (table_name k t) False s = (Inr ?fd, ?s1)"
    using assms(2,3) by (simp add: shm_open_def syscall_def open_fd_def)
  have m: "mmap len ?fd s' = (Inr h, s'\<lparr>calls := Suc (calls s')\<rparr>)"
    if "fds s' = (?fd, h) # fds s" "outcome s' = outcome s" "0 < len" for s' len
    using that assms(3) by (simp add: mmap_def syscall_def)
  have "map_old_table ?fd ?s1 = Some (Inr h, s\<lparr>calls := Suc (Suc (Suc (calls s))), fds := (?fd, h) # fds s\<rparr>)"
    using assms(4-6) by (simp add: map_old_table_def m unat_gt_0)
  then show ?thesis using assms(1) o
    by (auto simp: open_ppath_table_def same_db_def)
qed

lemma reload_ok:
  assumes "serving s a t A d" "synced r a t A" "stale k r t"
  shows "\<exists>r' s'. reload b k r s = Some (Again 0, r', s') \<and> same_db s s' \<and> synced r' a t A \<and>
    stale_count r' t < stale_count r t"
proof -
  obtain r1 s1 where c: "close_ppath_table r k s = (r1, s1)" by fastforce
  note cl = closed_reader [OF c] and s1 = closed_reader(1) [OF c]
  note serving = serving_same [OF assms(1) s1]
  obtain x z1 z2 where x: "objects s1 (A k) = Some x" "header_sizes x = Some (z1, z2)" "z1 + z2 \<noteq> 0"
    using serving_object [OF serving] by blast
  have sh: "get_shared s1 (shared_table r1) = Some t" and nm: "names s1 (table_name k t) = Some (A k)"
    and ok: "\<And>n. outcome s1 n = 0"
    using serving assms(2) by (simp_all add: serving_def cl synced_def)
  from open_old_table [OF sh nm ok x, of 0 0] obtain fd s2 where
    o: "open_ppath_table r1 k False 0 0 s1 = Some (0, attach_table k (A k) fd t r1, s2)" "same_db s1 s2" by blast
  let ?r' = "attach_table k (A k) fd t r1"
  have "reload b k r s = Some (Again 0, ?r', s2)"
    using c o by (simp add: reload_def reopen_ppath_table_def)
  moreover have "same_db s s2" using s1 o(2) same_db_trans by blast
  moreover have "synced ?r' a t A" using assms(2)
    by (auto simp: synced_def attached_reader cl)
  moreover have "stale_count ?r' t < stale_count r t" using assms(3)
    by (cases k) (auto simp: stale_count_def attached_reader cl)
  ultimately show ?thesis by blast
qed

section \<open>The retry loop\<close>

definition pass_of :: "errno + IB_PATH_RECORD_NO \<Rightarrow> pass" where
  "pass_of x = (case x of Inl e \<Rightarrow> if e = ENOENT then Again 0 else Stop e | Inr p \<Rightarrow> Found p)"

lemma position_find:
  "position P xs = Some i \<Longrightarrow> find P xs = Some (xs ! (i - 1)) \<and> xs ! (i - 1) \<in> set xs \<and> 0 < i \<and> i \<le> length xs"
  using position_Some [of P xs i] find_in [of P xs] by blast

text \<open>A pass either reloads a stale table or gives the answer of the reference.\<close>

lemma find_pass_cases:
  assumes "serving s a t A d" "synced r a t A" "\<forall>p \<in> set (db_ports d). unat (lmc p) < 8"
  shows "(\<exists>r' s'. find_pass cm hfi q r s = Some (Again 0, r', s') \<and> same_db s s' \<and> synced r' a t A \<and>
      stale_count r' t < stale_count r t) \<or>
    find_pass cm hfi q r s = Some (pass_of (query_db cm hfi q d), r, s) \<and>
      (query_db cm hfi q d = Inl ENOENT \<longrightarrow> stale_count r t = 0)"
proof -
  note reload = reload_ok [OF assms(1,2)]
  have sh: "get_shared s (shared_table r) = Some t" using assms(1,2) by (simp add: serving_def synced_def)
  show ?thesis
  proof (cases "stale PORT_TABLE r t")
    case True
    then show ?thesis using reload [OF True, of True] sh by (simp add: find_pass_def)
  next
    case fresh: False
    obtain st vt pt qt where g: "get_subnets s (A SUBNET_TABLE) = Some st" "get_vfabs s (A VFAB_TABLE) = Some vt"
      "get_ports s (A PORT_TABLE) = Some pt" "get_paths s (A PATH_TABLE) = Some qt" and rp: "rep d st vt pt qt"
      using assms(1) unfolding serving_def by blast
    have z: "sound_size (Subnets st)" "sound_size (Vfabs vt)" "sound_size (Ports pt)" "sound_size (Paths qt)"
      using assms(1) g unfolding serving_def get_Some by blast+
    note g = see_sound(2) [OF g(1) z(1)] see_sound(3) [OF g(2) z(2)] see_sound(1) [OF g(3) z(3)]
      see_sound(4) [OF g(4) z(4)]
    have tb: "table_of k r = A k" if "\<not> stale k r t" for k using assms(2) that by (simp add: synced_def)
    have pt: "see_ports s (port_table r) = Some pt" using tb [OF fresh] g(3) by (simp add: table_of_def)
    note sc = scan_port [OF repD(4) [OF rp] assms(3), of cm hfi q]
    have pn: "unat (port_count pt) = length (db_ports d)" "length (db_ports d) < length (port_recs pt)"
      "\<And>j. j < length (db_ports d) \<Longrightarrow> port_recs pt ! Suc j = db_ports d ! j"
      using repD(4) [OF rp] by (auto simp: rep_ports_def)
    note start = find_pass_def [of cm hfi q r s] sh fresh pt sc pn(1)
    show ?thesis
    proof (cases "cm AND COMP_SGID = 0 \<and> hfi = []")
      case True
      then show ?thesis using start by (simp add: query_db_def pass_of_def)
    next
      case src: False
      show ?thesis
      proof (cases "position (port_hit cm hfi q) (db_ports d)")
        case None
        with src start show ?thesis by (auto simp: query_db_def pass_of_def position_None)
      next
        case (Some i)
        note pos = position_find [OF Some]
        let ?p = "db_ports d ! (i - 1)"
        have "i - 1 < length (db_ports d)" using pos by auto
        from pn(3) [OF this] have f: "fetch (port_recs pt) i = Some ?p" using pos pn(2) by simp
        show ?thesis
        proof (cases "cm AND COMP_PKEY \<noteq> 0 \<and> \<not> pkey_member (P_Key q) (pkeys ?p)")
          case True
          with src start Some pos f show ?thesis by (auto simp: query_db_def pass_of_def)
        next
          case key: False
          have go: "find_pass cm hfi q r s =
              (if stale SUBNET_TABLE r t then reload True SUBNET_TABLE r s
               else if stale VFAB_TABLE r t then reload True VFAB_TABLE r s
               else find_in_vfab cm q ?p r s)"
            using src start Some pos f key by auto
          have ref: "query_db cm hfi q d = (case query_vfab cm q ?p d of
                None \<Rightarrow> Inl EINVAL
              | Some v \<Rightarrow> (case find (path_matches cm q) (vfab_paths d v) of None \<Rightarrow> Inl ENOENT | Some x \<Rightarrow> Inr x))"
            using src pos key by (auto simp: query_db_def)
          show ?thesis
          proof (cases "stale SUBNET_TABLE r t \<or> stale VFAB_TABLE r t")
            case True
            then show ?thesis unfolding go using reload [of SUBNET_TABLE True] reload [of VFAB_TABLE True]
              by (cases "stale SUBNET_TABLE r t") simp_all
          next
            case sv: False
            have gs: "see_subnets s (subnet_table r) = Some st" "see_vfabs s (vfab_table r) = Some vt"
              "sid_table r = subnet_table r"
              using sv tb [of SUBNET_TABLE] tb [of VFAB_TABLE] g assms(2)
              by (simp_all add: table_of_def synced_def)
            note fv = find_vfab_query [OF rp conjunct1 [OF conjunct2 [OF pos]] gs(1,3,2), of cm q]
            show ?thesis
            proof (cases "query_vfab cm q ?p d")
              case None
              then show ?thesis unfolding go using sv fv(1) ref by (simp add: find_in_vfab_def pass_of_def)
            next
              fix v assume v: "query_vfab cm q ?p d = Some v"
              show ?thesis
              proof (cases "stale PATH_TABLE r t")
                case True
                then show ?thesis unfolding go using sv fv(1) v sh reload [OF True, of False]
                  by (simp add: find_in_vfab_def)
              next
                case False
                then have pa: "see_paths s (path_table r) = Some qt"
                  using tb [OF False] g(4) by (simp add: table_of_def)
                have "find_in_vfab cm q ?p r s =
                    Some (case find (path_matches cm q) (vfab_paths d v) of None \<Rightarrow> Again 0 | Some x \<Rightarrow> Found x, r, s)"
                  using fv(1) fv(2) [OF v] v sh False gs pa
                    find_on_chain_query [OF repD(5) [OF rp] fv(2) [OF v]]
                  by (simp add: find_in_vfab_def split: option.splits)
                then show ?thesis unfolding go using sv v ref fresh False
                  by (simp add: pass_of_def stale_count_def split: option.splits)
              qed
            qed
          qed
        qed
      qed
    qed
  qed
qed


lemma find_loop_answer:
  assumes "\<And>n s. same_db s (yield n s)" "\<forall>p \<in> set (db_ports d). unat (lmc p) < 8"
  shows "serving s a t A d \<Longrightarrow> synced r a t A \<Longrightarrow> n + stale_count r t \<le> 5 \<Longrightarrow>
    \<exists>r' s'. find_loop yield cm hfi q n r s = Some (pass_of (query_db cm hfi q d), r', s') \<and> same_db s s'"
proof (induction "6 - n" arbitrary: n r s)
  case 0
  then show ?case by simp
next
  case (Suc m)
  let ?s = "yield n s"
  have serving: "serving ?s a t A d" by (rule serving_same [OF Suc.prems(1) assms(1)])
  consider
    (reload) r' s' where "find_pass cm hfi q r ?s = Some (Again 0, r', s')" "same_db ?s s'"
      "synced r' a t A" "stale_count r' t < stale_count r t"
  | (answer) "find_pass cm hfi q r ?s = Some (pass_of (query_db cm hfi q d), r, ?s)"
      "query_db cm hfi q d = Inl ENOENT \<longrightarrow> stale_count r t = 0"
    using find_pass_cases [OF serving Suc.prems(2) assms(2), of cm hfi q] by blast
  then show ?case
  proof cases
    case reload
    have next_serving: "serving s' a t A d" by (rule serving_same [OF serving reload(2)])
    have "Suc n + stale_count r' t \<le> 5" using reload(4) Suc.prems(3) by simp
    moreover have "m = 6 - Suc n" using Suc.hyps(2) by simp
    ultimately obtain r2 s2 where
      "find_loop yield cm hfi q (Suc n) r' s' = Some (pass_of (query_db cm hfi q d), r2, s2)" "same_db s' s2"
      using Suc.hyps(1) [OF _ next_serving reload(3)] by blast
    moreover have "same_db s s2"
      by (rule same_db_trans [OF assms(1) same_db_trans [OF reload(2) calculation(2)]])
    ultimately show ?thesis using reload(1,4) Suc.prems(3)
      by (subst find_loop.simps) simp
  next
    case answer
    show ?thesis
    proof (cases "query_db cm hfi q d = Inl ENOENT \<and> Suc n \<le> 5")
      case True
      then have "Suc n + stale_count r t \<le> 5" using answer(2) by simp
      moreover have "m = 6 - Suc n" using Suc.hyps(2) by simp
      ultimately obtain r2 s2 where
        "find_loop yield cm hfi q (Suc n) r ?s = Some (pass_of (query_db cm hfi q d), r2, s2)" "same_db ?s s2"
        using Suc.hyps(1) [OF _ serving Suc.prems(2)] by blast
      moreover have "same_db s s2" by (rule same_db_trans [OF assms(1) calculation(2)])
      ultimately show ?thesis using answer(1) True
        by (subst find_loop.simps) (simp add: pass_of_def)
    next
      case False
      then have "find_loop yield cm hfi q n r s = Some (pass_of (query_db cm hfi q d), r, ?s)"
        using answer(1) by (subst find_loop.simps) (auto simp: pass_of_def split: sum.splits)
      then show ?thesis using assms(1) by blast
    qed
  qed
qed

text \<open>What \<open>op_ppath_find_path\<close> returns for an answer of the reference.\<close>

fun answer :: "IB_PATH_RECORD_NO \<Rightarrow> errno + IB_PATH_RECORD_NO \<Rightarrow> errno \<times> IB_PATH_RECORD_NO" where
  "answer q (Inl e) = (e, zero_path)"
| "answer q (Inr x) = (0, x\<lparr>ServiceID := ServiceID q\<rparr>)"

lemma query_db_errors: "query_db cm hfi q d = Inl e \<Longrightarrow> e = EINVAL \<or> e = ENOENT"
  by (auto simp: query_db_def split: if_splits option.splits)

lemma find_path_answer:
  assumes "\<And>n s. same_db s (yield n s)" "\<forall>p \<in> set (db_ports d). unat (lmc p) < 8"
    "serving s a t A d" "synced r a t A"
    "gid_query cm \<or> cm AND (COMP_SLID OR COMP_DLID) \<noteq> 0"
  shows "\<exists>r' s'. op_ppath_find_path yield r hfi cm (Some q) (Some res) s =
      Some (fst (answer q (query_db cm hfi q d)), Some (snd (answer q (query_db cm hfi q d))), r', s') \<and>
    same_db s s'"
proof -
  have "0 + stale_count r t \<le> 5" using stale_count_le [of r t] by simp
  from find_loop_answer [where yield = yield, OF assms(1-4) this, of cm hfi q] obtain r' s' where
    l: "find_loop yield cm hfi q 0 r s = Some (pass_of (query_db cm hfi q d), r', s')" "same_db s s'" by blast
  have "op_ppath_find_path yield r hfi cm (Some q) (Some res) s =
      Some (fst (answer q (query_db cm hfi q d)), Some (snd (answer q (query_db cm hfi q d))), r', s')"
    using l(1) assms(5)
    by (cases "query_db cm hfi q d") (auto simp: op_ppath_find_path_def pass_of_def)
  with l(2) show ?thesis by blast
qed


end
