(* ===== verification/PathDbPublish.thy ===== *)
theory PathDbPublish
  imports PathDbQuery
begin

text \<open>
  The life of the database: creating the writer, opening new unpublished tables under new names,
  filling them, publishing them, and connecting a reader.  The versions in the names keep a new
  table apart from the published ones, so that publishing makes the shared table name exactly the
  tables that were filled.
\<close>

section \<open>Table names\<close>

definition digit_value :: "string \<Rightarrow> nat" where
  "digit_value cs = foldl (\<lambda>n c. 10 * n + (of_char c - 48)) 0 cs"

lemma digit_value_snoc: "digit_value (cs @ [c]) = 10 * digit_value cs + (of_char c - 48)"
  by (simp add: digit_value_def)

lemma digit_char_value: "d < 10 \<Longrightarrow> of_char (digit_char d) - (48 :: nat) = d"
proof -
  assume "d < 10"
  then have "d = 0 \<or> d = 1 \<or> d = 2 \<or> d = 3 \<or> d = 4 \<or> d = 5 \<or> d = 6 \<or> d = 7 \<or> d = 8 \<or> d = 9"
    by presburger
  then show ?thesis by (elim disjE) (simp_all add: digit_char_def)
qed

lemma digits_value: "digit_value (digits n) = n"
proof (induction n rule: digits.induct)
  case (1 n)
  then show ?case
    by (subst digits.simps) (auto simp: digit_value_snoc digit_char_value, simp add: digit_value_def digit_char_value)
qed

lemma digit_value_zeros: "digit_value (replicate k (CHR ''0'') @ cs) = digit_value cs"
  by (induction k) (simp_all add: digit_value_def)

lemma format_value: "digit_value (format_06u x) = unat x"
  by (simp add: format_06u_def Let_def digit_value_zeros digits_value)

lemma format_inj: "format_06u x = format_06u y \<Longrightarrow> x = y"
  using format_value [of x] format_value [of y] by (simp add: word_unat_eq_iff)

definition kind_tag :: "table_kind \<Rightarrow> string" where
  "kind_tag k = (case k of PORT_TABLE \<Rightarrow> ''_PORT_'' | PATH_TABLE \<Rightarrow> ''_PATH_''
     | VFAB_TABLE \<Rightarrow> ''_VFAB_'' | SUBNET_TABLE \<Rightarrow> ''_SUB_'')"

definition version_name :: "table_kind \<Rightarrow> u32 \<Rightarrow> string" where
  "version_name k n = SHM_TABLE_NAME @ kind_tag k @ format_06u n"

lemma version_name_inj: "version_name k n = version_name j m \<longleftrightarrow> k = j \<and> n = m"
proof
  assume e: "version_name k n = version_name j m"
  then have "kind_tag k @ format_06u n = kind_tag j @ format_06u m" by (simp add: version_name_def)
  moreover from this have "k = j" by (cases k; cases j; simp add: kind_tag_def)
  ultimately show "k = j \<and> n = m" by (auto dest: format_inj)
qed simp

lemma version_name_not: "version_name k n \<noteq> []" "version_name k n \<noteq> SHM_TABLE_NAME"
proof -
  show "version_name k n \<noteq> []" by (simp add: version_name_def SHM_TABLE_NAME_def)
  have "kind_tag k \<noteq> []" by (cases k) (simp_all add: kind_tag_def)
  then show "version_name k n \<noteq> SHM_TABLE_NAME" by (simp add: version_name_def)
qed

text \<open>A table that has a version has the name of that version.\<close>

definition named :: "op_ppath_shared_table_t \<Rightarrow> bool" where
  "named t \<longleftrightarrow> (\<forall>k. table_name k t = (if update_count k t = 0 then [] else version_name k (update_count k t)))"

lemma bump_count_new: "bump_count x \<noteq> 0" "bump_count x \<noteq> x"
proof -
  show "bump_count x \<noteq> 0" by (simp add: bump_count_def Let_def)
  have "x + 1 \<noteq> x" by simp
  then show "bump_count x \<noteq> x" by (auto simp: bump_count_def Let_def)
qed

lemma name_table_fields:
  "update_count j (name_table k t) = (if j = k then bump_count (update_count k t) else update_count j t)"
  "table_name j (name_table k t) =
     (if j = k then version_name k (bump_count (update_count k t)) else table_name j t)"
   apply (cases k; cases j; simp add: name_table_def update_count_def Let_def)
  apply (cases k; cases j; simp add: name_table_def update_count_def table_name_def version_name_def
      kind_tag_def Let_def)
  done

lemma named_cong:
  "named u \<Longrightarrow> (\<And>k. table_name k t = table_name k u) \<Longrightarrow> (\<And>k. update_count k t = update_count k u) \<Longrightarrow> named t"
  by (simp add: named_def)

lemma named_name_table: "named t \<Longrightarrow> named (name_table k t)"
  by (simp add: named_def name_table_fields bump_count_new)

section \<open>Well-formed shared memory\<close>

definition wf_shm :: "shm \<Rightarrow> bool" where
  "wf_shm s \<longleftrightarrow> 0 < next_addr s \<and>
    (\<forall>m n a. names s m = Some a \<and> names s n = Some a \<longrightarrow> m = n) \<and>
    (\<forall>n a. names s n = Some a \<longrightarrow> 0 < a \<and> a < next_addr s) \<and>
    (\<forall>a x. objects s a = Some x \<longrightarrow> a < next_addr s)"

lemma wf_shmD:
  assumes "wf_shm s"
  shows "0 < next_addr s" "names s m = Some a \<Longrightarrow> names s n = Some a \<Longrightarrow> m = n"
    "names s n = Some a \<Longrightarrow> 0 < a \<and> a < next_addr s" "objects s a = Some x \<Longrightarrow> a < next_addr s"
  using assms unfolding wf_shm_def by blast+

lemma wf_shm_cong:
  "wf_shm s \<Longrightarrow> names s' = names s \<Longrightarrow> next_addr s' = next_addr s \<Longrightarrow> objects s' = objects s \<Longrightarrow> wf_shm s'"
  by (simp add: wf_shm_def)

lemma wf_shm_put:
  "wf_shm s \<Longrightarrow> a < next_addr s \<Longrightarrow> wf_shm (put a x s)"
  by (auto simp: wf_shm_def)

lemma wf_shm_shrink:
  assumes "wf_shm s" "next_addr s' = next_addr s" "\<And>n a. names s' n = Some a \<Longrightarrow> names s n = Some a"
    "\<And>a x. objects s' a = Some x \<Longrightarrow> objects s a \<noteq> None"
  shows "wf_shm s'"
  using assms unfolding wf_shm_def by (metis not_Some_eq)

text \<open>Creating a named object: an existing one is opened, a new one is fresh.\<close>

lemma shm_open_create:
  assumes "wf_shm s" "\<And>n. outcome s n = 0"
  shows "\<exists>h s'. shm_open name True s = (Inr (new_fd (fds s)), s') \<and>
    names s' = (names s)(name \<mapsto> h) \<and> (\<forall>a. a \<noteq> h \<longrightarrow> objects s' a = objects s a) \<and>
    fds s' = (new_fd (fds s), h) # fds s \<and> outcome s' = outcome s \<and> wf_shm s' \<and> h < next_addr s' \<and>
    next_addr s \<le> next_addr s' \<and> (names s name = Some h \<or> names s name = None \<and> h = next_addr s)"
proof (cases "names s name")
  case (Some h)
  then have u: "(names s)(name \<mapsto> h) = names s" by auto
  show ?thesis using Some assms(2) wf_shmD(3) [OF assms(1) Some]
    by (intro exI [of _ h] exI [of _ "snd (shm_open name True s)"])
      (auto simp: shm_open_def syscall_def open_fd_def u intro: wf_shm_cong [OF assms(1)])
next
  case None
  have w: "wf_shm s'" if "names s' = (names s)(name \<mapsto> next_addr s)" "next_addr s' = Suc (next_addr s)"
    "objects s' = (objects s)(next_addr s \<mapsto> Raw)" for s'
    unfolding wf_shm_def
  proof (intro conjI allI impI)
    show "0 < next_addr s'" using that(2) by simp
    fix m n a assume "names s' m = Some a \<and> names s' n = Some a"
    then show "m = n" using that(1) wf_shmD(2) [OF assms(1), of m a n] wf_shmD(3) [OF assms(1), of m a]
      wf_shmD(3) [OF assms(1), of n a] by (auto split: if_splits)
  next
    fix n a assume "names s' n = Some a"
    then show "0 < a" "a < next_addr s'" using that(1,2) wf_shmD(1) [OF assms(1)] wf_shmD(3) [OF assms(1), of n a]
      by (auto split: if_splits)
  next
    fix a x assume "objects s' a = Some x"
    then show "a < next_addr s'" using that(2,3) wf_shmD(4) [OF assms(1), of a x] by (auto split: if_splits)
  qed
  show ?thesis using None assms(2)
    by (intro exI [of _ "next_addr s"] exI [of _ "snd (shm_open name True s)"])
      (auto simp: shm_open_def syscall_def open_fd_def put_def Let_def intro: w)
qed

section \<open>Opening a new table\<close>

lemma map_new_table_ok:
  assumes "\<And>n. outcome s n = 0" "map_of (fds s) fd = Some h" "k = SUBNET_TABLE \<longrightarrow> table_bytes k c < 2 ^ 32"
  shows "\<exists>s'. map_new_table k c c2 fd s = Some (Inr h, s') \<and> names s' = names s \<and>
    objects s' = (objects s)(h \<mapsto> clear_table k c c2) \<and> outcome s' = outcome s \<and> next_addr s' = next_addr s"
proof -
  have "0 < table_bytes k c" by (simp add: table_bytes_def)
  then show ?thesis
    using assms by (auto simp: map_new_table_def ftruncate_def mmap_def syscall_def fun_eq_iff)
qed

text \<open>The table a writer asks for, with the service ids, is smaller than 4 GB.\<close>

definition below_4gb :: "table_kind \<Rightarrow> u32 \<Rightarrow> u32 \<Rightarrow> bool" where
  "below_4gb k c c2 \<longleftrightarrow> 16 + (case k of
     PORT_TABLE \<Rightarrow> 152 * Suc (unat c)
   | PATH_TABLE \<Rightarrow> 80 * Suc (unat c)
   | VFAB_TABLE \<Rightarrow> 32816 * Suc (unat c)
   | SUBNET_TABLE \<Rightarrow> 16 * Suc (unat c) + 24 * Suc (unat c2)) < 2 ^ 32"

lemma size_ok: "c < - 1 \<Longrightarrow> unat (c + 1 :: u32) = Suc (unat c)"
  by (rule unat_succ)

lemma below_less: "Suc (unat (c :: u32)) < 2 ^ 32 \<Longrightarrow> c < - 1"
  by (simp add: word_less_nat_alt unsigned_minus_1_eq_mask mask_eq_exp_minus_1)

lemma below_records:
  assumes "below_4gb k c c2"
  shows "unat (c + 1) = Suc (unat c)" "k = SUBNET_TABLE \<Longrightarrow> unat (c2 + 1) = Suc (unat c2)"
proof -
  have "Suc (unat c) < 2 ^ 32" using assms by (cases k) (simp_all add: below_4gb_def)
  then show "unat (c + 1) = Suc (unat c)" by (intro size_ok below_less)
  assume "k = SUBNET_TABLE"
  then have "Suc (unat c2) < 2 ^ 32" using assms by (simp add: below_4gb_def)
  then show "unat (c2 + 1) = Suc (unat c2)" by (intro size_ok below_less)
qed

lemma below_bytes: "below_4gb k c c2 \<Longrightarrow> table_bytes k c < 2 ^ 32"
  using below_records [of k c c2] by (cases k) (simp_all add: below_4gb_def table_bytes_def)

lemma unat_of_nat_32: "n < 2 ^ 32 \<Longrightarrow> unat (of_nat n :: u32) = n"
  by (simp add: unat_of_nat take_bit_nat_eq_self)

lemma clear_sound:
  assumes "below_4gb k c c2"
  shows "sound_size (clear_table k c c2)"
proof -
  note r = below_records [OF assms]
  have b: "table_bytes k c + sid_bytes k c2 < 2 ^ 32"
    using r assms by (cases k) (simp_all add: below_4gb_def table_bytes_def sid_bytes_def)
  have n: "unat (of_nat (table_bytes k c) :: u32) = table_bytes k c"
    "unat (of_nat (sid_bytes k c2) :: u32) = sid_bytes k c2"
    using b by (auto intro!: unat_of_nat_32)
  show ?thesis
    by (cases k; use n b in \<open>simp add: sound_size_def clear_table_def\<close>)
      (simp_all add: table_bytes_def sid_bytes_def)
qed

text \<open>\<open>reopen\<close> of a writer's table: the shared table takes the next version and its name, and the
  table is a cleared object that no other pointer of the writer reaches.\<close>

lemma reopen_new_table:
  assumes "wf_shm s" "\<And>n. outcome s n = 0" "get_shared s (shared_table r) = Some t"
    "\<And>n. names s n \<noteq> Some (shared_table r)" "k = SUBNET_TABLE \<longrightarrow> table_bytes k c < 2 ^ 32"
  shows "\<exists>h r' s'. reopen_ppath_table r k True c c2 s = Some (0, r', s') \<and>
    shared_table r' = shared_table r \<and> table_of k r' = h \<and> (k = SUBNET_TABLE \<longrightarrow> sid_table r' = h) \<and>
    (\<forall>j. j \<noteq> k \<longrightarrow> table_of j r' = table_of j r) \<and> (k \<noteq> SUBNET_TABLE \<longrightarrow> sid_table r' = sid_table r) \<and>
    0 < h \<and> h \<noteq> shared_table r \<and>
    (names s (table_name k (name_table k t)) = Some h \<or> objects s h = None \<and> (\<forall>n. names s n \<noteq> Some h)) \<and>
    names s' = (names s)(table_name k (name_table k t) \<mapsto> h) \<and>
    objects s' = (objects s)(shared_table r \<mapsto> Shared (name_table k t), h \<mapsto> clear_table k c c2) \<and>
    outcome s' = outcome s \<and> wf_shm s'"
proof -
  obtain r1 s1 where c: "close_ppath_table r k s = (r1, s1)" by fastforce
  note cl = closed_reader [OF c]
  have s1: "objects s1 = objects s" "names s1 = names s" "outcome s1 = outcome s" "next_addr s1 = next_addr s"
    using cl(1) c by (cases k; auto simp: same_db_def close_ppath_table_def close_if_open_def close_def)+
  note a = assms(3) [unfolded get_Some]
  have lt: "shared_table r < next_addr s" using wf_shmD(4) [OF assms(1)] a by blast
  let ?t = "name_table k t" and ?s2 = "put (shared_table r) (Shared (name_table k t)) s1"
  have w2: "wf_shm ?s2"
    by (rule wf_shm_put [OF wf_shm_cong [OF assms(1) s1(2,4,1)]]) (use lt s1(4) in simp)
  have ok: "\<And>n. outcome ?s2 n = 0" using assms(2) s1(3) by simp
  from shm_open_create [OF w2 ok, of "table_name k ?t"] obtain h s3 where
    o: "shm_open (table_name k ?t) True ?s2 = (Inr (new_fd (fds s1)), s3)"
    "names s3 = (names ?s2)(table_name k ?t \<mapsto> h)" "\<And>a. a \<noteq> h \<Longrightarrow> objects s3 a = objects ?s2 a"
    "fds s3 = (new_fd (fds s1), h) # fds s1" "outcome s3 = outcome s1" "wf_shm s3" "h < next_addr s3"
    "next_addr s1 \<le> next_addr s3"
    "names s1 (table_name k ?t) = Some h \<or> names s1 (table_name k ?t) = None \<and> h = next_addr s1"
    by auto
  have ok3: "\<And>n. outcome s3 n = 0" using o(5) ok by simp
  have m3: "map_of (fds s3) (new_fd (fds s1)) = Some h" using o(4) by simp
  from map_new_table_ok [OF ok3 m3 assms(5), of c2] obtain s4 where
    m: "map_new_table k c c2 (new_fd (fds s1)) s3 = Some (Inr h, s4)" "names s4 = names s3"
      "objects s4 = (objects s3)(h \<mapsto> clear_table k c c2)" "outcome s4 = outcome s3" "next_addr s4 = next_addr s3"
    by blast
  let ?r' = "attach_table k h (new_fd (fds s1)) ?t r1"
  have "get_shared s1 (shared_table r1) = Some t" using assms(3) s1(1) cl(2) by (simp add: get_Some)
  then have run: "reopen_ppath_table r k True c c2 s = Some (0, ?r', s4)"
    using c o(1) m(1) cl(2) by (simp add: reopen_ppath_table_def open_ppath_table_def)
  have h: "0 < h" "h \<noteq> shared_table r"
    "names s (table_name k ?t) = Some h \<or> objects s h = None \<and> (\<forall>n. names s n \<noteq> Some h)"
  proof -
    from o(9) s1 have cs: "names s (table_name k ?t) = Some h \<or>
        names s (table_name k ?t) = None \<and> h = next_addr s" by simp
    then show "0 < h" using wf_shmD(1,3) [OF assms(1)] by blast
    show "h \<noteq> shared_table r" using cs assms(4) lt by auto
    show "names s (table_name k ?t) = Some h \<or> objects s h = None \<and> (\<forall>n. names s n \<noteq> Some h)"
      using cs wf_shmD(3,4) [OF assms(1)] by (metis less_irrefl not_Some_eq)
  qed
  have obj: "objects s4 = (objects s)(shared_table r \<mapsto> Shared ?t, h \<mapsto> clear_table k c c2)"
    using m(3) o(3) s1(1) by (auto simp: fun_eq_iff)
  have "wf_shm s4"
    by (rule wf_shm_cong [OF wf_shm_put [OF o(6,7)]]) (simp_all add: m fun_eq_iff)
  then show ?thesis using run h obj m(2,4) o(2,5) s1 cl
    by (intro exI [of _ h] exI [of _ ?r'] exI [of _ s4]) (auto simp: attached_reader)
qed


section \<open>The writer's state\<close>

text \<open>The tables of the kinds \<open>K\<close> have been opened since the last publication: they carry the name
  of their version, which differs from the published one, and have sound sizes.\<close>

definition writer_state ::
  "op_ppath_writer_t \<Rightarrow> shm \<Rightarrow> op_ppath_shared_table_t \<Rightarrow> op_ppath_shared_table_t \<Rightarrow> table_kind set \<Rightarrow> bool" where
  "writer_state w s u t K \<longleftrightarrow> wf_shm s \<and> (\<forall>n. outcome s n = 0) \<and>
    get_shared s (shared_table (unpublished w)) = Some u \<and>
    (\<forall>n. names s n \<noteq> Some (shared_table (unpublished w))) \<and>
    get_shared s (shared_table (published w)) = Some t \<and>
    names s SHM_TABLE_NAME = Some (shared_table (published w)) \<and> named u \<and> named t \<and>
    (\<forall>k \<in> K. names s (table_name k u) = Some (table_of k (unpublished w)) \<and>
       update_count k u \<noteq> 0 \<and> update_count k u \<noteq> update_count k t) \<and>
    (\<forall>k \<in> K. \<forall>x. objects s (table_of k (unpublished w)) = Some x \<longrightarrow> sound_size x) \<and>
    (\<forall>k. k \<notin> K \<longrightarrow> update_count k u = update_count k t)"

lemma writer_stateD:
  assumes "writer_state w s u t K"
  shows "wf_shm s" "outcome s n = 0" "get_shared s (shared_table (unpublished w)) = Some u"
    "names s m \<noteq> Some (shared_table (unpublished w))" "get_shared s (shared_table (published w)) = Some t"
    "names s SHM_TABLE_NAME = Some (shared_table (published w))" "named u" "named t"
    "k \<in> K \<Longrightarrow> names s (table_name k u) = Some (table_of k (unpublished w)) \<and>
       update_count k u \<noteq> 0 \<and> update_count k u \<noteq> update_count k t"
    "k \<notin> K \<Longrightarrow> update_count k u = update_count k t"
    "k \<in> K \<Longrightarrow> objects s (table_of k (unpublished w)) = Some x \<Longrightarrow> sound_size x"
  using assms unfolding writer_state_def by blast+

lemma open_unpublished:
  assumes "writer_state w s u t K" "k \<notin> K" "below_4gb k c c2"
  shows "\<exists>r s'. reopen_ppath_table (unpublished w) k True c c2 s = Some (0, r, s') \<and>
    (\<forall>w'. unpublished w' = r \<and> published w' = published w \<longrightarrow>
       writer_state w' s' (name_table k u) t (insert k K)) \<and>
    objects s' (table_of k r) = Some (clear_table k c c2) \<and> 0 < table_of k r \<and>
    (k = SUBNET_TABLE \<longrightarrow> sid_table r = table_of k r) \<and>
    (k \<noteq> SUBNET_TABLE \<longrightarrow> sid_table r = sid_table (unpublished w)) \<and>
    (\<forall>j \<in> K. table_of j r = table_of j (unpublished w) \<and>
       objects s' (table_of j r) = objects s (table_of j (unpublished w)))"
proof -
  note W = writer_stateD [OF assms(1)]
  let ?n = "table_name k (name_table k u)"
  have n: "?n = version_name k (bump_count (update_count k u))" by (simp add: name_table_fields)
  have "k = SUBNET_TABLE \<longrightarrow> table_bytes k c < 2 ^ 32" using below_bytes [OF assms(3)] by blast
  from reopen_new_table [OF W(1,2,3,4) this, of c2] obtain h r s' where
    run: "reopen_ppath_table (unpublished w) k True c c2 s = Some (0, r, s')"
    and r: "shared_table r = shared_table (unpublished w)" "table_of k r = h"
      "k = SUBNET_TABLE \<longrightarrow> sid_table r = h" "\<forall>j. j \<noteq> k \<longrightarrow> table_of j r = table_of j (unpublished w)"
      "k \<noteq> SUBNET_TABLE \<longrightarrow> sid_table r = sid_table (unpublished w)"
    and h: "0 < h" "h \<noteq> shared_table (unpublished w)"
      "names s ?n = Some h \<or> objects s h = None \<and> (\<forall>n. names s n \<noteq> Some h)"
    and s': "names s' = (names s)(?n \<mapsto> h)"
      "objects s' = (objects s)(shared_table (unpublished w) \<mapsto> Shared (name_table k u), h \<mapsto> clear_table k c c2)"
      "outcome s' = outcome s" "wf_shm s'"
    by auto
  have other: "x \<noteq> h" if "names s m = Some x" "m \<noteq> ?n" for m x
    using h(3) that wf_shmD(2) [OF W(1), of m x ?n] by auto
  have pub: "shared_table (published w) \<noteq> h" using other [OF W(6)] n version_name_not(2) by metis
  have pu: "shared_table (published w) \<noteq> shared_table (unpublished w)" using W(4,6) by metis
  have old: "table_name j u \<noteq> ?n" "table_of j (unpublished w) \<noteq> h" "j \<noteq> k"
    "table_of j (unpublished w) \<noteq> shared_table (unpublished w)" if "j \<in> K" for j
  proof -
    show j: "j \<noteq> k" using that assms(2) by auto
    show "table_name j u \<noteq> ?n" using W(7,9) that j by (simp add: named_def n version_name_inj)
    then show "table_of j (unpublished w) \<noteq> h" using other W(9) [OF that] by blast
    show "table_of j (unpublished w) \<noteq> shared_table (unpublished w)" using W(4,9) that by metis
  qed
  have "writer_state w' s' (name_table k u) t (insert k K)"
    if w': "unpublished w' = r" "published w' = published w" for w'
    unfolding writer_state_def
  proof (intro conjI allI ballI impI)
    show "get_shared s' (shared_table (unpublished w')) = Some (name_table k u)"
      using w' r(1) h(2) s'(2) W(3) by (simp add: get_Some)
    show "names s' m \<noteq> Some (shared_table (unpublished w'))" for m
      using w' r(1) h(2) s'(1) W(4) by simp
    show "get_shared s' (shared_table (published w')) = Some t"
      using w' pub pu s'(2) W(5) by (simp add: get_Some)
    show "names s' SHM_TABLE_NAME = Some (shared_table (published w'))"
      using w' s'(1) W(6) n version_name_not(2) by (metis fun_upd_other)
    fix j assume j: "j \<in> insert k K"
    show "names s' (table_name j (name_table k u)) = Some (table_of j (unpublished w'))"
    proof (cases "j = k")
      case False
      then have jK: "j \<in> K" using j by simp
      then show ?thesis using False w' s'(1) r(4) W(9) [OF jK] old(1) [OF jK]
        by (simp add: name_table_fields)
    qed (simp add: s'(1) w' r(2))
    show "update_count j (name_table k u) \<noteq> 0" using j W(9) by (auto simp: name_table_fields bump_count_new)
    show "update_count j (name_table k u) \<noteq> update_count j t"
      using j W(9) W(10) [OF assms(2)] bump_count_new(2) [of "update_count k t"]
      by (auto simp: name_table_fields)
  next
    fix j x assume j: "j \<in> insert k K" and x: "objects s' (table_of j (unpublished w')) = Some x"
    show "sound_size x"
    proof (cases "j = k")
      case True
      with x w' r(2) s'(2) clear_sound [OF assms(3)] show ?thesis by simp
    next
      case False
      then have jK: "j \<in> K" using j by simp
      then have "objects s (table_of j (unpublished w)) = Some x"
        using x w' r(4) False s'(2) old(2,4) [OF jK] by simp
      then show ?thesis by (rule W(11) [OF jK])
    qed
  next
    fix j assume "j \<notin> insert k K"
    then show "update_count j (name_table k u) = update_count j t" using W(10) by (simp add: name_table_fields)
  qed (use s' W in \<open>auto intro: named_name_table\<close>)
  then show ?thesis using run r h s'(2) old
    by (intro exI [of _ r] exI [of _ s']) auto
qed


lemma initialize_eq:
  "op_ppath_initialize_ports w n s = do {
     (e, r, s') \<leftarrow> reopen_ppath_table (unpublished w) PORT_TABLE True n 0 s;
     Some (e, w\<lparr>unpublished := r, max_ports := n\<rparr>, s') }"
  "op_ppath_initialize_vfabrics w n s = do {
     (e, r, s') \<leftarrow> reopen_ppath_table (unpublished w) VFAB_TABLE True n 0 s;
     Some (e, w\<lparr>unpublished := r, max_vfabs := n\<rparr>, s') }"
  "op_ppath_initialize_paths w n s = do {
     (e, r, s') \<leftarrow> reopen_ppath_table (unpublished w) PATH_TABLE True n 0 s;
     Some (e, w\<lparr>unpublished := r, max_paths := n\<rparr>, s') }"
  "op_ppath_initialize_subnets w n n2 s = do {
     (e, r, s') \<leftarrow> reopen_ppath_table (unpublished w) SUBNET_TABLE True n n2 s;
     Some (e, w\<lparr>unpublished := r, max_subnets := n, max_sids := n2\<rparr>, s') }"
  by (simp_all add: op_ppath_initialize_ports_def op_ppath_initialize_vfabrics_def
      op_ppath_initialize_paths_def op_ppath_initialize_subnets_def reopen_ppath_table_def split_def Let_def)

text \<open>A new set of tables, as the daemon opens them before a scan is stored.\<close>

definition open_all_tables ::
  "op_ppath_writer_t \<Rightarrow> u32 \<Rightarrow> u32 \<Rightarrow> u32 \<Rightarrow> u32 \<Rightarrow> u32 \<Rightarrow> shm \<Rightarrow> (errno list \<times> op_ppath_writer_t \<times> shm) option" where
  "open_all_tables w subnets sids ports vfabs paths s = do {
     (e1, w1, s1) \<leftarrow> op_ppath_initialize_subnets w subnets sids s;
     (e2, w2, s2) \<leftarrow> op_ppath_initialize_ports w1 ports s1;
     (e3, w3, s3) \<leftarrow> op_ppath_initialize_vfabrics w2 vfabs s2;
     (e4, w4, s4) \<leftarrow> op_ppath_initialize_paths w3 paths s3;
     Some ([e1, e2, e3, e4], w4, s4)
   }"

text \<open>Cleared tables represent the empty database.\<close>

lemma rep_empty:
  assumes "0 < a" "a \<le> 2 ^ 16" "0 < b" "0 < c" "0 < e" "0 < f"
  shows "rep empty_pdb \<lparr>subnet_size = z1, sid_size = z2, subnet_count = 0, sid_count = 0,
      subnet_recs = replicate a zero_subnet, sid_recs = replicate b zero_sid\<rparr>
    \<lparr>vfab_size = z3, vfab_count = 0, vfab_recs = replicate c zero_vfab\<rparr>
    \<lparr>port_size = z4, port_count = 0, port_recs = replicate e zero_port\<rparr>
    \<lparr>path_size = z5, path_count = 0, path_recs = replicate f zero_record\<rparr>"
  using assms
  by (simp add: rep_def rep_subnets_def rep_sids_def rep_vfabs_def rep_ports_def rep_paths_def
      empty_pdb_def sids.indexed_def lids.indexed_def guids.indexed_def zero_subnet_def zero_vfab_def)

lemma open_all_tables_ok:
  assumes "writer_state w s u t {}" "unat subnets < 2 ^ 16" "below_4gb SUBNET_TABLE subnets sids"
    "below_4gb PORT_TABLE ports 0" "below_4gb VFAB_TABLE vfabs 0" "below_4gb PATH_TABLE paths 0"
  shows "\<exists>w' s' u'. open_all_tables w subnets sids ports vfabs paths s = Some ([0, 0, 0, 0], w', s') \<and>
    writer_state w' s' u' t UNIV \<and> holds w' s' empty_pdb \<and> published w' = published w \<and>
    max_subnets w' = subnets \<and> max_sids w' = sids \<and> max_ports w' = ports \<and> max_vfabs w' = vfabs \<and>
    max_paths w' = paths"
proof -
  from open_unpublished [OF assms(1) _ assms(3)] obtain r1 s1 where
    o1: "reopen_ppath_table (unpublished w) SUBNET_TABLE True subnets sids s = Some (0, r1, s1)"
    and p1: "\<And>w'. unpublished w' = r1 \<and> published w' = published w \<Longrightarrow>
       writer_state w' s1 (name_table SUBNET_TABLE u) t {SUBNET_TABLE}"
      "objects s1 (table_of SUBNET_TABLE r1) = Some (clear_table SUBNET_TABLE subnets sids)"
      "0 < table_of SUBNET_TABLE r1" "sid_table r1 = table_of SUBNET_TABLE r1" by auto
  let ?w1 = "w\<lparr>unpublished := r1, max_subnets := subnets, max_sids := sids\<rparr>"
  have W1: "writer_state ?w1 s1 (name_table SUBNET_TABLE u) t {SUBNET_TABLE}" by (rule p1(1)) simp
  from open_unpublished [OF W1 _ assms(4)] obtain r2 s2 where
    o2: "reopen_ppath_table r1 PORT_TABLE True ports 0 s1 = Some (0, r2, s2)"
    and p2: "\<And>w'. unpublished w' = r2 \<and> published w' = published w \<Longrightarrow>
       writer_state w' s2 (name_table PORT_TABLE (name_table SUBNET_TABLE u)) t {PORT_TABLE, SUBNET_TABLE}"
      "objects s2 (table_of PORT_TABLE r2) = Some (clear_table PORT_TABLE ports 0)"
      "0 < table_of PORT_TABLE r2" "sid_table r2 = sid_table r1"
      "table_of SUBNET_TABLE r2 = table_of SUBNET_TABLE r1"
      "objects s2 (table_of SUBNET_TABLE r1) = objects s1 (table_of SUBNET_TABLE r1)" by auto
  let ?w2 = "?w1\<lparr>unpublished := r2, max_ports := ports\<rparr>"
  have W2: "writer_state ?w2 s2 (name_table PORT_TABLE (name_table SUBNET_TABLE u)) t {PORT_TABLE, SUBNET_TABLE}"
    by (rule p2(1)) simp
  from open_unpublished [OF W2 _ assms(5)] obtain r3 s3 where
    o3: "reopen_ppath_table r2 VFAB_TABLE True vfabs 0 s2 = Some (0, r3, s3)"
    and p3: "\<And>w'. unpublished w' = r3 \<and> published w' = published w \<Longrightarrow>
       writer_state w' s3 (name_table VFAB_TABLE (name_table PORT_TABLE (name_table SUBNET_TABLE u))) t
         {VFAB_TABLE, PORT_TABLE, SUBNET_TABLE}"
      "objects s3 (table_of VFAB_TABLE r3) = Some (clear_table VFAB_TABLE vfabs 0)"
      "0 < table_of VFAB_TABLE r3" "sid_table r3 = sid_table r2"
      "table_of SUBNET_TABLE r3 = table_of SUBNET_TABLE r2" "table_of PORT_TABLE r3 = table_of PORT_TABLE r2"
      "objects s3 (table_of SUBNET_TABLE r2) = objects s2 (table_of SUBNET_TABLE r2)"
      "objects s3 (table_of PORT_TABLE r2) = objects s2 (table_of PORT_TABLE r2)" by auto
  let ?w3 = "?w2\<lparr>unpublished := r3, max_vfabs := vfabs\<rparr>"
  have W3: "writer_state ?w3 s3 (name_table VFAB_TABLE (name_table PORT_TABLE (name_table SUBNET_TABLE u))) t
      {VFAB_TABLE, PORT_TABLE, SUBNET_TABLE}" by (rule p3(1)) simp
  from open_unpublished [OF W3 _ assms(6)] obtain r4 s4 where
    o4: "reopen_ppath_table r3 PATH_TABLE True paths 0 s3 = Some (0, r4, s4)"
    and p4: "\<And>w'. unpublished w' = r4 \<and> published w' = published w \<Longrightarrow>
       writer_state w' s4 (name_table PATH_TABLE (name_table VFAB_TABLE (name_table PORT_TABLE
         (name_table SUBNET_TABLE u)))) t {PATH_TABLE, VFAB_TABLE, PORT_TABLE, SUBNET_TABLE}"
      "objects s4 (table_of PATH_TABLE r4) = Some (clear_table PATH_TABLE paths 0)"
      "0 < table_of PATH_TABLE r4" "sid_table r4 = sid_table r3"
      "table_of SUBNET_TABLE r4 = table_of SUBNET_TABLE r3" "table_of PORT_TABLE r4 = table_of PORT_TABLE r3"
      "table_of VFAB_TABLE r4 = table_of VFAB_TABLE r3"
      "objects s4 (table_of SUBNET_TABLE r3) = objects s3 (table_of SUBNET_TABLE r3)"
      "objects s4 (table_of PORT_TABLE r3) = objects s3 (table_of PORT_TABLE r3)"
      "objects s4 (table_of VFAB_TABLE r3) = objects s3 (table_of VFAB_TABLE r3)" by auto
  let ?w4 = "?w3\<lparr>unpublished := r4, max_paths := paths\<rparr>"
  have univ: "{PATH_TABLE, VFAB_TABLE, PORT_TABLE, SUBNET_TABLE} = (UNIV :: table_kind set)"
  proof (rule set_eqI)
    fix k show "k \<in> {PATH_TABLE, VFAB_TABLE, PORT_TABLE, SUBNET_TABLE} \<longleftrightarrow> k \<in> (UNIV :: table_kind set)"
      by (cases k) auto
  qed
  have W4: "writer_state ?w4 s4 (name_table PATH_TABLE (name_table VFAB_TABLE (name_table PORT_TABLE
         (name_table SUBNET_TABLE u)))) t UNIV" using p4(1) [of ?w4] by (simp add: univ)
  have run: "open_all_tables w subnets sids ports vfabs paths s = Some ([0, 0, 0, 0], ?w4, s4)"
    by (simp add: open_all_tables_def initialize_eq o1 o2 o3 o4)
  note sz = below_records(1) [OF assms(3)] below_records(2) [OF assms(3) refl] below_records(1) [OF assms(4)]
    below_records(1) [OF assms(5)] below_records(1) [OF assms(6)]
  let ?st = "\<lparr>subnet_size = of_nat (table_bytes SUBNET_TABLE subnets),
        sid_size = of_nat (sid_bytes SUBNET_TABLE sids), subnet_count = 0, sid_count = 0,
        subnet_recs = replicate (unat (subnets + 1)) zero_subnet,
        sid_recs = replicate (unat (sids + 1)) zero_sid\<rparr>"
    and ?vt = "\<lparr>vfab_size = of_nat (table_bytes VFAB_TABLE vfabs), vfab_count = 0,
        vfab_recs = replicate (unat (vfabs + 1)) zero_vfab\<rparr>"
    and ?pt = "\<lparr>port_size = of_nat (table_bytes PORT_TABLE ports), port_count = 0,
        port_recs = replicate (unat (ports + 1)) zero_port\<rparr>"
    and ?qt = "\<lparr>path_size = of_nat (table_bytes PATH_TABLE paths), path_count = 0,
        path_recs = replicate (unat (paths + 1)) zero_record\<rparr>"
  have "rep empty_pdb ?st ?vt ?pt ?qt"
    by (rule rep_empty) (use sz assms(2) in auto)
  moreover have "tabs r4 s4 ?st ?vt ?pt ?qt"
    using p1(2-) p2(2-) p3(2-) p4(2-) by (simp add: tabs_def get_Some table_of_def clear_table_def)
  ultimately have "holds ?w4 s4 empty_pdb"
    unfolding holds_def using sz by (auto simp: sized_def intro!: exI)
  with run W4 show ?thesis by (intro exI [of _ ?w4] exI [of _ s4]) auto
qed


section \<open>Filling and publishing\<close>

text \<open>Adding records changes the contents of tables only.\<close>

definition fills :: "shm \<Rightarrow> shm \<Rightarrow> bool" where
  "fills s s' \<longleftrightarrow> names s' = names s \<and> next_addr s' = next_addr s \<and> outcome s' = outcome s \<and> fds s' = fds s \<and>
    (\<forall>a. get_shared s' a = get_shared s a) \<and>
    (\<forall>a x. objects s' a = Some x \<longrightarrow> (\<exists>y. objects s a = Some y \<and> (sound_size y \<longrightarrow> sound_size x)))"

lemma fills_refl [simp]: "fills s s"
  by (simp add: fills_def)

lemma fills_trans:
  assumes "fills s s1" "fills s1 s2"
  shows "fills s s2"
proof -
  have "\<exists>y. objects s a = Some y \<and> (sound_size y \<longrightarrow> sound_size x)" if x: "objects s2 a = Some x" for a x
  proof -
    from x assms(2) obtain y where y: "objects s1 a = Some y" "sound_size y \<longrightarrow> sound_size x"
      unfolding fills_def by blast
    from y(1) assms(1) obtain z where "objects s a = Some z" "sound_size z \<longrightarrow> sound_size y"
      unfolding fills_def by blast
    with y(2) show ?thesis by blast
  qed
  with assms show ?thesis by (simp add: fills_def)
qed

text \<open>The part of a table that its size depends on.\<close>

lemma fills_put [simp]:
  "get_ports s a = Some p \<Longrightarrow> port_size p' = port_size p \<Longrightarrow> length (port_recs p') = length (port_recs p) \<Longrightarrow>
     fills s (put a (Ports p') s)"
  "get_subnets s a = Some q \<Longrightarrow> subnet_size q' = subnet_size q \<Longrightarrow> sid_size q' = sid_size q \<Longrightarrow>
     length (subnet_recs q') = length (subnet_recs q) \<Longrightarrow> length (sid_recs q') = length (sid_recs q) \<Longrightarrow>
     fills s (put a (Subnets q') s)"
  "get_vfabs s a = Some v \<Longrightarrow> vfab_size v' = vfab_size v \<Longrightarrow> length (vfab_recs v') = length (vfab_recs v) \<Longrightarrow>
     fills s (put a (Vfabs v') s)"
  "get_paths s a = Some x \<Longrightarrow> path_size x' = path_size x \<Longrightarrow> length (path_recs x') = length (path_recs x) \<Longrightarrow>
     fills s (put a (Paths x') s)"
  by (auto simp: fills_def get_Some get_shared_def sound_size_def)

lemma store_length: "store xs i x = Some ys \<Longrightarrow> length ys = length xs"
  by (auto simp: store_def split: if_splits)

lemma get_put_other:
  "get_vfabs s b = Some v \<Longrightarrow> get_vfabs (put a (Paths x) s) b = (if a = b then None else Some v)"
  by (auto simp: get_vfabs_def)

lemma fills_put2:
  assumes "get_paths s a = Some x" "get_vfabs s b = Some v"
    "path_size x' = path_size x" "length (path_recs x') = length (path_recs x)"
    "vfab_size v' = vfab_size v" "length (vfab_recs v') = length (vfab_recs v)"
  shows "fills s (put b (Vfabs v') (put a (Paths x') s))"
proof -
  have "b \<noteq> a" using assms by (auto simp: get_Some)
  then have "get_vfabs (put a (Paths x') s) b = Some v" using assms(2) by (simp add: get_Some)
  from fills_trans [OF fills_put(4) [OF assms(1,3,4)] fills_put(3) [OF this assms(5,6)]] show ?thesis .
qed

lemma step_fills: "ppath_step w p s = Inr (e, s') \<Longrightarrow> fills s s'"
proof (cases p)
  case (AddSubnet x)
  moreover assume "ppath_step w p s = Inr (e, s')"
  ultimately show ?thesis
    by (auto simp: op_ppath_add_subnet_def Let_def bind_eq_Some_conv dest!: store_length split: option.splits if_splits)
next
  case (AddVfab n x k l)
  moreover assume "ppath_step w p s = Inr (e, s')"
  ultimately show ?thesis
    by (auto simp: op_ppath_add_vfab_def Let_def bind_eq_Some_conv dest!: store_length split: option.splits if_splits)
next
  case (AddSid x lo up n)
  moreover assume "ppath_step w p s = Inr (e, s')"
  ultimately show ?thesis
    by (auto simp: op_ppath_add_sid_def Let_def bind_eq_Some_conv dest!: store_length split: option.splits if_splits)
next
  case (AddPort x)
  moreover assume "ppath_step w p s = Inr (e, s')"
  ultimately show ?thesis
    by (auto simp: op_ppath_add_port_def Let_def bind_eq_Some_conv dest!: store_length split: option.splits if_splits)
next
  case (AddPath x)
  moreover assume "ppath_step w p s = Inr (e, s')"
  ultimately show ?thesis
    by (auto simp: op_ppath_add_path_def Let_def bind_eq_Some_conv fills_put2 dest!: store_length split: option.splits if_splits)
qed

lemma run_fills: "run_ops (ppath_step w) ps s = Inr (rs, s') \<Longrightarrow> fills s s'"
proof (induction ps arbitrary: s rs)
  case (Cons p ps)
  then obtain e s1 rs1 where "ppath_step w p s = Inr (e, s1)" "run_ops (ppath_step w) ps s1 = Inr (rs1, s')"
    by (auto split: sum.splits prod.splits)
  then show ?case using Cons.IH step_fills fills_trans by blast
qed simp

lemma writer_state_fills:
  assumes "writer_state w s u t K" "fills s s'"
  shows "writer_state w s' u t K"
proof -
  have "objects s a \<noteq> None" if "objects s' a = Some x" for a x
    using that assms(2) unfolding fills_def by (metis option.distinct(1))
  then have "wf_shm s'"
    by (intro wf_shm_shrink [OF writer_stateD(1) [OF assms(1)]]) (use assms(2) in \<open>auto simp: fills_def\<close>)
  moreover have "sound_size x" if "k \<in> K" "objects s' (table_of k (unpublished w)) = Some x" for k x
    using that assms(2) writer_stateD(11) [OF assms(1) that(1)] unfolding fills_def by metis
  ultimately show ?thesis using assms by (simp add: writer_state_def fills_def)
qed

text \<open>Publishing one table moves its name into the shared table.\<close>

lemma set_name_fields:
  "table_name j (set_name k n t) = (if j = k then n else table_name j t)"
  "update_count j (set_name k n t) = update_count j t"
   apply (cases k; cases j; simp add: set_name_def table_name_def)
  apply (cases k; cases j; simp add: set_name_def update_count_def)
  done

lemma publish_table_ok:
  assumes "get_shared s (shared_table p) = Some t" "update_count k t \<noteq> update_count k u"
  shows "\<exists>p' s'. publish_table k p u s = Some (p', s') \<and> shared_table p' = shared_table p \<and>
    objects s' = (objects s)(shared_table p \<mapsto> Shared (set_name k (table_name k u) t)) \<and>
    names s' = (names s)(table_name k t := None) \<and> outcome s' = outcome s \<and> next_addr s' = next_addr s"
proof -
  obtain p1 s1 where c: "close_ppath_table p k s = (p1, s1)" by fastforce
  note cl = closed_reader [OF c]
  have "next_addr s1 = next_addr s"
    using c by (cases k) (auto simp: close_ppath_table_def close_if_open_def close_def)
  then show ?thesis using assms c cl
    by (auto simp: publish_table_def same_db_def shm_unlink_def)
qed

lemma publish_ok:
  assumes "writer_state w s u t UNIV" "holds w s d"
  shows "\<exists>w' s' t'. op_ppath_publish w s = Some (w', s') \<and>
    shared_table (published w') = shared_table (published w) \<and>
    names s' SHM_TABLE_NAME = Some (shared_table (published w)) \<and>
    (\<forall>k. update_count k t' = update_count k u) \<and>
    serving s' (shared_table (published w)) t' (\<lambda>k. table_of k (unpublished w)) d \<and>
    writer_state w' s' u t' {} \<and> holds w' s' d \<and> unpublished w' = unpublished w"
proof -
  note W = writer_stateD [OF assms(1)]
  let ?a = "shared_table (published w)"
  have diff: "update_count k t \<noteq> update_count k u" for k using W(9) [of k] by auto
  have a0: "?a \<noteq> 0" using W(5) by (simp add: get_Some)
  from publish_table_ok [OF W(5) diff, of PORT_TABLE] obtain p1 s1 where
    o1: "publish_table PORT_TABLE (published w) u s = Some (p1, s1)" "shared_table p1 = ?a"
      "objects s1 = (objects s)(?a \<mapsto> Shared (set_name PORT_TABLE (table_name PORT_TABLE u) t))"
      "names s1 = (names s)(table_name PORT_TABLE t := None)" "outcome s1 = outcome s" "next_addr s1 = next_addr s" by blast
  let ?t1 = "set_name PORT_TABLE (table_name PORT_TABLE u) t"
  have g1: "get_shared s1 (shared_table p1) = Some ?t1" using o1 a0 by (simp add: get_Some)
  from publish_table_ok [OF g1, of SUBNET_TABLE u] diff obtain p2 s2 where
    o2: "publish_table SUBNET_TABLE p1 u s1 = Some (p2, s2)" "shared_table p2 = ?a"
      "objects s2 = (objects s1)(?a \<mapsto> Shared (set_name SUBNET_TABLE (table_name SUBNET_TABLE u) ?t1))"
      "names s2 = (names s1)(table_name SUBNET_TABLE t := None)" "outcome s2 = outcome s1" "next_addr s2 = next_addr s1"
    by (auto simp: set_name_fields o1(2))
  let ?t2 = "set_name SUBNET_TABLE (table_name SUBNET_TABLE u) ?t1"
  have g2: "get_shared s2 (shared_table p2) = Some ?t2" using o2 a0 by (simp add: get_Some)
  from publish_table_ok [OF g2, of VFAB_TABLE u] diff obtain p3 s3 where
    o3: "publish_table VFAB_TABLE p2 u s2 = Some (p3, s3)" "shared_table p3 = ?a"
      "objects s3 = (objects s2)(?a \<mapsto> Shared (set_name VFAB_TABLE (table_name VFAB_TABLE u) ?t2))"
      "names s3 = (names s2)(table_name VFAB_TABLE t := None)" "outcome s3 = outcome s2" "next_addr s3 = next_addr s2"
    by (auto simp: set_name_fields o2(2))
  let ?t3 = "set_name VFAB_TABLE (table_name VFAB_TABLE u) ?t2"
  have g3: "get_shared s3 (shared_table p3) = Some ?t3" using o3 a0 by (simp add: get_Some)
  from publish_table_ok [OF g3, of PATH_TABLE u] diff obtain p4 s4 where
    o4: "publish_table PATH_TABLE p3 u s3 = Some (p4, s4)" "shared_table p4 = ?a"
      "objects s4 = (objects s3)(?a \<mapsto> Shared (set_name PATH_TABLE (table_name PATH_TABLE u) ?t3))"
      "names s4 = (names s3)(table_name PATH_TABLE t := None)" "outcome s4 = outcome s3" "next_addr s4 = next_addr s3"
    by (auto simp: set_name_fields o3(2))
  let ?t4 = "set_name PATH_TABLE (table_name PATH_TABLE u) ?t3"
  have g4: "get_shared s4 (shared_table p4) = Some ?t4" using o4 a0 by (simp add: get_Some)
  let ?t = "?t4\<lparr>port_update_count := port_update_count u, subnet_update_count := subnet_update_count u,
       vfab_update_count := vfab_update_count u, path_update_count := path_update_count u\<rparr>"
  let ?s = "put ?a (Shared ?t) s4"
  have run: "op_ppath_publish w s = Some (w\<lparr>published := p4\<rparr>, ?s)"
    using W(3) o1(1) o2(1) o3(1) o4(1,2) g4 by (simp add: op_ppath_publish_def)
  have names': "names ?s = (names s)(table_name PORT_TABLE t := None, table_name SUBNET_TABLE t := None,
      table_name VFAB_TABLE t := None, table_name PATH_TABLE t := None)"
    using o1(4) o2(4) o3(4) o4(4) by simp
  have objs: "objects ?s = (objects s)(?a \<mapsto> Shared ?t)"
    using o1(3) o2(3) o3(3) o4(3) by (simp add: fun_eq_iff)
  have nx: "next_addr s4 = next_addr s" using o1(6) o2(6) o3(6) o4(6) by simp
  have tn: "table_name k ?t = table_name k u" for k
    by (cases k) (simp_all add: set_name_def table_name_def)
  have tc: "update_count k ?t = update_count k u" for k
    by (cases k) (simp_all add: update_count_def)
  have keep: "table_name j t \<noteq> table_name k u \<and> table_name j t \<noteq> SHM_TABLE_NAME" for j k
  proof -
    have "table_name j t = (if update_count j t = 0 then [] else version_name j (update_count j t))"
      "table_name k u = version_name k (update_count k u)"
      using W(7,8) W(9) [of k] by (simp_all add: named_def)
    then show ?thesis using W(9) [of k] version_name_not [of j "update_count j t"]
        version_name_not(1) [of k "update_count k u"]
      by (cases "update_count j t = 0") (auto simp: version_name_inj SHM_TABLE_NAME_def)
  qed
  have nm: "names ?s (table_name k ?t) = Some (table_of k (unpublished w))" for k
      proof -
    have "table_name k u \<noteq> table_name j t" for j using keep [of j k] by metis
    then show ?thesis unfolding tn names' using W(9) [of k] by simp
  qed
  have shmname: "names ?s SHM_TABLE_NAME = Some ?a" 
  proof -
    have "SHM_TABLE_NAME \<noteq> table_name j t" for j using keep [of j] by metis
    then show ?thesis unfolding names' using W(6) by simp
  qed
  have out: "outcome ?s n = 0" for n using W(2) o1(5) o2(5) o3(5) o4(5) by simp
  obtain st vt pt qt where tb: "tabs (unpublished w) s st vt pt qt" "rep d st vt pt qt"
    using assms(2) by (rule holdsE)
  have "get_subnets ?s (table_of SUBNET_TABLE (unpublished w)) = Some st"
    "get_vfabs ?s (table_of VFAB_TABLE (unpublished w)) = Some vt"
    "get_ports ?s (table_of PORT_TABLE (unpublished w)) = Some pt"
    "get_paths ?s (table_of PATH_TABLE (unpublished w)) = Some qt"
    using tb(1) W(5) unfolding tabs_def get_Some objs table_of_def by auto
  moreover have "sound_size x" if "objects ?s (table_of k (unpublished w)) = Some x" for k x
    using that W(5) W(11) [of k x] objs
    by (cases "table_of k (unpublished w) = ?a") (auto simp: get_Some sound_size_def)
  moreover have "get_shared ?s ?a = Some ?t" using a0 by (simp add: get_Some)
  ultimately have "serving ?s ?a ?t (\<lambda>k. table_of k (unpublished w)) d"
    unfolding serving_def using nm out tb(2) by blast
  moreover have "writer_state (w\<lparr>published := p4\<rparr>) ?s u ?t {}"
  proof -
    have pu: "shared_table (unpublished w) \<noteq> ?a" using W(4,6) by metis
    have sub: "names ?s n = Some a \<Longrightarrow> names s n = Some a" for n a
      unfolding names' by (auto split: if_splits)
    have "next_addr ?s = next_addr s" using nx by simp
    then have "wf_shm ?s"
      by (rule wf_shm_shrink [OF W(1)]) (use sub W(5) objs in \<open>auto simp: get_Some split: if_splits\<close>)
    moreover have "named ?t" by (rule named_cong [OF W(7) tn tc])
    moreover have "get_shared ?s (shared_table (unpublished w)) = Some u"
      using W(3) pu objs by (simp add: get_Some)
    moreover have "names ?s n \<noteq> Some (shared_table (unpublished w))" for n using sub W(4) by blast
    moreover have "get_shared ?s ?a = Some ?t" using a0 by (simp add: get_Some)
    ultimately show ?thesis unfolding writer_state_def using o4(2) shmname out tc W(7) by simp
  qed
  moreover have "holds (w\<lparr>published := p4\<rparr>) ?s d"
  proof -
    obtain st vt pt qt where tb: "tabs (unpublished w) s st vt pt qt" "rep d st vt pt qt" "sized w st vt pt qt"
      using assms(2) by (rule holdsE)
    have "tabs (unpublished (w\<lparr>published := p4\<rparr>)) ?s st vt pt qt"
      using tb(1) W(5) unfolding tabs_def get_Some objs by auto
    then show ?thesis by (rule holdsI [OF _ tb(2)]) (use tb(3) in \<open>simp add: sized_def\<close>)
  qed
  ultimately show ?thesis using run shmname tc o4(2)
    by (intro exI [of _ "w\<lparr>published := p4\<rparr>"] exI [of _ ?s] exI [of _ ?t]) simp
qed


section \<open>Creating the writer and connecting a reader\<close>

lemma create_writer_ok:
  assumes "wf_shm s" "\<And>n. outcome s n = 0"
  shows "\<exists>w s' u t. op_ppath_create_writer s = Some (0, w, s') \<and> writer_state w s' u t {}"
proof -
  from shm_open_create [OF assms, of SHM_TABLE_NAME] obtain h s1 where
    o: "shm_open SHM_TABLE_NAME True s = (Inr (new_fd (fds s)), s1)"
      "names s1 = (names s)(SHM_TABLE_NAME \<mapsto> h)" "fds s1 = (new_fd (fds s), h) # fds s"
      "outcome s1 = outcome s" "wf_shm s1" "h < next_addr s1" by blast
  let ?s2 = "s1\<lparr>calls := Suc (calls s1)\<rparr>" and ?s3 = "s1\<lparr>calls := Suc (Suc (calls s1))\<rparr>"
  let ?p = "zero_reader\<lparr>shared_fd := new_fd (fds s), shared_table := h\<rparr>"
  let ?t = "zero_shared\<lparr>abi_version := 3\<rparr>"
  have op: "open_shared_table zero_reader SHM_TABLE_NAME True s = (0, ?p, ?s3)"
    using o(1,3,4) assms(2) by (simp add: open_shared_table_def ftruncate_def syscall_def mmap_def)
  let ?s4 = "put h (Shared ?t) ?s3"
  let ?a = "next_addr s1"
  let ?s5 = "put ?a (Shared zero_shared) (?s4\<lparr>calls := Suc (calls ?s4), next_addr := Suc ?a\<rparr>)"
  have m: "malloc_shared ?s4 = (?a, ?s5)"
    using o(4) assms(2) by (simp add: malloc_shared_def syscall_def Let_def)
  have h: "0 < h" "h \<noteq> ?a" "0 < ?a" using o(2,6) wf_shmD(1) [OF o(5)] wf_shmD(3) [OF o(5), of SHM_TABLE_NAME h] by auto
  have g: "get_shared ?s5 h = Some ?t" using h by (simp add: get_Some put_def)
  let ?w = "zero_writer\<lparr>published := ?p, unpublished := zero_reader\<lparr>shared_table := ?a\<rparr>\<rparr>"
  let ?s6 = "put ?a (Shared zero_shared) ?s5"
  have z: "zero_shared\<lparr>port_update_count := 0, subnet_update_count := 0, vfab_update_count := 0,
      path_update_count := 0\<rparr> = zero_shared" by (simp add: zero_shared_def)
  have run: "op_ppath_create_writer s = Some (0, ?w, ?s6)"
    using op m g h z by (simp add: op_ppath_create_writer_def connect_shared_table_rw_def zero_writer_def zero_shared_def)
  have names6: "names ?s6 = names s1" and next6: "next_addr ?s6 = Suc ?a"
    and obj6: "objects ?s6 = (objects s1)(h \<mapsto> Shared ?t, ?a \<mapsto> Shared zero_shared)"
    by (simp_all add: put_def)
  have "wf_shm ?s6" unfolding wf_shm_def
  proof (intro conjI allI impI)
    show "0 < next_addr ?s6" using next6 by simp
    fix m n a assume "names ?s6 m = Some a \<and> names ?s6 n = Some a"
    then show "m = n" using wf_shmD(2) [OF o(5)] names6 by metis
  next
    fix n a assume "names ?s6 n = Some a"
    then show "0 < a" "a < next_addr ?s6" using wf_shmD(3) [OF o(5)] names6 next6 by fastforce+
  next
    fix a x assume "objects ?s6 a = Some x"
    then show "a < next_addr ?s6" using wf_shmD(4) [OF o(5)] obj6 next6 o(6) by (auto split: if_splits intro: less_SucI)
  qed
  moreover have "names ?s6 n \<noteq> Some ?a" for n using wf_shmD(3) [OF o(5), of n ?a] names6 by auto
  moreover have "update_count k zero_shared = 0" "update_count k ?t = 0" "table_name k zero_shared = []" "table_name k ?t = []" for k
    by (cases k; simp add: zero_shared_def update_count_def table_name_def)+
  ultimately have "writer_state ?w ?s6 zero_shared ?t {}"
    using o(2,4) assms(2) h obj6 names6
    by (simp add: writer_state_def get_Some named_def)
  with run show ?thesis by blast
qed

text \<open>A reader opens the shared table and then the four tables it names.\<close>

lemma open_tables_ok:
  assumes "serving s a t A d" "shared_table r = a"
  shows "\<exists>r' s'. open_tables ks r s = Some (0, r', s') \<and> same_db s s' \<and> shared_table r' = a \<and>
    (\<forall>k. stale k r' t \<longleftrightarrow> k \<notin> set ks \<and> stale k r t) \<and>
    (\<forall>k. table_of k r' = (if k \<in> set ks then A k else table_of k r)) \<and>
    sid_table r' = (if SUBNET_TABLE \<in> set ks then A SUBNET_TABLE else sid_table r)"
  using assms
proof (induction ks arbitrary: r s)
  case (Cons k ks)
  obtain x z1 z2 where x: "objects s (A k) = Some x" "header_sizes x = Some (z1, z2)" "z1 + z2 \<noteq> 0"
    using serving_object [OF Cons.prems(1)] by blast
  have "get_shared s (shared_table r) = Some t" "names s (table_name k t) = Some (A k)" "\<And>n. outcome s n = 0"
    using Cons.prems by (simp_all add: serving_def)
  from open_old_table [OF this x, of 0 0] obtain fd s1 where
    o: "open_ppath_table r k False 0 0 s = Some (0, attach_table k (A k) fd t r, s1)" "same_db s s1" by blast
  let ?r = "attach_table k (A k) fd t r"
  have "shared_table ?r = a" using Cons.prems(2) by (simp add: attached_reader)
  from Cons.IH [OF serving_same [OF Cons.prems(1) o(2)] this] obtain r' s' where
    "open_tables ks ?r s1 = Some (0, r', s')" "same_db s1 s'" "shared_table r' = a"
    "\<forall>j. stale j r' t \<longleftrightarrow> j \<notin> set ks \<and> stale j ?r t"
    "\<forall>j. table_of j r' = (if j \<in> set ks then A j else table_of j ?r)"
    "sid_table r' = (if SUBNET_TABLE \<in> set ks then A SUBNET_TABLE else sid_table ?r)" by blast
  then show ?case using o same_db_trans [OF o(2)]
    by (intro exI [of _ r'] exI [of _ s']) (auto simp: attached_reader)
qed simp

lemma create_reader_ok:
  assumes "serving s a t A d" "names s SHM_TABLE_NAME = Some a"
  shows "\<exists>r s'. op_ppath_create_reader s = Some (0, r, s') \<and> same_db s s' \<and> synced r a t A \<and>
    (\<forall>k. \<not> stale k r t)"
proof -
  let ?fd = "new_fd (fds s)"
  let ?s1 = "s\<lparr>calls := Suc (Suc (calls s)), fds := (?fd, a) # fds s\<rparr>"
  let ?r = "zero_reader\<lparr>shared_fd := ?fd, shared_table := a\<rparr>"
  have ok: "outcome s n = 0" for n using assms(1) by (simp add: serving_def)
  have o: "open_shared_table zero_reader SHM_TABLE_NAME False s = (0, ?r, ?s1)"
    using assms(2) ok by (simp add: open_shared_table_def shm_open_def syscall_def open_fd_def mmap_def)
  have s1: "same_db s ?s1" by (simp add: same_db_def)
  note serving = serving_same [OF assms(1) s1]
  have "shared_table ?r = a" by simp
  from open_tables_ok [OF serving this, of "[PORT_TABLE, PATH_TABLE, SUBNET_TABLE, VFAB_TABLE]"] obtain r s' where
    t: "open_tables [PORT_TABLE, PATH_TABLE, SUBNET_TABLE, VFAB_TABLE] ?r ?s1 = Some (0, r, s')" "same_db ?s1 s'"
      "shared_table r = a" "\<And>k. stale k r t \<longleftrightarrow> k \<notin> {PORT_TABLE, PATH_TABLE, SUBNET_TABLE, VFAB_TABLE} \<and> stale k ?r t"
      "\<And>k. table_of k r = (if k \<in> {PORT_TABLE, PATH_TABLE, SUBNET_TABLE, VFAB_TABLE} then A k else table_of k ?r)"
      "sid_table r = A SUBNET_TABLE" by auto
  have all: "k \<in> {PORT_TABLE, PATH_TABLE, SUBNET_TABLE, VFAB_TABLE}" for k by (cases k) auto
  have "get_shared ?s1 (shared_table ?r) = Some t" using serving by (simp add: serving_def)
  then have "op_ppath_create_reader s = Some (0, r, s')"
    using o t(1) by (simp add: op_ppath_create_reader_def connect_shared_table_def)
  moreover have "synced r a t A" "\<not> stale k r t" for k
    using t(3,6) t(4) [of k] t(5) all by (auto simp: synced_def)
  ultimately show ?thesis using same_db_trans [OF s1 t(2)] by blast
qed

section \<open>A whole session\<close>

text \<open>A writer builds and publishes a database and a reader queries it: the statuses of the
  tables and of the added records, and the answer.\<close>

record sizes =
  subnets_max :: u32
  sids_max :: u32
  ports_max :: u32
  vfabs_max :: u32
  paths_max :: u32

definition ppath_session ::
  "sizes \<Rightarrow> ppath_op list \<Rightarrow> (nat \<Rightarrow> shm \<Rightarrow> shm) \<Rightarrow> u64 \<Rightarrow> string \<Rightarrow> IB_PATH_RECORD_NO \<Rightarrow> shm \<Rightarrow>
     (errno list \<times> errno list \<times> errno \<times> IB_PATH_RECORD_NO option) option" where
  "ppath_session z ops yield cm hfi q s = do {
     (e0, w0, s0) \<leftarrow> op_ppath_create_writer s;
     (es, w, s1) \<leftarrow> open_all_tables w0 (subnets_max z) (sids_max z) (ports_max z) (vfabs_max z) (paths_max z) s0;
     (rs, s2) \<leftarrow> (case run_ops (ppath_step w) ops s1 of Inl _ \<Rightarrow> None | Inr x \<Rightarrow> Some x);
     (w2, s3) \<leftarrow> op_ppath_publish w s2;
     (e1, r, s4) \<leftarrow> op_ppath_create_reader s3;
     (e, res, r2, s5) \<leftarrow> op_ppath_find_path yield r hfi cm (Some q) (Some zero_path) s4;
     Some (e0 # es @ [e1], rs, e, res)
   }"

text \<open>The abstract counterpart only needs the sizes of the tables.\<close>

definition sized_writer :: "sizes \<Rightarrow> op_ppath_writer_t" where
  "sized_writer z = zero_writer\<lparr>max_subnets := subnets_max z, max_sids := sids_max z,
     max_ports := ports_max z, max_vfabs := vfabs_max z, max_paths := paths_max z\<rparr>"

lemma spec_sizes:
  assumes "max_subnets w = max_subnets w'" "max_sids w = max_sids w'" "max_ports w = max_ports w'"
    "max_vfabs w = max_vfabs w'" "max_paths w = max_paths w'"
  shows "ppath_spec w = ppath_spec w'"
proof (intro ext)
  fix p d show "ppath_spec w p d = ppath_spec w' p d"
    by (cases p) (simp_all add: assms split: option.splits)
qed

lemma session_ok:
  fixes z ops
  defines "res \<equiv> run_abs (ppath_spec (sized_writer z)) ops empty_pdb"
  assumes "wf_shm s" "\<And>n. outcome s n = 0" "\<And>n s. same_db s (yield n s)"
    "unat (subnets_max z) < 2 ^ 16" "below_4gb SUBNET_TABLE (subnets_max z) (sids_max z)"
    "below_4gb PORT_TABLE (ports_max z) 0" "below_4gb VFAB_TABLE (vfabs_max z) 0" "below_4gb PATH_TABLE (paths_max z) 0"
    "\<forall>p \<in> set (db_ports (snd res)). unat (lmc p) < 8"
    "gid_query cm \<or> cm AND (COMP_SLID OR COMP_DLID) \<noteq> 0"
  shows "ppath_session z ops yield cm hfi q s = Some ([0, 0, 0, 0, 0, 0], fst res,
    fst (answer q (query_db cm hfi q (snd res))), Some (snd (answer q (query_db cm hfi q (snd res)))))"
proof -
  from create_writer_ok [OF assms(2,3)] obtain w0 s0 u t where
    c: "op_ppath_create_writer s = Some (0, w0, s0)" "writer_state w0 s0 u t {}" by blast
  from open_all_tables_ok [OF c(2) assms(5-9)] obtain w s1 u1 where
    o: "open_all_tables w0 (subnets_max z) (sids_max z) (ports_max z) (vfabs_max z) (paths_max z) s0 =
        Some ([0, 0, 0, 0], w, s1)" "writer_state w s1 u1 t UNIV" "holds w s1 empty_pdb"
      "max_subnets w = subnets_max z" "max_sids w = sids_max z" "max_ports w = ports_max z"
      "max_vfabs w = vfabs_max z" "max_paths w = paths_max z" by blast
  have sp: "ppath_spec w = ppath_spec (sized_writer z)"
    by (rule spec_sizes) (simp_all add: sized_writer_def o)
  from ppath.run_simulates [OF o(3), of ops] obtain s2 where
    r: "run_ops (ppath_step w) ops s1 = Inr (fst res, s2)" "holds w s2 (snd res)"
    unfolding sp res_def by blast
  from publish_ok [OF writer_state_fills [OF o(2) run_fills [OF r(1)]] r(2)] obtain w2 s3 t2 where
    p: "op_ppath_publish w s2 = Some (w2, s3)" "names s3 SHM_TABLE_NAME = Some (shared_table (published w))"
      "serving s3 (shared_table (published w)) t2 (\<lambda>k. table_of k (unpublished w)) (snd res)" by blast
  from create_reader_ok [OF p(3,2)] obtain rd s4 where
    k: "op_ppath_create_reader s3 = Some (0, rd, s4)" "same_db s3 s4"
      "synced rd (shared_table (published w)) t2 (\<lambda>k. table_of k (unpublished w))" by blast
  from find_path_answer [where yield = yield, OF assms(4,10) serving_same [OF p(3) k(2)] k(3) assms(11),
      of hfi q zero_path]
  obtain r2 s5 where "op_ppath_find_path yield rd hfi cm (Some q) (Some zero_path) s4 =
      Some (fst (answer q (query_db cm hfi q (snd res))), Some (snd (answer q (query_db cm hfi q (snd res)))), r2, s5)"
    by blast
  with c(1) o(1) r(1) p(1) k(1) show ?thesis by (simp add: ppath_session_def)
qed


end
