(* ===== verification/PathDbProps.thy ===== *)
theory PathDbProps
  imports PathDbPublish
begin

text \<open>
  The properties of the path database: a whole session from an empty shared memory to an answered
  query, the refinement of the writer's tables to lists, queries against a reference search while
  tables are stale, republication, descriptors, and two defects: replacing only the path table
  makes a search loop for ever, and the lookup by destination GID never finds a path.
\<close>

section \<open>Descriptors\<close>

lemma new_fd_unused: "new_fd fs \<notin> fst ` set fs"
proof -
  have "card (fst ` set fs) \<le> length fs"
    using card_image_le [of "set fs" fst] card_length [of fs] by simp
  then have "\<not> {0..<Suc (length fs)} \<subseteq> fst ` set fs"
    using card_mono [of "fst ` set fs" "{0..<Suc (length fs)}"] by auto
  then have "filter (\<lambda>n. n \<notin> fst ` set fs) [0..<Suc (length fs)] \<noteq> []"
    by (auto simp: filter_empty_conv simp del: upt_Suc)
  from hd_in_set [OF this] show ?thesis by (simp add: new_fd_def del: upt_Suc)
qed

lemma new_fd_fresh: "filter (\<lambda>p. fst p \<noteq> new_fd fs) fs = fs"
  by (rule filter_True) (use new_fd_unused [of fs] in force)

lemma new_fd_zero: "new_fd fs = 0 \<longleftrightarrow> 0 \<notin> fst ` set fs"
proof
  assume "0 \<notin> fst ` set fs"
  then show "new_fd fs = 0" by (simp add: new_fd_def upt_conv_Cons del: upt_Suc)
qed (use new_fd_unused [of fs] in metis)

definition reader_fds :: "op_ppath_reader_t \<Rightarrow> nat set" where
  "reader_fds r = {shared_fd r, port_fd r, path_fd r, subnet_fd r, vfab_fd r} - {0}"

definition fd_of :: "table_kind \<Rightarrow> op_ppath_reader_t \<Rightarrow> nat" where
  "fd_of k r = (case k of PORT_TABLE \<Rightarrow> port_fd r | PATH_TABLE \<Rightarrow> path_fd r
     | SUBNET_TABLE \<Rightarrow> subnet_fd r | VFAB_TABLE \<Rightarrow> vfab_fd r)"

lemma close_reader_fds:
  "fds (snd (op_ppath_close_reader r s)) = filter (\<lambda>p. fst p \<notin> reader_fds r) (fds s)"
proof -
  have c: "fds (close_if_open fd s) = filter (\<lambda>p. fst p \<noteq> fd \<or> fd = 0) (fds s)" for fd s
    by (simp add: close_if_open_def close_def)
  show ?thesis
    by (auto simp: op_ppath_close_reader_def reader_fds_def c Let_def intro!: filter_cong)
qed

text \<open>Opening an existing table leaves no descriptor behind when it fails.\<close>

lemma shm_open_old:
  "shm_open name False s = (Inl e, s1) \<Longrightarrow> e \<noteq> 0 \<and> fds s1 = fds s"
  "shm_open name False s = (Inr fd, s1) \<Longrightarrow>
     fd = new_fd (fds s) \<and> fds s1 = (fd, the (names s name)) # fds s"
  by (auto simp: shm_open_def syscall_def open_fd_def split: if_splits option.splits)

lemma mmap_fds: "mmap n fd s = (Inl e, s1) \<Longrightarrow> e \<noteq> 0 \<and> fds s1 = fds s" "mmap n fd s = (Inr h, s1) \<Longrightarrow> fds s1 = fds s"
  by (auto simp: mmap_def syscall_def split: if_splits option.splits)

lemma map_old_table_fds:
  "map_old_table fd s = Some (Inl e, s1) \<Longrightarrow> e \<noteq> 0 \<and> fds s1 = fds s"
  "map_old_table fd s = Some (Inr h, s1) \<Longrightarrow> fds s1 = fds s"
  by (auto simp: map_old_table_def bind_eq_Some_conv mmap_fds split: prod.splits sum.splits option.splits
      dest!: mmap_fds)

lemma close_new_fd: "fds s1 = (new_fd (fds s), h) # fds s \<Longrightarrow> fds (close (new_fd (fds s)) s1) = fds s"
  by (simp add: close_def new_fd_fresh)

lemma open_old_fds:
  assumes "open_ppath_table r k False c c2 s = Some (e, r', s')"
  shows "e \<noteq> 0 \<and> r' = r \<and> fds s' = fds s \<or>
    e = 0 \<and> (\<exists>h h' t. r' = attach_table k h (new_fd (fds s)) t r \<and> fds s' = (new_fd (fds s), h') # fds s)"
proof -
  from assms obtain t where t: "get_shared s (shared_table r) = Some t"
    by (auto simp: open_ppath_table_def bind_eq_Some_conv)
  show ?thesis
  proof (cases "shm_open (table_name k t) False s")
    case (Pair res s1)
    show ?thesis
    proof (cases res)
      case (Inl e1)
      with Pair t assms shm_open_old(1) [of "table_name k t" s e1 s1] show ?thesis
        by (simp add: open_ppath_table_def)
    next
      case (Inr fd)
      then have o: "fd = new_fd (fds s)" "fds s1 = (fd, the (names s (table_name k t))) # fds s"
        using Pair shm_open_old(2) by blast+
      then obtain h where h: "fds s1 = (new_fd (fds s), h) # fds s" by blast
      from assms t Pair Inr obtain m s2 where m: "map_old_table fd s1 = Some (m, s2)"
        by (auto simp: open_ppath_table_def bind_eq_Some_conv)
      show ?thesis
      proof (cases m)
        case e: (Inl e1)
        then have "e1 \<noteq> 0" "fds s2 = fds s1" using m map_old_table_fds(1) by blast+
        then show ?thesis using assms t Pair Inr m e o(1) h close_new_fd [of s2 s h]
          by (auto simp: open_ppath_table_def)
      next
        case a: (Inr a)
        then have "fds s2 = fds s1" using m map_old_table_fds(2) by blast
        then show ?thesis using assms t Pair Inr m a o(1) h
          by (auto simp: open_ppath_table_def)
      qed
    qed
  qed
qed

lemma attach_fds:
  "fd_of k r = 0 \<Longrightarrow> 0 < fd \<Longrightarrow> reader_fds (attach_table k h fd t r) = insert fd (reader_fds r)"
  "fd_of j (attach_table k h fd t r) = (if j = k then fd else fd_of j r)"
   apply (cases k; auto simp: attach_table_def reader_fds_def fd_of_def)
  apply (cases k; cases j; simp add: attach_table_def fd_of_def)
  done

lemma open_tables_fds:
  assumes "open_tables ks r s = Some (e, r', s')" "distinct ks" "\<forall>k \<in> set ks. fd_of k r = 0"
    "filter (\<lambda>p. fst p \<notin> reader_fds r) (fds s) = F" "0 \<in> fst ` set (fds s)"
  shows "(e \<noteq> 0 \<longrightarrow> fds s' = F) \<and> (e = 0 \<longrightarrow> filter (\<lambda>p. fst p \<notin> reader_fds r') (fds s') = F)"
  using assms
proof (induction ks arbitrary: r s)
  case Nil
  then show ?case by simp
next
  case (Cons k ks)
  from Cons.prems(1) obtain e1 r1 s1 where o: "open_ppath_table r k False 0 0 s = Some (e1, r1, s1)"
    by (auto simp: bind_eq_Some_conv)
  show ?case
  proof (cases "e1 = 0")
    case False
    then have "r1 = r" "fds s1 = fds s" using open_old_fds [OF o] by auto
    moreover obtain r2 s2 where "op_ppath_close_reader r1 s1 = (r2, s2)" by fastforce
    ultimately show ?thesis using False Cons.prems(1,4) o close_reader_fds [of r1 s1] by auto
  next
    case True
    then obtain h h' t where n: "r1 = attach_table k h (new_fd (fds s)) t r"
      "fds s1 = (new_fd (fds s), h') # fds s"
      using open_old_fds [OF o] by auto
    have k0: "fd_of k r = 0" using Cons.prems(3) by simp
    have pos: "0 < new_fd (fds s)" using new_fd_zero [of "fds s"] Cons.prems(5) by simp
    have own: "reader_fds r1 = insert (new_fd (fds s)) (reader_fds r)"
      unfolding n(1) by (rule attach_fds(1) [OF k0 pos])
    have "filter (\<lambda>p. fst p \<notin> reader_fds r1) (fds s1) =
        filter (\<lambda>p. fst p \<notin> reader_fds r) (filter (\<lambda>p. fst p \<noteq> new_fd (fds s)) (fds s))"
      by (auto simp: own n(2) intro!: filter_cong)
    then have F: "filter (\<lambda>p. fst p \<notin> reader_fds r1) (fds s1) = F"
      using Cons.prems(4) by (simp add: new_fd_fresh)
    show ?thesis
    proof (rule Cons.IH [OF _ _ _ F])
      show "open_tables ks r1 s1 = Some (e, r', s')" using Cons.prems(1) o True by simp
      show "distinct ks" using Cons.prems(2) by simp
      show "\<forall>j \<in> set ks. fd_of j r1 = 0" using Cons.prems(2,3) by (auto simp: n(1) attach_fds(2))
      show "0 \<in> fst ` set (fds s1)" using Cons.prems(5) by (simp add: n(2))
    qed
  qed
qed

text \<open>The descriptors after a connection has been undone: descriptor 0, if the shared table got it,
  stays open.\<close>

definition fds_left :: "shm \<Rightarrow> (nat \<times> nat) list" where
  "fds_left s = (if 0 \<in> fst ` set (fds s) then fds s
     else (case shm_open SHM_TABLE_NAME False s of
         (Inl _, _) \<Rightarrow> fds s
       | (Inr _, _) \<Rightarrow> (0, the (names s SHM_TABLE_NAME)) # fds s))"

lemma connect_fds:
  assumes "connect_shared_table zero_reader s = Some (e, r, s')"
  shows "(e \<noteq> 0 \<longrightarrow> fds s' = fds_left s) \<and> (e = 0 \<longrightarrow> (\<forall>k. fd_of k r = 0) \<and> 0 \<in> fst ` set (fds s') \<and>
    filter (\<lambda>p. fst p \<notin> reader_fds r) (fds s') = fds_left s)"
proof (cases "shm_open SHM_TABLE_NAME False s")
  case (Pair res s1)
  show ?thesis
  proof (cases res)
    case (Inl e1)
    with Pair assms shm_open_old(1) [of SHM_TABLE_NAME s e1 s1] show ?thesis
      by (auto simp: connect_shared_table_def open_shared_table_def fds_left_def)
  next
    case (Inr fd)
    then have o: "fd = new_fd (fds s)" "fds s1 = (new_fd (fds s), the (names s SHM_TABLE_NAME)) # fds s"
      using Pair shm_open_old(2) by blast+
    have left: "fds_left s = (if fd = 0 then fds s1 else fds s)"
      using o Pair Inr new_fd_zero [of "fds s"] by (auto simp: fds_left_def)
    obtain m s2 where m: "mmap 160 fd s1 = (m, s2)" by fastforce
    show ?thesis
    proof (cases m)
      case e: (Inl e1)
      then have "e1 \<noteq> 0" "fds s2 = fds s1" using m mmap_fds(1) by blast+
      then show ?thesis using assms Pair Inr m e o left close_new_fd [of s2 s]
        by (auto simp: connect_shared_table_def open_shared_table_def)
    next
      case a: (Inr a)
      then have "fds s2 = fds s1" using m mmap_fds(2) by blast
      moreover have "r = zero_reader\<lparr>shared_fd := fd, shared_table := a\<rparr>" "s' = s2" "e = 0"
        using assms Pair Inr m a
        by (auto simp: connect_shared_table_def open_shared_table_def bind_eq_Some_conv)
      moreover have "fd_of k (zero_reader\<lparr>shared_fd := fd, shared_table := a\<rparr>) = 0" for k
        by (cases k) (simp_all add: fd_of_def zero_reader_def)
      moreover have "reader_fds (zero_reader\<lparr>shared_fd := fd, shared_table := a\<rparr>) = {fd} - {0}"
        by (auto simp: reader_fds_def zero_reader_def)
      moreover have "filter (\<lambda>p. fst p \<notin> {fd} - {0}) (fds s1) = fds_left s"
        using left o new_fd_fresh [of "fds s"] by (cases "fd = 0") simp_all
      moreover have "0 \<in> fst ` set (fds s1)" using o new_fd_zero [of "fds s"] by force
      ultimately show ?thesis by simp
    qed
  qed
qed

section \<open>A chain that runs into itself\<close>

lemma path_walk_loops:
  assumes "p \<noteq> 0" "unat p < length recs" "\<not> match (recs ! unat p)" "nxt (recs ! unat p) = p"
  shows "path_walk match nxt recs p = None"
proof -
  let ?P = "\<lambda>(m :: op_ppath_record_t \<Rightarrow> bool) (n :: op_ppath_record_t \<Rightarrow> u32) rs (a :: u32)
    (y :: op_ppath_record_t walk). \<not> (a \<noteq> 0 \<and> unat a < length rs \<and> \<not> m (rs ! unat a) \<and> n (rs ! unat a) = a)"
  have "?P m n rs a y" if w: "path_walk m n rs a = Some y" for m n rs a y
  proof (rule path_walk.raw_induct [where P = ?P, OF _ w])
    fix walk and m :: "op_ppath_record_t \<Rightarrow> bool" and n :: "op_ppath_record_t \<Rightarrow> u32"
      and rs :: "op_ppath_record_t list" and a :: u32 and y :: "op_ppath_record_t walk"
    assume ih: "\<And>m n rs a y. walk m n rs a = Some y \<Longrightarrow> ?P m n rs a y"
      and b: "(if a = 0 then Some NotFound else case fetch rs (unat a) of None \<Rightarrow> Some Outside
        | Some r \<Rightarrow> if m r then Some (Hit r) else walk m n rs (n r)) = Some y"
    show "?P m n rs a y"
    proof (rule notI)
      assume c: "a \<noteq> 0 \<and> unat a < length rs \<and> \<not> m (rs ! unat a) \<and> n (rs ! unat a) = a"
      then have "walk m n rs a = Some y" using b by simp
      from ih [OF this] c show False by blast
    qed
  qed
  with assms show ?thesis by (meson not_None_eq)
qed

text \<open>The tables of a published database, the path table replaced by a new one.\<close>

lemma reinit_paths:
  assumes "writer_state w s u t {}" "serving s a t (\<lambda>k. table_of k (unpublished w)) d"
    "tabs (unpublished w) s st vt pt qt" "n < - 1"
  shows "\<exists>w' s'. op_ppath_initialize_paths w n s = Some (0, w', s') \<and> max_paths w' = n \<and>
    tabs (unpublished w') s' st vt pt
      \<lparr>path_size = of_nat (table_bytes PATH_TABLE n), path_count = 0,
        path_recs = replicate (Suc (unat n)) zero_record\<rparr>"
proof -
  note W = writer_stateD [OF assms(1)] and T = tabs_get [OF assms(3)]
  let ?n = "table_name PATH_TABLE (name_table PATH_TABLE u)"
  have n: "?n = version_name PATH_TABLE (bump_count (update_count PATH_TABLE u))"
    by (simp add: name_table_fields)
  from reopen_new_table [OF W(1,2,3,4), of PATH_TABLE n 0, simplified] obtain h r s' where
    run: "reopen_ppath_table (unpublished w) PATH_TABLE True n 0 s = Some (0, r, s')"
    and r: "table_of PATH_TABLE r = h"
      "\<forall>j. j \<noteq> PATH_TABLE \<longrightarrow> table_of j r = table_of j (unpublished w)" "sid_table r = sid_table (unpublished w)"
    and h: "0 < h" "names s ?n = Some h \<or> objects s h = None \<and> (\<forall>n. names s n \<noteq> Some h)"
    and s': "objects s' = (objects s)(shared_table (unpublished w) \<mapsto> Shared (name_table PATH_TABLE u),
        h \<mapsto> clear_table PATH_TABLE n 0)" by auto
  have other: "table_of k (unpublished w) \<noteq> h \<and> table_of k (unpublished w) \<noteq> shared_table (unpublished w)" for k
  proof -
    have nm: "names s (table_name k t) = Some (table_of k (unpublished w))"
      using assms(2) by (simp add: serving_def)
    have "table_name k t \<noteq> ?n"
    proof -
      have "table_name k t = (if update_count k t = 0 then [] else version_name k (update_count k t))"
        using W(8) by (simp add: named_def)
      moreover have "update_count PATH_TABLE u = update_count PATH_TABLE t" using W(10) by simp
      ultimately show ?thesis
        using version_name_not(1) [of PATH_TABLE "bump_count (update_count PATH_TABLE t)"]
          bump_count_new(2) [of "update_count PATH_TABLE t"]
        by (auto simp: n version_name_inj)
    qed
    then have "table_of k (unpublished w) \<noteq> h" using h(2) nm wf_shmD(2) [OF W(1)] by metis
    then show ?thesis using nm W(4) by metis
  qed
  have "clear_table PATH_TABLE n 0 = Paths \<lparr>path_size = of_nat (table_bytes PATH_TABLE n), path_count = 0,
        path_recs = replicate (Suc (unat n)) zero_record\<rparr>"
    by (simp add: clear_table_def size_ok [OF assms(4)])
  then have "tabs r s' st vt pt \<lparr>path_size = of_nat (table_bytes PATH_TABLE n), path_count = 0,
        path_recs = replicate (Suc (unat n)) zero_record\<rparr>"
    using T r h(1) s' other [of SUBNET_TABLE] other [of VFAB_TABLE] other [of PORT_TABLE]
      spec [OF r(2), of SUBNET_TABLE] spec [OF r(2), of VFAB_TABLE] spec [OF r(2), of PORT_TABLE]
    by (simp add: tabs_def get_Some table_of_def)
  with run show ?thesis by (simp add: initialize_eq)
qed

text \<open>The component mask of a query has the bit of every field that is set.\<close>

lemma or_fold_bit:
  "m AND b \<noteq> 0 \<or> (\<exists>(c, x) \<in> set xs. c \<and> x AND b \<noteq> 0) \<Longrightarrow>
     foldl (\<lambda>m (c, x). if c then m OR x else m) (m :: u64) xs AND b \<noteq> 0"
proof (induction xs arbitrary: m)
  case (Cons y xs)
  have or: "(m OR x) AND b \<noteq> 0" if "m AND b \<noteq> 0 \<or> x AND b \<noteq> 0" for x
    using that by (simp add: bit.conj_disj_distrib2 or_eq_0_iff)
  obtain c x where y: "y = (c, x)" by fastforce
  have "foldl (\<lambda>m (c, x). if c then m OR x else m) (if c then m OR x else m) xs AND b \<noteq> 0"
    by (rule Cons.IH) (use Cons.prems y or [of x] in auto)
  then show ?case by (simp add: y)
qed simp

lemma mask_dgid:
  assumes "DGID q \<noteq> zero_gid"
  shows "gid_query (build_comp_mask q)"
proof -
  have "InterfaceID (DGID q) OR SubnetPrefix (DGID q) \<noteq> 0"
    using assms by (cases "DGID q") (auto simp: zero_gid_def or_eq_0_iff)
  then show ?thesis unfolding gid_query_def build_comp_mask_def
    by (intro or_fold_bit disjI2 bexI [of _ "(True, COMP_DGID)"]) simp_all
qed


section \<open>A small database\<close>

definition demo_shm :: shm where
  "demo_shm = \<lparr>objects = Map.empty, names = Map.empty, fds = [], next_addr = 1, calls = 0, outcome = (\<lambda>_. 0)\<rparr>"

definition demo_sizes :: sizes where
  "demo_sizes = \<lparr>subnets_max = 2, sids_max = 3, ports_max = 2, vfabs_max = 3, paths_max = 4\<rparr>"

definition demo_path :: IB_PATH_RECORD_NO where
  "demo_path = zero_path\<lparr>SGID := \<lparr>SubnetPrefix = 5, InterfaceID = 9\<rparr>,
     DGID := \<lparr>SubnetPrefix = 5, InterfaceID = 7\<rparr>, SLID := 0x0100, DLID := 0x0200, P_Key := 0xff7f\<rparr>"

definition demo_port :: op_ppath_port_record_t where
  "demo_port = zero_port\<lparr>hfi_name := ''hfi1_0'', port := 1, port_prefix := 5, source_guid := 9,
     base_lid := 1, pkeys := 0xff7f # replicate 31 0\<rparr>"

definition demo_ops :: "ppath_op list" where
  "demo_ops = [AddSubnet 5, AddVfab ''Default'' 5 0xffff 0, AddSid 5 0 0 ''Default'', AddPort demo_port, AddPath demo_path]"

definition demo_query :: IB_PATH_RECORD_NO where
  "demo_query = zero_path\<lparr>SLID := 0x0100, DLID := 0x0200, ServiceID := 3\<rparr>"

definition demo_db :: pdb where
  "demo_db = \<lparr>db_subnets = [5], db_sids = [(1, 0, 0, 1)], db_vfabs = [(''Default'', 5, 0xffff, 0)],
     db_ports = [demo_port\<lparr>subnet_id := 1\<rparr>], db_paths = [(1, demo_path)]\<rparr>"

lemma path_run: "run_abs (ppath_spec (sized_writer demo_sizes)) demo_ops empty_pdb = ([0, 0, 0, 0, 0], demo_db)"
  by (simp add: demo_ops_def sized_writer_def demo_sizes_def empty_pdb_def demo_db_def zero_writer_def
      sid_pick_def sid_chain_def sid_hit_def ntoh64_def demo_path_def demo_port_def zero_port_def zero_path_def)

lemma demo_size_fields:
  "subnets_max demo_sizes = 2" "sids_max demo_sizes = 3" "ports_max demo_sizes = 2"
  "vfabs_max demo_sizes = 3" "paths_max demo_sizes = 4"
  by (simp_all add: demo_sizes_def)

lemma demo_service [simp]: "ServiceID demo_query = 3"
  by (simp add: demo_query_def)

lemma demo_answer: "query_db 0x30 ''hfi1_0'' demo_query demo_db = Inr demo_path"
  by (simp add: query_db_def demo_db_def port_hit_def demo_query_def demo_port_def zero_port_def
      zero_path_def query_vfab_def sid_choice_def sid_pick_def sid_chain_def sid_hit_def ntoh64_def
      vfab_paths_def path_matches_def gid_query_def demo_path_def ntohs_def)

lemma path_wf: "wf_shm demo_shm" "outcome demo_shm n = 0"
  by (simp_all add: wf_shm_def demo_shm_def)

lemma demo_limits:
  "unat (subnets_max demo_sizes) < 2 ^ 16"
  "below_4gb SUBNET_TABLE (subnets_max demo_sizes) (sids_max demo_sizes)"
  "below_4gb PORT_TABLE (ports_max demo_sizes) 0" "below_4gb VFAB_TABLE (vfabs_max demo_sizes) 0"
  "below_4gb PATH_TABLE (paths_max demo_sizes) 0"
  "\<forall>p \<in> set (db_ports demo_db). unat (lmc p) < 8"
  by (simp_all add: below_4gb_def demo_sizes_def demo_db_def demo_port_def zero_port_def)


section \<open>Properties\<close>

text \<open>C4: A whole session gives the reference answer.  From any well-formed shared memory on which
  system calls succeed, a writer that creates its tables, adds any list of records and publishes,
  followed by a reader that connects and queries, returns status 0 from every call that creates,
  for each record the status of \<open>ppath_spec\<close> (full tables and unknown subnets or fabrics
  included), and for the query the path that a linear search of the added records finds, or the
  error it gives.  In particular no step reads outside what is mapped of a table and every walk
  ends.  The tables asked for are below 4 GB, so that their sizes fit the 32-bit header fields.\<close>

theorem ppath_session_answers:
  fixes z ops
  defines "res \<equiv> run_abs (ppath_spec (sized_writer z)) ops empty_pdb"
  assumes "wf_shm s" "\<And>n. outcome s n = 0" "\<And>n s. same_db s (yield n s)"
    "unat (subnets_max z) < 2 ^ 16" "below_4gb SUBNET_TABLE (subnets_max z) (sids_max z)"
    "below_4gb PORT_TABLE (ports_max z) 0" "below_4gb VFAB_TABLE (vfabs_max z) 0" "below_4gb PATH_TABLE (paths_max z) 0"
    "\<forall>p \<in> set (db_ports (snd res)). unat (lmc p) < 8"
    "gid_query cm \<or> cm AND (COMP_SLID OR COMP_DLID) \<noteq> 0"
  shows "ppath_session z ops yield cm hfi q s = Some ([0, 0, 0, 0, 0, 0], fst res,
    fst (answer q (query_db cm hfi q (snd res))), Some (snd (answer q (query_db cm hfi q (snd res)))))"
  unfolding res_def by (rule session_ok [OF assms(2-9) assms(10) [unfolded res_def] assms(11)])

theorem ppath_session_answers_witness:
  "ppath_session demo_sizes demo_ops (\<lambda>_ s. s) 0x30 ''hfi1_0'' demo_query demo_shm =
     Some ([0, 0, 0, 0, 0, 0], [0, 0, 0, 0, 0], 0, Some (demo_path\<lparr>ServiceID := 3\<rparr>))"
  using ppath_session_answers [of demo_shm "\<lambda>_ s. s" demo_sizes demo_ops "0x30" "''hfi1_0''" demo_query]
    path_wf demo_limits
  by (simp add: path_run demo_answer gid_query_def)

text \<open>C5: Adding records to the unpublished tables refines appending to lists: any sequence of
  additions returns the statuses of \<open>ppath_spec\<close> and leaves tables whose contents, service id
  chains and both hash indexes represent exactly the resulting lists.\<close>

theorem ppath_refines_lists:
  assumes "holds w s d"
  shows "\<exists>s'. run_ops (ppath_step w) ops s = Inr (fst (run_abs (ppath_spec w) ops d), s') \<and>
    holds w s' (snd (run_abs (ppath_spec w) ops d))"
  by (rule ppath.run_simulates [OF assms])

lemma demo_writer:
  "\<exists>w s u t. writer_state w s u t UNIV \<and> holds w s empty_pdb \<and> ppath_spec w = ppath_spec (sized_writer demo_sizes)"
proof -
  obtain w0 s0 u t where "writer_state w0 s0 u t {}"
    using create_writer_ok [of demo_shm] path_wf by blast
  from open_all_tables_ok [OF this demo_limits(1-5)] obtain w s u1 where
    w: "writer_state w s u1 t UNIV" "holds w s empty_pdb" "max_subnets w = subnets_max demo_sizes"
      "max_sids w = sids_max demo_sizes" "max_ports w = ports_max demo_sizes"
      "max_vfabs w = vfabs_max demo_sizes" "max_paths w = paths_max demo_sizes" by blast
  have "ppath_spec w = ppath_spec (sized_writer demo_sizes)"
    by (rule spec_sizes) (simp_all add: sized_writer_def w)
  with w show ?thesis by blast
qed

theorem ppath_refines_lists_witness:
  "\<exists>w s s'. run_ops (ppath_step w) demo_ops s = Inr ([0, 0, 0, 0, 0], s') \<and> holds w s' demo_db"
proof -
  obtain w s where "holds w s empty_pdb" "ppath_spec w = ppath_spec (sized_writer demo_sizes)"
    using demo_writer by blast
  with ppath_refines_lists [OF this(1), of demo_ops] show ?thesis by (auto simp: path_run)
qed

text \<open>C6: Looking a path up through the hash chains is equivalent to searching the lists, and always
  returns, also when any of the reader's four tables are out of date: each pass of the retry loop
  reloads one of them, and the passes that \<^verbatim>\<open>MAX_RETRIES\<close> allows are enough for all four.  Other
  processes may run at every yield, as long as they leave the published tables alone; these are
  below 4 GB (\<open>serving\<close>), so that a reader maps the whole of them.\<close>

theorem ppath_find_path_equals_search:
  assumes "\<And>n s. same_db s (yield n s)" "\<forall>p \<in> set (db_ports d). unat (lmc p) < 8"
    "serving s a t A d" "synced r a t A" "gid_query cm \<or> cm AND (COMP_SLID OR COMP_DLID) \<noteq> 0"
  shows "\<exists>r' s'. op_ppath_find_path yield r hfi cm (Some q) (Some res) s =
      Some (fst (answer q (query_db cm hfi q d)), Some (snd (answer q (query_db cm hfi q d))), r', s') \<and>
    same_db s s'"
  by (rule find_path_answer [OF assms])

lemma demo_published:
  "\<exists>w s u t. writer_state w s u t {} \<and> holds w s demo_db \<and>
     serving s (shared_table (published w)) t (\<lambda>k. table_of k (unpublished w)) demo_db \<and>
     (\<forall>k. update_count k t \<noteq> 0) \<and> names s SHM_TABLE_NAME = Some (shared_table (published w))"
proof -
  obtain w s u t where w: "writer_state w s u t UNIV" "holds w s empty_pdb"
    "ppath_spec w = ppath_spec (sized_writer demo_sizes)" using demo_writer by blast
  from ppath.run_simulates [OF w(2), of demo_ops] obtain s1 where
    r: "run_ops (ppath_step w) demo_ops s = Inr ([0, 0, 0, 0, 0], s1)" "holds w s1 demo_db"
    by (auto simp: w(3) path_run)
  note w1 = writer_state_fills [OF w(1) run_fills [OF r(1)]]
  from publish_ok [OF w1 r(2)] obtain w2 s2 t2 where
    p: "shared_table (published w2) = shared_table (published w)"
      "names s2 SHM_TABLE_NAME = Some (shared_table (published w))"
      "\<And>k. update_count k t2 = update_count k u"
      "serving s2 (shared_table (published w)) t2 (\<lambda>k. table_of k (unpublished w)) demo_db"
      "writer_state w2 s2 u t2 {}" "holds w2 s2 demo_db" "unpublished w2 = unpublished w"
    by blast
  have "update_count k t2 \<noteq> 0" for k using writer_stateD(9) [OF w1, of k] p(3) by simp
  then show ?thesis using p by (intro exI [of _ w2] exI [of _ s2] exI [of _ u] exI [of _ t2]) simp
qed

theorem ppath_find_path_equals_search_witness:
  "\<exists>s a t A r. serving s a t A demo_db \<and> (\<forall>k. stale k r t) \<and>
     (\<exists>r' s'. op_ppath_find_path (\<lambda>_ s. s) r ''hfi1_0'' 0x30 (Some demo_query) (Some zero_path) s =
        Some (0, Some (demo_path\<lparr>ServiceID := 3\<rparr>), r', s'))"
proof -
  obtain w s u t where p: "serving s (shared_table (published w)) t (\<lambda>k. table_of k (unpublished w)) demo_db"
    "writer_state w s u t {}" "\<forall>k. update_count k t \<noteq> 0" using demo_published by blast
  let ?r = "zero_reader\<lparr>shared_table := shared_table (published w)\<rparr>"
  have st: "stale k ?r t" for k
    using spec [OF p(3), of k] by (cases k) (auto simp: stale_def update_count_def zero_reader_def)
  then have "synced ?r (shared_table (published w)) t (\<lambda>k. table_of k (unpublished w))"
    by (simp add: synced_def)
  from ppath_find_path_equals_search [of "\<lambda>_ s. s", OF _ demo_limits(6) p(1) this,
      of "0x30" "''hfi1_0''" demo_query zero_path]
  have "\<exists>r' s'. op_ppath_find_path (\<lambda>_ s. s) ?r ''hfi1_0'' 0x30 (Some demo_query) (Some zero_path) s =
        Some (0, Some (demo_path\<lparr>ServiceID := 3\<rparr>), r', s')"
    by (auto simp: demo_answer gid_query_def)
  with p(1) st show ?thesis by blast
qed

text \<open>C20: A new publication reaches the readers: when the writer opens new tables, fills them and
  publishes, a reader that was up to date with the previous publication finds all its tables
  stale, and its next query is answered from the new records, for tables below 4 GB.\<close>

theorem ppath_republication_seen:
  fixes z ops
  defines "res \<equiv> run_abs (ppath_spec (sized_writer z)) ops empty_pdb"
  assumes "writer_state w s u t {}" "synced r (shared_table (published w)) t A" "\<And>k. \<not> stale k r t"
    "\<And>n s. same_db s (yield n s)"
    "unat (subnets_max z) < 2 ^ 16" "below_4gb SUBNET_TABLE (subnets_max z) (sids_max z)"
    "below_4gb PORT_TABLE (ports_max z) 0" "below_4gb VFAB_TABLE (vfabs_max z) 0" "below_4gb PATH_TABLE (paths_max z) 0"
    "\<forall>p \<in> set (db_ports (snd res)). unat (lmc p) < 8"
    "gid_query cm \<or> cm AND (COMP_SLID OR COMP_DLID) \<noteq> 0"
  shows "\<exists>w1 s1 s2 w2 s3 r' s4.
    open_all_tables w (subnets_max z) (sids_max z) (ports_max z) (vfabs_max z) (paths_max z) s = Some ([0, 0, 0, 0], w1, s1) \<and>
    run_ops (ppath_step w1) ops s1 = Inr (fst res, s2) \<and> op_ppath_publish w1 s2 = Some (w2, s3) \<and>
    op_ppath_find_path yield r hfi cm (Some q) (Some zero_path) s3 =
      Some (fst (answer q (query_db cm hfi q (snd res))), Some (snd (answer q (query_db cm hfi q (snd res)))), r', s4)"
proof -
  from open_all_tables_ok [OF assms(2,6-10)] obtain w1 s1 u1 where
    o: "open_all_tables w (subnets_max z) (sids_max z) (ports_max z) (vfabs_max z) (paths_max z) s =
        Some ([0, 0, 0, 0], w1, s1)" "writer_state w1 s1 u1 t UNIV" "holds w1 s1 empty_pdb"
      "published w1 = published w" "max_subnets w1 = subnets_max z" "max_sids w1 = sids_max z"
      "max_ports w1 = ports_max z" "max_vfabs w1 = vfabs_max z" "max_paths w1 = paths_max z" by blast
  have sp: "ppath_spec w1 = ppath_spec (sized_writer z)"
    by (rule spec_sizes) (simp_all add: sized_writer_def o)
  from ppath.run_simulates [OF o(3), of ops] obtain s2 where
    f: "run_ops (ppath_step w1) ops s1 = Inr (fst res, s2)" "holds w1 s2 (snd res)"
    unfolding sp res_def by blast
  note w2 = writer_state_fills [OF o(2) run_fills [OF f(1)]]
  from publish_ok [OF w2 f(2)] obtain wp s3 t2 where
    p: "op_ppath_publish w1 s2 = Some (wp, s3)" "\<And>k. update_count k t2 = update_count k u1"
      "serving s3 (shared_table (published w1)) t2 (\<lambda>k. table_of k (unpublished w1)) (snd res)" by blast
  have "stale k r t2" for k
    using assms(4) [of k] writer_stateD(9) [OF w2, of k] p(2) [of k]
    by (cases k) (auto simp: stale_def update_count_def)
  then have "synced r (shared_table (published w1)) t2 (\<lambda>k. table_of k (unpublished w1))"
    using assms(3) o(4) by (simp add: synced_def)
  from find_path_answer [where yield = yield, OF assms(5,11) p(3) this assms(12), of hfi q zero_path]
  obtain r' s4 where "op_ppath_find_path yield r hfi cm (Some q) (Some zero_path) s3 =
      Some (fst (answer q (query_db cm hfi q (snd res))), Some (snd (answer q (query_db cm hfi q (snd res)))), r', s4)"
    by blast
  with o(1) f(1) p(1) show ?thesis by blast
qed

theorem ppath_republication_seen_witness:
  "\<exists>w r s w1 s1 s2 w2 s3 r' s4.
    open_all_tables w 2 3 2 3 4 s = Some ([0, 0, 0, 0], w1, s1) \<and>
    run_ops (ppath_step w1) demo_ops s1 = Inr ([0, 0, 0, 0, 0], s2) \<and> op_ppath_publish w1 s2 = Some (w2, s3) \<and>
    op_ppath_find_path (\<lambda>_ s. s) r ''hfi1_0'' 0x30 (Some demo_query) (Some zero_path) s3 =
      Some (0, Some (demo_path\<lparr>ServiceID := 3\<rparr>), r', s4)"
proof -
  obtain w s u t where p: "writer_state w s u t {}"
    "serving s (shared_table (published w)) t (\<lambda>k. table_of k (unpublished w)) demo_db"
    "names s SHM_TABLE_NAME = Some (shared_table (published w))" using demo_published by blast
  from create_reader_ok [OF p(2,3)] obtain r s' where
    r: "same_db s s'" "synced r (shared_table (published w)) t (\<lambda>k. table_of k (unpublished w))"
      "\<And>k. \<not> stale k r t" by blast
  from ppath_republication_seen [of w s u t r "\<lambda>k. table_of k (unpublished w)" "\<lambda>_ s. s" demo_sizes demo_ops
      "0x30" "''hfi1_0''" demo_query, OF p(1) r(2,3)] demo_limits
  have "\<exists>w1 s1 s2 w2 s3 r' s4.
    open_all_tables w 2 3 2 3 4 s = Some ([0, 0, 0, 0], w1, s1) \<and>
    run_ops (ppath_step w1) demo_ops s1 = Inr ([0, 0, 0, 0, 0], s2) \<and> op_ppath_publish w1 s2 = Some (w2, s3) \<and>
    op_ppath_find_path (\<lambda>_ s. s) r ''hfi1_0'' 0x30 (Some demo_query) (Some zero_path) s3 =
      Some (0, Some (demo_path\<lparr>ServiceID := 3\<rparr>), r', s4)"
    by (simp add: path_run demo_answer demo_size_fields gid_query_def)
  then show ?thesis by blast
qed


text \<open>C21: Connecting a reader leaks no descriptor but 0.  Whether one of the five mappings fails,
  for whatever reason, or the connection succeeds and \<open>op_ppath_close_reader\<close> ends it, the
  descriptors open afterwards are those that were open before, except that when descriptor 0 was
  free and the shared table could be opened, descriptor 0 stays open on it, since the code takes
  it for no descriptor.\<close>

theorem ppath_reader_descriptors:
  assumes "op_ppath_create_reader s = Some (e, r, s')"
  shows "fds (if e \<noteq> 0 then s' else snd (op_ppath_close_reader r s')) =
    (if 0 \<in> fst ` set (fds s) then fds s
     else (case shm_open SHM_TABLE_NAME False s of
         (Inl _, _) \<Rightarrow> fds s
       | (Inr _, _) \<Rightarrow> (0, the (names s SHM_TABLE_NAME)) # fds s))"
proof -
  from assms obtain e0 r0 s0 where c: "connect_shared_table zero_reader s = Some (e0, r0, s0)"
    by (auto simp: op_ppath_create_reader_def bind_eq_Some_conv)
  have "fds (if e \<noteq> 0 then s' else snd (op_ppath_close_reader r s')) = fds_left s"
  proof (cases "e0 = 0")
    case False
    with c assms connect_fds [OF c] show ?thesis by (auto simp: op_ppath_create_reader_def)
  next
    case True
    then have f: "\<forall>k. fd_of k r0 = 0" "0 \<in> fst ` set (fds s0)"
      "filter (\<lambda>p. fst p \<notin> reader_fds r0) (fds s0) = fds_left s" using connect_fds [OF c] by blast+
    have "open_tables [PORT_TABLE, PATH_TABLE, SUBNET_TABLE, VFAB_TABLE] r0 s0 = Some (e, r, s')"
      using assms c True by (simp add: op_ppath_create_reader_def)
    from open_tables_fds [OF this _ _ f(3,2)] f(1) show ?thesis by (simp add: close_reader_fds)
  qed
  then show ?thesis by (simp only: fds_left_def)
qed

text \<open>Shared memory in which the third table cannot be opened.\<close>

definition failing_shm :: "(nat \<times> nat) list \<Rightarrow> shm" where
  "failing_shm fs = demo_shm\<lparr>names := [SHM_TABLE_NAME \<mapsto> 1, [] \<mapsto> 2], objects := [1 \<mapsto> Shared zero_shared,
     2 \<mapsto> Ports \<lparr>port_size = 168, port_count = 0, port_recs = [zero_port]\<rparr>], fds := fs,
     outcome := (\<lambda>_. 0)(8 := 23)\<rparr>"

theorem ppath_reader_descriptors_witness:
  "(\<exists>r s'. op_ppath_create_reader (failing_shm [(0, 9), (4, 2)]) = Some (23, r, s') \<and> fds s' = [(0, 9), (4, 2)]) \<and>
   (\<exists>r s'. op_ppath_create_reader (failing_shm [(4, 2)]) = Some (23, r, s') \<and> fds s' = [(0, 1), (4, 2)])"
proof (intro conjI)
  note run = op_ppath_create_reader_def connect_shared_table_def open_shared_table_def failing_shm_def
    demo_shm_def shm_open_def syscall_def open_fd_def mmap_def open_ppath_table_def map_old_table_def
    header_sizes_def get_shared_def zero_reader_def attach_table_def table_name_def zero_shared_def
    SHM_TABLE_NAME_def new_fd_def Let_def split_def
  have "\<exists>r s'. op_ppath_create_reader (failing_shm [(0, 9), (4, 2)]) = Some (23, r, s')"
    by (simp add: run upt_conv_Cons)
  then show "\<exists>r s'. op_ppath_create_reader (failing_shm [(0, 9), (4, 2)]) = Some (23, r, s') \<and>
      fds s' = [(0, 9), (4, 2)]"
    using ppath_reader_descriptors [of "failing_shm [(0, 9), (4, 2)]" 23]
    by (fastforce simp: failing_shm_def)
  have "\<exists>r s'. op_ppath_create_reader (failing_shm [(4, 2)]) = Some (23, r, s')"
    by (simp add: run upt_conv_Cons)
  moreover have "shm_open SHM_TABLE_NAME False (failing_shm [(4, 2)]) =
      (Inr 0, (failing_shm [(4, 2)])\<lparr>calls := 1, fds := [(0, 1), (4, 2)]\<rparr>)"
    by (simp add: run upt_conv_Cons)
  moreover have "names (failing_shm fs) SHM_TABLE_NAME = Some 1" "fds (failing_shm fs) = fs" for fs
    by (simp_all add: failing_shm_def SHM_TABLE_NAME_def)
  ultimately show "\<exists>r s'. op_ppath_create_reader (failing_shm [(4, 2)]) = Some (23, r, s') \<and>
      fds s' = [(0, 1), (4, 2)]"
    using ppath_reader_descriptors [of "failing_shm [(4, 2)]" 23] by fastforce
qed

text \<open>C22: Replacing only the path table breaks the hash chains.  When a published database holds one
  path, the writer opens a new path table (the virtual fabrics keep their chain heads) and adds
  the path again, the head of its chain is the new record and the new record links to itself: the
  search for another path with the same hash value never ends (it does not run out of the table,
  which would be the value \<open>Outside\<close>).\<close>

theorem ppath_new_path_table_loops:
  assumes "writer_state w s u t {}" "serving s a t (\<lambda>k. table_of k (unpublished w)) d" "holds w s d"
    "position (\<lambda>y. y = SubnetPrefix (SGID x)) (db_subnets d) = Some i"
    "sid_pick (ntoh64 (ServiceID x)) (sid_chain d i) = Some v" "db_paths d = [(v, x)]" "0 < n" "n < - 1"
    "\<not> gid_query cm" "lid_hash (DLID q) = lid_hash (DLID x)" "\<not> path_matches cm q x"
  shows "\<exists>w' s1 s2 vt qt. op_ppath_initialize_paths w n s = Some (0, w', s1) \<and>
    op_ppath_add_path w' x s1 = Some (0, s2) \<and>
    get_vfabs s2 (vfab_table (unpublished w')) = Some vt \<and> get_paths s2 (path_table (unpublished w')) = Some qt \<and>
    path_count qt = 1 \<and> path_rec (path_recs qt ! 1) = x \<and> 1 < length (path_recs qt) \<and>
    first_dlid (vfab_recs vt ! v) (lid_hash (DLID q)) = 1 \<and> next_lid (path_recs qt ! 1) = 1 \<and>
    find_on_chain cm q (vfab_recs vt ! v) (path_recs qt) = None"
proof -
  obtain st vt pt qt where t: "tabs (unpublished w) s st vt pt qt" and r: "rep d st vt pt qt"
    using assms(3) by (rule holdsE)
  note R = repD [OF r]
  from reinit_paths [OF assms(1,2) t assms(8)] obtain w' s1 where
    init: "op_ppath_initialize_paths w n s = Some (0, w', s1)" "max_paths w' = n"
    and t1: "tabs (unpublished w') s1 st vt pt \<lparr>path_size = of_nat (table_bytes PATH_TABLE n), path_count = 0,
        path_recs = replicate (Suc (unat n)) zero_record\<rparr>"
    by blast
  note T = tabs_get [OF t1]
  have i: "0 < i" "i \<le> length (db_subnets d)" using position_bounds [OF assms(4)] by blast+
  then have il: "i < length (subnet_recs st)" using R(1) by (simp add: rep_subnets_def)
  have sn: "unat (subnet_count st) = length (db_subnets d)" using R(1) by (simp add: rep_subnets_def)
  from add_sid_walk_pick [OF R(1,2) i(2), of "ntoh64 (ServiceID x)"] assms(5) obtain m where
    m: "m \<noteq> 0" "add_sid_walk (ntoh64 (ServiceID x)) (sid_recs st) (first_sid (subnet_recs st ! i)) = Some m"
      "unat m < length (sid_recs st)" "unat (vfab_id (sid_recs st ! unat m)) = v" "v \<noteq> 0" "v \<le> length (db_vfabs d)"
    by auto
  have vl: "v < length (vfab_recs vt)" using m(6) R(3) by (simp add: rep_vfabs_def)
  let ?lh = "lid_hash (DLID x)" and ?gh = "gid_hash (DGID x)"
  have "lids.indexed (path_recs qt) (vfab_recs vt) (path_own d) (path_key (\<lambda>p. lid_hash (DLID p)) d) 1"
    using R(5) assms(6) by (simp add: rep_paths_key)
  from lids.indexed_chain [OF this vl, of ?lh]
  have "linked next_lid (path_recs qt) (first_dlid (vfab_recs vt ! v) ?lh) [1]"
    using assms(6) by (simp add: slots_Suc path_own_def path_key_def)
  then have head: "first_dlid (vfab_recs vt ! v) ?lh = 1" by (simp add: word_unat_eq_iff)
  let ?rec = "zero_record\<lparr>path_rec := x, flags := 1, next_lid := 1, next_guid := first_dguid (vfab_recs vt ! v) ?gh\<rparr>"
  let ?v = "(vfab_recs vt ! v)\<lparr>first_dlid := (first_dlid (vfab_recs vt ! v))(?lh := 1),
      first_dguid := (first_dguid (vfab_recs vt ! v))(?gh := 1)\<rparr>"
  let ?vt = "vt\<lparr>vfab_recs := (vfab_recs vt)[v := ?v]\<rparr>"
    and ?qt = "\<lparr>path_size = of_nat (table_bytes PATH_TABLE n), path_count = 1, path_recs = (replicate (Suc (unat n)) zero_record)[1 := ?rec]\<rparr>"
  let ?s2 = "put (vfab_table (unpublished w')) (Vfabs ?vt) (put (path_table (unpublished w')) (Paths ?qt) s1)"
  have n: "0 < unat n" using assms(7) by (simp add: word_less_nat_alt)
  have add: "op_ppath_add_path w' x s1 = Some (0, ?s2)"
    using T scan_subnet [OF R(1), of "SubnetPrefix (SGID x)"] assms(4,7) i il sn m vl n init(2) head
    by (simp add: op_ppath_add_path_def Let_def)
  have gets: "get_vfabs ?s2 (vfab_table (unpublished w')) = Some ?vt"
    "get_paths ?s2 (path_table (unpublished w')) = Some ?qt"
    using tabs_get(3,5) [OF tabs_put(2) [OF tabs_put(4) [OF t1]]] by blast+
  have rec: "path_recs ?qt ! 1 = ?rec" "1 < length (path_recs ?qt)" using n by simp_all
  have chain: "first_dlid (vfab_recs ?vt ! v) (lid_hash (DLID q)) = 1" using assms(10) vl by simp
  have "path_walk (\<lambda>r. path_matches cm q (path_rec r)) next_lid (path_recs ?qt) 1 = None"
    by (rule path_walk_loops) (use n assms(11) in simp_all)
  then have "find_on_chain cm q (vfab_recs ?vt ! v) (path_recs ?qt) = None"
    using assms(9,10) vl by (simp add: find_on_chain_def)
  with init(1) add gets rec chain show ?thesis
    by (intro exI [of _ w'] exI [of _ s1] exI [of _ ?s2] exI [of _ ?vt] exI [of _ ?qt]) simp
qed

theorem ppath_new_path_table_loops_witness:
  "\<exists>w s w' s1 s2 vt qt. holds w s demo_db \<and> op_ppath_initialize_paths w 4 s = Some (0, w', s1) \<and>
    op_ppath_add_path w' demo_path s1 = Some (0, s2) \<and>
    get_vfabs s2 (vfab_table (unpublished w')) = Some vt \<and> get_paths s2 (path_table (unpublished w')) = Some qt \<and>
    next_lid (path_recs qt ! 1) = 1 \<and>
    find_on_chain 0x30 (zero_path\<lparr>DLID := 0x0210\<rparr>) (vfab_recs vt ! 1) (path_recs qt) = None"
proof -
  obtain w s u t where p: "writer_state w s u t {}" "holds w s demo_db"
    "serving s (shared_table (published w)) t (\<lambda>k. table_of k (unpublished w)) demo_db" using demo_published by blast
  have "position (\<lambda>y. y = SubnetPrefix (SGID demo_path)) (db_subnets demo_db) = Some 1"
    "sid_pick (ntoh64 (ServiceID demo_path)) (sid_chain demo_db 1) = Some 1" "db_paths demo_db = [(1, demo_path)]"
    "\<not> gid_query 0x30" "lid_hash (DLID (zero_path\<lparr>DLID := 0x0210\<rparr>)) = lid_hash (DLID demo_path)"
    "\<not> path_matches 0x30 (zero_path\<lparr>DLID := 0x0210\<rparr>) demo_path"
    by (simp_all add: demo_db_def demo_path_def zero_path_def sid_pick_def sid_chain_def sid_hit_def ntoh64_def
        gid_query_def path_matches_def lid_hash_def ntohs_def)
  from ppath_new_path_table_loops [OF p(1,3,2) this(1-3) _ _ this(4-6), of 4] p(2) show ?thesis by fastforce
qed

text \<open>C23: The library's lookup by destination GID never finds a path.  Its query leaves the source
  GID zero, but a query with a destination GID is compared by both GIDs: unless a path was stored
  with a zero source GID, the status is never 0.\<close>

theorem ppath_to_dgid_never_finds:
  assumes "\<And>n s. same_db s (yield n s)" "\<forall>p \<in> set (db_ports d). unat (lmc p) < 8"
    "serving s a t A d" "synced (reader c) a t A" "dgid \<noteq> zero_gid"
    "\<forall>(v, p) \<in> set (db_paths d). SGID p \<noteq> zero_gid"
  shows "\<exists>e res' c' s'. op_path_get_path_to_dgid yield c key dgid (Some res) s = Some (e, res', c', s') \<and>
    (e = EINVAL \<or> e = ENOENT)"
proof -
  let ?q = "zero_path\<lparr>DGID := dgid, P_Key := key, SLID := ntohs (port_lid c)\<rparr>"
  let ?cm = "build_comp_mask ?q"
  have g: "gid_query ?cm" by (rule mask_dgid) (simp add: assms(5))
  have miss: "find (path_matches ?cm ?q) (vfab_paths d v) = None" for v
    using assms(6) g by (fastforce simp: find_None_iff vfab_paths_def path_matches_def zero_path_def)
  have "query_db ?cm (device_name c) ?q d = Inl EINVAL \<or> query_db ?cm (device_name c) ?q d = Inl ENOENT"
    by (auto simp: query_db_def miss split: option.splits)
  moreover from find_path_answer [where yield = yield, OF assms(1-4), of ?cm "device_name c" ?q res] g
  obtain r' s' where "op_ppath_find_path yield (reader c) (device_name c) ?cm (Some ?q) (Some res) s =
      Some (fst (answer ?q (query_db ?cm (device_name c) ?q d)),
        Some (snd (answer ?q (query_db ?cm (device_name c) ?q d))), r', s')" by blast
  ultimately show ?thesis
    by (auto simp: op_path_get_path_to_dgid_def op_path_get_path_by_rec_def)
qed

theorem ppath_to_dgid_never_finds_witness:
  "\<exists>s c e res c' s'. op_path_get_path_to_dgid (\<lambda>_ s. s) c 0 (DGID demo_path) (Some zero_path) s =
     Some (e, res, c', s') \<and> (e = EINVAL \<or> e = ENOENT)"
proof -
  obtain w s u t where p: "writer_state w s u t {}"
    "serving s (shared_table (published w)) t (\<lambda>k. table_of k (unpublished w)) demo_db"
    "names s SHM_TABLE_NAME = Some (shared_table (published w))" using demo_published by blast
  from create_reader_ok [OF p(2,3)] obtain r s' where
    r: "same_db s s'" "synced r (shared_table (published w)) t (\<lambda>k. table_of k (unpublished w))" by blast
  let ?c = "\<lparr>reader = r, device_name = ''hfi1_0'', port_lid = 1, pkey_table = []\<rparr>"
  have c: "synced (reader ?c) (shared_table (published w)) t (\<lambda>k. table_of k (unpublished w))" using r(2) by simp
  have "DGID demo_path \<noteq> zero_gid" "\<forall>(v, p) \<in> set (db_paths demo_db). SGID p \<noteq> zero_gid"
    by (simp_all add: demo_path_def zero_gid_def demo_db_def zero_path_def)
  from ppath_to_dgid_never_finds [of "\<lambda>_ s. s", OF _ demo_limits(6) serving_same [OF p(2) r(1)] c this]
  show ?thesis by fastforce
qed

text \<open>The sizes in the header are 32 bits wide, which the limits of C4, C6 and C20 account for.  A
  virtual fabric table for 130880 fabrics takes 4294990912 bytes, its header says 23616, and a
  reader that opens it maps so little that it can read none of the fabrics the writer stored.\<close>

lemma vfab_records: "unat (130880 + 1 :: u32) = 130881"
  by simp

theorem vfab_table_narrowed:
  assumes "a \<noteq> 0" and "objects s a = Some (clear_table VFAB_TABLE 130880 0)"
  shows "table_bytes VFAB_TABLE 130880 = 4294990912 \<and>
    (\<exists>vt. get_vfabs s a = Some vt \<and> length (vfab_recs vt) = 130881 \<and> vfab_size vt = 23616) \<and>
    (\<exists>vt. see_vfabs s a = Some vt \<and> vfab_recs vt = [])"
proof -
  have b: "table_bytes VFAB_TABLE 130880 = 4294990912"
    unfolding table_bytes_def vfab_records by simp
  have "(of_nat (4294990912 :: nat) :: u32) = 23616" by simp
  then have c: "clear_table VFAB_TABLE 130880 0 =
      Vfabs \<lparr>vfab_size = 23616, vfab_count = 0, vfab_recs = replicate 130881 zero_vfab\<rparr>"
    unfolding clear_table_def vfab_records table_kind.case b by (simp only:)
  then have g: "get_vfabs s a =
      Some \<lparr>vfab_size = 23616, vfab_count = 0, vfab_recs = replicate 130881 zero_vfab\<rparr>"
    using assms by (simp only: get_Some) blast
  have "(23616 - 16) div 32816 = (0 :: nat)" by simp
  then show ?thesis unfolding see_vfabs_def g b by simp
qed

end
