(* ===== verification/KeyMap.thy ===== *)
theory KeyMap
  imports Prelude
begin

text \<open>
  Quick maps as their users see them: association lists in the order of the keys.  The pointer
  structure behind them is the subject of the \<open>QuickMap\<close> theories, which show that the operations
  of \<^verbatim>\<open>cl_qmap_t\<close> act as on such a list: insertion keeps an existing item, traversal follows the
  keys.  The laws are those of finite maps.
\<close>

type_synonym ('k, 'v) key_map = "('k \<times> 'v) list"

definition qm_get :: "('k, 'v) key_map \<Rightarrow> 'k \<Rightarrow> 'v option" where
  "qm_get m k = map_of m k"

fun qm_insert :: "'k :: linorder \<Rightarrow> 'v \<Rightarrow> ('k, 'v) key_map \<Rightarrow> ('k, 'v) key_map" where
  "qm_insert k v [] = [(k, v)]"
| "qm_insert k v ((l, u) # m) =
    (if k < l then (k, v) # (l, u) # m
     else if k = l then (l, u) # m
     else (l, u) # qm_insert k v m)"

definition qm_remove :: "'k \<Rightarrow> ('k, 'v) key_map \<Rightarrow> ('k, 'v) key_map" where
  "qm_remove k m = filter (\<lambda>(l, _). l \<noteq> k) m"

text \<open>The contents of an item changed in place.\<close>

definition qm_put :: "'k \<Rightarrow> 'v \<Rightarrow> ('k, 'v) key_map \<Rightarrow> ('k, 'v) key_map" where
  "qm_put k v m = map (\<lambda>(l, u). (l, if l = k then v else u)) m"

definition qm_wf :: "('k :: linorder, 'v) key_map \<Rightarrow> bool" where
  "qm_wf m \<longleftrightarrow> sorted_wrt (<) (map fst m)"

section \<open>Laws\<close>

lemma qm_wf_Nil [simp]: "qm_wf []"
  by (simp add: qm_wf_def)

lemma qm_wf_Cons:
  "qm_wf ((l, u) # m) \<longleftrightarrow> qm_wf m \<and> (\<forall>k \<in> fst ` set m. l < k)"
  by (auto simp: qm_wf_def)

lemma qm_get_Nil [simp]: "qm_get [] k = None"
  by (simp add: qm_get_def)

lemma qm_keys: "fst ` set m = dom (qm_get m)"
  unfolding qm_get_def using dom_map_of_conv_image_fst [of m] by (simp add: eta_contract_eq)

lemma qm_insert_keys: "fst ` set (qm_insert k v m) = insert k (fst ` set m)"
  by (induction k v m rule: qm_insert.induct) (simp_all add: insert_commute)

lemma qm_get_insert:
  "qm_wf m \<Longrightarrow> qm_get (qm_insert k v m) j = (if j = k \<and> qm_get m k = None then Some v else qm_get m j)"
proof (induction m)
  case (Cons a m)
  obtain l u where a: "a = (l, u)" by (cases a)
  have "k \<notin> fst ` set m" if "k < l" using Cons.prems that a by (auto simp: qm_wf_Cons)
  then have "map_of m k = None" if "k < l" using that by (simp add: map_of_eq_None_iff)
  with Cons a show ?case by (auto simp: qm_get_def qm_wf_Cons)
qed (simp add: qm_get_def)

lemma qm_wf_insert: "qm_wf m \<Longrightarrow> qm_wf (qm_insert k v m)"
proof (induction m)
  case (Cons a m)
  obtain l u where a: "a = (l, u)" by (cases a)
  with Cons show ?case by (auto simp: qm_wf_Cons qm_insert_keys)
qed (simp add: qm_wf_def)

lemma qm_get_remove: "qm_get (qm_remove k m) j = (if j = k then None else qm_get m j)"
  by (induction m) (auto simp: qm_get_def qm_remove_def)

lemma qm_wf_remove: "qm_wf m \<Longrightarrow> qm_wf (qm_remove k m)"
proof (induction m)
  case (Cons a m)
  then show ?case by (cases a) (auto simp: qm_wf_Cons qm_remove_def)
qed (simp add: qm_remove_def)

lemma qm_get_put: "qm_get (qm_put k v m) j = (if j = k \<and> qm_get m k \<noteq> None then Some v else qm_get m j)"
  by (induction m) (auto simp: qm_get_def qm_put_def)

lemma qm_wf_put: "qm_wf m \<Longrightarrow> qm_wf (qm_put k v m)"
  by (simp add: qm_wf_def qm_put_def comp_def split_def)

lemma qm_dom_finite [simp]: "finite (dom (qm_get m))"
  unfolding qm_get_def by (simp add: finite_dom_map_of)

lemma qm_length: "qm_wf m \<Longrightarrow> length m = card (dom (qm_get m))"
proof -
  assume "qm_wf m"
  then have "distinct (map fst m)" by (induction m) (auto simp: qm_wf_def)
  then have "card (set (map fst m)) = length m" using distinct_card by fastforce
  then show ?thesis by (simp add: qm_keys)
qed

end
