(* ===== verification/CreditGraph.thy ===== *)
theory CreditGraph
  imports KeyMap
begin

text \<open>
  The dependency graph of the credit loop analysis: the functions \<^verbatim>\<open>CLGraphData*\<close> of
  Topology/fabricdata.c over Topology/topology.h.

  A vertex is a connection (a direction of a link on one service channel), an arc says that some
  route goes from one connection straight to the next.  The graph holds an array of pointers to
  vertices, whose index is the vertex' \<open>Id\<close>; a vertex is never moved or replaced, so a pointer to it
  is its index.  Arcs are found by their number and by their two ends.  An access outside an
  array or through a NULL pointer is \<open>BadPointer\<close>; \<open>Exits\<close> is the call of \<^verbatim>\<open>exit\<close> on an arc that is
  not there.

  The allocations succeed or fail as a function \<open>mem\<close> of their number says, \<open>allocs\<close> counts them.
  Output is not modelled.
\<close>

section \<open>State\<close>

datatype FSTATUS =
    FSUCCESS
  | FERROR
  | FINSUFFICIENT_MEMORY
  | FINVALID_PARAMETER
  | FNOT_FOUND
  | FNOT_DONE
  | FUNAVAILABLE
  | FDUPLICATE

datatype cl_error = BadPointer | Exits

type_synonym conn = u64

text \<open>The arcs at one side of a vertex: the fields \<^verbatim>\<open>OutboundCount\<close>, \<^verbatim>\<open>OutboundInuseCount\<close>,
  \<^verbatim>\<open>OutboundLength\<close> (the length of the array) and \<^verbatim>\<open>Outbound\<close>, or those of \<^verbatim>\<open>Inbound\<close>.\<close>

record clArcList_t =
  al_count :: u32
  al_inuse :: u32
  al_cells :: "int list option"

record clVertixData_t =
  Connection :: conn
  v_Id :: u32
  RefCount :: u32
  Outbound :: clArcList_t
  Inbound :: clArcList_t

record clArcData_t =
  a_Id :: u32
  Source :: u32
  Sink :: u32

record clGraphData_t =
  NumVertices :: u32
  NumActiveVertices :: u32
  Vertices :: "clVertixData_t option list option"
  NumArcs :: u32
  Arcs :: "(u64, clArcData_t) key_map"
  map_arc_key_to_arc :: "(u64, clArcData_t) key_map"
  map_conn_to_vertex_conn :: "(conn, u32) key_map"

definition zero_arc_list :: clArcList_t where
  "zero_arc_list = \<lparr>al_count = 0, al_inuse = 0, al_cells = None\<rparr>"

definition zero_graph :: clGraphData_t where
  "zero_graph = \<lparr>NumVertices = 0, NumActiveVertices = 0, Vertices = None, NumArcs = 0, Arcs = [],
     map_arc_key_to_arc = [], map_conn_to_vertex_conn = []\<rparr>"

text \<open>The union \<open>u1\<close> of an arc, with the layout of a little-endian machine.\<close>

definition arc_key :: "u32 \<Rightarrow> u32 \<Rightarrow> u64" where
  "arc_key source sink = ucast source + ucast sink * 2 ^ 32"

section \<open>Access to vertices\<close>

definition cells :: "'a list option \<Rightarrow> 'a list" where
  "cells a = (case a of None \<Rightarrow> [] | Some xs \<Rightarrow> xs)"

definition vertex_at :: "clGraphData_t \<Rightarrow> u32 \<Rightarrow> cl_error + clVertixData_t" where
  "vertex_at G i =
    (let vs = cells (Vertices G) in
     if unat i < length vs then (case vs ! unat i of None \<Rightarrow> Inl BadPointer | Some v \<Rightarrow> Inr v)
     else Inl BadPointer)"

definition set_vertex :: "u32 \<Rightarrow> clVertixData_t \<Rightarrow> clGraphData_t \<Rightarrow> clGraphData_t" where
  "set_vertex i v G = G\<lparr>Vertices := map_option (\<lambda>vs. vs[unat i := Some v]) (Vertices G)\<rparr>"

text \<open>The two sides of a vertex.\<close>

datatype side = Out | In

definition arcs_at :: "side \<Rightarrow> clVertixData_t \<Rightarrow> clArcList_t" where
  "arcs_at d v = (case d of Out \<Rightarrow> Outbound v | In \<Rightarrow> Inbound v)"

definition set_arcs_at :: "side \<Rightarrow> clArcList_t \<Rightarrow> clVertixData_t \<Rightarrow> clVertixData_t" where
  "set_arcs_at d l v = (case d of Out \<Rightarrow> v\<lparr>Outbound := l\<rparr> | In \<Rightarrow> v\<lparr>Inbound := l\<rparr>)"

definition opposite :: "side \<Rightarrow> side" where
  "opposite d = (case d of Out \<Rightarrow> In | In \<Rightarrow> Out)"

text \<open>The vertex an arc is on the given side of.\<close>

definition arc_end :: "side \<Rightarrow> clArcData_t \<Rightarrow> u32" where
  "arc_end d x = (case d of Out \<Rightarrow> Source x | In \<Rightarrow> Sink x)"

section \<open>Building\<close>

text \<open>A NULL array, or one the new index is not in, gets 1000 more cleared entries; their size in
  bytes is taken to fit the 32-bit number the code computes it in.\<close>

definition CLGetDynamicArray ::
  "(nat \<Rightarrow> bool) \<Rightarrow> 'a \<Rightarrow> nat \<Rightarrow> 'a list option \<Rightarrow> nat \<Rightarrow> FSTATUS \<times> 'a list option \<times> nat" where
  "CLGetDynamicArray mem zero newEntryIndice array allocs =
    (if array = None \<or> length (cells array) \<le> newEntryIndice
     then if mem allocs
       then (FSUCCESS, Some (cells array @ replicate 1000 zero), allocs + 1)
       else (FINSUFFICIENT_MEMORY, array, allocs + 1)
     else (FSUCCESS, array, allocs))"

definition CLGraphFindConnVertex :: "clGraphData_t \<Rightarrow> conn \<Rightarrow> u32 option" where
  "CLGraphFindConnVertex G c =
    (if Vertices G \<noteq> None then qm_get (map_conn_to_vertex_conn G) c else None)"

text \<open>The result is the number of the vertex, \<open>- 1\<close> (as a 32-bit number) when there is no memory.  The
  map has no vertex for the connection when one is inserted, so the branch for a duplicate is left
  out.\<close>

definition CLGraphDataAddVertex ::
  "(nat \<Rightarrow> bool) \<Rightarrow> conn \<Rightarrow> clGraphData_t \<Rightarrow> nat \<Rightarrow> u32 \<times> clGraphData_t \<times> nat" where
  "CLGraphDataAddVertex mem c G allocs =
    (case CLGraphFindConnVertex G c of
       Some i \<Rightarrow> (i, G, allocs)
     | None \<Rightarrow>
        if \<not> mem allocs then (- 1, G, allocs + 1)
        else
         let i = NumVertices G;
             v = \<lparr>Connection = c, v_Id = i, RefCount = 0, Outbound = zero_arc_list,
                  Inbound = zero_arc_list\<rparr>;
             conns = (if Vertices G = None then [] else map_conn_to_vertex_conn G);
             (status, vs, allocs') = CLGetDynamicArray mem None (unat i) (Vertices G) (allocs + 1);
             G' = G\<lparr>Vertices := vs, map_conn_to_vertex_conn := conns\<rparr> in
         if status = FSUCCESS
         then
          (i, (set_vertex i v G')\<lparr>map_conn_to_vertex_conn := qm_insert c i conns, NumVertices := i + 1,
              NumActiveVertices := NumActiveVertices G + 1\<rparr>, allocs')
         else (- 1, G', allocs'))"

definition CLGraphFindSrcSinkArc :: "clGraphData_t \<Rightarrow> u32 \<Rightarrow> u32 \<Rightarrow> clArcData_t option" where
  "CLGraphFindSrcSinkArc G source sink =
    (if map_arc_key_to_arc G \<noteq> [] then qm_get (map_arc_key_to_arc G) (arc_key source sink)
     else None)"

definition CLGraphFindIdArc :: "clGraphData_t \<Rightarrow> u32 \<Rightarrow> clArcData_t option" where
  "CLGraphFindIdArc G arcId = qm_get (Arcs G) (ucast arcId)"

section \<open>Removing an arc\<close>

text \<open>The loop over one side of a vertex: every cell with the arc's number is marked free.\<close>

fun drop_arc_loop :: "side \<Rightarrow> int \<Rightarrow> nat \<Rightarrow> nat \<Rightarrow> clVertixData_t \<Rightarrow> cl_error + clVertixData_t" where
  "drop_arc_loop d arcId i 0 v = Inr v"
| "drop_arc_loop d arcId i (Suc n) v =
    (let l = arcs_at d v; cs = cells (al_cells l) in
     if i < length cs
     then drop_arc_loop d arcId (i + 1) n
       (if arcId = cs ! i
        then set_arcs_at d (l\<lparr>al_cells := Some (cs[i := - 1]), al_inuse := al_inuse l - 1\<rparr>)
               (v\<lparr>RefCount := RefCount v - 1\<rparr>)
        else v)
     else Inl BadPointer)"

definition drop_arc_at ::
  "side \<Rightarrow> int \<Rightarrow> u32 \<Rightarrow> clGraphData_t \<Rightarrow> cl_error + clGraphData_t" where
  "drop_arc_at d arcId i G =
    and_then (vertex_at G i) (\<lambda>v.
    and_then (drop_arc_loop d arcId 0 (unat (al_count (arcs_at d v))) v) (\<lambda>v'.
     let G' = set_vertex i v' G in
     Inr (if RefCount v' = 0 then G'\<lparr>NumActiveVertices := NumActiveVertices G' - 1\<rparr> else G')))"

definition CLGraphDataDelArc :: "int \<Rightarrow> clGraphData_t \<Rightarrow> cl_error + clGraphData_t" where
  "CLGraphDataDelArc arcId G =
    (if arcId < 0 then Inr G
     else
      case qm_get (Arcs G) (word_of_int arcId) of None \<Rightarrow> Inl Exits
      | Some arc \<Rightarrow>
         let G1 = G\<lparr>Arcs := qm_remove (word_of_int arcId) (Arcs G)\<rparr>;
             G2 = (case CLGraphFindSrcSinkArc G1 (Source arc) (Sink arc) of None \<Rightarrow> G1
                   | Some _ \<Rightarrow> G1\<lparr>map_arc_key_to_arc :=
                       qm_remove (arc_key (Source arc) (Sink arc)) (map_arc_key_to_arc G1)\<rparr>) in
         and_then (drop_arc_at Out arcId (Source arc) G2) (\<lambda>G3.
         and_then (drop_arc_at In arcId (Sink arc) G3) (\<lambda>G4.
          Inr (G4\<lparr>NumArcs := NumArcs G4 - 1\<rparr>))))"

section \<open>Adding an arc\<close>

text \<open>An arc's number at the end of one side of a vertex.\<close>

definition append_arc ::
  "(nat \<Rightarrow> bool) \<Rightarrow> side \<Rightarrow> u32 \<Rightarrow> u32 \<Rightarrow> clGraphData_t \<Rightarrow> nat \<Rightarrow>
     cl_error + FSTATUS \<times> clGraphData_t \<times> nat" where
  "append_arc mem d arcId i G allocs =
    and_then (vertex_at G i) (\<lambda>v.
     let l = arcs_at d v;
         (status, cs, allocs') = CLGetDynamicArray mem 0 (unat (al_count l)) (al_cells l) allocs in
     if status = FSUCCESS
     then
      if unat (al_count l) < length (cells cs)
      then Inr (FSUCCESS,
        set_vertex i
         (set_arcs_at d
           (l\<lparr>al_cells := Some ((cells cs)[unat (al_count l) := sint arcId]),
              al_count := al_count l + 1, al_inuse := al_inuse l + 1\<rparr>)
           (v\<lparr>RefCount := RefCount v + 1\<rparr>)) G, allocs')
      else Inl BadPointer
     else Inr (status, set_vertex i (set_arcs_at d (l\<lparr>al_cells := cs\<rparr>) v) G, allocs'))"

definition CLGraphDataAddArc ::
  "(nat \<Rightarrow> bool) \<Rightarrow> u32 \<Rightarrow> u32 \<Rightarrow> clGraphData_t \<Rightarrow> nat \<Rightarrow>
     cl_error + int \<times> clGraphData_t \<times> nat" where
  "CLGraphDataAddArc mem source sink G allocs =
    (if source = sink \<or> NumVertices G \<le> source \<or> NumVertices G \<le> sink then Inr (- 1, G, allocs)
     else
      case CLGraphFindSrcSinkArc G source sink of
        Some arc \<Rightarrow> Inr (sint (a_Id arc), G, allocs)
      | None \<Rightarrow>
         if \<not> mem allocs then Inr (- 1, G, allocs + 1)
         else
          let i = of_nat (length (Arcs G));
              arc = \<lparr>a_Id = i, Source = source, Sink = sink\<rparr>;
              G1 = G\<lparr>Arcs := qm_insert (ucast i) arc (Arcs G),
                     map_arc_key_to_arc := qm_insert (arc_key source sink) arc (map_arc_key_to_arc G)\<rparr> in
          and_then (append_arc mem Out i source G1 (allocs + 1)) (\<lambda>(status, G2, allocs2).
          and_then
           (if status = FSUCCESS then append_arc mem In i sink G2 allocs2
            else Inr (status, G2, allocs2)) (\<lambda>(status, G3, allocs3).
           if status \<noteq> FSUCCESS
           then and_then (CLGraphDataDelArc (sint i) G3) (\<lambda>G4. Inr (- 1, G4, allocs3))
           else Inr (sint i, G3\<lparr>NumArcs := NumArcs G3 + 1\<rparr>, allocs3))))"

section \<open>Pruning\<close>

text \<open>Removes the arcs on one side of a vertex, cell by cell.  The counter of the removed arcs
  is a 32-bit number.\<close>

fun prune_side ::
  "side \<Rightarrow> u32 \<Rightarrow> nat \<Rightarrow> nat \<Rightarrow> clGraphData_t \<Rightarrow> u32 \<Rightarrow> cl_error + clGraphData_t \<times> u32" where
  "prune_side d i k 0 G progress = Inr (G, progress)"
| "prune_side d i k (Suc n) G progress =
    and_then (vertex_at G i) (\<lambda>v.
     let cs = cells (al_cells (arcs_at d v)) in
     if k < length cs
     then
      if 0 \<le> cs ! k
      then and_then (CLGraphDataDelArc (cs ! k) G) (\<lambda>G'. prune_side d i (k + 1) n G' (progress + 1))
      else prune_side d i (k + 1) n G progress
     else Inl BadPointer)"

definition prune_if_empty ::
  "side \<Rightarrow> side \<Rightarrow> u32 \<Rightarrow> clGraphData_t \<Rightarrow> u32 \<Rightarrow> cl_error + clGraphData_t \<times> u32" where
  "prune_if_empty none d i G progress =
    and_then (vertex_at G i) (\<lambda>v.
     if al_inuse (arcs_at none v) = 0
     then prune_side d i 0 (unat (al_count (arcs_at d v))) G progress
     else Inr (G, progress))"

definition prune_vertex ::
  "u32 \<Rightarrow> clGraphData_t \<Rightarrow> u32 \<Rightarrow> cl_error + clGraphData_t \<times> u32" where
  "prune_vertex i G progress =
    and_then (vertex_at G i) (\<lambda>v.
     if RefCount v \<noteq> 0
     then and_then (prune_if_empty Out In i G progress) (\<lambda>(G1, progress1).
            prune_if_empty In Out i G1 progress1)
     else Inr (G, progress))"

fun prune_round ::
  "nat \<Rightarrow> nat \<Rightarrow> clGraphData_t \<Rightarrow> u32 \<Rightarrow> cl_error + clGraphData_t \<times> u32" where
  "prune_round i 0 G progress = Inr (G, progress)"
| "prune_round i (Suc n) G progress =
    and_then (prune_vertex (of_nat i) G progress) (\<lambda>(G', progress'). prune_round (i + 1) n G' progress')"

partial_function (option) CLGraphDataPrune ::
  "clGraphData_t \<Rightarrow> (cl_error + clGraphData_t) option" where
  "CLGraphDataPrune G =
    (case prune_round 0 (unat (NumVertices G)) G 0 of
       Inl err \<Rightarrow> Some (Inl err)
     | Inr (G', progress) \<Rightarrow> if progress = 0 then Some (Inr G') else CLGraphDataPrune G')"

section \<open>Splitting\<close>

text \<open>\<^verbatim>\<open>CLGraphDataSplitOutVertex\<close> moves the arcs of a vertex to the new graph and goes on with its
  neighbours.  \<open>copy_arc\<close> is the body of the loops that copy: it appends the other end of the arc to
  the array of neighbours (array, count), adds it and the arc to the new graph, and says whether the
  loop goes on.\<close>

type_synonym copy_state = "u32 list option \<times> u32 \<times> clGraphData_t \<times> nat"

definition copy_arc ::
  "(nat \<Rightarrow> bool) \<Rightarrow> side \<Rightarrow> u32 \<Rightarrow> clArcData_t \<Rightarrow> clGraphData_t \<Rightarrow> copy_state \<Rightarrow>
     cl_error + bool \<times> copy_state" where
  "copy_arc mem d new_id arc G = (\<lambda>(nbs, count, N, allocs).
    let j = arc_end (opposite d) arc in
    and_then (vertex_at G j) (\<lambda>w.
     let (status, nbs1, allocs1) = CLGetDynamicArray mem 0 (unat count) nbs allocs in
     if status \<noteq> FSUCCESS then Inr (False, nbs1, count, N, allocs1)
     else
      let nbs2 = Some ((cells nbs1)[unat count := j]);
          (new_j, N1, allocs2) = CLGraphDataAddVertex mem (Connection w) N allocs1 in
      if new_j = - 1 then Inr (False, nbs2, count + 1, N1, allocs2)
      else
       and_then
        (case d of
           Out \<Rightarrow> CLGraphDataAddArc mem new_id new_j N1 allocs2
         | In \<Rightarrow> CLGraphDataAddArc mem new_j new_id N1 allocs2) (\<lambda>(a, N2, allocs3).
        Inr (a \<noteq> - 1, nbs2, count + 1, N2, allocs3))))"

fun copy_side ::
  "(nat \<Rightarrow> bool) \<Rightarrow> side \<Rightarrow> u32 \<Rightarrow> u32 \<Rightarrow> nat \<Rightarrow> nat \<Rightarrow> clGraphData_t \<Rightarrow> copy_state \<Rightarrow>
     cl_error + copy_state" where
  "copy_side mem d i new_id k 0 G s = Inr s"
| "copy_side mem d i new_id k (Suc n) G s =
    and_then (vertex_at G i) (\<lambda>v.
     let cs = cells (al_cells (arcs_at d v)) in
     if k < length cs
     then
      case (if 0 \<le> cs ! k then CLGraphFindIdArc G (word_of_int (cs ! k)) else None) of
        None \<Rightarrow> copy_side mem d i new_id (k + 1) n G s
      | Some arc \<Rightarrow>
         and_then (copy_arc mem d new_id arc G s) (\<lambda>(go_on, s').
          if go_on then copy_side mem d i new_id (k + 1) n G s' else Inr s')
     else Inl BadPointer)"

fun del_side :: "side \<Rightarrow> u32 \<Rightarrow> nat \<Rightarrow> nat \<Rightarrow> clGraphData_t \<Rightarrow> cl_error + clGraphData_t" where
  "del_side d i k 0 G = Inr G"
| "del_side d i k (Suc n) G =
    and_then (vertex_at G i) (\<lambda>v.
     let cs = cells (al_cells (arcs_at d v)) in
     if k < length cs
     then
      if 0 \<le> cs ! k
      then and_then (CLGraphDataDelArc (cs ! k) G) (del_side d i (k + 1) n)
      else del_side d i (k + 1) n G
     else Inl BadPointer)"

definition move_side ::
  "(nat \<Rightarrow> bool) \<Rightarrow> side \<Rightarrow> u32 \<Rightarrow> u32 \<Rightarrow> clGraphData_t \<Rightarrow> copy_state \<Rightarrow>
     cl_error + clGraphData_t \<times> copy_state" where
  "move_side mem d i new_id G s =
    and_then (vertex_at G i) (\<lambda>v.
     let n = unat (al_count (arcs_at d v)) in
     and_then (copy_side mem d i new_id 0 n G s) (\<lambda>s'.
     and_then (del_side d i 0 n G) (\<lambda>G'. Inr (G', s'))))"

text \<open>Everything the function does up to the loop over the neighbours, which it returns.\<close>

definition split_out_arcs ::
  "(nat \<Rightarrow> bool) \<Rightarrow> u32 \<Rightarrow> clGraphData_t \<Rightarrow> clGraphData_t \<Rightarrow> nat \<Rightarrow>
     cl_error + u32 list \<times> clGraphData_t \<times> clGraphData_t \<times> nat" where
  "split_out_arcs mem i G N allocs =
    and_then (vertex_at G i) (\<lambda>v.
     if RefCount v \<noteq> 0
     then
      let (new_id, N1, allocs1) = CLGraphDataAddVertex mem (Connection v) N allocs in
      and_then (move_side mem Out i new_id G (None, 0, N1, allocs1)) (\<lambda>(G1, s1).
      and_then (move_side mem In i new_id G1 s1) (\<lambda>(G2, nbs, count, N2, allocs2).
       Inr (take (unat count) (cells nbs), G2, N2, allocs2)))
     else Inr ([], G, N, allocs))"

text \<open>The loop over a list of neighbours, whose body is the recursive call: the arcs of the vertex,
  then the loop over its neighbours.  The status of a call is never looked at.\<close>

partial_function (option) split_out_all ::
  "(nat \<Rightarrow> bool) \<Rightarrow> u32 list \<Rightarrow> clGraphData_t \<Rightarrow> clGraphData_t \<Rightarrow> nat \<Rightarrow>
     (cl_error + clGraphData_t \<times> clGraphData_t \<times> nat) option" where
  "split_out_all mem vs G N allocs =
    (case vs of
       [] \<Rightarrow> Some (Inr (G, N, allocs))
     | i # vs' \<Rightarrow>
        (case split_out_arcs mem i G N allocs of
           Inl err \<Rightarrow> Some (Inl err)
         | Inr (nbs, G1, N1, allocs1) \<Rightarrow>
            Option.bind (split_out_all mem nbs G1 N1 allocs1) (\<lambda>r.
             case r of
               Inl err \<Rightarrow> Some (Inl err)
             | Inr (G2, N2, allocs2) \<Rightarrow> split_out_all mem vs' G2 N2 allocs2)))"

definition CLGraphDataSplitOutVertex ::
  "(nat \<Rightarrow> bool) \<Rightarrow> u32 \<Rightarrow> clGraphData_t \<Rightarrow> clGraphData_t \<Rightarrow> nat \<Rightarrow>
     (cl_error + clGraphData_t \<times> clGraphData_t \<times> nat) option" where
  "CLGraphDataSplitOutVertex mem i G N allocs = split_out_all mem [i] G N allocs"

text \<open>The first vertex that has an arc.\<close>

fun split_root :: "nat \<Rightarrow> nat \<Rightarrow> clGraphData_t \<Rightarrow> cl_error + u32 option" where
  "split_root vv 0 G = Inr None"
| "split_root vv (Suc n) G =
    and_then (vertex_at G (of_nat vv)) (\<lambda>v.
     if RefCount v \<noteq> 0 then Inr (Some (of_nat vv)) else split_root (vv + 1) n G)"

text \<open>The result is the new graph, if any, and what is left of the old one.\<close>

definition CLGraphDataSplit ::
  "(nat \<Rightarrow> bool) \<Rightarrow> clGraphData_t \<Rightarrow> nat \<Rightarrow>
     (cl_error + clGraphData_t option \<times> clGraphData_t \<times> nat) option" where
  "CLGraphDataSplit mem G allocs =
    (case split_root 0 (unat (NumVertices G)) G of
       Inl err \<Rightarrow> Some (Inl err)
     | Inr None \<Rightarrow> Some (Inr (None, G, allocs))
     | Inr (Some root) \<Rightarrow>
        if \<not> mem allocs then Some (Inr (None, G, allocs + 1))
        else
         map_option (map_sum id (\<lambda>(G', N, allocs'). (Some N, G', allocs')))
          (CLGraphDataSplitOutVertex mem root G zero_graph (allocs + 1)))"

end
