(* ===== verification/CreditRoute.thy ===== *)
theory CreditRoute
  imports CreditGraph
begin

text \<open>
  From the routes of a fabric to the dependency graph: the devices, connections and routes the
  credit loop analysis collects (\<^verbatim>\<open>CLDataAdd*\<close>) and the walk along every route that adds its
  connections and their succession to the graph (\<^verbatim>\<open>CLFabricDataBuildRouteGraph\<close>), in
  Topology/fabricdata.c.

  Nodes, ports and connections are records at addresses, 0 is NULL.  A device is found by the GUID of
  its node and stays in the map, so that a pointer to it is that GUID.  \<open>malloc n\<close> is the address
  the \<open>n\<close>th allocation returns.  Path records are kept by number, output is not modelled.
\<close>

section \<open>Nodes, ports, connections, devices\<close>

type_synonym addr = u64

definition STL_NODE_FI :: u8 where "STL_NODE_FI = 1"
definition STL_NODE_SW :: u8 where "STL_NODE_SW = 2"
definition STL_MAX_SLS :: nat where "STL_MAX_SLS = 32"
definition STL_MAX_SCS :: nat where "STL_MAX_SCS = 32"
definition CREDIT_LOOP_DEVICE_MAX_CONNECTIONS :: nat where "CREDIT_LOOP_DEVICE_MAX_CONNECTIONS = 66"

record NodeData =
  NodeGUID :: u64
  NodeType :: u8
  Ports :: "(u64, addr) key_map"

text \<open>\<open>SC2SCMapList\<close> is the one list of the source, of masks of output ports with their maps.\<close>

record QOSData =
  SC2SCMapList :: "(u64 list \<times> u8 list) list"
  SL2SCMap :: "u8 list option"
  SC2VLt :: "u8 list"

record PortData =
  p_nodep :: addr
  PortNum :: u8
  p_rate :: u32
  pQOS :: "QOSData option"

record clConnData_t =
  FromDeviceGUID :: u64
  FromPortNum :: u8
  ToDeviceGUID :: u64
  ToPortNum :: u8
  Rate :: u32
  VL :: u8
  PathInfo :: nat

record clDeviceData_t =
  Lid :: u32
  d_nodep :: addr
  Connections :: "addr list list"
  map_dlid_to_route :: "(u64, addr) key_map"

record FabricData_t =
  nodes :: "addr \<Rightarrow> NodeData option"
  ports :: "addr \<Rightarrow> PortData option"
  conns :: "addr \<Rightarrow> clConnData_t option"
  map_guid_to_ib_device :: "(u64, clDeviceData_t) key_map"
  FIs :: "u64 list"
  Switches :: "u64 list"
  ConnectionCount :: u32
  RouteCount :: u32
  Graph :: clGraphData_t

definition deref :: "(addr \<Rightarrow> 'a option) \<Rightarrow> addr \<Rightarrow> cl_error + 'a" where
  "deref m p = (if p = 0 then Inl BadPointer else case m p of None \<Rightarrow> Inl BadPointer | Some x \<Rightarrow> Inr x)"

definition element :: "'a list \<Rightarrow> nat \<Rightarrow> cl_error + 'a" where
  "element xs i = (if i < length xs then Inr (xs ! i) else Inl BadPointer)"

section \<open>Collecting devices, connections and routes\<close>

definition new_device :: "addr \<Rightarrow> u32 \<Rightarrow> clDeviceData_t" where
  "new_device nodep lid = \<lparr>Lid = lid, d_nodep = nodep,
     Connections = replicate CREDIT_LOOP_DEVICE_MAX_CONNECTIONS (replicate STL_MAX_SCS 0),
     map_dlid_to_route = []\<rparr>"

text \<open>A duplicate is only reported.  The map has no device with the GUID when one is inserted, so the
  branch for a failing insertion is left out.\<close>

definition CLDataAddDevice ::
  "(nat \<Rightarrow> addr) \<Rightarrow> addr \<Rightarrow> u32 \<Rightarrow> FabricData_t \<Rightarrow> nat \<Rightarrow> cl_error + addr \<times> FabricData_t \<times> nat" where
  "CLDataAddDevice malloc nodep lid F allocs =
    (if nodep = 0 then Inr (0, F, allocs)
     else
      and_then (deref (nodes F) nodep) (\<lambda>node.
       if qm_get (map_guid_to_ib_device F) (NodeGUID node) \<noteq> None then Inr (nodep, F, allocs)
       else if malloc allocs = 0 then Inr (0, F, allocs + 1)
       else
        let F1 = F\<lparr>map_guid_to_ib_device :=
              qm_insert (NodeGUID node) (new_device nodep lid) (map_guid_to_ib_device F)\<rparr> in
        Inr (nodep,
          (if NodeType node = STL_NODE_FI then F1\<lparr>FIs := FIs F1 @ [NodeGUID node]\<rparr>
           else F1\<lparr>Switches := Switches F1 @ [NodeGUID node]\<rparr>), allocs + 1)))"

definition conn_differs ::
  "clConnData_t \<Rightarrow> u64 \<Rightarrow> PortData \<Rightarrow> u64 \<Rightarrow> PortData \<Rightarrow> bool" where
  "conn_differs c guid1 port1 guid2 port2 \<longleftrightarrow>
     FromDeviceGUID c \<noteq> guid1 \<or> FromPortNum c \<noteq> PortNum port1 \<or>
     ToDeviceGUID c \<noteq> guid2 \<or> ToPortNum c \<noteq> PortNum port2 \<or>
     Rate c \<noteq> 0 \<and> p_rate port1 \<noteq> 0 \<and> Rate c \<noteq> p_rate port1"

definition CLDataAddConnection ::
  "(nat \<Rightarrow> addr) \<Rightarrow> addr \<Rightarrow> addr \<Rightarrow> nat \<Rightarrow> u8 \<Rightarrow> FabricData_t \<Rightarrow> nat \<Rightarrow>
     cl_error + FSTATUS \<times> FabricData_t \<times> nat" where
  "CLDataAddConnection malloc portp1 portp2 pathInfo sc F allocs =
    and_then (deref (ports F) portp1) (\<lambda>port1.
    and_then (deref (nodes F) (p_nodep port1)) (\<lambda>node1.
     let guid1 = NodeGUID node1; num1 = unat (PortNum port1) in
     case qm_get (map_guid_to_ib_device F) guid1 of
       None \<Rightarrow> Inr (FINVALID_PARAMETER, F, allocs)
     | Some dev \<Rightarrow>
        if CREDIT_LOOP_DEVICE_MAX_CONNECTIONS \<le> num1 then Inr (FINVALID_PARAMETER, F, allocs)
        else
         and_then (element (Connections dev) num1) (\<lambda>row.
         and_then (element row (unat sc)) (\<lambda>cell.
          if cell \<noteq> 0
          then
           and_then (deref (conns F) cell) (\<lambda>c.
           and_then (deref (ports F) portp2) (\<lambda>port2.
           and_then (deref (nodes F) (p_nodep port2)) (\<lambda>node2.
            Inr (if conn_differs c guid1 port1 (NodeGUID node2) port2 then FERROR else FSUCCESS, F,
              allocs))))
          else if malloc allocs = 0 then Inr (FINSUFFICIENT_MEMORY, F, allocs + 1)
          else
           and_then (deref (ports F) portp2) (\<lambda>port2.
           and_then (deref (nodes F) (p_nodep port2)) (\<lambda>node2.
           and_then (case pQOS port1 of None \<Rightarrow> Inr 0 | Some q \<Rightarrow> element (SC2VLt q) (unat sc)) (\<lambda>vl.
            let c = \<lparr>FromDeviceGUID = guid1, FromPortNum = PortNum port1,
                     ToDeviceGUID = NodeGUID node2, ToPortNum = PortNum port2, Rate = 0, VL = vl,
                     PathInfo = pathInfo\<rparr>;
                dev' = dev\<lparr>Connections := (Connections dev)[num1 := row[unat sc := malloc allocs]]\<rparr> in
            Inr (FSUCCESS,
              F\<lparr>map_guid_to_ib_device := qm_put guid1 dev' (map_guid_to_ib_device F),
                conns := (conns F)(malloc allocs \<mapsto> c), ConnectionCount := ConnectionCount F + 1\<rparr>,
              allocs + 1))))))))"

definition CLDataAddRoute ::
  "(nat \<Rightarrow> addr) \<Rightarrow> u32 \<Rightarrow> addr \<Rightarrow> FabricData_t \<Rightarrow> nat \<Rightarrow> cl_error + FSTATUS \<times> FabricData_t \<times> nat" where
  "CLDataAddRoute malloc dlid sportp F allocs =
    and_then (deref (ports F) sportp) (\<lambda>port.
    and_then (deref (nodes F) (p_nodep port)) (\<lambda>node.
     case qm_get (map_guid_to_ib_device F) (NodeGUID node) of
       None \<Rightarrow> Inr (FNOT_FOUND, F, allocs)
     | Some dev \<Rightarrow>
        (case qm_get (map_dlid_to_route dev) (ucast dlid) of
           Some p \<Rightarrow> Inr (if p \<noteq> sportp then FERROR else FSUCCESS, F, allocs)
         | None \<Rightarrow>
            if malloc allocs = 0 then Inr (FINSUFFICIENT_MEMORY, F, allocs + 1)
            else
             let dev' = dev\<lparr>map_dlid_to_route := qm_insert (ucast dlid) sportp (map_dlid_to_route dev)\<rparr> in
             Inr (FSUCCESS,
               F\<lparr>map_guid_to_ib_device := qm_put (NodeGUID node) dev' (map_guid_to_ib_device F),
                 RouteCount := RouteCount F + 1\<rparr>, allocs + 1))))"

section \<open>Service channels\<close>

text \<open>Is the output port in the mask (\<^verbatim>\<open>StlIsPortInPortMask\<close>), and the map for it.\<close>

definition StlIsPortInPortMask :: "u64 list \<Rightarrow> u8 \<Rightarrow> cl_error + bool" where
  "StlIsPortInPortMask pmask port =
    and_then (element pmask (3 - unat port div 64)) (\<lambda>m. Inr (bit m (unat port mod 64)))"

fun lookup_scsc :: "(u64 list \<times> u8 list) list \<Rightarrow> u8 \<Rightarrow> cl_error + u8 list option" where
  "lookup_scsc [] outport = Inr None"
| "lookup_scsc ((pmask, scsc) # qs) outport =
    and_then (StlIsPortInPortMask pmask outport) (\<lambda>b.
     if b then Inr (Some scsc) else lookup_scsc qs outport)"

definition QOSDataLookupSCSCMap :: "PortData \<Rightarrow> u8 \<Rightarrow> int \<Rightarrow> cl_error + u8 list option" where
  "QOSDataLookupSCSCMap port outport extended =
    (case pQOS port of None \<Rightarrow> Inr None
     | Some q \<Rightarrow> if 1 \<le> extended \<or> extended < 0 then Inr None else lookup_scsc (SC2SCMapList q) outport)"

section \<open>One hop of a route\<close>

text \<open>The variables of the loop along a route.  \<open>hfip = None\<close> is NULL, \<open>previous_connection = 0\<close> too.\<close>

record route_vars =
  hfip :: "u64 option"
  previous_connection :: addr
  previous_vertex_id :: u32
  sc :: u8
  previous_sc :: u8
  links :: u32

definition route_start :: "u64 \<Rightarrow> route_vars" where
  "route_start src = \<lparr>hfip = Some src, previous_connection = 0, previous_vertex_id = 0, sc = 0,
     previous_sc = 0, links = 0\<rparr>"

text \<open>The service channel for the next hop; \<open>None\<close> leaves the loop.\<close>

definition next_sc ::
  "FabricData_t \<Rightarrow> u32 \<Rightarrow> u64 \<Rightarrow> nat \<Rightarrow> u64 \<Rightarrow> clDeviceData_t \<Rightarrow> PortData \<Rightarrow> route_vars \<Rightarrow>
     cl_error + u8 option" where
  "next_sc F usedSLs src sl hfi dev port s =
    (if usedSLs = 0 then Inr (Some (sc s))
     else if hfi = src
     then
      (case pQOS port of None \<Rightarrow> Inr (Some (sc s))
       | Some q \<Rightarrow>
          (case SL2SCMap q of None \<Rightarrow> Inr (Some (sc s)) | Some m \<Rightarrow> and_then (element m sl) (\<lambda>c. Inr (Some c))))
     else if previous_connection s \<noteq> 0
     then
      if d_nodep dev = 0 then Inr None
      else
       and_then (deref (nodes F) (d_nodep dev)) (\<lambda>node.
        if NodeType node = STL_NODE_SW
        then
         and_then (deref (conns F) (previous_connection s)) (\<lambda>c.
          case qm_get (Ports node) (ucast (ToPortNum c)) of
            None \<Rightarrow> Inr None
          | Some p \<Rightarrow>
             and_then (deref (ports F) p) (\<lambda>prev_port.
              case pQOS prev_port of None \<Rightarrow> Inr (Some (sc s))
              | Some q \<Rightarrow>
                 if SC2SCMapList q = [] then Inr (Some (sc s))
                 else
                  and_then (QOSDataLookupSCSCMap prev_port (PortNum port) 0) (\<lambda>r.
                   case r of None \<Rightarrow> Inr (Some (sc s))
                   | Some m \<Rightarrow> and_then (element m (unat (previous_sc s))) (\<lambda>c. Inr (Some c)))))
        else Inr (Some (sc s)))
     else Inr (Some (sc s)))"

text \<open>The connection the route takes next, with its service channel.  \<open>Inl\<close> in the result leaves the
  loop, with the status of the thread.\<close>

definition next_connection ::
  "FabricData_t \<Rightarrow> u32 \<Rightarrow> u64 \<Rightarrow> nat \<Rightarrow> u16 \<Rightarrow> u64 \<Rightarrow> route_vars \<Rightarrow> cl_error + FSTATUS option + addr \<times> u8" where
  "next_connection F usedSLs src sl dlid hfi s =
    (case qm_get (map_guid_to_ib_device F) hfi of
       None \<Rightarrow> Inl BadPointer
     | Some dev \<Rightarrow>
        (case qm_get (map_dlid_to_route dev) (ucast dlid) of
           None \<Rightarrow> Inr (Inl None)
         | Some portp \<Rightarrow>
            and_then (deref (ports F) portp) (\<lambda>port.
            and_then (next_sc F usedSLs src sl hfi dev port s) (\<lambda>r.
             case r of None \<Rightarrow> Inr (Inl (Some FERROR))
             | Some c \<Rightarrow>
                and_then (element (Connections dev) (unat (PortNum port))) (\<lambda>row.
                and_then (element row (unat c)) (\<lambda>conn.
                 Inr (if conn = 0 then Inl None else Inr (conn, c))))))))"

section \<open>The walk along a route\<close>

text \<open>The result says whether the loop goes on, and the status that was set, if any.\<close>

type_synonym route_state = "FSTATUS option \<times> route_vars \<times> clGraphData_t \<times> nat"

definition CLFindGuidDevice :: "FabricData_t \<Rightarrow> u64 \<Rightarrow> u64 option" where
  "CLFindGuidDevice F guid =
    (if qm_get (map_guid_to_ib_device F) guid = None then None else Some guid)"

definition route_hop ::
  "(nat \<Rightarrow> bool) \<Rightarrow> FabricData_t \<Rightarrow> u32 \<Rightarrow> u64 \<Rightarrow> nat \<Rightarrow> u16 \<Rightarrow> u64 \<Rightarrow> route_vars \<Rightarrow> clGraphData_t \<Rightarrow> nat \<Rightarrow>
     cl_error + bool \<times> route_state" where
  "route_hop mem F usedSLs src sl dlid hfi s G allocs =
    and_then (next_connection F usedSLs src sl dlid hfi s) (\<lambda>r.
     case r of Inl status \<Rightarrow> Inr (False, status, s, G, allocs)
     | Inr (conn, c) \<Rightarrow>
        let s1 = s\<lparr>sc := c\<rparr>; (vertex, G1, allocs1) = CLGraphDataAddVertex mem conn G allocs in
        if vertex = - 1 then Inr (False, None, s1, G1, allocs1)
        else
         and_then
          (if previous_connection s \<noteq> 0
           then CLGraphDataAddArc mem (previous_vertex_id s) vertex G1 allocs1
           else Inr (0, G1, allocs1)) (\<lambda>(a, G2, allocs2).
         if a = - 1 then Inr (False, Some FERROR, s1, G2, allocs2)
         else
          and_then (deref (conns F) conn) (\<lambda>cd.
          case CLFindGuidDevice F (ToDeviceGUID cd) of
            None \<Rightarrow> Inr (False, Some FERROR, s1\<lparr>hfip := None\<rparr>, G2, allocs2)
          | Some next_hfi \<Rightarrow>
             Inr (True, None,
               s1\<lparr>hfip := Some next_hfi, links := links s + 1, previous_connection := conn,
                  previous_vertex_id := vertex, previous_sc := c\<rparr>, G2, allocs2))))"

partial_function (option) route_loop ::
  "(nat \<Rightarrow> bool) \<Rightarrow> FabricData_t \<Rightarrow> u32 \<Rightarrow> u64 \<Rightarrow> u64 \<Rightarrow> nat \<Rightarrow> u16 \<Rightarrow> route_vars \<Rightarrow> clGraphData_t \<Rightarrow> nat \<Rightarrow>
     (cl_error + route_state) option" where
  "route_loop mem F usedSLs src dst sl dlid s G allocs =
    (case hfip s of
       None \<Rightarrow> Some (Inl BadPointer)
     | Some hfi \<Rightarrow>
        if hfi = dst then Some (Inr (None, s, G, allocs))
        else
         (case route_hop mem F usedSLs src sl dlid hfi s G allocs of
            Inl err \<Rightarrow> Some (Inl err)
          | Inr (go_on, status, s', G', allocs') \<Rightarrow>
             if go_on then route_loop mem F usedSLs src dst sl dlid s' G' allocs'
             else Some (Inr (status, s', G', allocs'))))"

section \<open>All routes\<close>

text \<open>What the thread counts: routes that arrive and those that do not, and a histogram of their
  hops with the set of hop counts seen.\<close>

record route_stats =
  present_routes :: u32
  missing_routes :: u32
  hops_histogram :: "u32 list option"
  hops_histogram_entries :: u32
  hopsHistogramLstMap :: "(u64, unit) key_map"

text \<open>The entry of a hop count; \<open>False\<close> when there is no memory for it.\<close>

definition count_hops ::
  "(nat \<Rightarrow> bool) \<Rightarrow> u32 \<Rightarrow> route_stats \<Rightarrow> nat \<Rightarrow> cl_error + bool \<times> route_stats \<times> nat" where
  "count_hops mem hops st allocs =
    (let (status, hist, allocs1) = CLGetDynamicArray mem 0 (unat hops) (hops_histogram st) allocs;
         st1 = st\<lparr>hops_histogram := hist\<rparr>; h = unat hops;
         entries = max (hops_histogram_entries st) hops in
     if status \<noteq> FSUCCESS then Inr (True, st1, allocs1)
     else if qm_get (hopsHistogramLstMap st1) (ucast hops) \<noteq> None
     then
      and_then (element (cells hist) h) (\<lambda>x.
       Inr (True, st1\<lparr>hops_histogram := Some ((cells hist)[h := x + 1]), hops_histogram_entries := entries\<rparr>, allocs1))
     else if \<not> mem allocs1 then Inr (False, st1, allocs1 + 1)
     else
      and_then (element (cells hist) h) (\<lambda>_.
       Inr (True, st1\<lparr>hopsHistogramLstMap := qm_insert (ucast hops) () (hopsHistogramLstMap st1),
         hops_histogram := Some ((cells hist)[h := 1]), hops_histogram_entries := entries\<rparr>, allocs1 + 1)))"

text \<open>One route; the result says whether the loop over the service levels goes on.\<close>

type_synonym build_state = "FSTATUS \<times> route_stats \<times> clGraphData_t \<times> nat"

definition build_route ::
  "(nat \<Rightarrow> bool) \<Rightarrow> FabricData_t \<Rightarrow> u32 \<Rightarrow> u64 \<Rightarrow> u64 \<Rightarrow> nat \<Rightarrow> build_state \<Rightarrow>
     (cl_error + bool \<times> build_state) option" where
  "build_route mem F usedSLs src dst sl = (\<lambda>(status, st, G, allocs).
    case qm_get (map_guid_to_ib_device F) dst of
      None \<Rightarrow> Some (Inl BadPointer)
    | Some dst_dev \<Rightarrow>
       map_option (\<lambda>r. and_then r (\<lambda>(status', s, G', allocs').
         let status1 = (case status' of None \<Rightarrow> status | Some x \<Rightarrow> x) in
         if hfip s = Some dst
         then
          and_then (count_hops mem (links s - 1) (st\<lparr>present_routes := present_routes st + 1\<rparr>) allocs')
           (\<lambda>(ok, st', allocs''). Inr (ok, if ok then status1 else FERROR, st', G', allocs''))
         else Inr (True, status1, st\<lparr>missing_routes := missing_routes st + 1\<rparr>, G', allocs')))
        (route_loop mem F usedSLs src dst sl (ucast (Lid dst_dev)) (route_start src) G allocs))"

definition sl_used :: "u32 \<Rightarrow> nat \<Rightarrow> bool" where
  "sl_used usedSLs sl \<longleftrightarrow> (if usedSLs \<noteq> 0 then bit usedSLs sl else sl = 0)"

fun build_sls ::
  "(nat \<Rightarrow> bool) \<Rightarrow> FabricData_t \<Rightarrow> u32 \<Rightarrow> u64 \<Rightarrow> u64 \<Rightarrow> nat list \<Rightarrow> build_state \<Rightarrow>
     (cl_error + build_state) option" where
  "build_sls mem F usedSLs src dst [] b = Some (Inr b)"
| "build_sls mem F usedSLs src dst (sl # sls) b =
    (if sl_used usedSLs sl
     then
      Option.bind (build_route mem F usedSLs src dst sl b) (\<lambda>r.
       case r of Inl err \<Rightarrow> Some (Inl err)
       | Inr (go_on, b') \<Rightarrow> if go_on then build_sls mem F usedSLs src dst sls b' else Some (Inr b'))
     else build_sls mem F usedSLs src dst sls b)"

fun build_pairs ::
  "(nat \<Rightarrow> bool) \<Rightarrow> FabricData_t \<Rightarrow> u32 \<Rightarrow> (nat \<times> u64) \<Rightarrow> (nat \<times> u64) list \<Rightarrow> build_state \<Rightarrow>
     (cl_error + build_state) option" where
  "build_pairs mem F usedSLs src [] b = Some (Inr b)"
| "build_pairs mem F usedSLs src (dst # dsts) b =
    (if fst src \<noteq> fst dst
     then
      Option.bind (build_sls mem F usedSLs (snd src) (snd dst) [0..<STL_MAX_SLS] b) (\<lambda>r.
       case r of Inl err \<Rightarrow> Some (Inl err) | Inr b' \<Rightarrow> build_pairs mem F usedSLs src dsts b')
     else build_pairs mem F usedSLs src dsts b)"

text \<open>The items of the list of sources and destinations, with their places.\<close>

fun build_sources ::
  "(nat \<Rightarrow> bool) \<Rightarrow> FabricData_t \<Rightarrow> u32 \<Rightarrow> (nat \<times> u64) list \<Rightarrow> build_state \<Rightarrow> (cl_error + build_state) option" where
  "build_sources mem F usedSLs [] b = Some (Inr b)"
| "build_sources mem F usedSLs (src # srcs) b =
    Option.bind (build_pairs mem F usedSLs src (enumerate 0 (FIs F)) b) (\<lambda>r.
     case r of Inl err \<Rightarrow> Some (Inl err) | Inr b' \<Rightarrow> build_sources mem F usedSLs srcs b')"

definition first_stats :: route_stats where
  "first_stats = \<lparr>present_routes = 0, missing_routes = 0, hops_histogram = None,
     hops_histogram_entries = 0, hopsHistogramLstMap = []\<rparr>"

text \<open>The source runs a single thread for all sources.  This is its first run in a process: the
  static histogram is still NULL.  The status of the thread is not looked at.\<close>

definition CLFabricDataBuildRouteGraph ::
  "(nat \<Rightarrow> bool) \<Rightarrow> u32 \<Rightarrow> FabricData_t \<Rightarrow> nat \<Rightarrow>
     (cl_error + FSTATUS \<times> route_stats \<times> FabricData_t \<times> nat) option" where
  "CLFabricDataBuildRouteGraph mem usedSLs F allocs =
    (if \<not> mem allocs then Some (Inr (FINSUFFICIENT_MEMORY, first_stats, F, allocs + 1))
     else
      map_option (map_sum id (\<lambda>(_, st, G, allocs'). (FSUCCESS, st, F\<lparr>Graph := G\<rparr>, allocs')))
       (build_sources mem F usedSLs (enumerate 0 (FIs F)) (FSUCCESS, first_stats, Graph F, allocs + 1)))"

section \<open>The verdict\<close>

text \<open>The end of \<^verbatim>\<open>ValidateAllCreditLoopRoutes\<close> in Topology/route.c, once the routes are collected: the
  graph is built and pruned, and the first attempt to split it decides what is printed.\<close>

datatype cl_verdict = NotDone | NoVerdict | DeadlockFree | DeadlockDetected

definition credit_loop_verdict ::
  "(nat \<Rightarrow> bool) \<Rightarrow> u32 \<Rightarrow> FabricData_t \<Rightarrow> nat \<Rightarrow> (cl_error + cl_verdict) option" where
  "credit_loop_verdict mem usedSLs F allocs =
    (if map_guid_to_ib_device F = [] \<or> ConnectionCount F = 0 \<or> RouteCount F = 0 then Some (Inr NotDone)
     else
      Option.bind (CLFabricDataBuildRouteGraph mem usedSLs F allocs) (\<lambda>r.
       case r of Inl err \<Rightarrow> Some (Inl err)
       | Inr (status, st, F1, allocs1) \<Rightarrow>
          if status \<noteq> FSUCCESS then Some (Inr NoVerdict)
          else
           Option.bind (CLGraphDataPrune (Graph F1)) (\<lambda>r.
            case r of Inl err \<Rightarrow> Some (Inl err)
            | Inr P \<Rightarrow>
               map_option (map_sum id (\<lambda>(new, _, _). if new = None then DeadlockFree else DeadlockDetected))
                (CLGraphDataSplit mem P allocs1))))"

end
