(* ===== verification/CreditGraphInv.thy ===== *)
theory CreditGraphInv
  imports CreditGraph
begin

text \<open>
  The invariant of a dependency graph, and what adding and removing arcs does to it.
\<close>

section \<open>Arc lists and arcs\<close>

definition used_cells :: "clArcList_t \<Rightarrow> int list" where
  "used_cells l = filter (\<lambda>a. 0 \<le> a) (take (unat (al_count l)) (cells (al_cells l)))"

text \<open>\<open>S\<close> are the numbers of the arcs on the list.\<close>

definition arc_list_ok :: "clArcList_t \<Rightarrow> int set \<Rightarrow> bool" where
  "arc_list_ok l S \<longleftrightarrow> unat (al_count l) \<le> length (cells (al_cells l)) \<and>
     distinct (used_cells l) \<and> set (used_cells l) = S \<and> unat (al_inuse l) = card S"

definition arc_at :: "clGraphData_t \<Rightarrow> int \<Rightarrow> clArcData_t option" where
  "arc_at G a = (if 0 \<le> a \<and> a < 2 ^ 31 then qm_get (Arcs G) (word_of_int a) else None)"

definition arcs_with :: "side \<Rightarrow> clGraphData_t \<Rightarrow> u32 \<Rightarrow> int set" where
  "arcs_with d G i = {a. \<exists>x. arc_at G a = Some x \<and> arc_end d x = i}"

definition edges :: "clGraphData_t \<Rightarrow> (u32 \<times> u32) set" where
  "edges G = {(Source x, Sink x) | a x. arc_at G a = Some x}"

section \<open>Invariant\<close>

definition vertex_ok :: "clGraphData_t \<Rightarrow> u32 \<Rightarrow> clVertixData_t \<Rightarrow> bool" where
  "vertex_ok G i v \<longleftrightarrow> v_Id v = i \<and>
     (\<forall>d. arc_list_ok (arcs_at d v) (arcs_with d G i)) \<and>
     unat (RefCount v) = card (arcs_with Out G i) + card (arcs_with In G i)"

definition arcs_ok :: "clGraphData_t \<Rightarrow> bool" where
  "arcs_ok G \<longleftrightarrow> qm_wf (Arcs G) \<and> qm_wf (map_arc_key_to_arc G) \<and> length (Arcs G) < 2 ^ 31 \<and>
     (\<forall>k x. qm_get (Arcs G) k = Some x \<longrightarrow> unat k < 2 ^ 31 \<and> ucast (a_Id x) = k \<and>
        Source x \<noteq> Sink x \<and> Source x < NumVertices G \<and> Sink x < NumVertices G) \<and>
     (\<forall>s t x. qm_get (map_arc_key_to_arc G) (arc_key s t) = Some x \<longleftrightarrow>
        Source x = s \<and> Sink x = t \<and> qm_get (Arcs G) (ucast (a_Id x)) = Some x)"

definition conns_ok :: "clGraphData_t \<Rightarrow> bool" where
  "conns_ok G \<longleftrightarrow> (Vertices G \<noteq> None \<longrightarrow> qm_wf (map_conn_to_vertex_conn G)) \<and>
     (\<forall>c i. CLGraphFindConnVertex G c = Some i \<longleftrightarrow>
        i < NumVertices G \<and> (\<exists>v. vertex_at G i = Inr v \<and> Connection v = c))"

definition graph_ok :: "clGraphData_t \<Rightarrow> bool" where
  "graph_ok G \<longleftrightarrow> arcs_ok G \<and> conns_ok G \<and>
     (\<forall>i < NumVertices G. \<exists>v. vertex_at G i = Inr v \<and> vertex_ok G i v)"

section \<open>Words and keys\<close>

lemma digits_unique:
  fixes s t s' t' N :: nat
  assumes "s + t * N = s' + t' * N" "s < N" "s' < N"
  shows "s = s' \<and> t = t'"
proof -
  have "(s + t * N) mod N = s" "(s' + t' * N) mod N = s'" using assms(2,3) by simp_all
  then show ?thesis using assms by simp
qed

lemma arc_key_inj: "arc_key s t = arc_key s' t' \<longleftrightarrow> s = s' \<and> t = t'"
proof
  have u: "unat (arc_key s t) = unat s + unat t * 2 ^ 32" for s t
  proof -
    have b: "unat s < 2 ^ 32" "unat t < 2 ^ 32"
      using unsigned_less [of s, where 'a = nat] unsigned_less [of t, where 'a = nat] by simp_all
    have s: "unat (ucast s :: u64) = unat s" and t: "unat (ucast t :: u64) = unat t"
      using b by (simp_all add: unsigned_ucast_eq take_bit_nat_eq_self)
    have "unat (ucast t * 2 ^ 32 :: u64) = unat t * 2 ^ 32"
      using b t by (subst unat_mult_lem [THEN iffD1]) simp_all
    then show ?thesis
      unfolding arc_key_def using b s by (subst unat_add_lem [THEN iffD1]) simp_all
  qed
  assume "arc_key s t = arc_key s' t'"
  then have "unat s + unat t * 2 ^ 32 = unat s' + unat t' * 2 ^ 32" using u by metis
  moreover have "unat s < 2 ^ 32" "unat s' < 2 ^ 32"
    using unsigned_less [of s, where 'a = nat] unsigned_less [of s', where 'a = nat] by simp_all
  ultimately have "unat s = unat s' \<and> unat t = unat t'" by (rule digits_unique)
  then show "s = s' \<and> t = t'" by (simp only: word_unat_eq_iff)
qed simp

text \<open>Arc numbers as keys and as stored in the cells.\<close>

lemma word_of_int_small:
  assumes "0 \<le> a" "a < 2 ^ 31"
  shows "uint (word_of_int a :: u64) = a"
  using assms by (simp add: uint_word_of_int_eq take_bit_int_eq_self)

lemma arc_at_key:
  assumes "arcs_ok G"
  shows "(\<exists>a. arc_at G a = Some x \<and> word_of_int a = k) \<longleftrightarrow> qm_get (Arcs G) k = Some x"
proof
  assume "qm_get (Arcs G) k = Some x"
  moreover from this have "unat k < 2 ^ 31" using assms by (simp add: arcs_ok_def)
  then have "int (unat k) < int (2 ^ 31)" by (simp only: of_nat_less_iff)
  then have "uint k < 2 ^ 31" by (simp only: uint_nat of_nat_power of_nat_numeral)
  ultimately have "arc_at G (uint k) = Some x" by (simp add: arc_at_def)
  then show "\<exists>a. arc_at G a = Some x \<and> word_of_int a = k" by auto
qed (auto simp: arc_at_def split: if_splits)

lemma edges_keys: "arcs_ok G \<Longrightarrow> edges G = {(Source x, Sink x) | k x. qm_get (Arcs G) k = Some x}"
  unfolding edges_def using arc_at_key by fastforce

lemma finite_edges: "arcs_ok G \<Longrightarrow> finite (edges G)"
proof -
  assume "arcs_ok G"
  from edges_keys [OF this] have "edges G \<subseteq> (\<lambda>x. (Source x, Sink x)) ` ran (qm_get (Arcs G))"
    by (auto simp: ran_def)
  then show ?thesis by (rule finite_subset) (simp add: finite_ran)
qed

lemma arc_unique:
  assumes "arcs_ok G" "arc_at G a = Some x" "arc_at G b = Some y" "Source x = Source y"
    "Sink x = Sink y"
  shows "a = b"
proof -
  have k: "qm_get (Arcs G) (word_of_int a) = Some x" "qm_get (Arcs G) (word_of_int b) = Some y"
    "0 \<le> a" "a < 2 ^ 31" "0 \<le> b" "b < 2 ^ 31"
    using assms(2,3) by (auto simp: arc_at_def split: if_splits)
  then have id: "ucast (a_Id x) = (word_of_int a :: u64)" "ucast (a_Id y) = (word_of_int b :: u64)"
    using assms(1) unfolding arcs_ok_def by blast+
  have "qm_get (map_arc_key_to_arc G) (arc_key (Source x) (Sink x)) = Some x"
    "qm_get (map_arc_key_to_arc G) (arc_key (Source x) (Sink x)) = Some y"
    using assms(1,4,5) k(1,2) id unfolding arcs_ok_def by metis+
  then have "x = y" by simp
  with id have "uint (word_of_int a :: u64) = uint (word_of_int b :: u64)" by simp
  with k show ?thesis by (simp add: word_of_int_small)
qed

lemma arcs_with_finite: "finite (arcs_with d G i)"
proof -
  have "arcs_with d G i \<subseteq> uint ` dom (qm_get (Arcs G))"
  proof
    fix a assume "a \<in> arcs_with d G i"
    then obtain x where "0 \<le> a" "a < 2 ^ 31" "qm_get (Arcs G) (word_of_int a) = Some x"
      by (auto simp: arcs_with_def arc_at_def split: if_splits)
    then show "a \<in> uint ` dom (qm_get (Arcs G))"
      by (intro image_eqI [of _ _ "word_of_int a"]) (auto simp: word_of_int_small)
  qed
  then show ?thesis by (rule finite_subset) simp
qed

lemma arcs_with_iff: "a \<in> arcs_with d G i \<longleftrightarrow> (\<exists>x. arc_at G a = Some x \<and> arc_end d x = i)"
  by (simp add: arcs_with_def)

lemma arcs_with_nonneg: "a \<in> arcs_with d G i \<Longrightarrow> 0 \<le> a"
  by (auto simp: arcs_with_def arc_at_def split: if_splits)

section \<open>Records\<close>

lemma arcs_at_simps [simp]:
  "arcs_at d (set_arcs_at d l v) = l" "d \<noteq> d' \<Longrightarrow> arcs_at d (set_arcs_at d' l v) = arcs_at d v"
  "arcs_at d (v\<lparr>RefCount := r\<rparr>) = arcs_at d v"
  "Connection (set_arcs_at d l v) = Connection v" "v_Id (set_arcs_at d l v) = v_Id v"
  "RefCount (set_arcs_at d l v) = RefCount v"
  by (cases d; cases d'; simp add: arcs_at_def set_arcs_at_def)+

lemma set_arcs_at_again [simp]: "set_arcs_at d l (set_arcs_at d l' v) = set_arcs_at d l v"
  by (cases d) (simp_all add: set_arcs_at_def)

lemma set_arcs_ref: "set_arcs_at d l (v\<lparr>RefCount := r\<rparr>) = (set_arcs_at d l v)\<lparr>RefCount := r\<rparr>"
  by (cases d) (simp_all add: set_arcs_at_def)

lemma vertex_set:
  assumes "vertex_at G i = Inr u"
  shows "vertex_at (set_vertex i v G) j = (if j = i then Inr v else vertex_at G j)"
proof -
  obtain vs where vs: "Vertices G = Some vs" "unat i < length vs"
    using assms by (auto simp: vertex_at_def cells_def Let_def split: option.splits if_splits)
  have "unat j = unat i \<longleftrightarrow> j = i" by (simp only: word_unat_eq_iff)
  with vs show ?thesis
    by (auto simp: vertex_at_def set_vertex_def cells_def Let_def nth_list_update)
qed

lemma set_vertex_fields [simp]:
  "Arcs (set_vertex i v G) = Arcs G" "map_arc_key_to_arc (set_vertex i v G) = map_arc_key_to_arc G"
  "map_conn_to_vertex_conn (set_vertex i v G) = map_conn_to_vertex_conn G"
  "NumVertices (set_vertex i v G) = NumVertices G" "NumArcs (set_vertex i v G) = NumArcs G"
  "NumActiveVertices (set_vertex i v G) = NumActiveVertices G"
  "Vertices (set_vertex i v G) = None \<longleftrightarrow> Vertices G = None"
  by (simp_all add: set_vertex_def)

lemma vertex_at_cong: "Vertices G' = Vertices G \<Longrightarrow> vertex_at G' i = vertex_at G i"
  by (simp add: vertex_at_def)

section \<open>Dropping a number from a list\<close>

lemma drop_loop_none:
  "(\<And>j. i \<le> j \<Longrightarrow> j < i + n \<Longrightarrow> j < length (cells (al_cells (arcs_at d v))) \<and>
      cells (al_cells (arcs_at d v)) ! j \<noteq> a) \<Longrightarrow> drop_arc_loop d a i n v = Inr v"
proof (induction n arbitrary: i)
  case (Suc n)
  have "i < length (cells (al_cells (arcs_at d v))) \<and> cells (al_cells (arcs_at d v)) ! i \<noteq> a"
    by (rule Suc.prems) simp_all
  moreover have "drop_arc_loop d a (i + 1) n v = Inr v"
    by (rule Suc.IH) (rule Suc.prems; simp)
  ultimately show ?case by (auto simp: Let_def)
qed simp

lemma drop_loop_split:
  "drop_arc_loop d a i (m + n) v =
     and_then (drop_arc_loop d a i m v) (drop_arc_loop d a (i + m) n)"
  by (induction m arbitrary: i v) (simp_all add: Let_def)

lemma drop_loop_effect:
  assumes l: "arc_list_ok (arcs_at d v) S" and a: "a \<in> S" "0 \<le> a"
  obtains l' where "drop_arc_loop d a 0 (unat (al_count (arcs_at d v))) v =
      Inr (set_arcs_at d l' (v\<lparr>RefCount := RefCount v - 1\<rparr>))"
    "arc_list_ok l' (S - {a})" "al_count l' = al_count (arcs_at d v)"
    "\<forall>k. cells (al_cells l') ! k = cells (al_cells (arcs_at d v)) ! k \<or> cells (al_cells l') ! k = - 1"
proof -
  let ?l = "arcs_at d v" and ?cs = "cells (al_cells (arcs_at d v))"
  let ?c = "unat (al_count ?l)"
  have len: "?c \<le> length ?cs" and dist: "distinct (used_cells ?l)" and S: "set (used_cells ?l) = S"
    and inuse: "unat (al_inuse ?l) = card S"
    using l by (simp_all add: arc_list_ok_def)
  have "a \<in> set (take ?c ?cs)" using a S by (auto simp: used_cells_def)
  then obtain xs ys where split: "take ?c ?cs = xs @ a # ys" by (auto simp: in_set_conv_decomp)
  let ?p = "length xs"
  let ?l' = "?l\<lparr>al_cells := Some (?cs[?p := - 1]), al_inuse := al_inuse ?l - 1\<rparr>"
  let ?v = "set_arcs_at d ?l' (v\<lparr>RefCount := RefCount v - 1\<rparr>)"
  have c: "?c = ?p + Suc (length ys)"
    using arg_cong [OF split, of length] len by simp
  have nth: "?cs ! j = (xs @ a # ys) ! j" if "j < ?c" for j
    using that split by (metis nth_take)
  have nd: "a \<notin> set xs" "a \<notin> set ys"
    using dist split a(2) by (auto simp: used_cells_def)
  have new: "take ?c (?cs[?p := - 1]) = xs @ (- 1) # ys"
    using split by (simp add: take_update_swap)
  have used: "used_cells ?l = filter (\<lambda>a. 0 \<le> a) xs @ a # filter (\<lambda>a. 0 \<le> a) ys"
    using split a(2) by (simp add: used_cells_def)
  have used': "used_cells ?l' = filter (\<lambda>a. 0 \<le> a) xs @ filter (\<lambda>a. 0 \<le> a) ys"
    using new by (simp add: used_cells_def cells_def)
  have pos: "al_inuse ?l \<noteq> 0"
  proof
    assume "al_inuse ?l = 0"
    then have "card S = 0" using inuse by simp
    then show False using a(1) S by (auto dest: sym)
  qed
  have "unat (al_inuse ?l - 1) = card S - 1"
    using inuse pos by (simp add: unat_minus_one)
  then have ok: "arc_list_ok ?l' (S - {a})"
    using len dist S used used' nd a(1) by (auto simp: arc_list_ok_def cells_def)
  have "drop_arc_loop d a 0 ?p v = Inr v"
  proof (rule drop_loop_none)
    fix j assume "0 \<le> j" "j < 0 + ?p"
    then have "?cs ! j = xs ! j" "j < length xs" "j < ?c" using nth [of j] c by (simp_all add: nth_append)
    with nd(1) len show "j < length ?cs \<and> ?cs ! j \<noteq> a" by (auto dest: nth_mem)
  qed
  moreover have "drop_arc_loop d a ?p (Suc (length ys)) v = drop_arc_loop d a (?p + 1) (length ys) ?v"
    using nth [of ?p] c len by (simp add: Let_def)
  moreover have "drop_arc_loop d a (?p + 1) (length ys) ?v = Inr ?v"
  proof (rule drop_loop_none)
    fix j assume j: "?p + 1 \<le> j" "j < ?p + 1 + length ys"
    then have "?cs ! j = ys ! (j - ?p - 1)" "j - ?p - 1 < length ys" "j < length ?cs"
      using nth [of j] c len by (simp_all add: nth_append)
    with nd(2) j(1) show "j < length (cells (al_cells (arcs_at d ?v))) \<and>
        cells (al_cells (arcs_at d ?v)) ! j \<noteq> a"
      by (auto simp: cells_def dest: nth_mem)
  qed
  ultimately have "drop_arc_loop d a 0 ?c v = Inr ?v"
    unfolding c drop_loop_split by simp
  from that [OF this ok] show thesis by (simp add: cells_def nth_list_update_if)
qed


section \<open>Removing an arc\<close>

text \<open>\<open>G'\<close> has the vertices of \<open>G\<close> and some of its arcs; cells change only by being marked free.\<close>

definition thins :: "clGraphData_t \<Rightarrow> clGraphData_t \<Rightarrow> bool" where
  "thins G G' \<longleftrightarrow> NumVertices G' = NumVertices G \<and>
     map_conn_to_vertex_conn G' = map_conn_to_vertex_conn G \<and>
     (Vertices G' = None \<longleftrightarrow> Vertices G = None) \<and>
     (\<forall>i v. vertex_at G i = Inr v \<longrightarrow> (\<exists>v'. vertex_at G' i = Inr v' \<and> Connection v' = Connection v \<and>
        (\<forall>d. al_count (arcs_at d v') = al_count (arcs_at d v) \<and>
          (\<forall>k. cells (al_cells (arcs_at d v')) ! k = cells (al_cells (arcs_at d v)) ! k \<or>
             cells (al_cells (arcs_at d v')) ! k = - 1)))) \<and>
     (\<forall>a x. arc_at G' a = Some x \<longrightarrow> arc_at G a = Some x)"

lemma thins_refl [simp]: "thins G G"
  by (simp add: thins_def)

lemma thins_vertex:
  assumes "thins G G'" "vertex_at G i = Inr v"
  obtains v' where "vertex_at G' i = Inr v'" "Connection v' = Connection v"
    "\<forall>d. al_count (arcs_at d v') = al_count (arcs_at d v) \<and>
       (\<forall>k. cells (al_cells (arcs_at d v')) ! k = cells (al_cells (arcs_at d v)) ! k \<or>
          cells (al_cells (arcs_at d v')) ! k = - 1)"
  using assms unfolding thins_def by blast

lemma thins_trans:
  assumes "thins G G'" "thins G' G''"
  shows "thins G G''"
proof -
  have "\<exists>v''. vertex_at G'' i = Inr v'' \<and> Connection v'' = Connection v \<and>
      (\<forall>d. al_count (arcs_at d v'') = al_count (arcs_at d v) \<and>
        (\<forall>k. cells (al_cells (arcs_at d v'')) ! k = cells (al_cells (arcs_at d v)) ! k \<or>
           cells (al_cells (arcs_at d v'')) ! k = - 1))" if v: "vertex_at G i = Inr v" for i v
  proof -
    obtain v' where 1: "vertex_at G' i = Inr v'" "Connection v' = Connection v"
      "\<forall>d. al_count (arcs_at d v') = al_count (arcs_at d v) \<and>
         (\<forall>k. cells (al_cells (arcs_at d v')) ! k = cells (al_cells (arcs_at d v)) ! k \<or>
            cells (al_cells (arcs_at d v')) ! k = - 1)" by (rule thins_vertex [OF assms(1) v])
    obtain v'' where 2: "vertex_at G'' i = Inr v''" "Connection v'' = Connection v'"
      "\<forall>d. al_count (arcs_at d v'') = al_count (arcs_at d v') \<and>
         (\<forall>k. cells (al_cells (arcs_at d v'')) ! k = cells (al_cells (arcs_at d v')) ! k \<or>
            cells (al_cells (arcs_at d v'')) ! k = - 1)" by (rule thins_vertex [OF assms(2) 1(1)])
    from 1(2,3) 2 show ?thesis by metis
  qed
  then show ?thesis using assms unfolding thins_def by simp
qed

lemma drop_at_effect:
  assumes v: "vertex_at G i = Inr v" and l: "arc_list_ok (arcs_at d v) S" and a: "a \<in> S" "0 \<le> a"
  obtains l' n where "drop_arc_at d a i G =
      Inr ((set_vertex i (set_arcs_at d l' (v\<lparr>RefCount := RefCount v - 1\<rparr>)) G)\<lparr>NumActiveVertices := n\<rparr>)"
    "arc_list_ok l' (S - {a})" "al_count l' = al_count (arcs_at d v)"
    "\<forall>k. cells (al_cells l') ! k = cells (al_cells (arcs_at d v)) ! k \<or> cells (al_cells l') ! k = - 1"
proof -
  obtain l' where l': "drop_arc_loop d a 0 (unat (al_count (arcs_at d v))) v =
      Inr (set_arcs_at d l' (v\<lparr>RefCount := RefCount v - 1\<rparr>))"
    "arc_list_ok l' (S - {a})" "al_count l' = al_count (arcs_at d v)"
    "\<forall>k. cells (al_cells l') ! k = cells (al_cells (arcs_at d v)) ! k \<or> cells (al_cells l') ! k = - 1"
    by (rule drop_loop_effect [OF l a])
  let ?G = "set_vertex i (set_arcs_at d l' (v\<lparr>RefCount := RefCount v - 1\<rparr>)) G"
  have same: "?G = ?G\<lparr>NumActiveVertices := NumActiveVertices ?G\<rparr>" by simp
  have "\<exists>n. drop_arc_at d a i G = Inr (?G\<lparr>NumActiveVertices := n\<rparr>)"
  proof (cases "RefCount v - 1 = 0")
    case True
    then show ?thesis using v l'(1) by (auto simp: drop_arc_at_def Let_def)
  next
    case False
    then have "drop_arc_at d a i G = Inr ?G" using v l'(1) by (simp add: drop_arc_at_def Let_def)
    with same show ?thesis by metis
  qed
  with l' that show thesis by blast
qed

lemma vertex_active [simp]:
  "vertex_at (G\<lparr>NumActiveVertices := n\<rparr>) i = vertex_at G i"
  "vertex_at (G\<lparr>NumArcs := m\<rparr>) i = vertex_at G i"
  "vertex_at (G\<lparr>Arcs := A\<rparr>) i = vertex_at G i"
  "vertex_at (G\<lparr>map_arc_key_to_arc := K\<rparr>) i = vertex_at G i"
  by (simp_all add: vertex_at_def)

lemma conns_ok_cong:
  assumes "conns_ok G" "NumVertices G' = NumVertices G"
    "map_conn_to_vertex_conn G' = map_conn_to_vertex_conn G" "Vertices G' = None \<longleftrightarrow> Vertices G = None"
    "\<And>i. i < NumVertices G \<Longrightarrow> (\<exists>v. vertex_at G' i = Inr v \<and> Connection v = c i) \<and>
       (\<exists>v. vertex_at G i = Inr v \<and> Connection v = c i)"
  shows "conns_ok G'"
proof -
  have "(\<exists>v. vertex_at G' i = Inr v \<and> Connection v = e) \<longleftrightarrow> (\<exists>v. vertex_at G i = Inr v \<and> Connection v = e)"
    if "i < NumVertices G" for i e
    using assms(5) [OF that] by auto
  moreover have "CLGraphFindConnVertex G' e = CLGraphFindConnVertex G e" for e
    using assms(3,4) by (simp add: CLGraphFindConnVertex_def)
  ultimately show ?thesis using assms(1-4) unfolding conns_ok_def by auto
qed

end
