(* ===== verification/CreditGraphArcs.thy ===== *)
theory CreditGraphArcs
  imports CreditGraphInv
begin

text \<open>
  Removing an arc keeps the invariant, and the arcs that are left are the others.
\<close>

section \<open>The maps\<close>

lemma arc_at_cong: "Arcs G' = Arcs G \<Longrightarrow> arc_at G' b = arc_at G b"
  by (simp add: arc_at_def)

lemma arc_at_Some:
  assumes "arcs_ok G" "arc_at G a = Some x"
  shows "0 \<le> a" "a < 2 ^ 31" "qm_get (Arcs G) (word_of_int a) = Some x"
    "ucast (a_Id x) = (word_of_int a :: u64)" "Source x \<noteq> Sink x"
    "Source x < NumVertices G" "Sink x < NumVertices G"
    "qm_get (map_arc_key_to_arc G) (arc_key (Source x) (Sink x)) = Some x"
  using assms unfolding arcs_ok_def by (auto simp: arc_at_def split: if_splits)

lemma arc_at_remove:
  assumes "0 \<le> a" "a < 2 ^ 31" "Arcs G' = qm_remove (word_of_int a) (Arcs G)"
  shows "arc_at G' b = (if b = a then None else arc_at G b)"
proof -
  have "(word_of_int b :: u64) = word_of_int a \<longleftrightarrow> b = a" if "0 \<le> b" "b < 2 ^ 31"
    using word_of_int_small [OF that] word_of_int_small [OF assms(1,2)] by metis
  then show ?thesis using assms(3) by (auto simp: arc_at_def qm_get_remove)
qed

lemma arcs_ok_remove:
  assumes G: "arcs_ok G" and x: "arc_at G a = Some x"
    and G': "Arcs G' = qm_remove (word_of_int a) (Arcs G)"
      "map_arc_key_to_arc G' = qm_remove (arc_key (Source x) (Sink x)) (map_arc_key_to_arc G)"
      "NumVertices G' = NumVertices G"
  shows "arcs_ok G'"
proof -
  note x = arc_at_Some [OF G x]
  have "length (Arcs G') \<le> length (Arcs G)" using G' by (simp add: qm_remove_def)
  moreover have "qm_get (map_arc_key_to_arc G') (arc_key s t) = Some y \<longleftrightarrow>
      Source y = s \<and> Sink y = t \<and> qm_get (Arcs G') (ucast (a_Id y)) = Some y" for s t y
  proof -
    have y: "qm_get (map_arc_key_to_arc G) (arc_key s t) = Some y \<longleftrightarrow>
        Source y = s \<and> Sink y = t \<and> qm_get (Arcs G) (ucast (a_Id y)) = Some y"
      using G unfolding arcs_ok_def by blast
    show ?thesis
    proof (cases "s = Source x \<and> t = Sink x")
      case True
      have "qm_get (Arcs G') (ucast (a_Id y)) \<noteq> Some y" if e: "Source y = s" "Sink y = t"
      proof
        assume "qm_get (Arcs G') (ucast (a_Id y)) = Some y"
        then have g: "qm_get (Arcs G) (ucast (a_Id y)) = Some y" "ucast (a_Id y) \<noteq> (word_of_int a :: u64)"
          by (simp_all add: G' qm_get_remove split: if_splits)
        then have "y = x" using y e True x(8) by simp
        with g(2) x(4) show False by simp
      qed
      with True show ?thesis by (auto simp: G' qm_get_remove)
    next
      case False
      then have "arc_key s t \<noteq> arc_key (Source x) (Sink x)" by (simp add: arc_key_inj)
      moreover have "ucast (a_Id y) \<noteq> (word_of_int a :: u64)"
        if "Source y = s" "Sink y = t" "qm_get (Arcs G) (ucast (a_Id y)) = Some y"
        using that x(3) False by auto
      ultimately show ?thesis unfolding G' qm_get_remove using y by auto
    qed
  qed
  moreover have "unat k < 2 ^ 31 \<and> ucast (a_Id y) = k \<and> Source y \<noteq> Sink y \<and>
      Source y < NumVertices G' \<and> Sink y < NumVertices G'" if "qm_get (Arcs G') k = Some y" for k y
  proof -
    have "qm_get (Arcs G) k = Some y" using that by (simp add: G' qm_get_remove split: if_splits)
    with G show ?thesis unfolding arcs_ok_def G' by blast
  qed
  moreover have "qm_wf (Arcs G')" "qm_wf (map_arc_key_to_arc G')" "length (Arcs G) < 2 ^ 31"
    using G by (simp_all add: arcs_ok_def G' qm_wf_remove)
  ultimately show ?thesis unfolding arcs_ok_def by (intro conjI allI) (blast, blast, linarith, blast+)
qed

lemma length_remove:
  assumes "qm_wf m" "qm_get m k = Some v"
  shows "length m = Suc (length (qm_remove k m))"
proof -
  have "dom (qm_get (qm_remove k m)) = dom (qm_get m) - {k}"
    by (auto simp: qm_get_remove dom_def split: if_splits)
  moreover have "k \<in> dom (qm_get m)" using assms(2) by auto
  moreover from this have "card (dom (qm_get m)) = Suc (card (dom (qm_get m) - {k}))"
    by (metis card_Suc_Diff1 qm_dom_finite)
  ultimately show ?thesis using assms(1) by (simp add: qm_length qm_wf_remove)
qed

lemma edges_remove:
  assumes "arcs_ok G" "arc_at G a = Some x" "\<And>b. arc_at G' b = (if b = a then None else arc_at G b)"
  shows "edges G' = edges G - {(Source x, Sink x)}"
proof -
  have "(Source y, Sink y) \<noteq> (Source x, Sink x)" if "arc_at G b = Some y" "b \<noteq> a" for b y
    using arc_unique [OF assms(1) that(1) assms(2)] that(2) by auto
  moreover have "y = x" if "arc_at G a = Some y" for y using that assms(2) by simp
  ultimately show ?thesis unfolding edges_def assms(3) by (fastforce split: if_splits)
qed

section \<open>The vertices\<close>

lemma arcs_with_remove:
  assumes "arc_at G a = Some x" "\<And>b. arc_at G' b = (if b = a then None else arc_at G b)"
  shows "arcs_with d G' i = (if i = arc_end d x then arcs_with d G i - {a} else arcs_with d G i)"
  using assms by (auto simp: arcs_with_def)

lemma vertex_ok_same:
  assumes "vertex_ok G i v" "\<And>d. arcs_with d G' i = arcs_with d G i"
  shows "vertex_ok G' i v"
  using assms by (simp add: vertex_ok_def)

lemma vertex_ok_drop:
  assumes v: "vertex_ok G i v" and a: "a \<in> arcs_with d G i"
    and l': "arc_list_ok l' (arcs_with d G i - {a})"
    and G': "arcs_with d G' i = arcs_with d G i - {a}" "\<And>e. e \<noteq> d \<Longrightarrow> arcs_with e G' i = arcs_with e G i"
  shows "vertex_ok G' i (set_arcs_at d l' (v\<lparr>RefCount := RefCount v - 1\<rparr>))"
proof -
  let ?v = "set_arcs_at d l' (v\<lparr>RefCount := RefCount v - 1\<rparr>)"
  have "arc_list_ok (arcs_at e ?v) (arcs_with e G' i)" for e
    using v l' G' by (cases "e = d") (simp_all add: vertex_ok_def)
  moreover have "unat (RefCount v - 1) = card (arcs_with Out G' i) + card (arcs_with In G' i)"
  proof -
    have "card (arcs_with d G i) = Suc (card (arcs_with d G' i))"
      using a G'(1) by (simp add: card_Suc_Diff1 arcs_with_finite del: card_Diff_insert)
    then have *: "unat (RefCount v) = Suc (card (arcs_with Out G' i) + card (arcs_with In G' i))"
      using v G'(2) by (cases d) (simp_all add: vertex_ok_def)
    then have "RefCount v \<noteq> 0" by auto
    with * show ?thesis by (simp add: unat_minus_one)
  qed
  ultimately show ?thesis using v by (simp add: vertex_ok_def)
qed

section \<open>Removal\<close>

lemma del_arc_effect:
  assumes G: "graph_ok G" and x: "arc_at G a = Some x"
  obtains G' where "CLGraphDataDelArc a G = Inr G'" "graph_ok G'" "thins G G'"
    "\<forall>b. arc_at G' b = (if b = a then None else arc_at G b)"
    "edges G' = edges G - {(Source x, Sink x)}" "length (Arcs G) = Suc (length (Arcs G'))"
proof -
  have ok: "arcs_ok G" "conns_ok G" and vs: "\<And>i. i < NumVertices G \<Longrightarrow> \<exists>v. vertex_at G i = Inr v \<and> vertex_ok G i v"
    using G by (simp_all add: graph_ok_def)
  note xs = arc_at_Some [OF ok(1) x]
  let ?s = "Source x" and ?t = "Sink x"
  let ?G2 = "G\<lparr>Arcs := qm_remove (word_of_int a) (Arcs G),
    map_arc_key_to_arc := qm_remove (arc_key ?s ?t) (map_arc_key_to_arc G)\<rparr>"
  obtain v where v: "vertex_at G ?s = Inr v" "vertex_ok G ?s v" using vs xs(6) by blast
  obtain w where w: "vertex_at G ?t = Inr w" "vertex_ok G ?t w" using vs xs(7) by blast
  have a: "a \<in> arcs_with Out G ?s" "a \<in> arcs_with In G ?t"
    using x by (simp_all add: arcs_with_iff arc_end_def)
  have l: "arc_list_ok (arcs_at Out v) (arcs_with Out G ?s)" "arc_list_ok (arcs_at In w) (arcs_with In G ?t)"
    using v w by (simp_all add: vertex_ok_def)
  have v2: "vertex_at ?G2 ?s = Inr v" using v by simp
  obtain m n where m: "drop_arc_at Out a ?s ?G2 =
      Inr ((set_vertex ?s (set_arcs_at Out m (v\<lparr>RefCount := RefCount v - 1\<rparr>)) ?G2)\<lparr>NumActiveVertices := n\<rparr>)"
    "arc_list_ok m (arcs_with Out G ?s - {a})" "al_count m = al_count (arcs_at Out v)"
    "\<forall>k. cells (al_cells m) ! k = cells (al_cells (arcs_at Out v)) ! k \<or> cells (al_cells m) ! k = - 1"
    by (rule drop_at_effect [OF v2 l(1) a(1) xs(1)])
  let ?v = "set_arcs_at Out m (v\<lparr>RefCount := RefCount v - 1\<rparr>)"
  let ?G3 = "(set_vertex ?s ?v ?G2)\<lparr>NumActiveVertices := n\<rparr>"
  have G3: "vertex_at ?G3 j = (if j = ?s then Inr ?v else vertex_at G j)" for j
    using vertex_set [OF v2] by simp
  then have w3: "vertex_at ?G3 ?t = Inr w" using w xs(5) by simp
  obtain m' n' where m': "drop_arc_at In a ?t ?G3 =
      Inr ((set_vertex ?t (set_arcs_at In m' (w\<lparr>RefCount := RefCount w - 1\<rparr>)) ?G3)\<lparr>NumActiveVertices := n'\<rparr>)"
    "arc_list_ok m' (arcs_with In G ?t - {a})" "al_count m' = al_count (arcs_at In w)"
    "\<forall>k. cells (al_cells m') ! k = cells (al_cells (arcs_at In w)) ! k \<or> cells (al_cells m') ! k = - 1"
    by (rule drop_at_effect [OF w3 l(2) a(2) xs(1)])
  let ?w = "set_arcs_at In m' (w\<lparr>RefCount := RefCount w - 1\<rparr>)"
  let ?G4 = "(set_vertex ?t ?w ?G3)\<lparr>NumActiveVertices := n'\<rparr>"
  let ?G' = "?G4\<lparr>NumArcs := NumArcs ?G4 - 1\<rparr>"
  have G': "vertex_at ?G' j = (if j = ?t then Inr ?w else if j = ?s then Inr ?v else vertex_at G j)" for j
    using vertex_set [OF w3] G3 by simp
  have key: "map_arc_key_to_arc G \<noteq> []" using xs(8) by auto
  have run: "CLGraphDataDelArc a G = Inr ?G'"
    using xs key m(1) m'(1) by (simp add: CLGraphDataDelArc_def CLGraphFindSrcSinkArc_def Let_def)
  have at: "arc_at ?G' b = (if b = a then None else arc_at G b)" for b
    by (rule arc_at_remove [OF xs(1,2)]) simp
  have len: "length (Arcs G) = Suc (length (Arcs ?G'))"
    using length_remove [OF _ xs(3)] ok(1) by (simp add: arcs_ok_def)
  have ok': "arcs_ok ?G'" by (rule arcs_ok_remove [OF ok(1) x]) simp_all
  have "conns_ok ?G'"
  proof (rule conns_ok_cong [OF ok(2)])
    fix i assume "i < NumVertices G"
    then obtain u where u: "vertex_at G i = Inr u" using vs by blast
    show "(\<exists>u'. vertex_at ?G' i = Inr u' \<and> Connection u' = Connection (projr (vertex_at G i))) \<and>
        (\<exists>u. vertex_at G i = Inr u \<and> Connection u = Connection (projr (vertex_at G i)))"
      using u v(1) w(1) G' by auto
  qed simp_all
  moreover have "\<exists>u. vertex_at ?G' i = Inr u \<and> vertex_ok ?G' i u" if i: "i < NumVertices ?G'" for i
  proof -
    have sides: "arcs_with d ?G' i = (if i = arc_end d x then arcs_with d G i - {a} else arcs_with d G i)" for d
      by (rule arcs_with_remove [OF x at])
    consider "i = ?t" | "i = ?s" "i \<noteq> ?t" | "i \<noteq> ?s" "i \<noteq> ?t" by blast
    then show ?thesis
    proof cases
      case 1
      then have "arcs_with In ?G' i = arcs_with In G i - {a}"
        "\<And>e. e \<noteq> In \<Longrightarrow> arcs_with e ?G' i = arcs_with e G i"
        using sides xs(5) by (auto simp: arc_end_def split: side.splits)
      with 1 have "vertex_ok ?G' i ?w" using vertex_ok_drop [of G i w a In m' ?G'] w(2) a(2) m'(2) by metis
      with 1 G' show ?thesis by simp
    next
      case 2
      then have "arcs_with Out ?G' i = arcs_with Out G i - {a}"
        "\<And>e. e \<noteq> Out \<Longrightarrow> arcs_with e ?G' i = arcs_with e G i"
        using sides by (auto simp: arc_end_def split: side.splits)
      with 2 have "vertex_ok ?G' i ?v" using vertex_ok_drop [of G i v a Out m ?G'] v(2) a(1) m(2) by metis
      with 2 G' show ?thesis by simp
    next
      case 3
      then have "\<And>d. arcs_with d ?G' i = arcs_with d G i" using sides by (auto simp: arc_end_def split: side.splits)
      moreover obtain u where u: "vertex_at G i = Inr u" "vertex_ok G i u" using vs i by auto
      ultimately have "vertex_ok ?G' i u" using vertex_ok_same by blast
      with 3 G' u(1) show ?thesis by simp
    qed
  qed
  ultimately have "graph_ok ?G'" using ok' by (simp only: graph_ok_def) blast
  moreover have "thins G ?G'"
  proof -
    have "al_count (arcs_at d ?v) = al_count (arcs_at d v) \<and>
        (\<forall>k. cells (al_cells (arcs_at d ?v)) ! k = cells (al_cells (arcs_at d v)) ! k \<or>
           cells (al_cells (arcs_at d ?v)) ! k = - 1)" for d
      using m(3,4) by (cases d) simp_all
    moreover have "al_count (arcs_at d ?w) = al_count (arcs_at d w) \<and>
        (\<forall>k. cells (al_cells (arcs_at d ?w)) ! k = cells (al_cells (arcs_at d w)) ! k \<or>
           cells (al_cells (arcs_at d ?w)) ! k = - 1)" for d
      using m'(3,4) by (cases d) simp_all
    ultimately have vert: "\<exists>u'. vertex_at ?G' i = Inr u' \<and> Connection u' = Connection u \<and>
        (\<forall>d. al_count (arcs_at d u') = al_count (arcs_at d u) \<and>
          (\<forall>k. cells (al_cells (arcs_at d u')) ! k = cells (al_cells (arcs_at d u)) ! k \<or>
             cells (al_cells (arcs_at d u')) ! k = - 1))" if "vertex_at G i = Inr u" for i u
      using that G' [of i] v(1) w(1) by (cases "i = ?t"; cases "i = ?s") auto
    moreover have "arc_at ?G' b = Some y \<Longrightarrow> arc_at G b = Some y" for b y
      using at [of b] by (simp split: if_splits)
    ultimately show ?thesis unfolding thins_def by (intro conjI allI impI) (simp_all only: vert, simp_all)
  qed
  ultimately show thesis using that run at edges_remove [OF ok(1) x at] len by metis
qed

end
