(* ===== verification/CycleCore.thy ===== *)
theory CycleCore
  imports Prelude
begin

text \<open>
  Finite relations without dead ends: what is left when edges into vertices that have no way out,
  and edges out of vertices that have no way in, are removed as long as there are some.
\<close>

definition dead_edge :: "('a \<times> 'a) set \<Rightarrow> 'a \<times> 'a \<Rightarrow> bool" where
  "dead_edge E e \<longleftrightarrow> (\<forall>u. (snd e, u) \<notin> E) \<or> (\<forall>u. (u, fst e) \<notin> E)"

text \<open>The edges on a walk from a cycle to a cycle.\<close>

definition between_cycles :: "('a \<times> 'a) set \<Rightarrow> ('a \<times> 'a) set" where
  "between_cycles E = {(a, b) \<in> E. (\<exists>x. (x, x) \<in> E\<^sup>+ \<and> (x, a) \<in> E\<^sup>*) \<and> (\<exists>y. (b, y) \<in> E\<^sup>* \<and> (y, y) \<in> E\<^sup>+)}"

lemma between_cycles_subset: "between_cycles E \<subseteq> E"
  by (auto simp: between_cycles_def)

lemma between_cycles_mono: "E \<subseteq> F \<Longrightarrow> between_cycles E \<subseteq> between_cycles F"
  unfolding between_cycles_def using rtrancl_mono [of E F] trancl_mono [of _ E F] by blast

lemma between_cycles_not_dead: "e \<in> between_cycles E \<Longrightarrow> \<not> dead_edge (between_cycles E) e"
proof -
  obtain a b where e: "e = (a, b)" by (cases e)
  assume "e \<in> between_cycles E"
  then obtain x y where ab: "(a, b) \<in> E" and x: "(x, x) \<in> E\<^sup>+" "(x, a) \<in> E\<^sup>*"
    and y: "(b, y) \<in> E\<^sup>*" "(y, y) \<in> E\<^sup>+"
    by (auto simp: e between_cycles_def)
  have "(b, y) \<in> E\<^sup>+" using y by (rule rtrancl_trancl_trancl)
  then obtain u where u: "(b, u) \<in> E" "(u, y) \<in> E\<^sup>*" by (blast dest: tranclD)
  have "(x, a) \<in> E\<^sup>+" using x by (rule trancl_rtrancl_trancl)
  then obtain w where w: "(x, w) \<in> E\<^sup>*" "(w, a) \<in> E" by (blast dest: tranclD2)
  have "(b, u) \<in> between_cycles E" "(w, a) \<in> between_cycles E"
    using u w ab x y unfolding between_cycles_def
    by (auto intro: rtrancl_into_rtrancl converse_rtrancl_into_rtrancl)
  then show ?thesis by (auto simp: dead_edge_def e)
qed

text \<open>In a finite relation every walk that can always go on meets a cycle.\<close>

lemma reaches_cycle:
  assumes fin: "finite F" and go: "\<forall>a b. (a, b) \<in> F \<longrightarrow> (\<exists>u. (b, u) \<in> F)" and ab: "(a, b) \<in> F"
  obtains y where "(b, y) \<in> F\<^sup>*" "(y, y) \<in> F\<^sup>+"
proof -
  let ?R = "F \<inter> {(u, v). (b, u) \<in> F\<^sup>*}"
  have "\<not> acyclic ?R"
  proof
    assume "acyclic ?R"
    then have wf: "wf (?R\<inverse>)" using fin by (intro finite_acyclic_wf_converse) simp_all
    have "b \<in> {v. (b, v) \<in> F\<^sup>* \<and> (\<exists>u. (v, u) \<in> F)}" using go ab by simp
    then obtain z where z: "(b, z) \<in> F\<^sup>*" "\<exists>u. (z, u) \<in> F"
      "\<And>v. (v, z) \<in> ?R\<inverse> \<Longrightarrow> v \<notin> {v. (b, v) \<in> F\<^sup>* \<and> (\<exists>u. (v, u) \<in> F)}"
      by (rule wfE_min [OF wf]) blast
    from z(2) obtain u where u: "(z, u) \<in> F" by blast
    then have "(u, z) \<in> ?R\<inverse>" using z(1) by simp
    from z(3) [OF this] show False using u z(1) go by (auto intro: rtrancl_into_rtrancl)
  qed
  then obtain y where y: "(y, y) \<in> ?R\<^sup>+" by (auto simp: acyclic_def)
  then obtain u where "(y, u) \<in> ?R" by (blast dest: tranclD)
  then have "(b, y) \<in> F\<^sup>*" by simp
  moreover have "(y, y) \<in> F\<^sup>+" using y by (rule trancl_mono) simp
  ultimately show thesis by (rule that)
qed

lemma not_dead_between:
  assumes fin: "finite F" and live: "\<And>e. e \<in> F \<Longrightarrow> \<not> dead_edge F e"
  shows "F \<subseteq> between_cycles F"
proof
  fix e assume e: "e \<in> F"
  obtain a b where ab: "e = (a, b)" by (cases e)
  have go: "\<forall>u v. (u, v) \<in> F \<longrightarrow> (\<exists>w. (v, w) \<in> F)"
    and origin: "\<forall>u v. (u, v) \<in> F\<inverse> \<longrightarrow> (\<exists>w. (v, w) \<in> F\<inverse>)"
    using live by (auto simp: dead_edge_def)
  have "(a, b) \<in> F" "(b, a) \<in> F\<inverse>" "finite (F\<inverse>)" using e ab fin by simp_all
  obtain y where y: "(b, y) \<in> F\<^sup>*" "(y, y) \<in> F\<^sup>+"
    by (rule reaches_cycle [OF fin go \<open>(a, b) \<in> F\<close>])
  obtain x where x: "(a, x) \<in> (F\<inverse>)\<^sup>*" "(x, x) \<in> (F\<inverse>)\<^sup>+"
    by (rule reaches_cycle [OF \<open>finite (F\<inverse>)\<close> origin \<open>(b, a) \<in> F\<inverse>\<close>])
  then have "(x, a) \<in> F\<^sup>*" "(x, x) \<in> F\<^sup>+" by (simp_all add: rtrancl_converse trancl_converse)
  with y e ab show "e \<in> between_cycles F" by (auto simp: between_cycles_def)
qed

lemma not_dead_between_eq:
  assumes "finite F" "\<And>e. e \<in> F \<Longrightarrow> \<not> dead_edge F e"
  shows "between_cycles F = F"
  using not_dead_between [OF assms] between_cycles_subset by blast

text \<open>Removing a dead edge leaves the edges between cycles alone.\<close>

lemma between_cycles_remove_dead:
  assumes fin: "finite E" and dead: "dead_edge E e"
  shows "between_cycles (E - {e}) = between_cycles E"
proof
  show "between_cycles (E - {e}) \<subseteq> between_cycles E" by (rule between_cycles_mono) blast
  let ?C = "between_cycles E"
  have "e \<notin> ?C"
    using between_cycles_not_dead [of e E] dead between_cycles_subset [of E]
    unfolding dead_edge_def by blast
  then have sub: "?C \<subseteq> E - {e}" using between_cycles_subset [of E] by blast
  have "finite ?C" using fin between_cycles_subset finite_subset by metis
  then have "?C \<subseteq> between_cycles ?C" by (rule not_dead_between) (rule between_cycles_not_dead)
  also have "\<dots> \<subseteq> between_cycles (E - {e})" by (rule between_cycles_mono [OF sub])
  finally show "?C \<subseteq> between_cycles (E - {e})" .
qed

lemma between_cycles_empty:
  assumes "finite E"
  shows "between_cycles E = {} \<longleftrightarrow> acyclic E"
proof
  assume no: "between_cycles E = {}"
  show "acyclic E"
  proof (rule acyclicI, intro allI notI)
    fix x assume x: "(x, x) \<in> E\<^sup>+"
    then obtain u where u: "(x, u) \<in> E" "(u, x) \<in> E\<^sup>*" by (blast dest: tranclD)
    with x have "(x, u) \<in> between_cycles E" by (auto simp: between_cycles_def)
    with no show False by simp
  qed
qed (auto simp: between_cycles_def acyclic_def)

end
