(* ===== verification/CreditPrune.thy ===== *)
theory CreditPrune
  imports CreditGraphArcs CycleCore
begin

text \<open>
  Pruning the dependency graph (\<^verbatim>\<open>CLGraphDataPrune\<close>): it ends, it keeps the invariant, and the arcs
  it leaves are those on a walk from a cycle to a cycle.
\<close>

section \<open>Removal of dead arcs\<close>

text \<open>\<open>prunes G G' m\<close>: \<open>G'\<close> is \<open>G\<close> without \<open>m\<close> arcs, none of them between cycles.\<close>

definition prunes :: "clGraphData_t \<Rightarrow> clGraphData_t \<Rightarrow> nat \<Rightarrow> bool" where
  "prunes G G' m \<longleftrightarrow> graph_ok G' \<and> thins G G' \<and>
     between_cycles (edges G') = between_cycles (edges G) \<and>
     length (Arcs G) = length (Arcs G') + m \<and> (m = 0 \<longrightarrow> G' = G)"

lemma prunes_refl: "graph_ok G \<Longrightarrow> prunes G G 0"
  by (simp add: prunes_def)

lemma prunes_trans: "prunes G G' m \<Longrightarrow> prunes G' G'' n \<Longrightarrow> prunes G G'' (m + n)"
  by (auto simp: prunes_def intro: thins_trans)

lemma graph_vertex:
  assumes "graph_ok G" "i < NumVertices G"
  obtains v where "vertex_at G i = Inr v" "vertex_ok G i v"
  using assms by (auto simp: graph_ok_def)

lemma vertex_ok_at: "graph_ok G \<Longrightarrow> i < NumVertices G \<Longrightarrow> vertex_at G i = Inr v \<Longrightarrow> vertex_ok G i v"
  by (fastforce simp: graph_ok_def)

lemma no_arcs_with:
  "arcs_with Out G i = {} \<longleftrightarrow> (\<forall>u. (i, u) \<notin> edges G)"
  "arcs_with In G i = {} \<longleftrightarrow> (\<forall>u. (u, i) \<notin> edges G)"
  by (auto simp: edges_def arcs_with_def arc_end_def)

lemma dead_if_one_sided:
  assumes "arcs_with (opposite d) G i = {}" "arc_at G a = Some x" "arc_end d x = i"
  shows "dead_edge (edges G) (Source x, Sink x)"
  using assms by (cases d) (auto simp: dead_edge_def no_arcs_with arc_end_def opposite_def)

lemma del_dead_arc:
  assumes G: "graph_ok G" and a: "a \<in> arcs_with d G i" and one: "arcs_with (opposite d) G i = {}"
  obtains G' where "CLGraphDataDelArc a G = Inr G'" "prunes G G' 1"
    "\<forall>e j. arcs_with e G' j \<subseteq> arcs_with e G j" "a \<notin> arcs_with d G' i"
proof -
  obtain x where x: "arc_at G a = Some x" "arc_end d x = i" using a by (auto simp: arcs_with_iff)
  obtain G' where G': "CLGraphDataDelArc a G = Inr G'" "graph_ok G'" "thins G G'"
    "\<forall>b. arc_at G' b = (if b = a then None else arc_at G b)"
    "edges G' = edges G - {(Source x, Sink x)}" "length (Arcs G) = Suc (length (Arcs G'))"
    by (rule del_arc_effect [OF G x(1)])
  have "finite (edges G)" using G by (simp add: graph_ok_def finite_edges)
  then have "between_cycles (edges G') = between_cycles (edges G)"
    using between_cycles_remove_dead dead_if_one_sided [OF one x] G'(5) by metis
  then have "prunes G G' 1" using G' by (simp add: prunes_def)
  moreover have "\<forall>e j. arcs_with e G' j \<subseteq> arcs_with e G j" "a \<notin> arcs_with d G' i"
    using G'(4) by (auto simp: arcs_with_def split: if_splits)
  ultimately show thesis using that G'(1) by blast
qed

section \<open>One side of a vertex\<close>

lemma arcs_at_cells:
  assumes "vertex_ok G i v" "k < unat (al_count (arcs_at d v))"
  shows "k < length (cells (al_cells (arcs_at d v)))"
    "0 \<le> cells (al_cells (arcs_at d v)) ! k \<Longrightarrow> cells (al_cells (arcs_at d v)) ! k \<in> arcs_with d G i"
proof -
  have l: "arc_list_ok (arcs_at d v) (arcs_with d G i)" using assms by (simp add: vertex_ok_def)
  then show k: "k < length (cells (al_cells (arcs_at d v)))"
    using assms(2) by (simp add: arc_list_ok_def)
  assume "0 \<le> cells (al_cells (arcs_at d v)) ! k"
  moreover have "cells (al_cells (arcs_at d v)) ! k \<in>
      set (take (unat (al_count (arcs_at d v))) (cells (al_cells (arcs_at d v))))"
    using k assms(2) by (metis in_set_conv_nth length_take min_less_iff_conj nth_take)
  ultimately show "cells (al_cells (arcs_at d v)) ! k \<in> arcs_with d G i"
    using l by (auto simp: arc_list_ok_def used_cells_def)
qed

lemma arcs_at_none:
  assumes "vertex_ok G i v" "\<forall>k < unat (al_count (arcs_at d v)). cells (al_cells (arcs_at d v)) ! k < 0"
  shows "arcs_with d G i = {}"
proof -
  have l: "arc_list_ok (arcs_at d v) (arcs_with d G i)" using assms by (simp add: vertex_ok_def)
  have "b < 0" if "b \<in> set (take (unat (al_count (arcs_at d v))) (cells (al_cells (arcs_at d v))))" for b
    using that assms(2) by (auto simp: in_set_conv_nth)
  then have "used_cells (arcs_at d v) = []" by (fastforce simp: used_cells_def filter_empty_conv)
  with l show ?thesis by (simp add: arc_list_ok_def)
qed

text \<open>After the arc of cell \<open>k\<close> is removed the cells up to it are free.\<close>

lemma cells_dropped:
  assumes t: "thins G G1" and G1: "graph_ok G1" "i < NumVertices G1" and v: "vertex_at G i = Inr v"
    and k: "k < unat (al_count (arcs_at d v))" and below: "\<forall>j < k. cells (al_cells (arcs_at d v)) ! j < 0"
    and gone: "cells (al_cells (arcs_at d v)) ! k \<notin> arcs_with d G1 i"
  obtains v1 where "vertex_at G1 i = Inr v1" "al_count (arcs_at d v1) = al_count (arcs_at d v)"
    "\<forall>j < k + 1. cells (al_cells (arcs_at d v1)) ! j < 0"
proof -
  let ?cs = "cells (al_cells (arcs_at d v))"
  obtain v1 where v1: "vertex_at G1 i = Inr v1" "Connection v1 = Connection v"
    "\<forall>d. al_count (arcs_at d v1) = al_count (arcs_at d v) \<and>
       (\<forall>k. cells (al_cells (arcs_at d v1)) ! k = cells (al_cells (arcs_at d v)) ! k \<or>
          cells (al_cells (arcs_at d v1)) ! k = - 1)"
    by (rule thins_vertex [OF t v])
  let ?cs1 = "cells (al_cells (arcs_at d v1))"
  have cell: "?cs1 ! j = ?cs ! j \<or> ?cs1 ! j = - 1" for j using v1(3) by blast
  have k1: "k < unat (al_count (arcs_at d v1))" using k v1(3) by metis
  have "\<not> 0 \<le> ?cs1 ! k"
  proof
    assume pos: "0 \<le> ?cs1 ! k"
    then have "?cs1 ! k = ?cs ! k" using cell [of k] by auto
    then have "?cs ! k \<in> arcs_with d G1 i"
      using arcs_at_cells(2) [OF vertex_ok_at [OF G1 v1(1)] k1 pos] by simp
    with gone show False by simp
  qed
  moreover have "?cs1 ! j < 0" if "j < k" for j using that below cell [of j] by auto
  ultimately have "\<forall>j < k + 1. ?cs1 ! j < 0" by (auto simp: less_Suc_eq)
  with that v1(1,3) show thesis by blast
qed

lemma prune_side_effect:
  assumes "graph_ok G" "i < NumVertices G" "arcs_with (opposite d) G i = {}"
    "vertex_at G i = Inr v" "k + n = unat (al_count (arcs_at d v))"
    "\<forall>j < k. cells (al_cells (arcs_at d v)) ! j < 0"
  shows "\<exists>G' m. prune_side d i k n G p = Inr (G', p + of_nat m) \<and> prunes G G' m \<and>
     arcs_with d G' i = {} \<and> arcs_with (opposite d) G' i = {}"
  using assms
proof (induction n arbitrary: k G v p)
  case 0
  have "vertex_ok G i v" by (rule vertex_ok_at [OF 0(1,2,4)])
  then have "arcs_with d G i = {}" using 0(5,6) by (intro arcs_at_none) simp_all
  moreover have "prune_side d i k 0 G p = Inr (G, p + of_nat 0)" by simp
  ultimately show ?case using prunes_refl [OF 0(1)] 0(3) by blast
next
  case (Suc n)
  let ?c = "cells (al_cells (arcs_at d v)) ! k"
  have vok: "vertex_ok G i v" by (rule vertex_ok_at [OF Suc.prems(1,2,4)])
  have k: "k < unat (al_count (arcs_at d v))" using Suc.prems(5) by simp
  note cell = arcs_at_cells [OF vok k]
  show ?case
  proof (cases "0 \<le> ?c")
    case True
    obtain G1 where G1: "CLGraphDataDelArc ?c G = Inr G1" "prunes G G1 1"
      "\<forall>e j. arcs_with e G1 j \<subseteq> arcs_with e G j" "?c \<notin> arcs_with d G1 i"
      by (rule del_dead_arc [OF Suc.prems(1) cell(2) [OF True] Suc.prems(3)])
    have t: "graph_ok G1" "thins G G1" "NumVertices G1 = NumVertices G"
      using G1(2) by (simp_all add: prunes_def thins_def)
    obtain v1 where v1: "vertex_at G1 i = Inr v1" "al_count (arcs_at d v1) = al_count (arcs_at d v)"
      "\<forall>j < k + 1. cells (al_cells (arcs_at d v1)) ! j < 0"
      by (rule cells_dropped [OF t(2,1) _ Suc.prems(4) k Suc.prems(6) G1(4)]) (use t(3) Suc.prems(2) in simp)
    have opp: "arcs_with (opposite d) G1 i = {}" using G1(3) Suc.prems(3) by blast
    obtain G' m where G': "prune_side d i (k + 1) n G1 (p + 1) = Inr (G', p + 1 + of_nat m)"
      "prunes G1 G' m" "arcs_with d G' i = {}" "arcs_with (opposite d) G' i = {}"
      using Suc.IH [OF t(1) _ opp v1(1), of "k + 1" "p + 1"] Suc.prems(2,5) t(3) v1(2,3) by auto
    have "prune_side d i k (Suc n) G p = Inr (G', p + of_nat (1 + m))"
      using Suc.prems(4) cell(1) True G1(1) G'(1) by (simp add: Let_def add.assoc)
    with G'(3,4) prunes_trans [OF G1(2) G'(2)] show ?thesis by blast
  next
    case False
    then have "\<forall>j < k + 1. cells (al_cells (arcs_at d v)) ! j < 0"
      using Suc.prems(6) by (auto simp: less_Suc_eq)
    then obtain G' m where G': "prune_side d i (k + 1) n G p = Inr (G', p + of_nat m)"
      "prunes G G' m" "arcs_with d G' i = {}" "arcs_with (opposite d) G' i = {}"
      using Suc.IH [OF Suc.prems(1-4), of "k + 1" p] Suc.prems(5) by auto
    moreover have "prune_side d i k (Suc n) G p = prune_side d i (k + 1) n G p"
      using Suc.prems(4) cell(1) False by (simp add: Let_def)
    ultimately show ?thesis by metis
  qed
qed

section \<open>A vertex and a round\<close>

text \<open>A vertex has arcs on both sides or on none.\<close>

definition two_sided :: "clGraphData_t \<Rightarrow> u32 \<Rightarrow> bool" where
  "two_sided G i \<longleftrightarrow> (arcs_with Out G i = {} \<longleftrightarrow> arcs_with In G i = {})"

lemma inuse_zero:
  assumes "vertex_ok G i v"
  shows "al_inuse (arcs_at d v) = 0 \<longleftrightarrow> arcs_with d G i = {}"
proof -
  have "unat (al_inuse (arcs_at d v)) = card (arcs_with d G i)"
    using assms by (simp add: vertex_ok_def arc_list_ok_def)
  moreover have "al_inuse (arcs_at d v) = 0 \<longleftrightarrow> unat (al_inuse (arcs_at d v)) = 0"
    by (simp add: unat_eq_0)
  ultimately show ?thesis using arcs_with_finite by simp
qed

lemma refcount_zero:
  assumes "vertex_ok G i v"
  shows "RefCount v = 0 \<longleftrightarrow> arcs_with Out G i = {} \<and> arcs_with In G i = {}"
proof -
  have "unat (RefCount v) = card (arcs_with Out G i) + card (arcs_with In G i)"
    using assms by (simp add: vertex_ok_def)
  moreover have "RefCount v = 0 \<longleftrightarrow> unat (RefCount v) = 0" by (simp add: unat_eq_0)
  ultimately show ?thesis using arcs_with_finite by simp
qed

lemma prunes_ok:
  "prunes G G' m \<Longrightarrow> graph_ok G'" "prunes G G' m \<Longrightarrow> NumVertices G' = NumVertices G"
  "prunes G G' m \<Longrightarrow> arcs_with d G' j \<subseteq> arcs_with d G j"
  by (auto simp: prunes_def thins_def arcs_with_def)

lemma prune_if_empty_effect:
  assumes "graph_ok G" "i < NumVertices G"
  obtains G' m where "prune_if_empty (opposite d) d i G p = Inr (G', p + of_nat m)" "prunes G G' m"
    "arcs_with (opposite d) G i = {} \<longrightarrow> arcs_with d G' i = {}"
    "arcs_with (opposite d) G i \<noteq> {} \<longrightarrow> G' = G"
proof -
  obtain v where v: "vertex_at G i = Inr v" "vertex_ok G i v" by (rule graph_vertex [OF assms])
  show thesis
  proof (cases "arcs_with (opposite d) G i = {}")
    case True
    have "\<exists>G' m. prune_side d i 0 (unat (al_count (arcs_at d v))) G p = Inr (G', p + of_nat m) \<and>
        prunes G G' m \<and> arcs_with d G' i = {} \<and> arcs_with (opposite d) G' i = {}"
      by (rule prune_side_effect [OF assms True v(1)]) simp_all
    then obtain G' m where "prune_side d i 0 (unat (al_count (arcs_at d v))) G p = Inr (G', p + of_nat m)"
      "prunes G G' m" "arcs_with d G' i = {}" by blast
    moreover have "al_inuse (arcs_at (opposite d) v) = 0" using True inuse_zero [OF v(2)] by blast
    ultimately show thesis using that v(1) True by (simp add: prune_if_empty_def)
  next
    case False
    then have "al_inuse (arcs_at (opposite d) v) \<noteq> 0" using inuse_zero [OF v(2)] by blast
    then have "prune_if_empty (opposite d) d i G p = Inr (G, p + of_nat 0)"
      using v(1) by (simp add: prune_if_empty_def)
    from that [OF this prunes_refl [OF assms(1)]] False show thesis by simp
  qed
qed

lemma prune_vertex_effect:
  assumes "graph_ok G" "i < NumVertices G"
  obtains G' m where "prune_vertex i G p = Inr (G', p + of_nat m)" "prunes G G' m" "two_sided G' i"
proof -
  obtain v where v: "vertex_at G i = Inr v" "vertex_ok G i v" by (rule graph_vertex [OF assms])
  show thesis
  proof (cases "RefCount v = 0")
    case True
    then have "two_sided G i" using refcount_zero [OF v(2)] by (simp add: two_sided_def)
    moreover have "prune_vertex i G p = Inr (G, p + of_nat 0)" using v(1) True by (simp add: prune_vertex_def)
    ultimately show thesis using that prunes_refl [OF assms(1)] by blast
  next
    case False
    have opp: "opposite In = Out" "opposite Out = In" by (simp_all add: opposite_def)
    obtain G1 m where G1: "prune_if_empty Out In i G p = Inr (G1, p + of_nat m)" "prunes G G1 m"
      "arcs_with Out G i = {} \<longrightarrow> arcs_with In G1 i = {}" "arcs_with Out G i \<noteq> {} \<longrightarrow> G1 = G"
      using prune_if_empty_effect [OF assms, of In p] unfolding opp by metis
    have ok1: "graph_ok G1" "i < NumVertices G1" using prunes_ok [OF G1(2)] assms(2) by simp_all
    obtain G2 n where G2: "prune_if_empty In Out i G1 (p + of_nat m) = Inr (G2, p + of_nat m + of_nat n)"
      "prunes G1 G2 n" "arcs_with In G1 i = {} \<longrightarrow> arcs_with Out G2 i = {}"
      "arcs_with In G1 i \<noteq> {} \<longrightarrow> G2 = G1"
      using prune_if_empty_effect [OF ok1, of Out "p + of_nat m"] unfolding opp by metis
    have "prune_vertex i G p = Inr (G2, p + of_nat (m + n))"
      using v(1) False G1(1) G2(1) by (simp add: prune_vertex_def add.assoc)
    moreover have "arcs_with In G2 i \<subseteq> arcs_with In G1 i" by (rule prunes_ok(3) [OF G2(2)])
    then have "two_sided G2 i" using G1(3,4) G2(3,4) unfolding two_sided_def by auto
    ultimately show thesis using that prunes_trans [OF G1(2) G2(2)] by blast
  qed
qed

lemma prune_round_effect:
  assumes "graph_ok G" "i + n = unat (NumVertices G)"
  shows "\<exists>G' m. prune_round i n G p = Inr (G', p + of_nat m) \<and> prunes G G' m \<and>
     (m = 0 \<longrightarrow> (\<forall>j. i \<le> j \<and> j < i + n \<longrightarrow> two_sided G' (of_nat j)))"
  using assms
proof (induction n arbitrary: i G p)
  case 0
  have "prune_round i 0 G p = Inr (G, p + of_nat 0)" by simp
  with prunes_refl [OF 0(1)] show ?case by force
next
  case (Suc n)
  have "unat (of_nat i :: u32) = i"
    using Suc.prems(2) unsigned_less [of "NumVertices G", where 'a = nat]
    by (simp add: unat_of_nat take_bit_nat_eq_self)
  then have i: "of_nat i < NumVertices G" using Suc.prems(2) by (simp add: word_less_nat_alt)
  obtain G1 m where G1: "prune_vertex (of_nat i) G p = Inr (G1, p + of_nat m)" "prunes G G1 m"
    "two_sided G1 (of_nat i)" by (rule prune_vertex_effect [OF Suc.prems(1) i])
  have ok1: "graph_ok G1" "i + 1 + n = unat (NumVertices G1)"
    using prunes_ok [OF G1(2)] Suc.prems(2) by simp_all
  obtain G2 l where G2: "prune_round (i + 1) n G1 (p + of_nat m) = Inr (G2, p + of_nat m + of_nat l)"
    "prunes G1 G2 l" "l = 0 \<longrightarrow> (\<forall>j. i + 1 \<le> j \<and> j < i + 1 + n \<longrightarrow> two_sided G2 (of_nat j))"
    using Suc.IH [OF ok1] by blast
  have "prune_round i (Suc n) G p = Inr (G2, p + of_nat (m + l))"
    using G1(1) G2(1) by (simp add: add.assoc)
  moreover have "two_sided G2 (of_nat j)" if "m + l = 0" "i \<le> j" "j < i + Suc n" for j
  proof (cases "j = i")
    case True
    have "G2 = G1" using G2(2) that(1) by (simp add: prunes_def)
    with True G1(3) show ?thesis by simp
  next
    case False
    with that G2(3) show ?thesis by simp
  qed
  ultimately show ?case using prunes_trans [OF G1(2) G2(2)] by blast
qed

lemma two_sided_live:
  assumes G: "graph_ok G" and two: "\<And>i. i < NumVertices G \<Longrightarrow> two_sided G i" and e: "e \<in> edges G"
  shows "\<not> dead_edge (edges G) e"
proof -
  obtain a x where x: "arc_at G a = Some x" "e = (Source x, Sink x)" using e by (auto simp: edges_def)
  have "Source x < NumVertices G" "Sink x < NumVertices G"
    using arc_at_Some [OF _ x(1)] G by (simp_all add: graph_ok_def)
  then have "two_sided G (Source x)" "two_sided G (Sink x)" using two by blast+
  with e x(2) show ?thesis by (auto simp: two_sided_def no_arcs_with dead_edge_def)
qed

section \<open>Pruning\<close>

lemma prune_effect:
  assumes "graph_ok G"
  shows "\<exists>G'. CLGraphDataPrune G = Some (Inr G') \<and> graph_ok G' \<and> thins G G' \<and>
     edges G' = between_cycles (edges G)"
  using assms
proof (induction "length (Arcs G)" arbitrary: G rule: less_induct)
  case less
  obtain G1 m where G1: "prune_round 0 (unat (NumVertices G)) G 0 = Inr (G1, of_nat m)" "prunes G G1 m"
    "m = 0 \<longrightarrow> (\<forall>j < unat (NumVertices G). two_sided G1 (of_nat j))"
    using prune_round_effect [OF less.prems, of 0 "unat (NumVertices G)" 0] by auto
  have ok1: "graph_ok G1" using G1(2) by (simp add: prunes_def)
  have "length (Arcs G) < 2 ^ 31" using less.prems by (simp add: graph_ok_def arcs_ok_def)
  then have "m < 2 ^ 32" using G1(2) by (simp add: prunes_def)
  then have "unat (of_nat m :: u32) = m" by (simp add: unat_of_nat take_bit_nat_eq_self)
  then have zero: "(of_nat m :: u32) = 0 \<longleftrightarrow> m = 0" by (metis unat_eq_0)
  show ?case
  proof (cases "m = 0")
    case True
    have "\<not> dead_edge (edges G1) e" if "e \<in> edges G1" for e
    proof (rule two_sided_live [OF ok1 _ that])
      fix i assume "i < NumVertices G1"
      then have "unat i < unat (NumVertices G)" using prunes_ok(2) [OF G1(2)] by (simp add: word_less_nat_alt)
      with G1(3) True have "two_sided G1 (of_nat (unat i))" by blast
      then show "two_sided G1 i" by simp
    qed
    then have "between_cycles (edges G1) = edges G1"
      using ok1 by (intro not_dead_between_eq) (simp_all add: graph_ok_def finite_edges)
    moreover have "CLGraphDataPrune G = Some (Inr G1)"
      using G1(1) zero True by (subst CLGraphDataPrune.simps) simp
    ultimately show ?thesis using G1(2) by (auto simp: prunes_def)
  next
    case False
    then have "length (Arcs G1) < length (Arcs G)" using G1(2) by (simp add: prunes_def)
    from less.hyps [OF this ok1] obtain G' where G': "CLGraphDataPrune G1 = Some (Inr G')"
      "graph_ok G'" "thins G1 G'" "edges G' = between_cycles (edges G1)" by blast
    have "CLGraphDataPrune G = Some (Inr G')"
      using G1(1) zero False G'(1) by (subst CLGraphDataPrune.simps) simp
    with G' G1(2) show ?thesis by (auto simp: prunes_def intro: thins_trans)
  qed
qed

end
