(* ===== verification/CreditBuild.thy ===== *)
theory CreditBuild
  imports CreditPrune
begin

text \<open>
  Building a dependency graph: adding vertices and arcs to a graph that nothing was removed from,
  when the allocations succeed.
\<close>

section \<open>Graphs under construction\<close>

text \<open>The array of the vertices is empty behind the last one; it grows by 1000 entries.\<close>

definition tail_ok :: "clGraphData_t \<Rightarrow> bool" where
  "tail_ok G \<longleftrightarrow> (Vertices G = None \<or> 1000 \<le> length (cells (Vertices G))) \<and>
     (\<forall>k. unat (NumVertices G) \<le> k \<and> k < length (cells (Vertices G)) \<longrightarrow> cells (Vertices G) ! k = None)"

lemma tail_ok_same: "Vertices G' = Vertices G \<Longrightarrow> NumVertices G' = NumVertices G \<Longrightarrow> tail_ok G' = tail_ok G"
  by (simp add: tail_ok_def)

lemma tail_ok_set:
  assumes "tail_ok G" "i < NumVertices G"
  shows "tail_ok (set_vertex i v G)"
  using assms by (cases "Vertices G") (auto simp: tail_ok_def set_vertex_def cells_def word_less_nat_alt)

lemma tail_ok_new:
  assumes G: "tail_ok G" and cs: "CLGetDynamicArray mem None (unat (NumVertices G)) (Vertices G) allocs = (FSUCCESS, Some cs, allocs')"
    and G': "Vertices G' = Some (cs[unat (NumVertices G) := Some v])" "unat (NumVertices G') = unat (NumVertices G) + 1"
  shows "tail_ok G'"
proof -
  have "cs = cells (Vertices G) \<and> Vertices G \<noteq> None \<or> cs = cells (Vertices G) @ replicate 1000 None"
    using cs by (auto simp: CLGetDynamicArray_def cells_def split: if_splits)
  moreover from this have "1000 \<le> length cs" using G by (auto simp: tail_ok_def)
  moreover have "cs ! k = None" if "unat (NumVertices G) \<le> k" "k < length cs" for k
    using calculation(1) G that by (auto simp: tail_ok_def nth_append)
  ultimately show ?thesis using G' by (simp add: tail_ok_def cells_def)
qed

text \<open>No cell is free and the arcs are numbered from 0.\<close>

definition built_ok :: "clGraphData_t \<Rightarrow> bool" where
  "built_ok G \<longleftrightarrow> graph_ok G \<and>
     (\<forall>i v d. i < NumVertices G \<longrightarrow> vertex_at G i = Inr v \<longrightarrow>
        al_count (arcs_at d v) = al_inuse (arcs_at d v)) \<and>
     (\<forall>k. qm_get (Arcs G) k \<noteq> None \<longleftrightarrow> unat k < length (Arcs G)) \<and> tail_ok G"

lemma built_okI:
  assumes "arcs_ok G" "conns_ok G"
    "\<And>j. j < NumVertices G \<Longrightarrow> \<exists>u. vertex_at G j = Inr u \<and> vertex_ok G j u \<and>
       (\<forall>d. al_count (arcs_at d u) = al_inuse (arcs_at d u))"
    "\<And>k. qm_get (Arcs G) k \<noteq> None \<longleftrightarrow> unat k < length (Arcs G)" "tail_ok G"
  shows "built_ok G"
  using assms unfolding built_ok_def graph_ok_def by (metis sum.inject(2))

definition conn_at :: "clGraphData_t \<Rightarrow> u32 \<Rightarrow> conn option" where
  "conn_at G i =
    (if i < NumVertices G then (case vertex_at G i of Inr v \<Rightarrow> Some (Connection v) | Inl _ \<Rightarrow> None)
     else None)"

lemma conn_at_Some:
  "conn_at G i = Some c \<longleftrightarrow> i < NumVertices G \<and> (\<exists>v. vertex_at G i = Inr v \<and> Connection v = c)"
  by (auto simp: conn_at_def split: sum.splits)

lemma conns_ok_same:
  assumes "conns_ok G" "conn_at G' = conn_at G"
    "map_conn_to_vertex_conn G' = map_conn_to_vertex_conn G" "Vertices G' = None \<longleftrightarrow> Vertices G = None"
  shows "conns_ok G'"
proof -
  have "CLGraphFindConnVertex G' c = CLGraphFindConnVertex G c" for c
    using assms(3,4) by (simp add: CLGraphFindConnVertex_def)
  then show ?thesis
    using assms unfolding conns_ok_def conn_at_Some [symmetric] by simp
qed

definition connections :: "clGraphData_t \<Rightarrow> conn set" where
  "connections G = ran (conn_at G)"

lemma connections_iff:
  "c \<in> connections G \<longleftrightarrow> (\<exists>i v. i < NumVertices G \<and> vertex_at G i = Inr v \<and> Connection v = c)"
  by (auto simp: connections_def ran_def conn_at_Some)

lemma graph_ok_zero: "graph_ok zero_graph" and built_ok_zero: "built_ok zero_graph"
  by (simp_all add: built_ok_def graph_ok_def arcs_ok_def conns_ok_def zero_graph_def
      CLGraphFindConnVertex_def tail_ok_def cells_def)

lemma connections_zero: "connections zero_graph = {}" and edges_zero: "edges zero_graph = {}"
  by (auto simp: connections_iff zero_graph_def edges_def arc_at_def)

lemma conn_unique:
  assumes "graph_ok G" "i < NumVertices G" "j < NumVertices G" "vertex_at G i = Inr v"
    "vertex_at G j = Inr w" "Connection v = Connection w"
  shows "i = j"
proof -
  have "CLGraphFindConnVertex G (Connection v) = Some i" "CLGraphFindConnVertex G (Connection v) = Some j"
    using assms unfolding graph_ok_def conns_ok_def by (blast, metis)
  then show ?thesis by simp
qed

lemma card_connections:
  assumes "graph_ok G"
  shows "card (connections G) = unat (NumVertices G)"
proof -
  let ?f = "\<lambda>n. Connection (projr (vertex_at G (of_nat n)))"
  let ?N = "unat (NumVertices G)"
  have le: "unat (of_nat n :: u32) = n" if "n < ?N" for n
    using that unsigned_less [of "NumVertices G", where 'a = nat]
    by (simp add: unat_of_nat take_bit_nat_eq_self)
  then have lt: "of_nat n < NumVertices G" if "n < ?N" for n using that by (simp add: word_less_nat_alt)
  have v: "\<exists>v. vertex_at G i = Inr v" if "i < NumVertices G" for i
    using assms that by (auto simp: graph_ok_def)
  have "connections G = ?f ` {..< ?N}"
  proof (intro equalityI subsetI)
    fix c assume "c \<in> connections G"
    then obtain i w where "i < NumVertices G" "vertex_at G i = Inr w" "c = Connection w"
      by (auto simp: connections_iff)
    then show "c \<in> ?f ` {..< ?N}"
      by (intro image_eqI [of _ _ "unat i"]) (simp_all add: word_less_nat_alt)
  next
    fix c assume "c \<in> ?f ` {..< ?N}"
    then obtain n where n: "n < ?N" "c = ?f n" by auto
    obtain w where "vertex_at G (of_nat n) = Inr w" using v [OF lt [OF n(1)]] by blast
    with n lt [OF n(1)] have "c = Connection w \<and> of_nat n < NumVertices G" by simp
    with \<open>vertex_at G (of_nat n) = Inr w\<close> show "c \<in> connections G" unfolding connections_iff by blast
  qed
  moreover have "inj_on ?f {..< ?N}"
  proof (rule inj_onI)
    fix m n assume mn: "m \<in> {..< ?N}" "n \<in> {..< ?N}" "?f m = ?f n"
    obtain x y where "vertex_at G (of_nat m) = Inr x" "vertex_at G (of_nat n) = Inr y"
      using v lt mn(1,2) by (metis lessThan_iff)
    then have "(of_nat m :: u32) = of_nat n"
      using conn_unique [OF assms lt lt] mn by simp
    then show "m = n" using le mn by (metis lessThan_iff)
  qed
  ultimately show ?thesis by (simp add: card_image)
qed

lemma card_edges:
  assumes ok: "arcs_ok G"
  shows "card (edges G) = length (Arcs G)"
proof -
  let ?f = "\<lambda>k. (\<lambda>x. (Source x, Sink x)) (the (qm_get (Arcs G) k))"
  have "edges G = ?f ` dom (qm_get (Arcs G))"
    unfolding edges_keys [OF ok]
  proof (intro equalityI subsetI)
    fix e assume "e \<in> {(Source x, Sink x) |k x. qm_get (Arcs G) k = Some x}"
    then obtain k x where "e = (Source x, Sink x)" "qm_get (Arcs G) k = Some x" by blast
    then show "e \<in> ?f ` dom (qm_get (Arcs G))" by (intro image_eqI [of _ _ k]) auto
  next
    fix e assume "e \<in> ?f ` dom (qm_get (Arcs G))"
    then obtain k x where "qm_get (Arcs G) k = Some x" "e = (Source x, Sink x)" by auto
    then show "e \<in> {(Source x, Sink x) |k x. qm_get (Arcs G) k = Some x}" by blast
  qed
  moreover have "inj_on ?f (dom (qm_get (Arcs G)))"
  proof (rule inj_onI)
    fix j k assume "j \<in> dom (qm_get (Arcs G))" "k \<in> dom (qm_get (Arcs G))" and f: "?f j = ?f k"
    then obtain x y where xy: "qm_get (Arcs G) j = Some x" "qm_get (Arcs G) k = Some y" by blast
    obtain a b where "arc_at G a = Some x" "word_of_int a = j" "arc_at G b = Some y" "word_of_int b = k"
      using xy arc_at_key [OF ok] by metis
    with arc_unique [OF ok] xy f show "j = k" by (metis Pair_inject option.sel)
  qed
  moreover have "length (Arcs G) = card (dom (qm_get (Arcs G)))"
    using ok by (intro qm_length) (simp add: arcs_ok_def)
  ultimately show ?thesis by (simp add: card_image)
qed

section \<open>Growing arrays\<close>

lemma dynamic_array:
  assumes "\<forall>n. mem n" "n \<le> length (cells a)"
  obtains cs allocs' where "CLGetDynamicArray mem z n a allocs = (FSUCCESS, Some cs, allocs')"
    "n < length cs" "length (cells a) \<le> length cs" "take (length (cells a)) cs = cells a"
proof (cases "a = None \<or> length (cells a) \<le> n")
  case True
  then show thesis using assms that by (simp add: CLGetDynamicArray_def cells_def)
next
  case False
  then obtain cs where "a = Some cs" "n < length cs" by (auto simp: cells_def)
  then show thesis using that by (simp add: CLGetDynamicArray_def cells_def)
qed

lemma set_new_vertex:
  assumes "Vertices G = Some vs" "unat i < length vs"
  shows "vertex_at (set_vertex i v G) j = (if j = i then Inr v else vertex_at G j)"
proof -
  have "unat j = unat i \<longleftrightarrow> j = i" by (simp only: word_unat_eq_iff)
  with assms show ?thesis
    by (auto simp: vertex_at_def set_vertex_def cells_def Let_def nth_list_update)
qed

lemma vertices_length:
  assumes "graph_ok G"
  shows "unat (NumVertices G) \<le> length (cells (Vertices G))"
proof (cases "NumVertices G = 0")
  case False
  let ?i = "NumVertices G - 1"
  have "unat ?i = unat (NumVertices G) - 1" using False by (rule unat_minus_one)
  moreover have pos: "0 < unat (NumVertices G)" using False by (simp add: unat_gt_0)
  ultimately have "?i < NumVertices G" by (simp add: word_less_nat_alt)
  then obtain v where "vertex_at G ?i = Inr v" using assms by (auto simp: graph_ok_def)
  then have "unat ?i < length (cells (Vertices G))"
    by (auto simp: vertex_at_def Let_def split: if_splits)
  with \<open>unat ?i = unat (NumVertices G) - 1\<close> pos show ?thesis by linarith
qed simp

section \<open>Adding a vertex\<close>

lemma arcs_with_same: "Arcs G' = Arcs G \<Longrightarrow> arcs_with d G' i = arcs_with d G i"
  by (simp add: arcs_with_def arc_at_def)

lemma arcs_with_new:
  assumes "arcs_ok G" "\<not> i < NumVertices G"
  shows "arcs_with d G i = {}"
  using assms arc_at_Some(6,7) [OF assms(1)] by (cases d) (auto simp: arcs_with_def arc_end_def)

text \<open>\<open>grows G G'\<close>: \<open>G'\<close> has the vertices of \<open>G\<close>, their connections and perhaps others.\<close>

definition grows :: "clGraphData_t \<Rightarrow> clGraphData_t \<Rightarrow> bool" where
  "grows G G' \<longleftrightarrow> conn_at G \<subseteq>\<^sub>m conn_at G'"

lemma grows_refl [simp]: "grows G G"
  by (simp add: grows_def)

lemma grows_trans: "grows G G' \<Longrightarrow> grows G' G'' \<Longrightarrow> grows G G''"
  unfolding grows_def by (rule map_le_trans)

lemma conn_at_inj:
  assumes "graph_ok G" "conn_at G i = Some c" "conn_at G j = Some c"
  shows "i = j"
  using assms conn_unique by (fastforce simp: conn_at_Some)

lemma unat_minus_1: "unat (- 1 :: u32) = 2 ^ 32 - 1"
  by (simp add: unsigned_minus_1_eq_mask mask_eq_exp_minus_1)

lemma less_succ:
  fixes n :: u32
  assumes "unat n < 2 ^ 32 - 1"
  shows "j < n + 1 \<longleftrightarrow> j < n \<or> j = n"
proof -
  have "unat (n + 1) = unat n + 1" using assms by (simp add: unat_add_lem [THEN iffD1])
  then have "j < n + 1 \<longleftrightarrow> unat j < unat n \<or> unat j = unat n" by (auto simp: word_less_nat_alt)
  then show ?thesis by (simp only: word_less_nat_alt word_unat_eq_iff)
qed

lemma new_vertex_effect:
  assumes G: "built_ok G" and mem: "\<forall>n. mem n" and room: "unat (NumVertices G) < 2 ^ 32 - 1"
    and new: "CLGraphFindConnVertex G c = None"
  obtains v G' allocs' where "CLGraphDataAddVertex mem c G allocs = (NumVertices G, G', allocs')"
    "built_ok G'" "NumVertices G' = NumVertices G + 1" "vertex_at G' (NumVertices G) = Inr v"
    "Connection v = c" "\<forall>j < NumVertices G. vertex_at G' j = vertex_at G j" "Arcs G' = Arcs G"
proof -
  let ?i = "NumVertices G"
  have ok: "graph_ok G" "arcs_ok G" "conns_ok G" using G by (simp_all add: built_ok_def graph_ok_def)
  have succ: "j < ?i + 1 \<longleftrightarrow> j < ?i \<or> j = ?i" for j using room by (rule less_succ)
  let ?conns = "if Vertices G = None then [] else map_conn_to_vertex_conn G"
  have conns: "qm_wf ?conns" "qm_get ?conns e = CLGraphFindConnVertex G e" for e
    using ok(3) by (auto simp: conns_ok_def CLGraphFindConnVertex_def)
  let ?v = "\<lparr>Connection = c, v_Id = ?i, RefCount = 0, Outbound = zero_arc_list, Inbound = zero_arc_list\<rparr>"
  obtain cs allocs' where cs: "CLGetDynamicArray mem None (unat ?i) (Vertices G) (allocs + 1) =
      (FSUCCESS, Some cs, allocs')" "unat ?i < length cs" "length (cells (Vertices G)) \<le> length cs"
    "take (length (cells (Vertices G))) cs = cells (Vertices G)"
    by (rule dynamic_array [OF mem vertices_length [OF ok(1)]])
  let ?G1 = "G\<lparr>Vertices := Some cs, map_conn_to_vertex_conn := ?conns\<rparr>"
  let ?G' = "(set_vertex ?i ?v ?G1)\<lparr>map_conn_to_vertex_conn := qm_insert c ?i ?conns,
    NumVertices := ?i + 1, NumActiveVertices := NumActiveVertices G + 1\<rparr>"
  have run: "CLGraphDataAddVertex mem c G allocs = (?i, ?G', allocs')"
    using new mem cs(1) unfolding CLGraphDataAddVertex_def Let_def
    by (simp only: option.case option.simps simp_thms if_False if_True split_conv not_True_eq_False)
  have at: "vertex_at ?G' j = (if j = ?i then Inr ?v else vertex_at ?G1 j)" for j
    using set_new_vertex [of ?G1 cs ?i ?v j] cs(2) by (simp add: vertex_at_def)
  have old: "vertex_at ?G' j = vertex_at G j" if "j < ?i" for j
  proof -
    have "unat j < length (cells (Vertices G))"
      using that vertices_length [OF ok(1)] by (simp add: word_less_nat_alt)
    then have "vertex_at ?G1 j = vertex_at G j"
      using cs(3,4) by (simp add: vertex_at_def cells_def Let_def) (metis nth_take)
    moreover have "j \<noteq> ?i" using that by auto
    ultimately show ?thesis using at by simp
  qed
  have arcs: "arcs_with d ?G' j = arcs_with d G j" for d j by (rule arcs_with_same) simp
  have "vertex_ok ?G' ?i ?v"
    using arcs_with_new [OF ok(2), of ?i] arcs
    by (simp add: vertex_ok_def arc_list_ok_def arcs_at_def zero_arc_list_def used_cells_def cells_def
        split: side.splits)
  moreover have "vertex_ok ?G' j w" if "j < ?i" "vertex_at G j = Inr w" for j w
    using vertex_ok_at [OF ok(1) that] arcs by (simp add: vertex_ok_def)
  ultimately have verts: "\<exists>w. vertex_at ?G' j = Inr w \<and> vertex_ok ?G' j w" if "j < ?i + 1" for j
    using that at [of ?i] old graph_vertex [OF ok(1)] unfolding succ by metis
  have "arcs_ok ?G'" using ok(2) succ by (auto simp: arcs_ok_def)
  moreover have "conns_ok ?G'"
  proof -
    have find: "CLGraphFindConnVertex ?G' e = (if e = c then Some ?i else CLGraphFindConnVertex G e)" for e
      using new qm_get_insert [OF conns(1)] conns(2) by (simp add: CLGraphFindConnVertex_def set_vertex_def)
    have "CLGraphFindConnVertex ?G' e = Some k \<longleftrightarrow>
        k < ?i + 1 \<and> (\<exists>v. vertex_at ?G' k = Inr v \<and> Connection v = e)" for e k
    proof (cases "k = ?i")
      case True
      have "CLGraphFindConnVertex G e \<noteq> Some ?i" using ok(3) by (auto simp: conns_ok_def)
      with True find at [of ?i] show ?thesis by (auto simp: succ)
    next
      case False
      then have "CLGraphFindConnVertex ?G' e = Some k \<longleftrightarrow> CLGraphFindConnVertex G e = Some k"
        using find new by auto
      moreover have "CLGraphFindConnVertex G e = Some k \<longleftrightarrow>
          k < ?i \<and> (\<exists>v. vertex_at G k = Inr v \<and> Connection v = e)"
        using ok(3) unfolding conns_ok_def by blast
      moreover have "k < ?i + 1 \<longleftrightarrow> k < ?i" using succ False by simp
      ultimately show ?thesis using old [of k] by (cases "k < ?i") (simp_all only: simp_thms)
    qed
    then show ?thesis using qm_wf_insert [OF conns(1)] by (simp add: conns_ok_def)
  qed
  ultimately have "graph_ok ?G'" using verts by (simp add: graph_ok_def)
  moreover have "al_count (arcs_at d w) = al_inuse (arcs_at d w)"
    if "j < NumVertices ?G'" "vertex_at ?G' j = Inr w" for j w d
  proof (cases "j = ?i")
    case True
    then show ?thesis using that at [of ?i]
      by (auto simp: arcs_at_def zero_arc_list_def split: side.splits)
  next
    case False
    then have "j < ?i" using that(1) succ by simp
    with that old show ?thesis using G by (metis built_ok_def)
  qed
  moreover have "tail_ok ?G'"
  proof (rule tail_ok_new [OF _ cs(1)])
    show "tail_ok G" using G by (simp add: built_ok_def)
    show "Vertices ?G' = Some (cs[unat ?i := Some ?v])" by (simp add: set_vertex_def)
    show "unat (NumVertices ?G') = unat ?i + 1" using room by (simp add: unat_add_lem [THEN iffD1])
  qed
  ultimately have "built_ok ?G'" using G unfolding built_ok_def by simp
  with that run at [of ?i] old show thesis by simp
qed

lemma add_vertex_effect:
  assumes G: "built_ok G" and mem: "\<forall>n. mem n" and room: "unat (NumVertices G) < 2 ^ 32 - 1"
  obtains i G' allocs' where "CLGraphDataAddVertex mem c G allocs = (i, G', allocs')"
    "built_ok G'" "conn_at G' i = Some c" "i \<noteq> - 1" "grows G G'" "Arcs G' = Arcs G"
    "connections G' = insert c (connections G)"
proof (cases "CLGraphFindConnVertex G c")
  case (Some i)
  then have i: "conn_at G i = Some c"
    using G unfolding built_ok_def graph_ok_def conns_ok_def conn_at_Some by blast
  have "i \<noteq> - 1" using i room by (auto simp: conn_at_Some word_less_nat_alt unat_minus_1)
  moreover have "connections G = insert c (connections G)" using i by (auto simp: connections_def ran_def)
  moreover have "CLGraphDataAddVertex mem c G allocs = (i, G, allocs)"
    using Some by (simp add: CLGraphDataAddVertex_def)
  ultimately show thesis using that G i by simp
next
  case None
  let ?i = "NumVertices G"
  obtain v G' allocs' where G': "CLGraphDataAddVertex mem c G allocs = (?i, G', allocs')"
    "built_ok G'" "NumVertices G' = ?i + 1" "vertex_at G' ?i = Inr v"
    "Connection v = c" "\<forall>j < ?i. vertex_at G' j = vertex_at G j" "Arcs G' = Arcs G"
    by (rule new_vertex_effect [OF G mem room None])
  have succ: "j < ?i + 1 \<longleftrightarrow> j < ?i \<or> j = ?i" for j using room by (rule less_succ)
  have at: "conn_at G' j = (if j = ?i then Some c else conn_at G j)" for j
    using G'(3-6) succ by (simp add: conn_at_def)
  have no: "conn_at G ?i = None" by (simp add: conn_at_def)
  have "grows G G'" using at no by (auto simp: grows_def map_le_def)
  moreover have "connections G' = insert c (connections G)"
  proof -
    have "conn_at G' = (conn_at G)(?i \<mapsto> c)" using at by auto
    with no show ?thesis by (simp add: connections_def)
  qed
  moreover have "?i \<noteq> - 1" using room by (auto simp: unat_minus_1)
  ultimately show thesis using that G' at by simp
qed

section \<open>Adding an arc\<close>

lemma length_insert: "qm_get m k = None \<Longrightarrow> length (qm_insert k v m) = Suc (length m)"
  by (induction k v m rule: qm_insert.induct) (auto simp: qm_get_def split: if_splits)

lemma card_arcs_with:
  assumes "arcs_ok G"
  shows "card (arcs_with d G i) \<le> length (Arcs G)"
proof -
  have "arcs_with d G i \<subseteq> uint ` dom (qm_get (Arcs G))"
  proof
    fix a assume "a \<in> arcs_with d G i"
    then obtain x where "0 \<le> a" "a < 2 ^ 31" "qm_get (Arcs G) (word_of_int a) = Some x"
      by (auto simp: arcs_with_def arc_at_def split: if_splits)
    then show "a \<in> uint ` dom (qm_get (Arcs G))"
      by (intro image_eqI [of _ _ "word_of_int a"]) (auto simp: word_of_int_small)
  qed
  then have "card (arcs_with d G i) \<le> card (uint ` dom (qm_get (Arcs G)))"
    by (rule card_mono [rotated]) simp
  also have "\<dots> \<le> card (dom (qm_get (Arcs G)))" by (rule card_image_le) simp
  also have "\<dots> = length (Arcs G)" using assms by (simp add: qm_length arcs_ok_def)
  finally show ?thesis .
qed

lemma append_effect:
  assumes mem: "\<forall>n. mem n" and v: "vertex_at G i = Inr v" and l: "arc_list_ok (arcs_at d v) S"
    and full: "al_count (arcs_at d v) = al_inuse (arcs_at d v)"
    and a: "sint a \<notin> S" "0 \<le> sint a" and room: "card S < 2 ^ 32 - 1" and fin: "finite S"
  obtains l' allocs' where "append_arc mem d a i G allocs =
      Inr (FSUCCESS, set_vertex i (set_arcs_at d l' (v\<lparr>RefCount := RefCount v + 1\<rparr>)) G, allocs')"
    "arc_list_ok l' (insert (sint a) S)" "al_count l' = al_inuse l'"
proof -
  let ?l = "arcs_at d v" and ?cs = "cells (al_cells (arcs_at d v))"
  let ?c = "unat (al_count ?l)"
  have ok: "?c \<le> length ?cs" "distinct (used_cells ?l)" "set (used_cells ?l) = S" "unat (al_inuse ?l) = card S"
    using l by (simp_all add: arc_list_ok_def)
  obtain cs allocs' where cs: "CLGetDynamicArray mem 0 ?c (al_cells ?l) allocs = (FSUCCESS, Some cs, allocs')"
    "?c < length cs" "length ?cs \<le> length cs" "take (length ?cs) cs = ?cs"
    by (rule dynamic_array [OF mem ok(1)])
  let ?l' = "?l\<lparr>al_cells := Some (cs[?c := sint a]), al_count := al_count ?l + 1, al_inuse := al_inuse ?l + 1\<rparr>"
  have one: "unat (al_count ?l + 1) = ?c + 1" "unat (al_inuse ?l + 1) = card S + 1"
    using full ok(4) room by (simp_all add: unat_add_lem [THEN iffD1])
  have "take ?c ?cs = take ?c cs" using cs(4) ok(1) by (metis min.absorb1 take_take)
  then have "take (?c + 1) (cs[?c := sint a]) = take ?c ?cs @ [sint a]"
    using cs(2) by (simp add: take_Suc_conv_app_nth)
  then have "used_cells ?l' = used_cells ?l @ [sint a]"
    using one(1) a(2) by (simp add: used_cells_def cells_def)
  then have "arc_list_ok ?l' (insert (sint a) S)"
    using ok one cs(2) a(1) fin by (simp add: arc_list_ok_def cells_def)
  moreover have "append_arc mem d a i G allocs =
      Inr (FSUCCESS, set_vertex i (set_arcs_at d ?l' (v\<lparr>RefCount := RefCount v + 1\<rparr>)) G, allocs')"
    using v cs(1,2) by (simp add: append_arc_def cells_def Let_def)
  ultimately show thesis using that full by simp
qed

lemma vertex_ok_append:
  assumes v: "vertex_ok G i v" and a: "a \<notin> arcs_with d G i"
    and l': "arc_list_ok l' (insert a (arcs_with d G i))"
    and G': "arcs_with d G' i = insert a (arcs_with d G i)" "\<And>e. e \<noteq> d \<Longrightarrow> arcs_with e G' i = arcs_with e G i"
    and room: "card (arcs_with Out G i) + card (arcs_with In G i) < 2 ^ 32 - 1"
  shows "vertex_ok G' i (set_arcs_at d l' (v\<lparr>RefCount := RefCount v + 1\<rparr>))"
proof -
  let ?v = "set_arcs_at d l' (v\<lparr>RefCount := RefCount v + 1\<rparr>)"
  have "arc_list_ok (arcs_at e ?v) (arcs_with e G' i)" for e
    using v l' G' by (cases "e = d") (simp_all add: vertex_ok_def)
  moreover have "unat (RefCount v + 1) = card (arcs_with Out G' i) + card (arcs_with In G' i)"
  proof -
    have ref: "unat (RefCount v) = card (arcs_with Out G i) + card (arcs_with In G i)"
      using v by (simp add: vertex_ok_def)
    have "card (arcs_with d G' i) = Suc (card (arcs_with d G i))"
      using a G'(1) by (simp add: arcs_with_finite)
    then have "Suc (unat (RefCount v)) = card (arcs_with Out G' i) + card (arcs_with In G' i)"
      using ref G'(2) by (cases d) simp_all
    moreover have "unat (RefCount v + 1) = Suc (unat (RefCount v))"
      using ref room by (simp add: unat_add_lem [THEN iffD1])
    ultimately show ?thesis by simp
  qed
  ultimately show ?thesis using v by (simp add: vertex_ok_def)
qed

lemma new_arc_id:
  assumes "n < 2 ^ 31"
  shows "sint (of_nat n :: u32) = int n" "unat (ucast (of_nat n :: u32) :: u64) = n"
    "ucast (of_nat n :: u32) = (word_of_int (int n) :: u64)"
proof -
  show "sint (of_nat n :: u32) = int n"
    using assms by (simp add: signed_of_nat signed_take_bit_int_eq_self)
  show u: "unat (ucast (of_nat n :: u32) :: u64) = n"
    using assms by (simp add: unsigned_ucast_eq unat_of_nat take_bit_nat_eq_self)
  have "unat (word_of_int (int n) :: u64) = n"
    using assms by (simp add: unat_of_nat take_bit_nat_eq_self)
  with u show "ucast (of_nat n :: u32) = (word_of_int (int n) :: u64)" by (simp only: word_unat_eq_iff)
qed

lemma arcs_ok_insert:
  assumes G: "arcs_ok G" and new: "qm_get (map_arc_key_to_arc G) (arc_key s t) = None"
    and k: "qm_get (Arcs G) (ucast i) = None" "unat (ucast i :: u64) < 2 ^ 31"
    and st: "s \<noteq> t" "s < NumVertices G" "t < NumVertices G" and room: "length (Arcs G) < 2 ^ 31 - 1"
    and x: "x = \<lparr>a_Id = i, Source = s, Sink = t\<rparr>"
    and G': "Arcs G' = qm_insert (ucast i) x (Arcs G)"
      "map_arc_key_to_arc G' = qm_insert (arc_key s t) x (map_arc_key_to_arc G)" "NumVertices G' = NumVertices G"
  shows "arcs_ok G'"
proof -
  have wf: "qm_wf (Arcs G)" "qm_wf (map_arc_key_to_arc G)" using G by (simp_all add: arcs_ok_def)
  have get: "qm_get (Arcs G') j = (if j = ucast i then Some x else qm_get (Arcs G) j)" for j
    using k(1) by (simp add: G' qm_get_insert [OF wf(1)])
  have key: "qm_get (map_arc_key_to_arc G') (arc_key s' t') =
      (if s' = s \<and> t' = t then Some x else qm_get (map_arc_key_to_arc G) (arc_key s' t'))" for s' t'
    using new by (simp add: G' qm_get_insert [OF wf(2)] arc_key_inj)
  have old: "qm_get (map_arc_key_to_arc G) (arc_key s' t') = Some y \<longleftrightarrow>
      Source y = s' \<and> Sink y = t' \<and> qm_get (Arcs G) (ucast (a_Id y)) = Some y" for s' t' y
    using G unfolding arcs_ok_def by blast
  have "qm_get (map_arc_key_to_arc G') (arc_key s' t') = Some y \<longleftrightarrow>
      Source y = s' \<and> Sink y = t' \<and> qm_get (Arcs G') (ucast (a_Id y)) = Some y" for s' t' y
  proof (cases "s' = s \<and> t' = t")
    case True
    have "y = x" if "Source y = s" "Sink y = t" "qm_get (Arcs G') (ucast (a_Id y)) = Some y"
    proof (cases "ucast (a_Id y) = (ucast i :: u64)")
      case True
      with that(3) show ?thesis by (simp add: get)
    next
      case False
      then show ?thesis using that old [of s t y] new by (simp add: get)
    qed
    moreover have "Source x = s" "Sink x = t" "qm_get (Arcs G') (ucast (a_Id x)) = Some x"
      by (simp_all add: get, simp_all add: x)
    ultimately show ?thesis using True key by auto
  next
    case False
    have "ucast (a_Id y) \<noteq> (ucast i :: u64)" if "qm_get (Arcs G) (ucast (a_Id y)) = Some y"
      using that k(1) by auto
    moreover have "Source x = s" "Sink x = t" by (simp_all add: x)
    ultimately show ?thesis using False key old [of s' t' y] get [of "ucast (a_Id y)"] by auto
  qed
  moreover have "unat j < 2 ^ 31 \<and> ucast (a_Id y) = j \<and> Source y \<noteq> Sink y \<and>
      Source y < NumVertices G' \<and> Sink y < NumVertices G'" if y: "qm_get (Arcs G') j = Some y" for j y
  proof (cases "j = ucast i")
    case True
    then have "y = x" using y by (simp add: get)
    with True show ?thesis using k(2) st x G'(3) by simp
  next
    case False
    then have "qm_get (Arcs G) j = Some y" using y by (simp add: get)
    with G show ?thesis unfolding arcs_ok_def G'(3) by blast
  qed
  moreover have "length (Arcs G') < 2 ^ 31" using room k(1) by (simp add: G' length_insert)
  moreover have "qm_wf (Arcs G')" "qm_wf (map_arc_key_to_arc G')" using wf by (simp_all add: G' qm_wf_insert)
  ultimately show ?thesis unfolding arcs_ok_def by (intro conjI allI) (blast, blast, linarith, blast+)
qed

lemma edges_insert:
  assumes at: "\<And>b. arc_at G' b = (if b = a then Some x else arc_at G b)" and none: "arc_at G a = None"
  shows "edges G' = insert (Source x, Sink x) (edges G)"
proof (intro equalityI subsetI)
  fix e assume "e \<in> edges G'"
  then obtain b y where "e = (Source y, Sink y)" "arc_at G' b = Some y" by (auto simp: edges_def)
  then show "e \<in> insert (Source x, Sink x) (edges G)"
    using at [of b] by (cases "b = a") (auto simp: edges_def)
next
  fix e assume "e \<in> insert (Source x, Sink x) (edges G)"
  then consider "e = (Source x, Sink x)" | b y where "e = (Source y, Sink y)" "arc_at G b = Some y"
    by (auto simp: edges_def)
  then show "e \<in> edges G'"
  proof cases
    case 1
    moreover have "arc_at G' a = Some x" using at by simp
    ultimately show ?thesis unfolding edges_def by blast
  next
    case 2
    then have "arc_at G' b = Some y" using at [of b] none by auto
    with 2(1) show ?thesis unfolding edges_def by blast
  qed
qed

lemma new_arc_effect:
  assumes G: "built_ok G" and mem: "\<forall>n. mem n" and st: "s \<noteq> t" "s < NumVertices G" "t < NumVertices G"
    and room: "length (Arcs G) < 2 ^ 31 - 1" and new: "CLGraphFindSrcSinkArc G s t = None"
  obtains G' allocs' where "CLGraphDataAddArc mem s t G allocs = Inr (int (length (Arcs G)), G', allocs')"
    "built_ok G'" "conn_at G' = conn_at G" "edges G' = insert (s, t) (edges G)"
proof -
  let ?n = "length (Arcs G)" and ?i = "of_nat (length (Arcs G)) :: u32"
  let ?x = "\<lparr>a_Id = ?i, Source = s, Sink = t\<rparr>"
  have g: "graph_ok G" and a: "arcs_ok G" and c: "conns_ok G"
    and dense: "\<And>k. qm_get (Arcs G) k \<noteq> None \<longleftrightarrow> unat k < ?n"
    and full: "\<And>j v d. j < NumVertices G \<Longrightarrow> vertex_at G j = Inr v \<Longrightarrow>
        al_count (arcs_at d v) = al_inuse (arcs_at d v)"
    using G by (simp_all add: built_ok_def graph_ok_def)
  have n: "?n < 2 ^ 31" using room by simp
  note id = new_arc_id [OF n]
  have k: "qm_get (Arcs G) (ucast ?i) = None" using dense [of "ucast ?i"] id(2) by auto
  have wf: "qm_wf (Arcs G)" using a by (simp add: arcs_ok_def)
  have key: "qm_get (map_arc_key_to_arc G) (arc_key s t) = None"
    using new by (cases "map_arc_key_to_arc G = []") (simp_all add: CLGraphFindSrcSinkArc_def)
  let ?G1 = "G\<lparr>Arcs := qm_insert (ucast ?i) ?x (Arcs G),
    map_arc_key_to_arc := qm_insert (arc_key s t) ?x (map_arc_key_to_arc G)\<rparr>"
  have at: "arc_at G' b = (if b = int ?n then Some ?x else arc_at G b)" if "Arcs G' = Arcs ?G1" for G' b
  proof (cases "0 \<le> b \<and> b < 2 ^ 31")
    case True
    then have "word_of_int b = (ucast ?i :: u64) \<longleftrightarrow> b = int ?n"
      unfolding id(3) using word_of_int_small [of b] word_of_int_small [of "int ?n"] n by auto
    with True show ?thesis using that k by (simp add: arc_at_def qm_get_insert [OF wf])
  next
    case False
    then have "b \<noteq> int ?n" using n by auto
    with False show ?thesis by (auto simp: arc_at_def)
  qed
  have none: "arc_at G (int ?n) = None" using k id(3) by (simp add: arc_at_def)
  have sides: "arcs_with d G' j = (if j = arc_end d ?x then insert (int ?n) (arcs_with d G j) else arcs_with d G j)"
    if "Arcs G' = Arcs ?G1" for G' d j
    using at [OF that] none by (auto simp: arcs_with_def split: if_splits)
  have fresh: "int ?n \<notin> arcs_with d G j" for d j using none by (simp add: arcs_with_iff)
  have small: "card (arcs_with d G j) < 2 ^ 32 - 1"
    "card (arcs_with Out G j) + card (arcs_with In G j) < 2 ^ 32 - 1" for d j
    using card_arcs_with [OF a, of d j] card_arcs_with [OF a, of Out j] card_arcs_with [OF a, of In j] room
    by simp_all
  obtain v where v: "vertex_at G s = Inr v" "vertex_ok G s v" by (rule graph_vertex [OF g st(2)])
  obtain w where w: "vertex_at G t = Inr w" "vertex_ok G t w" by (rule graph_vertex [OF g st(3)])
  have l: "arc_list_ok (arcs_at Out v) (arcs_with Out G s)" "arc_list_ok (arcs_at In w) (arcs_with In G t)"
    using v w by (simp_all add: vertex_ok_def)
  have sint: "sint ?i \<notin> arcs_with d G j" "0 \<le> sint ?i" for d j using fresh id(1) by simp_all
  have v1: "vertex_at ?G1 s = Inr v" using v by simp
  obtain m allocs1 where m: "append_arc mem Out ?i s ?G1 (allocs + 1) =
      Inr (FSUCCESS, set_vertex s (set_arcs_at Out m (v\<lparr>RefCount := RefCount v + 1\<rparr>)) ?G1, allocs1)"
    "arc_list_ok m (insert (sint ?i) (arcs_with Out G s))" "al_count m = al_inuse m"
    by (rule append_effect [OF mem v1 l(1) full [OF st(2) v(1)] sint(1) sint(2) small(1) arcs_with_finite])
  let ?v = "set_arcs_at Out m (v\<lparr>RefCount := RefCount v + 1\<rparr>)"
  let ?G2 = "set_vertex s ?v ?G1"
  have G2: "vertex_at ?G2 j = (if j = s then Inr ?v else vertex_at G j)" for j
    using vertex_set [OF v1] by simp
  then have w2: "vertex_at ?G2 t = Inr w" using w st(1) by simp
  obtain m' allocs2 where m': "append_arc mem In ?i t ?G2 allocs1 =
      Inr (FSUCCESS, set_vertex t (set_arcs_at In m' (w\<lparr>RefCount := RefCount w + 1\<rparr>)) ?G2, allocs2)"
    "arc_list_ok m' (insert (sint ?i) (arcs_with In G t))" "al_count m' = al_inuse m'"
    by (rule append_effect [OF mem w2 l(2) full [OF st(3) w(1)] sint(1) sint(2) small(1) arcs_with_finite])
  let ?w = "set_arcs_at In m' (w\<lparr>RefCount := RefCount w + 1\<rparr>)"
  let ?G3 = "set_vertex t ?w ?G2"
  let ?G' = "?G3\<lparr>NumArcs := NumArcs ?G3 + 1\<rparr>"
  have G': "vertex_at ?G' j = (if j = t then Inr ?w else if j = s then Inr ?v else vertex_at G j)" for j
    using vertex_set [OF w2] G2 by simp
  have run: "CLGraphDataAddArc mem s t G allocs = Inr (int ?n, ?G', allocs2)"
    using st new mem m(1) m'(1) id(1)
    by (simp add: CLGraphDataAddArc_def Let_def linorder_not_le del: of_nat_add)
  have arcs: "Arcs ?G' = Arcs ?G1" by simp
  have conn: "conn_at ?G' = conn_at G"
    using G' v(1) w(1) by (auto simp: conn_at_def fun_eq_iff)
  have "arcs_ok ?G'"
  proof (rule arcs_ok_insert [OF a key k _ st room])
    show "unat (ucast ?i :: u64) < 2 ^ 31" using id(2) n by simp
  qed simp_all
  moreover have "conns_ok ?G'" by (rule conns_ok_same [OF c conn]) simp_all
  moreover have "\<exists>u. vertex_at ?G' j = Inr u \<and> vertex_ok ?G' j u \<and>
      (\<forall>d. al_count (arcs_at d u) = al_inuse (arcs_at d u))" if j: "j < NumVertices ?G'" for j
  proof -
    note sides = sides [OF arcs]
    consider "j = t" | "j = s" "j \<noteq> t" | "j \<noteq> s" "j \<noteq> t" by blast
    then show ?thesis
    proof cases
      case 1
      then have "arcs_with In ?G' j = insert (sint ?i) (arcs_with In G j)"
        "\<And>e. e \<noteq> In \<Longrightarrow> arcs_with e ?G' j = arcs_with e G j"
        using sides st(1) id(1) by (auto simp: arc_end_def split: side.splits)
      then have "vertex_ok ?G' j ?w"
        using vertex_ok_append [OF w(2) sint(1), of m' In ?G'] 1 m'(2) small(2) by simp
      moreover have "al_count (arcs_at d ?w) = al_inuse (arcs_at d ?w)" for d
        using full [OF st(3) w(1)] m'(3) by (cases d) simp_all
      ultimately show ?thesis using 1 G' by simp
    next
      case 2
      then have "arcs_with Out ?G' j = insert (sint ?i) (arcs_with Out G j)"
        "\<And>e. e \<noteq> Out \<Longrightarrow> arcs_with e ?G' j = arcs_with e G j"
        using sides id(1) by (auto simp: arc_end_def split: side.splits)
      then have "vertex_ok ?G' j ?v"
        using vertex_ok_append [OF v(2) sint(1), of m Out ?G'] 2 m(2) small(2) by simp
      moreover have "al_count (arcs_at d ?v) = al_inuse (arcs_at d ?v)" for d
        using full [OF st(2) v(1)] m(3) by (cases d) simp_all
      ultimately show ?thesis using 2 G' by simp
    next
      case 3
      then have "\<And>d. arcs_with d ?G' j = arcs_with d G j"
        using sides by (auto simp: arc_end_def split: side.splits)
      moreover obtain u where u: "vertex_at G j = Inr u" "vertex_ok G j u"
        using graph_vertex [OF g] j by auto
      ultimately have "vertex_ok ?G' j u" using vertex_ok_same by blast
      moreover have "al_count (arcs_at d u) = al_inuse (arcs_at d u)" for d
        using full [OF _ u(1)] j by simp
      ultimately show ?thesis using 3 G' u(1) by simp
    qed
  qed
  moreover have "qm_get (Arcs ?G') j \<noteq> None \<longleftrightarrow> unat j < length (Arcs ?G')" for j
  proof -
    have "j = ucast ?i \<longleftrightarrow> unat j = ?n" using id(2) by (metis word_unat_eq_iff)
    then show ?thesis using dense [of j] k
      by (auto simp: qm_get_insert [OF wf] length_insert less_Suc_eq)
  qed
  moreover have "tail_ok ?G'"
  proof -
    have "tail_ok ?G1" using G by (simp add: built_ok_def tail_ok_def)
    then have "tail_ok ?G3" using st(2,3) by (intro tail_ok_set) simp_all
    then show ?thesis by (simp add: tail_ok_def)
  qed
  ultimately have "built_ok ?G'" by (rule built_okI)
  moreover have "edges ?G' = insert (Source ?x, Sink ?x) (edges G)"
    by (rule edges_insert [OF at [OF arcs] none])
  ultimately show thesis using that [OF run] conn by simp
qed

lemma add_arc_effect:
  assumes G: "built_ok G" and mem: "\<forall>n. mem n" and st: "s \<noteq> t" "s < NumVertices G" "t < NumVertices G"
    and room: "length (Arcs G) < 2 ^ 31 - 1"
  obtains a G' allocs' where "CLGraphDataAddArc mem s t G allocs = Inr (a, G', allocs')" "a \<noteq> - 1"
    "built_ok G'" "conn_at G' = conn_at G" "edges G' = insert (s, t) (edges G)"
proof (cases "CLGraphFindSrcSinkArc G s t")
  case None
  obtain G' allocs' where "CLGraphDataAddArc mem s t G allocs = Inr (int (length (Arcs G)), G', allocs')"
    "built_ok G'" "conn_at G' = conn_at G" "edges G' = insert (s, t) (edges G)"
    by (rule new_arc_effect [OF G mem st room None])
  then show thesis using that by simp
next
  case (Some x)
  have a: "arcs_ok G" using G by (simp add: built_ok_def graph_ok_def)
  have "qm_get (map_arc_key_to_arc G) (arc_key s t) = Some x"
    using Some by (simp add: CLGraphFindSrcSinkArc_def split: if_splits)
  then have x: "Source x = s" "Sink x = t" "qm_get (Arcs G) (ucast (a_Id x)) = Some x"
    using a unfolding arcs_ok_def by blast+
  then have small: "unat (ucast (a_Id x) :: u64) < 2 ^ 31" using a unfolding arcs_ok_def by blast
  have "unat (ucast (a_Id x) :: u64) = unat (a_Id x)"
    using unsigned_less [of "a_Id x", where 'a = nat]
    by (simp add: unsigned_ucast_eq take_bit_nat_eq_self)
  then have "sint (a_Id x) = int (unat (a_Id x))"
    using new_arc_id(1) [of "unat (a_Id x)"] small by simp
  then have "sint (a_Id x) \<noteq> - 1" by linarith
  moreover have "(s, t) \<in> edges G" using x edges_keys [OF a] by blast
  moreover have "CLGraphDataAddArc mem s t G allocs = Inr (sint (a_Id x), G, allocs)"
    using st Some not_le [THEN iffD2, OF st(2)] not_le [THEN iffD2, OF st(3)]
    by (simp add: CLGraphDataAddArc_def)
  ultimately show thesis using that G by (simp add: insert_absorb)
qed

end
