(* ===== verification/CreditSplit.thy ===== *)
theory CreditSplit
  imports CreditBuild
begin

text \<open>
  Splitting the dependency graph (\<^verbatim>\<open>CLGraphDataSplit\<close>): the new graph is a weakly connected part of
  the old one, on the same connections, and the old one keeps the rest.
\<close>

section \<open>Dependencies between connections\<close>

definition conn_of :: "clGraphData_t \<Rightarrow> u32 \<Rightarrow> conn" where
  "conn_of G i = the (conn_at G i)"

definition dependencies :: "clGraphData_t \<Rightarrow> (conn \<times> conn) set" where
  "dependencies G = map_prod (conn_of G) (conn_of G) ` edges G"

lemma edge_vertices:
  assumes "arcs_ok G" "(s, t) \<in> edges G"
  shows "s < NumVertices G" "t < NumVertices G" "s \<noteq> t"
  using assms arc_at_Some [OF assms(1)] by (auto simp: edges_def)

lemma conn_of_at: "graph_ok G \<Longrightarrow> i < NumVertices G \<Longrightarrow> conn_at G i = Some (conn_of G i)"
  unfolding conn_of_def conn_at_def by (erule graph_vertex) auto

lemma conn_of_inj:
  assumes "graph_ok G" "i < NumVertices G" "j < NumVertices G" "conn_of G i = conn_of G j"
  shows "i = j"
  using conn_at_inj [OF assms(1)] conn_of_at [OF assms(1)] assms(2-4) by metis

lemma card_dependencies:
  assumes "graph_ok G"
  shows "card (dependencies G) = length (Arcs G)"
proof -
  have a: "arcs_ok G" using assms by (simp add: graph_ok_def)
  have "inj_on (map_prod (conn_of G) (conn_of G)) (edges G)"
    using edge_vertices [OF a] conn_of_inj [OF assms] by (auto simp: inj_on_def)
  then show ?thesis using card_edges [OF a] by (simp add: dependencies_def card_image)
qed

lemma thins_conn:
  assumes "graph_ok G" "thins G G'"
  shows "conn_at G' = conn_at G" "conn_of G' = conn_of G" "NumVertices G' = NumVertices G"
proof -
  show n: "NumVertices G' = NumVertices G" using assms by (simp add: thins_def)
  show "conn_at G' = conn_at G"
  proof
    fix i
    show "conn_at G' i = conn_at G i"
    proof (cases "i < NumVertices G")
      case True
      then obtain v where v: "vertex_at G i = Inr v" by (rule graph_vertex [OF assms(1)])
      obtain v' where "vertex_at G' i = Inr v'" "Connection v' = Connection v"
        by (rule thins_vertex [OF assms(2) v])
      with v n show ?thesis by (simp add: conn_at_def)
    qed (simp add: conn_at_def n)
  qed
  then show "conn_of G' = conn_of G" by (simp add: conn_of_def fun_eq_iff)
qed

lemma grows_Some: "grows N N' \<Longrightarrow> conn_at N i = Some c \<Longrightarrow> conn_at N' i = Some c"
  unfolding grows_def map_le_def by (metis domI)

lemma grows_conn:
  assumes "grows N N'" "graph_ok N" "i < NumVertices N"
  shows "conn_of N' i = conn_of N i"
  using grows_Some [OF assms(1) conn_of_at [OF assms(2,3)]] by (simp add: conn_of_def)

section \<open>Room for the new graph\<close>

text \<open>The new graph is made of given dependencies and connections, of which there are few enough.\<close>

definition room :: "(conn \<times> conn) set \<Rightarrow> conn set \<Rightarrow> bool" where
  "room E C \<longleftrightarrow> finite E \<and> card E < 2 ^ 31 - 1 \<and> finite C \<and> card C < 2 ^ 32 - 1"

definition fits :: "(conn \<times> conn) set \<Rightarrow> conn set \<Rightarrow> clGraphData_t \<Rightarrow> bool" where
  "fits E C N \<longleftrightarrow> built_ok N \<and> dependencies N \<subseteq> E \<and> connections N \<subseteq> C"

lemma fits_room:
  assumes "room E C" "fits E C N"
  shows "unat (NumVertices N) < 2 ^ 32 - 1" "length (Arcs N) < 2 ^ 31 - 1"
proof -
  have g: "graph_ok N" using assms by (simp add: fits_def built_ok_def)
  have "card (connections N) \<le> card C" "card (dependencies N) \<le> card E"
    using assms by (simp_all add: fits_def room_def card_mono)
  then show "unat (NumVertices N) < 2 ^ 32 - 1" "length (Arcs N) < 2 ^ 31 - 1"
    using assms(1) card_connections [OF g] card_dependencies [OF g] by (simp_all add: room_def)
qed

lemma fits_add_vertex:
  assumes R: "room E C" and F: "fits E C N" and mem: "\<forall>n. mem n" and c: "c \<in> C"
  obtains j N1 allocs1 where "CLGraphDataAddVertex mem c N allocs = (j, N1, allocs1)" "fits E C N1"
    "conn_at N1 j = Some c" "j \<noteq> - 1" "grows N N1" "dependencies N1 = dependencies N"
proof -
  have N: "built_ok N" "graph_ok N" "arcs_ok N" using F by (simp_all add: fits_def built_ok_def graph_ok_def)
  obtain j N1 allocs1 where N1: "CLGraphDataAddVertex mem c N allocs = (j, N1, allocs1)"
    "built_ok N1" "conn_at N1 j = Some c" "j \<noteq> - 1" "grows N N1" "Arcs N1 = Arcs N"
    "connections N1 = insert c (connections N)"
    by (rule add_vertex_effect [OF N(1) mem fits_room(1) [OF R F]])
  have "edges N1 = edges N" using N1(6) by (simp add: edges_def arc_at_def)
  then have deps: "dependencies N1 = dependencies N" unfolding dependencies_def
    using edge_vertices [OF N(3)] grows_conn [OF N1(5) N(2)] by (intro image_cong) auto
  then have "fits E C N1" using F N1(2,7) c by (simp add: fits_def)
  then show thesis using that N1(1,3,4,5) deps by simp
qed

text \<open>The dependency between two connections at one side.\<close>

definition dir :: "side \<Rightarrow> 'a \<Rightarrow> 'a \<Rightarrow> 'a \<times> 'a" where
  "dir d b c = (case d of Out \<Rightarrow> (b, c) | In \<Rightarrow> (c, b))"

lemma add_dependency:
  assumes R: "room E C" and F: "fits E C N" and mem: "\<forall>n. mem n"
    and b: "conn_at N i = Some b" and c: "c \<in> C" "b \<noteq> c" and e: "dir d b c \<in> E"
  obtains j N1 allocs1 a N2 allocs2 where "CLGraphDataAddVertex mem c N allocs = (j, N1, allocs1)" "j \<noteq> - 1"
    "(case d of Out \<Rightarrow> CLGraphDataAddArc mem i j N1 allocs1 | In \<Rightarrow> CLGraphDataAddArc mem j i N1 allocs1) =
       Inr (a, N2, allocs2)" "a \<noteq> - 1" "fits E C N2" "conn_at N2 i = Some b"
    "dependencies N2 = insert (dir d b c) (dependencies N)" "conn_at N2 j = Some c"
proof -
  have N: "built_ok N" "dependencies N \<subseteq> E" "connections N \<subseteq> C" using F by (simp_all add: fits_def)
  obtain j N1 allocs1 where N1: "CLGraphDataAddVertex mem c N allocs = (j, N1, allocs1)"
    "built_ok N1" "conn_at N1 j = Some c" "j \<noteq> - 1" "grows N N1" "Arcs N1 = Arcs N"
    "connections N1 = insert c (connections N)"
    by (rule add_vertex_effect [OF N(1) mem fits_room(1) [OF R F]])
  have g: "graph_ok N" "arcs_ok N" using N(1) by (simp_all add: built_ok_def graph_ok_def)
  have b1: "conn_at N1 i = Some b" by (rule grows_Some [OF N1(5) b])
  have ij: "i \<noteq> j" "i < NumVertices N1" "j < NumVertices N1"
    using b1 N1(3) c(2) by (auto simp: conn_at_Some)
  have edges1: "edges N1 = edges N" using N1(6) by (simp add: edges_def arc_at_def)
  have len: "length (Arcs N1) < 2 ^ 31 - 1" using fits_room(2) [OF R F] N1(6) by simp
  obtain a N2 allocs2 where N2: "(case d of Out \<Rightarrow> CLGraphDataAddArc mem i j N1 allocs1 |
      In \<Rightarrow> CLGraphDataAddArc mem j i N1 allocs1) = Inr (a, N2, allocs2)" "a \<noteq> - 1" "built_ok N2"
    "conn_at N2 = conn_at N1" "edges N2 = insert (dir d i j) (edges N1)"
  proof (cases d)
    case Out
    obtain a N2 allocs2 where "CLGraphDataAddArc mem i j N1 allocs1 = Inr (a, N2, allocs2)" "a \<noteq> - 1"
      "built_ok N2" "conn_at N2 = conn_at N1" "edges N2 = insert (i, j) (edges N1)"
      by (rule add_arc_effect [OF N1(2) mem ij len])
    then show thesis using that Out by (simp add: dir_def)
  next
    case In
    obtain a N2 allocs2 where "CLGraphDataAddArc mem j i N1 allocs1 = Inr (a, N2, allocs2)" "a \<noteq> - 1"
      "built_ok N2" "conn_at N2 = conn_at N1" "edges N2 = insert (j, i) (edges N1)"
      by (rule add_arc_effect [OF N1(2) mem ij(1) [symmetric] ij(3,2) len])
    then show thesis using that In by (simp add: dir_def)
  qed
  have conn2: "conn_of N2 k = conn_of N k" if "k < NumVertices N" for k
    using grows_conn [OF N1(5) g(1) that] N2(4) by (simp add: conn_of_def)
  have "dependencies N2 = insert (dir d b c) (map_prod (conn_of N2) (conn_of N2) ` edges N)"
    using N2(4,5) edges1 b1 N1(3) by (cases d) (simp_all add: dependencies_def dir_def conn_of_def)
  also have "map_prod (conn_of N2) (conn_of N2) ` edges N = dependencies N"
    unfolding dependencies_def using edge_vertices [OF g(2)] conn2 by (intro image_cong) auto
  finally have deps: "dependencies N2 = insert (dir d b c) (dependencies N)" .
  have "connections N2 = insert c (connections N)" using N1(7) N2(4) by (simp add: connections_def)
  then have "fits E C N2" using N N2(3) deps e c(1) by (simp add: fits_def)
  then show thesis using that [OF N1(1,4) N2(1,2)] N2(4) N1(3) b1 deps by simp
qed

section \<open>Copying the arcs of a vertex\<close>

definition cells_from :: "side \<Rightarrow> clVertixData_t \<Rightarrow> nat \<Rightarrow> nat \<Rightarrow> int list" where
  "cells_from d v k n = filter (\<lambda>a. 0 \<le> a) (take n (drop k (cells (al_cells (arcs_at d v)))))"

lemma cells_from_0: "cells_from d v k 0 = []"
  by (simp add: cells_from_def)

lemma cells_from_Suc:
  "k < length (cells (al_cells (arcs_at d v))) \<Longrightarrow>
     cells_from d v k (Suc n) =
       (if 0 \<le> cells (al_cells (arcs_at d v)) ! k then [cells (al_cells (arcs_at d v)) ! k] else []) @
       cells_from d v (k + 1) n"
  by (simp add: cells_from_def Cons_nth_drop_Suc [symmetric])

lemma cells_from_all: "cells_from d v 0 (unat (al_count (arcs_at d v))) = used_cells (arcs_at d v)"
  by (simp add: cells_from_def used_cells_def)

lemma arc_by_id:
  assumes "a \<in> arcs_with d G i"
  obtains x where "CLGraphFindIdArc G (word_of_int a) = Some x" "arc_at G a = Some x" "arc_end d x = i"
proof -
  obtain x where x: "0 \<le> a" "a < 2 ^ 31" "qm_get (Arcs G) (word_of_int a) = Some x" "arc_end d x = i"
    using assms by (auto simp: arcs_with_iff arc_at_def split: if_splits)
  have "ucast (word_of_int a :: u32) = (word_of_int a :: u64)"
    using new_arc_id(3) [of "nat a"] x(1,2) by simp
  with x that show thesis by (simp add: CLGraphFindIdArc_def arc_at_def)
qed

definition other_end :: "side \<Rightarrow> clGraphData_t \<Rightarrow> int \<Rightarrow> u32" where
  "other_end d G a = arc_end (opposite d) (the (arc_at G a))"

definition arc_dep :: "clGraphData_t \<Rightarrow> int \<Rightarrow> conn \<times> conn" where
  "arc_dep G a = (\<lambda>x. (conn_of G (Source x), conn_of G (Sink x))) (the (arc_at G a))"

text \<open>What is split: a graph whose dependencies and connections are among the given ones.\<close>

definition part :: "(conn \<times> conn) set \<Rightarrow> conn set \<Rightarrow> clGraphData_t \<Rightarrow> bool" where
  "part E C G \<longleftrightarrow> graph_ok G \<and> dependencies G \<subseteq> E \<and> connections G \<subseteq> C"

lemma copy_arc_effect:
  assumes R: "room E C" and F: "fits E C N" and mem: "\<forall>n. mem n" and G: "part E C G"
    and x: "arc_at G a = Some x" "arc_end d x = i" and b: "conn_at N new_id = Some (conn_of G i)"
    and nbs: "unat count \<le> length (cells nbs)" "unat count + 1 < 2 ^ 32"
  obtains nbs' N' allocs' where "copy_arc mem d new_id x G (nbs, count, N, allocs) =
      Inr (True, Some nbs', count + 1, N', allocs')"
    "unat (count + 1) \<le> length nbs'" "take (unat (count + 1)) nbs' = take (unat count) (cells nbs) @ [other_end d G a]"
    "fits E C N'" "conn_at N' new_id = Some (conn_of G i)"
    "dependencies N' = insert (arc_dep G a) (dependencies N)"
proof -
  let ?j = "other_end d G a"
  have g: "graph_ok G" "arcs_ok G" using G by (simp_all add: part_def graph_ok_def)
  have e: "(Source x, Sink x) \<in> edges G" using x(1) by (auto simp: edges_def)
  note v = edge_vertices [OF g(2) e]
  have j: "?j = arc_end (opposite d) x" using x by (simp add: other_end_def)
  have ij: "?j < NumVertices G" "i < NumVertices G" "i \<noteq> ?j"
    using v x(2) j by (cases d; auto simp: arc_end_def opposite_def)+
  obtain w where w: "vertex_at G ?j = Inr w" by (rule graph_vertex [OF g(1) ij(1)])
  have cw: "Connection w = conn_of G ?j" using w ij(1) by (simp add: conn_of_def conn_at_def)
  have dep: "dir d (conn_of G i) (conn_of G ?j) = arc_dep G a"
    using x j by (cases d) (auto simp: dir_def arc_dep_def arc_end_def opposite_def)
  have "arc_dep G a \<in> dependencies G"
    using e x(1) by (auto simp: arc_dep_def dependencies_def intro: image_eqI [of _ _ "(Source x, Sink x)"])
  then have inE: "dir d (conn_of G i) (conn_of G ?j) \<in> E" using G dep by (auto simp: part_def)
  have inC: "conn_of G ?j \<in> C"
    using G conn_of_at [OF g(1) ij(1)] by (auto simp: part_def connections_def ran_def)
  have ne: "conn_of G i \<noteq> conn_of G ?j" using conn_of_inj [OF g(1) ij(2,1)] ij(3) by auto
  obtain cs allocs1 where cs: "CLGetDynamicArray mem 0 (unat count) nbs allocs = (FSUCCESS, Some cs, allocs1)"
    "unat count < length cs" "length (cells nbs) \<le> length cs" "take (length (cells nbs)) cs = cells nbs"
    by (rule dynamic_array [OF mem nbs(1)])
  obtain k N1 allocs2 a' N' allocs' where N1:
    "CLGraphDataAddVertex mem (conn_of G ?j) N allocs1 = (k, N1, allocs2)" "k \<noteq> - 1"
    "(case d of Out \<Rightarrow> CLGraphDataAddArc mem new_id k N1 allocs2 |
       In \<Rightarrow> CLGraphDataAddArc mem k new_id N1 allocs2) = Inr (a', N', allocs')" "a' \<noteq> - 1"
    "fits E C N'" "conn_at N' new_id = Some (conn_of G i)"
    "dependencies N' = insert (dir d (conn_of G i) (conn_of G ?j)) (dependencies N)"
    by (rule add_dependency [OF R F mem b inC ne inE])
  have "copy_arc mem d new_id x G (nbs, count, N, allocs) =
      Inr (True, Some (cs[unat count := ?j]), count + 1, N', allocs')"
    using w cw cs(1) N1(1-4) j by (simp add: copy_arc_def cells_def)
  moreover have one: "unat (count + 1) = unat count + 1" using nbs(2) by (simp add: unat_add_lem [THEN iffD1])
  moreover have "take (unat count) (cells nbs) = take (unat count) cs"
    using cs(4) nbs(1) by (metis min.absorb1 take_take)
  then have "take (unat (count + 1)) (cs[unat count := ?j]) = take (unat count) (cells nbs) @ [?j]"
    unfolding one using cs(2) by (simp add: take_Suc_conv_app_nth)
  ultimately show thesis using that N1(5-7) dep cs(2) by simp
qed

lemma copy_side_effect:
  assumes R: "room E C" and mem: "\<forall>n. mem n" and G: "part E C G" and v: "vertex_at G i = Inr v" "vertex_ok G i v"
  shows "fits E C N \<Longrightarrow> conn_at N new_id = Some (conn_of G i) \<Longrightarrow> unat count \<le> length (cells nbs) \<Longrightarrow>
    unat count + length (cells_from d v k n) < 2 ^ 32 \<Longrightarrow> k + n = unat (al_count (arcs_at d v)) \<Longrightarrow>
    \<exists>nbs' count' N' allocs'. copy_side mem d i new_id k n G (nbs, count, N, allocs) = Inr (nbs', count', N', allocs') \<and>
      unat count' \<le> length (cells nbs') \<and>
      take (unat count') (cells nbs') = take (unat count) (cells nbs) @ map (other_end d G) (cells_from d v k n) \<and>
      fits E C N' \<and> conn_at N' new_id = Some (conn_of G i) \<and>
      dependencies N' = dependencies N \<union> arc_dep G ` set (cells_from d v k n)"
proof (induction n arbitrary: k nbs count N allocs)
  case 0
  then show ?case by (simp add: cells_from_0)
next
  case (Suc n)
  let ?c = "cells (al_cells (arcs_at d v)) ! k"
  have "k < unat (al_count (arcs_at d v))" using Suc.prems(5) by simp
  note cell = arcs_at_cells [OF v(2) this]
  show ?case
  proof (cases "0 \<le> ?c")
    case False
    then have "copy_side mem d i new_id k (Suc n) G (nbs, count, N, allocs) =
        copy_side mem d i new_id (k + 1) n G (nbs, count, N, allocs)"
      using v(1) cell(1) by (simp add: Let_def)
    moreover have "cells_from d v k (Suc n) = cells_from d v (k + 1) n"
      using False cell(1) by (simp add: cells_from_Suc)
    ultimately show ?thesis using Suc.IH [OF Suc.prems(1-3), of "k + 1" allocs] Suc.prems(4,5) by simp
  next
    case True
    have from': "cells_from d v k (Suc n) = ?c # cells_from d v (k + 1) n"
      using True cell(1) by (simp add: cells_from_Suc)
    obtain x where x: "CLGraphFindIdArc G (word_of_int ?c) = Some x" "arc_at G ?c = Some x" "arc_end d x = i"
      by (rule arc_by_id [OF cell(2) [OF True]])
    have cnt: "unat count + 1 < 2 ^ 32" using Suc.prems(4) from' by simp
    obtain nbs1 N1 allocs1 where c1: "copy_arc mem d new_id x G (nbs, count, N, allocs) =
        Inr (True, Some nbs1, count + 1, N1, allocs1)"
      "unat (count + 1) \<le> length nbs1" "take (unat (count + 1)) nbs1 = take (unat count) (cells nbs) @ [other_end d G ?c]"
      "fits E C N1" "conn_at N1 new_id = Some (conn_of G i)"
      "dependencies N1 = insert (arc_dep G ?c) (dependencies N)"
      by (rule copy_arc_effect [OF R Suc.prems(1) mem G x(2,3) Suc.prems(2,3) cnt])
    have "unat (count + 1) = unat count + 1" using cnt by (simp add: unat_add_lem [THEN iffD1])
    then have rest: "unat (count + 1) + length (cells_from d v (k + 1) n) < 2 ^ 32" "k + 1 + n = unat (al_count (arcs_at d v))"
      using Suc.prems(4,5) from' by simp_all
    have len: "unat (count + 1) \<le> length (cells (Some nbs1))" using c1(2) by (simp add: cells_def)
    obtain nbs' count' N' allocs' where
      "copy_side mem d i new_id (k + 1) n G (Some nbs1, count + 1, N1, allocs1) = Inr (nbs', count', N', allocs')"
      "unat count' \<le> length (cells nbs')"
      "take (unat count') (cells nbs') = take (unat (count + 1)) (cells (Some nbs1)) @ map (other_end d G) (cells_from d v (k + 1) n)"
      "fits E C N'" "conn_at N' new_id = Some (conn_of G i)"
      "dependencies N' = dependencies N1 \<union> arc_dep G ` set (cells_from d v (k + 1) n)"
      using Suc.IH [OF c1(4,5) len rest, of allocs1] by blast
    moreover have "copy_side mem d i new_id k (Suc n) G (nbs, count, N, allocs) =
        copy_side mem d i new_id (k + 1) n G (Some nbs1, count + 1, N1, allocs1)"
      using v(1) cell(1) True x(1) c1(1) by (simp add: Let_def)
    ultimately show ?thesis using from' c1(3,6) by (simp add: cells_def)
  qed
qed

section \<open>Removing the arcs of a vertex\<close>

lemma del_side_effect:
  assumes "graph_ok G" "i < NumVertices G" "vertex_at G i = Inr v" "k + n = unat (al_count (arcs_at d v))"
    "\<forall>j < k. cells (al_cells (arcs_at d v)) ! j < 0"
  shows "\<exists>G'. del_side d i k n G = Inr G' \<and> graph_ok G' \<and> thins G G' \<and>
     (\<forall>b. arc_at G' b = (if b \<in> arcs_with d G i then None else arc_at G b))"
  using assms
proof (induction n arbitrary: k G v)
  case 0
  have "arcs_with d G i = {}"
    using arcs_at_none [OF vertex_ok_at [OF 0(1-3)]] 0(4,5) by simp
  with 0(1) show ?case by simp
next
  case (Suc n)
  let ?c = "cells (al_cells (arcs_at d v)) ! k"
  have k: "k < unat (al_count (arcs_at d v))" using Suc.prems(4) by simp
  note cell = arcs_at_cells [OF vertex_ok_at [OF Suc.prems(1-3)] k]
  show ?case
  proof (cases "0 \<le> ?c")
    case False
    then have "\<forall>j < k + 1. cells (al_cells (arcs_at d v)) ! j < 0"
      using Suc.prems(5) by (auto simp: less_Suc_eq)
    moreover have "del_side d i k (Suc n) G = del_side d i (k + 1) n G"
      using Suc.prems(3) cell(1) False by (simp add: Let_def)
    ultimately show ?thesis using Suc.IH [OF Suc.prems(1-3), of "k + 1"] Suc.prems(4) by simp
  next
    case True
    obtain x where x: "CLGraphFindIdArc G (word_of_int ?c) = Some x" "arc_at G ?c = Some x" "arc_end d x = i"
      by (rule arc_by_id [OF cell(2) [OF True]])
    obtain G1 where G1: "CLGraphDataDelArc ?c G = Inr G1" "graph_ok G1" "thins G G1"
      "\<forall>b. arc_at G1 b = (if b = ?c then None else arc_at G b)"
      "edges G1 = edges G - {(Source x, Sink x)}" "length (Arcs G) = Suc (length (Arcs G1))"
      by (rule del_arc_effect [OF Suc.prems(1) x(2)])
    have i1: "i < NumVertices G1" using Suc.prems(2) thins_conn(3) [OF Suc.prems(1) G1(3)] by simp
    have sides: "arcs_with d G1 i = arcs_with d G i - {?c}"
      using arcs_with_remove [OF x(2), of G1 d i] G1(4) x(3) by simp
    then have gone: "?c \<notin> arcs_with d G1 i" by simp
    obtain v1 where v1: "vertex_at G1 i = Inr v1" "al_count (arcs_at d v1) = al_count (arcs_at d v)"
      "\<forall>j < k + 1. cells (al_cells (arcs_at d v1)) ! j < 0"
      by (rule cells_dropped [OF G1(3,2) i1 Suc.prems(3) k Suc.prems(5) gone])
    obtain G' where G': "del_side d i (k + 1) n G1 = Inr G'" "graph_ok G'" "thins G1 G'"
      "\<forall>b. arc_at G' b = (if b \<in> arcs_with d G1 i then None else arc_at G1 b)"
      using Suc.IH [OF G1(2) i1 v1(1) _ v1(3)] v1(2) Suc.prems(4) by auto
    have "del_side d i k (Suc n) G = Inr G'"
      using Suc.prems(3) cell(1) True G1(1) G'(1) by (simp add: Let_def)
    moreover have "arc_at G' b = (if b \<in> arcs_with d G i then None else arc_at G b)" for b
      using G'(4) G1(4) sides cell(2) [OF True] by auto
    ultimately show ?thesis using G'(2) thins_trans [OF G1(3) G'(3)] by blast
  qed
qed

section \<open>A vertex\<close>

lemma thins_edges:
  assumes "thins G G'"
  shows "edges G' \<subseteq> edges G"
proof -
  have "\<forall>a x. arc_at G' a = Some x \<longrightarrow> arc_at G a = Some x" using assms by (simp add: thins_def)
  then show ?thesis unfolding edges_def by blast
qed

lemma part_thins:
  assumes "part E C G" "thins G G'" "graph_ok G'"
  shows "part E C G'"
proof -
  have g: "graph_ok G" using assms by (simp add: part_def)
  have "edges G' \<subseteq> edges G" by (rule thins_edges [OF assms(2)])
  then have "dependencies G' \<subseteq> dependencies G"
    unfolding dependencies_def thins_conn(2) [OF g assms(2)] by (rule image_mono)
  then show ?thesis
    using assms thins_conn(1) [OF g assms(2)] by (auto simp: part_def connections_def)
qed

lemma move_side_effect:
  assumes R: "room E C" and mem: "\<forall>n. mem n" and G: "part E C G" and i: "i < NumVertices G"
    and N: "fits E C N" "conn_at N new_id = Some (conn_of G i)"
    and nbs: "unat count \<le> length (cells nbs)" "unat count + card (arcs_with d G i) < 2 ^ 32"
  obtains G' nbs' count' N' allocs' where
    "move_side mem d i new_id G (nbs, count, N, allocs) = Inr (G', nbs', count', N', allocs')"
    "part E C G'" "thins G G'" "\<forall>b. arc_at G' b = (if b \<in> arcs_with d G i then None else arc_at G b)"
    "fits E C N'" "conn_at N' new_id = Some (conn_of G i)"
    "dependencies N' = dependencies N \<union> arc_dep G ` arcs_with d G i"
    "unat count' \<le> length (cells nbs')" "unat count' = unat count + card (arcs_with d G i)"
    "set (take (unat count') (cells nbs')) =
       set (take (unat count) (cells nbs)) \<union> other_end d G ` arcs_with d G i"
proof -
  have g: "graph_ok G" using G by (simp add: part_def)
  obtain v where v: "vertex_at G i = Inr v" "vertex_ok G i v" by (rule graph_vertex [OF g i])
  let ?n = "unat (al_count (arcs_at d v))"
  have used: "distinct (used_cells (arcs_at d v))" "set (used_cells (arcs_at d v)) = arcs_with d G i"
    using v(2) by (simp_all add: vertex_ok_def arc_list_ok_def)
  then have len: "length (used_cells (arcs_at d v)) = card (arcs_with d G i)"
    using distinct_card by fastforce
  obtain nbs' count' N' allocs' where N': "copy_side mem d i new_id 0 ?n G (nbs, count, N, allocs) = Inr (nbs', count', N', allocs')"
    "unat count' \<le> length (cells nbs')"
    "take (unat count') (cells nbs') = take (unat count) (cells nbs) @ map (other_end d G) (used_cells (arcs_at d v))"
    "fits E C N'" "conn_at N' new_id = Some (conn_of G i)"
    "dependencies N' = dependencies N \<union> arc_dep G ` set (used_cells (arcs_at d v))"
    using copy_side_effect [OF R mem G v N nbs(1), of d 0 ?n allocs] nbs(2) len
    unfolding cells_from_all by auto
  obtain G' where G': "del_side d i 0 ?n G = Inr G'" "graph_ok G'" "thins G G'"
    "\<forall>b. arc_at G' b = (if b \<in> arcs_with d G i then None else arc_at G b)"
    using del_side_effect [OF g i v(1), of 0 ?n d] by auto
  have "move_side mem d i new_id G (nbs, count, N, allocs) = Inr (G', nbs', count', N', allocs')"
    using v(1) N'(1) G'(1) by (simp add: move_side_def Let_def)
  moreover have "unat count' = unat count + card (arcs_with d G i)"
    using arg_cong [OF N'(3), of length] N'(2) nbs(1) len by simp
  ultimately show thesis
    using that part_thins [OF G G'(3,2)] G'(3,4) N'(2-6) used(2) by simp
qed

lemma edges_without:
  assumes "\<forall>b. arc_at G' b = (if b \<in> arcs_with Out G i \<union> arcs_with In G i then None else arc_at G b)"
  shows "edges G' = {e \<in> edges G. fst e \<noteq> i \<and> snd e \<noteq> i}"
proof -
  have "arc_at G' b = Some x \<longleftrightarrow> arc_at G b = Some x \<and> Source x \<noteq> i \<and> Sink x \<noteq> i" for b x
    using assms by (auto simp: arcs_with_iff arc_end_def)
  then show ?thesis unfolding edges_def by force
qed

lemma incident_arcs:
  "arc_dep G ` arcs_with Out G i = map_prod (conn_of G) (conn_of G) ` {e \<in> edges G. fst e = i}"
  "arc_dep G ` arcs_with In G i = map_prod (conn_of G) (conn_of G) ` {e \<in> edges G. snd e = i}"
  "other_end Out G ` arcs_with Out G i = {t. (i, t) \<in> edges G}"
  "other_end In G ` arcs_with In G i = {s. (s, i) \<in> edges G}"
proof -
  show "arc_dep G ` arcs_with Out G i = map_prod (conn_of G) (conn_of G) ` {e \<in> edges G. fst e = i}"
  proof (intro equalityI subsetI)
    fix e assume "e \<in> arc_dep G ` arcs_with Out G i"
    then obtain a x where "arc_at G a = Some x" "Source x = i" "e = arc_dep G a"
      by (auto simp: arcs_with_iff arc_end_def)
    then show "e \<in> map_prod (conn_of G) (conn_of G) ` {e \<in> edges G. fst e = i}"
      by (intro image_eqI [of _ _ "(Source x, Sink x)"]) (auto simp: arc_dep_def edges_def)
  next
    fix e assume "e \<in> map_prod (conn_of G) (conn_of G) ` {e \<in> edges G. fst e = i}"
    then obtain a x where "arc_at G a = Some x" "Source x = i" "e = map_prod (conn_of G) (conn_of G) (Source x, Sink x)"
      by (auto simp: edges_def)
    then show "e \<in> arc_dep G ` arcs_with Out G i"
      by (intro image_eqI [of _ _ a]) (auto simp: arc_dep_def arcs_with_iff arc_end_def)
  qed
  show "arc_dep G ` arcs_with In G i = map_prod (conn_of G) (conn_of G) ` {e \<in> edges G. snd e = i}"
  proof (intro equalityI subsetI)
    fix e assume "e \<in> arc_dep G ` arcs_with In G i"
    then obtain a x where "arc_at G a = Some x" "Sink x = i" "e = arc_dep G a"
      by (auto simp: arcs_with_iff arc_end_def)
    then show "e \<in> map_prod (conn_of G) (conn_of G) ` {e \<in> edges G. snd e = i}"
      by (intro image_eqI [of _ _ "(Source x, Sink x)"]) (auto simp: arc_dep_def edges_def)
  next
    fix e assume "e \<in> map_prod (conn_of G) (conn_of G) ` {e \<in> edges G. snd e = i}"
    then obtain a x where "arc_at G a = Some x" "Sink x = i" "e = map_prod (conn_of G) (conn_of G) (Source x, Sink x)"
      by (auto simp: edges_def)
    then show "e \<in> arc_dep G ` arcs_with In G i"
      by (intro image_eqI [of _ _ a]) (auto simp: arc_dep_def arcs_with_iff arc_end_def)
  qed
  show "other_end Out G ` arcs_with Out G i = {t. (i, t) \<in> edges G}"
    "other_end In G ` arcs_with In G i = {s. (s, i) \<in> edges G}"
    by (force simp: other_end_def arcs_with_iff arc_end_def opposite_def edges_def image_iff)+
qed

text \<open>The number of a vertex and its incident arcs and neighbours.\<close>

definition neighbours :: "clGraphData_t \<Rightarrow> u32 \<Rightarrow> u32 set" where
  "neighbours G i = {t. (i, t) \<in> edges G} \<union> {s. (s, i) \<in> edges G}"

lemma split_out_arcs_effect:
  assumes R: "room E C" and mem: "\<forall>n. mem n" and G: "part E C G" and i: "i < NumVertices G"
    and N: "fits E C N"
  obtains nbs G' N' allocs' where "split_out_arcs mem i G N allocs = Inr (nbs, G', N', allocs')"
    "part E C G'" "thins G G'" "edges G' = {e \<in> edges G. fst e \<noteq> i \<and> snd e \<noteq> i}"
    "fits E C N'" "dependencies N' = dependencies N \<union> map_prod (conn_of G) (conn_of G) ` (edges G - edges G')"
    "set nbs = neighbours G i" "neighbours G i = {} \<longrightarrow> nbs = [] \<and> G' = G \<and> N' = N"
proof -
  have g: "graph_ok G" "arcs_ok G" using G by (simp_all add: part_def graph_ok_def)
  obtain v where v: "vertex_at G i = Inr v" "vertex_ok G i v" by (rule graph_vertex [OF g(1) i])
  show thesis
  proof (cases "RefCount v = 0")
    case True
    then have none: "neighbours G i = {}"
      using refcount_zero [OF v(2)] by (simp add: neighbours_def no_arcs_with)
    then have "edges G = {e \<in> edges G. fst e \<noteq> i \<and> snd e \<noteq> i}" by (auto simp: neighbours_def)
    then show thesis using that [of "[]" G N allocs] v(1) True G N none by (simp add: split_out_arcs_def)
  next
    case False
    then have some: "neighbours G i \<noteq> {}"
      using refcount_zero [OF v(2)] by (auto simp: neighbours_def no_arcs_with)
    let ?c = "conn_of G i"
    have ci: "Connection v = ?c" using v(1) i by (simp add: conn_of_def conn_at_def)
    have c: "?c \<in> C" using G conn_of_at [OF g(1) i] by (auto simp: part_def connections_def ran_def)
    obtain new_id N0 al0 where N0: "CLGraphDataAddVertex mem ?c N allocs = (new_id, N0, al0)" "fits E C N0"
      "conn_at N0 new_id = Some ?c" "new_id \<noteq> - 1" "grows N N0" "dependencies N0 = dependencies N"
      by (rule fits_add_vertex [OF R N mem c])
    note F0 = N0(2) and deps0 = N0(6)
    have small: "card (arcs_with d G i) < 2 ^ 31" for d
      using card_arcs_with [OF g(2), of d i] g(2) unfolding arcs_ok_def by linarith
    have cnt0: "unat (0 :: u32) \<le> length (cells (None :: u32 list option))"
      "unat (0 :: u32) + card (arcs_with Out G i) < 2 ^ 32" using small [of Out] by simp_all
    obtain G1 nbs1 count1 N1 al1 where m1:
      "move_side mem Out i new_id G (None, 0, N0, al0) = Inr (G1, nbs1, count1, N1, al1)"
      "part E C G1" "thins G G1" "\<forall>b. arc_at G1 b = (if b \<in> arcs_with Out G i then None else arc_at G b)"
      "fits E C N1" "conn_at N1 new_id = Some ?c"
      "dependencies N1 = dependencies N0 \<union> arc_dep G ` arcs_with Out G i"
      "unat count1 \<le> length (cells nbs1)" "unat count1 = unat (0 :: u32) + card (arcs_with Out G i)"
      "set (take (unat count1) (cells nbs1)) =
         set (take (unat (0 :: u32)) (cells (None :: u32 list option))) \<union> other_end Out G ` arcs_with Out G i"
      by (rule move_side_effect [OF R mem G i F0 N0(3) cnt0])
    have conn1: "conn_of G1 = conn_of G" and i1: "i < NumVertices G1"
      using thins_conn [OF g(1) m1(3)] i by simp_all
    have with1: "arcs_with In G1 i = arcs_with In G i"
    proof -
      have "a \<notin> arcs_with Out G i" if "arc_at G a = Some x" "Sink x = i" for a x
        using that arc_at_Some(5) [OF g(2) that(1)] by (auto simp: arcs_with_iff arc_end_def)
      then show ?thesis using m1(4) by (auto simp: arcs_with_def arc_end_def split: if_splits)
    qed
    have cnt1: "unat count1 + card (arcs_with In G1 i) < 2 ^ 32"
      using m1(9) small [of Out] small [of In] with1 by simp
    obtain G2 nbs2 count2 N2 al2 where m2:
      "move_side mem In i new_id G1 (nbs1, count1, N1, al1) = Inr (G2, nbs2, count2, N2, al2)"
      "part E C G2" "thins G1 G2" "\<forall>b. arc_at G2 b = (if b \<in> arcs_with In G1 i then None else arc_at G1 b)"
      "fits E C N2" "conn_at N2 new_id = Some (conn_of G1 i)"
      "dependencies N2 = dependencies N1 \<union> arc_dep G1 ` arcs_with In G1 i"
      "unat count2 \<le> length (cells nbs2)" "unat count2 = unat count1 + card (arcs_with In G1 i)"
      "set (take (unat count2) (cells nbs2)) =
         set (take (unat count1) (cells nbs1)) \<union> other_end In G1 ` arcs_with In G1 i"
      using move_side_effect [OF R mem m1(2) i1 m1(5) _ m1(8) cnt1] m1(6) conn1 by metis
    have run: "split_out_arcs mem i G N allocs = Inr (take (unat count2) (cells nbs2), G2, N2, al2)"
      using v(1) False ci N0(1) m1(1) m2(1) by (simp add: split_out_arcs_def)
    have same: "arc_at G1 a = arc_at G a" if "a \<in> arcs_with In G i" for a
      using that with1 m1(4) by (metis arcs_with_iff option.distinct(1))
    then have in1: "arc_dep G1 ` arcs_with In G1 i = arc_dep G ` arcs_with In G i"
      "other_end In G1 ` arcs_with In G1 i = other_end In G ` arcs_with In G i"
      unfolding with1 by (auto simp: arc_dep_def other_end_def conn1 intro!: image_cong)
    have at2: "\<forall>b. arc_at G2 b = (if b \<in> arcs_with Out G i \<union> arcs_with In G i then None else arc_at G b)"
      using m1(4) m2(4) with1 by simp
    have e2: "edges G2 = {e \<in> edges G. fst e \<noteq> i \<and> snd e \<noteq> i}" by (rule edges_without [OF at2])
    have "set (take (unat count2) (cells nbs2)) = neighbours G i"
      using m2(10) m1(10) in1(2) incident_arcs(3,4) by (simp add: neighbours_def)
    moreover have "dependencies N2 = dependencies N \<union> map_prod (conn_of G) (conn_of G) ` (edges G - edges G2)"
    proof -
      have "edges G - edges G2 = {e \<in> edges G. fst e = i} \<union> {e \<in> edges G. snd e = i}" using e2 by auto
      then show ?thesis using m2(7) m1(7) deps0 in1(1) incident_arcs(1,2) [of G i] by (simp add: image_Un Un_assoc)
    qed
    ultimately show thesis using that [OF run m2(2) thins_trans [OF m1(3) m2(3)] e2 m2(5)] some by simp
  qed
qed

end
