(* ===== verification/CreditRoutePath.thy ===== *)
theory CreditRoutePath
  imports CreditRoute CreditSplit
begin

text \<open>
  The routes as lists of connections, without the graph, and what the walk along a route adds to the
  graph.
\<close>

section \<open>Paths\<close>

text \<open>The connections of a route from some point on, and whether it arrives.  A route that would take
  the same connection twice in a row is given up.\<close>

definition path_vars :: "u64 \<Rightarrow> addr \<Rightarrow> u8 \<Rightarrow> route_vars \<Rightarrow> route_vars" where
  "path_vars next_hfi conn c s = s\<lparr>hfip := Some next_hfi, previous_connection := conn,
     previous_vertex_id := 0, sc := c, previous_sc := c, links := links s + 1\<rparr>"

partial_function (option) route_path ::
  "FabricData_t \<Rightarrow> u32 \<Rightarrow> u64 \<Rightarrow> u64 \<Rightarrow> nat \<Rightarrow> u16 \<Rightarrow> route_vars \<Rightarrow> (cl_error + addr list \<times> bool) option" where
  "route_path F usedSLs src dst sl dlid s =
    (case hfip s of None \<Rightarrow> Some (Inl BadPointer)
     | Some hfi \<Rightarrow>
        if hfi = dst then Some (Inr ([], True))
        else
         (case next_connection F usedSLs src sl dlid hfi s of
            Inl err \<Rightarrow> Some (Inl err)
          | Inr (Inl _) \<Rightarrow> Some (Inr ([], False))
          | Inr (Inr (conn, c)) \<Rightarrow>
             if conn = previous_connection s then Some (Inr ([], False))
             else
              (case deref (conns F) conn of Inl err \<Rightarrow> Some (Inl err)
               | Inr cd \<Rightarrow>
                  (case CLFindGuidDevice F (ToDeviceGUID cd) of
                     None \<Rightarrow> Some (Inr ([conn], False))
                   | Some n \<Rightarrow>
                      Option.bind (route_path F usedSLs src dst sl dlid (path_vars n conn c s)) (\<lambda>r.
                       Some (map_sum id (\<lambda>(cs, b). (conn # cs, b)) r))))))"

text \<open>The successions of connections along a path that comes from \<open>p\<close>.\<close>

fun successions :: "addr \<Rightarrow> addr list \<Rightarrow> (addr \<times> addr) set" where
  "successions p [] = {}"
| "successions p (c # cs) = (if p = 0 then {} else {(p, c)}) \<union> successions c cs"

lemma next_sc_vertex [simp]:
  "next_sc F u src sl hfi dev port (s\<lparr>previous_vertex_id := x\<rparr>) = next_sc F u src sl hfi dev port s"
  by (simp add: next_sc_def cong: option.case_cong if_cong)

lemma next_connection_vertex [simp]:
  "next_connection F u src sl dlid hfi (s\<lparr>previous_vertex_id := x\<rparr>) = next_connection F u src sl dlid hfi s"
  by (simp add: next_connection_def cong: option.case_cong)

lemma next_connection_nonnull:
  assumes "next_connection F u src sl dlid hfi s = Inr (Inr (conn, c))"
  shows "conn \<noteq> 0"
  using assms
  by (auto simp: next_connection_def and_then_def split: option.splits sum.splits if_splits)

section \<open>A hop and the graph\<close>

text \<open>The previous connection is a vertex, whose number the loop keeps.\<close>

definition walk_ok :: "(addr \<times> addr) set \<Rightarrow> addr set \<Rightarrow> route_vars \<Rightarrow> clGraphData_t \<Rightarrow> bool" where
  "walk_ok E C s G \<longleftrightarrow> fits E C G \<and>
     (previous_connection s \<noteq> 0 \<longrightarrow> conn_at G (previous_vertex_id s) = Some (previous_connection s))"

lemma hop_graph:
  assumes R: "room E C" and mem: "\<forall>n. mem n" and W: "walk_ok E C s G" and c: "conn \<in> C"
    and p: "conn \<noteq> previous_connection s" "conn \<noteq> 0" "previous_connection s \<noteq> 0 \<Longrightarrow> (previous_connection s, conn) \<in> E"
  obtains vertex G1 allocs1 a G2 allocs2 where "CLGraphDataAddVertex mem conn G allocs = (vertex, G1, allocs1)"
    "vertex \<noteq> - 1" "(if previous_connection s \<noteq> 0 then CLGraphDataAddArc mem (previous_vertex_id s) vertex G1 allocs1
      else Inr (0, G1, allocs1)) = Inr (a, G2, allocs2)" "a \<noteq> - 1" "fits E C G2"
    "conn_at G2 vertex = Some conn"
    "dependencies G2 = dependencies G \<union> successions (previous_connection s) [conn]"
proof -
  have F: "fits E C G" using W by (simp add: walk_ok_def)
  obtain j N1 allocs1 where N1: "CLGraphDataAddVertex mem conn G allocs = (j, N1, allocs1)" "fits E C N1"
    "conn_at N1 j = Some conn" "j \<noteq> - 1" "grows G N1" "dependencies N1 = dependencies G"
    by (rule fits_add_vertex [OF R F mem c])
  show thesis
  proof (cases "previous_connection s = 0")
    case True
    then show thesis using that [OF N1(1,4), of 0 N1 allocs1] N1(2,3,6) by simp
  next
    case False
    then have b: "conn_at G (previous_vertex_id s) = Some (previous_connection s)"
      using W by (simp add: walk_ok_def)
    obtain k K1 al1 a N2 allocs2 where N2: "CLGraphDataAddVertex mem conn G allocs = (k, K1, al1)" "k \<noteq> - 1"
      "(case Out of Out \<Rightarrow> CLGraphDataAddArc mem (previous_vertex_id s) k K1 al1
         | In \<Rightarrow> CLGraphDataAddArc mem k (previous_vertex_id s) K1 al1) = Inr (a, N2, allocs2)" "a \<noteq> - 1"
      "fits E C N2" "conn_at N2 (previous_vertex_id s) = Some (previous_connection s)"
      "dependencies N2 = insert (dir Out (previous_connection s) conn) (dependencies G)" "conn_at N2 k = Some conn"
      by (rule add_dependency [OF R F mem b c p(1) [symmetric], of Out])
        (use p(3) False in \<open>simp add: dir_def\<close>)
    then show thesis using that [OF N2(1,2), of a N2 allocs2] False by (simp add: dir_def)
  qed
qed

text \<open>A hop to the next device.\<close>

lemma route_hop_effect:
  assumes R: "room E C" and mem: "\<forall>n. mem n" and W: "walk_ok E C s G"
    and n: "next_connection F u src sl dlid hfi s = Inr (Inr (conn, c))"
    and p: "conn \<noteq> previous_connection s" and C: "conn \<in> C"
    and E: "previous_connection s \<noteq> 0 \<Longrightarrow> (previous_connection s, conn) \<in> E"
    and d: "deref (conns F) conn = Inr cd"
  obtains vertex G' allocs' where "fits E C G'"
    "dependencies G' = dependencies G \<union> successions (previous_connection s) [conn]"
    "route_hop mem F u src sl dlid hfi s G allocs = Inr (case CLFindGuidDevice F (ToDeviceGUID cd) of
        None \<Rightarrow> (False, Some FERROR, s\<lparr>sc := c, hfip := None\<rparr>, G', allocs')
      | Some k \<Rightarrow> (True, None, (path_vars k conn c s)\<lparr>previous_vertex_id := vertex\<rparr>, G', allocs'))"
    "walk_ok E C ((path_vars k conn c s)\<lparr>previous_vertex_id := vertex\<rparr>) G'"
proof -
  obtain vertex G1 allocs1 a G2 allocs2 where h: "CLGraphDataAddVertex mem conn G allocs = (vertex, G1, allocs1)"
    "vertex \<noteq> - 1" "(if previous_connection s \<noteq> 0 then CLGraphDataAddArc mem (previous_vertex_id s) vertex G1 allocs1
      else Inr (0, G1, allocs1)) = Inr (a, G2, allocs2)" "a \<noteq> - 1" "fits E C G2" "conn_at G2 vertex = Some conn"
    "dependencies G2 = dependencies G \<union> successions (previous_connection s) [conn]"
    by (rule hop_graph [OF R mem W C p next_connection_nonnull [OF n] E])
  have "route_hop mem F u src sl dlid hfi s G allocs = Inr (case CLFindGuidDevice F (ToDeviceGUID cd) of
      None \<Rightarrow> (False, Some FERROR, s\<lparr>sc := c, hfip := None\<rparr>, G2, allocs2)
    | Some k \<Rightarrow> (True, None, (path_vars k conn c s)\<lparr>previous_vertex_id := vertex\<rparr>, G2, allocs2))"
    unfolding route_hop_def n
    by (simp only: and_then_simps sum.case split_conv h(1) Let_def)
      (simp add: h(2-4) d path_vars_def split: option.split)
  then show thesis using that [OF h(5,7)] h(5,6) by (simp add: walk_ok_def path_vars_def)
qed

section \<open>A route and the graph\<close>

lemma route_path_cases:
  assumes "route_path F u src dst sl dlid s = Some (Inr (cs, b))"
  obtains (arrived) "hfip s = Some dst" "cs = []" "b"
  | (stuck) hfi status where "hfip s = Some hfi" "hfi \<noteq> dst"
      "next_connection F u src sl dlid hfi s = Inr (Inl status)" "cs = []" "\<not> b"
  | (again) hfi c where "hfip s = Some hfi" "hfi \<noteq> dst"
      "next_connection F u src sl dlid hfi s = Inr (Inr (previous_connection s, c))" "cs = []" "\<not> b"
  | (lost) hfi conn c cd where "hfip s = Some hfi" "hfi \<noteq> dst"
      "next_connection F u src sl dlid hfi s = Inr (Inr (conn, c))" "conn \<noteq> previous_connection s"
      "deref (conns F) conn = Inr cd" "CLFindGuidDevice F (ToDeviceGUID cd) = None" "cs = [conn]" "\<not> b"
  | (hop) hfi conn c cd n cs' where "hfip s = Some hfi" "hfi \<noteq> dst"
      "next_connection F u src sl dlid hfi s = Inr (Inr (conn, c))" "conn \<noteq> previous_connection s"
      "deref (conns F) conn = Inr cd" "CLFindGuidDevice F (ToDeviceGUID cd) = Some n"
      "route_path F u src dst sl dlid (path_vars n conn c s) = Some (Inr (cs', b))" "cs = conn # cs'"
proof (cases "hfip s")
  case None
  then show thesis using assms by (simp add: route_path.simps [of F u src dst sl dlid s])
next
  case (Some hfi)
  note p = assms [unfolded route_path.simps [of F u src dst sl dlid s] Some option.case]
  show thesis
  proof (cases "hfi = dst")
    case True
    then show thesis using p Some arrived by simp
  next
    case False
    note p = p [unfolded if_not_P [OF False]]
    show thesis
    proof (cases "next_connection F u src sl dlid hfi s")
      case (Inl e)
      then show thesis using p by simp
    next
      case (Inr r)
      show thesis
      proof (cases r)
        case (Inl status)
        then show thesis using p Inr Some False stuck by simp
      next
        case r: (Inr cc)
        obtain conn c where cc: "cc = (conn, c)" by (cases cc)
        note n = Inr [unfolded r cc]
        show thesis
        proof (cases "conn = previous_connection s")
          case True
          then show thesis using p n Some False again by simp
        next
          case ne: False
          show thesis
          proof (cases "deref (conns F) conn")
            case (Inl e)
            then show thesis using p n ne by simp
          next
            case d: (Inr cd)
            show thesis
            proof (cases "CLFindGuidDevice F (ToDeviceGUID cd)")
              case None
              then show thesis using p n ne d lost [OF Some False n ne d] by simp
            next
              case k: (Some k)
              let ?r = "route_path F u src dst sl dlid (path_vars k conn c s)"
              obtain x where x: "?r = Some x" using p n ne d k by (cases ?r) simp_all
              then obtain cs' b' where "x = Inr (cs', b')" "cs = conn # cs'" "b' = b"
                using p n ne d k by (cases x) auto
              with x show thesis using hop [OF Some False n ne d k] by simp
            qed
          qed
        qed
      qed
    qed
  qed
qed

text \<open>A hop that would repeat the connection: the arc to itself is refused.\<close>

lemma route_hop_again:
  assumes R: "room E C" and W: "walk_ok E C s G" and p: "previous_connection s \<noteq> 0"
    and n: "next_connection F u src sl dlid hfi s = Inr (Inr (previous_connection s, c))"
  shows "route_hop mem F u src sl dlid hfi s G allocs = Inr (False, Some FERROR, s\<lparr>sc := c\<rparr>, G, allocs)"
proof -
  have F: "fits E C G" and at: "conn_at G (previous_vertex_id s) = Some (previous_connection s)"
    using W p by (simp_all add: walk_ok_def)
  have "conns_ok G" using F by (simp add: fits_def built_ok_def graph_ok_def)
  then have "CLGraphFindConnVertex G (previous_connection s) = Some (previous_vertex_id s)"
    using at unfolding conns_ok_def conn_at_Some by blast
  then have "CLGraphDataAddVertex mem (previous_connection s) G allocs = (previous_vertex_id s, G, allocs)"
    by (simp add: CLGraphDataAddVertex_def)
  moreover have "previous_vertex_id s \<noteq> - 1"
    using at fits_room(1) [OF R F] by (auto simp: conn_at_Some word_less_nat_alt unat_minus_1)
  ultimately show ?thesis using p by (simp add: route_hop_def n CLGraphDataAddArc_def)
qed

lemma route_loop_effect:
  assumes R: "room E C" and mem: "\<forall>n. mem n"
  shows "walk_ok E C s G \<Longrightarrow>
    route_path F u src dst sl dlid (s\<lparr>previous_vertex_id := 0\<rparr>) = Some (Inr (cs, b)) \<Longrightarrow>
    set cs \<subseteq> C \<Longrightarrow> successions (previous_connection s) cs \<subseteq> E \<Longrightarrow>
    \<exists>status s' G' allocs'. route_loop mem F u src dst sl dlid s G allocs = Some (Inr (status, s', G', allocs')) \<and>
      fits E C G' \<and> dependencies G' = dependencies G \<union> successions (previous_connection s) cs \<and>
      (hfip s' = Some dst \<longleftrightarrow> b) \<and> (b \<longrightarrow> links s' = links s + of_nat (length cs))"
proof (induction cs arbitrary: s G allocs)
  case Nil
  have F: "fits E C G" using Nil(1) by (simp add: walk_ok_def)
  from Nil(2) show ?case
  proof (cases rule: route_path_cases)
    case arrived
    then show ?thesis using F by (subst route_loop.simps) simp
  next
    case (stuck hfi status)
    then have "route_hop mem F u src sl dlid hfi s G allocs = Inr (False, status, s, G, allocs)"
      by (simp add: route_hop_def)
    then show ?thesis using F stuck by (subst route_loop.simps) simp
  next
    case (again hfi c)
    then have n: "next_connection F u src sl dlid hfi s = Inr (Inr (previous_connection s, c))" by simp
    from route_hop_again [OF R Nil(1) next_connection_nonnull [OF n] n]
    show ?thesis using F again by (subst route_loop.simps) simp
  qed simp_all
next
  case (Cons conn cs)
  have C: "conn \<in> C" using Cons.prems(3) by simp
  have E: "previous_connection s \<noteq> 0 \<Longrightarrow> (previous_connection s, conn) \<in> E" using Cons.prems(4) by simp
  from Cons.prems(2) show ?case
  proof (cases rule: route_path_cases)
    case (lost hfi conn' c cd)
    then have l: "next_connection F u src sl dlid hfi s = Inr (Inr (conn, c))" "conn \<noteq> previous_connection s"
      "deref (conns F) conn = Inr cd" by simp_all
    obtain vertex G' allocs' where h: "fits E C G'"
      "dependencies G' = dependencies G \<union> successions (previous_connection s) [conn]"
      "route_hop mem F u src sl dlid hfi s G allocs = Inr (case CLFindGuidDevice F (ToDeviceGUID cd) of
          None \<Rightarrow> (False, Some FERROR, s\<lparr>sc := c, hfip := None\<rparr>, G', allocs')
        | Some k \<Rightarrow> (True, None, (path_vars k conn c s)\<lparr>previous_vertex_id := vertex\<rparr>, G', allocs'))"
      by (rule route_hop_effect [OF R mem Cons.prems(1) l(1,2) C E l(3)])
    show ?thesis using h lost by (subst route_loop.simps) simp
  next
    case (hop hfi conn' c cd k cs')
    then have l: "next_connection F u src sl dlid hfi s = Inr (Inr (conn, c))" "conn \<noteq> previous_connection s"
      "deref (conns F) conn = Inr cd" by simp_all
    obtain vertex G' allocs' where h: "fits E C G'"
      "dependencies G' = dependencies G \<union> successions (previous_connection s) [conn]"
      "route_hop mem F u src sl dlid hfi s G allocs = Inr (case CLFindGuidDevice F (ToDeviceGUID cd) of
          None \<Rightarrow> (False, Some FERROR, s\<lparr>sc := c, hfip := None\<rparr>, G', allocs')
        | Some k \<Rightarrow> (True, None, (path_vars k conn c s)\<lparr>previous_vertex_id := vertex\<rparr>, G', allocs'))"
      "walk_ok E C ((path_vars k conn c s)\<lparr>previous_vertex_id := vertex\<rparr>) G'"
      by (rule route_hop_effect [OF R mem Cons.prems(1) l(1,2) C E l(3)])
    let ?s = "(path_vars k conn c s)\<lparr>previous_vertex_id := vertex\<rparr>"
    have "?s\<lparr>previous_vertex_id := 0\<rparr> = path_vars k conn c (s\<lparr>previous_vertex_id := 0\<rparr>)"
      by (simp add: path_vars_def)
    then have path: "route_path F u src dst sl dlid (?s\<lparr>previous_vertex_id := 0\<rparr>) = Some (Inr (cs, b))"
      using hop(7,8) by simp
    have prev: "previous_connection ?s = conn" "links ?s = links s + 1" by (simp_all add: path_vars_def)
    obtain status s' G2 allocs2 where r: "route_loop mem F u src dst sl dlid ?s G' allocs' = Some (Inr (status, s', G2, allocs2))"
      "fits E C G2" "dependencies G2 = dependencies G' \<union> successions conn cs"
      "hfip s' = Some dst \<longleftrightarrow> b" "b \<longrightarrow> links s' = links s + 1 + of_nat (length cs)"
      using Cons.IH [OF h(4) path, of allocs'] Cons.prems(3,4) unfolding prev by auto
    have "route_loop mem F u src dst sl dlid s G allocs = Some (Inr (status, s', G2, allocs2))"
      using h(3) r(1) hop by (subst route_loop.simps) simp
    then show ?thesis using r h(2) by (auto simp: algebra_simps)
  qed simp_all
qed

end
