(* ===== verification/CreditRouteBuild.thy ===== *)
theory CreditRouteBuild
  imports CreditRoutePath
begin

text \<open>
  The dependency graph of all routes, and routes that never end.
\<close>

section \<open>Routes to build\<close>

type_synonym route_task = "u64 \<times> u64 \<times> nat"

text \<open>All pairs of different places in the list of sources and destinations, on every service level
  in use.\<close>

definition pair_tasks :: "u32 \<Rightarrow> nat \<times> u64 \<Rightarrow> nat \<times> u64 \<Rightarrow> route_task list" where
  "pair_tasks usedSLs p q =
    (if fst p \<noteq> fst q
     then map (\<lambda>sl. (snd p, snd q, sl)) (filter (sl_used usedSLs) [0..<STL_MAX_SLS]) else [])"

definition route_tasks :: "FabricData_t \<Rightarrow> u32 \<Rightarrow> route_task list" where
  "route_tasks F usedSLs =
    concat (map (\<lambda>p. concat (map (pair_tasks usedSLs p) (enumerate 0 (FIs F)))) (enumerate 0 (FIs F)))"

definition task_path :: "FabricData_t \<Rightarrow> u32 \<Rightarrow> route_task \<Rightarrow> (cl_error + addr list \<times> bool) option" where
  "task_path F usedSLs = (\<lambda>(src, dst, sl).
    case qm_get (map_guid_to_ib_device F) dst of None \<Rightarrow> Some (Inl BadPointer)
    | Some dev \<Rightarrow> route_path F usedSLs src dst sl (ucast (Lid dev)) (route_start src))"

definition task_conns :: "FabricData_t \<Rightarrow> u32 \<Rightarrow> route_task \<Rightarrow> addr list" where
  "task_conns F usedSLs t = (case task_path F usedSLs t of Some (Inr (cs, _)) \<Rightarrow> cs | _ \<Rightarrow> [])"

definition arrives :: "FabricData_t \<Rightarrow> u32 \<Rightarrow> route_task \<Rightarrow> bool" where
  "arrives F usedSLs t \<longleftrightarrow> (\<exists>cs. task_path F usedSLs t = Some (Inr (cs, True)))"

text \<open>Which connection some route takes straight after which, and the connections taken.\<close>

definition route_dependencies :: "FabricData_t \<Rightarrow> u32 \<Rightarrow> (addr \<times> addr) set" where
  "route_dependencies F usedSLs =
    (\<Union>t \<in> set (route_tasks F usedSLs). successions 0 (task_conns F usedSLs t))"

definition route_connections :: "FabricData_t \<Rightarrow> u32 \<Rightarrow> addr set" where
  "route_connections F usedSLs = (\<Union>t \<in> set (route_tasks F usedSLs). set (task_conns F usedSLs t))"

text \<open>The walk along the route comes to an end, without a bad pointer and within 1000 connections.\<close>

definition route_ends :: "FabricData_t \<Rightarrow> u32 \<Rightarrow> route_task \<Rightarrow> bool" where
  "route_ends F usedSLs t \<longleftrightarrow> (\<exists>cs b. task_path F usedSLs t = Some (Inr (cs, b)) \<and> length cs \<le> 1000)"

section \<open>Counting\<close>

definition stats_ok :: "route_stats \<Rightarrow> bool" where
  "stats_ok st \<longleftrightarrow> hops_histogram st = None \<or> 1000 \<le> length (cells (hops_histogram st))"

lemma count_hops_effect:
  assumes mem: "\<forall>n. mem n" and st: "stats_ok st" and hops: "unat hops < 1000"
  obtains st' allocs' where "count_hops mem hops st allocs = Inr (True, st', allocs')" "stats_ok st'"
    "present_routes st' = present_routes st" "missing_routes st' = missing_routes st"
proof -
  let ?h = "hops_histogram st"
  obtain cs allocs1 where cs: "CLGetDynamicArray mem 0 (unat hops) ?h allocs = (FSUCCESS, Some cs, allocs1)"
    "1000 \<le> length cs"
  proof (cases ?h)
    case None
    then show thesis using that mem by (simp add: CLGetDynamicArray_def cells_def)
  next
    case (Some h)
    then have "1000 \<le> length h" using st by (simp add: stats_ok_def cells_def)
    then show thesis using that Some hops by (simp add: CLGetDynamicArray_def cells_def)
  qed
  have e: "element (cells (Some cs)) (unat hops) = Inr (cs ! unat hops)"
    using cs(2) hops by (simp add: element_def cells_def)
  show thesis
  proof (cases "qm_get (hopsHistogramLstMap st) (ucast hops) = None")
    case True
    then show thesis using that mem cs e by (simp add: count_hops_def stats_ok_def cells_def Let_def)
  next
    case False
    then show thesis using that cs e by (auto simp: count_hops_def stats_ok_def cells_def Let_def)
  qed
qed

section \<open>Building\<close>

text \<open>\<open>built F u E C ts b b'\<close>: from \<open>b\<close> to \<open>b'\<close> the routes \<open>ts\<close> were added and counted.\<close>

definition built ::
  "FabricData_t \<Rightarrow> u32 \<Rightarrow> (addr \<times> addr) set \<Rightarrow> addr set \<Rightarrow> route_task list \<Rightarrow> build_state \<Rightarrow> build_state \<Rightarrow> bool" where
  "built F u E C ts = (\<lambda>(status, st, G, allocs) (status', st', G', allocs').
     fits E C G' \<and> stats_ok st' \<and>
     dependencies G' = dependencies G \<union> (\<Union>t \<in> set ts. successions 0 (task_conns F u t)) \<and>
     present_routes st' = present_routes st + of_nat (length (filter (arrives F u) ts)) \<and>
     missing_routes st' = missing_routes st + of_nat (length (filter (\<lambda>t. \<not> arrives F u t) ts)))"

definition ready :: "(addr \<times> addr) set \<Rightarrow> addr set \<Rightarrow> build_state \<Rightarrow> bool" where
  "ready E C = (\<lambda>(status, st, G, allocs). fits E C G \<and> stats_ok st)"

lemma built_Nil: "ready E C b \<Longrightarrow> built F u E C [] b b"
  by (auto simp: built_def ready_def)

lemma built_append:
  "built F u E C ts b b' \<Longrightarrow> built F u E C us b' b'' \<Longrightarrow> built F u E C (ts @ us) b b''"
  by (auto simp: built_def algebra_simps)

lemma built_ready: "built F u E C ts b b' \<Longrightarrow> ready E C b'"
  by (auto simp: built_def ready_def)

text \<open>A route whose connections and their successions are among those given.\<close>

definition fit_task :: "FabricData_t \<Rightarrow> u32 \<Rightarrow> (addr \<times> addr) set \<Rightarrow> addr set \<Rightarrow> route_task \<Rightarrow> bool" where
  "fit_task F u E C t \<longleftrightarrow> route_ends F u t \<and> fst t \<noteq> fst (snd t) \<and> set (task_conns F u t) \<subseteq> C \<and>
     successions 0 (task_conns F u t) \<subseteq> E"

lemma build_route_effect:
  assumes R: "room E C" and mem: "\<forall>n. mem n" and t: "fit_task F u E C (src, dst, sl)" and b: "ready E C b"
  obtains b' where "build_route mem F u src dst sl b = Some (Inr (True, b'))" "built F u E C [(src, dst, sl)] b b'"
proof -
  obtain status st G allocs where b': "b = (status, st, G, allocs)" by (cases b)
  obtain cs a where p: "task_path F u (src, dst, sl) = Some (Inr (cs, a))" "length cs \<le> 1000"
    and st: "src \<noteq> dst" "set (task_conns F u (src, dst, sl)) \<subseteq> C" "successions 0 (task_conns F u (src, dst, sl)) \<subseteq> E"
    using t by (auto simp: fit_task_def route_ends_def)
  have conns: "task_conns F u (src, dst, sl) = cs" using p by (simp add: task_conns_def)
  obtain dev where dev: "qm_get (map_guid_to_ib_device F) dst = Some dev"
    "route_path F u src dst sl (ucast (Lid dev)) (route_start src) = Some (Inr (cs, a))"
    using p(1) by (auto simp: task_path_def split: option.splits)
  have W: "walk_ok E C (route_start src) G" using b by (simp add: b' ready_def walk_ok_def route_start_def)
  have path0: "route_path F u src dst sl (ucast (Lid dev)) ((route_start src)\<lparr>previous_vertex_id := 0\<rparr>) =
      Some (Inr (cs, a))" using dev(2) by (simp add: route_start_def)
  have start: "previous_connection (route_start src) = 0" "links (route_start src) = 0"
    by (simp_all add: route_start_def)
  obtain status' s' G' allocs' where r:
    "route_loop mem F u src dst sl (ucast (Lid dev)) (route_start src) G allocs = Some (Inr (status', s', G', allocs'))"
    "fits E C G'" "dependencies G' = dependencies G \<union> successions 0 cs" "hfip s' = Some dst \<longleftrightarrow> a"
    "a \<longrightarrow> links s' = of_nat (length cs)"
    using route_loop_effect [OF R mem W path0, of allocs] st(2,3) unfolding conns start by auto
  have arr: "arrives F u (src, dst, sl) \<longleftrightarrow> a" using p by (auto simp: arrives_def)
  show thesis
  proof (cases a)
    case False
    have "build_route mem F u src dst sl b = Some (Inr (True, (case status' of None \<Rightarrow> status | Some x \<Rightarrow> x),
        st\<lparr>missing_routes := missing_routes st + 1\<rparr>, G', allocs'))"
      using dev(1) r(1,4) False by (simp add: build_route_def b')
    moreover have "built F u E C [(src, dst, sl)] b ((case status' of None \<Rightarrow> status | Some x \<Rightarrow> x),
        st\<lparr>missing_routes := missing_routes st + 1\<rparr>, G', allocs')"
      using r(2,3) b arr False conns by (simp add: built_def b' ready_def stats_ok_def)
    ultimately show thesis by (rule that)
  next
    case True
    have "cs \<noteq> []"
    proof
      assume "cs = []"
      from dev(2) [unfolded this] show False
        by (cases rule: route_path_cases) (use st(1) True in \<open>simp_all add: route_start_def\<close>)
    qed
    then have "links s' - 1 = of_nat (length cs - 1)" using r(5) True by (cases cs) simp_all
    then have "unat (links s' - 1) = length cs - 1"
      using p(2) by (simp add: unat_of_nat take_bit_nat_eq_self)
    then have h: "unat (links s' - 1) < 1000" using p(2) \<open>cs \<noteq> []\<close> by (cases cs) simp_all
    have sok: "stats_ok (st\<lparr>present_routes := present_routes st + 1\<rparr>)"
      using b by (simp add: b' ready_def stats_ok_def)
    obtain st' allocs'' where c: "count_hops mem (links s' - 1) (st\<lparr>present_routes := present_routes st + 1\<rparr>) allocs' =
        Inr (True, st', allocs'')" "stats_ok st'"
      "present_routes st' = present_routes (st\<lparr>present_routes := present_routes st + 1\<rparr>)"
      "missing_routes st' = missing_routes (st\<lparr>present_routes := present_routes st + 1\<rparr>)"
      by (rule count_hops_effect [OF mem sok h])
    have "build_route mem F u src dst sl b =
        Some (Inr (True, (case status' of None \<Rightarrow> status | Some x \<Rightarrow> x), st', G', allocs''))"
      using dev(1) r(1,4) c(1) True by (simp add: build_route_def b')
    moreover have "built F u E C [(src, dst, sl)] b ((case status' of None \<Rightarrow> status | Some x \<Rightarrow> x), st', G', allocs'')"
      using r(2,3) c(2-4) arr True conns by (simp add: built_def b')
    ultimately show thesis by (rule that)
  qed
qed

lemma build_sls_effect:
  assumes R: "room E C" and mem: "\<forall>n. mem n"
  shows "ready E C b \<Longrightarrow> \<forall>sl \<in> set sls. sl_used u sl \<longrightarrow> fit_task F u E C (src, dst, sl) \<Longrightarrow>
    \<exists>b'. build_sls mem F u src dst sls b = Some (Inr b') \<and>
      built F u E C (map (\<lambda>sl. (src, dst, sl)) (filter (sl_used u) sls)) b b'"
proof (induction sls arbitrary: b)
  case Nil
  then show ?case using built_Nil by auto
next
  case (Cons sl sls)
  show ?case
  proof (cases "sl_used u sl")
    case False
    then show ?thesis using Cons by simp
  next
    case True
    then have t: "fit_task F u E C (src, dst, sl)" using Cons.prems(2) by simp
    obtain b1 where b1: "build_route mem F u src dst sl b = Some (Inr (True, b1))" "built F u E C [(src, dst, sl)] b b1"
      by (rule build_route_effect [OF R mem t Cons.prems(1)])
    obtain b' where b': "build_sls mem F u src dst sls b1 = Some (Inr b')"
      "built F u E C (map (\<lambda>sl. (src, dst, sl)) (filter (sl_used u) sls)) b1 b'"
      using Cons.IH [OF built_ready [OF b1(2)]] Cons.prems(2) by auto
    then show ?thesis using True b1(1) built_append [OF b1(2) b'(2)] by simp
  qed
qed

lemma build_pairs_effect:
  assumes R: "room E C" and mem: "\<forall>n. mem n"
  shows "ready E C b \<Longrightarrow> \<forall>q \<in> set dsts. \<forall>t \<in> set (pair_tasks u p q). fit_task F u E C t \<Longrightarrow>
    \<exists>b'. build_pairs mem F u p dsts b = Some (Inr b') \<and>
      built F u E C (concat (map (pair_tasks u p) dsts)) b b'"
proof (induction dsts arbitrary: b)
  case Nil
  then show ?case using built_Nil by auto
next
  case (Cons q dsts)
  show ?case
  proof (cases "fst p \<noteq> fst q")
    case False
    then show ?thesis using Cons by (simp add: pair_tasks_def)
  next
    case True
    then have t: "pair_tasks u p q = map (\<lambda>sl. (snd p, snd q, sl)) (filter (sl_used u) [0..<STL_MAX_SLS])"
      by (simp add: pair_tasks_def)
    then have "\<forall>sl \<in> set [0..<STL_MAX_SLS]. sl_used u sl \<longrightarrow> fit_task F u E C (snd p, snd q, sl)"
      using Cons.prems(2) by auto
    then obtain b1 where b1: "build_sls mem F u (snd p) (snd q) [0..<STL_MAX_SLS] b = Some (Inr b1)"
      "built F u E C (pair_tasks u p q) b b1"
      using build_sls_effect [OF R mem Cons.prems(1)] unfolding t by blast
    obtain b' where b': "build_pairs mem F u p dsts b1 = Some (Inr b')"
      "built F u E C (concat (map (pair_tasks u p) dsts)) b1 b'"
      using Cons.IH [OF built_ready [OF b1(2)]] Cons.prems(2) by auto
    then show ?thesis using True b1(1) built_append [OF b1(2) b'(2)] by simp
  qed
qed

lemma build_sources_effect:
  assumes R: "room E C" and mem: "\<forall>n. mem n"
  shows "ready E C b \<Longrightarrow>
    \<forall>p \<in> set srcs. \<forall>q \<in> set (enumerate 0 (FIs F)). \<forall>t \<in> set (pair_tasks u p q). fit_task F u E C t \<Longrightarrow>
    \<exists>b'. build_sources mem F u srcs b = Some (Inr b') \<and>
      built F u E C (concat (map (\<lambda>p. concat (map (pair_tasks u p) (enumerate 0 (FIs F)))) srcs)) b b'"
proof (induction srcs arbitrary: b)
  case Nil
  then show ?case using built_Nil by auto
next
  case (Cons p srcs)
  obtain b1 where b1: "build_pairs mem F u p (enumerate 0 (FIs F)) b = Some (Inr b1)"
    "built F u E C (concat (map (pair_tasks u p) (enumerate 0 (FIs F)))) b b1"
    using build_pairs_effect [OF R mem Cons.prems(1), of "enumerate 0 (FIs F)" u p F] Cons.prems(2) by auto
  obtain b' where b': "build_sources mem F u srcs b1 = Some (Inr b')"
    "built F u E C (concat (map (\<lambda>p. concat (map (pair_tasks u p) (enumerate 0 (FIs F)))) srcs)) b1 b'"
    using Cons.IH [OF built_ready [OF b1(2)]] Cons.prems(2) by auto
  then show ?case using b1(1) built_append [OF b1(2) b'(2)] by simp
qed

lemma build_effect:
  assumes mem: "\<forall>n. mem n" and R: "room (route_dependencies F u) (route_connections F u)"
    and G: "Graph F = zero_graph" and dist: "distinct (FIs F)"
    and ends: "\<forall>t \<in> set (route_tasks F u). route_ends F u t"
  obtains st F' allocs' where "CLFabricDataBuildRouteGraph mem u F allocs = Some (Inr (FSUCCESS, st, F', allocs'))"
    "built_ok (Graph F')" "dependencies (Graph F') = route_dependencies F u"
    "fits (route_dependencies F u) (route_connections F u) (Graph F')"
    "present_routes st = of_nat (length (filter (arrives F u) (route_tasks F u)))"
    "missing_routes st = of_nat (length (filter (\<lambda>t. \<not> arrives F u t) (route_tasks F u)))"
proof -
  let ?E = "route_dependencies F u" and ?C = "route_connections F u"
  have b: "ready ?E ?C (FSUCCESS, first_stats, Graph F, allocs + 1)"
    by (simp add: ready_def G fits_def built_ok_zero connections_zero dependencies_def edges_zero
        stats_ok_def first_stats_def)
  have "fit_task F u ?E ?C t"
    if p: "p \<in> set (enumerate 0 (FIs F))" and q: "q \<in> set (enumerate 0 (FIs F))"
      and pq: "t \<in> set (pair_tasks u p q)" for p q t
  proof -
    have t: "t \<in> set (route_tasks F u)" using p q pq by (auto simp: route_tasks_def)
    obtain sl where sl: "t = (snd p, snd q, sl)" "fst p \<noteq> fst q"
      using pq by (auto simp: pair_tasks_def split: if_splits)
    have "snd p \<noteq> snd q"
      using p q sl(2) nth_eq_iff_index_eq [OF dist, of "fst p" "fst q"]
      by (auto simp: in_set_enumerate_eq)
    then show ?thesis using t sl(1) ends
      by (auto simp: fit_task_def route_dependencies_def route_connections_def)
  qed
  then obtain b' where b': "build_sources mem F u (enumerate 0 (FIs F)) (FSUCCESS, first_stats, Graph F, allocs + 1) = Some (Inr b')"
    "built F u ?E ?C (route_tasks F u) (FSUCCESS, first_stats, Graph F, allocs + 1) b'"
    using build_sources_effect [OF R mem b, of "enumerate 0 (FIs F)" F u] unfolding route_tasks_def by blast
  obtain status st G' allocs' where s: "b' = (status, st, G', allocs')" by (cases b')
  have "CLFabricDataBuildRouteGraph mem u F allocs = Some (Inr (FSUCCESS, st, F\<lparr>Graph := G'\<rparr>, allocs'))"
    using b'(1) mem s by (simp add: CLFabricDataBuildRouteGraph_def)
  moreover have "dependencies zero_graph = {}" by (simp add: dependencies_def edges_zero)
  ultimately show thesis
    using that b'(2) by (simp add: built_def s G fits_def first_stats_def route_dependencies_def)
qed

end
