(* ===== verification/CreditFabric.thy ===== *)
theory CreditFabric
  imports CreditRouteBuild
begin

text \<open>
  The devices, connections and routes as \<^verbatim>\<open>CLDataAddDevice\<close>, \<^verbatim>\<open>CLDataAddConnection\<close> and
  \<^verbatim>\<open>CLDataAddRoute\<close> keep them, and the hops of a route in such a fabric.
\<close>

section \<open>Invariant\<close>

text \<open>The cells of a device hold its own connections, at the place of their port and each once; its
  routes leave through its own ports.\<close>

definition node_of :: "FabricData_t \<Rightarrow> addr \<Rightarrow> u64 option" where
  "node_of F portp =
    (case deref (ports F) portp of Inl _ \<Rightarrow> None
     | Inr port \<Rightarrow> (case deref (nodes F) (p_nodep port) of Inl _ \<Rightarrow> None | Inr node \<Rightarrow> Some (NodeGUID node)))"

definition cell_at :: "clDeviceData_t \<Rightarrow> nat \<Rightarrow> nat \<Rightarrow> addr" where
  "cell_at dev i k = Connections dev ! i ! k"

definition in_table :: "nat \<Rightarrow> nat \<Rightarrow> bool" where
  "in_table i k \<longleftrightarrow> i < CREDIT_LOOP_DEVICE_MAX_CONNECTIONS \<and> k < STL_MAX_SCS"

definition device_ok :: "FabricData_t \<Rightarrow> u64 \<Rightarrow> clDeviceData_t \<Rightarrow> bool" where
  "device_ok F guid dev \<longleftrightarrow>
     length (Connections dev) = CREDIT_LOOP_DEVICE_MAX_CONNECTIONS \<and>
     (\<forall>row \<in> set (Connections dev). length row = STL_MAX_SCS) \<and>
     (\<exists>node. deref (nodes F) (d_nodep dev) = Inr node \<and> NodeGUID node = guid) \<and>
     qm_wf (map_dlid_to_route dev) \<and>
     (\<forall>dlid p. qm_get (map_dlid_to_route dev) dlid = Some p \<longrightarrow> node_of F p = Some guid) \<and>
     (\<forall>i k. in_table i k \<and> cell_at dev i k \<noteq> 0 \<longrightarrow>
        (\<exists>c. conns F (cell_at dev i k) = Some c \<and> FromDeviceGUID c = guid \<and> unat (FromPortNum c) = i)) \<and>
     (\<forall>i k k'. in_table i k \<and> in_table i k' \<and> cell_at dev i k \<noteq> 0 \<and> cell_at dev i k = cell_at dev i k' \<longrightarrow>
        k = k')"

definition fabric_ok :: "FabricData_t \<Rightarrow> bool" where
  "fabric_ok F \<longleftrightarrow> qm_wf (map_guid_to_ib_device F) \<and> distinct (FIs F) \<and>
     (\<forall>g \<in> set (FIs F). qm_get (map_guid_to_ib_device F) g \<noteq> None) \<and>
     (\<forall>g dev. qm_get (map_guid_to_ib_device F) g = Some dev \<longrightarrow> device_ok F g dev)"

lemma device_ok_same:
  assumes "device_ok F g dev" "nodes F' = nodes F" "ports F' = ports F" "conns F \<subseteq>\<^sub>m conns F'"
  shows "device_ok F' g dev"
proof -
  have "node_of F' p = node_of F p" for p using assms(2,3) by (simp add: node_of_def cong: sum.case_cong)
  moreover have "\<exists>c. conns F' a = Some c \<and> P c" if "\<exists>c. conns F a = Some c \<and> P c" for a P
    using that assms(4) by (metis domI map_le_def)
  ultimately show ?thesis using assms(1,2) unfolding device_ok_def by simp
qed

lemma new_device_ok:
  assumes "deref (nodes F) nodep = Inr node"
  shows "device_ok F (NodeGUID node) (new_device nodep lid)"
  using assms
  by (auto simp: device_ok_def new_device_def cell_at_def in_table_def)

section \<open>Collecting\<close>

lemma fabric_ok_put:
  assumes F: "fabric_ok F" and G: "nodes G = nodes F" "ports G = ports F" "conns F \<subseteq>\<^sub>m conns G"
      "FIs G = FIs F" "map_guid_to_ib_device G = qm_put g dev' (map_guid_to_ib_device F)"
    and dev': "device_ok G g dev'"
  shows "fabric_ok G"
proof -
  have get: "qm_get (map_guid_to_ib_device G) h =
      (if h = g \<and> qm_get (map_guid_to_ib_device F) g \<noteq> None then Some dev' else qm_get (map_guid_to_ib_device F) h)" for h
    by (simp add: G(5) qm_get_put)
  have "device_ok G h dev" if "qm_get (map_guid_to_ib_device G) h = Some dev" for h dev
  proof (cases "h = g \<and> qm_get (map_guid_to_ib_device F) g \<noteq> None")
    case True
    then show ?thesis using that get [of h] dev' by simp
  next
    case False
    then have "qm_get (map_guid_to_ib_device F) h = Some dev" using that get [of h] by auto
    then have "device_ok F h dev" using F by (simp add: fabric_ok_def)
    then show ?thesis by (rule device_ok_same [OF _ G(1-3)])
  qed
  moreover have "qm_get (map_guid_to_ib_device G) h \<noteq> None" if "h \<in> set (FIs F)" for h
    using F that get [of h] by (auto simp: fabric_ok_def)
  moreover have "qm_wf (map_guid_to_ib_device G)" using F by (simp add: G(5) fabric_ok_def qm_wf_put)
  moreover have "distinct (FIs F)" using F by (simp add: fabric_ok_def)
  ultimately show ?thesis by (simp add: fabric_ok_def G(4))
qed

lemma add_device_ok:
  assumes F: "fabric_ok F" and r: "CLDataAddDevice malloc nodep lid F allocs = Inr (p, F', allocs')"
  shows "fabric_ok F'"
proof (cases "F' = F")
  case False
  obtain node where node: "deref (nodes F) nodep = Inr node" "qm_get (map_guid_to_ib_device F) (NodeGUID node) = None"
    and F': "map_guid_to_ib_device F' = qm_insert (NodeGUID node) (new_device nodep lid) (map_guid_to_ib_device F)"
      "nodes F' = nodes F" "ports F' = ports F" "conns F' = conns F"
      "FIs F' = FIs F \<or> FIs F' = FIs F @ [NodeGUID node]"
    using r False by (auto simp: CLDataAddDevice_def and_then_Inr_iff Let_def split: if_splits)
  have wf: "qm_wf (map_guid_to_ib_device F)" using F by (simp add: fabric_ok_def)
  have get: "qm_get (map_guid_to_ib_device F') h =
      (if h = NodeGUID node then Some (new_device nodep lid) else qm_get (map_guid_to_ib_device F) h)" for h
    using node(2) by (simp add: F'(1) qm_get_insert [OF wf])
  have "device_ok F' h dev" if "qm_get (map_guid_to_ib_device F') h = Some dev" for h dev
  proof (cases "h = NodeGUID node")
    case True
    then show ?thesis using that get [of h] new_device_ok [of F' nodep node] node(1) F'(2) by simp
  next
    case False
    then have "device_ok F h dev" using that get [of h] F by (simp add: fabric_ok_def)
    then show ?thesis by (rule device_ok_same) (simp_all add: F')
  qed
  moreover have "NodeGUID node \<notin> set (FIs F)" using F node(2) by (auto simp: fabric_ok_def)
  then have "distinct (FIs F') \<and> (\<forall>g \<in> set (FIs F'). qm_get (map_guid_to_ib_device F') g \<noteq> None)"
    using F F'(5) by (auto simp: fabric_ok_def get)
  ultimately show ?thesis using wf by (simp add: fabric_ok_def F'(1) qm_wf_insert)
qed (use F in simp)

lemma add_route_ok:
  assumes F: "fabric_ok F" and r: "CLDataAddRoute malloc dlid sportp F allocs = Inr (status, F', allocs')"
  shows "fabric_ok F'"
proof (cases "F' = F")
  case False
  obtain port node dev where d: "deref (ports F) sportp = Inr port" "deref (nodes F) (p_nodep port) = Inr node"
    "qm_get (map_guid_to_ib_device F) (NodeGUID node) = Some dev"
    "qm_get (map_dlid_to_route dev) (ucast dlid) = None"
    and F': "F' = F\<lparr>map_guid_to_ib_device := qm_put (NodeGUID node)
       (dev\<lparr>map_dlid_to_route := qm_insert (ucast dlid) sportp (map_dlid_to_route dev)\<rparr>) (map_guid_to_ib_device F),
       RouteCount := RouteCount F + 1\<rparr>"
    using r False
    by (auto simp: CLDataAddRoute_def and_then_Inr_iff Let_def split: option.splits if_splits)
  let ?dev = "dev\<lparr>map_dlid_to_route := qm_insert (ucast dlid) sportp (map_dlid_to_route dev)\<rparr>"
  have dev: "device_ok F (NodeGUID node) dev" using F d(3) by (simp add: fabric_ok_def)
  have "node_of F sportp = Some (NodeGUID node)" using d by (simp add: node_of_def)
  moreover have "qm_wf (map_dlid_to_route dev)" using dev by (simp add: device_ok_def)
  ultimately have "device_ok F (NodeGUID node) ?dev"
    using dev unfolding device_ok_def
    by (auto simp: qm_wf_insert qm_get_insert cell_at_def split: if_splits)
  then have "device_ok F' (NodeGUID node) ?dev" by (rule device_ok_same) (simp_all add: F')
  then show ?thesis by (rule fabric_ok_put [OF F, rotated -1]) (simp_all add: F')
qed (use F in simp)

lemma element_Inr: "element xs i = Inr x \<longleftrightarrow> i < length xs \<and> x = xs ! i"
  by (auto simp: element_def)

lemma deref_Inr: "deref m p = Inr x \<longleftrightarrow> p \<noteq> 0 \<and> m p = Some x"
  by (auto simp: deref_def split: option.splits)

lemma cell_at_update:
  assumes "length (Connections dev) = CREDIT_LOOP_DEVICE_MAX_CONNECTIONS"
    "i < CREDIT_LOOP_DEVICE_MAX_CONNECTIONS" "k < length (Connections dev ! i)"
  shows "cell_at (dev\<lparr>Connections := (Connections dev)[i := (Connections dev ! i)[k := a]]\<rparr>) i' k' =
    (if i' = i \<and> k' = k then a else cell_at dev i' k')"
  using assms by (auto simp: cell_at_def nth_list_update)

lemma device_ok_cell:
  assumes dev: "device_ok F g dev" and ik: "in_table i k" "unat (PortNum port) = i"
    and new: "m \<noteq> 0" "conns F m = None" and c: "FromDeviceGUID c = g" "FromPortNum c = PortNum port"
    and G: "nodes G = nodes F" "ports G = ports F" "conns G = (conns F)(m \<mapsto> c)"
  shows "device_ok G g (dev\<lparr>Connections := (Connections dev)[i := (Connections dev ! i)[k := m]]\<rparr>)"
proof -
  have len: "length (Connections dev) = CREDIT_LOOP_DEVICE_MAX_CONNECTIONS"
    "\<forall>row \<in> set (Connections dev). length row = STL_MAX_SCS" using dev by (simp_all add: device_ok_def)
  have i: "i < CREDIT_LOOP_DEVICE_MAX_CONNECTIONS" "k < length (Connections dev ! i)"
    using ik(1) len by (simp_all add: in_table_def)
  let ?dev = "dev\<lparr>Connections := (Connections dev)[i := (Connections dev ! i)[k := m]]\<rparr>"
  note cell = cell_at_update [OF len(1) i, of m]
  have old: "cell_at dev i' k' \<noteq> m" if "in_table i' k'" for i' k'
  proof
    assume "cell_at dev i' k' = m"
    then show False using dev that new unfolding device_ok_def by fastforce
  qed
  have base: "device_ok G g dev" by (rule device_ok_same [OF dev G(1,2)]) (use new(2) in \<open>auto simp: G(3) map_le_def\<close>)
  have rows: "length row = STL_MAX_SCS" if "row \<in> set (Connections ?dev)" for row
    using that len i set_update_subset_insert [of "Connections dev" i] by force
  have cells: "\<exists>c. conns G (cell_at ?dev i' k') = Some c \<and> FromDeviceGUID c = g \<and> unat (FromPortNum c) = i'"
    if "in_table i' k'" "cell_at ?dev i' k' \<noteq> 0" for i' k'
  proof (cases "i' = i \<and> k' = k")
    case True
    then show ?thesis using c ik(2) by (simp add: cell G(3))
  next
    case False
    then have e: "cell_at ?dev i' k' = cell_at dev i' k'" unfolding cell by auto
    then have "cell_at dev i' k' \<noteq> 0" using that(2) by simp
    then show ?thesis using base that(1) unfolding e device_ok_def by blast
  qed
  have uniq: "k' = k''"
    if "in_table i' k'" "in_table i' k''" "cell_at ?dev i' k' \<noteq> 0" "cell_at ?dev i' k' = cell_at ?dev i' k''" for i' k' k''
  proof -
    have one: "cell_at dev i' k' \<noteq> 0 \<Longrightarrow> cell_at dev i' k' = cell_at dev i' k'' \<Longrightarrow> k' = k''"
      using dev that(1,2) unfolding device_ok_def by blast
    show ?thesis using that(3,4) old [OF that(1)] old [OF that(2)] one
      unfolding cell by (simp split: if_splits)
  qed
  have rest: "\<exists>node. deref (nodes G) (d_nodep ?dev) = Inr node \<and> NodeGUID node = g"
    "qm_wf (map_dlid_to_route ?dev)"
    "\<forall>dlid p. qm_get (map_dlid_to_route ?dev) dlid = Some p \<longrightarrow> node_of G p = Some g"
    using base by (simp_all add: device_ok_def)
  show ?thesis unfolding device_ok_def
    by (intro conjI rest) (use len(1) in simp, use rows in blast, use cells in blast, use uniq in blast)
qed

lemma add_connection_ok:
  assumes F: "fabric_ok F" and fresh: "malloc allocs \<noteq> 0 \<longrightarrow> conns F (malloc allocs) = None"
    and r: "CLDataAddConnection malloc p1 p2 pathInfo chan F allocs = Inr (status, F', allocs')"
  shows "fabric_ok F'"
proof (cases "F' = F")
  case False
  obtain port1 where d1: "deref (ports F) p1 = Inr port1"
    using r by (auto simp: CLDataAddConnection_def and_then_Inr_iff)
  obtain node1 where d2: "deref (nodes F) (p_nodep port1) = Inr node1"
    using r by (auto simp: CLDataAddConnection_def and_then_Inr_iff d1)
  obtain dev where d3: "qm_get (map_guid_to_ib_device F) (NodeGUID node1) = Some dev"
    using r False by (auto simp: CLDataAddConnection_def d1 d2 Let_def split: option.splits)
  let ?i = "unat (PortNum port1)" and ?k = "unat chan"
  have d5: "?i < CREDIT_LOOP_DEVICE_MAX_CONNECTIONS"
  proof (rule ccontr)
    assume "\<not> ?i < CREDIT_LOOP_DEVICE_MAX_CONNECTIONS"
    with r False show False by (simp add: CLDataAddConnection_def d1 d2 d3 Let_def)
  qed
  note r1 = r [unfolded CLDataAddConnection_def d1 and_then_simps d2 Let_def d3 option.case
      if_not_P [OF d5 [folded linorder_not_le]] and_then_Inr_iff]
  obtain row cell where rc: "row = Connections dev ! ?i" "?k < length row" "cell = row ! ?k"
    using r1 by (auto simp: element_Inr)
  have d4: "malloc allocs \<noteq> 0" and zero: "cell = 0"
    using r1 False rc by (auto simp: element_Inr and_then_Inr_iff split: if_splits)
  have "\<exists>(port2 :: PortData) (node2 :: NodeData) vl. F' = F\<lparr>map_guid_to_ib_device := qm_put (NodeGUID node1)
        (dev\<lparr>Connections := (Connections dev)[?i := (Connections dev ! ?i)[?k := malloc allocs]]\<rparr>)
          (map_guid_to_ib_device F),
        conns := (conns F)(malloc allocs \<mapsto> \<lparr>FromDeviceGUID = NodeGUID node1, FromPortNum = PortNum port1,
          ToDeviceGUID = NodeGUID node2, ToPortNum = PortNum port2, Rate = 0, VL = vl, PathInfo = pathInfo\<rparr>),
        ConnectionCount := ConnectionCount F + 1\<rparr>"
    using r1 rc d4 zero
    by (clarsimp simp: element_Inr and_then_Inr_iff split: if_splits) (intro exI, rule refl)
  then obtain port2 :: PortData and node2 :: NodeData and vl where F2: "F' = F\<lparr>map_guid_to_ib_device := qm_put (NodeGUID node1)
        (dev\<lparr>Connections := (Connections dev)[?i := (Connections dev ! ?i)[?k := malloc allocs]]\<rparr>)
          (map_guid_to_ib_device F),
        conns := (conns F)(malloc allocs \<mapsto> \<lparr>FromDeviceGUID = NodeGUID node1, FromPortNum = PortNum port1,
          ToDeviceGUID = NodeGUID node2, ToPortNum = PortNum port2, Rate = 0, VL = vl, PathInfo = pathInfo\<rparr>),
        ConnectionCount := ConnectionCount F + 1\<rparr>" by blast
  define c where "c = \<lparr>FromDeviceGUID = NodeGUID node1, FromPortNum = PortNum port1,
    ToDeviceGUID = NodeGUID node2, ToPortNum = PortNum port2, Rate = 0, VL = vl, PathInfo = pathInfo\<rparr>"
  have c: "FromDeviceGUID c = NodeGUID node1" "FromPortNum c = PortNum port1" by (simp_all add: c_def)
  note F' = F2 [folded c_def]
  note d = d1 d2 d3 d4 d5 rc(2) [unfolded rc(1)]
  have dev: "device_ok F (NodeGUID node1) dev" using F d(3) by (simp add: fabric_ok_def)
  then have "in_table (unat (PortNum port1)) (unat chan)"
    using d(5,6) by (auto simp: in_table_def device_ok_def)
  then have "device_ok F' (NodeGUID node1) (dev\<lparr>Connections := (Connections dev)[unat (PortNum port1) :=
      (Connections dev ! unat (PortNum port1))[unat chan := malloc allocs]]\<rparr>)"
    by (rule device_ok_cell [OF dev _ refl d(4) _ c]) (use fresh d(4) in \<open>simp_all add: F'\<close>)
  then show ?thesis
    by (rule fabric_ok_put [OF F, rotated -1]) (use fresh d(4) in \<open>auto simp: F' map_le_def\<close>)
qed (use F in simp)

section \<open>Hops without service levels\<close>

text \<open>From a device to the next on the way to a LID, when service levels are not looked at.\<close>

definition steps_to :: "FabricData_t \<Rightarrow> u16 \<Rightarrow> u64 \<Rightarrow> addr \<Rightarrow> u64 \<Rightarrow> bool" where
  "steps_to F dlid g conn n \<longleftrightarrow> (\<exists>dev portp port cd.
     qm_get (map_guid_to_ib_device F) g = Some dev \<and>
     qm_get (map_dlid_to_route dev) (ucast dlid) = Some portp \<and> deref (ports F) portp = Inr port \<and>
     unat (PortNum port) < CREDIT_LOOP_DEVICE_MAX_CONNECTIONS \<and>
     conn = cell_at dev (unat (PortNum port)) 0 \<and> deref (conns F) conn = Inr cd \<and>
     ToDeviceGUID cd = n \<and> qm_get (map_guid_to_ib_device F) n \<noteq> None)"

lemma steps_to_hop:
  assumes F: "fabric_ok F" and st: "steps_to F dlid g conn n" and s: "sc s = 0"
  obtains cd where "next_connection F 0 src sl dlid g s = Inr (Inr (conn, 0))"
    "deref (conns F) conn = Inr cd" "CLFindGuidDevice F (ToDeviceGUID cd) = Some n" "FromDeviceGUID cd = g"
proof -
  obtain dev portp port cd where d: "qm_get (map_guid_to_ib_device F) g = Some dev"
    "qm_get (map_dlid_to_route dev) (ucast dlid) = Some portp" "deref (ports F) portp = Inr port"
    "unat (PortNum port) < CREDIT_LOOP_DEVICE_MAX_CONNECTIONS" "conn = cell_at dev (unat (PortNum port)) 0"
    "deref (conns F) conn = Inr cd" "ToDeviceGUID cd = n" "qm_get (map_guid_to_ib_device F) n \<noteq> None"
    using st by (auto simp: steps_to_def)
  have dev: "device_ok F g dev" using F d(1) by (simp add: fabric_ok_def)
  have t: "in_table (unat (PortNum port)) 0" using d(4) by (simp add: in_table_def STL_MAX_SCS_def)
  have len: "unat (PortNum port) < length (Connections dev)"
    "0 < length (Connections dev ! unat (PortNum port))"
    using dev d(4) by (simp_all add: device_ok_def STL_MAX_SCS_def)
  have nz: "conn \<noteq> 0" using d(6) by (simp add: deref_Inr)
  have "FromDeviceGUID cd = g" using dev t nz d(5,6) unfolding device_ok_def deref_Inr by fastforce
  moreover have "next_connection F 0 src sl dlid g s = Inr (Inr (conn, 0))"
    using d(1-3,5) len nz s by (simp add: next_connection_def next_sc_def element_def cell_at_def)
  ultimately show thesis using that d(6-8) by (simp add: CLFindGuidDevice_def)
qed

end
