(* ===== verification/CreditVerdict.thy ===== *)
theory CreditVerdict
  imports CreditSplit
begin

text \<open>
  Splitting off a weakly connected part, and what the outcome of pruning and splitting says about
  the dependencies.
\<close>

section \<open>Walks in either direction\<close>

definition linked :: "clGraphData_t \<Rightarrow> (u32 \<times> u32) set" where
  "linked G = (edges G \<union> (edges G)\<inverse>)\<^sup>*"

lemma linked_mono: "edges G' \<subseteq> edges G \<Longrightarrow> linked G' \<subseteq> linked G"
  unfolding linked_def by (rule rtrancl_mono) blast

lemma linked_neighbour: "j \<in> neighbours G i \<Longrightarrow> (i, j) \<in> linked G"
  unfolding linked_def neighbours_def by blast

lemma linked_trans: "(i, j) \<in> linked G \<Longrightarrow> (j, k) \<in> linked G \<Longrightarrow> (i, k) \<in> linked G"
  unfolding linked_def by (rule rtrancl_trans)

lemma neighbours_mono: "edges G' \<subseteq> edges G \<Longrightarrow> neighbours G' i \<subseteq> neighbours G i"
  by (auto simp: neighbours_def)

section \<open>Splitting out vertices\<close>

text \<open>What splitting out the vertices \<open>vs\<close> does: the arcs move from \<open>G\<close> to \<open>N\<close> until the vertices
  reached have none left.\<close>

definition splits ::
  "u32 list \<Rightarrow> clGraphData_t \<Rightarrow> clGraphData_t \<Rightarrow> clGraphData_t \<Rightarrow> clGraphData_t \<Rightarrow> bool" where
  "splits vs G N G' N' \<longleftrightarrow> thins G G' \<and>
     dependencies N' = dependencies N \<union> map_prod (conn_of G) (conn_of G) ` (edges G - edges G') \<and>
     (\<forall>v \<in> set vs. neighbours G' v = {}) \<and>
     (\<forall>s t. (s, t) \<in> edges G - edges G' \<longrightarrow> neighbours G' s = {} \<and> neighbours G' t = {} \<and>
        (\<exists>v \<in> set vs. (v, s) \<in> linked G))"

lemma splits_moved:
  assumes "splits vs G N G' N'" "(s, t) \<in> edges G - edges G'"
  obtains v where "v \<in> set vs" "(v, s) \<in> linked G" "neighbours G' s = {}" "neighbours G' t = {}"
  using assms unfolding splits_def by blast

lemma splits_Nil: "splits [] G N G N"
  by (simp add: splits_def)

lemma splits_Cons:
  assumes g: "graph_ok G" "graph_ok G1" "graph_ok G2"
    and 1: "thins G G1" "edges G1 = {e \<in> edges G. fst e \<noteq> i \<and> snd e \<noteq> i}"
      "dependencies N1 = dependencies N \<union> map_prod (conn_of G) (conn_of G) ` (edges G - edges G1)"
      "set nbs = neighbours G i"
    and 2: "splits nbs G1 N1 G2 N2" and 3: "splits vs G2 N2 G3 N3"
  shows "splits (i # vs) G N G3 N3"
proof -
  have t: "thins G1 G2" "thins G2 G3" using 2 3 by (simp_all add: splits_def)
  note sub = thins_edges [OF 1(1)] thins_edges [OF t(1)] thins_edges [OF t(2)]
  have c: "conn_of G1 = conn_of G" "conn_of G2 = conn_of G"
    using thins_conn(2) [OF g(1) 1(1)] thins_conn(2) [OF g(2) t(1)] by simp_all
  have "edges G - edges G3 = (edges G - edges G1) \<union> (edges G1 - edges G2) \<union> (edges G2 - edges G3)"
    using sub by blast
  then have deps: "dependencies N3 = dependencies N \<union> map_prod (conn_of G) (conn_of G) ` (edges G - edges G3)"
    using 1(3) 2 3 c by (simp add: splits_def image_Un Un_assoc)
  have none3: "neighbours G3 j = {}" if "neighbours G2 j = {} \<or> neighbours G1 j = {}" for j
    using that neighbours_mono [OF sub(2), of j] neighbours_mono [OF sub(3), of j] by blast
  have i: "neighbours G1 i = {}" using 1(2) by (auto simp: neighbours_def)
  have nb: "neighbours G2 j = {}" if "j \<in> neighbours G i" for j
    using 2 that 1(4) by (simp add: splits_def)
  have moved: "neighbours G3 s = {} \<and> neighbours G3 t = {} \<and> (\<exists>v \<in> set (i # vs). (v, s) \<in> linked G)"
    if e: "(s, t) \<in> edges G - edges G3" for s t
  proof -
    consider "(s, t) \<in> edges G - edges G1" | "(s, t) \<in> edges G1 - edges G2" | "(s, t) \<in> edges G2 - edges G3"
      using e by blast
    then show ?thesis
    proof cases
      case 1
      then have "s = i \<and> t \<in> neighbours G i \<or> t = i \<and> s \<in> neighbours G i"
        using \<open>edges G1 = _\<close> by (auto simp: neighbours_def)
      moreover from this have "(i, s) \<in> linked G" using linked_neighbour by (auto simp: linked_def)
      ultimately show ?thesis using i nb none3 by auto
    next
      case 2
      then obtain v where "v \<in> set nbs" "(v, s) \<in> linked G1" "neighbours G2 s = {}" "neighbours G2 t = {}"
        by (rule splits_moved [OF \<open>splits nbs G1 N1 G2 N2\<close>])
      with \<open>set nbs = _\<close> show ?thesis
        using none3 linked_mono [OF sub(1)] linked_trans [OF linked_neighbour] by auto
    next
      case 3
      then obtain v where "v \<in> set vs" "(v, s) \<in> linked G2" "neighbours G3 s = {}" "neighbours G3 t = {}"
        by (rule splits_moved [OF \<open>splits vs G2 N2 G3 N3\<close>])
      then show ?thesis using linked_mono [OF subset_trans [OF sub(2,1)]] by auto
    qed
  qed
  have "neighbours G3 v = {}" if "v \<in> set (i # vs)" for v
    using that i none3 3 by (auto simp: splits_def)
  then show ?thesis
    using deps moved thins_trans [OF 1(1) thins_trans [OF t]] unfolding splits_def by blast
qed

lemma split_out_all_effect:
  assumes R: "room E C" and mem: "\<forall>n. mem n"
  shows "part E C G \<Longrightarrow> fits E C N \<Longrightarrow> set vs \<subseteq> {..< NumVertices G} \<Longrightarrow>
    \<exists>G' N' allocs'. split_out_all mem vs G N allocs = Some (Inr (G', N', allocs')) \<and>
      part E C G' \<and> fits E C N' \<and> splits vs G N G' N'"
proof (induction "length (Arcs G)" arbitrary: G N vs allocs rule: less_induct)
  case less
  show ?case using less.prems
  proof (induction vs arbitrary: N allocs)
    case Nil
    then show ?case using splits_Nil by (simp add: split_out_all.simps)
  next
    case (Cons i vs)
    have g: "graph_ok G" and i: "i < NumVertices G" using Cons.prems by (simp_all add: part_def)
    obtain nbs G1 N1 al1 where s: "split_out_arcs mem i G N allocs = Inr (nbs, G1, N1, al1)"
      "part E C G1" "thins G G1" "edges G1 = {e \<in> edges G. fst e \<noteq> i \<and> snd e \<noteq> i}"
      "fits E C N1" "dependencies N1 = dependencies N \<union> map_prod (conn_of G) (conn_of G) ` (edges G - edges G1)"
      "set nbs = neighbours G i" "neighbours G i = {} \<longrightarrow> nbs = [] \<and> G1 = G \<and> N1 = N"
      by (rule split_out_arcs_effect [OF R mem Cons.prems(1) i Cons.prems(2)])
    have g1: "graph_ok G1" using s(2) by (simp add: part_def)
    have n1: "NumVertices G1 = NumVertices G" by (rule thins_conn(3) [OF g s(3)])
    have "neighbours G i \<subseteq> {..< NumVertices G}"
      using edge_vertices [of G] g by (auto simp: neighbours_def graph_ok_def)
    then have nbs: "set nbs \<subseteq> {..< NumVertices G1}" using s(7) n1 by simp
    show ?case
    proof (cases "neighbours G i = {}")
      case True
      then have eq: "nbs = []" "G1 = G" "N1 = N" using s(8) by simp_all
      have vs: "set vs \<subseteq> {..< NumVertices G}" using Cons.prems(3) by simp
      obtain G3 N3 al3 where r: "split_out_all mem vs G N al1 = Some (Inr (G3, N3, al3))"
        "part E C G3" "fits E C N3" "splits vs G N G3 N3"
        using Cons.IH [OF Cons.prems(1,2) vs, of al1] by blast
      have "split_out_all mem (i # vs) G N allocs = Some (Inr (G3, N3, al3))"
        using s(1) r(1) eq by (subst split_out_all.simps) (simp add: split_out_all.simps [of _ "[]"])
      moreover have "splits (i # vs) G N G3 N3"
        using splits_Cons [OF g g g _ _ _ _ splits_Nil r(4)] s(3,4,6,7) eq by simp
      ultimately show ?thesis using r(2,3) by blast
    next
      case False
      then obtain e where "e \<in> edges G" "fst e = i \<or> snd e = i" by (auto simp: neighbours_def)
      then have "edges G1 \<subset> edges G" using s(4) by auto
      then have "card (edges G1) < card (edges G)"
        using g finite_edges by (intro psubset_card_mono) (simp_all add: graph_ok_def)
      then have small: "length (Arcs G1) < length (Arcs G)"
        using card_edges g g1 by (simp add: graph_ok_def)
      obtain G2 N2 al2 where r: "split_out_all mem nbs G1 N1 al1 = Some (Inr (G2, N2, al2))"
        "part E C G2" "fits E C N2" "splits nbs G1 N1 G2 N2"
        using less.hyps [OF small s(2,5) nbs, of al1] by blast
      have t2: "thins G1 G2" using r(4) by (simp add: splits_def)
      have g2: "graph_ok G2" using r(2) by (simp add: part_def)
      have "card (edges G2) \<le> card (edges G1)"
        using finite_edges g1 by (intro card_mono thins_edges [OF t2]) (simp add: graph_ok_def)
      then have small2: "length (Arcs G2) < length (Arcs G)"
        using card_edges g1 g2 small by (simp add: graph_ok_def)
      have vs: "set vs \<subseteq> {..< NumVertices G2}"
        using Cons.prems(3) n1 thins_conn(3) [OF g1 t2] by simp
      obtain G3 N3 al3 where q: "split_out_all mem vs G2 N2 al2 = Some (Inr (G3, N3, al3))"
        "part E C G3" "fits E C N3" "splits vs G2 N2 G3 N3"
        using less.hyps [OF small2 r(2,3) vs, of al2] by blast
      have "split_out_all mem (i # vs) G N allocs = Some (Inr (G3, N3, al3))"
        using s(1) r(1) q(1) by (subst split_out_all.simps) simp
      then show ?thesis using splits_Cons [OF g g1 g2 s(3,4,6,7) r(4) q(4)] q(2,3) by blast
    qed
  qed
qed

section \<open>The root\<close>

lemma refcount_neighbours:
  "vertex_ok G i v \<Longrightarrow> RefCount v = 0 \<longleftrightarrow> neighbours G i = {}"
  by (simp add: refcount_zero neighbours_def no_arcs_with)

lemma split_root_effect:
  assumes "graph_ok G" "k + n = unat (NumVertices G)"
  shows "(\<exists>r < NumVertices G. split_root k n G = Inr (Some r) \<and> neighbours G r \<noteq> {}) \<or>
    split_root k n G = Inr None \<and> (\<forall>j. k \<le> j \<and> j < k + n \<longrightarrow> neighbours G (of_nat j) = {})"
  using assms(2)
proof (induction n arbitrary: k)
  case (Suc n)
  have "unat (of_nat k :: u32) = k"
    using Suc.prems unsigned_less [of "NumVertices G", where 'a = nat]
    by (simp add: unat_of_nat take_bit_nat_eq_self)
  then have k: "of_nat k < NumVertices G" using Suc.prems by (simp add: word_less_nat_alt)
  obtain v where v: "vertex_at G (of_nat k) = Inr v" "vertex_ok G (of_nat k) v"
    by (rule graph_vertex [OF assms(1) k])
  show ?case
  proof (cases "RefCount v = 0")
    case True
    then have none: "neighbours G (of_nat k) = {}" using refcount_neighbours [OF v(2)] by simp
    have step: "split_root k (Suc n) G = split_root (k + 1) n G" using v(1) True by simp
    have "neighbours G (of_nat j) = {}"
      if "\<forall>j. k + 1 \<le> j \<and> j < k + 1 + n \<longrightarrow> neighbours G (of_nat j) = {}" "k \<le> j" "j < k + Suc n" for j
      using that none by (cases "j = k") simp_all
    then show ?thesis using Suc.IH [of "k + 1"] Suc.prems unfolding step by auto
  next
    case False
    then show ?thesis using v(1) k refcount_neighbours [OF v(2)] by auto
  qed
qed auto

lemma split_root_cases:
  assumes "graph_ok G"
  obtains (root) r where "split_root 0 (unat (NumVertices G)) G = Inr (Some r)" "r < NumVertices G"
      "neighbours G r \<noteq> {}"
  | (no_arcs) "split_root 0 (unat (NumVertices G)) G = Inr None" "edges G = {}"
proof -
  consider r where "r < NumVertices G" "split_root 0 (unat (NumVertices G)) G = Inr (Some r)" "neighbours G r \<noteq> {}"
    | "split_root 0 (unat (NumVertices G)) G = Inr None" "\<forall>j < unat (NumVertices G). neighbours G (of_nat j) = {}"
    using split_root_effect [OF assms, of 0 "unat (NumVertices G)"] by auto
  then show thesis
  proof cases
    case 2
    have "(s, t) \<notin> edges G" for s t
    proof
      assume e: "(s, t) \<in> edges G"
      then have "unat s < unat (NumVertices G)"
        using edge_vertices(1) [OF _ e] assms by (simp add: graph_ok_def word_less_nat_alt)
      with 2 have "neighbours G (of_nat (unat s)) = {}" by blast
      with e show False by (auto simp: neighbours_def)
    qed
    then have "edges G = {}" by (metis equals0I surj_pair)
    with 2(1) show thesis by (rule no_arcs)
  qed (use root in blast)
qed

section \<open>Splitting\<close>

lemma split_closed:
  assumes s: "splits [r] G N G' N'" and sub: "edges G' \<subseteq> edges G"
  shows "edges G' = {(s, t) \<in> edges G. (r, s) \<notin> linked G}"
proof -
  have "neighbours G' v = {}" if "(r, v) \<in> linked G" for v
    using that unfolding linked_def
  proof (induction rule: rtrancl_induct)
    case base
    then show ?case using s by (simp add: splits_def)
  next
    case (step y z)
    have "(y, z) \<notin> edges G'" "(z, y) \<notin> edges G'" using step.IH by (auto simp: neighbours_def)
    with step.hyps(2) consider "(y, z) \<in> edges G - edges G'" | "(z, y) \<in> edges G - edges G'" by blast
    then show ?case
      by cases (rule splits_moved [OF s], assumption, assumption)+
  qed
  then have "(r, a) \<notin> linked G" if "(a, b) \<in> edges G'" for a b
    using that by (auto simp: neighbours_def)
  moreover have "(a, b) \<in> edges G'" if "(a, b) \<in> edges G" "(r, a) \<notin> linked G" for a b
  proof (rule ccontr)
    assume "(a, b) \<notin> edges G'"
    with that(1) have "(a, b) \<in> edges G - edges G'" by blast
    then obtain v where "v \<in> set [r]" "(v, a) \<in> linked G" by (rule splits_moved [OF s])
    with that(2) show False by simp
  qed
  ultimately show ?thesis using sub by blast
qed

lemma part_self: "graph_ok G \<Longrightarrow> part (dependencies G) (connections G) G"
  by (simp add: part_def)

lemma room_self:
  assumes "graph_ok G" "length (Arcs G) < 2 ^ 31 - 1" "unat (NumVertices G) < 2 ^ 32 - 1"
  shows "room (dependencies G) (connections G)"
proof -
  have "finite (connections G)"
  proof -
    have "connections G \<subseteq> range (conn_of G)" by (auto simp: connections_def ran_def conn_of_def) (metis option.sel rangeI)
    then show ?thesis by (rule finite_subset) simp
  qed
  then show ?thesis
    using assms finite_edges card_dependencies card_connections
    by (simp add: room_def dependencies_def graph_ok_def)
qed

lemma split_effect:
  assumes G: "graph_ok G" "length (Arcs G) < 2 ^ 31 - 1" "unat (NumVertices G) < 2 ^ 32 - 1" and mem: "\<forall>n. mem n"
  obtains (none) "CLGraphDataSplit mem G allocs = Some (Inr (None, G, allocs))" "edges G = {}"
  | (some) r N G' allocs' where "CLGraphDataSplit mem G allocs = Some (Inr (Some N, G', allocs'))"
      "r < NumVertices G" "neighbours G r \<noteq> {}" "graph_ok N" "graph_ok G'" "thins G G'"
      "edges G' = {(s, t) \<in> edges G. (r, s) \<notin> linked G}"
      "dependencies N = map_prod (conn_of G) (conn_of G) ` {(s, t) \<in> edges G. (r, s) \<in> linked G}"
      "built_ok N"
using G(1)
proof (cases rule: split_root_cases)
  case no_arcs
  then show thesis using none by (simp add: CLGraphDataSplit_def)
next
  case (root r)
  have zero: "fits (dependencies G) (connections G) zero_graph"
    by (simp add: fits_def built_ok_zero connections_zero dependencies_def edges_zero)
  obtain G' N allocs' where r: "split_out_all mem [r] G zero_graph (allocs + 1) = Some (Inr (G', N, allocs'))"
    "part (dependencies G) (connections G) G'" "fits (dependencies G) (connections G) N"
    "splits [r] G zero_graph G' N"
    using split_out_all_effect [OF room_self [OF G] mem part_self [OF G(1)] zero, of "[r]" "allocs + 1"] root(2)
    by auto
  have t: "thins G G'" using r(4) by (simp add: splits_def)
  have e: "edges G' = {(s, t) \<in> edges G. (r, s) \<notin> linked G}"
    by (rule split_closed [OF r(4) thins_edges [OF t]])
  then have "edges G - edges G' = {(s, t) \<in> edges G. (r, s) \<in> linked G}" by auto
  then have "dependencies N = map_prod (conn_of G) (conn_of G) ` {(s, t) \<in> edges G. (r, s) \<in> linked G}"
    using r(4) by (simp add: splits_def dependencies_def edges_zero)
  moreover have "CLGraphDataSplit mem G allocs = Some (Inr (Some N, G', allocs'))"
    using root(1) r(1) mem by (simp add: CLGraphDataSplit_def CLGraphDataSplitOutVertex_def)
  ultimately show thesis
    using some root(2,3) r(2,3) t e by (simp add: part_def fits_def built_ok_def)
qed

end
