(* ===== verification/CreditRouteEnd.thy ===== *)
theory CreditRouteEnd
  imports CreditFabric CreditVerdict
begin

text \<open>
  Routes that end and routes that do not, fabrics collected by scripts of calls, and the verdict on
  the routes of a fabric.
\<close>

section \<open>Routes that come nearer\<close>

lemma path_hop:
  assumes "hfip s = Some g" "g \<noteq> dst" "next_connection F u src sl dlid g s = Inr (Inr (conn, c))"
    "conn \<noteq> previous_connection s" "deref (conns F) conn = Inr cd"
    "CLFindGuidDevice F (ToDeviceGUID cd) = Some n"
    "route_path F u src dst sl dlid (path_vars n conn c s) = Some (Inr (cs, b))"
  shows "route_path F u src dst sl dlid s = Some (Inr (conn # cs, b))"
  using assms by (subst route_path.simps) simp

lemma path_arrived: "hfip s = Some dst \<Longrightarrow> route_path F u src dst sl dlid s = Some (Inr ([], True))"
  by (subst route_path.simps) simp

lemma path_vars_fields [simp]:
  "hfip (path_vars n conn c s) = Some n" "previous_connection (path_vars n conn c s) = conn"
  "sc (path_vars n conn c s) = c" "previous_sc (path_vars n conn c s) = c"
  by (simp_all add: path_vars_def)

lemma route_start_fields [simp]:
  "hfip (route_start src) = Some src" "previous_connection (route_start src) = 0"
  "sc (route_start src) = 0" "previous_vertex_id (route_start src) = 0"
  by (simp_all add: route_start_def)

text \<open>Every device on the way has a next one of smaller rank.\<close>

definition descends :: "FabricData_t \<Rightarrow> u16 \<Rightarrow> u64 \<Rightarrow> (u64 \<Rightarrow> nat) \<Rightarrow> u64 set \<Rightarrow> bool" where
  "descends F dlid dst rank D \<longleftrightarrow> (\<forall>g \<in> D. g \<noteq> dst \<longrightarrow>
     (\<exists>conn n. steps_to F dlid g conn n \<and> n \<in> D \<and> rank n < rank g))"

text \<open>The connections of the hops from the devices in a set.\<close>

definition hop_conns :: "FabricData_t \<Rightarrow> u16 \<Rightarrow> u64 set \<Rightarrow> addr set" where
  "hop_conns F dlid S = {conn. \<exists>g \<in> S. \<exists>n. steps_to F dlid g conn n}"

text \<open>There is room in the graph for these connections, in any succession.\<close>

definition hop_room :: "clGraphData_t \<Rightarrow> addr set \<Rightarrow> bool" where
  "hop_room G H \<longleftrightarrow> room (dependencies G \<union> H \<times> H) (connections G \<union> H)"

lemma successions_subset: "p = 0 \<or> p \<in> C \<Longrightarrow> set cs \<subseteq> C \<Longrightarrow> successions p cs \<subseteq> C \<times> C"
  by (induction cs arbitrary: p) auto

lemma descends_path:
  assumes F: "fabric_ok F" and D: "descends F dlid dst rank D"
  shows "hfip s = Some g \<Longrightarrow> g \<in> D \<Longrightarrow> sc s = 0 \<Longrightarrow>
    (previous_connection s \<noteq> 0 \<longrightarrow>
       (\<exists>c. deref (conns F) (previous_connection s) = Inr c \<and> rank g < rank (FromDeviceGUID c))) \<Longrightarrow>
    \<exists>cs. route_path F 0 src dst sl dlid s = Some (Inr (cs, True)) \<and> length cs \<le> rank g \<and> set cs \<subseteq> hop_conns F dlid D"
proof (induction "rank g" arbitrary: g s rule: less_induct)
  case less
  show ?case
  proof (cases "g = dst")
    case True
    then show ?thesis using path_arrived less.prems(1) by force
  next
    case False
    then obtain conn n where n: "steps_to F dlid g conn n" "n \<in> D" "rank n < rank g"
      using D less.prems(2) by (auto simp: descends_def)
    obtain cd where h: "next_connection F 0 src sl dlid g s = Inr (Inr (conn, 0))"
      "deref (conns F) conn = Inr cd" "CLFindGuidDevice F (ToDeviceGUID cd) = Some n" "FromDeviceGUID cd = g"
      by (rule steps_to_hop [OF F n(1) less.prems(3)])
    have ne: "conn \<noteq> previous_connection s"
      using less.prems(4) h(2,4) by (auto simp: deref_Inr)
    have "\<exists>cs. route_path F 0 src dst sl dlid (path_vars n conn 0 s) = Some (Inr (cs, True)) \<and> length cs \<le> rank n \<and>
        set cs \<subseteq> hop_conns F dlid D"
      by (rule less.hyps [OF n(3)]) (use n h in auto)
    then obtain cs where cs: "route_path F 0 src dst sl dlid (path_vars n conn 0 s) = Some (Inr (cs, True))"
      "length cs \<le> rank n" "set cs \<subseteq> hop_conns F dlid D" by blast
    have "conn \<in> hop_conns F dlid D" using n(1) less.prems(2) by (auto simp: hop_conns_def)
    with path_hop [OF less.prems(1) False h(1) ne h(2,3) cs(1)] cs(2,3) n(3) show ?thesis by auto
  qed
qed

section \<open>Routes that run in a circle\<close>

definition circles :: "FabricData_t \<Rightarrow> u16 \<Rightarrow> u64 set \<Rightarrow> bool" where
  "circles F dlid S \<longleftrightarrow> (\<forall>g \<in> S. \<exists>conn n. steps_to F dlid g conn n \<and> n \<in> S \<and> n \<noteq> g)"

lemma circle_loop:
  assumes F: "fabric_ok F" and S: "circles F dlid S" "dst \<notin> S" and mem: "\<forall>n. mem n"
    and R: "room E C" and sub: "hop_conns F dlid S \<times> hop_conns F dlid S \<subseteq> E" "hop_conns F dlid S \<subseteq> C"
    and run: "route_loop mem F 0 src dst sl dlid s G allocs = Some y"
    and s: "hfip s = Some g" "g \<in> S" "sc s = 0"
      "walk_ok E C s G"
      "previous_connection s \<noteq> 0 \<longrightarrow> previous_connection s \<in> hop_conns F dlid S \<and>
        (\<exists>c. deref (conns F) (previous_connection s) = Inr c \<and> FromDeviceGUID c \<noteq> g)"
  shows False
proof -
  let ?C = "hop_conns F dlid S"
  define inv where "inv s G \<longleftrightarrow> (\<exists>g. hfip s = Some g \<and> g \<in> S \<and> sc s = 0 \<and> walk_ok E C s G \<and>
    (previous_connection s \<noteq> 0 \<longrightarrow> previous_connection s \<in> ?C \<and>
      (\<exists>c. deref (conns F) (previous_connection s) = Inr c \<and> FromDeviceGUID c \<noteq> g)))" for s :: route_vars and G
  define P where "P m F' u src' dst' (sl' :: nat) dlid' s G (allocs :: nat) (y :: cl_error + route_state) \<longleftrightarrow>
    (m = mem \<and> F' = F \<and> u = (0 :: u32) \<and> src' = src \<and> dst' = dst \<and> sl' = sl \<and> dlid' = dlid \<longrightarrow> \<not> inv s G)"
    for m F' u src' dst' sl' dlid' s G allocs y
  have "P mem F 0 src dst sl dlid s G allocs y"
  proof (rule route_loop.raw_induct [OF _ run])
    fix rec m F' u src' dst' sl' dlid' s G allocs z
    assume IH: "\<And>m F' u src' dst' sl' dlid' s G allocs y.
        rec m F' u src' dst' sl' dlid' s G allocs = Some y \<Longrightarrow> P m F' u src' dst' sl' dlid' s G allocs y"
      and z: "(case hfip s of None \<Rightarrow> Some (Inl BadPointer)
        | Some hfi \<Rightarrow>
            if hfi = dst' then Some (Inr (None, s, G, allocs))
            else (case route_hop m F' u src' sl' dlid' hfi s G allocs of
                    Inl err \<Rightarrow> Some (Inl err)
                  | Inr (go_on, status, s', G', allocs') \<Rightarrow>
                      if go_on then rec m F' u src' dst' sl' dlid' s' G' allocs'
                      else Some (Inr (status, s', G', allocs')))) = Some z"
    show "P m F' u src' dst' sl' dlid' s G allocs z"
      unfolding P_def
    proof (intro impI notI, elim conjE)
      assume eq: "m = mem" "F' = F" "u = 0" "src' = src" "dst' = dst" "sl' = sl" "dlid' = dlid" and i: "inv s G"
      obtain g where g: "hfip s = Some g" "g \<in> S" "sc s = 0" "walk_ok E C s G"
        "previous_connection s \<noteq> 0 \<longrightarrow> previous_connection s \<in> ?C \<and>
          (\<exists>c. deref (conns F) (previous_connection s) = Inr c \<and> FromDeviceGUID c \<noteq> g)"
        using i by (auto simp: inv_def)
      obtain conn n where n: "steps_to F dlid g conn n" "n \<in> S" "n \<noteq> g"
        using S(1) g(2) by (auto simp: circles_def)
      obtain cd where h: "next_connection F 0 src sl dlid g s = Inr (Inr (conn, 0))"
        "deref (conns F) conn = Inr cd" "CLFindGuidDevice F (ToDeviceGUID cd) = Some n" "FromDeviceGUID cd = g"
        by (rule steps_to_hop [OF F n(1) g(3)])
      have ne: "conn \<noteq> previous_connection s" using g(5) h(2,4) by (auto simp: deref_Inr)
      have C: "conn \<in> ?C" using n(1) g(2) by (auto simp: hop_conns_def)
      have E: "previous_connection s \<noteq> 0 \<Longrightarrow> (previous_connection s, conn) \<in> E" using g(5) C sub(1) by blast
      obtain vertex G' allocs' where r: "fits E C G'"
        "dependencies G' = dependencies G \<union> successions (previous_connection s) [conn]"
        "route_hop mem F 0 src sl dlid g s G allocs = Inr (case CLFindGuidDevice F (ToDeviceGUID cd) of
            None \<Rightarrow> (False, Some FERROR, s\<lparr>sc := 0, hfip := None\<rparr>, G', allocs')
          | Some k \<Rightarrow> (True, None, (path_vars k conn 0 s)\<lparr>previous_vertex_id := vertex\<rparr>, G', allocs'))"
        "walk_ok E C ((path_vars k conn 0 s)\<lparr>previous_vertex_id := vertex\<rparr>) G'" for k
        by (rule route_hop_effect [OF R mem g(4) h(1) ne _ E h(2), where allocs = allocs and k = n]) (use C sub(2) in \<open>auto simp: path_vars_def walk_ok_def\<close>)
      let ?s = "(path_vars n conn 0 s)\<lparr>previous_vertex_id := vertex\<rparr>"
      have "g \<noteq> dst" using g(2) S(2) by auto
      then have "rec mem F 0 src dst sl dlid ?s G' allocs' = Some z"
        using z g(1) r(3) h(3) by (simp add: eq)
      then have "P mem F 0 src dst sl dlid ?s G' allocs' z" by (rule IH)
      moreover have "inv ?s G'"
        unfolding inv_def using n(2,3) r(4) [of n] C h(2,4) by auto
      ultimately show False by (simp add: P_def)
    qed
  qed
  moreover have "inv s G" using s by (auto simp: inv_def)
  ultimately show False by (simp add: P_def)
qed

section \<open>Both on the loop\<close>

lemma walk_ok_start:
  assumes "built_ok G"
  shows "walk_ok (dependencies G \<union> H \<times> H) (connections G \<union> H) (route_start src) G"
  using assms by (simp add: walk_ok_def fits_def)

lemma descends_loop:
  assumes F: "fabric_ok F" and D: "descends F dlid dst rank D" "src \<in> D" and mem: "\<forall>n. mem n"
    and G: "built_ok G" and R: "hop_room G (hop_conns F dlid D)"
  obtains cs status s' G' allocs' where
    "route_path F 0 src dst sl dlid (route_start src) = Some (Inr (cs, True))" "length cs \<le> rank src"
    "route_loop mem F 0 src dst sl dlid (route_start src) G allocs = Some (Inr (status, s', G', allocs'))"
    "hfip s' = Some dst" "links s' = of_nat (length cs)" "built_ok G'"
    "dependencies G' = dependencies G \<union> successions 0 cs"
proof -
  let ?H = "hop_conns F dlid D"
  obtain cs where cs: "route_path F 0 src dst sl dlid (route_start src) = Some (Inr (cs, True))"
    "length cs \<le> rank src" "set cs \<subseteq> ?H"
    using descends_path [OF F D(1), of "route_start src" src src sl] D(2) by auto
  have s: "(route_start src)\<lparr>previous_vertex_id := 0\<rparr> = route_start src" by (simp add: route_start_def)
  have sub: "successions (previous_connection (route_start src)) cs \<subseteq> dependencies G \<union> ?H \<times> ?H"
    using successions_subset [OF _ cs(3), of 0] by auto
  have con: "set cs \<subseteq> connections G \<union> ?H" using cs(3) by blast
  have path: "route_path F 0 src dst sl dlid ((route_start src)\<lparr>previous_vertex_id := 0\<rparr>) = Some (Inr (cs, True))"
    unfolding s by (rule cs(1))
  obtain status s' G' allocs' where
    "route_loop mem F 0 src dst sl dlid (route_start src) G allocs = Some (Inr (status, s', G', allocs'))"
    "fits (dependencies G \<union> ?H \<times> ?H) (connections G \<union> ?H) G'"
    "dependencies G' = dependencies G \<union> successions (previous_connection (route_start src)) cs"
    "hfip s' = Some dst" "links s' = links (route_start src) + of_nat (length cs)"
    using route_loop_effect [OF R [unfolded hop_room_def] mem walk_ok_start [OF G] path con sub, of allocs] by blast
  moreover have "links (route_start src) = 0" by (simp add: route_start_def)
  ultimately show thesis using that [OF cs(1,2)] by (simp add: fits_def)
qed

lemma circle_never_ends:
  assumes F: "fabric_ok F" and S: "circles F dlid S" "src \<in> S" "dst \<notin> S" and mem: "\<forall>n. mem n"
    and G: "built_ok G" and R: "hop_room G (hop_conns F dlid S)"
  shows "route_loop mem F 0 src dst sl dlid (route_start src) G allocs = None"
proof (rule ccontr)
  assume "route_loop mem F 0 src dst sl dlid (route_start src) G allocs \<noteq> None"
  then obtain y where "route_loop mem F 0 src dst sl dlid (route_start src) G allocs = Some y" by blast
  then show False
    by (intro circle_loop [OF F S(1,3) mem R [unfolded hop_room_def] _ _ _ _ S(2) _ walk_ok_start [OF G]]) simp_all
qed

end
