(* ===== verification/CreditLoopProps.thy ===== *)
theory CreditLoopProps
  imports CreditVerdict
begin

text \<open>
  The credit loop analysis on the dependency graph: the properties of pruning and splitting, and the
  verdict on the routes.
\<close>

section \<open>An example\<close>

text \<open>Two connections that depend on each other.\<close>

definition ring_vertex :: "conn \<Rightarrow> u32 \<Rightarrow> int \<Rightarrow> int \<Rightarrow> clVertixData_t" where
  "ring_vertex c i out inb =
    \<lparr>Connection = c, v_Id = i, RefCount = 2,
     Outbound = \<lparr>al_count = 1, al_inuse = 1, al_cells = Some [out]\<rparr>,
     Inbound = \<lparr>al_count = 1, al_inuse = 1, al_cells = Some [inb]\<rparr>\<rparr>"

definition ring_graph :: clGraphData_t where
  "ring_graph =
    (let x = \<lparr>a_Id = 0, Source = 0, Sink = 1\<rparr>; y = \<lparr>a_Id = 1, Source = 1, Sink = 0\<rparr> in
     \<lparr>NumVertices = 2, NumActiveVertices = 2,
      Vertices = Some [Some (ring_vertex 100 0 0 1), Some (ring_vertex 101 1 1 0)], NumArcs = 2,
      Arcs = [(0, x), (1, y)], map_arc_key_to_arc = [(arc_key 1 0, y), (arc_key 0 1, x)],
      map_conn_to_vertex_conn = [(100, 0), (101, 1)]\<rparr>)"

lemma ring_arcs:
  "arc_at ring_graph a =
    (if a = 0 then Some \<lparr>a_Id = 0, Source = 0, Sink = 1\<rparr>
     else if a = 1 then Some \<lparr>a_Id = 1, Source = 1, Sink = 0\<rparr> else None)"
proof (cases "0 \<le> a \<and> a < 2 ^ 31")
  case True
  then have "word_of_int a = (0 :: u64) \<longleftrightarrow> a = 0" "word_of_int a = (1 :: u64) \<longleftrightarrow> a = 1"
    using word_of_int_small [of a] by auto
  with True show ?thesis by (simp add: arc_at_def ring_graph_def Let_def qm_get_def)
qed (auto simp: arc_at_def)

lemma ring_edges: "edges ring_graph = {(0, 1), (1, 0)}"
proof -
  have "(0, 1) \<in> edges ring_graph" "(1, 0) \<in> edges ring_graph"
    using ring_arcs [of 0] ring_arcs [of 1] unfolding edges_def by force+
  moreover have "edges ring_graph \<subseteq> {(0, 1), (1, 0)}"
    by (auto simp: edges_def ring_arcs split: if_splits)
  ultimately show ?thesis by blast
qed

lemma ring_fields:
  "NumVertices ring_graph = 2" "length (Arcs ring_graph) = 2"
  "vertex_at ring_graph 0 = Inr (ring_vertex 100 0 0 1)" "vertex_at ring_graph 1 = Inr (ring_vertex 101 1 1 0)"
  by (simp_all add: ring_graph_def Let_def vertex_at_def cells_def)

lemma less_2: "(i :: u32) < 2 \<longleftrightarrow> i = 0 \<or> i = 1"
proof
  assume "i < 2"
  then have "unat i < 2" by (simp add: word_less_nat_alt)
  then have "unat i = unat (0 :: u32) \<or> unat i = unat (1 :: u32)" by auto
  then show "i = 0 \<or> i = 1" by (simp only: word_unat_eq_iff)
qed auto

lemma ring_sides: "arcs_with d ring_graph i =
    (if i = 0 then {if d = Out then 0 else 1} else if i = 1 then {if d = Out then 1 else 0} else {})"
  by (cases d) (auto simp: arcs_with_def ring_arcs arc_end_def)

lemma ring_ok: "graph_ok ring_graph"
proof -
  have "arc_key 1 0 = 1" "arc_key 0 1 = 2 ^ 32" by (simp_all add: arc_key_def)
  have get: "qm_get (Arcs ring_graph) k =
      (if k = 0 then Some \<lparr>a_Id = 0, Source = 0, Sink = 1\<rparr>
       else if k = 1 then Some \<lparr>a_Id = 1, Source = 1, Sink = 0\<rparr> else None)" for k
    by (simp add: ring_graph_def Let_def qm_get_def)
  have key: "qm_get (map_arc_key_to_arc ring_graph) (arc_key s t) =
      (if s = 1 \<and> t = 0 then Some \<lparr>a_Id = 1, Source = 1, Sink = 0\<rparr>
       else if s = 0 \<and> t = 1 then Some \<lparr>a_Id = 0, Source = 0, Sink = 1\<rparr> else None)" for s t
    by (auto simp: ring_graph_def Let_def qm_get_def arc_key_inj)
  have wf: "qm_wf (Arcs ring_graph)" "qm_wf (map_arc_key_to_arc ring_graph)"
    "qm_wf (map_conn_to_vertex_conn ring_graph)"
    using \<open>arc_key 1 0 = 1\<close> \<open>arc_key 0 1 = 2 ^ 32\<close>
    by (simp_all add: ring_graph_def Let_def qm_wf_def)
  have id: "x = \<lparr>a_Id = a_Id x, Source = Source x, Sink = Sink x\<rparr>" for x :: clArcData_t by simp
  have "qm_get (map_arc_key_to_arc ring_graph) (arc_key s t) = Some x \<longleftrightarrow>
      Source x = s \<and> Sink x = t \<and> qm_get (Arcs ring_graph) (ucast (a_Id x)) = Some x" for s t x
    using id [of x] by (auto simp: key get split: if_splits)
  moreover have "qm_get (Arcs ring_graph) k = Some x \<Longrightarrow> unat k < 2 ^ 31 \<and> ucast (a_Id x) = k \<and>
      Source x \<noteq> Sink x \<and> Source x < NumVertices ring_graph \<and> Sink x < NumVertices ring_graph" for k x
    by (auto simp: get ring_fields less_2 split: if_splits)
  ultimately have "arcs_ok ring_graph" using wf ring_fields(2) by (simp add: arcs_ok_def)
  moreover have "conns_ok ring_graph"
  proof -
    have "CLGraphFindConnVertex ring_graph c = (if c = 100 then Some 0 else if c = 101 then Some 1 else None)" for c
      by (simp add: CLGraphFindConnVertex_def ring_graph_def Let_def qm_get_def)
    then show ?thesis using wf(3)
      by (auto simp: conns_ok_def ring_fields less_2 ring_vertex_def split: if_splits)
  qed
  moreover have "vertex_ok ring_graph 0 (ring_vertex 100 0 0 1)" "vertex_ok ring_graph 1 (ring_vertex 101 1 1 0)"
    by (simp_all add: vertex_ok_def ring_sides ring_vertex_def arc_list_ok_def arcs_at_def used_cells_def
        cells_def split: side.split)
  ultimately show ?thesis by (auto simp: graph_ok_def ring_fields less_2)
qed

lemma ring_between: "between_cycles {(0, 1), (1, 0)} = {(0 :: u32, 1 :: u32), (1, 0)}"
proof (rule not_dead_between_eq)
  fix e assume "e \<in> {(0 :: u32, 1 :: u32), (1, 0)}"
  then show "\<not> dead_edge {(0, 1), (1, 0)} e" by (auto simp: dead_edge_def)
qed simp

section \<open>Removing an arc\<close>

text \<open>C16: Removing an arc of a consistent dependency graph keeps it consistent: the two indices of
  the arcs, the cells, counts and reference counts of the vertices at both ends.  It takes out that
  arc and no other, and every vertex keeps its connection.\<close>

theorem del_arc_exact:
  assumes "graph_ok G" and "arc_at G a = Some x"
  shows "\<exists>G'. CLGraphDataDelArc a G = Inr G' \<and> graph_ok G' \<and>
    (\<forall>b. arc_at G' b = (if b = a then None else arc_at G b)) \<and>
    edges G' = edges G - {(Source x, Sink x)} \<and> conn_at G' = conn_at G"
  using del_arc_effect [OF assms] thins_conn(1) [OF assms(1)] by metis

theorem del_arc_exact_witness:
  "\<exists>G'. CLGraphDataDelArc 0 ring_graph = Inr G' \<and> graph_ok G' \<and> edges G' = {(1, 0)}"
proof -
  have "arc_at ring_graph 0 = Some \<lparr>a_Id = 0, Source = 0, Sink = 1\<rparr>" by (simp add: ring_arcs)
  from del_arc_exact [OF ring_ok this] show ?thesis by (auto simp: ring_edges)
qed

section \<open>Pruning\<close>

text \<open>C9: Pruning ends on every consistent graph, however often it has to go round.  It leaves a
  consistent graph on the same connections whose arcs are exactly those on a walk from a cycle to a
  cycle.\<close>

theorem prune_leaves_cycles:
  assumes "graph_ok G"
  shows "\<exists>G'. CLGraphDataPrune G = Some (Inr G') \<and> graph_ok G' \<and> conn_at G' = conn_at G \<and>
    edges G' = between_cycles (edges G)"
  using prune_effect [OF assms] thins_conn(1) [OF assms] by metis

theorem prune_leaves_cycles_witness:
  "\<exists>G'. CLGraphDataPrune ring_graph = Some (Inr G') \<and> edges G' = {(0, 1), (1, 0)}"
  using prune_leaves_cycles [OF ring_ok] by (auto simp: ring_edges ring_between)

section \<open>Splitting\<close>

text \<open>C10: Splitting a graph that has arcs yields, when there is memory, a consistent new graph that
  holds the dependencies of one weakly connected part, that of some vertex with an arc, and leaves a
  consistent graph with all other arcs.\<close>

theorem split_off_component:
  assumes "graph_ok G" "edges G \<noteq> {}" "\<forall>n. mem n"
    and "length (Arcs G) < 2 ^ 31 - 1" "unat (NumVertices G) < 2 ^ 32 - 1"
  shows "\<exists>r N G' allocs'. CLGraphDataSplit mem G allocs = Some (Inr (Some N, G', allocs')) \<and>
    neighbours G r \<noteq> {} \<and> graph_ok N \<and> graph_ok G' \<and> conn_at G' = conn_at G \<and>
    dependencies N = map_prod (conn_of G) (conn_of G) ` {(s, t) \<in> edges G. (r, s) \<in> linked G} \<and>
    edges G' = {(s, t) \<in> edges G. (r, s) \<notin> linked G}"
  using assms(1,4,5,3)
proof (cases rule: split_effect [where allocs = allocs])
  case none
  with assms(2) show ?thesis by simp
next
  case (some r N G' allocs')
  then show ?thesis using thins_conn(1) [OF assms(1) some(6)] by blast
qed

theorem split_off_component_witness:
  "\<exists>N G' allocs'. CLGraphDataSplit (\<lambda>_. True) ring_graph 0 = Some (Inr (Some N, G', allocs')) \<and>
     dependencies N = {(100, 101), (101, 100)} \<and> edges G' = {}"
proof -
  have small: "length (Arcs ring_graph) < 2 ^ 31 - 1" "unat (NumVertices ring_graph) < 2 ^ 32 - 1"
    by (simp_all add: ring_fields)
  have ne: "edges ring_graph \<noteq> {}" by (simp add: ring_edges)
  have all_true: "\<forall>n. (\<lambda>_ :: nat. True) n" by simp
  obtain r N G' allocs' where s: "CLGraphDataSplit (\<lambda>_. True) ring_graph 0 = Some (Inr (Some N, G', allocs'))"
    "neighbours ring_graph r \<noteq> {}"
    "dependencies N = map_prod (conn_of ring_graph) (conn_of ring_graph) `
       {(s, t) \<in> edges ring_graph. (r, s) \<in> linked ring_graph}"
    "edges G' = {(s, t) \<in> edges ring_graph. (r, s) \<notin> linked ring_graph}"
    using split_off_component [of ring_graph "\<lambda>_. True" 0, OF ring_ok ne _ small, OF all_true]
    by (elim exE conjE) (rule that)
  have "r = 0 \<or> r = 1" using s(2) by (auto simp: neighbours_def ring_edges)
  moreover have "(0, 1) \<in> linked ring_graph" "(1, 0) \<in> linked ring_graph"
    by (rule linked_neighbour; simp add: neighbours_def ring_edges)+
  moreover have "(i, i) \<in> linked ring_graph" for i by (simp add: linked_def)
  ultimately have "(r, 0) \<in> linked ring_graph" "(r, 1) \<in> linked ring_graph" by auto
  then have "{(s, t) \<in> edges ring_graph. (r, s) \<in> linked ring_graph} = {(0, 1), (1, 0)}"
    "{(s, t) \<in> edges ring_graph. (r, s) \<notin> linked ring_graph} = {}" by (auto simp: ring_edges)
  moreover have "conn_of ring_graph 0 = 100" "conn_of ring_graph 1 = 101"
    by (simp_all add: conn_of_def conn_at_def ring_fields ring_vertex_def)
  ultimately show ?thesis using s by simp
qed

section \<open>The verdict\<close>

text \<open>Routes are reported free of deadlock exactly when they are: after pruning, splitting finds
  nothing (the NULL on which the fabric's routes are called free of credit loops) if and only if no
  dependency between connections closes a cycle.\<close>

theorem deadlock_verdict:
  assumes "graph_ok G" "\<forall>n. mem n"
    and "length (Arcs G) < 2 ^ 31 - 1" "unat (NumVertices G) < 2 ^ 32 - 1"
  shows "\<exists>P r G' allocs'. CLGraphDataPrune G = Some (Inr P) \<and>
    CLGraphDataSplit mem P allocs = Some (Inr (r, G', allocs')) \<and> (r = None \<longleftrightarrow> acyclic (edges G))"
proof -
  obtain P where P: "CLGraphDataPrune G = Some (Inr P)" "graph_ok P" "thins G P"
    "edges P = between_cycles (edges G)" using prune_effect [OF assms(1)] by blast
  have fin: "finite (edges G)" using assms(1) by (simp add: graph_ok_def finite_edges)
  have "card (edges P) \<le> card (edges G)" by (intro card_mono fin thins_edges [OF P(3)])
  then have small: "length (Arcs P) < 2 ^ 31 - 1" "unat (NumVertices P) < 2 ^ 32 - 1"
    using assms P(2) thins_conn(3) [OF assms(1) P(3)] card_edges by (simp_all add: graph_ok_def)
  note acyc = between_cycles_empty [OF fin]
  from P(2) small assms(2) show ?thesis
  proof (cases rule: split_effect [where allocs = allocs])
    case none
    with P(1,4) acyc show ?thesis by auto
  next
    case (some r N G' allocs')
    then have "edges P \<noteq> {}" by (auto simp: neighbours_def)
    with some(1) P(1,4) acyc show ?thesis by auto
  qed
qed

theorem deadlock_verdict_witness:
  "\<exists>P N G' allocs'. CLGraphDataPrune ring_graph = Some (Inr P) \<and>
     CLGraphDataSplit (\<lambda>_. True) P 0 = Some (Inr (Some N, G', allocs'))"
proof -
  have small: "length (Arcs ring_graph) < 2 ^ 31 - 1" "unat (NumVertices ring_graph) < 2 ^ 32 - 1"
    by (simp_all add: ring_fields)
  have "\<not> acyclic (edges ring_graph)"
    using between_cycles_empty [of "edges ring_graph"] by (simp add: ring_edges ring_between)
  then show ?thesis using deadlock_verdict [OF ring_ok _ small, of "\<lambda>_. True" 0] by auto
qed

text \<open>When the allocation of the new graph fails, splitting returns NULL although there is a
  cycle: the same answer as for routes without credit loops.\<close>

theorem split_no_memory:
  assumes "graph_ok G" "edges G \<noteq> {}" "\<not> mem allocs"
  shows "CLGraphDataSplit mem G allocs = Some (Inr (None, G, allocs + 1))"
  using assms(1)
proof (cases rule: split_root_cases)
  case no_arcs
  with assms(2) show ?thesis by simp
next
  case (root r)
  with assms(3) show ?thesis by (simp add: CLGraphDataSplit_def)
qed

theorem split_no_memory_witness:
  "CLGraphDataSplit (\<lambda>_. False) ring_graph 0 = Some (Inr (None, ring_graph, 1)) \<and>
     \<not> acyclic (edges ring_graph)"
proof -
  have "edges ring_graph \<noteq> {}" by (simp add: ring_edges)
  from split_no_memory [OF ring_ok this, of "\<lambda>_. False" 0]
  show ?thesis using between_cycles_empty [of "edges ring_graph"] by (simp add: ring_edges ring_between)
qed

end
