(* ===== verification/CreditCollect.thy ===== *)
theory CreditCollect
  imports CreditFabric
begin

text \<open>
  Any sequence of calls that collects devices, connections and routes, in Topology/fabricdata.c.
\<close>

section \<open>Calls\<close>

datatype collect_call =
    AddDevice addr u32
  | AddConnection addr addr nat u8
  | AddRoute u32 addr

datatype collect_result = DeviceNode addr | Status FSTATUS

fun collect ::
  "(nat \<Rightarrow> addr) \<Rightarrow> collect_call \<Rightarrow> FabricData_t \<times> nat \<Rightarrow> cl_error + collect_result \<times> FabricData_t \<times> nat" where
  "collect malloc (AddDevice nodep lid) (F, allocs) =
    map_sum id (map_prod DeviceNode id) (CLDataAddDevice malloc nodep lid F allocs)"
| "collect malloc (AddConnection p1 p2 pathInfo chan) (F, allocs) =
    map_sum id (map_prod Status id) (CLDataAddConnection malloc p1 p2 pathInfo chan F allocs)"
| "collect malloc (AddRoute dlid p) (F, allocs) =
    map_sum id (map_prod Status id) (CLDataAddRoute malloc dlid p F allocs)"

text \<open>The arguments are nodes and ports of the fabric, and a service channel there is.\<close>

definition port_of :: "FabricData_t \<Rightarrow> addr \<Rightarrow> bool" where
  "port_of F p \<longleftrightarrow> (\<exists>port. deref (ports F) p = Inr port \<and> node_of F p \<noteq> None \<and>
     (\<forall>q. pQOS port = Some q \<longrightarrow> length (SC2VLt q) = STL_MAX_SCS))"

fun lawful_call :: "FabricData_t \<Rightarrow> collect_call \<Rightarrow> bool" where
  "lawful_call F (AddDevice nodep lid) \<longleftrightarrow> nodep = 0 \<or> (\<exists>node. deref (nodes F) nodep = Inr node)"
| "lawful_call F (AddConnection p1 p2 pathInfo chan) \<longleftrightarrow> port_of F p1 \<and> port_of F p2 \<and> unat chan < STL_MAX_SCS"
| "lawful_call F (AddRoute dlid p) \<longleftrightarrow> port_of F p"

text \<open>No address is handed out twice.\<close>

definition fresh_malloc :: "(nat \<Rightarrow> addr) \<Rightarrow> bool" where
  "fresh_malloc malloc \<longleftrightarrow> (\<forall>i j. malloc i = malloc j \<and> malloc i \<noteq> 0 \<longrightarrow> i = j)"

definition collected :: "(nat \<Rightarrow> addr) \<Rightarrow> FabricData_t \<Rightarrow> nat \<Rightarrow> bool" where
  "collected malloc F allocs \<longleftrightarrow> fabric_ok F \<and> (\<forall>c. conns F c \<noteq> None \<longrightarrow> (\<exists>n < allocs. c = malloc n))"

text \<open>The nodes and ports stay, and new connections are at the addresses handed out.\<close>

definition keeps :: "(nat \<Rightarrow> addr) \<Rightarrow> FabricData_t \<Rightarrow> nat \<Rightarrow> FabricData_t \<Rightarrow> nat \<Rightarrow> bool" where
  "keeps malloc F allocs F' allocs' \<longleftrightarrow> nodes F' = nodes F \<and> ports F' = ports F \<and> allocs \<le> allocs' \<and>
     (conns F' = conns F \<or> allocs < allocs' \<and> (\<exists>c. conns F' = (conns F)(malloc allocs \<mapsto> c)))"

lemma keeps_refl: "allocs \<le> allocs' \<Longrightarrow> keeps malloc F allocs F allocs'"
  by (simp add: keeps_def)

section \<open>Each call\<close>

lemma port_ofD:
  assumes "port_of F p"
  obtains port node where "deref (ports F) p = Inr port" "deref (nodes F) (p_nodep port) = Inr node"
    "\<forall>q. pQOS port = Some q \<longrightarrow> length (SC2VLt q) = STL_MAX_SCS"
  using assms by (auto simp: port_of_def node_of_def split: sum.splits)

lemma add_device_returns:
  assumes "nodep = 0 \<or> (\<exists>node. deref (nodes F) nodep = Inr node)"
  obtains p F' allocs' where "CLDataAddDevice malloc nodep lid F allocs = Inr (p, F', allocs')"
    "keeps malloc F allocs F' allocs'"
proof (cases "nodep = 0")
  case True
  then show thesis using that by (simp add: CLDataAddDevice_def keeps_def)
next
  case False
  then obtain node where "deref (nodes F) nodep = Inr node" using assms by blast
  then show thesis using False that
    by (cases "qm_get (map_guid_to_ib_device F) (NodeGUID node) \<noteq> None"; cases "malloc allocs = 0")
      (simp_all add: CLDataAddDevice_def keeps_def Let_def)
qed

lemma add_route_returns:
  assumes "port_of F p"
  obtains status F' allocs' where "CLDataAddRoute malloc dlid p F allocs = Inr (status, F', allocs')"
    "keeps malloc F allocs F' allocs'"
proof -
  obtain port node where d: "deref (ports F) p = Inr port" "deref (nodes F) (p_nodep port) = Inr node"
    using port_ofD [OF assms] by blast
  show thesis
  proof (cases "qm_get (map_guid_to_ib_device F) (NodeGUID node)")
    case None
    then show thesis using that d by (simp add: CLDataAddRoute_def keeps_def)
  next
    case (Some dev)
    then show thesis using that d
      by (cases "qm_get (map_dlid_to_route dev) (ucast dlid)"; cases "malloc allocs = 0")
        (simp_all add: CLDataAddRoute_def keeps_def Let_def)
  qed
qed

lemma device_cell:
  assumes "device_ok F g dev" "in_table i k"
  obtains row where "element (Connections dev) i = Inr row" "element row k = Inr (cell_at dev i k)"
    "cell_at dev i k \<noteq> 0 \<longrightarrow> (\<exists>c. deref (conns F) (cell_at dev i k) = Inr c)"
proof -
  have len: "length (Connections dev) = CREDIT_LOOP_DEVICE_MAX_CONNECTIONS"
    "\<forall>row \<in> set (Connections dev). length row = STL_MAX_SCS" using assms(1) by (simp_all add: device_ok_def)
  have ik: "i < CREDIT_LOOP_DEVICE_MAX_CONNECTIONS" "k < STL_MAX_SCS" using assms(2) by (simp_all add: in_table_def)
  then have "Connections dev ! i \<in> set (Connections dev)" using len(1) by simp
  then have k: "k < length (Connections dev ! i)" using len(2) ik(2) by simp
  show thesis
  proof
    show "element (Connections dev) i = Inr (Connections dev ! i)" using ik(1) len(1) by (simp add: element_def)
    show "element (Connections dev ! i) k = Inr (cell_at dev i k)" using k by (simp add: element_def cell_at_def)
    show "cell_at dev i k \<noteq> 0 \<longrightarrow> (\<exists>c. deref (conns F) (cell_at dev i k) = Inr c)"
      using assms unfolding device_ok_def deref_Inr by blast
  qed
qed

lemma add_connection_returns:
  assumes F: "fabric_ok F" and p: "port_of F p1" "port_of F p2" "unat chan < STL_MAX_SCS"
  obtains status F' allocs' where
    "CLDataAddConnection malloc p1 p2 pathInfo chan F allocs = Inr (status, F', allocs')"
    "keeps malloc F allocs F' allocs'"
proof -
  obtain port1 node1 where d: "deref (ports F) p1 = Inr port1" "deref (nodes F) (p_nodep port1) = Inr node1"
    "\<forall>q. pQOS port1 = Some q \<longrightarrow> length (SC2VLt q) = STL_MAX_SCS" by (rule port_ofD [OF p(1)])
  obtain port2 node2 where e: "deref (ports F) p2 = Inr port2" "deref (nodes F) (p_nodep port2) = Inr node2"
    using port_ofD [OF p(2)] by blast
  obtain vl where vl: "(case pQOS port1 of None \<Rightarrow> Inr 0 | Some q \<Rightarrow> element (SC2VLt q) (unat chan)) = Inr vl"
    using d(3) p(3) by (cases "pQOS port1") (simp_all add: element_def)
  let ?i = "unat (PortNum port1)"
  show thesis
  proof (cases "qm_get (map_guid_to_ib_device F) (NodeGUID node1)")
    case None
    then show thesis using that d by (simp add: CLDataAddConnection_def keeps_def)
  next
    case (Some dev)
    show thesis
    proof (cases "CREDIT_LOOP_DEVICE_MAX_CONNECTIONS \<le> ?i")
      case True
      then show thesis using that d Some by (simp add: CLDataAddConnection_def keeps_def)
    next
      case False
      have dev: "device_ok F (NodeGUID node1) dev" using F Some by (simp add: fabric_ok_def)
      have t: "in_table ?i (unat chan)" using False p(3) by (simp add: in_table_def not_le)
      obtain row where r: "element (Connections dev) ?i = Inr row"
        "element row (unat chan) = Inr (cell_at dev ?i (unat chan))"
        "cell_at dev ?i (unat chan) \<noteq> 0 \<longrightarrow> (\<exists>c. deref (conns F) (cell_at dev ?i (unat chan)) = Inr c)"
        by (rule device_cell [OF dev t])
      note call = CLDataAddConnection_def d(1,2) and_then_simps Let_def Some option.case if_not_P [OF False] r(1,2) e
      show thesis
      proof (cases "cell_at dev ?i (unat chan) = 0")
        case True
        then show thesis using that
          by (cases "malloc allocs = 0") (auto simp: call vl keeps_def)
      next
        case ne: False
        then obtain c where "deref (conns F) (cell_at dev ?i (unat chan)) = Inr c" using r(3) by blast
        then show thesis using that ne by (simp add: call keeps_def)
      qed
    qed
  qed
qed

section \<open>Sequences of calls\<close>

lemma keeps_lawful: "keeps malloc F allocs F' allocs' \<Longrightarrow> lawful_call F' op = lawful_call F op"
  by (cases op) (simp_all add: keeps_def port_of_def node_of_def cong: sum.case_cong)

lemma collected_fresh:
  "fresh_malloc malloc \<Longrightarrow> collected malloc F allocs \<Longrightarrow> malloc allocs \<noteq> 0 \<longrightarrow> conns F (malloc allocs) = None"
  unfolding fresh_malloc_def collected_def by (metis less_irrefl)

lemma collected_keeps:
  assumes "collected malloc F allocs" "keeps malloc F allocs F' allocs'" "fabric_ok F'"
  shows "collected malloc F' allocs'"
proof -
  have "\<exists>n < allocs'. c = malloc n" if "conns F' c \<noteq> None" for c
  proof (cases "conns F c = None")
    case True
    then show ?thesis using that assms(2) by (auto simp: keeps_def split: if_splits)
  next
    case False
    then obtain n where "n < allocs" "c = malloc n" using assms(1) unfolding collected_def by blast
    moreover have "allocs \<le> allocs'" using assms(2) by (simp add: keeps_def)
    ultimately show ?thesis by (intro exI [of _ n]) simp
  qed
  then show ?thesis using assms(3) by (simp add: collected_def)
qed

lemma collect_effect:
  assumes m: "fresh_malloc malloc" and c: "collected malloc F allocs" and op: "lawful_call F op"
  obtains r F' allocs' where "collect malloc op (F, allocs) = Inr (r, F', allocs')"
    "collected malloc F' allocs'" "keeps malloc F allocs F' allocs'"
proof -
  have F: "fabric_ok F" using c by (simp add: collected_def)
  show thesis
  proof (cases op)
    case (AddDevice nodep lid)
    then have "nodep = 0 \<or> (\<exists>node. deref (nodes F) nodep = Inr node)" using op by simp
    then obtain p F' allocs' where r: "CLDataAddDevice malloc nodep lid F allocs = Inr (p, F', allocs')"
      "keeps malloc F allocs F' allocs'" by (rule add_device_returns)
    then show thesis using that AddDevice collected_keeps [OF c r(2) add_device_ok [OF F r(1)]] by simp
  next
    case (AddConnection p1 p2 pathInfo chan)
    then have "port_of F p1" "port_of F p2" "unat chan < STL_MAX_SCS" using op by simp_all
    from add_connection_returns [OF F this] obtain status F' allocs' where
      r: "CLDataAddConnection malloc p1 p2 pathInfo chan F allocs = Inr (status, F', allocs')"
        "keeps malloc F allocs F' allocs'" by blast
    then show thesis
      using that AddConnection collected_keeps [OF c r(2) add_connection_ok [OF F collected_fresh [OF m c] r(1)]] by simp
  next
    case (AddRoute dlid p)
    then have "port_of F p" using op by simp
    then obtain status F' allocs' where r: "CLDataAddRoute malloc dlid p F allocs = Inr (status, F', allocs')"
      "keeps malloc F allocs F' allocs'" by (rule add_route_returns)
    then show thesis using that AddRoute collected_keeps [OF c r(2) add_route_ok [OF F r(1)]] by simp
  qed
qed

lemma collect_all:
  assumes m: "fresh_malloc malloc"
  shows "collected malloc F allocs \<Longrightarrow> \<forall>op \<in> set ops. lawful_call F op \<Longrightarrow>
    \<exists>rs F' allocs'. run_ops (collect malloc) ops (F, allocs) = Inr (rs, F', allocs') \<and> collected malloc F' allocs'"
proof (induction ops arbitrary: F allocs)
  case (Cons op ops)
  have op: "lawful_call F op" using Cons.prems(2) by simp
  obtain r F1 allocs1 where 1: "collect malloc op (F, allocs) = Inr (r, F1, allocs1)"
    "collected malloc F1 allocs1" "keeps malloc F allocs F1 allocs1"
    by (rule collect_effect [OF m Cons.prems(1) op])
  have "\<forall>op \<in> set ops. lawful_call F1 op" using Cons.prems(2) keeps_lawful [OF 1(3)] by simp
  from Cons.IH [OF 1(2) this] 1(1) show ?case by auto
qed simp

end
