(* ===== verification/CreditRouteProps.thy ===== *)
theory CreditRouteProps
  imports CreditRouteEnd CreditLoopProps CreditCollect
begin

text \<open>
  The properties of the credit loop analysis on the routes of a fabric: the graph is the graph of the
  routes, the verdict is right, routes that come nearer end, routing loops do not.
\<close>

section \<open>A ring of three devices\<close>

text \<open>Every device sends all traffic through its port 1 to the next one.  Device 40 is never reached.\<close>

definition ring_device :: "addr \<Rightarrow> u32 \<Rightarrow> addr \<Rightarrow> (u64, addr) key_map \<Rightarrow> clDeviceData_t" where
  "ring_device nodep lid conn routes = (new_device nodep lid)\<lparr>
     Connections := (replicate CREDIT_LOOP_DEVICE_MAX_CONNECTIONS (replicate STL_MAX_SCS 0))
       [1 := (replicate STL_MAX_SCS 0)[0 := conn]],
     map_dlid_to_route := routes\<rparr>"

definition ring_node :: "u64 \<Rightarrow> NodeData" where
  "ring_node guid = \<lparr>NodeGUID = guid, NodeType = STL_NODE_FI, Ports = []\<rparr>"

definition ring_port :: "addr \<Rightarrow> PortData" where
  "ring_port nodep = \<lparr>p_nodep = nodep, PortNum = 1, p_rate = 0, pQOS = None\<rparr>"

definition ring_conn :: "u64 \<Rightarrow> u64 \<Rightarrow> clConnData_t" where
  "ring_conn g h = \<lparr>FromDeviceGUID = g, FromPortNum = 1, ToDeviceGUID = h, ToPortNum = 2, Rate = 0,
     VL = 0, PathInfo = 0\<rparr>"

definition ring_fabric :: FabricData_t where
  "ring_fabric = \<lparr>
     nodes = [1 \<mapsto> ring_node 10, 2 \<mapsto> ring_node 20, 3 \<mapsto> ring_node 30, 4 \<mapsto> ring_node 40],
     ports = [11 \<mapsto> ring_port 1, 12 \<mapsto> ring_port 2, 13 \<mapsto> ring_port 3],
     conns = [101 \<mapsto> ring_conn 10 20, 102 \<mapsto> ring_conn 20 30, 103 \<mapsto> ring_conn 30 10],
     map_guid_to_ib_device =
       [(10, ring_device 1 1 101 [(2, 11), (3, 11), (4, 11)]), (20, ring_device 2 2 102 [(1, 12), (3, 12), (4, 12)]),
        (30, ring_device 3 3 103 [(1, 13), (2, 13), (4, 13)]), (40, ring_device 4 4 0 [])],
     FIs = [10, 20, 30], Switches = [40], ConnectionCount = 3, RouteCount = 9, Graph = zero_graph\<rparr>"

lemma ring_cell:
  "in_table i k \<Longrightarrow> cell_at (ring_device nodep lid c routes) i k = (if i = 1 \<and> k = 0 then c else 0)"
  by (cases "i = 1"; cases "k = 0") (simp_all add: cell_at_def ring_device_def in_table_def nth_list_update)

lemma ring_device_ok:
  assumes "deref (nodes F) nodep = Inr node" "NodeGUID node = g" "qm_wf routes"
    "\<forall>p \<in> snd ` set routes. node_of F p = Some g"
    "c = 0 \<or> (\<exists>cd. conns F c = Some cd \<and> FromDeviceGUID cd = g \<and> FromPortNum cd = 1)"
  shows "device_ok F g (ring_device nodep lid c routes)"
proof -
  have "length (Connections (ring_device nodep lid c routes)) = CREDIT_LOOP_DEVICE_MAX_CONNECTIONS"
    by (simp add: ring_device_def)
  moreover have "length row = STL_MAX_SCS" if "row \<in> set (Connections (ring_device nodep lid c routes))" for row
    using that set_update_subset_insert by (fastforce simp: ring_device_def)
  moreover have "node_of F p = Some g" if "qm_get routes dlid = Some p" for dlid p
    using that assms(4) by (force simp: qm_get_def dest: map_of_SomeD)
  moreover have "d_nodep (ring_device nodep lid c routes) = nodep" "map_dlid_to_route (ring_device nodep lid c routes) = routes"
    by (simp_all add: ring_device_def new_device_def)
  ultimately show ?thesis
    using assms(1-3,5) by (auto simp: device_ok_def ring_cell split: if_splits)
qed

lemma ring_deref:
  "deref (nodes ring_fabric) 1 = Inr (ring_node 10)" "deref (nodes ring_fabric) 2 = Inr (ring_node 20)"
  "deref (nodes ring_fabric) 3 = Inr (ring_node 30)" "deref (nodes ring_fabric) 4 = Inr (ring_node 40)"
  "deref (ports ring_fabric) 11 = Inr (ring_port 1)" "deref (ports ring_fabric) 12 = Inr (ring_port 2)"
  "deref (ports ring_fabric) 13 = Inr (ring_port 3)"
  "deref (conns ring_fabric) 101 = Inr (ring_conn 10 20)" "deref (conns ring_fabric) 102 = Inr (ring_conn 20 30)"
  "deref (conns ring_fabric) 103 = Inr (ring_conn 30 10)"
  by (simp_all add: deref_def ring_fabric_def)

lemma ring_devices:
  "qm_get (map_guid_to_ib_device ring_fabric) g =
    (if g = 10 then Some (ring_device 1 1 101 [(2, 11), (3, 11), (4, 11)])
     else if g = 20 then Some (ring_device 2 2 102 [(1, 12), (3, 12), (4, 12)])
     else if g = 30 then Some (ring_device 3 3 103 [(1, 13), (2, 13), (4, 13)])
     else if g = 40 then Some (ring_device 4 4 0 []) else None)"
  by (simp add: ring_fabric_def qm_get_def)

lemma ring_fabric_ok: "fabric_ok ring_fabric"
proof -
  have node: "node_of ring_fabric 11 = Some 10" "node_of ring_fabric 12 = Some 20" "node_of ring_fabric 13 = Some 30"
    by (simp_all add: node_of_def ring_deref ring_port_def ring_node_def)
  have conn: "conns ring_fabric 101 = Some (ring_conn 10 20)" "conns ring_fabric 102 = Some (ring_conn 20 30)"
    "conns ring_fabric 103 = Some (ring_conn 30 10)"
    using ring_deref(8-10) by (simp_all add: deref_Inr)
  have "device_ok ring_fabric 10 (ring_device 1 1 101 [(2, 11), (3, 11), (4, 11)])"
    "device_ok ring_fabric 20 (ring_device 2 2 102 [(1, 12), (3, 12), (4, 12)])"
    "device_ok ring_fabric 30 (ring_device 3 3 103 [(1, 13), (2, 13), (4, 13)])"
    "device_ok ring_fabric 40 (ring_device 4 4 0 [])"
    by (rule ring_device_ok [OF ring_deref(1)] ring_device_ok [OF ring_deref(2)]
        ring_device_ok [OF ring_deref(3)] ring_device_ok [OF ring_deref(4)];
      simp add: node conn ring_node_def ring_conn_def qm_wf_def)+
  moreover have "qm_wf (map_guid_to_ib_device ring_fabric)" "FIs ring_fabric = [10, 20, 30]"
    by (simp_all add: ring_fabric_def qm_wf_def)
  ultimately show ?thesis by (simp add: fabric_ok_def ring_devices)
qed

lemma ring_steps:
  "dlid \<in> {2, 3, 4} \<Longrightarrow> steps_to ring_fabric dlid 10 101 20"
  "dlid \<in> {1, 3, 4} \<Longrightarrow> steps_to ring_fabric dlid 20 102 30"
  "dlid \<in> {1, 2, 4} \<Longrightarrow> steps_to ring_fabric dlid 30 103 10"
proof -
  have step: "steps_to ring_fabric dlid g c n"
    if "qm_get (map_guid_to_ib_device ring_fabric) g = Some (ring_device nodep lid c routes)"
      "qm_get routes (ucast dlid) = Some portp" "deref (ports ring_fabric) portp = Inr (ring_port nodep)"
      "deref (conns ring_fabric) c = Inr (ring_conn g n)" "qm_get (map_guid_to_ib_device ring_fabric) n \<noteq> None"
    for dlid g c n nodep lid routes portp
  proof -
    have "in_table 1 0" by (simp add: in_table_def CREDIT_LOOP_DEVICE_MAX_CONNECTIONS_def STL_MAX_SCS_def)
    from ring_cell [OF this] have "cell_at (ring_device nodep lid c routes) (unat (PortNum (ring_port nodep))) 0 = c"
      by (simp add: ring_port_def)
    moreover have "unat (PortNum (ring_port nodep)) < CREDIT_LOOP_DEVICE_MAX_CONNECTIONS"
      by (simp add: ring_port_def CREDIT_LOOP_DEVICE_MAX_CONNECTIONS_def)
    moreover have "map_dlid_to_route (ring_device nodep lid c routes) = routes" "ToDeviceGUID (ring_conn g n) = n"
      by (simp_all add: ring_device_def ring_conn_def)
    ultimately show ?thesis using that unfolding steps_to_def by metis
  qed
  note d = ring_devices [of 10, simplified] ring_devices [of 20, simplified] ring_devices [of 30, simplified]
  show "dlid \<in> {2, 3, 4} \<Longrightarrow> steps_to ring_fabric dlid 10 101 20"
    by (rule step [OF d(1) _ ring_deref(5) ring_deref(8)]) (auto simp: ring_devices qm_get_def [of "[_, _, _]"])
  show "dlid \<in> {1, 3, 4} \<Longrightarrow> steps_to ring_fabric dlid 20 102 30"
    by (rule step [OF d(2) _ ring_deref(6) ring_deref(9)]) (auto simp: ring_devices qm_get_def [of "[_, _, _]"])
  show "dlid \<in> {1, 2, 4} \<Longrightarrow> steps_to ring_fabric dlid 30 103 10"
    by (rule step [OF d(3) _ ring_deref(7) ring_deref(10)]) (auto simp: ring_devices qm_get_def [of "[_, _, _]"])
qed

lemma ring_hop:
  assumes "steps_to ring_fabric dlid g conn n" "hfip s = Some g" "g \<noteq> dst" "sc s = 0"
    "conn \<noteq> previous_connection s"
    "route_path ring_fabric 0 src dst sl dlid (path_vars n conn 0 s) = Some (Inr (cs, b))"
  shows "route_path ring_fabric 0 src dst sl dlid s = Some (Inr (conn # cs, b))"
  using path_hop [OF assms(2,3) _ assms(5) _ _ assms(6)] steps_to_hop [OF ring_fabric_ok assms(1,4)] by metis

lemma ring_two_hops:
  assumes "steps_to ring_fabric dlid src c n" "steps_to ring_fabric dlid n d dst" "src \<noteq> dst" "n \<noteq> dst" "c \<noteq> 0" "d \<noteq> c"
  shows "route_path ring_fabric 0 src dst sl dlid (route_start src) = Some (Inr ([c, d], True))"
proof (rule ring_hop [OF assms(1)])
  show "route_path ring_fabric 0 src dst sl dlid (path_vars n c 0 (route_start src)) = Some (Inr ([d], True))"
    by (rule ring_hop [OF assms(2)]) (simp_all add: assms path_arrived)
qed (simp_all add: assms)

lemma ring_one_hop:
  assumes "steps_to ring_fabric dlid src c dst" "src \<noteq> dst" "c \<noteq> 0"
  shows "route_path ring_fabric 0 src dst sl dlid (route_start src) = Some (Inr ([c], True))"
  by (rule ring_hop [OF assms(1)]) (simp_all add: assms path_arrived)

lemma ring_tasks:
  "route_tasks ring_fabric 0 = [(10, 20, 0), (10, 30, 0), (20, 10, 0), (20, 30, 0), (30, 10, 0), (30, 20, 0)]"
proof -
  have "filter (sl_used 0) [0..<STL_MAX_SLS] = [0]"
    by (simp add: sl_used_def STL_MAX_SLS_def upt_rec)
  moreover have "FIs ring_fabric = [10, 20, 30]" by (simp add: ring_fabric_def)
  ultimately show ?thesis by (simp add: route_tasks_def pair_tasks_def)
qed

lemma ring_paths:
  "task_path ring_fabric 0 (10, 20, 0) = Some (Inr ([101], True))"
  "task_path ring_fabric 0 (10, 30, 0) = Some (Inr ([101, 102], True))"
  "task_path ring_fabric 0 (20, 10, 0) = Some (Inr ([102, 103], True))"
  "task_path ring_fabric 0 (20, 30, 0) = Some (Inr ([102], True))"
  "task_path ring_fabric 0 (30, 10, 0) = Some (Inr ([103], True))"
  "task_path ring_fabric 0 (30, 20, 0) = Some (Inr ([103, 101], True))"
  by (simp_all add: task_path_def ring_devices ring_device_def new_device_def ring_one_hop ring_two_hops
      ring_one_hop [OF ring_steps(1)] ring_one_hop [OF ring_steps(2)] ring_one_hop [OF ring_steps(3)]
      ring_two_hops [OF ring_steps(1) ring_steps(2)] ring_two_hops [OF ring_steps(2) ring_steps(3)]
      ring_two_hops [OF ring_steps(3) ring_steps(1)])

lemma ring_routes:
  "route_dependencies ring_fabric 0 = {(101, 102), (102, 103), (103, 101)}"
  "route_connections ring_fabric 0 = {101, 102, 103}"
  "\<forall>t \<in> set (route_tasks ring_fabric 0). route_ends ring_fabric 0 t"
  by (auto simp: route_dependencies_def route_connections_def ring_tasks task_conns_def ring_paths route_ends_def)

lemma ring_room: "room (route_dependencies ring_fabric 0) (route_connections ring_fabric 0)"
  by (simp add: ring_routes room_def)

lemma ring_ready: "Graph ring_fabric = zero_graph" "distinct (FIs ring_fabric)"
  "map_guid_to_ib_device ring_fabric \<noteq> []" "ConnectionCount ring_fabric \<noteq> 0" "RouteCount ring_fabric \<noteq> 0"
  by (simp_all add: ring_fabric_def)

lemma ring_cyclic: "\<not> acyclic (route_dependencies ring_fabric 0)"
proof -
  have "(101, 101) \<in> (route_dependencies ring_fabric 0)\<^sup>+"
    unfolding ring_routes by (rule trancl_into_trancl [of _ 103], rule trancl_into_trancl [of _ 102]) auto
  then show ?thesis by (auto simp: acyclic_def)
qed

section \<open>The verdict on the routes\<close>

lemma acyclic_dependencies:
  assumes "graph_ok G"
  shows "acyclic (dependencies G) \<longleftrightarrow> acyclic (edges G)"
proof
  let ?f = "conn_of G"
  have sub: "(?f x, ?f y) \<in> (dependencies G)\<^sup>+" if "(x, y) \<in> (edges G)\<^sup>+" for x y
    using that
  proof induction
    case (base y)
    then show ?case by (auto simp: dependencies_def)
  next
    case (step y z)
    then have "(?f y, ?f z) \<in> dependencies G" by (auto simp: dependencies_def)
    with step.IH show ?case by (rule trancl_into_trancl)
  qed
  show "acyclic (dependencies G) \<Longrightarrow> acyclic (edges G)"
    using sub unfolding acyclic_def by blast
  assume acyc: "acyclic (edges G)"
  have ok: "arcs_ok G" using assms by (simp add: graph_ok_def)
  have inj: "i = j" if "?f i = ?f j" "i < NumVertices G" "j < NumVertices G" for i j
    using that conn_of_at [OF assms] conn_at_inj [OF assms, of i "?f i" j] by simp
  have down: "\<exists>i j. x = ?f i \<and> y = ?f j \<and> (i, j) \<in> (edges G)\<^sup>+" if "(x, y) \<in> (dependencies G)\<^sup>+" for x y
    using that
  proof induction
    case (base y)
    then show ?case by (auto simp: dependencies_def)
  next
    case (step y z)
    obtain i j where i: "x = ?f i" "y = ?f j" "(i, j) \<in> (edges G)\<^sup>+" using step.IH by blast
    obtain k l where k: "y = ?f k" "z = ?f l" "(k, l) \<in> edges G" using step.hyps(2) by (auto simp: dependencies_def)
    have "j < NumVertices G" using i(3) edge_vertices(2) [OF ok] by (cases rule: tranclE) auto
    then have "j = k" using inj [of j k] i(2) k edge_vertices(1) [OF ok k(3)] by simp
    then show ?case using i k by (blast intro: trancl_into_trancl)
  qed
  show "acyclic (dependencies G)"
  proof (rule acyclicI, intro allI notI)
    fix x assume "(x, x) \<in> (dependencies G)\<^sup>+"
    then obtain i j where i: "?f i = ?f j" "(i, j) \<in> (edges G)\<^sup>+" using down by metis
    have "i < NumVertices G" "j < NumVertices G"
      using i(2) edge_vertices(1,2) [OF ok] by (auto elim: tranclE dest: tranclD)
    then show False using inj [of i j] i acyc by (auto simp: acyclic_def)
  qed
qed

lemma verdict_effect:
  assumes mem: "\<forall>n. mem n" and R: "room (route_dependencies F u) (route_connections F u)"
    and G: "Graph F = zero_graph" and dist: "distinct (FIs F)"
    and ends: "\<forall>t \<in> set (route_tasks F u). route_ends F u t"
    and ne: "map_guid_to_ib_device F \<noteq> []" "ConnectionCount F \<noteq> 0" "RouteCount F \<noteq> 0"
  shows "credit_loop_verdict mem u F allocs =
    Some (Inr (if acyclic (route_dependencies F u) then DeadlockFree else DeadlockDetected))"
proof -
  obtain st F1 allocs1 where b: "CLFabricDataBuildRouteGraph mem u F allocs = Some (Inr (FSUCCESS, st, F1, allocs1))"
    "built_ok (Graph F1)" "dependencies (Graph F1) = route_dependencies F u"
    "fits (route_dependencies F u) (route_connections F u) (Graph F1)"
    by (rule build_effect [OF mem R G dist ends])
  have ok: "graph_ok (Graph F1)" using b(2) by (simp add: built_ok_def)
  obtain P r G' allocs' where P: "CLGraphDataPrune (Graph F1) = Some (Inr P)"
    "CLGraphDataSplit mem P allocs1 = Some (Inr (r, G', allocs'))" "r = None \<longleftrightarrow> acyclic (edges (Graph F1))"
    using deadlock_verdict [OF ok mem fits_room(2,1) [OF R b(4)]] by metis
  then show ?thesis
    using ne b(1,3) acyclic_dependencies [OF ok] by (simp add: credit_loop_verdict_def)
qed

text \<open>C7: For every fabric whose routes end, the whole analysis, from the walk along the routes over the
  pruning to the first split, reports the routes free of credit loops exactly when no chain of
  connections, each taken by some route straight after the one before, comes back to its start.\<close>

theorem credit_loop_verdict_correct:
  assumes "\<forall>n. mem n" "room (route_dependencies F u) (route_connections F u)"
    and "Graph F = zero_graph" "distinct (FIs F)" "\<forall>t \<in> set (route_tasks F u). route_ends F u t"
    and "map_guid_to_ib_device F \<noteq> []" "ConnectionCount F \<noteq> 0" "RouteCount F \<noteq> 0"
  shows "credit_loop_verdict mem u F allocs =
    Some (Inr (if acyclic (route_dependencies F u) then DeadlockFree else DeadlockDetected))"
  using assms by (rule verdict_effect)

theorem credit_loop_verdict_correct_witness:
  "credit_loop_verdict (\<lambda>_. True) 0 ring_fabric 0 = Some (Inr DeadlockDetected)"
  using credit_loop_verdict_correct [OF _ ring_room ring_ready(1,2) ring_routes(3) ring_ready(3-5), of "\<lambda>_. True" 0]
    ring_cyclic by simp

section \<open>The graph of the routes\<close>

text \<open>C8: When all routes end and there is room and memory, building the graph returns: its arcs are
  exactly the successions of two connections on some route, its invariant holds, and the routes that
  arrive and those that do not are counted.\<close>

theorem route_graph_of_routes:
  assumes "\<forall>n. mem n" "room (route_dependencies F u) (route_connections F u)"
    and "Graph F = zero_graph" "distinct (FIs F)" "\<forall>t \<in> set (route_tasks F u). route_ends F u t"
  shows "\<exists>st F' allocs'. CLFabricDataBuildRouteGraph mem u F allocs = Some (Inr (FSUCCESS, st, F', allocs')) \<and>
    dependencies (Graph F') = route_dependencies F u \<and> built_ok (Graph F') \<and>
    present_routes st = of_nat (length (filter (arrives F u) (route_tasks F u))) \<and>
    missing_routes st = of_nat (length (filter (\<lambda>t. \<not> arrives F u t) (route_tasks F u)))"
  using build_effect [OF assms, of allocs] by metis

theorem route_graph_of_routes_witness:
  "\<exists>st F' allocs'. CLFabricDataBuildRouteGraph (\<lambda>_. True) 0 ring_fabric 0 = Some (Inr (FSUCCESS, st, F', allocs')) \<and>
    dependencies (Graph F') = {(101, 102), (102, 103), (103, 101)} \<and> present_routes st = 6 \<and> missing_routes st = 0"
  using route_graph_of_routes [OF _ ring_room ring_ready(1,2) ring_routes(3), of "\<lambda>_. True" 0]
  by (auto simp: ring_routes(1) arrives_def ring_tasks ring_paths)

section \<open>Routes that end and routes that do not\<close>

lemma ring_hop_conns: "hop_conns ring_fabric dlid D \<subseteq> {101, 102, 103}"
  by (auto simp: hop_conns_def steps_to_def deref_Inr ring_fabric_def split: if_splits)

lemma ring_hop_room: "hop_room zero_graph (hop_conns ring_fabric dlid D)"
proof -
  let ?H = "hop_conns ring_fabric dlid D"
  have fin: "finite ?H" by (rule finite_subset [OF ring_hop_conns]) simp
  have 3: "card ?H \<le> 3" using card_mono [OF _ ring_hop_conns [of dlid D]] by simp
  then have "card ?H * card ?H \<le> 3 * 3" by (rule mult_le_mono) (rule 3)
  then show ?thesis using fin 3
    by (simp add: hop_room_def room_def dependencies_def edges_zero connections_zero card_cartesian_product)
qed

lemma ring_lids: "qm_get (map_guid_to_ib_device ring_fabric) 20 = Some (ring_device 2 2 102 [(1, 12), (3, 12), (4, 12)])"
  "qm_get (map_guid_to_ib_device ring_fabric) 40 = Some (ring_device 4 4 0 [])" "Lid (ring_device a l c r) = l"
  by (simp_all add: ring_devices ring_device_def new_device_def)

text \<open>C12: A route that comes nearer to its destination with every hop, by whatever measure, ends
  there, in at most as many hops as its source is away; service levels are not looked at.\<close>

theorem ranked_routes_end:
  assumes "fabric_ok F" "qm_get (map_guid_to_ib_device F) dst = Some dev"
    and "descends F (ucast (Lid dev)) dst rank D" "src \<in> D" "rank src < 2 ^ 32"
    and "\<forall>n. mem n" "built_ok G" "hop_room G (hop_conns F (ucast (Lid dev)) D)"
  shows "\<exists>status s G' allocs'. route_loop mem F 0 src dst sl (ucast (Lid dev)) (route_start src) G allocs =
      Some (Inr (status, s, G', allocs')) \<and>
    hfip s = Some dst \<and> unat (links s) \<le> rank src \<and> built_ok G'"
proof -
  obtain cs status s G' allocs' where
    "route_path F 0 src dst sl (ucast (Lid dev)) (route_start src) = Some (Inr (cs, True))" and len: "length cs \<le> rank src"
    and r: "route_loop mem F 0 src dst sl (ucast (Lid dev)) (route_start src) G allocs = Some (Inr (status, s, G', allocs'))"
      "hfip s = Some dst" "links s = of_nat (length cs)" "built_ok G'"
    by (rule descends_loop [OF assms(1,3,4,6-8)])
  have "unat (links s) \<le> rank src"
    using len assms(5) by (simp add: r(3) unat_of_nat take_bit_nat_eq_self)
  with r show ?thesis by blast
qed

theorem ranked_routes_end_witness:
  "\<exists>status s G' allocs'. route_loop (\<lambda>_. True) ring_fabric 0 30 20 0 2 (route_start 30) zero_graph 0 =
      Some (Inr (status, s, G', allocs')) \<and> hfip s = Some 20 \<and> unat (links s) \<le> 2"
proof -
  let ?rank = "\<lambda>g :: u64. if g = 30 then 2 else if g = 10 then 1 else 0 :: nat"
  have "steps_to ring_fabric 2 30 103 10" "steps_to ring_fabric 2 10 101 20"
    by (rule ring_steps; simp)+
  then have d: "descends ring_fabric (ucast (2 :: u32)) 20 ?rank {30, 10, 20}"
    unfolding descends_def by fastforce
  show ?thesis
    using ranked_routes_end [OF ring_fabric_ok ring_lids(1), unfolded ring_lids(3), OF d _ _ _ built_ok_zero ring_hop_room,
        of 30 "\<lambda>_. True" 0 0] by auto
qed

text \<open>C13: A route that runs among devices that send each other its traffic and do not include its
  destination is walked along for ever: building the graph does not return.\<close>

theorem routing_loop_never_ends:
  assumes "fabric_ok F" "qm_get (map_guid_to_ib_device F) dst = Some dev"
    and "circles F (ucast (Lid dev)) S" "src \<in> S" "dst \<notin> S"
    and "\<forall>n. mem n" "built_ok G" "hop_room G (hop_conns F (ucast (Lid dev)) S)"
  shows "build_route mem F 0 src dst sl (status, st, G, allocs) = None"
  using circle_never_ends [OF assms(1,3-8)] assms(2) by (simp add: build_route_def)

theorem routing_loop_never_ends_witness:
  "build_route (\<lambda>_. True) ring_fabric 0 10 40 0 (FSUCCESS, first_stats, zero_graph, 0) = None"
proof -
  have "steps_to ring_fabric 4 10 101 20" "steps_to ring_fabric 4 20 102 30" "steps_to ring_fabric 4 30 103 10"
    by (rule ring_steps; simp)+
  then have c: "circles ring_fabric (ucast (4 :: u32)) {10, 20, 30}"
    unfolding circles_def by fastforce
  show ?thesis
    by (rule routing_loop_never_ends [OF ring_fabric_ok ring_lids(2), unfolded ring_lids(3), OF c _ _ _ built_ok_zero ring_hop_room])
      simp_all
qed

section \<open>Collected fabrics\<close>

text \<open>C11: Whatever devices, connections and routes are collected, in whatever order and with whatever
  allocations failing, all calls return and the fabric is consistent: every device is found under
  its GUID, its cells hold its own connections at the place of their port, and its routes leave
  through its own ports.\<close>

theorem collected_fabric_ok:
  assumes "fresh_malloc malloc" "\<forall>op \<in> set ops. lawful_call F op"
    and "map_guid_to_ib_device F = []" "FIs F = []" "conns F = Map.empty"
  shows "\<exists>rs F' allocs'. run_ops (collect malloc) ops (F, allocs) = Inr (rs, F', allocs') \<and> fabric_ok F'"
proof -
  have "collected malloc F allocs" using assms(3-5) by (simp add: collected_def fabric_ok_def)
  from collect_all [OF assms(1) this assms(2)] show ?thesis by (auto simp: collected_def)
qed

theorem collected_fabric_ok_witness:
  "\<exists>rs F' allocs'. run_ops (collect (\<lambda>n. if n < 100 then of_nat (n + 1) else 0))
     [AddDevice 1 1, AddConnection 11 12 0 0, AddRoute 2 11, AddDevice 2 2]
     (ring_fabric\<lparr>map_guid_to_ib_device := [], FIs := [], conns := Map.empty\<rparr>, 0) = Inr (rs, F', allocs') \<and> fabric_ok F'"
proof (rule collected_fabric_ok)
  show "fresh_malloc (\<lambda>n. if n < 100 then of_nat (n + 1) else 0)"
    unfolding fresh_malloc_def
  proof (intro allI impI)
    fix i j :: nat
    assume "(if i < 100 then of_nat (i + 1) else 0 :: addr) = (if j < 100 then of_nat (j + 1) else 0) \<and>
      (if i < 100 then of_nat (i + 1) else 0 :: addr) \<noteq> 0"
    then have "(of_nat (i + 1) :: addr) = of_nat (j + 1)" and ij: "i < 100" "j < 100" by (auto split: if_splits)
    then have "unat (of_nat (i + 1) :: addr) = unat (of_nat (j + 1) :: addr)" by simp
    then show "i = j" using ij by (simp add: unat_of_nat take_bit_nat_eq_self del: of_nat_Suc of_nat_add)
  qed
qed (simp_all add: port_of_def node_of_def ring_deref ring_port_def ring_node_def STL_MAX_SCS_def)

end
