(* ===== verification/CreditNoMemory.thy ===== *)
theory CreditNoMemory
  imports CreditRouteProps
begin

text \<open>
  The credit loop analysis when one allocation fails.  Building the graph looks at the outcome of
  an allocation only when it makes it, so a failure that comes later changes nothing; the lemmas
  follow the number of allocations through the construction.  The property: when the allocation
  of the graph that splitting returns fails, the whole analysis gives the verdict on a fabric
  without credit loops.
\<close>

section \<open>Allocations that are made\<close>

text \<open>Two memories that give the same outcome to the allocations below \<open>N\<close>.\<close>

definition agree :: "nat \<Rightarrow> (nat \<Rightarrow> bool) \<Rightarrow> (nat \<Rightarrow> bool) \<Rightarrow> bool" where
  "agree N mem mem' \<longleftrightarrow> (\<forall>n < N. mem' n = mem n)"

lemma agreeD: "agree N mem mem' \<Longrightarrow> Suc n \<le> N \<Longrightarrow> mem' n = mem n"
  by (simp add: agree_def)

text \<open>Each operation counts its allocations up, and has the same result in a memory that agrees up
  to its final count.\<close>

lemma array_mono: "CLGetDynamicArray mem z i A b = (status, A', b') \<Longrightarrow> b \<le> b'"
  by (auto simp: CLGetDynamicArray_def split: if_splits)

lemma array_agree:
  "CLGetDynamicArray mem z i A b = (status, A', b') \<Longrightarrow> agree N mem mem' \<Longrightarrow> b' \<le> N \<Longrightarrow>
     CLGetDynamicArray mem' z i A b = (status, A', b')"
  by (auto simp: CLGetDynamicArray_def agreeD split: if_splits)

lemma vertex_agree:
  assumes "CLGraphDataAddVertex mem c G b = (i, G', b')"
  shows "b \<le> b'" "agree N mem mem' \<Longrightarrow> b' \<le> N \<Longrightarrow> CLGraphDataAddVertex mem' c G b = (i, G', b')"
proof -
  obtain status vs b1 where a: "CLGetDynamicArray mem None (unat (NumVertices G)) (Vertices G) (Suc b) = (status, vs, b1)"
    by (metis prod_cases3)
  note m = array_mono [OF a]
  show "b \<le> b'"
    using assms m by (cases "CLGraphFindConnVertex G c"; cases "mem b"; cases "status = FSUCCESS")
      (simp_all add: CLGraphDataAddVertex_def a Let_def)
  assume N: "agree N mem mem'" "b' \<le> N"
  show "CLGraphDataAddVertex mem' c G b = (i, G', b')"
  proof (cases "CLGraphFindConnVertex G c")
    case Some
    with assms show ?thesis by (simp add: CLGraphDataAddVertex_def)
  next
    case None
    show ?thesis
    proof (cases "mem b")
      case False
      with None assms have "Suc b \<le> N" using N by (simp add: CLGraphDataAddVertex_def)
      with None False assms show ?thesis using agreeD [OF N(1)] by (simp add: CLGraphDataAddVertex_def)
    next
      case True
      with None assms a have b1: "b1 = b'"
        by (cases "status = FSUCCESS") (simp_all add: CLGraphDataAddVertex_def Let_def)
      then have "mem' b" using True m N agreeD [OF N(1), of b] by simp
      with None True assms a array_agree [OF a N(1)] b1 N(2) show ?thesis
        by (simp add: CLGraphDataAddVertex_def Let_def)
    qed
  qed
qed

lemma append_agree:
  assumes "append_arc mem d a i G b = Inr (status, G', b')"
  shows "b \<le> b'" "agree N mem mem' \<Longrightarrow> b' \<le> N \<Longrightarrow> append_arc mem' d a i G b = Inr (status, G', b')"
proof -
  obtain v where v: "vertex_at G i = Inr v" using assms by (auto simp: append_arc_def and_then_Inr_iff)
  obtain st cs b1 where a: "CLGetDynamicArray mem 0 (unat (al_count (arcs_at d v))) (al_cells (arcs_at d v)) b = (st, cs, b1)"
    by (metis prod_cases3)
  have b1: "b1 = b'" using assms v a by (auto simp: append_arc_def Let_def split: if_splits)
  then show "b \<le> b'" using array_mono [OF a] by simp
  assume "agree N mem mem'" "b' \<le> N"
  with assms v a b1 array_agree [OF a] show "append_arc mem' d a i G b = Inr (status, G', b')"
    by (simp add: append_arc_def Let_def)
qed

lemma arc_agree:
  assumes "CLGraphDataAddArc mem x y G b = Inr (i, G', b')"
  shows "b \<le> b'" "agree N mem mem' \<Longrightarrow> b' \<le> N \<Longrightarrow> CLGraphDataAddArc mem' x y G b = Inr (i, G', b')"
proof -
  let ?i = "of_nat (length (Arcs G)) :: u32"
  let ?arc = "\<lparr>a_Id = ?i, Source = x, Sink = y\<rparr>"
  let ?G1 = "G\<lparr>Arcs := qm_insert (ucast ?i) ?arc (Arcs G),
     map_arc_key_to_arc := qm_insert (arc_key x y) ?arc (map_arc_key_to_arc G)\<rparr>"
  define stop where "stop \<longleftrightarrow> x = y \<or> NumVertices G \<le> x \<or> NumVertices G \<le> y \<or> CLGraphFindSrcSinkArc G x y \<noteq> None"
  have all: "b \<le> b' \<and> (agree N mem mem' \<longrightarrow> b' \<le> N \<longrightarrow> CLGraphDataAddArc mem' x y G b = Inr (i, G', b'))"
  proof (cases "stop \<or> \<not> mem b")
    case True
    then consider "stop" | "\<not> stop" "\<not> mem b" by blast
    then show ?thesis
    proof cases
      case 1
      with assms show ?thesis
        by (auto simp: stop_def CLGraphDataAddArc_def split: if_splits option.splits)
    next
      case 2
      with assms show ?thesis using agreeD [of N mem mem' b]
        by (auto simp: stop_def CLGraphDataAddArc_def)
    qed
  next
    case False
    then have go: "\<not> (x = y \<or> NumVertices G \<le> x \<or> NumVertices G \<le> y)" "CLGraphFindSrcSinkArc G x y = None" "mem b"
      by (auto simp: stop_def)
    from assms go obtain st2 G2 b2 where o: "append_arc mem Out ?i x ?G1 (Suc b) = Inr (st2, G2, b2)"
      by (auto simp: CLGraphDataAddArc_def and_then_Inr_iff Let_def)
    show ?thesis
    proof (cases "st2 = FSUCCESS")
      case f: False
      have b2: "b2 = b'" using assms go o f by (auto simp: CLGraphDataAddArc_def and_then_Inr_iff Let_def)
      then show ?thesis
        using assms go o f append_agree [OF o] agreeD [of N mem mem' b]
        by (auto simp: CLGraphDataAddArc_def Let_def)
    next
      case True
      from assms go o True obtain st3 G3 b3 where i: "append_arc mem In ?i y G2 b2 = Inr (st3, G3, b3)"
        by (auto simp: CLGraphDataAddArc_def and_then_Inr_iff Let_def)
      have b3: "b3 = b'" using assms go o True i
        by (cases "st3 = FSUCCESS") (auto simp: CLGraphDataAddArc_def and_then_Inr_iff Let_def)
      with append_agree(1) [OF o] append_agree(1) [OF i] have le: "Suc b \<le> b2" "b2 \<le> b'" by simp_all
      have "CLGraphDataAddArc mem' x y G b = Inr (i, G', b')" if N: "agree N mem mem'" "b' \<le> N"
        using assms go o True i append_agree(2) [OF o N(1)] append_agree(2) [OF i N(1)] b3 le N
          agreeD [OF N(1), of b]
        by (simp add: CLGraphDataAddArc_def Let_def)
      with le show ?thesis by simp
    qed
  qed
  show "b \<le> b'" using all by blast
  show "agree N mem mem' \<Longrightarrow> b' \<le> N \<Longrightarrow> CLGraphDataAddArc mem' x y G b = Inr (i, G', b')" using all by blast
qed

section \<open>Routes\<close>

lemma hop_agree:
  assumes "route_hop mem F u src sl dlid hfi s G b = Inr (go_on, st, s', G', b')"
  shows "b \<le> b'" "agree N mem mem' \<Longrightarrow> b' \<le> N \<Longrightarrow>
    route_hop mem' F u src sl dlid hfi s G b = Inr (go_on, st, s', G', b')"
proof -
  from assms obtain r where r: "next_connection F u src sl dlid hfi s = Inr r"
    by (auto simp: route_hop_def and_then_Inr_iff)
  have "b \<le> b' \<and> (agree N mem mem' \<longrightarrow> b' \<le> N \<longrightarrow>
      route_hop mem' F u src sl dlid hfi s G b = Inr (go_on, st, s', G', b'))"
  proof (cases r)
    case (Inl x)
    with assms r show ?thesis by (simp add: route_hop_def)
  next
    case (Inr conn_c)
    obtain conn c where c: "conn_c = (conn, c)" by fastforce
    obtain v G1 b1 where v: "CLGraphDataAddVertex mem conn G b = (v, G1, b1)" by (metis prod_cases3)
    show ?thesis
    proof (cases "v = - 1")
      case True
      with assms r Inr c v have "b1 = b'" by (simp add: route_hop_def Let_def)
      then show ?thesis using assms r Inr c v True vertex_agree [OF v]
        by (simp add: route_hop_def Let_def)
    next
      case v1: False
      show ?thesis
      proof (cases "previous_connection s = 0")
        case True
        with assms r Inr c v v1 have "b1 = b'"
          by (auto simp: route_hop_def Let_def and_then_Inr_iff split: if_splits option.splits)
        then show ?thesis using assms r Inr c v v1 True vertex_agree [OF v]
          by (simp add: route_hop_def Let_def)
      next
        case p: False
        from assms r Inr c v v1 p obtain a G2 b2 where
          a: "CLGraphDataAddArc mem (previous_vertex_id s) v G1 b1 = Inr (a, G2, b2)"
          by (auto simp: route_hop_def Let_def and_then_Inr_iff)
        with assms r Inr c v v1 p have b2: "b2 = b'"
          by (auto simp: route_hop_def Let_def and_then_Inr_iff split: if_splits option.splits)
        note le = vertex_agree(1) [OF v] arc_agree(1) [OF a]
        have "route_hop mem' F u src sl dlid hfi s G b = Inr (go_on, st, s', G', b')"
          if N: "agree N mem mem'" "b' \<le> N"
          using assms r Inr c v v1 p a vertex_agree(2) [OF v N(1)] arc_agree(2) [OF a N(1)] b2 le N(2)
          by (simp add: route_hop_def Let_def)
        with le b2 show ?thesis by simp
      qed
    qed
  qed
  then show "b \<le> b'" "agree N mem mem' \<Longrightarrow> b' \<le> N \<Longrightarrow>
    route_hop mem' F u src sl dlid hfi s G b = Inr (go_on, st, s', G', b')" by blast+
qed

lemma loop_agree:
  "route_loop mem F u src dst sl dlid s G b = Some (Inr (st, s', G', b')) \<Longrightarrow>
     b \<le> b' \<and> (\<forall>N mem'. agree N mem mem' \<longrightarrow> b' \<le> N \<longrightarrow>
       route_loop mem' F u src dst sl dlid s G b = Some (Inr (st, s', G', b')))"
proof -
  let ?P = "\<lambda>mem F u src dst sl dlid s G b y. \<forall>st s' G' b'. y = Inr (st, s', G', b') \<longrightarrow>
     b \<le> b' \<and> (\<forall>N mem'. agree N mem mem' \<longrightarrow> b' \<le> N \<longrightarrow>
       route_loop mem' F u src dst sl dlid s G b = Some (Inr (st, s', G', b')))"
  have "?P mem F u src dst sl dlid s G b y" if w: "route_loop mem F u src dst sl dlid s G b = Some y"
    for mem F u src dst sl dlid s G b y
  proof (rule route_loop.raw_induct [where P = ?P, OF _ w], goal_cases)
    case (1 loop mem F u src dst sl dlid s G b y)
    show ?case
    proof (intro allI impI)
      fix st s' G' b' assume y: "y = Inr (st, s', G', b')"
      obtain hfi where h: "hfip s = Some hfi" using 1(2) y by (cases "hfip s") auto
      show "b \<le> b' \<and> (\<forall>N mem'. agree N mem mem' \<longrightarrow> b' \<le> N \<longrightarrow>
          route_loop mem' F u src dst sl dlid s G b = Some (Inr (st, s', G', b')))"
      proof (cases "hfi = dst")
        case True
        with 1(2) y h show ?thesis by (simp add: route_loop.simps)
      next
        case False
        with 1(2) y h obtain go_on status s1 G1 b1 where
          hop: "route_hop mem F u src sl dlid hfi s G b = Inr (go_on, status, s1, G1, b1)"
          by (cases "route_hop mem F u src sl dlid hfi s G b") auto
        note H = hop_agree [OF hop]
        show ?thesis
        proof (cases go_on)
          case g: False
          with 1(2) y h False hop H show ?thesis by (simp add: route_loop.simps)
        next
          case True
          with 1(2) y h False hop have "loop mem F u src dst sl dlid s1 G1 b1 = Some y" by simp
          from 1(1) [OF this] y have i: "b1 \<le> b'" "\<And>N mem'. agree N mem mem' \<Longrightarrow> b' \<le> N \<Longrightarrow>
            route_loop mem' F u src dst sl dlid s1 G1 b1 = Some (Inr (st, s', G', b'))" by blast+
          have "route_loop mem' F u src dst sl dlid s G b = Some (Inr (st, s', G', b'))"
            if N: "agree N mem mem'" "b' \<le> N" for N mem'
            using H(2) [OF N(1)] i(1) i(2) [OF N] N(2) h False True
            by (subst route_loop.simps) simp
          with H(1) i(1) show ?thesis by auto
        qed
      qed
    qed
  qed
  then show "route_loop mem F u src dst sl dlid s G b = Some (Inr (st, s', G', b')) \<Longrightarrow>
     b \<le> b' \<and> (\<forall>N mem'. agree N mem mem' \<longrightarrow> b' \<le> N \<longrightarrow>
       route_loop mem' F u src dst sl dlid s G b = Some (Inr (st, s', G', b')))" by blast
qed

lemma hops_agree:
  assumes "count_hops mem h st b = Inr (ok, st', b')"
  shows "b \<le> b'" "agree N mem mem' \<Longrightarrow> b' \<le> N \<Longrightarrow> count_hops mem' h st b = Inr (ok, st', b')"
proof -
  obtain status hist b1 where a: "CLGetDynamicArray mem 0 (unat h) (hops_histogram st) b = (status, hist, b1)"
    by (metis prod_cases3)
  let ?known = "qm_get (hopsHistogramLstMap st) (ucast h) \<noteq> None"
  have b1: "b' = (if status \<noteq> FSUCCESS \<or> ?known then b1 else Suc b1)"
    using assms a by (auto simp: count_hops_def Let_def and_then_Inr_iff split: if_splits)
  note le = array_mono [OF a]
  show "b \<le> b'" using b1 le by (simp split: if_splits)
  assume N: "agree N mem mem'" "b' \<le> N"
  have "CLGetDynamicArray mem' 0 (unat h) (hops_histogram st) b = (status, hist, b1)"
    by (rule array_agree [OF a N(1)]) (use N(2) b1 in \<open>simp split: if_splits\<close>)
  with assms a b1 N(2) agreeD [OF N(1), of b1] show "count_hops mem' h st b = Inr (ok, st', b')"
    by (simp add: count_hops_def Let_def split: if_splits)
qed

section \<open>All routes\<close>

abbreviation count_of :: "build_state \<Rightarrow> nat" where
  "count_of B \<equiv> snd (snd (snd B))"

lemma route_agree:
  assumes "build_route mem F u src dst sl B = Some (Inr (go_on, B'))"
  shows "count_of B \<le> count_of B'" "agree N mem mem' \<Longrightarrow> count_of B' \<le> N \<Longrightarrow>
    build_route mem' F u src dst sl B = Some (Inr (go_on, B'))"
proof -
  obtain status st G b where B: "B = (status, st, G, b)" by (metis prod_cases4)
  obtain status' st' G' b' where B': "B' = (status', st', G', b')" by (metis prod_cases4)
  from assms obtain d where d: "qm_get (map_guid_to_ib_device F) dst = Some d"
    by (cases "qm_get (map_guid_to_ib_device F) dst") (auto simp: build_route_def B)
  from assms d obtain x s G1 b1 where
    l: "route_loop mem F u src dst sl (ucast (Lid d)) (route_start src) G b = Some (Inr (x, s, G1, b1))"
    by (auto simp: build_route_def B and_then_Inr_iff)
  note L = loop_agree [OF l]
  have "b \<le> b' \<and> (agree N mem mem' \<longrightarrow> b' \<le> N \<longrightarrow> build_route mem' F u src dst sl B = Some (Inr (go_on, B')))"
  proof (cases "hfip s = Some dst")
    case False
    with assms d l have b1: "b1 = b'" by (auto simp: build_route_def B B')
    have "build_route mem' F u src dst sl B = Some (Inr (go_on, B'))" if N: "agree N mem mem'" "b' \<le> N"
    proof -
      have "route_loop mem' F u src dst sl (ucast (Lid d)) (route_start src) G b = Some (Inr (x, s, G1, b1))"
        using L N b1 by blast
      with assms d l False show ?thesis by (simp add: build_route_def B B')
    qed
    with L b1 show ?thesis by simp
  next
    case True
    from assms d l True obtain ok st2 b2 where
      h: "count_hops mem (links s - 1) (st\<lparr>present_routes := present_routes st + 1\<rparr>) b1 = Inr (ok, st2, b2)"
      by (auto simp: build_route_def B and_then_Inr_iff)
    have b2: "b2 = b'" using assms d l True h by (auto simp: build_route_def B B')
    note H = hops_agree [OF h]
    have "build_route mem' F u src dst sl B = Some (Inr (go_on, B'))" if N: "agree N mem mem'" "b' \<le> N"
    proof -
      have "route_loop mem' F u src dst sl (ucast (Lid d)) (route_start src) G b = Some (Inr (x, s, G1, b1))"
        using L N H(1) b2 le_trans by blast
      moreover have "count_hops mem' (links s - 1) (st\<lparr>present_routes := present_routes st + 1\<rparr>) b1 = Inr (ok, st2, b2)"
        by (rule H(2) [OF N(1)]) (use N(2) b2 in simp)
      ultimately show ?thesis using assms d l True h by (auto simp: build_route_def B B')
    qed
    with L H(1) b2 show ?thesis by simp
  qed
  then show "count_of B \<le> count_of B'" "agree N mem mem' \<Longrightarrow> count_of B' \<le> N \<Longrightarrow>
    build_route mem' F u src dst sl B = Some (Inr (go_on, B'))" by (simp_all add: B B')
qed

lemma bind_sum_Inr:
  "Option.bind x (\<lambda>r. case r of Inl e \<Rightarrow> Some (Inl e) | Inr y \<Rightarrow> f y) = Some (Inr z) \<longleftrightarrow>
     (\<exists>y. x = Some (Inr y) \<and> f y = Some (Inr z))"
  by (cases x) (auto split: sum.splits)

lemma sls_agree:
  "build_sls mem F u src dst sls B = Some (Inr B') \<Longrightarrow>
     count_of B \<le> count_of B' \<and> (agree N mem mem' \<longrightarrow> count_of B' \<le> N \<longrightarrow>
       build_sls mem' F u src dst sls B = Some (Inr B'))"
proof (induction sls arbitrary: B)
  case (Cons sl sls)
  show ?case
  proof (cases "sl_used u sl")
    case False
    with Cons show ?thesis by simp
  next
    case True
    with Cons.prems obtain go_on B1 where r: "build_route mem F u src dst sl B = Some (Inr (go_on, B1))"
      unfolding build_sls.simps by (auto simp: bind_sum_Inr)
    note R = route_agree [OF r]
    show ?thesis
    proof (cases go_on)
      case g: False
      with Cons.prems True r have "B1 = B'" by simp
      with R True g show ?thesis by auto
    next
      case g: True
      with Cons.prems True r have "build_sls mem F u src dst sls B1 = Some (Inr B')" by simp
      from Cons.IH [OF this] R True g show ?thesis by (auto intro: le_trans)
    qed
  qed
qed simp

lemma pairs_agree:
  "build_pairs mem F u src dsts B = Some (Inr B') \<Longrightarrow>
     count_of B \<le> count_of B' \<and> (agree N mem mem' \<longrightarrow> count_of B' \<le> N \<longrightarrow>
       build_pairs mem' F u src dsts B = Some (Inr B'))"
proof (induction dsts arbitrary: B)
  case (Cons dst dsts)
  show ?case
  proof (cases "fst src = fst dst")
    case True
    with Cons show ?thesis by simp
  next
    case False
    with Cons.prems obtain B1 where
      r: "build_sls mem F u (snd src) (snd dst) [0..<STL_MAX_SLS] B = Some (Inr B1)"
        "build_pairs mem F u src dsts B1 = Some (Inr B')"
      unfolding build_pairs.simps by (auto simp: bind_sum_Inr)
    from Cons.IH [OF r(2)] sls_agree [OF r(1), of N mem'] False show ?thesis
      by (auto intro: le_trans)
  qed
qed simp

lemma sources_agree:
  "build_sources mem F u srcs B = Some (Inr B') \<Longrightarrow>
     count_of B \<le> count_of B' \<and> (agree N mem mem' \<longrightarrow> count_of B' \<le> N \<longrightarrow>
       build_sources mem' F u srcs B = Some (Inr B'))"
proof (induction srcs arbitrary: B)
  case (Cons src srcs)
  then obtain B1 where r: "build_pairs mem F u src (enumerate 0 (FIs F)) B = Some (Inr B1)"
      "build_sources mem F u srcs B1 = Some (Inr B')"
    unfolding build_sources.simps by (auto simp: bind_sum_Inr)
  from Cons.IH [OF r(2)] pairs_agree [OF r(1), of N mem'] show ?case
    by (auto intro: le_trans)
qed simp

lemma graph_agree:
  assumes "CLFabricDataBuildRouteGraph mem u F b = Some (Inr (FSUCCESS, st, F', b'))"
    and "agree b' mem mem'"
  shows "CLFabricDataBuildRouteGraph mem' u F b = Some (Inr (FSUCCESS, st, F', b'))"
proof -
  have m: "mem b" using assms(1) by (auto simp: CLFabricDataBuildRouteGraph_def split: if_splits)
  with assms(1) obtain r where r: "build_sources mem F u (enumerate 0 (FIs F)) (FSUCCESS, first_stats, Graph F, Suc b) = Some r"
    "map_sum id (\<lambda>(_, st, G, allocs'). (FSUCCESS, st, F\<lparr>Graph := G\<rparr>, allocs')) r = Inr (FSUCCESS, st, F', b')"
    by (auto simp: CLFabricDataBuildRouteGraph_def)
  then obtain status G where
    s: "build_sources mem F u (enumerate 0 (FIs F)) (FSUCCESS, first_stats, Graph F, Suc b) =
      Some (Inr (status, st, G, b'))" and F': "F' = F\<lparr>Graph := G\<rparr>"
    by (cases r) auto
  from sources_agree [OF s, of b' mem'] assms(2) have
    le: "Suc b \<le> b'" and s': "build_sources mem' F u (enumerate 0 (FIs F)) (FSUCCESS, first_stats, Graph F, Suc b) =
      Some (Inr (status, st, G, b'))" by auto
  from agreeD [OF assms(2) le] m have "mem' b" by simp
  with s' F' show ?thesis by (simp add: CLFabricDataBuildRouteGraph_def)
qed

section \<open>The verdict\<close>

text \<open>C40: One failing allocation hides a deadlock.  On every fabric whose routes end and close a
  cycle, the analysis prints "deadlock detected" while memory lasts, but there is one allocation,
  that of the graph splitting returns, whose failure alone makes it print "deadlock free", the
  verdict on fabrics without credit loops.\<close>

theorem verdict_lost_without_memory:
  assumes "room (route_dependencies F u) (route_connections F u)"
    and "Graph F = zero_graph" "distinct (FIs F)" "\<forall>t \<in> set (route_tasks F u). route_ends F u t"
    and "map_guid_to_ib_device F \<noteq> []" "ConnectionCount F \<noteq> 0" "RouteCount F \<noteq> 0"
    and "\<not> acyclic (route_dependencies F u)"
  shows "credit_loop_verdict (\<lambda>_. True) u F allocs = Some (Inr DeadlockDetected) \<and>
    (\<exists>n. credit_loop_verdict (\<lambda>i. i \<noteq> n) u F allocs = Some (Inr DeadlockFree))"
proof
  have all: "\<forall>n. (\<lambda>_ :: nat. True) n" by simp
  show "credit_loop_verdict (\<lambda>_. True) u F allocs = Some (Inr DeadlockDetected)"
    using verdict_effect [OF all assms(1-7)] assms(8) by simp
  obtain st F1 n where b: "CLFabricDataBuildRouteGraph (\<lambda>_. True) u F allocs = Some (Inr (FSUCCESS, st, F1, n))"
    "built_ok (Graph F1)" "dependencies (Graph F1) = route_dependencies F u"
    using build_effect [OF all assms(1-4)] by metis
  have ok: "graph_ok (Graph F1)" using b(2) by (simp add: built_ok_def)
  let ?mem = "\<lambda>i. i \<noteq> n"
  have b': "CLFabricDataBuildRouteGraph ?mem u F allocs = Some (Inr (FSUCCESS, st, F1, n))"
    by (rule graph_agree [OF b(1)]) (simp add: agree_def)
  obtain P where P: "CLGraphDataPrune (Graph F1) = Some (Inr P)" "graph_ok P"
    "edges P = between_cycles (edges (Graph F1))" using prune_effect [OF ok] by blast
  have "\<not> acyclic (edges (Graph F1))" using acyclic_dependencies [OF ok] b(3) assms(8) by simp
  moreover have "finite (edges (Graph F1))" using ok by (simp add: graph_ok_def finite_edges)
  ultimately have "edges P \<noteq> {}" using between_cycles_empty [of "edges (Graph F1)"] P(3) by simp
  then have "CLGraphDataSplit ?mem P n = Some (Inr (None, P, n + 1))"
    by (intro split_no_memory [OF P(2)]) simp_all
  with b' P(1) assms(5-7) show "\<exists>n. credit_loop_verdict (\<lambda>i. i \<noteq> n) u F allocs = Some (Inr DeadlockFree)"
    by (intro exI [of _ n]) (simp add: credit_loop_verdict_def)
qed

theorem verdict_lost_without_memory_witness:
  "\<exists>n. credit_loop_verdict (\<lambda>i. i \<noteq> n) 0 ring_fabric 0 = Some (Inr DeadlockFree)"
  using verdict_lost_without_memory [OF ring_room ring_ready(1,2) ring_routes(3) ring_ready(3-5) ring_cyclic, of 0]
  by blast

end
