(* ===== verification/CreditPaths.thy ===== *)
theory CreditPaths
  imports CreditRoute
begin

text \<open>
  The search for the shortest cycles of a dependency graph (\<^verbatim>\<open>CLDijkstra*\<close> in
  Topology/fabricdata.c): distances and routes between all vertices that have an arc.

  The arrays are lists of 32-bit numbers.  A function whose result has a \<open>bool\<close> went on (\<open>True\<close>) or
  jumped to the label \<open>fail\<close>.  Freeing memory and output are not modelled; the greatest distance is
  only printed.
\<close>

section \<open>Arrays\<close>

definition DIJKSTRA_INFINITY :: u32 where "DIJKSTRA_INFINITY = 0xffff"

definition store :: "'a list \<Rightarrow> nat \<Rightarrow> 'a \<Rightarrow> cl_error + 'a list" where
  "store xs i x = (if i < length xs then Inr (xs[i := x]) else Inl BadPointer)"

fun alloc_rows :: "(nat \<Rightarrow> bool) \<Rightarrow> nat \<Rightarrow> nat \<Rightarrow> u32 list list \<Rightarrow> nat \<Rightarrow> u32 list list option \<times> nat" where
  "alloc_rows mem 0 nCols rows allocs = (Some rows, allocs)"
| "alloc_rows mem (Suc n) nCols rows allocs =
    (if \<not> mem allocs then (None, allocs + 1)
     else alloc_rows mem n nCols (rows @ [replicate nCols 0]) (allocs + 1))"

definition CLDijkstraAllocArray ::
  "(nat \<Rightarrow> bool) \<Rightarrow> nat \<Rightarrow> nat \<Rightarrow> nat \<Rightarrow> u32 list list option \<times> nat" where
  "CLDijkstraAllocArray mem nRows nCols allocs =
    (if \<not> mem allocs then (None, allocs + 1) else alloc_rows mem nRows nCols [] (allocs + 1))"

text \<open>\<^verbatim>\<open>memset (xs, 0, sizeof (nCols * sizeof (uint32)))\<close> clears 8 bytes, the size of the type of the
  product.\<close>

definition clear_size :: "u32 list \<Rightarrow> cl_error + u32 list" where
  "clear_size xs = and_then (store xs 0 0) (\<lambda>ys. store ys 1 0)"

text \<open>\<^verbatim>\<open>memcpy (dst, src, n)\<close> copies \<open>n\<close> bytes, on a little-endian machine.\<close>

definition copy_bytes :: "nat \<Rightarrow> u32 list \<Rightarrow> u32 list \<Rightarrow> u32 list" where
  "copy_bytes n dst src =
    map (\<lambda>k. if 4 * (k + 1) \<le> n then src ! k
             else if n \<le> 4 * k then dst ! k
             else let m = mask (8 * (n - 4 * k)) in
               or (and (dst ! k) (not m)) (and (src ! k) m)) [0..<length dst]"

section \<open>Sets of numbers and the vertices to do\<close>

type_synonym number_set = "(u64, unit) key_map"

definition CLListUint32Find :: "number_set \<Rightarrow> u32 \<Rightarrow> bool" where
  "CLListUint32Find m entry \<longleftrightarrow> qm_get m (ucast entry) \<noteq> None"

definition CLListUint32Add ::
  "(nat \<Rightarrow> bool) \<Rightarrow> number_set \<Rightarrow> u32 \<Rightarrow> nat \<Rightarrow> FSTATUS \<times> number_set \<times> nat" where
  "CLListUint32Add mem m entry allocs =
    (if CLListUint32Find m entry then (FSUCCESS, m, allocs)
     else if \<not> mem allocs then (FINSUFFICIENT_MEMORY, m, allocs + 1)
     else (FSUCCESS, qm_insert (ucast entry) () m, allocs + 1))"

type_synonym todo_map = "(u64, u32) key_map"

definition CLDijkstraAddVertexDistance ::
  "(nat \<Rightarrow> bool) \<Rightarrow> todo_map \<Rightarrow> u32 \<Rightarrow> nat \<Rightarrow> bool \<times> todo_map \<times> nat" where
  "CLDijkstraAddVertexDistance mem todo j allocs =
    (if \<not> mem allocs then (False, todo, allocs + 1)
     else if qm_get todo (ucast j) \<noteq> None then (False, todo, allocs + 1)
     else (True, qm_insert (ucast j) j todo, allocs + 1))"

text \<open>The first vertex of the map, by its number.\<close>

definition CLDijkstraVertexPopDistance :: "todo_map \<Rightarrow> u32 \<times> todo_map" where
  "CLDijkstraVertexPopDistance todo =
    (case todo of [] \<Rightarrow> (- 1, []) | (k, j) # _ \<Rightarrow> (j, qm_remove k todo))"

definition CLDijkstraGetDistance ::
  "u32 list list option \<Rightarrow> nat \<Rightarrow> nat \<Rightarrow> u32 \<Rightarrow> u32 \<Rightarrow> cl_error + FSTATUS \<times> u32" where
  "CLDijkstraGetDistance distances nRows nCols src dst =
    (case distances of None \<Rightarrow> Inr (FERROR, DIJKSTRA_INFINITY)
     | Some rows \<Rightarrow>
        if nRows \<le> unat src \<or> nCols \<le> unat dst then Inr (FINVALID_PARAMETER, DIJKSTRA_INFINITY)
        else
         and_then (element rows (unat src)) (\<lambda>row.
         and_then (element row (unat dst)) (\<lambda>d. Inr (FSUCCESS, d))))"

text \<open>The vertices the loops over the array visit: those that have an arc.\<close>

definition live_ids :: "clGraphData_t \<Rightarrow> u32 list" where
  "live_ids G = concat (map (\<lambda>v. case v of None \<Rightarrow> []
     | Some u \<Rightarrow> if RefCount u \<noteq> 0 then [v_Id u] else []) (cells (Vertices G)))"

section \<open>Distances from one vertex\<close>

record dj_vars =
  dist :: "u32 list"
  previous :: "u32 list"
  previousLstMap :: number_set

type_synonym dj_result = "bool \<times> dj_vars \<times> nat"

fun dj_todo ::
  "(nat \<Rightarrow> bool) \<Rightarrow> u32 list \<Rightarrow> todo_map \<Rightarrow> dj_vars \<Rightarrow> nat \<Rightarrow> cl_error + bool \<times> todo_map \<times> dj_vars \<times> nat" where
  "dj_todo mem [] todo S allocs = Inr (True, todo, S, allocs)"
| "dj_todo mem (j # js) todo S allocs =
    and_then (store (dist S) (unat j) DIJKSTRA_INFINITY) (\<lambda>ds.
     let (ok, todo1, allocs1) = CLDijkstraAddVertexDistance mem todo j allocs in
     if \<not> ok then Inr (False, todo1, S\<lparr>dist := ds\<rparr>, allocs1)
     else
      and_then (store (previous S) (unat j) 0) (\<lambda>ps.
       dj_todo mem js todo1 (S\<lparr>dist := ds, previous := ps\<rparr>) allocs1))"

text \<open>One arc from the current vertex.  A NULL vertex at its end is only reported.\<close>

definition relax_arc ::
  "(nat \<Rightarrow> bool) \<Rightarrow> clGraphData_t \<Rightarrow> u32 \<Rightarrow> clArcData_t \<Rightarrow> dj_vars \<Rightarrow> nat \<Rightarrow> cl_error + dj_result" where
  "relax_arc mem G current arc S allocs =
    and_then (element (cells (Vertices G)) (unat (Sink arc))) (\<lambda>jp.
     case jp of None \<Rightarrow> Inr (True, S, allocs)
     | Some v \<Rightarrow>
        let j = unat (v_Id v) in
        and_then (element (dist S) (unat current)) (\<lambda>dc.
        and_then (element (dist S) j) (\<lambda>dj.
         if dc + 1 < dj
         then
          and_then (store (previous S) j current) (\<lambda>ps.
           let (status, lst, allocs1) = CLListUint32Add mem (previousLstMap S) current allocs in
           Inr (status = FSUCCESS,
             S\<lparr>dist := (dist S)[j := dc + 1], previous := ps, previousLstMap := lst\<rparr>, allocs1))
         else Inr (True, S, allocs))))"

fun relax_cells ::
  "(nat \<Rightarrow> bool) \<Rightarrow> clGraphData_t \<Rightarrow> u32 \<Rightarrow> nat \<Rightarrow> nat \<Rightarrow> dj_vars \<Rightarrow> nat \<Rightarrow> cl_error + dj_result" where
  "relax_cells mem G current c 0 S allocs = Inr (True, S, allocs)"
| "relax_cells mem G current c (Suc n) S allocs =
    and_then (vertex_at G current) (\<lambda>v.
    and_then (element (cells (al_cells (Outbound v))) c) (\<lambda>a.
     case (if 0 \<le> a then CLGraphFindIdArc G (word_of_int a) else None) of
       None \<Rightarrow> relax_cells mem G current (c + 1) n S allocs
     | Some arc \<Rightarrow>
        and_then (relax_arc mem G current arc S allocs) (\<lambda>(ok, S1, allocs1).
         if ok then relax_cells mem G current (c + 1) n S1 allocs1 else Inr (False, S1, allocs1))))"

text \<open>The loop that takes the vertices off the map.\<close>

function dj_loop ::
  "(nat \<Rightarrow> bool) \<Rightarrow> clGraphData_t \<Rightarrow> todo_map \<Rightarrow> dj_vars \<Rightarrow> nat \<Rightarrow> cl_error + dj_result" where
  "dj_loop mem G todo S allocs =
    (if todo = [] then Inr (True, S, allocs)
     else
      case CLDijkstraVertexPopDistance todo of (current, todo1) \<Rightarrow>
       if current = - 1 then Inr (True, S, allocs)
       else
        case vertex_at G current of Inl err \<Rightarrow> Inl err
        | Inr v \<Rightarrow>
           (case relax_cells mem G current 0 (unat (al_count (Outbound v))) S allocs of
              Inl err \<Rightarrow> Inl err
            | Inr (ok, S1, allocs1) \<Rightarrow>
               if ok then dj_loop mem G todo1 S1 allocs1 else Inr (False, S1, allocs1)))"
  by pat_completeness auto

lemma pop_shorter:
  "todo \<noteq> [] \<Longrightarrow> (current, todo1) = CLDijkstraVertexPopDistance todo \<Longrightarrow> length todo1 < length todo"
  by (cases todo) (auto simp: CLDijkstraVertexPopDistance_def qm_remove_def less_Suc_eq_le)

termination dj_loop
  by (relation "measure (\<lambda>(mem, G, todo, S, allocs). length todo)") (auto dest: pop_shorter)

declare dj_loop.simps [simp del]

text \<open>From the clearing of the arrays to the end of the loop over the vertices to do.\<close>

definition dj_source ::
  "(nat \<Rightarrow> bool) \<Rightarrow> clGraphData_t \<Rightarrow> u32 \<Rightarrow> dj_vars \<Rightarrow> nat \<Rightarrow> cl_error + dj_result" where
  "dj_source mem G i S allocs =
    and_then (clear_size (dist S)) (\<lambda>ds0.
    and_then (clear_size (previous S)) (\<lambda>ps0.
    and_then (dj_todo mem (live_ids G) [] \<lparr>dist = ds0, previous = ps0, previousLstMap = []\<rparr> allocs)
     (\<lambda>(ok, todo, S1, allocs1).
     if \<not> ok then Inr (False, S1, allocs1)
     else
      and_then (store (dist S1) (unat i) 0) (\<lambda>ds.
      and_then (store (previous S1) (unat i) i) (\<lambda>ps.
       let (status, lst, allocs2) = CLListUint32Add mem (previousLstMap S1) i allocs1;
           S2 = \<lparr>dist = ds, previous = ps, previousLstMap = lst\<rparr> in
       if status \<noteq> FSUCCESS then Inr (False, S2, allocs2) else dj_loop mem G todo S2 allocs2)))))"

section \<open>Routes\<close>

text \<open>From a vertex back to the source along \<open>previous\<close>; the result is the vertex after the source.\<close>

partial_function (option) route_back ::
  "u32 list \<Rightarrow> u32 \<Rightarrow> u32 \<Rightarrow> u32 \<Rightarrow> (cl_error + u32) option" where
  "route_back prev i current next =
    (if current = i then Some (Inr next)
     else
      case element prev (unat current) of Inl err \<Rightarrow> Some (Inl err)
      | Inr p \<Rightarrow> route_back prev i p current)"

fun dj_routes ::
  "(nat \<Rightarrow> bool) \<Rightarrow> u32 \<Rightarrow> dj_vars \<Rightarrow> u32 list \<Rightarrow> u32 list \<Rightarrow> number_set \<Rightarrow> nat \<Rightarrow>
     (cl_error + bool \<times> u32 list \<times> number_set \<times> nat) option" where
  "dj_routes mem i S [] route lst allocs = Some (Inr (True, route, lst, allocs))"
| "dj_routes mem i S (j # js) route lst allocs =
    (case element (dist S) (unat j) of Inl err \<Rightarrow> Some (Inl err)
     | Inr d \<Rightarrow>
        if d \<noteq> DIJKSTRA_INFINITY
        then
         Option.bind (route_back (previous S) i j j) (\<lambda>r.
          case and_then r (\<lambda>next. and_then (store route (unat j) next) (\<lambda>route1. Inr (next, route1))) of
            Inl err \<Rightarrow> Some (Inl err)
          | Inr (next, route1) \<Rightarrow>
             let (status, lst1, allocs1) = CLListUint32Add mem lst next allocs in
             if status \<noteq> FSUCCESS then Some (Inr (False, route1, lst1, allocs1))
             else dj_routes mem i S js route1 lst1 allocs1)
        else dj_routes mem i S js route lst allocs)"

section \<open>All vertices\<close>

record dj_state =
  vars :: dj_vars
  route :: "u32 list"
  distances :: "u32 list list"
  routes :: "u32 list list"
  routesLstMap :: "number_set list"

definition dj_row ::
  "(nat \<Rightarrow> bool) \<Rightarrow> clGraphData_t \<Rightarrow> u32 \<Rightarrow> dj_state \<Rightarrow> nat \<Rightarrow> (cl_error + bool \<times> dj_state \<times> nat) option" where
  "dj_row mem G i Z allocs =
    (case dj_source mem G i (vars Z) allocs of Inl err \<Rightarrow> Some (Inl err)
     | Inr (ok, S, allocs1) \<Rightarrow>
        if \<not> ok then Some (Inr (False, Z\<lparr>vars := S\<rparr>, allocs1))
        else
         case clear_size (route Z) of Inl err \<Rightarrow> Some (Inl err)
         | Inr route0 \<Rightarrow>
            map_option (\<lambda>r. and_then r (\<lambda>(ok, route1, lst, allocs2).
              and_then (store (routesLstMap Z) (unat i) lst) (\<lambda>maps.
               let Z1 = Z\<lparr>vars := S, route := route1, routesLstMap := maps\<rparr>; n = length (cells (Vertices G)) in
               if \<not> ok then Inr (False, Z1, allocs2)
               else
                and_then (element (routes Z) (unat i)) (\<lambda>rrow.
                and_then (store (routes Z) (unat i) (copy_bytes n rrow route1)) (\<lambda>rs.
                and_then (element (distances Z) (unat i)) (\<lambda>drow.
                and_then (store (distances Z) (unat i) (copy_bytes n drow (dist S))) (\<lambda>ds.
                 Inr (True, Z1\<lparr>routes := rs, distances := ds\<rparr>, allocs2))))))))
             (dj_routes mem i S (live_ids G) route0 [] allocs1))"

fun dj_rows ::
  "(nat \<Rightarrow> bool) \<Rightarrow> clGraphData_t \<Rightarrow> u32 list \<Rightarrow> dj_state \<Rightarrow> nat \<Rightarrow> (cl_error + bool \<times> dj_state \<times> nat) option" where
  "dj_rows mem G [] Z allocs = Some (Inr (True, Z, allocs))"
| "dj_rows mem G (i # is) Z allocs =
    Option.bind (dj_row mem G i Z allocs) (\<lambda>r.
     case r of Inl err \<Rightarrow> Some (Inl err)
     | Inr (ok, Z1, allocs1) \<Rightarrow>
        if ok then dj_rows mem G is Z1 allocs1 else Some (Inr (False, Z1, allocs1)))"

section \<open>Cycles through a vertex\<close>

text \<open>The least distance back from a vertex after \<open>i\<close>, plus one, and that vertex.\<close>

fun self_cells ::
  "clGraphData_t \<Rightarrow> u32 list list \<Rightarrow> u32 \<Rightarrow> nat \<Rightarrow> nat \<Rightarrow> u32 \<Rightarrow> u32 \<Rightarrow> cl_error + u32 \<times> u32" where
  "self_cells G dss i c 0 d via = Inr (d, via)"
| "self_cells G dss i c (Suc n) d via =
    and_then (vertex_at G i) (\<lambda>v.
    and_then (element (cells (al_cells (Outbound v))) c) (\<lambda>a.
     case (if 0 \<le> a then CLGraphFindIdArc G (word_of_int a) else None) of
       None \<Rightarrow> self_cells G dss i (c + 1) n d via
     | Some arc \<Rightarrow>
        and_then (element (cells (Vertices G)) (unat (Sink arc))) (\<lambda>jp.
         case jp of None \<Rightarrow> self_cells G dss i (c + 1) n d via
         | Some w \<Rightarrow>
            and_then (element dss (unat (v_Id w))) (\<lambda>row.
            and_then (element row (unat i)) (\<lambda>x.
             if x < d then self_cells G dss i (c + 1) n (x + 1) (v_Id w)
             else self_cells G dss i (c + 1) n d via)))))"

definition store_cell :: "u32 list list \<Rightarrow> nat \<Rightarrow> u32 \<Rightarrow> cl_error + u32 list list" where
  "store_cell rows i x =
    and_then (element rows i) (\<lambda>row. and_then (store row i x) (\<lambda>row1. store rows i row1))"

fun self_distances ::
  "clGraphData_t \<Rightarrow> u32 list \<Rightarrow> u32 list list \<times> u32 list list \<Rightarrow> cl_error + u32 list list \<times> u32 list list" where
  "self_distances G [] rows = Inr rows"
| "self_distances G (i # is) (dss, rss) =
    and_then (vertex_at G i) (\<lambda>v.
    and_then (self_cells G dss i 0 (unat (al_count (Outbound v))) DIJKSTRA_INFINITY 0) (\<lambda>(d, via).
     if d = DIJKSTRA_INFINITY then self_distances G is (dss, rss)
     else
      and_then (store_cell dss (unat i) d) (\<lambda>dss1.
      and_then (store_cell rss (unat i) via) (\<lambda>rss1. self_distances G is (dss1, rss1)))))"

section \<open>The check\<close>

text \<open>The number of hops from \<open>k\<close> along the routes to \<open>j\<close>.  The map asked is that of the first vertex.\<close>

partial_function (option) check_walk ::
  "number_set \<Rightarrow> u32 list list \<Rightarrow> u32 \<Rightarrow> u32 \<Rightarrow> u32 \<Rightarrow> (cl_error + u32) option" where
  "check_walk lst rss k j d =
    (if \<not> CLListUint32Find lst j then Some (Inr DIJKSTRA_INFINITY)
     else
      case and_then (element rss (unat k)) (\<lambda>row. element row (unat j)) of Inl err \<Rightarrow> Some (Inl err)
      | Inr l \<Rightarrow> if l = j then Some (Inr (d + 1)) else check_walk lst rss l j (d + 1))"

text \<open>The pairs of vertices in the order of the two loops; the result is the number of errors, \<open>- 1\<close> when
  there are no distances.\<close>

fun check_pairs ::
  "number_set \<Rightarrow> u32 list list option \<Rightarrow> u32 list list \<Rightarrow> nat \<Rightarrow> nat \<Rightarrow> (u32 \<times> u32) list \<Rightarrow> u32 \<Rightarrow>
     (cl_error + u32) option" where
  "check_pairs lst dss rss nRows nCols [] errors = Some (Inr errors)"
| "check_pairs lst dss rss nRows nCols ((i, j) # ps) errors =
    Option.bind (check_walk lst rss i j 0) (\<lambda>r.
     case and_then r (\<lambda>d. and_then (CLDijkstraGetDistance dss nRows nCols i j) (\<lambda>x. Inr (d, x))) of
       Inl err \<Rightarrow> Some (Inl err)
     | Inr (d, status, distance) \<Rightarrow>
        if status = FERROR then Some (Inr (- 1))
        else check_pairs lst dss rss nRows nCols ps (if distance = d then errors else errors + 1))"

definition CLDijkstraCheckDistancesAndRoutes ::
  "clGraphData_t \<Rightarrow> number_set list \<Rightarrow> u32 list list option \<Rightarrow> u32 list list \<Rightarrow> nat \<Rightarrow> nat \<Rightarrow> (cl_error + u32) option" where
  "CLDijkstraCheckDistancesAndRoutes G maps dss rss nRows nCols =
    (let pairs = concat (map (\<lambda>i. map (Pair i) (live_ids G)) (live_ids G)) in
     if pairs = [] then Some (Inr 0)
     else
      case element maps 0 of Inl err \<Rightarrow> Some (Inl err)
      | Inr lst \<Rightarrow> check_pairs lst dss rss nRows nCols pairs 0)"

section \<open>The search\<close>

text \<open>The arrays: distances, routes, \<open>dist\<close>, \<open>route\<close>, \<open>previous\<close> and the maps.\<close>

definition dj_alloc :: "(nat \<Rightarrow> bool) \<Rightarrow> nat \<Rightarrow> nat \<Rightarrow> dj_state option \<times> nat" where
  "dj_alloc mem n allocs =
    (let (dss, allocs1) = CLDijkstraAllocArray mem n n allocs in
     case dss of None \<Rightarrow> (None, allocs1)
     | Some ds \<Rightarrow>
        let (rss, allocs2) = CLDijkstraAllocArray mem n n allocs1 in
        case rss of None \<Rightarrow> (None, allocs2)
        | Some rs \<Rightarrow>
           if \<not> mem allocs2 then (None, allocs2 + 1)
           else if \<not> mem (allocs2 + 1) then (None, allocs2 + 2)
           else if \<not> mem (allocs2 + 2) then (None, allocs2 + 3)
           else if \<not> mem (allocs2 + 3) then (None, allocs2 + 4)
           else
            (Some \<lparr>vars = \<lparr>dist = replicate n 0, previous = replicate n 0, previousLstMap = []\<rparr>,
               route = replicate n 0, distances = ds, routes = rs, routesLstMap = replicate n []\<rparr>,
             allocs2 + 4))"

text \<open>Everything before the check; the result is the status and, on success, distances, routes and maps.\<close>

definition dj_search ::
  "(nat \<Rightarrow> bool) \<Rightarrow> clGraphData_t \<Rightarrow> nat \<Rightarrow>
     (cl_error + FSTATUS \<times> (u32 list list \<times> u32 list list \<times> number_set list) option \<times> nat) option" where
  "dj_search mem G allocs =
    (let n = length (cells (Vertices G)); (z, allocs0) = dj_alloc mem n allocs in
     case z of None \<Rightarrow> Some (Inr (FINSUFFICIENT_MEMORY, None, allocs0))
     | Some Z \<Rightarrow>
        map_option (\<lambda>r. and_then r (\<lambda>(ok, Z1, allocs1).
          if \<not> ok then Inr (FERROR, None, allocs1)
          else
           and_then (self_distances G (live_ids G) (distances Z1, routes Z1)) (\<lambda>(dss, rss).
            Inr (FSUCCESS, Some (dss, rss, routesLstMap Z1), allocs1))))
         (dj_rows mem G (live_ids G) Z allocs0))"

definition CLDijkstraFindDistancesAndRoutes ::
  "(nat \<Rightarrow> bool) \<Rightarrow> clGraphData_t \<Rightarrow> nat \<Rightarrow>
     (cl_error + FSTATUS \<times> (u32 list list \<times> u32 list list) option \<times> nat) option" where
  "CLDijkstraFindDistancesAndRoutes mem G allocs =
    Option.bind (dj_search mem G allocs) (\<lambda>r.
     case r of Inl err \<Rightarrow> Some (Inl err)
     | Inr (status, None, allocs1) \<Rightarrow> Some (Inr (status, None, allocs1))
     | Inr (status, Some (dss, rss, maps), allocs1) \<Rightarrow>
        let n = length (cells (Vertices G)) in
        map_option (map_sum id (\<lambda>_. (status, Some (dss, rss), allocs1)))
         (CLDijkstraCheckDistancesAndRoutes G maps (Some dss) rss n n))"

end
