(* ===== verification/CreditPathsDist.thy ===== *)
theory CreditPathsDist
  imports CreditPaths CreditVerdict
begin

text \<open>
  What the loop over the vertices computes: vertices are taken in the order of their numbers, not of
  their distances, so that the distance of a vertex is the length of the shortest walk to it whose
  vertices before the last have increasing numbers.
\<close>

section \<open>Live vertices\<close>

text \<open>A consistent graph whose array is empty behind its last vertex.\<close>

definition array_ok :: "clGraphData_t \<Rightarrow> bool" where
  "array_ok G \<longleftrightarrow> graph_ok G \<and> 2 \<le> length (cells (Vertices G)) \<and>
     (\<forall>k. unat (NumVertices G) \<le> k \<and> k < length (cells (Vertices G)) \<longrightarrow> cells (Vertices G) ! k = None)"

lemma concat_map_if: "concat (map (\<lambda>k. if P k then [h k] else []) ks) = map h (filter P ks)"
  by (induction ks) simp_all

lemma graph_cell:
  assumes "graph_ok G" "i < NumVertices G"
  obtains v where "unat i < length (cells (Vertices G))" "cells (Vertices G) ! unat i = Some v"
    "vertex_at G i = Inr v" "vertex_ok G i v"
proof -
  obtain v where v: "vertex_at G i = Inr v" "vertex_ok G i v" by (rule graph_vertex [OF assms])
  then show thesis using that
    by (auto simp: vertex_at_def Let_def split: if_splits option.splits)
qed

lemma array_length:
  assumes "graph_ok G"
  shows "unat (NumVertices G) \<le> length (cells (Vertices G))"
proof (cases "NumVertices G = 0")
  case False
  then have u: "unat (NumVertices G - 1) = unat (NumVertices G) - 1" "0 < unat (NumVertices G)"
    by (simp_all add: unat_minus_one unat_gt_0)
  then have "NumVertices G - 1 < NumVertices G" by (simp only: word_less_nat_alt)
  then obtain v where "unat (NumVertices G - 1) < length (cells (Vertices G))"
    using graph_cell [OF assms] by metis
  then show ?thesis using u by simp
qed simp

lemma live_ids_eq:
  assumes "array_ok G"
  shows "live_ids G = map of_nat (filter (\<lambda>k. neighbours G (of_nat k) \<noteq> {}) [0..<unat (NumVertices G)])"
proof -
  let ?n = "unat (NumVertices G)" and ?cs = "cells (Vertices G)"
  let ?f = "\<lambda>v. case v of None \<Rightarrow> [] | Some u \<Rightarrow> if RefCount u \<noteq> 0 then [v_Id u] else []"
  have G: "graph_ok G" using assms by (simp add: array_ok_def)
  have n: "?n \<le> length ?cs" by (rule array_length [OF G])
  have cell: "?f (?cs ! k) = (if neighbours G (of_nat k) \<noteq> {} then [of_nat k] else [])" if "k < ?n" for k
  proof -
    have b: "k < 2 ^ 32" using that unsigned_less [of "NumVertices G", where 'a = nat] by simp
    then have u: "unat (of_nat k :: u32) = k" by (simp add: unat_of_nat take_bit_nat_eq_self)
    then have "of_nat k < NumVertices G" using that by (simp add: word_less_nat_alt)
    then obtain v where "?cs ! k = Some v" "vertex_ok G (of_nat k) v"
      using graph_cell [OF G, of "of_nat k"] u by metis
    moreover from this(2) have "RefCount v = 0 \<longleftrightarrow> neighbours G (of_nat k) = {}" "v_Id v = of_nat k"
      by (rule refcount_neighbours) (use \<open>vertex_ok G (of_nat k) v\<close> in \<open>simp add: vertex_ok_def\<close>)
    ultimately show ?thesis by simp
  qed
  have "?cs = map (\<lambda>k. ?cs ! k) [0..<?n] @ map (\<lambda>k. ?cs ! k) [?n..<length ?cs]"
    using n by (metis le_add_diff_inverse map_append map_nth upt_add_eq_append zero_le)
  then have 1: "live_ids G = concat (map ?f (map (\<lambda>k. ?cs ! k) [0..<?n])) @ concat (map ?f (map (\<lambda>k. ?cs ! k) [?n..<length ?cs]))"
    unfolding live_ids_def by (metis concat_append map_append)
  have 2: "concat (map ?f (map (\<lambda>k. ?cs ! k) [?n..<length ?cs])) = []"
    using assms by (auto simp: array_ok_def)
  have 3: "map ?f (map (\<lambda>k. ?cs ! k) [0..<?n]) =
      map (\<lambda>k. if neighbours G (of_nat k) \<noteq> {} then [of_nat k] else []) [0..<?n]"
    using cell by simp
  show ?thesis unfolding 1 2 3 concat_map_if by simp
qed

lemma set_live_ids:
  assumes "array_ok G"
  shows "set (live_ids G) = {i. neighbours G i \<noteq> {}}"
proof -
  have ok: "arcs_ok G" using assms by (simp add: array_ok_def graph_ok_def)
  have "\<exists>k < unat (NumVertices G). i = of_nat k" if "neighbours G i \<noteq> {}" for i
  proof -
    have "i < NumVertices G" using that edge_vertices [OF ok] by (auto simp: neighbours_def)
    then show ?thesis by (intro exI [of _ "unat i"]) (simp add: word_less_nat_alt)
  qed
  then show ?thesis by (auto simp: live_ids_eq [OF assms])
qed

lemma sorted_live_ids:
  assumes "array_ok G"
  shows "sorted_wrt (<) (live_ids G)"
proof -
  have b: "k < 2 ^ 32" if "k < unat (NumVertices G)" for k
    using that unsigned_less [of "NumVertices G", where 'a = nat] by simp
  have "sorted_wrt (\<lambda>k l. (of_nat k :: u32) < of_nat l) (filter P [0..<unat (NumVertices G)])" for P
  proof (rule sorted_wrt_mono_rel [of _ "(<)"])
    show "sorted_wrt (<) (filter P [0..<unat (NumVertices G)])"
      by (intro sorted_wrt_filter) simp
  qed (use b in \<open>auto simp: word_less_nat_alt unat_of_nat take_bit_nat_eq_self\<close>)
  then show ?thesis by (simp add: live_ids_eq [OF assms] sorted_wrt_map)
qed

lemma live_in_array:
  assumes "array_ok G" "i \<in> set (live_ids G)"
  shows "i < NumVertices G" "unat i < length (cells (Vertices G))"
proof -
  have G: "graph_ok G" using assms by (simp add: array_ok_def)
  show "i < NumVertices G"
    using assms(2) edge_vertices [of G] G by (auto simp: set_live_ids [OF assms(1)] neighbours_def graph_ok_def)
  then show "unat i < length (cells (Vertices G))" using array_length [OF G] by (simp add: word_less_nat_alt)
qed

section \<open>The vertices to do\<close>

lemma qm_insert_last: "\<forall>l \<in> fst ` set m. l < k \<Longrightarrow> qm_insert k v m = m @ [(k, v)]"
  by (induction k v m rule: qm_insert.induct) auto

definition todo_of :: "u32 list \<Rightarrow> todo_map" where
  "todo_of js = map (\<lambda>j. (ucast j, j)) js"

lemma unat_ucast_64: "unat (ucast (i :: u32) :: u64) = unat i"
proof -
  have "unat i < 2 ^ 64" using unsigned_less [of i, where 'a = nat] by simp
  then show ?thesis by (simp add: unsigned_ucast_eq take_bit_nat_eq_self)
qed

lemma ucast_less: "(i :: u32) < j \<Longrightarrow> (ucast i :: u64) < ucast j"
  by (simp add: word_less_nat_alt unat_ucast_64)

lemma ucast_eq_64: "(ucast (i :: u32) :: u64) = ucast j \<longleftrightarrow> i = j"
  by (metis unat_ucast_64 word_unat_eq_iff)

lemma dj_todo_effect:
  assumes mem: "\<forall>n. mem n"
  shows "sorted_wrt (<) (ks @ js) \<Longrightarrow> \<forall>j \<in> set js. unat j < length (dist S) \<and> unat j < length (previous S) \<Longrightarrow>
    \<exists>ds ps allocs'. dj_todo mem js (todo_of ks) S allocs =
        Inr (True, todo_of (ks @ js), S\<lparr>dist := ds, previous := ps\<rparr>, allocs') \<and>
      length ds = length (dist S) \<and> length ps = length (previous S) \<and>
      (\<forall>j \<in> set js. ds ! unat j = DIJKSTRA_INFINITY) \<and>
      (\<forall>k. k \<notin> unat ` set js \<longrightarrow> ds ! k = dist S ! k)"
proof (induction js arbitrary: ks S allocs)
  case Nil
  then show ?case by (intro exI [of _ "dist S"] exI [of _ "previous S"]) simp
next
  case (Cons j js)
  let ?S = "S\<lparr>dist := (dist S)[unat j := DIJKSTRA_INFINITY], previous := (previous S)[unat j := 0]\<rparr>"
  have lt: "\<forall>l \<in> fst ` set (todo_of ks). l < ucast j"
    using Cons.prems(1) by (auto simp: todo_of_def sorted_wrt_append ucast_less)
  then have "qm_get (todo_of ks) (ucast j) = None"
    using qm_keys [of "todo_of ks"] by (metis domI less_irrefl not_None_eq)
  then have add: "CLDijkstraAddVertexDistance mem (todo_of ks) j allocs = (True, todo_of (ks @ [j]), allocs + 1)"
    using mem qm_insert_last [OF lt] by (simp add: CLDijkstraAddVertexDistance_def todo_of_def)
  have prems: "sorted_wrt (<) ((ks @ [j]) @ js)"
    "\<forall>j \<in> set js. unat j < length (dist ?S) \<and> unat j < length (previous ?S)" using Cons.prems by simp_all
  obtain ds ps allocs' where r: "dj_todo mem js (todo_of (ks @ [j])) ?S (allocs + 1) =
      Inr (True, todo_of ((ks @ [j]) @ js), ?S\<lparr>dist := ds, previous := ps\<rparr>, allocs')"
    "length ds = length (dist ?S)" "length ps = length (previous ?S)"
    "\<forall>j \<in> set js. ds ! unat j = DIJKSTRA_INFINITY" "\<forall>k. k \<notin> unat ` set js \<longrightarrow> ds ! k = dist ?S ! k"
    using Cons.IH [OF prems, of "allocs + 1"] by blast
  have "unat j \<notin> unat ` set js"
    using Cons.prems(1) by (auto simp: sorted_wrt_append word_unat_eq_iff [symmetric])
  then have "ds ! unat j = DIJKSTRA_INFINITY" using r(5) Cons.prems(2) by simp
  moreover have "dj_todo mem (j # js) (todo_of ks) S allocs =
      Inr (True, todo_of (ks @ j # js), S\<lparr>dist := ds, previous := ps\<rparr>, allocs')"
    using r(1) add Cons.prems(2) by (simp add: store_def)
  moreover have "ds ! k = dist S ! k" if "k \<notin> unat ` set (j # js)" for k using r(5) that by simp
  ultimately show ?case using r(2-4) by (intro exI [of _ ds] exI [of _ ps] exI [of _ allocs']) simp
qed

lemma pop_todo:
  assumes "sorted_wrt (<) (j # js)"
  shows "CLDijkstraVertexPopDistance (todo_of (j # js)) = (j, todo_of js)"
proof -
  have "(ucast k :: u64) \<noteq> ucast j" if "k \<in> set js" for k using assms that by (auto simp: ucast_eq_64)
  then have "qm_remove (ucast j) (todo_of js) = todo_of js"
    unfolding qm_remove_def by (intro filter_True) (auto simp: todo_of_def)
  then show ?thesis by (simp add: CLDijkstraVertexPopDistance_def todo_of_def qm_remove_def)
qed

section \<open>The arcs from a vertex\<close>

text \<open>The arcs from \<open>v\<close> to the vertices \<open>T\<close> were looked at.\<close>

definition relaxed :: "u32 \<Rightarrow> u32 set \<Rightarrow> dj_vars \<Rightarrow> dj_vars \<Rightarrow> bool" where
  "relaxed v T S S' \<longleftrightarrow> length (dist S') = length (dist S) \<and> length (previous S') = length (previous S) \<and>
     (\<forall>w. unat w < length (dist S) \<longrightarrow>
       (if w \<in> T \<and> dist S ! unat v + 1 < dist S ! unat w
        then dist S' ! unat w = dist S ! unat v + 1 \<and> previous S' ! unat w = v
        else dist S' ! unat w = dist S ! unat w \<and> previous S' ! unat w = previous S ! unat w))"

lemma number_added:
  assumes "\<forall>n. mem n"
  obtains lst' allocs' where "CLListUint32Add mem lst x allocs = (FSUCCESS, lst', allocs')"
  using assms by (cases "CLListUint32Find lst x") (simp_all add: CLListUint32Add_def)

lemma relaxed_refl: "relaxed v {} S S"
  by (simp add: relaxed_def)

lemma relax_arc_effect:
  assumes mem: "\<forall>n. mem n" and w: "cells (Vertices G) ! unat (Sink x) = Some u" "v_Id u = Sink x"
      "unat (Sink x) < length (cells (Vertices G))"
    and len: "length (dist S) = length (cells (Vertices G))" "length (previous S) = length (dist S)"
      "unat v < length (dist S)"
    and r: "relaxed v T S0 S" and v: "v \<notin> T" "Sink x \<noteq> v"
  obtains S' allocs' where "relax_arc mem G v x S allocs = Inr (True, S', allocs')"
    "relaxed v (insert (Sink x) T) S0 S'" "length (dist S') = length (dist S)" "length (previous S') = length (previous S)"
proof -
  let ?j = "unat (Sink x)"
  have l0: "length (dist S0) = length (dist S)" using r by (simp add: relaxed_def)
  have dv: "dist S ! unat v = dist S0 ! unat v" using r v(1) len(3) l0 by (simp add: relaxed_def)
  obtain lst allocs' where add: "CLListUint32Add mem (previousLstMap S) v allocs = (FSUCCESS, lst, allocs')"
    by (rule number_added [OF mem])
  have step: "relax_arc mem G v x S allocs = Inr (if dist S ! unat v + 1 < dist S ! ?j
      then (True, S\<lparr>dist := (dist S)[?j := dist S ! unat v + 1], previous := (previous S)[?j := v], previousLstMap := lst\<rparr>, allocs')
      else (True, S, allocs))"
    using w len add by (simp add: relax_arc_def element_def store_def Let_def)
  show thesis
  proof (cases "dist S ! unat v + 1 < dist S ! ?j")
    case True
    let ?S = "S\<lparr>dist := (dist S)[?j := dist S ! unat v + 1], previous := (previous S)[?j := v], previousLstMap := lst\<rparr>"
    have "relaxed v (insert (Sink x) T) S0 ?S"
      unfolding relaxed_def
    proof (intro conjI allI impI)
      fix y :: u32 assume y: "unat y < length (dist S0)"
      note ry = r [unfolded relaxed_def, THEN conjunct2, THEN conjunct2, rule_format, OF y]
      show "if y \<in> insert (Sink x) T \<and> dist S0 ! unat v + 1 < dist S0 ! unat y
          then dist ?S ! unat y = dist S0 ! unat v + 1 \<and> previous ?S ! unat y = v
          else dist ?S ! unat y = dist S0 ! unat y \<and> previous ?S ! unat y = previous S0 ! unat y"
      proof (cases "y = Sink x")
        case eq: True
        then have "dist S0 ! unat v + 1 < dist S0 ! unat y" using ry True dv by (simp split: if_splits)
        then show ?thesis using eq dv len w(3) by simp
      next
        case False
        then have "unat y \<noteq> ?j" by (simp add: word_unat_eq_iff)
        then show ?thesis using ry False by simp
      qed
    qed (use r in \<open>simp_all add: relaxed_def\<close>)
    then show thesis using that step True by simp
  next
    case False
    have "relaxed v (insert (Sink x) T) S0 S"
      unfolding relaxed_def
    proof (intro conjI allI impI)
      fix y :: u32 assume y: "unat y < length (dist S0)"
      note ry = r [unfolded relaxed_def, THEN conjunct2, THEN conjunct2, rule_format, OF y]
      show "if y \<in> insert (Sink x) T \<and> dist S0 ! unat v + 1 < dist S0 ! unat y
          then dist S ! unat y = dist S0 ! unat v + 1 \<and> previous S ! unat y = v
          else dist S ! unat y = dist S0 ! unat y \<and> previous S ! unat y = previous S0 ! unat y"
        using ry False dv by (cases "y = Sink x") (auto split: if_splits)
    qed (use r in \<open>simp_all add: relaxed_def\<close>)
    then show thesis using that step False by simp
  qed
qed


text \<open>The vertices the first \<open>c\<close> cells of a vertex lead to.\<close>

definition sinks :: "clGraphData_t \<Rightarrow> clVertixData_t \<Rightarrow> nat \<Rightarrow> u32 set" where
  "sinks G v c = {Sink x | k x. k < c \<and> 0 \<le> cells (al_cells (Outbound v)) ! k \<and>
     arc_at G (cells (al_cells (Outbound v)) ! k) = Some x}"

lemma sinks_Suc:
  "sinks G v (Suc c) = sinks G v c \<union>
     (if 0 \<le> cells (al_cells (Outbound v)) ! c
      then {Sink x | x. arc_at G (cells (al_cells (Outbound v)) ! c) = Some x} else {})"
  by (auto simp: sinks_def less_Suc_eq)

lemma sinks_all:
  assumes "vertex_ok G i v"
  shows "sinks G v (unat (al_count (Outbound v))) = {w. (i, w) \<in> edges G}"
proof -
  have l: "arc_list_ok (Outbound v) (arcs_with Out G i)"
    using assms unfolding vertex_ok_def arcs_at_def by (metis side.simps(3))
  have cell: "a \<in> arcs_with Out G i \<longleftrightarrow> (\<exists>k < unat (al_count (Outbound v)). 0 \<le> cells (al_cells (Outbound v)) ! k \<and>
      cells (al_cells (Outbound v)) ! k = a)" for a
  proof -
    have "set (take (unat (al_count (Outbound v))) (cells (al_cells (Outbound v)))) =
        (!) (cells (al_cells (Outbound v))) ` {0..<unat (al_count (Outbound v))}"
      using l by (simp add: arc_list_ok_def nth_image)
    then have "set (used_cells (Outbound v)) =
        {a \<in> (!) (cells (al_cells (Outbound v))) ` {0..<unat (al_count (Outbound v))}. 0 \<le> a}"
      unfolding used_cells_def set_filter by (simp only:)
    moreover have "set (used_cells (Outbound v)) = arcs_with Out G i" using l by (simp add: arc_list_ok_def)
    ultimately have "a \<in> arcs_with Out G i \<longleftrightarrow> 0 \<le> a \<and>
        a \<in> (!) (cells (al_cells (Outbound v))) ` {0..<unat (al_count (Outbound v))}" by blast
    then show ?thesis by (auto simp: image_iff)
  qed
  have "w \<in> sinks G v (unat (al_count (Outbound v))) \<longleftrightarrow>
      (\<exists>a x. a \<in> arcs_with Out G i \<and> arc_at G a = Some x \<and> Sink x = w)" for w
    unfolding sinks_def cell by auto
  moreover have "(\<exists>a x. a \<in> arcs_with Out G i \<and> arc_at G a = Some x \<and> Sink x = w) \<longleftrightarrow> (i, w) \<in> edges G" for w
    unfolding edges_def arcs_with_def arc_end_def side.case mem_Collect_eq prod.inject by (metis option.inject)
  ultimately show ?thesis by blast
qed

lemma relax_cells_effect:
  assumes mem: "\<forall>n. mem n" and G: "graph_ok G" and v: "vertex_at G i = Inr v" "vertex_ok G i v"
    and len0: "length (dist S0) = length (cells (Vertices G))" "length (previous S0) = length (dist S0)" "unat i < length (dist S0)"
  shows "c + n = unat (al_count (Outbound v)) \<Longrightarrow> relaxed i (sinks G v c) S0 S \<Longrightarrow>
    \<exists>S' allocs'. relax_cells mem G i c n S allocs = Inr (True, S', allocs') \<and>
      relaxed i {w. (i, w) \<in> edges G} S0 S'"
proof (induction n arbitrary: c S allocs)
  case 0
  then show ?case using sinks_all [OF v(2)] by simp
next
  case (Suc n)
  let ?a = "cells (al_cells (Outbound v)) ! c"
  have side: "arcs_at Out v = Outbound v" by (simp add: arcs_at_def)
  have c: "c < unat (al_count (arcs_at Out v))" using Suc.prems(1) by (simp add: side)
  have cell: "element (cells (al_cells (Outbound v))) c = Inr ?a"
    using arcs_at_cells(1) [OF v(2) c] by (simp add: element_def side)
  have nxt: "Suc c + n = unat (al_count (Outbound v))" using Suc.prems(1) by simp
  show ?case
  proof (cases "0 \<le> ?a")
    case False
    then have "sinks G v (Suc c) = sinks G v c" by (simp add: sinks_Suc)
    then show ?thesis using Suc.IH [OF nxt, of S allocs] Suc.prems(2) False v(1) cell by simp
  next
    case True
    then have "?a \<in> arcs_with Out G i" using arcs_at_cells(2) [OF v(2) c] by (simp add: side)
    then obtain x where x: "CLGraphFindIdArc G (word_of_int ?a) = Some x" "arc_at G ?a = Some x" "Source x = i"
      using arc_by_id by (metis arc_end_def side.simps(3))
    have ok: "arcs_ok G" using G by (simp add: graph_ok_def)
    note xs = arc_at_Some [OF ok x(2)]
    obtain u where u: "unat (Sink x) < length (cells (Vertices G))" "cells (Vertices G) ! unat (Sink x) = Some u"
      "vertex_ok G (Sink x) u" using graph_cell [OF G xs(7)] by metis
    have vid: "v_Id u = Sink x" using u(3) by (simp add: vertex_ok_def)
    have len: "length (dist S) = length (cells (Vertices G))" "length (previous S) = length (dist S)" "unat i < length (dist S)"
      using Suc.prems(2) len0 by (simp_all add: relaxed_def)
    have ni: "i \<notin> sinks G v c"
    proof
      assume "i \<in> sinks G v c"
      then obtain k y where k: "k < c" "0 \<le> cells (al_cells (Outbound v)) ! k"
        "arc_at G (cells (al_cells (Outbound v)) ! k) = Some y" "Sink y = i" by (auto simp: sinks_def)
      have "k < unat (al_count (arcs_at Out v))" using k(1) c by simp
      from arcs_at_cells(2) [OF v(2) this] k(2,3) have "Source y = i" by (simp add: side arcs_with_def arc_end_def)
      then show False using arc_at_Some(5) [OF ok k(3)] k(4) by simp
    qed
    obtain S1 allocs1 where r: "relax_arc mem G i x S allocs = Inr (True, S1, allocs1)"
      "relaxed i (insert (Sink x) (sinks G v c)) S0 S1"
      using relax_arc_effect [OF mem u(2) vid u(1) len Suc.prems(2) ni, of allocs] xs(5) x(3) by metis
    have "sinks G v (Suc c) = insert (Sink x) (sinks G v c)" using True x(2) by (auto simp: sinks_Suc)
    then show ?thesis using Suc.IH [OF nxt, of S1 allocs1] r True x(1) v(1) cell by simp
  qed
qed


end
