(* ===== verification/CreditPathsWalk.thy ===== *)
theory CreditPathsWalk
  imports CreditPathsDist
begin

text \<open>
  The distances and routes of one vertex: what the loop over the vertices computes in terms of walks
  in the graph, and the end of the walk back.
\<close>

section \<open>Ascending walks\<close>

text \<open>\<open>ascending E i p k w\<close>: a walk of \<open>k\<close> arcs from \<open>i\<close> to \<open>w\<close> whose last vertex but one is \<open>p\<close>, and
  whose vertices up to \<open>p\<close> have increasing numbers.\<close>

inductive ascending :: "(u32 \<times> u32) set \<Rightarrow> u32 \<Rightarrow> u32 \<Rightarrow> nat \<Rightarrow> u32 \<Rightarrow> bool" for E i where
  first: "(i, w) \<in> E \<Longrightarrow> ascending E i i 1 w"
| step: "ascending E i p k v \<Longrightarrow> p < v \<Longrightarrow> (v, w) \<in> E \<Longrightarrow> ascending E i v (Suc k) w"

inductive_cases ascendingE: "ascending E i p k w"

lemma ascending_edge: "ascending E i p k w \<Longrightarrow> (p, w) \<in> E"
  by (induction rule: ascending.induct) auto

section \<open>The invariant of the loop\<close>

definition live :: "clGraphData_t \<Rightarrow> u32 set" where
  "live G = {i. neighbours G i \<noteq> {}}"

definition dist_of :: "dj_vars \<Rightarrow> u32 \<Rightarrow> nat" where
  "dist_of S w = unat (dist S ! unat w)"

text \<open>The vertices in \<open>P\<close> were taken.\<close>

definition dist_ok :: "clGraphData_t \<Rightarrow> u32 \<Rightarrow> u32 set \<Rightarrow> dj_vars \<Rightarrow> bool" where
  "dist_ok G i P S \<longleftrightarrow>
     length (dist S) = length (cells (Vertices G)) \<and> length (previous S) = length (dist S) \<and>
     dist_of S i = 0 \<and> (\<forall>w \<in> live G. dist_of S w \<le> 0xffff) \<and>
     (\<forall>w \<in> live G. w \<noteq> i \<and> dist_of S w \<noteq> 0xffff \<longrightarrow> (\<exists>p \<in> P. ascending (edges G) i p (dist_of S w) w)) \<and>
     (\<forall>w \<in> live G. \<forall>p \<in> P. \<forall>k. ascending (edges G) i p k w \<longrightarrow> dist_of S w \<le> k) \<and>
     (\<forall>w \<in> live G. w \<noteq> i \<and> dist_of S w \<noteq> 0xffff \<longrightarrow>
        previous S ! unat w \<in> live G \<and> (previous S ! unat w, w) \<in> edges G \<and>
        dist_of S (previous S ! unat w) < dist_of S w)"

lemma relaxed_dist:
  assumes r: "relaxed v {w. (v, w) \<in> E} S S'" and w: "unat w < length (dist S)" and v: "dist_of S v \<le> 0xffff"
  shows "dist_of S' w = (if (v, w) \<in> E \<and> dist_of S v + 1 < dist_of S w then dist_of S v + 1 else dist_of S w)"
    "previous S' ! unat w = (if (v, w) \<in> E \<and> dist_of S v + 1 < dist_of S w then v else previous S ! unat w)"
proof -
  have s: "unat (dist S ! unat v + 1) = dist_of S v + 1"
    using v by (subst unat_add_lem [THEN iffD1]) (simp_all add: dist_of_def)
  then have "dist S ! unat v + 1 < dist S ! unat w \<longleftrightarrow> dist_of S v + 1 < dist_of S w"
    by (simp add: word_less_nat_alt dist_of_def)
  then show "dist_of S' w = (if (v, w) \<in> E \<and> dist_of S v + 1 < dist_of S w then dist_of S v + 1 else dist_of S w)"
    "previous S' ! unat w = (if (v, w) \<in> E \<and> dist_of S v + 1 < dist_of S w then v else previous S ! unat w)"
    using r w s unfolding relaxed_def dist_of_def by (simp_all split: if_splits)
qed

lemma dist_ok_step:
  assumes A: "array_ok G" and D: "dist_ok G i P S" and v: "v \<in> live G" and P: "P = {p \<in> live G. p < v}"
    and r: "relaxed v {w. (v, w) \<in> edges G} S S'" and i: "i \<in> live G"
  shows "dist_ok G i (insert v P) S'"
proof -
  have ok: "arcs_ok G" using A by (simp add: array_ok_def graph_ok_def)
  have in_range: "unat w < length (dist S)" if "w \<in> live G" for w
    using live_in_array(2) [OF A, of w] that D by (simp add: set_live_ids [OF A] live_def dist_ok_def)
  have vb: "dist_of S v \<le> 0xffff" using D v by (simp add: dist_ok_def)
  note new = relaxed_dist [OF r in_range vb]
  have irrefl: "(w, w) \<notin> edges G" for w using edge_vertices(3) [OF ok] by blast
  have le: "dist_of S' w \<le> dist_of S w" if "w \<in> live G" for w by (simp add: new(1) [OF that])
  have dv: "dist_of S' v = dist_of S v" using irrefl by (simp add: new(1) [OF v])
  have di: "dist_of S i = 0" using D by (simp add: dist_ok_def)
  have sound: "\<exists>p \<in> insert v P. ascending (edges G) i p (dist_of S' w) w"
    if w: "w \<in> live G" "w \<noteq> i" "dist_of S' w \<noteq> 0xffff" for w
  proof (cases "(v, w) \<in> edges G \<and> dist_of S v + 1 < dist_of S w")
    case True
    then have eq: "dist_of S' w = Suc (dist_of S v)" by (simp add: new(1) [OF w(1)])
    show ?thesis
    proof (cases "v = i")
      case True
      then show ?thesis using first [of i w "edges G"] eq di \<open>(v, w) \<in> edges G \<and> _\<close> by auto
    next
      case False
      have "dist_of S w \<le> 0xffff" using D w(1) by (simp add: dist_ok_def)
      then have "dist_of S v \<noteq> 0xffff" using True by simp
      then obtain p where "p \<in> P" "ascending (edges G) i p (dist_of S v) v"
        using D v False unfolding dist_ok_def by blast
      then have "ascending (edges G) i v (Suc (dist_of S v)) w" using step True P by blast
      then show ?thesis using eq by auto
    qed
  next
    case False
    then have "dist_of S' w = dist_of S w" using new(1) [OF w(1)] by auto
    then show ?thesis using D w unfolding dist_ok_def by (metis insertCI)
  qed
  have complete: "dist_of S' w \<le> k" if w: "w \<in> live G" "p \<in> insert v P" "ascending (edges G) i p k w" for w p k
  proof (cases "p \<in> P")
    case True
    then have "dist_of S w \<le> k" using D w unfolding dist_ok_def by blast
    then show ?thesis using le [OF w(1)] by simp
  next
    case False
    then have p: "p = v" using w(2) by simp
    have e: "(v, w) \<in> edges G" using ascending_edge [OF w(3)] p by simp
    have "dist_of S v + 1 \<le> k"
      using w(3)
    proof (cases rule: ascending.cases)
      case first
      then show ?thesis using di p by simp
    next
      case (step p' k')
      have "p' \<in> live G" using ascending_edge [OF step(2)] by (auto simp: live_def neighbours_def)
      then have "p' \<in> P" using step(3) p P by simp
      then have "dist_of S v \<le> k'" using D v step(2) p unfolding dist_ok_def by blast
      then show ?thesis using step(1) by simp
    qed
    then show ?thesis using new(1) [OF w(1)] e by auto
  qed
  have tree: "previous S' ! unat w \<in> live G \<and> (previous S' ! unat w, w) \<in> edges G \<and>
      dist_of S' (previous S' ! unat w) < dist_of S' w" if w: "w \<in> live G" "w \<noteq> i" "dist_of S' w \<noteq> 0xffff" for w
  proof (cases "(v, w) \<in> edges G \<and> dist_of S v + 1 < dist_of S w")
    case True
    then show ?thesis using v dv by (simp add: new [OF w(1)])
  next
    case False
    then have s: "dist_of S' w = dist_of S w" "previous S' ! unat w = previous S ! unat w"
      using new [OF w(1)] by auto
    then have "previous S ! unat w \<in> live G \<and> (previous S ! unat w, w) \<in> edges G \<and>
      dist_of S (previous S ! unat w) < dist_of S w" using D w unfolding dist_ok_def by metis
    then show ?thesis using s le [of "previous S ! unat w"] by fastforce
  qed
  have len: "length (dist S') = length (dist S)" "length (previous S') = length (previous S)"
    using r by (simp_all add: relaxed_def)
  have "dist_of S' i = 0" using le [OF i] di by simp
  moreover have "dist_of S' w \<le> 0xffff" if "w \<in> live G" for w
    using le [OF that] D that unfolding dist_ok_def by (meson le_trans)
  ultimately show ?thesis
    using D sound complete tree len unfolding dist_ok_def by simp
qed

section \<open>The loops\<close>

lemma live_ids_live: "array_ok G \<Longrightarrow> set (live_ids G) = live G"
  by (simp add: set_live_ids live_def)

lemma dj_loop_effect:
  assumes mem: "\<forall>n. mem n" and A: "array_ok G" and i: "i \<in> live G"
  shows "live_ids G = ks @ js \<Longrightarrow> dist_ok G i (set ks) S \<Longrightarrow>
    \<exists>S' allocs'. dj_loop mem G (todo_of js) S allocs = Inr (True, S', allocs') \<and> dist_ok G i (live G) S'"
proof (induction js arbitrary: ks S allocs)
  case Nil
  then have "set ks = live G" using live_ids_live [OF A] by simp
  then show ?case using Nil(2) by (simp add: dj_loop.simps todo_of_def)
next
  case (Cons v js)
  have sorted: "sorted_wrt (<) (ks @ v # js)" using sorted_live_ids [OF A] Cons.prems(1) by simp
  have v: "v \<in> set (live_ids G)" using Cons.prems(1) by simp
  have vl: "v \<in> live G" using v live_ids_live [OF A] by simp
  have G: "graph_ok G" using A by (simp add: array_ok_def)
  have P: "set ks = {p \<in> live G. p < v}"
  proof -
    have "live G = set ks \<union> {v} \<union> set js" using live_ids_live [OF A] Cons.prems(1) by auto
    then show ?thesis using sorted by (auto simp: sorted_wrt_append)
  qed
  obtain u where u: "vertex_at G v = Inr u" "vertex_ok G v u" by (rule graph_vertex [OF G live_in_array(1) [OF A v]])
  have len: "length (dist S) = length (cells (Vertices G))" "length (previous S) = length (dist S)" "unat v < length (dist S)"
    using Cons.prems(2) live_in_array(2) [OF A v] by (simp_all add: dist_ok_def)
  have zero: "0 + unat (al_count (Outbound u)) = unat (al_count (Outbound u))" "relaxed v (sinks G u 0) S S"
    using relaxed_refl by (simp_all add: sinks_def)
  obtain S1 allocs1 where r: "relax_cells mem G v 0 (unat (al_count (Outbound u))) S allocs = Inr (True, S1, allocs1)"
    "relaxed v {w. (v, w) \<in> edges G} S S1"
    using relax_cells_effect [OF mem G u len zero, of allocs] by blast
  have D1: "dist_ok G i (set (ks @ [v])) S1"
    using dist_ok_step [OF A Cons.prems(2) vl P r(2) i] by simp
  have "v \<noteq> - 1" using live_in_array(1) [OF A v] word_n1_ge [of "NumVertices G"] by (metis not_less)
  then have "dj_loop mem G (todo_of (v # js)) S allocs = dj_loop mem G (todo_of js) S1 allocs1"
    using r(1) u(1) pop_todo [of v js] sorted
    by (subst dj_loop.simps) (simp add: todo_of_def sorted_wrt_append)
  moreover have "live_ids G = (ks @ [v]) @ js" using Cons.prems(1) by simp
  ultimately show ?case using Cons.IH [OF _ D1, of allocs1] by metis
qed


lemma clear_size_effect:
  assumes "2 \<le> length xs"
  obtains ys where "clear_size xs = Inr ys" "length ys = length xs"
proof -
  have "0 < length xs" "1 < length xs" using assms by linarith+
  then show thesis using that by (simp add: clear_size_def store_def del: length_greater_0_conv)
qed

lemma dj_source_effect:
  assumes mem: "\<forall>n. mem n" and A: "array_ok G" and i: "i \<in> live G"
    and len: "length (dist S) = length (cells (Vertices G))" "length (previous S) = length (dist S)"
  obtains S' allocs' where "dj_source mem G i S allocs = Inr (True, S', allocs')" "dist_ok G i (live G) S'"
proof -
  have two: "2 \<le> length (dist S)" "2 \<le> length (previous S)" using A len by (simp_all add: array_ok_def)
  obtain ds0 where ds0: "clear_size (dist S) = Inr ds0" "length ds0 = length (dist S)"
    by (rule clear_size_effect [OF two(1)])
  obtain ps0 where ps0: "clear_size (previous S) = Inr ps0" "length ps0 = length (previous S)"
    by (rule clear_size_effect [OF two(2)])
  let ?S0 = "\<lparr>dist = ds0, previous = ps0, previousLstMap = []\<rparr>"
  have range: "unat j < length (dist S)" if "j \<in> live G" for j
    using live_in_array(2) [OF A, of j] that by (simp add: live_ids_live [OF A] len)
  have prems: "sorted_wrt (<) ([] @ live_ids G)"
    "\<forall>j \<in> set (live_ids G). unat j < length (dist ?S0) \<and> unat j < length (previous ?S0)"
    using sorted_live_ids [OF A] range by (simp_all add: live_ids_live [OF A] ds0(2) ps0(2) len(2))
  obtain ds ps allocs1 where t: "dj_todo mem (live_ids G) (todo_of []) ?S0 allocs =
      Inr (True, todo_of ([] @ live_ids G), ?S0\<lparr>dist := ds, previous := ps\<rparr>, allocs1)"
    "length ds = length (dist ?S0)" "length ps = length (previous ?S0)"
    "\<forall>j \<in> set (live_ids G). ds ! unat j = DIJKSTRA_INFINITY"
    using dj_todo_effect [OF mem prems, of allocs] by blast
  obtain lst allocs2 where l: "CLListUint32Add mem [] i allocs1 = (FSUCCESS, lst, allocs2)"
    by (rule number_added [OF mem])
  let ?S2 = "\<lparr>dist = ds[unat i := 0], previous = ps[unat i := i], previousLstMap = lst\<rparr>"
  have inf: "dist_of ?S2 w = (if w = i then 0 else 0xffff)" if "w \<in> live G" for w
    using t(4) range [OF that] that t(2) ds0(2)
    by (auto simp: dist_of_def live_ids_live [OF A] DIJKSTRA_INFINITY_def nth_list_update word_unat_eq_iff [symmetric])
  have "dist_ok G i (set []) ?S2"
    using t(2,3) ds0(2) ps0(2) len inf i by (auto simp: dist_ok_def)
  then obtain S' allocs' where s: "dj_loop mem G (todo_of (live_ids G)) ?S2 allocs2 = Inr (True, S', allocs')"
    "dist_ok G i (live G) S'"
    using dj_loop_effect [OF mem A i, of "[]" "live_ids G" ?S2 allocs2] by auto
  have "dj_source mem G i S allocs = Inr (True, S', allocs')"
    using ds0(1) ps0(1) t(1-3) l s(1) range [OF i] ds0(2) ps0(2) len(2)
    by (simp add: dj_source_def todo_of_def store_def)
  with s(2) show thesis by (rule that [rotated -1]) 
qed

section \<open>The walk back\<close>

lemma route_back_effect:
  assumes A: "array_ok G" and D: "dist_ok G i (live G) S"
  shows "w \<in> live G \<Longrightarrow> dist_of S w \<noteq> 0xffff \<Longrightarrow>
    \<exists>n. route_back (previous S) i w x = Some (Inr n) \<and> (w = i \<longrightarrow> n = x) \<and> (w \<noteq> i \<longrightarrow> (i, n) \<in> edges G)"
proof (induction "dist_of S w" arbitrary: w x rule: less_induct)
  case less
  show ?case
  proof (cases "w = i")
    case True
    then show ?thesis by (subst route_back.simps) simp
  next
    case False
    let ?p = "previous S ! unat w"
    have p: "?p \<in> live G" "(?p, w) \<in> edges G" "dist_of S ?p < dist_of S w"
      using D less.prems False unfolding dist_ok_def by blast+
    have "dist_of S w \<le> 0xffff" using D less.prems(1) by (simp add: dist_ok_def)
    then have "dist_of S ?p \<noteq> 0xffff" using p(3) by simp
    then obtain n where n: "route_back (previous S) i ?p w = Some (Inr n)" "?p = i \<longrightarrow> n = w" "?p \<noteq> i \<longrightarrow> (i, n) \<in> edges G"
      using less.hyps [OF p(3,1)] by blast
    have "unat w < length (previous S)"
      using live_in_array(2) [OF A, of w] less.prems(1) D by (simp add: live_ids_live [OF A] dist_ok_def)
    then have "route_back (previous S) i w x = Some (Inr n)"
      using False n(1) by (subst route_back.simps) (simp add: element_def)
    moreover have "(i, n) \<in> edges G" using n(2,3) p(2) by metis
    ultimately show ?thesis using False by simp
  qed
qed

lemma dj_routes_effect:
  assumes mem: "\<forall>n. mem n" and A: "array_ok G" and D: "dist_ok G i (live G) S"
  shows "set js \<subseteq> live G \<Longrightarrow> distinct js \<Longrightarrow> length rt = length (cells (Vertices G)) \<Longrightarrow>
    \<exists>rt' lst' allocs'. dj_routes mem i S js rt lst allocs = Some (Inr (True, rt', lst', allocs')) \<and>
      length rt' = length rt \<and>
      (\<forall>j \<in> set js. j \<noteq> i \<and> dist_of S j \<noteq> 0xffff \<longrightarrow> (i, rt' ! unat j) \<in> edges G) \<and>
      (\<forall>k. k \<notin> unat ` set js \<longrightarrow> rt' ! k = rt ! k)"
proof (induction js arbitrary: rt lst allocs)
  case Nil
  then show ?case by simp
next
  case (Cons j js)
  have j: "j \<in> live G" using Cons.prems(1) by simp
  have range: "unat j < length (cells (Vertices G))" "unat j < length (dist S)"
    using live_in_array(2) [OF A, of j] j D by (simp_all add: live_ids_live [OF A] dist_ok_def)
  have el: "element (dist S) (unat j) = Inr (dist S ! unat j)" using range(2) by (simp add: element_def)
  have inf: "dist S ! unat j = DIJKSTRA_INFINITY \<longleftrightarrow> dist_of S j = 0xffff"
    by (simp add: dist_of_def DIJKSTRA_INFINITY_def word_unat_eq_iff)
  have notin: "unat j \<notin> unat ` set js" using Cons.prems(2) by (auto simp: word_unat_eq_iff [symmetric])
  have rest: "set js \<subseteq> live G" "distinct js" using Cons.prems by simp_all
  show ?case
  proof (cases "dist_of S j = 0xffff")
    case True
    obtain rt' lst' allocs' where r: "dj_routes mem i S js rt lst allocs = Some (Inr (True, rt', lst', allocs'))"
      "length rt' = length rt" "\<forall>j \<in> set js. j \<noteq> i \<and> dist_of S j \<noteq> 0xffff \<longrightarrow> (i, rt' ! unat j) \<in> edges G"
      "\<forall>k. k \<notin> unat ` set js \<longrightarrow> rt' ! k = rt ! k"
      using Cons.IH [OF rest Cons.prems(3), of lst allocs] by blast
    then show ?thesis using True el inf by simp
  next
    case False
    obtain n where n: "route_back (previous S) i j j = Some (Inr n)" "j \<noteq> i \<longrightarrow> (i, n) \<in> edges G"
      using route_back_effect [OF A D j False] by blast
    obtain lst1 allocs1 where l: "CLListUint32Add mem lst n allocs = (FSUCCESS, lst1, allocs1)"
      by (rule number_added [OF mem])
    let ?rt = "rt[unat j := n]"
    have len: "length ?rt = length (cells (Vertices G))" using Cons.prems(3) by simp
    obtain rt' lst' allocs' where r: "dj_routes mem i S js ?rt lst1 allocs1 = Some (Inr (True, rt', lst', allocs'))"
      "length rt' = length ?rt" "\<forall>j \<in> set js. j \<noteq> i \<and> dist_of S j \<noteq> 0xffff \<longrightarrow> (i, rt' ! unat j) \<in> edges G"
      "\<forall>k. k \<notin> unat ` set js \<longrightarrow> rt' ! k = ?rt ! k"
      using Cons.IH [OF rest len, of lst1 allocs1] by blast
    have "dj_routes mem i S (j # js) rt lst allocs = Some (Inr (True, rt', lst', allocs'))"
      using r(1) n(1) l el inf False range(1) Cons.prems(3) by (simp add: store_def)
    moreover have "rt' ! unat j = n" using r(4) notin range(1) Cons.prems(3) by simp
    moreover have "rt' ! k = rt ! k" if "k \<notin> unat ` set (j # js)" for k using r(4) that by simp
    ultimately show ?thesis using r(2,3) n(2) by simp
  qed
qed


section \<open>Rows\<close>

lemma copy_bytes_nth:
  assumes "length dst = n" "4 * (k + 1) \<le> n"
  shows "copy_bytes n dst src ! k = src ! k"
  using assms by (simp add: copy_bytes_def)

lemma length_copy_bytes [simp]: "length (copy_bytes n dst src) = length dst"
  by (simp add: copy_bytes_def)

text \<open>The rows of \<open>i\<close> for the vertices whose entries were copied whole: distances of the shortest
  ascending walks, and routes that begin with an arc.\<close>

definition row_ok :: "clGraphData_t \<Rightarrow> u32 \<Rightarrow> u32 list \<Rightarrow> u32 list \<Rightarrow> bool" where
  "row_ok G i drow rrow \<longleftrightarrow> (\<forall>w \<in> live G. 4 * (unat w + 1) \<le> length (cells (Vertices G)) \<longrightarrow>
     (if w = i then drow ! unat w = 0
      else unat (drow ! unat w) \<le> 0xffff \<and>
        (\<forall>p k. ascending (edges G) i p k w \<longrightarrow> unat (drow ! unat w) \<le> k) \<and>
        (drow ! unat w \<noteq> DIJKSTRA_INFINITY \<longrightarrow>
           (\<exists>p. ascending (edges G) i p (unat (drow ! unat w)) w) \<and> (i, rrow ! unat w) \<in> edges G)))"

definition rows_ok :: "clGraphData_t \<Rightarrow> u32 set \<Rightarrow> dj_state \<Rightarrow> bool" where
  "rows_ok G I Z \<longleftrightarrow> (let n = length (cells (Vertices G)) in
     length (dist (vars Z)) = n \<and> length (previous (vars Z)) = n \<and> length (route Z) = n \<and>
     length (distances Z) = n \<and> length (routes Z) = n \<and> length (routesLstMap Z) = n \<and>
     (\<forall>k < n. length (distances Z ! k) = n \<and> length (routes Z ! k) = n)) \<and>
     (\<forall>i \<in> I. row_ok G i (distances Z ! unat i) (routes Z ! unat i))"

lemma dist_ok_row:
  assumes A: "array_ok G" and D: "dist_ok G i (live G) S" and i: "i \<in> live G"
    and R: "\<forall>j \<in> live G. j \<noteq> i \<and> dist_of S j \<noteq> 0xffff \<longrightarrow> (i, rt ! unat j) \<in> edges G"
    and len: "length drow = length (cells (Vertices G))" "length rrow = length (cells (Vertices G))"
  shows "row_ok G i (copy_bytes (length (cells (Vertices G))) drow (dist S))
     (copy_bytes (length (cells (Vertices G))) rrow rt)"
proof -
  have live: "p \<in> live G" if "ascending (edges G) i p k w" for p k w
    using ascending_edge [OF that] by (auto simp: live_def neighbours_def)
  have inf: "dist S ! unat w = DIJKSTRA_INFINITY \<longleftrightarrow> dist_of S w = 0xffff" for w
    by (simp add: dist_of_def DIJKSTRA_INFINITY_def word_unat_eq_iff)
  have zero: "dist S ! unat i = 0" using D by (simp add: dist_ok_def dist_of_def word_unat_eq_iff)
  show ?thesis
    unfolding row_ok_def
  proof (intro ballI impI)
    fix w assume w: "w \<in> live G" "4 * (unat w + 1) \<le> length (cells (Vertices G))"
    note c = copy_bytes_nth [OF len(1) w(2)] copy_bytes_nth [OF len(2) w(2)]
    have 1: "dist_of S w \<le> 0xffff" using D w(1) by (simp add: dist_ok_def)
    have 2: "\<forall>p k. ascending (edges G) i p k w \<longrightarrow> dist_of S w \<le> k"
      using D w(1) live unfolding dist_ok_def by blast
    have 3: "\<exists>p. ascending (edges G) i p (dist_of S w) w" if "w \<noteq> i" "dist_of S w \<noteq> 0xffff"
      using D w(1) that unfolding dist_ok_def by blast
    show "if w = i then copy_bytes (length (cells (Vertices G))) drow (dist S) ! unat w = 0
      else unat (copy_bytes (length (cells (Vertices G))) drow (dist S) ! unat w) \<le> 0xffff \<and>
        (\<forall>p k. ascending (edges G) i p k w \<longrightarrow> unat (copy_bytes (length (cells (Vertices G))) drow (dist S) ! unat w) \<le> k) \<and>
        (copy_bytes (length (cells (Vertices G))) drow (dist S) ! unat w \<noteq> DIJKSTRA_INFINITY \<longrightarrow>
           (\<exists>p. ascending (edges G) i p (unat (copy_bytes (length (cells (Vertices G))) drow (dist S) ! unat w)) w) \<and>
           (i, copy_bytes (length (cells (Vertices G))) rrow rt ! unat w) \<in> edges G)"
      unfolding c using zero 1 2 3 R w(1) inf by (auto simp: dist_of_def)
  qed
qed

lemma dj_row_effect:
  assumes mem: "\<forall>n. mem n" and A: "array_ok G" and i: "i \<in> live G" "i \<notin> I" and Z: "rows_ok G I Z" and I: "I \<subseteq> live G"
  obtains Z' allocs' where "dj_row mem G i Z allocs = Some (Inr (True, Z', allocs'))" "rows_ok G (insert i I) Z'"
proof -
  let ?n = "length (cells (Vertices G))"
  have len: "length (dist (vars Z)) = ?n" "length (previous (vars Z)) = length (dist (vars Z))" "length (route Z) = ?n"
    "length (distances Z) = ?n" "length (routes Z) = ?n" "length (routesLstMap Z) = ?n"
    "\<forall>k < ?n. length (distances Z ! k) = ?n \<and> length (routes Z ! k) = ?n"
    and rows: "\<forall>i \<in> I. row_ok G i (distances Z ! unat i) (routes Z ! unat i)"
    using Z by (simp_all add: rows_ok_def Let_def)
  have range: "unat i < ?n" using live_in_array(2) [OF A, of i] i(1) by (simp add: live_ids_live [OF A])
  obtain S allocs1 where S: "dj_source mem G i (vars Z) allocs = Inr (True, S, allocs1)" "dist_ok G i (live G) S"
    by (rule dj_source_effect [OF mem A i(1) len(1,2)])
  have "2 \<le> length (route Z)" using A len(3) by (simp add: array_ok_def)
  then obtain rt0 where rt0: "clear_size (route Z) = Inr rt0" "length rt0 = length (route Z)"
    by (rule clear_size_effect)
  have js: "set (live_ids G) \<subseteq> live G" "distinct (live_ids G)"
    using live_ids_live [OF A] sorted_live_ids [OF A] strict_sorted_iff [of "live_ids G"] by simp_all
  have l0: "length rt0 = ?n" using rt0(2) len(3) by simp
  obtain rt lst allocs2 where rt: "dj_routes mem i S (live_ids G) rt0 [] allocs1 = Some (Inr (True, rt, lst, allocs2))"
    "length rt = length rt0" "\<forall>j \<in> set (live_ids G). j \<noteq> i \<and> dist_of S j \<noteq> 0xffff \<longrightarrow> (i, rt ! unat j) \<in> edges G"
    using dj_routes_effect [OF mem A S(2) js l0, of "[]" allocs1] by blast
  let ?Z = "Z\<lparr>vars := S, route := rt, routesLstMap := (routesLstMap Z)[unat i := lst],
    routes := (routes Z)[unat i := copy_bytes ?n (routes Z ! unat i) rt],
    distances := (distances Z)[unat i := copy_bytes ?n (distances Z ! unat i) (dist S)]\<rparr>"
  have run: "dj_row mem G i Z allocs = Some (Inr (True, ?Z, allocs2))"
    using S(1) rt0(1) rt(1) range len by (simp add: dj_row_def store_def element_def Let_def)
  have drow: "length (distances Z ! unat i) = ?n" "length (routes Z ! unat i) = ?n" using len(7) range by simp_all
  have row: "row_ok G i (copy_bytes ?n (distances Z ! unat i) (dist S)) (copy_bytes ?n (routes Z ! unat i) rt)"
    by (rule dist_ok_row [OF A S(2) i(1) _ drow]) (use rt(3) live_ids_live [OF A] in blast)
  have "row_ok G j (distances ?Z ! unat j) (routes ?Z ! unat j)" if "j \<in> insert i I" for j
  proof (cases "j = i")
    case True
    then show ?thesis using row range len by simp
  next
    case False
    then have "unat i \<noteq> unat j" by (simp add: word_unat_eq_iff)
    then show ?thesis using False that rows by simp
  qed
  moreover have "length (dist S) = ?n" "length (previous S) = ?n" using S(2) by (simp_all add: dist_ok_def)
  moreover have "length (distances ?Z ! k) = ?n \<and> length (routes ?Z ! k) = ?n" if "k < ?n" for k
    using len that drow by (cases "k = unat i") simp_all
  ultimately have "rows_ok G (insert i I) ?Z"
    using len(4-6) rt(2) l0 unfolding rows_ok_def Let_def by simp
  with run show thesis by (rule that)
qed

lemma dj_rows_effect:
  assumes mem: "\<forall>n. mem n" and A: "array_ok G"
  shows "live_ids G = ks @ vs \<Longrightarrow> rows_ok G (set ks) Z \<Longrightarrow>
    \<exists>Z' allocs'. dj_rows mem G vs Z allocs = Some (Inr (True, Z', allocs')) \<and> rows_ok G (live G) Z'"
proof (induction "vs" arbitrary: ks Z allocs)
  case Nil
  then show ?case using live_ids_live [OF A] by simp
next
  case (Cons i vs)
  have i: "i \<in> live G" "i \<notin> set ks" "set ks \<subseteq> live G"
    using live_ids_live [OF A] sorted_live_ids [OF A] Cons.prems(1) by (auto simp: sorted_wrt_append)
  obtain Z1 allocs1 where r: "dj_row mem G i Z allocs = Some (Inr (True, Z1, allocs1))" "rows_ok G (insert i (set ks)) Z1"
    by (rule dj_row_effect [OF mem A i(1,2) Cons.prems(2) i(3)])
  have "rows_ok G (set (ks @ [i])) Z1" "live_ids G = (ks @ [i]) @ vs" using r(2) Cons.prems(1) by simp_all
  then show ?case using Cons.IH [of "ks @ [i]" Z1 allocs1] r(1) by simp
qed


end
