(* ===== verification/CreditPathsSelf.thy ===== *)
theory CreditPathsSelf
  imports CreditPathsWalk
begin

text \<open>
  The distance of a vertex to itself: the length of the shortest cycle the search sees.
\<close>

section \<open>One vertex\<close>

text \<open>The distances back to \<open>i\<close> from the vertices after it.\<close>

definition way_back :: "u32 list list \<Rightarrow> u32 \<Rightarrow> u32 \<Rightarrow> nat" where
  "way_back dss i j = unat (dss ! unat j ! unat i)"

definition best_of :: "u32 set \<Rightarrow> u32 list list \<Rightarrow> u32 \<Rightarrow> u32 \<Rightarrow> u32 \<Rightarrow> bool" where
  "best_of T dss i d via \<longleftrightarrow> unat d \<le> 0xffff \<and>
     (\<forall>j \<in> T. way_back dss i j \<noteq> 0xffff \<longrightarrow> unat d \<le> way_back dss i j + 1) \<and>
     (d \<noteq> DIJKSTRA_INFINITY \<longrightarrow> via \<in> T \<and> way_back dss i via \<noteq> 0xffff \<and> unat d = way_back dss i via + 1)"

lemma best_of_none: "best_of {} dss i DIJKSTRA_INFINITY via"
  by (simp add: best_of_def DIJKSTRA_INFINITY_def)

lemma best_of_insert:
  assumes b: "best_of T dss i d via" and x: "x = dss ! unat j ! unat i" "unat x \<le> 0xffff"
  shows "best_of (insert j T) dss i (if x < d then x + 1 else d) (if x < d then j else via)"
proof (cases "x < d")
  case True
  have bx: "way_back dss i j = unat x" by (simp add: way_back_def x(1))
  have d: "unat x < unat d" "unat d \<le> 0xffff" using True b by (simp_all add: word_less_nat_alt best_of_def)
  then have s: "unat (x + 1) = unat x + 1" by (subst unat_add_lem [THEN iffD1]) simp_all
  have "unat x + 1 \<le> way_back dss i y + 1" if "y \<in> insert j T" "way_back dss i y \<noteq> 0xffff" for y
    using that b d bx unfolding best_of_def by fastforce
  then show ?thesis using True d s bx by (auto simp: best_of_def)
next
  case False
  then have "unat d \<le> unat x" by (simp add: word_less_nat_alt)
  then show ?thesis using False b by (auto simp: best_of_def way_back_def x(1))
qed

lemma self_cells_effect:
  assumes G: "graph_ok G" and v: "vertex_at G i = Inr v" "vertex_ok G i v" and i: "unat i < length (cells (Vertices G))"
    and rows: "length dss = length (cells (Vertices G))" "\<forall>k < length dss. length (dss ! k) = length dss"
    and le: "\<forall>j. (i, j) \<in> edges G \<longrightarrow> way_back dss i j \<le> 0xffff"
  shows "c + n = unat (al_count (Outbound v)) \<Longrightarrow> best_of (sinks G v c) dss i d via \<Longrightarrow>
    \<exists>d' via'. self_cells G dss i c n d via = Inr (d', via') \<and> best_of {w. (i, w) \<in> edges G} dss i d' via'"
proof (induction n arbitrary: c d via)
  case 0
  then show ?case using sinks_all [OF v(2)] by simp
next
  case (Suc n)
  let ?a = "cells (al_cells (Outbound v)) ! c"
  have side: "arcs_at Out v = Outbound v" by (simp add: arcs_at_def)
  have c: "c < unat (al_count (arcs_at Out v))" using Suc.prems(1) by (simp add: side)
  have cell: "element (cells (al_cells (Outbound v))) c = Inr ?a"
    using arcs_at_cells(1) [OF v(2) c] by (simp add: element_def side)
  have nxt: "Suc c + n = unat (al_count (Outbound v))" using Suc.prems(1) by simp
  show ?case
  proof (cases "0 \<le> ?a")
    case False
    then have "sinks G v (Suc c) = sinks G v c" by (simp add: sinks_Suc)
    then show ?thesis using Suc.IH [OF nxt] Suc.prems(2) False v(1) cell by simp
  next
    case True
    then have "?a \<in> arcs_with Out G i" using arcs_at_cells(2) [OF v(2) c] by (simp add: side)
    then obtain x where x: "CLGraphFindIdArc G (word_of_int ?a) = Some x" "arc_at G ?a = Some x" "Source x = i"
      using arc_by_id by (metis arc_end_def side.simps(3))
    have ok: "arcs_ok G" using G by (simp add: graph_ok_def)
    note xs = arc_at_Some [OF ok x(2)]
    obtain u where u: "unat (Sink x) < length (cells (Vertices G))" "cells (Vertices G) ! unat (Sink x) = Some u"
      "vertex_ok G (Sink x) u" using graph_cell [OF G xs(7)] by metis
    have vid: "v_Id u = Sink x" using u(3) by (simp add: vertex_ok_def)
    have "(i, Sink x) \<in> edges G" using x(2,3) unfolding edges_def by blast
    then have "unat (dss ! unat (Sink x) ! unat i) \<le> 0xffff" using le by (simp add: way_back_def)
    note best = best_of_insert [OF Suc.prems(2) refl this]
    have "sinks G v (Suc c) = insert (Sink x) (sinks G v c)" using True x(2) by (auto simp: sinks_Suc)
    note IH = Suc.IH [OF nxt, unfolded this, OF best]
    have "element (cells (Vertices G)) (unat (Sink x)) = Inr (Some u)" "element dss (unat (Sink x)) = Inr (dss ! unat (Sink x))"
      "element (dss ! unat (Sink x)) (unat i) = Inr (dss ! unat (Sink x) ! unat i)"
      using u rows i by (simp_all add: element_def)
    then show ?thesis using IH True x(1) v(1) cell vid by (auto split: if_splits)
  qed
qed

section \<open>All vertices\<close>

definition square :: "nat \<Rightarrow> u32 list list \<Rightarrow> bool" where
  "square n rows \<longleftrightarrow> length rows = n \<and> (\<forall>k < n. length (rows ! k) = n)"

lemma store_cell_effect:
  assumes "square n rows" "i < n"
  obtains rows' where "store_cell rows i x = Inr rows'" "square n rows'"
    "\<forall>k l. k < n \<longrightarrow> l < n \<longrightarrow> rows' ! k ! l = (if k = i \<and> l = i then x else rows ! k ! l)"
proof -
  let ?rows = "rows[i := (rows ! i)[i := x]]"
  have "store_cell rows i x = Inr ?rows"
    using assms by (simp add: store_cell_def element_def store_def square_def)
  moreover have "length (?rows ! k) = n" if "k < n" for k
    using assms that by (cases "k = i") (simp_all add: square_def)
  moreover have "?rows ! k ! l = (if k = i \<and> l = i then x else rows ! k ! l)" if "k < n" "l < n" for k l
    using assms that by (cases "k = i") (auto simp: square_def nth_list_update)
  ultimately show thesis using that assms(1) by (simp add: square_def)
qed

definition self_ok :: "clGraphData_t \<Rightarrow> u32 list list \<Rightarrow> u32 \<Rightarrow> u32 \<Rightarrow> bool" where
  "self_ok G dss i x \<longleftrightarrow> (\<exists>d via. best_of {w. (i, w) \<in> edges G} dss i d via \<and>
     x = (if d = DIJKSTRA_INFINITY then dss ! unat i ! unat i else d))"

lemma best_of_cong:
  assumes "\<And>w. w \<in> T \<Longrightarrow> way_back dss i w = way_back dss' i w"
  shows "best_of T dss i d via = best_of T dss' i d via"
  using assms by (simp add: best_of_def cong: ball_cong conj_cong)

lemma self_distances_effect:
  assumes A: "array_ok G"
  shows "set js \<subseteq> live G \<Longrightarrow> distinct js \<Longrightarrow> square (length (cells (Vertices G))) dss \<Longrightarrow>
    square (length (cells (Vertices G))) rss \<Longrightarrow> \<forall>i j. (i, j) \<in> edges G \<longrightarrow> way_back dss i j \<le> 0xffff \<Longrightarrow>
    \<exists>dss' rss'. self_distances G js (dss, rss) = Inr (dss', rss') \<and> square (length (cells (Vertices G))) dss' \<and>
      (\<forall>k \<in> live G. \<forall>l \<in> live G. (k \<noteq> l \<or> k \<notin> set js) \<longrightarrow> dss' ! unat k ! unat l = dss ! unat k ! unat l) \<and>
      (\<forall>i \<in> set js. self_ok G dss i (dss' ! unat i ! unat i))"
proof (induction js arbitrary: dss rss)
  case Nil
  then show ?case by simp
next
  case (Cons i js)
  let ?n = "length (cells (Vertices G))"
  have G: "graph_ok G" using A by (simp add: array_ok_def)
  have il: "i \<in> live G" "i \<in> set (live_ids G)" using Cons.prems(1) live_ids_live [OF A] by simp_all
  have irange: "unat i < ?n" by (rule live_in_array(2) [OF A il(2)])
  have range: "unat k < ?n" if "k \<in> live G" for k using live_in_array(2) [OF A] that live_ids_live [OF A] by simp
  obtain v where v: "vertex_at G i = Inr v" "vertex_ok G i v" by (rule graph_vertex [OF G live_in_array(1) [OF A il(2)]])
  have rows: "length dss = ?n" "\<forall>k < length dss. length (dss ! k) = length dss"
    using Cons.prems(3) by (simp_all add: square_def)
  have le: "\<forall>j. (i, j) \<in> edges G \<longrightarrow> way_back dss i j \<le> 0xffff" using Cons.prems(5) by blast
  have zero: "0 + unat (al_count (Outbound v)) = unat (al_count (Outbound v))"
    "best_of (sinks G v 0) dss i DIJKSTRA_INFINITY 0" using best_of_none by (simp_all add: sinks_def)
  obtain d via where d: "self_cells G dss i 0 (unat (al_count (Outbound v))) DIJKSTRA_INFINITY 0 = Inr (d, via)"
    "best_of {w. (i, w) \<in> edges G} dss i d via"
    using self_cells_effect [OF G v irange rows le zero] by blast
  have rest: "set js \<subseteq> live G" "distinct js" "i \<notin> set js" using Cons.prems(1,2) by simp_all
  have self: "self_ok G dss i (if d = DIJKSTRA_INFINITY then dss ! unat i ! unat i else d)"
    using d(2) by (auto simp: self_ok_def)
  obtain dss1 rss1 where s: "self_distances G (i # js) (dss, rss) = self_distances G js (dss1, rss1)"
    "square ?n dss1" "square ?n rss1"
    "\<forall>k l. k < ?n \<longrightarrow> l < ?n \<longrightarrow> dss1 ! k ! l =
       (if k = unat i \<and> l = unat i then (if d = DIJKSTRA_INFINITY then dss ! k ! l else d) else dss ! k ! l)"
  proof (cases "d = DIJKSTRA_INFINITY")
    case True
    then show thesis using that [of dss rss] v(1) d(1) Cons.prems(3,4) by simp
  next
    case False
    obtain dss1 where 1: "store_cell dss (unat i) d = Inr dss1" "square ?n dss1"
      "\<forall>k l. k < ?n \<longrightarrow> l < ?n \<longrightarrow> dss1 ! k ! l = (if k = unat i \<and> l = unat i then d else dss ! k ! l)"
      by (rule store_cell_effect [OF Cons.prems(3) irange])
    obtain rss1 where 2: "store_cell rss (unat i) via = Inr rss1" "square ?n rss1"
      by (rule store_cell_effect [OF Cons.prems(4) irange])
    show thesis using that [of dss1 rss1] 1 2 v(1) d(1) False by simp
  qed
  have cell: "dss1 ! unat k ! unat l = (if k = i \<and> l = i then (if d = DIJKSTRA_INFINITY then dss ! unat i ! unat i else d)
      else dss ! unat k ! unat l)" if "k \<in> live G" "l \<in> live G" for k l
    using s(4) [rule_format, OF range [OF that(1)] range [OF that(2)]] by (auto simp: word_unat_eq_iff)
  have ok: "arcs_ok G" using G by (simp add: graph_ok_def)
  have ends: "j \<in> live G" "w \<in> live G" "j \<noteq> w" if "(j, w) \<in> edges G" for j w
    using that edge_vertices(3) [OF ok that] by (auto simp: live_def neighbours_def)
  have same: "way_back dss1 j w = way_back dss j w" if "(j, w) \<in> edges G" for j w
    using cell [OF ends(2) [OF that] ends(1) [OF that]] ends(3) [OF that] by (auto simp: way_back_def)
  have "\<forall>i j. (i, j) \<in> edges G \<longrightarrow> way_back dss1 i j \<le> 0xffff" using Cons.prems(5) same by simp
  then obtain dss' rss' where r: "self_distances G js (dss1, rss1) = Inr (dss', rss')" "square ?n dss'"
    "\<forall>k \<in> live G. \<forall>l \<in> live G. (k \<noteq> l \<or> k \<notin> set js) \<longrightarrow> dss' ! unat k ! unat l = dss1 ! unat k ! unat l"
    "\<forall>i \<in> set js. self_ok G dss1 i (dss' ! unat i ! unat i)"
    using Cons.IH [OF rest(1,2) s(2,3)] by blast
  have other: "self_ok G dss1 j = self_ok G dss j" if "j \<in> set js" for j
  proof -
    have "best_of {w. (j, w) \<in> edges G} dss1 j d via = best_of {w. (j, w) \<in> edges G} dss j d via" for d via
      by (rule best_of_cong) (simp add: same)
    moreover have "dss1 ! unat j ! unat j = dss ! unat j ! unat j"
      using cell [of j j] that rest by auto
    ultimately show ?thesis by (simp add: self_ok_def fun_eq_iff)
  qed
  have "dss' ! unat k ! unat l = dss ! unat k ! unat l"
    if "k \<in> live G" "l \<in> live G" "k \<noteq> l \<or> k \<notin> set (i # js)" for k l
    using r(3) cell [OF that(1,2)] that by auto
  moreover have "self_ok G dss j (dss' ! unat j ! unat j)" if "j \<in> set (i # js)" for j
  proof (cases "j = i")
    case True
    then show ?thesis using r(3) il(1) rest(3) cell [OF il(1) il(1)] self by simp
  next
    case False
    then show ?thesis using that r(4) other by simp
  qed
  ultimately show ?case using s(1) r(1,2) by simp
qed


section \<open>The search\<close>

lemma alloc_rows_effect:
  "\<forall>n. mem n \<Longrightarrow> alloc_rows mem k n rows allocs = (Some (rows @ replicate k (replicate n 0)), allocs + k)"
proof (induction k arbitrary: rows allocs)
  case (Suc k)
  then show ?case by (simp add: replicate_append_same [symmetric])
qed simp

lemma dj_alloc_effect:
  assumes "\<forall>n. mem n" "n = length (cells (Vertices G))"
  obtains Z allocs' where "dj_alloc mem n allocs = (Some Z, allocs')" "rows_ok G {} Z"
  using assms by (simp add: dj_alloc_def CLDijkstraAllocArray_def alloc_rows_effect rows_ok_def)

definition shortest :: "(nat \<Rightarrow> bool) \<Rightarrow> nat" where
  "shortest P = (if \<exists>k. P k then (LEAST k. P k) else 0xffff)"

text \<open>A cycle of \<open>k + 1\<close> arcs through \<open>i\<close> that ascends from the vertex after \<open>i\<close> on.\<close>

definition closes :: "(u32 \<times> u32) set \<Rightarrow> u32 \<Rightarrow> nat \<Rightarrow> bool" where
  "closes E i k \<longleftrightarrow> (\<exists>j p. (i, j) \<in> E \<and> ascending E j p k i)"

lemma ascending_bound: "ascending E i p k w \<Longrightarrow> k \<le> unat p + 1"
  by (induction rule: ascending.induct) (auto simp: word_less_nat_alt)

lemma ascending_small:
  assumes "graph_ok G" "ascending (edges G) i p k w"
  shows "k \<le> unat (NumVertices G)"
proof -
  have "p < NumVertices G"
    using ascending_edge [OF assms(2)] edge_vertices(1) [of G p w] assms(1) by (simp add: graph_ok_def)
  then show ?thesis using ascending_bound [OF assms(2)] by (simp add: word_less_nat_alt)
qed

lemma row_shortest:
  assumes A: "array_ok G" and small: "4 * unat (NumVertices G) \<le> length (cells (Vertices G))" "unat (NumVertices G) < 0xffff"
    and R: "row_ok G i drow rrow" and w: "w \<in> live G" "w \<noteq> i"
  shows "unat (drow ! unat w) = shortest (\<lambda>k. \<exists>p. ascending (edges G) i p k w)"
proof -
  let ?d = "unat (drow ! unat w)" and ?P = "\<lambda>k. \<exists>p. ascending (edges G) i p k w"
  have G: "graph_ok G" using A by (simp add: array_ok_def)
  have "w < NumVertices G" using live_in_array(1) [OF A] live_ids_live [OF A] w(1) by simp
  then have "4 * (unat w + 1) \<le> length (cells (Vertices G))" using small(1) by (simp add: word_less_nat_alt)
  then have r: "?d \<le> 0xffff" "\<And>k. ?P k \<Longrightarrow> ?d \<le> k" "?d \<noteq> 0xffff \<Longrightarrow> ?P ?d"
    using R w unfolding row_ok_def by (auto simp: DIJKSTRA_INFINITY_def word_unat_eq_iff)
  show ?thesis
  proof (cases "\<exists>k. ?P k")
    case True
    then obtain k where k: "?P k" by blast
    then have "?d \<noteq> 0xffff" using r(2) [OF k] ascending_small [OF G] small(2) by fastforce
    then have "(LEAST k. ?P k) = ?d" using r(2,3) by (intro Least_equality) blast+
    then show ?thesis using True by (simp add: shortest_def)
  next
    case False
    then show ?thesis using r(3) by (auto simp: shortest_def)
  qed
qed

lemma self_shortest:
  assumes A: "array_ok G" and small: "unat (NumVertices G) < 0xfffe"
    and B: "\<And>j. (i, j) \<in> edges G \<Longrightarrow> way_back dss i j = shortest (\<lambda>k. \<exists>p. ascending (edges G) j p k i)"
    and zero: "dss ! unat i ! unat i = 0" and S: "self_ok G dss i x"
  shows "unat x = (if \<exists>k. closes (edges G) i k then Suc (LEAST k. closes (edges G) i k) else 0)"
proof -
  have G: "graph_ok G" using A by (simp add: array_ok_def)
  obtain d via where b: "best_of {w. (i, w) \<in> edges G} dss i d via"
    and x: "x = (if d = DIJKSTRA_INFINITY then 0 else d)" using S zero by (auto simp: self_ok_def)
  have via: "closes (edges G) i (way_back dss i via) \<and> unat d = way_back dss i via + 1" if "d \<noteq> DIJKSTRA_INFINITY"
  proof -
    have e: "(i, via) \<in> edges G" "way_back dss i via \<noteq> 0xffff" "unat d = way_back dss i via + 1"
      using b that by (auto simp: best_of_def)
    then have "\<exists>k p. ascending (edges G) via p k i" using B [OF e(1)] by (auto simp: shortest_def split: if_splits)
    then have "\<exists>p. ascending (edges G) via p (way_back dss i via) i"
      using B [OF e(1)] LeastI_ex [of "\<lambda>k. \<exists>p. ascending (edges G) via p k i"] by (simp add: shortest_def)
    then show ?thesis using e by (auto simp: closes_def)
  qed
  have le: "unat d \<le> k + 1" if c: "closes (edges G) i k" for k
  proof -
    obtain j p where j: "(i, j) \<in> edges G" "ascending (edges G) j p k i" using c by (auto simp: closes_def)
    then have "way_back dss i j \<le> k"
      using B [OF j(1)] Least_le [of "\<lambda>k. \<exists>p. ascending (edges G) j p k i" k] by (auto simp: shortest_def)
    moreover have "k < 0xffff" using ascending_small [OF G j(2)] small by simp
    ultimately show ?thesis using b j(1) unfolding best_of_def by fastforce
  qed
  show ?thesis
  proof (cases "\<exists>k. closes (edges G) i k")
    case True
    then obtain k where k: "closes (edges G) i k" by blast
    then have "k \<le> unat (NumVertices G)" using ascending_small [OF G] by (auto simp: closes_def)
    then have "unat d \<noteq> 0xffff" using le [OF k] small by simp
    then have ne: "d \<noteq> DIJKSTRA_INFINITY" by (auto simp: DIJKSTRA_INFINITY_def)
    have "(LEAST k. closes (edges G) i k) = way_back dss i via"
      using via [OF ne] le by (intro Least_equality) fastforce+
    then show ?thesis using True ne x via [OF ne] by simp
  next
    case False
    then have "d = DIJKSTRA_INFINITY" using via by blast
    then show ?thesis using False x by simp
  qed
qed


lemma search_effect:
  assumes mem: "\<forall>n. mem n" and A: "array_ok G"
    and small: "4 * unat (NumVertices G) \<le> length (cells (Vertices G))" "unat (NumVertices G) < 0xfffe"
  obtains dss rss maps allocs' where
    "dj_search mem G allocs = Some (Inr (FSUCCESS, Some (dss, rss, maps), allocs'))"
    "\<forall>i \<in> live G. \<forall>w \<in> live G. w \<noteq> i \<longrightarrow>
       unat (dss ! unat i ! unat w) = shortest (\<lambda>k. \<exists>p. ascending (edges G) i p k w)"
    "\<forall>i \<in> live G. unat (dss ! unat i ! unat i) =
       (if \<exists>k. closes (edges G) i k then Suc (LEAST k. closes (edges G) i k) else 0)"
proof -
  let ?n = "length (cells (Vertices G))"
  obtain Z allocs0 where Z: "dj_alloc mem ?n allocs = (Some Z, allocs0)" "rows_ok G {} Z"
    by (rule dj_alloc_effect [OF mem refl])
  obtain Z1 allocs1 where r: "dj_rows mem G (live_ids G) Z allocs0 = Some (Inr (True, Z1, allocs1))" "rows_ok G (live G) Z1"
    using dj_rows_effect [OF mem A, of "[]" "live_ids G" Z allocs0] Z(2) by auto
  have rows: "row_ok G i (distances Z1 ! unat i) (routes Z1 ! unat i)" if "i \<in> live G" for i
    using r(2) that by (simp add: rows_ok_def)
  have sq: "square ?n (distances Z1)" "square ?n (routes Z1)"
    using r(2) by (simp_all add: rows_ok_def Let_def square_def)
  have small': "unat (NumVertices G) < 0xffff" using small(2) by simp
  note off = row_shortest [OF A small(1) small' rows]
  have G: "graph_ok G" using A by (simp add: array_ok_def)
  then have ok: "arcs_ok G" by (simp add: graph_ok_def)
  have ends: "j \<in> live G" "w \<in> live G" "j \<noteq> w" if "(j, w) \<in> edges G" for j w
    using that edge_vertices(3) [OF ok that] by (auto simp: live_def neighbours_def)
  have wb: "way_back (distances Z1) i j = shortest (\<lambda>k. \<exists>p. ascending (edges G) j p k i)" if "(i, j) \<in> edges G" for i j
    using off [OF ends(2) [OF that] ends(1) [OF that] ends(3) [OF that]] by (simp add: way_back_def)
  have le: "shortest P \<le> 0xffff" if "\<And>k. P k \<Longrightarrow> k \<le> 0xffff" for P
    using LeastI_ex [of P] that by (auto simp: shortest_def)
  have "way_back (distances Z1) i j \<le> 0xffff" if "(i, j) \<in> edges G" for i j
    unfolding wb [OF that] by (rule le) (use ascending_small [OF G] small' in fastforce)
  then have bound: "\<forall>i j. (i, j) \<in> edges G \<longrightarrow> way_back (distances Z1) i j \<le> 0xffff" by blast
  have js: "set (live_ids G) \<subseteq> live G" "distinct (live_ids G)"
    using live_ids_live [OF A] sorted_live_ids [OF A] strict_sorted_iff [of "live_ids G"] by simp_all
  obtain dss rss where s: "self_distances G (live_ids G) (distances Z1, routes Z1) = Inr (dss, rss)"
    "\<forall>k \<in> live G. \<forall>l \<in> live G. (k \<noteq> l \<or> k \<notin> set (live_ids G)) \<longrightarrow>
       dss ! unat k ! unat l = distances Z1 ! unat k ! unat l"
    "\<forall>i \<in> set (live_ids G). self_ok G (distances Z1) i (dss ! unat i ! unat i)"
    using self_distances_effect [OF A js sq bound] by blast
  have run: "dj_search mem G allocs = Some (Inr (FSUCCESS, Some (dss, rss, routesLstMap Z1), allocs1))"
    using Z(1) r(1) s(1) by (simp add: dj_search_def Let_def)
  moreover have "unat (dss ! unat i ! unat i) =
      (if \<exists>k. closes (edges G) i k then Suc (LEAST k. closes (edges G) i k) else 0)" if i: "i \<in> live G" for i
  proof (rule self_shortest [OF A small(2) wb])
    have "4 * (unat i + 1) \<le> ?n"
      using live_in_array(1) [OF A, of i] i small(1) by (simp add: live_ids_live [OF A] word_less_nat_alt)
    then show "distances Z1 ! unat i ! unat i = 0" using rows [OF i] i by (simp add: row_ok_def)
    show "self_ok G (distances Z1) i (dss ! unat i ! unat i)" using s(3) i live_ids_live [OF A] by simp
  qed
  moreover have "unat (dss ! unat i ! unat w) = shortest (\<lambda>k. \<exists>p. ascending (edges G) i p k w)"
    if "i \<in> live G" "w \<in> live G" "w \<noteq> i" for i w
    using s(2) that off [OF that] by simp
  ultimately show thesis using that by blast
qed


end
