(* ===== verification/CreditPathsProps.thy ===== *)
theory CreditPathsProps
  imports CreditPathsSelf
begin

text \<open>
  The search for the shortest cycles of a dependency graph: which cycles it finds and which it
  misses.
\<close>

section \<open>Every small graph can be built\<close>

lemma add_vertices:
  "n < 2 ^ 32 - 1 \<Longrightarrow> \<exists>G. built_ok G \<and> unat (NumVertices G) = n \<and> edges G = {} \<and>
     connections G = of_nat ` {..<n}"
proof (induction n)
  case 0
  show ?case using built_ok_zero edges_zero connections_zero
    by (intro exI [of _ zero_graph]) (simp add: zero_graph_def)
next
  case (Suc n)
  then obtain G where G: "built_ok G" "unat (NumVertices G) = n" "edges G = {}" "connections G = of_nat ` {..<n}"
    by auto
  have room: "unat (NumVertices G) < 2 ^ 32 - 1" using Suc.prems G(2) by simp
  have new: "CLGraphFindConnVertex G (of_nat n) = None"
  proof (rule ccontr)
    assume "CLGraphFindConnVertex G (of_nat n) \<noteq> None"
    then obtain i where "CLGraphFindConnVertex G (of_nat n) = Some i" by auto
    then have "of_nat n \<in> connections G"
      using G(1) unfolding built_ok_def graph_ok_def conns_ok_def connections_iff by blast
    then obtain m where m: "m < n" "(of_nat n :: conn) = of_nat m" by (auto simp: G(4))
    have "unat (of_nat n :: conn) = n" "unat (of_nat m :: conn) = m"
      using Suc.prems m(1) by (simp_all add: unat_of_nat take_bit_nat_eq_self)
    then show False using m by simp
  qed
  have all_true: "\<forall>k. (\<lambda>_ :: nat. True) k" by simp
  obtain i G' allocs' where a: "built_ok G'" "conn_at G' i = Some (of_nat n)" "Arcs G' = Arcs G"
    "connections G' = insert (of_nat n) (connections G)"
    by (rule add_vertex_effect [OF G(1) all_true room, of "of_nat n" 0])
  have "arc_at G' = arc_at G" using a(3) by (simp add: arc_at_def fun_eq_iff)
  then have "edges G' = {}" using G(3) by (simp add: edges_def)
  moreover have "unat (NumVertices G') = Suc n"
  proof -
    have "of_nat n \<notin> connections G"
      using new G(1) unfolding built_ok_def graph_ok_def conns_ok_def connections_iff by (metis option.distinct(1))
    moreover have "finite (connections G)" by (simp add: G(4))
    ultimately have "card (connections G') = Suc (card (connections G))" using a(4) by simp
    then show ?thesis using card_connections [of G] card_connections [of G'] G(1,2) a(1) by (simp add: built_ok_def)
  qed
  moreover have "connections G' = of_nat ` {..<Suc n}" using a(4) G(4) by (simp add: lessThan_Suc)
  ultimately show ?case using a(1) by blast
qed

lemma add_arcs:
  "built_ok G \<Longrightarrow> \<forall>(s, t) \<in> set es. s \<noteq> t \<and> s < NumVertices G \<and> t < NumVertices G \<Longrightarrow>
   card (edges G) + length es < 2 ^ 31 - 1 \<Longrightarrow>
   \<exists>G'. built_ok G' \<and> NumVertices G' = NumVertices G \<and> edges G' = edges G \<union> set es"
proof (induction es arbitrary: G)
  case (Cons e es)
  obtain s t where e: "e = (s, t)" by (cases e)
  have st: "s \<noteq> t" "s < NumVertices G" "t < NumVertices G" using Cons.prems(2) e by auto
  have G: "graph_ok G" "arcs_ok G" using Cons.prems(1) by (simp_all add: built_ok_def graph_ok_def)
  have room: "length (Arcs G) < 2 ^ 31 - 1" using Cons.prems(3) card_edges [OF G(2)] by simp
  have all_true: "\<forall>k. (\<lambda>_ :: nat. True) k" by simp
  obtain G1 where 1: "built_ok G1" "conn_at G1 = conn_at G" "edges G1 = insert (s, t) (edges G)"
    by (rule add_arc_effect [OF Cons.prems(1) all_true st room, of 0])
  have "card (connections G1) = card (connections G)" using 1(2) by (simp add: connections_def)
  then have n: "NumVertices G1 = NumVertices G"
    using card_connections [of G1] card_connections [OF G(1)] 1(1) by (simp add: built_ok_def word_unat_eq_iff)
  have "card (edges G1) \<le> Suc (card (edges G))" using 1(3) by (simp add: card_insert_le_m1 card_insert_if finite_edges [OF G(2)])
  then have "card (edges G1) + length es < 2 ^ 31 - 1" using Cons.prems(3) by simp
  then obtain G' where "built_ok G'" "NumVertices G' = NumVertices G1" "edges G' = edges G1 \<union> set es"
    using Cons.IH [OF 1(1)] Cons.prems(2) n by auto
  then show ?case using n 1(3) e by auto
qed auto

lemma some_graph:
  assumes "n < 2 ^ 32 - 1" "\<forall>(s, t) \<in> set es. s \<noteq> t \<and> unat s < n \<and> unat t < n" "length es < 2 ^ 31 - 1"
  obtains G where "built_ok G" "unat (NumVertices G) = n" "edges G = set es"
proof -
  obtain G where G: "built_ok G" "unat (NumVertices G) = n" "edges G = {}" using add_vertices [OF assms(1)] by blast
  have "\<forall>(s, t) \<in> set es. s \<noteq> t \<and> s < NumVertices G \<and> t < NumVertices G"
    using assms(2) G(2) by (auto simp: word_less_nat_alt)
  moreover have "card (edges G) + length es < 2 ^ 31 - 1" using assms(3) G(3) by simp
  ultimately obtain G' where "built_ok G'" "NumVertices G' = NumVertices G" "edges G' = edges G \<union> set es"
    using add_arcs [OF G(1)] by blast
  then show thesis using that G by simp
qed

lemma built_array:
  assumes "built_ok G" "edges G \<noteq> {}" "unat (NumVertices G) \<le> 250"
  shows "array_ok G" "4 * unat (NumVertices G) \<le> length (cells (Vertices G))"
proof -
  have G: "graph_ok G" "tail_ok G" using assms(1) by (simp_all add: built_ok_def)
  obtain s t where "(s, t) \<in> edges G" using assms(2) by auto
  then have "s < NumVertices G" using edge_vertices(1) G(1) by (simp add: graph_ok_def)
  then have "unat s < unat (NumVertices G)" by (simp add: word_less_nat_alt)
  with array_length [OF G(1)] have "0 < length (cells (Vertices G))" by linarith
  then have "1000 \<le> length (cells (Vertices G))" using G(2) by (auto simp: tail_ok_def cells_def)
  then show "array_ok G" "4 * unat (NumVertices G) \<le> length (cells (Vertices G))"
    using G assms(3) by (simp_all add: array_ok_def tail_ok_def)
qed

section \<open>What the search finds\<close>

text \<open>C14: The search for shortest cycles returns on every built graph of up to 250 vertices (whose rows
  are copied whole).  The distance between two vertices is the length of the shortest walk whose
  vertices before the last ascend, because vertices are taken by their numbers and not by their
  distances; the distance of a vertex to itself is the length of the shortest cycle that ascends
  from its second vertex on, and 0 when there is none.\<close>

theorem cycle_search_exact:
  assumes "built_ok G" "edges G \<noteq> {}" "unat (NumVertices G) \<le> 250" "\<forall>n. mem n"
  shows "\<exists>dss rss maps allocs'. dj_search mem G allocs = Some (Inr (FSUCCESS, Some (dss, rss, maps), allocs')) \<and>
    (\<forall>i \<in> live G. \<forall>w \<in> live G - {i}.
       unat (dss ! unat i ! unat w) = shortest (\<lambda>k. \<exists>p. ascending (edges G) i p k w)) \<and>
    (\<forall>i \<in> live G. unat (dss ! unat i ! unat i) =
       (if \<exists>k. closes (edges G) i k then Suc (LEAST k. closes (edges G) i k) else 0))"
proof -
  have small: "unat (NumVertices G) < 0xfffe" using assms(3) by simp
  obtain dss rss maps allocs' where
    "dj_search mem G allocs = Some (Inr (FSUCCESS, Some (dss, rss, maps), allocs'))"
    "\<forall>i \<in> live G. \<forall>w \<in> live G. w \<noteq> i \<longrightarrow>
       unat (dss ! unat i ! unat w) = shortest (\<lambda>k. \<exists>p. ascending (edges G) i p k w)"
    "\<forall>i \<in> live G. unat (dss ! unat i ! unat i) =
       (if \<exists>k. closes (edges G) i k then Suc (LEAST k. closes (edges G) i k) else 0)"
    by (rule search_effect [OF assms(4) built_array [OF assms(1-3)] small])
  then show ?thesis by auto
qed

text \<open>Two vertices that lead to each other: the cycle of two arcs is found.\<close>

theorem cycle_search_exact_witness:
  "\<exists>G dss rss maps allocs'. edges G = {(0, 1), (1, 0)} \<and>
     dj_search (\<lambda>_. True) G 0 = Some (Inr (FSUCCESS, Some (dss, rss, maps), allocs')) \<and>
     unat (dss ! 0 ! 0) = 2"
proof -
  obtain G where G: "built_ok G" "unat (NumVertices G) = 2" "edges G = set [(0, 1), (1, 0)]"
    by (rule some_graph [of 2 "[(0, 1), (1, 0)]"]) auto
  have live: "0 \<in> live G" using G(3) by (auto simp: live_def neighbours_def)
  have ne: "edges G \<noteq> {}" and n: "unat (NumVertices G) \<le> 250" and all_true: "\<forall>k. (\<lambda>_ :: nat. True) k"
    using G by simp_all
  obtain dss rss maps allocs' where s: "dj_search (\<lambda>_. True) G 0 = Some (Inr (FSUCCESS, Some (dss, rss, maps), allocs'))"
    "\<forall>i \<in> live G. unat (dss ! unat i ! unat i) =
       (if \<exists>k. closes (edges G) i k then Suc (LEAST k. closes (edges G) i k) else 0)"
    using cycle_search_exact [OF G(1) ne n all_true, of 0] by blast
  have "ascending (edges G) 1 1 1 0" by (rule first) (simp add: G(3))
  then have c: "closes (edges G) 0 1" using G(3) by (auto simp: closes_def)
  have "1 \<le> k" if "closes (edges G) 0 k" for k
    using that by (auto simp: closes_def elim: ascending.cases)
  then have "(LEAST k. closes (edges G) 0 k) = 1" using c by (intro Least_equality)
  then have two: "unat (dss ! 0 ! 0) = 2" using s(2) live c by fastforce
  have "edges G = {(0, 1), (1, 0)}" using G(3) by simp
  with s(1) two show ?thesis by blast
qed

section \<open>What it misses\<close>

lemma ring4_ascending:
  assumes "ascending {(0, 3), (3, 2), (2, 1), (1, 0)} j p k w"
  shows "(j, p, w) \<in> {(0, 0, 3), (0, 3, 2), (3, 3, 2), (2, 2, 1), (1, 1, 0)}"
  using assms by induction auto

lemma ring4_cyclic: "\<not> acyclic {(0 :: u32, 3 :: u32), (3, 2), (2, 1), (1, 0)}"
proof -
  have "(0, 0) \<in> {(0 :: u32, 3 :: u32), (3, 2), (2, 1), (1, 0)}\<^sup>+"
    by (rule trancl_into_trancl [of _ 1], rule trancl_into_trancl [of _ 2], rule trancl_into_trancl [of _ 3]) auto
  then show ?thesis by (auto simp: acyclic_def)
qed

text \<open>C15: On a ring of four connections numbered against its direction the search finds no cycle: all
  distances of a vertex to itself are 0, for which no cycle is printed, although the ring is one.\<close>

theorem cycle_search_misses_ring:
  assumes "built_ok G" "edges G = {(0, 3), (3, 2), (2, 1), (1, 0)}" "unat (NumVertices G) \<le> 250" "\<forall>n. mem n"
  shows "\<not> acyclic (edges G) \<and>
    (\<exists>dss rss maps allocs'. dj_search mem G allocs = Some (Inr (FSUCCESS, Some (dss, rss, maps), allocs')) \<and>
       (\<forall>i \<in> live G. dss ! unat i ! unat i = 0))"
proof -
  have ne: "edges G \<noteq> {}" and small: "unat (NumVertices G) < 0xfffe" using assms(2,3) by simp_all
  obtain dss rss maps allocs' where s: "dj_search mem G allocs = Some (Inr (FSUCCESS, Some (dss, rss, maps), allocs'))"
    "\<forall>i \<in> live G. unat (dss ! unat i ! unat i) =
       (if \<exists>k. closes (edges G) i k then Suc (LEAST k. closes (edges G) i k) else 0)"
    by (rule search_effect [OF assms(4) built_array [OF assms(1) ne assms(3)] small])
  have "\<not> closes (edges G) i k" for i k
  proof
    assume "closes (edges G) i k"
    then obtain j p where "(i, j) \<in> {(0, 3), (3, 2), (2, 1), (1, 0)}"
      "ascending {(0, 3), (3, 2), (2, 1), (1, 0)} j p k i" unfolding closes_def assms(2) by blast
    then have "(i, j) \<in> {(0, 3), (3, 2), (2, 1), (1, 0)}"
      "(j, p, i) \<in> {(0, 0, 3), (0, 3, 2), (3, 3, 2), (2, 2, 1), (1, 1, 0)}" using ring4_ascending by blast+
    then show False by (elim insertE emptyE; simp)
  qed
  then have "\<forall>i \<in> live G. dss ! unat i ! unat i = 0" using s(2) by (simp add: word_unat_eq_iff)
  then show ?thesis using s(1) ring4_cyclic assms(2) by metis
qed

theorem cycle_search_misses_ring_witness:
  "\<exists>G dss rss maps allocs'. edges G = {(0, 3), (3, 2), (2, 1), (1, 0)} \<and> \<not> acyclic (edges G) \<and>
     dj_search (\<lambda>_. True) G 0 = Some (Inr (FSUCCESS, Some (dss, rss, maps), allocs')) \<and>
     dss ! 0 ! 0 = 0 \<and> dss ! 1 ! 1 = 0 \<and> dss ! 2 ! 2 = 0 \<and> dss ! 3 ! 3 = 0"
proof -
  obtain G where G: "built_ok G" "unat (NumVertices G) = 4" "edges G = set [(0, 3), (3, 2), (2, 1), (1, 0)]"
    by (rule some_graph [of 4 "[(0, 3), (3, 2), (2, 1), (1, 0)]"]) auto
  have e: "edges G = {(0, 3), (3, 2), (2, 1), (1, 0)}" and n: "unat (NumVertices G) \<le> 250"
    and all_true: "\<forall>k. (\<lambda>_ :: nat. True) k" using G by simp_all
  have live: "0 \<in> live G" "1 \<in> live G" "2 \<in> live G" "3 \<in> live G"
    by (auto simp: live_def neighbours_def e)
  obtain dss rss maps allocs' where s: "\<not> acyclic (edges G)"
    "dj_search (\<lambda>_. True) G 0 = Some (Inr (FSUCCESS, Some (dss, rss, maps), allocs'))"
    "\<forall>i \<in> live G. dss ! unat i ! unat i = 0"
    using cycle_search_misses_ring [OF G(1) e n all_true, of 0] by blast
  have "dss ! 0 ! 0 = 0" "dss ! 1 ! 1 = 0" "dss ! 2 ! 2 = 0" "dss ! 3 ! 3 = 0"
    using s(3) live by (force, force, force, force)
  with e s(1,2) show ?thesis by blast
qed

end
