(* ===== verification/IMath.thy ===== *)
theory IMath
  imports Prelude
begin

text \<open>
  The logarithms of IbAccess/Common/Public/imath.c: \<open>FloorLog2\<close> smears the highest bit of its
  argument downwards and counts the bits below it, \<open>CeilLog2\<close> rounds up.  The lemmas show that
  they are the two integer logarithms, and what they return at zero.
\<close>

section \<open>The code\<close>

definition ones64 :: "u64 \<Rightarrow> u32" where
  "ones64 x0 =
    (let x1 = x0 - (drop_bit 1 x0 AND 0x5555555555555555);
         x2 = (drop_bit 2 x1 AND 0x3333333333333333) + (x1 AND 0x3333333333333333);
         x3 = (drop_bit 4 x2 + x2) AND 0x0f0f0f0f0f0f0f0f;
         x4 = x3 + drop_bit 8 x3;
         x5 = x4 + drop_bit 16 x4;
         x6 = x5 + drop_bit 32 x5
     in ucast (x6 AND 0x3f))"

definition FloorLog2 :: "u64 \<Rightarrow> u32" where
  "FloorLog2 x0 =
    (let x1 = x0 OR drop_bit 1 x0;
         x2 = x1 OR drop_bit 2 x1;
         x3 = x2 OR drop_bit 4 x2;
         x4 = x3 OR drop_bit 8 x3;
         x5 = x4 OR drop_bit 16 x4;
         x6 = x5 OR drop_bit 32 x5
     in ones64 (drop_bit 1 x6))"

definition CeilLog2 :: "u64 \<Rightarrow> u32" where
  "CeilLog2 val =
    (let floor2 = FloorLog2 val
     in if push_bit (unat floor2) 1 = val then floor2 else floor2 + 1)"

section \<open>Counting the bits of a mask\<close>

lemma ones64_masks: "\<forall>k \<in> set [0..<64]. ones64 (mask k) = of_nat k"
  by code_simp

lemma ones64_mask: "k < 64 \<Longrightarrow> ones64 (mask k) = of_nat k"
  using ones64_masks by simp

section \<open>Smearing the highest bit\<close>

definition smeared :: "nat \<Rightarrow> u64 \<Rightarrow> u64 \<Rightarrow> bool" where
  "smeared n x y \<longleftrightarrow> (\<forall>i. bit y i = (\<exists>j < n. bit x (i + j)))"

lemma smeared_1: "smeared 1 x x"
  by (simp add: smeared_def)

lemma smeared_double:
  assumes "smeared n x y"
  shows "smeared (n + n) x (y OR drop_bit n y)"
  unfolding smeared_def
proof
  fix i
  have "(\<exists>j < n. bit x (i + n + j)) \<longleftrightarrow> (\<exists>j < n + n. n \<le> j \<and> bit x (i + j))"
    by (metis (no_types, lifting) add.assoc add_less_cancel_left le_add1 le_iff_add)
  moreover have "(\<exists>j < n + n. bit x (i + j)) \<longleftrightarrow>
      (\<exists>j < n. bit x (i + j)) \<or> (\<exists>j < n + n. n \<le> j \<and> bit x (i + j))"
    by (meson linorder_not_less trans_less_add1)
  ultimately show "bit (y OR drop_bit n y) i = (\<exists>j < n + n. bit x (i + j))"
    using assms by (simp add: smeared_def bit_or_iff bit_drop_bit_eq add.commute)
qed

lemma top_bit:
  assumes "(x :: u64) \<noteq> 0"
  obtains k where "k < 64" "bit x k" "\<And>i. k < i \<Longrightarrow> \<not> bit x i"
proof -
  let ?S = "{i. bit x i}"
  have lt: "\<And>i. bit x i \<Longrightarrow> i < 64" by (auto dest: bit_imp_le_length)
  have fin: "finite ?S" by (rule finite_subset [of _ "{..<64}"]) (auto dest: lt)
  have "\<exists>i. bit x i" using assms by (auto simp: bit_eq_iff)
  then have "?S \<noteq> {}" by simp
  with fin have m: "Max ?S \<in> ?S" by (rule Max_in)
  have "\<not> bit x i" if "Max ?S < i" for i
    using fin that by (meson Max_ge linorder_not_less mem_Collect_eq)
  with m lt show ?thesis using that [of "Max ?S"] by blast
qed

lemma FloorLog2_smeared:
  obtains y where "smeared 64 x y" "FloorLog2 x = ones64 (drop_bit 1 y)"
proof -
  define x1 where "x1 = x OR drop_bit 1 x"
  define x2 where "x2 = x1 OR drop_bit 2 x1"
  define x3 where "x3 = x2 OR drop_bit 4 x2"
  define x4 where "x4 = x3 OR drop_bit 8 x3"
  define x5 where "x5 = x4 OR drop_bit 16 x4"
  define x6 where "x6 = x5 OR drop_bit 32 x5"
  note [simp] = nat_1_add_1
  have "smeared 2 x x1" using smeared_double [OF smeared_1] by (simp only: x1_def one_add_one)
  from smeared_double [OF this] have "smeared 4 x x2" by (simp add: x2_def)
  from smeared_double [OF this] have "smeared 8 x x3" by (simp add: x3_def)
  from smeared_double [OF this] have "smeared 16 x x4" by (simp add: x4_def)
  from smeared_double [OF this] have "smeared 32 x x5" by (simp add: x5_def)
  from smeared_double [OF this] have s: "smeared 64 x x6" by (simp add: x6_def)
  have "FloorLog2 x = ones64 (drop_bit 1 x6)"
    unfolding FloorLog2_def Let_def x6_def x5_def x4_def x3_def x2_def x1_def ..
  with s show ?thesis using that by blast
qed

lemma FloorLog2_top:
  assumes "k < 64" "bit x k" "\<And>i. k < i \<Longrightarrow> \<not> bit x i"
  shows "FloorLog2 x = of_nat k"
proof -
  obtain y where y: "smeared 64 x y" "FloorLog2 x = ones64 (drop_bit 1 y)"
    by (rule FloorLog2_smeared)
  have "bit y i \<longleftrightarrow> i \<le> k" for i
  proof
    assume "bit y i"
    with y(1) obtain j where "bit x (i + j)" by (auto simp: smeared_def)
    with assms(3) [of "i + j"] show "i \<le> k" by linarith
  next
    assume "i \<le> k"
    with assms(1,2) have "k - i < 64" "bit x (i + (k - i))" by simp_all
    with y(1) show "bit y i" unfolding smeared_def by blast
  qed
  then have "drop_bit 1 y = mask k"
    by (auto simp: bit_eq_iff bit_drop_bit_eq bit_mask_iff less_eq_Suc_le)
  with y(2) assms(1) show ?thesis by (simp add: ones64_mask)
qed

lemma top_bit_bounds:
  assumes "bit x k" "\<And>i. k < i \<Longrightarrow> \<not> bit x i"
  shows "2 ^ k \<le> unat (x :: u64)" "unat x < 2 ^ (k + 1)"
proof -
  have "take_bit (Suc k) x = x"
    unfolding bit_eq_iff bit_take_bit_iff using assms(2) by (metis less_Suc_eq_le linorder_not_less)
  then have "take_bit (Suc k) (unat x) = unat x" by (metis unsigned_take_bit_eq)
  then show "unat x < 2 ^ (k + 1)" by (simp add: take_bit_nat_eq_self_iff)
  have "bit (unat x) k" using assms(1) by (simp add: bit_unsigned_iff)
  then show "2 ^ k \<le> unat x"
    by (metis bit_iff_odd div_less even_zero linorder_not_less)
qed

lemma FloorLog2_bounds:
  assumes "x \<noteq> 0"
  shows "unat (FloorLog2 x) < 64"
    "2 ^ unat (FloorLog2 x) \<le> unat x" "unat x < 2 ^ (unat (FloorLog2 x) + 1)"
proof -
  obtain k where k: "k < 64" "bit x k" "\<And>i. k < i \<Longrightarrow> \<not> bit x i"
    using top_bit [OF assms] by blast
  then have e: "unat (FloorLog2 x) = k"
    by (simp add: FloorLog2_top unsigned_of_nat take_bit_nat_eq_self)
  show "unat (FloorLog2 x) < 64" using e k(1) by simp
  show "2 ^ unat (FloorLog2 x) \<le> unat x" "unat x < 2 ^ (unat (FloorLog2 x) + 1)"
    unfolding e using top_bit_bounds [OF k(2,3)] by blast+
qed

lemma FloorLog2_0: "FloorLog2 0 = 0"
  by code_simp

section \<open>The ceiling\<close>

lemma CeilLog2_0: "CeilLog2 0 = 1"
  by code_simp

lemma unat_power_64:
  assumes "k < 64"
  shows "unat (2 ^ k :: u64) = 2 ^ k"
proof -
  have "(2 :: nat) ^ k < 2 ^ LENGTH(64)"
    by (rule power_strict_increasing) (use assms in simp_all)
  from take_bit_nat_eq_self [OF this] have "unat (of_nat (2 ^ k) :: u64) = 2 ^ k"
    by (simp only: unsigned_of_nat of_nat_id)
  then show ?thesis by simp
qed

lemma unat_push_bit_1: "k < 64 \<Longrightarrow> unat (push_bit k 1 :: u64) = 2 ^ k"
  by (simp add: push_bit_eq_mult unat_power_64)

lemma CeilLog2_bounds:
  assumes "x \<noteq> 0"
  shows "unat (CeilLog2 x) \<le> 64" "unat x \<le> 2 ^ unat (CeilLog2 x)"
    "k < unat (CeilLog2 x) \<Longrightarrow> 2 ^ k < unat x"
proof -
  let ?k = "unat (FloorLog2 x)"
  note f = FloorLog2_bounds [OF assms]
  have eq: "push_bit ?k 1 = x \<longleftrightarrow> unat x = 2 ^ ?k"
    using unat_push_bit_1 [OF f(1)] by (metis unsigned_word_eqI)
  have u: "unat (FloorLog2 x + 1) = ?k + 1"
    using f(1) by (simp add: unat_word_ariths)
  have c: "unat (CeilLog2 x) = (if unat x = 2 ^ ?k then ?k else ?k + 1)"
    unfolding CeilLog2_def Let_def eq by (simp add: u)
  show "unat (CeilLog2 x) \<le> 64" using c f(1) by simp
  show "unat x \<le> 2 ^ unat (CeilLog2 x)" using c f(3) by (simp split: if_splits)
  assume k: "k < unat (CeilLog2 x)"
  show "2 ^ k < unat x"
  proof (cases "k < ?k")
    case True
    then have "(2 :: nat) ^ k < 2 ^ ?k" by (rule power_strict_increasing) simp
    with f(2) show ?thesis by linarith
  next
    case False
    with k c have "k = ?k" "unat x \<noteq> 2 ^ ?k" by (auto split: if_splits)
    with f(2) show ?thesis by (metis le_neq_implies_less)
  qed
qed

text \<open>\<open>CeilLog2\<close> is determined by its two bounds.\<close>

lemma CeilLog2_eqI:
  assumes "x \<noteq> 0" "unat x \<le> 2 ^ n" "n = 0 \<or> 2 ^ (n - 1) < unat x"
  shows "unat (CeilLog2 x) = n"
proof (rule antisym)
  show "unat (CeilLog2 x) \<le> n"
    using CeilLog2_bounds(3) [OF assms(1), of n] assms(2) by (meson linorder_not_less)
  show "n \<le> unat (CeilLog2 x)"
  proof (rule ccontr)
    assume "\<not> n \<le> unat (CeilLog2 x)"
    then have "unat (CeilLog2 x) \<le> n - 1" "n \<noteq> 0" by auto
    then have "(2 :: nat) ^ unat (CeilLog2 x) \<le> 2 ^ (n - 1)" by simp
    with CeilLog2_bounds(2) [OF assms(1)] have "unat x \<le> 2 ^ (n - 1)" by (rule le_trans)
    with assms(3) \<open>n \<noteq> 0\<close> show False by simp
  qed
qed

lemma CeilLog2_power:
  assumes "k < 64"
  shows "unat (CeilLog2 (2 ^ k)) = k"
proof (rule CeilLog2_eqI)
  have u: "unat (2 ^ k :: u64) = 2 ^ k" using assms by (rule unat_power_64)
  then show "(2 :: u64) ^ k \<noteq> 0" by (metis power_not_zero unsigned_0 zero_neq_numeral)
  show "unat (2 ^ k :: u64) \<le> 2 ^ k" by (simp add: u)
  show "k = 0 \<or> 2 ^ (k - 1) < unat (2 ^ k :: u64)" unfolding u by (cases k) simp_all
qed

end
