(* ===== verification/Spec2Isabelle.thy ===== *)
theory Spec2Isabelle
  imports CsBitset CsQueue CsHashtable CsContextHistory QuickMapProps PathDbProps
    CreditRouteProps CreditNoMemory CreditPathsProps IMath
begin

text \<open>
  Verification development for opa-ff, the host fabric software of Omni-Path: the fabric
  manager's common services, the IbAccess quick map, the opasadb path database and the credit
  loop analysis of the topology library.  It models the C sources under src/ as definitions that
  compute, proves what they guarantee, and records where they do not.

  \<^bold>\<open>The program.\<close>  The fabric manager (src/Esm) is built on a layer of common services: locks,
  counted memory pools, bit sets, queues and hash tables (src/Esm/ib/src/cs and
  src/Esm/ib/src/ibaccess).  The host tools (src/IbaTools) and the topology library
  (src/Topology) keep every fabric they read in quick maps, the red-black trees of
  src/IbAccess/Common/Public/iquickmap.c.  The distributed SA agent (src/Dsap) writes what it
  learns from the subnet administrator to a path database in shared memory, which applications
  read through libopasadb (src/opasadb/lib/path).

  \<^bold>\<open>Fabric manager services.\<close>
  \<^item> \<open>VsLock\<close> models vs_lck.c: thread locks, reader/writer locks and recursive spin locks, each
    operation a function from a lock and the calling thread to a status and a lock, \<open>None\<close> when
    the call blocks.  Step relations interleave the threads; mutual exclusion and the exclusion
    of writers are invariants of the reachable states.
  \<^item> \<open>VsPool\<close> models vs_pool_common.c and vs_pool.c: pools as records, blocks with the header the
    allocator writes in front of them.  The pool counter is the sum of the sizes of the live
    blocks after any history; allocation sizes are exact about the 32-bit narrowing, up to the
    lengths whose padded sum wraps below the header, which is then written past the block.
  \<^item> \<open>CsBitset\<close> models cs_bitset.c on blocks of 32-bit words: updates, the scans in both
    directions with their masks and GCC builtins, resizing, copying and intersecting.
  \<^item> \<open>CsQueue\<close> models cs_queue.c: a ring buffer behind a lock, refined by a bounded list queue.
  \<^item> \<open>CsHashtable\<close> models cs_hashtable.c and cs_hashtable.h: entries in a heap that are chained
    in buckets and in a list in insertion order (\<open>Chains\<close> has the lemmas on such lists); any
    script of operations refines an association list, growth included.
  \<^item> \<open>CsSema\<close> models cs_sema.c, counting semaphores over the POSIX calls, with the timed wait as a
    loop whose result the source loses.

  The outcome \<open>FatalAbort\<close> of an operation is the end of the process: a failed assertion, a division
  by zero, or \<^verbatim>\<open>IB_FATAL_ERROR_NODUMP\<close>, which is \<^verbatim>\<open>exit(2)\<close> on Linux (cs_log.h).

  \<^bold>\<open>Request contexts.\<close>  cs_context.c keeps the packets the managers have sent and wait for: a
  block of entries on a free list and on hash lists by destination, with timeouts, retries, a
  response queue or callbacks, a lock and a semaphore for callers that wait for an entry.
  \<open>CsContext\<close> has the records, the state \<open>cntxt_sys\<close> (table, entries by address, queues, packets
  sent, clock readings, counters) and the list primitives; \<open>CsContextOps\<close> every operation, with the
  clock, the random numbers, the packet layer and the callbacks as an environment \<open>cntxt_env\<close>.
  \<open>CsContextInv\<close> states the invariant \<open>pool_is\<close> (doubly linked and exclusive lists, status flags,
  counts) and follows the list operations; \<open>CsContextStep\<close> and \<open>CsContextRun\<close> prove what each operation
  on an entry does, up to its release through the queue or a callback under the contract
  \<open>callback_ok\<close>; \<open>CsContextAge\<close> proves the timeout scan in the locale \<open>ageing\<close>, interpreted for
  tables with arbitrary callbacks and for tables nobody answers; \<open>CsContextInit\<close> treats the
  creation, \<open>CsContextProps\<close> the operations under the lock and \<open>CsContextHistory\<close> the properties:
  histories, responses, the end of unanswered requests, and a table that is never scanned.

  \<^bold>\<open>Quick map.\<close>  \<open>QuickMap\<close> models iquickmap.c and iquickmap.h pointer by pointer: a store of items
  with tree links, colours, keys and list links, each map with its root and its nil item; loops
  over pointers are \<open>partial_function (option)\<close>, so that a result also says that the loop ends.
  \<open>QuickMapTree\<close> has the functional counterpart, rebalancing on a tree with a path to the root;
  \<open>QuickMapHeap\<close> relates trees and paths to the store and follows rotations; \<open>QuickMapBalance\<close>
  proves the two rebalancing loops; \<open>QuickMapCorrect\<close> states the invariant \<open>qmap\<close> (tree, colours,
  order and list together) over a locale of key orders and proves the lookups; \<open>QuickMapInsert\<close>
  and \<open>QuickMapRemove\<close> prove the two updates; \<open>QuickMapSpec\<close> refines operations by finite maps and
  bounds the depth, from which the cost of a lookup after any script follows; \<open>QuickMapMerge\<close> treats merging and differences; \<open>QuickMapProps\<close> states the
  properties.

  \<^bold>\<open>Logarithms.\<close>  \<open>IMath\<close> models imath.c (src/IbAccess/Common/Public), which finds the binary
  logarithm of a 64-bit word by smearing its highest bit and counting bits in parallel; the lemmas
  show that \<open>FloorLog2\<close> and \<open>CeilLog2\<close> are exact for every argument but zero.

  \<^bold>\<open>Path database.\<close>  \<open>PathDb\<close> models opasadb_path_private.c and the lookup calls of
  opasadb_path.c: shared memory objects with names and descriptors, the writer's and the
  readers' handles, the tables as lists with the reserved slot 0, the hash heads as functions of
  the masked hash, and queries with their retry loop, in which other processes act at every
  yield.  The header of a table stores its sizes in 32 bits, and a reader maps the number of bytes
  it finds there: \<open>see_ports\<close>, \<open>see_subnets\<close>, \<open>see_vfabs\<close> and \<open>see_paths\<close> are the records that lie
  within them.  A new descriptor is the lowest free one, 0 included, which the code takes for no
  descriptor.  A result \<open>None\<close> is a read outside an array or through a bad pointer, or a loop that
  does not end; every theorem that gives a result excludes both.  The search of a hash chain tells
  them apart: it returns \<open>Outside\<close> for an index outside the table, and \<open>None\<close> only when it does not
  end.  \<open>PathDbIndex\<close> proves chains of slots
  over the locale \<open>slot_index\<close>, interpreted for the service ids of a subnet and for the two hash
  indexes of a virtual fabric; \<open>PathDbWriter\<close> refines additions by lists through
  \<open>data_refinement\<close>; \<open>PathDbQuery\<close> shows that a query equals a linear search, with stale tables
  reloaded on the way; \<open>PathDbPublish\<close> follows the names and versions through creation,
  publication and connection; \<open>PathDbProps\<close> states the properties.

  \<^bold>\<open>Credit loops.\<close>  opareport and the topology library decide whether the routes of a fabric can
  deadlock (src/Topology/route.c, \<^verbatim>\<open>ValidateAllCreditLoopRoutes\<close>) on a graph whose vertices are
  connections and whose arcs say that some route goes from one connection straight to the next
  (\<^verbatim>\<open>CLGraphData*\<close> in src/Topology/fabricdata.c).  \<open>CreditGraph\<close> models the graph, its arrays that
  grow, its two indices of the arcs (as \<open>KeyMap\<close>s, which is what the quick maps behave as) and all
  operations; \<open>CreditGraphInv\<close> states the invariant \<open>graph_ok\<close>, \<open>CreditGraphArcs\<close> follows the removal
  of an arc, \<open>CreditBuild\<close> the additions.  \<open>CycleCore\<close> is the mathematics of pruning a relation,
  \<open>CreditPrune\<close> shows that \<^verbatim>\<open>CLGraphDataPrune\<close> does it, \<open>CreditSplit\<close> and \<open>CreditVerdict\<close> that splitting
  moves one weakly connected part; \<open>CreditLoopProps\<close> states the properties of these operations.

  \<^bold>\<open>From routes to the graph.\<close>  The devices, connections and routes of a fabric are collected by
  \<^verbatim>\<open>CLDataAddDevice\<close>, \<^verbatim>\<open>CLDataAddConnection\<close> and \<^verbatim>\<open>CLDataAddRoute\<close>;
  \<^verbatim>\<open>CLFabricDataBuildRouteGraph\<close> walks along the route of every pair of end points, on every
  service level in use, and adds its connections and their succession to the graph.  \<open>CreditRoute\<close>
  models this with nodes, ports and connections as records at addresses.  \<open>CreditRoutePath\<close> gives
  the routes as lists of connections and the effect of one walk, \<open>CreditRouteBuild\<close> that of all;
  \<open>CreditFabric\<close> has the invariant \<open>fabric_ok\<close> and its preservation by each call, \<open>CreditCollect\<close>
  the sequences of calls; \<open>CreditRouteEnd\<close> tells routes that end from routing loops;
  \<open>CreditRouteProps\<close> states the properties, among them that the verdict "deadlock free" of the
  whole analysis holds exactly when the successions of connections on the routes are acyclic;
  \<open>CreditNoMemory\<close> shows that one failing allocation gives the same verdict on a fabric with a cycle.

  \<^bold>\<open>Shortest cycles.\<close>  \<open>CreditPaths\<close> models \<^verbatim>\<open>CLDijkstraFindDistancesAndRoutes\<close>, which searches every
  split graph for its shortest cycles, with the check of its result.  \<open>CreditPathsDist\<close> follows the
  loops over the vertices and arcs, \<open>CreditPathsWalk\<close> has the invariant that explains the distances
  by ascending walks and the rows of all vertices, \<open>CreditPathsSelf\<close> the distances of vertices to
  themselves; \<open>CreditPathsProps\<close> states which cycles are found and that others are missed.

  \<^bold>\<open>Shared theory.\<close>  \<open>Prelude\<close> has the word types, status codes, conversions and the locale
  \<open>data_refinement\<close>, which lifts a step-wise simulation to scripts of operations; it is
  interpreted on the hash table, the queue, the quick map and the path database.

  \<^bold>\<open>Bounds and loops.\<close>  Loops over pointers and links carry no fuel.  The retry loop of a query
  has the bound of the source, six passes; four reloads and one answer need five.  The tables of
  the path database are assumed to hold fewer than $2^{16}$ subnets, because subnet numbers are
  stored in 16 bits, and fewer than $2^{32} - 1$ other records; what readers map is stated for
  tables below 4 GB (\<open>below_4gb\<close>), and creating a subnet table of 4 GB or more has no result.  The
  index variables of \<^verbatim>\<open>op_ppath_add_sid\<close>, which are \<^verbatim>\<open>int\<close> in the code, are natural numbers in
  the model; they agree below $2^{31}$ records.  A context table with stepped
  retries has a smallest timeout of at least five microseconds and below $2^{40}$, so that the
  random spread of a timeout is not empty and does not wrap; the end of unanswered requests
  assumes \<open>maxRetries\<close> below $2^{16}$, the width of the counter it is compared with.

  A dependency graph has fewer than $2^{31}$ arcs, whose numbers the code keeps in signed 32-bit
  cells; splitting and building assume room for one arc and one vertex more.  Pruning and the recursion of
  splitting are partial functions that are proved to end.  The walk along a route is one too, and
  does not end on a routing loop; the graph of the routes is stated for routes of at most 1000
  connections that end, and for the first analysis of a process.  The search for cycles is stated
  for graphs of at most 250 vertices, a quarter of the smallest array, because only a quarter of
  each row is copied.

  \<^bold>\<open>Outside the model.\<close>  malloc, the thread primitives and the POSIX calls on shared memory are
  modelled by what they guarantee, with their failures as parameters; hash functions, equality
  tests, comparison callbacks and the verbs library are parameters, as are the clock, the random
  numbers, the packet layer and the completion callbacks of the request contexts.  Log output is
  left out.

  \<^bold>\<open>Not modelled.\<close>  MAD transport, timers and threads of the fabric manager and its configuration
  reader; the IbAccess communication manager, general services and subnet driver; the remaining
  public libraries; the topology library apart from the credit loop analysis, of which the printing
  of the cycles found and the summaries are left out; the command line tools; the daemon around the path database and the route queries; printing, installation and
  tests.  The manifest gives the
  reason for each.
\<close>

end
